(* ===== verification/Prelude.thy ===== *)
theory Prelude
  imports Main "HOL-Library.Word" "HOL-Library.Monad_Syntax"
begin

text \<open>
  What every theory of the development shares: the machine integers of the source, the
  result type of code that can panic, arrays with checked indexing, and generic lemmas.

  A Rust expression that can panic (\<open>unwrap!\<close>, \<open>assert!\<close>, an index out of range, an
  arithmetic overflow) is modelled in the type \<open>'a exec\<close>: \<open>None\<close> is the panic and
  \<open>Some r\<close> is the normal result. A Rust \<open>Option\<close> is a HOL option as well, so a
  function that may panic and returns an \<open>Option<T>\<close> has the type \<open>'t option exec\<close>.
\<close>

unbundle bit_operations_syntax

named_theorems exec_simps \<open>evaluation of the panic monad\<close>
named_theorems ps_simps \<open>membership in priority sets\<close>

type_synonym u8 = "8 word"
type_synonym u16 = "16 word"
type_synonym u32 = "32 word"
type_synonym u64 = "64 word"

type_synonym 'a exec = "'a option"

abbreviation ret :: "'a \<Rightarrow> 'a exec" where
  "ret x \<equiv> Some x"

abbreviation panic :: "'a exec" where
  "panic \<equiv> None"

definition unwrap :: "'a option \<Rightarrow> 'a exec" where
  "unwrap x = (case x of None \<Rightarrow> panic | Some v \<Rightarrow> ret v)"

definition assert_that :: "bool \<Rightarrow> unit exec" where
  "assert_that b = (if b then ret () else panic)"

lemma unwrap_eq [simp, exec_simps]: "unwrap x = x"
  by (simp add: unwrap_def split: option.split)

lemma assert_that_simps [simp, exec_simps]:
  "assert_that True = ret ()" "assert_that False = panic"
  by (simp_all add: assert_that_def)

lemma assert_that_eq [simp]: "assert_that b = Some u \<longleftrightarrow> b"
  by (simp add: assert_that_def)

subsection \<open>Arrays\<close>

text \<open>Reading and writing \<open>xs[i]\<close>: an index out of range panics.\<close>

definition arr_get :: "'a list \<Rightarrow> nat \<Rightarrow> 'a exec" where
  "arr_get xs i = (if i < length xs then ret (xs ! i) else panic)"

definition arr_set :: "'a list \<Rightarrow> nat \<Rightarrow> 'a \<Rightarrow> 'a list exec" where
  "arr_set xs i v = (if i < length xs then ret (xs[i := v]) else panic)"

lemma arr_get_in [simp]: "i < length xs \<Longrightarrow> arr_get xs i = Some (xs ! i)"
  by (simp add: arr_get_def)

lemma arr_set_in [simp]: "i < length xs \<Longrightarrow> arr_set xs i v = Some (xs[i := v])"
  by (simp add: arr_set_def)

lemma arr_get_Some_iff: "arr_get xs i = Some v \<longleftrightarrow> i < length xs \<and> v = xs ! i"
  by (auto simp: arr_get_def)

lemma arr_set_Some_iff: "arr_set xs i v = Some ys \<longleftrightarrow> i < length xs \<and> ys = xs[i := v]"
  by (auto simp: arr_set_def)

text \<open>
  An array of \<open>u8\<close> indices is modelled with natural numbers; the conversion into a \<open>u8\<close>
  and the addition of two of them panic when the result does not fit.
\<close>

definition u8_of :: "nat \<Rightarrow> nat exec" where
  "u8_of n = (if n < 256 then ret n else panic)"

lemma u8_of_in [simp]: "n < 256 \<Longrightarrow> u8_of n = Some n"
  by (simp add: u8_of_def)

text \<open>Subtraction of two \<open>usize\<close> values, and checked subtraction (\<open>checked_sub\<close>).\<close>

definition sub_of :: "nat \<Rightarrow> nat \<Rightarrow> nat exec" where
  "sub_of a b = (if b \<le> a then ret (a - b) else panic)"

definition checked_sub :: "nat \<Rightarrow> nat \<Rightarrow> nat option" where
  "checked_sub a b = (if b \<le> a then Some (a - b) else None)"

lemma sub_of_in [simp]: "b \<le> a \<Longrightarrow> sub_of a b = Some (a - b)"
  by (simp add: sub_of_def)

subsection \<open>Slices\<close>

text \<open>\<open>xs[a..b]\<close>, \<open>split_at_mut\<close>, \<open>copy_from_slice\<close> and \<open>fill\<close> of the standard library.\<close>

definition slice :: "'a list \<Rightarrow> nat \<Rightarrow> nat \<Rightarrow> 'a list exec" where
  "slice xs a b = (if a \<le> b \<and> b \<le> length xs then ret (take (b - a) (drop a xs)) else panic)"

definition split_at :: "'a list \<Rightarrow> nat \<Rightarrow> ('a list \<times> 'a list) exec" where
  "split_at xs n = (if n \<le> length xs then ret (take n xs, drop n xs) else panic)"

definition copy_from_slice :: "'a list \<Rightarrow> 'a list \<Rightarrow> 'a list exec" where
  "copy_from_slice dst src = (if length dst = length src then ret src else panic)"

definition fill :: "'a list \<Rightarrow> 'a \<Rightarrow> 'a list" where
  "fill xs v = replicate (length xs) v"

lemma slice_in [simp]:
  "a \<le> b \<Longrightarrow> b \<le> length xs \<Longrightarrow> slice xs a b = Some (take (b - a) (drop a xs))"
  by (simp add: slice_def)

lemma split_at_in [simp]: "n \<le> length xs \<Longrightarrow> split_at xs n = Some (take n xs, drop n xs)"
  by (simp add: split_at_def)

lemma copy_from_slice_in [simp]:
  "length dst = length src \<Longrightarrow> copy_from_slice dst src = Some src"
  by (simp add: copy_from_slice_def)

lemma length_fill [simp]: "length (fill xs v) = length xs"
  by (simp add: fill_def)

subsection \<open>Lists\<close>

text \<open>\<open>dst[off .. off + src.len()].copy_from_slice(src)\<close>, for a range inside \<open>dst\<close>.\<close>

definition copy_at :: "'a list \<Rightarrow> nat \<Rightarrow> 'a list \<Rightarrow> 'a list" where
  "copy_at dst off src = take off dst @ src @ drop (off + length src) dst"

lemma length_copy_at [simp]:
  "off + length src \<le> length dst \<Longrightarrow> length (copy_at dst off src) = length dst"
  by (simp add: copy_at_def)

lemma copy_at_Nil [simp]: "copy_at dst off [] = dst"
  by (simp add: copy_at_def)

lemma take_copy_at:
  "off + length src \<le> length dst \<Longrightarrow>
    take (off + length src) (copy_at dst off src) = take off dst @ src"
  by (simp add: copy_at_def)

subsection \<open>Loops\<close>

text \<open>A \<open>for\<close> loop over the elements of a list with a body that may panic.\<close>

fun for_each :: "('a \<Rightarrow> 's \<Rightarrow> 's exec) \<Rightarrow> 'a list \<Rightarrow> 's \<Rightarrow> 's exec" where
  "for_each f [] s = ret s"
| "for_each f (x # xs) s = do { s \<leftarrow> f x s; for_each f xs s }"

lemma for_each_append:
  "for_each f (xs @ ys) s = do { s \<leftarrow> for_each f xs s; for_each f ys s }"
  by (induction xs arbitrary: s) (auto split: bind_splits)

lemma for_each_cong:
  "(\<And>x s. x \<in> set xs \<Longrightarrow> f x s = g x s) \<Longrightarrow> for_each f xs s = for_each g xs s"
  by (induction xs arbitrary: s) (auto split: bind_splits)

end
