(* ===== verification/Core_Types.thy ===== *)
theory Core_Types
  imports Prelude
begin

text \<open>
  The crate \<open>emcyphal-core\<close> (\<open>emcyphal-core/src/lib.rs\<close>): transfer priorities, sets of
  priorities as bit masks, and the identifiers of nodes, subjects, services and transfers.
\<close>

section \<open>Priority\<close>

datatype priority =
  Exceptional | Immediate | Fast | High | Nominal | Low | Slow | Optional

fun priority_into_u8 :: "priority \<Rightarrow> u8" where
  "priority_into_u8 Exceptional = 0"
| "priority_into_u8 Immediate = 1"
| "priority_into_u8 Fast = 2"
| "priority_into_u8 High = 3"
| "priority_into_u8 Nominal = 4"
| "priority_into_u8 Low = 5"
| "priority_into_u8 Slow = 6"
| "priority_into_u8 Optional = 7"

text \<open>The derived order of the enum compares the discriminants.\<close>

instantiation priority :: linorder
begin

definition less_eq_priority :: "priority \<Rightarrow> priority \<Rightarrow> bool" where
  "less_eq_priority p q \<longleftrightarrow> priority_into_u8 p \<le> priority_into_u8 q"

definition less_priority :: "priority \<Rightarrow> priority \<Rightarrow> bool" where
  "less_priority p q \<longleftrightarrow> priority_into_u8 p < priority_into_u8 q"

instance
proof
  fix p q r :: priority
  show "(p < q) = (p \<le> q \<and> \<not> q \<le> p)"
    by (auto simp: less_eq_priority_def less_priority_def)
  show "p \<le> p"
    by (simp add: less_eq_priority_def)
  show "p \<le> q \<Longrightarrow> q \<le> r \<Longrightarrow> p \<le> r"
    by (auto simp: less_eq_priority_def)
  show "p \<le> q \<Longrightarrow> q \<le> p \<Longrightarrow> p = q"
    unfolding less_eq_priority_def by (cases p; cases q; simp add: word_le_nat_alt)
  show "p \<le> q \<or> q \<le> p"
    by (auto simp: less_eq_priority_def)
qed

end

definition priority_MIN :: priority where
  "priority_MIN = Exceptional"

definition priority_MAX :: priority where
  "priority_MAX = Optional"

text \<open>The last arm of the source's match is \<open>unreachable!()\<close>: \<open>code & 7\<close> is at most 7.\<close>

definition priority_from_u8_truncating :: "u8 \<Rightarrow> priority" where
  "priority_from_u8_truncating code = (let c = code AND 0x7 in
     if c = 0 then Exceptional
     else if c = 1 then Immediate
     else if c = 2 then Fast
     else if c = 3 then High
     else if c = 4 then Nominal
     else if c = 5 then Low
     else if c = 6 then Slow
     else Optional)"

definition priority_try_from_u8 :: "u8 \<Rightarrow> priority option" where
  "priority_try_from_u8 code =
     (if code \<le> priority_into_u8 priority_MAX
      then Some (priority_from_u8_truncating code) else None)"

definition priority_next :: "priority \<Rightarrow> priority option" where
  "priority_next p = priority_try_from_u8 (priority_into_u8 p + 1)"

definition priority_prev :: "priority \<Rightarrow> priority option" where
  "priority_prev p =
     (if priority_into_u8 p \<ge> 1
      then Some (priority_from_u8_truncating (priority_into_u8 p - 1)) else None)"

text \<open>The level of a priority as an array index (\<open>usize::from(u8::from(p))\<close>).\<close>

definition level :: "priority \<Rightarrow> nat" where
  "level p = unat (priority_into_u8 p)"

lemma level_simps [simp]:
  "level Exceptional = 0" "level Immediate = 1" "level Fast = 2" "level High = 3"
  "level Nominal = 4" "level Low = 5" "level Slow = 6" "level Optional = 7"
  by (simp_all add: level_def)

lemma level_less [simp]: "level p < 8"
  by (cases p) simp_all

lemma level_eq_iff [simp]: "level p = level q \<longleftrightarrow> p = q"
  by (cases p; cases q; simp)

lemma level_le_iff: "p \<le> q \<longleftrightarrow> level p \<le> level q"
  by (simp add: less_eq_priority_def level_def word_le_nat_alt)

lemma level_less_iff: "p < q \<longleftrightarrow> level p < level q"
  by (simp add: less_priority_def level_def word_less_nat_alt)

lemma code_and_7_cases: "(code :: u8) AND 0x7 \<le> 7"
  by (rule word_and_le1)

lemma u8_le_7_cases: "(c :: u8) \<le> 7 \<Longrightarrow> c \<in> {0, 1, 2, 3, 4, 5, 6, 7}"
  by (auto simp: word_le_nat_alt word_unat_eq_iff)

lemma into_u8_truncating [simp]:
  "priority_into_u8 (priority_from_u8_truncating code) = code AND 0x7"
  using u8_le_7_cases [OF code_and_7_cases [of code]]
  by (auto simp: priority_from_u8_truncating_def Let_def)

lemma truncating_into_u8 [simp]: "priority_from_u8_truncating (priority_into_u8 p) = p"
  by (cases p) (simp_all add: priority_from_u8_truncating_def Let_def)

section \<open>Priority sets\<close>

text \<open>
  \<open>PrioritySet(u8)\<close>: bit \<open>i\<close> is set when the priority of level \<open>i\<close> is a member. The
  \<open>&mut self\<close> methods return the new set.
\<close>

datatype priority_set = PrioritySet (into_bits: u8)

definition ps_NONE :: priority_set where
  "ps_NONE = PrioritySet 0"

definition ps_ALL :: priority_set where
  "ps_ALL = PrioritySet 0xFF"

definition ps_from_bits :: "u8 \<Rightarrow> priority_set" where
  "ps_from_bits bits = PrioritySet bits"

definition ps_complement :: "priority_set \<Rightarrow> priority_set" where
  "ps_complement s = PrioritySet (NOT (into_bits s))"

definition ps_new_eq :: "priority \<Rightarrow> priority_set" where
  "ps_new_eq p = PrioritySet (push_bit (level p) 1)"

definition ps_new_ge :: "priority \<Rightarrow> priority_set" where
  "ps_new_ge p = PrioritySet (push_bit (level p) 0xFF)"

definition ps_new_le :: "priority \<Rightarrow> priority_set" where
  "ps_new_le p = PrioritySet (drop_bit (level priority_MAX - level p) 0xFF)"

definition ps_new_gt :: "priority \<Rightarrow> priority_set" where
  "ps_new_gt p = ps_complement (ps_new_le p)"

definition ps_new_lt :: "priority \<Rightarrow> priority_set" where
  "ps_new_lt p = ps_complement (ps_new_ge p)"

definition ps_contains :: "priority_set \<Rightarrow> priority \<Rightarrow> bool" where
  "ps_contains s p \<longleftrightarrow> drop_bit (level p) (into_bits s) AND 0x1 \<noteq> 0"

definition ps_insert :: "priority_set \<Rightarrow> priority \<Rightarrow> priority_set" where
  "ps_insert s p = PrioritySet (into_bits s OR into_bits (ps_new_eq p))"

definition ps_remove :: "priority_set \<Rightarrow> priority \<Rightarrow> priority_set" where
  "ps_remove s p = PrioritySet (into_bits s AND into_bits (ps_complement (ps_new_eq p)))"

text \<open>\<open>u8::trailing_zeros\<close> and \<open>u8::leading_zeros\<close> of the standard library (8 for 0).\<close>

definition trailing_zeros :: "u8 \<Rightarrow> nat" where
  "trailing_zeros w = length (takeWhile (\<lambda>i. \<not> bit w i) [0..<8])"

definition leading_zeros :: "u8 \<Rightarrow> nat" where
  "leading_zeros w = length (takeWhile (\<lambda>i. \<not> bit w i) (rev [0..<8]))"

definition ps_first :: "priority_set \<Rightarrow> priority option" where
  "ps_first s = priority_try_from_u8 (of_nat (trailing_zeros (into_bits s)))"

definition ps_last :: "priority_set \<Rightarrow> priority option" where
  "ps_last s = (let n = 8 - leading_zeros (into_bits s) in
     priority_try_from_u8 (of_nat n - 1))"

definition ps_is_empty :: "priority_set \<Rightarrow> bool" where
  "ps_is_empty s \<longleftrightarrow> into_bits s = into_bits ps_NONE"

definition ps_not :: "priority_set \<Rightarrow> priority_set" where
  "ps_not s = PrioritySet (NOT (into_bits s))"

definition ps_and :: "priority_set \<Rightarrow> priority_set \<Rightarrow> priority_set" where
  "ps_and s t = PrioritySet (into_bits s AND into_bits t)"

definition ps_or :: "priority_set \<Rightarrow> priority_set \<Rightarrow> priority_set" where
  "ps_or s t = PrioritySet (into_bits s OR into_bits t)"

subsection \<open>Sets as sets\<close>

lemma ps_contains_bit: "ps_contains s p \<longleftrightarrow> bit (into_bits s) (level p)"
  by (simp add: ps_contains_def bit_iff_odd_drop_bit and_one_eq odd_iff_mod_2_eq_one)

lemma ps_contains_from_bits [ps_simps]: "ps_contains (PrioritySet b) p \<longleftrightarrow> bit b (level p)"
  by (simp add: ps_contains_bit)

lemma exists_level: "i < 8 \<Longrightarrow> \<exists>p. level p = i"
proof -
  assume "i < 8"
  then have "i \<in> level ` {Exceptional, Immediate, Fast, High, Nominal, Low, Slow, Optional}"
    by auto
  then show ?thesis by blast
qed

lemma ps_eqI: "(\<And>p. ps_contains s p = ps_contains t p) \<Longrightarrow> s = t"
proof -
  assume eq: "\<And>p. ps_contains s p = ps_contains t p"
  have "into_bits s = into_bits t"
  proof (rule bit_word_eqI)
    fix n assume "n < LENGTH(8)"
    then obtain p where "level p = n" using exists_level by auto
    then show "bit (into_bits s) n = bit (into_bits t) n"
      using eq [of p] by (simp add: ps_contains_bit)
  qed
  then show ?thesis by (simp add: priority_set.expand)
qed

lemma ps_contains_NONE [simp]: "\<not> ps_contains ps_NONE p"
  by (simp add: ps_contains_bit ps_NONE_def)

lemma bit_FF: "bit (0xFF :: int) n \<longleftrightarrow> n < 8"
proof -
  have "(0xFF :: int) = mask 8" by (simp add: mask_eq_exp_minus_1)
  then show ?thesis by (simp only: bit_mask_iff) simp
qed

lemma ps_contains_ALL [simp]: "ps_contains ps_ALL p"
  by (simp add: ps_contains_bit ps_ALL_def bit_FF)

lemma ps_contains_complement [simp]: "ps_contains (ps_complement s) p \<longleftrightarrow> \<not> ps_contains s p"
  by (simp add: ps_contains_bit ps_complement_def bit_not_iff)

lemma ps_contains_new_eq [simp]: "ps_contains (ps_new_eq p) q \<longleftrightarrow> q = p"
  by (auto simp: ps_contains_bit ps_new_eq_def bit_exp_iff)

lemma ps_contains_new_ge [simp]: "ps_contains (ps_new_ge p) q \<longleftrightarrow> p \<le> q"
  by (auto simp: ps_contains_bit ps_new_ge_def bit_push_bit_iff bit_FF level_le_iff
      less_imp_diff_less)

lemma ps_contains_new_le [simp]: "ps_contains (ps_new_le p) q \<longleftrightarrow> q \<le> p"
proof -
  have "level p \<le> 7" using level_less [of p] by linarith
  then have "7 - level p + level q < 8 \<longleftrightarrow> level q \<le> level p" by arith
  then show ?thesis
    by (auto simp: ps_contains_bit ps_new_le_def bit_drop_bit_eq bit_FF level_le_iff
        priority_MAX_def)
qed

lemma ps_contains_new_gt [simp]: "ps_contains (ps_new_gt p) q \<longleftrightarrow> p < q"
  by (auto simp: ps_new_gt_def)

lemma ps_contains_new_lt [simp]: "ps_contains (ps_new_lt p) q \<longleftrightarrow> q < p"
  by (auto simp: ps_new_lt_def)

lemma ps_contains_insert [simp]: "ps_contains (ps_insert s p) q \<longleftrightarrow> q = p \<or> ps_contains s q"
  using ps_contains_new_eq [of p q]
  by (auto simp: ps_contains_bit ps_insert_def bit_or_iff)

lemma ps_contains_remove [simp]: "ps_contains (ps_remove s p) q \<longleftrightarrow> q \<noteq> p \<and> ps_contains s q"
  using ps_contains_complement [of "ps_new_eq p" q] ps_contains_new_eq [of p q]
  by (auto simp: ps_contains_bit ps_remove_def bit_and_iff)

lemma ps_contains_not [simp]: "ps_contains (ps_not s) p \<longleftrightarrow> \<not> ps_contains s p"
  by (simp add: ps_contains_bit ps_not_def bit_not_iff)

lemma ps_contains_and [simp]: "ps_contains (ps_and s t) p \<longleftrightarrow> ps_contains s p \<and> ps_contains t p"
  by (simp add: ps_contains_bit ps_and_def bit_and_iff)

lemma ps_contains_or [simp]: "ps_contains (ps_or s t) p \<longleftrightarrow> ps_contains s p \<or> ps_contains t p"
  by (simp add: ps_contains_bit ps_or_def bit_or_iff)

lemma ps_is_empty_iff: "ps_is_empty s \<longleftrightarrow> (\<forall>p. \<not> ps_contains s p)"
proof
  assume "ps_is_empty s"
  then have "s = ps_NONE" by (simp add: ps_is_empty_def priority_set.expand)
  then show "\<forall>p. \<not> ps_contains s p" by simp
next
  assume "\<forall>p. \<not> ps_contains s p"
  then have "s = ps_NONE" by (intro ps_eqI) simp
  then show "ps_is_empty s" by (simp add: ps_is_empty_def)
qed

lemma ps_is_empty_simps [simp]:
  "ps_is_empty ps_NONE" "\<not> ps_is_empty ps_ALL" "\<not> ps_is_empty (ps_new_eq p)"
  "\<not> ps_is_empty (ps_insert s p)"
  by (auto simp: ps_is_empty_iff)

subsection \<open>The first and the last member\<close>

lemma try_from_level: "i < 8 \<Longrightarrow> \<exists>p. priority_try_from_u8 (of_nat i) = Some p \<and> level p = i"
proof -
  assume "i < 8"
  then obtain p where p: "level p = i" using exists_level by blast
  then have "of_nat i = priority_into_u8 p" by (auto simp: level_def)
  moreover have "priority_into_u8 p \<le> priority_into_u8 priority_MAX"
    using level_less [of p] by (simp add: word_le_nat_alt priority_MAX_def level_def)
  ultimately show ?thesis using p by (simp add: priority_try_from_u8_def)
qed

lemma try_from_large: "8 \<le> i \<Longrightarrow> i < 256 \<Longrightarrow> priority_try_from_u8 (of_nat i) = None"
  by (simp add: priority_try_from_u8_def priority_MAX_def word_le_nat_alt unat_of_nat)

text \<open>
  The scans of the 8 bits find the least and the greatest member: the reference is the
  linear order of the enum, not the bit trick.
\<close>

lemma ps_scan_cases:
  assumes "\<not> ps_is_empty s"
  obtains lo hi where "ps_contains s lo" "ps_contains s hi"
    "\<And>q. ps_contains s q \<Longrightarrow> lo \<le> q \<and> q \<le> hi"
proof -
  let ?M = "level ` {q. ps_contains s q}"
  have fin: "finite ?M"
    by (rule finite_subset [of _ "{..<8}"]) auto
  have ne: "?M \<noteq> {}" using assms by (auto simp: ps_is_empty_iff)
  obtain lo where "ps_contains s lo" "level lo = Min ?M"
    using Min_in [OF fin ne] by auto
  moreover obtain hi where "ps_contains s hi" "level hi = Max ?M"
    using Max_in [OF fin ne] by auto
  moreover have "Min ?M \<le> level q \<and> level q \<le> Max ?M" if "ps_contains s q" for q
    using that fin by auto
  ultimately show ?thesis
    using that by (metis level_le_iff)
qed

lemma trailing_zeros_eq:
  assumes "bit w k" "\<And>i. bit w i \<Longrightarrow> k \<le> i" "k < 8"
  shows "trailing_zeros w = k"
proof -
  have "takeWhile (\<lambda>i. \<not> bit w i) [0..<8] = take k [0..<8]"
    using assms by (intro takeWhile_eq_take_P_nth) (auto simp: not_less [symmetric])
  then show ?thesis using assms(3) by (simp only: trailing_zeros_def) simp
qed

lemma leading_zeros_eq:
  assumes "bit w k" "\<And>i. bit w i \<Longrightarrow> i \<le> k" "k < 8"
  shows "leading_zeros w = 7 - k"
proof -
  have "takeWhile (\<lambda>i. \<not> bit w i) (rev [0..<8]) = take (7 - k) (rev [0..<8])"
  proof (intro takeWhile_eq_take_P_nth)
    fix i assume "i < 7 - k" "i < length (rev [0..<8::nat])"
    then have "rev [0..<8] ! i = 7 - i" "k < 7 - i" by (simp_all add: rev_nth)
    then show "\<not> bit w (rev [0..<8] ! i)" using assms(2) [of "7 - i"] by auto
  qed (use assms in \<open>simp add: rev_nth\<close>)
  then show ?thesis using assms(3) by (simp only: leading_zeros_def) simp
qed

lemma ps_first_last_empty:
  assumes "ps_is_empty s"
  shows "ps_first s = None" "ps_last s = None"
proof -
  have s: "s = ps_NONE" using assms by (simp add: ps_is_empty_iff ps_eqI)
  have "trailing_zeros 0 = 8" "leading_zeros 0 = 8"
    by (simp_all add: trailing_zeros_def leading_zeros_def
        takeWhile_eq_all_conv [THEN iffD2])
  moreover have "(- 1 :: u8) = of_nat 255" by simp
  then have "priority_try_from_u8 (- 1) = None"
    using try_from_large [of 255] by (simp only:)
  ultimately show "ps_first s = None" "ps_last s = None"
    using try_from_large [of 8]
    by (simp_all add: s ps_first_def ps_last_def ps_NONE_def)
qed

lemma ps_first_eqI:
  assumes "ps_contains s p" "\<And>q. ps_contains s q \<Longrightarrow> p \<le> q"
  shows "ps_first s = Some p"
proof -
  have "trailing_zeros (into_bits s) = level p"
  proof (rule trailing_zeros_eq)
    fix i assume i: "bit (into_bits s) i"
    then have "i < 8" using bit_imp_le_length by fastforce
    then obtain q where "level q = i" using exists_level by blast
    with i assms(2) [of q] show "level p \<le> i" by (auto simp: ps_contains_bit level_le_iff)
  qed (use assms(1) in \<open>simp_all add: ps_contains_bit\<close>)
  then show ?thesis
    using try_from_level [OF level_less [of p]] by (auto simp: ps_first_def)
qed

lemma ps_last_eqI:
  assumes "ps_contains s p" "\<And>q. ps_contains s q \<Longrightarrow> q \<le> p"
  shows "ps_last s = Some p"
proof -
  have "leading_zeros (into_bits s) = 7 - level p"
  proof (rule leading_zeros_eq)
    fix i assume i: "bit (into_bits s) i"
    then have "i < 8" using bit_imp_le_length by fastforce
    then obtain q where "level q = i" using exists_level by blast
    with i assms(2) [of q] show "i \<le> level p" by (auto simp: ps_contains_bit level_le_iff)
  qed (use assms(1) in \<open>simp_all add: ps_contains_bit\<close>)
  moreover have "8 - (7 - level p) = Suc (level p)" using level_less [of p] by linarith
  ultimately show ?thesis
    using try_from_level [OF level_less [of p]] by (auto simp: ps_last_def)
qed

lemma ps_first_None: "ps_first s = None \<longleftrightarrow> ps_is_empty s"
  by (metis ps_scan_cases ps_first_eqI ps_first_last_empty(1) option.distinct(1))

lemma ps_last_None: "ps_last s = None \<longleftrightarrow> ps_is_empty s"
  by (metis ps_scan_cases ps_last_eqI ps_first_last_empty(2) option.distinct(1))

lemma ps_last_iff:
  "ps_last s = Some p \<longleftrightarrow> ps_contains s p \<and> (\<forall>q. ps_contains s q \<longrightarrow> q \<le> p)"
  by (metis ps_scan_cases ps_last_eqI ps_last_None option.distinct(1) option.inject)

lemma ps_first_iff:
  "ps_first s = Some p \<longleftrightarrow> ps_contains s p \<and> (\<forall>q. ps_contains s q \<longrightarrow> p \<le> q)"
  by (metis ps_scan_cases ps_first_eqI ps_first_None option.distinct(1) option.inject)

lemmas ps_scans = ps_first_iff ps_last_iff ps_first_None ps_last_None

subsection \<open>Iteration\<close>

text \<open>\<open>PrioritySetIterator::next\<close>, and the sequence of items a \<open>for\<close> loop over a set sees.\<close>

definition ps_iter_next :: "priority_set \<Rightarrow> priority option \<times> priority_set" where
  "ps_iter_next residual = (let first = ps_first residual in
     (first, case first of Some priority \<Rightarrow> ps_remove residual priority | None \<Rightarrow> residual))"

definition ps_members :: "priority_set \<Rightarrow> priority set" where
  "ps_members s = {p. ps_contains s p}"

lemma finite_ps_members [simp]: "finite (ps_members s)"
proof (rule finite_subset)
  show "ps_members s \<subseteq> {Exceptional, Immediate, Fast, High, Nominal, Low, Slow, Optional}"
    using priority.exhaust by auto
qed simp

function ps_into_iter :: "priority_set \<Rightarrow> priority list" where
  "ps_into_iter s = (case ps_iter_next s of
     (None, _) \<Rightarrow> []
   | (Some p, residual) \<Rightarrow> p # ps_into_iter residual)"
  by pat_completeness auto
termination
proof (relation "measure (\<lambda>s. card (ps_members s))")
  fix s p_opt residual p
  assume "(p_opt, residual) = ps_iter_next s" "p_opt = Some p"
  then have first: "ps_first s = Some p" and residual: "residual = ps_remove s p"
    by (cases "ps_first s"; simp add: ps_iter_next_def)+
  have "ps_members residual \<subset> ps_members s"
    using first by (auto simp: residual ps_members_def ps_first_iff)
  then show "(residual, s) \<in> measure (\<lambda>s. card (ps_members s))"
    by (simp add: psubset_card_mono)
qed simp

declare ps_into_iter.simps [simp del]

lemma ps_into_iter_empty: "ps_is_empty s \<Longrightarrow> ps_into_iter s = []"
  using ps_first_None [of s] by (simp add: ps_into_iter.simps ps_iter_next_def)

lemma ps_into_iter_step:
  "ps_first s = Some p \<Longrightarrow> ps_into_iter s = p # ps_into_iter (ps_remove s p)"
  by (subst ps_into_iter.simps) (simp add: ps_iter_next_def)

lemma ps_into_iter_spec: "sorted_wrt (<) (ps_into_iter s) \<and> set (ps_into_iter s) = ps_members s"
proof (induction "card (ps_members s)" arbitrary: s rule: less_induct)
  case less
  show ?case
  proof (cases "ps_first s")
    case None
    then show ?thesis
      by (auto simp: ps_first_None ps_into_iter_empty ps_members_def ps_is_empty_iff)
  next
    case (Some p)
    have "card (ps_members (ps_remove s p)) < card (ps_members s)"
      using Some
      by (intro psubset_card_mono finite_ps_members) (auto simp: ps_members_def ps_first_iff)
    from less [OF this] Some show ?thesis
      by (auto simp: ps_into_iter_step ps_first_iff ps_members_def order.strict_iff_order)
  qed
qed

section \<open>Identifiers\<close>

datatype node_id = NodeId (node_id_into_u8: u8)

instantiation node_id :: linorder
begin

definition less_eq_node_id :: "node_id \<Rightarrow> node_id \<Rightarrow> bool" where
  "a \<le> b \<longleftrightarrow> node_id_into_u8 a \<le> node_id_into_u8 b"

definition less_node_id :: "node_id \<Rightarrow> node_id \<Rightarrow> bool" where
  "a < b \<longleftrightarrow> node_id_into_u8 a < node_id_into_u8 b"

instance
  by standard (auto simp: less_eq_node_id_def less_node_id_def intro: node_id.expand)

end

definition node_id_MAX_VALUE :: u8 where
  "node_id_MAX_VALUE = 0x7f"

definition node_id_from_u8_truncating :: "u8 \<Rightarrow> node_id" where
  "node_id_from_u8_truncating v = NodeId (v AND node_id_MAX_VALUE)"

definition node_id_new :: "u8 \<Rightarrow> node_id option" where
  "node_id_new v =
     (if v \<le> node_id_MAX_VALUE then Some (node_id_from_u8_truncating v) else None)"

definition node_id_usize :: "node_id \<Rightarrow> nat" where
  "node_id_usize n = unat (node_id_into_u8 n)"

datatype subject_id = SubjectId (subject_id_into_u16: u16)

instantiation subject_id :: linorder
begin

definition less_eq_subject_id :: "subject_id \<Rightarrow> subject_id \<Rightarrow> bool" where
  "a \<le> b \<longleftrightarrow> subject_id_into_u16 a \<le> subject_id_into_u16 b"

definition less_subject_id :: "subject_id \<Rightarrow> subject_id \<Rightarrow> bool" where
  "a < b \<longleftrightarrow> subject_id_into_u16 a < subject_id_into_u16 b"

instance
  by standard (auto simp: less_eq_subject_id_def less_subject_id_def intro: subject_id.expand)

end

definition subject_id_MAX_VALUE :: u16 where
  "subject_id_MAX_VALUE = 0x1fff"

definition subject_id_MAX :: subject_id where
  "subject_id_MAX = SubjectId subject_id_MAX_VALUE"

definition subject_id_from_u16_truncating :: "u16 \<Rightarrow> subject_id" where
  "subject_id_from_u16_truncating v = SubjectId (v AND subject_id_MAX_VALUE)"

definition subject_id_new :: "u16 \<Rightarrow> subject_id option" where
  "subject_id_new v =
     (if v \<le> subject_id_MAX_VALUE then Some (subject_id_from_u16_truncating v) else None)"

datatype service_id = ServiceId (service_id_into_u16: u16)

instantiation service_id :: linorder
begin

definition less_eq_service_id :: "service_id \<Rightarrow> service_id \<Rightarrow> bool" where
  "a \<le> b \<longleftrightarrow> service_id_into_u16 a \<le> service_id_into_u16 b"

definition less_service_id :: "service_id \<Rightarrow> service_id \<Rightarrow> bool" where
  "a < b \<longleftrightarrow> service_id_into_u16 a < service_id_into_u16 b"

instance
  by standard (auto simp: less_eq_service_id_def less_service_id_def intro: service_id.expand)

end

definition service_id_MAX_VALUE :: u16 where
  "service_id_MAX_VALUE = 0x1ff"

definition service_id_from_u16_truncating :: "u16 \<Rightarrow> service_id" where
  "service_id_from_u16_truncating v = ServiceId (v AND service_id_MAX_VALUE)"

definition service_id_new :: "u16 \<Rightarrow> service_id option" where
  "service_id_new v =
     (if v \<le> service_id_MAX_VALUE then Some (service_id_from_u16_truncating v) else None)"

text \<open>The source declares \<open>ServiceId::MAX\<close> with the type \<open>SubjectId\<close>.\<close>

definition service_id_MAX :: subject_id where
  "service_id_MAX = SubjectId service_id_MAX_VALUE"

datatype transfer_id = TransferId (transfer_id_into_u8: u8)

definition transfer_id_MAX_VALUE :: u8 where
  "transfer_id_MAX_VALUE = 0x1f"

definition transfer_id_SESSION_START :: transfer_id where
  "transfer_id_SESSION_START = TransferId 0"

definition transfer_id_from_u8_truncating :: "u8 \<Rightarrow> transfer_id" where
  "transfer_id_from_u8_truncating v = TransferId (v AND transfer_id_MAX_VALUE)"

definition transfer_id_new :: "u8 \<Rightarrow> transfer_id option" where
  "transfer_id_new v =
     (if v \<le> transfer_id_MAX_VALUE then Some (transfer_id_from_u8_truncating v) else None)"

definition transfer_id_next :: "transfer_id \<Rightarrow> transfer_id" where
  "transfer_id_next t = TransferId ((transfer_id_into_u8 t + 1) AND transfer_id_MAX_VALUE)"

text \<open>
  The fields are private, so every identifier comes from \<open>new\<close> or from the truncating
  constructor and is in range; the predicates state that range.
\<close>

definition node_id_wf :: "node_id \<Rightarrow> bool" where
  "node_id_wf n \<longleftrightarrow> node_id_into_u8 n \<le> node_id_MAX_VALUE"

definition subject_id_wf :: "subject_id \<Rightarrow> bool" where
  "subject_id_wf n \<longleftrightarrow> subject_id_into_u16 n \<le> subject_id_MAX_VALUE"

definition service_id_wf :: "service_id \<Rightarrow> bool" where
  "service_id_wf n \<longleftrightarrow> service_id_into_u16 n \<le> service_id_MAX_VALUE"

definition transfer_id_wf :: "transfer_id \<Rightarrow> bool" where
  "transfer_id_wf n \<longleftrightarrow> transfer_id_into_u8 n \<le> transfer_id_MAX_VALUE"

lemma word_and_mask_id: "(w :: 'a :: len word) \<le> mask n \<Longrightarrow> w AND mask n = w"
proof (cases "n < LENGTH('a)")
  case True
  assume "w \<le> mask n"
  then have "uint w \<le> uint (mask n :: 'a word)" by (simp add: word_le_def)
  also have "\<dots> = mask n" using True by (simp add: uint_mask_eq min_def)
  also have "\<dots> < 2 ^ n" by (simp add: mask_eq_exp_minus_1)
  finally show ?thesis by (simp add: mask_eq_iff)
next
  case False
  then have "mask n = (-1 :: 'a word)" by (intro bit_word_eqI) (simp add: bit_mask_iff)
  then show ?thesis by simp
qed

lemmas id_mask_defs =
  node_id_MAX_VALUE_def subject_id_MAX_VALUE_def service_id_MAX_VALUE_def transfer_id_MAX_VALUE_def

lemma id_masks:
  "node_id_MAX_VALUE = mask 7" "subject_id_MAX_VALUE = mask 13"
  "service_id_MAX_VALUE = mask 9" "transfer_id_MAX_VALUE = mask 5"
  by (simp_all add: id_mask_defs mask_eq_exp_minus_1)

lemma truncating_wf [simp]:
  "node_id_wf (node_id_from_u8_truncating b)" "subject_id_wf (subject_id_from_u16_truncating c)"
  "service_id_wf (service_id_from_u16_truncating c)"
  "transfer_id_wf (transfer_id_from_u8_truncating b)" "transfer_id_wf (transfer_id_next t)"
  by (simp_all add: node_id_wf_def subject_id_wf_def service_id_wf_def transfer_id_wf_def
      node_id_from_u8_truncating_def subject_id_from_u16_truncating_def
      service_id_from_u16_truncating_def transfer_id_from_u8_truncating_def transfer_id_next_def
      word_and_le1)

lemma truncating_id [simp]:
  "node_id_wf n \<Longrightarrow> node_id_from_u8_truncating (node_id_into_u8 n) = n"
  "subject_id_wf s \<Longrightarrow> subject_id_from_u16_truncating (subject_id_into_u16 s) = s"
  "service_id_wf r \<Longrightarrow> service_id_from_u16_truncating (service_id_into_u16 r) = r"
  "transfer_id_wf t \<Longrightarrow> transfer_id_from_u8_truncating (transfer_id_into_u8 t) = t"
  by (simp_all add: node_id_wf_def subject_id_wf_def service_id_wf_def transfer_id_wf_def
      node_id_from_u8_truncating_def subject_id_from_u16_truncating_def
      service_id_from_u16_truncating_def transfer_id_from_u8_truncating_def
      id_masks word_and_mask_id)

lemma node_id_new_iff: "node_id_new v = Some n \<longleftrightarrow> node_id_wf n \<and> node_id_into_u8 n = v"
  by (cases n) (auto simp: node_id_new_def node_id_wf_def node_id_from_u8_truncating_def
      id_masks word_and_mask_id)

lemma subject_id_new_iff:
  "subject_id_new v = Some n \<longleftrightarrow> subject_id_wf n \<and> subject_id_into_u16 n = v"
  by (cases n) (auto simp: subject_id_new_def subject_id_wf_def
      subject_id_from_u16_truncating_def id_masks word_and_mask_id)

lemma service_id_new_iff:
  "service_id_new v = Some n \<longleftrightarrow> service_id_wf n \<and> service_id_into_u16 n = v"
  by (cases n) (auto simp: service_id_new_def service_id_wf_def
      service_id_from_u16_truncating_def id_masks word_and_mask_id)

lemma transfer_id_new_iff:
  "transfer_id_new v = Some n \<longleftrightarrow> transfer_id_wf n \<and> transfer_id_into_u8 n = v"
  by (cases n) (auto simp: transfer_id_new_def transfer_id_wf_def
      transfer_id_from_u8_truncating_def id_masks word_and_mask_id)

lemma unat_transfer_id_next:
  "unat (transfer_id_into_u8 (transfer_id_next t)) = Suc (unat (transfer_id_into_u8 t)) mod 32"
proof -
  have "unat ((w + 1) AND mask 5 :: u8) = Suc (unat w) mod 32" for w :: u8
  proof -
    have "unat ((w + 1) AND mask 5) = unat (take_bit 5 (w + 1))" by (simp only: take_bit_eq_mask)
    also have "\<dots> = take_bit 5 (unat (w + 1))" by (rule unsigned_take_bit_eq)
    also have "\<dots> = unat (w + 1) mod 32" by (simp only: take_bit_eq_mod) simp
    also have "\<dots> = (Suc (unat w) mod 2 ^ 8) mod 32" by (simp add: unat_word_ariths)
    also have "\<dots> = Suc (unat w) mod 32" by (simp add: mod_mod_cancel)
    finally show ?thesis .
  qed
  then show ?thesis by (simp add: transfer_id_next_def id_masks)
qed

lemma transfer_id_next_funpow:
  "unat (transfer_id_into_u8 ((transfer_id_next ^^ k) t)) mod 32 =
    (unat (transfer_id_into_u8 t) + k) mod 32"
proof (induction k)
  case (Suc k)
  then show ?case
    by (simp add: unat_transfer_id_next) (metis mod_Suc_eq)
qed simp

text \<open>
  The identifiers of a session are distinct for 32 consecutive transfers and come back to the
  first one after 32.
\<close>

lemma transfer_id_next_cycle:
  assumes "transfer_id_wf t" "j < 32" "k < 32"
  shows "(transfer_id_next ^^ 32) t = t"
    "(transfer_id_next ^^ j) t = (transfer_id_next ^^ k) t \<longleftrightarrow> j = k"
proof -
  have lim: "unat (transfer_id_into_u8 u) < 32" if "transfer_id_wf u" for u
    using that by (simp add: transfer_id_wf_def transfer_id_MAX_VALUE_def word_le_nat_alt)
  have wf: "transfer_id_wf ((transfer_id_next ^^ n) t)" for n
    by (cases n) (use assms(1) in simp_all)
  have pos: "unat (transfer_id_into_u8 ((transfer_id_next ^^ n) t)) =
      (unat (transfer_id_into_u8 t) + n) mod 32" for n
    using transfer_id_next_funpow [of n t] lim [OF wf [of n]] by simp
  have inj: "u = v" if "unat (transfer_id_into_u8 u) = unat (transfer_id_into_u8 v)" for u v
    using that by (intro transfer_id.expand) (simp only: word_unat_eq_iff)
  have split: "(a + n) mod 32 = (if a + n < 32 then a + n else a + n - 32)"
    if "a < 32" "n < 32" for a n :: nat
    using that by (simp add: mod_if)
  have t: "unat (transfer_id_into_u8 t) < 32" by (rule lim [OF assms(1)])
  show "(transfer_id_next ^^ 32) t = t"
    by (rule inj) (simp only: pos mod_add_self2 mod_less [OF t])
  show "(transfer_id_next ^^ j) t = (transfer_id_next ^^ k) t \<longleftrightarrow> j = k"
  proof
    assume "(transfer_id_next ^^ j) t = (transfer_id_next ^^ k) t"
    then have "(unat (transfer_id_into_u8 t) + j) mod 32 = (unat (transfer_id_into_u8 t) + k) mod 32"
      by (simp only: flip: pos)
    then show "j = k" using assms(2,3) t by (simp add: split split: if_splits)
  qed simp
qed

section \<open>Properties\<close>

text \<open>
  Iterating over a priority set yields exactly its members, each once, from the most
  urgent to the least; \<open>first\<close> and \<open>last\<close> are the ends of that sequence.
\<close>

theorem priority_set_iteration:
  "sorted_wrt (<) (ps_into_iter s) \<and> set (ps_into_iter s) = {p. ps_contains s p} \<and>
   ps_first s = (case ps_into_iter s of [] \<Rightarrow> None | p # _ \<Rightarrow> Some p) \<and>
   ps_last s = (case rev (ps_into_iter s) of [] \<Rightarrow> None | p # _ \<Rightarrow> Some p)"
proof -
  let ?ps = "ps_into_iter s"
  have spec: "sorted_wrt (<) ?ps" "set ?ps = {p. ps_contains s p}"
    using ps_into_iter_spec [of s] by (simp_all add: ps_members_def)
  have first: "ps_first s = (case ?ps of [] \<Rightarrow> None | p # _ \<Rightarrow> Some p)"
  proof (cases ?ps)
    case Nil
    then show ?thesis using spec(2) by (simp add: ps_first_None ps_is_empty_iff)
  next
    case (Cons p ps)
    then have mem: "ps_contains s q \<longleftrightarrow> q \<in> insert p (set ps)" for q using spec(2) by auto
    have "ps_contains s p" by (simp add: mem)
    moreover have "p \<le> q" if "ps_contains s q" for q using that spec(1) Cons by (auto simp: mem)
    ultimately show ?thesis using Cons by (simp add: ps_first_eqI)
  qed
  have "ps_last s = (case rev ?ps of [] \<Rightarrow> None | p # _ \<Rightarrow> Some p)"
  proof (cases ?ps rule: rev_cases)
    case Nil
    then show ?thesis using spec(2) by (simp add: ps_last_None ps_is_empty_iff)
  next
    case (snoc ps p)
    then have mem: "ps_contains s q \<longleftrightarrow> q \<in> insert p (set ps)" for q using spec(2) by auto
    have "ps_contains s p" by (simp add: mem)
    moreover have "q \<le> p" if "ps_contains s q" for q
      using that spec(1) snoc by (auto simp: mem sorted_wrt_append)
    ultimately show ?thesis using snoc by (simp add: ps_last_eqI)
  qed
  with spec first show ?thesis by blast
qed

text \<open>
  The transfer identifiers wrap around after exactly 32 transfers, and any 32 consecutive
  ones are distinct.
\<close>

theorem transfer_id_cycle:
  assumes "transfer_id_wf t" "j < 32" "k < 32"
  shows "(transfer_id_next ^^ 32) t = t \<and>
    ((transfer_id_next ^^ j) t = (transfer_id_next ^^ k) t \<longleftrightarrow> j = k)"
  using transfer_id_next_cycle [OF assms] by blast

theorem transfer_id_cycle_witness:
  "(transfer_id_next ^^ 32) (TransferId 31) = TransferId 31 \<and>
    ((transfer_id_next ^^ 1) (TransferId 31) = (transfer_id_next ^^ 2) (TransferId 31) \<longleftrightarrow> (1::nat) = 2)"
  by (rule transfer_id_cycle) (simp_all add: transfer_id_wf_def transfer_id_MAX_VALUE_def)

end
