(* ===== verification/Frames.thy ===== *)
theory Frames
  imports Core_Types
begin

text \<open>
  The frame types shared by the stack and its drivers (\<open>emcyphal-driver/src/frame.rs\<close>): the
  MTU, the CAN-FD data lengths, the data vector of a frame, and its header. An \<open>Instant\<close> is
  its tick count, as the driver's time library stores it.
\<close>

section \<open>MTU\<close>

type_synonym instant = u64
type_synonym duration = u64

datatype mtu = Classic | Fd

fun mtu_usize :: "mtu \<Rightarrow> nat" where
  "mtu_usize Classic = 8"
| "mtu_usize Fd = 64"

definition mtu_try_from :: "nat \<Rightarrow> mtu option" where
  "mtu_try_from v = (if v = 8 then Some Classic else if v = 64 then Some Fd else None)"

lemma mtu_try_from_iff: "mtu_try_from v = Some m \<longleftrightarrow> v = mtu_usize m"
  by (cases m) (simp_all add: mtu_try_from_def)

lemma mtu_try_from_usize [simp]: "mtu_try_from (mtu_usize m) = Some m"
  by (simp add: mtu_try_from_iff)

section \<open>Headers\<close>

datatype data_specifier = Message subject_id | Request service_id | Response service_id

record header =
  h_priority :: priority
  h_data_spec :: data_specifier
  h_source :: "node_id option"
  h_destination :: "node_id option"

section \<open>Data lengths\<close>

datatype data_length = DataLength (dl_byte: u8)

definition dl_as_usize :: "data_length \<Rightarrow> nat" where
  "dl_as_usize l = unat (dl_byte l)"

definition dl_MAX :: nat where
  "dl_MAX = 64"

definition div_ceil :: "nat \<Rightarrow> nat \<Rightarrow> nat" where
  "div_ceil a b = (if a mod b = 0 then a div b else a div b + 1)"

definition dl_new_floor :: "nat \<Rightarrow> data_length" where
  "dl_new_floor v = (let floor =
     (if v < 8 then v
      else if v < 24 then v div 4 * 4
      else if v < 32 then v div 8 * 8
      else if v < 64 then v div 16 * 16
      else 64) in DataLength (of_nat floor))"

definition dl_new :: "nat \<Rightarrow> data_length option" where
  "dl_new v = (let floor = dl_new_floor v in
     if dl_as_usize floor = v then Some floor else None)"

definition dl_new_ceil :: "nat \<Rightarrow> data_length option" where
  "dl_new_ceil v =
     (if v \<le> dl_MAX then
        let ceil =
          (if v < 8 then v
           else if v < 24 then div_ceil v 4 * 4
           else if v < 32 then div_ceil v 8 * 8
           else div_ceil v 16 * 16) in Some (DataLength (of_nat ceil))
      else None)"

text \<open>The reference of the source's unit test: the table of the lengths a DLC can encode.\<close>

definition valid_can_length :: "nat list" where
  "valid_can_length = [0, 1, 2, 3, 4, 5, 6, 7, 8, 12, 16, 20, 24, 32, 48, 64]"

definition floor_length_ref :: "nat \<Rightarrow> nat" where
  "floor_length_ref v = last (filter (\<lambda>l. l \<le> v) valid_can_length)"

definition ceil_length_ref :: "nat \<Rightarrow> nat option" where
  "ceil_length_ref v = find (\<lambda>l. v \<le> l) valid_can_length"

lemma sorted_valid_can_length: "sorted valid_can_length"
  by (simp add: valid_can_length_def)

lemma dl_table_upto_64:
  "list_all (\<lambda>v. dl_as_usize (dl_new_floor v) = floor_length_ref v \<and>
     map_option dl_as_usize (dl_new_ceil v) = ceil_length_ref v) [0..<65]"
  by code_simp

lemma dl_table:
  assumes "v \<le> 64"
  shows "dl_as_usize (dl_new_floor v) = floor_length_ref v"
    "map_option dl_as_usize (dl_new_ceil v) = ceil_length_ref v"
proof -
  have "v \<in> set [0..<65]" using assms by simp
  then show "dl_as_usize (dl_new_floor v) = floor_length_ref v"
    "map_option dl_as_usize (dl_new_ceil v) = ceil_length_ref v"
    using dl_table_upto_64 unfolding list_all_iff by blast+
qed

text \<open>Both roundings agree with the table for every length, not only for the tested ones.\<close>

lemma dl_floor_eq_ref: "dl_as_usize (dl_new_floor v) = floor_length_ref v"
proof (cases "v \<le> 64")
  case False
  then show ?thesis
    by (simp add: dl_new_floor_def floor_length_ref_def valid_can_length_def dl_as_usize_def)
qed (simp add: dl_table)

lemma dl_ceil_eq_ref: "map_option dl_as_usize (dl_new_ceil v) = ceil_length_ref v"
proof (cases "v \<le> 64")
  case False
  then show ?thesis
    by (simp add: dl_new_ceil_def dl_MAX_def ceil_length_ref_def valid_can_length_def)
qed (simp add: dl_table)

lemma dl_as_usize_inject: "dl_as_usize a = dl_as_usize b \<longleftrightarrow> a = b"
  by (metis dl_as_usize_def data_length.expand word_unat_eq_iff)

lemma floor_length_ref_in: "floor_length_ref v \<in> set valid_can_length \<and> floor_length_ref v \<le> v"
proof -
  have "0 \<in> set (filter (\<lambda>l. l \<le> v) valid_can_length)" by (simp add: valid_can_length_def)
  then have "filter (\<lambda>l. l \<le> v) valid_can_length \<noteq> []" by force
  from last_in_set [OF this] show ?thesis by (simp add: floor_length_ref_def)
qed

lemma floor_length_ref_valid: "v \<in> set valid_can_length \<Longrightarrow> floor_length_ref v = v"
  by (auto simp: valid_can_length_def floor_length_ref_def)

lemma dl_new_Some_iff:
  "dl_new v = Some l \<longleftrightarrow> v \<in> set valid_can_length \<and> dl_as_usize l = v"
proof -
  have "dl_as_usize (dl_new_floor v) = v \<longleftrightarrow> v \<in> set valid_can_length"
    using floor_length_ref_in [of v] floor_length_ref_valid [of v] dl_floor_eq_ref [of v] by auto
  then show ?thesis
    by (auto simp: dl_new_def Let_def dl_as_usize_inject [symmetric])
qed

definition dl_wf :: "data_length \<Rightarrow> bool" where
  "dl_wf l \<longleftrightarrow> dl_as_usize l \<in> set valid_can_length"

lemma valid_can_length_le: "v \<in> set valid_can_length \<Longrightarrow> v \<le> 64"
  by (auto simp: valid_can_length_def)

lemma dl_wf_le: "dl_wf l \<Longrightarrow> dl_as_usize l \<le> 64"
  by (simp add: dl_wf_def valid_can_length_le)

lemma dl_new_ceil_le:
  assumes "v \<le> 64"
  obtains l where "dl_new_ceil v = Some l" "dl_wf l" "v \<le> dl_as_usize l"
    "\<And>m. m \<in> set valid_can_length \<Longrightarrow> v \<le> m \<Longrightarrow> dl_as_usize l \<le> m"
proof -
  have "64 \<in> set valid_can_length" by (simp add: valid_can_length_def)
  then obtain c where c: "ceil_length_ref v = Some c"
    using assms by (cases "ceil_length_ref v") (auto simp: ceil_length_ref_def find_None_iff)
  then obtain i where i: "i < length valid_can_length" "v \<le> valid_can_length ! i"
      "c = valid_can_length ! i" "\<And>j. j < i \<Longrightarrow> \<not> v \<le> valid_can_length ! j"
    by (auto simp: ceil_length_ref_def find_Some_iff)
  obtain l where l: "dl_new_ceil v = Some l" "dl_as_usize l = c"
    using dl_ceil_eq_ref [of v] c by (cases "dl_new_ceil v") auto
  have "dl_as_usize l \<le> m" if "m \<in> set valid_can_length" "v \<le> m" for m
  proof -
    obtain j where j: "j < length valid_can_length" "m = valid_can_length ! j"
      using \<open>m \<in> set valid_can_length\<close> by (auto simp: in_set_conv_nth)
    then have "i \<le> j" using i(4) \<open>v \<le> m\<close> by (meson not_le)
    then show ?thesis using j l i sorted_nth_mono [OF sorted_valid_can_length] by simp
  qed
  then show ?thesis using that l i by (auto simp: dl_wf_def)
qed

lemma dl_new_ceil_wf: "dl_new_ceil v = Some l \<Longrightarrow> dl_wf l \<and> v \<le> dl_as_usize l"
proof -
  assume l: "dl_new_ceil v = Some l"
  then have "v \<le> 64" by (simp add: dl_new_ceil_def dl_MAX_def split: if_splits)
  from dl_new_ceil_le [OF this] l show ?thesis by (metis option.inject)
qed

lemma dl_new_ceil_exact: "dl_wf l \<Longrightarrow> dl_new_ceil (dl_as_usize l) = Some l"
proof -
  assume l: "dl_wf l"
  from dl_new_ceil_le [OF dl_wf_le [OF l]] obtain k
    where k: "dl_new_ceil (dl_as_usize l) = Some k" "dl_as_usize l \<le> dl_as_usize k"
      "dl_as_usize k \<le> dl_as_usize l"
    using l unfolding dl_wf_def by (metis order_refl)
  then have "k = l" by (simp add: dl_as_usize_inject [symmetric])
  with k(1) show ?thesis by simp
qed

section \<open>Frame data\<close>

text \<open>\<open>bytes\<close> is the source's array of 64 bytes; \<open>Deref\<close> gives its first \<open>length\<close> bytes.\<close>

record data =
  d_length :: data_length
  d_bytes :: "u8 list"

datatype invalid_length = InvalidLength

definition data_new :: "u8 list \<Rightarrow> invalid_length + data" where
  "data_new xs = (case dl_new (length xs) of
     None \<Rightarrow> Inl InvalidLength
   | Some l \<Rightarrow> Inr \<lparr> d_length = l, d_bytes = copy_at (replicate 64 0) 0 xs \<rparr>)"

definition data_new_zeros :: "data_length \<Rightarrow> data" where
  "data_new_zeros l = \<lparr> d_length = l, d_bytes = replicate 64 0 \<rparr>"

definition data_deref :: "data \<Rightarrow> u8 list" where
  "data_deref d = take (dl_as_usize (d_length d)) (d_bytes d)"

text \<open>Writing the whole slice that \<open>DerefMut\<close> lends.\<close>

definition data_deref_set :: "data \<Rightarrow> u8 list \<Rightarrow> data" where
  "data_deref_set d xs =
     d\<lparr> d_bytes := xs @ drop (dl_as_usize (d_length d)) (d_bytes d) \<rparr>"

definition data_wf :: "data \<Rightarrow> bool" where
  "data_wf d \<longleftrightarrow> dl_wf (d_length d) \<and> length (d_bytes d) = 64"

lemma data_new_Inr:
  "data_new xs = Inr d \<Longrightarrow> data_wf d \<and> data_deref d = xs"
  by (auto simp: data_new_def data_wf_def data_deref_def dl_new_Some_iff dl_wf_def
      copy_at_def valid_can_length_le split: option.splits)

lemma data_new_ok: "length xs \<in> set valid_can_length \<Longrightarrow> \<exists>d. data_new xs = Inr d"
proof -
  assume "length xs \<in> set valid_can_length"
  then have "dl_as_usize (dl_new_floor (length xs)) = length xs"
    by (simp add: dl_floor_eq_ref floor_length_ref_valid)
  then show ?thesis by (simp add: data_new_def dl_new_def Let_def)
qed

lemma data_new_zeros_wf [simp]: "dl_wf l \<Longrightarrow> data_wf (data_new_zeros l)"
  by (simp add: data_wf_def data_new_zeros_def)

lemma length_data_deref: "data_wf d \<Longrightarrow> length (data_deref d) = dl_as_usize (d_length d)"
  by (auto simp: data_wf_def data_deref_def dl_wf_le)

lemma data_deref_deref_set [simp]:
  "length xs = dl_as_usize (d_length d) \<Longrightarrow> data_deref (data_deref_set d xs) = xs"
  by (simp add: data_deref_def data_deref_set_def)

lemma data_deref_set_wf:
  "data_wf d \<Longrightarrow> length xs = dl_as_usize (d_length d) \<Longrightarrow> data_wf (data_deref_set d xs)"
  by (auto simp: data_wf_def data_deref_set_def dl_wf_le)

section \<open>Frames\<close>

record frame =
  f_header :: header
  f_data :: data
  f_timestamp :: instant
  f_loop_back :: bool

text \<open>Receiver filter updates (\<open>emcyphal-driver/src/link.rs\<close>).\<close>

datatype filter_update =
    AddSubject subject_id
  | RemoveSubjectRange subject_id subject_id
  | AddDestination node_id
  | RemoveDestinationRange node_id node_id

section \<open>Properties\<close>

text \<open>
  C40: The division arithmetic of \<open>DataLength\<close> gives the CAN FD table: \<open>new_floor\<close> is the
  greatest valid length not above the argument, \<open>new_ceil\<close> the least one not below it and
  \<open>None\<close> above 64.
\<close>

theorem data_length_table:
  "dl_as_usize (dl_new_floor v) = floor_length_ref v \<and>
   map_option dl_as_usize (dl_new_ceil v) = ceil_length_ref v"
  by (simp add: dl_floor_eq_ref dl_ceil_eq_ref)

end
