(* ===== verification/Transfer_Format.thy ===== *)
theory Transfer_Format
  imports Frames
begin

text \<open>
  The transfer-layer encoding of \<open>emcyphal/src/format.rs\<close>: the transfer CRC
  (CRC-16/CCITT-FALSE, one bit at a time) and the tail byte of a frame.
\<close>

section \<open>Transfer CRC\<close>

datatype transfer_crc = TransferCrc (crc_get: u16)

definition crc_LENGTH :: nat where
  "crc_LENGTH = 2"

definition crc_INIT_VALUE :: u16 where
  "crc_INIT_VALUE = 0xffff"

definition crc_POLYNOMIAL :: u16 where
  "crc_POLYNOMIAL = 0x1021"

definition crc_default :: transfer_crc where
  "crc_default = TransferCrc crc_INIT_VALUE"

text \<open>The body of the loop over the bits of a byte.\<close>

definition crc_bit :: "u16 \<Rightarrow> u16" where
  "crc_bit w = (if w AND 0x8000 \<noteq> 0 then push_bit 1 w XOR crc_POLYNOMIAL else push_bit 1 w)"

definition crc_add :: "transfer_crc \<Rightarrow> u8 \<Rightarrow> transfer_crc" where
  "crc_add crc byte =
     TransferCrc ((crc_bit ^^ 8) (crc_get crc XOR push_bit 8 (ucast byte)))"

definition crc_add_bytes :: "transfer_crc \<Rightarrow> u8 list \<Rightarrow> transfer_crc" where
  "crc_add_bytes crc bytes = foldl crc_add crc bytes"

text \<open>\<open>u16::to_be_bytes\<close>.\<close>

definition to_be_bytes :: "u16 \<Rightarrow> u8 list" where
  "to_be_bytes w = [ucast (drop_bit 8 w), ucast w]"

lemma length_to_be_bytes [simp]: "length (to_be_bytes w) = 2"
  by (simp add: to_be_bytes_def)

lemma crc_add_bytes_simps [simp]:
  "crc_add_bytes crc [] = crc"
  "crc_add_bytes crc (b # bs) = crc_add_bytes (crc_add crc b) bs"
  "crc_add_bytes crc (as @ bs) = crc_add_bytes (crc_add_bytes crc as) bs"
  by (simp_all add: crc_add_bytes_def)

subsection \<open>The register as a linear map\<close>

lemma and_8000: "(w :: u16) AND 0x8000 \<noteq> 0 \<longleftrightarrow> bit w 15"
proof -
  have "(0x8000 :: u16) = 2 ^ 15" by simp
  then show ?thesis using and_exp_eq_0_iff_not_bit [of w 15] by (simp only:) simp
qed

lemma bit_times_2: "bit (w * 2 :: u16) i \<longleftrightarrow> 0 < i \<and> i < 16 \<and> bit w (i - 1)"
  using bit_double_iff [of w i] by (auto simp: mult.commute dest: bit_imp_le_length)

lemma crc_bit_alt: "crc_bit w = push_bit 1 w XOR (if bit w 15 then crc_POLYNOMIAL else 0)"
  by (simp add: crc_bit_def and_8000)

lemma crc_bit_xor: "crc_bit (v XOR w) = crc_bit v XOR crc_bit w"
  by (simp add: crc_bit_alt bit_xor_iff ac_simps)

lemma crc_bit_0 [simp]: "crc_bit 0 = 0"
  by (simp add: crc_bit_alt)

lemma crc_bit_eq_0: "crc_bit w = 0 \<Longrightarrow> w = 0"
proof (rule bit_word_eqI)
  fix n assume zero: "crc_bit w = 0" and n: "n < LENGTH(16)"
  have "\<not> bit (crc_bit w) 0" using zero by simp
  then have top: "\<not> bit w 15"
    by (auto simp: crc_bit_alt bit_xor_iff bit_push_bit_iff crc_POLYNOMIAL_def bit_times_2 split: if_splits)
  then have "push_bit 1 w = 0" using zero by (simp add: crc_bit_alt)
  then have "\<not> bit (push_bit 1 w) (Suc n)" by simp
  then show "bit w n = bit 0 n"
    using n top by (cases "n = 15") (auto simp: bit_times_2)
qed

lemma crc_bits_xor: "(crc_bit ^^ n) (v XOR w) = (crc_bit ^^ n) v XOR (crc_bit ^^ n) w"
  by (induction n) (simp_all add: crc_bit_xor)

lemma crc_bits_0 [simp]: "(crc_bit ^^ n) 0 = 0"
  by (induction n) simp_all

lemma crc_bits_eq_0: "(crc_bit ^^ n) w = 0 \<Longrightarrow> w = 0"
  by (induction n) (auto dest: crc_bit_eq_0)

lemma crc_bits_inject: "(crc_bit ^^ n) v = (crc_bit ^^ n) w \<longleftrightarrow> v = w"
proof
  assume "(crc_bit ^^ n) v = (crc_bit ^^ n) w"
  then have "(crc_bit ^^ n) (v XOR w) = 0" by (simp add: crc_bits_xor)
  then have "v XOR w = 0" by (rule crc_bits_eq_0)
  then have "v XOR (v XOR w) = v XOR 0" by (simp only:)
  then show "v = w" by (simp flip: xor.assoc)
qed simp

lemma push_8_ucast_inject:
  "push_bit 8 (ucast a :: u16) = push_bit 8 (ucast b) \<longleftrightarrow> (a :: u8) = b"
proof
  assume eq: "push_bit 8 (ucast a :: u16) = push_bit 8 (ucast b)"
  show "a = b"
  proof (rule bit_word_eqI)
    fix n assume "n < LENGTH(8)"
    moreover have "bit (push_bit 8 (ucast a :: u16)) (n + 8) =
        bit (push_bit 8 (ucast b :: u16)) (n + 8)"
      by (simp only: eq)
    ultimately show "bit a n = bit b n" by (simp add: bit_push_bit_iff bit_ucast_iff)
  qed
qed simp

lemma xor_left_cancel_word: "(a :: 'a :: len word) XOR b = a XOR c \<longleftrightarrow> b = c"
proof
  assume "a XOR b = a XOR c"
  then have "a XOR (a XOR b) = a XOR (a XOR c)" by (simp only:)
  then show "b = c" by (simp flip: xor.assoc)
qed simp

text \<open>
  Two registers that differ stay different under the same byte, and one register takes two
  different bytes to different values: what makes a corrupted byte visible.
\<close>

lemma crc_add_inject_state: "crc_add c b = crc_add d b \<longleftrightarrow> c = d"
  by (metis crc_add_def crc_bits_inject transfer_crc.expand transfer_crc.sel xor.commute
      xor_left_cancel_word)

lemma crc_add_inject_byte: "crc_add c a = crc_add c b \<longleftrightarrow> a = b"
  by (simp add: crc_add_def crc_bits_inject xor_left_cancel_word push_8_ucast_inject)

lemma crc_add_bytes_inject_state: "crc_add_bytes c bs = crc_add_bytes d bs \<longleftrightarrow> c = d"
  by (induction bs arbitrary: c d) (simp_all add: crc_add_inject_state)

lemma crc_single_byte_change:
  "a \<noteq> b \<Longrightarrow> crc_add_bytes c (xs @ a # ys) \<noteq> crc_add_bytes c (xs @ b # ys)"
  by (simp add: crc_add_bytes_inject_state crc_add_inject_byte)

subsection \<open>The residue\<close>

lemma crc_bits_low:
  assumes "\<And>i. bit w i \<Longrightarrow> i + n < 16"
  shows "(crc_bit ^^ n) w = push_bit n w"
  using assms
proof (induction n arbitrary: w)
  case (Suc n)
  have step: "crc_bit w = push_bit 1 w"
    using Suc.prems [of 15] by (auto simp: crc_bit_alt)
  have "(crc_bit ^^ n) (push_bit 1 w) = push_bit n (push_bit 1 w)"
  proof (rule Suc.IH)
    fix i assume "bit (push_bit 1 w) i"
    then show "i + n < 16" using Suc.prems [of "i - 1"] by (auto simp: bit_times_2)
  qed
  then show ?case by (simp only: funpow_Suc_right o_apply step push_bit_push_bit) simp
qed simp

text \<open>Appending a CRC in network byte order brings the register to zero.\<close>

lemma crc_residue: "crc_get (crc_add_bytes c (to_be_bytes (crc_get c))) = 0"
proof -
  let ?w = "crc_get c"
  let ?hi = "ucast (drop_bit 8 ?w) :: u8" and ?lo = "ucast ?w :: u8"
  have "?w XOR push_bit 8 (ucast ?hi) = ucast ?lo"
    by (rule bit_word_eqI)
      (auto simp: bit_xor_iff bit_push_bit_iff bit_ucast_iff bit_drop_bit_eq)
  moreover have "(crc_bit ^^ 8) (ucast ?lo) = push_bit 8 (ucast ?lo)"
    by (rule crc_bits_low) (auto simp: bit_ucast_iff dest: bit_imp_le_length)
  ultimately have "crc_add c ?hi = TransferCrc (push_bit 8 (ucast ?lo))"
    by (simp only: crc_add_def)
  then show ?thesis by (simp add: to_be_bytes_def crc_add_def)
qed

lemma crc_check_value: "crc_get (crc_add_bytes crc_default
    [0x31, 0x32, 0x33, 0x34, 0x35, 0x36, 0x37, 0x38, 0x39]) = 0x29B1"
  by code_simp

section \<open>Tail byte\<close>

datatype tail_byte = TailByte (tail_into_u8: u8)

definition tail_START_OF_TRANSFER :: nat where
  "tail_START_OF_TRANSFER = 7"

definition tail_END_OF_TRANSFER :: nat where
  "tail_END_OF_TRANSFER = 6"

definition tail_TOGGLE_BIT :: nat where
  "tail_TOGGLE_BIT = 5"

definition tail_TRANSFER_ID :: nat where
  "tail_TRANSFER_ID = 0"

definition tail_new :: "bool \<Rightarrow> bool \<Rightarrow> bool \<Rightarrow> transfer_id \<Rightarrow> tail_byte" where
  "tail_new sot eof toggle transfer_id = TailByte
     (push_bit tail_START_OF_TRANSFER (of_bool sot)
      OR push_bit tail_END_OF_TRANSFER (of_bool eof)
      OR push_bit tail_TOGGLE_BIT (of_bool toggle)
      OR push_bit tail_TRANSFER_ID (transfer_id_into_u8 transfer_id))"

definition tail_sot :: "tail_byte \<Rightarrow> bool" where
  "tail_sot t \<longleftrightarrow> drop_bit tail_START_OF_TRANSFER (tail_into_u8 t) AND 0x1 \<noteq> 0"

definition tail_eot :: "tail_byte \<Rightarrow> bool" where
  "tail_eot t \<longleftrightarrow> drop_bit tail_END_OF_TRANSFER (tail_into_u8 t) AND 0x1 \<noteq> 0"

definition tail_toggle :: "tail_byte \<Rightarrow> bool" where
  "tail_toggle t \<longleftrightarrow> drop_bit tail_TOGGLE_BIT (tail_into_u8 t) AND 0x1 \<noteq> 0"

definition tail_transfer_id :: "tail_byte \<Rightarrow> transfer_id" where
  "tail_transfer_id t =
     transfer_id_from_u8_truncating (drop_bit tail_TRANSFER_ID (tail_into_u8 t))"

definition SOT_TOGGLE_BIT :: bool where
  "SOT_TOGGLE_BIT = True"

definition PAD_VALUE :: u8 where
  "PAD_VALUE = 0"

text \<open>\<open>slice::last\<close> and \<open>slice::split_last\<close> of the standard library.\<close>

definition slice_last :: "'a list \<Rightarrow> 'a option" where
  "slice_last xs = (if xs = [] then None else Some (last xs))"

definition split_last :: "'a list \<Rightarrow> ('a \<times> 'a list) option" where
  "split_last xs = (if xs = [] then None else Some (last xs, butlast xs))"

definition is_eot_frame :: "frame \<Rightarrow> bool option" where
  "is_eot_frame frame = do {
     byte \<leftarrow> slice_last (data_deref (f_data frame));
     Some (tail_eot (TailByte byte))
   }"

lemmas tail_positions =
  tail_START_OF_TRANSFER_def tail_END_OF_TRANSFER_def tail_TOGGLE_BIT_def tail_TRANSFER_ID_def

lemma tail_flag_bit: "drop_bit n (w :: u8) AND 0x1 \<noteq> 0 \<longleftrightarrow> bit w n"
  by (simp add: bit_iff_odd_drop_bit and_one_eq odd_iff_mod_2_eq_one)

lemma bit_push_of_bool: "bit (push_bit n (of_bool b) :: u8) m \<longleftrightarrow> b \<and> m = n \<and> n < 8"
  by (cases b) (auto simp: bit_exp_iff)

lemma bit_transfer_id: "transfer_id_wf t \<Longrightarrow> bit (transfer_id_into_u8 t) i \<Longrightarrow> i < 5"
proof -
  assume "transfer_id_wf t" "bit (transfer_id_into_u8 t) i"
  then have "bit (transfer_id_into_u8 t AND mask 5) i"
    by (simp add: transfer_id_wf_def id_masks word_and_mask_id)
  then show "i < 5" by (simp add: bit_and_iff bit_mask_iff)
qed

text \<open>The fields of a tail byte read back what it was built from.\<close>

lemma tail_new_sel [simp]:
  assumes "transfer_id_wf t"
  shows "tail_sot (tail_new sot eot toggle t) = sot"
    "tail_eot (tail_new sot eot toggle t) = eot"
    "tail_toggle (tail_new sot eot toggle t) = toggle"
    "tail_transfer_id (tail_new sot eot toggle t) = t"
proof -
  have hi: "\<not> bit (transfer_id_into_u8 t) i" if "5 \<le> i" for i
    using bit_transfer_id [OF assms, of i] that by auto
  show "tail_sot (tail_new sot eot toggle t) = sot"
    "tail_eot (tail_new sot eot toggle t) = eot"
    "tail_toggle (tail_new sot eot toggle t) = toggle"
    unfolding tail_sot_def tail_eot_def tail_toggle_def tail_flag_bit
    by (simp_all add: tail_new_def tail_positions bit_or_iff bit_push_of_bool hi)
  have "tail_into_u8 (tail_new sot eot toggle t) AND mask 5 = transfer_id_into_u8 t"
    by (rule bit_word_eqI)
      (auto simp: tail_new_def tail_positions bit_or_iff bit_and_iff bit_mask_iff
        bit_push_of_bool dest: bit_transfer_id [OF assms])
  then show "tail_transfer_id (tail_new sot eot toggle t) = t"
    by (simp add: tail_transfer_id_def tail_positions transfer_id_from_u8_truncating_def
        id_masks)
qed

lemma tail_transfer_id_wf [simp]: "transfer_id_wf (tail_transfer_id t)"
  by (simp add: tail_transfer_id_def)

lemma split_last_snoc [simp]: "split_last (xs @ [x]) = Some (x, xs)"
  by (simp add: split_last_def)

lemma split_last_Some: "split_last xs = Some (t, p) \<longleftrightarrow> xs = p @ [t]"
  by (auto simp: split_last_def)

lemma split_last_None: "split_last xs = None \<longleftrightarrow> xs = []"
  by (simp add: split_last_def)

section \<open>Properties\<close>

lemma tail_bits: "bit (x :: u8) i \<longleftrightarrow> i = 7 \<and> bit x 7 \<or> i = 6 \<and> bit x 6 \<or> i = 5 \<and> bit x 5 \<or> i < 5 \<and> bit x i"
  using bit_imp_le_length [of x i] by (cases "i < 5"; cases "i = 5"; cases "i = 6"; cases "i = 7") auto

text \<open>
  The tail byte is a bijection: the four fields written by \<open>TailByte::new\<close> are read back,
  and every byte is the tail byte of the fields read from it.
\<close>

theorem tail_byte_roundtrip:
  assumes "transfer_id_wf t"
  shows "tail_sot (tail_new sot eot toggle t) = sot \<and> tail_eot (tail_new sot eot toggle t) = eot \<and>
    tail_toggle (tail_new sot eot toggle t) = toggle \<and> tail_transfer_id (tail_new sot eot toggle t) = t \<and>
    tail_new (tail_sot b) (tail_eot b) (tail_toggle b) (tail_transfer_id b) = b"
proof -
  have "tail_into_u8 (tail_new (tail_sot b) (tail_eot b) (tail_toggle b) (tail_transfer_id b)) = tail_into_u8 b"
  proof (rule bit_word_eqI)
    fix i assume "i < LENGTH(8)"
    moreover have "(n :: nat) < 8 \<Longrightarrow> n = 7 \<or> n = 6 \<or> n = 5 \<or> n < 5" for n by auto
    ultimately show "bit (tail_into_u8 (tail_new (tail_sot b) (tail_eot b) (tail_toggle b) (tail_transfer_id b))) i
        = bit (tail_into_u8 b) i"
      by (auto simp: tail_new_def tail_sot_def tail_eot_def tail_toggle_def tail_transfer_id_def
          tail_START_OF_TRANSFER_def tail_END_OF_TRANSFER_def tail_TOGGLE_BIT_def tail_TRANSFER_ID_def
          tail_flag_bit bit_or_iff bit_push_of_bool bit_and_iff id_masks bit_mask_iff
          transfer_id_from_u8_truncating_def)
  qed
  with assms show ?thesis by (simp add: tail_byte.expand)
qed

theorem tail_byte_roundtrip_witness:
  "tail_sot (tail_new True False True (TransferId 5)) = True \<and>
    tail_eot (tail_new True False True (TransferId 5)) = False \<and>
    tail_toggle (tail_new True False True (TransferId 5)) = True \<and>
    tail_transfer_id (tail_new True False True (TransferId 5)) = TransferId 5 \<and>
    tail_new (tail_sot (TailByte 0xE3)) (tail_eot (TailByte 0xE3)) (tail_toggle (TailByte 0xE3))
      (tail_transfer_id (TailByte 0xE3)) = TailByte 0xE3"
  by (rule tail_byte_roundtrip) (simp add: transfer_id_wf_def transfer_id_MAX_VALUE_def)

end
