(* ===== verification/Scatter.thy ===== *)
theory Scatter
  imports Transfer_Format
begin

text \<open>
  Segmentation of a transfer into frames (\<open>emcyphal/src/buffer/scatter.rs\<close>): the state of
  \<open>Scatter\<close>, its operations, and the shape of the frames it produces for any sequence of
  MTUs. Slices and assertions that can panic are explicit.
\<close>

section \<open>Model\<close>

record scatter =
  sc_transfer_id :: transfer_id
  sc_toggle_bit :: bool
  sc_data_length :: nat
  sc_offset :: nat
  sc_crc :: transfer_crc

definition sc_CRC_LENGTH :: nat where
  "sc_CRC_LENGTH = crc_LENGTH"

definition sc_TAIL_LENGTH :: nat where
  "sc_TAIL_LENGTH = 1"

definition sc_new :: "transfer_id \<Rightarrow> u8 list \<Rightarrow> nat \<Rightarrow> transfer_crc \<Rightarrow> scatter" where
  "sc_new transfer_id buffer data_length crc =
     \<lparr> sc_transfer_id = transfer_id, sc_toggle_bit = SOT_TOGGLE_BIT,
       sc_data_length = data_length, sc_offset = 0, sc_crc = crc \<rparr>"

definition sc_is_exhausted :: "scatter \<Rightarrow> bool" where
  "sc_is_exhausted sc \<longleftrightarrow> sc_offset sc = sc_data_length sc + sc_CRC_LENGTH"

text \<open>The three segment writers take the payload slice and return it written.\<close>

definition sc_fetch_single_segment ::
  "scatter \<Rightarrow> u8 list \<Rightarrow> u8 list \<Rightarrow> (u8 list \<times> scatter) exec" where
  "sc_fetch_single_segment sc buffer payload = do {
     (payload_data, payload_pad) \<leftarrow> split_at payload (sc_data_length sc);
     data \<leftarrow> slice buffer 0 (sc_data_length sc);
     payload_data \<leftarrow> copy_from_slice payload_data data;
     ret (payload_data @ fill payload_pad PAD_VALUE,
          sc\<lparr> sc_offset := sc_data_length sc + sc_CRC_LENGTH \<rparr>)
   }"

definition sc_fetch_full_segment ::
  "scatter \<Rightarrow> u8 list \<Rightarrow> u8 list \<Rightarrow> (u8 list \<times> scatter) exec" where
  "sc_fetch_full_segment sc buffer payload = do {
     residual_length \<leftarrow> sub_of (sc_data_length sc + sc_CRC_LENGTH) (sc_offset sc);
     assert_that (residual_length \<ge> length payload);
     residual_data \<leftarrow> slice buffer (min (sc_offset sc) (sc_data_length sc)) (sc_data_length sc);
     (payload_data, payload_crc) \<leftarrow> split_at payload (min (length residual_data) (length payload));
     data \<leftarrow> slice residual_data 0 (length payload_data);
     payload_data \<leftarrow> copy_from_slice payload_data data;
     crc_offset \<leftarrow> sub_of (max (sc_offset sc) (sc_data_length sc)) (sc_data_length sc);
     residual_crc \<leftarrow> slice (to_be_bytes (crc_get (sc_crc sc))) crc_offset sc_CRC_LENGTH;
     crc \<leftarrow> slice residual_crc 0 (length payload_crc);
     payload_crc \<leftarrow> copy_from_slice payload_crc crc;
     ret (payload_data @ payload_crc, sc\<lparr> sc_offset := sc_offset sc + length payload \<rparr>)
   }"

definition sc_fetch_padded_segment ::
  "scatter \<Rightarrow> u8 list \<Rightarrow> u8 list \<Rightarrow> (u8 list \<times> scatter) exec" where
  "sc_fetch_padded_segment sc buffer payload = do {
     assert_that (sc_offset sc \<le> sc_data_length sc);
     residual_data \<leftarrow> slice buffer (sc_offset sc) (sc_data_length sc);
     split \<leftarrow> sub_of (length payload) sc_CRC_LENGTH;
     (payload_data_pad, payload_crc) \<leftarrow> split_at payload split;
     (payload_data, payload_pad) \<leftarrow> split_at payload_data_pad (length residual_data);
     payload_data \<leftarrow> copy_from_slice payload_data residual_data;
     let payload_pad = fill payload_pad PAD_VALUE;
     let crc = crc_add_bytes (sc_crc sc) payload_pad;
     ret (payload_data @ payload_pad @ to_be_bytes (crc_get crc),
          sc\<lparr> sc_offset := sc_offset sc + (length payload_data + length payload_crc) \<rparr>)
   }"

definition sc_fetch_frame_data ::
  "scatter \<Rightarrow> u8 list \<Rightarrow> mtu \<Rightarrow> (data option \<times> scatter) exec" where
  "sc_fetch_frame_data sc buffer mtu = do {
     max_payload_length \<leftarrow> sub_of (mtu_usize mtu) sc_TAIL_LENGTH;
     if sc_offset sc = 0 \<and> sc_data_length sc \<le> max_payload_length then do {
       frame_length \<leftarrow> unwrap (dl_new_ceil (sc_data_length sc + sc_TAIL_LENGTH));
       let frame_data = data_new_zeros frame_length;
       (tail, payload) \<leftarrow> unwrap (split_last (data_deref frame_data));
       (payload, sc) \<leftarrow> sc_fetch_single_segment sc buffer payload;
       let tail = tail_into_u8 (tail_new True True SOT_TOGGLE_BIT (sc_transfer_id sc));
       ret (Some (data_deref_set frame_data (payload @ [tail])), sc)
     } else do {
       residual_length \<leftarrow> sub_of (sc_data_length sc + sc_CRC_LENGTH) (sc_offset sc);
       if residual_length = 0 then ret (None, sc) else do {
         frame_length \<leftarrow>
           unwrap (dl_new_ceil (min residual_length max_payload_length + sc_TAIL_LENGTH));
         let frame_data = data_new_zeros frame_length;
         (tail, payload) \<leftarrow> unwrap (split_last (data_deref frame_data));
         let sot = (sc_offset sc = 0);
         (payload, sc) \<leftarrow>
           (if residual_length \<ge> length payload then sc_fetch_full_segment sc buffer payload
            else do {
              assert_that (sc_offset sc \<le> sc_data_length sc);
              sc_fetch_padded_segment sc buffer payload
            });
         let tail = tail_into_u8 (tail_new sot
           (sc_offset sc = sc_data_length sc + sc_CRC_LENGTH)
           (sc_toggle_bit sc) (sc_transfer_id sc));
         ret (Some (data_deref_set frame_data (payload @ [tail])),
              sc\<lparr> sc_toggle_bit := \<not> sc_toggle_bit sc \<rparr>)
       }
     }
   }"

text \<open>The frames a driver pops one after the other, with the MTU it asks for each time.\<close>

fun sc_fetch_all :: "scatter \<Rightarrow> u8 list \<Rightarrow> mtu list \<Rightarrow> (data list \<times> scatter) exec" where
  "sc_fetch_all sc buffer [] = ret ([], sc)"
| "sc_fetch_all sc buffer (m # ms) = do {
     (frame, sc) \<leftarrow> sc_fetch_frame_data sc buffer m;
     (case frame of
        None \<Rightarrow> ret ([], sc)
      | Some data \<Rightarrow> do {
          (frames, sc) \<leftarrow> sc_fetch_all sc buffer ms;
          ret (data # frames, sc)
        })
   }"

section \<open>The frames of a transfer\<close>

text \<open>What remains to be sent: the data of the transfer and its CRC.\<close>

definition sc_stream :: "scatter \<Rightarrow> u8 list \<Rightarrow> nat \<Rightarrow> u8 list" where
  "sc_stream sc buffer k = take (sc_data_length sc) buffer @ replicate k PAD_VALUE @
     to_be_bytes (crc_get (crc_add_bytes (sc_crc sc) (replicate k PAD_VALUE)))"

definition sc_inv :: "scatter \<Rightarrow> u8 list \<Rightarrow> bool" where
  "sc_inv sc buffer \<longleftrightarrow> sc_data_length sc \<le> length buffer \<and>
     sc_offset sc \<le> sc_data_length sc + 2"

lemma sc_lengths [simp]: "sc_CRC_LENGTH = 2" "sc_TAIL_LENGTH = 1"
  by (simp_all add: sc_CRC_LENGTH_def sc_TAIL_LENGTH_def crc_LENGTH_def)

lemma length_sc_stream [simp]:
  "sc_data_length sc \<le> length buffer \<Longrightarrow> length (sc_stream sc buffer k) = sc_data_length sc + k + 2"
  by (simp add: sc_stream_def)

lemma take_drop_append:
  "take n (drop m (xs @ ys)) =
    take n (drop m xs) @ take (n - (length xs - m)) (drop (m - length xs) ys)"
  by simp

lemma sc_full_segment:
  assumes "sc_inv sc buffer" "length payload \<le> sc_data_length sc + 2 - sc_offset sc"
  shows "sc_fetch_full_segment sc buffer payload =
    Some (take (length payload) (drop (sc_offset sc) (sc_stream sc buffer 0)),
          sc\<lparr> sc_offset := sc_offset sc + length payload \<rparr>)"
proof (cases "sc_offset sc \<le> sc_data_length sc")
  case True
  then show ?thesis using assms
    by (auto simp: sc_fetch_full_segment_def sc_inv_def sc_stream_def min_def take_drop_append
        take_drop copy_from_slice_def)
next
  case False
  then show ?thesis using assms
    by (auto simp: sc_fetch_full_segment_def sc_inv_def sc_stream_def min_def take_drop_append
        take_drop copy_from_slice_def)
qed

lemma sc_padded_segment:
  assumes "sc_inv sc buffer" "sc_offset sc \<le> sc_data_length sc"
    "length payload = sc_data_length sc + 2 - sc_offset sc + k"
  shows "sc_fetch_padded_segment sc buffer payload =
    Some (drop (sc_offset sc) (sc_stream sc buffer k),
          sc\<lparr> sc_offset := sc_data_length sc + 2 \<rparr>)"
  using assms
  by (auto simp: sc_fetch_padded_segment_def sc_inv_def sc_stream_def fill_def Let_def drop_take)

lemma split_last_zeros:
  assumes "dl_wf l" "0 < dl_as_usize l"
  shows "split_last (data_deref (data_new_zeros l)) = Some (0, replicate (dl_as_usize l - 1) 0)"
proof -
  have "data_deref (data_new_zeros l) = replicate (dl_as_usize l) 0"
    using dl_wf_le [OF assms(1)] by (simp add: data_deref_def data_new_zeros_def min_def)
  also have "\<dots> = replicate (dl_as_usize l - 1) 0 @ [0]"
    using assms(2) by (cases "dl_as_usize l") (simp_all add: replicate_append_same)
  finally show ?thesis by simp
qed

lemma data_deref_set_zeros:
  assumes "dl_wf l" "length xs = dl_as_usize l"
  shows "data_wf (data_deref_set (data_new_zeros l) xs)"
    "data_deref (data_deref_set (data_new_zeros l) xs) = xs"
  using assms dl_wf_le [OF assms(1)]
  by (simp_all add: data_new_zeros_def data_deref_def data_deref_set_def data_wf_def)

lemma mtu_cases: "mtu_usize m \<in> {8, 64}"
  by (cases m) simp_all

lemma mtu_dl: obtains l where "dl_wf l" "dl_as_usize l = mtu_usize m"
proof -
  have "mtu_usize m \<in> set valid_can_length" by (cases m) (simp_all add: valid_can_length_def)
  then obtain l where "dl_new (mtu_usize m) = Some l"
    by (auto simp: dl_new_def Let_def dl_floor_eq_ref floor_length_ref_valid)
  then show ?thesis using that by (auto simp: dl_new_Some_iff dl_wf_def)
qed

lemma mtu_new_ceil:
  assumes "v \<le> mtu_usize m"
  obtains l where "dl_new_ceil v = Some l" "dl_wf l" "v \<le> dl_as_usize l"
    "dl_as_usize l \<le> mtu_usize m"
proof -
  have "mtu_usize m \<in> set valid_can_length" by (cases m) (simp_all add: valid_can_length_def)
  moreover have "v \<le> 64" using assms by (cases m) simp_all
  ultimately show ?thesis using that dl_new_ceil_le [of v] assms by metis
qed

lemma sc_fetch_single:
  assumes "sc_inv sc buffer" "sc_offset sc = 0" "sc_data_length sc < mtu_usize m"
  obtains f k where
    "sc_fetch_frame_data sc buffer m = Some (Some f, sc\<lparr> sc_offset := sc_data_length sc + 2 \<rparr>)"
    "data_wf f" "sc_data_length sc + k < mtu_usize m"
    "data_deref f = take (sc_data_length sc) buffer @ replicate k PAD_VALUE @
      [tail_into_u8 (tail_new True True SOT_TOGGLE_BIT (sc_transfer_id sc))]"
proof -
  obtain l where l: "dl_new_ceil (sc_data_length sc + 1) = Some l" "dl_wf l"
      "sc_data_length sc + 1 \<le> dl_as_usize l" "dl_as_usize l \<le> mtu_usize m"
    using assms(3) by (auto intro: mtu_new_ceil [of "sc_data_length sc + 1" m])
  obtain p where p: "dl_as_usize l = Suc p" using l(3) by (cases "dl_as_usize l") auto
  let ?sc = "sc\<lparr> sc_offset := sc_data_length sc + 2 \<rparr>"
  let ?ys = "take (sc_data_length sc) buffer @ replicate (p - sc_data_length sc) PAD_VALUE"
  have seg: "sc_fetch_single_segment sc buffer (replicate p 0) = Some (?ys, ?sc)"
    using l(3) assms(1) p by (simp add: sc_fetch_single_segment_def sc_inv_def fill_def)
  let ?xs = "?ys @ [tail_into_u8 (tail_new True True SOT_TOGGLE_BIT (sc_transfer_id sc))]"
  have len: "length ?xs = dl_as_usize l" using l(3) assms(1) p by (simp add: sc_inv_def)
  have le: "sc_data_length sc \<le> mtu_usize m - 1" "1 \<le> mtu_usize m"
    using assms(3) by simp_all
  have "sc_fetch_frame_data sc buffer m =
      Some (Some (data_deref_set (data_new_zeros l) ?xs), ?sc)"
    using l(1) split_last_zeros [OF l(2)] le
    by (simp add: sc_fetch_frame_data_def assms(2) seg p)
  then show ?thesis
    using that data_deref_set_zeros [OF l(2) len] l(3,4) p by force
qed

lemma sc_fetch_full:
  assumes "sc_inv sc buffer" "mtu_usize m \<le> sc_data_length sc + 2 - sc_offset sc"
    "\<not> (sc_offset sc = 0 \<and> sc_data_length sc < mtu_usize m)"
  obtains f where
    "sc_fetch_frame_data sc buffer m = Some (Some f, sc\<lparr> sc_offset := sc_offset sc + (mtu_usize m - 1),
       sc_toggle_bit := \<not> sc_toggle_bit sc \<rparr>)"
    "data_wf f"
    "data_deref f = take (mtu_usize m - 1) (drop (sc_offset sc) (sc_stream sc buffer 0)) @
      [tail_into_u8 (tail_new (sc_offset sc = 0) False (sc_toggle_bit sc) (sc_transfer_id sc))]"
proof -
  obtain l where l: "dl_wf l" "dl_as_usize l = mtu_usize m" by (rule mtu_dl)
  then have ceil: "dl_new_ceil (mtu_usize m) = Some l"
    using dl_new_ceil_exact [OF l(1)] by simp
  define n where "n = mtu_usize m - 1"
  have n: "mtu_usize m = Suc n" using mtu_cases [of m] by (auto simp: n_def)
  let ?xs = "take n (drop (sc_offset sc) (sc_stream sc buffer 0)) @
    [tail_into_u8 (tail_new (sc_offset sc = 0) False (sc_toggle_bit sc) (sc_transfer_id sc))]"
  have len: "length ?xs = dl_as_usize l"
    using assms(1,2) l(2) n by (simp add: sc_inv_def)
  have not_last: "sc_offset sc + n \<noteq> sc_data_length sc + 2" using assms(2) n by simp
  have seg: "sc_fetch_full_segment sc buffer (replicate n 0) =
    Some (take n (drop (sc_offset sc) (sc_stream sc buffer 0)),
          sc\<lparr> sc_offset := sc_offset sc + n \<rparr>)"
    using sc_full_segment [OF assms(1), of "replicate n 0"] assms(2) n by simp
  have "sc_fetch_frame_data sc buffer m =
      Some (Some (data_deref_set (data_new_zeros l) ?xs), sc\<lparr> sc_offset := sc_offset sc + n,
       sc_toggle_bit := \<not> sc_toggle_bit sc \<rparr>)"
    using assms n l ceil split_last_zeros [OF l(1)] not_last
    by (auto simp: sc_fetch_frame_data_def seg sc_inv_def min_def)
  then show ?thesis using that data_deref_set_zeros [OF l(1) len] n by simp
qed

lemma sc_fetch_last:
  assumes "sc_inv sc buffer" "0 < sc_offset sc" "sc_offset sc < sc_data_length sc + 2"
    "sc_data_length sc + 2 - sc_offset sc < mtu_usize m"
  obtains f k where
    "sc_fetch_frame_data sc buffer m = Some (Some f, sc\<lparr> sc_offset := sc_data_length sc + 2,
       sc_toggle_bit := \<not> sc_toggle_bit sc \<rparr>)"
    "data_wf f" "0 < k \<longrightarrow> sc_offset sc \<le> sc_data_length sc"
    "sc_data_length sc + 2 - sc_offset sc + k < mtu_usize m"
    "data_deref f = drop (sc_offset sc) (sc_stream sc buffer k) @
      [tail_into_u8 (tail_new False True (sc_toggle_bit sc) (sc_transfer_id sc))]"
proof -
  define res where "res = sc_data_length sc + 2 - sc_offset sc"
  have res: "res + 1 \<le> mtu_usize m" "0 < res" using assms by (simp_all add: res_def)
  obtain l where l: "dl_new_ceil (res + 1) = Some l" "dl_wf l" "res + 1 \<le> dl_as_usize l"
      "dl_as_usize l \<le> mtu_usize m"
    using mtu_new_ceil [OF res(1)] by blast
  define k where "k = dl_as_usize l - 1 - res"
  have pl: "dl_as_usize l - 1 = res + k" using l(3) by (simp add: k_def)
  have pad: "sc_offset sc \<le> sc_data_length sc" if "0 < k"
  proof (rule ccontr)
    assume "\<not> sc_offset sc \<le> sc_data_length sc"
    then have "res = 1" using assms(3) by (simp add: res_def)
    then have "dl_new_ceil 2 = Some l" using l(1) by (simp add: numeral_2_eq_2)
    then have "dl_as_usize l = 2" by (auto simp: dl_new_ceil_def dl_MAX_def dl_as_usize_def)
    then show False using that \<open>res = 1\<close> by (simp add: k_def)
  qed
  let ?sc = "sc\<lparr> sc_offset := sc_data_length sc + 2 \<rparr>"
  let ?xs = "drop (sc_offset sc) (sc_stream sc buffer k) @
    [tail_into_u8 (tail_new False True (sc_toggle_bit sc) (sc_transfer_id sc))]"
  have len: "length ?xs = dl_as_usize l"
    using assms(1,3) l(3) pl by (simp add: sc_inv_def res_def)
  have seg: "(if res \<ge> length p then sc_fetch_full_segment sc buffer p
      else do { assert_that (sc_offset sc \<le> sc_data_length sc); sc_fetch_padded_segment sc buffer p })
    = Some (drop (sc_offset sc) (sc_stream sc buffer k), ?sc)"
    if p: "length p = res + k" for p
  proof (cases "k = 0")
    case True
    then show ?thesis
      using sc_full_segment [OF assms(1), of p] p assms(1,3) by (simp add: res_def sc_inv_def)
  next
    case False
    then have "\<not> length p \<le> res" using p by simp
    with False show ?thesis
      using sc_padded_segment [OF assms(1) pad, of p k] p pad assms(3)
      by (simp add: res_def)
  qed
  have sub: "sub_of (sc_data_length sc + sc_CRC_LENGTH) (sc_offset sc) = Some res"
    using assms(3) by (simp add: res_def)
  have mtu: "sub_of (mtu_usize m) sc_TAIL_LENGTH = Some (mtu_usize m - 1)"
    "min res (mtu_usize m - 1) + sc_TAIL_LENGTH = res + 1"
    using res by simp_all
  have off: "sc_data_length sc + 2 = sc_data_length sc + sc_CRC_LENGTH" by simp
  have "sc_fetch_frame_data sc buffer m =
      Some (Some (data_deref_set (data_new_zeros l) ?xs),
            ?sc\<lparr> sc_toggle_bit := \<not> sc_toggle_bit sc \<rparr>)"
    using assms(2) res(2) l(1) split_last_zeros [OF l(2)] l(3) pl
      seg [of "replicate (res + k) 0"]
    unfolding sc_fetch_frame_data_def sub mtu off
    by (simp add: mtu(2) [unfolded One_nat_def] del: sc_lengths)
  then show ?thesis
    using that [of _ k] data_deref_set_zeros [OF l(2) len] pad l(3,4) pl by (simp add: res_def)
qed

lemma sc_fetch_exhausted:
  assumes "sc_is_exhausted sc"
  shows "sc_fetch_frame_data sc buffer m = Some (None, sc)"
proof -
  have "sub_of (mtu_usize m) sc_TAIL_LENGTH = Some (mtu_usize m - 1)"
    using mtu_cases [of m] by auto
  then show ?thesis using assms by (simp add: sc_fetch_frame_data_def sc_is_exhausted_def)
qed

end
