(* ===== verification/Gather.thy ===== *)
theory Gather
  imports Scatter
begin

text \<open>
  Reassembly of transfers from frames (\<open>emcyphal/src/buffer/gather.rs\<close>): the state machine
  of \<open>Gather\<close> with its payload accumulator. The receive buffer is passed in and returned.
  The addition of a timeout to an instant belongs to the driver's time library: it is the
  parameter \<open>sadd\<close>.
\<close>

section \<open>Model\<close>

record transfer =
  t_id :: transfer_id
  t_priority :: priority
  t_timestamp :: instant
  t_length :: u32

record segment =
  s_transfer_id :: transfer_id
  s_priority :: priority
  s_payload :: "u8 list"
  s_timestamp :: instant

datatype ga_state =
  Idle | IdleLastTransfer | AccumulatedFirst | AccumulatedOdd | AccumulatedEven | Assembled

record payload_accumulator =
  acc_length :: u32
  acc_crc :: transfer_crc

definition acc_default :: payload_accumulator where
  "acc_default = \<lparr> acc_length = 0, acc_crc = crc_default \<rparr>"

text \<open>\<open>u32::try_from\<close> of a \<open>usize\<close>, and \<open>u32::checked_add\<close>.\<close>

definition u32_try_from :: "nat \<Rightarrow> u32 option" where
  "u32_try_from n = (if n < 2 ^ 32 then Some (of_nat n) else None)"

lemma u32_try_from_code [code]:
  "u32_try_from n = (if n < 256 then Some (of_nat n) else if n < 2 ^ 32 then Some (of_nat n) else None)"
  by (simp add: u32_try_from_def)

definition u32_checked_add :: "u32 \<Rightarrow> u32 \<Rightarrow> u32 option" where
  "u32_checked_add a b = (if unat a + unat b < 2 ^ 32 then Some (a + b) else None)"

text \<open>An error leaves the accumulator and the buffer as they were.\<close>

definition acc_append ::
  "payload_accumulator \<Rightarrow> u8 list \<Rightarrow> u8 list \<Rightarrow> (payload_accumulator \<times> u8 list) option" where
  "acc_append acc buffer segment = do {
     new_length \<leftarrow> do { len \<leftarrow> u32_try_from (length segment);
                        u32_checked_add (acc_length acc) len };
     let buffer_offset = min (length buffer) (unat (acc_length acc));
     let store_length = min (length segment) (length buffer - buffer_offset);
     Some (\<lparr> acc_length = new_length, acc_crc = crc_add_bytes (acc_crc acc) segment \<rparr>,
           copy_at buffer buffer_offset (take store_length segment))
   }"

definition acc_try_get :: "payload_accumulator \<Rightarrow> u32 option" where
  "acc_try_get acc = (let tail_len = of_nat crc_LENGTH; crc_match = (crc_get (acc_crc acc) = 0) in
     if acc_length acc \<ge> tail_len \<and> crc_match then Some (acc_length acc - tail_len) else None)"

record gather =
  g_state :: ga_state
  g_sof_timestamp :: "instant option"
  g_transfer_id :: "transfer_id option"
  g_acc :: payload_accumulator

definition ga_default :: gather where
  "ga_default = \<lparr> g_state = Idle, g_sof_timestamp = None, g_transfer_id = None,
     g_acc = acc_default \<rparr>"

definition ga_last_transfer_timestamp :: "gather \<Rightarrow> instant option exec" where
  "ga_last_transfer_timestamp g = (case g_state g of
     Idle \<Rightarrow> ret None
   | _ \<Rightarrow> do { t \<leftarrow> unwrap (g_sof_timestamp g); ret (Some t) })"

text \<open>Each handler returns the transfer it produces, the new state and the buffer.\<close>

type_synonym ga_result = "transfer option \<times> gather \<times> u8 list"

definition ga_skip_frame :: "gather \<Rightarrow> u8 list \<Rightarrow> ga_result exec" where
  "ga_skip_frame g buffer = ret (None, g, buffer)"

definition ga_stop_assembly :: "gather \<Rightarrow> u8 list \<Rightarrow> ga_result exec" where
  "ga_stop_assembly g buffer = ret (None,
     g\<lparr> g_state := (if g_sof_timestamp g \<noteq> None then IdleLastTransfer else Idle),
        g_transfer_id := None, g_acc := acc_default \<rparr>, buffer)"

definition ga_single_frame_assembly :: "gather \<Rightarrow> u8 list \<Rightarrow> segment \<Rightarrow> ga_result exec" where
  "ga_single_frame_assembly g buffer segment = do {
     let store_length = min (length (s_payload segment)) (length buffer);
     let buffer = copy_at buffer 0 (take store_length (s_payload segment));
     let g = g\<lparr> g_state := Assembled, g_sof_timestamp := Some (s_timestamp segment),
                g_transfer_id := Some (s_transfer_id segment), g_acc := acc_default \<rparr>;
     len \<leftarrow> unwrap (u32_try_from (length (s_payload segment)));
     ret (Some \<lparr> t_id = s_transfer_id segment, t_priority = s_priority segment,
                 t_timestamp = s_timestamp segment, t_length = len \<rparr>, g, buffer)
   }"

definition ga_accumulate_first :: "gather \<Rightarrow> u8 list \<Rightarrow> segment \<Rightarrow> ga_result exec" where
  "ga_accumulate_first g buffer segment =
     (if mtu_try_from (length (s_payload segment) + 1) = None then ga_stop_assembly g buffer
      else
        let g = g\<lparr> g_state := AccumulatedFirst, g_sof_timestamp := Some (s_timestamp segment),
                   g_transfer_id := Some (s_transfer_id segment), g_acc := acc_default \<rparr> in
        (case acc_append (g_acc g) buffer (s_payload segment) of
           None \<Rightarrow> ga_stop_assembly g buffer
         | Some (acc, buffer) \<Rightarrow> ret (None, g\<lparr> g_acc := acc \<rparr>, buffer)))"

definition ga_accumulate_odd :: "gather \<Rightarrow> u8 list \<Rightarrow> segment \<Rightarrow> ga_result exec" where
  "ga_accumulate_odd g buffer segment =
     (if mtu_try_from (length (s_payload segment) + 1) = None then ga_stop_assembly g buffer
      else
        let g = g\<lparr> g_state := AccumulatedOdd \<rparr> in
        (case acc_append (g_acc g) buffer (s_payload segment) of
           None \<Rightarrow> ga_stop_assembly g buffer
         | Some (acc, buffer) \<Rightarrow> ret (None, g\<lparr> g_acc := acc \<rparr>, buffer)))"

definition ga_accumulate_even :: "gather \<Rightarrow> u8 list \<Rightarrow> segment \<Rightarrow> ga_result exec" where
  "ga_accumulate_even g buffer segment =
     (if mtu_try_from (length (s_payload segment) + 1) = None then ga_stop_assembly g buffer
      else
        let g = g\<lparr> g_state := AccumulatedEven \<rparr> in
        (case acc_append (g_acc g) buffer (s_payload segment) of
           None \<Rightarrow> ga_stop_assembly g buffer
         | Some (acc, buffer) \<Rightarrow> ret (None, g\<lparr> g_acc := acc \<rparr>, buffer)))"

definition ga_finish_assembly :: "gather \<Rightarrow> u8 list \<Rightarrow> segment \<Rightarrow> ga_result exec" where
  "ga_finish_assembly g buffer segment =
     (if s_payload segment = [] then ga_stop_assembly g buffer
      else (case acc_append (g_acc g) buffer (s_payload segment) of
          None \<Rightarrow> ga_stop_assembly g buffer
        | Some (acc, buffer) \<Rightarrow>
            let g = g\<lparr> g_acc := acc \<rparr> in
            (case acc_try_get (g_acc g) of
               None \<Rightarrow> ga_stop_assembly g buffer
             | Some len \<Rightarrow> do {
                 let g = g\<lparr> g_state := Assembled, g_acc := acc_default \<rparr>;
                 tid \<leftarrow> unwrap (g_transfer_id g);
                 ts \<leftarrow> unwrap (g_sof_timestamp g);
                 ret (Some \<lparr> t_id = tid, t_priority = s_priority segment, t_timestamp = ts,
                             t_length = len \<rparr>, g, buffer)
               })))"

text \<open>
  The match of \<open>push_frame\<close> on (state, sot, eot, toggle_odd, tid_match): its arms in the
  order of the source, the handler named by a constructor.
\<close>

datatype ga_action =
  SkipFrame | StopAssembly | SingleFrame | AccumulateFirst | AccumulateOdd | AccumulateEven
| FinishAssembly

fun ga_action_of :: "ga_state \<Rightarrow> bool \<Rightarrow> bool \<Rightarrow> bool \<Rightarrow> bool \<Rightarrow> ga_action" where
  "ga_action_of Assembled _ _ _ True = SkipFrame"
| "ga_action_of _ True _ True _ = StopAssembly"
| "ga_action_of _ True True False _ = SingleFrame"
| "ga_action_of _ True False False _ = AccumulateFirst"
| "ga_action_of _ _ _ _ False = StopAssembly"
| "ga_action_of Idle _ _ _ _ = SkipFrame"
| "ga_action_of IdleLastTransfer _ _ _ _ = SkipFrame"
| "ga_action_of AccumulatedFirst False False False True = StopAssembly"
| "ga_action_of AccumulatedFirst False False True True = AccumulateOdd"
| "ga_action_of AccumulatedFirst False True False True = StopAssembly"
| "ga_action_of AccumulatedFirst False True True True = FinishAssembly"
| "ga_action_of AccumulatedOdd False False False True = AccumulateEven"
| "ga_action_of AccumulatedOdd False False True True = SkipFrame"
| "ga_action_of AccumulatedOdd False True False True = FinishAssembly"
| "ga_action_of AccumulatedOdd False True True True = StopAssembly"
| "ga_action_of AccumulatedEven False False False True = SkipFrame"
| "ga_action_of AccumulatedEven False False True True = AccumulateOdd"
| "ga_action_of AccumulatedEven False True False True = StopAssembly"
| "ga_action_of AccumulatedEven False True True True = FinishAssembly"

fun ga_run_action :: "ga_action \<Rightarrow> gather \<Rightarrow> u8 list \<Rightarrow> segment \<Rightarrow> ga_result exec" where
  "ga_run_action SkipFrame g buffer segment = ga_skip_frame g buffer"
| "ga_run_action StopAssembly g buffer segment = ga_stop_assembly g buffer"
| "ga_run_action SingleFrame g buffer segment = ga_single_frame_assembly g buffer segment"
| "ga_run_action AccumulateFirst g buffer segment = ga_accumulate_first g buffer segment"
| "ga_run_action AccumulateOdd g buffer segment = ga_accumulate_odd g buffer segment"
| "ga_run_action AccumulateEven g buffer segment = ga_accumulate_even g buffer segment"
| "ga_run_action FinishAssembly g buffer segment = ga_finish_assembly g buffer segment"

definition ga_tid_match ::
  "(instant \<Rightarrow> duration \<Rightarrow> instant) \<Rightarrow> gather \<Rightarrow> duration \<Rightarrow> transfer_id \<Rightarrow> instant \<Rightarrow> bool exec" where
  "ga_tid_match sadd g timeout tid timestamp =
     (if g_state g = Idle \<or> g_state g = IdleLastTransfer then ret False
      else do {
        own \<leftarrow> unwrap (g_transfer_id g);
        if tid = own then do {
          sof \<leftarrow> unwrap (g_sof_timestamp g);
          ret (timestamp \<le> sadd sof timeout)
        } else ret False
      })"

definition ga_push_frame ::
  "(instant \<Rightarrow> duration \<Rightarrow> instant) \<Rightarrow> gather \<Rightarrow> duration \<Rightarrow> u8 list \<Rightarrow> priority \<Rightarrow> u8 list \<Rightarrow>
    instant \<Rightarrow> ga_result exec" where
  "ga_push_frame sadd g timeout buffer priority data timestamp = (case split_last data of
     None \<Rightarrow> ret (None, g, buffer)
   | Some (tail_byte, payload) \<Rightarrow> do {
       let tail = TailByte tail_byte;
       let segment = \<lparr> s_transfer_id = tail_transfer_id tail, s_priority = priority,
                       s_payload = payload, s_timestamp = timestamp \<rparr>;
       tid_match \<leftarrow> ga_tid_match sadd g timeout (tail_transfer_id tail) timestamp;
       let toggle_odd = (tail_toggle tail \<noteq> SOT_TOGGLE_BIT);
       ga_run_action
         (ga_action_of (g_state g) (tail_sot tail) (tail_eot tail) toggle_odd tid_match)
         g buffer segment
     })"

text \<open>A sequence of frames (priority, data, timestamp), and the transfers they produce.\<close>

fun ga_push_all ::
  "(instant \<Rightarrow> duration \<Rightarrow> instant) \<Rightarrow> duration \<Rightarrow> gather \<Rightarrow> u8 list \<Rightarrow>
    (priority \<times> u8 list \<times> instant) list \<Rightarrow> (transfer option list \<times> gather \<times> u8 list) exec" where
  "ga_push_all sadd timeout g buffer [] = ret ([], g, buffer)"
| "ga_push_all sadd timeout g buffer ((p, data, ts) # fs) = do {
     (t, g, buffer) \<leftarrow> ga_push_frame sadd g timeout buffer p data ts;
     (out, g, buffer) \<leftarrow> ga_push_all sadd timeout g buffer fs;
     ret (t # out, g, buffer)
   }"

section \<open>The accumulator and the receive buffer\<close>

text \<open>
  What a buffer holds after a sequence of payloads was appended to it: the bytes that fit, over
  the previous contents.
\<close>

definition ga_store :: "u8 list \<Rightarrow> u8 list \<Rightarrow> u8 list" where
  "ga_store buffer p = take (length buffer) p @ drop (length p) buffer"

lemma length_ga_store [simp]: "length (ga_store buffer p) = length buffer"
  by (simp add: ga_store_def)

lemma ga_store_Nil [simp]: "ga_store buffer [] = buffer"
  by (simp add: ga_store_def)

lemma ga_store_append:
  "copy_at (ga_store buffer p) (min (length buffer) (length p))
     (take (min (length s) (length buffer - min (length buffer) (length p))) s) =
   ga_store buffer (p @ s)"
proof (cases "length p \<le> length buffer")
  case True
  then show ?thesis
    by (cases "length s \<le> length buffer - length p") (auto simp: ga_store_def copy_at_def ac_simps)
qed (simp add: ga_store_def copy_at_def)

lemma take_ga_store: "n \<le> length p \<Longrightarrow> take n (ga_store buffer p) = take (length buffer) (take n p)
    @ take (n - length buffer) []"
  by (simp add: ga_store_def min_def)

text \<open>The accumulator has seen exactly the bytes \<open>p\<close>.\<close>

definition acc_seen :: "payload_accumulator \<Rightarrow> u8 list \<Rightarrow> bool" where
  "acc_seen acc p \<longleftrightarrow> length p < 2 ^ 32 \<and> acc_length acc = of_nat (length p) \<and>
     acc_crc acc = crc_add_bytes crc_default p"

lemma acc_seen_default [simp]: "acc_seen acc_default []"
  by (simp add: acc_seen_def acc_default_def)

lemma unat_of_nat_u32: "n < 2 ^ 32 \<Longrightarrow> unat (of_nat n :: u32) = n"
  by (simp add: unat_of_nat take_bit_nat_eq_self flip: take_bit_eq_mod)

lemma acc_append_seen:
  assumes "acc_seen acc p"
  shows "acc_append acc (ga_store buffer p) s =
    (if length p + length s < 2 ^ 32
     then Some (\<lparr> acc_length = of_nat (length (p @ s)), acc_crc = crc_add_bytes crc_default (p @ s) \<rparr>,
                ga_store buffer (p @ s))
     else None)"
proof -
  have p: "length p < 2 ^ 32" "unat (acc_length acc) = length p"
    using assms by (simp_all add: acc_seen_def unat_of_nat_u32)
  show ?thesis
  proof (cases "length s < 2 ^ 32")
    case True
    then have "u32_checked_add (acc_length acc) (of_nat (length s)) =
        (if length p + length s < 2 ^ 32 then Some (of_nat (length (p @ s))) else None)"
      using assms by (simp add: u32_checked_add_def p unat_of_nat_u32 acc_seen_def)
    then show ?thesis
      using True p ga_store_append [of buffer p s] assms
      by (simp add: acc_append_def u32_try_from_def acc_seen_def Let_def unat_of_nat_u32)
  next
    case False
    then show ?thesis by (simp add: acc_append_def u32_try_from_def)
  qed
qed

lemma acc_seen_append:
  "acc_seen acc p \<Longrightarrow> length (p @ s) < 2 ^ 32 \<Longrightarrow>
    acc_seen \<lparr> acc_length = of_nat (length (p @ s)), acc_crc = crc_add_bytes crc_default (p @ s) \<rparr> (p @ s)"
  by (simp add: acc_seen_def)

lemma acc_try_get_seen:
  assumes "acc_seen acc p"
  shows "acc_try_get acc =
    (if 2 \<le> length p \<and> crc_get (crc_add_bytes crc_default p) = 0
     then Some (of_nat (length p - 2)) else None)"
proof -
  have "acc_length acc \<ge> 2 \<longleftrightarrow> 2 \<le> length p"
    using assms by (simp add: acc_seen_def word_le_nat_alt unat_of_nat_u32)
  then show ?thesis
    using assms by (auto simp: acc_try_get_def Let_def acc_seen_def crc_LENGTH_def)
qed

section \<open>Well-formed states\<close>

text \<open>The comments of the source on the fields that are set in each state.\<close>

definition ga_wf :: "gather \<Rightarrow> bool" where
  "ga_wf g \<longleftrightarrow> (g_state g \<noteq> Idle \<longrightarrow> g_sof_timestamp g \<noteq> None) \<and>
     (g_state g \<notin> {Idle, IdleLastTransfer} \<longrightarrow> g_transfer_id g \<noteq> None)"

lemma ga_wf_default [simp]: "ga_wf ga_default"
  by (simp add: ga_wf_def ga_default_def)

lemmas ga_handlers =
  ga_skip_frame_def ga_stop_assembly_def ga_single_frame_assembly_def ga_accumulate_first_def
  ga_accumulate_odd_def ga_accumulate_even_def ga_finish_assembly_def

lemma ga_tid_match_ok:
  assumes "ga_wf g"
  shows "ga_tid_match sadd g timeout tid ts = Some (g_state g \<notin> {Idle, IdleLastTransfer} \<and>
    g_transfer_id g = Some tid \<and> ts \<le> sadd (the (g_sof_timestamp g)) timeout)"
  using assms by (auto simp: ga_tid_match_def ga_wf_def split: option.splits)

lemma ga_run_action_ok:
  assumes "ga_wf g" "length (s_payload seg) < 2 ^ 32"
    "act \<in> {SkipFrame, StopAssembly, SingleFrame, AccumulateFirst} \<or>
      g_state g \<notin> {Idle, IdleLastTransfer}"
  shows "\<exists>t g' buffer'. ga_run_action act g buffer seg = Some (t, g', buffer') \<and> ga_wf g' \<and>
    length buffer' = length buffer"
proof -
  have len: "length buf' = length buf" if "acc_append acc buf s = Some (acc', buf')"
    for acc acc' and buf buf' s :: "u8 list"
  proof -
    have "min (length buf) (unat (acc_length acc)) +
        length (take (min (length s) (length buf - min (length buf) (unat (acc_length acc)))) s)
        \<le> length buf"
      by simp
    then show ?thesis using that length_copy_at
      by (auto simp: acc_append_def Let_def split: option.splits bind_splits)
  qed
  have "length (copy_at buffer 0 (take (min (length p) (length buffer)) p)) = length buffer" for p
    by (rule length_copy_at) simp
  with assms show ?thesis
    by (cases act) (auto simp: ga_handlers ga_wf_def Let_def u32_try_from_def len
        split: option.splits)
qed

lemma ga_action_state:
  "ga_action_of st sot eot tog tm \<in> {SkipFrame, StopAssembly, SingleFrame, AccumulateFirst} \<or>
    st \<notin> {Idle, IdleLastTransfer}"
  by (cases st; cases sot; cases eot; cases tog; cases tm) simp_all

text \<open>No frame makes the receiver panic, and every state it reaches is well formed.\<close>

lemma ga_push_frame_ok:
  assumes "ga_wf g" "length data < 2 ^ 32"
  shows "\<exists>t g' buffer'. ga_push_frame sadd g timeout buffer priority data ts = Some (t, g', buffer') \<and>
    ga_wf g' \<and> length buffer' = length buffer"
proof (cases "split_last data")
  case None
  then show ?thesis using assms by (simp add: ga_push_frame_def)
next
  case (Some tp)
  obtain b p where tp: "tp = (b, p)" by (cases tp)
  then have "length p < 2 ^ 32" using Some assms(2) by (auto simp: split_last_Some)
  then show ?thesis
    using Some tp ga_run_action_ok [OF assms(1)] ga_action_state
    by (simp add: ga_push_frame_def ga_tid_match_ok [OF assms(1)] Let_def)
qed

lemma ga_push_all_ok:
  assumes "ga_wf g" "\<forall>(p, data, ts) \<in> set fs. length data < 2 ^ 32"
  shows "\<exists>out g' buffer'. ga_push_all sadd timeout g buffer fs = Some (out, g', buffer') \<and>
    ga_wf g' \<and> length buffer' = length buffer \<and> length out = length fs"
  using assms
proof (induction fs arbitrary: g buffer)
  case (Cons f fs)
  obtain p data ts where f: "f = (p, data, ts)" by (cases f)
  then have "length data < 2 ^ 32" using Cons.prems by simp
  from ga_push_frame_ok [OF Cons.prems(1) this, where sadd = sadd and timeout = timeout
      and buffer = buffer and priority = p and ts = ts]
  obtain t g1 b1 where step: "ga_push_frame sadd g timeout buffer p data ts = Some (t, g1, b1)"
    "ga_wf g1" "length b1 = length buffer" by blast
  from Cons.IH [OF step(2), of b1] Cons.prems(2) step show ?case by (auto simp: f)
qed simp

section \<open>One frame\<close>

lemma ga_push_tail:
  assumes "transfer_id_wf tid" "ga_tid_match sadd g timeout tid ts = Some tm"
  shows "ga_push_frame sadd g timeout buffer pr
      (payload @ [tail_into_u8 (tail_new sot eot toggle tid)]) ts =
    ga_run_action (ga_action_of (g_state g) sot eot (\<not> toggle) tm) g buffer
      \<lparr> s_transfer_id = tid, s_priority = pr, s_payload = payload, s_timestamp = ts \<rparr>"
  using assms by (simp add: ga_push_frame_def SOT_TOGGLE_BIT_def)

text \<open>A new transfer may start: no assembled transfer of the same identifier blocks it.\<close>

definition ga_accepts ::
  "(instant \<Rightarrow> duration \<Rightarrow> instant) \<Rightarrow> duration \<Rightarrow> gather \<Rightarrow> transfer_id \<Rightarrow> instant \<Rightarrow> bool" where
  "ga_accepts sadd timeout g tid ts \<longleftrightarrow> ga_wf g \<and>
     \<not> (g_state g = Assembled \<and> g_transfer_id g = Some tid \<and>
        ts \<le> sadd (the (g_sof_timestamp g)) timeout)"

text \<open>
  The receiver is in the middle of a transfer that started at \<open>t0\<close>; \<open>toggle\<close> is the toggle
  bit it expects next, and \<open>p\<close> the bytes received.
\<close>

definition ga_receiving :: "gather \<Rightarrow> transfer_id \<Rightarrow> instant \<Rightarrow> bool \<Rightarrow> u8 list \<Rightarrow> bool" where
  "ga_receiving g tid t0 toggle p \<longleftrightarrow>
     g_state g \<in> (if toggle then {AccumulatedOdd} else {AccumulatedFirst, AccumulatedEven}) \<and>
     g_sof_timestamp g = Some t0 \<and> g_transfer_id g = Some tid \<and> acc_seen (g_acc g) p"

lemma ga_receiving_match:
  "ga_receiving g tid t0 toggle p \<Longrightarrow>
    ga_tid_match sadd g timeout tid ts = Some (ts \<le> sadd t0 timeout)"
  by (auto simp: ga_receiving_def ga_tid_match_def split: if_splits)

lemma ga_accepts_match:
  assumes "ga_accepts sadd timeout g tid ts"
  obtains tm where "ga_tid_match sadd g timeout tid ts = Some tm"
    "\<not> (g_state g = Assembled \<and> tm)"
  using that ga_tid_match_ok [of g sadd timeout tid ts] assms by (auto simp: ga_accepts_def)

lemma ga_push_single:
  assumes "transfer_id_wf tid" "ga_accepts sadd timeout g tid ts" "length payload < 2 ^ 32"
  shows "ga_push_frame sadd g timeout buffer pr
      (payload @ [tail_into_u8 (tail_new True True SOT_TOGGLE_BIT tid)]) ts =
    Some (Some \<lparr> t_id = tid, t_priority = pr, t_timestamp = ts, t_length = of_nat (length payload) \<rparr>,
      g\<lparr> g_state := Assembled, g_sof_timestamp := Some ts, g_transfer_id := Some tid,
         g_acc := acc_default \<rparr>, ga_store buffer payload)"
proof -
  obtain tm where tm: "ga_tid_match sadd g timeout tid ts = Some tm"
    "\<not> (g_state g = Assembled \<and> tm)"
    using ga_accepts_match [OF assms(2)] .
  have store: "copy_at buffer 0 (take (min (length payload) (length buffer)) payload) =
      ga_store buffer payload"
    using ga_store_append [of buffer "[]" payload] by simp
  have act: "ga_action_of (g_state g) True True False tm = SingleFrame"
    using tm(2) by (cases "g_state g"; cases tm) simp_all
  show ?thesis
    using assms(3) act
    by (simp add: SOT_TOGGLE_BIT_def ga_push_tail [OF assms(1) tm(1)] ga_single_frame_assembly_def
        u32_try_from_def store Let_def)
qed

lemma ga_push_first:
  assumes "transfer_id_wf tid" "ga_accepts sadd timeout g tid ts"
    "length payload + 1 = mtu_usize m"
  obtains g' where
    "ga_push_frame sadd g timeout buffer pr
      (payload @ [tail_into_u8 (tail_new True False SOT_TOGGLE_BIT tid)]) ts =
     Some (None, g', ga_store buffer payload)"
    "ga_receiving g' tid ts (\<not> SOT_TOGGLE_BIT) payload"
proof -
  obtain tm where tm: "ga_tid_match sadd g timeout tid ts = Some tm"
    "\<not> (g_state g = Assembled \<and> tm)"
    using ga_accepts_match [OF assms(2)] .
  have len: "length payload < 2 ^ 32" using assms(3) mtu_cases [of m] by auto
  have act: "ga_action_of (g_state g) True False False tm = AccumulateFirst"
    using tm(2) by (cases "g_state g"; cases tm) simp_all
  let ?g = "\<lambda>acc. g\<lparr> g_state := AccumulatedFirst, g_sof_timestamp := Some ts,
    g_transfer_id := Some tid, g_acc := acc \<rparr>"
  let ?acc = "\<lparr> acc_length = of_nat (length payload), acc_crc = crc_add_bytes crc_default payload \<rparr>"
  have app: "acc_append acc_default buffer payload = Some (?acc, ga_store buffer payload)"
    using acc_append_seen [OF acc_seen_default, of buffer payload] len by simp
  have "ga_push_frame sadd g timeout buffer pr
      (payload @ [tail_into_u8 (tail_new True False SOT_TOGGLE_BIT tid)]) ts =
     Some (None, ?g ?acc, ga_store buffer payload)"
    using assms(3) act app
    by (simp add: SOT_TOGGLE_BIT_def ga_push_tail [OF assms(1) tm(1)] ga_accumulate_first_def Let_def)
  moreover have "ga_receiving (?g ?acc) tid ts (\<not> SOT_TOGGLE_BIT) payload"
    using len by (simp add: ga_receiving_def SOT_TOGGLE_BIT_def acc_seen_def)
  ultimately show ?thesis using that by blast
qed

lemma ga_push_middle:
  assumes "transfer_id_wf tid" "ga_receiving g tid t0 toggle p" "ts \<le> sadd t0 timeout"
    "length payload + 1 = mtu_usize m" "length (p @ payload) < 2 ^ 32"
  obtains g' where
    "ga_push_frame sadd g timeout (ga_store buffer p) pr
      (payload @ [tail_into_u8 (tail_new False False toggle tid)]) ts =
     Some (None, g', ga_store buffer (p @ payload))"
    "ga_receiving g' tid t0 (\<not> toggle) (p @ payload)"
proof -
  let ?acc = "\<lparr> acc_length = of_nat (length (p @ payload)),
    acc_crc = crc_add_bytes crc_default (p @ payload) \<rparr>"
  let ?g = "g\<lparr> g_state := (if toggle then AccumulatedEven else AccumulatedOdd), g_acc := ?acc \<rparr>"
  have seen: "acc_seen (g_acc g) p" using assms(2) by (simp add: ga_receiving_def)
  have app: "acc_append (g_acc g) (ga_store buffer p) payload = Some (?acc, ga_store buffer (p @ payload))"
    using acc_append_seen [OF seen, of buffer payload] assms(5) by simp
  have act: "ga_action_of (g_state g) False False (\<not> toggle) True =
      (if toggle then AccumulateEven else AccumulateOdd)"
    using assms(2) by (auto simp: ga_receiving_def split: if_splits)
  have "ga_push_frame sadd g timeout (ga_store buffer p) pr
      (payload @ [tail_into_u8 (tail_new False False toggle tid)]) ts =
     Some (None, ?g, ga_store buffer (p @ payload))"
    using assms(3,4) act app
    by (cases toggle)
      (simp_all add: ga_push_tail [OF assms(1) ga_receiving_match [OF assms(2)]]
        ga_accumulate_even_def ga_accumulate_odd_def Let_def)
  moreover have "ga_receiving ?g tid t0 (\<not> toggle) (p @ payload)"
    using assms(2,5) acc_seen_append [OF seen] by (auto simp: ga_receiving_def acc_seen_def)
  ultimately show ?thesis using that by blast
qed

lemma ga_push_last:
  assumes "transfer_id_wf tid" "ga_receiving g tid t0 toggle p" "ts \<le> sadd t0 timeout"
    "payload \<noteq> []" "length (p @ payload) < 2 ^ 32"
    "2 \<le> length (p @ payload)" "crc_get (crc_add_bytes crc_default (p @ payload)) = 0"
  shows "ga_push_frame sadd g timeout (ga_store buffer p) pr
      (payload @ [tail_into_u8 (tail_new False True toggle tid)]) ts =
     Some (Some \<lparr> t_id = tid, t_priority = pr, t_timestamp = t0,
        t_length = of_nat (length (p @ payload) - 2) \<rparr>,
      g\<lparr> g_state := Assembled, g_acc := acc_default \<rparr>, ga_store buffer (p @ payload))"
proof -
  let ?acc = "\<lparr> acc_length = of_nat (length (p @ payload)),
    acc_crc = crc_add_bytes crc_default (p @ payload) \<rparr>"
  have seen: "acc_seen (g_acc g) p" using assms(2) by (simp add: ga_receiving_def)
  have app: "acc_append (g_acc g) (ga_store buffer p) payload = Some (?acc, ga_store buffer (p @ payload))"
    using acc_append_seen [OF seen, of buffer payload] assms(5) by simp
  have get: "acc_try_get ?acc = Some (of_nat (length (p @ payload) - 2))"
    using acc_try_get_seen [OF acc_seen_append [OF seen assms(5)]] assms(6,7) by simp
  have act: "ga_action_of (g_state g) False True (\<not> toggle) True = FinishAssembly"
    using assms(2) by (auto simp: ga_receiving_def split: if_splits)
  have "g_transfer_id g = Some tid" "g_sof_timestamp g = Some t0"
    using assms(2) by (simp_all add: ga_receiving_def)
  then show ?thesis
    using assms(3,4) app get act
    by (simp add: ga_push_tail [OF assms(1) ga_receiving_match [OF assms(2)]]
        ga_finish_assembly_def Let_def)
qed

text \<open>An assembled transfer swallows every frame of its identifier until the timeout.\<close>

lemma ga_push_duplicate:
  assumes "g_state g = Assembled" "g_transfer_id g = Some (tail_transfer_id (TailByte b))"
    "g_sof_timestamp g = Some t0" "ts \<le> sadd t0 timeout"
  shows "ga_push_frame sadd g timeout buffer pr (payload @ [b]) ts = Some (None, g, buffer)"
  using assms by (simp add: ga_push_frame_def ga_tid_match_def ga_skip_frame_def)

end
