(* ===== verification/Transport.thy ===== *)
theory Transport
  imports Gather
begin

text \<open>
  Segmentation and reassembly together: what \<open>Gather\<close> makes of the frames of \<open>Scatter\<close>.
  Each element of \<open>evs\<close> is one exchange on the bus: the MTU the sender's driver asks
  for, and the priority and the timestamp the receiver sees.
\<close>

type_synonym bus_event = "mtu \<times> priority \<times> instant"

definition bus_frames :: "bus_event list \<Rightarrow> data list \<Rightarrow> (priority \<times> u8 list \<times> instant) list" where
  "bus_frames evs frames = map2 (\<lambda>(m, p, ts) f. (p, data_deref f, ts)) evs frames"

lemma bus_frames_simps [simp]:
  "bus_frames evs [] = []" "bus_frames [] frames = []"
  "bus_frames ((m, p, ts) # evs) (f # frames) = (p, data_deref f, ts) # bus_frames evs frames"
  by (simp_all add: bus_frames_def)

definition ev_priority :: "bus_event \<Rightarrow> priority" where
  "ev_priority ev = fst (snd ev)"

definition ev_time :: "bus_event \<Rightarrow> instant" where
  "ev_time ev = snd (snd ev)"

text \<open>The sender is in the middle of a transfer of which the receiver has the sent part.\<close>

definition coupled ::
  "scatter \<Rightarrow> u8 list \<Rightarrow> gather \<Rightarrow> instant \<Rightarrow> bool" where
  "coupled sc txbuf g t0 \<longleftrightarrow> sc_inv sc txbuf \<and> transfer_id_wf (sc_transfer_id sc) \<and>
     0 < sc_offset sc \<and> sc_offset sc < sc_data_length sc + 2 \<and>
     sc_data_length sc + 66 < 2 ^ 32 \<and>
     sc_crc sc = crc_add_bytes crc_default (take (sc_data_length sc) txbuf) \<and>
     ga_receiving g (sc_transfer_id sc) t0 (sc_toggle_bit sc)
       (take (sc_offset sc) (sc_stream sc txbuf 0))"

lemma sc_stream_residue:
  assumes "sc_crc sc = crc_add_bytes crc_default (take (sc_data_length sc) txbuf)"
  shows "crc_get (crc_add_bytes crc_default (sc_stream sc txbuf k)) = 0"
  unfolding sc_stream_def crc_add_bytes_simps(3) assms [symmetric] by (rule crc_residue)

lemma sc_stream_update [simp]:
  "sc_stream (sc\<lparr> sc_offset := i \<rparr>) txbuf k = sc_stream sc txbuf k"
  "sc_stream (sc\<lparr> sc_toggle_bit := b \<rparr>) txbuf k = sc_stream sc txbuf k"
  by (simp_all add: sc_stream_def)

lemma sc_stream_pad:
  assumes "sc_data_length sc \<le> length txbuf" "0 < k \<longrightarrow> i \<le> sc_data_length sc"
  shows "take i (sc_stream sc txbuf 0) @ drop i (sc_stream sc txbuf k) = sc_stream sc txbuf k"
proof (cases "k = 0")
  case False
  then have "take i (sc_stream sc txbuf 0) = take i (sc_stream sc txbuf k)"
    using assms by (simp add: sc_stream_def)
  then show ?thesis by simp
qed simp

lemma take_take_drop: "take i xs @ take n (drop i xs) = take (i + n) xs"
  by (simp add: take_add)

text \<open>A frame in the middle keeps the two sides coupled.\<close>

lemma coupled_middle:
  assumes "coupled sc txbuf g t0" "mtu_usize m \<le> sc_data_length sc + 2 - sc_offset sc"
    "ts \<le> sadd t0 timeout"
  obtains f sc' g' where
    "sc_fetch_frame_data sc txbuf m = Some (Some f, sc')"
    "ga_push_frame sadd g timeout (ga_store rxbuf (take (sc_offset sc) (sc_stream sc txbuf 0))) pr
      (data_deref f) ts =
     Some (None, g', ga_store rxbuf (take (sc_offset sc') (sc_stream sc' txbuf 0)))"
    "coupled sc' txbuf g' t0" "sc_offset sc' = sc_offset sc + (mtu_usize m - 1)"
    "sc_data_length sc' = sc_data_length sc" "sc_transfer_id sc' = sc_transfer_id sc"
    "\<And>k. sc_stream sc' txbuf k = sc_stream sc txbuf k"
proof -
  note c = assms(1) [unfolded coupled_def]
  let ?p = "take (sc_offset sc) (sc_stream sc txbuf 0)"
  let ?q = "take (mtu_usize m - 1) (drop (sc_offset sc) (sc_stream sc txbuf 0))"
  let ?sc = "sc\<lparr> sc_offset := sc_offset sc + (mtu_usize m - 1), sc_toggle_bit := \<not> sc_toggle_bit sc \<rparr>"
  have inv: "sc_inv sc txbuf" and tid: "transfer_id_wf (sc_transfer_id sc)" using c by blast+
  have not_single: "\<not> (sc_offset sc = 0 \<and> sc_data_length sc < mtu_usize m)" using c by simp
  obtain f where f: "sc_fetch_frame_data sc txbuf m = Some (Some f, ?sc)"
    "data_deref f = ?q @ [tail_into_u8 (tail_new False False (sc_toggle_bit sc) (sc_transfer_id sc))]"
    using sc_fetch_full [OF inv assms(2) not_single] c by auto
  have len_q: "length ?q + 1 = mtu_usize m" "length ?q = mtu_usize m - 1"
    using assms(2) inv mtu_cases [of m] by (auto simp: sc_inv_def)
  have len: "length (?p @ ?q) < 2 ^ 32"
  proof -
    have "length (?p @ ?q) \<le> sc_data_length sc + 2"
      using inv by (auto simp: sc_inv_def)
    then show ?thesis using c by linarith
  qed
  have rec: "ga_receiving g (sc_transfer_id sc) t0 (sc_toggle_bit sc) ?p" using c by blast
  obtain g' where g': "ga_push_frame sadd g timeout (ga_store rxbuf ?p) pr (data_deref f) ts =
      Some (None, g', ga_store rxbuf (?p @ ?q))"
    "ga_receiving g' (sc_transfer_id sc) t0 (\<not> sc_toggle_bit sc) (?p @ ?q)"
    using ga_push_middle [where buffer = rxbuf and pr = pr and sadd = sadd and timeout = timeout,
        OF tid rec assms(3) len_q(1) len]
    unfolding f(2) by blast
  have off: "0 < sc_offset ?sc" "sc_offset ?sc < sc_data_length sc + 2"
    using assms(2) c mtu_cases [of m] by auto
  have "coupled ?sc txbuf g' t0"
    using c off g'(2) inv by (simp add: coupled_def sc_inv_def take_take_drop)
  then show ?thesis using that f(1) g'(1) by (simp add: take_take_drop)
qed

text \<open>The last frame completes the transfer.\<close>

lemma coupled_last:
  assumes "coupled sc txbuf g t0" "sc_data_length sc + 2 - sc_offset sc < mtu_usize m"
    "ts \<le> sadd t0 timeout"
  obtains f sc' g' k where
    "sc_fetch_frame_data sc txbuf m = Some (Some f, sc')"
    "ga_push_frame sadd g timeout (ga_store rxbuf (take (sc_offset sc) (sc_stream sc txbuf 0))) pr
      (data_deref f) ts =
     Some (Some \<lparr> t_id = sc_transfer_id sc, t_priority = pr, t_timestamp = t0,
             t_length = of_nat (sc_data_length sc + k) \<rparr>,
           g', ga_store rxbuf (sc_stream sc txbuf k))"
    "sc_is_exhausted sc'" "k < 64"
    "g_state g' = Assembled" "g_transfer_id g' = Some (sc_transfer_id sc)"
    "g_sof_timestamp g' = Some t0"
proof -
  note c = assms(1) [unfolded coupled_def]
  let ?p = "take (sc_offset sc) (sc_stream sc txbuf 0)"
  have inv: "sc_inv sc txbuf" and tid: "transfer_id_wf (sc_transfer_id sc)"
    and off: "0 < sc_offset sc" "sc_offset sc < sc_data_length sc + 2" using c by blast+
  obtain f k where f: "sc_fetch_frame_data sc txbuf m = Some (Some f,
      sc\<lparr> sc_offset := sc_data_length sc + 2, sc_toggle_bit := \<not> sc_toggle_bit sc \<rparr>)"
    and k: "0 < k \<longrightarrow> sc_offset sc \<le> sc_data_length sc"
      "sc_data_length sc + 2 - sc_offset sc + k < mtu_usize m"
    and deref: "data_deref f = drop (sc_offset sc) (sc_stream sc txbuf k) @
      [tail_into_u8 (tail_new False True (sc_toggle_bit sc) (sc_transfer_id sc))]"
    using sc_fetch_last [OF inv off assms(2)] by blast
  let ?q = "drop (sc_offset sc) (sc_stream sc txbuf k)"
  have bound: "sc_data_length sc \<le> length txbuf" using inv by (simp add: sc_inv_def)
  have pq: "?p @ ?q = sc_stream sc txbuf k" by (rule sc_stream_pad [OF bound k(1)])
  have k64: "k < 64" using k(2) off mtu_cases [of m] by auto
  have len: "length (?p @ ?q) < 2 ^ 32" "2 \<le> length (?p @ ?q)"
    using c k64 bound unfolding pq by simp_all
  have res: "crc_get (crc_add_bytes crc_default (?p @ ?q)) = 0"
    unfolding pq by (rule sc_stream_residue) (use c in blast)
  have ne: "?q \<noteq> []" using off bound by simp
  have rec: "ga_receiving g (sc_transfer_id sc) t0 (sc_toggle_bit sc) ?p" using c by blast
  have len_k: "length (sc_stream sc txbuf k) - 2 = sc_data_length sc + k" using bound by simp
  have push: "ga_push_frame sadd g timeout (ga_store rxbuf ?p) pr (data_deref f) ts =
     Some (Some \<lparr> t_id = sc_transfer_id sc, t_priority = pr, t_timestamp = t0,
             t_length = of_nat (sc_data_length sc + k) \<rparr>,
           g\<lparr> g_state := Assembled, g_acc := acc_default \<rparr>, ga_store rxbuf (sc_stream sc txbuf k))"
    unfolding deref
    using ga_push_last [where sadd = sadd and timeout = timeout and ts = ts and pr = pr and
        buffer = rxbuf, OF tid rec assms(3) ne len(1,2) res]
    unfolding pq len_k .
  show ?thesis
    by (rule that [OF f push]) (use rec k64 in
      \<open>simp_all add: sc_is_exhausted_def ga_receiving_def\<close>)
qed

text \<open>The rest of a transfer, whatever MTU each frame is fetched with.\<close>

lemma coupled_rest:
  assumes "coupled sc txbuf g t0" "sc_data_length sc + 2 - sc_offset sc \<le> 7 * length evs"
    "\<forall>ev \<in> set evs. ev_time ev \<le> sadd t0 timeout"
  shows "\<exists>frames sc' g' k. sc_fetch_all sc txbuf (map fst evs) = Some (frames, sc') \<and>
    sc_is_exhausted sc' \<and> k < 64 \<and> 0 < length frames \<and> length frames \<le> length evs \<and>
    g_state g' = Assembled \<and> g_transfer_id g' = Some (sc_transfer_id sc) \<and>
    g_sof_timestamp g' = Some t0 \<and>
    ga_push_all sadd timeout g (ga_store rxbuf (take (sc_offset sc) (sc_stream sc txbuf 0)))
      (bus_frames evs frames) =
    Some (replicate (length frames - 1) None @
            [Some \<lparr> t_id = sc_transfer_id sc, t_priority = ev_priority (evs ! (length frames - 1)),
                    t_timestamp = t0, t_length = of_nat (sc_data_length sc + k) \<rparr>],
          g', ga_store rxbuf (sc_stream sc txbuf k))"
  using assms
proof (induction evs arbitrary: sc g)
  case Nil
  then show ?case by (simp add: coupled_def)
next
  case (Cons ev evs)
  obtain m pr ts where ev: "ev = (m, pr, ts)" by (cases ev)
  have ts: "ts \<le> sadd t0 timeout" using Cons.prems(3) by (simp add: ev ev_time_def)
  show ?case
  proof (cases "sc_data_length sc + 2 - sc_offset sc < mtu_usize m")
    case True
    obtain f sc' g' k where step: "sc_fetch_frame_data sc txbuf m = Some (Some f, sc')"
      "ga_push_frame sadd g timeout (ga_store rxbuf (take (sc_offset sc) (sc_stream sc txbuf 0))) pr
        (data_deref f) ts =
       Some (Some \<lparr> t_id = sc_transfer_id sc, t_priority = pr, t_timestamp = t0,
               t_length = of_nat (sc_data_length sc + k) \<rparr>,
             g', ga_store rxbuf (sc_stream sc txbuf k))"
      "sc_is_exhausted sc'" "k < 64"
      "g_state g' = Assembled" "g_transfer_id g' = Some (sc_transfer_id sc)"
      "g_sof_timestamp g' = Some t0"
      by (rule coupled_last [where rxbuf = rxbuf and pr = pr and sadd = sadd and timeout = timeout,
          OF Cons.prems(1) True ts])
    have "sc_fetch_all sc' txbuf ms = Some ([], sc')" for ms
      using sc_fetch_exhausted [OF step(3)] by (cases ms) simp_all
    then show ?thesis
      using step by (intro exI [of _ "[f]"] exI [of _ sc'] exI [of _ g'] exI [of _ k])
        (simp add: ev ev_priority_def)
  next
    case False
    then have le: "mtu_usize m \<le> sc_data_length sc + 2 - sc_offset sc" by simp
    obtain f sc1 g1 where step: "sc_fetch_frame_data sc txbuf m = Some (Some f, sc1)"
      "ga_push_frame sadd g timeout (ga_store rxbuf (take (sc_offset sc) (sc_stream sc txbuf 0))) pr
        (data_deref f) ts =
       Some (None, g1, ga_store rxbuf (take (sc_offset sc1) (sc_stream sc1 txbuf 0)))"
      "coupled sc1 txbuf g1 t0" "sc_offset sc1 = sc_offset sc + (mtu_usize m - 1)"
      "sc_data_length sc1 = sc_data_length sc" "sc_transfer_id sc1 = sc_transfer_id sc"
      "\<And>k. sc_stream sc1 txbuf k = sc_stream sc txbuf k"
      by (rule coupled_middle [where rxbuf = rxbuf and pr = pr and sadd = sadd and timeout = timeout,
          OF Cons.prems(1) le ts]) (rule that)
    have fuel: "sc_data_length sc + 2 - sc_offset sc1 \<le> 7 * length evs"
      using Cons.prems(2) step(4) mtu_cases [of m] by auto
    have times: "\<forall>ev \<in> set evs. ev_time ev \<le> sadd t0 timeout" using Cons.prems(3) by simp
    note ih = Cons.IH [OF step(3), unfolded step(5,6,7), OF fuel times]
    from ih obtain frames sc' g' k where
      rest: "sc_fetch_all sc1 txbuf (map fst evs) = Some (frames, sc')"
        "sc_is_exhausted sc'" "k < 64" "0 < length frames" "length frames \<le> length evs"
        "g_state g' = Assembled" "g_transfer_id g' = Some (sc_transfer_id sc)"
        "g_sof_timestamp g' = Some t0"
        "ga_push_all sadd timeout g1 (ga_store rxbuf (take (sc_offset sc1) (sc_stream sc txbuf 0)))
          (bus_frames evs frames) =
        Some (replicate (length frames - 1) None @
            [Some \<lparr> t_id = sc_transfer_id sc, t_priority = ev_priority (evs ! (length frames - 1)),
                    t_timestamp = t0, t_length = of_nat (sc_data_length sc + k) \<rparr>],
          g', ga_store rxbuf (sc_stream sc txbuf k))"
      by (elim exE conjE) (rule that; assumption)
    obtain n where n: "length frames = Suc n" using rest(4) by (cases "length frames") auto
    have "sc_fetch_all sc txbuf (map fst (ev # evs)) = Some (f # frames, sc')"
      using step(1) rest(1) by (simp add: ev)
    moreover have "ga_push_all sadd timeout g
        (ga_store rxbuf (take (sc_offset sc) (sc_stream sc txbuf 0)))
        (bus_frames (ev # evs) (f # frames)) =
      Some (replicate (length (f # frames) - 1) None @
            [Some \<lparr> t_id = sc_transfer_id sc,
                    t_priority = ev_priority ((ev # evs) ! (length (f # frames) - 1)),
                    t_timestamp = t0, t_length = of_nat (sc_data_length sc + k) \<rparr>],
          g', ga_store rxbuf (sc_stream sc txbuf k))"
      unfolding ev bus_frames_simps ga_push_all.simps step(2)
      using rest(9) n by (simp add: step(7))
    ultimately show ?thesis
      using rest(2,3,5,6,7,8)
      by (intro exI [of _ "f # frames"] exI [of _ sc'] exI [of _ g'] exI [of _ k]) simp
  qed
qed

section \<open>Whole transfers\<close>

text \<open>The state the receiver is left in by a complete transfer.\<close>

definition ga_assembled :: "gather \<Rightarrow> transfer_id \<Rightarrow> instant \<Rightarrow> bool" where
  "ga_assembled g tid t0 \<longleftrightarrow> g_state g = Assembled \<and> g_transfer_id g = Some tid \<and>
     g_sof_timestamp g = Some t0"

definition transfer_received ::
  "(instant \<Rightarrow> duration \<Rightarrow> instant) \<Rightarrow> duration \<Rightarrow> gather \<Rightarrow> u8 list \<Rightarrow> bus_event list \<Rightarrow>
    transfer_id \<Rightarrow> u8 list \<Rightarrow> data list \<Rightarrow> bool" where
  "transfer_received sadd timeout g rxbuf evs tid payload frames \<longleftrightarrow>
     (\<exists>k g' rxbuf'.
        k < 64 \<and>
        ga_push_all sadd timeout g rxbuf (bus_frames evs frames) =
          Some (replicate (length frames - 1) None @
                  [Some \<lparr> t_id = tid, t_priority = ev_priority (evs ! (length frames - 1)),
                          t_timestamp = ev_time (hd evs),
                          t_length = of_nat (length payload + k) \<rparr>], g', rxbuf') \<and>
        length rxbuf' = length rxbuf \<and>
        take (length payload + k) rxbuf' = take (length rxbuf) (payload @ replicate k PAD_VALUE) \<and>
        ga_assembled g' tid (ev_time (hd evs)))"

lemma transfer_receivedI:
  assumes "k < 64" "length p \<ge> length payload + k"
    "take (length payload + k) p = payload @ replicate k PAD_VALUE"
    "ga_push_all sadd timeout g rxbuf (bus_frames evs frames) =
          Some (replicate (length frames - 1) None @
                  [Some \<lparr> t_id = tid, t_priority = ev_priority (evs ! (length frames - 1)),
                          t_timestamp = ev_time (hd evs),
                          t_length = of_nat (length payload + k) \<rparr>], g', ga_store rxbuf p)"
    "ga_assembled g' tid (ev_time (hd evs))"
  shows "transfer_received sadd timeout g rxbuf evs tid payload frames"
  unfolding transfer_received_def
  using assms take_ga_store [OF assms(2), of rxbuf] by (metis append_Nil2 length_ga_store take_Nil)

lemma take_sc_stream:
  "sc_data_length sc \<le> length buffer \<Longrightarrow>
    take (sc_data_length sc + k) (sc_stream sc buffer k) =
      take (sc_data_length sc) buffer @ replicate k PAD_VALUE"
  by (simp add: sc_stream_def)

text \<open>The invariant a fresh segmenter has, as the senders construct it.\<close>

definition sc_ready :: "transfer_id \<Rightarrow> u8 list \<Rightarrow> nat \<Rightarrow> transfer_crc \<Rightarrow> bool" where
  "sc_ready tid txbuf n crc \<longleftrightarrow> transfer_id_wf tid \<and> n \<le> length txbuf \<and> n + 66 < 2 ^ 32 \<and>
     crc = crc_add_bytes crc_default (take n txbuf)"

lemma sc_new_sel [simp]:
  "sc_transfer_id (sc_new tid buf n crc) = tid" "sc_toggle_bit (sc_new tid buf n crc) = True"
  "sc_data_length (sc_new tid buf n crc) = n" "sc_offset (sc_new tid buf n crc) = 0"
  "sc_crc (sc_new tid buf n crc) = crc"
  by (simp_all add: sc_new_def SOT_TOGGLE_BIT_def)

lemma roundtrip_single:
  assumes "sc_ready tid txbuf n crc" "ga_accepts sadd timeout g tid ts" "n < mtu_usize m"
  obtains frames sc' where
    "sc_fetch_all (sc_new tid txbuf n crc) txbuf (map fst ((m, pr, ts) # evs)) = Some (frames, sc')"
    "sc_is_exhausted sc'" "length frames = 1"
    "transfer_received sadd timeout g rxbuf ((m, pr, ts) # evs) tid (take n txbuf) frames"
proof -
  let ?sc = "sc_new tid txbuf n crc"
  have inv: "sc_inv ?sc txbuf" and tid: "transfer_id_wf tid" and n: "n \<le> length txbuf"
    using assms(1) by (simp_all add: sc_ready_def sc_inv_def)
  have lt: "sc_offset ?sc = 0" "sc_data_length ?sc < mtu_usize m" using assms(3) by simp_all
  from sc_fetch_single [OF inv lt] obtain f k where f0:
      "sc_fetch_frame_data ?sc txbuf m = Some (Some f, ?sc\<lparr> sc_offset := sc_data_length ?sc + 2 \<rparr>)"
      "sc_data_length ?sc + k < mtu_usize m"
      "data_deref f = take (sc_data_length ?sc) txbuf @ replicate k PAD_VALUE @
        [tail_into_u8 (tail_new True True SOT_TOGGLE_BIT (sc_transfer_id ?sc))]"
    by blast
  have f: "sc_fetch_frame_data ?sc txbuf m = Some (Some f, ?sc\<lparr> sc_offset := n + 2 \<rparr>)"
      "n + k < mtu_usize m"
      "data_deref f = (take n txbuf @ replicate k PAD_VALUE) @
        [tail_into_u8 (tail_new True True SOT_TOGGLE_BIT tid)]"
    using f0 by simp_all
  let ?p = "take n txbuf @ replicate k PAD_VALUE"
  have len: "length ?p = n + k" using n by simp
  have k: "k < 64" using f(2) mtu_cases [of m] by auto
  have ex: "sc_is_exhausted (?sc\<lparr> sc_offset := n + 2 \<rparr>)" by (simp add: sc_is_exhausted_def)
  have all: "sc_fetch_all ?sc txbuf (map fst ((m, pr, ts) # evs)) =
      Some ([f], ?sc\<lparr> sc_offset := n + 2 \<rparr>)"
    using f(1) sc_fetch_exhausted [OF ex] by (cases evs) simp_all
  have "length ?p < 2 ^ 32" using f(2) len mtu_cases [of m] by auto
  then have push: "ga_push_frame sadd g timeout rxbuf pr (data_deref f) ts =
      Some (Some \<lparr> t_id = tid, t_priority = pr, t_timestamp = ts, t_length = of_nat (length ?p) \<rparr>,
        g\<lparr> g_state := Assembled, g_sof_timestamp := Some ts, g_transfer_id := Some tid,
           g_acc := acc_default \<rparr>, ga_store rxbuf ?p)"
    unfolding f(3) by (rule ga_push_single [OF tid assms(2)])
  have "transfer_received sadd timeout g rxbuf ((m, pr, ts) # evs) tid (take n txbuf) [f]"
    by (rule transfer_receivedI [OF k, where p = ?p and
          g' = "g\<lparr> g_state := Assembled, g_sof_timestamp := Some ts, g_transfer_id := Some tid,
            g_acc := acc_default \<rparr>"])
      (use push n in \<open>simp_all add: ev_priority_def ev_time_def ga_assembled_def\<close>)
  then show ?thesis using that [OF all ex] by simp
qed

lemma roundtrip_multi:
  assumes "sc_ready tid txbuf n crc" "ga_accepts sadd timeout g tid ts" "mtu_usize m \<le> n"
    "n div 7 + 1 \<le> length evs" "\<forall>ev \<in> set evs. ev_time ev \<le> sadd ts timeout"
  obtains frames sc' where
    "sc_fetch_all (sc_new tid txbuf n crc) txbuf (map fst ((m, pr, ts) # evs)) = Some (frames, sc')"
    "sc_is_exhausted sc'" "1 < length frames" "length frames \<le> length evs + 1"
    "transfer_received sadd timeout g rxbuf ((m, pr, ts) # evs) tid (take n txbuf) frames"
proof -
  let ?sc = "sc_new tid txbuf n crc"
  have inv: "sc_inv ?sc txbuf" and tid: "transfer_id_wf tid" and n: "n \<le> length txbuf"
    using assms(1) by (simp_all add: sc_ready_def sc_inv_def)
  have m: "0 < mtu_usize m" "8 \<le> mtu_usize m" using mtu_cases [of m] by auto
  let ?l = "mtu_usize m - 1"
  let ?sc1 = "?sc\<lparr> sc_offset := ?l, sc_toggle_bit := False \<rparr>"
  let ?q = "take ?l (sc_stream ?sc txbuf 0)"
  obtain f where f: "sc_fetch_frame_data ?sc txbuf m = Some (Some f, ?sc1)"
    "data_deref f = ?q @ [tail_into_u8 (tail_new True False SOT_TOGGLE_BIT tid)]"
    using sc_fetch_full [OF inv, of m] assms(3) by (auto simp: SOT_TOGGLE_BIT_def)
  have len: "length ?q + 1 = mtu_usize m" using assms(3) m(1) n by simp
  obtain g1 where g1: "ga_push_frame sadd g timeout rxbuf pr (data_deref f) ts =
      Some (None, g1, ga_store rxbuf ?q)" "ga_receiving g1 tid ts False ?q"
    using ga_push_first [OF tid assms(2) len, where buffer = rxbuf and pr = pr]
    unfolding f(2) SOT_TOGGLE_BIT_def by auto
  have "mtu_usize m - 1 < n + 2" using assms(3) by linarith
  then have coupled: "coupled ?sc1 txbuf g1 ts"
    using assms(1,3) g1(2) m by (simp add: coupled_def sc_inv_def sc_ready_def)
  have fuel: "sc_data_length ?sc1 + 2 - sc_offset ?sc1 \<le> 7 * length evs"
    using assms(4) m(2) by simp
  from coupled_rest [where rxbuf = rxbuf and sadd = sadd and timeout = timeout,
      OF coupled fuel assms(5)]
  obtain frames sc' g' k where rest: "sc_fetch_all ?sc1 txbuf (map fst evs) = Some (frames, sc')"
      "sc_is_exhausted sc'" "k < 64" "0 < length frames" "length frames \<le> length evs"
      "ga_assembled g' tid ts"
      "ga_push_all sadd timeout g1 (ga_store rxbuf ?q) (bus_frames evs frames) =
      Some (replicate (length frames - 1) None @
            [Some \<lparr> t_id = tid, t_priority = ev_priority (evs ! (length frames - 1)),
                    t_timestamp = ts, t_length = of_nat (n + k) \<rparr>],
          g', ga_store rxbuf (sc_stream ?sc txbuf k))"
    by (auto simp: ga_assembled_def)
  obtain j where j: "length frames = Suc j" using rest(4) by (cases "length frames") auto
  have all: "sc_fetch_all ?sc txbuf (map fst ((m, pr, ts) # evs)) = Some (f # frames, sc')"
    using f(1) rest(1) by simp
  have push: "ga_push_all sadd timeout g rxbuf (bus_frames ((m, pr, ts) # evs) (f # frames)) =
      Some (replicate (length (f # frames) - 1) None @
            [Some \<lparr> t_id = tid, t_priority = ev_priority (((m, pr, ts) # evs) ! (length (f # frames) - 1)),
                    t_timestamp = ev_time (hd ((m, pr, ts) # evs)),
                    t_length = of_nat (length (take n txbuf) + k) \<rparr>],
          g', ga_store rxbuf (sc_stream ?sc txbuf k))"
    unfolding bus_frames_simps ga_push_all.simps g1(1) using rest(7) j n
    by (simp add: ev_time_def)
  have "transfer_received sadd timeout g rxbuf ((m, pr, ts) # evs) tid (take n txbuf) (f # frames)"
    by (rule transfer_receivedI [OF rest(3) _ _ push])
      (use n rest(6) take_sc_stream [of ?sc txbuf k] in \<open>simp_all add: ev_time_def\<close>)
  then show ?thesis using that [OF all rest(2)] rest(4,5) by simp
qed

text \<open>Both cases together.\<close>

lemma roundtrip:
  assumes "sc_ready tid txbuf n crc"
    "ga_accepts sadd timeout g tid (ev_time (hd evs))"
    "n div 7 + 2 \<le> length evs"
    "\<forall>ev \<in> set evs. ev_time ev \<le> sadd (ev_time (hd evs)) timeout"
  shows "\<exists>frames sc'.
    sc_fetch_all (sc_new tid txbuf n crc) txbuf (map fst evs) = Some (frames, sc') \<and>
    sc_is_exhausted sc' \<and> 1 \<le> length frames \<and> length frames \<le> length evs \<and>
    transfer_received sadd timeout g rxbuf evs tid (take n txbuf) frames"
proof -
  obtain m pr ts evs' where evs: "evs = (m, pr, ts) # evs'" using assms(3) by (cases evs) auto
  have hd: "ev_time (hd evs) = ts" by (simp add: evs ev_time_def)
  show ?thesis
  proof (cases "n < mtu_usize m")
    case True
    obtain frames sc' where
      "sc_fetch_all (sc_new tid txbuf n crc) txbuf (map fst evs) = Some (frames, sc')"
      "sc_is_exhausted sc'" "length frames = 1"
      "transfer_received sadd timeout g rxbuf evs tid (take n txbuf) frames"
      using roundtrip_single [OF assms(1,2) [unfolded hd] True] unfolding evs by blast
    then show ?thesis using assms(3) by auto
  next
    case False
    then have le: "mtu_usize m \<le> n" by simp
    have bounds: "n div 7 + 1 \<le> length evs'" "\<forall>ev \<in> set evs'. ev_time ev \<le> sadd ts timeout"
      using assms(3,4) unfolding hd by (simp_all add: evs)
    obtain frames sc' where
      "sc_fetch_all (sc_new tid txbuf n crc) txbuf (map fst evs) = Some (frames, sc')"
      "sc_is_exhausted sc'" "1 < length frames" "length frames \<le> length evs' + 1"
      "transfer_received sadd timeout g rxbuf evs tid (take n txbuf) frames"
      using roundtrip_multi [OF assms(1,2) [unfolded hd] le bounds] unfolding evs by blast
    then show ?thesis by (auto simp: evs)
  qed
qed

section \<open>Properties\<close>

text \<open>
  C1: Segmentation and reassembly are inverse. A transfer of \<open>n\<close> bytes is fetched from a
  fresh \<open>Scatter\<close> with any sequence of MTUs (long enough: \<open>n div 7 + 2\<close> frames suffice even
  for the 8 byte MTU), and the frames are pushed in order into a \<open>Gather\<close> in any state that
  does not already hold this transfer, within the timeout of the first frame. Nothing
  panics, the segmenter is exhausted, and the receiver produces exactly one transfer, on the
  last frame: with the sender's identifier, the timestamp of the first frame, the priority of
  the last, and the length and contents of the payload followed by fewer than 64 padding
  zeros; the receive buffer keeps what fits.
\<close>

theorem scatter_gather_roundtrip:
  assumes "sc_ready tid txbuf n crc"
    "ga_accepts sadd timeout g tid (ev_time (hd evs))"
    "n div 7 + 2 \<le> length evs"
    "\<forall>ev \<in> set evs. ev_time ev \<le> sadd (ev_time (hd evs)) timeout"
  shows "\<exists>frames sc'.
    sc_fetch_all (sc_new tid txbuf n crc) txbuf (map fst evs) = Some (frames, sc') \<and>
    sc_is_exhausted sc' \<and> 1 \<le> length frames \<and> length frames \<le> length evs \<and>
    transfer_received sadd timeout g rxbuf evs tid (take n txbuf) frames"
  using assms by (rule roundtrip)

lemma scatter_gather_roundtrip_witness:
  "\<exists>frames sc'.
    sc_fetch_all (sc_new (TransferId 3) [1, 2, 3, 4, 5, 6, 7, 8, 9] 9
        (crc_add_bytes crc_default [1, 2, 3, 4, 5, 6, 7, 8, 9])) [1, 2, 3, 4, 5, 6, 7, 8, 9]
      (map fst (replicate 3 (Classic, Nominal, 10 :: instant))) = Some (frames, sc') \<and>
    sc_is_exhausted sc' \<and> 1 \<le> length frames \<and> length frames \<le> length (replicate 3 (Classic, Nominal, 10 :: instant)) \<and>
    transfer_received (\<lambda>a b. a + b) 5 ga_default [0, 0, 0, 0] (replicate 3 (Classic, Nominal, 10 :: instant)) (TransferId 3)
      (take 9 [1, 2, 3, 4, 5, 6, 7, 8, 9]) frames"
proof (rule scatter_gather_roundtrip)
  show "sc_ready (TransferId 3) [1, 2, 3, 4, 5, 6, 7, 8, 9] 9
      (crc_add_bytes crc_default [1, 2, 3, 4, 5, 6, 7, 8, 9])"
    by (simp add: sc_ready_def transfer_id_wf_def transfer_id_MAX_VALUE_def word_le_nat_alt)
  show "ga_accepts (\<lambda>a b. a + b) 5 ga_default (TransferId 3)
      (ev_time (hd (replicate 3 (Classic, Nominal, 10 :: instant))))"
    by (simp add: ga_accepts_def) (simp add: ga_default_def)
  show "9 div 7 + 2 \<le> length (replicate 3 (Classic, Nominal, 10 :: instant))" by simp
  show "\<forall>ev \<in> set (replicate 3 (Classic, Nominal, 10 :: instant)).
      ev_time ev \<le> (\<lambda>a b. a + b) (ev_time (hd (replicate 3 (Classic, Nominal, 10 :: instant)))) 5"
    by (simp add: ev_time_def word_le_nat_alt)
qed

text \<open>
  C3: A complete transfer swallows its replicas. While the timeout of the first frame runs,
  no frame of the same identifier - of the same transfer repeated by the sender, or any
  other - produces a transfer, changes the receiver or touches the receive buffer.
\<close>

theorem assembled_ignores_replicas:
  assumes "ga_assembled g tid t0"
    "\<forall>(p, data, ts) \<in> set fs. (data = [] \<or> tail_transfer_id (TailByte (last data)) = tid) \<and>
       ts \<le> sadd t0 timeout"
  shows "ga_push_all sadd timeout g buffer fs = Some (replicate (length fs) None, g, buffer)"
  using assms(2)
proof (induction fs)
  case (Cons f fs)
  obtain p data ts where f: "f = (p, data, ts)" by (cases f)
  have "ga_push_frame sadd g timeout buffer p data ts = Some (None, g, buffer)"
  proof (cases "data = []")
    case True
    then show ?thesis by (simp add: ga_push_frame_def split_last_def)
  next
    case False
    then have data: "data = butlast data @ [last data]" by simp
    have "tail_transfer_id (TailByte (last data)) = tid" "ts \<le> sadd t0 timeout"
      using Cons.prems False by (simp_all add: f)
    then show ?thesis
      using assms(1) ga_push_duplicate [of g "last data" t0 ts sadd timeout buffer p "butlast data"]
      by (subst data) (simp add: ga_assembled_def)
  qed
  then show ?case using Cons by (simp add: f)
qed simp

lemma assembled_ignores_replicas_witness:
  "ga_push_all (\<lambda>a b. a + b) 5 (ga_default\<lparr> g_state := Assembled, g_transfer_id := Some (TransferId 3),
      g_sof_timestamp := Some 10 \<rparr>) [7] [(Nominal, [1, 0xE3], 12), (Fast, [], 13)] =
    Some (replicate (length [(Nominal, [1 :: u8, 0xE3], 12 :: instant), (Fast, [], 13)]) None,
      ga_default\<lparr> g_state := Assembled, g_transfer_id := Some (TransferId 3),
      g_sof_timestamp := Some 10 \<rparr>, [7])"
proof (rule assembled_ignores_replicas [of _ "TransferId 3" 10])
  have "tail_transfer_id (TailByte 0xE3) = TransferId 3" by code_simp
  then show "\<forall>(p, data, ts) \<in> set [(Nominal, [1 :: u8, 0xE3], 12 :: instant), (Fast, [], 13)].
      (data = [] \<or> tail_transfer_id (TailByte (last data)) = TransferId 3) \<and> ts \<le> 10 + 5"
    by (simp add: word_le_nat_alt)
qed (simp add: ga_assembled_def)

text \<open>
  C4: A corrupted byte is detected. For any data with its CRC appended as the senders append
  it, changing one byte anywhere - in the data or in the CRC itself - makes the register of
  the receiver differ from zero at the end, so \<open>try_get\<close> of its accumulator fails.
\<close>

theorem crc_detects_byte_corruption:
  assumes "xs @ a # ys = payload @ to_be_bytes (crc_get (crc_add_bytes crc_default payload))"
    "a \<noteq> b" "acc_seen acc (xs @ b # ys)"
  shows "acc_try_get acc = None"
proof -
  have "crc_get (crc_add_bytes crc_default (xs @ a # ys)) = 0"
    unfolding assms(1) crc_add_bytes_simps(3) by (rule crc_residue)
  then have "crc_get (crc_add_bytes crc_default (xs @ b # ys)) \<noteq> 0"
    using crc_single_byte_change [OF assms(2), of crc_default xs ys]
    by (metis transfer_crc.expand)
  then show ?thesis using acc_try_get_seen [OF assms(3)] by simp
qed

lemma crc_detects_byte_corruption_witness:
  "acc_try_get \<lparr> acc_length = 4, acc_crc = crc_add_bytes crc_default ([1] @ 6 # [0x0E, 0x7C]) \<rparr> = None"
proof (rule crc_detects_byte_corruption [where payload = "[1, 2]" and a = 2])
  show "[1] @ 2 # [0x0E, 0x7C] = [1, 2] @ to_be_bytes (crc_get (crc_add_bytes crc_default [1, 2]))"
    by code_simp
qed (simp_all add: acc_seen_def)

end
