(* ===== verification/Gather_Spec.thy ===== *)
theory Gather_Spec
  imports Transport
begin

text \<open>
  The reassembly rules R1 to R12 in the documentation of \<open>Gather\<close> as an abstract machine that
  keeps the received bytes, and the proof that the state machine of the source implements it,
  except for one kind of frame: a frame that repeats the toggle bit and whose length is not an
  MTU ends the assembly by rule 4, but is skipped by the source. The frames of this kind are
  \<open>rs_repeat_bad_length\<close>, and the property states what happens for them and for all others.
\<close>

section \<open>The abstract receiver\<close>

datatype rx_spec =
    RsIdle
  | RsReceiving transfer_id instant bool bool "u8 list"
  | RsDone transfer_id instant

text \<open>
  \<open>RsReceiving tid t0 first toggle p\<close>: the bytes \<open>p\<close> of the transfer \<open>tid\<close> that started at
  \<open>t0\<close> were received, \<open>toggle\<close> is the toggle bit expected next, and \<open>first\<close> holds when only
  the first frame was received. A complete transfer is its data followed by its CRC.
\<close>

definition crc_framed :: "u8 list \<Rightarrow> u8 list \<Rightarrow> bool" where
  "crc_framed p q \<longleftrightarrow> p = q @ to_be_bytes (crc_get (crc_add_bytes crc_default q))"

definition rs_live ::
  "(instant \<Rightarrow> duration \<Rightarrow> instant) \<Rightarrow> duration \<Rightarrow> transfer_id \<Rightarrow> instant \<Rightarrow> transfer_id \<Rightarrow> instant \<Rightarrow> bool"
where
  "rs_live sadd timeout own t0 tid ts \<longleftrightarrow> tid = own \<and> ts \<le> sadd t0 timeout"

text \<open>A frame that starts a transfer (rules 3, 4, 5 and 6).\<close>

definition rs_start ::
  "transfer_id \<Rightarrow> instant \<Rightarrow> bool \<Rightarrow> bool \<Rightarrow> u8 list \<Rightarrow> rx_spec \<times> u8 list option" where
  "rs_start tid ts eot toggle payload =
     (if \<not> toggle then (RsIdle, None)
      else if eot then (RsDone tid ts, Some payload)
      else if length payload + 1 \<in> {8, 64} then (RsReceiving tid ts True False payload, None)
      else (RsIdle, None))"

text \<open>
  A frame that continues the transfer being received (rules 4 and 8 to 11). Rule 4 comes first:
  a frame that is not the last one and does not have the length of an MTU takes no part in
  further processing. A transfer is never longer than the 32-bit counter of its bytes.
\<close>

definition rs_continue ::
  "transfer_id \<Rightarrow> instant \<Rightarrow> bool \<Rightarrow> bool \<Rightarrow> u8 list \<Rightarrow> bool \<Rightarrow> bool \<Rightarrow> u8 list \<Rightarrow>
    rx_spec \<times> u8 list option" where
  "rs_continue tid t0 first expected p eot toggle payload =
     (if \<not> eot \<and> length payload + 1 \<notin> {8, 64} then (RsIdle, None)
      else if toggle \<noteq> expected then
        (if first \<or> eot then RsIdle else RsReceiving tid t0 first expected p, None)
      else if length (p @ payload) \<ge> 2 ^ 32 then (RsIdle, None)
      else if eot then
        (if payload \<noteq> [] \<and> (\<exists>q. crc_framed (p @ payload) q)
         then (RsDone tid t0, Some (take (length (p @ payload) - 2) (p @ payload)))
         else (RsIdle, None))
      else (RsReceiving tid t0 False (\<not> expected) (p @ payload), None))"

text \<open>One frame: the new state, and the data of the transfer it completes with its start.\<close>

fun rs_push ::
  "(instant \<Rightarrow> duration \<Rightarrow> instant) \<Rightarrow> duration \<Rightarrow> rx_spec \<Rightarrow> transfer_id \<Rightarrow> instant \<Rightarrow> bool \<Rightarrow> bool \<Rightarrow>
    bool \<Rightarrow> u8 list \<Rightarrow> rx_spec \<times> u8 list option" where
  "rs_push sadd timeout RsIdle tid ts sot eot toggle payload =
     (if sot then rs_start tid ts eot toggle payload else (RsIdle, None))"
| "rs_push sadd timeout (RsDone own t0) tid ts sot eot toggle payload =
     (if rs_live sadd timeout own t0 tid ts then (RsDone own t0, None)
      else if sot then rs_start tid ts eot toggle payload else (RsIdle, None))"
| "rs_push sadd timeout (RsReceiving own t0 first expected p) tid ts sot eot toggle payload =
     (if sot then rs_start tid ts eot toggle payload
      else if \<not> rs_live sadd timeout own t0 tid ts then (RsIdle, None)
      else rs_continue own t0 first expected p eot toggle payload)"

text \<open>
  The frames for which the source departs from rule 4: after the second frame of a transfer, a
  frame in time that repeats the toggle bit, is not the last one and has a wrong length.
\<close>

fun rs_repeat_bad_length ::
  "(instant \<Rightarrow> duration \<Rightarrow> instant) \<Rightarrow> duration \<Rightarrow> rx_spec \<Rightarrow> transfer_id \<Rightarrow> instant \<Rightarrow> bool \<Rightarrow> bool \<Rightarrow>
    bool \<Rightarrow> u8 list \<Rightarrow> bool" where
  "rs_repeat_bad_length sadd timeout (RsReceiving own t0 first expected p) tid ts sot eot toggle payload
     \<longleftrightarrow> \<not> sot \<and> \<not> eot \<and> rs_live sadd timeout own t0 tid ts \<and> \<not> first \<and> toggle \<noteq> expected \<and>
         length payload + 1 \<notin> {8, 64}"
| "rs_repeat_bad_length sadd timeout spec tid ts sot eot toggle payload \<longleftrightarrow> False"

section \<open>The residue test\<close>

lemma crc_two_bytes:
  "crc_add (crc_add c a) b =
    TransferCrc ((crc_bit ^^ 16) (crc_get c XOR (push_bit 8 (ucast a) OR ucast b)))"
proof -
  let ?a = "push_bit 8 (ucast a) :: u16" and ?b = "ucast b :: u16"
  have "(crc_bit ^^ 8) ?b = push_bit 8 ?b"
    by (rule crc_bits_low) (auto simp: bit_ucast_iff dest: bit_imp_le_length)
  moreover have "?a OR ?b = ?a XOR ?b"
    by (rule bit_word_eqI)
      (auto simp: bit_or_iff bit_xor_iff bit_push_bit_iff bit_ucast_iff dest: bit_imp_le_length)
  moreover have "(crc_bit ^^ 16) w = (crc_bit ^^ 8) ((crc_bit ^^ 8) w)" for w
    using funpow_add [of 8 8 crc_bit] by simp
  ultimately show ?thesis
    by (simp only: crc_add_def transfer_crc.sel crc_bits_xor xor.assoc)
qed

lemma to_be_bytes_iff: "to_be_bytes w = [a, b] \<longleftrightarrow> w = push_bit 8 (ucast a) OR ucast b"
proof
  assume "to_be_bytes w = [a, b]"
  then have "a = ucast (drop_bit 8 w)" "b = ucast w" by (simp_all add: to_be_bytes_def)
  then show "w = push_bit 8 (ucast a) OR ucast b"
    by (intro bit_word_eqI)
      (auto simp: bit_or_iff bit_push_bit_iff bit_ucast_iff bit_drop_bit_eq)
next
  assume w: "w = push_bit 8 (ucast a) OR ucast b"
  have "ucast (drop_bit 8 w) = a"
    by (rule bit_word_eqI) (auto simp: w bit_or_iff bit_push_bit_iff bit_ucast_iff bit_drop_bit_eq
        dest: bit_imp_le_length)
  moreover have "ucast w = b"
    by (rule bit_word_eqI) (auto simp: w bit_or_iff bit_push_bit_iff bit_ucast_iff)
  ultimately show "to_be_bytes w = [a, b]" by (simp add: to_be_bytes_def)
qed

lemma length_two_split: "2 \<le> length p \<Longrightarrow> \<exists>q a b. p = q @ [a, b]"
proof -
  assume "2 \<le> length p"
  then have "p = take (length p - 2) p @ drop (length p - 2) p" "length (drop (length p - 2) p) = 2"
    by simp_all
  then show ?thesis by (metis length_Suc_conv length_0_conv numeral_2_eq_2)
qed

text \<open>The register is zero exactly when the last two bytes are the CRC of the rest.\<close>

lemma crc_residue_iff:
  "2 \<le> length p \<and> crc_get (crc_add_bytes crc_default p) = 0 \<longleftrightarrow> (\<exists>q. crc_framed p q)"
proof
  assume p: "2 \<le> length p \<and> crc_get (crc_add_bytes crc_default p) = 0"
  then obtain q a b where q: "p = q @ [a, b]" using length_two_split by blast
  let ?c = "crc_get (crc_add_bytes crc_default q)"
  have "(crc_bit ^^ 16) (?c XOR (push_bit 8 (ucast a) OR ucast b)) = 0"
    using p by (simp add: q crc_two_bytes)
  then have "?c XOR (push_bit 8 (ucast a) OR ucast b) = ?c XOR ?c"
    using crc_bits_eq_0 by simp
  then have "push_bit 8 (ucast a) OR ucast b = ?c" by (simp only: xor_left_cancel_word)
  then show "\<exists>q. crc_framed p q"
    using to_be_bytes_iff [of ?c a b] by (auto simp: crc_framed_def q)
qed (auto simp: crc_framed_def crc_residue)

section \<open>Refinement\<close>

text \<open>
  \<open>rs_rel spec g b0 buffer\<close>: the concrete state represents the abstract one; \<open>b0\<close> is what the
  buffer held when the transfer started.
\<close>

fun rs_rel :: "rx_spec \<Rightarrow> gather \<Rightarrow> u8 list \<Rightarrow> bool" where
  "rs_rel RsIdle g buffer \<longleftrightarrow> g_state g \<in> {Idle, IdleLastTransfer}"
| "rs_rel (RsReceiving tid t0 first expected p) g buffer \<longleftrightarrow>
     ga_receiving g tid t0 expected p \<and> (first \<longleftrightarrow> g_state g = AccumulatedFirst) \<and>
     (\<exists>b0. buffer = ga_store b0 p)"
| "rs_rel (RsDone tid t0) g buffer \<longleftrightarrow> ga_assembled g tid t0"

lemma rs_rel_stop:
  "\<exists>g'. ga_stop_assembly g buffer = Some (None, g', buffer) \<and> rs_rel RsIdle g' buffer"
  by (simp add: ga_stop_assembly_def)

text \<open>What the concrete step has to deliver for an abstract result.\<close>

definition rs_outcome ::
  "rx_spec \<times> u8 list option \<Rightarrow> priority \<Rightarrow> ga_result exec \<Rightarrow> u8 list \<Rightarrow> bool" where
  "rs_outcome r pr res buffer \<longleftrightarrow> (\<exists>t g' buffer'. res = Some (t, g', buffer') \<and>
     length buffer' = length buffer \<and> rs_rel (fst r) g' buffer' \<and>
     (case snd r of None \<Rightarrow> t = None
      | Some q \<Rightarrow> (\<exists>tid t0. fst r = RsDone tid t0 \<and>
          t = Some \<lparr> t_id = tid, t_priority = pr, t_timestamp = t0, t_length = of_nat (length q) \<rparr> \<and>
          take (length q) buffer' = take (length buffer) q)))"

lemma rs_outcome_stop: "rs_outcome (RsIdle, None) pr (ga_stop_assembly g buffer) buffer"
  by (simp add: rs_outcome_def ga_stop_assembly_def)

lemma take_store_prefix: "n \<le> length p \<Longrightarrow> take n (ga_store b p) = take (length b) (take n p)"
  using take_ga_store [of n p b] by simp

lemma rs_start_refines:
  assumes "transfer_id_wf tid" "\<not> (g_state g = Assembled \<and> tm)" "length payload < 2 ^ 32"
  shows "rs_outcome (rs_start tid ts eot toggle payload) pr
    (ga_run_action (ga_action_of (g_state g) True eot (\<not> toggle) tm) g buffer
      \<lparr> s_transfer_id = tid, s_priority = pr, s_payload = payload, s_timestamp = ts \<rparr>) buffer"
proof -
  have store: "copy_at buffer 0 (take (min (length payload) (length buffer)) payload) =
      ga_store buffer payload"
    using ga_store_append [of buffer "[]" payload] by simp
  have app: "acc_append acc_default buffer payload = Some (\<lparr> acc_length = of_nat (length payload),
      acc_crc = crc_add_bytes crc_default payload \<rparr>, ga_store buffer payload)"
    using acc_append_seen [OF acc_seen_default, of buffer payload] assms(3) by simp
  have mtu: "mtu_try_from (length payload + 1) = None \<longleftrightarrow> length payload + 1 \<notin> {8, 64}"
    by (auto simp: mtu_try_from_def)
  have act: "ga_action_of (g_state g) True eot (\<not> toggle) tm =
      (if \<not> toggle then StopAssembly else if eot then SingleFrame else AccumulateFirst)"
    using assms(2) by (cases "g_state g"; cases tm; cases eot; cases toggle) simp_all
  consider "\<not> toggle" | "toggle" "eot" | "toggle" "\<not> eot" "length payload + 1 \<in> {8, 64}"
    | "toggle" "\<not> eot" "length payload + 1 \<notin> {8, 64}" by blast
  then show ?thesis
  proof cases
    case 2
    then show ?thesis unfolding act using assms(3) store
      by (simp add: rs_start_def rs_outcome_def ga_single_frame_assembly_def Let_def
          u32_try_from_def ga_assembled_def take_store_prefix)
  next
    case 3
    then show ?thesis unfolding act using app mtu assms(3)
      by (auto simp: rs_start_def rs_outcome_def ga_accumulate_first_def Let_def
          ga_receiving_def acc_seen_def)
  next
    case 4
    then have "mtu_try_from (length payload + 1) = None" using mtu by blast
    with 4 show ?thesis unfolding act
      using rs_outcome_stop by (simp add: rs_start_def ga_accumulate_first_def)
  qed (use act in \<open>simp add: rs_start_def rs_outcome_stop\<close>)
qed

lemma rs_continue_refines:
  assumes "rs_rel (RsReceiving tid t0 first expected p) g buffer"
    "eot \<or> first \<or> toggle = expected \<or> length payload + 1 \<in> {8, 64}"
  shows "rs_outcome (rs_continue tid t0 first expected p eot toggle payload) pr
    (ga_run_action (ga_action_of (g_state g) False eot (\<not> toggle) True) g buffer
      \<lparr> s_transfer_id = tid, s_priority = pr, s_payload = payload, s_timestamp = ts \<rparr>) buffer"
proof -
  have rec: "ga_receiving g tid t0 expected p" and first: "first \<longleftrightarrow> g_state g = AccumulatedFirst"
    using assms(1) by simp_all
  obtain b0 where b0: "buffer = ga_store b0 p" using assms(1) by auto
  have seen: "acc_seen (g_acc g) p" and sel: "g_transfer_id g = Some tid"
    "g_sof_timestamp g = Some t0" using rec by (simp_all add: ga_receiving_def)
  let ?pp = "p @ payload"
  let ?acc = "\<lparr> acc_length = of_nat (length ?pp), acc_crc = crc_add_bytes crc_default ?pp \<rparr>"
  have app: "acc_append (g_acc g) buffer payload =
      (if length ?pp < 2 ^ 32 then Some (?acc, ga_store b0 ?pp) else None)"
    using acc_append_seen [OF seen, of b0 payload] by (simp add: b0)
  have mtu: "mtu_try_from (length payload + 1) = None \<longleftrightarrow> length payload + 1 \<notin> {8, 64}"
    by (auto simp: mtu_try_from_def)
  have act: "ga_action_of (g_state g) False eot (\<not> toggle) True =
      (if toggle \<noteq> expected then (if first \<or> eot then StopAssembly else SkipFrame)
       else if eot then FinishAssembly else if expected then AccumulateEven else AccumulateOdd)"
    using rec first by (cases "g_state g"; cases eot; cases toggle; cases expected)
      (simp_all add: ga_receiving_def)
  consider (wrong) "toggle \<noteq> expected" | (big) "toggle = expected" "\<not> length ?pp < 2 ^ 32"
    | (fin) "toggle = expected" "length ?pp < 2 ^ 32" "eot"
    | (mid) "toggle = expected" "length ?pp < 2 ^ 32" "\<not> eot" by blast
  then show ?thesis
  proof cases
    case wrong
    then have "rs_continue tid t0 first expected p eot toggle payload =
        (if first \<or> eot then RsIdle else RsReceiving tid t0 first expected p, None)"
      using assms(2) by (auto simp: rs_continue_def)
    then show ?thesis unfolding act using wrong assms(1) rs_outcome_stop
      by (auto simp: rs_outcome_def ga_skip_frame_def ga_stop_assembly_def)
  next
    case big
    have stop: "rs_outcome (RsIdle, None) pr (ga_stop_assembly g' buffer) buffer" for g'
      by (rule rs_outcome_stop)
    show ?thesis unfolding act using big app stop
      by (auto simp: rs_continue_def ga_finish_assembly_def ga_accumulate_even_def
          ga_accumulate_odd_def Let_def)
  next
    case fin
    have seen': "acc_seen ?acc ?pp" using acc_seen_append [OF seen] fin(2) by blast
    show ?thesis
    proof (cases "payload \<noteq> [] \<and> (\<exists>q. crc_framed ?pp q)")
      case True
      then have get: "acc_try_get ?acc = Some (of_nat (length ?pp - 2))"
        using acc_try_get_seen [OF seen'] crc_residue_iff [of ?pp] by auto
      have "take (length ?pp - 2) (ga_store b0 ?pp) = take (length b0) (take (length ?pp - 2) ?pp)"
        by (rule take_store_prefix) simp
      then show ?thesis unfolding act using fin True app get sel b0
        by (simp add: rs_continue_def rs_outcome_def ga_finish_assembly_def Let_def
            ga_assembled_def del: take_append length_append)
    next
      case False
      show ?thesis
      proof (cases "payload = []")
        case True
        then show ?thesis unfolding act using fin rs_outcome_stop
          by (simp add: rs_continue_def ga_finish_assembly_def)
      next
        case nonempty: False
        then have get: "acc_try_get ?acc = None"
          using False acc_try_get_seen [OF seen'] crc_residue_iff [of ?pp] by auto
        show ?thesis unfolding act using fin False nonempty app get b0
          by (simp add: rs_continue_def rs_outcome_def ga_finish_assembly_def Let_def
              ga_stop_assembly_def)
      qed
    qed
  next
    case mid
    show ?thesis
    proof (cases "length payload + 1 \<in> {8, 64}")
      case True
      then have m: "mtu_try_from (length payload + 1) \<noteq> None" using mtu by blast
      have "acc_seen ?acc ?pp" using acc_seen_append [OF seen] mid(2) by blast
      then show ?thesis unfolding act using mid True m app sel b0
        by (cases expected) (auto simp: rs_continue_def rs_outcome_def ga_accumulate_even_def
            ga_accumulate_odd_def Let_def ga_receiving_def)
    next
      case False
      then have m: "mtu_try_from (length payload + 1) = None" using mtu by blast
      show ?thesis unfolding act using mid False m rs_outcome_stop
        by (cases expected) (simp_all add: act rs_continue_def ga_accumulate_even_def
            ga_accumulate_odd_def)
    qed
  qed
qed

text \<open>The frames of the exception are skipped by the source, and end the assembly by rule 4.\<close>

lemma rs_repeat_bad_length_skipped:
  assumes "rs_rel spec g buffer" "rs_repeat_bad_length sadd timeout spec tid ts sot eot toggle payload"
  shows "ga_run_action (ga_action_of (g_state g) sot eot (\<not> toggle) True) g buffer seg =
      Some (None, g, buffer)"
    "ga_tid_match sadd g timeout tid ts = Some True"
    "rs_push sadd timeout spec tid ts sot eot toggle payload = (RsIdle, None)"
    "\<not> rs_rel RsIdle g buffer"
  using assms by (cases spec; cases "g_state g"; cases toggle;
      auto simp: ga_receiving_def ga_skip_frame_def ga_tid_match_def rs_live_def rs_continue_def
        split: if_splits)+

section \<open>Properties\<close>

text \<open>
  C2: The state machine of \<open>Gather\<close> implements the documented reassembly rules, but for one kind
  of frame. For every frame with a tail byte, in every state that represents an abstract one,
  \<open>push_frame\<close> does not panic, reaches a state that represents the successor by the rules, and
  produces a transfer exactly when the rules do: a single frame, or a sequence of frames with
  alternating toggle bits in time whose bytes are some data followed by the CRC of that data,
  with the length of the data and its bytes at the start of the buffer. The exception: a frame
  of the transfer, after its second one and not the last, that repeats the toggle bit and whose
  length is neither 8 nor 64. By rule 4 such a frame stops the assembly; the source skips it and
  goes on with the assembly. A frame without data changes nothing.
\<close>

theorem gather_refines_rules:
  assumes "rs_rel spec g buffer" "ga_wf g" "length payload < 2 ^ 32"
  shows "(if rs_repeat_bad_length sadd timeout spec (tail_transfer_id (TailByte b)) ts
          (tail_sot (TailByte b)) (tail_eot (TailByte b)) (tail_toggle (TailByte b)) payload
      then rs_push sadd timeout spec (tail_transfer_id (TailByte b)) ts (tail_sot (TailByte b))
          (tail_eot (TailByte b)) (tail_toggle (TailByte b)) payload = (RsIdle, None) \<and>
        \<not> rs_rel RsIdle g buffer \<and>
        ga_push_frame sadd g timeout buffer pr (payload @ [b]) ts = Some (None, g, buffer)
      else rs_outcome
        (rs_push sadd timeout spec (tail_transfer_id (TailByte b)) ts (tail_sot (TailByte b))
          (tail_eot (TailByte b)) (tail_toggle (TailByte b)) payload) pr
        (ga_push_frame sadd g timeout buffer pr (payload @ [b]) ts) buffer) \<and>
    ga_push_frame sadd g timeout buffer pr [] ts = Some (None, g, buffer)"
proof -
  let ?t = "TailByte b"
  let ?tid = "tail_transfer_id ?t" and ?sot = "tail_sot ?t" and ?eot = "tail_eot ?t"
  let ?tog = "tail_toggle ?t"
  let ?seg = "\<lparr> s_transfer_id = ?tid, s_priority = pr, s_payload = payload, s_timestamp = ts \<rparr>"
  let ?run = "\<lambda>tm. ga_run_action (ga_action_of (g_state g) ?sot ?eot (\<not> ?tog) tm) g buffer ?seg"
  have empty: "ga_push_frame sadd g timeout buffer pr [] ts = Some (None, g, buffer)"
    by (simp add: ga_push_frame_def split_last_def)
  have push: "ga_push_frame sadd g timeout buffer pr (payload @ [b]) ts = ?run tm"
    if "ga_tid_match sadd g timeout ?tid ts = Some tm" for tm
    using that by (simp add: ga_push_frame_def SOT_TOGGLE_BIT_def Let_def)
  have start: "rs_outcome (rs_start ?tid ts ?eot ?tog payload) pr (?run tm) buffer"
    if "\<not> (g_state g = Assembled \<and> tm)" "?sot" for tm
    using rs_start_refines [OF _ that(1) assms(3), of ?tid ts ?eot ?tog pr buffer] that(2) by simp
  have stop: "rs_outcome (RsIdle, None) pr (?run False) buffer" if "\<not> ?sot"
    using that rs_outcome_stop by (cases "g_state g"; cases ?eot; cases ?tog) simp_all
  let ?bad = "rs_repeat_bad_length sadd timeout spec ?tid ts ?sot ?eot ?tog payload"
  have bad: "ga_push_frame sadd g timeout buffer pr (payload @ [b]) ts = Some (None, g, buffer) \<and>
      rs_push sadd timeout spec ?tid ts ?sot ?eot ?tog payload = (RsIdle, None) \<and>
      \<not> rs_rel RsIdle g buffer" if ?bad
    using rs_repeat_bad_length_skipped [OF assms(1) that] push by simp
  have "rs_outcome (rs_push sadd timeout spec ?tid ts ?sot ?eot ?tog payload) pr
      (ga_push_frame sadd g timeout buffer pr (payload @ [b]) ts) buffer" if good: "\<not> ?bad"
  proof (cases spec)
    case RsIdle
    then have "ga_tid_match sadd g timeout ?tid ts = Some False" "g_state g \<noteq> Assembled"
      using assms(1) by (auto simp: ga_tid_match_def)
    then show ?thesis using start [of False] stop push RsIdle by simp
  next
    case (RsDone own t0)
    define live where "live = rs_live sadd timeout own t0 ?tid ts"
    have held: "ga_assembled g own t0" using assms(1) RsDone by simp
    then have m: "ga_tid_match sadd g timeout ?tid ts = Some live"
      by (auto simp: ga_tid_match_def ga_assembled_def rs_live_def live_def)
    show ?thesis
    proof (cases live)
      case True
      then have "?run True = Some (None, g, buffer)"
        using held by (simp add: ga_assembled_def ga_skip_frame_def)
      then show ?thesis using True RsDone m push held
        by (simp add: rs_outcome_def flip: live_def)
    next
      case False
      then show ?thesis using start [of False] stop push m RsDone by (simp flip: live_def)
    qed
  next
    case (RsReceiving own t0 first expected p)
    define live where "live = rs_live sadd timeout own t0 ?tid ts"
    have rel: "rs_rel (RsReceiving own t0 first expected p) g buffer"
      using assms(1) RsReceiving by simp
    then have rec: "ga_receiving g own t0 expected p" by simp
    then have not_done: "g_state g \<noteq> Assembled" by (auto simp: ga_receiving_def split: if_splits)
    have m: "ga_tid_match sadd g timeout ?tid ts = Some live"
      using rec by (auto simp: ga_tid_match_def ga_receiving_def rs_live_def live_def split: if_splits)
    consider "?sot" | "\<not> ?sot" "\<not> live" | "\<not> ?sot" "live" by blast
    then show ?thesis
    proof cases
      case 3
      then have "?tid = own" by (simp add: live_def rs_live_def)
      moreover have "?eot \<or> first \<or> ?tog = expected \<or> length payload + 1 \<in> {8, 64}"
        using 3 good RsReceiving by (auto simp: live_def)
      ultimately have "rs_outcome (rs_continue own t0 first expected p ?eot ?tog payload) pr
          (?run True) buffer"
        using rs_continue_refines [OF rel, of ?eot ?tog payload pr ts] 3 by simp
      then show ?thesis using 3 push m RsReceiving by (simp flip: live_def)
    qed (use start [of live] not_done stop push m RsReceiving in \<open>simp_all flip: live_def\<close>)
  qed
  with bad empty show ?thesis by (cases ?bad) (simp_all only: if_True if_False HOL.simp_thms)
qed

text \<open>A fresh receiver represents the abstract idle state.\<close>

lemma rs_rel_default: "rs_rel RsIdle ga_default buffer"
  by (simp add: ga_default_def)

text \<open>
  A receiver in the midst of a transfer: two frames of 7 bytes were received, and the toggle bit
  expected next is 1. The witness pushes a frame of the exception, of the length 3.
\<close>

definition ex_tid :: transfer_id where "ex_tid = tail_transfer_id (TailByte 0x03)"

definition ex_midway :: gather where
  "ex_midway = \<lparr> g_state = AccumulatedOdd, g_sof_timestamp = Some 1, g_transfer_id = Some ex_tid,
     g_acc = \<lparr> acc_length = 14, acc_crc = crc_add_bytes crc_default (replicate 14 0) \<rparr> \<rparr>"

lemma rs_rel_midway:
  "rs_rel (RsReceiving ex_tid 1 False True (replicate 14 0)) ex_midway (replicate 14 0)"
  "ga_wf ex_midway"
  by (auto simp: ex_midway_def ga_receiving_def acc_seen_def ga_store_def ga_wf_def
      intro: exI [of _ "replicate 14 0"])

lemma ex_tail:
  "tail_sot (TailByte 0x03) = False" "tail_eot (TailByte 0x03) = False"
  "tail_toggle (TailByte 0x03) = False"
  "tail_sot (TailByte 0xE3) = True" "tail_eot (TailByte 0xE3) = True"
  "tail_toggle (TailByte 0xE3) = True"
  "tail_transfer_id (TailByte 0x03) = ex_tid" "tail_transfer_id (TailByte 0xE3) = ex_tid"
  unfolding ex_tid_def by code_simp+

lemma gather_refines_rules_witness:
  "rs_outcome (RsDone ex_tid 5, Some [1, 2]) Nominal
     (ga_push_frame (\<lambda>a b. a) ga_default 0 [0, 0, 0] Nominal ([1, 2] @ [0xE3]) 5) [0, 0, 0] \<and>
   rs_push (\<lambda>a b. a) 0 (RsReceiving ex_tid 1 False True (replicate 14 0)) ex_tid 1 False False False
     [1, 2] = (RsIdle, None) \<and>
   ga_push_frame (\<lambda>a b. a) ex_midway 0 (replicate 14 0) Nominal ([1, 2] @ [0x03]) 1 =
     Some (None, ex_midway, replicate 14 0)"
  using gather_refines_rules [OF rs_rel_default ga_wf_default, of "[1, 2]" "\<lambda>a b. a" 0 "0xE3" 5
      "[0, 0, 0]" Nominal]
    gather_refines_rules [OF rs_rel_midway, of "[1, 2]" "\<lambda>a b. a" 0 "0x03" 1 Nominal]
  by (simp add: ex_tail rs_start_def rs_live_def)

end
