(* ===== verification/Simulation.thy ===== *)
theory Simulation
  imports Prelude
begin

text \<open>
  Refinement of a container by an abstract machine: both run the same list of operations, and
  the container has to produce the outputs of the machine, without a panic.
\<close>

text \<open>The concrete container: every operation returns an output and the new state.\<close>

fun run_ops :: "('op \<Rightarrow> 's \<Rightarrow> ('o \<times> 's) exec) \<Rightarrow> 'op list \<Rightarrow> 's \<Rightarrow> ('o list \<times> 's) exec" where
  "run_ops step [] s = ret ([], s)"
| "run_ops step (op # ops) s = do {
     (out, s) \<leftarrow> step op s;
     (outs, s) \<leftarrow> run_ops step ops s;
     ret (out # outs, s)
   }"

text \<open>The abstract machine is total; \<open>ok\<close> says where an operation may be called.\<close>

fun run_spec :: "('op \<Rightarrow> 'a \<Rightarrow> 'o \<times> 'a) \<Rightarrow> 'op list \<Rightarrow> 'a \<Rightarrow> 'o list" where
  "run_spec spec [] a = []"
| "run_spec spec (op # ops) a = fst (spec op a) # run_spec spec ops (snd (spec op a))"

fun run_ok :: "('op \<Rightarrow> 'a \<Rightarrow> 'o \<times> 'a) \<Rightarrow> ('op \<Rightarrow> 'a \<Rightarrow> bool) \<Rightarrow> 'op list \<Rightarrow> 'a \<Rightarrow> bool" where
  "run_ok spec ok [] a = True"
| "run_ok spec ok (op # ops) a = (ok op a \<and> run_ok spec ok ops (snd (spec op a)))"

text \<open>The observable behaviour of a run: its outputs, or the panic.\<close>

definition outputs :: "('o list \<times> 's) exec \<Rightarrow> 'o list exec" where
  "outputs r = map_option fst r"

lemma outputs_simps [simp]: "outputs (Some (out, s)) = Some out" "outputs None = None"
  by (simp_all add: outputs_def)

locale simulation =
  fixes rep :: "'s \<Rightarrow> 'a \<Rightarrow> bool"
    and step :: "'op \<Rightarrow> 's \<Rightarrow> ('o \<times> 's) exec"
    and spec :: "'op \<Rightarrow> 'a \<Rightarrow> 'o \<times> 'a"
    and ok :: "'op \<Rightarrow> 'a \<Rightarrow> bool"
  assumes simulates: "rep s a \<Longrightarrow> ok op a \<Longrightarrow>
    \<exists>s'. step op s = Some (fst (spec op a), s') \<and> rep s' (snd (spec op a))"
begin

lemma run_state:
  "rep s a \<Longrightarrow> run_ok spec ok ops a \<Longrightarrow>
    \<exists>s' a'. run_ops step ops s = Some (run_spec spec ops a, s') \<and> rep s' a'"
proof (induction ops arbitrary: s a)
  case (Cons op ops)
  obtain s1 where s1: "step op s = Some (fst (spec op a), s1)" "rep s1 (snd (spec op a))"
    using simulates [OF Cons.prems(1)] Cons.prems(2) by auto
  moreover obtain s' a' where "run_ops step ops s1 = Some (run_spec spec ops (snd (spec op a)), s')"
    "rep s' a'" using Cons.IH [OF s1(2)] Cons.prems(2) by auto
  ultimately show ?case by auto
qed auto

text \<open>Every run gives the outputs of the machine.\<close>

lemma run:
  assumes "rep s a" "run_ok spec ok ops a"
  shows "outputs (run_ops step ops s) = Some (run_spec spec ops a)"
  using run_state [OF assms] by auto

end

end
