(* ===== verification/Multi_Queue.thy ===== *)
theory Multi_Queue
  imports Prelude
begin

text \<open>
  \<open>emcyphal/src/utils/multi_class_queue.rs\<close>: several doubly linked cycles in one array
  (\<open>MultiCycleList\<close>) and, on top, a queue per class over a shared pool of entries
  (\<open>MultiClassQueue\<close>). The const generics are arguments: \<open>C\<close> classes, \<open>N\<close> entries. A
  \<open>DuplexArray\<close> of two parts is the list of its elements (\<open>utils/stacked_array.rs\<close>).
\<close>

section \<open>Stacked arrays\<close>

text \<open>
  Two or three arrays laid out one after the other, indexed as one: \<open>from_fn\<close> calls the
  closure with the position in the whole, \<open>repeat\<close> fills it.
\<close>

definition duplex_from_fn :: "nat \<Rightarrow> nat \<Rightarrow> (nat \<Rightarrow> 'a) \<Rightarrow> 'a list" where
  "duplex_from_fn n1 n2 cb = map cb [0..<n1] @ map (\<lambda>i. cb (n1 + i)) [0..<n2]"

definition duplex_repeat :: "nat \<Rightarrow> nat \<Rightarrow> 'a \<Rightarrow> 'a list" where
  "duplex_repeat n1 n2 v = replicate n1 v @ replicate n2 v"

definition triplex_from_fn :: "nat \<Rightarrow> nat \<Rightarrow> nat \<Rightarrow> (nat \<Rightarrow> 'a) \<Rightarrow> 'a list" where
  "triplex_from_fn n1 n2 n3 cb = map cb [0..<n1] @ map (\<lambda>i. cb (n1 + i)) [0..<n2] @
     map (\<lambda>i. cb (n1 + n2 + i)) [0..<n3]"

lemma map_upt_shift: "map (\<lambda>i. cb (n + i)) [0..<m] = map cb [n..<n + m]"
  by (induction m) simp_all

lemma duplex_from_fn_eq [simp]: "duplex_from_fn n1 n2 cb = map cb [0..<n1 + n2]"
  by (simp add: duplex_from_fn_def map_upt_shift upt_add_eq_append [of 0 n1 n2])

lemma duplex_repeat_eq [simp]: "duplex_repeat n1 n2 v = replicate (n1 + n2) v"
  by (simp add: duplex_repeat_def replicate_add)

lemma triplex_from_fn_eq [simp]: "triplex_from_fn n1 n2 n3 cb = map cb [0..<n1 + n2 + n3]"
proof -
  have "map (\<lambda>i. cb (n1 + n2 + i)) [0..<n3] = map cb [n1 + n2..<n1 + n2 + n3]"
    using map_upt_shift [of cb "n1 + n2" n3] by simp
  then show ?thesis
    unfolding triplex_from_fn_def map_upt_shift [of cb n1 n2]
    by (simp add: upt_add_eq_append [of 0 "n1 + n2" n3] upt_add_eq_append [of 0 n1 n2])
qed

section \<open>Cyclic lists\<close>

record node =
  nd_next :: nat
  nd_prev :: nat

definition MAX_CAPACITY :: nat where
  "MAX_CAPACITY = 256"

type_synonym multi_cycle_list = "node list"

text \<open>\<open>unwrap!(u8::try_from(i))\<close> panics for a node that has no \<open>u8\<close> index.\<close>

definition mc_new :: "nat \<Rightarrow> nat \<Rightarrow> multi_cycle_list exec" where
  "mc_new n1 n2 = (if n1 + n2 \<le> 256
     then ret (duplex_from_fn n1 n2 (\<lambda>i. \<lparr> nd_next = i, nd_prev = i \<rparr>)) else panic)"

definition mc_next :: "multi_cycle_list \<Rightarrow> nat \<Rightarrow> nat exec" where
  "mc_next ns node = do { nd \<leftarrow> arr_get ns node; ret (nd_next nd) }"

definition mc_prev :: "multi_cycle_list \<Rightarrow> nat \<Rightarrow> nat exec" where
  "mc_prev ns node = do { nd \<leftarrow> arr_get ns node; ret (nd_prev nd) }"

definition mc_is_bound :: "multi_cycle_list \<Rightarrow> nat \<Rightarrow> bool exec" where
  "mc_is_bound ns node = do { nd \<leftarrow> arr_get ns node; ret (nd_next nd \<noteq> node) }"

text \<open>The assignments \<open>nodes[i].next = v\<close> and \<open>nodes[i].prev = v\<close>.\<close>

definition mc_set_next :: "multi_cycle_list \<Rightarrow> nat \<Rightarrow> nat \<Rightarrow> multi_cycle_list exec" where
  "mc_set_next ns i v = do { nd \<leftarrow> arr_get ns i; arr_set ns i (nd\<lparr> nd_next := v \<rparr>) }"

definition mc_set_prev :: "multi_cycle_list \<Rightarrow> nat \<Rightarrow> nat \<Rightarrow> multi_cycle_list exec" where
  "mc_set_prev ns i v = do { nd \<leftarrow> arr_get ns i; arr_set ns i (nd\<lparr> nd_prev := v \<rparr>) }"

definition mc_unbind :: "multi_cycle_list \<Rightarrow> nat \<Rightarrow> multi_cycle_list exec" where
  "mc_unbind ns node = do {
     next \<leftarrow> mc_next ns node;
     prev \<leftarrow> mc_prev ns node;
     ns \<leftarrow> mc_set_prev ns node node;
     ns \<leftarrow> mc_set_next ns node node;
     ns \<leftarrow> mc_set_prev ns next prev;
     mc_set_next ns prev next
   }"

definition mc_move_after :: "multi_cycle_list \<Rightarrow> nat \<Rightarrow> nat \<Rightarrow> multi_cycle_list exec" where
  "mc_move_after ns node prev = do {
     ns \<leftarrow> mc_unbind ns node;
     next \<leftarrow> mc_next ns prev;
     ns \<leftarrow> mc_set_next ns node next;
     ns \<leftarrow> mc_set_prev ns node prev;
     ns \<leftarrow> mc_set_prev ns next node;
     mc_set_next ns prev node
   }"

definition mc_move_before :: "multi_cycle_list \<Rightarrow> nat \<Rightarrow> nat \<Rightarrow> multi_cycle_list exec" where
  "mc_move_before ns node next = do {
     ns \<leftarrow> mc_unbind ns node;
     prev \<leftarrow> mc_prev ns next;
     ns \<leftarrow> mc_set_next ns node next;
     ns \<leftarrow> mc_set_prev ns node prev;
     ns \<leftarrow> mc_set_prev ns next node;
     mc_set_next ns prev node
   }"

section \<open>Queues of several classes\<close>

text \<open>
  \<open>ENTRY_OFFSET\<close> is \<open>CLASS_COUNT as u8\<close>, which is 0 for 256 classes: entry \<open>e\<close> is the node
  \<open>ENTRY_OFFSET + e\<close>, an addition of two \<open>u8\<close> values.
\<close>

record multi_class_queue =
  mq_classes :: nat
  mq_entries :: nat
  mq_nodes :: multi_cycle_list

definition mq_ENTRY_OFFSET :: "multi_class_queue \<Rightarrow> nat" where
  "mq_ENTRY_OFFSET q = mq_classes q mod 256"

definition mq_new :: "nat \<Rightarrow> nat \<Rightarrow> multi_class_queue exec" where
  "mq_new C N = do {
     ns \<leftarrow> mc_new C N;
     ret \<lparr> mq_classes = C, mq_entries = N, mq_nodes = ns \<rparr>
   }"

definition mq_front :: "multi_class_queue \<Rightarrow> nat \<Rightarrow> nat option exec" where
  "mq_front q class = do {
     assert_that (class < mq_classes q);
     n \<leftarrow> mc_next (mq_nodes q) class;
     ret (checked_sub n (mq_ENTRY_OFFSET q))
   }"

definition mq_back :: "multi_class_queue \<Rightarrow> nat \<Rightarrow> nat option exec" where
  "mq_back q class = do {
     assert_that (class < mq_classes q);
     n \<leftarrow> mc_prev (mq_nodes q) class;
     ret (checked_sub n (mq_ENTRY_OFFSET q))
   }"

definition mq_is_empty :: "multi_class_queue \<Rightarrow> nat \<Rightarrow> bool exec" where
  "mq_is_empty q class = do {
     assert_that (class < mq_classes q);
     front \<leftarrow> mq_front q class;
     ret (front = None)
   }"

definition mq_is_front :: "multi_class_queue \<Rightarrow> nat \<Rightarrow> nat option exec" where
  "mq_is_front q entry = do {
     assert_that (entry < mq_entries q);
     n \<leftarrow> u8_of (mq_ENTRY_OFFSET q + entry);
     prev \<leftarrow> mc_prev (mq_nodes q) n;
     ret (if prev < mq_ENTRY_OFFSET q then Some prev else None)
   }"

definition mq_is_back :: "multi_class_queue \<Rightarrow> nat \<Rightarrow> nat option exec" where
  "mq_is_back q entry = do {
     assert_that (entry < mq_entries q);
     n \<leftarrow> u8_of (mq_ENTRY_OFFSET q + entry);
     next \<leftarrow> mc_next (mq_nodes q) n;
     ret (if next < mq_ENTRY_OFFSET q then Some next else None)
   }"

definition mq_remove :: "multi_class_queue \<Rightarrow> nat \<Rightarrow> multi_class_queue exec" where
  "mq_remove q entry = do {
     assert_that (entry < mq_entries q);
     n \<leftarrow> u8_of (mq_ENTRY_OFFSET q + entry);
     ns \<leftarrow> mc_unbind (mq_nodes q) n;
     ret (q\<lparr> mq_nodes := ns \<rparr>)
   }"

definition mq_move_front :: "multi_class_queue \<Rightarrow> nat \<Rightarrow> nat \<Rightarrow> multi_class_queue exec" where
  "mq_move_front q class entry = do {
     assert_that (class < mq_classes q);
     assert_that (entry < mq_entries q);
     n \<leftarrow> u8_of (mq_ENTRY_OFFSET q + entry);
     ns \<leftarrow> mc_move_after (mq_nodes q) n class;
     ret (q\<lparr> mq_nodes := ns \<rparr>)
   }"

definition mq_move_back :: "multi_class_queue \<Rightarrow> nat \<Rightarrow> nat \<Rightarrow> multi_class_queue exec" where
  "mq_move_back q class entry = do {
     assert_that (class < mq_classes q);
     assert_that (entry < mq_entries q);
     n \<leftarrow> u8_of (mq_ENTRY_OFFSET q + entry);
     ns \<leftarrow> mc_move_before (mq_nodes q) n class;
     ret (q\<lparr> mq_nodes := ns \<rparr>)
   }"

section \<open>Doubly linked paths\<close>

text \<open>The path from \<open>a\<close> over \<open>xs\<close> to \<open>b\<close>, linked in both directions.\<close>

fun linked :: "(nat \<Rightarrow> nat) \<Rightarrow> (nat \<Rightarrow> nat) \<Rightarrow> nat \<Rightarrow> nat list \<Rightarrow> nat \<Rightarrow> bool" where
  "linked nx pv a [] b \<longleftrightarrow> nx a = b \<and> pv b = a"
| "linked nx pv a (x # xs) b \<longleftrightarrow> nx a = x \<and> pv x = a \<and> linked nx pv x xs b"

lemma linked_append:
  "linked nx pv a (xs @ y # ys) b \<longleftrightarrow> linked nx pv a xs y \<and> linked nx pv y ys b"
  by (induction xs arbitrary: a) auto

lemma linked_cong:
  "linked nx pv a xs b \<Longrightarrow> (\<And>i. i \<in> set (a # xs) \<Longrightarrow> nx' i = nx i) \<Longrightarrow>
    (\<And>i. i \<in> set (xs @ [b]) \<Longrightarrow> pv' i = pv i) \<Longrightarrow> linked nx' pv' a xs b"
  by (induction xs arbitrary: a) auto

lemma linked_first: "linked nx pv a xs b \<Longrightarrow> nx a = hd (xs @ [b])"
  by (cases xs) auto

lemma linked_last: "linked nx pv a xs b \<Longrightarrow> pv b = last (a # xs)"
  by (induction xs arbitrary: a) auto

text \<open>Replacing the end of a path.\<close>

lemma linked_redirect:
  assumes "linked nx pv a xs x" "distinct (a # xs)" "x \<notin> set xs" "b \<notin> set xs"
  shows "linked (nx(last (a # xs) := b)) (pv(b := last (a # xs))) a xs b"
  using assms
proof (induction xs arbitrary: a)
  case (Cons y ys)
  define p where "p = last (y # ys)"
  have ne: "p \<noteq> a" using Cons.prems(2) last_in_set [of "y # ys"] by (auto simp: p_def)
  have "linked (nx(p := b)) (pv(b := p)) y ys b"
    unfolding p_def using Cons.prems by (intro Cons.IH) auto
  then have "linked (nx(p := b)) (pv(b := p)) a (y # ys) b"
    using Cons.prems ne by auto
  moreover have "last (a # y # ys) = p" by (simp add: p_def)
  ultimately show ?case by (simp only:)
qed simp

text \<open>Taking a node out of a cycle.\<close>

lemma linked_unbind:
  assumes "linked nx pv a (xs @ x # ys) b" "distinct (xs @ x # ys)"
    "a \<notin> set (xs @ x # ys)" "b \<notin> set (xs @ x # ys)"
  shows "linked (nx(x := x, pv x := nx x)) (pv(x := x, nx x := pv x)) a (xs @ ys) b"
proof -
  have l: "linked nx pv a xs x" and r: "linked nx pv x ys b"
    using assms(1) by (simp_all add: linked_append)
  let ?p = "last (a # xs)" and ?n = "hd (ys @ [b])"
  have p: "pv x = ?p" and n: "nx x = ?n" using linked_last [OF l] linked_first [OF r] by simp_all
  let ?nx = "nx(x := x, ?p := ?n)" and ?pv = "pv(x := x, ?n := ?p)"
  have px: "?p \<in> set (a # xs)" using last_in_set [of "a # xs"] by blast
  have nx: "?n \<in> set (ys @ [b])" using hd_in_set [of "ys @ [b]"] by blast
  have left: "linked (nx(?p := ?n)) (pv(?n := ?p)) a xs ?n"
    using assms(2-4) nx by (intro linked_redirect [OF l]) auto
  have left': "linked ?nx ?pv a xs ?n"
    by (rule linked_cong [OF left]) (use assms(2-4) px nx in auto)
  show ?thesis
  proof (cases ys)
    case Nil
    then show ?thesis using left' by (simp add: p n)
  next
    case (Cons y zs)
    then have "linked nx pv y zs b" using r by simp
    then have "linked ?nx ?pv y zs b"
      by (rule linked_cong) (use assms(2-4) px Cons in auto)
    then show ?thesis using left' Cons by (simp add: p n linked_append)
  qed
qed

text \<open>Putting an unbound node at the front or at the back of a cycle.\<close>

lemma linked_push_front:
  assumes "linked nx pv a xs b" "distinct (x # xs)" "x \<noteq> a" "x \<noteq> b" "a \<notin> set xs" "b \<notin> set xs"
  shows "linked (nx(x := nx a, a := x)) (pv(x := a, nx a := x)) a (x # xs) b"
proof (cases xs)
  case Nil
  then show ?thesis using assms by auto
next
  case (Cons y ys)
  then have ya: "nx a = y" and "linked nx pv y ys b" using assms(1) by auto
  from this(2) have "linked (nx(x := nx a, a := x)) (pv(x := a, nx a := x)) y ys b"
    by (rule linked_cong) (use assms Cons ya in auto)
  then show ?thesis using assms ya Cons by auto
qed

lemma linked_push_back:
  assumes "linked nx pv a xs b" "distinct (x # xs)" "x \<noteq> a" "x \<noteq> b" "a \<notin> set xs" "b \<notin> set xs"
  shows "linked (nx(x := b, pv b := x)) (pv(x := pv b, b := x)) a (xs @ [x]) b"
proof -
  let ?p = "last (a # xs)"
  have p: "pv b = ?p" by (rule linked_last [OF assms(1)])
  have px: "?p \<in> set (a # xs)" using last_in_set [of "a # xs"] by blast
  have "linked (nx(?p := x)) (pv(x := ?p)) a xs x"
    using assms by (intro linked_redirect [OF assms(1)]) auto
  then have "linked (nx(x := b, ?p := x)) (pv(x := ?p, b := x)) a xs x"
    by (rule linked_cong) (use assms px in auto)
  then show ?thesis using assms px by (auto simp: p linked_append)
qed

section \<open>The array as two functions\<close>

definition nx_of :: "multi_cycle_list \<Rightarrow> nat \<Rightarrow> nat" where
  "nx_of ns i = nd_next (ns ! i)"

definition pv_of :: "multi_cycle_list \<Rightarrow> nat \<Rightarrow> nat" where
  "pv_of ns i = nd_prev (ns ! i)"

lemma mc_next_in: "i < length ns \<Longrightarrow> mc_next ns i = Some (nx_of ns i)"
  by (simp add: mc_next_def nx_of_def)

lemma mc_prev_in: "i < length ns \<Longrightarrow> mc_prev ns i = Some (pv_of ns i)"
  by (simp add: mc_prev_def pv_of_def)

lemma mc_set_next_in:
  assumes "i < length ns"
  obtains ns' where "mc_set_next ns i v = Some ns'" "length ns' = length ns"
    "nx_of ns' = (nx_of ns)(i := v)" "pv_of ns' = pv_of ns"
proof
  let ?ns = "ns[i := (ns ! i)\<lparr> nd_next := v \<rparr>]"
  show "mc_set_next ns i v = Some ?ns" using assms by (simp add: mc_set_next_def)
  show "nx_of ?ns = (nx_of ns)(i := v)" "pv_of ?ns = pv_of ns"
    using assms by (auto simp: nx_of_def pv_of_def fun_eq_iff nth_list_update)
qed simp

lemma mc_set_prev_in:
  assumes "i < length ns"
  obtains ns' where "mc_set_prev ns i v = Some ns'" "length ns' = length ns"
    "nx_of ns' = nx_of ns" "pv_of ns' = (pv_of ns)(i := v)"
proof
  let ?ns = "ns[i := (ns ! i)\<lparr> nd_prev := v \<rparr>]"
  show "mc_set_prev ns i v = Some ?ns" using assms by (simp add: mc_set_prev_def)
  show "nx_of ?ns = nx_of ns" "pv_of ?ns = (pv_of ns)(i := v)"
    using assms by (auto simp: nx_of_def pv_of_def fun_eq_iff nth_list_update)
qed simp

lemma mc_unbind_in:
  assumes "x < length ns" "nx_of ns x < length ns" "pv_of ns x < length ns"
  obtains ns' where "mc_unbind ns x = Some ns'" "length ns' = length ns"
    "nx_of ns' = (nx_of ns)(x := x, pv_of ns x := nx_of ns x)"
    "pv_of ns' = (pv_of ns)(x := x, nx_of ns x := pv_of ns x)"
proof -
  obtain n1 where n1: "mc_set_prev ns x x = Some n1" "length n1 = length ns"
    "nx_of n1 = nx_of ns" "pv_of n1 = (pv_of ns)(x := x)" using mc_set_prev_in assms(1) .
  obtain n2 where n2: "mc_set_next n1 x x = Some n2" "length n2 = length ns"
    "nx_of n2 = (nx_of ns)(x := x)" "pv_of n2 = (pv_of ns)(x := x)"
    using mc_set_next_in [of x n1 x] assms(1) n1 by auto
  obtain n3 where n3: "mc_set_prev n2 (nx_of ns x) (pv_of ns x) = Some n3" "length n3 = length ns"
    "nx_of n3 = (nx_of ns)(x := x)" "pv_of n3 = (pv_of ns)(x := x, nx_of ns x := pv_of ns x)"
    using mc_set_prev_in [of "nx_of ns x" n2 "pv_of ns x"] assms(2) n2 by auto
  obtain n4 where n4: "mc_set_next n3 (pv_of ns x) (nx_of ns x) = Some n4" "length n4 = length ns"
    "nx_of n4 = (nx_of ns)(x := x, pv_of ns x := nx_of ns x)"
    "pv_of n4 = (pv_of ns)(x := x, nx_of ns x := pv_of ns x)"
    using mc_set_next_in [of "pv_of ns x" n3 "nx_of ns x"] assms(3) n3 by auto
  have "mc_unbind ns x = Some n4"
    using n1(1) n2(1) n3(1) n4(1) assms(1) by (simp add: mc_unbind_def mc_next_in mc_prev_in)
  then show ?thesis using that n4 by blast
qed

lemma mc_move_after_in:
  assumes "mc_unbind ns x = Some n0" "x < length n0" "p < length n0" "nx_of n0 p < length n0"
  obtains ns' where "mc_move_after ns x p = Some ns'" "length ns' = length n0"
    "nx_of ns' = (nx_of n0)(x := nx_of n0 p, p := x)"
    "pv_of ns' = (pv_of n0)(x := p, nx_of n0 p := x)"
proof -
  obtain n1 where n1: "mc_set_next n0 x (nx_of n0 p) = Some n1" "length n1 = length n0"
    "nx_of n1 = (nx_of n0)(x := nx_of n0 p)" "pv_of n1 = pv_of n0"
    using mc_set_next_in assms(2) .
  obtain n2 where n2: "mc_set_prev n1 x p = Some n2" "length n2 = length n0"
    "nx_of n2 = (nx_of n0)(x := nx_of n0 p)" "pv_of n2 = (pv_of n0)(x := p)"
    using mc_set_prev_in [of x n1 p] assms(2) n1 by auto
  obtain n3 where n3: "mc_set_prev n2 (nx_of n0 p) x = Some n3" "length n3 = length n0"
    "nx_of n3 = (nx_of n0)(x := nx_of n0 p)" "pv_of n3 = (pv_of n0)(x := p, nx_of n0 p := x)"
    using mc_set_prev_in [of "nx_of n0 p" n2 x] assms(4) n2 by auto
  obtain n4 where n4: "mc_set_next n3 p x = Some n4" "length n4 = length n0"
    "nx_of n4 = (nx_of n0)(x := nx_of n0 p, p := x)"
    "pv_of n4 = (pv_of n0)(x := p, nx_of n0 p := x)"
    using mc_set_next_in [of p n3 x] assms(3) n3 by auto
  have "mc_move_after ns x p = Some n4"
    using n1(1) n2(1) n3(1) n4(1) assms(1,3) by (simp add: mc_move_after_def mc_next_in)
  then show ?thesis using that n4 by blast
qed

lemma mc_move_before_in:
  assumes "mc_unbind ns x = Some n0" "x < length n0" "n < length n0" "pv_of n0 n < length n0"
  obtains ns' where "mc_move_before ns x n = Some ns'" "length ns' = length n0"
    "nx_of ns' = (nx_of n0)(x := n, pv_of n0 n := x)"
    "pv_of ns' = (pv_of n0)(x := pv_of n0 n, n := x)"
proof -
  obtain n1 where n1: "mc_set_next n0 x n = Some n1" "length n1 = length n0"
    "nx_of n1 = (nx_of n0)(x := n)" "pv_of n1 = pv_of n0"
    using mc_set_next_in assms(2) .
  obtain n2 where n2: "mc_set_prev n1 x (pv_of n0 n) = Some n2" "length n2 = length n0"
    "nx_of n2 = (nx_of n0)(x := n)" "pv_of n2 = (pv_of n0)(x := pv_of n0 n)"
    using mc_set_prev_in [of x n1 "pv_of n0 n"] assms(2) n1 by auto
  obtain n3 where n3: "mc_set_prev n2 n x = Some n3" "length n3 = length n0"
    "nx_of n3 = (nx_of n0)(x := n)" "pv_of n3 = (pv_of n0)(x := pv_of n0 n, n := x)"
    using mc_set_prev_in [of n n2 x] assms(3) n2 by auto
  obtain n4 where n4: "mc_set_next n3 (pv_of n0 n) x = Some n4" "length n4 = length n0"
    "nx_of n4 = (nx_of n0)(x := n, pv_of n0 n := x)"
    "pv_of n4 = (pv_of n0)(x := pv_of n0 n, n := x)"
    using mc_set_next_in [of "pv_of n0 n" n3 x] assms(4) n3 by auto
  have "mc_move_before ns x n = Some n4"
    using n1(1) n2(1) n3(1) n4(1) assms(1,3) by (simp add: mc_move_before_def mc_prev_in)
  then show ?thesis using that n4 by blast
qed

section \<open>The representation of a family of queues\<close>

text \<open>
  \<open>mq_rep q C N f\<close>: class \<open>c\<close> of \<open>q\<close> holds the entries \<open>f c\<close> from front to back, and every
  other entry is linked to itself. The number of classes is a \<open>u8\<close>.
\<close>

definition class_nodes :: "nat \<Rightarrow> nat list \<Rightarrow> nat list" where
  "class_nodes C es = map ((+) C) es"

definition queues_wf :: "nat \<Rightarrow> nat \<Rightarrow> (nat \<Rightarrow> nat list) \<Rightarrow> bool" where
  "queues_wf C N f \<longleftrightarrow>
     (\<forall>c < C. distinct (f c) \<and> set (f c) \<subseteq> {..<N}) \<and>
     (\<forall>c < C. \<forall>d < C. c \<noteq> d \<longrightarrow> set (f c) \<inter> set (f d) = {})"

definition links_rep :: "(nat \<Rightarrow> nat) \<Rightarrow> (nat \<Rightarrow> nat) \<Rightarrow> nat \<Rightarrow> nat \<Rightarrow> (nat \<Rightarrow> nat list) \<Rightarrow> bool" where
  "links_rep nx pv C N f \<longleftrightarrow>
     (\<forall>c < C. linked nx pv c (class_nodes C (f c)) c) \<and>
     (\<forall>e < N. (\<forall>c < C. e \<notin> set (f c)) \<longrightarrow> nx (C + e) = C + e \<and> pv (C + e) = C + e)"

definition nodes_rep :: "multi_cycle_list \<Rightarrow> nat \<Rightarrow> nat \<Rightarrow> (nat \<Rightarrow> nat list) \<Rightarrow> bool" where
  "nodes_rep ns C N f \<longleftrightarrow> length ns = C + N \<and> C + N \<le> 256 \<and> queues_wf C N f \<and>
     links_rep (nx_of ns) (pv_of ns) C N f"

definition mq_rep :: "multi_class_queue \<Rightarrow> nat \<Rightarrow> nat \<Rightarrow> (nat \<Rightarrow> nat list) \<Rightarrow> bool" where
  "mq_rep q C N f \<longleftrightarrow> mq_classes q = C \<and> C < 256 \<and> mq_entries q = N \<and> nodes_rep (mq_nodes q) C N f"

lemma mq_rep_offset [simp]: "mq_rep q C N f \<Longrightarrow> mq_ENTRY_OFFSET q = C"
  by (auto simp: mq_rep_def mq_ENTRY_OFFSET_def)

text \<open>Removing an entry from whatever class it is in.\<close>

definition without :: "nat \<Rightarrow> (nat \<Rightarrow> nat list) \<Rightarrow> nat \<Rightarrow> nat list" where
  "without e f c = removeAll e (f c)"

lemma set_without [simp]: "set (without e f c) = set (f c) - {e}"
  by (simp add: without_def)

lemma distinct_without [simp]: "distinct (f c) \<Longrightarrow> distinct (without e f c)"
  by (simp add: without_def distinct_removeAll)

lemma without_absent: "e \<notin> set (f c) \<Longrightarrow> without e f c = f c"
  by (simp add: without_def)

lemma queues_wf_without: "queues_wf C N f \<Longrightarrow> queues_wf C N (without e f)"
  by (simp add: queues_wf_def) blast

lemma queues_wf_insert:
  assumes "queues_wf C N f" "e < N" "set es = insert e (set (f c))" "distinct es"
    "\<forall>d < C. e \<notin> set (f d)"
  shows "queues_wf C N (f(c := es))"
  using assms by (auto simp: queues_wf_def)

lemma set_class_nodes [simp]: "set (class_nodes C es) = (+) C ` set es"
  by (simp add: class_nodes_def)

lemma class_nodes_simps [simp]:
  "class_nodes C [] = []" "class_nodes C (e # es) = (C + e) # class_nodes C es"
  "class_nodes C (es @ es') = class_nodes C es @ class_nodes C es'"
  by (simp_all add: class_nodes_def)

lemma distinct_class_nodes [simp]: "distinct (class_nodes C es) = distinct es"
  by (simp add: class_nodes_def distinct_map inj_on_def)

lemma linked_bounds:
  assumes "linked nx pv a xs b" "i \<in> set xs"
  shows "nx i \<in> set (xs @ [b]) \<and> pv i \<in> set (a # xs)"
  using assms
proof (induction xs arbitrary: a)
  case (Cons x xs)
  then show ?case using linked_first [of nx pv x xs b]
    by (cases xs) auto
qed simp

lemma links_rep_bounds:
  assumes "links_rep nx pv C N f" "queues_wf C N f" "i < C + N"
  shows "nx i < C + N \<and> pv i < C + N"
proof -
  have ends: "x < C + N" if "c < C" "x \<in> set (c # class_nodes C (f c) @ [c])" for c x
  proof -
    have "set (f c) \<subseteq> {..<N}" using assms(2) that(1) by (simp add: queues_wf_def)
    then show ?thesis using that by auto
  qed
  show ?thesis
  proof (cases "i < C")
    case True
    then have l: "linked nx pv i (class_nodes C (f i)) i" using assms(1) by (simp add: links_rep_def)
    have "hd (class_nodes C (f i) @ [i]) \<in> set (class_nodes C (f i) @ [i])"
      "last (i # class_nodes C (f i)) \<in> set (i # class_nodes C (f i))"
      using hd_in_set last_in_set by blast+
    then show ?thesis using ends [OF True] linked_first [OF l] linked_last [OF l] by auto
  next
    case False
    then obtain e where e: "i = C + e" "e < N"
      using assms(3) by (metis add_diff_inverse_nat nat_add_left_cancel_less)
    show ?thesis
    proof (cases "\<forall>c < C. e \<notin> set (f c)")
      case True
      then show ?thesis using assms(1) e by (simp add: links_rep_def)
    next
      case False
      then obtain c where c: "c < C" "e \<in> set (f c)" by blast
      then have l: "linked nx pv c (class_nodes C (f c)) c" using assms(1) by (simp add: links_rep_def)
      have "i \<in> set (class_nodes C (f c))" using c e by simp
      from linked_bounds [OF l this] show ?thesis using ends [OF c(1)] by auto
    qed
  qed
qed

lemma links_rep_unbind:
  assumes "links_rep nx pv C N f" "queues_wf C N f" "e < N"
  shows "links_rep (nx(C + e := C + e, pv (C + e) := nx (C + e)))
    (pv(C + e := C + e, nx (C + e) := pv (C + e))) C N (without e f)"
proof (cases "\<forall>c < C. e \<notin> set (f c)")
  case True
  then have self: "nx (C + e) = C + e" "pv (C + e) = C + e"
    using assms(1,3) by (simp_all add: links_rep_def)
  have "nx(C + e := C + e, C + e := C + e) = nx" "pv(C + e := C + e, C + e := C + e) = pv"
    using self by auto
  then show ?thesis using assms(1) True self by (simp add: links_rep_def without_absent)
next
  case False
  then obtain c where c: "c < C" "e \<in> set (f c)" by blast
  then obtain es es' where fc: "f c = es @ e # es'" by (meson split_list)
  let ?x = "C + e" and ?xs = "class_nodes C (f c)"
  have wf: "distinct (f c)" "set (f c) \<subseteq> {..<N}"
    and disj: "\<And>d. d < C \<Longrightarrow> d \<noteq> c \<Longrightarrow> set (f d) \<inter> set (f c) = {}"
    using assms(2) c(1) by (auto simp: queues_wf_def)
  have l: "linked nx pv c ?xs c" using assms(1) c(1) by (simp add: links_rep_def)
  have x_in: "?x \<in> set ?xs" using c(2) by simp
  note b = linked_bounds [OF l x_in]
  have l1: "linked nx pv c (class_nodes C es) ?x" and l2: "linked nx pv ?x (class_nodes C es') c"
    using l by (simp_all add: fc linked_append)
  have "last (c # class_nodes C es) \<in> set (c # class_nodes C es)"
    "hd (class_nodes C es' @ [c]) \<in> set (class_nodes C es' @ [c])"
    using last_in_set hd_in_set by blast+
  then have ne: "pv ?x \<noteq> ?x" "nx ?x \<noteq> ?x"
    using linked_last [OF l1] linked_first [OF l2] c(1) wf(1) by (auto simp: fc)
  let ?nx = "nx(?x := ?x, pv ?x := nx ?x)" and ?pv = "pv(?x := ?x, nx ?x := pv ?x)"
  have changed: "pv ?x \<in> insert c (set ?xs)" "nx ?x \<in> insert c (set ?xs)" using b by auto
  have own: "linked ?nx ?pv c (class_nodes C (without e f c)) c"
  proof -
    have "without e f c = es @ es'" using wf(1) by (simp add: without_def fc)
    moreover have "linked ?nx ?pv c (class_nodes C es @ class_nodes C es') c"
      using l wf(1) c(1) by (intro linked_unbind) (auto simp: fc)
    ultimately show ?thesis by simp
  qed
  have same: "?nx i = nx i \<and> ?pv i = pv i" if "i \<notin> insert c (set ?xs)" for i
    using that changed x_in by (metis fun_upd_other insertCI)
  have other: "linked ?nx ?pv d (class_nodes C (without e f d)) d" if "d < C" "d \<noteq> c" for d
  proof -
    have e: "e \<notin> set (f d)" using disj [OF that] c(2) by blast
    have nodes: "i \<notin> insert c (set ?xs)" if "i \<in> set (d # class_nodes C (f d) @ [d])" for i
      using that disj [OF \<open>d < C\<close> \<open>d \<noteq> c\<close>] \<open>d < C\<close> \<open>d \<noteq> c\<close> c(1) by auto
    have "linked nx pv d (class_nodes C (f d)) d" using assms(1) that by (simp add: links_rep_def)
    then show ?thesis unfolding without_absent [where f = f, OF e]
      by (rule linked_cong) (use same nodes in auto)
  qed
  have free: "?nx (C + k) = C + k \<and> ?pv (C + k) = C + k"
    if "k < N" "\<forall>d < C. k \<notin> set (without e f d)" for k
  proof (cases "k = e")
    case True
    then show ?thesis using ne by simp
  next
    case False
    then have k: "\<forall>d < C. k \<notin> set (f d)" using that(2) by simp
    then have "C + k \<notin> insert c (set ?xs)" using c(1) by auto
    then have "?nx (C + k) = nx (C + k) \<and> ?pv (C + k) = pv (C + k)" by (rule same)
    then show ?thesis using assms(1) that(1) k by (auto simp: links_rep_def)
  qed
  show ?thesis unfolding links_rep_def using own other free by (metis (no_types, lifting))
qed

lemma links_rep_push:
  assumes "links_rep nx pv C N f" "queues_wf C N f" "e < N" "c < C" "\<forall>d < C. e \<notin> set (f d)"
    "linked nx' pv' c (class_nodes C es) c" "set es = insert e (set (f c))"
    "\<And>i. i \<notin> insert (C + e) (insert c (set (class_nodes C (f c)))) \<Longrightarrow>
      nx' i = nx i \<and> pv' i = pv i"
  shows "links_rep nx' pv' C N (f(c := es))"
  unfolding links_rep_def
proof (intro conjI allI impI)
  fix d assume d: "d < C"
  show "linked nx' pv' d (class_nodes C ((f(c := es)) d)) d"
  proof (cases "d = c")
    case False
    have "set (f d) \<inter> set (f c) = {}" using assms(2,4) d False by (simp add: queues_wf_def)
    then have nodes: "i \<notin> insert (C + e) (insert c (set (class_nodes C (f c))))"
      if "i \<in> set (d # class_nodes C (f d) @ [d])" for i
      using that d False assms(4,5) by auto
    have "linked nx pv d (class_nodes C (f d)) d" using assms(1) d by (simp add: links_rep_def)
    then have "linked nx' pv' d (class_nodes C (f d)) d"
      by (rule linked_cong) (use assms(8) nodes in auto)
    then show ?thesis using False by simp
  qed (use assms(6) in simp)
next
  fix k assume k: "k < N" "\<forall>d < C. k \<notin> set ((f(c := es)) d)"
  then have "k \<notin> set es" using assms(4) by (metis fun_upd_same)
  then have ke: "k \<noteq> e" "k \<notin> set (f c)" using assms(7) by auto
  then have "\<forall>d < C. k \<notin> set (f d)" using k(2) by (metis fun_upd_other)
  then have self: "nx (C + k) = C + k \<and> pv (C + k) = C + k"
    using assms(1) k(1) by (simp add: links_rep_def)
  have "C + k \<notin> insert (C + e) (insert c (set (class_nodes C (f c))))" using ke assms(4) by auto
  with self show "nx' (C + k) = C + k" "pv' (C + k) = C + k" using assms(8) by auto
qed

lemma nodes_rep_unbind:
  assumes "nodes_rep ns C N f" "e < N"
  obtains ns' where "mc_unbind ns (C + e) = Some ns'" "nodes_rep ns' C N (without e f)"
proof -
  have rep: "length ns = C + N" "C + N \<le> 256" "queues_wf C N f"
    "links_rep (nx_of ns) (pv_of ns) C N f" using assms(1) by (simp_all add: nodes_rep_def)
  have x: "C + e < C + N" using assms(2) by simp
  note b = links_rep_bounds [OF rep(4,3) x]
  obtain ns' where ns': "mc_unbind ns (C + e) = Some ns'" "length ns' = length ns"
    "nx_of ns' = (nx_of ns)(C + e := C + e, pv_of ns (C + e) := nx_of ns (C + e))"
    "pv_of ns' = (pv_of ns)(C + e := C + e, nx_of ns (C + e) := pv_of ns (C + e))"
    using mc_unbind_in [of "C + e" ns] b x rep(1) by auto
  have "nodes_rep ns' C N (without e f)"
    unfolding nodes_rep_def ns'(3,4) using rep queues_wf_without links_rep_unbind assms(2) ns'(2)
    by metis
  with ns'(1) show ?thesis using that by blast
qed

lemma nodes_rep_move_after:
  assumes "nodes_rep ns C N f" "e < N" "c < C"
  obtains ns' where "mc_move_after ns (C + e) c = Some ns'"
    "nodes_rep ns' C N ((without e f)(c := e # without e f c))"
proof -
  let ?g = "without e f"
  obtain n0 where n0: "mc_unbind ns (C + e) = Some n0" "nodes_rep n0 C N ?g"
    using nodes_rep_unbind [OF assms(1,2)] .
  have rep: "length n0 = C + N" "C + N \<le> 256" "queues_wf C N ?g"
    "links_rep (nx_of n0) (pv_of n0) C N ?g" using n0(2) by (simp_all add: nodes_rep_def)
  have len: "C + e < length n0" "c < length n0" "nx_of n0 c < length n0"
    using links_rep_bounds [OF rep(4,3), of c] assms(2,3) rep(1) by simp_all
  obtain ns' where ns': "mc_move_after ns (C + e) c = Some ns'" "length ns' = length n0"
    "nx_of ns' = (nx_of n0)(C + e := nx_of n0 c, c := C + e)"
    "pv_of ns' = (pv_of n0)(C + e := c, nx_of n0 c := C + e)"
    using mc_move_after_in [OF n0(1) len] .
  have wf: "distinct (?g c)" using rep(3) assms(3) by (simp add: queues_wf_def)
  have l: "linked (nx_of n0) (pv_of n0) c (class_nodes C (?g c)) c"
    using rep(4) assms(3) by (simp add: links_rep_def)
  have "nx_of n0 c \<in> insert c (set (class_nodes C (?g c)))"
    using linked_first [OF l] hd_in_set [of "class_nodes C (?g c) @ [c]"] by auto
  moreover have "linked (nx_of ns') (pv_of ns') c ((C + e) # class_nodes C (?g c)) c"
    unfolding ns'(3,4) using l wf assms(3) by (intro linked_push_front) auto
  ultimately have "links_rep (nx_of ns') (pv_of ns') C N (?g(c := e # ?g c))"
    by (intro links_rep_push [OF rep(4,3) assms(2,3)]) (auto simp: ns'(3,4))
  moreover have "queues_wf C N (?g(c := e # ?g c))"
    using wf by (intro queues_wf_insert [OF rep(3) assms(2)]) auto
  ultimately show ?thesis using that ns'(1,2) rep(1,2) by (simp add: nodes_rep_def)
qed

lemma nodes_rep_move_before:
  assumes "nodes_rep ns C N f" "e < N" "c < C"
  obtains ns' where "mc_move_before ns (C + e) c = Some ns'"
    "nodes_rep ns' C N ((without e f)(c := without e f c @ [e]))"
proof -
  let ?g = "without e f"
  obtain n0 where n0: "mc_unbind ns (C + e) = Some n0" "nodes_rep n0 C N ?g"
    using nodes_rep_unbind [OF assms(1,2)] .
  have rep: "length n0 = C + N" "C + N \<le> 256" "queues_wf C N ?g"
    "links_rep (nx_of n0) (pv_of n0) C N ?g" using n0(2) by (simp_all add: nodes_rep_def)
  have len: "C + e < length n0" "c < length n0" "pv_of n0 c < length n0"
    using links_rep_bounds [OF rep(4,3), of c] assms(2,3) rep(1) by simp_all
  obtain ns' where ns': "mc_move_before ns (C + e) c = Some ns'" "length ns' = length n0"
    "nx_of ns' = (nx_of n0)(C + e := c, pv_of n0 c := C + e)"
    "pv_of ns' = (pv_of n0)(C + e := pv_of n0 c, c := C + e)"
    using mc_move_before_in [OF n0(1) len] .
  have wf: "distinct (?g c)" using rep(3) assms(3) by (simp add: queues_wf_def)
  have l: "linked (nx_of n0) (pv_of n0) c (class_nodes C (?g c)) c"
    using rep(4) assms(3) by (simp add: links_rep_def)
  have "pv_of n0 c \<in> insert c (set (class_nodes C (?g c)))"
    using linked_last [OF l] last_in_set [of "c # class_nodes C (?g c)"] by auto
  moreover have "linked (nx_of ns') (pv_of ns') c (class_nodes C (?g c) @ [C + e]) c"
    unfolding ns'(3,4) using l wf assms(3) by (intro linked_push_back) auto
  ultimately have "links_rep (nx_of ns') (pv_of ns') C N (?g(c := ?g c @ [e]))"
    by (intro links_rep_push [OF rep(4,3) assms(2,3)]) (auto simp: ns'(3,4))
  moreover have "queues_wf C N (?g(c := ?g c @ [e]))"
    using wf by (intro queues_wf_insert [OF rep(3) assms(2)]) auto
  ultimately show ?thesis using that ns'(1,2) rep(1,2) by (simp add: nodes_rep_def)
qed

section \<open>The laws of the queue operations\<close>

lemma mq_new_rep:
  assumes "C + N \<le> 256" "C < 256"
  obtains q where "mq_new C N = Some q" "mq_rep q C N (\<lambda>c. [])"
proof -
  let ?ns = "map (\<lambda>i. \<lparr> nd_next = i, nd_prev = i \<rparr>) [0..<C + N]"
  have self: "nx_of ?ns i = i \<and> pv_of ?ns i = i" if "i < C + N" for i
    using that by (simp add: nx_of_def pv_of_def del: upt_Suc)
  have "nodes_rep ?ns C N (\<lambda>c. [])"
    using assms self by (simp add: nodes_rep_def queues_wf_def links_rep_def)
  then show ?thesis using that assms by (simp add: mq_new_def mc_new_def mq_rep_def)
qed

lemma mq_front_rep:
  assumes "mq_rep q C N f" "c < C"
  shows "mq_front q c = Some (if f c = [] then None else Some (hd (f c)))"
proof -
  have len: "c < length (mq_nodes q)" and C: "mq_classes q = C"
    and l: "linked (nx_of (mq_nodes q)) (pv_of (mq_nodes q)) c (class_nodes C (f c)) c"
    using assms by (simp_all add: mq_rep_def nodes_rep_def links_rep_def)
  show ?thesis using linked_first [OF l] assms(2) len C mq_rep_offset [OF assms(1)]
    by (cases "f c") (simp_all add: mq_front_def mc_next_in checked_sub_def)
qed

lemma mq_back_rep:
  assumes "mq_rep q C N f" "c < C"
  shows "mq_back q c = Some (if f c = [] then None else Some (last (f c)))"
proof -
  have len: "c < length (mq_nodes q)" and C: "mq_classes q = C"
    and l: "linked (nx_of (mq_nodes q)) (pv_of (mq_nodes q)) c (class_nodes C (f c)) c"
    using assms by (simp_all add: mq_rep_def nodes_rep_def links_rep_def)
  show ?thesis using linked_last [OF l] assms(2) len C mq_rep_offset [OF assms(1)]
    by (cases "f c" rule: rev_cases) (simp_all add: mq_back_def mc_prev_in checked_sub_def)
qed

lemma mq_is_empty_rep:
  "mq_rep q C N f \<Longrightarrow> c < C \<Longrightarrow> mq_is_empty q c = Some (f c = [])"
  using mq_front_rep [of q C N f c] by (simp add: mq_is_empty_def mq_rep_def)

text \<open>The class at whose front or back an entry is.\<close>

lemma queues_wf_class_of:
  assumes "queues_wf C N f" "c < C" "e \<in> set (f c)" "P c"
    and "\<And>d. d < C \<Longrightarrow> P d \<Longrightarrow> e \<in> set (f d)"
  shows "find P [0..<C] = Some c"
proof -
  have only: "d = c" if "d < C" "P d" for d
    using assms(1-3) assms(5) [OF that] that(1) unfolding queues_wf_def by blast
  have "\<not> P j" if "j < c" for j using only [of j] that assms(2) by auto
  then have "c < length [0..<C] \<and> P ([0..<C] ! c) \<and> c = [0..<C] ! c \<and> (\<forall>j<c. \<not> P ([0..<C] ! j))"
    using assms(2,4) by simp
  then show ?thesis unfolding find_Some_iff by blast
qed

lemma find_no_class: "(\<And>c. c < C \<Longrightarrow> \<not> P c) \<Longrightarrow> find P [0..<C] = None"
  by (auto simp: find_None_iff)

lemma mq_is_front_rep:
  assumes "mq_rep q C N f" "e < N"
  shows "mq_is_front q e = Some (find (\<lambda>c. f c \<noteq> [] \<and> hd (f c) = e) [0..<C])"
proof -
  let ?P = "\<lambda>c. f c \<noteq> [] \<and> hd (f c) = e"
  have len: "length (mq_nodes q) = C + N" "C + N \<le> 256" and wf: "queues_wf C N f"
    and rep: "links_rep (nx_of (mq_nodes q)) (pv_of (mq_nodes q)) C N f"
    and N: "mq_entries q = N" using assms(1) by (simp_all add: mq_rep_def nodes_rep_def)
  have eval: "mq_is_front q e = Some (if pv_of (mq_nodes q) (C + e) < C
      then Some (pv_of (mq_nodes q) (C + e)) else None)"
    using assms(2) N len mq_rep_offset [OF assms(1)] by (simp add: mq_is_front_def mc_prev_in)
  show ?thesis
  proof (cases "\<exists>c < C. e \<in> set (f c)")
    case True
    then obtain c es es' where c: "c < C" "f c = es @ e # es'" by (metis split_list)
    have "linked (nx_of (mq_nodes q)) (pv_of (mq_nodes q)) c (class_nodes C es) (C + e)"
      using rep c unfolding links_rep_def by (metis class_nodes_simps(2,3) linked_append)
    then have pv: "pv_of (mq_nodes q) (C + e) = last (c # class_nodes C es)" by (rule linked_last)
    show ?thesis
    proof (cases es)
      case Nil
      then have "find ?P [0..<C] = Some c" using c by (intro queues_wf_class_of [OF wf c(1)]) auto
      then show ?thesis using eval pv Nil c(1) by simp
    next
      case (Cons x xs)
      then have "last (c # class_nodes C es) \<ge> C"
        using last_in_set [of "class_nodes C es"] by auto
      moreover have "\<not> ?P d" if "d < C" for d
      proof
        assume d: "?P d"
        then have "d = c" using wf c that unfolding queues_wf_def
          by (metis Un_iff disjoint_iff hd_in_set list.set_intros(1) set_append)
        then show False using d c(2) Cons wf c(1) by (auto simp: queues_wf_def)
      qed
      ultimately show ?thesis using eval pv find_no_class [of C ?P] by simp
    qed
  next
    case False
    then have "pv_of (mq_nodes q) (C + e) = C + e" using rep assms(2) by (simp add: links_rep_def)
    moreover have "\<not> ?P d" if "d < C" for d using False that by (auto intro: hd_in_set)
    ultimately show ?thesis using eval find_no_class [of C ?P] by simp
  qed
qed

lemma mq_is_back_rep:
  assumes "mq_rep q C N f" "e < N"
  shows "mq_is_back q e = Some (find (\<lambda>c. f c \<noteq> [] \<and> last (f c) = e) [0..<C])"
proof -
  let ?P = "\<lambda>c. f c \<noteq> [] \<and> last (f c) = e"
  have len: "length (mq_nodes q) = C + N" "C + N \<le> 256" and wf: "queues_wf C N f"
    and rep: "links_rep (nx_of (mq_nodes q)) (pv_of (mq_nodes q)) C N f"
    and N: "mq_entries q = N" using assms(1) by (simp_all add: mq_rep_def nodes_rep_def)
  have eval: "mq_is_back q e = Some (if nx_of (mq_nodes q) (C + e) < C
      then Some (nx_of (mq_nodes q) (C + e)) else None)"
    using assms(2) N len mq_rep_offset [OF assms(1)] by (simp add: mq_is_back_def mc_next_in)
  show ?thesis
  proof (cases "\<exists>c < C. e \<in> set (f c)")
    case True
    then obtain c es es' where c: "c < C" "f c = es @ e # es'" by (metis split_list)
    have "linked (nx_of (mq_nodes q)) (pv_of (mq_nodes q)) (C + e) (class_nodes C es') c"
      using rep c unfolding links_rep_def by (metis class_nodes_simps(2,3) linked_append)
    then have nx: "nx_of (mq_nodes q) (C + e) = hd (class_nodes C es' @ [c])" by (rule linked_first)
    show ?thesis
    proof (cases es')
      case Nil
      then have "find ?P [0..<C] = Some c" using c by (intro queues_wf_class_of [OF wf c(1)]) auto
      then show ?thesis using eval nx Nil c(1) by simp
    next
      case (Cons x xs)
      then have "\<not> hd (class_nodes C es' @ [c]) < C" by simp
      moreover have "\<not> ?P d" if "d < C" for d
      proof
        assume d: "?P d"
        then have "d = c" using wf c that unfolding queues_wf_def
          by (metis Un_iff disjoint_iff last_in_set list.set_intros(1) set_append)
        then have "last es' = e" "es' \<noteq> []" using d c(2) Cons by simp_all
        then have "e \<in> set es'" using last_in_set by blast
        then show False using c wf by (auto simp: queues_wf_def)
      qed
      ultimately show ?thesis using eval nx find_no_class [of C ?P] by simp
    qed
  next
    case False
    then have "nx_of (mq_nodes q) (C + e) = C + e" using rep assms(2) by (simp add: links_rep_def)
    moreover have "\<not> ?P d" if "d < C" for d using False that by (auto intro: last_in_set)
    ultimately show ?thesis using eval find_no_class [of C ?P] by simp
  qed
qed

lemma mq_remove_rep:
  assumes "mq_rep q C N f" "e < N"
  obtains q' where "mq_remove q e = Some q'" "mq_rep q' C N (without e f)"
proof -
  have rep: "mq_classes q = C" "C < 256" "mq_entries q = N" "nodes_rep (mq_nodes q) C N f"
    using assms(1) by (simp_all add: mq_rep_def)
  obtain ns' where "mc_unbind (mq_nodes q) (C + e) = Some ns'" "nodes_rep ns' C N (without e f)"
    using nodes_rep_unbind [OF rep(4) assms(2)] .
  moreover have "C + e < 256" using rep(4) assms(2) by (simp add: nodes_rep_def)
  ultimately show ?thesis using that rep mq_rep_offset [OF assms(1)] assms(2)
    by (simp add: mq_remove_def mq_rep_def)
qed

lemma mq_move_front_rep:
  assumes "mq_rep q C N f" "c < C" "e < N"
  obtains q' where "mq_move_front q c e = Some q'"
    "mq_rep q' C N ((without e f)(c := e # without e f c))"
proof -
  have rep: "mq_classes q = C" "C < 256" "mq_entries q = N" "nodes_rep (mq_nodes q) C N f"
    using assms(1) by (simp_all add: mq_rep_def)
  obtain ns' where "mc_move_after (mq_nodes q) (C + e) c = Some ns'"
    "nodes_rep ns' C N ((without e f)(c := e # without e f c))"
    using nodes_rep_move_after [OF rep(4) assms(3,2)] .
  moreover have "C + e < 256" using rep(4) assms(3) by (simp add: nodes_rep_def)
  ultimately show ?thesis using that rep mq_rep_offset [OF assms(1)] assms(2,3)
    by (simp add: mq_move_front_def mq_rep_def)
qed

lemma mq_move_back_rep:
  assumes "mq_rep q C N f" "c < C" "e < N"
  obtains q' where "mq_move_back q c e = Some q'"
    "mq_rep q' C N ((without e f)(c := without e f c @ [e]))"
proof -
  have rep: "mq_classes q = C" "C < 256" "mq_entries q = N" "nodes_rep (mq_nodes q) C N f"
    using assms(1) by (simp_all add: mq_rep_def)
  obtain ns' where "mc_move_before (mq_nodes q) (C + e) c = Some ns'"
    "nodes_rep ns' C N ((without e f)(c := without e f c @ [e]))"
    using nodes_rep_move_before [OF rep(4) assms(3,2)] .
  moreover have "C + e < 256" using rep(4) assms(3) by (simp add: nodes_rep_def)
  ultimately show ?thesis using that rep mq_rep_offset [OF assms(1)] assms(2,3)
    by (simp add: mq_move_back_def mq_rep_def)
qed

text \<open>
  With 256 classes, which the limits of the source allow when there are no entries, the offset
  is 0 and an empty class seems to hold an entry of its own number.
\<close>

lemma mq_all_classes:
  obtains q where "mq_new 256 0 = Some q"
    "\<And>c. c < 256 \<Longrightarrow> mq_front q c = Some (Some c) \<and> mq_back q c = Some (Some c) \<and>
      mq_is_empty q c = Some False"
proof
  let ?q = "\<lparr> mq_classes = 256, mq_entries = 0,
    mq_nodes = map (\<lambda>i. \<lparr> nd_next = i, nd_prev = i \<rparr>) [0..<256] \<rparr>"
  show "mq_new 256 0 = Some ?q" by (simp add: mq_new_def mc_new_def del: upt_rec_numeral upt_Suc)
  show "mq_front ?q c = Some (Some c) \<and> mq_back ?q c = Some (Some c) \<and>
      mq_is_empty ?q c = Some False" if "c < 256" for c
    using that by (simp add: mq_is_empty_def mq_front_def mq_back_def mc_next_def mc_prev_def
        mq_ENTRY_OFFSET_def checked_sub_def del: upt_rec_numeral upt_Suc)
qed

lemma mq_rep_wf: "mq_rep q C N f \<Longrightarrow> queues_wf C N f \<and> C + N \<le> 256"
  by (simp add: mq_rep_def nodes_rep_def)

section \<open>The interface\<close>

text \<open>
  What the clients rely on: \<open>rep q C N f\<close> relates a queue to the entries \<open>f c\<close> of each class,
  and every operation is described by its effect on \<open>f\<close>. An entry is in at most one class,
  and moving it takes it out of the class it was in.
\<close>

locale class_queue =
  fixes rep :: "'q \<Rightarrow> nat \<Rightarrow> nat \<Rightarrow> (nat \<Rightarrow> nat list) \<Rightarrow> bool"
    and front :: "'q \<Rightarrow> nat \<Rightarrow> nat option exec"
    and rear :: "'q \<Rightarrow> nat \<Rightarrow> nat option exec"
    and remove :: "'q \<Rightarrow> nat \<Rightarrow> 'q exec"
    and move_front :: "'q \<Rightarrow> nat \<Rightarrow> nat \<Rightarrow> 'q exec"
    and move_back :: "'q \<Rightarrow> nat \<Rightarrow> nat \<Rightarrow> 'q exec"
  assumes rep_wf: "rep q C N f \<Longrightarrow> queues_wf C N f"
    and front_rep: "rep q C N f \<Longrightarrow> c < C \<Longrightarrow>
      front q c = Some (if f c = [] then None else Some (hd (f c)))"
    and back_rep: "rep q C N f \<Longrightarrow> c < C \<Longrightarrow>
      rear q c = Some (if f c = [] then None else Some (last (f c)))"
    and remove_rep: "rep q C N f \<Longrightarrow> e < N \<Longrightarrow>
      \<exists>q'. remove q e = Some q' \<and> rep q' C N (without e f)"
    and move_front_rep: "rep q C N f \<Longrightarrow> c < C \<Longrightarrow> e < N \<Longrightarrow>
      \<exists>q'. move_front q c e = Some q' \<and> rep q' C N ((without e f)(c := e # without e f c))"
    and move_back_rep: "rep q C N f \<Longrightarrow> c < C \<Longrightarrow> e < N \<Longrightarrow>
      \<exists>q'. move_back q c e = Some q' \<and> rep q' C N ((without e f)(c := without e f c @ [e]))"
begin

text \<open>Every entry is in exactly one class: the state between the operations of a client.\<close>

definition complete :: "nat \<Rightarrow> nat \<Rightarrow> (nat \<Rightarrow> nat list) \<Rightarrow> bool" where
  "complete C N f \<longleftrightarrow> (\<forall>e < N. \<exists>c < C. e \<in> set (f c))"

lemma entry_unique:
  "rep q C N f \<Longrightarrow> c < C \<Longrightarrow> d < C \<Longrightarrow> e \<in> set (f c) \<Longrightarrow> e \<in> set (f d) \<Longrightarrow> c = d"
  using rep_wf [of q C N f] unfolding queues_wf_def by blast

lemma entry_less: "rep q C N f \<Longrightarrow> c < C \<Longrightarrow> e \<in> set (f c) \<Longrightarrow> e < N"
  using rep_wf [of q C N f] unfolding queues_wf_def by blast

lemma entries_distinct: "rep q C N f \<Longrightarrow> c < C \<Longrightarrow> distinct (f c)"
  using rep_wf [of q C N f] unfolding queues_wf_def by blast

text \<open>Taking the front entry of a class and appending it to another one.\<close>

lemma without_front:
  assumes "rep q C N f" "c < C" "f c = e # es" "d < C"
  shows "without e f d = (if d = c then es else f d)"
proof (cases "d = c")
  case True
  then have "e \<notin> set es" using entries_distinct [OF assms(1,2)] assms(3) by simp
  then show ?thesis using True assms(3) by (simp add: without_def)
next
  case False
  then have "e \<notin> set (f d)" using entry_unique [OF assms(1,2,4), of e] assms(3) by auto
  then show ?thesis using False by (simp add: without_absent)
qed

text \<open>The initialisation loop of the clients: all entries in one class.\<close>

lemma fill_class:
  assumes "rep q C N (\<lambda>d. [])" "c < C" "n \<le> N"
  shows "\<exists>q'. for_each (\<lambda>e q. move_back q c e) [0..<n] q = Some q' \<and>
    rep q' C N ((\<lambda>d. [])(c := [0..<n]))"
  using assms(3)
proof (induction n)
  case 0
  have "(\<lambda>d. [])(c := []) = (\<lambda>d. [])" by auto
  then show ?case using assms(1) by simp
next
  case (Suc n)
  then have n: "n < N" by simp
  obtain q1 where q1: "for_each (\<lambda>e q. move_back q c e) [0..<n] q = Some q1"
    "rep q1 C N ((\<lambda>d. [])(c := [0..<n]))"
    using Suc.IH [OF Suc_leD [OF Suc.prems]] by blast
  let ?f = "(\<lambda>d. [])(c := [0..<n])"
  obtain q2 where q2: "move_back q1 c n = Some q2"
    "rep q2 C N ((without n ?f)(c := without n ?f c @ [n]))"
    using move_back_rep [OF q1(2) assms(2) n] by blast
  have eq: "(without n ?f)(c := without n ?f c @ [n]) = (\<lambda>d. [])(c := [0..<Suc n])"
    by (rule ext) (simp add: without_def)
  have "for_each (\<lambda>e q. move_back q c e) [0..<Suc n] q = Some q2"
    using q1(1) q2(1) by (simp add: for_each_append)
  with q2(2) [unfolded eq] show ?case by blast
qed

end

interpretation mq: class_queue mq_rep mq_front mq_back mq_remove mq_move_front mq_move_back
proof
  fix q C N f c e
  assume rep: "mq_rep q C N f"
  show "queues_wf C N f" using mq_rep_wf [OF rep] by blast
  show "mq_front q c = Some (if f c = [] then None else Some (hd (f c)))" if "c < C"
    by (rule mq_front_rep [OF rep that])
  show "mq_back q c = Some (if f c = [] then None else Some (last (f c)))" if "c < C"
    by (rule mq_back_rep [OF rep that])
  show "\<exists>q'. mq_remove q e = Some q' \<and> mq_rep q' C N (without e f)" if "e < N"
    using mq_remove_rep [OF rep that] by blast
  show "\<exists>q'. mq_move_front q c e = Some q' \<and>
      mq_rep q' C N ((without e f)(c := e # without e f c))" if "c < C" "e < N"
    using mq_move_front_rep [OF rep that] by blast
  show "\<exists>q'. mq_move_back q c e = Some q' \<and>
      mq_rep q' C N ((without e f)(c := without e f c @ [e]))" if "c < C" "e < N"
    using mq_move_back_rep [OF rep that] by blast
qed

end
