(* ===== verification/Priority_Queue.thy ===== *)
theory Priority_Queue
  imports Multi_Queue Core_Types
begin

text \<open>
  \<open>emcyphal/src/utils/priority_queue.rs\<close> and the priority containers of
  \<open>emcyphal/src/utils.rs\<close>: a bounded queue with a FIFO per priority, the array and the map
  indexed by priorities, and the trigger that wakes a waiting task.
\<close>

section \<open>Arrays and maps over priorities\<close>

definition PRIORITY_LEVEL_COUNT :: nat where
  "PRIORITY_LEVEL_COUNT = level priority_MAX + 1"

type_synonym 'a priority_array = "'a list"

definition pa_index :: "'a priority_array \<Rightarrow> priority \<Rightarrow> 'a exec" where
  "pa_index a p = arr_get a (level p)"

definition pa_index_mut :: "'a priority_array \<Rightarrow> priority \<Rightarrow> 'a \<Rightarrow> 'a priority_array exec" where
  "pa_index_mut a p v = arr_set a (level p) v"

record 'v priority_map =
  pm_set :: priority_set
  pm_values :: "'v option list"

definition pm_new :: "'v priority_map" where
  "pm_new = \<lparr> pm_set = ps_NONE, pm_values = replicate PRIORITY_LEVEL_COUNT None \<rparr>"

definition pm_keys :: "'v priority_map \<Rightarrow> priority_set" where
  "pm_keys m = pm_set m"

definition pm_is_empty :: "'v priority_map \<Rightarrow> bool" where
  "pm_is_empty m \<longleftrightarrow> ps_is_empty (pm_set m)"

definition pm_insert :: "'v priority_map \<Rightarrow> priority \<Rightarrow> 'v \<Rightarrow> ('v option \<times> 'v priority_map) exec" where
  "pm_insert m key value = do {
     old \<leftarrow> arr_get (pm_values m) (level key);
     values \<leftarrow> arr_set (pm_values m) (level key) (Some value);
     ret (old, \<lparr> pm_set = ps_insert (pm_set m) key, pm_values = values \<rparr>)
   }"

definition pm_remove :: "'v priority_map \<Rightarrow> priority \<Rightarrow> ('v option \<times> 'v priority_map) exec" where
  "pm_remove m key = do {
     old \<leftarrow> arr_get (pm_values m) (level key);
     values \<leftarrow> arr_set (pm_values m) (level key) None;
     ret (old, \<lparr> pm_set = ps_remove (pm_set m) key, pm_values = values \<rparr>)
   }"

definition pm_index :: "'v priority_map \<Rightarrow> priority \<Rightarrow> 'v exec" where
  "pm_index m key = do { slot \<leftarrow> arr_get (pm_values m) (level key); unwrap slot }"

definition pm_index_mut :: "'v priority_map \<Rightarrow> priority \<Rightarrow> 'v \<Rightarrow> 'v priority_map exec" where
  "pm_index_mut m key value = do {
     slot \<leftarrow> arr_get (pm_values m) (level key);
     old \<leftarrow> unwrap slot;
     values \<leftarrow> arr_set (pm_values m) (level key) (Some value);
     ret (m\<lparr> pm_values := values \<rparr>)
   }"

text \<open>The map it represents.\<close>

definition pm_rep :: "'v priority_map \<Rightarrow> (priority \<rightharpoonup> 'v) \<Rightarrow> bool" where
  "pm_rep m f \<longleftrightarrow> length (pm_values m) = 8 \<and>
     (\<forall>p. pm_values m ! level p = f p \<and> (ps_contains (pm_set m) p \<longleftrightarrow> f p \<noteq> None))"

lemma level_count [simp]: "PRIORITY_LEVEL_COUNT = 8"
  by (simp add: PRIORITY_LEVEL_COUNT_def priority_MAX_def)

lemma pm_new_rep: "pm_rep pm_new (\<lambda>p. None)"
  by (simp add: pm_rep_def pm_new_def)

lemma pm_insert_rep:
  assumes "pm_rep m f"
  shows "\<exists>m'. pm_insert m p v = Some (f p, m') \<and> pm_rep m' (f(p \<mapsto> v))"
  using assms by (simp add: pm_insert_def pm_rep_def nth_list_update)

lemma pm_remove_rep:
  assumes "pm_rep m f"
  shows "\<exists>m'. pm_remove m p = Some (f p, m') \<and> pm_rep m' (f(p := None))"
  using assms by (simp add: pm_remove_def pm_rep_def nth_list_update)

lemma pm_index_rep: "pm_rep m f \<Longrightarrow> pm_index m p = f p"
  by (simp add: pm_index_def pm_rep_def)

lemma pm_index_mut_rep:
  assumes "pm_rep m f" "f p \<noteq> None"
  shows "\<exists>m'. pm_index_mut m p v = Some m' \<and> pm_rep m' (f(p \<mapsto> v))"
  using assms by (auto simp: pm_index_mut_def pm_rep_def nth_list_update)

lemma pm_keys_rep: "pm_rep m f \<Longrightarrow> ps_members (pm_keys m) = dom f"
  by (auto simp: pm_rep_def pm_keys_def ps_members_def)

lemma pm_is_empty_rep: "pm_rep m f \<Longrightarrow> pm_is_empty m \<longleftrightarrow> f = (\<lambda>p. None)"
  by (auto simp: pm_rep_def pm_is_empty_def ps_is_empty_iff fun_eq_iff)

section \<open>Triggers\<close>

text \<open>
  A \<open>WakerRegistration\<close> is a slot of the async runtime; what the code does with it is the
  sequence of its calls, newest first.
\<close>

datatype waker_call = RegisterWaker | WakeWaker

type_synonym waker_registration = "waker_call list"

record priority_trigger =
  pt_waker :: waker_registration
  pt_filter :: priority_set

definition pt_new :: priority_trigger where
  "pt_new = \<lparr> pt_waker = [], pt_filter = ps_NONE \<rparr>"

definition pt_register :: "priority_trigger \<Rightarrow> priority_set \<Rightarrow> priority_trigger" where
  "pt_register t flt = \<lparr> pt_waker = RegisterWaker # pt_waker t, pt_filter = flt \<rparr>"

definition pt_wake :: "priority_trigger \<Rightarrow> priority_set \<Rightarrow> priority_trigger" where
  "pt_wake t priorities =
     (if \<not> ps_is_empty (ps_and priorities (pt_filter t))
      then t\<lparr> pt_waker := WakeWaker # pt_waker t \<rparr> else t)"

text \<open>
  A task registered for some priorities is woken by every event of one of them: the newest call
  is the wake. An event of no registered priority wakes nobody.
\<close>

lemma pt_wake_registered:
  "ps_contains flt p \<Longrightarrow> ps_contains ps p \<Longrightarrow>
    pt_waker (pt_wake (pt_register t flt) ps) = WakeWaker # RegisterWaker # pt_waker t"
  by (auto simp: pt_wake_def pt_register_def ps_is_empty_iff)

section \<open>The priority queue\<close>

definition PRIORITY_CLASS :: nat where
  "PRIORITY_CLASS = 0"

definition pq_FREE_CLASS :: nat where
  "pq_FREE_CLASS = PRIORITY_CLASS + level priority_MAX + 1"

definition pq_CLASS_COUNT :: nat where
  "pq_CLASS_COUNT = pq_FREE_CLASS + 1"

definition pq_MAX_CAPACITY :: nat where
  "pq_MAX_CAPACITY = 255 + 1 - pq_CLASS_COUNT"

record 'v priority_queue =
  pq_entry_queue :: multi_class_queue
  pq_entry_values :: "'v option list"
  pq_priority_set :: priority_set

definition pq_new :: "nat \<Rightarrow> 'v priority_queue exec" where
  "pq_new N = do {
     queue \<leftarrow> mq_new pq_CLASS_COUNT N;
     queue \<leftarrow> for_each (\<lambda>i queue. do { entry \<leftarrow> u8_of i; mq_move_back queue pq_FREE_CLASS entry })
       [0..<N] queue;
     ret \<lparr> pq_entry_queue = queue, pq_entry_values = replicate N None, pq_priority_set = ps_NONE \<rparr>
   }"

definition pq_get_value :: "'v priority_queue \<Rightarrow> nat \<Rightarrow> 'v option exec" where
  "pq_get_value q entry = arr_get (pq_entry_values q) entry"

definition pq_push :: "'v priority_queue \<Rightarrow> priority \<Rightarrow> 'v \<Rightarrow> (('v + unit) \<times> 'v priority_queue) exec" where
  "pq_push q priority value = do {
     free \<leftarrow> mq_front (pq_entry_queue q) pq_FREE_CLASS;
     (case free of
        None \<Rightarrow> ret (Inl value, q)
      | Some entry \<Rightarrow> do {
          queue \<leftarrow> mq_move_back (pq_entry_queue q) (PRIORITY_CLASS + level priority) entry;
          values \<leftarrow> arr_set (pq_entry_values q) entry (Some value);
          ret (Inr (), \<lparr> pq_entry_queue = queue, pq_entry_values = values,
                        pq_priority_set = ps_insert (pq_priority_set q) priority \<rparr>)
        })
   }"

definition pq_pop :: "'v priority_queue \<Rightarrow> priority \<Rightarrow> ('v option \<times> 'v priority_queue) exec" where
  "pq_pop q priority = do {
     let class = PRIORITY_CLASS + level priority;
     front \<leftarrow> mq_front (pq_entry_queue q) class;
     (case front of
        None \<Rightarrow> ret (None, q)
      | Some entry \<Rightarrow> do {
          queue \<leftarrow> mq_move_back (pq_entry_queue q) pq_FREE_CLASS entry;
          empty \<leftarrow> mq_is_empty queue class;
          let priorities = (if empty then ps_remove (pq_priority_set q) priority
                            else pq_priority_set q);
          value \<leftarrow> arr_get (pq_entry_values q) entry;
          values \<leftarrow> arr_set (pq_entry_values q) entry None;
          ret (value, \<lparr> pq_entry_queue = queue, pq_entry_values = values,
                        pq_priority_set = priorities \<rparr>)
        })
   }"

definition pq_priorities :: "'v priority_queue \<Rightarrow> priority_set" where
  "pq_priorities q = pq_priority_set q"

definition pq_max_priority :: "'v priority_queue \<Rightarrow> priority option" where
  "pq_max_priority q = ps_last (pq_priority_set q)"

section \<open>A FIFO per priority\<close>

lemma pq_consts [simp]: "PRIORITY_CLASS = 0" "pq_FREE_CLASS = 8" "pq_CLASS_COUNT = 9"
  by (simp_all add: PRIORITY_CLASS_def pq_FREE_CLASS_def pq_CLASS_COUNT_def priority_MAX_def)

definition all_priorities :: "priority list" where
  "all_priorities = [Exceptional, Immediate, Fast, High, Nominal, Low, Slow, Optional]"

definition pq_size :: "(priority \<Rightarrow> 'v list) \<Rightarrow> nat" where
  "pq_size fifo = sum_list (map (\<lambda>p. length (fifo p)) all_priorities)"

lemma all_priorities [simp]: "p \<in> set all_priorities" "distinct all_priorities"
  by (cases p) (simp_all add: all_priorities_def)

lemma pq_size_update:
  "pq_size (fifo(p := xs)) + length (fifo p) = pq_size fifo + length xs"
  by (cases p) (simp_all add: pq_size_def all_priorities_def)

lemma pq_size_empty [simp]: "pq_size (\<lambda>p. []) = 0"
  by (simp add: pq_size_def all_priorities_def)

lemma pq_size_0: "pq_size fifo = 0 \<longleftrightarrow> (\<forall>p. fifo p = [])"
proof
  assume "pq_size fifo = 0"
  then have "\<forall>p \<in> set all_priorities. fifo p = []" by (simp add: pq_size_def)
  then show "\<forall>p. fifo p = []" by simp
qed (simp add: pq_size_def all_priorities_def)

text \<open>
  The queue of each class lists the entries whose values are the FIFO of its priority; the
  free entries and the queued ones are \<open>N\<close> together.
\<close>

definition pq_links ::
  "nat \<Rightarrow> 'v priority_queue \<Rightarrow> (nat \<Rightarrow> nat list) \<Rightarrow> (priority \<Rightarrow> 'v list) \<Rightarrow> bool" where
  "pq_links N q f fifo \<longleftrightarrow> mq_rep (pq_entry_queue q) 9 N f \<and> length (pq_entry_values q) = N \<and>
     (\<forall>p. map Some (fifo p) = map ((!) (pq_entry_values q)) (f (level p))) \<and>
     (\<forall>p. ps_contains (pq_priority_set q) p \<longleftrightarrow> fifo p \<noteq> []) \<and>
     pq_size fifo + length (f 8) = N"

definition pq_rep :: "nat \<Rightarrow> 'v priority_queue \<Rightarrow> (priority \<Rightarrow> 'v list) \<Rightarrow> bool" where
  "pq_rep N q fifo \<longleftrightarrow> (\<exists>f. pq_links N q f fifo)"

lemma pq_repE:
  assumes "pq_rep N q fifo"
  obtains f where "mq_rep (pq_entry_queue q) 9 N f" "length (pq_entry_values q) = N"
    "\<And>p. map Some (fifo p) = map ((!) (pq_entry_values q)) (f (level p))"
    "\<And>p. ps_contains (pq_priority_set q) p \<longleftrightarrow> fifo p \<noteq> []"
    "pq_size fifo + length (f 8) = N"
  using assms unfolding pq_rep_def pq_links_def by blast

lemma pq_repI:
  assumes "mq_rep (pq_entry_queue q) 9 N f" "length (pq_entry_values q) = N"
    "\<And>p. map Some (fifo p) = map ((!) (pq_entry_values q)) (f (level p))"
    "\<And>p. ps_contains (pq_priority_set q) p \<longleftrightarrow> fifo p \<noteq> []"
    "pq_size fifo + length (f 8) = N"
  shows "pq_rep N q fifo"
  using assms unfolding pq_rep_def pq_links_def by blast

lemma pq_new_rep:
  assumes "N \<le> 247"
  shows "\<exists>q. pq_new N = Some q \<and> pq_rep N q (\<lambda>p. [])"
proof -
  obtain q where q: "mq_new 9 N = Some q" "mq_rep q 9 N (\<lambda>c. [])"
    using mq_new_rep [of 9 N] assms by auto
  obtain q' where q': "for_each (\<lambda>e q. mq_move_back q 8 e) [0..<N] q = Some q'"
    "mq_rep q' 9 N ((\<lambda>d. [])(8 := [0..<N]))"
    using mq.fill_class [OF q(2), of 8 N] by auto
  have "for_each (\<lambda>i queue. do { entry \<leftarrow> u8_of i; mq_move_back queue 8 entry }) [0..<N] q =
      for_each (\<lambda>e q. mq_move_back q 8 e) [0..<N] q"
    using assms by (intro for_each_cong) simp
  then have new: "pq_new N = Some \<lparr> pq_entry_queue = q', pq_entry_values = replicate N None,
      pq_priority_set = ps_NONE \<rparr>" (is "_ = Some ?q")
    using q(1) q'(1) by (simp add: pq_new_def)
  have ne: "level p \<noteq> 8" for p using level_less [of p] by linarith
  have "pq_rep N ?q (\<lambda>p. [])"
    by (rule pq_repI [where f = "(\<lambda>d. [])(8 := [0..<N])"]) (use q'(2) ne in simp_all)
  with new show ?thesis by blast
qed

lemma pq_push_rep:
  assumes "pq_rep N q fifo"
  shows "if pq_size fifo < N
    then \<exists>q'. pq_push q p v = Some (Inr (), q') \<and> pq_rep N q' (fifo(p := fifo p @ [v]))
    else pq_push q p v = Some (Inl v, q)"
proof -
  obtain f where rep: "mq_rep (pq_entry_queue q) 9 N f" "length (pq_entry_values q) = N"
    "\<And>p. map Some (fifo p) = map ((!) (pq_entry_values q)) (f (level p))"
    "\<And>p. ps_contains (pq_priority_set q) p \<longleftrightarrow> fifo p \<noteq> []"
    "pq_size fifo + length (f 8) = N" using assms by (rule pq_repE) (rule that)
  note front = mq_front_rep [OF rep(1), of 8]
  show ?thesis
  proof (cases "f 8")
    case Nil
    then show ?thesis using front rep(5) by (simp add: pq_push_def)
  next
    case (Cons e es)
    have p8: "level p < 9" "level r \<noteq> 8" for p r
      using level_less [of p] level_less [of r] by linarith+
    have e: "e < N" using mq.entry_less [OF rep(1), of 8 e] Cons by simp
    have absent: "e \<notin> set (f (level r))" for r
      using mq.entry_unique [OF rep(1), of 8 "level r" e] Cons p8(1) [of r] p8(2) [of r] by auto
    have w: "without e f (level r) = f (level r)" for r
      by (rule without_absent [where f = f and c = "level r", OF absent])
    have w8: "without e f 8 = es" using mq.without_front [OF rep(1) _ Cons, of 8] by simp
    let ?f = "(without e f)(level p := without e f (level p) @ [e])"
    obtain q' where q': "mq_move_back (pq_entry_queue q) (level p) e = Some q'" "mq_rep q' 9 N ?f"
      using mq.move_back_rep [OF rep(1) p8(1) e] by blast
    let ?vals = "(pq_entry_values q)[e := Some v]"
    let ?q = "\<lparr> pq_entry_queue = q', pq_entry_values = ?vals,
      pq_priority_set = ps_insert (pq_priority_set q) p \<rparr>"
    have run: "pq_push q p v = Some (Inr (), ?q)"
      using front Cons q'(1) e rep(2) by (simp add: pq_push_def)
    have same: "map ((!) ?vals) (f (level r)) = map ((!) (pq_entry_values q)) (f (level r))" for r
    proof (rule map_cong [OF refl])
      fix i assume "i \<in> set (f (level r))"
      then have "i \<noteq> e" using absent [of r] by blast
      then show "?vals ! i = pq_entry_values q ! i" by simp
    qed
    have fifos: "map Some ((fifo(p := fifo p @ [v])) r) = map ((!) ?vals) (?f (level r))" for r
    proof (cases "r = p")
      case True
      have "?f (level p) = f (level p) @ [e]" by (simp add: w)
      then show ?thesis using True rep(3) [of p] same [of p] e rep(2) by simp
    next
      case False
      then have "?f (level r) = f (level r)" by (simp add: w)
      then show ?thesis using False rep(3) [of r] same [of r] by simp
    qed
    have size: "pq_size (fifo(p := fifo p @ [v])) + length (?f 8) = N"
      using pq_size_update [of fifo p "fifo p @ [v]"] rep(5) Cons w8 p8(2) [of p] by simp
    have "pq_rep N ?q (fifo(p := fifo p @ [v]))"
      by (rule pq_repI [where f = ?f]) (use q'(2) rep(2) fifos rep(4) size in simp_all)
    then show ?thesis using run rep(5) Cons by auto
  qed
qed

lemma pq_pop_rep:
  assumes "pq_rep N q fifo"
  shows "case fifo p of [] \<Rightarrow> pq_pop q p = Some (None, q)
    | v # vs \<Rightarrow> \<exists>q'. pq_pop q p = Some (Some v, q') \<and> pq_rep N q' (fifo(p := vs))"
proof -
  obtain f where rep: "mq_rep (pq_entry_queue q) 9 N f" "length (pq_entry_values q) = N"
    "\<And>p. map Some (fifo p) = map ((!) (pq_entry_values q)) (f (level p))"
    "\<And>p. ps_contains (pq_priority_set q) p \<longleftrightarrow> fifo p \<noteq> []"
    "pq_size fifo + length (f 8) = N" using assms by (rule pq_repE) (rule that)
  have p8: "level p < 9" "level r \<noteq> 8" for p r
    using level_less [of p] level_less [of r] by linarith+
  note front = mq_front_rep [OF rep(1) p8(1) [of p]]
  show ?thesis
  proof (cases "fifo p")
    case Nil
    then have "f (level p) = []" using rep(3) [of p] by simp
    then show ?thesis using front Nil by (simp add: pq_pop_def)
  next
    case (Cons v vs)
    then obtain e es where fe: "f (level p) = e # es" "pq_entry_values q ! e = Some v"
      "map Some vs = map ((!) (pq_entry_values q)) es"
      using rep(3) [of p] by (cases "f (level p)") auto
    have e: "e < N" using mq.entry_less [OF rep(1) p8(1) [of p], of e] fe(1) by simp
    have absent: "e \<notin> set (f c)" if "c < 9" "c \<noteq> level p" for c
      using mq.entry_unique [OF rep(1) p8(1) [of p] that(1), of e] fe(1) that(2) by auto
    have w: "without e f c = (if c = level p then es else f c)" if "c < 9" for c
      by (rule mq.without_front [OF rep(1) p8(1) fe(1) that])
    let ?f = "(without e f)(8 := without e f 8 @ [e])"
    obtain q' where q': "mq_move_back (pq_entry_queue q) 8 e = Some q'" "mq_rep q' 9 N ?f"
      using mq.move_back_rep [OF rep(1) _ e, of 8] by auto
    have fp: "?f (level r) = (if r = p then es else f (level r))" for r
      using w [OF p8(1) [of r]] p8(2) [of r] by simp
    have empty: "mq_is_empty q' (level p) = Some (es = [])"
      using mq_is_empty_rep [OF q'(2) p8(1) [of p]] fp [of p] by simp
    let ?vals = "(pq_entry_values q)[e := None]"
    let ?q = "\<lparr> pq_entry_queue = q', pq_entry_values = ?vals,
      pq_priority_set = (if es = [] then ps_remove (pq_priority_set q) p else pq_priority_set q) \<rparr>"
    have run: "pq_pop q p = Some (Some v, ?q)"
      using front fe(1,2) q'(1) empty e rep(2) by (simp add: pq_pop_def)
    have es: "e \<notin> set es" using mq.entries_distinct [OF rep(1) p8(1) [of p]] fe(1) by simp
    have fifos: "map Some ((fifo(p := vs)) r) = map ((!) ?vals) (?f (level r))" for r
    proof (cases "r = p")
      case True
      have "map ((!) ?vals) es = map ((!) (pq_entry_values q)) es"
        using es by (intro map_cong [OF refl]) (metis nth_list_update_neq)
      then show ?thesis unfolding fp using True fe(3) by simp
    next
      case False
      then have "e \<notin> set (f (level r))" using absent [OF p8(1) [of r]] by simp
      then have "map ((!) ?vals) (f (level r)) = map ((!) (pq_entry_values q)) (f (level r))"
        by (intro map_cong [OF refl]) (metis nth_list_update_neq)
      then show ?thesis unfolding fp using False rep(3) [of r] by simp
    qed
    have vs: "vs = [] \<longleftrightarrow> es = []" using fe(3) by (metis map_is_Nil_conv)
    have set: "ps_contains (pq_priority_set ?q) r \<longleftrightarrow> (fifo(p := vs)) r \<noteq> []" for r
      using rep(4) [of r] Cons vs by auto
    have size: "pq_size (fifo(p := vs)) + length (?f 8) = N"
      using pq_size_update [of fifo p vs] rep(5) Cons w [of 8] p8(2) [of p] by simp
    have "pq_rep N ?q (fifo(p := vs))"
      by (rule pq_repI [where f = ?f]) (use q'(2) rep(2) fifos set size in simp_all)
    then show ?thesis using run Cons by auto
  qed
qed

lemma pq_priorities_rep:
  "pq_rep N q fifo \<Longrightarrow> ps_contains (pq_priorities q) p \<longleftrightarrow> fifo p \<noteq> []"
  unfolding pq_priorities_def by (erule pq_repE) simp

lemma pq_max_priority_rep:
  assumes "pq_rep N q fifo"
  shows "pq_max_priority q = Some p \<longleftrightarrow> fifo p \<noteq> [] \<and> (\<forall>r. fifo r \<noteq> [] \<longrightarrow> r \<le> p)"
    "pq_max_priority q = None \<longleftrightarrow> pq_size fifo = 0"
  using pq_priorities_rep [OF assms]
  by (simp_all add: pq_max_priority_def pq_priorities_def ps_scans ps_is_empty_iff pq_size_0)

lemma pq_size_le: "pq_rep N q fifo \<Longrightarrow> pq_size fifo \<le> N"
  by (erule pq_repE) simp

end
