(* ===== verification/Index_Queue.thy ===== *)
theory Index_Queue
  imports Multi_Queue
begin

text \<open>
  \<open>emcyphal/src/utils/index_queue.rs\<close>: a map from keys to values with room for \<open>N\<close> entries
  and a direct index over the \<open>K_MAX + 1\<close> key codes, whose keys can be ordered in a queue.
  The const generics are arguments of the operations; \<open>into\<close> is the conversion of a key to
  its code.
\<close>

section \<open>Model\<close>

datatype no_key = NoKey

definition QUEUE_CLASS :: nat where
  "QUEUE_CLASS = 0"

definition FREE_CLASS :: nat where
  "FREE_CLASS = QUEUE_CLASS + 1"

definition CLASS_COUNT :: nat where
  "CLASS_COUNT = FREE_CLASS + 1"

definition NO_ENTRY :: nat where
  "NO_ENTRY = 255"

definition iq_MAX_CAPACITY :: nat where
  "iq_MAX_CAPACITY = 255 + 1 - CLASS_COUNT"

record ('k, 'v) index_queue =
  iq_keys :: "'k option list"
  iq_values :: "'v option list"
  iq_index :: "nat list"
  iq_queue :: multi_class_queue

definition iq_new :: "nat \<Rightarrow> nat \<Rightarrow> ('k, 'v) index_queue exec" where
  "iq_new K_MAX N = do {
     queue \<leftarrow> mq_new CLASS_COUNT N;
     queue \<leftarrow> for_each (\<lambda>i queue. do { entry \<leftarrow> u8_of i; mq_move_back queue FREE_CLASS entry })
       [0..<N] queue;
     ret \<lparr> iq_keys = replicate N None, iq_values = replicate N None,
           iq_index = duplex_repeat 1 K_MAX NO_ENTRY, iq_queue = queue \<rparr>
   }"

definition iq_get_index ::
  "('k \<Rightarrow> nat) \<Rightarrow> nat \<Rightarrow> ('k, 'v) index_queue \<Rightarrow> 'k \<Rightarrow> (no_key + nat) exec" where
  "iq_get_index into K_MAX iq key =
     (if into key > K_MAX then ret (Inl NoKey)
      else do {
        idx \<leftarrow> arr_get (iq_index iq) (into key);
        ret (if idx \<noteq> NO_ENTRY then Inr idx else Inl NoKey)
      })"

definition iq_contains :: "('k \<Rightarrow> nat) \<Rightarrow> nat \<Rightarrow> ('k, 'v) index_queue \<Rightarrow> 'k \<Rightarrow> bool exec" where
  "iq_contains into K_MAX iq key = do {
     r \<leftarrow> iq_get_index into K_MAX iq key;
     ret (case r of Inl _ \<Rightarrow> False | Inr _ \<Rightarrow> True)
   }"

definition iq_get :: "('k \<Rightarrow> nat) \<Rightarrow> nat \<Rightarrow> ('k, 'v) index_queue \<Rightarrow> 'k \<Rightarrow> 'v option exec" where
  "iq_get into K_MAX iq key = do {
     r \<leftarrow> iq_get_index into K_MAX iq key;
     (case r of
        Inl _ \<Rightarrow> ret None
      | Inr idx \<Rightarrow> do {
          slot \<leftarrow> arr_get (iq_values iq) idx;
          value \<leftarrow> unwrap slot;
          ret (Some value)
        })
   }"

text \<open>
  \<open>get_mut\<close> lends a mutable reference: the caller reads the value as \<open>iq_get\<close> does and
  writes it back with \<open>iq_get_mut_set\<close>.
\<close>

definition iq_get_mut_set ::
  "('k \<Rightarrow> nat) \<Rightarrow> nat \<Rightarrow> ('k, 'v) index_queue \<Rightarrow> 'k \<Rightarrow> 'v \<Rightarrow> ('k, 'v) index_queue exec" where
  "iq_get_mut_set into K_MAX iq key value = do {
     r \<leftarrow> iq_get_index into K_MAX iq key;
     (case r of
        Inl _ \<Rightarrow> ret iq
      | Inr idx \<Rightarrow> do {
          values \<leftarrow> arr_set (iq_values iq) idx (Some value);
          ret (iq\<lparr> iq_values := values \<rparr>)
        })
   }"

text \<open>\<open>Inl\<close> gives the key and the value back; the source drops a value for a present key.\<close>

definition iq_insert ::
  "('k \<Rightarrow> nat) \<Rightarrow> nat \<Rightarrow> ('k, 'v) index_queue \<Rightarrow> 'k \<Rightarrow> 'v \<Rightarrow>
    (('k \<times> 'v + 'v option) \<times> ('k, 'v) index_queue) exec" where
  "iq_insert into K_MAX iq key value =
     (if into key > K_MAX then ret (Inl (key, value), iq)
      else do {
        r \<leftarrow> iq_get_index into K_MAX iq key;
        (case r of
           Inr idx \<Rightarrow> do {
             slot \<leftarrow> arr_get (iq_values iq) idx;
             old \<leftarrow> unwrap slot;
             values \<leftarrow> arr_set (iq_values iq) idx None;
             ret (Inr (Some old), iq\<lparr> iq_values := values \<rparr>)
           }
         | Inl _ \<Rightarrow> do {
             free \<leftarrow> mq_front (iq_queue iq) FREE_CLASS;
             (case free of
                None \<Rightarrow> ret (Inl (key, value), iq)
              | Some idx \<Rightarrow> do {
                  queue \<leftarrow> mq_remove (iq_queue iq) idx;
                  keys \<leftarrow> arr_set (iq_keys iq) idx (Some key);
                  values \<leftarrow> arr_set (iq_values iq) idx (Some value);
                  index \<leftarrow> arr_set (iq_index iq) (into key) idx;
                  ret (Inr None, \<lparr> iq_keys = keys, iq_values = values, iq_index = index,
                                  iq_queue = queue \<rparr>)
                })
           })
      })"

definition iq_remove ::
  "('k \<Rightarrow> nat) \<Rightarrow> nat \<Rightarrow> ('k, 'v) index_queue \<Rightarrow> 'k \<Rightarrow> ('v option \<times> ('k, 'v) index_queue) exec" where
  "iq_remove into K_MAX iq key = do {
     r \<leftarrow> iq_get_index into K_MAX iq key;
     (case r of
        Inl _ \<Rightarrow> ret (None, iq)
      | Inr idx \<Rightarrow> do {
          index \<leftarrow> arr_set (iq_index iq) (into key) NO_ENTRY;
          queue \<leftarrow> mq_move_back (iq_queue iq) FREE_CLASS idx;
          keys \<leftarrow> arr_set (iq_keys iq) idx None;
          slot \<leftarrow> arr_get (iq_values iq) idx;
          old \<leftarrow> unwrap slot;
          values \<leftarrow> arr_set (iq_values iq) idx None;
          ret (Some old, \<lparr> iq_keys = keys, iq_values = values, iq_index = index,
                          iq_queue = queue \<rparr>)
        })
   }"

definition iq_front :: "('k, 'v) index_queue \<Rightarrow> 'k option exec" where
  "iq_front iq = do {
     front \<leftarrow> mq_front (iq_queue iq) QUEUE_CLASS;
     (case front of None \<Rightarrow> ret None | Some idx \<Rightarrow> arr_get (iq_keys iq) idx)
   }"

definition iq_back :: "('k, 'v) index_queue \<Rightarrow> 'k option exec" where
  "iq_back iq = do {
     back \<leftarrow> mq_back (iq_queue iq) QUEUE_CLASS;
     (case back of None \<Rightarrow> ret None | Some idx \<Rightarrow> arr_get (iq_keys iq) idx)
   }"

definition iq_enqueue_front ::
  "('k \<Rightarrow> nat) \<Rightarrow> nat \<Rightarrow> ('k, 'v) index_queue \<Rightarrow> 'k \<Rightarrow> ((no_key + unit) \<times> ('k, 'v) index_queue) exec" where
  "iq_enqueue_front into K_MAX iq key = do {
     r \<leftarrow> iq_get_index into K_MAX iq key;
     (case r of
        Inl e \<Rightarrow> ret (Inl e, iq)
      | Inr idx \<Rightarrow> do {
          queue \<leftarrow> mq_move_front (iq_queue iq) QUEUE_CLASS idx;
          ret (Inr (), iq\<lparr> iq_queue := queue \<rparr>)
        })
   }"

definition iq_enqueue_back ::
  "('k \<Rightarrow> nat) \<Rightarrow> nat \<Rightarrow> ('k, 'v) index_queue \<Rightarrow> 'k \<Rightarrow> ((no_key + unit) \<times> ('k, 'v) index_queue) exec" where
  "iq_enqueue_back into K_MAX iq key = do {
     r \<leftarrow> iq_get_index into K_MAX iq key;
     (case r of
        Inl e \<Rightarrow> ret (Inl e, iq)
      | Inr idx \<Rightarrow> do {
          queue \<leftarrow> mq_move_back (iq_queue iq) QUEUE_CLASS idx;
          ret (Inr (), iq\<lparr> iq_queue := queue \<rparr>)
        })
   }"

definition iq_dequeue ::
  "('k \<Rightarrow> nat) \<Rightarrow> nat \<Rightarrow> ('k, 'v) index_queue \<Rightarrow> 'k \<Rightarrow> ((no_key + unit) \<times> ('k, 'v) index_queue) exec" where
  "iq_dequeue into K_MAX iq key = do {
     r \<leftarrow> iq_get_index into K_MAX iq key;
     (case r of
        Inl e \<Rightarrow> ret (Inl e, iq)
      | Inr idx \<Rightarrow> do {
          queue \<leftarrow> mq_remove (iq_queue iq) idx;
          ret (Inr (), iq\<lparr> iq_queue := queue \<rparr>)
        })
   }"

section \<open>The abstract map and queue\<close>

text \<open>
  \<open>iq_rep into K_MAX N iq m xs\<close>: the map is \<open>m\<close>, the queue is \<open>xs\<close>. The entries in use are
  those with a key; the others are in the free class.
\<close>

definition iq_links ::
  "('k \<Rightarrow> nat) \<Rightarrow> nat \<Rightarrow> nat \<Rightarrow> ('k, 'v) index_queue \<Rightarrow> (nat \<Rightarrow> nat list) \<Rightarrow> bool" where
  "iq_links into K_MAX N iq f \<longleftrightarrow>
     N \<le> 254 \<and> length (iq_keys iq) = N \<and> length (iq_values iq) = N \<and>
     length (iq_index iq) = 1 + K_MAX \<and> mq_rep (iq_queue iq) 2 N f \<and>
     (\<forall>k. into k \<le> K_MAX \<longrightarrow> iq_index iq ! into k \<noteq> 255 \<longrightarrow>
        iq_index iq ! into k < N \<and> iq_keys iq ! (iq_index iq ! into k) = Some k) \<and>
     (\<forall>e < N. \<forall>k. iq_keys iq ! e = Some k \<longrightarrow> into k \<le> K_MAX \<and> iq_index iq ! into k = e) \<and>
     (\<forall>e < N. iq_keys iq ! e = None \<longleftrightarrow> e \<in> set (f 1)) \<and>
     (\<forall>e < N. iq_keys iq ! e = None \<longleftrightarrow> iq_values iq ! e = None)"

definition iq_map :: "('k \<Rightarrow> nat) \<Rightarrow> nat \<Rightarrow> ('k, 'v) index_queue \<Rightarrow> 'k \<rightharpoonup> 'v" where
  "iq_map into K_MAX iq k =
     (if into k \<le> K_MAX \<and> iq_index iq ! into k \<noteq> 255
      then iq_values iq ! (iq_index iq ! into k) else None)"

definition iq_rep ::
  "('k \<Rightarrow> nat) \<Rightarrow> nat \<Rightarrow> nat \<Rightarrow> ('k, 'v) index_queue \<Rightarrow> ('k \<rightharpoonup> 'v) \<Rightarrow> 'k list \<Rightarrow> bool" where
  "iq_rep into K_MAX N iq m xs \<longleftrightarrow> (\<exists>f. iq_links into K_MAX N iq f \<and>
     m = iq_map into K_MAX iq \<and> map Some xs = map ((!) (iq_keys iq)) (f 0))"

lemma iq_consts [simp]:
  "QUEUE_CLASS = 0" "FREE_CLASS = 1" "CLASS_COUNT = 2" "NO_ENTRY = 255"
  by (simp_all add: QUEUE_CLASS_def FREE_CLASS_def CLASS_COUNT_def NO_ENTRY_def)

lemma iq_linksD:
  assumes "iq_links into K_MAX N iq f"
  shows "N \<le> 254" "length (iq_keys iq) = N" "length (iq_values iq) = N"
    "length (iq_index iq) = 1 + K_MAX" "mq_rep (iq_queue iq) 2 N f"
  using assms by (simp_all add: iq_links_def)

lemma iq_index_present:
  assumes "iq_links into K_MAX N iq f" "into k \<le> K_MAX" "iq_index iq ! into k \<noteq> 255"
  shows "iq_index iq ! into k < N" "iq_keys iq ! (iq_index iq ! into k) = Some k"
  using assms unfolding iq_links_def by blast+

lemma iq_key_index:
  assumes "iq_links into K_MAX N iq f" "e < N" "iq_keys iq ! e = Some k"
  shows "into k \<le> K_MAX" "iq_index iq ! into k = e"
  using assms unfolding iq_links_def by blast+

lemma iq_free_iff:
  assumes "iq_links into K_MAX N iq f" "e < N"
  shows "iq_keys iq ! e = None \<longleftrightarrow> e \<in> set (f 1)" "iq_values iq ! e = None \<longleftrightarrow> e \<in> set (f 1)"
  using assms unfolding iq_links_def by blast+

lemma iq_linksI:
  assumes "N \<le> 254" "length (iq_keys iq) = N" "length (iq_values iq) = N"
    "length (iq_index iq) = 1 + K_MAX" "mq_rep (iq_queue iq) 2 N f"
    "\<And>k. into k \<le> K_MAX \<Longrightarrow> iq_index iq ! into k \<noteq> 255 \<Longrightarrow>
        iq_index iq ! into k < N \<and> iq_keys iq ! (iq_index iq ! into k) = Some k"
    "\<And>e k. e < N \<Longrightarrow> iq_keys iq ! e = Some k \<Longrightarrow> into k \<le> K_MAX \<and> iq_index iq ! into k = e"
    "\<And>e. e < N \<Longrightarrow> iq_keys iq ! e = None \<longleftrightarrow> e \<in> set (f 1)"
    "\<And>e. e < N \<Longrightarrow> iq_values iq ! e = None \<longleftrightarrow> e \<in> set (f 1)"
  shows "iq_links into K_MAX N iq f"
  unfolding iq_links_def using assms by blast

lemma iq_map_Some_iff:
  assumes "iq_links into K_MAX N iq f"
  shows "iq_map into K_MAX iq k \<noteq> None \<longleftrightarrow> into k \<le> K_MAX \<and> iq_index iq ! into k \<noteq> 255"
proof -
  have "iq_values iq ! (iq_index iq ! into k) \<noteq> None"
    if "into k \<le> K_MAX" "iq_index iq ! into k \<noteq> 255"
    using iq_index_present [OF assms that] iq_free_iff [OF assms] by (metis option.distinct(1))
  then show ?thesis by (auto simp: iq_map_def)
qed

lemma iq_get_index_rep:
  assumes "iq_links into K_MAX N iq f"
  shows "iq_get_index into K_MAX iq k =
    Some (if iq_map into K_MAX iq k = None then Inl NoKey else Inr (iq_index iq ! into k))"
  using iq_linksD(4) [OF assms] iq_map_Some_iff [OF assms, of k] by (auto simp: iq_get_index_def)

lemma iq_repI:
  "iq_links into K_MAX N iq f \<Longrightarrow> iq_map into K_MAX iq = m \<Longrightarrow>
    map Some xs = map ((!) (iq_keys iq)) (f 0) \<Longrightarrow> iq_rep into K_MAX N iq m xs"
  by (auto simp: iq_rep_def)

lemma iq_repE:
  assumes "iq_rep into K_MAX N iq m xs"
  obtains f where "iq_links into K_MAX N iq f" "m = iq_map into K_MAX iq"
    "map Some xs = map ((!) (iq_keys iq)) (f 0)"
  using assms unfolding iq_rep_def by blast

text \<open>Where a present key is.\<close>

lemma iq_entry:
  assumes "iq_links into K_MAX N iq f" "iq_map into K_MAX iq k = Some v"
  shows "into k \<le> K_MAX" "iq_index iq ! into k < N"
    "iq_keys iq ! (iq_index iq ! into k) = Some k" "iq_values iq ! (iq_index iq ! into k) = Some v"
    "iq_index iq ! into k \<notin> set (f 1)" "iq_index iq ! into k \<noteq> 255"
proof -
  have p: "into k \<le> K_MAX" "iq_index iq ! into k \<noteq> 255"
    using iq_map_Some_iff [OF assms(1), of k] assms(2) by auto
  note q = iq_index_present [OF assms(1) p]
  show "into k \<le> K_MAX" "iq_index iq ! into k \<noteq> 255" by (fact p)+
  show "iq_index iq ! into k < N" "iq_keys iq ! (iq_index iq ! into k) = Some k" by (fact q)+
  show "iq_values iq ! (iq_index iq ! into k) = Some v" using assms(2) p by (simp add: iq_map_def)
  show "iq_index iq ! into k \<notin> set (f 1)" using iq_free_iff(1) [OF assms(1) q(1)] q(2) by simp
qed

text \<open>The map read from the entries in use.\<close>

lemma iq_map_by_entry:
  assumes "iq_links into K_MAX N iq f" "e < N" "iq_keys iq ! e = Some k"
  shows "iq_map into K_MAX iq k = iq_values iq ! e"
  using iq_key_index [OF assms] assms(2) iq_linksD(1) [OF assms(1)] by (simp add: iq_map_def)

lemma iq_new_rep:
  assumes "N \<le> 254"
  shows "\<exists>iq. iq_new K_MAX N = Some iq \<and> iq_rep into K_MAX N iq (\<lambda>k. None) []"
proof -
  obtain q where q: "mq_new 2 N = Some q" "mq_rep q 2 N (\<lambda>c. [])"
    using mq_new_rep [of 2 N] assms by auto
  obtain q' where q': "for_each (\<lambda>e q. mq_move_back q 1 e) [0..<N] q = Some q'"
    "mq_rep q' 2 N ((\<lambda>d. [])(1 := [0..<N]))"
    using mq.fill_class [OF q(2), of 1 N] by auto
  have "for_each (\<lambda>i queue. do { entry \<leftarrow> u8_of i; mq_move_back queue 1 entry }) [0..<N] q =
      for_each (\<lambda>e q. mq_move_back q 1 e) [0..<N] q"
    using assms by (intro for_each_cong) simp
  then have new: "iq_new K_MAX N = Some \<lparr> iq_keys = replicate N None,
      iq_values = replicate N None, iq_index = replicate (1 + K_MAX) 255, iq_queue = q' \<rparr>"
    (is "_ = Some ?iq")
    using q(1) q'(1) by (simp add: iq_new_def)
  have idx: "iq_index ?iq ! i = 255" if "i \<le> K_MAX" for i using that by (simp del: replicate.simps)
  have "iq_links into K_MAX N ?iq ((\<lambda>d. [])(1 := [0..<N]))"
    using assms q'(2) idx by (intro iq_linksI) auto
  moreover have "iq_map into K_MAX ?iq = (\<lambda>k. None)"
    using idx by (auto simp: iq_map_def fun_eq_iff)
  ultimately have "iq_rep into K_MAX N ?iq (\<lambda>k. None) []"
    by (rule iq_repI) simp
  with new show ?thesis by blast
qed

lemma iq_get_rep:
  assumes "iq_rep into K_MAX N iq m xs"
  shows "iq_get into K_MAX iq k = Some (m k)"
    "iq_contains into K_MAX iq k = Some (m k \<noteq> None)"
proof -
  obtain f where l: "iq_links into K_MAX N iq f" and m: "m = iq_map into K_MAX iq"
    using assms by (auto simp: iq_rep_def)
  have "length (iq_values iq) = N" using l by (simp add: iq_links_def)
  then show "iq_get into K_MAX iq k = Some (m k)"
    using iq_entry [OF l, of k]
    by (cases "m k") (auto simp: iq_get_def iq_get_index_rep [OF l] m)
  show "iq_contains into K_MAX iq k = Some (m k \<noteq> None)"
    by (auto simp: iq_contains_def iq_get_index_rep [OF l] m)
qed

lemma iq_get_mut_set_rep:
  assumes "iq_rep into K_MAX N iq m xs" "m k \<noteq> None"
  shows "\<exists>iq'. iq_get_mut_set into K_MAX iq k v = Some iq' \<and> iq_rep into K_MAX N iq' (m(k \<mapsto> v)) xs"
proof -
  obtain f where l: "iq_links into K_MAX N iq f" and m: "m = iq_map into K_MAX iq"
    and xs: "map Some xs = map ((!) (iq_keys iq)) (f 0)"
    using assms(1) by (rule iq_repE)
  obtain u where u: "iq_map into K_MAX iq k = Some u" using assms(2) m by auto
  let ?e = "iq_index iq ! into k"
  note e = iq_entry [OF l u]
  have len: "length (iq_values iq) = N" using l by (simp add: iq_links_def)
  let ?iq = "iq\<lparr> iq_values := (iq_values iq)[?e := Some v] \<rparr>"
  have set: "iq_get_mut_set into K_MAX iq k v = Some ?iq"
    using u e(2) len by (simp add: iq_get_mut_set_def iq_get_index_rep [OF l])
  have l': "iq_links into K_MAX N ?iq f"
  proof (rule iq_linksI)
    fix j assume j: "into j \<le> K_MAX" "iq_index ?iq ! into j \<noteq> 255"
    show "iq_index ?iq ! into j < N \<and> iq_keys ?iq ! (iq_index ?iq ! into j) = Some j"
      using iq_index_present [OF l, of j] j by simp
  next
    fix i j assume "i < N" "iq_keys ?iq ! i = Some j"
    then show "into j \<le> K_MAX \<and> iq_index ?iq ! into j = i" using iq_key_index [OF l, of i j] by simp
  next
    fix i assume i: "i < N"
    show "iq_keys ?iq ! i = None \<longleftrightarrow> i \<in> set (f 1)" using iq_free_iff(1) [OF l i] by simp
    show "iq_values ?iq ! i = None \<longleftrightarrow> i \<in> set (f 1)"
      using iq_free_iff(2) [OF l i] e(2,5) len by (cases "i = ?e") simp_all
  qed (use iq_linksD [OF l] in simp_all)
  have "iq_map into K_MAX ?iq = m(k \<mapsto> v)"
  proof (rule ext)
    fix j
    have "into j \<le> K_MAX \<Longrightarrow> iq_index iq ! into j = ?e \<Longrightarrow> j = k"
      using iq_index_present(2) [OF l, of j] e(3,6) by (metis option.inject)
    then show "iq_map into K_MAX ?iq j = (m(k \<mapsto> v)) j"
      using e(1,2,6) len unfolding m by (auto simp: iq_map_def nth_list_update)
  qed
  from iq_repI [OF l' this] xs have "iq_rep into K_MAX N ?iq (m(k \<mapsto> v)) xs" by simp
  with set show ?thesis by blast
qed

text \<open>A new key takes the first free entry and is not queued.\<close>

lemma iq_insert_fresh:
  assumes "iq_rep into K_MAX N iq m xs" "inj into" "into k \<le> K_MAX" "m k = None"
    "iq_links into K_MAX N iq f" "f 1 = e # es" "map Some xs = map ((!) (iq_keys iq)) (f 0)"
  shows "\<exists>iq'. iq_insert into K_MAX iq k v = Some (Inr None, iq') \<and>
    iq_rep into K_MAX N iq' (m(k \<mapsto> v)) xs"
proof -
  note l = assms(5)
  have m: "m = iq_map into K_MAX iq" using assms(1) by (rule iq_repE)
  have q: "mq_rep (iq_queue iq) 2 N f" by (rule iq_linksD(5) [OF l])
  have e: "e < N" using mq.entry_less [OF q, of 1 e] assms(6) by simp
  have e255: "e \<noteq> 255" using e iq_linksD(1) [OF l] by simp
  obtain q' where q': "mq_remove (iq_queue iq) e = Some q'" "mq_rep q' 2 N (without e f)"
    using mq.remove_rep [OF q e] by blast
  have f0: "without e f 0 = f 0" and f1: "without e f 1 = es"
    using mq.without_front [OF q _ assms(6)] by simp_all
  have free: "iq_keys iq ! e = None" using iq_free_iff(1) [OF l e] assms(6) by simp
  let ?iq = "\<lparr> iq_keys = (iq_keys iq)[e := Some k], iq_values = (iq_values iq)[e := Some v],
    iq_index = (iq_index iq)[into k := e], iq_queue = q' \<rparr>"
  note len = iq_linksD(2,3,4) [OF l]
  have absent: "iq_index iq ! into k = 255"
    using iq_map_Some_iff [OF l, of k] assms(3,4) by (simp add: m)
  have run: "iq_insert into K_MAX iq k v = Some (Inr None, ?iq)"
    using assms(3,4,6) q'(1) mq_front_rep [OF q, of 1] e len m
    by (simp add: iq_insert_def iq_get_index_rep [OF l])
  have idx: "iq_index ?iq ! into j = (if j = k then e else iq_index iq ! into j)" for j
    using assms(2,3) len(3) by (simp add: nth_list_update inj_eq)
  have keys: "iq_keys ?iq ! i = (if i = e then Some k else iq_keys iq ! i)" if "i < N" for i
    using that len(1) by (simp add: nth_list_update)
  have vals: "iq_values ?iq ! i = (if i = e then Some v else iq_values iq ! i)" if "i < N" for i
    using that len(2) by (simp add: nth_list_update)
  have l': "iq_links into K_MAX N ?iq (without e f)"
  proof (rule iq_linksI)
    fix j assume j: "into j \<le> K_MAX" "iq_index ?iq ! into j \<noteq> 255"
    show "iq_index ?iq ! into j < N \<and> iq_keys ?iq ! (iq_index ?iq ! into j) = Some j"
    proof (cases "j = k")
      case True
      then show ?thesis unfolding idx using e keys [OF e] by simp
    next
      case False
      then have "iq_index iq ! into j \<noteq> 255" using j(2) unfolding idx by simp
      note p = iq_index_present [OF l j(1) this]
      have "iq_index iq ! into j \<noteq> e" using p(2) free by auto
      then show ?thesis using False p keys [OF p(1)] unfolding idx by simp
    qed
  next
    fix i j assume i: "i < N" "iq_keys ?iq ! i = Some j"
    show "into j \<le> K_MAX \<and> iq_index ?iq ! into j = i"
    proof (cases "i = e")
      case True
      then have "j = k" using i keys by simp
      then show ?thesis unfolding idx using True assms(3) by simp
    next
      case False
      then have ij: "iq_keys iq ! i = Some j" using i keys by simp
      note p = iq_key_index [OF l i(1) ij]
      have "j \<noteq> k" using p absent i(1) iq_linksD(1) [OF l] by auto
      then show ?thesis unfolding idx using p by simp
    qed
  next
    fix i assume i: "i < N"
    show "iq_keys ?iq ! i = None \<longleftrightarrow> i \<in> set (without e f 1)"
      unfolding keys [OF i] using iq_free_iff(1) [OF l i] by simp
    show "iq_values ?iq ! i = None \<longleftrightarrow> i \<in> set (without e f 1)"
      unfolding vals [OF i] using iq_free_iff(2) [OF l i] by simp
  qed (use iq_linksD [OF l] q'(2) in simp_all)
  have "iq_map into K_MAX ?iq = m(k \<mapsto> v)"
  proof (rule ext)
    fix j
    show "iq_map into K_MAX ?iq j = (m(k \<mapsto> v)) j"
    proof (cases "j = k")
      case True
      then show ?thesis using assms(3) e255 vals [OF e] unfolding iq_map_def idx by simp
    next
      case False
      have "iq_values ?iq ! (iq_index iq ! into j) = iq_values iq ! (iq_index iq ! into j)"
        if "into j \<le> K_MAX" "iq_index iq ! into j \<noteq> 255"
      proof -
        note p = iq_index_present [OF l that]
        have "iq_index iq ! into j \<noteq> e" using p(2) free by auto
        then show ?thesis using vals [OF p(1)] by simp
      qed
      then show ?thesis using False unfolding m iq_map_def idx by simp
    qed
  qed
  moreover have "map ((!) (iq_keys ?iq)) (f 0) = map ((!) (iq_keys iq)) (f 0)"
  proof (rule map_cong [OF refl])
    fix i assume "i \<in> set (f 0)"
    then have "i \<noteq> e" using mq.entry_unique [OF q, of 0 1 e] assms(6) by auto
    then show "iq_keys ?iq ! i = iq_keys iq ! i" by simp
  qed
  ultimately have "iq_rep into K_MAX N ?iq (m(k \<mapsto> v)) xs"
    using assms(7) unfolding f0 [symmetric] by (intro iq_repI [OF l']) simp_all
  with run show ?thesis by blast
qed

lemma iq_insert_error:
  assumes "iq_rep into K_MAX N iq m xs" "K_MAX < into k"
  shows "iq_insert into K_MAX iq k v = Some (Inl (k, v), iq)"
  using assms(2) by (simp add: iq_insert_def)

text \<open>A key that is present loses its value, and the new one is dropped.\<close>

lemma iq_insert_present:
  assumes "iq_rep into K_MAX N iq m xs" "m k = Some u"
  obtains iq' where "iq_insert into K_MAX iq k v = Some (Inr (Some u), iq')"
    "iq_get into K_MAX iq' k = panic"
proof -
  obtain f where l: "iq_links into K_MAX N iq f" and m: "m = iq_map into K_MAX iq"
    using assms(1) by (rule iq_repE)
  have u: "iq_map into K_MAX iq k = Some u" using assms(2) m by simp
  note e = iq_entry [OF l u]
  let ?iq = "iq\<lparr> iq_values := (iq_values iq)[iq_index iq ! into k := None] \<rparr>"
  have "iq_insert into K_MAX iq k v = Some (Inr (Some u), ?iq)"
    using u e(1,2,4) iq_linksD(3) [OF l] by (simp add: iq_insert_def iq_get_index_rep [OF l])
  moreover have "iq_get into K_MAX ?iq k = panic"
    using e(1,2,6) iq_linksD(3,4) [OF l] by (simp add: iq_get_def iq_get_index_def)
  ultimately show ?thesis using that by blast
qed

lemma iq_remove_absent:
  assumes "iq_rep into K_MAX N iq m xs" "m k = None"
  shows "iq_remove into K_MAX iq k = Some (None, iq)"
proof -
  obtain f where l: "iq_links into K_MAX N iq f" and m: "m = iq_map into K_MAX iq"
    using assms(1) by (rule iq_repE)
  show ?thesis using assms(2) by (simp add: iq_remove_def iq_get_index_rep [OF l] m)
qed

lemma iq_remove_rep:
  assumes "iq_rep into K_MAX N iq m xs" "inj into" "m k = Some u" "k \<notin> set xs \<or> distinct xs"
  shows "\<exists>iq'. iq_remove into K_MAX iq k = Some (Some u, iq') \<and>
    iq_rep into K_MAX N iq' (m(k := None)) (removeAll k xs)"
proof -
  obtain f where l: "iq_links into K_MAX N iq f" and m: "m = iq_map into K_MAX iq"
    and xs: "map Some xs = map ((!) (iq_keys iq)) (f 0)"
    using assms(1) by (rule iq_repE)
  have q: "mq_rep (iq_queue iq) 2 N f" by (rule iq_linksD(5) [OF l])
  have u: "iq_map into K_MAX iq k = Some u" using assms(3) m by simp
  let ?e = "iq_index iq ! into k"
  note e = iq_entry [OF l u]
  let ?f = "(without ?e f)(1 := without ?e f 1 @ [?e])"
  obtain q' where q': "mq_move_back (iq_queue iq) 1 ?e = Some q'" "mq_rep q' 2 N ?f"
    using mq.move_back_rep [OF q _ e(2), of 1] by auto
  let ?iq = "\<lparr> iq_keys = (iq_keys iq)[?e := None], iq_values = (iq_values iq)[?e := None],
    iq_index = (iq_index iq)[into k := 255], iq_queue = q' \<rparr>"
  note len = iq_linksD(2,3,4) [OF l]
  have run: "iq_remove into K_MAX iq k = Some (Some u, ?iq)"
    using u q'(1) e(1,2,4) len by (simp add: iq_remove_def iq_get_index_rep [OF l])
  have idx: "iq_index ?iq ! into j = (if j = k then 255 else iq_index iq ! into j)" for j
    using assms(2) e(1) len(3) by (simp add: nth_list_update inj_eq)
  have keys: "iq_keys ?iq ! i = (if i = ?e then None else iq_keys iq ! i)" if "i < N" for i
    using that len(1) by (simp add: nth_list_update)
  have vals: "iq_values ?iq ! i = (if i = ?e then None else iq_values iq ! i)" if "i < N" for i
    using that len(2) by (simp add: nth_list_update)
  have other: "iq_index iq ! into j \<noteq> ?e" if "j \<noteq> k" "into j \<le> K_MAX" "iq_index iq ! into j \<noteq> 255" for j
    using iq_index_present(2) [OF l that(2,3)] e(3) that(1) by auto
  have l': "iq_links into K_MAX N ?iq ?f"
  proof (rule iq_linksI)
    fix j assume j: "into j \<le> K_MAX" "iq_index ?iq ! into j \<noteq> 255"
    then have jk: "j \<noteq> k" "iq_index iq ! into j \<noteq> 255" unfolding idx by (auto split: if_splits)
    note p = iq_index_present [OF l j(1) jk(2)]
    show "iq_index ?iq ! into j < N \<and> iq_keys ?iq ! (iq_index ?iq ! into j) = Some j"
      using p jk other [OF jk(1) j(1) jk(2)] keys [OF p(1)] unfolding idx by simp
  next
    fix i j assume i: "i < N" "iq_keys ?iq ! i = Some j"
    then have ij: "i \<noteq> ?e" "iq_keys iq ! i = Some j" using keys by (auto split: if_splits)
    note p = iq_key_index [OF l i(1) ij(2)]
    have "j \<noteq> k" using p(2) ij(1) by auto
    then show "into j \<le> K_MAX \<and> iq_index ?iq ! into j = i" unfolding idx using p by simp
  next
    fix i assume i: "i < N"
    have f1: "i \<in> set (?f 1) \<longleftrightarrow> i = ?e \<or> i \<in> set (f 1)" by auto
    show "iq_keys ?iq ! i = None \<longleftrightarrow> i \<in> set (?f 1)"
      unfolding keys [OF i] f1 using iq_free_iff(1) [OF l i] by simp
    show "iq_values ?iq ! i = None \<longleftrightarrow> i \<in> set (?f 1)"
      unfolding vals [OF i] f1 using iq_free_iff(2) [OF l i] by simp
  qed (use iq_linksD [OF l] q'(2) in simp_all)
  have map': "iq_map into K_MAX ?iq = m(k := None)"
  proof (rule ext)
    fix j
    show "iq_map into K_MAX ?iq j = (m(k := None)) j"
    proof (cases "j = k")
      case True
      then show ?thesis unfolding iq_map_def idx by simp
    next
      case False
      have "iq_values ?iq ! (iq_index iq ! into j) = iq_values iq ! (iq_index iq ! into j)"
        if "into j \<le> K_MAX" "iq_index iq ! into j \<noteq> 255"
        using vals [OF iq_index_present(1) [OF l that]] other [OF False that] by simp
      then show ?thesis using False unfolding m iq_map_def idx by simp
    qed
  qed
  have queued: "i < N" if "i \<in> set (f 0)" for i using mq.entry_less [OF q _ that] by simp
  have "map Some (removeAll k ys) = map ((!) (iq_keys ?iq)) (removeAll ?e es)"
    if "map Some ys = map ((!) (iq_keys iq)) es" "set es \<subseteq> set (f 0)" for ys es
    using that
  proof (induction es arbitrary: ys)
    case (Cons i es)
    then obtain y zs where ys: "ys = y # zs" "Some y = iq_keys iq ! i"
      "map Some zs = map ((!) (iq_keys iq)) es" by (cases ys) auto
    have i: "i < N" using queued Cons.prems(2) by simp
    have eq: "y = k \<longleftrightarrow> i = ?e" using iq_key_index(2) [OF l i] ys(2) e(3) by (metis option.inject)
    have ih: "map Some (removeAll k zs) = map ((!) (iq_keys ?iq)) (removeAll ?e es)"
      using Cons.IH [OF ys(3)] Cons.prems(2) by simp
    show ?case
    proof (cases "i = ?e")
      case True
      then have "y = k" using eq by blast
      then have "removeAll k ys = removeAll k zs" by (simp add: ys(1))
      moreover have "removeAll ?e (i # es) = removeAll ?e es" using True by simp
      ultimately show ?thesis using ih by (simp only:)
    next
      case False
      then have "y \<noteq> k" using eq by blast
      then have "removeAll k ys = y # removeAll k zs" by (simp add: ys(1))
      moreover have "removeAll ?e (i # es) = i # removeAll ?e es" using False by auto
      moreover have "iq_keys ?iq ! i = Some y" using keys [OF i] False ys(2) by simp
      ultimately show ?thesis using ih by (simp only: list.map)
    qed
  qed simp
  from this [OF xs] have "map Some (removeAll k xs) = map ((!) (iq_keys ?iq)) (?f 0)"
    by (simp add: without_def)
  from iq_repI [OF l' map' this] run show ?thesis by blast
qed

text \<open>The ends of the queue.\<close>

lemma iq_front_rep:
  assumes "iq_rep into K_MAX N iq m xs"
  shows "iq_front iq = Some (if xs = [] then None else Some (hd xs))"
    "iq_back iq = Some (if xs = [] then None else Some (last xs))"
proof -
  obtain f where l: "iq_links into K_MAX N iq f"
    and xs: "map Some xs = map ((!) (iq_keys iq)) (f 0)"
    using assms by (rule iq_repE)
  have q: "mq_rep (iq_queue iq) 2 N f" by (rule iq_linksD(5) [OF l])
  have empty: "xs = [] \<longleftrightarrow> f 0 = []" using xs by (metis map_is_Nil_conv)
  have "hd (f 0) < N" "last (f 0) < N" "iq_keys iq ! hd (f 0) = Some (hd xs)"
    "iq_keys iq ! last (f 0) = Some (last xs)" if "f 0 \<noteq> []"
  proof -
    show "hd (f 0) < N" "last (f 0) < N"
      using mq.entry_less [OF q, of 0] that hd_in_set last_in_set by simp_all
    have "hd (map Some xs) = hd (map ((!) (iq_keys iq)) (f 0))"
      "last (map Some xs) = last (map ((!) (iq_keys iq)) (f 0))" using xs by simp_all
    then show "iq_keys iq ! hd (f 0) = Some (hd xs)" "iq_keys iq ! last (f 0) = Some (last xs)"
      using that empty by (simp_all add: hd_map last_map)
  qed
  then show "iq_front iq = Some (if xs = [] then None else Some (hd xs))"
    "iq_back iq = Some (if xs = [] then None else Some (last xs))"
    using mq_front_rep [OF q, of 0] mq_back_rep [OF q, of 0] empty iq_linksD(2) [OF l]
    by (auto simp: iq_front_def iq_back_def)
qed

lemma iq_queue_keys:
  assumes "iq_rep into K_MAX N iq m xs"
  shows "distinct xs" "set xs \<subseteq> dom m"
proof -
  obtain f where l: "iq_links into K_MAX N iq f" and m: "m = iq_map into K_MAX iq"
    and xs: "map Some xs = map ((!) (iq_keys iq)) (f 0)"
    using assms by (rule iq_repE)
  have q: "mq_rep (iq_queue iq) 2 N f" by (rule iq_linksD(5) [OF l])
  have len: "length xs = length (f 0)" using xs by (metis length_map)
  have at: "f 0 ! i < N \<and> iq_keys iq ! (f 0 ! i) = Some (xs ! i)" if "i < length xs" for i
  proof -
    have "map Some xs ! i = map ((!) (iq_keys iq)) (f 0) ! i" by (simp only: xs)
    then show ?thesis using that len mq.entry_less [OF q, of 0 "f 0 ! i"] by simp
  qed
  show "distinct xs"
    unfolding distinct_conv_nth
  proof (intro allI impI)
    fix i j assume ij: "i < length xs" "j < length xs" "i \<noteq> j"
    have "f 0 ! i \<noteq> f 0 ! j"
      using mq.entries_distinct [OF q, of 0] ij len by (simp add: nth_eq_iff_index_eq)
    then show "xs ! i \<noteq> xs ! j"
      using at [OF ij(1)] at [OF ij(2)] iq_key_index(2) [OF l] by metis
  qed
  show "set xs \<subseteq> dom m"
  proof
    fix x assume "x \<in> set xs"
    then obtain i where i: "i < length xs" "x = xs ! i" by (auto simp: in_set_conv_nth)
    from at [OF i(1)] have p: "f 0 ! i < N" "iq_keys iq ! (f 0 ! i) = Some x" using i(2) by simp_all
    have "iq_values iq ! (f 0 ! i) \<noteq> None" using iq_free_iff [OF l p(1)] p(2) by simp
    then show "x \<in> dom m" using iq_map_by_entry [OF l p] m by auto
  qed
qed

text \<open>Moving a present key to an end of the queue, and taking it out.\<close>

lemma iq_keys_without:
  assumes "iq_links into K_MAX N iq f" "map Some xs = map ((!) (iq_keys iq)) (f 0)"
    "iq_map into K_MAX iq k = Some u"
  shows "map Some (removeAll k xs) = map ((!) (iq_keys iq)) (without (iq_index iq ! into k) f 0)"
proof -
  note l = assms(1)
  let ?e = "iq_index iq ! into k"
  note e = iq_entry [OF l assms(3)]
  have q: "mq_rep (iq_queue iq) 2 N f" by (rule iq_linksD(5) [OF l])
  have queued: "i < N" if "i \<in> set (f 0)" for i using mq.entry_less [OF q _ that] by simp
  have "map Some (removeAll k ys) = map ((!) (iq_keys iq)) (removeAll ?e es)"
    if "map Some ys = map ((!) (iq_keys iq)) es" "set es \<subseteq> set (f 0)" for ys es
    using that
  proof (induction es arbitrary: ys)
    case (Cons i es)
    then obtain y zs where ys: "ys = y # zs" "Some y = iq_keys iq ! i"
      "map Some zs = map ((!) (iq_keys iq)) es" by (cases ys) auto
    have i: "i < N" using queued Cons.prems(2) by simp
    have eq: "y = k \<longleftrightarrow> i = ?e" using iq_key_index(2) [OF l i] ys(2) e(3) by (metis option.inject)
    have ih: "map Some (removeAll k zs) = map ((!) (iq_keys iq)) (removeAll ?e es)"
      using Cons.IH [OF ys(3)] Cons.prems(2) by simp
    show ?case
    proof (cases "y = k")
      case True
      then have "removeAll ?e (i # es) = removeAll ?e es" "removeAll k ys = removeAll k zs"
        using eq ys(1) by simp_all
      then show ?thesis using ih by (simp only:)
    next
      case False
      then have "removeAll ?e (i # es) = i # removeAll ?e es" "removeAll k ys = y # removeAll k zs"
        using eq ys(1) by auto
      then show ?thesis using ih ys(2) by (simp only: list.map)
    qed
  qed simp
  from this [OF assms(2)] show ?thesis by (simp add: without_def)
qed

lemma iq_links_queue:
  assumes "iq_links into K_MAX N iq f" "mq_rep q' 2 N f'" "set (f' 1) = set (f 1)"
  shows "iq_links into K_MAX N (iq\<lparr> iq_queue := q' \<rparr>) f'"
    "iq_map into K_MAX (iq\<lparr> iq_queue := q' \<rparr>) = iq_map into K_MAX iq"
proof -
  let ?iq = "iq\<lparr> iq_queue := q' \<rparr>"
  note l = assms(1)
  show "iq_links into K_MAX N ?iq f'"
  proof (rule iq_linksI)
    fix j assume j: "into j \<le> K_MAX" "iq_index ?iq ! into j \<noteq> 255"
    show "iq_index ?iq ! into j < N \<and> iq_keys ?iq ! (iq_index ?iq ! into j) = Some j"
      using iq_index_present [OF l, of j] j by simp
  next
    fix i j assume "i < N" "iq_keys ?iq ! i = Some j"
    then show "into j \<le> K_MAX \<and> iq_index ?iq ! into j = i"
      using iq_key_index [OF l, of i j] by simp
  next
    fix i assume i: "i < N"
    show "iq_keys ?iq ! i = None \<longleftrightarrow> i \<in> set (f' 1)" "iq_values ?iq ! i = None \<longleftrightarrow> i \<in> set (f' 1)"
      using iq_free_iff [OF l i] assms(3) by simp_all
  qed (use iq_linksD [OF l] assms(2) in simp_all)
  show "iq_map into K_MAX ?iq = iq_map into K_MAX iq" by (simp add: iq_map_def fun_eq_iff)
qed

lemma iq_enqueue_rep:
  assumes "iq_rep into K_MAX N iq m xs" "m k \<noteq> None"
  shows "\<exists>iq'. iq_enqueue_front into K_MAX iq k = Some (Inr (), iq') \<and>
      iq_rep into K_MAX N iq' m (k # removeAll k xs)" (is ?front)
    "\<exists>iq'. iq_enqueue_back into K_MAX iq k = Some (Inr (), iq') \<and>
      iq_rep into K_MAX N iq' m (removeAll k xs @ [k])" (is ?rear)
    "\<exists>iq'. iq_dequeue into K_MAX iq k = Some (Inr (), iq') \<and>
      iq_rep into K_MAX N iq' m (removeAll k xs)" (is ?deq)
proof -
  obtain f where l: "iq_links into K_MAX N iq f" and m: "m = iq_map into K_MAX iq"
    and xs: "map Some xs = map ((!) (iq_keys iq)) (f 0)"
    using assms(1) by (rule iq_repE)
  obtain u where u: "iq_map into K_MAX iq k = Some u" using assms(2) m by auto
  have q: "mq_rep (iq_queue iq) 2 N f" by (rule iq_linksD(5) [OF l])
  let ?e = "iq_index iq ! into k"
  note e = iq_entry [OF l u]
  have w1: "without ?e f 1 = f 1" by (rule without_absent [where f = f and c = 1, OF e(5)])
  note w0 = iq_keys_without [OF l xs u]
  have idx: "iq_get_index into K_MAX iq k = Some (Inr ?e)" using u by (simp add: iq_get_index_rep [OF l])
  have keys: "iq_keys (iq\<lparr> iq_queue := q' \<rparr>) = iq_keys iq" for q' by simp
  show ?front
  proof -
    obtain q' where q': "mq_move_front (iq_queue iq) 0 ?e = Some q'"
      "mq_rep q' 2 N ((without ?e f)(0 := ?e # without ?e f 0))"
      using mq.move_front_rep [OF q _ e(2), of 0] by auto
    have set1: "set (((without ?e f)(0 := ?e # without ?e f 0)) 1) = set (f 1)" using w1 by simp
    note l' = iq_links_queue [OF l q'(2) set1]
    have "map Some (k # removeAll k xs) =
        map ((!) (iq_keys (iq\<lparr> iq_queue := q' \<rparr>))) (((without ?e f)(0 := ?e # without ?e f 0)) 0)"
      unfolding keys fun_upd_same list.map w0 e(3) by (rule refl)
    from iq_repI [OF l'(1) _ this] l'(2) m show ?thesis
      using idx q'(1) by (simp add: iq_enqueue_front_def)
  qed
  show ?rear
  proof -
    obtain q' where q': "mq_move_back (iq_queue iq) 0 ?e = Some q'"
      "mq_rep q' 2 N ((without ?e f)(0 := without ?e f 0 @ [?e]))"
      using mq.move_back_rep [OF q _ e(2), of 0] by auto
    have set1: "set (((without ?e f)(0 := without ?e f 0 @ [?e])) 1) = set (f 1)" using w1 by simp
    note l' = iq_links_queue [OF l q'(2) set1]
    have "map Some (removeAll k xs @ [k]) =
        map ((!) (iq_keys (iq\<lparr> iq_queue := q' \<rparr>))) (((without ?e f)(0 := without ?e f 0 @ [?e])) 0)"
      unfolding keys fun_upd_same map_append list.map w0 e(3) by (rule refl)
    from iq_repI [OF l'(1) _ this] l'(2) m show ?thesis
      using idx q'(1) by (simp add: iq_enqueue_back_def)
  qed
  show ?deq
  proof -
    obtain q' where q': "mq_remove (iq_queue iq) ?e = Some q'" "mq_rep q' 2 N (without ?e f)"
      using mq.remove_rep [OF q e(2)] by blast
    have set1: "set (without ?e f 1) = set (f 1)" using w1 by simp
    note l' = iq_links_queue [OF l q'(2) set1]
    have "map Some (removeAll k xs) =
        map ((!) (iq_keys (iq\<lparr> iq_queue := q' \<rparr>))) (without ?e f 0)"
      unfolding keys w0 by (rule refl)
    from iq_repI [OF l'(1) _ this] l'(2) m show ?thesis
      using idx q'(1) by (simp add: iq_dequeue_def)
  qed
qed

lemma iq_enqueue_absent:
  assumes "iq_rep into K_MAX N iq m xs" "m k = None"
  shows "iq_enqueue_front into K_MAX iq k = Some (Inl NoKey, iq)"
    "iq_enqueue_back into K_MAX iq k = Some (Inl NoKey, iq)"
    "iq_dequeue into K_MAX iq k = Some (Inl NoKey, iq)"
proof -
  obtain f where l: "iq_links into K_MAX N iq f" and m: "m = iq_map into K_MAX iq"
    using assms(1) by (rule iq_repE)
  show "iq_enqueue_front into K_MAX iq k = Some (Inl NoKey, iq)"
    "iq_enqueue_back into K_MAX iq k = Some (Inl NoKey, iq)"
    "iq_dequeue into K_MAX iq k = Some (Inl NoKey, iq)"
    using assms(2) by (simp_all add: iq_enqueue_front_def iq_enqueue_back_def iq_dequeue_def
        iq_get_index_rep [OF l] m)
qed

text \<open>The number of keys and the number of free entries add up to \<open>N\<close>.\<close>

lemma iq_card:
  assumes "iq_links into K_MAX N iq f"
  shows "finite (dom (iq_map into K_MAX iq))"
    "card (dom (iq_map into K_MAX iq)) + length (f 1) = N"
proof -
  note l = assms
  have q: "mq_rep (iq_queue iq) 2 N f" by (rule iq_linksD(5) [OF l])
  let ?used = "{..<N} - set (f 1)"
  let ?pos = "\<lambda>k. iq_index iq ! into k"
  have used: "?pos k \<in> ?used" if k: "k \<in> dom (iq_map into K_MAX iq)" for k
  proof -
    obtain v where "iq_map into K_MAX iq k = Some v" using k by auto
    from iq_entry [OF l this] show ?thesis by simp
  qed
  have inj: "inj_on ?pos (dom (iq_map into K_MAX iq))"
  proof (rule inj_onI)
    fix j k assume jk: "j \<in> dom (iq_map into K_MAX iq)" "k \<in> dom (iq_map into K_MAX iq)"
      "?pos j = ?pos k"
    obtain v w where "iq_map into K_MAX iq j = Some v" "iq_map into K_MAX iq k = Some w"
      using jk(1,2) by auto
    from iq_entry(3) [OF l this(1)] iq_entry(3) [OF l this(2)] show "j = k"
      using jk(3) by (metis option.inject)
  qed
  have image: "?pos ` dom (iq_map into K_MAX iq) = ?used"
  proof
    show "?pos ` dom (iq_map into K_MAX iq) \<subseteq> ?used" using used by blast
    show "?used \<subseteq> ?pos ` dom (iq_map into K_MAX iq)"
    proof
      fix e assume e: "e \<in> ?used"
      then have "iq_keys iq ! e \<noteq> None" using iq_free_iff(1) [OF l, of e] by simp
      then obtain k where k: "iq_keys iq ! e = Some k" by auto
      have "iq_values iq ! e \<noteq> None" using e iq_free_iff(2) [OF l, of e] by simp
      then have "k \<in> dom (iq_map into K_MAX iq)"
        using iq_map_by_entry [OF l _ k] e by (simp add: domIff)
      moreover have "?pos k = e" using iq_key_index(2) [OF l _ k] e by simp
      ultimately show "e \<in> ?pos ` dom (iq_map into K_MAX iq)" by blast
    qed
  qed
  show "finite (dom (iq_map into K_MAX iq))"
    by (rule finite_imageD [OF _ inj]) (simp add: image)
  have "card (dom (iq_map into K_MAX iq)) = card ?used" using card_image [OF inj] image by simp
  also have "\<dots> = N - card (set (f 1))"
    using mq.entry_less [OF q, of 1] by (subst card_Diff_subset) auto
  also have free: "card (set (f 1)) = length (f 1)"
    by (rule distinct_card [OF mq.entries_distinct [OF q]]) simp
  finally have "card (dom (iq_map into K_MAX iq)) = N - length (f 1)" .
  moreover have "length (f 1) \<le> N"
    using card_mono [of "{..<N}" "set (f 1)"] mq.entry_less [OF q, of 1] free by auto
  ultimately show "card (dom (iq_map into K_MAX iq)) + length (f 1) = N" by simp
qed

lemma iq_insert_rep:
  assumes "iq_rep into K_MAX N iq m xs" "inj into" "into k \<le> K_MAX" "m k = None"
  shows "if card (dom m) < N
    then \<exists>iq'. iq_insert into K_MAX iq k v = Some (Inr None, iq') \<and>
      iq_rep into K_MAX N iq' (m(k \<mapsto> v)) xs
    else iq_insert into K_MAX iq k v = Some (Inl (k, v), iq)"
proof -
  obtain f where l: "iq_links into K_MAX N iq f" and m: "m = iq_map into K_MAX iq"
    and xs: "map Some xs = map ((!) (iq_keys iq)) (f 0)"
    using assms(1) by (rule iq_repE)
  note c = iq_card(2) [OF l]
  show ?thesis
  proof (cases "f 1")
    case Nil
    then have "iq_insert into K_MAX iq k v = Some (Inl (k, v), iq)"
      using assms(3,4) mq_front_rep [OF iq_linksD(5) [OF l], of 1]
      by (simp add: iq_insert_def iq_get_index_rep [OF l] m)
    then show ?thesis using c Nil m by simp
  next
    case (Cons e es)
    then show ?thesis using iq_insert_fresh [OF assms l Cons xs, of v] c m by simp
  qed
qed

end
