(* ===== verification/Container_Specs.thy ===== *)
theory Container_Specs
  imports Simulation Priority_Queue Index_Queue
begin

text \<open>
  The containers of the buffers as refinements of abstract machines: the multi-class queue is a
  family of lists, the priority queue is a bounded family of FIFOs, the index queue is a
  bounded map with a list of its keys.
\<close>

section \<open>The multi-class queue\<close>

datatype mq_op = MqFront nat | MqBack nat | MqIsEmpty nat | MqIsFront nat | MqIsBack nat | MqRemove nat
  | MqMoveFront nat nat | MqMoveBack nat nat

datatype mq_out = MqEntry "nat option" | MqClass "nat option" | MqBool bool | MqUnit

fun mq_step :: "mq_op \<Rightarrow> multi_class_queue \<Rightarrow> (mq_out \<times> multi_class_queue) exec" where
  "mq_step (MqFront c) q = do { e \<leftarrow> mq_front q c; ret (MqEntry e, q) }"
| "mq_step (MqBack c) q = do { e \<leftarrow> mq_back q c; ret (MqEntry e, q) }"
| "mq_step (MqIsEmpty c) q = do { b \<leftarrow> mq_is_empty q c; ret (MqBool b, q) }"
| "mq_step (MqIsFront e) q = do { c \<leftarrow> mq_is_front q e; ret (MqClass c, q) }"
| "mq_step (MqIsBack e) q = do { c \<leftarrow> mq_is_back q e; ret (MqClass c, q) }"
| "mq_step (MqRemove e) q = do { q \<leftarrow> mq_remove q e; ret (MqUnit, q) }"
| "mq_step (MqMoveFront c e) q = do { q \<leftarrow> mq_move_front q c e; ret (MqUnit, q) }"
| "mq_step (MqMoveBack c e) q = do { q \<leftarrow> mq_move_back q c e; ret (MqUnit, q) }"

definition first_of :: "'a list \<Rightarrow> 'a option" where
  "first_of xs = (if xs = [] then None else Some (hd xs))"

definition last_of :: "'a list \<Rightarrow> 'a option" where
  "last_of xs = (if xs = [] then None else Some (last xs))"

text \<open>
  The machine: a list per class; the class of which an entry is the first or the last.
\<close>

fun mq_spec :: "nat \<Rightarrow> mq_op \<Rightarrow> (nat \<Rightarrow> nat list) \<Rightarrow> mq_out \<times> (nat \<Rightarrow> nat list)" where
  "mq_spec C (MqFront c) f = (MqEntry (first_of (f c)), f)"
| "mq_spec C (MqBack c) f = (MqEntry (last_of (f c)), f)"
| "mq_spec C (MqIsEmpty c) f = (MqBool (f c = []), f)"
| "mq_spec C (MqIsFront e) f = (MqClass (find (\<lambda>c. first_of (f c) = Some e) [0..<C]), f)"
| "mq_spec C (MqIsBack e) f = (MqClass (find (\<lambda>c. last_of (f c) = Some e) [0..<C]), f)"
| "mq_spec C (MqRemove e) f = (MqUnit, \<lambda>c. removeAll e (f c))"
| "mq_spec C (MqMoveFront c e) f = (MqUnit, (\<lambda>d. removeAll e (f d))(c := e # removeAll e (f c)))"
| "mq_spec C (MqMoveBack c e) f = (MqUnit, (\<lambda>d. removeAll e (f d))(c := removeAll e (f c) @ [e]))"

fun mq_op_ok :: "nat \<Rightarrow> nat \<Rightarrow> mq_op \<Rightarrow> bool" where
  "mq_op_ok C N (MqFront c) = (c < C)"
| "mq_op_ok C N (MqBack c) = (c < C)"
| "mq_op_ok C N (MqIsEmpty c) = (c < C)"
| "mq_op_ok C N (MqIsFront e) = (e < N)"
| "mq_op_ok C N (MqIsBack e) = (e < N)"
| "mq_op_ok C N (MqRemove e) = (e < N)"
| "mq_op_ok C N (MqMoveFront c e) = (c < C \<and> e < N)"
| "mq_op_ok C N (MqMoveBack c e) = (c < C \<and> e < N)"

lemma without_removeAll: "without e f = (\<lambda>c. removeAll e (f c))"
  by (simp add: without_def fun_eq_iff removeAll_filter_not_eq)

interpretation mq_sim: simulation "\<lambda>q f. mq_rep q C N f" mq_step "mq_spec C" "\<lambda>op f. mq_op_ok C N op"
  for C N
proof
  fix q f op
  assume rep: "mq_rep q C N f" and ok: "mq_op_ok C N op"
  show "\<exists>q'. mq_step op q = Some (fst (mq_spec C op f), q') \<and> mq_rep q' C N (snd (mq_spec C op f))"
  proof (cases op)
    case (MqRemove e)
    then obtain q' where "mq_remove q e = Some q'" "mq_rep q' C N (without e f)"
      using mq_remove_rep [OF rep, of e] ok by auto
    then show ?thesis using MqRemove by (simp add: without_removeAll)
  next
    case (MqMoveFront c e)
    then obtain q' where "mq_move_front q c e = Some q'"
      "mq_rep q' C N ((without e f)(c := e # without e f c))"
      using mq_move_front_rep [OF rep, of c e] ok by auto
    then show ?thesis using MqMoveFront by (simp add: without_removeAll)
  next
    case (MqMoveBack c e)
    then obtain q' where "mq_move_back q c e = Some q'"
      "mq_rep q' C N ((without e f)(c := without e f c @ [e]))"
      using mq_move_back_rep [OF rep, of c e] ok by auto
    then show ?thesis using MqMoveBack by (simp add: without_removeAll)
  qed (use rep ok in \<open>simp_all add: mq_front_rep mq_back_rep mq_is_empty_rep mq_is_front_rep
      mq_is_back_rep first_of_def last_of_def if_distrib [where f = "\<lambda>x. x = _"] cong: conj_cong\<close>)
qed

section \<open>The priority queue\<close>

datatype 'v pq_op = PqPush priority 'v | PqPop priority | PqPriorities | PqMaxPriority

datatype 'v pq_out = PqPushed "'v + unit" | PqPopped "'v option" | PqSet priority_set
  | PqPriority "priority option"

fun pq_step :: "'v pq_op \<Rightarrow> 'v priority_queue \<Rightarrow> ('v pq_out \<times> 'v priority_queue) exec" where
  "pq_step (PqPush p v) q = do { (r, q) \<leftarrow> pq_push q p v; ret (PqPushed r, q) }"
| "pq_step (PqPop p) q = do { (r, q) \<leftarrow> pq_pop q p; ret (PqPopped r, q) }"
| "pq_step PqPriorities q = ret (PqSet (pq_priorities q), q)"
| "pq_step PqMaxPriority q = ret (PqPriority (pq_max_priority q), q)"

text \<open>The machine: a FIFO per priority, \<open>N\<close> values in all.\<close>

definition nonempty_set :: "(priority \<Rightarrow> 'v list) \<Rightarrow> priority_set" where
  "nonempty_set F = fold (\<lambda>p s. if F p \<noteq> [] then ps_insert s p else s) all_priorities ps_NONE"

fun pq_spec :: "nat \<Rightarrow> 'v pq_op \<Rightarrow> (priority \<Rightarrow> 'v list) \<Rightarrow> 'v pq_out \<times> (priority \<Rightarrow> 'v list)" where
  "pq_spec N (PqPush p v) F =
     (if pq_size F < N then (PqPushed (Inr ()), F(p := F p @ [v])) else (PqPushed (Inl v), F))"
| "pq_spec N (PqPop p) F = (PqPopped (first_of (F p)), F(p := tl (F p)))"
| "pq_spec N PqPriorities F = (PqSet (nonempty_set F), F)"
| "pq_spec N PqMaxPriority F = (PqPriority (find (\<lambda>r. F r \<noteq> []) (rev all_priorities)), F)"

lemma ps_contains_nonempty_set [simp]: "ps_contains (nonempty_set F) p \<longleftrightarrow> F p \<noteq> []"
  by (cases p) (simp_all add: nonempty_set_def all_priorities_def)

lemma find_last_nonempty:
  "find (\<lambda>r. F r \<noteq> []) (rev all_priorities) = Some p \<longleftrightarrow> F p \<noteq> [] \<and> (\<forall>r. F r \<noteq> [] \<longrightarrow> r \<le> p)"
proof -
  have ex: "find (\<lambda>r. F r \<noteq> []) (rev all_priorities) = Some p"
    if "F p \<noteq> []" "\<And>r. F r \<noteq> [] \<Longrightarrow> r \<le> p" for p
  proof -
    have none: "F r = []" if "\<not> r \<le> p" for r using \<open>\<And>r. F r \<noteq> [] \<Longrightarrow> r \<le> p\<close> that by blast
    show ?thesis
      using \<open>F p \<noteq> []\<close> none by (cases p) (simp_all add: all_priorities_def level_le_iff)
  qed
  show ?thesis
  proof
    assume some: "find (\<lambda>r. F r \<noteq> []) (rev all_priorities) = Some p"
    then have p: "F p \<noteq> []" by (auto simp: find_Some_iff)
    let ?S = "{r. F r \<noteq> []}"
    have "?S \<subseteq> set all_priorities" using all_priorities(1) by blast
    then have fin: "finite ?S" using finite_set finite_subset by blast
    have "F (Max ?S) \<noteq> []" "\<And>r. F r \<noteq> [] \<Longrightarrow> r \<le> Max ?S"
      using Max_in [OF fin] Max_ge [OF fin] p by blast+
    moreover from this have "find (\<lambda>r. F r \<noteq> []) (rev all_priorities) = Some (Max ?S)" by (rule ex)
    ultimately show "F p \<noteq> [] \<and> (\<forall>r. F r \<noteq> [] \<longrightarrow> r \<le> p)" using some by simp
  qed (use ex in blast)
qed

interpretation pq_sim: simulation "pq_rep N" pq_step "pq_spec N" "\<lambda>op F. True" for N
proof
  fix q F op
  assume rep: "pq_rep N q F"
  show "\<exists>q'. pq_step op q = Some (fst (pq_spec N op F), q') \<and> pq_rep N q' (snd (pq_spec N op F))"
  proof (cases op)
    case (PqPush p v)
    then show ?thesis using pq_push_rep [OF rep, of p v] rep by (auto split: if_splits)
  next
    case (PqPop p)
    show ?thesis
    proof (cases "F p")
      case Nil
      then have "pq_pop q p = Some (None, q)" using pq_pop_rep [OF rep, of p] by simp
      moreover have "F(p := []) = F" using Nil by auto
      ultimately show ?thesis using PqPop Nil rep by (simp add: first_of_def)
    next
      case (Cons v vs)
      then obtain q' where "pq_pop q p = Some (Some v, q')" "pq_rep N q' (F(p := vs))"
        using pq_pop_rep [OF rep, of p] by auto
      then show ?thesis using PqPop Cons by (simp add: first_of_def)
    qed
  next
    case PqPriorities
    have "pq_priorities q = nonempty_set F" by (rule ps_eqI) (simp add: pq_priorities_rep [OF rep])
    then show ?thesis using PqPriorities rep by simp
  next
    case PqMaxPriority
    have "pq_max_priority q = Some p \<longleftrightarrow> find (\<lambda>r. F r \<noteq> []) (rev all_priorities) = Some p" for p
      unfolding find_last_nonempty using pq_max_priority_rep(1) [OF rep] .
    then have "pq_max_priority q = find (\<lambda>r. F r \<noteq> []) (rev all_priorities)"
      by (metis not_None_eq)
    then show ?thesis using PqMaxPriority rep by simp
  qed
qed

section \<open>The index queue\<close>

datatype ('k, 'v) iq_op = IqInsert 'k 'v | IqRemove 'k | IqGet 'k | IqContains 'k
  | IqSet 'k 'v | IqEnqueueFront 'k | IqEnqueueBack 'k | IqDequeue 'k | IqFront | IqBack

datatype ('k, 'v) iq_out = IqInserted "('k \<times> 'v) + 'v option" | IqValue "'v option"
  | IqBool bool | IqKey "'k option" | IqQueued "no_key + unit" | IqUnit

fun iq_step :: "('k \<Rightarrow> nat) \<Rightarrow> nat \<Rightarrow> ('k, 'v) iq_op \<Rightarrow> ('k, 'v) index_queue \<Rightarrow>
    (('k, 'v) iq_out \<times> ('k, 'v) index_queue) exec" where
  "iq_step into K (IqInsert k v) q = do { (r, q) \<leftarrow> iq_insert into K q k v; ret (IqInserted r, q) }"
| "iq_step into K (IqRemove k) q = do { (r, q) \<leftarrow> iq_remove into K q k; ret (IqValue r, q) }"
| "iq_step into K (IqGet k) q = do { r \<leftarrow> iq_get into K q k; ret (IqValue r, q) }"
| "iq_step into K (IqContains k) q = do { r \<leftarrow> iq_contains into K q k; ret (IqBool r, q) }"
| "iq_step into K (IqSet k v) q = do { q \<leftarrow> iq_get_mut_set into K q k v; ret (IqUnit, q) }"
| "iq_step into K (IqEnqueueFront k) q = do { (r, q) \<leftarrow> iq_enqueue_front into K q k; ret (IqQueued r, q) }"
| "iq_step into K (IqEnqueueBack k) q = do { (r, q) \<leftarrow> iq_enqueue_back into K q k; ret (IqQueued r, q) }"
| "iq_step into K (IqDequeue k) q = do { (r, q) \<leftarrow> iq_dequeue into K q k; ret (IqQueued r, q) }"
| "iq_step into K IqFront q = do { r \<leftarrow> iq_front q; ret (IqKey r, q) }"
| "iq_step into K IqBack q = do { r \<leftarrow> iq_back q; ret (IqKey r, q) }"

text \<open>The machine: a map of at most \<open>N\<close> keys below the bound, and the queue of its keys.\<close>

fun iq_spec :: "('k \<Rightarrow> nat) \<Rightarrow> nat \<Rightarrow> nat \<Rightarrow> ('k, 'v) iq_op \<Rightarrow> ('k \<rightharpoonup> 'v) \<times> 'k list \<Rightarrow>
    ('k, 'v) iq_out \<times> ('k \<rightharpoonup> 'v) \<times> 'k list" where
  "iq_spec into K N (IqInsert k v) (m, xs) =
     (if into k \<le> K \<and> card (dom m) < N then (IqInserted (Inr None), m(k \<mapsto> v), xs)
      else (IqInserted (Inl (k, v)), m, xs))"
| "iq_spec into K N (IqRemove k) (m, xs) = (IqValue (m k), m(k := None), removeAll k xs)"
| "iq_spec into K N (IqGet k) (m, xs) = (IqValue (m k), m, xs)"
| "iq_spec into K N (IqContains k) (m, xs) = (IqBool (m k \<noteq> None), m, xs)"
| "iq_spec into K N (IqSet k v) (m, xs) = (IqUnit, m(k \<mapsto> v), xs)"
| "iq_spec into K N (IqEnqueueFront k) (m, xs) =
     (if m k = None then (IqQueued (Inl NoKey), m, xs) else (IqQueued (Inr ()), m, k # removeAll k xs))"
| "iq_spec into K N (IqEnqueueBack k) (m, xs) =
     (if m k = None then (IqQueued (Inl NoKey), m, xs) else (IqQueued (Inr ()), m, removeAll k xs @ [k]))"
| "iq_spec into K N (IqDequeue k) (m, xs) =
     (if m k = None then (IqQueued (Inl NoKey), m, xs) else (IqQueued (Inr ()), m, removeAll k xs))"
| "iq_spec into K N IqFront (m, xs) = (IqKey (first_of xs), m, xs)"
| "iq_spec into K N IqBack (m, xs) = (IqKey (last_of xs), m, xs)"

text \<open>A key is inserted only when it is absent, and a value replaced only when it is there.\<close>

fun iq_op_ok :: "('k, 'v) iq_op \<Rightarrow> ('k \<rightharpoonup> 'v) \<times> 'k list \<Rightarrow> bool" where
  "iq_op_ok (IqInsert k v) (m, xs) = (m k = None)"
| "iq_op_ok (IqSet k v) (m, xs) = (m k \<noteq> None)"
| "iq_op_ok _ _ = True"

definition iq_sim_rep :: "('k \<Rightarrow> nat) \<Rightarrow> nat \<Rightarrow> nat \<Rightarrow> ('k, 'v) index_queue \<Rightarrow> ('k \<rightharpoonup> 'v) \<times> 'k list \<Rightarrow> bool" where
  "iq_sim_rep into K N q a \<longleftrightarrow> inj into \<and> iq_rep into K N q (fst a) (snd a)"

interpretation iq_sim: simulation "iq_sim_rep into K N" "iq_step into K" "iq_spec into K N" iq_op_ok
  for into K N
proof
  fix q a op
  assume "iq_sim_rep into K N q a" and ok: "iq_op_ok op a"
  then obtain m xs where a: "a = (m, xs)" and inj: "inj into" and rep: "iq_rep into K N q m xs"
    by (cases a) (simp add: iq_sim_rep_def)
  note defs = a inj iq_sim_rep_def
  show "\<exists>q'. iq_step into K op q = Some (fst (iq_spec into K N op a), q') \<and>
    iq_sim_rep into K N q' (snd (iq_spec into K N op a))"
  proof (cases op)
    case (IqInsert k v)
    have new: "m k = None" using ok IqInsert a by simp
    show ?thesis
    proof (cases "into k \<le> K")
      case True
      then show ?thesis using iq_insert_rep [OF rep inj True new, of v] rep IqInsert
        by (auto simp: defs split: if_splits)
    next
      case False
      then have "iq_insert into K q k v = Some (Inl (k, v), q)" by (intro iq_insert_error [OF rep]) simp
      then show ?thesis using False rep IqInsert by (simp add: defs)
    qed
  next
    case (IqRemove k)
    show ?thesis
    proof (cases "m k")
      case None
      have "k \<notin> set xs" using iq_queue_keys(2) [OF rep] None by auto
      moreover have "m(k := None) = m" using None by auto
      ultimately show ?thesis using iq_remove_absent [OF rep None] IqRemove rep None
        by (simp add: defs)
    next
      case (Some u)
      have "k \<notin> set xs \<or> distinct xs" using iq_queue_keys(1) [OF rep] by simp
      from iq_remove_rep [OF rep inj Some this] show ?thesis using IqRemove Some by (auto simp: defs)
    qed
  next
    case (IqSet k v)
    then have "m k \<noteq> None" using ok a by simp
    from iq_get_mut_set_rep [OF rep this, of v] show ?thesis using IqSet by (auto simp: defs)
  next
    case (IqEnqueueFront k)
    then show ?thesis using iq_enqueue_rep(1) [OF rep, of k] iq_enqueue_absent(1) [OF rep, of k] rep
      by (cases "m k = None") (auto simp: defs)
  next
    case (IqEnqueueBack k)
    then show ?thesis using iq_enqueue_rep(2) [OF rep, of k] iq_enqueue_absent(2) [OF rep, of k] rep
      by (cases "m k = None") (auto simp: defs)
  next
    case (IqDequeue k)
    then show ?thesis using iq_enqueue_rep(3) [OF rep, of k] iq_enqueue_absent(3) [OF rep, of k] rep
      by (cases "m k = None") (auto simp: defs)
  qed (use rep in \<open>simp_all add: defs iq_get_rep [OF rep] iq_front_rep [OF rep] first_of_def last_of_def\<close>)
qed

section \<open>Properties\<close>

text \<open>
  C39: The linked lists in the one array of the multi-class queue behave, for every sequence of
  its operations on existing classes and entries, as a family of lists of which every entry is
  in at most one: no link is ever wrong and no index out of range. The limits of the source
  also allow 256 classes without entries; then the offset of the entries wraps to 0, and every
  class, though empty, seems to hold the entry of its own number.
\<close>

theorem multi_queue_refines:
  assumes "C + N \<le> 256" "list_all (mq_op_ok C N) ops"
  shows "\<exists>q. mq_new C N = Some q \<and>
    (if C < 256
     then outputs (run_ops mq_step ops q) = Some (run_spec (mq_spec C) ops (\<lambda>c. []))
     else \<forall>c < 256. mq_front q c = Some (Some c) \<and> mq_back q c = Some (Some c) \<and>
       mq_is_empty q c = Some False)"
proof (cases "C < 256")
  case True
  obtain q where q: "mq_new C N = Some q" "mq_rep q C N (\<lambda>c. [])" using mq_new_rep [OF assms(1) True] .
  have "run_ok (mq_spec C) (\<lambda>op f. mq_op_ok C N op) ops f" for f
    using assms(2) by (induction ops arbitrary: f) simp_all
  then show ?thesis using mq_sim.run [OF q(2)] q(1) True by simp
next
  case False
  then have "C = 256" "N = 0" using assms(1) by simp_all
  then show ?thesis using mq_all_classes by auto
qed

definition ex_mq_ops :: "mq_op list" where
  "ex_mq_ops = [MqMoveBack 1 0, MqMoveFront 1 1, MqFront 1, MqIsFront 1, MqIsBack 1, MqIsEmpty 0]"

theorem multi_queue_refines_witness:
  "\<exists>q. mq_new 2 2 = Some q \<and> outputs (run_ops mq_step ex_mq_ops q) =
    Some [MqUnit, MqUnit, MqEntry (Some 1), MqClass (Some 1), MqClass None, MqBool True]"
proof -
  have "run_spec (mq_spec 2) ex_mq_ops (\<lambda>c. []) =
      [MqUnit, MqUnit, MqEntry (Some 1), MqClass (Some 1), MqClass None, MqBool True]"
    by code_simp
  then show ?thesis using multi_queue_refines [of 2 2 ex_mq_ops] by (simp add: ex_mq_ops_def)
qed

text \<open>
  The priority queue is a FIFO for every priority with \<open>N\<close> values in all: for every
  sequence of operations its results are those of that machine, a push fails exactly when it is
  full and gives the value back, and nothing panics.
\<close>

theorem priority_queue_refines:
  fixes ops :: "'v pq_op list"
  assumes "N \<le> 247"
  shows "\<exists>q. pq_new N = Some q \<and>
    outputs (run_ops pq_step ops q) = Some (run_spec (pq_spec N) ops (\<lambda>p. []))"
proof -
  obtain q :: "'v priority_queue" where q: "pq_new N = Some q" "pq_rep N q (\<lambda>p. [])" using pq_new_rep [OF assms] by blast
  have "run_ok (pq_spec N) (\<lambda>op F. True) ops F" for F
    by (induction ops arbitrary: F) simp_all
  then show ?thesis using pq_sim.run [OF q(2)] q(1) by blast
qed

theorem priority_queue_refines_witness:
  "\<exists>q. pq_new 1 = Some q \<and> outputs (run_ops pq_step [PqPush Fast (10::nat), PqPush Low (20::nat), PqPop Fast] q) =
    Some (run_spec (pq_spec 1) [PqPush Fast (10::nat), PqPush Low (20::nat), PqPop Fast] (\<lambda>p. []))"
  by (rule priority_queue_refines) simp

text \<open>
  The index queue is a map of at most \<open>N\<close> keys with a queue of some of them: as long as a
  key is inserted only when it is absent, every sequence of operations gives the results of
  that machine and nothing panics.
\<close>

theorem index_queue_refines:
  fixes into :: "'k \<Rightarrow> nat" and ops :: "('k, 'v) iq_op list"
  assumes "N \<le> 254" "inj into" "run_ok (iq_spec into K N) iq_op_ok ops (\<lambda>k. None, [])"
  shows "\<exists>q. iq_new K N = Some q \<and>
    outputs (run_ops (iq_step into K) ops q) = Some (run_spec (iq_spec into K N) ops (\<lambda>k. None, []))"
proof -
  obtain q :: "('k, 'v) index_queue" where q: "iq_new K N = Some q" "iq_rep into K N q (\<lambda>k. None) []"
    using iq_new_rep [OF assms(1)] by blast
  then have "iq_sim_rep into K N q (\<lambda>k. None, [])" using assms(2) by (simp add: iq_sim_rep_def)
  from iq_sim.run [OF this assms(3)] show ?thesis using q(1) by blast
qed

theorem index_queue_refines_witness:
  "\<exists>q. iq_new 9 2 = Some q \<and>
    outputs (run_ops (iq_step (\<lambda>k. k) 9) [IqInsert 3 (10::nat), IqEnqueueBack 3, IqFront, IqRemove 3] q) =
    Some (run_spec (iq_spec (\<lambda>k. k) 9 2) [IqInsert 3 (10::nat), IqEnqueueBack 3, IqFront, IqRemove 3] (\<lambda>k. None, []))"
  by (rule index_queue_refines) simp_all

text \<open>
  Inserting a key that is present breaks the index queue: the new value is dropped, the
  old one is taken out of its slot, and the next lookup of the key panics.
\<close>

theorem index_queue_insert_present_breaks:
  assumes "iq_rep into K N iq m xs" "m k = Some u"
  shows "\<exists>iq'. iq_insert into K iq k v = Some (Inr (Some u), iq') \<and> iq_get into K iq' k = panic"
  using iq_insert_present [OF assms, of v] by blast

theorem index_queue_insert_present_breaks_witness:
  "\<exists>iq iq'. iq_insert (\<lambda>k. k) 9 iq 3 (20::nat) = Some (Inr (Some (10::nat)), iq') \<and> iq_get (\<lambda>k. k) 9 iq' 3 = panic"
proof -
  obtain q :: "(nat, nat) index_queue" where q: "iq_new 9 1 = Some q" "iq_rep (\<lambda>k. k) 9 1 q (\<lambda>k. None) []"
    using iq_new_rep [of 1 9 "\<lambda>k. k"] by auto
  obtain q1 where "iq_rep (\<lambda>k. k) 9 1 q1 ((\<lambda>k. None)(3 \<mapsto> (10::nat))) []"
    using iq_insert_rep [OF q(2), of 3 10] by auto
  from index_queue_insert_present_breaks [OF this, of 3 10 20] show ?thesis by auto
qed

end
