(* ===== verification/Rx_Sessions.thy ===== *)
theory Rx_Sessions
  imports Gather Index_Queue Priority_Queue "HOL-Library.Multiset"
begin

text \<open>
  What the receive buffers share: transfer metadata (\<open>emcyphal/src/endpoint.rs\<close>), the result
  of a poll, and the table of sessions that \<open>buffer/rx_priority_fifo.rs\<close> and
  \<open>buffer/rx_msg/watch.rs\<close> keep in the same way. The buffers behind \<open>buffers_ptr\<close> are a list
  of byte arrays, and a buffer index out of range, which would be undefined behaviour, is a
  panic of the model.
\<close>

section \<open>Model\<close>

datatype 'a poll = Ready 'a | Pending

record transfer_meta =
  tm_priority :: priority
  tm_address :: "node_id option"
  tm_transfer_id :: transfer_id
  tm_timestamp :: instant
  tm_loop_back :: bool

record session =
  ss_gather :: gather
  ss_buffer_idx :: nat

text \<open>The fields \<open>sessions\<close> and \<open>session_buffer_base\<close>.\<close>

type_synonym session_queue = "(node_id, session) index_queue"
type_synonym session_table = "session_queue \<times> nat"

definition NODE_K_MAX :: nat where
  "NODE_K_MAX = unat node_id_MAX_VALUE"

abbreviation sq_get where "sq_get \<equiv> iq_get node_id_usize NODE_K_MAX"
abbreviation sq_get_mut_set where "sq_get_mut_set \<equiv> iq_get_mut_set node_id_usize NODE_K_MAX"
abbreviation sq_enqueue_back where "sq_enqueue_back \<equiv> iq_enqueue_back node_id_usize NODE_K_MAX"

definition allocate_session_buffer :: "nat \<Rightarrow> nat \<Rightarrow> (nat option \<times> nat) exec" where
  "allocate_session_buffer SN base =
     (if base < SN then do { base' \<leftarrow> u8_of (base + 1); ret (Some base, base') }
      else ret (None, base))"

definition start_session ::
  "(instant \<Rightarrow> duration \<Rightarrow> instant) \<Rightarrow> nat \<Rightarrow> duration \<Rightarrow> session_table \<Rightarrow> node_id \<Rightarrow> instant \<Rightarrow>
    session_table exec" where
  "start_session sadd SN timeout tab source timestamp = (case tab of (sessions, base) \<Rightarrow> do {
     present \<leftarrow> iq_contains node_id_usize NODE_K_MAX sessions source;
     assert_that (\<not> present);
     (buffer_idx, base) \<leftarrow> allocate_session_buffer SN base;
     (buffer_idx, sessions) \<leftarrow>
       (case buffer_idx of
          Some idx \<Rightarrow> ret (Some idx, sessions)
        | None \<Rightarrow> do {
            front \<leftarrow> iq_front sessions;
            oldest_source \<leftarrow> unwrap front;
            oldest \<leftarrow> sq_get sessions oldest_source;
            oldest_session \<leftarrow> unwrap oldest;
            last \<leftarrow> ga_last_transfer_timestamp (ss_gather oldest_session);
            let expired = (case last of None \<Rightarrow> True | Some ts \<Rightarrow> sadd ts timeout < timestamp);
            if expired then do {
              (removed, sessions) \<leftarrow> iq_remove node_id_usize NODE_K_MAX sessions oldest_source;
              removed \<leftarrow> unwrap removed;
              ret (Some (ss_buffer_idx removed), sessions)
            } else ret (None, sessions)
          });
     (case buffer_idx of
        None \<Rightarrow> ret (sessions, base)
      | Some idx \<Rightarrow> do {
          let session = \<lparr> ss_gather = ga_default, ss_buffer_idx = idx \<rparr>;
          (inserted, sessions) \<leftarrow> iq_insert node_id_usize NODE_K_MAX sessions source session;
          ok \<leftarrow> (case inserted of Inl _ \<Rightarrow> panic | Inr old \<Rightarrow> ret old);
          (queued, sessions) \<leftarrow> iq_enqueue_front node_id_usize NODE_K_MAX sessions source;
          ok \<leftarrow> (case queued of Inl _ \<Rightarrow> panic | Inr u \<Rightarrow> ret u);
          ret (sessions, base)
        })
   })"

section \<open>The abstract table\<close>

text \<open>
  \<open>m\<close> maps a source to its session; \<open>xs\<close> lists the sources from the least to the most recently
  active one. Every session is queued, and the buffers below \<open>base\<close> have been handed out.
\<close>

definition sessions_rep ::
  "nat \<Rightarrow> session_queue \<Rightarrow> nat \<Rightarrow> (node_id \<rightharpoonup> session) \<Rightarrow> node_id list \<Rightarrow> bool" where
  "sessions_rep SN sessions base m xs \<longleftrightarrow>
     iq_rep node_id_usize NODE_K_MAX SN sessions m xs \<and> set xs = dom m \<and>
     base \<le> SN \<and> length xs = base \<and> SN \<le> 128 \<and> (\<forall>k s. m k = Some s \<longrightarrow> ga_wf (ss_gather s))"

definition session_idx :: "(node_id \<rightharpoonup> session) \<Rightarrow> node_id \<Rightarrow> nat" where
  "session_idx m k = ss_buffer_idx (the (m k))"

text \<open>The buffers the table owns: those of the sessions and those not handed out yet.\<close>

definition table_buffers :: "nat \<Rightarrow> nat \<Rightarrow> (node_id \<rightharpoonup> session) \<Rightarrow> node_id list \<Rightarrow> nat multiset" where
  "table_buffers SN base m xs = mset (map (session_idx m) xs) + mset [base..<SN]"

lemma NODE_K_MAX [simp]: "NODE_K_MAX = 127"
  by (simp add: NODE_K_MAX_def node_id_MAX_VALUE_def)

lemma inj_node_id_usize: "inj node_id_usize"
  by (rule injI) (simp add: node_id_usize_def node_id.expand word_unat_eq_iff)

lemma node_id_usize_le: "node_id_wf n \<Longrightarrow> node_id_usize n \<le> 127"
  by (simp add: node_id_wf_def node_id_usize_def node_id_MAX_VALUE_def word_le_nat_alt)

lemma sessions_distinct: "sessions_rep SN sessions base m xs \<Longrightarrow> distinct xs"
  unfolding sessions_rep_def by (blast dest: iq_queue_keys)

lemma sessions_card: "sessions_rep SN sessions base m xs \<Longrightarrow> card (dom m) = base"
  using sessions_distinct [of SN sessions base m xs] distinct_card [of xs]
  by (simp add: sessions_rep_def)

lemma session_idx_other: "k \<notin> set xs \<Longrightarrow> map (session_idx (m(k := v))) xs = map (session_idx m) xs"
  by (rule map_cong [OF refl]) (auto simp: session_idx_def)

lemma mset_removeAll: "distinct xs \<Longrightarrow> k \<in> set xs \<Longrightarrow> mset xs = add_mset k (mset (removeAll k xs))"
  by (induction xs) auto

lemma sessions_get:
  "sessions_rep SN sessions base m xs \<Longrightarrow> sq_get sessions k = Some (m k)"
  unfolding sessions_rep_def by (blast intro: iq_get_rep(1))

text \<open>Writing back a session, with a new buffer or the same one.\<close>

lemma sessions_put:
  assumes "sessions_rep SN sessions base m xs" "m k = Some s" "ga_wf (ss_gather s')"
  shows "\<exists>sessions'. sq_get_mut_set sessions k s' = Some sessions' \<and>
    sessions_rep SN sessions' base (m(k \<mapsto> s')) xs \<and>
    add_mset (ss_buffer_idx s) (table_buffers SN base (m(k \<mapsto> s')) xs) =
      add_mset (ss_buffer_idx s') (table_buffers SN base m xs)"
proof -
  have rep: "iq_rep node_id_usize NODE_K_MAX SN sessions m xs" and xs: "set xs = dom m"
    using assms(1) by (simp_all add: sessions_rep_def)
  have k: "k \<in> set xs" using xs assms(2) by auto
  obtain sessions' where put: "sq_get_mut_set sessions k s' = Some sessions'"
    "iq_rep node_id_usize NODE_K_MAX SN sessions' (m(k \<mapsto> s')) xs"
    using iq_get_mut_set_rep [OF rep, of k s'] assms(2) by auto
  have rep': "sessions_rep SN sessions' base (m(k \<mapsto> s')) xs"
    using assms put(2) k by (auto simp: sessions_rep_def)
  have d: "distinct xs" by (rule sessions_distinct [OF assms(1)])
  let ?R = "mset (map (session_idx m) (removeAll k xs))"
  have split: "mset (map (session_idx f) xs) =
      add_mset (session_idx f k) (mset (map (session_idx f) (removeAll k xs)))" for f
    using mset_removeAll [OF d k] by (metis mset_map image_mset_add_mset)
  have "map (session_idx (m(k \<mapsto> s'))) (removeAll k xs) = map (session_idx m) (removeAll k xs)"
    by (rule session_idx_other) simp
  moreover have "session_idx (m(k \<mapsto> s')) k = ss_buffer_idx s'" "session_idx m k = ss_buffer_idx s"
    using assms(2) by (simp_all add: session_idx_def)
  ultimately have "mset (map (session_idx (m(k \<mapsto> s'))) xs) = add_mset (ss_buffer_idx s') ?R"
    "mset (map (session_idx m) xs) = add_mset (ss_buffer_idx s) ?R"
    by (simp_all only: split)
  then have "add_mset (ss_buffer_idx s) (table_buffers SN base (m(k \<mapsto> s')) xs) =
      add_mset (ss_buffer_idx s') (table_buffers SN base m xs)"
    unfolding table_buffers_def by (simp only: add_mset_commute union_mset_add_mset_left)
  then show ?thesis using put(1) rep' by blast
qed

lemma sessions_touch:
  assumes "sessions_rep SN sessions base m xs" "m k \<noteq> None"
  shows "\<exists>sessions'. sq_enqueue_back sessions k = Some (Inr (), sessions') \<and>
    sessions_rep SN sessions' base m (removeAll k xs @ [k]) \<and>
    table_buffers SN base m (removeAll k xs @ [k]) = table_buffers SN base m xs"
proof -
  have rep: "iq_rep node_id_usize NODE_K_MAX SN sessions m xs" and xs: "set xs = dom m"
    using assms(1) by (simp_all add: sessions_rep_def)
  have k: "k \<in> set xs" using xs assms(2) by auto
  have d: "distinct xs" by (rule sessions_distinct [OF assms(1)])
  have mset: "mset (removeAll k xs @ [k]) = mset xs" using mset_removeAll [OF d k] by simp
  then have len: "length (removeAll k xs @ [k]) = length xs" by (metis size_mset)
  obtain sessions' where "sq_enqueue_back sessions k = Some (Inr (), sessions')"
    "iq_rep node_id_usize NODE_K_MAX SN sessions' m (removeAll k xs @ [k])"
    using iq_enqueue_rep(2) [OF rep assms(2)] by blast
  moreover from this(2) have "sessions_rep SN sessions' base m (removeAll k xs @ [k])"
    using assms(1) len xs k by (auto simp: sessions_rep_def)
  moreover have "table_buffers SN base m (removeAll k xs @ [k]) = table_buffers SN base m xs"
    unfolding table_buffers_def using mset by (metis mset_map)
  ultimately show ?thesis by blast
qed

text \<open>A new session at the front of the queue, with a free slot and buffer \<open>idx\<close>.\<close>

definition new_session :: "nat \<Rightarrow> session" where
  "new_session idx = \<lparr> ss_gather = ga_default, ss_buffer_idx = idx \<rparr>"

lemma sessions_add:
  assumes "iq_rep node_id_usize NODE_K_MAX SN sessions m xs" "set xs = dom m" "m k = None"
    "length xs < SN" "node_id_wf k"
  shows "\<exists>s1 s2. iq_insert node_id_usize NODE_K_MAX sessions k (new_session idx) = Some (Inr None, s1) \<and>
    iq_enqueue_front node_id_usize NODE_K_MAX s1 k = Some (Inr (), s2) \<and>
    iq_rep node_id_usize NODE_K_MAX SN s2 (m(k \<mapsto> new_session idx)) (k # xs) \<and>
    mset (map (session_idx (m(k \<mapsto> new_session idx))) (k # xs)) =
      add_mset idx (mset (map (session_idx m) xs))"
proof -
  have "card (dom m) < SN" using assms(2,4) iq_queue_keys(1) [OF assms(1)] distinct_card by metis
  then obtain s1 where s1: "iq_insert node_id_usize NODE_K_MAX sessions k (new_session idx) = Some (Inr None, s1)"
    "iq_rep node_id_usize NODE_K_MAX SN s1 (m(k \<mapsto> new_session idx)) xs"
    using iq_insert_rep [OF assms(1) inj_node_id_usize _ assms(3)] node_id_usize_le [OF assms(5)]
    by (metis NODE_K_MAX)
  have k: "k \<notin> set xs" using assms(2,3) by auto
  obtain s2 where "iq_enqueue_front node_id_usize NODE_K_MAX s1 k = Some (Inr (), s2)"
    "iq_rep node_id_usize NODE_K_MAX SN s2 (m(k \<mapsto> new_session idx)) (k # xs)"
    using iq_enqueue_rep(1) [OF s1(2), of k] k by auto
  moreover have "session_idx (m(k \<mapsto> new_session idx)) k = idx"
    by (simp add: session_idx_def new_session_def)
  then have "mset (map (session_idx (m(k \<mapsto> new_session idx))) (k # xs)) =
      add_mset idx (mset (map (session_idx m) xs))"
    by (simp only: list.map mset.simps session_idx_other [OF k])
  ultimately show ?thesis using s1(1) by blast
qed

text \<open>
  A frame of an unknown source: a session is started in a fresh buffer, or in the one of the
  least recently active session when that has expired; otherwise nothing changes.
\<close>

definition rx_session :: "session_queue \<Rightarrow> node_id \<Rightarrow> session option" where
  "rx_session sessions k = (case sq_get sessions k of Some s \<Rightarrow> s | None \<Rightarrow> None)"

lemma rx_session_rep: "sessions_rep SN sessions base m xs \<Longrightarrow> rx_session sessions k = m k"
  by (simp only: rx_session_def sessions_get option.case)

definition session_expired ::
  "(instant \<Rightarrow> duration \<Rightarrow> instant) \<Rightarrow> duration \<Rightarrow> session \<Rightarrow> instant \<Rightarrow> bool" where
  "session_expired sadd timeout s ts \<longleftrightarrow> (case ga_last_transfer_timestamp (ss_gather s) of
     Some (Some t) \<Rightarrow> sadd t timeout < ts | Some None \<Rightarrow> True | None \<Rightarrow> False)"

definition session_available ::
  "(instant \<Rightarrow> duration \<Rightarrow> instant) \<Rightarrow> nat \<Rightarrow> duration \<Rightarrow> session_table \<Rightarrow> instant \<Rightarrow> bool" where
  "session_available sadd SN timeout tab ts \<longleftrightarrow> snd tab < SN \<or>
     (case iq_front (fst tab) of
        Some (Some oldest) \<Rightarrow> pred_option (\<lambda>s. session_expired sadd timeout s ts) (rx_session (fst tab) oldest)
      | _ \<Rightarrow> False)"

lemma start_session_rep:
  assumes "sessions_rep SN sessions base m xs" "m k = None" "node_id_wf k" "0 < SN"
  shows "\<exists>sessions' base' m' xs'. start_session sadd SN timeout (sessions, base) k ts = Some (sessions', base') \<and>
    sessions_rep SN sessions' base' m' xs' \<and>
    table_buffers SN base' m' xs' = table_buffers SN base m xs \<and>
    (if session_available sadd SN timeout (sessions, base) ts
     then \<exists>idx. m' k = Some (new_session idx) else m' = m)"
proof -
  have rep: "iq_rep node_id_usize NODE_K_MAX SN sessions m xs" and xs: "set xs = dom m"
    and b: "base \<le> SN" "length xs = base" "SN \<le> 128"
    and wf: "\<And>k s. m k = Some s \<Longrightarrow> ga_wf (ss_gather s)"
    using assms(1) by (auto simp: sessions_rep_def)
  have absent: "iq_contains node_id_usize NODE_K_MAX sessions k = Some False"
    using iq_get_rep(2) [OF rep, of k] assms(2) by simp
  show ?thesis
  proof (cases "base < SN")
    case True
    then have alloc: "allocate_session_buffer SN base = Some (Some base, base + 1)"
      using b(3) by (simp add: allocate_session_buffer_def)
    obtain s1 s2 where s: "iq_insert node_id_usize NODE_K_MAX sessions k (new_session base) = Some (Inr None, s1)"
      "iq_enqueue_front node_id_usize NODE_K_MAX s1 k = Some (Inr (), s2)"
      "iq_rep node_id_usize NODE_K_MAX SN s2 (m(k \<mapsto> new_session base)) (k # xs)"
      "mset (map (session_idx (m(k \<mapsto> new_session base))) (k # xs)) =
        add_mset base (mset (map (session_idx m) xs))"
      using sessions_add [OF rep xs assms(2) _ assms(3), of base] True b(2) by auto
    have run: "start_session sadd SN timeout (sessions, base) k ts = Some (s2, base + 1)"
      using absent alloc s(1,2) by (simp add: start_session_def flip: new_session_def)
    have "sessions_rep SN s2 (base + 1) (m(k \<mapsto> new_session base)) (k # xs)"
      using s(3) xs b True wf by (auto simp: sessions_rep_def new_session_def)
    moreover have "table_buffers SN (base + 1) (m(k \<mapsto> new_session base)) (k # xs) =
        table_buffers SN base m xs"
      unfolding table_buffers_def s(4) using True by (simp add: upt_conv_Cons)
    moreover have "session_available sadd SN timeout (sessions, base) ts"
      using True by (simp add: session_available_def)
    ultimately show ?thesis using run
      by (intro exI [of _ s2] exI [of _ "base + 1"] exI [of _ "m(k \<mapsto> new_session base)"] exI [of _ "k # xs"]) auto
  next
    case False
    then have full: "base = SN" using b(1) by simp
    then obtain o_src ys where ys: "xs = o_src # ys" using b(2) assms(4) by (cases xs) auto
    have front: "iq_front sessions = Some (Some o_src)" using iq_front_rep(1) [OF rep] ys by simp
    obtain old where old: "m o_src = Some old" using xs ys by auto
    have get: "sq_get sessions o_src = Some (Some old)" using iq_get_rep(1) [OF rep, of o_src] old by simp
    obtain last where last: "ga_last_transfer_timestamp (ss_gather old) = Some last"
      using wf [OF old] by (cases "g_state (ss_gather old)")
        (auto simp: ga_last_transfer_timestamp_def ga_wf_def)
    let ?expired = "case last of None \<Rightarrow> True | Some t \<Rightarrow> sadd t timeout < ts"
    have available: "session_available sadd SN timeout (sessions, base) ts \<longleftrightarrow> ?expired"
      using full front last old by (simp add: session_available_def rx_session_rep [OF assms(1)] session_expired_def
          split: option.split)
    show ?thesis
    proof (cases ?expired)
      case False
      then have "start_session sadd SN timeout (sessions, base) k ts = Some (sessions, base)"
        using absent front get last full
        by (simp add: start_session_def allocate_session_buffer_def)
      then show ?thesis using assms(1) False available
        by (intro exI [of _ sessions] exI [of _ base] exI [of _ m] exI [of _ xs]) simp
    next
      case True
      have d: "distinct xs" by (rule sessions_distinct [OF assms(1)])
      have rem: "removeAll o_src xs = ys" using d ys by simp
      obtain s0 where s0: "iq_remove node_id_usize NODE_K_MAX sessions o_src = Some (Some old, s0)"
        "iq_rep node_id_usize NODE_K_MAX SN s0 (m(o_src := None)) ys"
        using iq_remove_rep [OF rep inj_node_id_usize old] d rem by auto
      let ?m = "m(o_src := None)" and ?idx = "ss_buffer_idx old"
      have ys_dom: "set ys = dom ?m" using xs ys d by auto
      have len: "length ys < SN" using b(2) full ys by simp
      have "?m k = None" using assms(2) by simp
      from sessions_add [OF s0(2) ys_dom this len assms(3), of ?idx]
      obtain s1 s2 where s: "iq_insert node_id_usize NODE_K_MAX s0 k (new_session ?idx) = Some (Inr None, s1)"
        "iq_enqueue_front node_id_usize NODE_K_MAX s1 k = Some (Inr (), s2)"
        "iq_rep node_id_usize NODE_K_MAX SN s2 (?m(k \<mapsto> new_session ?idx)) (k # ys)"
        "mset (map (session_idx (?m(k \<mapsto> new_session ?idx))) (k # ys)) =
          add_mset ?idx (mset (map (session_idx ?m) ys))" by blast
      have run: "start_session sadd SN timeout (sessions, base) k ts = Some (s2, base)"
        using absent front get last full True s0(1) s(1,2)
        by (simp add: start_session_def allocate_session_buffer_def flip: new_session_def)
      have "sessions_rep SN s2 base (?m(k \<mapsto> new_session ?idx)) (k # ys)"
        using s(3) ys_dom b ys wf by (auto simp: sessions_rep_def new_session_def)
      moreover have idx: "session_idx m o_src = ?idx" using old by (simp add: session_idx_def)
      have "map (session_idx ?m) ys = map (session_idx m) ys"
        using session_idx_other [of o_src ys m None] d ys by simp
      then have "table_buffers SN base (?m(k \<mapsto> new_session ?idx)) (k # ys) =
          table_buffers SN base m xs"
        unfolding table_buffers_def s(4) using idx by (simp only: ys list.map mset.simps)
      ultimately show ?thesis using run True available
        by (intro exI [of _ s2] exI [of _ base] exI [of _ "?m(k \<mapsto> new_session ?idx)"] exI [of _ "k # ys"]) auto
    qed
  qed
qed

end
