(* ===== verification/Rx_Buffer.thy ===== *)
theory Rx_Buffer
  imports Rx_Sessions
begin

text \<open>
  The contract of a receive buffer (\<open>DynamicRxBuffer\<close> of \<open>emcyphal/src/buffer.rs\<close>): its
  contents are a FIFO of transfers per priority, \<open>try_pop\<close> takes the most urgent one that the
  pmask admits, and the readiness is the set of the priorities present. What a client may
  conclude from the contract is proved once, in the locale.
\<close>

type_synonym rx_item = "transfer_meta \<times> u8 list"
type_synonym rx_contents = "priority \<Rightarrow> rx_item list"

text \<open>The frames a driver may push: identifiers in range and a data vector of its length.\<close>

definition frame_wf :: "frame \<Rightarrow> bool" where
  "frame_wf f \<longleftrightarrow> data_wf (f_data f) \<and>
     (\<forall>n. h_source (f_header f) = Some n \<longrightarrow> node_id_wf n)"

definition admitted :: "('a list) \<Rightarrow> priority_set \<Rightarrow> priority \<Rightarrow> bool" where
  "admitted xs pmask p \<longleftrightarrow> xs \<noteq> [] \<and> ps_contains pmask p"

text \<open>What \<open>try_pop\<close> has to do: take the head of the first admitted priority.\<close>

definition rx_popped ::
  "rx_contents \<Rightarrow> priority_set \<Rightarrow> rx_item option \<Rightarrow> rx_contents \<Rightarrow> bool" where
  "rx_popped A pmask item A' \<longleftrightarrow> (case item of
     None \<Rightarrow> (\<forall>p. \<not> admitted (A p) pmask p) \<and> A' = A
   | Some i \<Rightarrow> (\<exists>p. admitted (A p) pmask p \<and> (\<forall>r. admitted (A r) pmask r \<longrightarrow> p \<le> r) \<and>
       i = hd (A p) \<and> A' = A(p := tl (A p))))"

text \<open>Popping at most \<open>n\<close> times, as a socket that empties its buffer does.\<close>

fun drain :: "('s \<Rightarrow> (rx_item option \<times> 's) exec) \<Rightarrow> nat \<Rightarrow> 's \<Rightarrow> (rx_item list \<times> 's) exec" where
  "drain pop 0 s = ret ([], s)"
| "drain pop (Suc n) s = do {
     (item, s) \<leftarrow> pop s;
     (case item of
        None \<Rightarrow> ret ([], s)
      | Some i \<Rightarrow> do { (items, s) \<leftarrow> drain pop n s; ret (i # items, s) })
   }"

text \<open>All transfers in the order of their priorities, each priority in FIFO order.\<close>

definition in_order :: "rx_contents \<Rightarrow> rx_item list" where
  "in_order A = concat (map A all_priorities)"

lemma length_in_order: "length (in_order A) = pq_size A"
  by (simp add: in_order_def pq_size_def length_concat comp_def)

lemma in_order_pop:
  assumes "rx_popped A ps_ALL (Some i) A'"
  shows "in_order A = i # in_order A'"
proof -
  obtain p where p: "A p \<noteq> []" "\<And>r. A r \<noteq> [] \<Longrightarrow> p \<le> r" "i = hd (A p)" "A' = A(p := tl (A p))"
    using assms by (auto simp: rx_popped_def admitted_def)
  have empty: "A r = []" if "\<not> p \<le> r" for r using p(2) that by blast
  have "\<exists>pre post. all_priorities = pre @ p # post \<and> (\<forall>r \<in> set pre. \<not> p \<le> r) \<and> p \<notin> set post"
    by (cases p) (auto simp: all_priorities_def level_le_iff Cons_eq_append_conv)
  then obtain pre post where split: "all_priorities = pre @ p # post"
    "\<forall>r \<in> set pre. \<not> p \<le> r" "p \<notin> set post" by blast
  have pre: "concat (map A pre) = []" "concat (map A' pre) = []"
    using split(2) empty p(4) by auto
  have post: "map A' post = map A post" using split(3) p(4) by auto
  have "A p = i # A' p" using p(1,3,4) by simp
  then show ?thesis by (simp add: in_order_def split(1) pre post)
qed

lemma in_order_none: "rx_popped A ps_ALL None A' \<Longrightarrow> in_order A = [] \<and> A' = A"
  by (simp add: rx_popped_def admitted_def in_order_def)

lemma rx_popped_take:
  assumes "ps_first (ps_and ready pmask) = Some p" "\<And>r. ps_contains ready r \<longleftrightarrow> A r \<noteq> []"
  shows "rx_popped A pmask (Some (hd (A p))) (A(p := tl (A p)))"
  using assms unfolding ps_first_iff by (auto simp: rx_popped_def admitted_def)

text \<open>The driver pushes, a task polls and pops: any interleaving is a sequence of operations.\<close>

datatype rx_op = PushFrame frame | PollPop priority_set | TryPop priority_set

fun rx_op_wf :: "rx_op \<Rightarrow> bool" where
  "rx_op_wf (PushFrame f) = frame_wf f"
| "rx_op_wf (PollPop m) = True"
| "rx_op_wf (TryPop m) = True"

fun rx_step ::
  "('s \<Rightarrow> frame \<Rightarrow> 's exec) \<Rightarrow> ('s \<Rightarrow> priority_set \<Rightarrow> priority_set poll \<times> 's) \<Rightarrow>
    ('s \<Rightarrow> priority_set \<Rightarrow> (rx_item option \<times> 's) exec) \<Rightarrow> rx_op \<Rightarrow> 's \<Rightarrow> 's exec" where
  "rx_step push poll pop (PushFrame f) s = push s f"
| "rx_step push poll pop (PollPop m) s = ret (snd (poll s m))"
| "rx_step push poll pop (TryPop m) s = do { (item, s) \<leftarrow> pop s m; ret s }"

locale rx_buffer =
  fixes rep :: "'s \<Rightarrow> rx_contents \<Rightarrow> bool"
    and push :: "'s \<Rightarrow> frame \<Rightarrow> 's exec"
    and ready :: "'s \<Rightarrow> priority_set"
    and poll :: "'s \<Rightarrow> priority_set \<Rightarrow> priority_set poll \<times> 's"
    and pop :: "'s \<Rightarrow> priority_set \<Rightarrow> (rx_item option \<times> 's) exec"
  assumes push_rep: "rep s A \<Longrightarrow> frame_wf f \<Longrightarrow> \<exists>s' A'. push s f = Some s' \<and> rep s' A'"
    and ready_rep: "rep s A \<Longrightarrow> ps_contains (ready s) p \<longleftrightarrow> A p \<noteq> []"
    and poll_rep: "rep s A \<Longrightarrow> rep (snd (poll s pmask)) A"
    and poll_ready: "fst (poll s pmask) = (let ps = ps_and (ready s) pmask in
      if ps_is_empty ps then Pending else Ready ps)"
    and pop_rep: "rep s A \<Longrightarrow> \<exists>item s' A'. pop s pmask = Some (item, s') \<and> rep s' A' \<and>
      rx_popped A pmask item A'"
begin

text \<open>A poll is ready exactly when a pop with the same mask succeeds.\<close>

lemma poll_iff_pop:
  assumes "rep s A" "pop s pmask = Some (item, s')"
  shows "fst (poll s pmask) = Pending \<longleftrightarrow> item = None"
proof -
  obtain A' where "rx_popped A pmask item A'" using pop_rep [OF assms(1), of pmask] assms(2) by auto
  then have "item = None \<longleftrightarrow> (\<forall>p. \<not> admitted (A p) pmask p)"
    by (cases item) (auto simp: rx_popped_def)
  then show ?thesis
    unfolding poll_ready Let_def ps_is_empty_iff admitted_def using ready_rep [OF assms(1)] by auto
qed

text \<open>No interleaving of operations makes the buffer panic.\<close>

lemma run_ops:
  "rep s A \<Longrightarrow> list_all rx_op_wf ops \<Longrightarrow>
    \<exists>s' A'. for_each (rx_step push poll pop) ops s = Some s' \<and> rep s' A'"
proof (induction ops arbitrary: s A)
  case (Cons op ops)
  have "\<exists>s1 A1. rx_step push poll pop op s = Some s1 \<and> rep s1 A1"
  proof (cases op)
    case (PushFrame f)
    then show ?thesis using push_rep [OF Cons.prems(1), of f] Cons.prems(2) by simp
  next
    case (PollPop m)
    then show ?thesis using poll_rep [OF Cons.prems(1), of m] by auto
  next
    case (TryPop m)
    then show ?thesis using pop_rep [OF Cons.prems(1), of m] by auto
  qed
  then obtain s1 A1 where s1: "rx_step push poll pop op s = Some s1" "rep s1 A1" by blast
  have "list_all rx_op_wf ops" using Cons.prems(2) by simp
  from Cons.IH [OF s1(2) this] s1(1) show ?case by simp
qed auto

text \<open>A drained buffer delivers everything, most urgent first, and is empty.\<close>

lemma drain_in_order:
  "rep s A \<Longrightarrow> pq_size A \<le> n \<Longrightarrow>
    \<exists>s'. drain (\<lambda>s. pop s ps_ALL) n s = Some (in_order A, s') \<and> rep s' (\<lambda>p. [])"
proof (induction n arbitrary: s A)
  case 0
  then have "A = (\<lambda>p. [])" by (simp add: pq_size_0 fun_eq_iff)
  then show ?case using 0 by (simp add: in_order_def all_priorities_def)
next
  case (Suc n)
  obtain item s1 A1 where pop: "pop s ps_ALL = Some (item, s1)" "rep s1 A1"
    "rx_popped A ps_ALL item A1" using pop_rep [OF Suc.prems(1)] by blast
  show ?case
  proof (cases item)
    case None
    then have A: "in_order A = []" "A1 = A" using in_order_none pop(3) by auto
    have "A = (\<lambda>p. [])" using A(1) length_in_order [of A] by (auto simp: pq_size_0 fun_eq_iff)
    then show ?thesis using pop None A by simp
  next
    case (Some i)
    have eq: "in_order A = i # in_order A1" by (rule in_order_pop) (use pop(3) Some in simp)
    have "length (in_order A) \<le> Suc n" using Suc.prems(2) by (simp only: length_in_order)
    then have "length (in_order A1) \<le> n" by (simp add: eq)
    then have "pq_size A1 \<le> n" by (simp only: length_in_order)
    from Suc.IH [OF pop(2) this] pop(1) Some eq show ?thesis by auto
  qed
qed

end

section \<open>Shared lemmas of the buffers\<close>

text \<open>An owner's buffer exists and belongs to no queued transfer.\<close>

lemma owned_unique:
  assumes "X + Y = mset [0..<n]" "i \<in># X"
  shows "i < n" "i \<notin># Y"
proof -
  have "i \<in># mset [0..<n]" using assms by (metis union_iff)
  then show "i < n" by simp
  have "count (mset [0..<n]) i \<le> 1" using distinct_count_atmost_1 [of "[0..<n]"] by (simp split: if_splits)
  then have "count X i + count Y i \<le> 1" unfolding assms(1) [symmetric] by simp
  moreover have "1 \<le> count X i" using assms(2) by (simp only: count_greater_eq_one_iff)
  ultimately have "\<not> 1 \<le> count Y i" by linarith
  then show "i \<notin># Y" by (metis count_greater_eq_one_iff)
qed

lemma session_buffer_mem:
  assumes "sessions_rep SN sessions base m xs" "m k = Some s"
  shows "ss_buffer_idx s \<in># table_buffers SN base m xs"
proof -
  have "k \<in> set xs" using assms by (auto simp: sessions_rep_def)
  then have "session_idx m k \<in># mset (map (session_idx m) xs)" by simp
  then show ?thesis using assms(2) by (simp add: table_buffers_def session_idx_def)
qed

lemma buffers_write:
  assumes "\<forall>b \<in> set bs. length b = B" "length b = B"
  shows "\<forall>b \<in> set (bs[i := b]). length b = B"
  using assms set_update_subset_insert [of bs i b] by blast

lemma take_min_length [simp]: "take (min n (length xs)) xs = take n xs"
  by (simp add: min_def)

lemma take_copy_at_0:
  "take (min (length xs) (length b)) (copy_at b 0 (take (min (length xs) (length b)) xs)) =
    take (length b) xs"
  by (cases "length xs \<le> length b") (simp_all add: copy_at_def)

lemma frame_wf_length: "frame_wf f \<Longrightarrow> length (data_deref (f_data f)) < 2 ^ 32"
  using length_data_deref [of "f_data f"] dl_wf_le [of "d_length (f_data f)"]
  by (auto simp: frame_wf_def data_wf_def)

lemma ga_push_priority:
  assumes "ga_push_frame sadd g timeout buffer pr data ts = Some (Some t, g', buffer')"
  shows "t_priority t = pr"
proof -
  have run: "t_priority t = s_priority seg"
    if "ga_run_action act g buffer seg = Some (Some t, g', buffer')" for act seg
    using that by (cases act) (auto simp: ga_handlers Let_def split: if_splits option.splits bind_splits)
  show ?thesis using assms
    by (auto simp: ga_push_frame_def Let_def split: option.splits bind_splits dest!: run)
qed

text \<open>What a transfer received by a session puts into the queue.\<close>

definition regular_item ::
  "node_id \<Rightarrow> bool \<Rightarrow> transfer \<Rightarrow> u8 list \<Rightarrow> priority \<Rightarrow> rx_item" where
  "regular_item source loop_back t buffer p =
     (\<lparr> tm_priority = p, tm_address = Some source, tm_transfer_id = t_id t,
        tm_timestamp = t_timestamp t, tm_loop_back = loop_back \<rparr>,
      take (unat (t_length t)) buffer)"

text \<open>An anonymous frame is a whole transfer, offered at once.\<close>

definition anonymous_item ::
  "bool \<Rightarrow> nat \<Rightarrow> u8 list \<Rightarrow> transfer_id \<Rightarrow> instant \<Rightarrow> priority \<Rightarrow> rx_item" where
  "anonymous_item loop_back B payload tid ts p =
     (\<lparr> tm_priority = p, tm_address = None, tm_transfer_id = tid, tm_timestamp = ts,
        tm_loop_back = loop_back \<rparr>, take B payload)"

definition single_frame :: "u8 list \<Rightarrow> bool" where
  "single_frame d \<longleftrightarrow> d \<noteq> [] \<and> tail_sot (TailByte (last d)) \<and> tail_eot (TailByte (last d)) \<and>
     tail_toggle (TailByte (last d)) = SOT_TOGGLE_BIT"

lemma single_frame_starts: "single_frame d \<Longrightarrow> slice_last d = Some (last d) \<and> tail_sot (TailByte (last d))"
  by (simp add: single_frame_def slice_last_def)

section \<open>What a frame completes\<close>

text \<open>
  What a buffer has to make of a frame of its data specifier, in terms of its sessions and
  buffers. A single frame is a whole transfer when it is anonymous, or when it is the first one
  of its source and a session can be started. The frames of a source that has a session go to
  its reassembly (\<open>Gather\<close>), and the transfer it produces, if any, is complete. A frame of an
  unknown source that starts no transfer, or finds no session, completes nothing.
\<close>

definition rx_starts :: "u8 list \<Rightarrow> bool" where
  "rx_starts d \<longleftrightarrow> (case slice_last d of None \<Rightarrow> False | Some byte \<Rightarrow> tail_sot (TailByte byte))"

definition single_item :: "node_id option \<Rightarrow> bool \<Rightarrow> nat \<Rightarrow> u8 list \<Rightarrow> instant \<Rightarrow> priority \<Rightarrow> rx_item" where
  "single_item source loop_back B d ts p =
     (\<lparr> tm_priority = p, tm_address = source, tm_transfer_id = tail_transfer_id (TailByte (last d)),
        tm_timestamp = ts, tm_loop_back = loop_back \<rparr>, take B (butlast d))"

definition rx_completed ::
  "(instant \<Rightarrow> duration \<Rightarrow> instant) \<Rightarrow> nat \<Rightarrow> nat \<Rightarrow> duration \<Rightarrow> session_table \<Rightarrow> u8 list list \<Rightarrow> frame \<Rightarrow>
    rx_item option" where
  "rx_completed sadd SN B timeout tab buffers f =
     (let d = data_deref (f_data f); p = h_priority (f_header f); ts = f_timestamp f; lb = f_loop_back f in
      case h_source (f_header f) of
        None \<Rightarrow> if single_frame d then Some (single_item None lb B d ts p) else None
      | Some k \<Rightarrow> (case rx_session (fst tab) k of
          Some s \<Rightarrow> (case ga_push_frame sadd (ss_gather s) timeout (buffers ! ss_buffer_idx s) p d ts of
              Some (Some t, _, b) \<Rightarrow> Some (regular_item k lb t b p)
            | _ \<Rightarrow> None)
        | None \<Rightarrow> if single_frame d \<and> session_available sadd SN timeout tab ts
            then Some (single_item (Some k) lb B d ts p) else None))"

text \<open>
  What becomes of the session of the source: its reassembly takes the frame, in its buffer, which
  it keeps until it has produced a transfer; a new session begins with an idle one.
\<close>

definition rx_advanced ::
  "(instant \<Rightarrow> duration \<Rightarrow> instant) \<Rightarrow> duration \<Rightarrow> frame \<Rightarrow> gather \<Rightarrow> u8 list \<Rightarrow> session option \<Rightarrow>
    u8 list list \<Rightarrow> bool" where
  "rx_advanced sadd timeout f g b s' buffers' \<longleftrightarrow> (\<exists>t g' b' s.
     ga_push_frame sadd g timeout b (h_priority (f_header f)) (data_deref (f_data f)) (f_timestamp f) =
       Some (t, g', b') \<and> s' = Some s \<and> ss_gather s = g' \<and>
     (t = None \<longrightarrow> buffers' ! ss_buffer_idx s = b'))"

definition rx_sessions_after ::
  "(instant \<Rightarrow> duration \<Rightarrow> instant) \<Rightarrow> nat \<Rightarrow> nat \<Rightarrow> duration \<Rightarrow> session_table \<Rightarrow> u8 list list \<Rightarrow> frame \<Rightarrow>
    session_queue \<Rightarrow> u8 list list \<Rightarrow> bool" where
  "rx_sessions_after sadd SN B timeout tab buffers f sessions' buffers' \<longleftrightarrow>
     (\<forall>k. h_source (f_header f) = Some k \<longrightarrow> (case rx_session (fst tab) k of
        Some s \<Rightarrow> rx_advanced sadd timeout f (ss_gather s) (buffers ! ss_buffer_idx s)
          (rx_session sessions' k) buffers'
      | None \<Rightarrow> if rx_starts (data_deref (f_data f)) \<and> session_available sadd SN timeout tab (f_timestamp f)
          then \<exists>b. length b = B \<and> rx_advanced sadd timeout f ga_default b (rx_session sessions' k) buffers'
          else rx_session sessions' k = None))"

text \<open>A new session completes a transfer exactly with a single frame.\<close>

lemma take_copy_at_all: "take (length xs) (copy_at b 0 (take (min (length xs) (length b)) xs)) = take (length b) xs"
  by (cases "length xs \<le> length b") (simp_all add: copy_at_def)

lemma ga_fresh_single:
  assumes "ga_push_frame sadd ga_default timeout b p d ts = Some (t, g', b')" "length d < 2 ^ 32" "rx_starts d"
  shows "case t of None \<Rightarrow> \<not> single_frame d
    | Some tr \<Rightarrow> single_frame d \<and> regular_item k lb tr b' p = single_item (Some k) lb (length b) d ts p"
proof -
  obtain pay x where d: "d = pay @ [x]" using assms(3) by (cases d rule: rev_cases) (simp_all add: rx_starts_def slice_last_def)
  have sot: "tail_sot (TailByte x)" using assms(3) by (simp add: d rx_starts_def slice_last_def)
  have len: "length pay < 2 ^ 32" using assms(2) by (simp add: d)
  let ?odd = "tail_toggle (TailByte x) \<noteq> SOT_TOGGLE_BIT" and ?eot = "tail_eot (TailByte x)"
  let ?seg = "\<lparr> s_transfer_id = tail_transfer_id (TailByte x), s_priority = p, s_payload = pay, s_timestamp = ts \<rparr>"
  have single: "single_frame d \<longleftrightarrow> ?eot \<and> \<not> ?odd" using sot by (auto simp: single_frame_def d)
  have run: "ga_run_action (ga_action_of Idle True ?eot ?odd False) ga_default b ?seg = Some (t, g', b')"
    using assms(1) sot by (simp add: ga_push_frame_def d split_last_def ga_tid_match_def ga_default_def Let_def)
  consider "?odd" | "\<not> ?odd" "?eot" | "\<not> ?odd" "\<not> ?eot" by blast
  then show ?thesis
  proof cases
    case 1
    then show ?thesis using run single by (auto simp: ga_stop_assembly_def)
  next
    case 2
    then have "t = Some \<lparr> t_id = tail_transfer_id (TailByte x), t_priority = p, t_timestamp = ts,
        t_length = of_nat (length pay) \<rparr>" "b' = copy_at b 0 (take (min (length pay) (length b)) pay)"
      using run len by (auto simp: ga_single_frame_assembly_def u32_try_from_def Let_def split: if_splits)
    then show ?thesis using single 2 len take_copy_at_all [of pay b]
      by (simp add: regular_item_def single_item_def d unat_of_nat_u32)
  next
    case 3
    then have "t = None" using run
      by (auto simp: ga_accumulate_first_def ga_stop_assembly_def Let_def split: if_splits option.splits)
    then show ?thesis using single 3 by simp
  qed
qed

end
