(* ===== verification/Rx_Fifo.thy ===== *)
theory Rx_Fifo
  imports Rx_Buffer
begin

text \<open>
  The priority FIFO receive buffer: \<open>emcyphal/src/buffer/rx_priority_fifo.rs\<close>, which the
  message buffer \<open>rx_msg/priority_fifo.rs\<close> and the request buffer \<open>rx_req/priority_fifo.rs\<close>
  wrap. \<open>SN\<close> and \<open>TN\<close> are the const generics; the object owns \<open>SN + TN + 1\<close> buffers.
\<close>

section \<open>The transfer queue\<close>

record transfer_entry =
  te_source :: "node_id option"
  te_transfer_id :: transfer_id
  te_timestamp :: instant
  te_loop_back :: bool
  te_buffer_length :: nat
  te_buffer_idx :: nat

text \<open>\<open>free_buffers\<close> is a vector of capacity \<open>TN\<close>; the last element is popped first.\<close>

record transfer_queue =
  tq_queue :: "transfer_entry priority_queue"
  tq_free_buffers :: "nat list"

definition tq_new :: "nat \<Rightarrow> nat \<Rightarrow> transfer_queue option exec" where
  "tq_new TN buffer_index_base =
     (if buffer_index_base + TN > 255 + 1 then ret None
      else do {
        queue \<leftarrow> pq_new TN;
        ret (Some \<lparr> tq_queue = queue,
                    tq_free_buffers = map (\<lambda>i. buffer_index_base + i) [0..<TN] \<rparr>)
      })"

definition tq_allocate_buffer :: "transfer_queue \<Rightarrow> priority \<Rightarrow> (nat option \<times> transfer_queue) exec" where
  "tq_allocate_buffer tq priority = (case split_last (tq_free_buffers tq) of
     Some (idx, rest) \<Rightarrow> ret (Some idx, tq\<lparr> tq_free_buffers := rest \<rparr>)
   | None \<Rightarrow> do {
       max_priority \<leftarrow> unwrap (pq_max_priority (tq_queue tq));
       if priority \<le> max_priority then do {
         (entry, queue) \<leftarrow> pq_pop (tq_queue tq) max_priority;
         entry \<leftarrow> unwrap entry;
         ret (Some (te_buffer_idx entry), tq\<lparr> tq_queue := queue \<rparr>)
       } else ret (None, tq)
     })"

definition tq_free_buffer :: "nat \<Rightarrow> transfer_queue \<Rightarrow> nat \<Rightarrow> (nat + unit) \<times> transfer_queue" where
  "tq_free_buffer TN tq idx =
     (if length (tq_free_buffers tq) < TN
      then (Inr (), tq\<lparr> tq_free_buffers := tq_free_buffers tq @ [idx] \<rparr>) else (Inl idx, tq))"

definition tq_push ::
  "transfer_queue \<Rightarrow> priority \<Rightarrow> transfer_entry \<Rightarrow> ((transfer_entry + unit) \<times> transfer_queue) exec" where
  "tq_push tq priority transfer = do {
     (r, queue) \<leftarrow> pq_push (tq_queue tq) priority transfer;
     ret (r, tq\<lparr> tq_queue := queue \<rparr>)
   }"

definition tq_priorities :: "transfer_queue \<Rightarrow> priority_set" where
  "tq_priorities tq = pq_priorities (tq_queue tq)"

definition tq_pop ::
  "transfer_queue \<Rightarrow> priority_set \<Rightarrow> ((priority \<times> transfer_entry) option \<times> transfer_queue) exec" where
  "tq_pop tq priority_mask =
     (case ps_first (ps_and (pq_priorities (tq_queue tq)) priority_mask) of
        None \<Rightarrow> ret (None, tq)
      | Some priority \<Rightarrow> do {
          (entry, queue) \<leftarrow> pq_pop (tq_queue tq) priority;
          entry \<leftarrow> unwrap entry;
          ret (Some (priority, entry), tq\<lparr> tq_queue := queue \<rparr>)
        })"

section \<open>The buffer\<close>

record rx_fifo =
  rf_data_specifier :: data_specifier
  rf_buffers :: "u8 list list"
  rf_sessions :: session_queue
  rf_session_buffer_base :: nat
  rf_transfers :: transfer_queue
  rf_readout_buffer_idx :: nat
  rf_timeout :: duration
  rf_priority_trigger :: priority_trigger

text \<open>
  The parameters of a buffer type: the addition of a timeout to an instant (from the time
  library) and the const generics.
\<close>

record rx_params =
  rp_sadd :: "instant \<Rightarrow> duration \<Rightarrow> instant"
  rp_SN :: nat
  rp_TN :: nat

definition rf_new ::
  "rx_params \<Rightarrow> data_specifier \<Rightarrow> duration \<Rightarrow> u8 list list \<Rightarrow> rx_fifo exec" where
  "rf_new P data_specifier timeout buffers = do {
     assert_that (length buffers = rp_SN P + rp_TN P + 1);
     sessions \<leftarrow> iq_new NODE_K_MAX (rp_SN P);
     base \<leftarrow> u8_of (rp_SN P);
     transfers \<leftarrow> tq_new (rp_TN P) base;
     transfers \<leftarrow> unwrap transfers;
     readout \<leftarrow> u8_of (rp_SN P + rp_TN P);
     ret \<lparr> rf_data_specifier = data_specifier, rf_buffers = buffers, rf_sessions = sessions,
           rf_session_buffer_base = 0, rf_transfers = transfers, rf_readout_buffer_idx = readout,
           rf_timeout = timeout, rf_priority_trigger = pt_new \<rparr>
   }"

definition rf_try_start_new_session ::
  "rx_params \<Rightarrow> rx_fifo \<Rightarrow> node_id \<Rightarrow> instant \<Rightarrow> rx_fifo exec" where
  "rf_try_start_new_session P st source timestamp = do {
     (sessions, base) \<leftarrow> start_session (rp_sadd P) (rp_SN P) (rf_timeout st)
       (rf_sessions st, rf_session_buffer_base st) source timestamp;
     ret (st\<lparr> rf_sessions := sessions, rf_session_buffer_base := base \<rparr>)
   }"

text \<open>The allocation, the entry and the wake-up of a complete transfer.\<close>

definition rf_push_transfer ::
  "rx_fifo \<Rightarrow> priority \<Rightarrow> transfer_entry \<Rightarrow> rx_fifo exec" where
  "rf_push_transfer st priority entry = do {
     (r, transfers) \<leftarrow> tq_push (rf_transfers st) priority entry;
     ok \<leftarrow> (case r of Inl _ \<Rightarrow> panic | Inr u \<Rightarrow> ret u);
     ret (st\<lparr> rf_transfers := transfers,
             rf_priority_trigger := pt_wake (rf_priority_trigger st) (ps_new_eq priority) \<rparr>)
   }"

text \<open>
  The block \<open>if let Some(transfer) = transfer\<close>: it takes a new buffer for the session and
  queues the old one, or leaves both when there is no room.
\<close>

definition rf_accept ::
  "rx_fifo \<Rightarrow> node_id \<Rightarrow> session \<Rightarrow> priority \<Rightarrow> bool \<Rightarrow> nat \<Rightarrow> transfer option \<Rightarrow>
    (rx_fifo \<times> session) exec" where
  "rf_accept st source session priority loop_back buffer_len transfer = (case transfer of
     None \<Rightarrow> ret (st, session)
   | Some transfer \<Rightarrow> do {
       let transfer_buffer_length = min (unat (t_length transfer)) buffer_len;
       (new_buffer_idx, transfers) \<leftarrow>
         tq_allocate_buffer (rf_transfers st) (t_priority transfer);
       let st = st\<lparr> rf_transfers := transfers \<rparr>;
       (case new_buffer_idx of
          None \<Rightarrow> ret (st, session)
        | Some idx \<Rightarrow> do {
            let entry = \<lparr> te_source = Some source, te_transfer_id = t_id transfer,
              te_timestamp = t_timestamp transfer, te_loop_back = loop_back,
              te_buffer_length = transfer_buffer_length,
              te_buffer_idx = ss_buffer_idx session \<rparr>;
            st \<leftarrow> rf_push_transfer st priority entry;
            ret (st, session\<lparr> ss_buffer_idx := idx \<rparr>)
          })
     })"

text \<open>The rest of \<open>push_regular_frame\<close> once the session of the source is there.\<close>

definition rf_session_frame ::
  "rx_params \<Rightarrow> rx_fifo \<Rightarrow> node_id \<Rightarrow> session \<Rightarrow> priority \<Rightarrow> data \<Rightarrow> instant \<Rightarrow> bool \<Rightarrow> rx_fifo exec" where
  "rf_session_frame P st source session priority data timestamp loop_back = do {
     buffer \<leftarrow> arr_get (rf_buffers st) (ss_buffer_idx session);
     (transfer, gather, buffer) \<leftarrow> ga_push_frame (rp_sadd P) (ss_gather session)
       (rf_timeout st) buffer priority (data_deref data) timestamp;
     buffers \<leftarrow> arr_set (rf_buffers st) (ss_buffer_idx session) buffer;
     let st = st\<lparr> rf_buffers := buffers \<rparr>;
     let session = session\<lparr> ss_gather := gather \<rparr>;
     (st, session) \<leftarrow> rf_accept st source session priority loop_back (length buffer) transfer;
     sessions \<leftarrow> sq_get_mut_set (rf_sessions st) source session;
     let st = st\<lparr> rf_sessions := sessions \<rparr>;
     last \<leftarrow> ga_last_transfer_timestamp (ss_gather session);
     if last = Some timestamp then do {
       (queued, sessions) \<leftarrow> sq_enqueue_back (rf_sessions st) source;
       ok \<leftarrow> (case queued of Inl _ \<Rightarrow> panic | Inr u \<Rightarrow> ret u);
       ret (st\<lparr> rf_sessions := sessions \<rparr>)
     } else ret st
   }"

definition rf_push_regular_frame ::
  "rx_params \<Rightarrow> rx_fifo \<Rightarrow> node_id \<Rightarrow> priority \<Rightarrow> data \<Rightarrow> instant \<Rightarrow> bool \<Rightarrow> rx_fifo exec" where
  "rf_push_regular_frame P st source priority data timestamp loop_back = do {
     let sot = (case slice_last (data_deref data) of None \<Rightarrow> False
                | Some byte \<Rightarrow> tail_sot (TailByte byte));
     session \<leftarrow> sq_get (rf_sessions st) source;
     (st, session) \<leftarrow>
       (if session = None \<and> sot then do {
          st \<leftarrow> rf_try_start_new_session P st source timestamp;
          session \<leftarrow> sq_get (rf_sessions st) source;
          ret (st, session)
        } else ret (st, session));
     (case session of
        None \<Rightarrow> ret st
      | Some session \<Rightarrow>
          rf_session_frame P st source session priority data timestamp loop_back)
   }"

definition rf_push_anonymous_frame ::
  "rx_fifo \<Rightarrow> priority \<Rightarrow> data \<Rightarrow> instant \<Rightarrow> bool \<Rightarrow> rx_fifo exec" where
  "rf_push_anonymous_frame st priority data timestamp loop_back =
     (case split_last (data_deref data) of
        None \<Rightarrow> ret st
      | Some (tail_byte, payload) \<Rightarrow>
          let tail = TailByte tail_byte;
              valid_frame = tail_sot tail \<and> tail_eot tail \<and> tail_toggle tail = SOT_TOGGLE_BIT in
          if \<not> valid_frame then ret st
          else do {
            (buffer_idx, transfers) \<leftarrow> tq_allocate_buffer (rf_transfers st) priority;
            let st = st\<lparr> rf_transfers := transfers \<rparr>;
            (case buffer_idx of
               None \<Rightarrow> ret st
             | Some buffer_idx \<Rightarrow> do {
                 buffer \<leftarrow> arr_get (rf_buffers st) buffer_idx;
                 let len = min (length payload) (length buffer);
                 buffers \<leftarrow> arr_set (rf_buffers st) buffer_idx (copy_at buffer 0 (take len payload));
                 let st = st\<lparr> rf_buffers := buffers \<rparr>;
                 let entry = \<lparr> te_source = None, te_transfer_id = tail_transfer_id tail,
                   te_timestamp = timestamp, te_loop_back = loop_back,
                   te_buffer_length = len, te_buffer_idx = buffer_idx \<rparr>;
                 rf_push_transfer st priority entry
               })
          })"

definition rf_push_frame :: "rx_params \<Rightarrow> rx_fifo \<Rightarrow> frame \<Rightarrow> rx_fifo exec" where
  "rf_push_frame P st frame =
     (if h_data_spec (f_header frame) \<noteq> rf_data_specifier st then ret st
      else (case h_source (f_header frame) of
          Some node \<Rightarrow> rf_push_regular_frame P st node (h_priority (f_header frame)) (f_data frame)
            (f_timestamp frame) (f_loop_back frame)
        | None \<Rightarrow> rf_push_anonymous_frame st (h_priority (f_header frame)) (f_data frame)
            (f_timestamp frame) (f_loop_back frame)))"

definition rf_pop_readiness :: "rx_fifo \<Rightarrow> priority_set" where
  "rf_pop_readiness st = tq_priorities (rf_transfers st)"

definition rf_poll_pop_readiness :: "rx_fifo \<Rightarrow> priority_set \<Rightarrow> priority_set poll \<times> rx_fifo" where
  "rf_poll_pop_readiness st priority_mask =
     (let priorities = ps_and (rf_pop_readiness st) priority_mask in
      if \<not> ps_is_empty priorities then (Ready priorities, st)
      else (Pending,
        st\<lparr> rf_priority_trigger := pt_register (rf_priority_trigger st) priority_mask \<rparr>))"

definition rf_try_pop ::
  "rx_params \<Rightarrow> rx_fifo \<Rightarrow> priority_set \<Rightarrow> (rx_item option \<times> rx_fifo) exec" where
  "rf_try_pop P st priority_mask = do {
     (popped, transfers) \<leftarrow> tq_pop (rf_transfers st) priority_mask;
     (case popped of
        None \<Rightarrow> ret (None, st\<lparr> rf_transfers := transfers \<rparr>)
      | Some (priority, transfer) \<Rightarrow> do {
          let prev_buffer = rf_readout_buffer_idx st;
          let st = st\<lparr> rf_transfers := transfers, rf_readout_buffer_idx := te_buffer_idx transfer \<rparr>;
          let (freed, transfers) = tq_free_buffer (rp_TN P) (rf_transfers st) prev_buffer;
          ok \<leftarrow> (case freed of Inl _ \<Rightarrow> panic | Inr u \<Rightarrow> ret u);
          let st = st\<lparr> rf_transfers := transfers \<rparr>;
          let meta = \<lparr> tm_priority = priority, tm_address = te_source transfer,
            tm_transfer_id = te_transfer_id transfer, tm_timestamp = te_timestamp transfer,
            tm_loop_back = te_loop_back transfer \<rparr>;
          buffer \<leftarrow> arr_get (rf_buffers st) (rf_readout_buffer_idx st);
          valid_buffer \<leftarrow> slice buffer 0 (te_buffer_length transfer);
          ret (Some (meta, valid_buffer), st)
        })
   }"

section \<open>The abstract queue\<close>

text \<open>
  A transfer of priority \<open>p\<close> enters when there is room, or in place of the oldest transfer of
  the least urgent priority present when that is not more urgent than \<open>p\<close>.
\<close>

definition last_nonempty :: "(priority \<Rightarrow> 'a list) \<Rightarrow> priority option" where
  "last_nonempty A = find (\<lambda>r. A r \<noteq> []) (rev all_priorities)"

definition make_room :: "nat \<Rightarrow> (priority \<Rightarrow> 'a list) \<Rightarrow> priority \<Rightarrow> (priority \<Rightarrow> 'a list) option" where
  "make_room TN A p =
     (if pq_size A < TN then Some A
      else (case last_nonempty A of
          None \<Rightarrow> None
        | Some r \<Rightarrow> if p \<le> r then Some (A(r := tl (A r))) else None))"

definition fifo_offer :: "nat \<Rightarrow> (priority \<Rightarrow> 'a list) \<Rightarrow> priority \<Rightarrow> 'a \<Rightarrow> priority \<Rightarrow> 'a list" where
  "fifo_offer TN A p x = (case make_room TN A p of
     None \<Rightarrow> A
   | Some A' \<Rightarrow> A'(p := A' p @ [x]))"

lemma last_nonempty_max:
  assumes "A p \<noteq> []" "\<And>r. A r \<noteq> [] \<Longrightarrow> r \<le> p"
  shows "last_nonempty A = Some p"
proof -
  have none: "A r = []" if "\<not> r \<le> p" for r using assms(2) that by blast
  show ?thesis
    using assms(1) none by (cases p) (simp_all add: last_nonempty_def all_priorities_def level_le_iff)
qed

lemma last_nonempty_None: "last_nonempty A = None \<longleftrightarrow> pq_size A = 0"
  by (simp add: last_nonempty_def find_None_iff pq_size_0)

lemma last_nonempty_Some:
  "last_nonempty A = Some p \<longleftrightarrow> A p \<noteq> [] \<and> (\<forall>r. A r \<noteq> [] \<longrightarrow> r \<le> p)"
proof
  assume some: "last_nonempty A = Some p"
  let ?S = "{r. A r \<noteq> []}"
  have "?S \<subseteq> set all_priorities" using all_priorities(1) by blast
  then have fin: "finite ?S" using finite_set finite_subset by blast
  have "?S \<noteq> {}" using some last_nonempty_None [of A] by (auto simp: pq_size_0)
  then have "A (Max ?S) \<noteq> []" "\<And>r. A r \<noteq> [] \<Longrightarrow> r \<le> Max ?S"
    using Max_in [OF fin] Max_ge [OF fin] by blast+
  moreover from this have "last_nonempty A = Some (Max ?S)" by (rule last_nonempty_max)
  ultimately show "A p \<noteq> [] \<and> (\<forall>r. A r \<noteq> [] \<longrightarrow> r \<le> p)" using some by simp
qed (simp add: last_nonempty_max)

lemma last_nonempty_map [simp]: "last_nonempty (\<lambda>r. map (g r) (F r)) = last_nonempty F"
  by (simp add: last_nonempty_def)

lemma pq_size_map [simp]: "pq_size (\<lambda>r. map (g r) (F r)) = pq_size F"
  by (simp add: pq_size_def)

lemma make_room_map:
  "make_room TN (\<lambda>r. map (g r) (F r)) p = map_option (\<lambda>F' r. map (g r) (F' r)) (make_room TN F p)"
  by (auto simp: make_room_def map_tl fun_eq_iff split: option.split)

text \<open>The buffers of the queued transfers.\<close>

definition queued :: "(priority \<Rightarrow> transfer_entry list) \<Rightarrow> nat multiset" where
  "queued F = mset (concat (map (\<lambda>r. map te_buffer_idx (F r)) all_priorities))"

lemma queued_update:
  "queued (F(p := xs)) + mset (map te_buffer_idx (F p)) = queued F + mset (map te_buffer_idx xs)"
  by (cases p) (simp_all add: queued_def all_priorities_def)

lemma queued_empty [simp]: "queued (\<lambda>p. []) = {#}"
  by (simp add: queued_def all_priorities_def)

lemma queued_memI: "te \<in> set (F p) \<Longrightarrow> te_buffer_idx te \<in># queued F"
  by (cases p) (auto simp: queued_def all_priorities_def)

lemma queued_snoc: "queued (F(p := F p @ [te])) = add_mset (te_buffer_idx te) (queued F)"
  using queued_update [of F p "F p @ [te]"] by simp

lemma queued_pop:
  "F p = te # tes \<Longrightarrow> queued F = add_mset (te_buffer_idx te) (queued (F(p := tes)))"
  using queued_update [of F p tes] by simp

section \<open>Allocation\<close>

definition tq_rep :: "nat \<Rightarrow> transfer_queue \<Rightarrow> (priority \<Rightarrow> transfer_entry list) \<Rightarrow> nat \<Rightarrow> bool" where
  "tq_rep TN tq F k \<longleftrightarrow> 0 < TN \<and> pq_rep TN (tq_queue tq) F \<and>
     pq_size F + length (tq_free_buffers tq) + k = TN"

definition tq_owned :: "transfer_queue \<Rightarrow> (priority \<Rightarrow> transfer_entry list) \<Rightarrow> nat multiset" where
  "tq_owned tq F = queued F + mset (tq_free_buffers tq)"

lemma pq_max_last_nonempty: "pq_rep N q F \<Longrightarrow> pq_max_priority q = last_nonempty F"
  using pq_max_priority_rep [of N q F] last_nonempty_Some [of F] last_nonempty_None [of F]
  by (cases "pq_max_priority q"; cases "last_nonempty F") auto

lemma tq_allocate_rep:
  assumes "tq_rep TN tq F 0"
  shows "case make_room TN F p of
      None \<Rightarrow> tq_allocate_buffer tq p = Some (None, tq)
    | Some F' \<Rightarrow> \<exists>idx tq'. tq_allocate_buffer tq p = Some (Some idx, tq') \<and> tq_rep TN tq' F' 1 \<and>
        add_mset idx (tq_owned tq' F') = tq_owned tq F \<and>
        (\<forall>r. set (F' r) \<subseteq> set (F r))"
proof (cases "pq_size F < TN")
  case True
  then have ne: "tq_free_buffers tq \<noteq> []" using assms by (auto simp: tq_rep_def)
  let ?idx = "last (tq_free_buffers tq)" and ?rest = "butlast (tq_free_buffers tq)"
  have free: "tq_free_buffers tq = ?rest @ [?idx]" using ne by simp
  have run: "tq_allocate_buffer tq p = Some (Some ?idx, tq\<lparr> tq_free_buffers := ?rest \<rparr>)"
    using ne by (simp add: tq_allocate_buffer_def split_last_def)
  have "mset (tq_free_buffers tq) = add_mset ?idx (mset ?rest)"
    by (subst free) simp
  moreover have "length (tq_free_buffers tq) = Suc (length ?rest)" using ne by simp
  ultimately show ?thesis using run True assms
    by (simp add: make_room_def tq_rep_def tq_owned_def)
next
  case False
  then have full: "tq_free_buffers tq = []" "pq_size F = TN" and pos: "0 < TN"
    and rep: "pq_rep TN (tq_queue tq) F" using assms by (auto simp: tq_rep_def)
  have "last_nonempty F \<noteq> None" using last_nonempty_None [of F] full pos by simp
  then obtain r where r: "last_nonempty F = Some r" by auto
  then have "F r \<noteq> []" by (simp add: last_nonempty_Some)
  then obtain te tes where F: "F r = te # tes" by (cases "F r") auto
  have max: "pq_max_priority (tq_queue tq) = Some r" using pq_max_last_nonempty [OF rep] r by simp
  obtain q' where q': "pq_pop (tq_queue tq) r = Some (Some te, q')" "pq_rep TN q' (F(r := tes))"
    using pq_pop_rep [OF rep, of r] F by auto
  have size: "pq_size (F(r := tes)) + 1 = TN" using pq_size_update [of F r tes] F full(2) by simp
  have alloc: "tq_allocate_buffer tq p = (if p \<le> r
      then Some (Some (te_buffer_idx te), tq\<lparr> tq_queue := q' \<rparr>) else Some (None, tq))"
    using full(1) max q'(1) by (simp add: tq_allocate_buffer_def split_last_def)
  show ?thesis
    using alloc q'(2) size full pos r F queued_pop [of F r te tes]
    by (auto simp: make_room_def tq_rep_def tq_owned_def)
qed

lemma tq_push_rep:
  assumes "tq_rep TN tq F 1"
  shows "\<exists>tq'. tq_push tq p te = Some (Inr (), tq') \<and> tq_rep TN tq' (F(p := F p @ [te])) 0 \<and>
    tq_owned tq' (F(p := F p @ [te])) = add_mset (te_buffer_idx te) (tq_owned tq F)"
proof -
  have rep: "pq_rep TN (tq_queue tq) F" and lt: "pq_size F < TN" using assms by (auto simp: tq_rep_def)
  obtain q' where q': "pq_push (tq_queue tq) p te = Some (Inr (), q')"
    "pq_rep TN q' (F(p := F p @ [te]))" using pq_push_rep [OF rep, of p te] lt by auto
  have "pq_size (F(p := F p @ [te])) = pq_size F + 1"
    using pq_size_update [of F p "F p @ [te]"] by simp
  then show ?thesis using q' assms
    by (simp add: tq_push_def tq_rep_def tq_owned_def queued_snoc)
qed

section \<open>The invariant of the buffer\<close>

text \<open>
  The contents of the transfer slots, read from the buffers they own.
\<close>

definition te_item :: "u8 list list \<Rightarrow> priority \<Rightarrow> transfer_entry \<Rightarrow> rx_item" where
  "te_item buffers p te =
     (\<lparr> tm_priority = p, tm_address = te_source te, tm_transfer_id = te_transfer_id te,
        tm_timestamp = te_timestamp te, tm_loop_back = te_loop_back te \<rparr>,
      take (te_buffer_length te) (buffers ! te_buffer_idx te))"

definition rf_contents :: "rx_fifo \<Rightarrow> (priority \<Rightarrow> transfer_entry list) \<Rightarrow> rx_contents" where
  "rf_contents st F p = map (te_item (rf_buffers st) p) (F p)"

text \<open>
  Every one of the \<open>SN + TN + 1\<close> buffers has exactly one owner: a session, the pool of sessions
  not started, a queued transfer, the free list, or the transfer being read out. \<open>k\<close> buffers
  of the queue are outside it during an operation, in \<open>X\<close>.
\<close>

definition rf_owned ::
  "rx_params \<Rightarrow> rx_fifo \<Rightarrow> (node_id \<rightharpoonup> session) \<Rightarrow> node_id list \<Rightarrow> (priority \<Rightarrow> transfer_entry list) \<Rightarrow>
    nat multiset" where
  "rf_owned P st m xs F =
     table_buffers (rp_SN P) (rf_session_buffer_base st) m xs + tq_owned (rf_transfers st) F +
     {#rf_readout_buffer_idx st#}"

definition rf_links ::
  "rx_params \<Rightarrow> nat \<Rightarrow> rx_fifo \<Rightarrow> (node_id \<rightharpoonup> session) \<Rightarrow> node_id list \<Rightarrow>
    (priority \<Rightarrow> transfer_entry list) \<Rightarrow> bool" where
  "rf_links P B st m xs F \<longleftrightarrow>
     0 < rp_SN P \<and>
     sessions_rep (rp_SN P) (rf_sessions st) (rf_session_buffer_base st) m xs \<and>
     tq_rep (rp_TN P) (rf_transfers st) F 0 \<and>
     length (rf_buffers st) = rp_SN P + rp_TN P + 1 \<and>
     (\<forall>b \<in> set (rf_buffers st). length b = B) \<and>
     (\<forall>p. \<forall>te \<in> set (F p). te_buffer_length te \<le> B) \<and>
     rf_owned P st m xs F = mset [0..<rp_SN P + rp_TN P + 1]"

definition rf_rep :: "rx_params \<Rightarrow> nat \<Rightarrow> rx_fifo \<Rightarrow> rx_contents \<Rightarrow> bool" where
  "rf_rep P B st A \<longleftrightarrow> (\<exists>m xs F. rf_links P B st m xs F \<and> A = rf_contents st F)"

lemma rf_repI: "rf_links P B st m xs F \<Longrightarrow> rf_contents st F = A \<Longrightarrow> rf_rep P B st A"
  unfolding rf_rep_def by blast

lemma rf_linksD:
  assumes "rf_links P B st m xs F"
  shows "0 < rp_SN P"
    "sessions_rep (rp_SN P) (rf_sessions st) (rf_session_buffer_base st) m xs"
    "tq_rep (rp_TN P) (rf_transfers st) F 0"
    "length (rf_buffers st) = rp_SN P + rp_TN P + 1"
    "\<And>b. b \<in> set (rf_buffers st) \<Longrightarrow> length b = B"
    "\<And>p te. te \<in> set (F p) \<Longrightarrow> te_buffer_length te \<le> B"
    "rf_owned P st m xs F = mset [0..<rp_SN P + rp_TN P + 1]"
  using assms unfolding rf_links_def by blast+

text \<open>The buffer lent out by the last \<open>try_pop\<close>.\<close>

definition rf_readout :: "rx_fifo \<Rightarrow> u8 list" where
  "rf_readout st = rf_buffers st ! rf_readout_buffer_idx st"

lemma rf_session_buffer:
  assumes "rf_links P B st m xs F" "m k = Some s"
  shows "ss_buffer_idx s < length (rf_buffers st)" "ss_buffer_idx s \<notin># queued F"
    "ss_buffer_idx s \<noteq> rf_readout_buffer_idx st"
proof -
  have mem: "ss_buffer_idx s \<in># table_buffers (rp_SN P) (rf_session_buffer_base st) m xs"
    by (rule session_buffer_mem [OF rf_linksD(2) [OF assms(1)] assms(2)])
  have "table_buffers (rp_SN P) (rf_session_buffer_base st) m xs +
      (tq_owned (rf_transfers st) F + {#rf_readout_buffer_idx st#}) =
      mset [0..<rp_SN P + rp_TN P + 1]"
    using rf_linksD(7) [OF assms(1)] by (simp only: rf_owned_def add.assoc)
  note u = owned_unique [OF this mem]
  show "ss_buffer_idx s < length (rf_buffers st)" using u(1) rf_linksD(4) [OF assms(1)] by simp
  show "ss_buffer_idx s \<notin># queued F" "ss_buffer_idx s \<noteq> rf_readout_buffer_idx st"
    using u(2) by (auto simp: tq_owned_def)
qed

text \<open>Writing to a buffer outside the queue changes no queued transfer.\<close>

lemma contents_write:
  assumes "i \<notin># queued F"
  shows "map (te_item (bs[i := b]) p) (F p) = map (te_item bs p) (F p)"
proof (rule map_cong [OF refl])
  fix te assume "te \<in> set (F p)"
  then have "te_buffer_idx te \<noteq> i" using queued_memI [of te F p] assms by auto
  then show "te_item (bs[i := b]) p te = te_item bs p te" by (simp add: te_item_def)
qed

lemma queued_subset:
  assumes "\<forall>r. set (F' r) \<subseteq> set (F r)" "i \<notin># queued F"
  shows "i \<notin># queued F'"
proof
  assume "i \<in># queued F'"
  then obtain r te where "te \<in> set (F' r)" "te_buffer_idx te = i"
    by (auto simp: queued_def)
  then show False using assms queued_memI [of te F r] by auto
qed

section \<open>The operations\<close>

lemma rf_new_rep:
  assumes "length buffers = rp_SN P + rp_TN P + 1" "\<forall>b \<in> set buffers. length b = B"
    "0 < rp_SN P" "rp_SN P \<le> 128" "0 < rp_TN P" "rp_TN P \<le> 127"
  shows "\<exists>st. rf_new P ds timeout buffers = Some st \<and> rf_rep P B st (\<lambda>p. [])"
proof -
  let ?SN = "rp_SN P" and ?TN = "rp_TN P"
  obtain sessions :: session_queue where s: "iq_new NODE_K_MAX ?SN = Some sessions"
    "iq_rep node_id_usize NODE_K_MAX ?SN sessions (\<lambda>k. None) []"
    using iq_new_rep [of ?SN NODE_K_MAX node_id_usize] assms(4) by auto
  obtain q :: "transfer_entry priority_queue" where q: "pq_new ?TN = Some q" "pq_rep ?TN q (\<lambda>p. [])"
    using pq_new_rep [of ?TN] assms(6) by auto
  let ?tq = "\<lparr> tq_queue = q, tq_free_buffers = map (\<lambda>i. ?SN + i) [0..<?TN] \<rparr>"
  let ?st = "\<lparr> rf_data_specifier = ds, rf_buffers = buffers, rf_sessions = sessions,
    rf_session_buffer_base = 0, rf_transfers = ?tq, rf_readout_buffer_idx = ?SN + ?TN,
    rf_timeout = timeout, rf_priority_trigger = pt_new \<rparr>"
  have run: "rf_new P ds timeout buffers = Some ?st"
    using assms s(1) q(1) by (simp add: rf_new_def tq_new_def)
  have tq: "tq_rep ?TN ?tq (\<lambda>p. []) 0" using q(2) assms(5) by (simp add: tq_rep_def)
  have "mset [0..<?SN + ?TN + 1] = mset [0..<?SN] + mset [?SN..<?SN + ?TN] + {#?SN + ?TN#}"
    using upt_add_eq_append [of 0 ?SN ?TN] by simp
  then have "rf_owned P ?st (\<lambda>k. None) [] (\<lambda>p. []) = mset [0..<?SN + ?TN + 1]"
    by (simp add: rf_owned_def table_buffers_def tq_owned_def map_upt_shift [of "\<lambda>i. i", simplified])
  then have "rf_links P B ?st (\<lambda>k. None) [] (\<lambda>p. [])"
    using assms s(2) tq by (simp add: rf_links_def sessions_rep_def)
  then have "rf_rep P B ?st (\<lambda>p. [])"
    unfolding rf_rep_def by (intro exI conjI) (auto simp: rf_contents_def)
  with run show ?thesis by blast
qed

text \<open>
  The state in the middle of \<open>rf_session_frame\<close>: the session has been updated but not written
  back; \<open>s'\<close> is its new value.
\<close>

definition rf_mid ::
  "rx_params \<Rightarrow> nat \<Rightarrow> rx_fifo \<Rightarrow> (node_id \<rightharpoonup> session) \<Rightarrow> node_id list \<Rightarrow>
    (priority \<Rightarrow> transfer_entry list) \<Rightarrow> session \<Rightarrow> session \<Rightarrow> bool" where
  "rf_mid P B st m xs F s s' \<longleftrightarrow>
     0 < rp_SN P \<and>
     sessions_rep (rp_SN P) (rf_sessions st) (rf_session_buffer_base st) m xs \<and>
     tq_rep (rp_TN P) (rf_transfers st) F 0 \<and>
     length (rf_buffers st) = rp_SN P + rp_TN P + 1 \<and>
     (\<forall>b \<in> set (rf_buffers st). length b = B) \<and>
     (\<forall>p. \<forall>te \<in> set (F p). te_buffer_length te \<le> B) \<and>
     add_mset (ss_buffer_idx s') (rf_owned P st m xs F) =
       add_mset (ss_buffer_idx s) (mset [0..<rp_SN P + rp_TN P + 1])"

lemma rf_write_back:
  assumes "rf_mid P B st m xs F s s'" "m k = Some s" "ga_wf (ss_gather s')"
  shows "\<exists>sessions'. sq_get_mut_set (rf_sessions st) k s' = Some sessions' \<and>
    rf_links P B (st\<lparr> rf_sessions := sessions' \<rparr>) (m(k \<mapsto> s')) xs F"
proof -
  note mid = assms(1) [unfolded rf_mid_def]
  have rep: "sessions_rep (rp_SN P) (rf_sessions st) (rf_session_buffer_base st) m xs"
    using mid by blast
  from sessions_put [OF rep assms(2,3)] obtain sessions' where s:
    "sq_get_mut_set (rf_sessions st) k s' = Some sessions'"
    "sessions_rep (rp_SN P) sessions' (rf_session_buffer_base st) (m(k \<mapsto> s')) xs"
    "add_mset (ss_buffer_idx s) (table_buffers (rp_SN P) (rf_session_buffer_base st) (m(k \<mapsto> s')) xs) =
      add_mset (ss_buffer_idx s') (table_buffers (rp_SN P) (rf_session_buffer_base st) m xs)" by blast
  let ?st = "st\<lparr> rf_sessions := sessions' \<rparr>"
  have "add_mset (ss_buffer_idx s) (rf_owned P ?st (m(k \<mapsto> s')) xs F) =
      add_mset (ss_buffer_idx s') (rf_owned P st m xs F)"
  proof -
    let ?R = "tq_owned (rf_transfers st) F + {#rf_readout_buffer_idx st#}"
    have own: "rf_owned P ?st (m(k \<mapsto> s')) xs F =
        table_buffers (rp_SN P) (rf_session_buffer_base st) (m(k \<mapsto> s')) xs + ?R"
      "rf_owned P st m xs F = table_buffers (rp_SN P) (rf_session_buffer_base st) m xs + ?R"
      by (simp_all add: rf_owned_def)
    have "add_mset a (X + R) = add_mset a X + R" for a and X R :: "nat multiset" by simp
    then show ?thesis unfolding own s(3) by (simp only: s(3))
  qed
  also have "\<dots> = add_mset (ss_buffer_idx s) (mset [0..<rp_SN P + rp_TN P + 1])"
    using mid by blast
  finally have "rf_owned P ?st (m(k \<mapsto> s')) xs F = mset [0..<rp_SN P + rp_TN P + 1]"
    by (rule add_mset_add_mset_same_iff [THEN iffD1])
  then have "rf_links P B ?st (m(k \<mapsto> s')) xs F"
    unfolding rf_links_def using mid s(2) by simp
  with s(1) show ?thesis by blast
qed

lemma rf_touch:
  assumes "rf_links P B st m xs F" "m k = Some s"
  shows "\<exists>sessions' xs'. sq_enqueue_back (rf_sessions st) k = Some (Inr (), sessions') \<and>
    rf_links P B (st\<lparr> rf_sessions := sessions' \<rparr>) m xs' F"
proof -
  note l = rf_linksD [OF assms(1)]
  obtain sessions' where s: "sq_enqueue_back (rf_sessions st) k = Some (Inr (), sessions')"
    "sessions_rep (rp_SN P) sessions' (rf_session_buffer_base st) m (removeAll k xs @ [k])"
    "table_buffers (rp_SN P) (rf_session_buffer_base st) m (removeAll k xs @ [k]) =
      table_buffers (rp_SN P) (rf_session_buffer_base st) m xs"
    using sessions_touch [OF l(2), of k] assms(2) by auto
  have "rf_owned P (st\<lparr> rf_sessions := sessions' \<rparr>) m (removeAll k xs @ [k]) F = rf_owned P st m xs F"
    by (simp add: rf_owned_def s(3))
  then have "rf_links P B (st\<lparr> rf_sessions := sessions' \<rparr>) m (removeAll k xs @ [k]) F"
    unfolding rf_links_def using l s(2) by simp
  with s(1) show ?thesis by blast
qed

text \<open>A queued transfer keeps what it holds; a new one holds what the session received.\<close>

lemma contents_offer:
  assumes "i \<notin># queued F" "i < length (rf_buffers st)"
    "case make_room TN F p of None \<Rightarrow> F' = F
     | Some G \<Rightarrow> F' = G(p := G p @ [te]) \<and> (\<forall>r. set (G r) \<subseteq> set (F r))"
    "te_buffer_idx te = i" "rf_buffers st' = (rf_buffers st)[i := b]"
  shows "rf_contents st' F' = fifo_offer TN (rf_contents st F) p (te_item (rf_buffers st') p te)"
proof -
  let ?g = "te_item (rf_buffers st)"
  have A: "rf_contents st F = (\<lambda>r. map (?g r) (F r))" by (simp add: rf_contents_def fun_eq_iff)
  show ?thesis
  proof (cases "make_room TN F p")
    case None
    then have "F' = F" using assms(3) by simp
    then show ?thesis using None contents_write [OF assms(1), where p = _ and b = b]
      by (simp add: fifo_offer_def A make_room_map rf_contents_def assms(5) fun_eq_iff)
  next
    case (Some G)
    then have F': "F' = G(p := G p @ [te])" and sub: "\<forall>r. set (G r) \<subseteq> set (F r)"
      using assms(3) by simp_all
    have same: "map (te_item (rf_buffers st') r) (G r) = map (?g r) (G r)" for r
      unfolding assms(5) by (rule contents_write [OF queued_subset [OF sub assms(1)]])
    show ?thesis
      using Some same by (simp add: fifo_offer_def A make_room_map rf_contents_def F' fun_eq_iff)
  qed
qed

lemma rf_push_transfer_rep:
  assumes "tq_rep TN (rf_transfers st) F 1"
  shows "\<exists>st'. rf_push_transfer st p te = Some st' \<and>
    tq_rep TN (rf_transfers st') (F(p := F p @ [te])) 0 \<and>
    tq_owned (rf_transfers st') (F(p := F p @ [te])) =
      add_mset (te_buffer_idx te) (tq_owned (rf_transfers st) F) \<and>
    st' = st\<lparr> rf_transfers := rf_transfers st', rf_priority_trigger := rf_priority_trigger st' \<rparr>"
  using tq_push_rep [OF assms, of p te] by (auto simp: rf_push_transfer_def)

text \<open>A frame of a source that has a session.\<close>

lemma rf_session_frame_rep:
  assumes "rf_links P B st m xs F" "m k = Some s" "length (data_deref data) < 2 ^ 32"
  shows "\<exists>t g' b' st' m' xs' F'.
    ga_push_frame (rp_sadd P) (ss_gather s) (rf_timeout st) (rf_buffers st ! ss_buffer_idx s) pr
      (data_deref data) ts = Some (t, g', b') \<and>
    rf_session_frame P st k s pr data ts lb = Some st' \<and> rf_links P B st' m' xs' F' \<and>
    rf_data_specifier st' = rf_data_specifier st \<and> rf_readout st' = rf_readout st \<and>
    (\<exists>s'. m' k = Some s' \<and> ss_gather s' = g' \<and> (t = None \<longrightarrow> rf_buffers st' ! ss_buffer_idx s' = b')) \<and>
    rf_contents st' F' = (case t of None \<Rightarrow> rf_contents st F
      | Some t \<Rightarrow> fifo_offer (rp_TN P) (rf_contents st F) pr (regular_item k lb t b' pr))"
proof -
  note l = rf_linksD [OF assms(1)]
  let ?i = "ss_buffer_idx s" and ?SN = "rp_SN P" and ?TN = "rp_TN P"
  note i = rf_session_buffer [OF assms(1,2)]
  have wf: "ga_wf (ss_gather s)" using l(2) assms(2) by (simp add: sessions_rep_def)
  obtain t g' b' where push: "ga_push_frame (rp_sadd P) (ss_gather s) (rf_timeout st)
      (rf_buffers st ! ?i) pr (data_deref data) ts = Some (t, g', b')"
    "ga_wf g'" "length b' = length (rf_buffers st ! ?i)"
    using ga_push_frame_ok [OF wf assms(3)] by blast
  have B: "length b' = B" using push(3) l(5) [OF nth_mem [OF i(1)]] by simp
  let ?st1 = "st\<lparr> rf_buffers := (rf_buffers st)[?i := b'] \<rparr>"
  let ?s1 = "s\<lparr> ss_gather := g' \<rparr>"
  have bufs: "\<forall>b \<in> set (rf_buffers ?st1). length b = B"
    using buffers_write [of "rf_buffers st" B b' ?i] l(5) B by simp
  have own: "rf_owned P ?st1 m xs F = mset [0..<?SN + ?TN + 1]"
    using l(7) by (simp add: rf_owned_def)
  have same: "rf_contents ?st1 F = rf_contents st F"
    using contents_write [OF i(2), of "rf_buffers st" b'] by (simp add: rf_contents_def fun_eq_iff)
  have mid0: "rf_mid P B ?st1 m xs F s ?s1"
    unfolding rf_mid_def using l bufs own by simp
  obtain st2 s2 F' where mid: "rf_mid P B st2 m xs F' s s2" "ss_gather s2 = g'"
    and stay: "t = None \<longrightarrow> ss_buffer_idx s2 = ?i"
    and keep: "rf_data_specifier st2 = rf_data_specifier st" "rf_buffers st2 = rf_buffers ?st1"
      "rf_readout_buffer_idx st2 = rf_readout_buffer_idx st"
    and items: "rf_contents st2 F' = (case t of None \<Rightarrow> rf_contents st F
      | Some t \<Rightarrow> fifo_offer ?TN (rf_contents st F) pr (regular_item k lb t b' pr))"
    and run: "rf_accept ?st1 k ?s1 pr lb (length b') t = Some (st2, s2)"
  proof (cases t)
    case None
    have "rf_contents ?st1 F = (case t of None \<Rightarrow> rf_contents st F
      | Some t \<Rightarrow> fifo_offer ?TN (rf_contents st F) pr (regular_item k lb t b' pr))"
      using None same by simp
    with None show ?thesis by (intro that [OF mid0]) (simp_all add: rf_accept_def)
  next
    case (Some tr)
    have pr: "t_priority tr = pr" using ga_push_priority push(1) Some by simp
    let ?te = "\<lparr> te_source = Some k, te_transfer_id = t_id tr, te_timestamp = t_timestamp tr,
      te_loop_back = lb, te_buffer_length = min (unat (t_length tr)) (length b'),
      te_buffer_idx = ?i \<rparr>"
    have item: "te_item ((rf_buffers st)[?i := b']) pr ?te = regular_item k lb tr b' pr"
      using i(1) by (simp add: te_item_def regular_item_def)
    note alloc = tq_allocate_rep [OF l(3), of pr]
    show ?thesis
    proof (cases "make_room ?TN F pr")
      case None
      then have a: "tq_allocate_buffer (rf_transfers st) pr = Some (None, rf_transfers st)"
        using alloc by simp
      have st1: "?st1\<lparr> rf_transfers := rf_transfers st \<rparr> = ?st1" by simp
      have "rf_contents ?st1 F = fifo_offer ?TN (rf_contents st F) pr
          (te_item (rf_buffers ?st1) pr ?te)"
        by (rule contents_offer [OF i(2,1)]) (use None in simp_all)
      then have "rf_contents ?st1 F = (case t of None \<Rightarrow> rf_contents st F
        | Some t \<Rightarrow> fifo_offer ?TN (rf_contents st F) pr (regular_item k lb t b' pr))"
        using Some item by simp
      with Some a pr show ?thesis by (intro that [OF mid0]) (simp_all add: rf_accept_def)
    next
      case (Some G)
      then obtain idx tq' where a: "tq_allocate_buffer (rf_transfers st) pr = Some (Some idx, tq')"
        "tq_rep ?TN tq' G 1" "add_mset idx (tq_owned tq' G) = tq_owned (rf_transfers st) F"
        "\<forall>r. set (G r) \<subseteq> set (F r)" using alloc by auto
      let ?st = "?st1\<lparr> rf_transfers := tq' \<rparr>" and ?F = "G(pr := G pr @ [?te])"
      obtain st2 where p: "rf_push_transfer ?st pr ?te = Some st2"
        "tq_rep ?TN (rf_transfers st2) ?F 0"
        "tq_owned (rf_transfers st2) ?F = add_mset ?i (tq_owned tq' G)"
        "st2 = ?st\<lparr> rf_transfers := rf_transfers st2, rf_priority_trigger := rf_priority_trigger st2 \<rparr>"
        using rf_push_transfer_rep [of ?TN ?st G pr ?te] a(2) by auto
      have f: "rf_sessions st2 = rf_sessions st" "rf_buffers st2 = rf_buffers ?st1"
        "rf_session_buffer_base st2 = rf_session_buffer_base st"
        "rf_readout_buffer_idx st2 = rf_readout_buffer_idx st"
        "rf_data_specifier st2 = rf_data_specifier st"
        by (subst p(4), simp)+
      have "rf_owned P st2 m xs ?F + {#idx#} = rf_owned P ?st1 m xs F + {#?i#}"
        unfolding rf_owned_def f p(3) using a(3) [symmetric] by simp
      then have own2: "add_mset idx (rf_owned P st2 m xs ?F) = add_mset ?i (mset [0..<?SN + ?TN + 1])"
        unfolding own by simp
      have short: "te_buffer_length te \<le> B" if "te \<in> set (?F r)" for te r
        using that a(4) l(6) B by (auto split: if_splits)
      have mid2: "rf_mid P B st2 m xs ?F s (?s1\<lparr> ss_buffer_idx := idx \<rparr>)"
        unfolding rf_mid_def f using l p(2) bufs own2 short by simp
      have "rf_contents st2 ?F = fifo_offer ?TN (rf_contents st F) pr (te_item (rf_buffers st2) pr ?te)"
        by (rule contents_offer [OF i(2,1)]) (use Some a(4) f(2) in simp_all)
      then have "rf_contents st2 ?F = (case t of None \<Rightarrow> rf_contents st F
        | Some t \<Rightarrow> fifo_offer ?TN (rf_contents st F) pr (regular_item k lb t b' pr))"
        using \<open>t = Some tr\<close> item f(2) by simp
      with \<open>t = Some tr\<close> a(1) pr p(1) f show ?thesis by (intro that [OF mid2]) (simp_all add: rf_accept_def)
    qed
  qed
  have g2: "ga_wf (ss_gather s2)" using mid(2) push(2) by simp
  from rf_write_back [OF mid(1) assms(2) g2] obtain sessions' where wb:
    "sq_get_mut_set (rf_sessions st2) k s2 = Some sessions'"
    "rf_links P B (st2\<lparr> rf_sessions := sessions' \<rparr>) (m(k \<mapsto> s2)) xs F'" by blast
  let ?st3 = "st2\<lparr> rf_sessions := sessions' \<rparr>"
  have own_session: "\<exists>s'. (m(k \<mapsto> s2)) k = Some s' \<and> ss_gather s' = g' \<and>
      (t = None \<longrightarrow> rf_buffers (st2\<lparr> rf_sessions := z \<rparr>) ! ss_buffer_idx s' = b')" for z
    using mid(2) stay keep(2) i(1) by simp
  obtain last where last: "ga_last_transfer_timestamp (ss_gather s2) = Some last"
    using g2 by (cases "g_state (ss_gather s2)") (auto simp: ga_last_transfer_timestamp_def ga_wf_def)
  have c3: "rf_contents (st2\<lparr> rf_sessions := z \<rparr>) F' = rf_contents st2 F'" for z
    by (simp add: rf_contents_def fun_eq_iff)
  have pre: "rf_session_frame P st k s pr data ts lb = do {
      sessions \<leftarrow> sq_get_mut_set (rf_sessions st2) k s2;
      let st = st2\<lparr> rf_sessions := sessions \<rparr>;
      last \<leftarrow> ga_last_transfer_timestamp (ss_gather s2);
      if last = Some ts then do {
        (queued, sessions) \<leftarrow> sq_enqueue_back (rf_sessions st) k;
        ok \<leftarrow> (case queued of Inl _ \<Rightarrow> panic | Inr u \<Rightarrow> ret u);
        ret (st\<lparr> rf_sessions := sessions \<rparr>)
      } else ret st }"
    unfolding rf_session_frame_def using i(1) push(1) run by simp
  show ?thesis
  proof (cases "last = Some ts")
    case False
    then have "rf_session_frame P st k s pr data ts lb = Some ?st3"
      unfolding pre using wb(1) last by simp
    moreover have "rf_data_specifier ?st3 = rf_data_specifier st" "rf_readout ?st3 = rf_readout st"
      using keep i(3) by (simp_all add: rf_readout_def)
    moreover note c3 [of sessions', unfolded items] own_session [of sessions']
    ultimately show ?thesis using push(1) wb(2) by blast
  next
    case True
    obtain sessions'' xs' where tc: "sq_enqueue_back (rf_sessions ?st3) k = Some (Inr (), sessions'')"
      "rf_links P B (?st3\<lparr> rf_sessions := sessions'' \<rparr>) (m(k \<mapsto> s2)) xs' F'"
      using rf_touch [OF wb(2), of k s2] by auto
    then have "rf_session_frame P st k s pr data ts lb = Some (?st3\<lparr> rf_sessions := sessions'' \<rparr>)"
      unfolding pre using wb(1) last True by simp
    moreover have "rf_data_specifier (?st3\<lparr> rf_sessions := sessions'' \<rparr>) = rf_data_specifier st"
      "rf_readout (?st3\<lparr> rf_sessions := sessions'' \<rparr>) = rf_readout st"
      using keep i(3) by (simp_all add: rf_readout_def)
    moreover have "rf_contents (?st3\<lparr> rf_sessions := sessions'' \<rparr>) F' = rf_contents st2 F'"
      by (simp add: rf_contents_def fun_eq_iff)
    note this [unfolded items]
    moreover have "\<exists>s'. (m(k \<mapsto> s2)) k = Some s' \<and> ss_gather s' = g' \<and>
        (t = None \<longrightarrow> rf_buffers (?st3\<lparr> rf_sessions := sessions'' \<rparr>) ! ss_buffer_idx s' = b')"
      using own_session [of sessions''] by simp
    ultimately show ?thesis using push(1) tc(2) by blast
  qed
qed

lemma rf_start_rep:
  assumes "rf_links P B st m xs F" "m k = None" "node_id_wf k"
  shows "\<exists>st' m' xs'. rf_try_start_new_session P st k ts = Some st' \<and> rf_links P B st' m' xs' F \<and>
    rf_contents st' F = rf_contents st F \<and> rf_data_specifier st' = rf_data_specifier st \<and>
    rf_readout st' = rf_readout st \<and> rf_timeout st' = rf_timeout st \<and>
    (if session_available (rp_sadd P) (rp_SN P) (rf_timeout st) (rf_sessions st, rf_session_buffer_base st) ts
     then \<exists>idx. m' k = Some (new_session idx) else m' = m)"
proof -
  note l = rf_linksD [OF assms(1)]
  obtain sessions' base' m' xs' where s: "start_session (rp_sadd P) (rp_SN P) (rf_timeout st)
      (rf_sessions st, rf_session_buffer_base st) k ts = Some (sessions', base')"
    "sessions_rep (rp_SN P) sessions' base' m' xs'"
    "table_buffers (rp_SN P) base' m' xs' = table_buffers (rp_SN P) (rf_session_buffer_base st) m xs"
    "if session_available (rp_sadd P) (rp_SN P) (rf_timeout st) (rf_sessions st, rf_session_buffer_base st) ts
     then \<exists>idx. m' k = Some (new_session idx) else m' = m"
    using start_session_rep [OF l(2) assms(2,3) l(1)] by blast
  let ?st = "st\<lparr> rf_sessions := sessions', rf_session_buffer_base := base' \<rparr>"
  have "rf_try_start_new_session P st k ts = Some ?st"
    using s(1) by (simp add: rf_try_start_new_session_def)
  moreover have "rf_owned P ?st m' xs' F = rf_owned P st m xs F"
    by (simp add: rf_owned_def s(3))
  then have "rf_links P B ?st m' xs' F" unfolding rf_links_def using l s(2) by simp
  moreover have "rf_contents ?st F = rf_contents st F" by (simp add: rf_contents_def fun_eq_iff)
  moreover have "rf_readout ?st = rf_readout st" by (simp add: rf_readout_def)
  ultimately show ?thesis using s(4) by (intro exI [of _ ?st] exI [of _ m'] exI [of _ xs']) simp
qed

text \<open>
  A frame with a source address offers the transfer it completes to the queue, and its session
  takes it.
\<close>

abbreviation "rf_table st \<equiv> (rf_sessions st, rf_session_buffer_base st)"

definition rf_offered :: "rx_params \<Rightarrow> priority \<Rightarrow> rx_contents \<Rightarrow> rx_item option \<Rightarrow> rx_contents" where
  "rf_offered P p A item = (case item of None \<Rightarrow> A | Some i \<Rightarrow> fifo_offer (rp_TN P) A p i)"

lemma rf_session_frame_advanced:
  assumes "rf_links P B st m xs F" "m k = Some s" "length (data_deref (f_data f)) < 2 ^ 32"
  shows "\<exists>t g' b' st' m' xs' F'.
    ga_push_frame (rp_sadd P) (ss_gather s) (rf_timeout st) (rf_buffers st ! ss_buffer_idx s) (h_priority (f_header f))
      (data_deref (f_data f)) (f_timestamp f) = Some (t, g', b') \<and>
    rf_session_frame P st k s (h_priority (f_header f)) (f_data f) (f_timestamp f) (f_loop_back f) = Some st' \<and>
    rf_links P B st' m' xs' F' \<and> rf_data_specifier st' = rf_data_specifier st \<and> rf_readout st' = rf_readout st \<and>
    rx_advanced (rp_sadd P) (rf_timeout st) f (ss_gather s) (rf_buffers st ! ss_buffer_idx s)
      (rx_session (rf_sessions st') k) (rf_buffers st') \<and>
    rf_contents st' F' = rf_offered P (h_priority (f_header f)) (rf_contents st F)
      (map_option (\<lambda>t. regular_item k (f_loop_back f) t b' (h_priority (f_header f))) t)"
proof -
  obtain t g' b' st' m' xs' F' s' where r:
    "ga_push_frame (rp_sadd P) (ss_gather s) (rf_timeout st) (rf_buffers st ! ss_buffer_idx s) (h_priority (f_header f))
      (data_deref (f_data f)) (f_timestamp f) = Some (t, g', b')"
    "rf_session_frame P st k s (h_priority (f_header f)) (f_data f) (f_timestamp f) (f_loop_back f) = Some st'"
    "rf_links P B st' m' xs' F'" "rf_data_specifier st' = rf_data_specifier st" "rf_readout st' = rf_readout st"
    "m' k = Some s'" "ss_gather s' = g'" "t = None \<longrightarrow> rf_buffers st' ! ss_buffer_idx s' = b'"
    "rf_contents st' F' = (case t of None \<Rightarrow> rf_contents st F
      | Some t \<Rightarrow> fifo_offer (rp_TN P) (rf_contents st F) (h_priority (f_header f))
          (regular_item k (f_loop_back f) t b' (h_priority (f_header f))))"
    using rf_session_frame_rep [OF assms, of "h_priority (f_header f)" "f_timestamp f" "f_loop_back f"] by blast
  have "rx_session (rf_sessions st') k = Some s'"
    using rx_session_rep [OF rf_linksD(2) [OF r(3)], of k] r(6) by simp
  then have "rx_advanced (rp_sadd P) (rf_timeout st) f (ss_gather s) (rf_buffers st ! ss_buffer_idx s)
      (rx_session (rf_sessions st') k) (rf_buffers st')"
    unfolding rx_advanced_def using r(1,7,8) by blast
  moreover have "rf_contents st' F' = rf_offered P (h_priority (f_header f)) (rf_contents st F)
      (map_option (\<lambda>t. regular_item k (f_loop_back f) t b' (h_priority (f_header f))) t)"
    unfolding r(9) by (cases t) (simp_all add: rf_offered_def)
  ultimately show ?thesis using r(1-5) by blast
qed

lemma rf_push_regular_rep:
  assumes "rf_links P B st m xs F" "h_source (f_header f) = Some k" "node_id_wf k"
    "length (data_deref (f_data f)) < 2 ^ 32"
  shows "\<exists>st' m' xs' F'. rf_push_regular_frame P st k (h_priority (f_header f)) (f_data f) (f_timestamp f)
      (f_loop_back f) = Some st' \<and>
    rf_links P B st' m' xs' F' \<and> rf_data_specifier st' = rf_data_specifier st \<and> rf_readout st' = rf_readout st \<and>
    rx_sessions_after (rp_sadd P) (rp_SN P) B (rf_timeout st) (rf_table st) (rf_buffers st) f
      (rf_sessions st') (rf_buffers st') \<and>
    rf_contents st' F' = rf_offered P (h_priority (f_header f)) (rf_contents st F)
      (rx_completed (rp_sadd P) (rp_SN P) B (rf_timeout st) (rf_table st) (rf_buffers st) f)"
proof -
  let ?d = "data_deref (f_data f)" and ?pr = "h_priority (f_header f)" and ?ts = "f_timestamp f"
  let ?push = "\<lambda>st. rf_push_regular_frame P st k ?pr (f_data f) ?ts (f_loop_back f)"
  let ?frame = "\<lambda>st s. rf_session_frame P st k s ?pr (f_data f) ?ts (f_loop_back f)"
  note l = rf_linksD [OF assms(1)]
  have get: "sq_get (rf_sessions st) k = Some (m k)" by (rule sessions_get [OF l(2)])
  have own: "rx_session (rf_sessions st) k = m k" by (rule rx_session_rep [OF l(2)])
  show ?thesis
  proof (cases "m k")
    case (Some s)
    then have run: "?push st = ?frame st s" using get by (simp add: rf_push_regular_frame_def)
    obtain t g' b' st' m' xs' F' where r: "ga_push_frame (rp_sadd P) (ss_gather s) (rf_timeout st)
        (rf_buffers st ! ss_buffer_idx s) ?pr ?d ?ts = Some (t, g', b')" "?frame st s = Some st'"
      "rf_links P B st' m' xs' F'" "rf_data_specifier st' = rf_data_specifier st" "rf_readout st' = rf_readout st"
      "rx_advanced (rp_sadd P) (rf_timeout st) f (ss_gather s) (rf_buffers st ! ss_buffer_idx s)
        (rx_session (rf_sessions st') k) (rf_buffers st')"
      "rf_contents st' F' = rf_offered P ?pr (rf_contents st F)
        (map_option (\<lambda>t. regular_item k (f_loop_back f) t b' ?pr) t)"
      using rf_session_frame_advanced [OF assms(1) Some assms(4)] by blast
    have "rx_completed (rp_sadd P) (rp_SN P) B (rf_timeout st) (rf_table st) (rf_buffers st) f =
        map_option (\<lambda>t. regular_item k (f_loop_back f) t b' ?pr) t"
      using assms(2) own Some r(1) by (simp add: rx_completed_def Let_def split: option.split)
    moreover have "rx_sessions_after (rp_sadd P) (rp_SN P) B (rf_timeout st) (rf_table st) (rf_buffers st) f
        (rf_sessions st') (rf_buffers st')"
      using assms(2) own Some r(6) by (simp add: rx_sessions_after_def)
    ultimately show ?thesis using run r(2-5,7) by metis
  next
    case None
    note unknown = own [unfolded None]
    show ?thesis
    proof (cases "rx_starts ?d")
      case False
      then have "?push st = Some st" using get None
        by (simp add: rf_push_regular_frame_def rx_starts_def)
      moreover have "\<not> single_frame ?d" using False single_frame_starts [of ?d] by (auto simp: rx_starts_def)
      ultimately show ?thesis using assms(1,2) unknown False
        by (intro exI [of _ st] exI [of _ m] exI [of _ xs] exI [of _ F])
          (simp add: rx_sessions_after_def rx_completed_def Let_def rf_offered_def)
    next
      case True
      let ?available = "session_available (rp_sadd P) (rp_SN P) (rf_timeout st) (rf_table st) ?ts"
      obtain st1 m1 xs1 where s: "rf_try_start_new_session P st k ?ts = Some st1"
        "rf_links P B st1 m1 xs1 F" "rf_contents st1 F = rf_contents st F"
        "rf_data_specifier st1 = rf_data_specifier st" "rf_readout st1 = rf_readout st" "rf_timeout st1 = rf_timeout st"
        "if ?available then \<exists>idx. m1 k = Some (new_session idx) else m1 = m"
        using rf_start_rep [OF assms(1) None assms(3), of ?ts] by blast
      have get1: "sq_get (rf_sessions st1) k = Some (m1 k)" and own1: "rx_session (rf_sessions st1) k = m1 k"
        using sessions_get rx_session_rep rf_linksD(2) [OF s(2)] by blast+
      have run: "?push st = (case m1 k of None \<Rightarrow> Some st1 | Some s1 \<Rightarrow> ?frame st1 s1)"
        using get None True s(1) get1 by (simp add: rf_push_regular_frame_def rx_starts_def)
      show ?thesis
      proof (cases ?available)
        case False
        then have "m1 k = None" using s(7) None by simp
        then show ?thesis using s(2-5) run assms(2) unknown False own1
          by (intro exI [of _ st1] exI [of _ m1] exI [of _ xs1] exI [of _ F])
            (simp add: rx_sessions_after_def rx_completed_def Let_def rf_offered_def)
      next
        case yes: True
        then obtain idx where new: "m1 k = Some (new_session idx)" using s(7) by auto
        obtain t g' b' st' m' xs' F' where r: "ga_push_frame (rp_sadd P) ga_default (rf_timeout st)
            (rf_buffers st1 ! idx) ?pr ?d ?ts = Some (t, g', b')" "?push st = Some st'"
          "rf_links P B st' m' xs' F'" "rf_data_specifier st' = rf_data_specifier st" "rf_readout st' = rf_readout st"
          "rx_advanced (rp_sadd P) (rf_timeout st) f ga_default (rf_buffers st1 ! idx)
            (rx_session (rf_sessions st') k) (rf_buffers st')"
          "rf_contents st' F' = rf_offered P ?pr (rf_contents st F)
            (map_option (\<lambda>t. regular_item k (f_loop_back f) t b' ?pr) t)"
          using rf_session_frame_advanced [OF s(2) new assms(4)] run new s(3-6)
          by (auto simp: new_session_def)
        have B: "length (rf_buffers st1 ! idx) = B"
          using rf_session_buffer(1) [OF s(2) new] rf_linksD(5) [OF s(2) nth_mem] by (simp add: new_session_def)
        have "rx_completed (rp_sadd P) (rp_SN P) B (rf_timeout st) (rf_table st) (rf_buffers st) f =
            map_option (\<lambda>t. regular_item k (f_loop_back f) t b' ?pr) t"
          using ga_fresh_single [OF r(1) assms(4) True, of k "f_loop_back f"] assms(2) unknown yes B
          by (cases t) (simp_all add: rx_completed_def Let_def)
        moreover have "rx_sessions_after (rp_sadd P) (rp_SN P) B (rf_timeout st) (rf_table st) (rf_buffers st) f
            (rf_sessions st') (rf_buffers st')"
          using assms(2) unknown True yes r(6) B by (auto simp: rx_sessions_after_def)
        ultimately show ?thesis using r(2-5,7) by metis
      qed
    qed
  qed
qed

lemma rf_push_anonymous_rep:
  assumes "rf_links P B st m xs F"
  shows "\<exists>st' F'. rf_push_anonymous_frame st pr data ts lb = Some st' \<and>
    rf_links P B st' m xs F' \<and> rf_data_specifier st' = rf_data_specifier st \<and> rf_readout st' = rf_readout st \<and>
    rf_contents st' F' = (if single_frame (data_deref data)
      then fifo_offer (rp_TN P) (rf_contents st F) pr (anonymous_item lb B (butlast (data_deref data))
        (tail_transfer_id (TailByte (last (data_deref data)))) ts pr)
      else rf_contents st F)"
proof (cases "single_frame (data_deref data)")
  case False
  then have "rf_push_anonymous_frame st pr data ts lb = Some st"
    by (auto simp: rf_push_anonymous_frame_def split_last_def single_frame_def Let_def)
  with False assms show ?thesis by (intro exI [of _ st] exI [of _ F]) simp
next
  case True
  note l = rf_linksD [OF assms]
  let ?d = "data_deref data" and ?SN = "rp_SN P" and ?TN = "rp_TN P"
  let ?tail = "TailByte (last ?d)" and ?pay = "butlast ?d"
  have nonempty: "?d \<noteq> []" using True by (simp add: single_frame_def)
  have sl: "split_last ?d = Some (last ?d, ?pay)" using nonempty by (simp add: split_last_def)
  have valid: "tail_sot ?tail" "tail_eot ?tail" "tail_toggle ?tail = SOT_TOGGLE_BIT"
    using True by (simp_all add: single_frame_def)
  note alloc = tq_allocate_rep [OF l(3), of pr]
  show ?thesis
  proof (cases "make_room ?TN F pr")
    case None
    then have "rf_push_anonymous_frame st pr data ts lb = Some st"
      using alloc valid by (simp add: rf_push_anonymous_frame_def sl Let_def)
    moreover from None have "rf_contents st F = fifo_offer ?TN (rf_contents st F) pr
        (anonymous_item lb B ?pay (tail_transfer_id ?tail) ts pr)"
      by (simp add: fifo_offer_def rf_contents_def [abs_def] make_room_map)
    ultimately show ?thesis using True assms by (intro exI [of _ st] exI [of _ F]) simp
  next
    case (Some G)
    then obtain idx tq' where a: "tq_allocate_buffer (rf_transfers st) pr = Some (Some idx, tq')"
      "tq_rep ?TN tq' G 1" "add_mset idx (tq_owned tq' G) = tq_owned (rf_transfers st) F"
      "\<forall>r. set (G r) \<subseteq> set (F r)" using alloc by auto
    have "{#idx#} + (tq_owned tq' G + (table_buffers ?SN (rf_session_buffer_base st) m xs +
        {#rf_readout_buffer_idx st#})) = mset [0..<?SN + ?TN + 1]"
      unfolding l(7) [symmetric] rf_owned_def a(3) [symmetric] by simp
    note u = owned_unique [OF this, of idx]
    have i: "idx < length (rf_buffers st)" "idx \<notin># queued G" "idx \<noteq> rf_readout_buffer_idx st"
      using u l(4) by (auto simp: tq_owned_def)
    let ?b = "rf_buffers st ! idx"
    have B: "length ?b = B" using l(5) [OF nth_mem [OF i(1)]] by simp
    let ?len = "min (length ?pay) (length ?b)"
    let ?new = "copy_at ?b 0 (take ?len ?pay)"
    have newB: "length ?new = B" using B by (subst length_copy_at) simp_all
    let ?te = "\<lparr> te_source = None, te_transfer_id = tail_transfer_id ?tail, te_timestamp = ts,
      te_loop_back = lb, te_buffer_length = ?len, te_buffer_idx = idx \<rparr>"
    let ?st = "st\<lparr> rf_transfers := tq', rf_buffers := (rf_buffers st)[idx := ?new] \<rparr>"
    let ?F = "G(pr := G pr @ [?te])"
    obtain st2 where p: "rf_push_transfer ?st pr ?te = Some st2"
      "tq_rep ?TN (rf_transfers st2) ?F 0"
      "tq_owned (rf_transfers st2) ?F = add_mset idx (tq_owned tq' G)"
      "st2 = ?st\<lparr> rf_transfers := rf_transfers st2, rf_priority_trigger := rf_priority_trigger st2 \<rparr>"
      using rf_push_transfer_rep [of ?TN ?st G pr ?te] a(2) by auto
    have f: "rf_sessions st2 = rf_sessions st" "rf_buffers st2 = (rf_buffers st)[idx := ?new]"
      "rf_session_buffer_base st2 = rf_session_buffer_base st"
      "rf_readout_buffer_idx st2 = rf_readout_buffer_idx st"
      "rf_data_specifier st2 = rf_data_specifier st"
      by (subst p(4), simp)+
    have run: "rf_push_anonymous_frame st pr data ts lb = Some st2"
      using a(1) valid i(1) p(1) by (simp add: rf_push_anonymous_frame_def sl Let_def)
    have own: "rf_owned P st2 m xs ?F = mset [0..<?SN + ?TN + 1]"
      unfolding l(7) [symmetric] rf_owned_def f p(3) a(3) [symmetric] by simp
    have bufs: "\<forall>b \<in> set (rf_buffers st2). length b = B"
      unfolding f(2) by (rule buffers_write) (use l(5) newB in blast)+
    have short: "te_buffer_length te \<le> B" if "te \<in> set (?F r)" for te r
      using that a(4) l(6) B by (auto split: if_splits)
    have lenb: "length (rf_buffers st2) = ?SN + ?TN + 1" by (simp add: f(2) l(4))
    have links: "rf_links P B st2 m xs ?F"
      unfolding rf_links_def f(1,3) using l(1,2) p(2) own bufs short lenb by blast
    have item: "te_item (rf_buffers st2) pr ?te =
        anonymous_item lb B ?pay (tail_transfer_id ?tail) ts pr"
    proof -
      have "rf_buffers st2 ! idx = ?new" using i(1) by (simp add: f(2))
      moreover have "take ?len ?new = take B ?pay" unfolding B [symmetric] by (rule take_copy_at_0)
      ultimately show ?thesis by (simp only: te_item_def anonymous_item_def transfer_entry.simps)
    qed
    let ?g = "te_item (rf_buffers st)"
    have same: "map (te_item (rf_buffers st2) r) (G r) = map (?g r) (G r)" for r
      unfolding f(2) by (rule contents_write [OF i(2)])
    have "rf_contents st2 ?F = fifo_offer ?TN (rf_contents st F) pr (te_item (rf_buffers st2) pr ?te)"
      using Some same by (simp add: fifo_offer_def rf_contents_def [abs_def] make_room_map fun_eq_iff)
    moreover have "rf_readout st2 = rf_readout st" using i(3) by (simp add: rf_readout_def f)
    ultimately show ?thesis using run links f(5) True item
      by (intro exI [of _ st2] exI [of _ ?F]) simp
  qed
qed

text \<open>A frame of the data specifier offers the queue the transfer it completes.\<close>

definition rf_completed :: "rx_params \<Rightarrow> nat \<Rightarrow> rx_fifo \<Rightarrow> frame \<Rightarrow> rx_item option" where
  "rf_completed P B st f = (if h_data_spec (f_header f) = rf_data_specifier st
     then rx_completed (rp_sadd P) (rp_SN P) B (rf_timeout st) (rf_table st) (rf_buffers st) f else None)"

definition rf_sessions_after :: "rx_params \<Rightarrow> nat \<Rightarrow> rx_fifo \<Rightarrow> frame \<Rightarrow> rx_fifo \<Rightarrow> bool" where
  "rf_sessions_after P B st f st' \<longleftrightarrow> (if h_data_spec (f_header f) = rf_data_specifier st
     then rx_sessions_after (rp_sadd P) (rp_SN P) B (rf_timeout st) (rf_table st) (rf_buffers st) f
       (rf_sessions st') (rf_buffers st')
     else st' = st)"

lemma rf_push_frame_rep:
  assumes "rf_rep P B st A" "frame_wf f"
  shows "\<exists>st'. rf_push_frame P st f = Some st' \<and>
    rf_rep P B st' (rf_offered P (h_priority (f_header f)) A (rf_completed P B st f)) \<and>
    rf_data_specifier st' = rf_data_specifier st \<and> rf_readout st' = rf_readout st \<and>
    rf_sessions_after P B st f st'"
proof -
  obtain m xs F where links: "rf_links P B st m xs F" and A: "A = rf_contents st F"
    using assms(1) unfolding rf_rep_def by blast
  show ?thesis
  proof (cases "h_data_spec (f_header f) = rf_data_specifier st")
    case False
    then have "rf_push_frame P st f = Some st" by (simp add: rf_push_frame_def)
    then show ?thesis using assms(1) False
      by (simp add: rf_completed_def rf_sessions_after_def rf_offered_def)
  next
    case spec: True
    show ?thesis
    proof (cases "h_source (f_header f)")
      case None
      then have run: "rf_push_frame P st f = rf_push_anonymous_frame st (h_priority (f_header f))
          (f_data f) (f_timestamp f) (f_loop_back f)"
        using spec by (simp add: rf_push_frame_def)
      obtain st' F' where r: "rf_push_frame P st f = Some st'" "rf_links P B st' m xs F'"
        "rf_data_specifier st' = rf_data_specifier st" "rf_readout st' = rf_readout st"
        "rf_contents st' F' = (if single_frame (data_deref (f_data f))
          then fifo_offer (rp_TN P) (rf_contents st F) (h_priority (f_header f))
            (anonymous_item (f_loop_back f) B (butlast (data_deref (f_data f)))
              (tail_transfer_id (TailByte (last (data_deref (f_data f))))) (f_timestamp f) (h_priority (f_header f)))
          else rf_contents st F)"
        using rf_push_anonymous_rep [OF links, of "h_priority (f_header f)" "f_data f"
            "f_timestamp f" "f_loop_back f"] unfolding run by blast
      have "rf_contents st' F' = rf_offered P (h_priority (f_header f)) A (rf_completed P B st f)"
        using r(5) spec None by (simp add: A rf_offered_def rf_completed_def rx_completed_def Let_def
            single_item_def anonymous_item_def)
      from rf_repI [OF r(2) this] show ?thesis using r(1,3,4) spec None
        by (simp add: rf_sessions_after_def rx_sessions_after_def)
    next
      case (Some k)
      then have run: "rf_push_frame P st f = rf_push_regular_frame P st k (h_priority (f_header f))
          (f_data f) (f_timestamp f) (f_loop_back f)"
        using spec by (simp add: rf_push_frame_def)
      have "node_id_wf k" using assms(2) Some by (simp add: frame_wf_def)
      from rf_push_regular_rep [OF links Some this frame_wf_length [OF assms(2)]] show ?thesis
        unfolding run rf_rep_def A rf_completed_def rf_sessions_after_def if_P [OF spec] by (metis (no_types, lifting))
    qed
  qed
qed

text \<open>
  A popped transfer becomes the one being read, and the buffer read before it is free again.
\<close>

lemma rf_try_pop_rep:
  assumes "rf_rep P B st A"
  shows "\<exists>item st' A'. rf_try_pop P st pm = Some (item, st') \<and> rf_rep P B st' A' \<and>
    rf_data_specifier st' = rf_data_specifier st \<and> rx_popped A pm item A' \<and>
    (case item of None \<Rightarrow> rf_readout st' = rf_readout st
     | Some (meta, bytes) \<Rightarrow> bytes = take (length bytes) (rf_readout st'))"
proof -
  obtain m xs F where links: "rf_links P B st m xs F" and A: "A = rf_contents st F"
    using assms unfolding rf_rep_def by blast
  note l = rf_linksD [OF links]
  let ?SN = "rp_SN P" and ?TN = "rp_TN P" and ?tq = "rf_transfers st"
  have pq: "pq_rep ?TN (tq_queue ?tq) F" and size: "pq_size F + length (tq_free_buffers ?tq) = ?TN"
    and pos: "0 < ?TN" using l(3) by (simp_all add: tq_rep_def)
  have ready: "ps_contains (pq_priorities (tq_queue ?tq)) r \<longleftrightarrow> A r \<noteq> []" for r
    using pq_priorities_rep [OF pq, of r] by (simp add: A rf_contents_def)
  show ?thesis
  proof (cases "ps_first (ps_and (pq_priorities (tq_queue ?tq)) pm)")
    case None
    then have "rf_try_pop P st pm = Some (None, st)" by (simp add: rf_try_pop_def tq_pop_def)
    moreover have "rx_popped A pm None A"
      using None ready unfolding ps_first_None ps_is_empty_iff by (simp add: rx_popped_def admitted_def)
    ultimately show ?thesis using assms
      by (intro exI [of _ None] exI [of _ st] exI [of _ A]) simp
  next
    case (Some p)
    have popped: "rx_popped A pm (Some (hd (A p))) (A(p := tl (A p)))"
      by (rule rx_popped_take [OF Some ready])
    have "A p \<noteq> []" using Some ready unfolding ps_first_iff by simp
    then obtain te tes where F: "F p = te # tes" by (cases "F p") (auto simp: A rf_contents_def)
    obtain q' where q': "pq_pop (tq_queue ?tq) p = Some (Some te, q')" "pq_rep ?TN q' (F(p := tes))"
      using pq_pop_rep [OF pq, of p] F by auto
    have size': "pq_size (F(p := tes)) + length (tq_free_buffers ?tq) + 1 = ?TN"
      using pq_size_update [of F p tes] F size by simp
    let ?i = "te_buffer_idx te"
    let ?tq2 = "?tq\<lparr> tq_queue := q', tq_free_buffers := tq_free_buffers ?tq @ [rf_readout_buffer_idx st] \<rparr>"
    let ?st2 = "st\<lparr> rf_transfers := ?tq2, rf_readout_buffer_idx := ?i \<rparr>"
    have te: "te \<in> set (F p)" using F by simp
    have "queued F + (mset (tq_free_buffers ?tq) + (table_buffers ?SN (rf_session_buffer_base st) m xs +
        {#rf_readout_buffer_idx st#})) = mset [0..<?SN + ?TN + 1]"
      using l(7) by (simp add: rf_owned_def tq_owned_def ac_simps)
    from owned_unique(1) [OF this queued_memI [where F = F and p = p, OF te]]
    have i: "?i < length (rf_buffers st)" using l(4) by simp
    have len: "te_buffer_length te \<le> length (rf_buffers st ! ?i)"
      using l(6) [OF te] l(5) [OF nth_mem [OF i]] by simp
    have run: "rf_try_pop P st pm = Some (Some (te_item (rf_buffers st) p te), ?st2)"
      using Some q'(1) size' i len
      by (simp add: rf_try_pop_def tq_pop_def tq_free_buffer_def te_item_def)
    have own: "rf_owned P ?st2 m xs (F(p := tes)) = mset [0..<?SN + ?TN + 1]"
      unfolding l(7) [symmetric] by (simp add: rf_owned_def tq_owned_def queued_pop [of F, OF F])
    have tq: "tq_rep ?TN ?tq2 (F(p := tes)) 0" using q'(2) size' pos by (simp add: tq_rep_def)
    have short: "te_buffer_length t \<le> B" if "t \<in> set ((F(p := tes)) r)" for t r
      using that l(6) [of t r] F by (auto split: if_splits)
    have links2: "rf_links P B ?st2 m xs (F(p := tes))"
      unfolding rf_links_def using l(1,2,4,5) tq own short by simp
    have contents: "rf_contents ?st2 (F(p := tes)) = A(p := tl (A p))"
      and head: "te_item (rf_buffers st) p te = hd (A p)"
      using F by (simp_all add: A rf_contents_def fun_eq_iff)
    note rep = rf_repI [OF links2 contents]
    have "snd (te_item (rf_buffers st) p te) =
        take (length (snd (te_item (rf_buffers st) p te))) (rf_readout ?st2)"
      using len by (simp add: te_item_def rf_readout_def)
    then show ?thesis
      using run popped rep head by (intro exI [of _ "Some (hd (A p))"] exI [of _ ?st2]
          exI [of _ "A(p := tl (A p))"]) (simp add: case_prod_beta)
  qed
qed

lemma rf_poll_rep: "rf_rep P B st A \<Longrightarrow> rf_rep P B (snd (rf_poll_pop_readiness st pm)) A"
proof -
  assume "rf_rep P B st A"
  moreover have "rf_links P B (st\<lparr> rf_priority_trigger := t \<rparr>) m xs F = rf_links P B st m xs F" for t m xs F
    by (simp add: rf_links_def rf_owned_def)
  moreover have "rf_contents (st\<lparr> rf_priority_trigger := t \<rparr>) F = rf_contents st F" for t F
    by (simp add: rf_contents_def fun_eq_iff)
  ultimately show ?thesis
    by (auto simp: rf_rep_def rf_poll_pop_readiness_def Let_def)
qed

interpretation rf: rx_buffer "rf_rep P B" "rf_push_frame P" rf_pop_readiness rf_poll_pop_readiness
  "rf_try_pop P" for P B
proof
  fix st A f p pm
  show "\<exists>s' A'. rf_push_frame P st f = Some s' \<and> rf_rep P B s' A'" if "rf_rep P B st A" "frame_wf f"
    using rf_push_frame_rep [OF that] by blast
  show "ps_contains (rf_pop_readiness st) p \<longleftrightarrow> A p \<noteq> []" if "rf_rep P B st A"
    using that unfolding rf_rep_def rf_links_def tq_rep_def
    by (auto simp: rf_pop_readiness_def tq_priorities_def rf_contents_def pq_priorities_rep)
  show "rf_rep P B (snd (rf_poll_pop_readiness st pm)) A" if "rf_rep P B st A"
    by (rule rf_poll_rep [OF that])
  show "fst (rf_poll_pop_readiness st pm) = (let ps = ps_and (rf_pop_readiness st) pm in
      if ps_is_empty ps then Pending else Ready ps)"
    by (simp add: rf_poll_pop_readiness_def Let_def)
  show "\<exists>item s' A'. rf_try_pop P st pm = Some (item, s') \<and> rf_rep P B s' A' \<and> rx_popped A pm item A'"
    if "rf_rep P B st A" using rf_try_pop_rep [OF that] by blast
qed

section \<open>Properties\<close>

lemma rf_rep_bounds:
  assumes "rf_rep P B st A"
  shows "pq_size A \<le> rp_TN P"
    "item \<in> set (A p) \<Longrightarrow> length (snd item) \<le> B \<and> tm_priority (fst item) = p"
proof -
  obtain m xs F where links: "rf_links P B st m xs F" and A: "A = rf_contents st F"
    using assms unfolding rf_rep_def by blast
  note l = rf_linksD [OF links]
  have "pq_size F \<le> rp_TN P" using l(3) by (simp add: tq_rep_def)
  moreover have "pq_size A = pq_size F" by (simp add: A rf_contents_def [abs_def])
  ultimately show "pq_size A \<le> rp_TN P" by simp
  assume "item \<in> set (A p)"
  then obtain te where "te \<in> set (F p)" "item = te_item (rf_buffers st) p te"
    by (auto simp: A rf_contents_def)
  then show "length (snd item) \<le> B \<and> tm_priority (fst item) = p"
    using l(6) [of te p] by (simp add: te_item_def)
qed

text \<open>A run of the operations of the buffer.\<close>

definition rf_run :: "rx_params \<Rightarrow> rx_op list \<Rightarrow> rx_fifo \<Rightarrow> rx_fifo exec" where
  "rf_run P = for_each (rx_step (rf_push_frame P) rf_poll_pop_readiness (rf_try_pop P))"

definition rf_config :: "rx_params \<Rightarrow> nat \<Rightarrow> u8 list list \<Rightarrow> bool" where
  "rf_config P B buffers \<longleftrightarrow> length buffers = rp_SN P + rp_TN P + 1 \<and>
     (\<forall>b \<in> set buffers. length b = B) \<and> 0 < rp_SN P \<and> rp_SN P \<le> 128 \<and>
     0 < rp_TN P \<and> rp_TN P \<le> 127"

text \<open>
  C18: With at least one session slot (\<open>SN > 0\<close>) and one transfer slot, within the documented
  maximum sizes, the priority FIFO never panics: it can be created, and every sequence of well-formed frames, polls and pops runs to the end, in a state whose queue
  holds at most \<open>TN\<close> transfers, none of them longer than a buffer, each in the FIFO of its own
  priority. (The documentation also admits \<open>SN = 0\<close>; that buffer panics, as
  shown below.)
\<close>

theorem rx_fifo_never_panics:
  assumes "rf_config P B buffers" "list_all rx_op_wf ops"
  shows "\<exists>st st' A. rf_new P ds timeout buffers = Some st \<and> rf_run P ops st = Some st' \<and>
    rf_rep P B st' A \<and> pq_size A \<le> rp_TN P \<and>
    (\<forall>p. \<forall>item \<in> set (A p). length (snd item) \<le> B \<and> tm_priority (fst item) = p)"
proof -
  obtain st where st: "rf_new P ds timeout buffers = Some st" "rf_rep P B st (\<lambda>p. [])"
    using rf_new_rep [of buffers P B] assms(1) unfolding rf_config_def by blast
  obtain st' A where "rf_run P ops st = Some st'" "rf_rep P B st' A"
    using rf.run_ops [OF st(2) assms(2)] unfolding rf_run_def by blast
  with st(1) rf_rep_bounds [of P B st' A] show ?thesis by blast
qed

definition ex_params :: rx_params where
  "ex_params = \<lparr> rp_sadd = (+), rp_SN = 1, rp_TN = 1 \<rparr>"

definition ex_frame :: "node_id option \<Rightarrow> u8 list \<Rightarrow> frame" where
  "ex_frame source bytes = \<lparr> f_header = \<lparr> h_priority = Nominal,
     h_data_spec = Message (SubjectId 7), h_source = source, h_destination = None \<rparr>,
     f_data = data_deref_set (data_new_zeros (the (dl_new (length bytes)))) bytes,
     f_timestamp = 9, f_loop_back = False \<rparr>"

lemma ex_frame_wf: "frame_wf (ex_frame None [5, 0xE1])" "frame_wf (ex_frame (Some (NodeId 3)) [5, 0xE1])"
  by (simp_all add: frame_wf_def ex_frame_def node_id_wf_def node_id_MAX_VALUE_def) code_simp+

theorem rx_fifo_never_panics_witness:
  "\<exists>st st' A. rf_new ex_params (Message (SubjectId 7)) 2 [[0], [0], [0]] = Some st \<and>
    rf_run ex_params [PushFrame (ex_frame None [5, 0xE1]), PollPop ps_ALL, TryPop ps_ALL] st = Some st' \<and>
    rf_rep ex_params 1 st' A \<and> pq_size A \<le> rp_TN ex_params \<and>
    (\<forall>p. \<forall>item \<in> set (A p). length (snd item) \<le> 1 \<and> tm_priority (fst item) = p)"
  by (rule rx_fifo_never_panics) (simp_all add: rf_config_def ex_params_def ex_frame_wf)

text \<open>
  C19: What a received frame does to the buffer. It completes a transfer (\<open>rf_completed\<close>) when it
  is a single frame that is anonymous or starts a session, or when the reassembly of the session
  of its source produces one: an item with the bytes, the source, the identifier and the time of
  that transfer. This item is offered to the FIFO of the frame's priority, where it takes a free
  slot, or else the slot of the oldest transfer of the least urgent priority present, or is
  dropped when all of them are more urgent. (The documentation of the buffer has the displacement
  the other way round, from the highest priority.) A frame that completes nothing leaves the
  queue as it is, and in each case the session of the source has taken the frame. The transfer
  lent out by the last pop keeps its bytes.
\<close>

theorem rx_fifo_push_offers:
  assumes "rf_rep P B st A" "frame_wf f"
  shows "\<exists>st' A'. rf_push_frame P st f = Some st' \<and> rf_rep P B st' A' \<and>
    A' = (case rf_completed P B st f of None \<Rightarrow> A
      | Some item \<Rightarrow> fifo_offer (rp_TN P) A (h_priority (f_header f)) item) \<and>
    rf_sessions_after P B st f st' \<and> rf_readout st' = rf_readout st"
  using rf_push_frame_rep [OF assms] unfolding rf_offered_def by blast

lemma ex_fifo: "\<exists>st. rf_rep ex_params 1 st (\<lambda>p. [])"
  using rf_new_rep [of "[[0], [0], [0]]" ex_params 1] by (auto simp: ex_params_def)

text \<open>
  The witness: the first frame of node 3, a single one, of a fresh buffer that holds nothing; its
  byte is in the queue afterwards.
\<close>

definition ex_started :: "rx_fifo exec" where
  "ex_started = rf_new ex_params (Message (SubjectId 7)) 2 [[0], [0], [0]]"

definition ex_item :: rx_item where
  "ex_item = (\<lparr> tm_priority = Nominal, tm_address = Some (NodeId 3), tm_transfer_id = TransferId 1,
     tm_timestamp = 9, tm_loop_back = False \<rparr>, [5])"

lemma ex_completed:
  "map_option (\<lambda>st. rf_completed ex_params 1 st (ex_frame (Some (NodeId 3)) [5, 0xE1])) ex_started = Some (Some ex_item)"
  by code_simp

theorem rx_fifo_push_offers_witness:
  "\<exists>st st'. ex_started = Some st \<and> rf_push_frame ex_params st (ex_frame (Some (NodeId 3)) [5, 0xE1]) = Some st' \<and>
    rf_rep ex_params 1 st' ((\<lambda>p. [])(Nominal := [ex_item]))"
proof -
  obtain st where st: "ex_started = Some st" "rf_rep ex_params 1 st (\<lambda>p. [])"
    using rf_new_rep [of "[[0], [0], [0]]" ex_params 1 "Message (SubjectId 7)" 2]
    by (auto simp: ex_params_def ex_started_def)
  have "rf_completed ex_params 1 st (ex_frame (Some (NodeId 3)) [5, 0xE1]) = Some ex_item"
    using ex_completed unfolding st(1) by simp
  moreover have "fifo_offer (rp_TN ex_params) (\<lambda>p. []) (h_priority (f_header (ex_frame (Some (NodeId 3)) [5, 0xE1])))
      ex_item = (\<lambda>p. [])(Nominal := [ex_item])"
    by (simp add: fifo_offer_def make_room_def ex_params_def ex_frame_def pq_size_0 fun_eq_iff)
  ultimately show ?thesis using rx_fifo_push_offers [OF st(2) ex_frame_wf(2)] st(1) by auto
qed

text \<open>
  C20: A pop takes the oldest transfer of the most urgent priority that the mask admits, and
  only that one; it fails only when there is none, and a poll with the same mask is ready
  exactly when the pop succeeds. The returned bytes are those of the buffer lent out.
\<close>

theorem rx_fifo_pop_most_urgent:
  assumes "rf_rep P B st A"
  shows "\<exists>item st' A'. rf_try_pop P st pm = Some (item, st') \<and> rf_rep P B st' A' \<and>
    rx_popped A pm item A' \<and> (fst (rf_poll_pop_readiness st pm) = Pending \<longleftrightarrow> item = None) \<and>
    (case item of None \<Rightarrow> rf_readout st' = rf_readout st
     | Some (meta, bytes) \<Rightarrow> bytes = take (length bytes) (rf_readout st'))"
  using rf_try_pop_rep [OF assms, of pm] rf.poll_iff_pop [OF assms, of pm] by blast

theorem rx_fifo_pop_most_urgent_witness:
  "\<exists>st item st' A'. rf_try_pop ex_params st ps_ALL = Some (item, st') \<and> rf_rep ex_params 1 st' A' \<and>
    rx_popped (\<lambda>p. []) ps_ALL item A' \<and>
    (fst (rf_poll_pop_readiness st ps_ALL) = Pending \<longleftrightarrow> item = None) \<and>
    (case item of None \<Rightarrow> rf_readout st' = rf_readout st
     | Some (meta, bytes) \<Rightarrow> bytes = take (length bytes) (rf_readout st'))"
proof -
  obtain st where "rf_rep ex_params 1 st (\<lambda>p. [])" using ex_fifo by blast
  from rx_fifo_pop_most_urgent [OF this] show ?thesis by (rule exI)
qed

text \<open>
  C21: A task that pops until the buffer is empty receives every queued transfer exactly once,
  in the order of the priorities and, within a priority, in the order of arrival.
\<close>

theorem rx_fifo_drains_in_order:
  assumes "rf_rep P B st A"
  shows "\<exists>st'. drain (\<lambda>st. rf_try_pop P st ps_ALL) (rp_TN P) st = Some (in_order A, st') \<and>
    rf_rep P B st' (\<lambda>p. [])"
  by (rule rf.drain_in_order [OF assms rf_rep_bounds(1) [OF assms]])

theorem rx_fifo_drains_in_order_witness:
  "\<exists>st st'. drain (\<lambda>st. rf_try_pop ex_params st ps_ALL) (rp_TN ex_params) st =
      Some (in_order (\<lambda>p. []), st') \<and> rf_rep ex_params 1 st' (\<lambda>p. [])"
proof -
  obtain st where "rf_rep ex_params 1 st (\<lambda>p. [])" using ex_fifo by blast
  from rx_fifo_drains_in_order [OF this] show ?thesis by (rule exI)
qed

text \<open>
  C22: With \<open>SN = 0\<close>, which the documentation of the buffer allows, the first frame of a
  transfer from a known source makes the buffer panic: there is no session to displace.
\<close>

theorem rx_fifo_no_sessions_panics:
  assumes "rp_SN P = 0" "rp_TN P \<le> 127" "length buffers = rp_TN P + 1"
    "h_data_spec (f_header f) = ds" "h_source (f_header f) = Some k"
    "data_deref (f_data f) = payload @ [b]" "tail_sot (TailByte b)"
  shows "\<exists>st. rf_new P ds timeout buffers = Some st \<and> rf_push_frame P st f = panic"
proof -
  obtain sessions :: session_queue where s: "iq_new NODE_K_MAX 0 = Some sessions"
    "iq_rep node_id_usize NODE_K_MAX 0 sessions (\<lambda>k. None) []"
    using iq_new_rep [of 0 NODE_K_MAX node_id_usize] by auto
  obtain q :: "transfer_entry priority_queue" where q: "pq_new (rp_TN P) = Some q"
    using pq_new_rep [of "rp_TN P"] assms(2) by auto
  let ?st = "\<lparr> rf_data_specifier = ds, rf_buffers = buffers, rf_sessions = sessions,
    rf_session_buffer_base = 0, rf_transfers = \<lparr> tq_queue = q, tq_free_buffers = map (\<lambda>i. i) [0..<rp_TN P] \<rparr>,
    rf_readout_buffer_idx = rp_TN P, rf_timeout = timeout, rf_priority_trigger = pt_new \<rparr>"
  have new: "rf_new P ds timeout buffers = Some ?st"
    using assms(1-3) s(1) q by (simp add: rf_new_def tq_new_def map_idI)
  have get: "sq_get sessions k = Some None" using iq_get_rep(1) [OF s(2), of k] .
  have contains: "iq_contains node_id_usize NODE_K_MAX sessions k = Some False"
    using iq_get_rep(2) [OF s(2), of k] by simp
  have front: "iq_front sessions = Some None" using iq_front_rep(1) [OF s(2)] by simp
  have "start_session (rp_sadd P) 0 timeout (sessions, 0) k (f_timestamp f) = panic"
    using contains front by (simp add: start_session_def allocate_session_buffer_def)
  then have "rf_push_frame P ?st f = panic"
    using assms get by (simp add: rf_push_frame_def rf_push_regular_frame_def
        rf_try_start_new_session_def slice_last_def)
  with new show ?thesis by blast
qed

theorem rx_fifo_no_sessions_panics_witness:
  "\<exists>st. rf_new \<lparr> rp_sadd = (+), rp_SN = 0, rp_TN = 1 \<rparr> (Message (SubjectId 7)) 2 [[0], [0]] = Some st \<and>
    rf_push_frame \<lparr> rp_sadd = (+), rp_SN = 0, rp_TN = 1 \<rparr> st (ex_frame (Some (NodeId 3)) [5, 0xE1]) = panic"
  by (rule rx_fifo_no_sessions_panics [where k = "NodeId 3" and payload = "[5]" and b = "0xE1"])
    (simp_all add: ex_frame_def, code_simp+)

end
