(* ===== verification/Rx_Watch.thy ===== *)
theory Rx_Watch
  imports Rx_Buffer
begin

text \<open>
  The last-message buffer \<open>Watch\<close> (\<open>emcyphal/src/buffer/rx_msg/watch.rs\<close>): one transfer slot,
  which only a transfer at least as new as every earlier one replaces. The object owns
  \<open>SN + 2\<close> buffers.
\<close>

section \<open>Model\<close>

record watch_entry =
  we_meta :: transfer_meta
  we_buffer_length :: nat

record watch =
  wt_data_specifier :: data_specifier
  wt_buffers :: "u8 list list"
  wt_sessions :: session_queue
  wt_session_buffer_base :: nat
  wt_transfer :: "watch_entry option"
  wt_transfer_min_timestamp :: instant
  wt_transfer_buffer_idx :: nat
  wt_readout_buffer_idx :: nat
  wt_timeout :: duration
  wt_priority_trigger :: priority_trigger

text \<open>\<open>Instant::MIN\<close> is the earliest instant.\<close>

definition INSTANT_MIN :: instant where
  "INSTANT_MIN = 0"

definition wt_new :: "nat \<Rightarrow> data_specifier \<Rightarrow> duration \<Rightarrow> u8 list list \<Rightarrow> watch exec" where
  "wt_new SN data_specifier timeout buffers = do {
     assert_that (length buffers = SN + 2);
     sessions \<leftarrow> iq_new NODE_K_MAX SN;
     transfer_idx \<leftarrow> u8_of SN;
     readout_idx \<leftarrow> u8_of (SN + 1);
     ret \<lparr> wt_data_specifier = data_specifier, wt_buffers = buffers, wt_sessions = sessions,
           wt_session_buffer_base = 0, wt_transfer = None,
           wt_transfer_min_timestamp = INSTANT_MIN, wt_transfer_buffer_idx = transfer_idx,
           wt_readout_buffer_idx = readout_idx, wt_timeout = timeout,
           wt_priority_trigger = pt_new \<rparr>
   }"

definition wt_try_start_new_session ::
  "(instant \<Rightarrow> duration \<Rightarrow> instant) \<Rightarrow> nat \<Rightarrow> watch \<Rightarrow> node_id \<Rightarrow> instant \<Rightarrow> watch exec" where
  "wt_try_start_new_session sadd SN st source timestamp = do {
     (sessions, base) \<leftarrow> start_session sadd SN (wt_timeout st)
       (wt_sessions st, wt_session_buffer_base st) source timestamp;
     ret (st\<lparr> wt_sessions := sessions, wt_session_buffer_base := base \<rparr>)
   }"

text \<open>
  The block that takes a complete transfer which is new enough: it swaps the buffers of the
  session and of the transfer slot.
\<close>

definition wt_accept ::
  "watch \<Rightarrow> node_id \<Rightarrow> session \<Rightarrow> priority \<Rightarrow> bool \<Rightarrow> nat \<Rightarrow> transfer option \<Rightarrow> watch \<times> session" where
  "wt_accept st source session priority loop_back buffer_len transfer = (case transfer of
     None \<Rightarrow> (st, session)
   | Some transfer \<Rightarrow>
       if wt_transfer_min_timestamp st \<le> t_timestamp transfer then
         let meta = \<lparr> tm_priority = t_priority transfer, tm_address = Some source,
               tm_transfer_id = t_id transfer, tm_timestamp = t_timestamp transfer,
               tm_loop_back = loop_back \<rparr>;
             buffer_length = min (unat (t_length transfer)) buffer_len in
         (st\<lparr> wt_transfer_min_timestamp := t_timestamp transfer,
              wt_transfer := Some \<lparr> we_meta = meta, we_buffer_length = buffer_length \<rparr>,
              wt_transfer_buffer_idx := ss_buffer_idx session,
              wt_priority_trigger := pt_wake (wt_priority_trigger st) (ps_new_eq priority) \<rparr>,
          session\<lparr> ss_buffer_idx := wt_transfer_buffer_idx st \<rparr>)
       else (st, session))"

definition wt_session_frame ::
  "(instant \<Rightarrow> duration \<Rightarrow> instant) \<Rightarrow> watch \<Rightarrow> node_id \<Rightarrow> session \<Rightarrow> priority \<Rightarrow> data \<Rightarrow> instant \<Rightarrow> bool \<Rightarrow>
    watch exec" where
  "wt_session_frame sadd st source session priority data timestamp loop_back = do {
     buffer \<leftarrow> arr_get (wt_buffers st) (ss_buffer_idx session);
     (transfer, gather, buffer) \<leftarrow> ga_push_frame sadd (ss_gather session)
       (wt_timeout st) buffer priority (data_deref data) timestamp;
     buffers \<leftarrow> arr_set (wt_buffers st) (ss_buffer_idx session) buffer;
     let st = st\<lparr> wt_buffers := buffers \<rparr>;
     let session = session\<lparr> ss_gather := gather \<rparr>;
     let (st, session) = wt_accept st source session priority loop_back (length buffer) transfer;
     sessions \<leftarrow> sq_get_mut_set (wt_sessions st) source session;
     let st = st\<lparr> wt_sessions := sessions \<rparr>;
     last \<leftarrow> ga_last_transfer_timestamp (ss_gather session);
     if last = Some timestamp then do {
       (queued, sessions) \<leftarrow> sq_enqueue_back (wt_sessions st) source;
       ok \<leftarrow> (case queued of Inl _ \<Rightarrow> panic | Inr u \<Rightarrow> ret u);
       ret (st\<lparr> wt_sessions := sessions \<rparr>)
     } else ret st
   }"

definition wt_push_regular_frame ::
  "(instant \<Rightarrow> duration \<Rightarrow> instant) \<Rightarrow> nat \<Rightarrow> watch \<Rightarrow> node_id \<Rightarrow> priority \<Rightarrow> data \<Rightarrow> instant \<Rightarrow> bool \<Rightarrow>
    watch exec" where
  "wt_push_regular_frame sadd SN st source priority data timestamp loop_back = do {
     let sot = (case slice_last (data_deref data) of None \<Rightarrow> False
                | Some byte \<Rightarrow> tail_sot (TailByte byte));
     session \<leftarrow> sq_get (wt_sessions st) source;
     (st, session) \<leftarrow>
       (if session = None \<and> sot then do {
          st \<leftarrow> wt_try_start_new_session sadd SN st source timestamp;
          session \<leftarrow> sq_get (wt_sessions st) source;
          ret (st, session)
        } else ret (st, session));
     (case session of
        None \<Rightarrow> ret st
      | Some session \<Rightarrow>
          wt_session_frame sadd st source session priority data timestamp loop_back)
   }"

definition wt_push_anonymous_frame ::
  "watch \<Rightarrow> priority \<Rightarrow> data \<Rightarrow> instant \<Rightarrow> bool \<Rightarrow> watch exec" where
  "wt_push_anonymous_frame st priority data timestamp loop_back =
     (case split_last (data_deref data) of
        None \<Rightarrow> ret st
      | Some (tail_byte, payload) \<Rightarrow>
          let tail = TailByte tail_byte;
              valid_frame = tail_sot tail \<and> tail_eot tail \<and> tail_toggle tail = SOT_TOGGLE_BIT in
          if \<not> valid_frame then ret st
          else if wt_transfer_min_timestamp st > timestamp then ret st
          else do {
            let st = st\<lparr> wt_transfer_min_timestamp := timestamp \<rparr>;
            let meta = \<lparr> tm_priority = priority, tm_address = None,
              tm_transfer_id = tail_transfer_id tail, tm_timestamp = timestamp,
              tm_loop_back = loop_back \<rparr>;
            buffer \<leftarrow> arr_get (wt_buffers st) (wt_transfer_buffer_idx st);
            let buffer_length = min (length payload) (length buffer);
            buffers \<leftarrow> arr_set (wt_buffers st) (wt_transfer_buffer_idx st)
              (copy_at buffer 0 (take buffer_length payload));
            ret (st\<lparr> wt_buffers := buffers,
                    wt_transfer := Some \<lparr> we_meta = meta, we_buffer_length = buffer_length \<rparr>,
                    wt_priority_trigger := pt_wake (wt_priority_trigger st) (ps_new_eq priority) \<rparr>)
          })"

definition wt_push_frame ::
  "(instant \<Rightarrow> duration \<Rightarrow> instant) \<Rightarrow> nat \<Rightarrow> watch \<Rightarrow> frame \<Rightarrow> watch exec" where
  "wt_push_frame sadd SN st frame =
     (if h_data_spec (f_header frame) \<noteq> wt_data_specifier st then ret st
      else (case h_source (f_header frame) of
          Some node \<Rightarrow> wt_push_regular_frame sadd SN st node (h_priority (f_header frame))
            (f_data frame) (f_timestamp frame) (f_loop_back frame)
        | None \<Rightarrow> wt_push_anonymous_frame st (h_priority (f_header frame)) (f_data frame)
            (f_timestamp frame) (f_loop_back frame)))"

definition wt_pop_readiness :: "watch \<Rightarrow> priority_set" where
  "wt_pop_readiness st = (case wt_transfer st of None \<Rightarrow> ps_NONE
     | Some transfer \<Rightarrow> ps_new_eq (tm_priority (we_meta transfer)))"

definition wt_poll_pop_readiness :: "watch \<Rightarrow> priority_set \<Rightarrow> priority_set poll \<times> watch" where
  "wt_poll_pop_readiness st priority_mask =
     (let priorities = ps_and (wt_pop_readiness st) priority_mask in
      if \<not> ps_is_empty priorities then (Ready priorities, st)
      else (Pending,
        st\<lparr> wt_priority_trigger := pt_register (wt_priority_trigger st) priority_mask \<rparr>))"

definition wt_try_pop :: "watch \<Rightarrow> priority_set \<Rightarrow> (rx_item option \<times> watch) exec" where
  "wt_try_pop st priority_mask =
     (if (case wt_transfer st of None \<Rightarrow> True
          | Some transfer \<Rightarrow> \<not> ps_contains priority_mask (tm_priority (we_meta transfer)))
      then ret (None, st)
      else do {
        transfer \<leftarrow> unwrap (wt_transfer st);
        let st = st\<lparr> wt_transfer := None,
                    wt_transfer_buffer_idx := wt_readout_buffer_idx st,
                    wt_readout_buffer_idx := wt_transfer_buffer_idx st \<rparr>;
        buffer \<leftarrow> arr_get (wt_buffers st) (wt_readout_buffer_idx st);
        valid_buffer \<leftarrow> slice buffer 0 (we_buffer_length transfer);
        ret (Some (we_meta transfer, valid_buffer), st)
      })"

section \<open>The invariant\<close>

definition wt_owned :: "nat \<Rightarrow> watch \<Rightarrow> (node_id \<rightharpoonup> session) \<Rightarrow> node_id list \<Rightarrow> nat multiset" where
  "wt_owned SN st m xs = table_buffers SN (wt_session_buffer_base st) m xs +
     {#wt_transfer_buffer_idx st, wt_readout_buffer_idx st#}"

text \<open>
  Every buffer has one owner; the slot holds a transfer as old as the newest one accepted.
\<close>

definition wt_slot_ok :: "nat \<Rightarrow> watch \<Rightarrow> bool" where
  "wt_slot_ok B st \<longleftrightarrow> (\<forall>e. wt_transfer st = Some e \<longrightarrow> we_buffer_length e \<le> B \<and>
     tm_timestamp (we_meta e) = wt_transfer_min_timestamp st)"

definition wt_links :: "nat \<Rightarrow> nat \<Rightarrow> watch \<Rightarrow> (node_id \<rightharpoonup> session) \<Rightarrow> node_id list \<Rightarrow> bool" where
  "wt_links SN B st m xs \<longleftrightarrow>
     0 < SN \<and> sessions_rep SN (wt_sessions st) (wt_session_buffer_base st) m xs \<and>
     length (wt_buffers st) = SN + 2 \<and> (\<forall>b \<in> set (wt_buffers st). length b = B) \<and>
     wt_slot_ok B st \<and> wt_owned SN st m xs = mset [0..<SN + 2]"

definition wt_item :: "watch \<Rightarrow> rx_item option" where
  "wt_item st = map_option (\<lambda>e. (we_meta e,
     take (we_buffer_length e) (wt_buffers st ! wt_transfer_buffer_idx st))) (wt_transfer st)"

text \<open>The contents of a slot as a queue: at most one transfer.\<close>

definition slot_contents :: "rx_item option \<Rightarrow> rx_contents" where
  "slot_contents item p = (case item of None \<Rightarrow> []
     | Some i \<Rightarrow> if tm_priority (fst i) = p then [i] else [])"

definition wt_rep :: "nat \<Rightarrow> nat \<Rightarrow> watch \<Rightarrow> rx_contents \<Rightarrow> bool" where
  "wt_rep SN B st A \<longleftrightarrow> (\<exists>m xs. wt_links SN B st m xs) \<and> A = slot_contents (wt_item st)"

definition wt_readout :: "watch \<Rightarrow> u8 list" where
  "wt_readout st = wt_buffers st ! wt_readout_buffer_idx st"

lemma wt_linksD:
  assumes "wt_links SN B st m xs"
  shows "0 < SN" "sessions_rep SN (wt_sessions st) (wt_session_buffer_base st) m xs"
    "length (wt_buffers st) = SN + 2" "\<forall>b \<in> set (wt_buffers st). length b = B"
    "wt_slot_ok B st" "wt_owned SN st m xs = mset [0..<SN + 2]"
  using assms unfolding wt_links_def by blast+

lemma wt_slot_buffers:
  assumes "wt_links SN B st m xs"
  shows "wt_transfer_buffer_idx st < length (wt_buffers st)"
    "wt_readout_buffer_idx st < length (wt_buffers st)"
    "wt_transfer_buffer_idx st \<noteq> wt_readout_buffer_idx st"
    "length (wt_buffers st ! wt_transfer_buffer_idx st) = B"
proof -
  note l = wt_linksD [OF assms]
  let ?T = "table_buffers SN (wt_session_buffer_base st) m xs"
  have "wt_owned SN st m xs = {#wt_transfer_buffer_idx st#} + ({#wt_readout_buffer_idx st#} + ?T)"
    by (simp add: wt_owned_def)
  then have o1: "{#wt_transfer_buffer_idx st#} + ({#wt_readout_buffer_idx st#} + ?T) = mset [0..<SN + 2]"
    using l(6) by (simp only:)
  have "wt_owned SN st m xs = {#wt_readout_buffer_idx st#} + ({#wt_transfer_buffer_idx st#} + ?T)"
    by (simp add: wt_owned_def add_mset_commute)
  then have o2: "{#wt_readout_buffer_idx st#} + ({#wt_transfer_buffer_idx st#} + ?T) = mset [0..<SN + 2]"
    using l(6) by (simp only:)
  show t: "wt_transfer_buffer_idx st < length (wt_buffers st)"
    using owned_unique(1) [OF o1, of "wt_transfer_buffer_idx st"] l(3) by simp
  show "wt_readout_buffer_idx st < length (wt_buffers st)"
    using owned_unique(1) [OF o2, of "wt_readout_buffer_idx st"] l(3) by simp
  show "wt_transfer_buffer_idx st \<noteq> wt_readout_buffer_idx st"
    using owned_unique(2) [OF o1, of "wt_transfer_buffer_idx st"] by auto
  show "length (wt_buffers st ! wt_transfer_buffer_idx st) = B" using l(4) nth_mem [OF t] by blast
qed

lemma wt_session_buffer:
  assumes "wt_links SN B st m xs" "m k = Some s"
  shows "ss_buffer_idx s < length (wt_buffers st)" "ss_buffer_idx s \<noteq> wt_transfer_buffer_idx st"
    "ss_buffer_idx s \<noteq> wt_readout_buffer_idx st"
proof -
  note l = wt_linksD [OF assms(1)]
  have mem: "ss_buffer_idx s \<in># table_buffers SN (wt_session_buffer_base st) m xs"
    by (rule session_buffer_mem [OF l(2) assms(2)])
  have "table_buffers SN (wt_session_buffer_base st) m xs +
      {#wt_transfer_buffer_idx st, wt_readout_buffer_idx st#} = mset [0..<SN + 2]"
    using l(6) by (simp only: wt_owned_def)
  note u = owned_unique [OF this mem]
  show "ss_buffer_idx s < length (wt_buffers st)" using u(1) l(3) by simp
  show "ss_buffer_idx s \<noteq> wt_transfer_buffer_idx st" "ss_buffer_idx s \<noteq> wt_readout_buffer_idx st"
    using u(2) by auto
qed

section \<open>The operations\<close>

text \<open>
  What the watch promises: a transfer enters the slot exactly when it is not older than the
  newest one that entered before.
\<close>

definition watch_offer :: "rx_item option \<times> instant \<Rightarrow> rx_item \<Rightarrow> rx_item option \<times> instant" where
  "watch_offer slot item = (if snd slot \<le> tm_timestamp (fst item)
     then (Some item, tm_timestamp (fst item)) else slot)"

definition wt_slot :: "watch \<Rightarrow> rx_item option \<times> instant" where
  "wt_slot st = (wt_item st, wt_transfer_min_timestamp st)"

lemma wt_new_links:
  assumes "length buffers = SN + 2" "\<forall>b \<in> set buffers. length b = B" "0 < SN" "SN \<le> 128"
  shows "\<exists>st. wt_new SN ds timeout buffers = Some st \<and> wt_links SN B st (\<lambda>k. None) [] \<and>
    wt_slot st = (None, INSTANT_MIN) \<and> wt_data_specifier st = ds"
proof -
  obtain sessions :: session_queue where s: "iq_new NODE_K_MAX SN = Some sessions"
    "iq_rep node_id_usize NODE_K_MAX SN sessions (\<lambda>k. None) []"
    using iq_new_rep [of SN NODE_K_MAX node_id_usize] assms(4) by auto
  let ?st = "\<lparr> wt_data_specifier = ds, wt_buffers = buffers, wt_sessions = sessions,
    wt_session_buffer_base = 0, wt_transfer = None, wt_transfer_min_timestamp = INSTANT_MIN,
    wt_transfer_buffer_idx = SN, wt_readout_buffer_idx = SN + 1, wt_timeout = timeout,
    wt_priority_trigger = pt_new \<rparr>"
  have run: "wt_new SN ds timeout buffers = Some ?st"
    using assms s(1) by (simp add: wt_new_def)
  have "mset [0..<SN + 2] = mset [0..<SN] + {#SN, SN + 1#}"
    using upt_add_eq_append [of 0 SN 2] by (simp add: upt_rec)
  then have "wt_owned SN ?st (\<lambda>k. None) [] = mset [0..<SN + 2]"
    by (simp add: wt_owned_def table_buffers_def)
  then have "wt_links SN B ?st (\<lambda>k. None) []"
    unfolding wt_links_def using assms s(2) by (simp add: sessions_rep_def wt_slot_ok_def)
  with run show ?thesis by (intro exI [of _ ?st]) (simp add: wt_slot_def wt_item_def)
qed

text \<open>
  Writing back a session after the slot and the session have, possibly, swapped buffers.
\<close>

lemma wt_write_back:
  assumes "wt_links SN B st m xs" "m k = Some s" "ga_wf (ss_gather s')"
    "wt_sessions st' = wt_sessions st" "wt_session_buffer_base st' = wt_session_buffer_base st"
    "length (wt_buffers st') = SN + 2" "\<forall>b \<in> set (wt_buffers st'). length b = B" "wt_slot_ok B st'"
    "{#ss_buffer_idx s', wt_transfer_buffer_idx st', wt_readout_buffer_idx st'#} =
      {#ss_buffer_idx s, wt_transfer_buffer_idx st, wt_readout_buffer_idx st#}"
  shows "\<exists>sessions'. sq_get_mut_set (wt_sessions st') k s' = Some sessions' \<and>
    wt_links SN B (st'\<lparr> wt_sessions := sessions' \<rparr>) (m(k \<mapsto> s')) xs"
proof -
  note l = wt_linksD [OF assms(1)]
  let ?base = "wt_session_buffer_base st"
  obtain sessions' where p: "sq_get_mut_set (wt_sessions st) k s' = Some sessions'"
    "sessions_rep SN sessions' ?base (m(k \<mapsto> s')) xs"
    "add_mset (ss_buffer_idx s) (table_buffers SN ?base (m(k \<mapsto> s')) xs) =
      add_mset (ss_buffer_idx s') (table_buffers SN ?base m xs)"
    using sessions_put [OF l(2) assms(2,3)] by blast
  let ?st = "st'\<lparr> wt_sessions := sessions' \<rparr>" and ?T = "table_buffers SN ?base m xs"
  have shift: "add_mset a (X + Y) = add_mset a X + Y" "add_mset a X + Y = X + add_mset a Y"
    for a and X Y :: "nat multiset" by simp_all
  have "add_mset (ss_buffer_idx s) (wt_owned SN ?st (m(k \<mapsto> s')) xs) =
      add_mset (ss_buffer_idx s') ?T + {#wt_transfer_buffer_idx st', wt_readout_buffer_idx st'#}"
    unfolding p(3) [symmetric] by (simp add: wt_owned_def assms(5))
  also have "\<dots> = add_mset (ss_buffer_idx s) (wt_owned SN st m xs)"
    unfolding wt_owned_def shift(2) assms(9) by (simp only: shift)
  finally have "wt_owned SN ?st (m(k \<mapsto> s')) xs = wt_owned SN st m xs" by simp
  then have "wt_owned SN ?st (m(k \<mapsto> s')) xs = mset [0..<SN + 2]" using l(6) by (rule trans)
  moreover have "wt_slot_ok B ?st" using assms(8) by (simp add: wt_slot_ok_def)
  ultimately have "wt_links SN B ?st (m(k \<mapsto> s')) xs"
    unfolding wt_links_def using l(1) p(2) assms(5,6,7) by simp
  then show ?thesis using p(1) assms(4) by auto
qed

lemma wt_touch:
  assumes "wt_links SN B st m xs" "m k \<noteq> None"
  shows "\<exists>sessions' xs'. sq_enqueue_back (wt_sessions st) k = Some (Inr (), sessions') \<and>
    wt_links SN B (st\<lparr> wt_sessions := sessions' \<rparr>) m xs'"
proof -
  note l = wt_linksD [OF assms(1)]
  obtain sessions' where s: "sq_enqueue_back (wt_sessions st) k = Some (Inr (), sessions')"
    "sessions_rep SN sessions' (wt_session_buffer_base st) m (removeAll k xs @ [k])"
    "table_buffers SN (wt_session_buffer_base st) m (removeAll k xs @ [k]) =
      table_buffers SN (wt_session_buffer_base st) m xs"
    using sessions_touch [OF l(2) assms(2)] by blast
  let ?st = "st\<lparr> wt_sessions := sessions' \<rparr>"
  have "wt_owned SN ?st m (removeAll k xs @ [k]) = wt_owned SN st m xs"
    by (simp add: wt_owned_def s(3))
  then have "wt_owned SN ?st m (removeAll k xs @ [k]) = mset [0..<SN + 2]" using l(6) by (rule trans)
  moreover have "wt_slot_ok B ?st" using l(5) by (simp add: wt_slot_ok_def)
  ultimately have "wt_links SN B ?st m (removeAll k xs @ [k])"
    unfolding wt_links_def using l(1-4) s(2) by simp
  with s(1) show ?thesis by blast
qed

text \<open>Taking a transfer swaps the buffers of the session and the slot.\<close>

lemma wt_accept_frame:
  assumes "wt_accept st k s pr lb n t = (st', s')"
  shows "ss_gather s' = ss_gather s" "wt_sessions st' = wt_sessions st"
    "wt_session_buffer_base st' = wt_session_buffer_base st" "wt_buffers st' = wt_buffers st"
    "wt_data_specifier st' = wt_data_specifier st"
    "wt_readout_buffer_idx st' = wt_readout_buffer_idx st"
    "{#ss_buffer_idx s', wt_transfer_buffer_idx st', wt_readout_buffer_idx st'#} =
      {#ss_buffer_idx s, wt_transfer_buffer_idx st, wt_readout_buffer_idx st#}"
  using assms unfolding wt_accept_def Let_def
  by (auto split: option.splits if_splits simp: add_mset_commute)

lemma wt_accept_slot:
  assumes "wt_accept st k s pr lb (length b) t = (st', s')" "wt_buffers st ! ss_buffer_idx s = b"
    "\<And>tr. t = Some tr \<Longrightarrow> t_priority tr = pr"
  shows "wt_slot st' = (case t of None \<Rightarrow> wt_slot st
    | Some tr \<Rightarrow> watch_offer (wt_slot st) (regular_item k lb tr b pr))"
    "wt_slot_ok B st \<Longrightarrow> length b = B \<Longrightarrow> wt_slot_ok B st'"
  using assms unfolding wt_accept_def Let_def
  by (auto split: option.splits if_splits
      simp: wt_slot_def wt_item_def watch_offer_def regular_item_def wt_slot_ok_def)

lemma wt_slot_write:
  assumes "i \<noteq> wt_transfer_buffer_idx st"
  shows "wt_slot (st\<lparr> wt_buffers := (wt_buffers st)[i := b] \<rparr>) = wt_slot st"
  using assms by (simp add: wt_slot_def wt_item_def cong: option.map_cong)

lemma wt_slot_sessions [simp]: "wt_slot (st\<lparr> wt_sessions := x \<rparr>) = wt_slot st"
  by (simp add: wt_slot_def wt_item_def)

lemma wt_session_frame_rep:
  assumes "wt_links SN B st m xs" "m k = Some s" "length (data_deref data) < 2 ^ 32"
  shows "\<exists>t g' b' st' m' xs'.
    ga_push_frame sadd (ss_gather s) (wt_timeout st) (wt_buffers st ! ss_buffer_idx s) pr
      (data_deref data) ts = Some (t, g', b') \<and>
    wt_session_frame sadd st k s pr data ts lb = Some st' \<and> wt_links SN B st' m' xs' \<and>
    wt_data_specifier st' = wt_data_specifier st \<and> wt_readout st' = wt_readout st \<and>
    (\<exists>s'. m' k = Some s' \<and> ss_gather s' = g' \<and> (t = None \<longrightarrow> wt_buffers st' ! ss_buffer_idx s' = b')) \<and>
    wt_slot st' = (case t of None \<Rightarrow> wt_slot st
      | Some t \<Rightarrow> watch_offer (wt_slot st) (regular_item k lb t b' pr))"
proof -
  note l = wt_linksD [OF assms(1)]
  let ?i = "ss_buffer_idx s"
  note i = wt_session_buffer [OF assms(1,2)]
  have wf: "ga_wf (ss_gather s)" using l(2) assms(2) by (simp add: sessions_rep_def)
  obtain t g' b' where push: "ga_push_frame sadd (ss_gather s) (wt_timeout st)
      (wt_buffers st ! ?i) pr (data_deref data) ts = Some (t, g', b')"
    "ga_wf g'" "length b' = length (wt_buffers st ! ?i)"
    using ga_push_frame_ok [OF wf assms(3)] by blast
  have B: "length b' = B" using push(3) l(4) nth_mem [OF i(1)] by simp
  let ?st1 = "st\<lparr> wt_buffers := (wt_buffers st)[?i := b'] \<rparr>" and ?s1 = "s\<lparr> ss_gather := g' \<rparr>"
  obtain st2 s2 where acc: "wt_accept ?st1 k ?s1 pr lb (length b') t = (st2, s2)"
    by (cases "wt_accept ?st1 k ?s1 pr lb (length b') t") blast
  note fr = wt_accept_frame [OF acc]
  have at: "wt_buffers ?st1 ! ss_buffer_idx ?s1 = b'" using i(1) by simp
  have pr: "t_priority tr = pr" if "t = Some tr" for tr using ga_push_priority push(1) that by simp
  have slot1: "wt_slot_ok B ?st1" using l(5) by (simp add: wt_slot_ok_def)
  note sl = wt_accept_slot(1) [OF acc at pr, unfolded wt_slot_write [OF i(2)]]
  have ok2: "wt_slot_ok B st2" by (rule wt_accept_slot(2) [OF acc at pr slot1 B])
  have bufs: "length (wt_buffers st2) = SN + 2" "\<forall>b \<in> set (wt_buffers st2). length b = B"
    unfolding fr(4) using l(3) buffers_write [OF l(4) B] by simp_all
  have own: "{#ss_buffer_idx s2, wt_transfer_buffer_idx st2, wt_readout_buffer_idx st2#} =
      {#?i, wt_transfer_buffer_idx st, wt_readout_buffer_idx st#}" using fr(7) by simp
  have g2: "ga_wf (ss_gather s2)" using fr(1) push(2) by simp
  obtain sessions' where wb: "sq_get_mut_set (wt_sessions st2) k s2 = Some sessions'"
    "wt_links SN B (st2\<lparr> wt_sessions := sessions' \<rparr>) (m(k \<mapsto> s2)) xs"
    using wt_write_back [OF assms(1,2) g2 _ _ bufs ok2 own] fr(2,3) by auto
  let ?st3 = "st2\<lparr> wt_sessions := sessions' \<rparr>"
  obtain last where last: "ga_last_transfer_timestamp (ss_gather s2) = Some last"
    using g2 by (cases "g_state (ss_gather s2)") (auto simp: ga_last_transfer_timestamp_def ga_wf_def)
  obtain sessions'' xs' where tc: "sq_enqueue_back (wt_sessions ?st3) k = Some (Inr (), sessions'')"
    "wt_links SN B (?st3\<lparr> wt_sessions := sessions'' \<rparr>) (m(k \<mapsto> s2)) xs'"
    using wt_touch [OF wb(2), of k] by auto
  let ?st' = "if last = Some ts then ?st3\<lparr> wt_sessions := sessions'' \<rparr> else ?st3"
  let ?xs' = "if last = Some ts then xs' else xs"
  have run: "wt_session_frame sadd st k s pr data ts lb = Some ?st'"
    unfolding wt_session_frame_def using i(1) push(1) acc wb(1) last tc(1) by simp
  have links: "wt_links SN B ?st' (m(k \<mapsto> s2)) ?xs'" using wb(2) tc(2) by simp
  have slot: "wt_slot ?st' = (case t of None \<Rightarrow> wt_slot st
      | Some t \<Rightarrow> watch_offer (wt_slot st) (regular_item k lb t b' pr))" using sl by simp
  have keep: "wt_data_specifier ?st' = wt_data_specifier st" "wt_readout ?st' = wt_readout st"
    using fr(4,5,6) i(3) by (simp_all add: wt_readout_def)
  have "ss_gather s2 = g'" "t = None \<longrightarrow> ss_buffer_idx s2 = ?i" "wt_buffers ?st' = (wt_buffers st)[?i := b']"
    using fr(1,4) acc by (simp, cases t, simp_all add: wt_accept_def) auto
  then have own_session: "\<exists>s'. (m(k \<mapsto> s2)) k = Some s' \<and> ss_gather s' = g' \<and>
      (t = None \<longrightarrow> wt_buffers ?st' ! ss_buffer_idx s' = b')"
    using i(1) by simp
  show ?thesis using push(1) run links slot keep own_session by blast
qed

lemma wt_start_rep:
  assumes "wt_links SN B st m xs" "m k = None" "node_id_wf k"
  shows "\<exists>st' m' xs'. wt_try_start_new_session sadd SN st k ts = Some st' \<and> wt_links SN B st' m' xs' \<and>
    wt_slot st' = wt_slot st \<and> wt_data_specifier st' = wt_data_specifier st \<and>
    wt_readout st' = wt_readout st \<and> wt_timeout st' = wt_timeout st \<and>
    (if session_available sadd SN (wt_timeout st) (wt_sessions st, wt_session_buffer_base st) ts
     then \<exists>idx. m' k = Some (new_session idx) else m' = m)"
proof -
  note l = wt_linksD [OF assms(1)]
  obtain sessions' base' m' xs' where s: "start_session sadd SN (wt_timeout st)
      (wt_sessions st, wt_session_buffer_base st) k ts = Some (sessions', base')"
    "sessions_rep SN sessions' base' m' xs'"
    "table_buffers SN base' m' xs' = table_buffers SN (wt_session_buffer_base st) m xs"
    "if session_available sadd SN (wt_timeout st) (wt_sessions st, wt_session_buffer_base st) ts
     then \<exists>idx. m' k = Some (new_session idx) else m' = m"
    using start_session_rep [OF l(2) assms(2,3) l(1)] by blast
  let ?st = "st\<lparr> wt_sessions := sessions', wt_session_buffer_base := base' \<rparr>"
  have run: "wt_try_start_new_session sadd SN st k ts = Some ?st"
    using s(1) by (simp add: wt_try_start_new_session_def)
  have "wt_owned SN ?st m' xs' = wt_owned SN st m xs" by (simp add: wt_owned_def s(3))
  then have "wt_owned SN ?st m' xs' = mset [0..<SN + 2]" using l(6) by (rule trans)
  moreover have "wt_slot_ok B ?st" using l(5) by (simp add: wt_slot_ok_def)
  ultimately have "wt_links SN B ?st m' xs'" unfolding wt_links_def using l(1-4) s(2) by simp
  then show ?thesis using run s(4)
    by (intro exI [of _ ?st] exI [of _ m'] exI [of _ xs'])
      (simp add: wt_slot_def wt_item_def wt_readout_def)
qed

abbreviation "wt_table st \<equiv> (wt_sessions st, wt_session_buffer_base st)"

definition watch_offered :: "rx_item option \<times> instant \<Rightarrow> rx_item option \<Rightarrow> rx_item option \<times> instant" where
  "watch_offered slot item = (case item of None \<Rightarrow> slot | Some i \<Rightarrow> watch_offer slot i)"

lemma wt_session_frame_advanced:
  assumes "wt_links SN B st m xs" "m k = Some s" "length (data_deref (f_data f)) < 2 ^ 32"
  shows "\<exists>t g' b' st' m' xs'.
    ga_push_frame sadd (ss_gather s) (wt_timeout st) (wt_buffers st ! ss_buffer_idx s) (h_priority (f_header f))
      (data_deref (f_data f)) (f_timestamp f) = Some (t, g', b') \<and>
    wt_session_frame sadd st k s (h_priority (f_header f)) (f_data f) (f_timestamp f) (f_loop_back f) = Some st' \<and>
    wt_links SN B st' m' xs' \<and> wt_data_specifier st' = wt_data_specifier st \<and> wt_readout st' = wt_readout st \<and>
    rx_advanced sadd (wt_timeout st) f (ss_gather s) (wt_buffers st ! ss_buffer_idx s)
      (rx_session (wt_sessions st') k) (wt_buffers st') \<and>
    wt_slot st' = watch_offered (wt_slot st)
      (map_option (\<lambda>t. regular_item k (f_loop_back f) t b' (h_priority (f_header f))) t)"
proof -
  obtain t g' b' st' m' xs' s' where r:
    "ga_push_frame sadd (ss_gather s) (wt_timeout st) (wt_buffers st ! ss_buffer_idx s) (h_priority (f_header f))
      (data_deref (f_data f)) (f_timestamp f) = Some (t, g', b')"
    "wt_session_frame sadd st k s (h_priority (f_header f)) (f_data f) (f_timestamp f) (f_loop_back f) = Some st'"
    "wt_links SN B st' m' xs'" "wt_data_specifier st' = wt_data_specifier st" "wt_readout st' = wt_readout st"
    "m' k = Some s'" "ss_gather s' = g'" "t = None \<longrightarrow> wt_buffers st' ! ss_buffer_idx s' = b'"
    "wt_slot st' = (case t of None \<Rightarrow> wt_slot st
      | Some t \<Rightarrow> watch_offer (wt_slot st) (regular_item k (f_loop_back f) t b' (h_priority (f_header f))))"
    using wt_session_frame_rep [OF assms, of sadd "h_priority (f_header f)" "f_timestamp f" "f_loop_back f"] by blast
  have "rx_session (wt_sessions st') k = Some s'"
    using rx_session_rep [OF wt_linksD(2) [OF r(3)], of k] r(6) by simp
  then have "rx_advanced sadd (wt_timeout st) f (ss_gather s) (wt_buffers st ! ss_buffer_idx s)
      (rx_session (wt_sessions st') k) (wt_buffers st')"
    unfolding rx_advanced_def using r(1,7,8) by blast
  moreover have "wt_slot st' = watch_offered (wt_slot st)
      (map_option (\<lambda>t. regular_item k (f_loop_back f) t b' (h_priority (f_header f))) t)"
    unfolding r(9) by (cases t) (simp_all add: watch_offered_def)
  ultimately show ?thesis using r(1-5) by blast
qed

lemma wt_push_regular_rep:
  assumes "wt_links SN B st m xs" "h_source (f_header f) = Some k" "node_id_wf k"
    "length (data_deref (f_data f)) < 2 ^ 32"
  shows "\<exists>st' m' xs'. wt_push_regular_frame sadd SN st k (h_priority (f_header f)) (f_data f) (f_timestamp f)
      (f_loop_back f) = Some st' \<and>
    wt_links SN B st' m' xs' \<and> wt_data_specifier st' = wt_data_specifier st \<and> wt_readout st' = wt_readout st \<and>
    rx_sessions_after sadd SN B (wt_timeout st) (wt_table st) (wt_buffers st) f (wt_sessions st') (wt_buffers st') \<and>
    wt_slot st' = watch_offered (wt_slot st)
      (rx_completed sadd SN B (wt_timeout st) (wt_table st) (wt_buffers st) f)"
proof -
  let ?d = "data_deref (f_data f)" and ?pr = "h_priority (f_header f)" and ?ts = "f_timestamp f"
  let ?push = "\<lambda>st. wt_push_regular_frame sadd SN st k ?pr (f_data f) ?ts (f_loop_back f)"
  let ?frame = "\<lambda>st s. wt_session_frame sadd st k s ?pr (f_data f) ?ts (f_loop_back f)"
  note l = wt_linksD [OF assms(1)]
  have get: "sq_get (wt_sessions st) k = Some (m k)" by (rule sessions_get [OF l(2)])
  have own: "rx_session (wt_sessions st) k = m k" by (rule rx_session_rep [OF l(2)])
  show ?thesis
  proof (cases "m k")
    case (Some s)
    then have run: "?push st = ?frame st s" using get by (simp add: wt_push_regular_frame_def)
    obtain t g' b' st' m' xs' where r: "ga_push_frame sadd (ss_gather s) (wt_timeout st)
        (wt_buffers st ! ss_buffer_idx s) ?pr ?d ?ts = Some (t, g', b')" "?frame st s = Some st'"
      "wt_links SN B st' m' xs'" "wt_data_specifier st' = wt_data_specifier st" "wt_readout st' = wt_readout st"
      "rx_advanced sadd (wt_timeout st) f (ss_gather s) (wt_buffers st ! ss_buffer_idx s)
        (rx_session (wt_sessions st') k) (wt_buffers st')"
      "wt_slot st' = watch_offered (wt_slot st) (map_option (\<lambda>t. regular_item k (f_loop_back f) t b' ?pr) t)"
      using wt_session_frame_advanced [OF assms(1) Some assms(4)] by blast
    have "rx_completed sadd SN B (wt_timeout st) (wt_table st) (wt_buffers st) f =
        map_option (\<lambda>t. regular_item k (f_loop_back f) t b' ?pr) t"
      using assms(2) own Some r(1) by (simp add: rx_completed_def Let_def split: option.split)
    moreover have "rx_sessions_after sadd SN B (wt_timeout st) (wt_table st) (wt_buffers st) f
        (wt_sessions st') (wt_buffers st')"
      using assms(2) own Some r(6) by (simp add: rx_sessions_after_def)
    ultimately show ?thesis using run r(2-5,7) by metis
  next
    case None
    note unknown = own [unfolded None]
    show ?thesis
    proof (cases "rx_starts ?d")
      case False
      then have "?push st = Some st" using get None
        by (simp add: wt_push_regular_frame_def rx_starts_def)
      moreover have "\<not> single_frame ?d" using False single_frame_starts [of ?d] by (auto simp: rx_starts_def)
      ultimately show ?thesis using assms(1,2) unknown False
        by (intro exI [of _ st] exI [of _ m] exI [of _ xs])
          (simp add: rx_sessions_after_def rx_completed_def Let_def watch_offered_def)
    next
      case True
      let ?available = "session_available sadd SN (wt_timeout st) (wt_table st) ?ts"
      obtain st1 m1 xs1 where s: "wt_try_start_new_session sadd SN st k ?ts = Some st1"
        "wt_links SN B st1 m1 xs1" "wt_slot st1 = wt_slot st"
        "wt_data_specifier st1 = wt_data_specifier st" "wt_readout st1 = wt_readout st" "wt_timeout st1 = wt_timeout st"
        "if ?available then \<exists>idx. m1 k = Some (new_session idx) else m1 = m"
        using wt_start_rep [OF assms(1) None assms(3), of sadd ?ts] by blast
      have get1: "sq_get (wt_sessions st1) k = Some (m1 k)" and own1: "rx_session (wt_sessions st1) k = m1 k"
        using sessions_get rx_session_rep wt_linksD(2) [OF s(2)] by blast+
      have run: "?push st = (case m1 k of None \<Rightarrow> Some st1 | Some s1 \<Rightarrow> ?frame st1 s1)"
        using get None True s(1) get1 by (simp add: wt_push_regular_frame_def rx_starts_def)
      show ?thesis
      proof (cases ?available)
        case False
        then have "m1 k = None" using s(7) None by simp
        then show ?thesis using s(2-5) run assms(2) unknown False own1
          by (intro exI [of _ st1] exI [of _ m1] exI [of _ xs1])
            (simp add: rx_sessions_after_def rx_completed_def Let_def watch_offered_def)
      next
        case yes: True
        then obtain idx where new: "m1 k = Some (new_session idx)" using s(7) by auto
        obtain t g' b' st' m' xs' where r: "ga_push_frame sadd ga_default (wt_timeout st)
            (wt_buffers st1 ! idx) ?pr ?d ?ts = Some (t, g', b')" "?push st = Some st'"
          "wt_links SN B st' m' xs'" "wt_data_specifier st' = wt_data_specifier st" "wt_readout st' = wt_readout st"
          "rx_advanced sadd (wt_timeout st) f ga_default (wt_buffers st1 ! idx)
            (rx_session (wt_sessions st') k) (wt_buffers st')"
          "wt_slot st' = watch_offered (wt_slot st) (map_option (\<lambda>t. regular_item k (f_loop_back f) t b' ?pr) t)"
          using wt_session_frame_advanced [OF s(2) new assms(4), of sadd] run new s(3-6)
          by (auto simp: new_session_def)
        have B: "length (wt_buffers st1 ! idx) = B"
          using wt_session_buffer(1) [OF s(2) new] wt_linksD(4) [OF s(2)] nth_mem [of idx "wt_buffers st1"]
          by (simp add: new_session_def)
        have "rx_completed sadd SN B (wt_timeout st) (wt_table st) (wt_buffers st) f =
            map_option (\<lambda>t. regular_item k (f_loop_back f) t b' ?pr) t"
          using ga_fresh_single [OF r(1) assms(4) True, of k "f_loop_back f"] assms(2) unknown yes B
          by (cases t) (simp_all add: rx_completed_def Let_def)
        moreover have "rx_sessions_after sadd SN B (wt_timeout st) (wt_table st) (wt_buffers st) f
            (wt_sessions st') (wt_buffers st')"
          using assms(2) unknown True yes r(6) B by (auto simp: rx_sessions_after_def)
        ultimately show ?thesis using r(2-5,7) by metis
      qed
    qed
  qed
qed

lemma wt_put_slot:
  assumes "wt_links SN B st m xs" "length b = B" "we_buffer_length e \<le> B"
    "tm_timestamp (we_meta e) = ts"
  shows "wt_links SN B (st\<lparr> wt_transfer_min_timestamp := ts,
    wt_buffers := (wt_buffers st)[i := b], wt_transfer := Some e, wt_priority_trigger := t \<rparr>) m xs"
proof -
  note l = wt_linksD [OF assms(1)]
  let ?st = "st\<lparr> wt_transfer_min_timestamp := ts, wt_buffers := (wt_buffers st)[i := b],
    wt_transfer := Some e, wt_priority_trigger := t \<rparr>"
  have "wt_owned SN ?st m xs = wt_owned SN st m xs" by (simp add: wt_owned_def)
  then have "wt_owned SN ?st m xs = mset [0..<SN + 2]" using l(6) by (rule trans)
  moreover have "wt_slot_ok B ?st" using assms(3,4) by (simp add: wt_slot_ok_def)
  moreover have bufs: "wt_buffers ?st = (wt_buffers st)[i := b]" by simp
  have "\<forall>b \<in> set (wt_buffers ?st). length b = B"
    unfolding bufs by (rule buffers_write [OF l(4) assms(2)])
  moreover have "length (wt_buffers ?st) = SN + 2" using l(3) by simp
  moreover have "sessions_rep SN (wt_sessions ?st) (wt_session_buffer_base ?st) m xs"
    using l(2) by simp
  ultimately show ?thesis unfolding wt_links_def using l(1) by blast
qed

lemma wt_push_anonymous_rep:
  assumes "wt_links SN B st m xs"
  shows "\<exists>st'. wt_push_anonymous_frame st pr data ts lb = Some st' \<and> wt_links SN B st' m xs \<and>
    wt_data_specifier st' = wt_data_specifier st \<and> wt_readout st' = wt_readout st \<and>
    wt_slot st' = (if single_frame (data_deref data)
      then watch_offer (wt_slot st) (anonymous_item lb B (butlast (data_deref data))
        (tail_transfer_id (TailByte (last (data_deref data)))) ts pr)
      else wt_slot st)"
proof (cases "single_frame (data_deref data) \<and> wt_transfer_min_timestamp st \<le> ts")
  case False
  then have "wt_push_anonymous_frame st pr data ts lb = Some st"
    by (auto simp: wt_push_anonymous_frame_def split_last_def single_frame_def Let_def)
  with False assms show ?thesis
    by (intro exI [of _ st]) (auto simp: watch_offer_def wt_slot_def anonymous_item_def)
next
  case True
  note l = wt_linksD [OF assms]
  let ?d = "data_deref data" and ?i = "wt_transfer_buffer_idx st"
  let ?tail = "TailByte (last ?d)" and ?pay = "butlast ?d" and ?b = "wt_buffers st ! ?i"
  note i = wt_slot_buffers [OF assms]
  have new: "\<not> ts < wt_transfer_min_timestamp st" using True leD by blast
  have valid: "split_last ?d = Some (last ?d, ?pay)" "tail_sot ?tail" "tail_eot ?tail"
    "tail_toggle ?tail = SOT_TOGGLE_BIT" using True by (simp_all add: single_frame_def split_last_def)
  let ?len = "min (length ?pay) (length ?b)"
  let ?new = "copy_at ?b 0 (take ?len ?pay)"
  have newB: "length ?new = B" using i(4) by (subst length_copy_at) simp_all
  let ?meta = "\<lparr> tm_priority = pr, tm_address = None, tm_transfer_id = tail_transfer_id ?tail,
    tm_timestamp = ts, tm_loop_back = lb \<rparr>"
  let ?st = "st\<lparr> wt_transfer_min_timestamp := ts, wt_buffers := (wt_buffers st)[?i := ?new],
    wt_transfer := Some \<lparr> we_meta = ?meta, we_buffer_length = ?len \<rparr>,
    wt_priority_trigger := pt_wake (wt_priority_trigger st) (ps_new_eq pr) \<rparr>"
  have run: "wt_push_anonymous_frame st pr data ts lb = Some ?st"
    using new valid i(1) by (simp add: wt_push_anonymous_frame_def Let_def)
  have links: "wt_links SN B ?st m xs"
    by (rule wt_put_slot [OF assms newB]) (simp_all add: i(4))
  have "wt_item ?st = Some (?meta, take ?len ?new)" using i(1) by (simp add: wt_item_def)
  also have "take ?len ?new = take B ?pay" unfolding i(4) [symmetric] by (rule take_copy_at_0)
  finally have "wt_slot ?st = watch_offer (wt_slot st)
      (anonymous_item lb B ?pay (tail_transfer_id ?tail) ts pr)"
    using True by (simp add: wt_slot_def watch_offer_def anonymous_item_def)
  moreover have "wt_readout ?st = wt_readout st" using i(3) by (simp add: wt_readout_def)
  ultimately show ?thesis using run links True by (intro exI [of _ ?st]) simp
qed

text \<open>A frame of the data specifier offers the slot the transfer it completes.\<close>

definition wt_completed ::
  "(instant \<Rightarrow> duration \<Rightarrow> instant) \<Rightarrow> nat \<Rightarrow> nat \<Rightarrow> watch \<Rightarrow> frame \<Rightarrow> rx_item option" where
  "wt_completed sadd SN B st f = (if h_data_spec (f_header f) = wt_data_specifier st
     then rx_completed sadd SN B (wt_timeout st) (wt_table st) (wt_buffers st) f else None)"

definition wt_sessions_after ::
  "(instant \<Rightarrow> duration \<Rightarrow> instant) \<Rightarrow> nat \<Rightarrow> nat \<Rightarrow> watch \<Rightarrow> frame \<Rightarrow> watch \<Rightarrow> bool" where
  "wt_sessions_after sadd SN B st f st' \<longleftrightarrow> (if h_data_spec (f_header f) = wt_data_specifier st
     then rx_sessions_after sadd SN B (wt_timeout st) (wt_table st) (wt_buffers st) f (wt_sessions st') (wt_buffers st')
     else st' = st)"

lemma wt_push_frame_rep:
  assumes "wt_links SN B st m xs" "frame_wf f"
  shows "\<exists>st' m' xs'. wt_push_frame sadd SN st f = Some st' \<and> wt_links SN B st' m' xs' \<and>
    wt_data_specifier st' = wt_data_specifier st \<and> wt_readout st' = wt_readout st \<and>
    wt_sessions_after sadd SN B st f st' \<and>
    wt_slot st' = watch_offered (wt_slot st) (wt_completed sadd SN B st f)"
proof (cases "h_data_spec (f_header f) = wt_data_specifier st")
  case False
  then have "wt_push_frame sadd SN st f = Some st" by (simp add: wt_push_frame_def)
  then show ?thesis using assms(1) False by (auto simp: wt_completed_def wt_sessions_after_def watch_offered_def)
next
  case spec: True
  let ?pr = "h_priority (f_header f)"
  show ?thesis
  proof (cases "h_source (f_header f)")
    case None
    then have run: "wt_push_frame sadd SN st f = wt_push_anonymous_frame st ?pr (f_data f)
        (f_timestamp f) (f_loop_back f)" using spec by (simp add: wt_push_frame_def)
    obtain st' where r: "wt_push_anonymous_frame st ?pr (f_data f) (f_timestamp f) (f_loop_back f) = Some st'"
      "wt_links SN B st' m xs" "wt_data_specifier st' = wt_data_specifier st" "wt_readout st' = wt_readout st"
      "wt_slot st' = (if single_frame (data_deref (f_data f))
      then watch_offer (wt_slot st) (anonymous_item (f_loop_back f) B (butlast (data_deref (f_data f)))
        (tail_transfer_id (TailByte (last (data_deref (f_data f))))) (f_timestamp f) ?pr)
      else wt_slot st)" using wt_push_anonymous_rep [OF assms(1)] by blast
    have "wt_slot st' = watch_offered (wt_slot st) (wt_completed sadd SN B st f)"
      using r(5) spec None by (simp add: watch_offered_def wt_completed_def rx_completed_def Let_def
          single_item_def anonymous_item_def)
    moreover have "wt_sessions_after sadd SN B st f st'"
      using spec None by (simp add: wt_sessions_after_def rx_sessions_after_def)
    ultimately show ?thesis using r(1-4) run by auto
  next
    case (Some k)
    then have run: "wt_push_frame sadd SN st f = wt_push_regular_frame sadd SN st k ?pr (f_data f)
        (f_timestamp f) (f_loop_back f)" using spec by (simp add: wt_push_frame_def)
    have "node_id_wf k" using assms(2) Some by (simp add: frame_wf_def)
    from wt_push_regular_rep [OF assms(1) Some this frame_wf_length [OF assms(2)]] show ?thesis
      unfolding run wt_completed_def wt_sessions_after_def if_P [OF spec] by blast
  qed
qed

text \<open>The pop takes the slot's transfer when the mask admits its priority.\<close>

lemma wt_try_pop_rep:
  assumes "wt_links SN B st m xs"
  shows "\<exists>item st'. wt_try_pop st pm = Some (item, st') \<and> wt_links SN B st' m xs \<and>
    wt_data_specifier st' = wt_data_specifier st \<and>
    wt_transfer_min_timestamp st' = wt_transfer_min_timestamp st \<and>
    (case item of
       None \<Rightarrow> st' = st \<and> (\<forall>i. wt_item st = Some i \<longrightarrow> \<not> ps_contains pm (tm_priority (fst i)))
     | Some i \<Rightarrow> wt_item st = Some i \<and> ps_contains pm (tm_priority (fst i)) \<and> wt_item st' = None \<and>
         snd i = take (length (snd i)) (wt_readout st'))"
proof (cases "case wt_transfer st of None \<Rightarrow> True
    | Some e \<Rightarrow> \<not> ps_contains pm (tm_priority (we_meta e))")
  case True
  then have "wt_try_pop st pm = Some (None, st)" by (simp add: wt_try_pop_def)
  moreover have "\<not> ps_contains pm (tm_priority (fst i))" if "wt_item st = Some i" for i
    using that True by (auto simp: wt_item_def split: option.splits)
  ultimately show ?thesis using assms by (intro exI [of _ None] exI [of _ st]) simp
next
  case False
  then obtain e where e: "wt_transfer st = Some e" "ps_contains pm (tm_priority (we_meta e))"
    by (cases "wt_transfer st") auto
  note l = wt_linksD [OF assms] and i = wt_slot_buffers [OF assms]
  let ?st = "st\<lparr> wt_transfer := None, wt_transfer_buffer_idx := wt_readout_buffer_idx st,
    wt_readout_buffer_idx := wt_transfer_buffer_idx st \<rparr>"
  let ?item = "(we_meta e, take (we_buffer_length e) (wt_buffers st ! wt_transfer_buffer_idx st))"
  have len: "we_buffer_length e \<le> length (wt_buffers st ! wt_transfer_buffer_idx st)"
    using l(5) e(1) i(4) by (simp add: wt_slot_ok_def)
  have run: "wt_try_pop st pm = Some (Some ?item, ?st)"
    using e i(1) len by (simp add: wt_try_pop_def)
  have "wt_owned SN ?st m xs = wt_owned SN st m xs" by (simp add: wt_owned_def add_mset_commute)
  then have "wt_owned SN ?st m xs = mset [0..<SN + 2]" using l(6) by (rule trans)
  moreover have "wt_slot_ok B ?st" by (simp add: wt_slot_ok_def)
  ultimately have links: "wt_links SN B ?st m xs" unfolding wt_links_def using l(1-4) by simp
  have "wt_item st = Some ?item" "wt_item ?st = None" using e(1) by (simp_all add: wt_item_def)
  moreover have "take (length (snd ?item)) (wt_readout ?st) = snd ?item"
    using len by (simp add: wt_readout_def)
  ultimately show ?thesis using run links e(2)
    by (intro exI [of _ "Some ?item"] exI [of _ ?st]) simp
qed

lemma wt_trigger_links: "wt_links SN B (st\<lparr> wt_priority_trigger := t \<rparr>) m xs = wt_links SN B st m xs"
  unfolding wt_links_def wt_slot_ok_def wt_owned_def by simp

lemma slot_contents_iff: "slot_contents item p \<noteq> [] \<longleftrightarrow> (\<exists>i. item = Some i \<and> tm_priority (fst i) = p)"
  by (auto simp: slot_contents_def split: option.split)

lemma slot_contents_popped:
  assumes "case item of
       None \<Rightarrow> slot' = slot \<and> (\<forall>i. slot = Some i \<longrightarrow> \<not> ps_contains pm (tm_priority (fst i)))
     | Some i \<Rightarrow> slot = Some i \<and> ps_contains pm (tm_priority (fst i)) \<and> slot' = None"
  shows "rx_popped (slot_contents slot) pm item (slot_contents slot')"
proof (cases item)
  case None
  then show ?thesis using assms
    by (auto simp: rx_popped_def admitted_def slot_contents_def split: option.splits)
next
  case (Some i)
  let ?p = "tm_priority (fst i)"
  have "slot_contents slot = (\<lambda>p. if ?p = p then [i] else [])" "slot_contents slot' = (\<lambda>p. [])"
    using assms Some by (simp_all add: slot_contents_def fun_eq_iff)
  then show ?thesis using assms Some
    unfolding rx_popped_def admitted_def by (auto intro!: exI [of _ ?p] split: if_splits)
qed

lemma wt_ready_contents: "ps_contains (wt_pop_readiness st) p \<longleftrightarrow> slot_contents (wt_item st) p \<noteq> []"
  unfolding slot_contents_iff
  by (auto simp: wt_pop_readiness_def wt_item_def split: option.splits)

interpretation wt: rx_buffer "wt_rep SN B" "wt_push_frame sadd SN" wt_pop_readiness
  wt_poll_pop_readiness wt_try_pop for SN B sadd
proof
  fix st A f p pm
  show "\<exists>s' A'. wt_push_frame sadd SN st f = Some s' \<and> wt_rep SN B s' A'"
    if "wt_rep SN B st A" "frame_wf f"
    using that wt_push_frame_rep [of SN B st _ _ f sadd] unfolding wt_rep_def by blast
  show "ps_contains (wt_pop_readiness st) p \<longleftrightarrow> A p \<noteq> []" if "wt_rep SN B st A"
    using that wt_ready_contents unfolding wt_rep_def by simp
  show "wt_rep SN B (snd (wt_poll_pop_readiness st pm)) A" if "wt_rep SN B st A"
  proof -
    have "wt_item (st\<lparr> wt_priority_trigger := t \<rparr>) = wt_item st" for t by (simp add: wt_item_def)
    then have "wt_rep SN B (st\<lparr> wt_priority_trigger := t \<rparr>) A" for t
      using \<open>wt_rep SN B st A\<close> wt_trigger_links unfolding wt_rep_def by metis
    then show ?thesis using \<open>wt_rep SN B st A\<close> by (simp add: wt_poll_pop_readiness_def Let_def)
  qed
  show "fst (wt_poll_pop_readiness st pm) = (let ps = ps_and (wt_pop_readiness st) pm in
      if ps_is_empty ps then Pending else Ready ps)"
    by (simp add: wt_poll_pop_readiness_def Let_def)
  show "\<exists>item s' A'. wt_try_pop st pm = Some (item, s') \<and> wt_rep SN B s' A' \<and> rx_popped A pm item A'"
    if "wt_rep SN B st A"
  proof -
    obtain m xs where links: "wt_links SN B st m xs" and A: "A = slot_contents (wt_item st)"
      using \<open>wt_rep SN B st A\<close> unfolding wt_rep_def by blast
    obtain item st' where p: "wt_try_pop st pm = Some (item, st')" "wt_links SN B st' m xs"
      "case item of
         None \<Rightarrow> st' = st \<and> (\<forall>i. wt_item st = Some i \<longrightarrow> \<not> ps_contains pm (tm_priority (fst i)))
       | Some i \<Rightarrow> wt_item st = Some i \<and> ps_contains pm (tm_priority (fst i)) \<and> wt_item st' = None \<and>
           snd i = take (length (snd i)) (wt_readout st')"
      using wt_try_pop_rep [OF links, of pm] by blast
    have "rx_popped (slot_contents (wt_item st)) pm item (slot_contents (wt_item st'))"
      by (rule slot_contents_popped) (use p(3) in \<open>auto split: option.splits\<close>)
    then show ?thesis using p(1,2) A unfolding wt_rep_def by blast
  qed
qed

section \<open>Properties\<close>

definition wt_run :: "(instant \<Rightarrow> duration \<Rightarrow> instant) \<Rightarrow> nat \<Rightarrow> rx_op list \<Rightarrow> watch \<Rightarrow> watch exec" where
  "wt_run sadd SN = for_each (rx_step (wt_push_frame sadd SN) wt_poll_pop_readiness wt_try_pop)"

definition wt_config :: "nat \<Rightarrow> nat \<Rightarrow> u8 list list \<Rightarrow> bool" where
  "wt_config SN B buffers \<longleftrightarrow> length buffers = SN + 2 \<and> (\<forall>b \<in> set buffers. length b = B) \<and>
     0 < SN \<and> SN \<le> 128"

text \<open>One operation: the newest timestamp never decreases, and the slot holds that transfer.\<close>

lemma wt_step_newest:
  assumes "wt_links SN B st m xs" "rx_op_wf op"
  shows "\<exists>st' m' xs'. rx_step (wt_push_frame sadd SN) wt_poll_pop_readiness wt_try_pop op st = Some st' \<and>
    wt_links SN B st' m' xs' \<and> wt_transfer_min_timestamp st \<le> wt_transfer_min_timestamp st'"
proof (cases op)
  case (PushFrame f)
  then have "frame_wf f" using assms(2) by simp
  then obtain st' m' xs' where r: "wt_push_frame sadd SN st f = Some st'" "wt_links SN B st' m' xs'"
    "wt_slot st' = watch_offered (wt_slot st) (wt_completed sadd SN B st f)"
    using wt_push_frame_rep [OF assms(1), of f sadd] by blast
  have "wt_transfer_min_timestamp st \<le> wt_transfer_min_timestamp st'"
    using r(3) by (auto simp: wt_slot_def watch_offered_def watch_offer_def split: if_splits option.splits)
  then show ?thesis using r(1,2) PushFrame by (metis rx_step.simps(1))
next
  case (PollPop pm)
  have "wt_links SN B (snd (wt_poll_pop_readiness st pm)) m xs"
    "wt_transfer_min_timestamp (snd (wt_poll_pop_readiness st pm)) = wt_transfer_min_timestamp st"
    using assms(1) by (simp_all add: wt_poll_pop_readiness_def Let_def wt_trigger_links)
  then show ?thesis using PollPop by (metis order_refl rx_step.simps(2))
next
  case (TryPop pm)
  obtain item st' where r: "wt_try_pop st pm = Some (item, st')" "wt_links SN B st' m xs"
    "wt_transfer_min_timestamp st' = wt_transfer_min_timestamp st"
    using wt_try_pop_rep [OF assms(1), of pm] by blast
  have "rx_step (wt_push_frame sadd SN) wt_poll_pop_readiness wt_try_pop op st = Some st'"
    using TryPop r(1) by simp
  then show ?thesis using r(2,3) by (metis order_refl)
qed

lemma wt_run_newest:
  "wt_links SN B st m xs \<Longrightarrow> list_all rx_op_wf ops \<Longrightarrow>
    \<exists>st' m' xs'. wt_run sadd SN ops st = Some st' \<and> wt_links SN B st' m' xs' \<and>
      wt_transfer_min_timestamp st \<le> wt_transfer_min_timestamp st'"
proof (induction ops arbitrary: st m xs)
  case (Cons op ops)
  obtain st1 m1 xs1 where s1:
    "rx_step (wt_push_frame sadd SN) wt_poll_pop_readiness wt_try_pop op st = Some st1"
    "wt_links SN B st1 m1 xs1" "wt_transfer_min_timestamp st \<le> wt_transfer_min_timestamp st1"
    using wt_step_newest [OF Cons.prems(1), of op sadd] Cons.prems(2) by auto
  have "list_all rx_op_wf ops" using Cons.prems(2) by simp
  from Cons.IH [OF s1(2) this] obtain st' m' xs' where s': "wt_run sadd SN ops st1 = Some st'"
    "wt_links SN B st' m' xs'" "wt_transfer_min_timestamp st1 \<le> wt_transfer_min_timestamp st'" by blast
  have "wt_run sadd SN (op # ops) st = Some st'" using s1(1) s'(1) by (simp add: wt_run_def)
  then show ?case using s'(2,3) s1(3) order_trans by blast
qed (auto simp: wt_run_def)

text \<open>
  C27: The newest transfer wins. A watch with at least one session slot (\<open>0 < SN \<le> 128\<close>) never
  panics: after its creation every sequence of well-formed frames, polls and pops runs to the
  end. In every state so reached, a received frame puts the transfer it completes
  (\<open>wt_completed\<close>: the frame itself, when it is single and anonymous or starts a session, or
  what the reassembly of its source produces) into the slot, in place of what is there, exactly
  when it is not older than the newest transfer that was ever in the slot; otherwise, and when
  it completes none, the slot stays as it is. The session of its source takes the frame in each
  case, and the transfer lent out by the last pop keeps its bytes. The newest timestamp never
  decreases along any continuation, and a transfer in the slot always carries it, so an older
  transfer never replaces a newer one, not even after a pop. (The documentation also admits
  \<open>SN = 0\<close>; as in the priority FIFO the first start frame of a known source then panics.)
\<close>

theorem watch_newest_wins:
  assumes "wt_config SN B buffers" "list_all rx_op_wf ops" "frame_wf f" "list_all rx_op_wf ops'"
  shows "\<exists>st st1 st2 st3. wt_new SN ds timeout buffers = Some st \<and> wt_run sadd SN ops st = Some st1 \<and>
    wt_push_frame sadd SN st1 f = Some st2 \<and> wt_run sadd SN ops' st2 = Some st3 \<and>
    wt_item st2 = (case wt_completed sadd SN B st1 f of
        Some item \<Rightarrow> if wt_transfer_min_timestamp st1 \<le> tm_timestamp (fst item) then Some item else wt_item st1
      | None \<Rightarrow> wt_item st1) \<and>
    wt_sessions_after sadd SN B st1 f st2 \<and> wt_readout st2 = wt_readout st1 \<and>
    wt_transfer_min_timestamp st1 \<le> wt_transfer_min_timestamp st2 \<and>
    wt_transfer_min_timestamp st2 \<le> wt_transfer_min_timestamp st3 \<and>
    pred_option (\<lambda>item. tm_timestamp (fst item) = wt_transfer_min_timestamp st3 \<and>
      length (snd item) \<le> B) (wt_item st3)"
proof -
  obtain st where st: "wt_new SN ds timeout buffers = Some st" "wt_links SN B st (\<lambda>k. None) []"
    using wt_new_links [of buffers SN B] assms(1) unfolding wt_config_def by blast
  obtain st1 m1 xs1 where st1: "wt_run sadd SN ops st = Some st1" "wt_links SN B st1 m1 xs1"
    using wt_run_newest [OF st(2) assms(2)] by blast
  obtain st2 m2 xs2 where st2: "wt_push_frame sadd SN st1 f = Some st2" "wt_links SN B st2 m2 xs2"
    "wt_readout st2 = wt_readout st1" "wt_sessions_after sadd SN B st1 f st2"
    "wt_slot st2 = watch_offered (wt_slot st1) (wt_completed sadd SN B st1 f)"
    using wt_push_frame_rep [OF st1(2) assms(3)] by blast
  obtain st3 m3 xs3 where st3: "wt_run sadd SN ops' st2 = Some st3" "wt_links SN B st3 m3 xs3"
    "wt_transfer_min_timestamp st2 \<le> wt_transfer_min_timestamp st3"
    using wt_run_newest [OF st2(2) assms(4)] by blast
  have "wt_slot_ok B st3" by (rule wt_linksD(5) [OF st3(2)])
  then have "pred_option (\<lambda>item. tm_timestamp (fst item) = wt_transfer_min_timestamp st3 \<and>
      length (snd item) \<le> B) (wt_item st3)"
    by (cases "wt_transfer st3") (simp_all add: wt_slot_ok_def wt_item_def min.coboundedI2)
  moreover have "wt_item st2 = (case wt_completed sadd SN B st1 f of
        Some item \<Rightarrow> if wt_transfer_min_timestamp st1 \<le> tm_timestamp (fst item) then Some item else wt_item st1
      | None \<Rightarrow> wt_item st1)" "wt_transfer_min_timestamp st1 \<le> wt_transfer_min_timestamp st2"
    using st2(5) by (auto simp: wt_slot_def watch_offered_def watch_offer_def split: option.splits if_splits)
  ultimately show ?thesis using st(1) st1(1) st2(1,3,4) st3(1,3) by blast
qed

text \<open>
  The witness: two single frames of the time 9, the first from an anonymous node and the second
  from node 3; the second one replaces the first, and stays when polled.
\<close>

definition ex_single :: "node_id option \<Rightarrow> u8 list \<Rightarrow> frame" where
  "ex_single source bytes = \<lparr> f_header = \<lparr> h_priority = Nominal,
     h_data_spec = Message (SubjectId 7), h_source = source, h_destination = None \<rparr>,
     f_data = data_deref_set (data_new_zeros (the (dl_new 2))) bytes,
     f_timestamp = 9, f_loop_back = False \<rparr>"

lemma ex_single_wf: "frame_wf (ex_single None [5, 0xE1])" "frame_wf (ex_single (Some (NodeId 3)) [6, 0xE2])"
  by (simp_all add: frame_wf_def ex_single_def node_id_wf_def node_id_MAX_VALUE_def) code_simp+

lemma ex_single_completed:
  "map_option (\<lambda>st. wt_completed (+) 1 1 st (ex_single (Some (NodeId 3)) [6, 0xE2]))
     (do { st \<leftarrow> wt_new 1 (Message (SubjectId 7)) 2 [[0], [0], [0]];
           wt_run (+) 1 [PushFrame (ex_single None [5, 0xE1])] st }) =
   Some (Some (\<lparr> tm_priority = Nominal, tm_address = Some (NodeId 3), tm_transfer_id = TransferId 2,
     tm_timestamp = 9, tm_loop_back = False \<rparr>, [6]))"
  "map_option wt_transfer_min_timestamp
     (do { st \<leftarrow> wt_new 1 (Message (SubjectId 7)) 2 [[0], [0], [0]];
           wt_run (+) 1 [PushFrame (ex_single None [5, 0xE1])] st }) = Some 9"
  by code_simp+

theorem watch_newest_wins_witness:
  "\<exists>st st1 st2 st3. wt_new 1 (Message (SubjectId 7)) 2 [[0], [0], [0]] = Some st \<and>
    wt_run (+) 1 [PushFrame (ex_single None [5, 0xE1])] st = Some st1 \<and>
    wt_push_frame (+) 1 st1 (ex_single (Some (NodeId 3)) [6, 0xE2]) = Some st2 \<and>
    map_option snd (wt_item st2) = Some [6] \<and> wt_run (+) 1 [PollPop ps_ALL] st2 = Some st3"
proof -
  obtain st st1 st2 st3 where r: "wt_new 1 (Message (SubjectId 7)) 2 [[0], [0], [0]] = Some st"
    "wt_run (+) 1 [PushFrame (ex_single None [5, 0xE1])] st = Some st1"
    "wt_push_frame (+) 1 st1 (ex_single (Some (NodeId 3)) [6, 0xE2]) = Some st2"
    "wt_run (+) 1 [PollPop ps_ALL] st2 = Some st3"
    "wt_item st2 = (case wt_completed (+) 1 1 st1 (ex_single (Some (NodeId 3)) [6, 0xE2]) of
        Some item \<Rightarrow> if wt_transfer_min_timestamp st1 \<le> tm_timestamp (fst item) then Some item else wt_item st1
      | None \<Rightarrow> wt_item st1)"
    using watch_newest_wins [of 1 1 "[[0], [0], [0]]" "[PushFrame (ex_single None [5, 0xE1])]"
        "ex_single (Some (NodeId 3)) [6, 0xE2]" "[PollPop ps_ALL]" "Message (SubjectId 7)" 2 "(+)"]
    by (auto simp: wt_config_def ex_single_wf)
  have "wt_completed (+) 1 1 st1 (ex_single (Some (NodeId 3)) [6, 0xE2]) =
      Some (\<lparr> tm_priority = Nominal, tm_address = Some (NodeId 3), tm_transfer_id = TransferId 2,
     tm_timestamp = 9, tm_loop_back = False \<rparr>, [6])" "wt_transfer_min_timestamp st1 = 9"
    using ex_single_completed unfolding r(1) bind.bind_lunit r(2) by simp_all
  then have "map_option snd (wt_item st2) = Some [6]" unfolding r(5) by simp
  then show ?thesis using r(1-4) by blast
qed

text \<open>
  An anonymous single-frame transfer enters the watch exactly when it is at least as new
  as every transfer accepted before it; it replaces the slot, wherever it came from, with its
  payload cut to the size of the buffer. Any other anonymous frame changes nothing. The bytes
  lent out by the last pop are not touched.
\<close>

theorem watch_anonymous_offer:
  assumes "wt_links SN B st m xs" "h_data_spec (f_header f) = wt_data_specifier st"
    "h_source (f_header f) = None"
  shows "\<exists>st'. wt_push_frame sadd SN st f = Some st' \<and> wt_links SN B st' m xs \<and>
    wt_readout st' = wt_readout st \<and>
    wt_slot st' = (if single_frame (data_deref (f_data f))
      then watch_offer (wt_slot st) (anonymous_item (f_loop_back f) B (butlast (data_deref (f_data f)))
        (tail_transfer_id (TailByte (last (data_deref (f_data f))))) (f_timestamp f)
        (h_priority (f_header f)))
      else wt_slot st)"
proof -
  have "wt_push_frame sadd SN st f = wt_push_anonymous_frame st (h_priority (f_header f)) (f_data f)
      (f_timestamp f) (f_loop_back f)" using assms(2,3) by (simp add: wt_push_frame_def)
  then show ?thesis
    using wt_push_anonymous_rep [OF assms(1), of "h_priority (f_header f)" "f_data f"
        "f_timestamp f" "f_loop_back f"] by auto
qed

definition ex_anonymous :: frame where
  "ex_anonymous = \<lparr> f_header = \<lparr> h_priority = Nominal,
     h_data_spec = Message (SubjectId 7), h_source = None, h_destination = None \<rparr>,
     f_data = data_deref_set (data_new_zeros (the (dl_new 2))) [5, 0xE1],
     f_timestamp = 9, f_loop_back = False \<rparr>"

theorem watch_anonymous_offer_witness:
  "\<exists>st m xs st'. wt_push_frame (+) 1 st ex_anonymous = Some st' \<and> wt_links 1 1 st' m xs \<and>
    wt_readout st' = wt_readout st \<and>
    wt_slot st' = (if single_frame (data_deref (f_data ex_anonymous))
      then watch_offer (wt_slot st) (anonymous_item (f_loop_back ex_anonymous) 1
        (butlast (data_deref (f_data ex_anonymous)))
        (tail_transfer_id (TailByte (last (data_deref (f_data ex_anonymous))))) (f_timestamp ex_anonymous)
        (h_priority (f_header ex_anonymous)))
      else wt_slot st)"
proof -
  obtain st where st: "wt_links 1 1 st (\<lambda>k. None) []" "wt_data_specifier st = Message (SubjectId 7)"
    using wt_new_links [of "[[0], [0], [0]]" 1 1 "Message (SubjectId 7)"] by auto
  from watch_anonymous_offer [OF st(1), of ex_anonymous "(+)"] st(2) show ?thesis
    by (metis ex_anonymous_def frame.select_convs(1) header.select_convs(2,3))
qed

end
