(* ===== verification/Intrusive.thy ===== *)
theory Intrusive
  imports Core_Types
begin

text \<open>
  The trees and lists that link entries in place (the crate \<open>intrusive_collections\<close>). An
  entry is named by its address. A tree is the list of its elements in order, a cursor into it
  a number: how many elements stand before the cursor, its own included.
\<close>

type_synonym ptr = nat

text \<open>\<open>upper_bound_mut(Included(k))\<close>: the last element not above \<open>k\<close>, or the null cursor.\<close>

definition upper_bound :: "('p \<Rightarrow> 'k :: linorder) \<Rightarrow> 'k \<Rightarrow> 'p list \<Rightarrow> nat" where
  "upper_bound key k xs = length (takeWhile (\<lambda>p. key p \<le> k) xs)"

definition cursor_get :: "'p list \<Rightarrow> nat \<Rightarrow> 'p option" where
  "cursor_get xs n = (if n = 0 then None else Some (xs ! (n - 1)))"

definition insert_after :: "'p list \<Rightarrow> nat \<Rightarrow> 'p \<Rightarrow> 'p list" where
  "insert_after xs n p = take n xs @ p # drop n xs"

text \<open>\<open>lower_bound(Included(k))\<close>: the first element not below \<open>k\<close>.\<close>

definition lower_bound :: "('p \<Rightarrow> 'k :: linorder) \<Rightarrow> 'k \<Rightarrow> 'p list \<Rightarrow> 'p option" where
  "lower_bound key k xs = find (\<lambda>p. k \<le> key p) xs"

text \<open>
  \<open>cursor_from_ptr(p)\<close> of an element of the list, with the elements around it; a pointer that
  is not in the list is outside of the safety contract and panics here.
\<close>

definition split_ptr :: "'p \<Rightarrow> 'p list \<Rightarrow> ('p list \<times> 'p list) exec" where
  "split_ptr p xs = (case dropWhile (\<lambda>q. q \<noteq> p) xs of
     [] \<Rightarrow> panic | q # rest \<Rightarrow> ret (takeWhile (\<lambda>q. q \<noteq> p) xs, rest))"

definition first_ptr :: "'p list \<Rightarrow> 'p option" where
  "first_ptr xs = (case xs of [] \<Rightarrow> None | p # _ \<Rightarrow> Some p)"

definition last_ptr :: "'p list \<Rightarrow> 'p option" where
  "last_ptr xs = (if xs = [] then None else Some (last xs))"

text \<open>\<open>remove\<close> at the cursor leaves the cursor at the next element.\<close>

definition remove_ptr :: "'p \<Rightarrow> 'p list \<Rightarrow> ('p option \<times> 'p list) exec" where
  "remove_ptr p xs = do {
     (before, rest) \<leftarrow> split_ptr p xs;
     ret (first_ptr rest, before @ rest)
   }"

lemma split_ptr_eq [simp]:
  assumes "p \<notin> set xs"
  shows "split_ptr p (xs @ p # ys) = Some (xs, ys)"
proof -
  have ne: "\<And>x. x \<in> set xs \<Longrightarrow> x \<noteq> p" using assms by blast
  show ?thesis using takeWhile_append2 [of xs "\<lambda>q. q \<noteq> p" "p # ys"] dropWhile_append2 [of xs "\<lambda>q. q \<noteq> p" "p # ys"] ne
    by (simp add: split_ptr_def)
qed

lemma split_ptr_iff: "split_ptr p zs = Some (xs, ys) \<longleftrightarrow> zs = xs @ p # ys \<and> p \<notin> set xs"
proof
  assume l: "split_ptr p zs = Some (xs, ys)"
  then obtain q where d: "dropWhile (\<lambda>q. q \<noteq> p) zs = q # ys" "xs = takeWhile (\<lambda>q. q \<noteq> p) zs"
    by (auto simp: split_ptr_def split: list.splits)
  have "q = p" using hd_dropWhile [of "\<lambda>q. q \<noteq> p" zs] d(1) by simp
  moreover have "p \<notin> set xs" unfolding d(2) by (auto dest: set_takeWhileD)
  moreover have "zs = xs @ q # ys" unfolding d(1) [symmetric] d(2) by simp
  ultimately show "zs = xs @ p # ys \<and> p \<notin> set xs" by blast
next
  assume "zs = xs @ p # ys \<and> p \<notin> set xs"
  then show "split_ptr p zs = Some (xs, ys)" by simp
qed

lemma remove_ptr_in:
  assumes "p \<in> set zs" "distinct zs"
  obtains xs ys where "zs = xs @ p # ys" "p \<notin> set xs" "p \<notin> set ys"
    "remove_ptr p zs = Some (first_ptr ys, xs @ ys)"
proof -
  obtain xs ys where "zs = xs @ p # ys" "p \<notin> set xs" using assms(1) by (metis split_list_first)
  with assms(2) show ?thesis using that by (auto simp: remove_ptr_def)
qed

lemma lower_bound_split:
  "lower_bound key k xs = Some p \<Longrightarrow>
    \<exists>ys zs. xs = ys @ p # zs \<and> (\<forall>q \<in> set ys. key q < k) \<and> k \<le> key p"
  unfolding lower_bound_def
proof (induction xs)
  case (Cons x xs)
  then show ?case
  proof (cases "k \<le> key x")
    case True
    then show ?thesis using Cons.prems by (intro exI [of _ "[]"] exI [of _ xs]) simp
  next
    case False
    then obtain ys zs where "xs = ys @ p # zs" "\<forall>q \<in> set ys. key q < k" "k \<le> key p"
      using Cons by auto
    then show ?thesis using False by (intro exI [of _ "x # ys"] exI [of _ zs]) auto
  qed
qed simp

lemma lower_bound_None: "lower_bound key k xs = None \<longleftrightarrow> (\<forall>q \<in> set xs. key q < k)"
  by (induction xs) (auto simp: lower_bound_def)

text \<open>In a sorted tree the cursor of \<open>upper_bound\<close> parts it.\<close>

lemma upper_bound_split:
  assumes "sorted (map key xs)"
  obtains ys zs where "xs = ys @ zs" "upper_bound key k xs = length ys"
    "\<forall>q \<in> set ys. key q \<le> k" "\<forall>q \<in> set zs. k < key q"
    "cursor_get xs (upper_bound key k xs) = last_ptr ys"
    "insert_after xs (upper_bound key k xs) p = ys @ p # zs"
proof -
  let ?P = "\<lambda>q. key q \<le> k"
  have split: "xs = takeWhile ?P xs @ dropWhile ?P xs" by simp
  have above: "\<forall>q \<in> set (dropWhile ?P xs). k < key q"
  proof (cases "dropWhile ?P xs")
    case (Cons z zs)
    have "sorted (map key (z # zs))"
      using assms Cons by (metis dropWhile_eq_drop drop_map sorted_wrt_drop)
    moreover have "k < key z" using Cons by (metis dropWhile_eq_Cons_conv not_le)
    ultimately show ?thesis unfolding Cons by auto
  next
    case Nil
    show ?thesis unfolding Nil by simp
  qed
  have get: "cursor_get xs (length (takeWhile ?P xs)) = last_ptr (takeWhile ?P xs)"
  proof (cases "takeWhile ?P xs = []")
    case False
    then have "xs ! (length (takeWhile ?P xs) - 1) = last (takeWhile ?P xs)"
      by (simp add: last_conv_nth takeWhile_nth)
    then show ?thesis using False by (simp add: cursor_get_def last_ptr_def)
  qed (simp add: cursor_get_def last_ptr_def)
  have below: "\<forall>q \<in> set (takeWhile ?P xs). key q \<le> k" by (auto dest: set_takeWhileD)
  have ub: "upper_bound key k xs = length (takeWhile ?P xs)" by (simp add: upper_bound_def)
  have "insert_after xs (length (takeWhile ?P xs)) p = takeWhile ?P xs @ p # dropWhile ?P xs"
    unfolding insert_after_def by (metis append_eq_conv_conj split)
  then show ?thesis
    by (rule that [OF split ub below above get [folded ub], unfolded ub])
qed

lemma insert_after_perm:
  assumes "distinct xs" "p \<notin> set xs"
  shows "distinct (insert_after xs n p) \<and> set (insert_after xs n p) = insert p (set xs)"
proof -
  have "set xs = set (take n xs) \<union> set (drop n xs)" by (metis append_take_drop_id set_append)
  moreover have "set (take n xs) \<inter> set (drop n xs) = {}" using assms(1) by (rule set_take_disj_set_drop_if_distinct) simp
  ultimately show ?thesis using assms by (auto simp: insert_after_def)
qed

end
