(* ===== verification/Tx_Buffer.thy ===== *)
theory Tx_Buffer
  imports Scatter Rx_Buffer Simulation
begin

text \<open>
  The contract of a transmit buffer (\<open>DynamicTxBuffer\<close> of \<open>emcyphal/src/buffer.rs\<close>). Its
  contents are, for every priority, the transfers still to be sent, the one being fetched
  first. A task asks for the scratchpad, serializes into it, and pushes; the driver pops frame
  after frame. What a client may conclude from the contract is proved once, in the locale.
\<close>

section \<open>Segmentation never gets stuck\<close>

lemma sc_fetch_ok:
  assumes "sc_inv sc b" "\<not> sc_is_exhausted sc"
  shows "\<exists>d sc'. sc_fetch_frame_data sc b m = Some (Some d, sc') \<and> data_wf d \<and> sc_inv sc' b \<and>
    sc_offset sc < sc_offset sc' \<and> sc_data_length sc' = sc_data_length sc \<and>
    data_deref d \<noteq> [] \<and> length (data_deref d) \<le> mtu_usize m"
proof -
  have rest: "sc_offset sc < sc_data_length sc + 2"
    using assms by (simp add: sc_inv_def sc_is_exhausted_def)
  have mtu: "8 \<le> mtu_usize m" using mtu_cases [of m] by auto
  show ?thesis
  proof (cases "sc_offset sc = 0 \<and> sc_data_length sc < mtu_usize m")
    case True
    then obtain d k where "sc_fetch_frame_data sc b m = Some (Some d, sc\<lparr> sc_offset := sc_data_length sc + 2 \<rparr>)"
      "data_wf d" "sc_data_length sc + k < mtu_usize m"
      "data_deref d = take (sc_data_length sc) b @ replicate k PAD_VALUE @
        [tail_into_u8 (tail_new True True SOT_TOGGLE_BIT (sc_transfer_id sc))]"
      using sc_fetch_single [OF assms(1), of m] by blast
    then show ?thesis using assms(1) True
      by (intro exI [of _ d] exI [of _ "sc\<lparr> sc_offset := sc_data_length sc + 2 \<rparr>"]) (auto simp: sc_inv_def)
  next
    case first: False
    show ?thesis
    proof (cases "mtu_usize m \<le> sc_data_length sc + 2 - sc_offset sc")
      case True
      then obtain d where d: "sc_fetch_frame_data sc b m = Some (Some d, sc\<lparr> sc_offset := sc_offset sc + (mtu_usize m - 1),
         sc_toggle_bit := \<not> sc_toggle_bit sc \<rparr>)" "data_wf d"
        "data_deref d = take (mtu_usize m - 1) (drop (sc_offset sc) (sc_stream sc b 0)) @
          [tail_into_u8 (tail_new (sc_offset sc = 0) False (sc_toggle_bit sc) (sc_transfer_id sc))]"
        using sc_fetch_full [OF assms(1) True first] by blast
      have "length (data_deref d) \<le> mtu_usize m \<and> data_deref d \<noteq> []" using mtu by (simp add: d(3))
      then show ?thesis using d(1,2) assms(1) True mtu
        by (intro exI [of _ d] exI [of _ "sc\<lparr> sc_offset := sc_offset sc + (mtu_usize m - 1),
          sc_toggle_bit := \<not> sc_toggle_bit sc \<rparr>"]) (auto simp: sc_inv_def)
    next
      case False
      then have pos: "0 < sc_offset sc" and lt: "sc_data_length sc + 2 - sc_offset sc < mtu_usize m"
        using first mtu by auto
      obtain d k where d: "sc_fetch_frame_data sc b m = Some (Some d, sc\<lparr> sc_offset := sc_data_length sc + 2,
         sc_toggle_bit := \<not> sc_toggle_bit sc \<rparr>)" "data_wf d"
        "sc_data_length sc + 2 - sc_offset sc + k < mtu_usize m"
        "data_deref d = drop (sc_offset sc) (sc_stream sc b k) @
          [tail_into_u8 (tail_new False True (sc_toggle_bit sc) (sc_transfer_id sc))]"
        using sc_fetch_last [OF assms(1) pos rest lt] by blast
      have "length (data_deref d) \<le> mtu_usize m \<and> data_deref d \<noteq> []"
        using d(3) assms(1) rest by (simp add: d(4) sc_inv_def)
      then show ?thesis using d(1,2) assms(1) rest
        by (intro exI [of _ d] exI [of _ "sc\<lparr> sc_offset := sc_data_length sc + 2,
          sc_toggle_bit := \<not> sc_toggle_bit sc \<rparr>"]) (auto simp: sc_inv_def)
    qed
  qed
qed

section \<open>Items and contents\<close>

datatype buffer_error = PriorityNotReady | MessageAddressSpecified | ServiceAddressNotSpecified
  | ScratchpadNotInitialized

text \<open>A transfer to be sent, with the bytes of the buffer it owns.\<close>

record tx_item =
  ti_address :: "node_id option"
  ti_scatter :: scatter
  ti_bytes :: "u8 list"
  ti_deadline :: instant
  ti_loop_back :: bool

type_synonym tx_contents = "priority \<Rightarrow> tx_item list"

definition tx_item_wf :: "tx_item \<Rightarrow> bool" where
  "tx_item_wf i \<longleftrightarrow> sc_inv (ti_scatter i) (ti_bytes i) \<and> \<not> sc_is_exhausted (ti_scatter i)"

text \<open>The item a push makes, and the frames made of an item.\<close>

definition tx_item_of :: "transfer_meta \<Rightarrow> node_id option \<Rightarrow> u8 list \<Rightarrow> nat \<Rightarrow> transfer_crc \<Rightarrow> tx_item" where
  "tx_item_of meta address bytes len crc =
     \<lparr> ti_address = address, ti_scatter = sc_new (tm_transfer_id meta) bytes len crc,
       ti_bytes = bytes, ti_deadline = tm_timestamp meta, ti_loop_back = tm_loop_back meta \<rparr>"

definition tx_frame :: "data_specifier \<Rightarrow> priority \<Rightarrow> tx_item \<Rightarrow> data \<Rightarrow> frame" where
  "tx_frame spec p item data =
     \<lparr> f_header = \<lparr> h_priority = p, h_data_spec = spec, h_source = None,
         h_destination = ti_address item \<rparr>,
       f_data = data, f_timestamp = ti_deadline item, f_loop_back = ti_loop_back item \<rparr>"

text \<open>What is left of an item after a frame.\<close>

definition tx_advance :: "tx_item \<Rightarrow> scatter \<Rightarrow> tx_item list" where
  "tx_advance item sc = (if sc_is_exhausted sc then [] else [item\<lparr> ti_scatter := sc \<rparr>])"

text \<open>What \<open>try_pop\<close> has to do: the next frame of the first item of the most urgent priority.\<close>

definition tx_popped ::
  "data_specifier \<Rightarrow> tx_contents \<Rightarrow> priority_set \<Rightarrow> mtu \<Rightarrow> frame option \<Rightarrow> tx_contents \<Rightarrow> bool" where
  "tx_popped spec A pmask m fr A' \<longleftrightarrow> (case fr of
     None \<Rightarrow> (\<forall>p. \<not> admitted (A p) pmask p) \<and> A' = A
   | Some f \<Rightarrow> (\<exists>p data sc. admitted (A p) pmask p \<and> (\<forall>r. admitted (A r) pmask r \<longrightarrow> p \<le> r) \<and>
       sc_fetch_frame_data (ti_scatter (hd (A p))) (ti_bytes (hd (A p))) m = Some (Some data, sc) \<and>
       f = tx_frame spec p (hd (A p)) data \<and>
       A' = A(p := tx_advance (hd (A p)) sc @ tl (A p))))"

lemma tx_item_fetch:
  assumes "tx_item_wf i"
  obtains d sc where "sc_fetch_frame_data (ti_scatter i) (ti_bytes i) m = Some (Some d, sc)"
    "data_wf d" "\<forall>j \<in> set (tx_advance i sc). tx_item_wf j" "sc_offset sc \<noteq> 0"
proof -
  obtain d sc where d: "sc_fetch_frame_data (ti_scatter i) (ti_bytes i) m = Some (Some d, sc)"
    "data_wf d" "sc_inv sc (ti_bytes i)" "sc_offset (ti_scatter i) < sc_offset sc" using sc_fetch_ok assms unfolding tx_item_wf_def by blast
  moreover have "\<forall>j \<in> set (tx_advance i sc). tx_item_wf j"
    using d(3) by (simp add: tx_advance_def tx_item_wf_def)
  moreover have "sc_offset sc \<noteq> 0" using d(4) by simp
  ultimately show ?thesis using that by blast
qed

lemma tx_item_of_wf: "len \<le> length bytes \<Longrightarrow> tx_item_wf (tx_item_of meta address bytes len crc)"
  by (simp add: tx_item_wf_def tx_item_of_def sc_inv_def sc_new_def sc_is_exhausted_def)

section \<open>The endpoint\<close>

text \<open>
  \<open>Tx::try_push\<close> of \<open>emcyphal/src/endpoint.rs\<close>. The serializer is a parameter: \<open>ser\<close> writes
  the payload into a slice, and the payload takes \<open>size_bits\<close> bits.
\<close>

definition ep_try_push ::
  "('s \<Rightarrow> ((priority_set \<times> u8 list) option \<times> 's) exec) \<Rightarrow> ('s \<Rightarrow> u8 list \<Rightarrow> 's exec) \<Rightarrow>
   ('s \<Rightarrow> transfer_meta \<Rightarrow> nat \<Rightarrow> transfer_crc \<Rightarrow> ((buffer_error + unit) \<times> 's) exec) \<Rightarrow>
   ('p \<Rightarrow> u8 list \<Rightarrow> u8 list) \<Rightarrow> ('p \<Rightarrow> nat) \<Rightarrow> 's \<Rightarrow> transfer_meta \<Rightarrow> 'p \<Rightarrow>
   ((buffer_error + unit) \<times> 's) exec" where
  "ep_try_push get_scratchpad write_scratchpad push ser size_bits s meta payload = do {
     (scratchpad, s) \<leftarrow> get_scratchpad s;
     (case scratchpad of
        None \<Rightarrow> ret (Inl PriorityNotReady, s)
      | Some (priorities, buffer) \<Rightarrow>
          if \<not> ps_contains priorities (tm_priority meta) then ret (Inl PriorityNotReady, s)
          else do {
            let buffer = ser payload buffer;
            s \<leftarrow> write_scratchpad s buffer;
            let len = div_ceil (size_bits payload) 8;
            bytes \<leftarrow> slice buffer 0 len;
            push s meta len (crc_add_bytes crc_default bytes)
          })
   }"

text \<open>
  What a serializer has to do in a slice of \<open>B\<close> bytes: fill its bytes with the encoding of the
  payload and leave the length of the slice alone.
\<close>

definition serializes :: "('p \<Rightarrow> u8 list \<Rightarrow> u8 list) \<Rightarrow> ('p \<Rightarrow> nat) \<Rightarrow> nat \<Rightarrow> 'p \<Rightarrow> u8 list \<Rightarrow> bool" where
  "serializes ser size_bits B payload bytes \<longleftrightarrow> length bytes = div_ceil (size_bits payload) 8 \<and>
     length bytes \<le> B \<and> (\<forall>b. length b = B \<longrightarrow>
       length (ser payload b) = B \<and> take (length bytes) (ser payload b) = bytes)"

section \<open>The contract\<close>

text \<open>
  Driver and task operate in any order. \<open>TxSerialize\<close> asks for the scratchpad and writes into
  it if it is given; pushes follow when the task gets to them.
\<close>

datatype tx_op = TxPop priority_set mtu | TxPollEmpty | TxPollPush priority_set
  | TxSerialize "u8 list \<Rightarrow> u8 list" | TxPush transfer_meta nat transfer_crc

fun tx_op_wf :: "nat \<Rightarrow> tx_op \<Rightarrow> bool" where
  "tx_op_wf B (TxSerialize f) = (\<forall>b. length (f b) = length b)"
| "tx_op_wf B (TxPush meta len crc) = (len \<le> B)"
| "tx_op_wf B _ = True"

fun tx_op_pops :: "tx_op \<Rightarrow> bool" where
  "tx_op_pops (TxPop pmask m) = True"
| "tx_op_pops _ = False"

locale tx_buffer =
  fixes rep :: "'s \<Rightarrow> tx_contents \<Rightarrow> u8 list option \<Rightarrow> bool"
    and B :: nat
    and spec :: data_specifier
    and accept :: "tx_contents \<Rightarrow> priority \<Rightarrow> tx_item \<Rightarrow> tx_contents"
    and claims :: "tx_contents \<Rightarrow> tx_contents \<Rightarrow> bool"
    and address :: "transfer_meta \<Rightarrow> buffer_error + node_id option"
    and ready :: "'s \<Rightarrow> priority_set"
    and pop :: "'s \<Rightarrow> priority_set \<Rightarrow> mtu \<Rightarrow> (frame option \<times> 's) exec"
    and is_empty :: "'s \<Rightarrow> bool"
    and poll_empty :: "'s \<Rightarrow> unit poll \<times> 's"
    and push_ready :: "'s \<Rightarrow> priority_set"
    and poll_push :: "'s \<Rightarrow> priority_set \<Rightarrow> priority_set poll \<times> 's"
    and scratchpad :: "'s \<Rightarrow> ((priority_set \<times> u8 list) option \<times> 's) exec"
    and fill_pad :: "'s \<Rightarrow> u8 list \<Rightarrow> 's exec"
    and push :: "'s \<Rightarrow> transfer_meta \<Rightarrow> nat \<Rightarrow> transfer_crc \<Rightarrow> ((buffer_error + unit) \<times> 's) exec"
  assumes items_wf: "rep s A pad \<Longrightarrow> i \<in> set (A p) \<Longrightarrow> tx_item_wf i"
    and ready_rep: "rep s A pad \<Longrightarrow> ps_contains (ready s) p \<longleftrightarrow> A p \<noteq> []"
    and empty_rep: "rep s A pad \<Longrightarrow> is_empty s \<longleftrightarrow> (\<forall>p. A p = [])"
    and pop_rep: "rep s A pad \<Longrightarrow> \<exists>fr s' A'. pop s pmask m = Some (fr, s') \<and> rep s' A' pad \<and>
      tx_popped spec A pmask m fr A'"
    and poll_empty_rep: "rep s A pad \<Longrightarrow> rep (snd (poll_empty s)) A pad \<and>
      (fst (poll_empty s) = Ready () \<longleftrightarrow> is_empty s)"
    and poll_push_rep: "rep s A pad \<Longrightarrow> rep (snd (poll_push s pmask)) A pad \<and>
      (fst (poll_push s pmask) = Pending \<longleftrightarrow> ps_is_empty (ps_and (push_ready s) pmask))"
    and scratchpad_rep: "rep s A pad \<Longrightarrow> \<exists>r s'. scratchpad s = Some (r, s') \<and> (case r of
      None \<Rightarrow> ps_is_empty (push_ready s) \<and> rep s' A pad
    | Some (ps, b) \<Rightarrow> ps = push_ready s \<and> push_ready s' = ps \<and> length b = B \<and>
        (\<exists>A'. claims A A' \<and> rep s' A' (Some b)))"
    and write_rep: "rep s A (Some b) \<Longrightarrow> length b' = B \<Longrightarrow>
      \<exists>s'. fill_pad s b' = Some s' \<and> rep s' A (Some b') \<and> push_ready s' = push_ready s"
    and push_rep: "rep s A pad \<Longrightarrow> len \<le> B \<Longrightarrow>
      \<exists>r s'. push s meta len crc = Some (r, s') \<and> (case (address meta, pad) of
        (Inl e, _) \<Rightarrow> r = Inl e \<and> rep s' A pad
      | (Inr a, None) \<Rightarrow> r \<in> {Inl PriorityNotReady, Inl ScratchpadNotInitialized} \<and> rep s' A pad
      | (Inr a, Some b) \<Rightarrow>
          if ps_contains (push_ready s) (tm_priority meta)
          then r = Inr () \<and> rep s' (accept A (tm_priority meta) (tx_item_of meta a b len crc)) None
          else r = Inl PriorityNotReady \<and> rep s' A pad)"
begin

fun step :: "tx_op \<Rightarrow> 's \<Rightarrow> 's exec" where
  "step (TxPop pmask m) s = do { (fr, s) \<leftarrow> pop s pmask m; ret s }"
| "step TxPollEmpty s = ret (snd (poll_empty s))"
| "step (TxPollPush pmask) s = ret (snd (poll_push s pmask))"
| "step (TxSerialize f) s = do {
     (r, s) \<leftarrow> scratchpad s;
     (case r of None \<Rightarrow> ret s | Some (ps, b) \<Rightarrow> fill_pad s (f b)) }"
| "step (TxPush meta len crc) s = do { (r, s) \<leftarrow> push s meta len crc; ret s }"

text \<open>Whatever no claim of the scratchpad and no push breaks, the task keeps.\<close>

lemma step_keeps:
  assumes "rep s A pad" "tx_op_wf B op" "\<not> tx_op_pops op" "H A"
    "\<And>A A'. claims A A' \<Longrightarrow> H A \<Longrightarrow> H A'" "\<And>A p i. H A \<Longrightarrow> H (accept A p i)"
  shows "\<exists>s' A' pad'. step op s = Some s' \<and> rep s' A' pad' \<and> H A'"
proof (cases op)
  case (TxPop pmask m)
  then show ?thesis using assms(3) by simp
next
  case TxPollEmpty
  then have "step op s = Some (snd (poll_empty s))" by simp
  then show ?thesis using poll_empty_rep [OF assms(1)] assms(4) by blast
next
  case (TxPollPush pmask)
  then have "step op s = Some (snd (poll_push s pmask))" by simp
  then show ?thesis using poll_push_rep [OF assms(1)] assms(4) by blast
next
  case (TxSerialize f)
  obtain r s1 where s1: "scratchpad s = Some (r, s1)" "case r of
      None \<Rightarrow> ps_is_empty (push_ready s) \<and> rep s1 A pad
    | Some (ps, b) \<Rightarrow> ps = push_ready s \<and> push_ready s1 = ps \<and> length b = B \<and>
        (\<exists>A'. claims A A' \<and> rep s1 A' (Some b))"
    using scratchpad_rep [OF assms(1)] by blast
  show ?thesis
  proof (cases r)
    case None
    then have "step op s = Some s1" "rep s1 A pad" using TxSerialize s1 by simp_all
    then show ?thesis using assms(4) by blast
  next
    case (Some x)
    then obtain ps b A' where x: "r = Some (ps, b)" "rep s1 A' (Some b)" "length b = B" "claims A A'"
      using s1(2) by (cases x) auto
    have "length (f b) = B" using assms(2) TxSerialize x(3) by simp
    from write_rep [OF x(2) this] obtain s' where "fill_pad s1 (f b) = Some s'" "rep s' A' (Some (f b))"
      by blast
    moreover from this(1) have "step op s = Some s'" using TxSerialize s1(1) x(1) by simp
    ultimately show ?thesis using assms(5) [OF x(4) assms(4)] by blast
  qed
next
  case (TxPush meta len crc)
  then have "len \<le> B" using assms(2) by simp
  from push_rep [OF assms(1) this, of meta crc] obtain r s' A' pad' where
    "push s meta len crc = Some (r, s')" "rep s' A' pad'" "H A'"
    using assms(4,6) by (elim exE conjE) (auto split: sum.splits option.splits if_splits)
  moreover from this(1) TxPush have "step op s = Some s'" by simp
  ultimately show ?thesis by blast
qed

lemma run_keeps:
  assumes "\<And>A A'. claims A A' \<Longrightarrow> H A \<Longrightarrow> H A'" "\<And>A p i. H A \<Longrightarrow> H (accept A p i)"
  shows "rep s A pad \<Longrightarrow> list_all (\<lambda>op. tx_op_wf B op \<and> \<not> tx_op_pops op) ops \<Longrightarrow> H A \<Longrightarrow>
    \<exists>s' A' pad'. for_each step ops s = Some s' \<and> rep s' A' pad' \<and> H A'"
proof (induction ops arbitrary: s A pad)
  case (Cons op ops)
  have "\<exists>s1 A1 pad1. step op s = Some s1 \<and> rep s1 A1 pad1 \<and> H A1"
    by (rule step_keeps [where H = H, OF Cons.prems(1)]) (use Cons.prems(2,3) assms in auto)
  then obtain s1 A1 pad1 where s1: "step op s = Some s1" "rep s1 A1 pad1" "H A1" by blast
  from Cons.IH [OF s1(2) _ s1(3)] Cons.prems(2) s1(1) show ?case by simp
qed auto

lemma step_rep:
  assumes "rep s A pad" "tx_op_wf B op"
  shows "\<exists>s' A' pad'. step op s = Some s' \<and> rep s' A' pad'"
proof (cases op)
  case (TxPop pmask m)
  obtain fr s' A' where "pop s pmask m = Some (fr, s')" "rep s' A' pad"
    using pop_rep [OF assms(1)] by blast
  moreover from this(1) TxPop have "step op s = Some s'" by simp
  ultimately show ?thesis by blast
qed (use step_keeps [OF assms, of "\<lambda>_. True"] in auto)

text \<open>No interleaving of the driver with the task makes the buffer panic.\<close>

lemma run_ops:
  "rep s A pad \<Longrightarrow> list_all (tx_op_wf B) ops \<Longrightarrow>
    \<exists>s' A' pad'. for_each step ops s = Some s' \<and> rep s' A' pad'"
proof (induction ops arbitrary: s A pad)
  case (Cons op ops)
  obtain s1 A1 pad1 where s1: "step op s = Some s1" "rep s1 A1 pad1"
    using step_rep [OF Cons.prems(1), of op] Cons.prems(2) by auto
  have "list_all (tx_op_wf B) ops" using Cons.prems(2) by simp
  from Cons.IH [OF s1(2) this] s1(1) show ?case by simp
qed auto

text \<open>
  A push of the endpoint that finds the priority ready puts the encoded payload with its CRC
  into the buffer.
\<close>

lemma endpoint_push:
  assumes "rep s A pad" "serializes ser size_bits B payload bytes" "address meta = Inr a"
    "ps_contains (push_ready s) (tm_priority meta)"
  shows "\<exists>s' A' b. ep_try_push scratchpad fill_pad push ser size_bits s meta payload = Some (Inr (), s') \<and>
    claims A A' \<and> take (length bytes) b = bytes \<and> length b = B \<and>
    rep s' (accept A' (tm_priority meta)
      (tx_item_of meta a b (length bytes) (crc_add_bytes crc_default bytes))) None"
proof -
  obtain r s1 where s1: "scratchpad s = Some (r, s1)" "case r of
      None \<Rightarrow> ps_is_empty (push_ready s) \<and> rep s1 A pad
    | Some (ps, b) \<Rightarrow> ps = push_ready s \<and> push_ready s1 = ps \<and> length b = B \<and>
        (\<exists>A'. claims A A' \<and> rep s1 A' (Some b))"
    using scratchpad_rep [OF assms(1)] by blast
  have "r \<noteq> None"
  proof
    assume "r = None"
    then have "ps_is_empty (push_ready s)" using s1(2) by simp
    then show False using assms(4) by (simp add: ps_is_empty_iff)
  qed
  then obtain ps b where r0: "r = Some (ps, b)" by auto
  have "ps = push_ready s \<and> push_ready s1 = ps \<and> length b = B \<and> (\<exists>A'. claims A A' \<and> rep s1 A' (Some b))"
    using s1(2) by (simp add: r0)
  then obtain A' where r: "r = Some (push_ready s, b)" "push_ready s1 = push_ready s" "length b = B"
    "claims A A'" "rep s1 A' (Some b)" using r0 by blast
  let ?b = "ser payload b" and ?n = "length bytes"
  have ser: "length ?b = B" "take ?n ?b = bytes" "?n = div_ceil (size_bits payload) 8" "?n \<le> B"
    using assms(2) r(3) by (auto simp: serializes_def)
  obtain s2 where s2: "fill_pad s1 ?b = Some s2" "rep s2 A' (Some ?b)" "push_ready s2 = push_ready s1"
    using write_rep [OF r(5) ser(1)] by blast
  let ?crc = "crc_add_bytes crc_default bytes"
  obtain s3 where s3: "push s2 meta ?n ?crc = Some (Inr (), s3)"
    "rep s3 (accept A' (tm_priority meta) (tx_item_of meta a ?b ?n ?crc)) None"
    using push_rep [OF s2(2) ser(4), of meta ?crc] assms(3,4) s2(3) r(2) by (elim exE) simp
  have slice: "slice ?b 0 ?n = Some bytes" using ser(1,2,4) by simp
  have "ep_try_push scratchpad fill_pad push ser size_bits s meta payload = Some (Inr (), s3)"
    unfolding ep_try_push_def Let_def ser(3) [symmetric]
    by (simp add: s1(1) r(1) assms(4) s2(1) s3(1) slice del: slice_in)
  then show ?thesis using r(4) ser(1,2) s3(2) by blast
qed

text \<open>Popping one priority with a sequence of MTUs until its first transfer is finished.\<close>

fun fetch :: "priority_set \<Rightarrow> mtu list \<Rightarrow> 's \<Rightarrow> (frame list \<times> 's) exec" where
  "fetch pmask [] s = ret ([], s)"
| "fetch pmask (m # ms) s = do {
     (fr, s) \<leftarrow> pop s pmask m;
     (case fr of
        None \<Rightarrow> ret ([], s)
      | Some f \<Rightarrow> do { (fs, s) \<leftarrow> fetch pmask ms s; ret (f # fs, s) })
   }"

lemma fetch_empty:
  assumes "rep s A pad" "A p = []"
  shows "\<exists>s'. fetch (ps_new_eq p) ms s = Some ([], s') \<and> rep s' A pad"
proof (cases ms)
  case Nil
  then show ?thesis using assms(1) by simp
next
  case (Cons m ms')
  obtain fr s1 A1 where p: "pop s (ps_new_eq p) m = Some (fr, s1)" "rep s1 A1 pad"
    "tx_popped spec A (ps_new_eq p) m fr A1" using pop_rep [OF assms(1)] by blast
  have "fr = None" "A1 = A" using p(3) assms(2)
    by (auto simp: tx_popped_def admitted_def split: option.splits if_splits)
  then show ?thesis using p(1,2) Cons by auto
qed

lemma pop_one:
  assumes "rep s A pad" "A q = item # rest"
  shows "\<exists>data sc s'. sc_fetch_frame_data (ti_scatter item) (ti_bytes item) m = Some (Some data, sc) \<and>
    pop s (ps_new_eq q) m = Some (Some (tx_frame spec q item data), s') \<and>
    rep s' (A(q := tx_advance item sc @ rest)) pad"
proof -
  have adm: "admitted (A r) (ps_new_eq q) r \<longleftrightarrow> r = q" for r
    using assms(2) by (auto simp: admitted_def)
  obtain fr s1 A1 where pop: "pop s (ps_new_eq q) m = Some (fr, s1)" "rep s1 A1 pad"
    "tx_popped spec A (ps_new_eq q) m fr A1" using pop_rep [OF assms(1)] by blast
  then show ?thesis using assms(2) by (auto simp: tx_popped_def adm split: option.splits)
qed

text \<open>What a priority delivers is decided by its own items.\<close>

lemma fetch_determined:
  "rep s A pad \<Longrightarrow> rep t C pad' \<Longrightarrow> A q = C q \<Longrightarrow>
    outputs (fetch (ps_new_eq q) ms s) = outputs (fetch (ps_new_eq q) ms t)"
proof (induction ms arbitrary: s t A C)
  case (Cons m ms)
  show ?case
  proof (cases "A q")
    case Nil
    then show ?thesis
      using fetch_empty [OF Cons.prems(1), of q "m # ms"] fetch_empty [OF Cons.prems(2), of q "m # ms"]
        Cons.prems(3) by (auto simp del: fetch.simps)
  next
    case (Cons item rest)
    then have C: "C q = item # rest" using Cons.prems(3) by simp
    obtain data sc s1 where s1: "sc_fetch_frame_data (ti_scatter item) (ti_bytes item) m = Some (Some data, sc)"
      "pop s (ps_new_eq q) m = Some (Some (tx_frame spec q item data), s1)"
      "rep s1 (A(q := tx_advance item sc @ rest)) pad" using pop_one [OF Cons.prems(1) Cons] by blast
    obtain t1 where t1: "pop t (ps_new_eq q) m = Some (Some (tx_frame spec q item data), t1)"
      "rep t1 (C(q := tx_advance item sc @ rest)) pad'"
      using pop_one [OF Cons.prems(2) C, of m] s1(1) by auto
    have "outputs (fetch (ps_new_eq q) ms s1) = outputs (fetch (ps_new_eq q) ms t1)"
      by (rule Cons.IH [OF s1(3) t1(2)]) simp
    then show ?thesis using s1(2) t1(1)
      by (cases "fetch (ps_new_eq q) ms s1"; cases "fetch (ps_new_eq q) ms t1") auto
  qed
qed simp

lemma fetch_item:
  "rep s A pad \<Longrightarrow> A p = [item] \<Longrightarrow>
    sc_fetch_all (ti_scatter item) (ti_bytes item) ms = Some (frames, sc) \<Longrightarrow> sc_is_exhausted sc \<Longrightarrow>
    \<exists>s'. fetch (ps_new_eq p) ms s = Some (map (tx_frame spec p item) frames, s') \<and>
      rep s' (A(p := [])) pad"
proof (induction ms arbitrary: s A item frames)
  case Nil
  then have "tx_item_wf item" using items_wf [OF Nil.prems(1), of item p] by simp
  then show ?case using Nil.prems by (simp add: tx_item_wf_def)
next
  case (Cons m ms)
  have wf: "tx_item_wf item" using items_wf [OF Cons.prems(1), of item p] Cons.prems(2) by simp
  have adm: "admitted (A r) (ps_new_eq p) r \<longleftrightarrow> r = p" for r
    using Cons.prems(2) by (auto simp: admitted_def)
  obtain fr s1 A1 where pop: "pop s (ps_new_eq p) m = Some (fr, s1)" "rep s1 A1 pad"
    "tx_popped spec A (ps_new_eq p) m fr A1" using pop_rep [OF Cons.prems(1)] by blast
  then obtain data sc1 where d: "fr = Some (tx_frame spec p item data)"
    "sc_fetch_frame_data (ti_scatter item) (ti_bytes item) m = Some (Some data, sc1)"
    "A1 = A(p := tx_advance item sc1)"
    using Cons.prems(2) by (auto simp: tx_popped_def adm split: option.splits)
  obtain frames' where f: "sc_fetch_all sc1 (ti_bytes item) ms = Some (frames', sc)"
    "frames = data # frames'" using Cons.prems(3) d(2) by (auto split: bind_splits)
  show ?case
  proof (cases "sc_is_exhausted sc1")
    case True
    then have A1: "A1 = A(p := [])" by (simp add: d(3) tx_advance_def)
    have empty: "frames' = []"
    proof (cases ms)
      case (Cons m' ms')
      have "sc_fetch_frame_data sc1 (ti_bytes item) m' = Some (None, sc1)"
        by (rule sc_fetch_exhausted [OF True])
      then show ?thesis using f(1) Cons by simp
    qed (use f(1) in simp)
    have "A1 p = []" by (simp add: A1)
    then obtain s' where "fetch (ps_new_eq p) ms s1 = Some ([], s')" "rep s' A1 pad"
      using fetch_empty [OF pop(2)] by blast
    moreover from this(1) have "fetch (ps_new_eq p) (m # ms) s =
        Some (map (tx_frame spec p item) frames, s')" using pop(1) d(1) f(2) empty by simp
    ultimately show ?thesis unfolding A1 by blast
  next
    case False
    let ?item = "item\<lparr> ti_scatter := sc1 \<rparr>"
    have A1: "A1 p = [?item]" using False by (simp add: d(3) tx_advance_def)
    have "sc_fetch_all (ti_scatter ?item) (ti_bytes ?item) ms = Some (frames', sc)" using f(1) by simp
    from Cons.IH [OF pop(2) A1 this Cons.prems(4)] obtain s' where s':
      "fetch (ps_new_eq p) ms s1 = Some (map (tx_frame spec p ?item) frames', s')"
      "rep s' (A1(p := [])) pad" by blast
    have "tx_frame spec p ?item = tx_frame spec p item" by (simp add: tx_frame_def fun_eq_iff)
    then have "fetch (ps_new_eq p) (m # ms) s = Some (map (tx_frame spec p item) frames, s')"
      using pop(1) d(1) f(2) s'(1) by simp
    moreover have "A1(p := []) = A(p := [])" by (simp add: d(3))
    then have "rep s' (A(p := [])) pad" using s'(2) by (simp only:)
    ultimately show ?thesis by blast
  qed
qed

end

end
