(* ===== verification/Tx_Message.thy ===== *)
theory Tx_Message
  imports Tx_Buffer
begin

text \<open>
  The two message buffers: \<open>Blocking\<close> holds one transfer and takes no other until it is sent
  (\<open>emcyphal/src/buffer/tx_msg/blocking.rs\<close>); \<open>Signal\<close> always takes the newest message and
  finishes the one whose frames are being sent (\<open>emcyphal/src/buffer/tx_msg/signal.rs\<close>).
\<close>

section \<open>What both share\<close>

text \<open>A \<open>WakerRegistration\<close> is the list of the calls made to it, the last one first.\<close>

definition wk_register :: "waker_call list \<Rightarrow> waker_call list" where
  "wk_register w = RegisterWaker # w"

definition wk_wake :: "waker_call list \<Rightarrow> waker_call list" where
  "wk_wake w = WakeWaker # w"

text \<open>Only messages without an address are sent.\<close>

definition msg_address :: "transfer_meta \<Rightarrow> buffer_error + node_id option" where
  "msg_address meta = (if tm_address meta = None then Inr None else Inl MessageAddressSpecified)"

text \<open>The contents of a buffer with a single priority.\<close>

definition only_at :: "priority \<Rightarrow> tx_item list \<Rightarrow> tx_contents" where
  "only_at q items = (\<lambda>p. if p = q then items else [])"

lemma only_at_simps [simp]:
  "only_at q items q = items" "p \<noteq> q \<Longrightarrow> only_at q items p = []"
  "(only_at q items)(q := items') = only_at q items'"
  "only_at q items p = [] \<longleftrightarrow> items = [] \<or> p \<noteq> q"
  by (auto simp: only_at_def)

lemma tx_popped_only_at:
  assumes "tx_item_wf i" "ps_contains pm q"
    "sc_fetch_frame_data (ti_scatter i) (ti_bytes i) m = Some (Some d, sc)"
  shows "tx_popped spec (only_at q (i # is)) pm m (Some (tx_frame spec q i d))
    (only_at q (tx_advance i sc @ is))"
  using assms
  by (auto simp: tx_popped_def admitted_def intro!: exI [of _ q] exI [of _ d] exI [of _ sc])

lemma tx_popped_none:
  "items = [] \<or> \<not> ps_contains pm q \<Longrightarrow> tx_popped spec (only_at q items) pm m None (only_at q items)"
  by (auto simp: tx_popped_def admitted_def)

section \<open>The blocking buffer\<close>

record blocking_entry =
  be_scatter :: scatter
  be_deadline :: instant
  be_loop_back :: bool

record msg_blocking =
  mb_subject :: subject_id
  mb_priority :: priority
  mb_buffer :: "u8 list"
  mb_pending_transfer :: "blocking_entry option"
  mb_scratchpad_provided :: bool
  mb_non_full_trigger :: "waker_call list"
  mb_empty_trigger :: "waker_call list"

definition mb_new :: "subject_id \<Rightarrow> priority \<Rightarrow> u8 list \<Rightarrow> msg_blocking" where
  "mb_new subject priority buffer =
     \<lparr> mb_subject = subject, mb_priority = priority, mb_buffer = buffer,
       mb_pending_transfer = None, mb_scratchpad_provided = False,
       mb_non_full_trigger = [], mb_empty_trigger = [] \<rparr>"

definition mb_pop_readiness :: "msg_blocking \<Rightarrow> priority_set" where
  "mb_pop_readiness st =
     (if mb_pending_transfer st \<noteq> None then ps_new_eq (mb_priority st) else ps_NONE)"

definition mb_try_pop ::
  "msg_blocking \<Rightarrow> priority_set \<Rightarrow> mtu \<Rightarrow> (frame option \<times> msg_blocking) exec" where
  "mb_try_pop st priority_mask mtu =
     (if ps_is_empty (ps_and (mb_pop_readiness st) priority_mask) then ret (None, st)
      else do {
        entry \<leftarrow> unwrap (mb_pending_transfer st);
        (fetched, scatter) \<leftarrow> sc_fetch_frame_data (be_scatter entry) (mb_buffer st) mtu;
        data \<leftarrow> unwrap fetched;
        let frame = \<lparr> f_header = \<lparr> h_priority = mb_priority st,
            h_data_spec = Message (mb_subject st), h_source = None, h_destination = None \<rparr>,
          f_data = data, f_timestamp = be_deadline entry, f_loop_back = be_loop_back entry \<rparr>;
        ret (Some frame,
          if sc_is_exhausted scatter
          then st\<lparr> mb_pending_transfer := None,
                  mb_non_full_trigger := wk_wake (mb_non_full_trigger st),
                  mb_empty_trigger := wk_wake (mb_empty_trigger st) \<rparr>
          else st\<lparr> mb_pending_transfer := Some (entry\<lparr> be_scatter := scatter \<rparr>) \<rparr>)
      })"

definition mb_is_empty :: "msg_blocking \<Rightarrow> bool" where
  "mb_is_empty st \<longleftrightarrow> mb_pending_transfer st = None"

definition mb_poll_is_empty :: "msg_blocking \<Rightarrow> unit poll \<times> msg_blocking" where
  "mb_poll_is_empty st = (if mb_is_empty st then (Ready (), st)
     else (Pending, st\<lparr> mb_empty_trigger := wk_register (mb_empty_trigger st) \<rparr>))"

definition mb_push_readiness :: "msg_blocking \<Rightarrow> priority_set" where
  "mb_push_readiness st =
     (if mb_pending_transfer st = None then ps_new_eq (mb_priority st) else ps_NONE)"

definition mb_poll_push_readiness ::
  "msg_blocking \<Rightarrow> priority_set \<Rightarrow> priority_set poll \<times> msg_blocking" where
  "mb_poll_push_readiness st priority_mask =
     (if ps_contains priority_mask (mb_priority st)
      then if mb_pending_transfer st = None then (Ready (ps_new_eq (mb_priority st)), st)
           else (Pending, st\<lparr> mb_non_full_trigger := wk_register (mb_non_full_trigger st) \<rparr>)
      else (Pending, st))"

definition mb_get_scratchpad ::
  "msg_blocking \<Rightarrow> ((priority_set \<times> u8 list) option \<times> msg_blocking) exec" where
  "mb_get_scratchpad st =
     (let priorities = mb_push_readiness st in
      if ps_is_empty priorities then ret (None, st)
      else do {
        let st = st\<lparr> mb_scratchpad_provided := True \<rparr>;
        assert_that (mb_pending_transfer st = None);
        ret (Some (priorities, mb_buffer st), st)
      })"

text \<open>What the caller writes into the slice that \<open>get_scratchpad\<close> returned.\<close>

definition mb_write_scratchpad :: "msg_blocking \<Rightarrow> u8 list \<Rightarrow> msg_blocking exec" where
  "mb_write_scratchpad st bytes = ret (st\<lparr> mb_buffer := bytes \<rparr>)"

definition mb_try_push ::
  "msg_blocking \<Rightarrow> transfer_meta \<Rightarrow> nat \<Rightarrow> transfer_crc \<Rightarrow>
    ((buffer_error + unit) \<times> msg_blocking) exec" where
  "mb_try_push st meta len crc =
     (if tm_address meta \<noteq> None then ret (Inl MessageAddressSpecified, st)
      else if \<not> ps_contains (mb_push_readiness st) (tm_priority meta) then ret (Inl PriorityNotReady, st)
      else if \<not> mb_scratchpad_provided st then ret (Inl ScratchpadNotInitialized, st)
      else do {
        let prev = mb_pending_transfer st;
        let entry = \<lparr> be_scatter = sc_new (tm_transfer_id meta) (mb_buffer st) len crc,
          be_deadline = tm_timestamp meta, be_loop_back = tm_loop_back meta \<rparr>;
        let st = st\<lparr> mb_scratchpad_provided := False, mb_pending_transfer := Some entry \<rparr>;
        assert_that (prev = None);
        ret (Inr (), st)
      })"

text \<open>The pending transfer as an item, and the state of the buffer.\<close>

definition mb_item :: "msg_blocking \<Rightarrow> blocking_entry \<Rightarrow> tx_item" where
  "mb_item st e = \<lparr> ti_address = None, ti_scatter = be_scatter e, ti_bytes = mb_buffer st,
     ti_deadline = be_deadline e, ti_loop_back = be_loop_back e \<rparr>"

definition mb_items :: "msg_blocking \<Rightarrow> tx_item list" where
  "mb_items st = (case mb_pending_transfer st of None \<Rightarrow> [] | Some e \<Rightarrow> [mb_item st e])"

definition mb_rep ::
  "subject_id \<Rightarrow> priority \<Rightarrow> nat \<Rightarrow> msg_blocking \<Rightarrow> tx_contents \<Rightarrow> u8 list option \<Rightarrow> bool" where
  "mb_rep subject q B st A pad \<longleftrightarrow> mb_subject st = subject \<and> mb_priority st = q \<and>
     length (mb_buffer st) = B \<and> A = only_at q (mb_items st) \<and>
     pad = (if mb_scratchpad_provided st then Some (mb_buffer st) else None) \<and>
     (mb_pending_transfer st \<noteq> None \<longrightarrow> \<not> mb_scratchpad_provided st) \<and>
     (\<forall>i \<in> set (mb_items st). tx_item_wf i)"

definition append_item :: "tx_contents \<Rightarrow> priority \<Rightarrow> tx_item \<Rightarrow> tx_contents" where
  "append_item A p i = A(p := A p @ [i])"

lemma mb_rep_new: "length buffer = B \<Longrightarrow> mb_rep s q B (mb_new s q buffer) (\<lambda>p. []) None"
  by (auto simp: mb_rep_def mb_new_def mb_items_def only_at_def)

lemma mb_items_update [simp]:
  "mb_items (st\<lparr> mb_empty_trigger := t \<rparr>) = mb_items st"
  "mb_items (st\<lparr> mb_non_full_trigger := t \<rparr>) = mb_items st"
  "mb_items (st\<lparr> mb_scratchpad_provided := v \<rparr>) = mb_items st"
  by (simp_all add: mb_items_def mb_item_def split: option.split)

lemma mb_rep_trigger [simp]:
  "mb_rep s q B (st\<lparr> mb_empty_trigger := t \<rparr>) = mb_rep s q B st"
  "mb_rep s q B (st\<lparr> mb_non_full_trigger := t \<rparr>) = mb_rep s q B st"
  by (simp_all add: mb_rep_def fun_eq_iff)

lemma mb_try_pop_rep:
  assumes "mb_rep s q B st A pad"
  shows "\<exists>fr st' A'. mb_try_pop st pm m = Some (fr, st') \<and> mb_rep s q B st' A' pad \<and>
    tx_popped (Message s) A pm m fr A'"
proof (cases "mb_pending_transfer st = None \<or> \<not> ps_contains pm q")
  case True
  then have "ps_is_empty (ps_and (mb_pop_readiness st) pm)"
    using assms by (auto simp: ps_is_empty_iff mb_pop_readiness_def mb_rep_def)
  then have "mb_try_pop st pm m = Some (None, st)" by (simp add: mb_try_pop_def)
  moreover have "tx_popped (Message s) A pm m None A"
    using True assms tx_popped_none [of "mb_items st" pm q] by (auto simp: mb_rep_def mb_items_def)
  ultimately show ?thesis using assms by blast
next
  case False
  then obtain e where e: "mb_pending_transfer st = Some e" "ps_contains pm q" by auto
  let ?i = "mb_item st e"
  have st: "mb_subject st = s" "mb_priority st = q" "mb_scratchpad_provided st = False"
    "A = only_at q [?i]" "pad = None" "length (mb_buffer st) = B" and wf: "tx_item_wf ?i"
    using assms e(1) by (auto simp: mb_rep_def mb_items_def)
  have i: "ti_scatter ?i = be_scatter e" "ti_bytes ?i = mb_buffer st" by (simp_all add: mb_item_def)
  obtain d sc where d: "sc_fetch_frame_data (be_scatter e) (mb_buffer st) m = Some (Some d, sc)"
    "data_wf d" "\<forall>j \<in> set (tx_advance ?i sc). tx_item_wf j" "sc_offset sc \<noteq> 0"
    by (rule tx_item_fetch [OF wf, of m, unfolded i])
  have ready: "\<not> ps_is_empty (ps_and (mb_pop_readiness st) pm)"
    using e st(2) by (auto simp: ps_is_empty_iff mb_pop_readiness_def)
  let ?st = "if sc_is_exhausted sc then st\<lparr> mb_pending_transfer := None,
      mb_non_full_trigger := wk_wake (mb_non_full_trigger st),
      mb_empty_trigger := wk_wake (mb_empty_trigger st) \<rparr>
    else st\<lparr> mb_pending_transfer := Some (e\<lparr> be_scatter := sc \<rparr>) \<rparr>"
  have run: "mb_try_pop st pm m = Some (Some (tx_frame (Message s) q ?i d), ?st)"
    unfolding mb_try_pop_def using ready e(1) d(1) st(1,2) by (simp add: tx_frame_def mb_item_def)
  have items: "mb_items ?st = tx_advance ?i sc"
    by (simp add: mb_items_def tx_advance_def mb_item_def)
  have "mb_rep s q B ?st (only_at q (tx_advance ?i sc)) pad"
    unfolding mb_rep_def items using st d(3) by simp
  moreover have "tx_popped (Message s) A pm m (Some (tx_frame (Message s) q ?i d))
      (only_at q (tx_advance ?i sc))"
    using tx_popped_only_at [OF wf e(2), of m d sc "Message s" "[]"] d(1) st(4)
    by (simp add: mb_item_def)
  ultimately show ?thesis using run by blast
qed

interpretation mb: tx_buffer "mb_rep s q B" B "Message s" append_item "\<lambda>A A'. A' = A"
  msg_address mb_pop_readiness mb_try_pop mb_is_empty mb_poll_is_empty mb_push_readiness
  mb_poll_push_readiness mb_get_scratchpad mb_write_scratchpad mb_try_push for s q B
proof
  fix st A pad
  assume rep: "mb_rep s q B st A pad"
  note st = rep [unfolded mb_rep_def]
  show "tx_item_wf i" if "i \<in> set (A p)" for i p
    using st that by (auto simp: only_at_def split: if_splits)
  show "ps_contains (mb_pop_readiness st) p \<longleftrightarrow> A p \<noteq> []" for p
    using st by (auto simp: mb_pop_readiness_def mb_items_def split: option.splits)
  show "mb_is_empty st \<longleftrightarrow> (\<forall>p. A p = [])"
    using st by (auto simp: mb_is_empty_def mb_items_def split: option.splits)
  show "\<exists>fr st' A'. mb_try_pop st pm m = Some (fr, st') \<and> mb_rep s q B st' A' pad \<and>
      tx_popped (Message s) A pm m fr A'" for pm m by (rule mb_try_pop_rep [OF rep])
  show "mb_rep s q B (snd (mb_poll_is_empty st)) A pad \<and>
      (fst (mb_poll_is_empty st) = Ready () \<longleftrightarrow> mb_is_empty st)"
    using rep by (simp add: mb_poll_is_empty_def)
  show "mb_rep s q B (snd (mb_poll_push_readiness st pm)) A pad \<and>
      (fst (mb_poll_push_readiness st pm) = Pending \<longleftrightarrow>
        ps_is_empty (ps_and (mb_push_readiness st) pm))" for pm
  proof -
    have "(fst (mb_poll_push_readiness st pm) = Pending) =
        ps_is_empty (ps_and (mb_push_readiness st) pm)"
      by (auto simp: mb_poll_push_readiness_def mb_push_readiness_def ps_is_empty_iff)
    then show ?thesis using rep by (simp add: mb_poll_push_readiness_def)
  qed
  show "\<exists>r st'. mb_get_scratchpad st = Some (r, st') \<and> (case r of
      None \<Rightarrow> ps_is_empty (mb_push_readiness st) \<and> mb_rep s q B st' A pad
    | Some (ps, b) \<Rightarrow> ps = mb_push_readiness st \<and> mb_push_readiness st' = ps \<and> length b = B \<and>
        (\<exists>A'. A' = A \<and> mb_rep s q B st' A' (Some b)))"
    using rep by (cases "mb_pending_transfer st")
      (auto simp: mb_get_scratchpad_def mb_push_readiness_def mb_rep_def mb_items_def Let_def)
  show "\<exists>r st'. mb_try_push st meta len crc = Some (r, st') \<and> (case (msg_address meta, pad) of
        (Inl e, _) \<Rightarrow> r = Inl e \<and> mb_rep s q B st' A pad
      | (Inr a, None) \<Rightarrow> r \<in> {Inl PriorityNotReady, Inl ScratchpadNotInitialized} \<and> mb_rep s q B st' A pad
      | (Inr a, Some b) \<Rightarrow>
          if ps_contains (mb_push_readiness st) (tm_priority meta)
          then r = Inr () \<and> mb_rep s q B st'
            (append_item A (tm_priority meta) (tx_item_of meta a b len crc)) None
          else r = Inl PriorityNotReady \<and> mb_rep s q B st' A pad)"
    if "len \<le> B" for meta len crc
  proof (cases "tm_address meta = None \<and> mb_scratchpad_provided st \<and>
      ps_contains (mb_push_readiness st) (tm_priority meta)")
    case False
    then show ?thesis using rep
      by (auto simp: mb_try_push_def msg_address_def mb_rep_def)
  next
    case True
    then have p: "mb_pending_transfer st = None" "tm_priority meta = q"
      using st by (auto simp: mb_push_readiness_def split: if_splits)
    have wf: "tx_item_wf (tx_item_of meta None (mb_buffer st) len crc)"
      by (rule tx_item_of_wf) (use st that in simp)
    show ?thesis using True p st wf
      by (simp add: mb_try_push_def msg_address_def mb_rep_def mb_items_def append_item_def
          mb_item_def tx_item_of_def)
  qed
next
  fix st A b b'
  assume rep: "mb_rep s q B st A (Some b)" and "length (b' :: u8 list) = B"
  then show "\<exists>st'. mb_write_scratchpad st b' = Some st' \<and> mb_rep s q B st' A (Some b') \<and>
      mb_push_readiness st' = mb_push_readiness st"
    by (auto simp: mb_write_scratchpad_def mb_rep_def mb_items_def mb_push_readiness_def
        split: if_splits)
qed

end
