(* ===== verification/Tx_Signal.thy ===== *)
theory Tx_Signal
  imports Tx_Message
begin

text \<open>
  The buffer \<open>Signal\<close> of \<open>emcyphal/src/buffer/tx_msg/signal.rs\<close>: two buffers for the
  transfer being sent, the newest complete message and the scratchpad.
\<close>

section \<open>Model\<close>

definition BUFFER_COUNT :: nat where
  "BUFFER_COUNT = 2"

record signal_entry =
  se_buffer_idx :: nat
  se_scatter :: scatter
  se_timestamp :: instant
  se_loop_back :: bool

record signal =
  sg_subject :: subject_id
  sg_buffers :: "u8 list list"
  sg_priority :: priority
  sg_pending_transfer :: "signal_entry option"
  sg_fragmented_transfer :: "signal_entry option"
  sg_scratchpad_buffer_idx :: "nat option"
  sg_free_buffer_indexes :: "nat list"
  sg_empty_waker :: "waker_call list"

text \<open>\<open>heapless::Vec::push\<close> into a vector of capacity \<open>cap\<close>, unwrapped.\<close>

definition vec_push :: "nat \<Rightarrow> 'a list \<Rightarrow> 'a \<Rightarrow> 'a list exec" where
  "vec_push cap xs x = (if length xs < cap then ret (xs @ [x]) else panic)"

definition sg_new :: "subject_id \<Rightarrow> priority \<Rightarrow> u8 list list \<Rightarrow> signal exec" where
  "sg_new subject priority buffers = do {
     assert_that (length buffers = BUFFER_COUNT);
     ret \<lparr> sg_subject = subject, sg_buffers = buffers, sg_priority = priority,
           sg_pending_transfer = None, sg_fragmented_transfer = None,
           sg_scratchpad_buffer_idx = None, sg_free_buffer_indexes = [0..<BUFFER_COUNT],
           sg_empty_waker = [] \<rparr>
   }"

definition sg_is_empty :: "signal \<Rightarrow> bool" where
  "sg_is_empty st \<longleftrightarrow> sg_fragmented_transfer st = None \<and> sg_pending_transfer st = None"

definition sg_pop_readiness :: "signal \<Rightarrow> priority_set" where
  "sg_pop_readiness st = (if \<not> sg_is_empty st then ps_new_eq (sg_priority st) else ps_NONE)"

definition sg_try_pop :: "signal \<Rightarrow> priority_set \<Rightarrow> mtu \<Rightarrow> (frame option \<times> signal) exec" where
  "sg_try_pop st priority_mask mtu =
     (if \<not> ps_contains priority_mask (sg_priority st) then ret (None, st)
      else do {
        let st = (if sg_fragmented_transfer st = None
          then st\<lparr> sg_fragmented_transfer := sg_pending_transfer st, sg_pending_transfer := None \<rparr>
          else st);
        (case sg_fragmented_transfer st of
           None \<Rightarrow> ret (None, st)
         | Some entry \<Rightarrow> do {
             buffer \<leftarrow> arr_get (sg_buffers st) (se_buffer_idx entry);
             (fetched, scatter) \<leftarrow> sc_fetch_frame_data (se_scatter entry) buffer mtu;
             data \<leftarrow> unwrap fetched;
             let frame = \<lparr> f_header = \<lparr> h_priority = sg_priority st,
                 h_data_spec = Message (sg_subject st), h_source = None, h_destination = None \<rparr>,
               f_data = data, f_timestamp = se_timestamp entry, f_loop_back = se_loop_back entry \<rparr>;
             st \<leftarrow> (if sc_is_exhausted scatter
               then do {
                 free \<leftarrow> vec_push BUFFER_COUNT (sg_free_buffer_indexes st) (se_buffer_idx entry);
                 ret (st\<lparr> sg_fragmented_transfer := None, sg_free_buffer_indexes := free \<rparr>)
               }
               else ret (st\<lparr> sg_fragmented_transfer := Some (entry\<lparr> se_scatter := scatter \<rparr>) \<rparr>));
             ret (Some frame,
               if sg_is_empty st then st\<lparr> sg_empty_waker := wk_wake (sg_empty_waker st) \<rparr> else st)
           })
      })"

definition sg_poll_is_empty :: "signal \<Rightarrow> unit poll \<times> signal" where
  "sg_poll_is_empty st = (if sg_is_empty st then (Ready (), st)
     else (Pending, st\<lparr> sg_empty_waker := wk_register (sg_empty_waker st) \<rparr>))"

definition sg_push_readiness :: "signal \<Rightarrow> priority_set" where
  "sg_push_readiness st = ps_new_eq (sg_priority st)"

definition sg_poll_push_readiness :: "signal \<Rightarrow> priority_set \<Rightarrow> priority_set poll \<times> signal" where
  "sg_poll_push_readiness st priority_mask =
     (if ps_contains priority_mask (sg_priority st)
      then (Ready (ps_new_eq (sg_priority st)), st) else (Pending, st))"

definition sg_get_scratchpad :: "signal \<Rightarrow> ((priority_set \<times> u8 list) option \<times> signal) exec" where
  "sg_get_scratchpad st = do {
     st \<leftarrow> (if sg_scratchpad_buffer_idx st = None
       then (case split_last (sg_free_buffer_indexes st) of
           Some (idx, free) \<Rightarrow>
             ret (st\<lparr> sg_free_buffer_indexes := free, sg_scratchpad_buffer_idx := Some idx \<rparr>)
         | None \<Rightarrow> do {
             entry \<leftarrow> unwrap (sg_pending_transfer st);
             ret (st\<lparr> sg_pending_transfer := None,
                     sg_scratchpad_buffer_idx := Some (se_buffer_idx entry) \<rparr>)
           })
       else ret st);
     idx \<leftarrow> unwrap (sg_scratchpad_buffer_idx st);
     buffer \<leftarrow> arr_get (sg_buffers st) idx;
     ret (Some (ps_new_eq (sg_priority st), buffer), st)
   }"

text \<open>What the caller writes into the slice that \<open>get_scratchpad\<close> returned.\<close>

definition sg_write_scratchpad :: "signal \<Rightarrow> u8 list \<Rightarrow> signal exec" where
  "sg_write_scratchpad st bytes = do {
     idx \<leftarrow> unwrap (sg_scratchpad_buffer_idx st);
     buffers \<leftarrow> arr_set (sg_buffers st) idx bytes;
     ret (st\<lparr> sg_buffers := buffers \<rparr>)
   }"

definition sg_try_push ::
  "signal \<Rightarrow> transfer_meta \<Rightarrow> nat \<Rightarrow> transfer_crc \<Rightarrow> ((buffer_error + unit) \<times> signal) exec" where
  "sg_try_push st meta len crc =
     (if tm_address meta \<noteq> None then ret (Inl MessageAddressSpecified, st)
      else if \<not> ps_contains (sg_push_readiness st) (tm_priority meta) then ret (Inl PriorityNotReady, st)
      else (case sg_scratchpad_buffer_idx st of
          None \<Rightarrow> ret (Inl ScratchpadNotInitialized, st)
        | Some buffer_idx \<Rightarrow> do {
            let st = st\<lparr> sg_scratchpad_buffer_idx := None \<rparr>;
            buffer \<leftarrow> arr_get (sg_buffers st) buffer_idx;
            let entry = \<lparr> se_buffer_idx = buffer_idx,
              se_scatter = sc_new (tm_transfer_id meta) buffer len crc,
              se_timestamp = tm_timestamp meta, se_loop_back = tm_loop_back meta \<rparr>;
            let prev = sg_pending_transfer st;
            let st = st\<lparr> sg_pending_transfer := Some entry \<rparr>;
            (case prev of
               None \<Rightarrow> ret (Inr (), st)
             | Some prev_transfer \<Rightarrow> do {
                 free \<leftarrow> vec_push BUFFER_COUNT (sg_free_buffer_indexes st) (se_buffer_idx prev_transfer);
                 ret (Inr (), st\<lparr> sg_free_buffer_indexes := free \<rparr>)
               })
          }))"

section \<open>The state\<close>

definition list_of :: "'a option \<Rightarrow> 'a list" where
  "list_of x = (case x of None \<Rightarrow> [] | Some v \<Rightarrow> [v])"

lemma list_of_simps [simp]: "list_of None = []" "list_of (Some v) = [v]"
  by (simp_all add: list_of_def)

definition sg_item :: "u8 list list \<Rightarrow> signal_entry \<Rightarrow> tx_item" where
  "sg_item buffers e = \<lparr> ti_address = None, ti_scatter = se_scatter e,
     ti_bytes = buffers ! se_buffer_idx e, ti_deadline = se_timestamp e,
     ti_loop_back = se_loop_back e \<rparr>"

text \<open>The transfer being sent comes first; \<open>started\<close> tells it from the complete one.\<close>

definition started :: "tx_item \<Rightarrow> bool" where
  "started i \<longleftrightarrow> sc_offset (ti_scatter i) \<noteq> 0"

definition sg_items :: "signal \<Rightarrow> tx_item list" where
  "sg_items st = map (sg_item (sg_buffers st))
     (list_of (sg_fragmented_transfer st) @ list_of (sg_pending_transfer st))"

text \<open>Every buffer has one owner.\<close>

definition sg_owned :: "signal \<Rightarrow> nat list" where
  "sg_owned st = map se_buffer_idx (list_of (sg_fragmented_transfer st)) @
     map se_buffer_idx (list_of (sg_pending_transfer st)) @
     list_of (sg_scratchpad_buffer_idx st) @ sg_free_buffer_indexes st"

definition sg_rep ::
  "subject_id \<Rightarrow> priority \<Rightarrow> nat \<Rightarrow> signal \<Rightarrow> tx_contents \<Rightarrow> u8 list option \<Rightarrow> bool" where
  "sg_rep subject q B st A pad \<longleftrightarrow> sg_subject st = subject \<and> sg_priority st = q \<and>
     length (sg_buffers st) = 2 \<and> (\<forall>b \<in> set (sg_buffers st). length b = B) \<and>
     distinct (sg_owned st) \<and> set (sg_owned st) = {0, 1} \<and> A = only_at q (sg_items st) \<and>
     pad = map_option ((!) (sg_buffers st)) (sg_scratchpad_buffer_idx st) \<and>
     (\<forall>i \<in> set (sg_items st). tx_item_wf i) \<and>
     (\<forall>e. sg_fragmented_transfer st = Some e \<longrightarrow> started (sg_item (sg_buffers st) e)) \<and>
     (\<forall>e. sg_pending_transfer st = Some e \<longrightarrow> \<not> started (sg_item (sg_buffers st) e))"

text \<open>A push replaces the complete message and leaves the one being sent.\<close>

definition replace_item :: "tx_contents \<Rightarrow> priority \<Rightarrow> tx_item \<Rightarrow> tx_contents" where
  "replace_item A p i = A(p := filter started (A p) @ [i])"

text \<open>The scratchpad may take the buffer of the complete message when both are in use.\<close>

definition may_drop_unsent :: "tx_contents \<Rightarrow> tx_contents \<Rightarrow> bool" where
  "may_drop_unsent A A' \<longleftrightarrow> A' = A \<or>
     (\<exists>p i j. A p = [i, j] \<and> started i \<and> \<not> started j \<and> A' = A(p := [i]))"

lemma sg_repD:
  assumes "sg_rep s q B st A pad"
  shows "sg_subject st = s" "sg_priority st = q" "length (sg_buffers st) = 2"
    "\<And>b. b \<in> set (sg_buffers st) \<Longrightarrow> length b = B"
    "distinct (sg_owned st)" "set (sg_owned st) = {0, 1}"
    "A = only_at q (sg_items st)" "pad = map_option ((!) (sg_buffers st)) (sg_scratchpad_buffer_idx st)"
    "\<And>i. i \<in> set (sg_items st) \<Longrightarrow> tx_item_wf i"
    "\<And>e. sg_fragmented_transfer st = Some e \<Longrightarrow> started (sg_item (sg_buffers st) e)"
    "\<And>e. sg_pending_transfer st = Some e \<Longrightarrow> \<not> started (sg_item (sg_buffers st) e)"
  using assms unfolding sg_rep_def by fast+

lemma sg_owned_length:
  assumes "sg_rep s q B st A pad"
  shows "length (sg_owned st) = 2"
proof -
  have "card (set (sg_owned st)) = 2" by (simp add: sg_repD(6) [OF assms])
  then show ?thesis using distinct_card [OF sg_repD(5) [OF assms]] by simp
qed

lemma sg_idx_in:
  assumes "sg_rep s q B st A pad" "i \<in> set (sg_owned st)"
  shows "i < length (sg_buffers st)" "length (sg_buffers st ! i) = B"
proof -
  have "i \<in> {0, 1}" using assms(2) unfolding sg_repD(6) [OF assms(1)] .
  then show i: "i < length (sg_buffers st)" unfolding sg_repD(3) [OF assms(1)] by auto
  show "length (sg_buffers st ! i) = B" by (rule sg_repD(4) [OF assms(1) nth_mem [OF i]])
qed

lemma sg_new_rep:
  assumes "length buffers = 2" "\<forall>b \<in> set buffers. length b = B"
  shows "\<exists>st. sg_new s q buffers = Some st \<and> sg_rep s q B st (\<lambda>p. []) None"
proof -
  have "[0..<2] = [0, 1 :: nat]" by (simp add: upt_rec)
  then have "sg_rep s q B \<lparr> sg_subject = s, sg_buffers = buffers, sg_priority = q,
    sg_pending_transfer = None, sg_fragmented_transfer = None, sg_scratchpad_buffer_idx = None,
    sg_free_buffer_indexes = [0..<2], sg_empty_waker = [] \<rparr> (\<lambda>p. []) None"
    unfolding sg_rep_def using assms by (simp add: sg_items_def sg_owned_def only_at_def)
  then show ?thesis using assms(1) by (simp add: sg_new_def BUFFER_COUNT_def)
qed

section \<open>The operations\<close>

lemma sg_items_update [simp]:
  "sg_items (st\<lparr> sg_empty_waker := w \<rparr>) = sg_items st"
  "sg_items (st\<lparr> sg_free_buffer_indexes := fr \<rparr>) = sg_items st"
  "sg_items (st\<lparr> sg_scratchpad_buffer_idx := i \<rparr>) = sg_items st"
  by (simp_all add: sg_items_def)

lemma sg_rep_waker [simp]: "sg_rep s q B (st\<lparr> sg_empty_waker := w \<rparr>) = sg_rep s q B st"
  by (simp add: sg_rep_def sg_owned_def fun_eq_iff)

lemma vec_push_in [simp]: "length xs < cap \<Longrightarrow> vec_push cap xs x = Some (xs @ [x])"
  by (simp add: vec_push_def)

text \<open>The first step of a pop: the transfer to send from moves to the front.\<close>

lemma sg_take_pending:
  assumes "sg_rep s q B st A pad" "sg_items st \<noteq> []"
  obtains e r where "sg_items st = map (sg_item (sg_buffers st)) (e # list_of r)"
    "(if sg_fragmented_transfer st = None
      then st\<lparr> sg_fragmented_transfer := sg_pending_transfer st, sg_pending_transfer := None \<rparr> else st) =
      st\<lparr> sg_fragmented_transfer := Some e, sg_pending_transfer := r \<rparr>"
    "map se_buffer_idx (list_of (sg_fragmented_transfer st)) @
      map se_buffer_idx (list_of (sg_pending_transfer st)) = se_buffer_idx e # map se_buffer_idx (list_of r)"
    "\<forall>x. r = Some x \<longrightarrow> \<not> started (sg_item (sg_buffers st) x)"
proof (cases "sg_fragmented_transfer st")
  case None
  then obtain e where "sg_pending_transfer st = Some e" using assms(2)
    by (cases "sg_pending_transfer st") (auto simp: sg_items_def)
  then show ?thesis using that [of e None] None by (simp add: sg_items_def)
next
  case (Some e)
  have "st\<lparr> sg_fragmented_transfer := Some e, sg_pending_transfer := sg_pending_transfer st \<rparr> = st"
    using Some by (cases st) simp
  then show ?thesis using that [of e "sg_pending_transfer st"] Some sg_repD(11) [OF assms(1)]
    by (simp add: sg_items_def)
qed

lemma sg_try_pop_rep:
  assumes "sg_rep s q B st A pad"
  shows "\<exists>fr st' A'. sg_try_pop st pm m = Some (fr, st') \<and> sg_rep s q B st' A' pad \<and>
    tx_popped (Message s) A pm m fr A'"
proof (cases "sg_items st = [] \<or> \<not> ps_contains pm q")
  case True
  have A: "A = only_at q (sg_items st)" and q: "sg_priority st = q" by (rule sg_repD [OF assms])+
  have "sg_try_pop st pm m = Some (None, st)"
  proof (cases "ps_contains pm q")
    case False
    then show ?thesis by (simp add: sg_try_pop_def q)
  next
    case contains: True
    then have "sg_fragmented_transfer st = None" "sg_pending_transfer st = None"
      using True by (auto simp: sg_items_def list_of_def split: option.splits)
    moreover from this have "st\<lparr> sg_fragmented_transfer := None, sg_pending_transfer := None \<rparr> = st"
      by (cases st) simp
    ultimately show ?thesis using contains by (simp add: sg_try_pop_def q)
  qed
  moreover have "tx_popped (Message s) A pm m None A" unfolding A by (rule tx_popped_none [OF True])
  ultimately show ?thesis using assms by blast
next
  case False
  then have contains: "ps_contains pm q" and ne: "sg_items st \<noteq> []" by simp_all
  note r = sg_repD [OF assms]
  obtain e rest where e: "sg_items st = map (sg_item (sg_buffers st)) (e # list_of rest)"
    "(if sg_fragmented_transfer st = None
      then st\<lparr> sg_fragmented_transfer := sg_pending_transfer st, sg_pending_transfer := None \<rparr> else st) =
      st\<lparr> sg_fragmented_transfer := Some e, sg_pending_transfer := rest \<rparr>"
    "map se_buffer_idx (list_of (sg_fragmented_transfer st)) @
      map se_buffer_idx (list_of (sg_pending_transfer st)) = se_buffer_idx e # map se_buffer_idx (list_of rest)"
    "\<forall>x. rest = Some x \<longrightarrow> \<not> started (sg_item (sg_buffers st) x)"
    by (rule sg_take_pending [OF assms ne])
  let ?i = "sg_item (sg_buffers st) e" and ?is = "map (sg_item (sg_buffers st)) (list_of rest)"
  let ?st1 = "st\<lparr> sg_fragmented_transfer := Some e, sg_pending_transfer := rest \<rparr>"
  have owned: "sg_owned st = se_buffer_idx e # map se_buffer_idx (list_of rest) @
      list_of (sg_scratchpad_buffer_idx st) @ sg_free_buffer_indexes st"
    unfolding sg_owned_def using e(3) by (simp only: append_assoc [symmetric]) simp
  have idx: "se_buffer_idx e < length (sg_buffers st)" by (rule sg_idx_in [OF assms]) (simp add: owned)
  have wf: "tx_item_wf ?i" by (rule r(9)) (simp add: e(1))
  have i: "ti_scatter ?i = se_scatter e" "ti_bytes ?i = sg_buffers st ! se_buffer_idx e"
    by (simp_all add: sg_item_def)
  obtain d sc where d: "sc_fetch_frame_data (se_scatter e) (sg_buffers st ! se_buffer_idx e) m = Some (Some d, sc)"
    "data_wf d" "\<forall>j \<in> set (tx_advance ?i sc). tx_item_wf j" "sc_offset sc \<noteq> 0"
    by (rule tx_item_fetch [OF wf, of m, unfolded i])
  have "length (sg_free_buffer_indexes st) < 2" using sg_owned_length [OF assms] by (simp add: owned)
  then have free: "vec_push BUFFER_COUNT (sg_free_buffer_indexes st) (se_buffer_idx e) =
      Some (sg_free_buffer_indexes st @ [se_buffer_idx e])" by (simp add: BUFFER_COUNT_def)
  let ?st2 = "if sc_is_exhausted sc
    then st\<lparr> sg_pending_transfer := rest, sg_fragmented_transfer := None,
      sg_free_buffer_indexes := sg_free_buffer_indexes st @ [se_buffer_idx e] \<rparr>
    else st\<lparr> sg_pending_transfer := rest, sg_fragmented_transfer := Some (e\<lparr> se_scatter := sc \<rparr>) \<rparr>"
  let ?st3 = "if sg_is_empty ?st2 then ?st2\<lparr> sg_empty_waker := wk_wake (sg_empty_waker ?st2) \<rparr> else ?st2"
  have run: "sg_try_pop st pm m = Some (Some (tx_frame (Message s) q ?i d), ?st3)"
    unfolding sg_try_pop_def e(2) using contains idx d(1) free
    by (simp add: Let_def r(1,2) tx_frame_def sg_item_def)
  have items: "sg_items ?st2 = tx_advance ?i sc @ ?is"
    by (simp add: sg_items_def tx_advance_def sg_item_def)
  have "set (sg_owned ?st2) = set (sg_owned st)" "distinct (sg_owned ?st2)"
    using r(5) unfolding owned by (auto simp: sg_owned_def)
  moreover have "\<forall>j \<in> set (sg_items ?st2). tx_item_wf j"
    unfolding items using d(3) r(9) by (auto simp: e(1))
  moreover have "started (sg_item (sg_buffers st) x)" if "sg_fragmented_transfer ?st2 = Some x" for x
    using that d(4) by (auto simp: started_def sg_item_def split: if_splits)
  ultimately have "sg_rep s q B ?st2 (only_at q (tx_advance ?i sc @ ?is)) pad"
    unfolding sg_rep_def items using r(1-4,6,8) e(4) by simp
  then have "sg_rep s q B ?st3 (only_at q (tx_advance ?i sc @ ?is)) pad" by simp
  moreover have "tx_popped (Message s) A pm m (Some (tx_frame (Message s) q ?i d))
      (only_at q (tx_advance ?i sc @ ?is))"
    using tx_popped_only_at [OF wf contains, of m d sc "Message s" ?is] d(1) r(7) e(1) by (simp add: i)
  ultimately show ?thesis using run by blast
qed

lemma sg_push_readiness_rep: "sg_rep s q B st A pad \<Longrightarrow> sg_push_readiness st = ps_new_eq q"
  by (simp add: sg_push_readiness_def sg_repD(2))

lemma sg_get_scratchpad_rep:
  assumes "sg_rep s q B st A pad"
  shows "\<exists>b st' A'. sg_get_scratchpad st = Some (Some (ps_new_eq q, b), st') \<and> length b = B \<and>
    may_drop_unsent A A' \<and> sg_rep s q B st' A' (Some b)"
proof -
  note r = sg_repD [OF assms]
  have give: "\<exists>b. sg_get_scratchpad st = Some (Some (ps_new_eq q, b), st') \<and> length b = B \<and>
      sg_rep s q B st' A' (Some b)"
    if st': "sg_rep s q B st' A' (Some (sg_buffers st' ! i))" "sg_scratchpad_buffer_idx st' = Some i"
      and run: "sg_get_scratchpad st = (do {
        idx \<leftarrow> unwrap (sg_scratchpad_buffer_idx st');
        buffer \<leftarrow> arr_get (sg_buffers st') idx;
        ret (Some (ps_new_eq (sg_priority st'), buffer), st') })" for st' A' i
  proof -
    have "i \<in> set (sg_owned st')" by (simp add: sg_owned_def st'(2))
    from sg_idx_in [OF st'(1) this] have "i < length (sg_buffers st')" "length (sg_buffers st' ! i) = B" .
    then show ?thesis using st' run sg_repD(2) [OF st'(1)] by simp
  qed
  show ?thesis
  proof (cases "sg_scratchpad_buffer_idx st")
    case (Some i)
    have "sg_get_scratchpad st = (do {
        idx \<leftarrow> unwrap (sg_scratchpad_buffer_idx st);
        buffer \<leftarrow> arr_get (sg_buffers st) idx;
        ret (Some (ps_new_eq (sg_priority st), buffer), st) })"
      using Some by (simp add: sg_get_scratchpad_def)
    moreover have "sg_rep s q B st A (Some (sg_buffers st ! i))" using assms r(8) Some by simp
    ultimately show ?thesis using give [OF _ Some] unfolding may_drop_unsent_def by blast
  next
    case None
    show ?thesis
    proof (cases "sg_free_buffer_indexes st" rule: rev_cases)
      case (snoc free i)
      let ?st = "st\<lparr> sg_free_buffer_indexes := free, sg_scratchpad_buffer_idx := Some i \<rparr>"
      have own: "set (sg_owned ?st) = set (sg_owned st)" "distinct (sg_owned ?st)"
        using r(5) None snoc by (auto simp: sg_owned_def)
      have "sg_rep s q B ?st A (Some (sg_buffers ?st ! i))"
        unfolding sg_rep_def using assms own r(6) by (simp add: sg_rep_def)
      moreover have "sg_get_scratchpad st = (do {
          idx \<leftarrow> unwrap (sg_scratchpad_buffer_idx ?st);
          buffer \<leftarrow> arr_get (sg_buffers ?st) idx;
          ret (Some (ps_new_eq (sg_priority ?st), buffer), ?st) })"
        using None snoc by (simp add: sg_get_scratchpad_def)
      ultimately show ?thesis using give [of ?st A i] unfolding may_drop_unsent_def by auto
    next
      case Nil
      have "length (list_of (sg_fragmented_transfer st)) + length (list_of (sg_pending_transfer st)) = 2"
        using sg_owned_length [OF assms] None Nil by (simp add: sg_owned_def)
      then obtain e p where ep: "sg_fragmented_transfer st = Some e" "sg_pending_transfer st = Some p"
        by (auto simp: list_of_def split: option.splits)
      let ?st = "st\<lparr> sg_pending_transfer := None, sg_scratchpad_buffer_idx := Some (se_buffer_idx p) \<rparr>"
      let ?i = "sg_item (sg_buffers st)"
      have items: "sg_items st = [?i e, ?i p]" "sg_items ?st = [?i e]"
        using ep by (simp_all add: sg_items_def)
      have own: "set (sg_owned ?st) = set (sg_owned st)" "distinct (sg_owned ?st)"
        using r(5) None Nil ep by (auto simp: sg_owned_def)
      have A: "A q = [?i e, ?i p]" "only_at q [?i e] = A(q := [?i e])" using r(7) items by simp_all
      have "sg_rep s q B ?st (A(q := [?i e])) (Some (sg_buffers ?st ! se_buffer_idx p))"
        unfolding sg_rep_def items(2) using assms own r(6,9,10) items(1) ep A(2)
        by (simp add: sg_rep_def)
      moreover have "sg_get_scratchpad st = (do {
          idx \<leftarrow> unwrap (sg_scratchpad_buffer_idx ?st);
          buffer \<leftarrow> arr_get (sg_buffers ?st) idx;
          ret (Some (ps_new_eq (sg_priority ?st), buffer), ?st) })"
        using None Nil ep by (simp add: sg_get_scratchpad_def split_last_def)
      moreover have "may_drop_unsent A (A(q := [?i e]))"
        using A(1) r(10) [OF ep(1)] r(11) [OF ep(2)] unfolding may_drop_unsent_def by blast
      ultimately show ?thesis using give [of ?st "A(q := [?i e])" "se_buffer_idx p"] by auto
    qed
  qed
qed

lemma sg_write_scratchpad_rep:
  assumes "sg_rep s q B st A (Some b)" "length b' = B"
  shows "\<exists>st'. sg_write_scratchpad st b' = Some st' \<and> sg_rep s q B st' A (Some b')"
proof -
  note r = sg_repD [OF assms(1)]
  obtain i where i: "sg_scratchpad_buffer_idx st = Some i"
    using r(8) by (cases "sg_scratchpad_buffer_idx st") simp_all
  have mem: "i \<in> set (sg_owned st)" by (simp add: sg_owned_def i)
  have lt: "i < length (sg_buffers st)" by (rule sg_idx_in(1) [OF assms(1) mem])
  let ?st = "st\<lparr> sg_buffers := (sg_buffers st)[i := b'] \<rparr>"
  have same: "sg_item ((sg_buffers st)[i := b']) e = sg_item (sg_buffers st) e"
    if "e \<in> set (list_of (sg_fragmented_transfer st) @ list_of (sg_pending_transfer st))" for e
  proof -
    have "se_buffer_idx e \<noteq> i" using r(5) i that by (auto simp: sg_owned_def)
    then show ?thesis by (simp add: sg_item_def)
  qed
  have items: "sg_items ?st = sg_items st"
    unfolding sg_items_def using same by (intro map_cong) simp_all
  have bufs: "\<forall>x \<in> set ((sg_buffers st)[i := b']). length x = B"
    by (rule buffers_write) (use r(4) assms(2) in blast)+
  have own: "sg_owned ?st = sg_owned st" by (simp add: sg_owned_def)
  have frag: "\<forall>e. sg_fragmented_transfer st = Some e \<longrightarrow> started (sg_item ((sg_buffers st)[i := b']) e)"
    using same r(10) by simp
  have pend: "\<forall>e. sg_pending_transfer st = Some e \<longrightarrow> \<not> started (sg_item ((sg_buffers st)[i := b']) e)"
    using same r(11) by simp
  have "\<forall>j \<in> set (sg_items st). tx_item_wf j" using r(9) by blast
  then have "sg_rep s q B ?st A (Some b')"
    unfolding sg_rep_def items own using r(1,2,3,5,6,7) bufs frag pend i lt by simp
  then show ?thesis using i lt by (simp add: sg_write_scratchpad_def)
qed

lemma sg_filter_started:
  assumes "sg_rep s q B st A pad"
  shows "filter started (A q) = map (sg_item (sg_buffers st)) (list_of (sg_fragmented_transfer st))"
proof -
  note r = sg_repD [OF assms]
  have "A q = sg_items st" using r(7) by simp
  then show ?thesis using r(10,11)
    by (cases "sg_fragmented_transfer st"; cases "sg_pending_transfer st") (simp_all add: sg_items_def)
qed

lemma sg_try_push_ok:
  assumes "sg_rep s q B st A (Some b)" "len \<le> B" "tm_address meta = None" "tm_priority meta = q"
  shows "\<exists>st'. sg_try_push st meta len crc = Some (Inr (), st') \<and>
    sg_rep s q B st' (replace_item A q (tx_item_of meta None b len crc)) None"
proof -
  note r = sg_repD [OF assms(1)]
  obtain i where i: "sg_scratchpad_buffer_idx st = Some i" "b = sg_buffers st ! i"
    using r(8) by (cases "sg_scratchpad_buffer_idx st") simp_all
  have mem: "i \<in> set (sg_owned st)" by (simp add: sg_owned_def i(1))
  note lt = sg_idx_in [OF assms(1) mem]
  let ?e = "\<lparr> se_buffer_idx = i, se_scatter = sc_new (tm_transfer_id meta) b len crc,
    se_timestamp = tm_timestamp meta, se_loop_back = tm_loop_back meta \<rparr>"
  let ?free = "sg_free_buffer_indexes st @ map se_buffer_idx (list_of (sg_pending_transfer st))"
  let ?st = "st\<lparr> sg_scratchpad_buffer_idx := None, sg_pending_transfer := Some ?e,
    sg_free_buffer_indexes := ?free \<rparr>"
  have "length (sg_free_buffer_indexes st) < 2"
    using sg_owned_length [OF assms(1)] i(1) by (simp add: sg_owned_def)
  then have run: "sg_try_push st meta len crc = Some (Inr (), ?st)"
    using assms(3,4) i lt(1) r(2)
    by (cases "sg_pending_transfer st")
      (simp_all add: sg_try_push_def sg_push_readiness_def BUFFER_COUNT_def)
  have item: "sg_item (sg_buffers st) ?e = tx_item_of meta None b len crc"
    using i(2) by (simp add: sg_item_def tx_item_of_def)
  have items: "sg_items ?st = filter started (A q) @ [tx_item_of meta None b len crc]"
    unfolding sg_filter_started [OF assms(1)] item [symmetric] by (simp add: sg_items_def)
  have own: "set (sg_owned ?st) = set (sg_owned st)" "distinct (sg_owned ?st)"
    using r(5) i(1) by (auto simp: sg_owned_def)
  have "len \<le> length b" using assms(2) lt(2) i(2) by simp
  then have "tx_item_wf (tx_item_of meta None b len crc)" by (rule tx_item_of_wf)
  moreover have "A q = sg_items st" using r(7) by simp
  ultimately have wf: "\<forall>j \<in> set (sg_items ?st). tx_item_wf j" unfolding items using r(9) by auto
  have new: "\<not> started (tx_item_of meta None b len crc)"
    by (simp add: started_def tx_item_of_def sc_new_def)
  have A': "replace_item A q (tx_item_of meta None b len crc) = only_at q (sg_items ?st)"
    unfolding replace_item_def items using r(7) by simp
  have "sg_rep s q B ?st (only_at q (sg_items ?st)) None"
    unfolding sg_rep_def own(1) using r(1-4,6,10) own(2) wf new item by simp
  then show ?thesis using run A' by simp
qed

interpretation sg: tx_buffer "sg_rep s q B" B "Message s" replace_item may_drop_unsent
  msg_address sg_pop_readiness sg_try_pop sg_is_empty sg_poll_is_empty sg_push_readiness
  sg_poll_push_readiness sg_get_scratchpad sg_write_scratchpad sg_try_push for s q B
proof
  fix st A pad
  assume rep: "sg_rep s q B st A pad"
  note r = sg_repD [OF rep]
  have empty: "sg_is_empty st \<longleftrightarrow> sg_items st = []"
    by (auto simp: sg_is_empty_def sg_items_def list_of_def split: option.splits)
  show "tx_item_wf i" if "i \<in> set (A p)" for i p
    using r(7,9) that by (auto simp: only_at_def split: if_splits)
  show "ps_contains (sg_pop_readiness st) p \<longleftrightarrow> A p \<noteq> []" for p
    using r(2,7) empty by (auto simp: sg_pop_readiness_def)
  show "sg_is_empty st \<longleftrightarrow> (\<forall>p. A p = [])" using r(7) empty by auto
  show "\<exists>fr st' A'. sg_try_pop st pm m = Some (fr, st') \<and> sg_rep s q B st' A' pad \<and>
      tx_popped (Message s) A pm m fr A'" for pm m by (rule sg_try_pop_rep [OF rep])
  show "sg_rep s q B (snd (sg_poll_is_empty st)) A pad \<and>
      (fst (sg_poll_is_empty st) = Ready () \<longleftrightarrow> sg_is_empty st)"
    using rep by (simp add: sg_poll_is_empty_def)
  show "sg_rep s q B (snd (sg_poll_push_readiness st pm)) A pad \<and>
      (fst (sg_poll_push_readiness st pm) = Pending \<longleftrightarrow>
        ps_is_empty (ps_and (sg_push_readiness st) pm))" for pm
    using rep by (auto simp: sg_poll_push_readiness_def sg_push_readiness_def ps_is_empty_iff)
  show "\<exists>r st'. sg_get_scratchpad st = Some (r, st') \<and> (case r of
      None \<Rightarrow> ps_is_empty (sg_push_readiness st) \<and> sg_rep s q B st' A pad
    | Some (ps, b) \<Rightarrow> ps = sg_push_readiness st \<and> sg_push_readiness st' = ps \<and> length b = B \<and>
        (\<exists>A'. may_drop_unsent A A' \<and> sg_rep s q B st' A' (Some b)))"
  proof -
    obtain b st' A' where g: "sg_get_scratchpad st = Some (Some (ps_new_eq q, b), st')" "length b = B"
      "may_drop_unsent A A'" "sg_rep s q B st' A' (Some b)"
      using sg_get_scratchpad_rep [OF rep] by blast
    then show ?thesis using sg_push_readiness_rep [OF rep] sg_push_readiness_rep [OF g(4)]
      by (intro exI [of _ "Some (ps_new_eq q, b)"] exI [of _ st']) auto
  qed
  show "\<exists>r st'. sg_try_push st meta len crc = Some (r, st') \<and> (case (msg_address meta, pad) of
        (Inl e, _) \<Rightarrow> r = Inl e \<and> sg_rep s q B st' A pad
      | (Inr a, None) \<Rightarrow> r \<in> {Inl PriorityNotReady, Inl ScratchpadNotInitialized} \<and> sg_rep s q B st' A pad
      | (Inr a, Some b) \<Rightarrow>
          if ps_contains (sg_push_readiness st) (tm_priority meta)
          then r = Inr () \<and> sg_rep s q B st'
            (replace_item A (tm_priority meta) (tx_item_of meta a b len crc)) None
          else r = Inl PriorityNotReady \<and> sg_rep s q B st' A pad)"
    if "len \<le> B" for meta len crc
  proof (cases "tm_address meta = None \<and> tm_priority meta = q \<and> pad \<noteq> None")
    case True
    then obtain b where "pad = Some b" by auto
    then show ?thesis using sg_try_push_ok [of s q B st A b len meta crc] rep True that
      sg_push_readiness_rep [OF rep] by (auto simp: msg_address_def)
  next
    case False
    then show ?thesis using rep r(2,8)
      by (auto simp: sg_try_push_def msg_address_def sg_push_readiness_def split: option.splits)
  qed
next
  fix st A b b'
  assume rep: "sg_rep s q B st A (Some b)" and "length (b' :: u8 list) = B"
  then obtain st' where w: "sg_write_scratchpad st b' = Some st'" "sg_rep s q B st' A (Some b')"
    using sg_write_scratchpad_rep by blast
  then show "\<exists>st'. sg_write_scratchpad st b' = Some st' \<and> sg_rep s q B st' A (Some b') \<and>
      sg_push_readiness st' = sg_push_readiness st"
    using sg_push_readiness_rep [OF rep] sg_push_readiness_rep [OF w(2)] by simp
qed

end
