(* ===== verification/Tx_Response.thy ===== *)
theory Tx_Response
  imports Tx_Signal
begin

text \<open>
  The response buffer of \<open>emcyphal/src/buffer/tx_resp/blocking.rs\<close>: one transfer for every
  priority, each in a buffer of its own.
\<close>

section \<open>Model\<close>

definition rb_BUFFER_COUNT :: nat where
  "rb_BUFFER_COUNT = 1 + unat (priority_into_u8 priority_MAX)"

record response_entry =
  re_address :: node_id
  re_scatter :: scatter
  re_deadline :: instant
  re_loop_back :: bool
  re_buffer_idx :: nat

record response_buffer =
  rb_service :: service_id
  rb_buffers :: "u8 list list"
  rb_scratchpad_buffer_idx :: "nat option"
  rb_free_buffer_idx :: "nat list"
  rb_transfers :: "response_entry priority_map"
  rb_non_full_trigger :: priority_trigger
  rb_empty_trigger :: "waker_call list"

definition rb_new :: "service_id \<Rightarrow> u8 list list \<Rightarrow> response_buffer exec" where
  "rb_new service buffers = do {
     assert_that (length buffers = rb_BUFFER_COUNT);
     buffer_count \<leftarrow> u8_of rb_BUFFER_COUNT;
     ret \<lparr> rb_service = service, rb_buffers = buffers, rb_scratchpad_buffer_idx = None,
           rb_free_buffer_idx = [0..<buffer_count], rb_transfers = pm_new,
           rb_non_full_trigger = pt_new, rb_empty_trigger = [] \<rparr>
   }"

definition rb_pop_readiness :: "response_buffer \<Rightarrow> priority_set" where
  "rb_pop_readiness st = pm_keys (rb_transfers st)"

definition rb_try_pop ::
  "response_buffer \<Rightarrow> priority_set \<Rightarrow> mtu \<Rightarrow> (frame option \<times> response_buffer) exec" where
  "rb_try_pop st priority_mask mtu =
     (case ps_first (ps_and (pm_keys (rb_transfers st)) priority_mask) of
        None \<Rightarrow> ret (None, st)
      | Some priority \<Rightarrow> do {
          entry \<leftarrow> pm_index (rb_transfers st) priority;
          buffer \<leftarrow> arr_get (rb_buffers st) (re_buffer_idx entry);
          (fetched, scatter) \<leftarrow> sc_fetch_frame_data (re_scatter entry) buffer mtu;
          data \<leftarrow> unwrap fetched;
          transfers \<leftarrow> pm_index_mut (rb_transfers st) priority (entry\<lparr> re_scatter := scatter \<rparr>);
          let st = st\<lparr> rb_transfers := transfers \<rparr>;
          let frame = \<lparr> f_header = \<lparr> h_priority = priority,
              h_data_spec = Response (rb_service st), h_source = None,
              h_destination = Some (re_address entry) \<rparr>,
            f_data = data, f_timestamp = re_deadline entry, f_loop_back = re_loop_back entry \<rparr>;
          st \<leftarrow> (if sc_is_exhausted scatter
            then do {
              free \<leftarrow> vec_push rb_BUFFER_COUNT (rb_free_buffer_idx st) (re_buffer_idx entry);
              (removed, transfers) \<leftarrow> pm_remove (rb_transfers st) priority;
              ret (st\<lparr> rb_free_buffer_idx := free, rb_transfers := transfers,
                rb_non_full_trigger := pt_wake (rb_non_full_trigger st) (ps_new_eq priority) \<rparr>)
            } else ret st);
          ret (Some frame,
            if pm_is_empty (rb_transfers st)
            then st\<lparr> rb_empty_trigger := wk_wake (rb_empty_trigger st) \<rparr> else st)
        })"

definition rb_is_empty :: "response_buffer \<Rightarrow> bool" where
  "rb_is_empty st \<longleftrightarrow> pm_is_empty (rb_transfers st)"

definition rb_poll_is_empty :: "response_buffer \<Rightarrow> unit poll \<times> response_buffer" where
  "rb_poll_is_empty st = (if rb_is_empty st then (Ready (), st)
     else (Pending, st\<lparr> rb_empty_trigger := wk_register (rb_empty_trigger st) \<rparr>))"

definition rb_push_readiness :: "response_buffer \<Rightarrow> priority_set" where
  "rb_push_readiness st = ps_not (pm_keys (rb_transfers st))"

definition rb_poll_push_readiness ::
  "response_buffer \<Rightarrow> priority_set \<Rightarrow> priority_set poll \<times> response_buffer" where
  "rb_poll_push_readiness st priority_mask =
     (let priorities = ps_and (rb_push_readiness st) priority_mask in
      if \<not> ps_is_empty priorities then (Ready priorities, st)
      else (Pending,
        st\<lparr> rb_non_full_trigger := pt_register (rb_non_full_trigger st) priority_mask \<rparr>))"

definition rb_get_scratchpad ::
  "response_buffer \<Rightarrow> ((priority_set \<times> u8 list) option \<times> response_buffer) exec" where
  "rb_get_scratchpad st =
     (let priorities = rb_push_readiness st in
      if ps_is_empty priorities then ret (None, st)
      else do {
        st \<leftarrow> (if rb_scratchpad_buffer_idx st = None
          then do {
            (idx, free) \<leftarrow> unwrap (split_last (rb_free_buffer_idx st));
            ret (st\<lparr> rb_free_buffer_idx := free, rb_scratchpad_buffer_idx := Some idx \<rparr>)
          } else ret st);
        idx \<leftarrow> unwrap (rb_scratchpad_buffer_idx st);
        buffer \<leftarrow> arr_get (rb_buffers st) idx;
        ret (Some (priorities, buffer), st)
      })"

text \<open>What the caller writes into the slice that \<open>get_scratchpad\<close> returned.\<close>

definition rb_write_scratchpad :: "response_buffer \<Rightarrow> u8 list \<Rightarrow> response_buffer exec" where
  "rb_write_scratchpad st bytes = do {
     idx \<leftarrow> unwrap (rb_scratchpad_buffer_idx st);
     buffers \<leftarrow> arr_set (rb_buffers st) idx bytes;
     ret (st\<lparr> rb_buffers := buffers \<rparr>)
   }"

definition rb_try_push ::
  "response_buffer \<Rightarrow> transfer_meta \<Rightarrow> nat \<Rightarrow> transfer_crc \<Rightarrow>
    ((buffer_error + unit) \<times> response_buffer) exec" where
  "rb_try_push st meta len crc = (case tm_address meta of
     None \<Rightarrow> ret (Inl ServiceAddressNotSpecified, st)
   | Some address \<Rightarrow>
       if \<not> ps_contains (rb_push_readiness st) (tm_priority meta) then ret (Inl PriorityNotReady, st)
       else (case rb_scratchpad_buffer_idx st of
           None \<Rightarrow> ret (Inl ScratchpadNotInitialized, st)
         | Some buffer_idx \<Rightarrow> do {
             let st = st\<lparr> rb_scratchpad_buffer_idx := None \<rparr>;
             buffer \<leftarrow> arr_get (rb_buffers st) buffer_idx;
             let entry = \<lparr> re_address = address,
               re_scatter = sc_new (tm_transfer_id meta) buffer len crc,
               re_deadline = tm_timestamp meta, re_loop_back = tm_loop_back meta,
               re_buffer_idx = buffer_idx \<rparr>;
             (prev, transfers) \<leftarrow> pm_insert (rb_transfers st) (tm_priority meta) entry;
             assert_that (prev = None);
             ret (Inr (), st\<lparr> rb_transfers := transfers \<rparr>)
           }))"

section \<open>The state\<close>

definition rb_item :: "u8 list list \<Rightarrow> response_entry \<Rightarrow> tx_item" where
  "rb_item buffers e = \<lparr> ti_address = Some (re_address e), ti_scatter = re_scatter e,
     ti_bytes = buffers ! re_buffer_idx e, ti_deadline = re_deadline e,
     ti_loop_back = re_loop_back e \<rparr>"

definition rb_contents :: "u8 list list \<Rightarrow> (priority \<rightharpoonup> response_entry) \<Rightarrow> tx_contents" where
  "rb_contents buffers f p = map (rb_item buffers) (list_of (f p))"

text \<open>Eight buffers: no two of the transfers, the scratchpad and the free list share one.\<close>

definition rb_owners :: "response_buffer \<Rightarrow> (priority \<rightharpoonup> response_entry) \<Rightarrow> bool" where
  "rb_owners st f \<longleftrightarrow>
     (\<forall>p e. f p = Some e \<longrightarrow> re_buffer_idx e < 8 \<and> re_buffer_idx e \<notin> set (rb_free_buffer_idx st) \<and>
       rb_scratchpad_buffer_idx st \<noteq> Some (re_buffer_idx e)) \<and>
     (\<forall>p r e e'. f p = Some e \<longrightarrow> f r = Some e' \<longrightarrow> re_buffer_idx e = re_buffer_idx e' \<longrightarrow> p = r) \<and>
     distinct (rb_free_buffer_idx st) \<and> (\<forall>i \<in> set (rb_free_buffer_idx st). i < 8) \<and>
     (\<forall>i. rb_scratchpad_buffer_idx st = Some i \<longrightarrow> i < 8 \<and> i \<notin> set (rb_free_buffer_idx st)) \<and>
     card (dom f) + length (rb_free_buffer_idx st) + length (list_of (rb_scratchpad_buffer_idx st)) = 8"

definition rb_rep ::
  "service_id \<Rightarrow> nat \<Rightarrow> response_buffer \<Rightarrow> tx_contents \<Rightarrow> u8 list option \<Rightarrow> bool" where
  "rb_rep s B st A pad \<longleftrightarrow> (\<exists>f. rb_service st = s \<and> length (rb_buffers st) = 8 \<and>
     (\<forall>b \<in> set (rb_buffers st). length b = B) \<and> pm_rep (rb_transfers st) f \<and> rb_owners st f \<and>
     A = rb_contents (rb_buffers st) f \<and>
     pad = map_option ((!) (rb_buffers st)) (rb_scratchpad_buffer_idx st) \<and>
     (\<forall>p e. f p = Some e \<longrightarrow> tx_item_wf (rb_item (rb_buffers st) e)))"

definition resp_address :: "transfer_meta \<Rightarrow> buffer_error + node_id option" where
  "resp_address meta = (case tm_address meta of
     None \<Rightarrow> Inl ServiceAddressNotSpecified | Some a \<Rightarrow> Inr (Some a))"

lemma rb_count [simp]: "rb_BUFFER_COUNT = 8"
  by (simp add: rb_BUFFER_COUNT_def priority_MAX_def)

lemma rb_repE:
  assumes "rb_rep s B st A pad"
  obtains f where "rb_service st = s" "length (rb_buffers st) = 8"
    "\<forall>b \<in> set (rb_buffers st). length b = B" "pm_rep (rb_transfers st) f" "rb_owners st f"
    "A = rb_contents (rb_buffers st) f"
    "pad = map_option ((!) (rb_buffers st)) (rb_scratchpad_buffer_idx st)"
    "\<forall>p e. f p = Some e \<longrightarrow> tx_item_wf (rb_item (rb_buffers st) e)"
  using assms unfolding rb_rep_def by fast

lemma rb_ownersD:
  assumes "rb_owners st f"
  shows "\<And>p e. f p = Some e \<Longrightarrow> re_buffer_idx e < 8 \<and> re_buffer_idx e \<notin> set (rb_free_buffer_idx st) \<and>
      rb_scratchpad_buffer_idx st \<noteq> Some (re_buffer_idx e)"
    "\<And>p r e e'. f p = Some e \<Longrightarrow> f r = Some e' \<Longrightarrow> re_buffer_idx e = re_buffer_idx e' \<Longrightarrow> p = r"
    "distinct (rb_free_buffer_idx st)" "\<And>i. i \<in> set (rb_free_buffer_idx st) \<Longrightarrow> i < 8"
    "\<And>i. rb_scratchpad_buffer_idx st = Some i \<Longrightarrow> i < 8 \<and> i \<notin> set (rb_free_buffer_idx st)"
    "card (dom f) + length (rb_free_buffer_idx st) + length (list_of (rb_scratchpad_buffer_idx st)) = 8"
  using assms unfolding rb_owners_def by fast+

lemma finite_dom_priority [simp]: "finite (dom (f :: priority \<rightharpoonup> 'a))"
  using finite_set [of all_priorities] by (rule rev_finite_subset) auto

lemma card_dom_priority: "f p = None \<Longrightarrow> card (dom (f :: priority \<rightharpoonup> 'a)) < 8"
proof -
  assume "f p = None"
  then have "p \<notin> dom f" "p \<in> set all_priorities" by auto
  moreover have "dom f \<subseteq> set all_priorities" using all_priorities(1) by blast
  ultimately have "dom f \<subset> set all_priorities" by blast
  then have "card (dom f) < card (set all_priorities)" by (intro psubset_card_mono) simp_all
  then show ?thesis by (simp add: all_priorities_def)
qed

lemma rb_contents_upd [simp]:
  "rb_contents bs (f(p \<mapsto> e)) = (rb_contents bs f)(p := [rb_item bs e])"
  "rb_contents bs (f(p := None)) = (rb_contents bs f)(p := [])"
  by (simp_all add: rb_contents_def fun_eq_iff)

lemma rb_new_rep:
  assumes "length buffers = 8" "\<forall>b \<in> set buffers. length b = B"
  shows "\<exists>st. rb_new s buffers = Some st \<and> rb_rep s B st (\<lambda>p. []) None"
proof -
  let ?st = "\<lparr> rb_service = s, rb_buffers = buffers, rb_scratchpad_buffer_idx = None,
    rb_free_buffer_idx = [0..<8], rb_transfers = pm_new, rb_non_full_trigger = pt_new,
    rb_empty_trigger = [] \<rparr>"
  have "rb_owners ?st (\<lambda>p. None)" by (simp add: rb_owners_def)
  moreover have "rb_contents buffers (\<lambda>p. None) = (\<lambda>p. [])" by (simp add: rb_contents_def fun_eq_iff)
  ultimately have "rb_rep s B ?st (\<lambda>p. []) None"
    unfolding rb_rep_def using assms pm_new_rep by (intro exI [of _ "\<lambda>p. None"]) simp
  then show ?thesis using assms(1) by (simp add: rb_new_def)
qed

lemma rb_buffer_in:
  assumes "length (rb_buffers st) = 8" "\<forall>b \<in> set (rb_buffers st). length b = B" "i < 8"
  shows "i < length (rb_buffers st)" "length (rb_buffers st ! i) = B"
  using assms(1,3) assms(2) [rule_format, OF nth_mem, of i] by simp_all

lemma rb_rep_empty_trigger [simp]:
  "rb_rep s B (st\<lparr> rb_empty_trigger := w \<rparr>) = rb_rep s B st"
  by (simp add: rb_rep_def rb_owners_def fun_eq_iff)

lemma rb_rep_non_full_trigger [simp]:
  "rb_rep s B (st\<lparr> rb_non_full_trigger := w \<rparr>) = rb_rep s B st"
  by (simp add: rb_rep_def rb_owners_def fun_eq_iff)

section \<open>The operations\<close>

lemma rb_ready_rep:
  assumes "pm_rep (rb_transfers st) f"
  shows "ps_contains (pm_keys (rb_transfers st)) p \<longleftrightarrow> f p \<noteq> None"
    "ps_contains (rb_push_readiness st) p \<longleftrightarrow> f p = None"
  using assms by (simp_all add: pm_rep_def pm_keys_def rb_push_readiness_def)

lemma rb_contents_iff [simp]: "rb_contents bs f p = [] \<longleftrightarrow> f p = None"
  by (cases "f p") (simp_all add: rb_contents_def)

text \<open>The last frame of a transfer frees its buffer.\<close>

lemma rb_owners_free:
  assumes "rb_owners st f" "f p = Some e"
    "rb_scratchpad_buffer_idx st' = rb_scratchpad_buffer_idx st"
    "rb_free_buffer_idx st' = rb_free_buffer_idx st @ [re_buffer_idx e]"
  shows "rb_owners st' (f(p := None))"
proof -
  note o = rb_ownersD [OF assms(1)]
  have card: "card (dom f) = card (dom (f(p := None))) + 1"
    using assms(2) card_Suc_Diff1 [of "dom f" p] by (simp add: domI)
  show "rb_owners st' (f(p := None))"
    unfolding rb_owners_def assms(3,4)
  proof (intro conjI allI impI)
    fix r e' assume r: "(f(p := None)) r = Some e'"
    then have e': "f r = Some e'" "r \<noteq> p" by (auto split: if_splits)
    have "re_buffer_idx e' \<noteq> re_buffer_idx e" using o(2) [OF e'(1) assms(2)] e'(2) by blast
    then show "re_buffer_idx e' \<notin> set (rb_free_buffer_idx st @ [re_buffer_idx e])"
      using o(1) [OF e'(1)] by simp
    show "re_buffer_idx e' < 8" "rb_scratchpad_buffer_idx st \<noteq> Some (re_buffer_idx e')"
      using o(1) [OF e'(1)] by simp_all
  next
    fix a b x y assume "(f(p := None)) a = Some x" "(f(p := None)) b = Some y"
      "re_buffer_idx x = re_buffer_idx y"
    then show "a = b" using o(2) [of a x b y] by (auto split: if_splits)
  next
    show "distinct (rb_free_buffer_idx st @ [re_buffer_idx e])" using o(3) o(1) [OF assms(2)] by simp
    show "\<forall>i \<in> set (rb_free_buffer_idx st @ [re_buffer_idx e]). i < 8"
      using o(4) o(1) [OF assms(2)] by auto
    show "card (dom (f(p := None))) + length (rb_free_buffer_idx st @ [re_buffer_idx e]) +
        length (list_of (rb_scratchpad_buffer_idx st)) = 8" using o(6) card by simp
  next
    fix i assume "rb_scratchpad_buffer_idx st = Some i"
    then show "i < 8" "i \<notin> set (rb_free_buffer_idx st @ [re_buffer_idx e])"
      using o(5) o(1) [OF assms(2)] by auto
  qed
qed

lemma rb_free_room:
  assumes "rb_owners st f" "f p = Some e"
  shows "length (rb_free_buffer_idx st) < 8"
proof -
  have "p \<in> dom f" using assms(2) by auto
  then have "0 < card (dom f)" by (auto simp: card_gt_0_iff)
  then show ?thesis using rb_ownersD(6) [OF assms(1)] by simp
qed

text \<open>Writing back an entry with the same buffer keeps the owners.\<close>

lemma rb_owners_same:
  assumes "rb_owners st f" "f p = Some e" "re_buffer_idx e' = re_buffer_idx e"
    "rb_scratchpad_buffer_idx st' = rb_scratchpad_buffer_idx st"
    "rb_free_buffer_idx st' = rb_free_buffer_idx st"
  shows "rb_owners st' (f(p \<mapsto> e'))"
proof -
  note o = rb_ownersD [OF assms(1)]
  have dom: "dom (f(p \<mapsto> e')) = dom f" using assms(2) by auto
  show ?thesis
    unfolding rb_owners_def assms(4,5) dom
  proof (intro conjI allI impI)
    fix r x assume "(f(p \<mapsto> e')) r = Some x"
    then obtain y where y: "f r = Some y" "re_buffer_idx x = re_buffer_idx y"
      using assms(2,3) by (auto split: if_splits)
    show "re_buffer_idx x < 8" "re_buffer_idx x \<notin> set (rb_free_buffer_idx st)"
      "rb_scratchpad_buffer_idx st \<noteq> Some (re_buffer_idx x)" using o(1) [OF y(1)] y(2) by simp_all
  next
    fix a b x y assume eq: "(f(p \<mapsto> e')) a = Some x" "(f(p \<mapsto> e')) b = Some y"
      "re_buffer_idx x = re_buffer_idx y"
    obtain x' where "f a = Some x'" "re_buffer_idx x' = re_buffer_idx x"
      using eq(1) assms(2,3) by (auto split: if_splits)
    moreover obtain y' where "f b = Some y'" "re_buffer_idx y' = re_buffer_idx y"
      using eq(2) assms(2,3) by (auto split: if_splits)
    ultimately show "a = b" using o(2) eq(3) by simp
  qed (use o in auto)
qed

lemma rb_try_pop_rep:
  assumes "rb_rep s B st A pad"
  shows "\<exists>fr st' A'. rb_try_pop st pm m = Some (fr, st') \<and> rb_rep s B st' A' pad \<and>
    tx_popped (Response s) A pm m fr A'"
proof -
  obtain f where r: "rb_service st = s" "length (rb_buffers st) = 8"
    "\<forall>b \<in> set (rb_buffers st). length b = B" "pm_rep (rb_transfers st) f" "rb_owners st f"
    "A = rb_contents (rb_buffers st) f"
    "pad = map_option ((!) (rb_buffers st)) (rb_scratchpad_buffer_idx st)"
    "\<forall>p e. f p = Some e \<longrightarrow> tx_item_wf (rb_item (rb_buffers st) e)"
    by (rule rb_repE [OF assms])
  have adm: "ps_contains (ps_and (pm_keys (rb_transfers st)) pm) p \<longleftrightarrow> admitted (A p) pm p" for p
    using rb_ready_rep(1) [OF r(4), of p] by (simp add: admitted_def r(6))
  show ?thesis
  proof (cases "ps_first (ps_and (pm_keys (rb_transfers st)) pm)")
    case None
    then have "rb_try_pop st pm m = Some (None, st)" by (simp add: rb_try_pop_def)
    moreover have "tx_popped (Response s) A pm m None A"
      using None unfolding ps_first_None ps_is_empty_iff adm tx_popped_def by simp
    ultimately show ?thesis using assms by blast
  next
    case (Some p)
    then have p: "admitted (A p) pm p" "\<And>q. admitted (A q) pm q \<Longrightarrow> p \<le> q"
      unfolding ps_first_iff adm by blast+
    then obtain e where e: "f p = Some e" by (auto simp: admitted_def r(6))
    let ?i = "rb_item (rb_buffers st) e"
    have Ap: "A p = [?i]" using e by (simp add: r(6) rb_contents_def)
    have i: "ti_scatter ?i = re_scatter e" "ti_bytes ?i = rb_buffers st ! re_buffer_idx e"
      by (simp_all add: rb_item_def)
    obtain d sc where d: "sc_fetch_frame_data (re_scatter e) (rb_buffers st ! re_buffer_idx e) m = Some (Some d, sc)"
      "data_wf d" "\<forall>j \<in> set (tx_advance ?i sc). tx_item_wf j" "sc_offset sc \<noteq> 0"
      by (rule tx_item_fetch [OF r(8) [rule_format, OF e], of m, unfolded i])
    have idx: "re_buffer_idx e < length (rb_buffers st)" using rb_ownersD(1) [OF r(5) e] r(2) by simp
    let ?e = "e\<lparr> re_scatter := sc \<rparr>"
    obtain t1 where t1: "pm_index_mut (rb_transfers st) p ?e = Some t1" "pm_rep t1 (f(p \<mapsto> ?e))"
      using pm_index_mut_rep [OF r(4), of p ?e] e by auto
    obtain t2 where t2: "pm_remove t1 p = Some (Some ?e, t2)" "pm_rep t2 (f(p := None))"
      using pm_remove_rep [OF t1(2), of p] by auto
    let ?free = "rb_free_buffer_idx st @ [re_buffer_idx e]"
    let ?wake = "pt_wake (rb_non_full_trigger st) (ps_new_eq p)"
    let ?st2 = "if sc_is_exhausted sc
      then st\<lparr> rb_transfers := t2, rb_free_buffer_idx := ?free, rb_non_full_trigger := ?wake \<rparr>
      else st\<lparr> rb_transfers := t1 \<rparr>"
    let ?st3 = "if pm_is_empty (rb_transfers ?st2)
      then ?st2\<lparr> rb_empty_trigger := wk_wake (rb_empty_trigger ?st2) \<rparr> else ?st2"
    let ?A = "A(p := tx_advance ?i sc @ tl (A p))"
    have "length (rb_free_buffer_idx st) < 8" by (rule rb_free_room [OF r(5) e])
    then have "rb_try_pop st pm m = Some (Some (tx_frame (Response s) p ?i d), ?st3)"
      using Some e idx d(1) t1(1) t2(1) r(1)
      by (simp add: rb_try_pop_def Let_def pm_index_rep [OF r(4)] tx_frame_def rb_item_def)
    moreover have "rb_rep s B ?st2 ?A pad"
    proof (cases "sc_is_exhausted sc")
      case True
      have "rb_owners ?st2 (f(p := None))" by (rule rb_owners_free [OF r(5) e]) (simp_all add: True)
      moreover have "?A = rb_contents (rb_buffers st) (f(p := None))"
        using True Ap by (simp add: r(6) tx_advance_def)
      moreover have "\<forall>q x. (f(p := None)) q = Some x \<longrightarrow> tx_item_wf (rb_item (rb_buffers st) x)"
        using r(8) by simp
      ultimately show ?thesis unfolding rb_rep_def using r(1-3,7) t2(2) True
        by (intro exI [of _ "f(p := None)"]) simp
    next
      case False
      have "rb_owners ?st2 (f(p \<mapsto> ?e))" by (rule rb_owners_same [OF r(5) e]) (simp_all add: False)
      moreover have "?A = rb_contents (rb_buffers st) (f(p \<mapsto> ?e))"
        using False Ap by (simp add: r(6) tx_advance_def rb_item_def)
      moreover have "tx_item_wf (rb_item (rb_buffers st) ?e)"
        using d(3) False by (simp add: tx_advance_def rb_item_def)
      then have "\<forall>q x. (f(p \<mapsto> ?e)) q = Some x \<longrightarrow> tx_item_wf (rb_item (rb_buffers st) x)"
        using r(8) by simp
      ultimately show ?thesis unfolding rb_rep_def using r(1-3,7) t1(2) False
        by (intro exI [of _ "f(p \<mapsto> ?e)"]) simp
    qed
    then have "rb_rep s B ?st3 ?A pad" by simp
    moreover have "tx_popped (Response s) A pm m (Some (tx_frame (Response s) p ?i d)) ?A"
      unfolding tx_popped_def option.case using p Ap d(1) i
      by (intro exI [of _ p] exI [of _ d] exI [of _ sc]) simp
    ultimately show ?thesis by blast
  qed
qed

lemma rb_get_scratchpad_rep:
  assumes "rb_rep s B st A pad"
  shows "\<exists>r st'. rb_get_scratchpad st = Some (r, st') \<and> (case r of
      None \<Rightarrow> ps_is_empty (rb_push_readiness st) \<and> rb_rep s B st' A pad
    | Some (ps, b) \<Rightarrow> ps = rb_push_readiness st \<and> rb_push_readiness st' = ps \<and> length b = B \<and>
        (\<exists>A'. A' = A \<and> rb_rep s B st' A' (Some b)))"
proof (cases "ps_is_empty (rb_push_readiness st)")
  case True
  then show ?thesis using assms by (simp add: rb_get_scratchpad_def)
next
  case ready: False
  obtain f where r: "rb_service st = s" "length (rb_buffers st) = 8"
    "\<forall>b \<in> set (rb_buffers st). length b = B" "pm_rep (rb_transfers st) f" "rb_owners st f"
    "A = rb_contents (rb_buffers st) f"
    "pad = map_option ((!) (rb_buffers st)) (rb_scratchpad_buffer_idx st)"
    "\<forall>p e. f p = Some e \<longrightarrow> tx_item_wf (rb_item (rb_buffers st) e)"
    by (rule rb_repE [OF assms])
  note o = rb_ownersD [OF r(5)]
  have give: ?thesis
    if i: "i < 8" and st': "rb_rep s B st' A (Some (rb_buffers st ! i))"
      "rb_buffers st' = rb_buffers st" "rb_push_readiness st' = rb_push_readiness st"
      and run: "rb_get_scratchpad st = (do {
        buffer \<leftarrow> arr_get (rb_buffers st') i;
        ret (Some (rb_push_readiness st, buffer), st') })" for i st'
  proof -
    note bi = rb_buffer_in [OF r(2,3) i]
    have "rb_get_scratchpad st = Some (Some (rb_push_readiness st, rb_buffers st ! i), st')"
      using run st'(2) bi(1) by simp
    then show ?thesis using bi(2) st' by simp
  qed
  show ?thesis
  proof (cases "rb_scratchpad_buffer_idx st")
    case (Some i)
    have "i < 8" using o(5) [OF Some] by simp
    moreover have "rb_rep s B st A (Some (rb_buffers st ! i))" using assms r(7) Some by simp
    ultimately show ?thesis using ready Some by (intro give [of i st]) (simp_all add: rb_get_scratchpad_def)
  next
    case None
    obtain p where "f p = None"
      using ready rb_ready_rep(2) [OF r(4)] by (auto simp: ps_is_empty_iff)
    then have "rb_free_buffer_idx st \<noteq> []" using card_dom_priority [of f p] o(6) None by auto
    then obtain free i where free: "rb_free_buffer_idx st = free @ [i]"
      by (metis append_butlast_last_id)
    let ?st = "st\<lparr> rb_free_buffer_idx := free, rb_scratchpad_buffer_idx := Some i \<rparr>"
    have i: "i < 8" using o(4) [of i] free by simp
    have "rb_owners ?st f"
      unfolding rb_owners_def
    proof (intro conjI allI impI)
      fix q e assume e: "f q = Some e"
      show "re_buffer_idx e < 8" "re_buffer_idx e \<notin> set (rb_free_buffer_idx ?st)"
        "rb_scratchpad_buffer_idx ?st \<noteq> Some (re_buffer_idx e)"
        using o(1) [OF e] free by auto
    next
      fix a b x y assume "f a = Some x" "f b = Some y" "re_buffer_idx x = re_buffer_idx y"
      then show "a = b" by (rule o(2))
    next
      fix j assume "rb_scratchpad_buffer_idx ?st = Some j"
      then show "j < 8" "j \<notin> set (rb_free_buffer_idx ?st)" using i o(3) free by auto
    qed (use o(3,4,6) free None in auto)
    then have "rb_rep s B ?st A (Some (rb_buffers st ! i))"
      unfolding rb_rep_def using r by (intro exI [of _ f]) simp
    moreover have "rb_push_readiness ?st = rb_push_readiness st" by (simp add: rb_push_readiness_def)
    ultimately show ?thesis using i ready None free
      by (intro give [of i ?st]) (simp_all add: rb_get_scratchpad_def)
  qed
qed

lemma rb_write_scratchpad_rep:
  assumes "rb_rep s B st A (Some b)" "length b' = B"
  shows "\<exists>st'. rb_write_scratchpad st b' = Some st' \<and> rb_rep s B st' A (Some b') \<and>
    rb_push_readiness st' = rb_push_readiness st"
proof -
  obtain f where r: "rb_service st = s" "length (rb_buffers st) = 8"
    "\<forall>b \<in> set (rb_buffers st). length b = B" "pm_rep (rb_transfers st) f" "rb_owners st f"
    "A = rb_contents (rb_buffers st) f"
    "Some b = map_option ((!) (rb_buffers st)) (rb_scratchpad_buffer_idx st)"
    "\<forall>p e. f p = Some e \<longrightarrow> tx_item_wf (rb_item (rb_buffers st) e)"
    by (rule rb_repE [OF assms(1)])
  note o = rb_ownersD [OF r(5)]
  obtain i where i: "rb_scratchpad_buffer_idx st = Some i"
    using r(7) by (cases "rb_scratchpad_buffer_idx st") simp_all
  have lt: "i < length (rb_buffers st)" using o(5) [OF i] r(2) by simp
  let ?bs = "(rb_buffers st)[i := b']"
  let ?st = "st\<lparr> rb_buffers := ?bs \<rparr>"
  have item: "rb_item ?bs e = rb_item (rb_buffers st) e" if "f p = Some e" for p e
  proof -
    have "re_buffer_idx e \<noteq> i" using o(1) [OF that] i by auto
    then show ?thesis by (simp add: rb_item_def)
  qed
  have contents: "rb_contents ?bs f = rb_contents (rb_buffers st) f"
  proof (rule ext)
    fix p
    show "rb_contents ?bs f p = rb_contents (rb_buffers st) f p"
      using item [of p] by (cases "f p") (simp_all add: rb_contents_def)
  qed
  have "\<forall>x \<in> set ?bs. length x = B" by (rule buffers_write [OF r(3) assms(2)])
  moreover have "rb_owners ?st f" using r(5) by (simp add: rb_owners_def)
  moreover have "\<forall>p e. f p = Some e \<longrightarrow> tx_item_wf (rb_item ?bs e)" using item r(8) by simp
  ultimately have "rb_rep s B ?st A (Some b')"
    unfolding rb_rep_def using r(1,2,4,6) contents i lt by (intro exI [of _ f]) simp
  then show ?thesis using i lt by (simp add: rb_write_scratchpad_def rb_push_readiness_def)
qed

lemma rb_try_push_ok:
  assumes "rb_rep s B st A (Some b)" "len \<le> B" "tm_address meta = Some a"
    "ps_contains (rb_push_readiness st) (tm_priority meta)"
  shows "\<exists>st'. rb_try_push st meta len crc = Some (Inr (), st') \<and>
    rb_rep s B st' (append_item A (tm_priority meta) (tx_item_of meta (Some a) b len crc)) None"
proof -
  obtain f where r: "rb_service st = s" "length (rb_buffers st) = 8"
    "\<forall>b \<in> set (rb_buffers st). length b = B" "pm_rep (rb_transfers st) f" "rb_owners st f"
    "A = rb_contents (rb_buffers st) f"
    "Some b = map_option ((!) (rb_buffers st)) (rb_scratchpad_buffer_idx st)"
    "\<forall>p e. f p = Some e \<longrightarrow> tx_item_wf (rb_item (rb_buffers st) e)"
    by (rule rb_repE [OF assms(1)])
  note o = rb_ownersD [OF r(5)]
  obtain i where i: "rb_scratchpad_buffer_idx st = Some i" "b = rb_buffers st ! i"
    using r(7) by (cases "rb_scratchpad_buffer_idx st") simp_all
  have i8: "i < 8" using o(5) [OF i(1)] by simp
  note bi = rb_buffer_in [OF r(2,3) i8]
  let ?p = "tm_priority meta"
  let ?e = "\<lparr> re_address = a, re_scatter = sc_new (tm_transfer_id meta) b len crc,
    re_deadline = tm_timestamp meta, re_loop_back = tm_loop_back meta, re_buffer_idx = i \<rparr>"
  have new: "f ?p = None" using assms(4) rb_ready_rep(2) [OF r(4)] by simp
  obtain t where t: "pm_insert (rb_transfers st) ?p ?e = Some (None, t)" "pm_rep t (f(?p \<mapsto> ?e))"
    using pm_insert_rep [OF r(4), of ?p ?e] new by auto
  let ?st = "st\<lparr> rb_scratchpad_buffer_idx := None, rb_transfers := t \<rparr>"
  have run: "rb_try_push st meta len crc = Some (Inr (), ?st)"
    using assms(3,4) i bi(1) t(1) by (simp add: rb_try_push_def Let_def)
  have dom: "card (dom (f(?p \<mapsto> ?e))) = Suc (card (dom f))" using new by (simp add: domIff)
  have "rb_owners ?st (f(?p \<mapsto> ?e))"
    unfolding rb_owners_def
  proof (intro conjI allI impI)
    fix q x assume x: "(f(?p \<mapsto> ?e)) q = Some x"
    show "re_buffer_idx x < 8" "re_buffer_idx x \<notin> set (rb_free_buffer_idx ?st)"
      using x o(1) [of q x] o(5) [OF i(1)] by (auto split: if_splits)
  next
    fix q c x y assume eq: "(f(?p \<mapsto> ?e)) q = Some x" "(f(?p \<mapsto> ?e)) c = Some y"
      "re_buffer_idx x = re_buffer_idx y"
    have other: "re_buffer_idx z \<noteq> i" if "f u = Some z" for u z using o(1) [OF that] i(1) by auto
    show "q = c"
      using eq o(2) [of q x c y] other [of q x] other [of c y] by (auto split: if_splits)
  qed (use o(3,4,6) i(1) dom in auto)
  moreover have "len \<le> length b" using assms(2) bi(2) i(2) by simp
  then have wf: "tx_item_wf (tx_item_of meta (Some a) b len crc)" by (rule tx_item_of_wf)
  have item: "rb_item (rb_buffers st) ?e = tx_item_of meta (Some a) b len crc"
    using i(2) by (simp add: rb_item_def tx_item_of_def)
  have "\<forall>q x. (f(?p \<mapsto> ?e)) q = Some x \<longrightarrow> tx_item_wf (rb_item (rb_buffers st) x)"
    using r(8) wf item by simp
  moreover have "append_item A ?p (tx_item_of meta (Some a) b len crc) =
      rb_contents (rb_buffers st) (f(?p \<mapsto> ?e))"
  proof -
    have "A ?p = []" using new by (simp add: r(6))
    then have "append_item A ?p (tx_item_of meta (Some a) b len crc) =
        A(?p := [tx_item_of meta (Some a) b len crc])" by (simp add: append_item_def)
    then show ?thesis by (simp add: r(6) item)
  qed
  ultimately have "rb_rep s B ?st (append_item A ?p (tx_item_of meta (Some a) b len crc)) None"
    unfolding rb_rep_def using r(1-3) t(2) by (intro exI [of _ "f(?p \<mapsto> ?e)"]) simp
  with run show ?thesis by blast
qed

interpretation rb: tx_buffer "rb_rep s B" B "Response s" append_item "\<lambda>A A'. A' = A"
  resp_address rb_pop_readiness rb_try_pop rb_is_empty rb_poll_is_empty rb_push_readiness
  rb_poll_push_readiness rb_get_scratchpad rb_write_scratchpad rb_try_push for s B
proof
  fix st A pad
  assume rep: "rb_rep s B st A pad"
  then obtain f where r: "rb_service st = s" "length (rb_buffers st) = 8"
    "\<forall>b \<in> set (rb_buffers st). length b = B" "pm_rep (rb_transfers st) f" "rb_owners st f"
    "A = rb_contents (rb_buffers st) f"
    "pad = map_option ((!) (rb_buffers st)) (rb_scratchpad_buffer_idx st)"
    "\<forall>p e. f p = Some e \<longrightarrow> tx_item_wf (rb_item (rb_buffers st) e)"
    by (rule rb_repE)
  show "tx_item_wf i" if "i \<in> set (A p)" for i p
    using r(6,8) that by (cases "f p") (auto simp: rb_contents_def)
  show "ps_contains (rb_pop_readiness st) p \<longleftrightarrow> A p \<noteq> []" for p
    using rb_ready_rep(1) [OF r(4)] r(6) by (simp add: rb_pop_readiness_def)
  show "rb_is_empty st \<longleftrightarrow> (\<forall>p. A p = [])"
    using pm_is_empty_rep [OF r(4)] r(6) by (auto simp: rb_is_empty_def fun_eq_iff)
  show "\<exists>fr st' A'. rb_try_pop st pm m = Some (fr, st') \<and> rb_rep s B st' A' pad \<and>
      tx_popped (Response s) A pm m fr A'" for pm m by (rule rb_try_pop_rep [OF rep])
  show "rb_rep s B (snd (rb_poll_is_empty st)) A pad \<and>
      (fst (rb_poll_is_empty st) = Ready () \<longleftrightarrow> rb_is_empty st)"
    using rep by (simp add: rb_poll_is_empty_def)
  show "rb_rep s B (snd (rb_poll_push_readiness st pm)) A pad \<and>
      (fst (rb_poll_push_readiness st pm) = Pending \<longleftrightarrow>
        ps_is_empty (ps_and (rb_push_readiness st) pm))" for pm
    using rep by (simp add: rb_poll_push_readiness_def Let_def)
  show "\<exists>r st'. rb_get_scratchpad st = Some (r, st') \<and> (case r of
      None \<Rightarrow> ps_is_empty (rb_push_readiness st) \<and> rb_rep s B st' A pad
    | Some (ps, b) \<Rightarrow> ps = rb_push_readiness st \<and> rb_push_readiness st' = ps \<and> length b = B \<and>
        (\<exists>A'. A' = A \<and> rb_rep s B st' A' (Some b)))" by (rule rb_get_scratchpad_rep [OF rep])
  show "\<exists>r st'. rb_try_push st meta len crc = Some (r, st') \<and> (case (resp_address meta, pad) of
        (Inl e, _) \<Rightarrow> r = Inl e \<and> rb_rep s B st' A pad
      | (Inr a, None) \<Rightarrow> r \<in> {Inl PriorityNotReady, Inl ScratchpadNotInitialized} \<and> rb_rep s B st' A pad
      | (Inr a, Some b) \<Rightarrow>
          if ps_contains (rb_push_readiness st) (tm_priority meta)
          then r = Inr () \<and> rb_rep s B st'
            (append_item A (tm_priority meta) (tx_item_of meta a b len crc)) None
          else r = Inl PriorityNotReady \<and> rb_rep s B st' A pad)"
    if "len \<le> B" for meta len crc
  proof (cases "tm_address meta")
    case None
    then show ?thesis using rep by (simp add: rb_try_push_def resp_address_def)
  next
    case (Some a)
    show ?thesis
    proof (cases "ps_contains (rb_push_readiness st) (tm_priority meta) \<and> pad \<noteq> None")
      case True
      then obtain b where "pad = Some b" by auto
      then show ?thesis using rb_try_push_ok [of s B st A b len meta a crc] rep True that Some
        by (auto simp: resp_address_def)
    next
      case False
      then show ?thesis using rep r(7) Some
        by (auto simp: rb_try_push_def resp_address_def split: option.splits)
    qed
  qed
next
  fix st A b b'
  assume "rb_rep s B st A (Some b)" "length (b' :: u8 list) = B"
  then show "\<exists>st'. rb_write_scratchpad st b' = Some st' \<and> rb_rep s B st' A (Some b') \<and>
      rb_push_readiness st' = rb_push_readiness st" by (rule rb_write_scratchpad_rep)
qed

end
