(* ===== verification/Tx_Delivery.thy ===== *)
theory Tx_Delivery
  imports Tx_Response Transport
begin

text \<open>
  What the publishers and responders may rely on: a push of the endpoint into any of the three
  buffers comes out of the driver as frames that a receiver assembles into the payload. The
  lemmas are proved once for the contract of a transmit buffer.
\<close>

section \<open>From the endpoint to the receiver\<close>

text \<open>What the sender and the bus have to keep.\<close>

definition delivery_ok ::
  "(instant \<Rightarrow> duration \<Rightarrow> instant) \<Rightarrow> duration \<Rightarrow> gather \<Rightarrow> bus_event list \<Rightarrow> nat \<Rightarrow> transfer_id \<Rightarrow> bool" where
  "delivery_ok sadd timeout g evs B tid \<longleftrightarrow> transfer_id_wf tid \<and> B + 66 < 2 ^ 32 \<and>
     B div 7 + 2 \<le> length evs \<and> ga_accepts sadd timeout g tid (ev_time (hd evs)) \<and>
     (\<forall>ev \<in> set evs. ev_time ev \<le> sadd (ev_time (hd evs)) timeout)"

text \<open>The frames carry the header of the endpoint, and the receiver assembles the payload.\<close>

definition delivered ::
  "(instant \<Rightarrow> duration \<Rightarrow> instant) \<Rightarrow> duration \<Rightarrow> gather \<Rightarrow> u8 list \<Rightarrow> bus_event list \<Rightarrow>
    data_specifier \<Rightarrow> transfer_meta \<Rightarrow> u8 list \<Rightarrow> frame list \<Rightarrow> bool" where
  "delivered sadd timeout g rxbuf evs spec meta payload fs \<longleftrightarrow>
     (\<forall>f \<in> set fs. f_header f = \<lparr> h_priority = tm_priority meta, h_data_spec = spec,
         h_source = None, h_destination = tm_address meta \<rparr> \<and>
       f_timestamp f = tm_timestamp meta \<and> f_loop_back f = tm_loop_back meta) \<and>
     transfer_received sadd timeout g rxbuf evs (tm_transfer_id meta) payload (map f_data fs)"

lemma delivered_item:
  assumes "delivery_ok sadd timeout g evs B (tm_transfer_id meta)" "length b = B"
    "take (length bytes) b = bytes" "tm_address meta = a"
  obtains frames sc where
    "sc_fetch_all (sc_new (tm_transfer_id meta) b (length bytes) (crc_add_bytes crc_default bytes)) b
      (map fst evs) = Some (frames, sc)" "sc_is_exhausted sc"
    "delivered sadd timeout g rxbuf evs spec meta bytes (map (tx_frame spec (tm_priority meta)
      (tx_item_of meta a b (length bytes) (crc_add_bytes crc_default bytes))) frames)"
proof -
  let ?crc = "crc_add_bytes crc_default bytes"
  have len: "length bytes \<le> B" using assms(2) arg_cong [OF assms(3), of length] by simp
  have ready: "sc_ready (tm_transfer_id meta) b (length bytes) ?crc"
    using assms(1-3) len by (simp add: sc_ready_def delivery_ok_def)
  have "length bytes div 7 + 2 \<le> length evs"
    using assms(1) div_le_mono [OF len, of 7] by (simp add: delivery_ok_def)
  then obtain frames sc where r: "sc_fetch_all (sc_new (tm_transfer_id meta) b (length bytes) ?crc) b
      (map fst evs) = Some (frames, sc)" "sc_is_exhausted sc"
    "transfer_received sadd timeout g rxbuf evs (tm_transfer_id meta) bytes frames"
    using roundtrip [OF ready, of sadd timeout g evs rxbuf] assms(1,3) by (auto simp: delivery_ok_def)
  have "f_data \<circ> tx_frame spec p i = id" for p i by (simp add: tx_frame_def fun_eq_iff)
  then have "delivered sadd timeout g rxbuf evs spec meta bytes
      (map (tx_frame spec (tm_priority meta) (tx_item_of meta a b (length bytes) ?crc)) frames)"
    using r(3) assms(4) by (auto simp: delivered_def tx_frame_def tx_item_of_def)
  with r(1,2) show ?thesis by (rule that)
qed

text \<open>
  A state that serves the driver: a pop yields a well-formed frame of the most urgent admitted
  priority that is announced, and nothing exactly when none is; the buffer is empty exactly
  when nothing is announced.
\<close>

definition serving ::
  "data_specifier \<Rightarrow> ('s \<Rightarrow> priority_set) \<Rightarrow> ('s \<Rightarrow> bool) \<Rightarrow>
    ('s \<Rightarrow> priority_set \<Rightarrow> mtu \<Rightarrow> (frame option \<times> 's) exec) \<Rightarrow> 's \<Rightarrow> bool" where
  "serving spec ready is_empty pop s \<longleftrightarrow> (is_empty s \<longleftrightarrow> ps_is_empty (ready s)) \<and>
     (\<forall>pmask m. \<exists>fr s'. pop s pmask m = Some (fr, s') \<and>
      (case fr of
         None \<Rightarrow> ps_is_empty (ps_and (ready s) pmask)
       | Some f \<Rightarrow> ps_first (ps_and (ready s) pmask) = Some (h_priority (f_header f)) \<and>
           h_data_spec (f_header f) = spec \<and> data_wf (f_data f) \<and> data_deref (f_data f) \<noteq> [] \<and>
           length (data_deref (f_data f)) \<le> mtu_usize m))"

text \<open>Only the MTUs of its own frames matter for a transfer.\<close>

lemma sc_fetch_nothing: "sc_fetch_frame_data sc b m = Some (None, sc') \<Longrightarrow> sc' = sc"
  by (auto simp: sc_fetch_frame_data_def Let_def split: if_splits bind_splits prod.splits)

lemma sc_fetch_all_exact:
  "sc_fetch_all sc b ms = Some (frames, sc') \<Longrightarrow> sc_is_exhausted sc' \<Longrightarrow>
    length frames \<le> length ms \<and> sc_fetch_all sc b (take (length frames) ms) = Some (frames, sc')"
proof (induction ms arbitrary: sc frames)
  case (Cons m ms)
  then show ?case by (auto split: bind_splits option.splits dest: sc_fetch_nothing)
qed simp

context tx_buffer
begin

lemma reached:
  assumes "rep s A pad" "list_all (tx_op_wf B) ops" "for_each step ops s = Some s'"
  obtains A' pad' where "rep s' A' pad'"
  using run_ops [OF assms(1,2)] assms(3) by (metis option.inject)

text \<open>
  No interleaving of driver and task takes the buffer out of service.
\<close>

lemma serves:
  assumes "rep s A pad" "list_all (tx_op_wf B) ops"
  shows "\<exists>s'. for_each step ops s = Some s' \<and> serving spec ready is_empty pop s'"
proof -
  obtain s' A' pad' where s': "for_each step ops s = Some s'" "rep s' A' pad'"
    using run_ops [OF assms] by blast
  have empty: "is_empty s' \<longleftrightarrow> ps_is_empty (ready s')"
    using empty_rep [OF s'(2)] ready_rep [OF s'(2)] by (auto simp: ps_is_empty_iff)
  have adm: "admitted (A' p) pmask p \<longleftrightarrow> ps_contains (ps_and (ready s') pmask) p" for p pmask
    using ready_rep [OF s'(2), of p] by (auto simp: admitted_def)
  have "\<exists>fr s''. pop s' pmask m = Some (fr, s'') \<and> (case fr of
         None \<Rightarrow> ps_is_empty (ps_and (ready s') pmask)
       | Some f \<Rightarrow> ps_first (ps_and (ready s') pmask) = Some (h_priority (f_header f)) \<and>
           h_data_spec (f_header f) = spec \<and> data_wf (f_data f) \<and> data_deref (f_data f) \<noteq> [] \<and>
           length (data_deref (f_data f)) \<le> mtu_usize m)" for pmask m
  proof -
    obtain fr s'' A'' where p: "pop s' pmask m = Some (fr, s'')"
      "tx_popped spec A' pmask m fr A''" using pop_rep [OF s'(2)] by blast
    show ?thesis
    proof (cases fr)
      case None
      then show ?thesis using p adm by (auto simp: tx_popped_def ps_is_empty_iff)
    next
      case (Some f)
      then obtain q data sc where q: "admitted (A' q) pmask q" "\<forall>r. admitted (A' r) pmask r \<longrightarrow> q \<le> r"
        "sc_fetch_frame_data (ti_scatter (hd (A' q))) (ti_bytes (hd (A' q))) m = Some (Some data, sc)"
        "f = tx_frame spec q (hd (A' q)) data" using p(2) by (auto simp: tx_popped_def)
      have first: "ps_first (ps_and (ready s') pmask) = Some q"
        by (rule ps_first_eqI) (use q(1,2) adm in auto)
      have "hd (A' q) \<in> set (A' q)" using q(1) by (simp add: admitted_def)
      then have "tx_item_wf (hd (A' q))" by (rule items_wf [OF s'(2)])
      then have "data_wf data \<and> data_deref data \<noteq> [] \<and> length (data_deref data) \<le> mtu_usize m"
        using sc_fetch_ok [of "ti_scatter (hd (A' q))" "ti_bytes (hd (A' q))" m] q(3)
        by (auto simp: tx_item_wf_def)
      then show ?thesis using p(1) Some first q(4) by (auto simp: tx_frame_def)
    qed
  qed
  then show ?thesis unfolding serving_def using s'(1) empty by blast
qed

text \<open>
  A transfer pushed by the endpoint where nothing else is queued at its priority is delivered.
\<close>

lemma delivers:
  assumes "rep s A pad" "serializes ser size_bits B payload bytes" "address meta = Inr (tm_address meta)"
    "ps_contains (push_ready s) (tm_priority meta)"
    "\<And>A' i. claims A A' \<Longrightarrow> accept A' (tm_priority meta) i (tm_priority meta) = [i]"
    "delivery_ok sadd timeout g evs B (tm_transfer_id meta)"
  shows "\<exists>s1 s2 fs. ep_try_push scratchpad fill_pad push ser size_bits s meta payload = Some (Inr (), s1) \<and>
    fetch (ps_new_eq (tm_priority meta)) (map fst evs) s1 = Some (fs, s2) \<and>
    delivered sadd timeout g rxbuf evs spec meta bytes fs \<and>
    \<not> ps_contains (ready s2) (tm_priority meta)"
proof -
  let ?p = "tm_priority meta" and ?n = "length bytes"
  obtain s1 A' b where s1: "ep_try_push scratchpad fill_pad push ser size_bits s meta payload = Some (Inr (), s1)"
    "claims A A'" "take ?n b = bytes" "length b = B"
    "rep s1 (accept A' ?p (tx_item_of meta (tm_address meta) b ?n (crc_add_bytes crc_default bytes))) None"
    using endpoint_push [OF assms(1-4)] by blast
  let ?i = "tx_item_of meta (tm_address meta) b ?n (crc_add_bytes crc_default bytes)"
  obtain frames sc where f: "sc_fetch_all (sc_new (tm_transfer_id meta) b ?n (crc_add_bytes crc_default bytes)) b
      (map fst evs) = Some (frames, sc)" "sc_is_exhausted sc"
    "delivered sadd timeout g rxbuf evs spec meta bytes (map (tx_frame spec ?p ?i) frames)"
    by (rule delivered_item [OF assms(6) s1(4,3) refl])
  have "sc_fetch_all (ti_scatter ?i) (ti_bytes ?i) (map fst evs) = Some (frames, sc)"
    using f(1) by (simp add: tx_item_of_def)
  from fetch_item [OF s1(5) assms(5) [OF s1(2)] this f(2)] obtain s2 A2 where
    s2: "fetch (ps_new_eq ?p) (map fst evs) s1 = Some (map (tx_frame spec ?p ?i) frames, s2)"
    "rep s2 A2 None" "A2 ?p = []" by (metis fun_upd_same)
  then have "\<not> ps_contains (ready s2) ?p" using ready_rep by simp
  then show ?thesis using s1(1) s2(1) f(3) by blast
qed

text \<open>The driver pops a transfer while the task goes on: between two pops come any operations.\<close>

fun fetch_during :: "priority_set \<Rightarrow> (tx_op list \<times> mtu) list \<Rightarrow> 's \<Rightarrow> (frame list \<times> 's) exec" where
  "fetch_during pmask [] s = ret ([], s)"
| "fetch_during pmask ((ops, m) # rounds) s = do {
     s \<leftarrow> for_each step ops s;
     (fr, s) \<leftarrow> pop s pmask m;
     (case fr of
        None \<Rightarrow> ret ([], s)
      | Some f \<Rightarrow> do { (fs, s) \<leftarrow> fetch_during pmask rounds s; ret (f # fs, s) })
   }"

lemma fetch_during_started:
  assumes claims: "\<And>A A' i rest. claims A A' \<Longrightarrow> A p = i # rest \<Longrightarrow> started i \<Longrightarrow> \<exists>rest'. A' p = i # rest'"
    and accept: "\<And>A q x i rest. A p = i # rest \<Longrightarrow> started i \<Longrightarrow> \<exists>rest'. accept A q x p = i # rest'"
  shows "rep s A pad \<Longrightarrow> A p = item # items \<Longrightarrow> started item \<Longrightarrow>
    list_all (\<lambda>(ops, m). list_all (\<lambda>op. tx_op_wf B op \<and> \<not> tx_op_pops op) ops) rounds \<Longrightarrow>
    sc_fetch_all (ti_scatter item) (ti_bytes item) (map snd rounds) = Some (frames, sc) \<Longrightarrow>
    length frames = length rounds \<Longrightarrow>
    \<exists>s'. fetch_during (ps_new_eq p) rounds s = Some (map (tx_frame spec p item) frames, s')"
proof (induction rounds arbitrary: s A pad item items frames)
  case (Cons r rounds)
  obtain ops m where r: "r = (ops, m)" by (cases r)
  let ?H = "\<lambda>A :: tx_contents. \<exists>rest. A p = item # rest"
  have "\<exists>s' A' pad'. for_each step ops s = Some s' \<and> rep s' A' pad' \<and> ?H A'"
    by (rule run_keeps [where H = ?H, OF _ _ Cons.prems(1)])
      (use Cons.prems(2,3,4) r claims accept in auto)
  then obtain s1 A1 pad1 rest where s1: "for_each step ops s = Some s1" "rep s1 A1 pad1" "A1 p = item # rest"
    by blast
  obtain data sc1 s2 where s2: "sc_fetch_frame_data (ti_scatter item) (ti_bytes item) m = Some (Some data, sc1)"
    "pop s1 (ps_new_eq p) m = Some (Some (tx_frame spec p item data), s2)"
    "rep s2 (A1(p := tx_advance item sc1 @ rest)) pad1" using pop_one [OF s1(2,3)] by blast
  obtain frames' where f: "sc_fetch_all sc1 (ti_bytes item) (map snd rounds) = Some (frames', sc)"
    "frames = data # frames'" using Cons.prems(5) s2(1) r by (auto split: bind_splits)
  have "\<exists>s'. fetch_during (ps_new_eq p) rounds s2 = Some (map (tx_frame spec p item) frames', s')"
  proof (cases rounds)
    case Nil
    then show ?thesis using f(1) by simp
  next
    case (Cons r' rounds')
    have live: "\<not> sc_is_exhausted sc1"
    proof
      assume "sc_is_exhausted sc1"
      from sc_fetch_exhausted [OF this] have "frames' = []" using f(1) Cons by simp
      then show False using Cons.prems(6) f(2) Cons by simp
    qed
    let ?item = "item\<lparr> ti_scatter := sc1 \<rparr>"
    have "tx_item_wf item" by (rule items_wf [OF s1(2), of _ p]) (simp add: s1(3))
    then have started: "started ?item"
      using tx_item_fetch [of item m] s2(1) by (auto simp: started_def)
    have frame: "tx_frame spec p ?item = tx_frame spec p item" by (simp add: tx_frame_def fun_eq_iff)
    show ?thesis
      using Cons.IH [OF s2(3), of ?item "rest" frames'] started live f Cons.prems(4,6)
      by (simp add: tx_advance_def frame r)
  qed
  then show ?case using s1(1) s2(2) f(2) r by auto
qed simp

text \<open>Once its first frame is out, a transfer is delivered whatever the task does meanwhile.\<close>

lemma delivers_during:
  assumes "rep s A pad" "serializes ser size_bits B payload bytes" "address meta = Inr (tm_address meta)"
    "ps_contains (push_ready s) (tm_priority meta)"
    "\<And>A' i. claims A A' \<Longrightarrow> accept A' (tm_priority meta) i (tm_priority meta) = [i]"
    "delivery_ok sadd timeout g evs B (tm_transfer_id meta)"
    and claims: "\<And>A A' p i rest. claims A A' \<Longrightarrow> A p = i # rest \<Longrightarrow> started i \<Longrightarrow> \<exists>rest'. A' p = i # rest'"
    and accept: "\<And>A q x p i rest. A p = i # rest \<Longrightarrow> started i \<Longrightarrow> \<exists>rest'. accept A q x p = i # rest'"
    and rounds: "list_all (\<lambda>(ops, m). list_all (\<lambda>op. tx_op_wf B op \<and> \<not> tx_op_pops op) ops) rounds"
      "fst (hd rounds) = []" "map snd rounds = map fst evs"
  shows "\<exists>s1 n s2 fs. ep_try_push scratchpad fill_pad push ser size_bits s meta payload = Some (Inr (), s1) \<and>
    n \<le> length rounds \<and> fetch_during (ps_new_eq (tm_priority meta)) (take n rounds) s1 = Some (fs, s2) \<and>
    delivered sadd timeout g rxbuf evs spec meta bytes fs"
proof -
  let ?p = "tm_priority meta" and ?crc = "crc_add_bytes crc_default bytes"
  obtain s1 A' b where s1: "ep_try_push scratchpad fill_pad push ser size_bits s meta payload = Some (Inr (), s1)"
    "claims A A'" "take (length bytes) b = bytes" "length b = B"
    "rep s1 (accept A' ?p (tx_item_of meta (tm_address meta) b (length bytes) ?crc)) None"
    using endpoint_push [OF assms(1-4)] by blast
  let ?i = "tx_item_of meta (tm_address meta) b (length bytes) ?crc"
  obtain frames sc where f: "sc_fetch_all (ti_scatter ?i) (ti_bytes ?i) (map snd rounds) = Some (frames, sc)"
    "sc_is_exhausted sc" "delivered sadd timeout g rxbuf evs spec meta bytes (map (tx_frame spec ?p ?i) frames)"
    using delivered_item [OF assms(6) s1(4,3) refl, of rxbuf spec] rounds(3)
    by (auto simp: tx_item_of_def)
  let ?n = "length frames"
  have n: "?n \<le> length rounds"
    "sc_fetch_all (ti_scatter ?i) (ti_bytes ?i) (map snd (take ?n rounds)) = Some (frames, sc)"
    using sc_fetch_all_exact [OF f(1,2)] by (simp_all add: take_map)
  have ne: "rounds \<noteq> []" using rounds(3) assms(6) by (auto simp: delivery_ok_def)
  then obtain m rs where r: "rounds = ([], m) # rs" using rounds(2) by (cases rounds) auto
  have wf: "tx_item_wf ?i" by (rule items_wf [OF s1(5), of _ ?p]) (simp add: assms(5) [OF s1(2)])
  have "?n \<noteq> 0" using f wf sc_fetch_ok [of "ti_scatter ?i" "ti_bytes ?i" m]
    by (auto simp: r tx_item_wf_def split: bind_splits)
  then obtain k where k: "?n = Suc k" by (cases ?n) auto
  obtain data sc1 s2 where s2: "sc_fetch_frame_data (ti_scatter ?i) (ti_bytes ?i) m = Some (Some data, sc1)"
    "pop s1 (ps_new_eq ?p) m = Some (Some (tx_frame spec ?p ?i data), s2)"
    "rep s2 ((accept A' ?p ?i)(?p := tx_advance ?i sc1)) None"
    using pop_one [OF s1(5) assms(5) [OF s1(2)], of m] unfolding append_Nil2 by blast
  obtain frames' where f': "sc_fetch_all sc1 (ti_bytes ?i) (map snd (take k rs)) = Some (frames', sc)"
    "frames = data # frames'" using n(2) s2(1) by (auto simp: r k split: bind_splits)
  have "\<exists>s'. fetch_during (ps_new_eq ?p) (take k rs) s2 = Some (map (tx_frame spec ?p ?i) frames', s')"
  proof (cases frames')
    case Nil
    then show ?thesis using k f'(2) by simp
  next
    case (Cons d ds)
    then have "take k rs \<noteq> []" using f'(1) by (cases "take k rs") auto
    have live: "\<not> sc_is_exhausted sc1"
    proof
      assume "sc_is_exhausted sc1"
      from sc_fetch_exhausted [OF this] show False
        using f'(1) Cons by (cases "map snd (take k rs)") auto
    qed
    let ?item = "?i\<lparr> ti_scatter := sc1 \<rparr>"
    have started: "started ?item" using tx_item_fetch [OF wf, of m] s2(1) by (auto simp: started_def)
    have frame: "tx_frame spec ?p ?item = tx_frame spec ?p ?i" by (simp add: tx_frame_def fun_eq_iff)
    have len: "length frames' = length (take k rs)" using k f'(2) n(1) r by simp
    have ok: "list_all (\<lambda>(ops, m). list_all (\<lambda>op. tx_op_wf B op \<and> \<not> tx_op_pops op) ops) (take k rs)"
      using rounds(1) r by (auto simp: list_all_iff dest: in_set_takeD)
    show ?thesis unfolding frame [symmetric]
      by (rule fetch_during_started [where items = "[]", OF _ _ s2(3) _ started ok _ len])
        (use claims accept live f'(1) in \<open>auto simp: tx_advance_def\<close>)
  qed
  then have "\<exists>s'. fetch_during (ps_new_eq ?p) (take ?n rounds) s1 = Some (map (tx_frame spec ?p ?i) frames, s')"
    using s2(2) f'(2) k by (auto simp: r)
  then show ?thesis using s1(1) n(1) f(3) by blast
qed

end

section \<open>Properties\<close>

text \<open>
  C25: No interleaving of driver and task makes a transmit buffer panic, whatever the task
  writes into the scratchpad and whatever it pushes: not the blocking message buffer, not the
  signal with its two buffers, not the response buffer with its eight. After every sequence of
  operations a pop yields a well-formed frame of the most urgent admitted priority announced,
  and nothing exactly when no admitted priority is announced.
\<close>

theorem tx_buffers_keep_serving:
  assumes "length buffer = B" "length pair = BUFFER_COUNT" "length eight = rb_BUFFER_COUNT"
    "\<forall>b \<in> set (pair @ eight). length b = B" "list_all (tx_op_wf B) ops"
  shows "(\<exists>st. for_each mb.step ops (mb_new subject q buffer) = Some st \<and>
      serving (Message subject) mb_pop_readiness mb_is_empty mb_try_pop st) \<and>
    (\<exists>st st'. sg_new subject q pair = Some st \<and> for_each sg.step ops st = Some st' \<and>
      serving (Message subject) sg_pop_readiness sg_is_empty sg_try_pop st') \<and>
    (\<exists>st st'. rb_new service eight = Some st \<and> for_each rb.step ops st = Some st' \<and>
      serving (Response service) rb_pop_readiness rb_is_empty rb_try_pop st')"
proof -
  obtain s1 where s1: "sg_new subject q pair = Some s1" "sg_rep subject q B s1 (\<lambda>p. []) None"
    using sg_new_rep [of pair B subject q] assms(2,4) by (auto simp: BUFFER_COUNT_def)
  obtain s2 where s2: "rb_new service eight = Some s2" "rb_rep service B s2 (\<lambda>p. []) None"
    using rb_new_rep [of eight B service] assms(3,4) by auto
  show ?thesis
    using mb.serves [OF mb_rep_new [OF assms(1)] assms(5), of subject q] s1(1)
      sg.serves [OF s1(2) assms(5)] s2(1) rb.serves [OF s2(2) assms(5)] by simp
qed

lemma tx_buffers_keep_serving_witness:
  "\<exists>st st'. rb_new (ServiceId 7) (replicate 8 [0, 0]) = Some st \<and>
     for_each rb.step [TxSerialize (map (\<lambda>b. b + 1)), TxPollEmpty] st = Some st' \<and>
     serving (Response (ServiceId 7)) rb_pop_readiness rb_is_empty rb_try_pop st'"
  using tx_buffers_keep_serving [of "[0, 0]" 2 "[[0, 0], [0, 0]]" "replicate 8 [0, 0]"
      "[TxSerialize (map (\<lambda>b. b + 1)), TxPollEmpty]" undefined Nominal "ServiceId 7"]
  by (simp add: BUFFER_COUNT_def)

text \<open>
  A message accepted by the blocking buffer is delivered. After any operations of driver and
  task, if the buffer announces that it takes the priority, a push of the endpoint is accepted,
  and the frames the driver then pops, with any MTUs and within the timeout, carry the header
  of the endpoint and make a receiver assemble the serialized payload. The buffer is ready
  for the next message.
\<close>

theorem blocking_message_delivered:
  assumes "length buffer = B" "list_all (tx_op_wf B) ops"
    "for_each mb.step ops (mb_new subject q buffer) = Some st"
    "serializes ser size_bits B payload bytes" "tm_address meta = None"
    "ps_contains (mb_push_readiness st) (tm_priority meta)"
    "delivery_ok sadd timeout g evs B (tm_transfer_id meta)"
  shows "\<exists>st1 st2 fs. ep_try_push mb_get_scratchpad mb_write_scratchpad mb_try_push ser size_bits
      st meta payload = Some (Inr (), st1) \<and>
    mb.fetch (ps_new_eq (tm_priority meta)) (map fst evs) st1 = Some (fs, st2) \<and>
    delivered sadd timeout g rxbuf evs (Message subject) meta bytes fs \<and>
    \<not> ps_contains (mb_pop_readiness st2) (tm_priority meta)"
proof -
  obtain A pad where rep: "mb_rep subject q B st A pad"
    by (rule mb.reached [OF mb_rep_new [OF assms(1)] assms(2,3)])
  have "A (tm_priority meta) = []"
    using rep assms(6) by (auto simp: mb_rep_def mb_items_def mb_push_readiness_def split: if_splits)
  then show ?thesis
    using mb.delivers [OF rep assms(4) _ assms(6) _ assms(7), of rxbuf] assms(5)
    by (simp add: msg_address_def append_item_def)
qed

text \<open>A serializer and a bus for the examples: the payload is its own encoding.\<close>

definition raw_ser :: "u8 list \<Rightarrow> u8 list \<Rightarrow> u8 list" where
  "raw_ser payload b = payload @ drop (length payload) b"

definition raw_bits :: "u8 list \<Rightarrow> nat" where
  "raw_bits payload = 8 * length payload"

lemma raw_serializes: "length payload \<le> B \<Longrightarrow> serializes raw_ser raw_bits B payload payload"
  by (simp add: serializes_def raw_ser_def raw_bits_def div_ceil_def)

definition sample_meta :: "node_id option \<Rightarrow> transfer_meta" where
  "sample_meta a = \<lparr> tm_priority = Nominal, tm_address = a, tm_transfer_id = TransferId 3,
     tm_timestamp = 10, tm_loop_back = False \<rparr>"

lemma sample_meta_simps [simp]:
  "tm_priority (sample_meta a) = Nominal" "tm_address (sample_meta a) = a"
  "tm_transfer_id (sample_meta a) = TransferId 3"
  by (simp_all add: sample_meta_def)

lemma sample_delivery_ok:
  "delivery_ok (+) 5 ga_default (replicate 3 (Classic, Nominal, 10)) 9 (TransferId 3)"
  by (simp add: delivery_ok_def ga_accepts_def transfer_id_wf_def transfer_id_MAX_VALUE_def ev_time_def
      word_le_nat_alt) (simp add: ga_default_def)

lemma blocking_message_delivered_witness:
  "\<exists>st1 st2 fs. ep_try_push mb_get_scratchpad mb_write_scratchpad mb_try_push raw_ser raw_bits
      (mb_new (SubjectId 7) Nominal (replicate 9 0)) (sample_meta None) [1, 2, 3, 4, 5, 6, 7, 8] =
      Some (Inr (), st1) \<and>
    mb.fetch (ps_new_eq Nominal) (replicate 3 Classic) st1 = Some (fs, st2) \<and>
    delivered (+) 5 ga_default [] (replicate 3 (Classic, Nominal, 10)) (Message (SubjectId 7))
      (sample_meta None) [1, 2, 3, 4, 5, 6, 7, 8] fs \<and>
    \<not> ps_contains (mb_pop_readiness st2) Nominal"
  using blocking_message_delivered [of "replicate 9 0" 9 "[]" "SubjectId 7" Nominal
      "mb_new (SubjectId 7) Nominal (replicate 9 0)" raw_ser raw_bits "[1, 2, 3, 4, 5, 6, 7, 8]"
      "[1, 2, 3, 4, 5, 6, 7, 8]" "sample_meta None" "(+)" 5 ga_default
      "replicate 3 (Classic, Nominal, 10)" "[]"]
    raw_serializes [of "[1, 2, 3, 4, 5, 6, 7, 8]" 9] sample_delivery_ok
  by (simp add: mb_push_readiness_def mb_new_def)

text \<open>
  C24: A response accepted at a priority is delivered to the node that asked, by the same steps
  as a message; responses of different priorities do not block each other.
\<close>

theorem response_delivered:
  assumes "length buffers = rb_BUFFER_COUNT" "\<forall>b \<in> set buffers. length b = B"
    "rb_new service buffers = Some st0" "list_all (tx_op_wf B) ops"
    "for_each rb.step ops st0 = Some st"
    "serializes ser size_bits B payload bytes" "tm_address meta = Some client"
    "ps_contains (rb_push_readiness st) (tm_priority meta)"
    "delivery_ok sadd timeout g evs B (tm_transfer_id meta)"
  shows "\<exists>st1 st2 fs. ep_try_push rb_get_scratchpad rb_write_scratchpad rb_try_push ser size_bits
      st meta payload = Some (Inr (), st1) \<and>
    rb.fetch (ps_new_eq (tm_priority meta)) (map fst evs) st1 = Some (fs, st2) \<and>
    delivered sadd timeout g rxbuf evs (Response service) meta bytes fs \<and>
    \<not> ps_contains (rb_pop_readiness st2) (tm_priority meta)"
proof -
  have new: "rb_rep service B st0 (\<lambda>p. []) None"
    using rb_new_rep [of buffers B service] assms(1-3) by simp
  obtain A pad where rep: "rb_rep service B st A pad" by (rule rb.reached [OF new assms(4,5)])
  have "A (tm_priority meta) = []"
    by (rule rb_repE [OF rep]) (use assms(8) rb_ready_rep(2) in auto)
  then show ?thesis
    using rb.delivers [OF rep assms(6) _ assms(8) _ assms(9), of rxbuf] assms(7)
    by (simp add: resp_address_def append_item_def)
qed

lemma response_delivered_witness:
  "\<exists>st0 st1 st2 fs. rb_new (ServiceId 7) (replicate 8 (replicate 9 0)) = Some st0 \<and>
    ep_try_push rb_get_scratchpad rb_write_scratchpad rb_try_push raw_ser raw_bits st0
      (sample_meta (Some (NodeId 5))) [1, 2, 3, 4, 5, 6, 7, 8] = Some (Inr (), st1) \<and>
    rb.fetch (ps_new_eq Nominal) (replicate 3 Classic) st1 = Some (fs, st2) \<and>
    delivered (+) 5 ga_default [] (replicate 3 (Classic, Nominal, 10)) (Response (ServiceId 7))
      (sample_meta (Some (NodeId 5))) [1, 2, 3, 4, 5, 6, 7, 8] fs"
proof -
  obtain st0 where st0: "rb_new (ServiceId 7) (replicate 8 (replicate 9 0)) = Some st0"
    "rb_transfers st0 = pm_new" by (auto simp: rb_new_def)
  have "ps_contains (rb_push_readiness st0) Nominal"
    using rb_ready_rep(2) [of st0 "\<lambda>p. None" Nominal] pm_new_rep by (simp add: st0(2))
  then show ?thesis
    using st0(1) response_delivered [of "replicate 8 (replicate 9 0)" 9 "ServiceId 7" st0 "[]" st0
        raw_ser raw_bits "[1, 2, 3, 4, 5, 6, 7, 8]" "[1, 2, 3, 4, 5, 6, 7, 8]"
        "sample_meta (Some (NodeId 5))" "NodeId 5" "(+)" 5 ga_default
        "replicate 3 (Classic, Nominal, 10)" "[]"]
      raw_serializes [of "[1, 2, 3, 4, 5, 6, 7, 8]" 9] sample_delivery_ok
    by auto
qed

text \<open>
  The priorities of the response buffer do not disturb each other. A push at one priority,
  accepted or refused, leaves the frames that any other priority delivers as they were.
\<close>

theorem response_priorities_independent:
  assumes "length buffers = rb_BUFFER_COUNT" "\<forall>b \<in> set buffers. length b = B"
    "rb_new service buffers = Some st0" "list_all (tx_op_wf B) ops"
    "for_each rb.step ops st0 = Some st" "len \<le> B"
    "rb_try_push st meta len crc = Some (res, st1)" "p \<noteq> tm_priority meta"
  shows "outputs (rb.fetch (ps_new_eq p) ms st1) = outputs (rb.fetch (ps_new_eq p) ms st)"
proof -
  have new: "rb_rep service B st0 (\<lambda>p. []) None"
    using rb_new_rep [of buffers B service] assms(1-3) by simp
  obtain A pad where rep: "rb_rep service B st A pad" by (rule rb.reached [OF new assms(4,5)])
  obtain A' pad' where "rb_rep service B st1 A' pad'" "A' p = A p"
    using rb.push_rep [OF rep assms(6), of meta crc] assms(7,8)
    by (auto simp: append_item_def split: sum.splits option.splits if_splits)
  then show ?thesis by (rule rb.fetch_determined [OF _ rep])
qed

lemma response_priorities_independent_witness:
  "\<exists>st0 r st1. rb_new (ServiceId 7) (replicate 8 [0, 0]) = Some st0 \<and>
    rb_try_push st0 (sample_meta None) 1 crc_default = Some (r, st1) \<and>
    outputs (rb.fetch (ps_new_eq Fast) [Classic] st1) = outputs (rb.fetch (ps_new_eq Fast) [Classic] st0)"
proof -
  obtain st0 where st0: "rb_new (ServiceId 7) (replicate 8 [0, 0]) = Some st0" by (auto simp: rb_new_def)
  obtain r st1 where r: "rb_try_push st0 (sample_meta None) 1 crc_default = Some (r, st1)"
    by (auto simp: rb_try_push_def)
  have "outputs (rb.fetch (ps_new_eq Fast) [Classic] st1) = outputs (rb.fetch (ps_new_eq Fast) [Classic] st0)"
    by (rule response_priorities_independent [OF _ _ st0 _ _ _ r, where B = 2 and ops = "[]"]) simp_all
  with st0 r show ?thesis by blast
qed

lemma may_drop_keeps_started:
  "may_drop_unsent A A' \<Longrightarrow> A p = i # rest \<Longrightarrow> started i \<Longrightarrow> \<exists>rest'. A' p = i # rest'"
  by (auto simp: may_drop_unsent_def)

lemma replace_keeps_started:
  "A p = i # rest \<Longrightarrow> started i \<Longrightarrow> \<exists>rest'. replace_item A r x p = i # rest'"
  by (auto simp: replace_item_def)

text \<open>
  C23: The signal delivers its newest message. When no transfer is partly sent - whether or not
  a complete one waits - a push of the endpoint is accepted and its frames are the only ones
  the driver pops. From the first frame on the transfer is finished whatever the task does
  between two frames: serialize into the scratchpad, push newer messages or fail to.
\<close>

theorem signal_message_delivered:
  assumes "length buffers = BUFFER_COUNT" "\<forall>b \<in> set buffers. length b = B"
    "sg_new subject q buffers = Some st0" "list_all (tx_op_wf B) ops"
    "for_each sg.step ops st0 = Some st" "sg_fragmented_transfer st = None"
    "serializes ser size_bits B payload bytes" "tm_address meta = None" "tm_priority meta = q"
    "delivery_ok sadd timeout g evs B (tm_transfer_id meta)"
    "list_all (\<lambda>(ops, m). list_all (\<lambda>op. tx_op_wf B op \<and> \<not> tx_op_pops op) ops) rounds"
    "fst (hd rounds) = []" "map snd rounds = map fst evs"
  shows "\<exists>st1 n st2 fs. ep_try_push sg_get_scratchpad sg_write_scratchpad sg_try_push ser size_bits
      st meta payload = Some (Inr (), st1) \<and>
    n \<le> length rounds \<and> sg.fetch_during (ps_new_eq q) (take n rounds) st1 = Some (fs, st2) \<and>
    delivered sadd timeout g rxbuf evs (Message subject) meta bytes fs"
proof -
  have new: "sg_rep subject q B st0 (\<lambda>p. []) None"
    using sg_new_rep [of buffers B subject q] assms(1-3) by (simp add: BUFFER_COUNT_def)
  obtain A pad where rep: "sg_rep subject q B st A pad" by (rule sg.reached [OF new assms(4,5)])
  note r = sg_repD [OF rep]
  have fresh: "\<not> started i" if "i \<in> set (A q)" for i
    using that r(11) assms(6) by (auto simp: r(7) sg_items_def list_of_def split: option.splits)
  have ready: "ps_contains (sg_push_readiness st) (tm_priority meta)"
    using assms(9) r(2) by (simp add: sg_push_readiness_def)
  have only: "replace_item A' q i q = [i]" if "may_drop_unsent A A'" for A' i
  proof -
    have "A' = A"
      using that fresh unfolding may_drop_unsent_def
      by (metis (no_types) r(7) list.discI list.set_intros(1) only_at_simps(2))
    then show ?thesis using fresh by (simp add: replace_item_def)
  qed
  have "msg_address meta = Inr (tm_address meta)" using assms(8) by (simp add: msg_address_def)
  note delivers = sg.delivers_during [OF rep assms(7) this ready _ assms(10) _ _ assms(11-13)]
  show ?thesis unfolding assms(9) [symmetric]
  proof (rule delivers)
    show "replace_item A' (tm_priority meta) i (tm_priority meta) = [i]" if "may_drop_unsent A A'" for A' i
      using only [OF that] by (simp add: assms(9))
  qed (fact may_drop_keeps_started, fact replace_keeps_started)
qed

lemma signal_message_delivered_witness:
  "\<exists>st0 st1 n st2 fs. sg_new (SubjectId 7) Nominal (replicate 2 (replicate 9 0)) = Some st0 \<and>
    ep_try_push sg_get_scratchpad sg_write_scratchpad sg_try_push raw_ser raw_bits st0
      (sample_meta None) [1, 2, 3, 4, 5, 6, 7, 8] = Some (Inr (), st1) \<and>
    n \<le> 3 \<and> sg.fetch_during (ps_new_eq Nominal) (take n [([], Classic),
      ([TxSerialize (\<lambda>b. b), TxPush (sample_meta None) 2 crc_default], Classic), ([], Classic)]) st1 = Some (fs, st2) \<and>
    delivered (+) 5 ga_default [] (replicate 3 (Classic, Nominal, 10)) (Message (SubjectId 7))
      (sample_meta None) [1, 2, 3, 4, 5, 6, 7, 8] fs"
proof -
  let ?rounds = "[([], Classic), ([TxSerialize (\<lambda>b. b), TxPush (sample_meta None) 2 crc_default], Classic),
    ([], Classic)]"
  obtain st0 where st0: "sg_new (SubjectId 7) Nominal (replicate 2 (replicate 9 0)) = Some st0"
    "sg_fragmented_transfer st0 = None" by (auto simp: sg_new_def BUFFER_COUNT_def)
  have "\<exists>st1 n st2 fs. ep_try_push sg_get_scratchpad sg_write_scratchpad sg_try_push raw_ser raw_bits st0
      (sample_meta None) [1, 2, 3, 4, 5, 6, 7, 8] = Some (Inr (), st1) \<and>
    n \<le> length ?rounds \<and> sg.fetch_during (ps_new_eq Nominal) (take n ?rounds) st1 = Some (fs, st2) \<and>
    delivered (+) 5 ga_default [] (replicate 3 (Classic, Nominal, 10)) (Message (SubjectId 7))
      (sample_meta None) [1, 2, 3, 4, 5, 6, 7, 8] fs"
    by (rule signal_message_delivered [OF _ _ st0(1) _ _ st0(2), where B = 9 and ops = "[]"])
      (use sample_delivery_ok in \<open>simp_all add: BUFFER_COUNT_def raw_serializes numeral_3_eq_3\<close>)
  then show ?thesis using st0(1) by (simp add: numeral_3_eq_3)
qed

text \<open>
  C26: A refused push can lose a message. With one message partly sent and another one complete
  and waiting, a push of the endpoint with a priority the buffer does not serve returns
  \<open>PriorityNotReady\<close>, and the waiting message is gone: the scratchpad took its buffer before
  the priority was compared.
\<close>

theorem signal_refused_push_drops_message:
  assumes "length buffers = BUFFER_COUNT" "\<forall>b \<in> set buffers. length b = B"
    "sg_new subject q buffers = Some st0" "list_all (tx_op_wf B) ops"
    "for_each sg.step ops st0 = Some st"
    "sg_fragmented_transfer st \<noteq> None" "sg_pending_transfer st \<noteq> None" "tm_priority meta \<noteq> q"
  shows "\<exists>st1. ep_try_push sg_get_scratchpad sg_write_scratchpad sg_try_push ser size_bits
      st meta payload = Some (Inl PriorityNotReady, st1) \<and>
    sg_pending_transfer st1 = None \<and> sg_fragmented_transfer st1 = sg_fragmented_transfer st"
proof -
  have new: "sg_rep subject q B st0 (\<lambda>p. []) None"
    using sg_new_rep [of buffers B subject q] assms(1-3) by (simp add: BUFFER_COUNT_def)
  obtain A pad where rep: "sg_rep subject q B st A pad" by (rule sg.reached [OF new assms(4,5)])
  obtain e i where e: "sg_fragmented_transfer st = Some e" "sg_pending_transfer st = Some i"
    using assms(6,7) by blast
  have "sg_scratchpad_buffer_idx st = None" "sg_free_buffer_indexes st = []"
    using sg_owned_length [OF rep] e by (auto simp: sg_owned_def list_of_def split: option.splits)
  moreover have "se_buffer_idx i < length (sg_buffers st)"
    by (rule sg_idx_in [OF rep]) (simp add: sg_owned_def e(2))
  ultimately show ?thesis
    using e assms(8) sg_repD(2) [OF rep]
    by (simp add: ep_try_push_def sg_get_scratchpad_def split_last_def)
qed

definition drop_ops :: "tx_op list" where
  "drop_ops = [TxSerialize (\<lambda>b. b), TxPush (sample_meta None) 9 (TransferCrc 0), TxPop ps_ALL Classic,
     TxSerialize (\<lambda>b. b), TxPush (sample_meta None) 1 (TransferCrc 0)]"

lemma drop_ops_run:
  "case for_each sg.step drop_ops (the (sg_new (SubjectId 7) Nominal (replicate 2 (replicate 9 0)))) of
     None \<Rightarrow> False
   | Some st \<Rightarrow> sg_fragmented_transfer st \<noteq> None \<and> sg_pending_transfer st \<noteq> None"
  unfolding drop_ops_def by ((simp only: for_each.simps sg.step.simps)?, code_simp)+

lemma signal_refused_push_drops_message_witness:
  "\<exists>st0 st st1. sg_new (SubjectId 7) Nominal (replicate 2 (replicate 9 0)) = Some st0 \<and>
    for_each sg.step drop_ops st0 = Some st \<and> sg_pending_transfer st \<noteq> None \<and>
    ep_try_push sg_get_scratchpad sg_write_scratchpad sg_try_push raw_ser raw_bits st
      ((sample_meta None)\<lparr> tm_priority := Fast \<rparr>) [1] = Some (Inl PriorityNotReady, st1) \<and>
    sg_pending_transfer st1 = None"
proof -
  obtain st0 where st0: "sg_new (SubjectId 7) Nominal (replicate 2 (replicate 9 0)) = Some st0"
    by (auto simp: sg_new_def BUFFER_COUNT_def)
  obtain st where st: "for_each sg.step drop_ops st0 = Some st" "sg_fragmented_transfer st \<noteq> None"
    "sg_pending_transfer st \<noteq> None" using drop_ops_run st0 by (auto split: option.splits)
  have "list_all (tx_op_wf 9) drop_ops" by (simp add: drop_ops_def)
  then show ?thesis
    using signal_refused_push_drops_message [OF _ _ st0 _ st, of 9 "(sample_meta None)\<lparr> tm_priority := Fast \<rparr>"
        raw_ser raw_bits "[1]"] st0 st(1,3) by (auto simp: BUFFER_COUNT_def)
qed

end
