(* ===== verification/Tx_Queue.thy ===== *)
theory Tx_Queue
  imports Intrusive Tx_Delivery
begin

text \<open>
  The queue of the transmitters, \<open>emcyphal/src/registry/tx_queue.rs\<close>: every endpoint that has
  frames waits in the queue of its most urgent priority. A transfer that was started goes on
  before another one of its priority starts, and the endpoints of a priority take turns.

  The endpoints own their entries; the map \<open>qs_entries\<close> is that memory. The buffers are behind
  \<open>dyn DynamicTxBuffer\<close>: their type, \<open>pop_readiness\<close> and \<open>try_pop\<close> are parameters.
\<close>

section \<open>Model\<close>

datatype queue_type = Started | Finished

type_synonym queue_id = "priority \<times> queue_type"

record 'b queue_entry =
  qe_queue_mark :: "queue_id option"
  qe_started :: priority_set
  qe_buffer :: 'b

definition qe_new :: "'b \<Rightarrow> 'b queue_entry" where
  "qe_new buffer = \<lparr> qe_queue_mark = None, qe_started = ps_NONE, qe_buffer = buffer \<rparr>"

text \<open>A \<open>PriorityArray<LinkedList<_>>\<close> is a list of entries for every priority.\<close>

record 'b queues =
  qs_entries :: "ptr \<rightharpoonup> 'b queue_entry"
  qs_started :: "priority \<Rightarrow> ptr list"
  qs_started_priorities :: priority_set
  qs_finished :: "priority \<Rightarrow> ptr list"
  qs_finished_priorities :: priority_set

record 'b tx_queue =
  xq_queues :: "'b queues"
  xq_non_empty_trigger :: priority_trigger

definition qs_default :: "'b queues" where
  "qs_default = \<lparr> qs_entries = (\<lambda>_. None), qs_started = (\<lambda>_. []), qs_started_priorities = ps_NONE,
     qs_finished = (\<lambda>_. []), qs_finished_priorities = ps_NONE \<rparr>"

definition xq_default :: "'b tx_queue" where
  "xq_default = \<lparr> xq_queues = qs_default, xq_non_empty_trigger = pt_new \<rparr>"

fun qs_get_queue :: "'b queues \<Rightarrow> queue_id \<Rightarrow> ptr list" where
  "qs_get_queue qs (priority, Started) = qs_started qs priority"
| "qs_get_queue qs (priority, Finished) = qs_finished qs priority"

text \<open>Writing through the reference that \<open>get_queue\<close> returns.\<close>

fun qs_set_queue :: "'b queues \<Rightarrow> queue_id \<Rightarrow> ptr list \<Rightarrow> 'b queues" where
  "qs_set_queue qs (priority, Started) xs = qs\<lparr> qs_started := (qs_started qs)(priority := xs) \<rparr>"
| "qs_set_queue qs (priority, Finished) xs = qs\<lparr> qs_finished := (qs_finished qs)(priority := xs) \<rparr>"

fun qs_set_empty_flag :: "'b queues \<Rightarrow> queue_id \<Rightarrow> 'b queues" where
  "qs_set_empty_flag qs (priority, Started) =
     qs\<lparr> qs_started_priorities := ps_remove (qs_started_priorities qs) priority \<rparr>"
| "qs_set_empty_flag qs (priority, Finished) =
     qs\<lparr> qs_finished_priorities := ps_remove (qs_finished_priorities qs) priority \<rparr>"

fun qs_clear_empty_flag :: "'b queues \<Rightarrow> queue_id \<Rightarrow> 'b queues" where
  "qs_clear_empty_flag qs (priority, Started) =
     qs\<lparr> qs_started_priorities := ps_insert (qs_started_priorities qs) priority \<rparr>"
| "qs_clear_empty_flag qs (priority, Finished) =
     qs\<lparr> qs_finished_priorities := ps_insert (qs_finished_priorities qs) priority \<rparr>"

definition qs_get_front :: "'b queues \<Rightarrow> queue_id \<Rightarrow> ptr option" where
  "qs_get_front qs qid = first_ptr (qs_get_queue qs qid)"

definition qs_element_queue_id :: "'b queues \<Rightarrow> ptr \<Rightarrow> queue_id option exec" where
  "qs_element_queue_id qs p = do { e \<leftarrow> qs_entries qs p; ret (qe_queue_mark e) }"

definition qs_dequeue :: "'b queues \<Rightarrow> ptr \<Rightarrow> 'b queues exec" where
  "qs_dequeue qs p = do {
     e \<leftarrow> qs_entries qs p;
     let qs = qs\<lparr> qs_entries := (qs_entries qs)(p \<mapsto> e\<lparr> qe_queue_mark := None \<rparr>) \<rparr>;
     (case qe_queue_mark e of
        None \<Rightarrow> ret qs
      | Some qid \<Rightarrow> do {
          (_, xs) \<leftarrow> remove_ptr p (qs_get_queue qs qid);
          let qs = qs_set_queue qs qid xs;
          ret (if xs = [] then qs_set_empty_flag qs qid else qs)
        })
   }"

text \<open>An element has one link; linking it twice panics.\<close>

definition qs_linked :: "'b queues \<Rightarrow> ptr \<Rightarrow> bool" where
  "qs_linked qs p \<longleftrightarrow>
     (\<exists>priority \<in> set all_priorities. p \<in> set (qs_started qs priority) \<union> set (qs_finished qs priority))"

definition qs_move_back :: "'b queues \<Rightarrow> queue_id \<Rightarrow> ptr \<Rightarrow> 'b queues exec" where
  "qs_move_back qs qid p = do {
     qs \<leftarrow> qs_dequeue qs p;
     e \<leftarrow> qs_entries qs p;
     let qs = qs\<lparr> qs_entries := (qs_entries qs)(p \<mapsto> e\<lparr> qe_queue_mark := Some qid \<rparr>) \<rparr>;
     assert_that (\<not> qs_linked qs p);
     ret (qs_clear_empty_flag (qs_set_queue qs qid (qs_get_queue qs qid @ [p])) qid)
   }"

definition xq_reg_update_queue_position ::
  "('b \<Rightarrow> priority_set) \<Rightarrow> 'b tx_queue \<Rightarrow> ptr \<Rightarrow> 'b tx_queue exec" where
  "xq_reg_update_queue_position pop_readiness xq p = do {
     e \<leftarrow> qs_entries (xq_queues xq) p;
     (case ps_first (pop_readiness (qe_buffer e)) of
        Some priority \<Rightarrow> do {
          let qid = (priority, if ps_contains (qe_started e) priority then Started else Finished);
          prev_queue_id \<leftarrow> qs_element_queue_id (xq_queues xq) p;
          (if prev_queue_id \<noteq> Some qid then do {
             qs \<leftarrow> qs_move_back (xq_queues xq) qid p;
             ret (xq\<lparr> xq_queues := qs,
               xq_non_empty_trigger := pt_wake (xq_non_empty_trigger xq) (ps_new_eq priority) \<rparr>)
           } else ret xq)
        }
      | None \<Rightarrow> do { qs \<leftarrow> qs_dequeue (xq_queues xq) p; ret (xq\<lparr> xq_queues := qs \<rparr>) })
   }"

definition xq_reg_register :: "('b \<Rightarrow> priority_set) \<Rightarrow> 'b tx_queue \<Rightarrow> ptr \<Rightarrow> 'b tx_queue exec" where
  "xq_reg_register pop_readiness xq p = xq_reg_update_queue_position pop_readiness xq p"

definition xq_reg_unregister :: "'b tx_queue \<Rightarrow> ptr \<Rightarrow> 'b tx_queue exec" where
  "xq_reg_unregister xq p = do { qs \<leftarrow> qs_dequeue (xq_queues xq) p; ret (xq\<lparr> xq_queues := qs \<rparr>) }"

definition xq_set_entry :: "'b tx_queue \<Rightarrow> ptr \<Rightarrow> 'b queue_entry option \<Rightarrow> 'b tx_queue" where
  "xq_set_entry xq p e =
     xq\<lparr> xq_queues := (xq_queues xq)\<lparr> qs_entries := (qs_entries (xq_queues xq))(p := e) \<rparr> \<rparr>"

definition xq_with_buffer_mut ::
  "'b tx_queue \<Rightarrow> ptr \<Rightarrow> ('b \<Rightarrow> ('r \<times> 'b) exec) \<Rightarrow> ('r \<times> 'b tx_queue) exec" where
  "xq_with_buffer_mut xq p f = do {
     e \<leftarrow> qs_entries (xq_queues xq) p;
     (res, buffer) \<leftarrow> f (qe_buffer e);
     ret (res, xq_set_entry xq p (Some (e\<lparr> qe_buffer := buffer \<rparr>)))
   }"

definition first_queue_id :: "priority_set \<Rightarrow> priority_set \<Rightarrow> queue_id option" where
  "first_queue_id started_set finished_set = (case ps_first (ps_or started_set finished_set) of
     Some priority \<Rightarrow> Some (priority, if ps_contains started_set priority then Started else Finished)
   | None \<Rightarrow> None)"

definition xq_hub_try_pop ::
  "('b \<Rightarrow> priority_set) \<Rightarrow> ('b \<Rightarrow> priority_set \<Rightarrow> mtu \<Rightarrow> (frame option \<times> 'b) exec) \<Rightarrow>
    'b tx_queue \<Rightarrow> priority_set \<Rightarrow> mtu \<Rightarrow> (frame option \<times> 'b tx_queue) exec" where
  "xq_hub_try_pop pop_readiness try_pop xq priority_mask mtu =
     (case first_queue_id (ps_and (qs_started_priorities (xq_queues xq)) priority_mask)
         (ps_and (qs_finished_priorities (xq_queues xq)) priority_mask) of
        None \<Rightarrow> ret (None, xq)
      | Some (priority, queue) \<Rightarrow> do {
          p \<leftarrow> unwrap (qs_get_front (xq_queues xq) (priority, queue));
          e \<leftarrow> qs_entries (xq_queues xq) p;
          (res, buffer) \<leftarrow> try_pop (qe_buffer e) (ps_new_eq priority) mtu;
          let e = e\<lparr> qe_buffer := buffer \<rparr>;
          xq \<leftarrow> (case res of
              None \<Rightarrow> ret (xq_set_entry xq p (Some e))
            | Some frame \<Rightarrow> do {
                assert_that (h_priority (f_header frame) = priority);
                assert_that (length (data_deref (f_data frame)) \<le> mtu_usize mtu);
                eot \<leftarrow> unwrap (is_eot_frame frame);
                let e = e\<lparr> qe_started := (if eot then ps_remove (qe_started e) priority
                    else ps_insert (qe_started e) priority) \<rparr>;
                let xq = xq_set_entry xq p (Some e);
                (if eot then do {
                   qs \<leftarrow> qs_dequeue (xq_queues xq) p;
                   ret (xq\<lparr> xq_queues := qs \<rparr>)
                 } else ret xq)
              });
          xq \<leftarrow> xq_reg_update_queue_position pop_readiness xq p;
          ret (res, xq)
        })"

definition xq_hub_poll_pop ::
  "('b \<Rightarrow> priority_set) \<Rightarrow> ('b \<Rightarrow> priority_set \<Rightarrow> mtu \<Rightarrow> (frame option \<times> 'b) exec) \<Rightarrow>
    'b tx_queue \<Rightarrow> priority_set \<Rightarrow> mtu \<Rightarrow> (frame poll \<times> 'b tx_queue) exec" where
  "xq_hub_poll_pop pop_readiness try_pop xq priority_mask mtu = do {
     (res, xq) \<leftarrow> xq_hub_try_pop pop_readiness try_pop xq priority_mask mtu;
     ret (case res of
        Some frame \<Rightarrow> (Ready frame, xq)
      | None \<Rightarrow> (Pending,
          xq\<lparr> xq_non_empty_trigger := pt_register (xq_non_empty_trigger xq) priority_mask \<rparr>))
   }"

section \<open>The queues\<close>

text \<open>Every element is in the queue of its mark, once, and the flags show the empty queues.\<close>

definition qs_inv :: "'b queues \<Rightarrow> bool" where
  "qs_inv qs \<longleftrightarrow>
     (\<forall>qid. distinct (qs_get_queue qs qid)) \<and>
     (\<forall>qid p. p \<in> set (qs_get_queue qs qid) \<longleftrightarrow>
       (\<exists>e. qs_entries qs p = Some e \<and> qe_queue_mark e = Some qid)) \<and>
     (\<forall>p. ps_contains (qs_started_priorities qs) p \<longleftrightarrow> qs_started qs p \<noteq> []) \<and>
     (\<forall>p. ps_contains (qs_finished_priorities qs) p \<longleftrightarrow> qs_finished qs p \<noteq> [])"

lemma qs_get_set [simp]:
  "qs_get_queue (qs_set_queue qs qid xs) rid = (if rid = qid then xs else qs_get_queue qs rid)"
  by (cases "(qs, qid)" rule: qs_get_queue.cases; cases "(qs, rid)" rule: qs_get_queue.cases) auto

lemma qs_frames [simp]:
  "qs_get_queue (qs_set_empty_flag qs qid) rid = qs_get_queue qs rid"
  "qs_get_queue (qs_clear_empty_flag qs qid) rid = qs_get_queue qs rid"
  "qs_get_queue (qs\<lparr> qs_entries := E \<rparr>) rid = qs_get_queue qs rid"
  "qs_entries (qs_set_empty_flag qs qid) = qs_entries qs"
  "qs_entries (qs_clear_empty_flag qs qid) = qs_entries qs"
  "qs_entries (qs_set_queue qs qid xs) = qs_entries qs"
  by (cases "(qs, qid)" rule: qs_get_queue.cases; cases "(qs, rid)" rule: qs_get_queue.cases; simp)+

text \<open>The flag of a queue, uniformly.\<close>

fun qs_flag :: "'b queues \<Rightarrow> queue_id \<Rightarrow> bool" where
  "qs_flag qs (priority, Started) = ps_contains (qs_started_priorities qs) priority"
| "qs_flag qs (priority, Finished) = ps_contains (qs_finished_priorities qs) priority"

lemma qs_flag_simps [simp]:
  "qs_flag (qs_set_empty_flag qs qid) rid \<longleftrightarrow> rid \<noteq> qid \<and> qs_flag qs rid"
  "qs_flag (qs_clear_empty_flag qs qid) rid \<longleftrightarrow> rid = qid \<or> qs_flag qs rid"
  "qs_flag (qs_set_queue qs qid xs) rid = qs_flag qs rid"
  "qs_flag (qs\<lparr> qs_entries := E \<rparr>) rid = qs_flag qs rid"
  by (cases "(qs, qid)" rule: qs_get_queue.cases; cases "(qs, rid)" rule: qs_get_queue.cases; auto)+

lemma qs_inv_iff:
  "qs_inv qs \<longleftrightarrow> (\<forall>qid. distinct (qs_get_queue qs qid) \<and> (qs_flag qs qid \<longleftrightarrow> qs_get_queue qs qid \<noteq> [])) \<and>
     (\<forall>qid p. p \<in> set (qs_get_queue qs qid) \<longleftrightarrow>
       (\<exists>e. qs_entries qs p = Some e \<and> qe_queue_mark e = Some qid))"
proof -
  have all: "(\<forall>qid. P qid) \<longleftrightarrow> (\<forall>p. P (p, Started)) \<and> (\<forall>p. P (p, Finished))" for P
    by (metis queue_type.exhaust prod.exhaust)
  have "(\<forall>qid. qs_flag qs qid \<longleftrightarrow> qs_get_queue qs qid \<noteq> []) \<longleftrightarrow>
      (\<forall>p. ps_contains (qs_started_priorities qs) p \<longleftrightarrow> qs_started qs p \<noteq> []) \<and>
      (\<forall>p. ps_contains (qs_finished_priorities qs) p \<longleftrightarrow> qs_finished qs p \<noteq> [])"
    unfolding all [of "\<lambda>qid. qs_flag qs qid \<longleftrightarrow> qs_get_queue qs qid \<noteq> []"] by simp
  then show ?thesis unfolding qs_inv_def by blast
qed

lemma qs_invD:
  assumes "qs_inv qs"
  shows "distinct (qs_get_queue qs qid)" "qs_flag qs qid \<longleftrightarrow> qs_get_queue qs qid \<noteq> []"
    "p \<in> set (qs_get_queue qs qid) \<longleftrightarrow> (\<exists>e. qs_entries qs p = Some e \<and> qe_queue_mark e = Some qid)"
  using assms unfolding qs_inv_iff by blast+

lemma remove_ptr_remove1:
  assumes "p \<in> set xs"
  obtains n where "remove_ptr p xs = Some (n, remove1 p xs)"
proof -
  obtain ys zs where "xs = ys @ p # zs" "p \<notin> set ys" using assms by (metis split_list_first)
  then show ?thesis using that by (simp add: remove_ptr_def remove1_append)
qed

lemma qs_dequeue_inv:
  assumes "qs_inv qs" "qs_entries qs p = Some e"
  shows "\<exists>qs'. qs_dequeue qs p = Some qs' \<and> qs_inv qs' \<and>
    qs_entries qs' = (qs_entries qs)(p \<mapsto> e\<lparr> qe_queue_mark := None \<rparr>) \<and>
    (\<forall>qid. qs_get_queue qs' qid = remove1 p (qs_get_queue qs qid))"
proof (cases "qe_queue_mark e")
  case None
  let ?qs = "qs\<lparr> qs_entries := (qs_entries qs)(p \<mapsto> e\<lparr> qe_queue_mark := None \<rparr>) \<rparr>"
  have "p \<notin> set (qs_get_queue qs qid)" for qid using qs_invD(3) [OF assms(1)] assms(2) None by auto
  then have "remove1 p (qs_get_queue qs qid) = qs_get_queue qs qid" for qid by (simp add: remove1_idem)
  moreover have "qs_inv ?qs"
    using assms None unfolding qs_inv_iff by auto
  ultimately show ?thesis using assms(2) None by (intro exI [of _ ?qs]) (simp add: qs_dequeue_def Let_def)
next
  case (Some qid)
  let ?E = "(qs_entries qs)(p \<mapsto> e\<lparr> qe_queue_mark := None \<rparr>)"
  let ?qs = "qs\<lparr> qs_entries := ?E \<rparr>" and ?xs = "remove1 p (qs_get_queue qs qid)"
  let ?qs' = "if ?xs = [] then qs_set_empty_flag (qs_set_queue ?qs qid ?xs) qid else qs_set_queue ?qs qid ?xs"
  have p: "p \<in> set (qs_get_queue qs qid)" using qs_invD(3) [OF assms(1)] assms(2) Some by auto
  obtain n where "remove_ptr p (qs_get_queue qs qid) = Some (n, ?xs)" by (rule remove_ptr_remove1 [OF p])
  then have run: "qs_dequeue qs p = Some ?qs'"
    using assms(2) Some by (simp add: qs_dequeue_def Let_def)
  have other: "p \<notin> set (qs_get_queue qs rid)" if "rid \<noteq> qid" for rid
    using qs_invD(3) [OF assms(1)] assms(2) Some that by auto
  have queue: "qs_get_queue ?qs' rid = remove1 p (qs_get_queue qs rid)" for rid
    using other [of rid] by (auto simp: remove1_idem)
  have "qs_flag ?qs' rid \<longleftrightarrow> qs_get_queue ?qs' rid \<noteq> []" for rid
    using qs_invD(2) [OF assms(1), of rid] p by auto
  moreover have "distinct (qs_get_queue ?qs' rid)" for rid
    unfolding queue using qs_invD(1) [OF assms(1)] by simp
  moreover have "r \<in> set (qs_get_queue ?qs' rid) \<longleftrightarrow> (\<exists>e. ?E r = Some e \<and> qe_queue_mark e = Some rid)" for r rid
    unfolding queue using qs_invD(1,3) [OF assms(1)] by auto
  moreover have "qs_entries ?qs' = ?E" by simp
  ultimately have "qs_inv ?qs'" unfolding qs_inv_iff by (simp only:) blast
  then show ?thesis using run queue by auto
qed

lemma qs_linked_iff: "qs_linked qs p \<longleftrightarrow> (\<exists>qid. p \<in> set (qs_get_queue qs qid))"
proof
  assume "qs_linked qs p"
  then show "\<exists>qid. p \<in> set (qs_get_queue qs qid)"
    unfolding qs_linked_def by (metis Un_iff qs_get_queue.simps)
next
  assume "\<exists>qid. p \<in> set (qs_get_queue qs qid)"
  then obtain priority t where "p \<in> set (qs_get_queue qs (priority, t))" by auto
  then show "qs_linked qs p" by (cases t) (auto simp: qs_linked_def)
qed

lemma qs_move_back_inv:
  assumes "qs_inv qs" "qs_entries qs p = Some e"
  shows "\<exists>qs'. qs_move_back qs qid p = Some qs' \<and> qs_inv qs' \<and>
    qs_entries qs' = (qs_entries qs)(p \<mapsto> e\<lparr> qe_queue_mark := Some qid \<rparr>) \<and>
    (\<forall>rid. qs_get_queue qs' rid = remove1 p (qs_get_queue qs rid) @ (if rid = qid then [p] else []))"
proof -
  obtain q1 where q1: "qs_dequeue qs p = Some q1" "qs_inv q1"
    "qs_entries q1 = (qs_entries qs)(p \<mapsto> e\<lparr> qe_queue_mark := None \<rparr>)"
    "\<forall>rid. qs_get_queue q1 rid = remove1 p (qs_get_queue qs rid)" using qs_dequeue_inv [OF assms] by blast
  let ?E = "(qs_entries qs)(p \<mapsto> e\<lparr> qe_queue_mark := Some qid \<rparr>)"
  let ?q = "qs_clear_empty_flag (qs_set_queue (q1\<lparr> qs_entries := ?E \<rparr>) qid (qs_get_queue q1 qid @ [p])) qid"
  have out: "p \<notin> set (qs_get_queue q1 rid)" for rid using qs_invD(3) [OF q1(2)] q1(3) by auto
  then have "\<not> qs_linked (q1\<lparr> qs_entries := ?E \<rparr>) p" by (simp add: qs_linked_iff)
  then have run: "qs_move_back qs qid p = Some ?q" using q1(1,3) by (simp add: qs_move_back_def Let_def)
  have queue: "qs_get_queue ?q rid = qs_get_queue q1 rid @ (if rid = qid then [p] else [])" for rid by simp
  have "qs_flag ?q rid \<longleftrightarrow> qs_get_queue ?q rid \<noteq> []" for rid using qs_invD(2) [OF q1(2), of rid] by auto
  moreover have "distinct (qs_get_queue ?q rid)" for rid
    unfolding queue using qs_invD(1) [OF q1(2)] out by auto
  moreover have "r \<in> set (qs_get_queue ?q rid) \<longleftrightarrow> (\<exists>e. ?E r = Some e \<and> qe_queue_mark e = Some rid)" for r rid
    unfolding queue using qs_invD(3) [OF q1(2), of r rid] q1(3) by auto
  moreover have "qs_entries ?q = ?E" by simp
  ultimately have "qs_inv ?q" unfolding qs_inv_iff by (simp only:) blast
  then show ?thesis using run queue q1(4) by auto
qed

section \<open>The position of an entry\<close>

definition position :: "('b \<Rightarrow> priority_set) \<Rightarrow> 'b queue_entry \<Rightarrow> queue_id option" where
  "position pop_readiness e = map_option
     (\<lambda>q. (q, if ps_contains (qe_started e) q then Started else Finished)) (ps_first (pop_readiness (qe_buffer e)))"

lemma position_mark [simp]: "position r (e\<lparr> qe_queue_mark := m \<rparr>) = position r e"
  by (simp add: position_def)

lemma xq_update_position_inv:
  assumes "qs_inv (xq_queues xq)" "qs_entries (xq_queues xq) p = Some e"
  shows "\<exists>xq'. xq_reg_update_queue_position r xq p = Some xq' \<and> qs_inv (xq_queues xq') \<and>
    qs_entries (xq_queues xq') = (qs_entries (xq_queues xq))(p \<mapsto> e\<lparr> qe_queue_mark := position r e \<rparr>) \<and>
    (\<forall>qid. qs_get_queue (xq_queues xq') qid =
      (if qe_queue_mark e = position r e then qs_get_queue (xq_queues xq) qid
       else remove1 p (qs_get_queue (xq_queues xq) qid) @ (if position r e = Some qid then [p] else [])))"
proof (cases "ps_first (r (qe_buffer e))")
  case None
  then have pos: "position r e = None" by (simp add: position_def)
  obtain qs' where q: "qs_dequeue (xq_queues xq) p = Some qs'" "qs_inv qs'"
    "qs_entries qs' = (qs_entries (xq_queues xq))(p \<mapsto> e\<lparr> qe_queue_mark := None \<rparr>)"
    "\<forall>qid. qs_get_queue qs' qid = remove1 p (qs_get_queue (xq_queues xq) qid)"
    using qs_dequeue_inv [OF assms] by blast
  have "qs_get_queue qs' qid = qs_get_queue (xq_queues xq) qid" if "qe_queue_mark e = None" for qid
    using qs_invD(3) [OF assms(1), of p qid] assms(2) that spec [OF q(4), of qid] by (simp add: remove1_idem)
  then show ?thesis using assms(2) None pos q by (simp add: xq_reg_update_queue_position_def)
next
  case (Some priority)
  let ?id = "(priority, if ps_contains (qe_started e) priority then Started else Finished)"
  have pos: "position r e = Some ?id" using Some by (simp add: position_def)
  show ?thesis
  proof (cases "qe_queue_mark e = Some ?id")
    case True
    then have "e\<lparr> qe_queue_mark := position r e \<rparr> = e" using pos by (cases e) simp
    then show ?thesis using assms Some True pos
      by (simp add: xq_reg_update_queue_position_def Let_def qs_element_queue_id_def fun_upd_idem)
  next
    case False
    obtain qs' where q: "qs_move_back (xq_queues xq) ?id p = Some qs'" "qs_inv qs'"
      "qs_entries qs' = (qs_entries (xq_queues xq))(p \<mapsto> e\<lparr> qe_queue_mark := Some ?id \<rparr>)"
      "\<forall>rid. qs_get_queue qs' rid = remove1 p (qs_get_queue (xq_queues xq) rid) @ (if rid = ?id then [p] else [])"
      using qs_move_back_inv [OF assms, of ?id] by blast
    show ?thesis
      unfolding xq_reg_update_queue_position_def pos
      using assms(2) Some False q by (auto simp: Let_def qs_element_queue_id_def)
  qed
qed

end
