(* ===== verification/Tx_Hub.thy ===== *)
theory Tx_Hub
  imports Tx_Queue
begin

text \<open>
  The queue of the transmitters keeps its order: proved for any buffers that give a frame
  whenever they announce a priority.
\<close>

section \<open>What the queue relies on\<close>

locale tx_source =
  fixes readiness :: "'b \<Rightarrow> priority_set"
    and try_pop :: "'b \<Rightarrow> priority_set \<Rightarrow> mtu \<Rightarrow> (frame option \<times> 'b) exec"
    and ok :: "'b \<Rightarrow> bool"
  assumes pop_ok: "ok b \<Longrightarrow> \<exists>fr b'. try_pop b pm m = Some (fr, b') \<and> ok b' \<and>
    (case fr of
       None \<Rightarrow> ps_is_empty (ps_and (readiness b) pm)
     | Some f \<Rightarrow> ps_first (ps_and (readiness b) pm) = Some (h_priority (f_header f)) \<and>
         data_deref (f_data f) \<noteq> [] \<and> length (data_deref (f_data f)) \<le> mtu_usize m)"
begin

definition xq_inv :: "'b tx_queue \<Rightarrow> bool" where
  "xq_inv xq \<longleftrightarrow> qs_inv (xq_queues xq) \<and> (\<forall>p e. qs_entries (xq_queues xq) p = Some e \<longrightarrow>
     qe_queue_mark e = position readiness e \<and> ok (qe_buffer e))"

lemma xq_invD:
  assumes "xq_inv xq"
  shows "qs_inv (xq_queues xq)"
    "qs_entries (xq_queues xq) p = Some e \<Longrightarrow> qe_queue_mark e = position readiness e \<and> ok (qe_buffer e)"
  using assms unfolding xq_inv_def by blast+

lemma xq_inv_queue:
  assumes "xq_inv xq"
  shows "p \<in> set (qs_get_queue (xq_queues xq) qid) \<longleftrightarrow>
    (\<exists>e. qs_entries (xq_queues xq) p = Some e \<and> position readiness e = Some qid)"
  using qs_invD(3) [OF xq_invD(1) [OF assms], of p qid] xq_invD(2) [OF assms] by auto

text \<open>The queue that is served: the most urgent admitted priority, a started transfer first.\<close>

lemma first_queue_id_Some:
  assumes "xq_inv xq" "first_queue_id (ps_and (qs_started_priorities (xq_queues xq)) pm)
      (ps_and (qs_finished_priorities (xq_queues xq)) pm) = Some (q, t)"
  shows "ps_contains pm q" "qs_get_queue (xq_queues xq) (q, t) \<noteq> []"
    "t = Finished \<Longrightarrow> qs_get_queue (xq_queues xq) (q, Started) = []"
    "qs_get_queue (xq_queues xq) (r, u) \<noteq> [] \<Longrightarrow> ps_contains pm r \<Longrightarrow> q \<le> r"
proof -
  let ?qs = "xq_queues xq"
  note flag = qs_invD(2) [OF xq_invD(1) [OF assms(1)]]
  have first: "ps_first (ps_or (ps_and (qs_started_priorities ?qs) pm) (ps_and (qs_finished_priorities ?qs) pm)) = Some q"
    and t: "t = (if ps_contains (ps_and (qs_started_priorities ?qs) pm) q then Started else Finished)"
    using assms(2) by (auto simp: first_queue_id_def split: option.splits)
  have q: "ps_contains pm q" "qs_flag ?qs (q, Started) \<or> qs_flag ?qs (q, Finished)"
    and least: "\<And>r. ps_contains pm r \<Longrightarrow> qs_flag ?qs (r, Started) \<or> qs_flag ?qs (r, Finished) \<Longrightarrow> q \<le> r"
    using first by (auto simp: ps_first_iff)
  show "ps_contains pm q" by (rule q(1))
  show "qs_get_queue ?qs (q, t) \<noteq> []"
    using q t flag [of "(q, Started)"] flag [of "(q, Finished)"] by (auto split: if_splits)
  show "t = Finished \<Longrightarrow> qs_get_queue ?qs (q, Started) = []"
    using t q(1) flag [of "(q, Started)"] by (auto split: if_splits)
  show "qs_get_queue ?qs (r, u) \<noteq> [] \<Longrightarrow> ps_contains pm r \<Longrightarrow> q \<le> r"
    using least [of r] flag [of "(r, u)"] by (cases u) blast+
qed

lemma first_queue_id_None:
  assumes "xq_inv xq" "first_queue_id (ps_and (qs_started_priorities (xq_queues xq)) pm)
      (ps_and (qs_finished_priorities (xq_queues xq)) pm) = None"
  shows "ps_contains pm q \<Longrightarrow> qs_get_queue (xq_queues xq) (q, t) = []"
proof -
  let ?qs = "xq_queues xq"
  note flag = qs_invD(2) [OF xq_invD(1) [OF assms(1)]]
  have "ps_is_empty (ps_or (ps_and (qs_started_priorities ?qs) pm) (ps_and (qs_finished_priorities ?qs) pm))"
    using assms(2) by (auto simp: first_queue_id_def ps_first_None split: option.splits)
  then have "ps_contains pm q \<Longrightarrow> \<not> qs_flag ?qs (q, Started) \<and> \<not> qs_flag ?qs (q, Finished)"
    by (auto simp: ps_is_empty_iff)
  then show "ps_contains pm q \<Longrightarrow> qs_get_queue ?qs (q, t) = []" using flag [of "(q, t)"] by (cases t) auto
qed

text \<open>The entry after a frame: its buffer moved on, and it is started until the last frame.\<close>

definition sent_entry :: "'b queue_entry \<Rightarrow> 'b \<Rightarrow> priority \<Rightarrow> bool \<Rightarrow> 'b queue_entry" where
  "sent_entry e b q eot = e\<lparr> qe_buffer := b, qe_started :=
     (if eot then ps_remove (qe_started e) q else ps_insert (qe_started e) q) \<rparr>"

text \<open>The queues after a frame.\<close>

definition requeued :: "'b tx_queue \<Rightarrow> ptr \<Rightarrow> queue_id \<Rightarrow> 'b queue_entry \<Rightarrow> bool \<Rightarrow> queue_id \<Rightarrow> ptr list" where
  "requeued xq p qid e eot rid =
     (if \<not> eot \<and> position readiness e = Some qid then qs_get_queue (xq_queues xq) rid
      else remove1 p (qs_get_queue (xq_queues xq) rid) @ (if position readiness e = Some rid then [p] else []))"

lemma xq_update_inv:
  assumes "qs_inv (xq_queues xq)" "qs_entries (xq_queues xq) p = Some e" "ok (qe_buffer e)"
    "\<And>r d. r \<noteq> p \<Longrightarrow> qs_entries (xq_queues xq) r = Some d \<Longrightarrow>
      qe_queue_mark d = position readiness d \<and> ok (qe_buffer d)"
  shows "\<exists>xq'. xq_reg_update_queue_position readiness xq p = Some xq' \<and> xq_inv xq' \<and>
    qs_entries (xq_queues xq') = (qs_entries (xq_queues xq))(p \<mapsto> e\<lparr> qe_queue_mark := position readiness e \<rparr>) \<and>
    (\<forall>qid. qs_get_queue (xq_queues xq') qid =
      (if qe_queue_mark e = position readiness e then qs_get_queue (xq_queues xq) qid
       else remove1 p (qs_get_queue (xq_queues xq) qid) @ (if position readiness e = Some qid then [p] else [])))"
proof -
  obtain xq' where x: "xq_reg_update_queue_position readiness xq p = Some xq'" "qs_inv (xq_queues xq')"
    "qs_entries (xq_queues xq') = (qs_entries (xq_queues xq))(p \<mapsto> e\<lparr> qe_queue_mark := position readiness e \<rparr>)"
    "\<forall>qid. qs_get_queue (xq_queues xq') qid =
      (if qe_queue_mark e = position readiness e then qs_get_queue (xq_queues xq) qid
       else remove1 p (qs_get_queue (xq_queues xq) qid) @ (if position readiness e = Some qid then [p] else []))"
    using xq_update_position_inv [OF assms(1,2), of readiness] by blast
  have "xq_inv xq'" unfolding xq_inv_def using x(2,3) assms(3,4) by auto
  then show ?thesis using x(1,3,4) by blast
qed

text \<open>One pop of the driver.\<close>

lemma hub_try_pop_inv:
  assumes inv: "xq_inv xq"
  shows "(xq_hub_try_pop readiness try_pop xq pm m = Some (None, xq) \<and>
      (\<forall>p e q t. qs_entries (xq_queues xq) p = Some e \<longrightarrow> position readiness e = Some (q, t) \<longrightarrow>
        \<not> ps_contains pm q)) \<or>
    (\<exists>f p e b q t eot xq'. xq_hub_try_pop readiness try_pop xq pm m = Some (Some f, xq') \<and> xq_inv xq' \<and>
      qs_entries (xq_queues xq) p = Some e \<and> first_ptr (qs_get_queue (xq_queues xq) (q, t)) = Some p \<and>
      ps_contains pm q \<and> (t = Finished \<longrightarrow> qs_get_queue (xq_queues xq) (q, Started) = []) \<and>
      (\<forall>r d s u. qs_entries (xq_queues xq) r = Some d \<longrightarrow> position readiness d = Some (s, u) \<longrightarrow>
        ps_contains pm s \<longrightarrow> q \<le> s) \<and>
      try_pop (qe_buffer e) (ps_new_eq q) m = Some (Some f, b) \<and> h_priority (f_header f) = q \<and>
      is_eot_frame f = Some eot \<and>
      qs_entries (xq_queues xq') = (qs_entries (xq_queues xq))
        (p \<mapsto> (sent_entry e b q eot)\<lparr> qe_queue_mark := position readiness (sent_entry e b q eot) \<rparr>) \<and>
      (\<forall>rid. qs_get_queue (xq_queues xq') rid = requeued xq p (q, t) (sent_entry e b q eot) eot rid))"
proof (cases "first_queue_id (ps_and (qs_started_priorities (xq_queues xq)) pm)
    (ps_and (qs_finished_priorities (xq_queues xq)) pm)")
  case None
  have "\<not> ps_contains pm q" if "qs_entries (xq_queues xq) p = Some e" "position readiness e = Some (q, t)" for p e q t
    using first_queue_id_None [OF inv None, of q t] xq_inv_queue [OF inv, of p "(q, t)"] that by auto
  then show ?thesis using None by (simp add: xq_hub_try_pop_def)
next
  case (Some qid)
  obtain q t where qid: "qid = (q, t)" by (cases qid)
  note s = first_queue_id_Some [OF inv Some [unfolded qid]]
  note qs = xq_invD(1) [OF inv]
  obtain p where p: "first_ptr (qs_get_queue (xq_queues xq) (q, t)) = Some p"
    "p \<in> set (qs_get_queue (xq_queues xq) (q, t))"
    using s(2) by (cases "qs_get_queue (xq_queues xq) (q, t)") (auto simp: first_ptr_def)
  obtain e where e: "qs_entries (xq_queues xq) p = Some e" "position readiness e = Some (q, t)"
    using p(2) xq_inv_queue [OF inv] by blast
  have mark: "qe_queue_mark e = Some (q, t)" "ok (qe_buffer e)" using xq_invD(2) [OF inv e(1)] e(2) by simp_all
  have least: "q \<le> u" if "qs_entries (xq_queues xq) r = Some d" "position readiness d = Some (u, v)"
    "ps_contains pm u" for r d u v
  proof -
    have "r \<in> set (qs_get_queue (xq_queues xq) (u, v))" using xq_inv_queue [OF inv] that by blast
    then have "qs_get_queue (xq_queues xq) (u, v) \<noteq> []" by force
    then show ?thesis by (rule s(4)) (rule that(3))
  qed
  have announced: "ps_contains (readiness (qe_buffer e)) q"
    using e(2) by (auto simp: position_def ps_first_iff)
  obtain fr b where b: "try_pop (qe_buffer e) (ps_new_eq q) m = Some (fr, b)" "ok b"
    "case fr of
       None \<Rightarrow> ps_is_empty (ps_and (readiness (qe_buffer e)) (ps_new_eq q))
     | Some f \<Rightarrow> ps_first (ps_and (readiness (qe_buffer e)) (ps_new_eq q)) = Some (h_priority (f_header f)) \<and>
         data_deref (f_data f) \<noteq> [] \<and> length (data_deref (f_data f)) \<le> mtu_usize m"
    using pop_ok [OF mark(2)] by blast
  obtain f where f: "fr = Some f" "h_priority (f_header f) = q" "data_deref (f_data f) \<noteq> []"
    "length (data_deref (f_data f)) \<le> mtu_usize m"
    using b(3) announced by (cases fr) (auto simp: ps_is_empty_iff ps_first_iff)
  obtain eot where eot: "is_eot_frame f = Some eot"
    using f(3) by (auto simp: is_eot_frame_def slice_last_def)
  let ?e = "sent_entry e b q eot"
  let ?x1 = "xq_set_entry xq p (Some ?e)"
  have emark: "qe_queue_mark ?e = Some (q, t)" "ok (qe_buffer ?e)"
    using mark(1) b(2) by (simp_all add: sent_entry_def)
  have x1: "qs_inv (xq_queues ?x1)" "qs_entries (xq_queues ?x1) p = Some ?e"
    "\<And>rid. qs_get_queue (xq_queues ?x1) rid = qs_get_queue (xq_queues xq) rid"
    "qs_entries (xq_queues ?x1) = (qs_entries (xq_queues xq))(p \<mapsto> ?e)"
    using qs e(1) mark(1) emark(1) unfolding qs_inv_iff by (auto simp: xq_set_entry_def)
  have others: "qe_queue_mark d = position readiness d \<and> ok (qe_buffer d)"
    if "qs_entries (xq_queues xq) r = Some d" for r d using xq_invD(2) [OF inv that] .
  have head: "xq_hub_try_pop readiness try_pop xq pm m = do {
      xq \<leftarrow> (if eot then do { qs \<leftarrow> qs_dequeue (xq_queues ?x1) p; ret (?x1\<lparr> xq_queues := qs \<rparr>) } else ret ?x1);
      xq \<leftarrow> xq_reg_update_queue_position readiness xq p;
      ret (Some f, xq) }"
    using Some qid p(1) e(1) b(1) f eot
    by (simp add: xq_hub_try_pop_def qs_get_front_def Let_def sent_entry_def)
  obtain xq' where xq': "xq_hub_try_pop readiness try_pop xq pm m = Some (Some f, xq')" "xq_inv xq'"
    "qs_entries (xq_queues xq') = (qs_entries (xq_queues xq))(p \<mapsto> ?e\<lparr> qe_queue_mark := position readiness ?e \<rparr>)"
    "\<forall>rid. qs_get_queue (xq_queues xq') rid = requeued xq p (q, t) ?e eot rid"
  proof (cases eot)
    case True
    obtain qs2 where d: "qs_dequeue (xq_queues ?x1) p = Some qs2" "qs_inv qs2"
      "qs_entries qs2 = (qs_entries (xq_queues ?x1))(p \<mapsto> ?e\<lparr> qe_queue_mark := None \<rparr>)"
      "\<forall>rid. qs_get_queue qs2 rid = remove1 p (qs_get_queue (xq_queues ?x1) rid)"
      using qs_dequeue_inv [OF x1(1,2)] by blast
    let ?x2 = "?x1\<lparr> xq_queues := qs2 \<rparr>"
    have "\<exists>xq'. xq_reg_update_queue_position readiness ?x2 p = Some xq' \<and> xq_inv xq' \<and>
      qs_entries (xq_queues xq') = (qs_entries (xq_queues ?x2))
        (p \<mapsto> (?e\<lparr> qe_queue_mark := None \<rparr>)\<lparr> qe_queue_mark := position readiness (?e\<lparr> qe_queue_mark := None \<rparr>) \<rparr>) \<and>
      (\<forall>qid. qs_get_queue (xq_queues xq') qid =
        (if qe_queue_mark (?e\<lparr> qe_queue_mark := None \<rparr>) = position readiness (?e\<lparr> qe_queue_mark := None \<rparr>)
         then qs_get_queue (xq_queues ?x2) qid
         else remove1 p (qs_get_queue (xq_queues ?x2) qid) @
           (if position readiness (?e\<lparr> qe_queue_mark := None \<rparr>) = Some qid then [p] else [])))"
      by (rule xq_update_inv) (use d(2,3) x1(4) emark(2) others in auto)
    then obtain xq' where u: "xq_reg_update_queue_position readiness ?x2 p = Some xq'" "xq_inv xq'"
      "qs_entries (xq_queues xq') = (qs_entries (xq_queues xq))(p \<mapsto> ?e\<lparr> qe_queue_mark := position readiness ?e \<rparr>)"
      "\<And>qid. qs_get_queue (xq_queues xq') qid = (if None = position readiness ?e
         then qs_get_queue qs2 qid
         else remove1 p (qs_get_queue qs2 qid) @ (if position readiness ?e = Some qid then [p] else []))"
      using d(3) x1(4) by auto
    have "qs_get_queue qs2 rid = remove1 p (qs_get_queue (xq_queues xq) rid)"
      "remove1 p (qs_get_queue qs2 rid) = remove1 p (qs_get_queue (xq_queues xq) rid)" for rid
      using spec [OF d(4), of rid] x1(3) qs_invD(1) [OF qs, of rid] by (simp_all add: remove1_idem)
    then have "qs_get_queue (xq_queues xq') rid = requeued xq p (q, t) ?e eot rid" for rid
      using u(4) True by (auto simp: requeued_def)
    moreover have "xq_hub_try_pop readiness try_pop xq pm m = Some (Some f, xq')"
      using head d(1) u(1) True by simp
    ultimately show ?thesis using that u(2,3) by blast
  next
    case False
    obtain xq' where u: "xq_reg_update_queue_position readiness ?x1 p = Some xq'" "xq_inv xq'"
      "qs_entries (xq_queues xq') = (qs_entries (xq_queues ?x1))(p \<mapsto> ?e\<lparr> qe_queue_mark := position readiness ?e \<rparr>)"
      "\<forall>qid. qs_get_queue (xq_queues xq') qid =
        (if qe_queue_mark ?e = position readiness ?e then qs_get_queue (xq_queues ?x1) qid
         else remove1 p (qs_get_queue (xq_queues ?x1) qid) @ (if position readiness ?e = Some qid then [p] else []))"
      using xq_update_inv [OF x1(1,2) emark(2)] others x1(4) by auto
    have "qs_get_queue (xq_queues xq') rid = requeued xq p (q, t) ?e eot rid" for rid
      using spec [OF u(4), of rid] x1(3) emark(1) False by (auto simp: requeued_def)
    moreover have "xq_hub_try_pop readiness try_pop xq pm m = Some (Some f, xq')"
      using head u(1) False by simp
    ultimately show ?thesis using that u(2,3) x1(4) by simp
  qed
  show ?thesis
    using xq' e p(1) s(1,3) least b(1) f(1,2) eot by (intro disjI2 exI conjI) (assumption | blast)+
qed

end

end
