(* ===== verification/Rx_Registry.thy ===== *)
theory Rx_Registry
  imports Intrusive Rx_Sessions Frames
begin

text \<open>
  The registry of the message receivers, \<open>emcyphal/src/registry/rx_msg.rs\<close>: which endpoints
  get a frame, and which updates the filter of the driver gets. The inner state is locked for
  one operation at a time; a frame is handed to the endpoints of a subject one lock at a time,
  so that other operations may come in between.

  The endpoints own their entries; the map \<open>ri_entries\<close> is that memory. A pointer to an
  entry that is gone panics. Buffers are behind \<open>dyn DynamicRxBuffer\<close>: their type and
  \<open>push_frame\<close> are parameters.
\<close>

section \<open>Entries\<close>

datatype registration_error = NoSubjectSlotLeft | DataSpecifierOccupied

record 'b rx_msg_entry =
  me_subject :: subject_id
  me_is_active :: bool
  me_is_head :: bool
  me_buffer :: 'b

definition me_new :: "subject_id \<Rightarrow> 'b \<Rightarrow> 'b rx_msg_entry" where
  "me_new subject buffer =
     \<lparr> me_subject = subject, me_is_active = False, me_is_head = False, me_buffer = buffer \<rparr>"

type_synonym 'b rx_entries = "ptr \<rightharpoonup> 'b rx_msg_entry"

definition entry_subject :: "'b rx_entries \<Rightarrow> ptr \<Rightarrow> subject_id" where
  "entry_subject entries p = (case entries p of None \<Rightarrow> SubjectId 0 | Some e \<Rightarrow> me_subject e)"

text \<open>\<open>cursor.get().is_some_and(|prev| prev.subject == k)\<close>.\<close>

definition at_key :: "(ptr \<Rightarrow> subject_id) \<Rightarrow> subject_id \<Rightarrow> ptr option \<Rightarrow> bool" where
  "at_key key k cursor = (case cursor of None \<Rightarrow> False | Some prev \<Rightarrow> key prev = k)"

definition set_flags :: "'b rx_entries \<Rightarrow> ptr \<Rightarrow> bool \<Rightarrow> bool \<Rightarrow> 'b rx_entries exec" where
  "set_flags entries p active head = do {
     e \<leftarrow> entries p;
     ret (entries(p \<mapsto> e\<lparr> me_is_active := active, me_is_head := head \<rparr>))
   }"

definition push_into ::
  "('b \<Rightarrow> frame \<Rightarrow> mtu \<Rightarrow> 'b exec) \<Rightarrow> 'b rx_entries \<Rightarrow> ptr \<Rightarrow> frame \<Rightarrow> mtu \<Rightarrow> 'b rx_entries exec" where
  "push_into push_frame entries p frame mtu = do {
     e \<leftarrow> entries p;
     buffer \<leftarrow> push_frame (me_buffer e) frame mtu;
     ret (entries(p \<mapsto> e\<lparr> me_buffer := buffer \<rparr>))
   }"

definition with_entry_buffer ::
  "'b rx_entries \<Rightarrow> ptr \<Rightarrow> ('b \<Rightarrow> ('r \<times> 'b) exec) \<Rightarrow> ('r \<times> 'b rx_entries) exec" where
  "with_entry_buffer entries p f = do {
     e \<leftarrow> entries p;
     (res, buffer) \<leftarrow> f (me_buffer e);
     ret (res, entries(p \<mapsto> e\<lparr> me_buffer := buffer \<rparr>))
   }"

definition prev_subject :: "subject_id \<Rightarrow> subject_id option" where
  "prev_subject val =
     (if subject_id_into_u16 val = 0 then None else subject_id_new (subject_id_into_u16 val - 1))"

definition next_subject :: "subject_id \<Rightarrow> subject_id option" where
  "next_subject val =
     (if subject_id_into_u16 val = - 1 then None else subject_id_new (subject_id_into_u16 val + 1))"

section \<open>Regular frames\<close>

record 'b regular_inner =
  ri_entries :: "'b rx_entries"
  ri_inactive_entry_tree :: "ptr list"
  ri_active_entry_tree :: "ptr list"
  ri_next_push_ptr :: "ptr option"
  ri_clean_up_queue :: "ptr list"
  ri_clean_up_last :: bool
  ri_activation_queue :: "ptr list"
  ri_free_slot_count :: nat
  ri_filter_update_waker :: waker_registration

definition ri_new :: "nat \<Rightarrow> 'b regular_inner" where
  "ri_new subject_slot_count =
     \<lparr> ri_entries = (\<lambda>_. None), ri_inactive_entry_tree = [], ri_active_entry_tree = [],
       ri_next_push_ptr = None, ri_clean_up_queue = [], ri_clean_up_last = False,
       ri_activation_queue = [], ri_free_slot_count = subject_slot_count,
       ri_filter_update_waker = [] \<rparr>"

text \<open>An element has one link for both trees and one for both lists.\<close>

definition tree_linked :: "'b regular_inner \<Rightarrow> ptr \<Rightarrow> bool" where
  "tree_linked st p \<longleftrightarrow> p \<in> set (ri_inactive_entry_tree st) \<union> set (ri_active_entry_tree st)"

definition list_linked :: "'b regular_inner \<Rightarrow> ptr \<Rightarrow> bool" where
  "list_linked st p \<longleftrightarrow> p \<in> set (ri_clean_up_queue st) \<union> set (ri_activation_queue st)"

definition ri_wake :: "'b regular_inner \<Rightarrow> 'b regular_inner" where
  "ri_wake st = st\<lparr> ri_filter_update_waker := WakeWaker # ri_filter_update_waker st \<rparr>"

text \<open>The lines that put an element into the inactive tree and the activation queue.\<close>

definition ri_enqueue :: "'b regular_inner \<Rightarrow> ptr \<Rightarrow> nat \<Rightarrow> 'b regular_inner exec" where
  "ri_enqueue st p cursor = do {
     entries \<leftarrow> set_flags (ri_entries st) p False False;
     assert_that (\<not> tree_linked st p);
     assert_that (\<not> list_linked st p);
     ret (st\<lparr> ri_entries := entries,
             ri_inactive_entry_tree := insert_after (ri_inactive_entry_tree st) cursor p,
             ri_activation_queue := ri_activation_queue st @ [p] \<rparr>)
   }"

definition ri_reg_register ::
  "'b regular_inner \<Rightarrow> ptr \<Rightarrow> ((registration_error + ptr) \<times> 'b regular_inner) exec" where
  "ri_reg_register st p = do {
     e \<leftarrow> ri_entries st p;
     let key = entry_subject (ri_entries st);
     let inactive = upper_bound key (me_subject e) (ri_inactive_entry_tree st);
     (if at_key key (me_subject e) (cursor_get (ri_inactive_entry_tree st) inactive)
      then do { st \<leftarrow> ri_enqueue st p inactive; ret (Inr p, st) }
      else do {
        let active = upper_bound key (me_subject e) (ri_active_entry_tree st);
        (if at_key key (me_subject e) (cursor_get (ri_active_entry_tree st) active)
         then do {
           entries \<leftarrow> set_flags (ri_entries st) p True False;
           assert_that (\<not> tree_linked st p);
           ret (Inr p, st\<lparr> ri_entries := entries,
             ri_active_entry_tree := insert_after (ri_active_entry_tree st) active p \<rparr>)
         }
         else if ri_free_slot_count st = 0 then ret (Inl NoSubjectSlotLeft, st)
         else do {
           st \<leftarrow> ri_enqueue (st\<lparr> ri_free_slot_count := ri_free_slot_count st - 1 \<rparr>) p inactive;
           ret (Inr p, ri_wake st)
         })
      })
   }"

text \<open>The pointer of the frame being pushed moves past an element that is removed.\<close>

definition ri_push_past :: "'b regular_inner \<Rightarrow> ptr \<Rightarrow> ptr option \<Rightarrow> ptr option exec" where
  "ri_push_past st p next =
     (if ri_next_push_ptr st \<noteq> Some p then ret (ri_next_push_ptr st)
      else (case next of
          None \<Rightarrow> ret None
        | Some q \<Rightarrow> do { e \<leftarrow> ri_entries st q; ret (if me_is_head e then None else Some q) }))"

text \<open>A marked element leaves the clean up queue.\<close>

definition ri_unlink_mark :: "'b regular_inner \<Rightarrow> ptr \<Rightarrow> 'b regular_inner exec" where
  "ri_unlink_mark st p =
     (if list_linked st p
      then do {
        (_, queue) \<leftarrow> remove_ptr p (ri_clean_up_queue st);
        ret (st\<lparr> ri_clean_up_queue := queue \<rparr>)
      } else ret st)"

definition ri_reg_unregister_active_head :: "'b regular_inner \<Rightarrow> ptr \<Rightarrow> 'b regular_inner exec" where
  "ri_reg_unregister_active_head st p = do {
     let clean_up_mark = list_linked st p;
     (next, active) \<leftarrow> remove_ptr p (ri_active_entry_tree st);
     let st = st\<lparr> ri_active_entry_tree := active \<rparr>;
     st \<leftarrow> ri_unlink_mark st p;
     next_push \<leftarrow> ri_push_past st p next;
     let st = st\<lparr> ri_next_push_ptr := next_push \<rparr>;
     st \<leftarrow> (case next of
         Some q \<Rightarrow> do {
           e \<leftarrow> ri_entries st q;
           let next_was_head = me_is_head e;
           let st = st\<lparr> ri_entries := (ri_entries st)(q \<mapsto> e\<lparr> me_is_head := True \<rparr>) \<rparr>;
           ret (if (clean_up_mark \<or> next_was_head) \<and> \<not> list_linked st q
             then ri_wake (st\<lparr> ri_clean_up_queue := ri_clean_up_queue st @ [q],
                              ri_free_slot_count := ri_free_slot_count st + 1 \<rparr>)
             else st)
         }
       | None \<Rightarrow> ret (ri_wake (st\<lparr> ri_clean_up_last := True,
                               ri_free_slot_count := ri_free_slot_count st + 1 \<rparr>)));
     ret (st\<lparr> ri_entries := (ri_entries st)(p := None) \<rparr>)
   }"

definition ri_reg_unregister_active_tail :: "'b regular_inner \<Rightarrow> ptr \<Rightarrow> 'b regular_inner exec" where
  "ri_reg_unregister_active_tail st p = do {
     (next, active) \<leftarrow> remove_ptr p (ri_active_entry_tree st);
     assert_that (\<not> list_linked st p);
     let st = st\<lparr> ri_active_entry_tree := active \<rparr>;
     next_push \<leftarrow> ri_push_past st p next;
     ret (st\<lparr> ri_next_push_ptr := next_push, ri_entries := (ri_entries st)(p := None) \<rparr>)
   }"

definition ri_reg_unregister_inactive :: "'b regular_inner \<Rightarrow> ptr \<Rightarrow> 'b regular_inner exec" where
  "ri_reg_unregister_inactive st p = do {
     (_, inactive) \<leftarrow> remove_ptr p (ri_inactive_entry_tree st);
     (_, queue) \<leftarrow> remove_ptr p (ri_activation_queue st);
     ret (st\<lparr> ri_entries := (ri_entries st)(p := None), ri_inactive_entry_tree := inactive,
             ri_activation_queue := queue \<rparr>)
   }"

definition ri_reg_unregister :: "'b regular_inner \<Rightarrow> ptr \<Rightarrow> 'b regular_inner exec" where
  "ri_reg_unregister st p = do {
     e \<leftarrow> ri_entries st p;
     (case (me_is_active e, me_is_head e) of
        (True, True) \<Rightarrow> ri_reg_unregister_active_head st p
      | (True, False) \<Rightarrow> ri_reg_unregister_active_tail st p
      | (False, False) \<Rightarrow> ri_reg_unregister_inactive st p
      | (False, True) \<Rightarrow> panic)
   }"

definition ri_with_buffer_mut ::
  "'b regular_inner \<Rightarrow> ptr \<Rightarrow> ('b \<Rightarrow> ('r \<times> 'b) exec) \<Rightarrow> ('r \<times> 'b regular_inner) exec" where
  "ri_with_buffer_mut st p f = do {
     (res, entries) \<leftarrow> with_entry_buffer (ri_entries st) p f;
     ret (res, st\<lparr> ri_entries := entries \<rparr>)
   }"

definition ri_hub_push_start :: "'b regular_inner \<Rightarrow> subject_id \<Rightarrow> (bool \<times> 'b regular_inner) exec" where
  "ri_hub_push_start st subject = do {
     next \<leftarrow> (case lower_bound (entry_subject (ri_entries st)) subject (ri_active_entry_tree st) of
         None \<Rightarrow> ret None
       | Some p \<Rightarrow> do {
           e \<leftarrow> ri_entries st p;
           assert_that (me_is_head e);
           ret (if me_subject e = subject then Some p else None)
         });
     ret (next \<noteq> None, st\<lparr> ri_next_push_ptr := next \<rparr>)
   }"

definition ri_hub_push_next ::
  "('b \<Rightarrow> frame \<Rightarrow> mtu \<Rightarrow> 'b exec) \<Rightarrow> 'b regular_inner \<Rightarrow> frame \<Rightarrow> mtu \<Rightarrow>
    (bool \<times> 'b regular_inner) exec" where
  "ri_hub_push_next push_frame st frame mtu = (case ri_next_push_ptr st of
     None \<Rightarrow> ret (False, st)
   | Some p \<Rightarrow> do {
       (_, rest) \<leftarrow> split_ptr p (ri_active_entry_tree st);
       entries \<leftarrow> push_into push_frame (ri_entries st) p frame mtu;
       next \<leftarrow> (case first_ptr rest of
           None \<Rightarrow> ret None
         | Some q \<Rightarrow> do { e \<leftarrow> entries q; ret (if me_is_head e then None else Some q) });
       ret (next \<noteq> None, st\<lparr> ri_entries := entries, ri_next_push_ptr := next \<rparr>)
     })"

text \<open>The filter updates; \<open>Inr ()\<close> is \<open>CallAgain\<close>.\<close>

definition ri_hub_pop_clean_up_queue ::
  "'b regular_inner \<Rightarrow> ((filter_update + unit) option \<times> 'b regular_inner) exec" where
  "ri_hub_pop_clean_up_queue st = (case ri_clean_up_queue st of
     [] \<Rightarrow> ret (None, st)
   | p # queue \<Rightarrow> do {
       e \<leftarrow> ri_entries st p;
       assert_that (me_is_head e);
       last_clean_up \<leftarrow> prev_subject (me_subject e);
       (before, _) \<leftarrow> split_ptr p (ri_active_entry_tree st);
       first_clean_up \<leftarrow> (case last_ptr before of
           Some q \<Rightarrow> do { d \<leftarrow> ri_entries st q; next_subject (me_subject d) }
         | None \<Rightarrow> ret (subject_id_from_u16_truncating 0));
       assert_that (first_clean_up \<le> last_clean_up);
       ret (Some (Inl (RemoveSubjectRange first_clean_up last_clean_up)),
         st\<lparr> ri_clean_up_queue := queue \<rparr>)
     })"

definition ri_hub_pop_clean_up_last ::
  "'b regular_inner \<Rightarrow> ((filter_update + unit) option \<times> 'b regular_inner) exec" where
  "ri_hub_pop_clean_up_last st =
     (if \<not> ri_clean_up_last st then ret (None, st)
      else do {
        first_clean_up \<leftarrow> (case last_ptr (ri_active_entry_tree st) of
            Some q \<Rightarrow> do { d \<leftarrow> ri_entries st q; next_subject (me_subject d) }
          | None \<Rightarrow> ret (subject_id_from_u16_truncating 0));
        ret (Some (Inl (RemoveSubjectRange first_clean_up subject_id_MAX)),
          st\<lparr> ri_clean_up_last := False \<rparr>)
      })"

definition ri_hub_pop_registration_queue ::
  "'b regular_inner \<Rightarrow> ((filter_update + unit) option \<times> 'b regular_inner) exec" where
  "ri_hub_pop_registration_queue st = (case ri_activation_queue st of
     [] \<Rightarrow> ret (None, st)
   | p # queue \<Rightarrow> do {
       e \<leftarrow> ri_entries st p;
       (_, inactive) \<leftarrow> remove_ptr p (ri_inactive_entry_tree st);
       let key = entry_subject (ri_entries st);
       let cursor = upper_bound key (me_subject e) (ri_active_entry_tree st);
       let active_subject = at_key key (me_subject e) (cursor_get (ri_active_entry_tree st) cursor);
       entries \<leftarrow> set_flags (ri_entries st) p True (\<not> active_subject);
       ret (Some (if active_subject then Inr () else Inl (AddSubject (me_subject e))),
         st\<lparr> ri_entries := entries, ri_inactive_entry_tree := inactive,
             ri_active_entry_tree := insert_after (ri_active_entry_tree st) cursor p,
             ri_activation_queue := queue \<rparr>)
     })"

definition ri_hub_poll_pop_filter_update ::
  "'b regular_inner \<Rightarrow> ((filter_update + unit) poll \<times> 'b regular_inner) exec" where
  "ri_hub_poll_pop_filter_update st = do {
     (res, st) \<leftarrow> ri_hub_pop_clean_up_queue st;
     (case res of Some val \<Rightarrow> ret (Ready val, st) | None \<Rightarrow> do {
     (res, st) \<leftarrow> ri_hub_pop_clean_up_last st;
     (case res of Some val \<Rightarrow> ret (Ready val, st) | None \<Rightarrow> do {
     (res, st) \<leftarrow> ri_hub_pop_registration_queue st;
     (case res of Some val \<Rightarrow> ret (Ready val, st)
      | None \<Rightarrow> ret (Pending,
          st\<lparr> ri_filter_update_waker := RegisterWaker # ri_filter_update_waker st \<rparr>)) }) }) }"

section \<open>Frames looped back\<close>

record 'b loop_back_inner =
  li_entries :: "'b rx_entries"
  li_entry_tree :: "ptr list"
  li_next_push_ptr :: "ptr option"

definition li_default :: "'b loop_back_inner" where
  "li_default = \<lparr> li_entries = (\<lambda>_. None), li_entry_tree = [], li_next_push_ptr = None \<rparr>"

definition li_reg_register ::
  "'b loop_back_inner \<Rightarrow> ptr \<Rightarrow> ((registration_error + ptr) \<times> 'b loop_back_inner) exec" where
  "li_reg_register st p = do {
     e \<leftarrow> li_entries st p;
     let cursor = upper_bound (entry_subject (li_entries st)) (me_subject e) (li_entry_tree st);
     assert_that (p \<notin> set (li_entry_tree st));
     ret (Inr p, st\<lparr> li_entry_tree := insert_after (li_entry_tree st) cursor p \<rparr>)
   }"

definition li_reg_unregister :: "'b loop_back_inner \<Rightarrow> ptr \<Rightarrow> 'b loop_back_inner exec" where
  "li_reg_unregister st p = do {
     (next, tree) \<leftarrow> remove_ptr p (li_entry_tree st);
     ret (st\<lparr> li_entries := (li_entries st)(p := None), li_entry_tree := tree,
             li_next_push_ptr :=
               (if li_next_push_ptr st = Some p then next else li_next_push_ptr st) \<rparr>)
   }"

definition li_with_buffer_mut ::
  "'b loop_back_inner \<Rightarrow> ptr \<Rightarrow> ('b \<Rightarrow> ('r \<times> 'b) exec) \<Rightarrow> ('r \<times> 'b loop_back_inner) exec" where
  "li_with_buffer_mut st p f = do {
     (res, entries) \<leftarrow> with_entry_buffer (li_entries st) p f;
     ret (res, st\<lparr> li_entries := entries \<rparr>)
   }"

definition li_hub_push_start :: "'b loop_back_inner \<Rightarrow> subject_id \<Rightarrow> (bool \<times> 'b loop_back_inner) exec" where
  "li_hub_push_start st subject = do {
     next \<leftarrow> (case lower_bound (entry_subject (li_entries st)) subject (li_entry_tree st) of
         None \<Rightarrow> ret None
       | Some p \<Rightarrow> do { e \<leftarrow> li_entries st p; ret (if me_subject e = subject then Some p else None) });
     ret (next \<noteq> None, st\<lparr> li_next_push_ptr := next \<rparr>)
   }"

definition li_hub_push_next ::
  "('b \<Rightarrow> frame \<Rightarrow> mtu \<Rightarrow> 'b exec) \<Rightarrow> 'b loop_back_inner \<Rightarrow> frame \<Rightarrow> mtu \<Rightarrow>
    (bool \<times> 'b loop_back_inner) exec" where
  "li_hub_push_next push_frame st frame mtu = (case li_next_push_ptr st of
     None \<Rightarrow> ret (False, st)
   | Some p \<Rightarrow> do {
       (_, rest) \<leftarrow> split_ptr p (li_entry_tree st);
       entries \<leftarrow> push_into push_frame (li_entries st) p frame mtu;
       next \<leftarrow> (case first_ptr rest of
           None \<Rightarrow> ret None
         | Some q \<Rightarrow> do { e \<leftarrow> entries q; ret (if me_is_head e then None else Some q) });
       ret (next \<noteq> None, st\<lparr> li_entries := entries, li_next_push_ptr := next \<rparr>)
     })"

section \<open>The registry\<close>

record 'b msg_registry =
  mr_regular :: "'b regular_inner"
  mr_loop_back :: "'b loop_back_inner"

record msg_token =
  mt_inner :: ptr
  mt_loop_back :: bool

definition mr_new :: "nat \<Rightarrow> 'b msg_registry" where
  "mr_new subject_slot_count =
     \<lparr> mr_regular = ri_new subject_slot_count, mr_loop_back = li_default \<rparr>"

text \<open>The loops run while the last call says that there is more to push.\<close>

partial_function (option) push_while ::
  "('s \<Rightarrow> (bool \<times> 's) exec) \<Rightarrow> 's \<Rightarrow> 's exec" where
  "push_while step st = do {
     (more, st) \<leftarrow> step st;
     (if more then push_while step st else ret st)
   }"

definition mr_hub_push_regular ::
  "('b \<Rightarrow> frame \<Rightarrow> mtu \<Rightarrow> 'b exec) \<Rightarrow> 'b regular_inner \<Rightarrow> subject_id \<Rightarrow> frame \<Rightarrow> mtu \<Rightarrow>
    'b regular_inner exec" where
  "mr_hub_push_regular push_frame st subject frame mtu = do {
     (started, st) \<leftarrow> ri_hub_push_start st subject;
     (if started then push_while (\<lambda>st. ri_hub_push_next push_frame st frame mtu) st else ret st)
   }"

definition mr_hub_push_loop_back ::
  "('b \<Rightarrow> frame \<Rightarrow> mtu \<Rightarrow> 'b exec) \<Rightarrow> 'b loop_back_inner \<Rightarrow> subject_id \<Rightarrow> frame \<Rightarrow> mtu \<Rightarrow>
    'b loop_back_inner exec" where
  "mr_hub_push_loop_back push_frame st subject frame mtu = do {
     (started, st) \<leftarrow> li_hub_push_start st subject;
     (if started then push_while (\<lambda>st. li_hub_push_next push_frame st frame mtu) st else ret st)
   }"

definition mr_hub_push ::
  "('b \<Rightarrow> frame \<Rightarrow> mtu \<Rightarrow> 'b exec) \<Rightarrow> 'b msg_registry \<Rightarrow> frame \<Rightarrow> mtu \<Rightarrow> 'b msg_registry exec" where
  "mr_hub_push push_frame st frame mtu = (case h_data_spec (f_header frame) of
     Message subject \<Rightarrow>
       if \<not> f_loop_back frame then do {
         inner \<leftarrow> mr_hub_push_regular push_frame (mr_regular st) subject frame mtu;
         ret (st\<lparr> mr_regular := inner \<rparr>)
       } else do {
         inner \<leftarrow> mr_hub_push_loop_back push_frame (mr_loop_back st) subject frame mtu;
         ret (st\<lparr> mr_loop_back := inner \<rparr>)
       }
   | _ \<Rightarrow> ret st)"

partial_function (option) ri_poll_pop ::
  "'b regular_inner \<Rightarrow> (filter_update poll \<times> 'b regular_inner) exec" where
  "ri_poll_pop st = do {
     (res, st) \<leftarrow> ri_hub_poll_pop_filter_update st;
     (case res of
        Ready (Inl update) \<Rightarrow> ret (Ready update, st)
      | Ready (Inr _) \<Rightarrow> ri_poll_pop st
      | Pending \<Rightarrow> ret (Pending, st))
   }"

definition mr_poll_pop :: "'b msg_registry \<Rightarrow> (filter_update poll \<times> 'b msg_registry) exec" where
  "mr_poll_pop st = do {
     (res, inner) \<leftarrow> ri_poll_pop (mr_regular st);
     ret (res, st\<lparr> mr_regular := inner \<rparr>)
   }"

definition mr_poll_push ::
  "('b \<Rightarrow> frame \<Rightarrow> mtu \<Rightarrow> 'b exec) \<Rightarrow> 'b msg_registry \<Rightarrow> frame \<Rightarrow> mtu \<Rightarrow>
    (unit poll \<times> 'b msg_registry) exec" where
  "mr_poll_push push_frame st frame mtu = do {
     st \<leftarrow> mr_hub_push push_frame st frame mtu;
     ret (Ready (), st)
   }"

definition mr_register ::
  "'b msg_registry \<Rightarrow> ptr \<Rightarrow> bool \<Rightarrow> ((registration_error + msg_token) \<times> 'b msg_registry) exec" where
  "mr_register st p loop_back =
     (if loop_back then do {
        (res, inner) \<leftarrow> li_reg_register (mr_loop_back st) p;
        ret (map_sum id (\<lambda>q. \<lparr> mt_inner = q, mt_loop_back = loop_back \<rparr>) res, st\<lparr> mr_loop_back := inner \<rparr>)
      } else do {
        (res, inner) \<leftarrow> ri_reg_register (mr_regular st) p;
        ret (map_sum id (\<lambda>q. \<lparr> mt_inner = q, mt_loop_back = loop_back \<rparr>) res, st\<lparr> mr_regular := inner \<rparr>)
      })"

definition mr_unregister :: "'b msg_registry \<Rightarrow> msg_token \<Rightarrow> 'b msg_registry exec" where
  "mr_unregister st token =
     (if \<not> mt_loop_back token then do {
        inner \<leftarrow> ri_reg_unregister (mr_regular st) (mt_inner token);
        ret (st\<lparr> mr_regular := inner \<rparr>)
      } else do {
        inner \<leftarrow> li_reg_unregister (mr_loop_back st) (mt_inner token);
        ret (st\<lparr> mr_loop_back := inner \<rparr>)
      })"

definition mr_with_buffer_mut ::
  "'b msg_registry \<Rightarrow> msg_token \<Rightarrow> ('b \<Rightarrow> ('r \<times> 'b) exec) \<Rightarrow> ('r \<times> 'b msg_registry) exec" where
  "mr_with_buffer_mut st token f =
     (if \<not> mt_loop_back token then do {
        (res, inner) \<leftarrow> ri_with_buffer_mut (mr_regular st) (mt_inner token) f;
        ret (res, st\<lparr> mr_regular := inner \<rparr>)
      } else do {
        (res, inner) \<leftarrow> li_with_buffer_mut (mr_loop_back st) (mt_inner token) f;
        ret (res, st\<lparr> mr_loop_back := inner \<rparr>)
      })"

end
