(* ===== verification/Tx_Registry.thy ===== *)
theory Tx_Registry
  imports Tx_Hub Rx_Registry
begin

text \<open>
  The registries of the transmitters, \<open>emcyphal/src/registry/tx_msg.rs\<close> and
  \<open>emcyphal/src/registry/tx_resp.rs\<close>. Both keep a transmit queue; a subject has at most one
  publisher, which the first one checks with a tree of its entries.

  An entry holds a subject and the entry of the queue: the first is kept in \<open>mx_subjects\<close>,
  the second in the memory of the queue, under one address.
\<close>

section \<open>The buffers behind the registries\<close>

text \<open>
  The trait \<open>DynamicTxBuffer\<close>. The last but one operation is the writing of the task into the
  slice that \<open>get_scratchpad\<close> returned.
\<close>

record 'b tx_vtable =
  vt_pop_readiness :: "'b \<Rightarrow> priority_set"
  vt_try_pop :: "'b \<Rightarrow> priority_set \<Rightarrow> mtu \<Rightarrow> (frame option \<times> 'b) exec"
  vt_is_empty :: "'b \<Rightarrow> bool"
  vt_poll_is_empty :: "'b \<Rightarrow> unit poll \<times> 'b"
  vt_push_readiness :: "'b \<Rightarrow> priority_set"
  vt_poll_push_readiness :: "'b \<Rightarrow> priority_set \<Rightarrow> priority_set poll \<times> 'b"
  vt_get_scratchpad :: "'b \<Rightarrow> ((priority_set \<times> u8 list) option \<times> 'b) exec"
  vt_write_scratchpad :: "'b \<Rightarrow> u8 list \<Rightarrow> 'b exec"
  vt_try_push :: "'b \<Rightarrow> transfer_meta \<Rightarrow> nat \<Rightarrow> transfer_crc \<Rightarrow> ((buffer_error + unit) \<times> 'b) exec"

text \<open>A call that leaves the buffer alone, as \<open>with_buffer_mut\<close> takes it.\<close>

definition reading :: "('b \<Rightarrow> 'r) \<Rightarrow> 'b \<Rightarrow> ('r \<times> 'b) exec" where
  "reading f b = ret (f b, b)"

definition writing :: "('b \<Rightarrow> 'b exec) \<Rightarrow> 'b \<Rightarrow> (unit \<times> 'b) exec" where
  "writing f b = do { b \<leftarrow> f b; ret ((), b) }"

section \<open>Publishers\<close>

record 'b tx_msg_inner =
  mx_subjects :: "ptr \<rightharpoonup> subject_id"
  mx_entry_tree :: "ptr list"
  mx_queue :: "'b tx_queue"

definition mx_default :: "'b tx_msg_inner" where
  "mx_default = \<lparr> mx_subjects = (\<lambda>_. None), mx_entry_tree = [], mx_queue = xq_default \<rparr>"

text \<open>\<open>Entry::new\<close>, written to an address.\<close>

definition mx_entry_new :: "'b tx_msg_inner \<Rightarrow> ptr \<Rightarrow> subject_id \<Rightarrow> 'b \<Rightarrow> 'b tx_msg_inner" where
  "mx_entry_new st p subject buffer =
     st\<lparr> mx_subjects := (mx_subjects st)(p \<mapsto> subject),
         mx_queue := xq_set_entry (mx_queue st) p (Some (qe_new buffer)) \<rparr>"

definition mx_entry_drop :: "'b tx_msg_inner \<Rightarrow> ptr \<Rightarrow> 'b tx_msg_inner" where
  "mx_entry_drop st p =
     st\<lparr> mx_subjects := (mx_subjects st)(p := None), mx_queue := xq_set_entry (mx_queue st) p None \<rparr>"

definition mx_key :: "'b tx_msg_inner \<Rightarrow> ptr \<Rightarrow> subject_id" where
  "mx_key st p = (case mx_subjects st p of None \<Rightarrow> SubjectId 0 | Some s \<Rightarrow> s)"

definition mx_reg_register ::
  "'b tx_vtable \<Rightarrow> 'b tx_msg_inner \<Rightarrow> ptr \<Rightarrow> ((registration_error + ptr) \<times> 'b tx_msg_inner) exec" where
  "mx_reg_register vt st p = do {
     subject \<leftarrow> mx_subjects st p;
     (case find (\<lambda>q. mx_key st q = subject) (mx_entry_tree st) of
        Some _ \<Rightarrow> ret (Inl DataSpecifierOccupied, st)
      | None \<Rightarrow> do {
          assert_that (p \<notin> set (mx_entry_tree st));
          let cursor = upper_bound (mx_key st) subject (mx_entry_tree st);
          let st = st\<lparr> mx_entry_tree := insert_after (mx_entry_tree st) cursor p \<rparr>;
          queue \<leftarrow> xq_reg_register (vt_pop_readiness vt) (mx_queue st) p;
          ret (Inr p, st\<lparr> mx_queue := queue \<rparr>)
        })
   }"

definition mx_reg_unregister :: "'b tx_msg_inner \<Rightarrow> ptr \<Rightarrow> 'b tx_msg_inner exec" where
  "mx_reg_unregister st p = do {
     (_, tree) \<leftarrow> remove_ptr p (mx_entry_tree st);
     queue \<leftarrow> xq_reg_unregister (mx_queue st) p;
     ret (mx_entry_drop (st\<lparr> mx_entry_tree := tree, mx_queue := queue \<rparr>) p)
   }"

definition mx_reg_update_queue_position :: "'b tx_vtable \<Rightarrow> 'b tx_msg_inner \<Rightarrow> ptr \<Rightarrow> 'b tx_msg_inner exec" where
  "mx_reg_update_queue_position vt st p = do {
     queue \<leftarrow> xq_reg_update_queue_position (vt_pop_readiness vt) (mx_queue st) p;
     ret (st\<lparr> mx_queue := queue \<rparr>)
   }"

definition mx_with_buffer_mut ::
  "'b tx_msg_inner \<Rightarrow> ptr \<Rightarrow> ('b \<Rightarrow> ('r \<times> 'b) exec) \<Rightarrow> ('r \<times> 'b tx_msg_inner) exec" where
  "mx_with_buffer_mut st p f = do {
     (res, queue) \<leftarrow> xq_with_buffer_mut (mx_queue st) p f;
     ret (res, st\<lparr> mx_queue := queue \<rparr>)
   }"

definition mx_hub_poll_pop ::
  "'b tx_vtable \<Rightarrow> 'b tx_msg_inner \<Rightarrow> priority_set \<Rightarrow> mtu \<Rightarrow> (frame poll \<times> 'b tx_msg_inner) exec" where
  "mx_hub_poll_pop vt st priority_mask mtu = do {
     (res, queue) \<leftarrow> xq_hub_poll_pop (vt_pop_readiness vt) (vt_try_pop vt) (mx_queue st) priority_mask mtu;
     ret (res, st\<lparr> mx_queue := queue \<rparr>)
   }"

text \<open>What the mutex guards, as the driver and the endpoints call it.\<close>

definition mx_poll_pop ::
  "'b tx_vtable \<Rightarrow> 'b tx_msg_inner \<Rightarrow> priority_set \<Rightarrow> mtu \<Rightarrow> (frame poll \<times> 'b tx_msg_inner) exec" where
  "mx_poll_pop vt st priority_mask mtu =
     (if ps_is_empty priority_mask then ret (Pending, st) else mx_hub_poll_pop vt st priority_mask mtu)"

definition mx_register ::
  "'b tx_vtable \<Rightarrow> 'b tx_msg_inner \<Rightarrow> ptr \<Rightarrow> ((registration_error + ptr) \<times> 'b tx_msg_inner) exec" where
  "mx_register vt st p = mx_reg_register vt st p"

definition mx_unregister :: "'b tx_msg_inner \<Rightarrow> ptr \<Rightarrow> 'b tx_msg_inner exec" where
  "mx_unregister st p = mx_reg_unregister st p"

definition mx_is_empty :: "'b tx_vtable \<Rightarrow> 'b tx_msg_inner \<Rightarrow> ptr \<Rightarrow> (bool \<times> 'b tx_msg_inner) exec" where
  "mx_is_empty vt st p = mx_with_buffer_mut st p (reading (vt_is_empty vt))"

definition mx_poll_is_empty :: "'b tx_vtable \<Rightarrow> 'b tx_msg_inner \<Rightarrow> ptr \<Rightarrow> (unit poll \<times> 'b tx_msg_inner) exec" where
  "mx_poll_is_empty vt st p = mx_with_buffer_mut st p (\<lambda>b. ret (vt_poll_is_empty vt b))"

definition mx_push_readiness :: "'b tx_vtable \<Rightarrow> 'b tx_msg_inner \<Rightarrow> ptr \<Rightarrow> (priority_set \<times> 'b tx_msg_inner) exec" where
  "mx_push_readiness vt st p = mx_with_buffer_mut st p (reading (vt_push_readiness vt))"

definition mx_poll_push_readiness ::
  "'b tx_vtable \<Rightarrow> 'b tx_msg_inner \<Rightarrow> ptr \<Rightarrow> priority_set \<Rightarrow> (priority_set poll \<times> 'b tx_msg_inner) exec" where
  "mx_poll_push_readiness vt st p priority_mask =
     mx_with_buffer_mut st p (\<lambda>b. ret (vt_poll_push_readiness vt b priority_mask))"

definition mx_get_scratchpad ::
  "'b tx_vtable \<Rightarrow> 'b tx_msg_inner \<Rightarrow> ptr \<Rightarrow> ((priority_set \<times> u8 list) option \<times> 'b tx_msg_inner) exec" where
  "mx_get_scratchpad vt st p = mx_with_buffer_mut st p (vt_get_scratchpad vt)"

definition mx_try_push ::
  "'b tx_vtable \<Rightarrow> 'b tx_msg_inner \<Rightarrow> ptr \<Rightarrow> transfer_meta \<Rightarrow> nat \<Rightarrow> transfer_crc \<Rightarrow>
    ((buffer_error + unit) \<times> 'b tx_msg_inner) exec" where
  "mx_try_push vt st p meta len crc = do {
     (res, st) \<leftarrow> mx_with_buffer_mut st p (\<lambda>b. vt_try_push vt b meta len crc);
     st \<leftarrow> (case res of Inr _ \<Rightarrow> mx_reg_update_queue_position vt st p | Inl _ \<Rightarrow> ret st);
     ret (res, st)
   }"

section \<open>Responders\<close>

record 'b tx_resp_inner =
  sx_queue :: "'b tx_queue"

definition sx_default :: "'b tx_resp_inner" where
  "sx_default = \<lparr> sx_queue = xq_default \<rparr>"

definition sx_entry_new :: "'b tx_resp_inner \<Rightarrow> ptr \<Rightarrow> 'b \<Rightarrow> 'b tx_resp_inner" where
  "sx_entry_new st p buffer = st\<lparr> sx_queue := xq_set_entry (sx_queue st) p (Some (qe_new buffer)) \<rparr>"

definition sx_reg_register ::
  "'b tx_vtable \<Rightarrow> 'b tx_resp_inner \<Rightarrow> ptr \<Rightarrow> ((registration_error + ptr) \<times> 'b tx_resp_inner) exec" where
  "sx_reg_register vt st p = do {
     queue \<leftarrow> xq_reg_register (vt_pop_readiness vt) (sx_queue st) p;
     ret (Inr p, st\<lparr> sx_queue := queue \<rparr>)
   }"

definition sx_reg_unregister :: "'b tx_resp_inner \<Rightarrow> ptr \<Rightarrow> 'b tx_resp_inner exec" where
  "sx_reg_unregister st p = do {
     queue \<leftarrow> xq_reg_unregister (sx_queue st) p;
     ret (st\<lparr> sx_queue := xq_set_entry queue p None \<rparr>)
   }"

definition sx_reg_update_queue_position :: "'b tx_vtable \<Rightarrow> 'b tx_resp_inner \<Rightarrow> ptr \<Rightarrow> 'b tx_resp_inner exec" where
  "sx_reg_update_queue_position vt st p = do {
     queue \<leftarrow> xq_reg_update_queue_position (vt_pop_readiness vt) (sx_queue st) p;
     ret (st\<lparr> sx_queue := queue \<rparr>)
   }"

definition sx_with_buffer_mut ::
  "'b tx_resp_inner \<Rightarrow> ptr \<Rightarrow> ('b \<Rightarrow> ('r \<times> 'b) exec) \<Rightarrow> ('r \<times> 'b tx_resp_inner) exec" where
  "sx_with_buffer_mut st p f = do {
     (res, queue) \<leftarrow> xq_with_buffer_mut (sx_queue st) p f;
     ret (res, st\<lparr> sx_queue := queue \<rparr>)
   }"

definition sx_hub_poll_pop ::
  "'b tx_vtable \<Rightarrow> 'b tx_resp_inner \<Rightarrow> priority_set \<Rightarrow> mtu \<Rightarrow> (frame poll \<times> 'b tx_resp_inner) exec" where
  "sx_hub_poll_pop vt st priority_mask mtu = do {
     (res, queue) \<leftarrow> xq_hub_poll_pop (vt_pop_readiness vt) (vt_try_pop vt) (sx_queue st) priority_mask mtu;
     ret (res, st\<lparr> sx_queue := queue \<rparr>)
   }"

definition sx_poll_pop ::
  "'b tx_vtable \<Rightarrow> 'b tx_resp_inner \<Rightarrow> priority_set \<Rightarrow> mtu \<Rightarrow> (frame poll \<times> 'b tx_resp_inner) exec" where
  "sx_poll_pop vt st priority_mask mtu =
     (if ps_is_empty priority_mask then ret (Pending, st) else sx_hub_poll_pop vt st priority_mask mtu)"

definition sx_register ::
  "'b tx_vtable \<Rightarrow> 'b tx_resp_inner \<Rightarrow> ptr \<Rightarrow> ((registration_error + ptr) \<times> 'b tx_resp_inner) exec" where
  "sx_register vt st p = sx_reg_register vt st p"

definition sx_unregister :: "'b tx_resp_inner \<Rightarrow> ptr \<Rightarrow> 'b tx_resp_inner exec" where
  "sx_unregister st p = sx_reg_unregister st p"

definition sx_is_empty :: "'b tx_vtable \<Rightarrow> 'b tx_resp_inner \<Rightarrow> ptr \<Rightarrow> (bool \<times> 'b tx_resp_inner) exec" where
  "sx_is_empty vt st p = sx_with_buffer_mut st p (reading (vt_is_empty vt))"

definition sx_poll_is_empty :: "'b tx_vtable \<Rightarrow> 'b tx_resp_inner \<Rightarrow> ptr \<Rightarrow> (unit poll \<times> 'b tx_resp_inner) exec" where
  "sx_poll_is_empty vt st p = sx_with_buffer_mut st p (\<lambda>b. ret (vt_poll_is_empty vt b))"

definition sx_push_readiness :: "'b tx_vtable \<Rightarrow> 'b tx_resp_inner \<Rightarrow> ptr \<Rightarrow> (priority_set \<times> 'b tx_resp_inner) exec" where
  "sx_push_readiness vt st p = sx_with_buffer_mut st p (reading (vt_push_readiness vt))"

definition sx_poll_push_readiness ::
  "'b tx_vtable \<Rightarrow> 'b tx_resp_inner \<Rightarrow> ptr \<Rightarrow> priority_set \<Rightarrow> (priority_set poll \<times> 'b tx_resp_inner) exec" where
  "sx_poll_push_readiness vt st p priority_mask =
     sx_with_buffer_mut st p (\<lambda>b. ret (vt_poll_push_readiness vt b priority_mask))"

definition sx_get_scratchpad ::
  "'b tx_vtable \<Rightarrow> 'b tx_resp_inner \<Rightarrow> ptr \<Rightarrow> ((priority_set \<times> u8 list) option \<times> 'b tx_resp_inner) exec" where
  "sx_get_scratchpad vt st p = sx_with_buffer_mut st p (vt_get_scratchpad vt)"

definition sx_try_push ::
  "'b tx_vtable \<Rightarrow> 'b tx_resp_inner \<Rightarrow> ptr \<Rightarrow> transfer_meta \<Rightarrow> nat \<Rightarrow> transfer_crc \<Rightarrow>
    ((buffer_error + unit) \<times> 'b tx_resp_inner) exec" where
  "sx_try_push vt st p meta len crc = do {
     (res, st) \<leftarrow> sx_with_buffer_mut st p (\<lambda>b. vt_try_push vt b meta len crc);
     st \<leftarrow> (case res of Inr _ \<Rightarrow> sx_reg_update_queue_position vt st p | Inl _ \<Rightarrow> ret st);
     ret (res, st)
   }"

section \<open>The registries at work\<close>

text \<open>
  Endpoints and driver come in any order, one lock at a time. An endpoint whose registration
  is refused drops its entry.
\<close>

datatype ('k, 'b) tx_reg_op = TrRegister ptr 'k 'b | TrUnregister ptr | TrPollEmpty ptr
  | TrPollPush ptr priority_set | TrGetScratchpad ptr | TrWrite ptr "u8 list"
  | TrPush ptr transfer_meta nat transfer_crc | TrPop priority_set mtu

fun mx_step :: "'b tx_vtable \<Rightarrow> (subject_id, 'b) tx_reg_op \<Rightarrow> 'b tx_msg_inner \<Rightarrow> 'b tx_msg_inner exec" where
  "mx_step vt (TrRegister p s b) st = do {
     (res, st) \<leftarrow> mx_register vt (mx_entry_new st p s b) p;
     ret (case res of Inl _ \<Rightarrow> mx_entry_drop st p | Inr _ \<Rightarrow> st)
   }"
| "mx_step vt (TrUnregister p) st = mx_unregister st p"
| "mx_step vt (TrPollEmpty p) st = do { (_, st) \<leftarrow> mx_poll_is_empty vt st p; ret st }"
| "mx_step vt (TrPollPush p pmask) st = do { (_, st) \<leftarrow> mx_poll_push_readiness vt st p pmask; ret st }"
| "mx_step vt (TrGetScratchpad p) st = do { (_, st) \<leftarrow> mx_get_scratchpad vt st p; ret st }"
| "mx_step vt (TrWrite p bytes) st =
     do { (_, st) \<leftarrow> mx_with_buffer_mut st p (writing (\<lambda>b. vt_write_scratchpad vt b bytes)); ret st }"
| "mx_step vt (TrPush p meta len crc) st = do { (_, st) \<leftarrow> mx_try_push vt st p meta len crc; ret st }"
| "mx_step vt (TrPop pmask mtu) st = do { (_, st) \<leftarrow> mx_poll_pop vt st pmask mtu; ret st }"

fun sx_step :: "'b tx_vtable \<Rightarrow> (unit, 'b) tx_reg_op \<Rightarrow> 'b tx_resp_inner \<Rightarrow> 'b tx_resp_inner exec" where
  "sx_step vt (TrRegister p s b) st = do { (_, st) \<leftarrow> sx_register vt (sx_entry_new st p b) p; ret st }"
| "sx_step vt (TrUnregister p) st = sx_unregister st p"
| "sx_step vt (TrPollEmpty p) st = do { (_, st) \<leftarrow> sx_poll_is_empty vt st p; ret st }"
| "sx_step vt (TrPollPush p pmask) st = do { (_, st) \<leftarrow> sx_poll_push_readiness vt st p pmask; ret st }"
| "sx_step vt (TrGetScratchpad p) st = do { (_, st) \<leftarrow> sx_get_scratchpad vt st p; ret st }"
| "sx_step vt (TrWrite p bytes) st =
     do { (_, st) \<leftarrow> sx_with_buffer_mut st p (writing (\<lambda>b. vt_write_scratchpad vt b bytes)); ret st }"
| "sx_step vt (TrPush p meta len crc) st = do { (_, st) \<leftarrow> sx_try_push vt st p meta len crc; ret st }"
| "sx_step vt (TrPop pmask mtu) st = do { (_, st) \<leftarrow> sx_poll_pop vt st pmask mtu; ret st }"

end
