(* ===== verification/Tx_Hosted.thy ===== *)
theory Tx_Hosted
  imports Tx_Registry
begin

text \<open>
  What the registries rely on in a transmit buffer, proved from the contract of the buffers for
  the blocking buffer, the signal and the response buffer.
\<close>

section \<open>The contract\<close>

definition same_ready :: "priority_set \<Rightarrow> priority_set \<Rightarrow> bool" where
  "same_ready R R' \<longleftrightarrow> (\<forall>q. ps_contains R' q = ps_contains R q)"

lemma same_ready_refl [simp]: "same_ready R R"
  by (simp add: same_ready_def)

text \<open>What a pop may return, from the announced priorities before and after it.\<close>

definition popped_ok ::
  "data_specifier \<Rightarrow> priority_set \<Rightarrow> priority_set \<Rightarrow> priority_set \<Rightarrow> mtu \<Rightarrow> frame option \<Rightarrow> bool" where
  "popped_ok spec R R' pm m fr \<longleftrightarrow> (case fr of
     None \<Rightarrow> ps_is_empty (ps_and R pm) \<and> same_ready R R'
   | Some f \<Rightarrow> ps_first (ps_and R pm) = Some (h_priority (f_header f)) \<and>
       h_data_spec (f_header f) = spec \<and> data_deref (f_data f) \<noteq> [] \<and>
       length (data_deref (f_data f)) \<le> mtu_usize m \<and>
       (is_eot_frame f = Some False \<longrightarrow> ps_contains R' (h_priority (f_header f))))"

text \<open>The identity of a buffer; \<open>lent\<close> says that a task holds the slice of its scratchpad.\<close>

definition same_buffer :: "('b \<Rightarrow> data_specifier) \<Rightarrow> ('b \<Rightarrow> nat) \<Rightarrow> 'b \<Rightarrow> 'b \<Rightarrow> bool" where
  "same_buffer spec capacity b b' \<longleftrightarrow> spec b' = spec b \<and> capacity b' = capacity b"

locale tx_hosted =
  fixes vt :: "'b tx_vtable"
    and ok :: "'b \<Rightarrow> bool"
    and spec :: "'b \<Rightarrow> data_specifier"
    and capacity :: "'b \<Rightarrow> nat"
    and lent :: "'b \<Rightarrow> bool"
  assumes pop_hosted: "ok b \<Longrightarrow> \<exists>fr b'. vt_try_pop vt b pm m = Some (fr, b') \<and> ok b' \<and>
      same_buffer spec capacity b b' \<and> (lent b \<longrightarrow> lent b') \<and>
      popped_ok (spec b) (vt_pop_readiness vt b) (vt_pop_readiness vt b') pm m fr"
    and poll_empty_hosted: "ok b \<Longrightarrow> snd (vt_poll_is_empty vt b) = b' \<Longrightarrow> ok b' \<and>
      same_buffer spec capacity b b' \<and> (lent b \<longrightarrow> lent b') \<and>
      same_ready (vt_pop_readiness vt b) (vt_pop_readiness vt b')"
    and poll_push_hosted: "ok b \<Longrightarrow> snd (vt_poll_push_readiness vt b pm) = b' \<Longrightarrow> ok b' \<and>
      same_buffer spec capacity b b' \<and> (lent b \<longrightarrow> lent b') \<and>
      same_ready (vt_pop_readiness vt b) (vt_pop_readiness vt b')"
    and scratchpad_hosted: "ok b \<Longrightarrow> \<exists>r b'. vt_get_scratchpad vt b = Some (r, b') \<and> ok b' \<and>
      same_buffer spec capacity b b' \<and> (lent b \<longrightarrow> lent b') \<and> (r \<noteq> None \<longrightarrow> lent b') \<and>
      same_ready (vt_pop_readiness vt b) (vt_pop_readiness vt b')"
    and write_hosted: "ok b \<Longrightarrow> lent b \<Longrightarrow> length bytes = capacity b \<Longrightarrow>
      \<exists>b'. vt_write_scratchpad vt b bytes = Some b' \<and> ok b' \<and>
      same_buffer spec capacity b b' \<and> lent b' \<and>
      same_ready (vt_pop_readiness vt b) (vt_pop_readiness vt b')"
    and push_hosted: "ok b \<Longrightarrow> len \<le> capacity b \<Longrightarrow> transfer_id_wf (tm_transfer_id meta) \<Longrightarrow>
      \<exists>r b'. vt_try_push vt b meta len crc = Some (r, b') \<and> ok b' \<and>
      same_buffer spec capacity b b' \<and>
      (\<forall>q. ps_contains (vt_pop_readiness vt b) q \<longrightarrow> ps_contains (vt_pop_readiness vt b') q) \<and>
      (\<forall>e. r = Inl e \<longrightarrow> same_ready (vt_pop_readiness vt b) (vt_pop_readiness vt b'))"

text \<open>Such a buffer serves the queue.\<close>

sublocale tx_hosted \<subseteq> src: tx_source "vt_pop_readiness vt" "vt_try_pop vt" ok
proof
  fix b pm m
  assume "ok b"
  then obtain fr b' where "vt_try_pop vt b pm m = Some (fr, b')" "ok b'"
    "popped_ok (spec b) (vt_pop_readiness vt b) (vt_pop_readiness vt b') pm m fr"
    using pop_hosted by blast
  then show "\<exists>fr b'. vt_try_pop vt b pm m = Some (fr, b') \<and> ok b' \<and>
    (case fr of
       None \<Rightarrow> ps_is_empty (ps_and (vt_pop_readiness vt b) pm)
     | Some f \<Rightarrow> ps_first (ps_and (vt_pop_readiness vt b) pm) = Some (h_priority (f_header f)) \<and>
         data_deref (f_data f) \<noteq> [] \<and> length (data_deref (f_data f)) \<le> mtu_usize m)"
    by (auto simp: popped_ok_def split: option.splits)
qed

section \<open>From the contract of the buffers\<close>

text \<open>A frame ends its transfer exactly when it is the last one.\<close>

lemma sc_fetch_tail:
  assumes "sc_inv sc b" "\<not> sc_is_exhausted sc" "sc_fetch_frame_data sc b m = Some (Some d, sc')"
  shows "\<exists>xs toggle. data_deref d = xs @
      [tail_into_u8 (tail_new (sc_offset sc = 0) (sc_is_exhausted sc') toggle (sc_transfer_id sc))]"
    "sc_transfer_id sc' = sc_transfer_id sc"
proof -
  have rest: "sc_offset sc < sc_data_length sc + 2"
    using assms(1,2) by (simp add: sc_inv_def sc_is_exhausted_def)
  have mtu: "8 \<le> mtu_usize m" using mtu_cases [of m] by auto
  have "(\<exists>xs toggle. data_deref d = xs @
      [tail_into_u8 (tail_new (sc_offset sc = 0) (sc_is_exhausted sc') toggle (sc_transfer_id sc))]) \<and>
    sc_transfer_id sc' = sc_transfer_id sc"
  proof (cases "sc_offset sc = 0 \<and> sc_data_length sc < mtu_usize m")
    case True
    then obtain f k where "sc_fetch_frame_data sc b m = Some (Some f, sc\<lparr> sc_offset := sc_data_length sc + 2 \<rparr>)"
      "data_deref f = take (sc_data_length sc) b @ replicate k PAD_VALUE @
        [tail_into_u8 (tail_new True True SOT_TOGGLE_BIT (sc_transfer_id sc))]"
      using sc_fetch_single [OF assms(1), of m] by blast
    moreover from this(1) have "f = d" "sc' = sc\<lparr> sc_offset := sc_data_length sc + 2 \<rparr>" using assms(3) by simp_all
    ultimately show ?thesis using True
      by (intro conjI exI [of _ "take (sc_data_length sc) b @ replicate k PAD_VALUE"] exI [of _ SOT_TOGGLE_BIT])
        (simp_all add: sc_is_exhausted_def)
  next
    case first: False
    show ?thesis
    proof (cases "mtu_usize m \<le> sc_data_length sc + 2 - sc_offset sc")
      case True
      then obtain f where f: "sc_fetch_frame_data sc b m = Some (Some f, sc\<lparr> sc_offset := sc_offset sc + (mtu_usize m - 1),
         sc_toggle_bit := \<not> sc_toggle_bit sc \<rparr>)"
        "data_deref f = take (mtu_usize m - 1) (drop (sc_offset sc) (sc_stream sc b 0)) @
          [tail_into_u8 (tail_new (sc_offset sc = 0) False (sc_toggle_bit sc) (sc_transfer_id sc))]"
        using sc_fetch_full [OF assms(1) True first] by blast
      have "f = d" "sc' = sc\<lparr> sc_offset := sc_offset sc + (mtu_usize m - 1), sc_toggle_bit := \<not> sc_toggle_bit sc \<rparr>"
        using assms(3) f(1) by simp_all
      moreover have "\<not> sc_is_exhausted sc'" using True mtu \<open>sc' = _\<close> by (simp add: sc_is_exhausted_def)
      ultimately show ?thesis using f(2) by auto
    next
      case False
      then have pos: "0 < sc_offset sc" and lt: "sc_data_length sc + 2 - sc_offset sc < mtu_usize m"
        using first mtu by auto
      obtain f k where f: "sc_fetch_frame_data sc b m = Some (Some f, sc\<lparr> sc_offset := sc_data_length sc + 2,
         sc_toggle_bit := \<not> sc_toggle_bit sc \<rparr>)"
        "data_deref f = drop (sc_offset sc) (sc_stream sc b k) @
          [tail_into_u8 (tail_new False True (sc_toggle_bit sc) (sc_transfer_id sc))]"
        using sc_fetch_last [OF assms(1) pos rest lt] by blast
      have "f = d" "sc' = sc\<lparr> sc_offset := sc_data_length sc + 2, sc_toggle_bit := \<not> sc_toggle_bit sc \<rparr>"
        using assms(3) f(1) by simp_all
      moreover have "sc_is_exhausted sc'" using \<open>sc' = _\<close> by (simp add: sc_is_exhausted_def)
      ultimately show ?thesis using f(2) pos by auto
    qed
  qed
  then show "\<exists>xs toggle. data_deref d = xs @
      [tail_into_u8 (tail_new (sc_offset sc = 0) (sc_is_exhausted sc') toggle (sc_transfer_id sc))]"
    "sc_transfer_id sc' = sc_transfer_id sc" by blast+
qed

lemma sc_fetch_eot:
  assumes "sc_inv sc b" "\<not> sc_is_exhausted sc" "transfer_id_wf (sc_transfer_id sc)"
    "sc_fetch_frame_data sc b m = Some (Some d, sc')"
  shows "is_eot_frame (tx_frame spec p item d) = Some (sc_is_exhausted sc')"
    "sc_transfer_id sc' = sc_transfer_id sc"
  using sc_fetch_tail [OF assms(1,2,4)] assms(3)
  by (auto simp: is_eot_frame_def tx_frame_def slice_last_def)

definition tids_ok :: "tx_contents \<Rightarrow> bool" where
  "tids_ok A \<longleftrightarrow> (\<forall>p. \<forall>i \<in> set (A p). transfer_id_wf (sc_transfer_id (ti_scatter i)))"

lemma tids_okD: "tids_ok A \<Longrightarrow> i \<in> set (A p) \<Longrightarrow> transfer_id_wf (sc_transfer_id (ti_scatter i))"
  unfolding tids_ok_def by blast

context tx_buffer
begin

lemma same_contents_ready:
  assumes "rep s A pad" "rep s' A' pad'" "\<And>p. A' p = [] \<longleftrightarrow> A p = []"
  shows "same_ready (ready s) (ready s')"
  using ready_rep [OF assms(1)] ready_rep [OF assms(2)] assms(3) by (simp add: same_ready_def)

lemma hosted_pop:
  assumes rep: "rep s A pad" and tids: "tids_ok A"
  shows "\<exists>fr s' A'. pop s pm m = Some (fr, s') \<and> rep s' A' pad \<and> tids_ok A' \<and>
    popped_ok spec (ready s) (ready s') pm m fr"
proof -
  obtain fr s' A' where p: "pop s pm m = Some (fr, s')" "rep s' A' pad" "tx_popped spec A pm m fr A'"
    using pop_rep [OF rep] by blast
  have adm: "admitted (A q) pm q \<longleftrightarrow> ps_contains (ps_and (ready s) pm) q" for q
    using ready_rep [OF rep, of q] by (auto simp: admitted_def)
  show ?thesis
  proof (cases fr)
    case None
    then have "A' = A" using p(3) by (simp add: tx_popped_def)
    then show ?thesis using p None adm tids same_contents_ready [OF rep p(2)]
      by (auto simp: tx_popped_def popped_ok_def ps_is_empty_iff)
  next
    case (Some f)
    then obtain q data sc where q: "admitted (A q) pm q" "\<forall>r. admitted (A r) pm r \<longrightarrow> q \<le> r"
      "sc_fetch_frame_data (ti_scatter (hd (A q))) (ti_bytes (hd (A q))) m = Some (Some data, sc)"
      "f = tx_frame spec q (hd (A q)) data" "A' = A(q := tx_advance (hd (A q)) sc @ tl (A q))"
      using p(3) by (auto simp: tx_popped_def)
    have first: "ps_first (ps_and (ready s) pm) = Some q" by (rule ps_first_eqI) (use q(1,2) adm in auto)
    have ne: "A q \<noteq> []" using q(1) by (simp add: admitted_def)
    then have item: "tx_item_wf (hd (A q))" "transfer_id_wf (sc_transfer_id (ti_scatter (hd (A q))))"
      using items_wf [OF rep] tids_okD [OF tids] hd_in_set by blast+
    note wf = item(1) [unfolded tx_item_wf_def]
    note eot = sc_fetch_eot [OF conjunct1 [OF wf] conjunct2 [OF wf] item(2) q(3)]
    have data: "data_deref data \<noteq> [] \<and> length (data_deref data) \<le> mtu_usize m"
      using sc_fetch_ok [of "ti_scatter (hd (A q))" "ti_bytes (hd (A q))" m] wf q(3) by auto
    have tl: "set (tl (A q)) \<subseteq> set (A q)" by (cases "A q") auto
    have "tids_ok A'"
      using tids item(2) eot(2) tl unfolding q(5) tids_ok_def by (auto simp: tx_advance_def)
    moreover have "is_eot_frame f = Some False \<Longrightarrow> ps_contains (ready s') q"
      using ready_rep [OF p(2), of q] eot(1) q(4,5) by (auto simp: tx_advance_def)
    moreover have "h_priority (f_header f) = q" "h_data_spec (f_header f) = spec" "f_data f = data"
      by (simp_all add: q(4) tx_frame_def)
    ultimately show ?thesis using p(1,2) Some first data by (auto simp: popped_ok_def)
  qed
qed

lemma hosted_scratchpad:
  assumes rep: "rep s A pad" and tids: "tids_ok A"
    and claims: "\<And>A A' p. claims A A' \<Longrightarrow> (A' p = [] \<longleftrightarrow> A p = []) \<and> set (A' p) \<subseteq> set (A p)"
  shows "\<exists>r s' A' pad'. scratchpad s = Some (r, s') \<and> rep s' A' pad' \<and> tids_ok A' \<and>
    (pad \<noteq> None \<longrightarrow> pad' \<noteq> None) \<and> (r \<noteq> None \<longrightarrow> pad' \<noteq> None) \<and> same_ready (ready s) (ready s')"
proof -
  obtain r s' where r: "scratchpad s = Some (r, s')" "case r of
      None \<Rightarrow> ps_is_empty (push_ready s) \<and> rep s' A pad
    | Some (ps, b) \<Rightarrow> ps = push_ready s \<and> push_ready s' = ps \<and> length b = B \<and>
        (\<exists>A'. claims A A' \<and> rep s' A' (Some b))" using scratchpad_rep [OF rep] by blast
  show ?thesis
  proof (cases r)
    case None
    then have "rep s' A pad" using r(2) by simp
    then show ?thesis using r(1) None tids same_contents_ready [OF rep] by blast
  next
    case (Some x)
    then obtain b A' where x: "claims A A'" "rep s' A' (Some b)" using r(2) by (cases x) auto
    have "tids_ok A'" using tids claims [OF x(1)] unfolding tids_ok_def by blast
    then show ?thesis using r(1) x(2) same_contents_ready [OF rep x(2)] claims [OF x(1)] by blast
  qed
qed

lemma hosted_push:
  assumes rep: "rep s A pad" and tids: "tids_ok A" and len: "len \<le> B" "transfer_id_wf (tm_transfer_id meta)"
    and accept: "\<And>A p i q. (A q \<noteq> [] \<longrightarrow> accept A p i q \<noteq> []) \<and> set (accept A p i q) \<subseteq> insert i (set (A q))"
  shows "\<exists>r s' A' pad'. push s meta len crc = Some (r, s') \<and> rep s' A' pad' \<and> tids_ok A' \<and>
    (\<forall>q. ps_contains (ready s) q \<longrightarrow> ps_contains (ready s') q) \<and>
    (\<forall>e. r = Inl e \<longrightarrow> same_ready (ready s) (ready s'))"
proof -
  obtain r s' where r: "push s meta len crc = Some (r, s')" "case (address meta, pad) of
        (Inl e, _) \<Rightarrow> r = Inl e \<and> rep s' A pad
      | (Inr a, None) \<Rightarrow> r \<in> {Inl PriorityNotReady, Inl ScratchpadNotInitialized} \<and> rep s' A pad
      | (Inr a, Some b) \<Rightarrow>
          if ps_contains (push_ready s) (tm_priority meta)
          then r = Inr () \<and> rep s' (accept A (tm_priority meta) (tx_item_of meta a b len crc)) None
          else r = Inl PriorityNotReady \<and> rep s' A pad"
    using push_rep [OF rep len(1)] by blast
  have "rep s' A pad \<and> (\<exists>e. r = Inl e) \<or>
      r = Inr () \<and> (\<exists>a b. rep s' (accept A (tm_priority meta) (tx_item_of meta a b len crc)) None)"
    using r(2) by (auto split: sum.splits option.splits if_splits)
  then show ?thesis
  proof (elim disjE conjE exE)
    assume s': "rep s' A pad"
    have "same_ready (ready s) (ready s')" by (rule same_contents_ready [OF rep s']) simp
    then show ?thesis using r(1) s' tids unfolding same_ready_def by blast
  next
    fix a b
    let ?A = "accept A (tm_priority meta) (tx_item_of meta a b len crc)"
    assume s': "r = Inr ()" "rep s' ?A None"
    have "transfer_id_wf (sc_transfer_id (ti_scatter (tx_item_of meta a b len crc)))"
      using len(2) by (simp add: tx_item_of_def sc_new_def)
    then have "tids_ok ?A" using tids accept unfolding tids_ok_def by blast
    moreover have "ps_contains (ready s) q \<longrightarrow> ps_contains (ready s') q" for q
      using ready_rep [OF rep] ready_rep [OF s'(2)] accept by blast
    ultimately show ?thesis using r(1) s' by blast
  qed
qed

end

end
