(* ===== verification/Tx_Dyn.thy ===== *)
theory Tx_Dyn
  imports Tx_Hosted
begin

text \<open>
  What stands behind \<open>dyn DynamicTxBuffer\<close>: for a publisher a blocking buffer or a signal, for
  a responder the response buffer. Each of them is a buffer the registries may host.
\<close>

section \<open>The buffers of publishers\<close>

datatype tx_msg_dyn = DynBlocking msg_blocking | DynSignal signal

fun dm_pop_readiness :: "tx_msg_dyn \<Rightarrow> priority_set" where
  "dm_pop_readiness (DynBlocking b) = mb_pop_readiness b"
| "dm_pop_readiness (DynSignal b) = sg_pop_readiness b"

fun dm_try_pop :: "tx_msg_dyn \<Rightarrow> priority_set \<Rightarrow> mtu \<Rightarrow> (frame option \<times> tx_msg_dyn) exec" where
  "dm_try_pop (DynBlocking b) pm m = do { (fr, b) \<leftarrow> mb_try_pop b pm m; ret (fr, DynBlocking b) }"
| "dm_try_pop (DynSignal b) pm m = do { (fr, b) \<leftarrow> sg_try_pop b pm m; ret (fr, DynSignal b) }"

fun dm_is_empty :: "tx_msg_dyn \<Rightarrow> bool" where
  "dm_is_empty (DynBlocking b) = mb_is_empty b"
| "dm_is_empty (DynSignal b) = sg_is_empty b"

fun dm_poll_is_empty :: "tx_msg_dyn \<Rightarrow> unit poll \<times> tx_msg_dyn" where
  "dm_poll_is_empty (DynBlocking b) = map_prod id DynBlocking (mb_poll_is_empty b)"
| "dm_poll_is_empty (DynSignal b) = map_prod id DynSignal (sg_poll_is_empty b)"

fun dm_push_readiness :: "tx_msg_dyn \<Rightarrow> priority_set" where
  "dm_push_readiness (DynBlocking b) = mb_push_readiness b"
| "dm_push_readiness (DynSignal b) = sg_push_readiness b"

fun dm_poll_push_readiness :: "tx_msg_dyn \<Rightarrow> priority_set \<Rightarrow> priority_set poll \<times> tx_msg_dyn" where
  "dm_poll_push_readiness (DynBlocking b) pm = map_prod id DynBlocking (mb_poll_push_readiness b pm)"
| "dm_poll_push_readiness (DynSignal b) pm = map_prod id DynSignal (sg_poll_push_readiness b pm)"

fun dm_get_scratchpad :: "tx_msg_dyn \<Rightarrow> ((priority_set \<times> u8 list) option \<times> tx_msg_dyn) exec" where
  "dm_get_scratchpad (DynBlocking b) = do { (r, b) \<leftarrow> mb_get_scratchpad b; ret (r, DynBlocking b) }"
| "dm_get_scratchpad (DynSignal b) = do { (r, b) \<leftarrow> sg_get_scratchpad b; ret (r, DynSignal b) }"

fun dm_write_scratchpad :: "tx_msg_dyn \<Rightarrow> u8 list \<Rightarrow> tx_msg_dyn exec" where
  "dm_write_scratchpad (DynBlocking b) bytes = do { b \<leftarrow> mb_write_scratchpad b bytes; ret (DynBlocking b) }"
| "dm_write_scratchpad (DynSignal b) bytes = do { b \<leftarrow> sg_write_scratchpad b bytes; ret (DynSignal b) }"

fun dm_try_push ::
  "tx_msg_dyn \<Rightarrow> transfer_meta \<Rightarrow> nat \<Rightarrow> transfer_crc \<Rightarrow> ((buffer_error + unit) \<times> tx_msg_dyn) exec" where
  "dm_try_push (DynBlocking b) meta len crc = do { (r, b) \<leftarrow> mb_try_push b meta len crc; ret (r, DynBlocking b) }"
| "dm_try_push (DynSignal b) meta len crc = do { (r, b) \<leftarrow> sg_try_push b meta len crc; ret (r, DynSignal b) }"

definition dm_vt :: "tx_msg_dyn tx_vtable" where
  "dm_vt = \<lparr> vt_pop_readiness = dm_pop_readiness, vt_try_pop = dm_try_pop, vt_is_empty = dm_is_empty,
     vt_poll_is_empty = dm_poll_is_empty, vt_push_readiness = dm_push_readiness,
     vt_poll_push_readiness = dm_poll_push_readiness, vt_get_scratchpad = dm_get_scratchpad,
     vt_write_scratchpad = dm_write_scratchpad, vt_try_push = dm_try_push \<rparr>"

fun dm_subject :: "tx_msg_dyn \<Rightarrow> subject_id" where
  "dm_subject (DynBlocking b) = mb_subject b"
| "dm_subject (DynSignal b) = sg_subject b"

definition dm_spec :: "tx_msg_dyn \<Rightarrow> data_specifier" where
  "dm_spec b = Message (dm_subject b)"

fun dm_priority :: "tx_msg_dyn \<Rightarrow> priority" where
  "dm_priority (DynBlocking b) = mb_priority b"
| "dm_priority (DynSignal b) = sg_priority b"

fun dm_capacity :: "tx_msg_dyn \<Rightarrow> nat" where
  "dm_capacity (DynBlocking b) = length (mb_buffer b)"
| "dm_capacity (DynSignal b) = length (hd (sg_buffers b))"

fun dm_lent :: "tx_msg_dyn \<Rightarrow> bool" where
  "dm_lent (DynBlocking b) = mb_scratchpad_provided b"
| "dm_lent (DynSignal b) = (sg_scratchpad_buffer_idx b \<noteq> None)"

fun dm_rep :: "subject_id \<Rightarrow> priority \<Rightarrow> nat \<Rightarrow> tx_msg_dyn \<Rightarrow> tx_contents \<Rightarrow> u8 list option \<Rightarrow> bool" where
  "dm_rep s q B (DynBlocking b) A pad = mb_rep s q B b A pad"
| "dm_rep s q B (DynSignal b) A pad = sg_rep s q B b A pad"

definition dm_ok :: "tx_msg_dyn \<Rightarrow> bool" where
  "dm_ok b \<longleftrightarrow> (\<exists>A pad. dm_rep (dm_subject b) (dm_priority b) (dm_capacity b) b A pad \<and> tids_ok A)"

lemma dm_repD:
  assumes "dm_rep s q B b A pad"
  shows "dm_subject b = s \<and> dm_priority b = q \<and> dm_capacity b = B \<and> (dm_lent b \<longleftrightarrow> pad \<noteq> None) \<and>
    (ps_contains (dm_pop_readiness b) r \<longrightarrow> r = q)"
proof (cases b)
  case (DynBlocking st)
  then show ?thesis using assms by (auto simp: mb_rep_def mb_pop_readiness_def)
next
  case (DynSignal st)
  then have rep: "sg_rep s q B st A pad" using assms by simp
  note r = sg_repD [OF rep]
  have "length (hd (sg_buffers st)) = B" using r(3,4) by (cases "sg_buffers st") auto
  then show ?thesis using r(1,2,8) DynSignal by (auto simp: sg_pop_readiness_def)
qed

lemma dm_okI: "dm_rep s q B b A pad \<Longrightarrow> tids_ok A \<Longrightarrow> dm_ok b"
  using dm_repD [of s q B b A pad] unfolding dm_ok_def by blast

lemma dm_okE:
  assumes "dm_ok b"
  obtains A pad where "dm_rep (dm_subject b) (dm_priority b) (dm_capacity b) b A pad" "tids_ok A"
  using assms unfolding dm_ok_def by blast

text \<open>A state of the same buffer after an operation.\<close>

lemma dm_after:
  assumes "dm_rep s q B b A pad" "dm_rep s q B b' A' pad'" "tids_ok A'"
  shows "dm_ok b'" "same_buffer dm_spec dm_capacity b b'" "dm_lent b' \<longleftrightarrow> pad' \<noteq> None"
    "dm_lent b \<longleftrightarrow> pad \<noteq> None" "dm_spec b = Message s" "dm_capacity b = B"
  using dm_repD [OF assms(1)] dm_repD [OF assms(2)] dm_okI [OF assms(2,3)]
  by (simp_all add: same_buffer_def dm_spec_def)

lemma append_item_accepts:
  "(A q \<noteq> [] \<longrightarrow> append_item A p i q \<noteq> []) \<and> set (append_item A p i q) \<subseteq> insert i (set (A q))"
  by (auto simp: append_item_def)

lemma replace_item_accepts:
  "(A q \<noteq> [] \<longrightarrow> replace_item A p i q \<noteq> []) \<and> set (replace_item A p i q) \<subseteq> insert i (set (A q))"
  by (auto simp: replace_item_def)

lemma may_drop_claims:
  "may_drop_unsent A A' \<Longrightarrow> (A' p = [] \<longleftrightarrow> A p = []) \<and> set (A' p) \<subseteq> set (A p)"
  by (auto simp: may_drop_unsent_def split: if_splits)

text \<open>The contract of the two buffers, for either.\<close>

lemma dm_pop:
  assumes "dm_rep s q B b A pad" "tids_ok A"
  shows "\<exists>fr b' A'. dm_try_pop b pm m = Some (fr, b') \<and> dm_rep s q B b' A' pad \<and> tids_ok A' \<and>
    popped_ok (Message s) (dm_pop_readiness b) (dm_pop_readiness b') pm m fr"
proof (cases b)
  case (DynBlocking st)
  then show ?thesis using mb.hosted_pop [of s q B st A pad pm m] assms by fastforce
next
  case (DynSignal st)
  then show ?thesis using sg.hosted_pop [of s q B st A pad pm m] assms by fastforce
qed

lemma dm_polls:
  assumes "dm_rep s q B b A pad"
  shows "dm_rep s q B (snd (dm_poll_is_empty b)) A pad"
    "dm_rep s q B (snd (dm_poll_push_readiness b pm)) A pad"
  using assms mb.poll_empty_rep sg.poll_empty_rep mb.poll_push_rep sg.poll_push_rep
  by (cases b; simp)+

lemma dm_same_ready:
  assumes "dm_rep s q B b A pad" "dm_rep s q B b' A pad'"
  shows "same_ready (dm_pop_readiness b) (dm_pop_readiness b')"
proof -
  have "ps_contains (dm_pop_readiness x) p \<longleftrightarrow> A p \<noteq> []" if "dm_rep s q B x A c" for x c p
    using that mb.ready_rep sg.ready_rep by (cases x) auto
  then show ?thesis using assms by (simp add: same_ready_def)
qed

lemma dm_scratchpad:
  assumes "dm_rep s q B b A pad" "tids_ok A"
  shows "\<exists>r b' A' pad'. dm_get_scratchpad b = Some (r, b') \<and> dm_rep s q B b' A' pad' \<and> tids_ok A' \<and>
    (pad \<noteq> None \<longrightarrow> pad' \<noteq> None) \<and> (r \<noteq> None \<longrightarrow> pad' \<noteq> None) \<and>
    same_ready (dm_pop_readiness b) (dm_pop_readiness b')"
proof (cases b)
  case (DynBlocking st)
  obtain r st' A' pad' where "mb_get_scratchpad st = Some (r, st')" "mb_rep s q B st' A' pad'" "tids_ok A'"
    "pad \<noteq> None \<longrightarrow> pad' \<noteq> None" "r \<noteq> None \<longrightarrow> pad' \<noteq> None" "same_ready (mb_pop_readiness st) (mb_pop_readiness st')"
    using mb.hosted_scratchpad [of s q B st A pad] assms DynBlocking by auto
  then show ?thesis using DynBlocking
    by (intro exI [of _ r] exI [of _ "DynBlocking st'"] exI [of _ A'] exI [of _ pad']) simp
next
  case (DynSignal st)
  have "\<exists>r st' A' pad'. sg_get_scratchpad st = Some (r, st') \<and> sg_rep s q B st' A' pad' \<and> tids_ok A' \<and>
    (pad \<noteq> None \<longrightarrow> pad' \<noteq> None) \<and> (r \<noteq> None \<longrightarrow> pad' \<noteq> None) \<and>
    same_ready (sg_pop_readiness st) (sg_pop_readiness st')"
    by (rule sg.hosted_scratchpad [where A = A]; use assms DynSignal may_drop_claims in simp)
  then obtain r st' A' pad' where "sg_get_scratchpad st = Some (r, st')" "sg_rep s q B st' A' pad'" "tids_ok A'"
    "pad \<noteq> None \<longrightarrow> pad' \<noteq> None" "r \<noteq> None \<longrightarrow> pad' \<noteq> None" "same_ready (sg_pop_readiness st) (sg_pop_readiness st')"
    by blast
  then show ?thesis using DynSignal
    by (intro exI [of _ r] exI [of _ "DynSignal st'"] exI [of _ A'] exI [of _ pad']) simp
qed

lemma dm_write:
  assumes "dm_rep s q B b A pad" "pad \<noteq> None" "length bytes = B"
  shows "\<exists>b'. dm_write_scratchpad b bytes = Some b' \<and> dm_rep s q B b' A (Some bytes)"
  using assms mb.write_rep [of s q B _ A _ bytes] sg.write_rep [of s q B _ A _ bytes] by (cases b) fastforce+

lemma dm_push:
  assumes "dm_rep s q B b A pad" "tids_ok A" "len \<le> B" "transfer_id_wf (tm_transfer_id meta)"
  shows "\<exists>r b' A' pad'. dm_try_push b meta len crc = Some (r, b') \<and> dm_rep s q B b' A' pad' \<and> tids_ok A' \<and>
    (\<forall>p. ps_contains (dm_pop_readiness b) p \<longrightarrow> ps_contains (dm_pop_readiness b') p) \<and>
    (\<forall>e. r = Inl e \<longrightarrow> same_ready (dm_pop_readiness b) (dm_pop_readiness b'))"
proof (cases b)
  case (DynBlocking st)
  have rep: "mb_rep s q B st A pad" using assms(1) DynBlocking by simp
  have "\<exists>r st' A' pad'. mb_try_push st meta len crc = Some (r, st') \<and> mb_rep s q B st' A' pad' \<and> tids_ok A' \<and>
    (\<forall>p. ps_contains (mb_pop_readiness st) p \<longrightarrow> ps_contains (mb_pop_readiness st') p) \<and>
    (\<forall>e. r = Inl e \<longrightarrow> same_ready (mb_pop_readiness st) (mb_pop_readiness st'))"
    by (rule mb.hosted_push [where A = A and pad = pad]; rule rep assms(2-4) append_item_accepts)
  then obtain r st' A' pad' where "mb_try_push st meta len crc = Some (r, st')" "mb_rep s q B st' A' pad'" "tids_ok A'"
    "\<forall>p. ps_contains (mb_pop_readiness st) p \<longrightarrow> ps_contains (mb_pop_readiness st') p"
    "\<forall>e. r = Inl e \<longrightarrow> same_ready (mb_pop_readiness st) (mb_pop_readiness st')"
    by blast
  then show ?thesis using DynBlocking
    by (intro exI [of _ r] exI [of _ "DynBlocking st'"] exI [of _ A'] exI [of _ pad']) simp
next
  case (DynSignal st)
  have rep: "sg_rep s q B st A pad" using assms(1) DynSignal by simp
  have "\<exists>r st' A' pad'. sg_try_push st meta len crc = Some (r, st') \<and> sg_rep s q B st' A' pad' \<and> tids_ok A' \<and>
    (\<forall>p. ps_contains (sg_pop_readiness st) p \<longrightarrow> ps_contains (sg_pop_readiness st') p) \<and>
    (\<forall>e. r = Inl e \<longrightarrow> same_ready (sg_pop_readiness st) (sg_pop_readiness st'))"
    by (rule sg.hosted_push [where A = A and pad = pad]; rule rep assms(2-4) replace_item_accepts)
  then obtain r st' A' pad' where "sg_try_push st meta len crc = Some (r, st')" "sg_rep s q B st' A' pad'" "tids_ok A'"
    "\<forall>p. ps_contains (sg_pop_readiness st) p \<longrightarrow> ps_contains (sg_pop_readiness st') p"
    "\<forall>e. r = Inl e \<longrightarrow> same_ready (sg_pop_readiness st) (sg_pop_readiness st')"
    by blast
  then show ?thesis using DynSignal
    by (intro exI [of _ r] exI [of _ "DynSignal st'"] exI [of _ A'] exI [of _ pad']) simp
qed

text \<open>A publisher has one priority, and so at most one is announced.\<close>

locale tx_single = tx_hosted vt ok spec capacity lent
  for vt :: "'b tx_vtable" and ok spec capacity lent +
  assumes single: "ok b \<Longrightarrow> ps_contains (vt_pop_readiness vt b) q \<Longrightarrow>
    ps_contains (vt_pop_readiness vt b) r \<Longrightarrow> q = r"

interpretation dm: tx_single dm_vt dm_ok dm_spec dm_capacity dm_lent
proof
  fix b :: tx_msg_dyn and pm m b' bytes len meta crc q r
  assume "dm_ok b"
  then obtain A pad where rep: "dm_rep (dm_subject b) (dm_priority b) (dm_capacity b) b A pad" "tids_ok A"
    by (rule dm_okE)
  note after = dm_after [OF rep(1)]
  show "\<exists>fr b'. vt_try_pop dm_vt b pm m = Some (fr, b') \<and> dm_ok b' \<and>
      same_buffer dm_spec dm_capacity b b' \<and> (dm_lent b \<longrightarrow> dm_lent b') \<and>
      popped_ok (dm_spec b) (vt_pop_readiness dm_vt b) (vt_pop_readiness dm_vt b') pm m fr"
    using dm_pop [OF rep, of pm m] after by (fastforce simp: dm_vt_def dm_spec_def)
  show "dm_ok b' \<and> same_buffer dm_spec dm_capacity b b' \<and> (dm_lent b \<longrightarrow> dm_lent b') \<and>
      same_ready (vt_pop_readiness dm_vt b) (vt_pop_readiness dm_vt b')"
    if "snd (vt_poll_is_empty dm_vt b) = b'"
    using that dm_polls(1) [OF rep(1)] after [OF _ rep(2)] dm_same_ready [OF rep(1)]
    by (auto simp: dm_vt_def)
  show "dm_ok b' \<and> same_buffer dm_spec dm_capacity b b' \<and> (dm_lent b \<longrightarrow> dm_lent b') \<and>
      same_ready (vt_pop_readiness dm_vt b) (vt_pop_readiness dm_vt b')"
    if "snd (vt_poll_push_readiness dm_vt b pm) = b'"
    using that dm_polls(2) [OF rep(1), of pm] after [OF _ rep(2)] dm_same_ready [OF rep(1)]
    by (auto simp: dm_vt_def)
  show "\<exists>r b'. vt_get_scratchpad dm_vt b = Some (r, b') \<and> dm_ok b' \<and>
      same_buffer dm_spec dm_capacity b b' \<and> (dm_lent b \<longrightarrow> dm_lent b') \<and> (r \<noteq> None \<longrightarrow> dm_lent b') \<and>
      same_ready (vt_pop_readiness dm_vt b) (vt_pop_readiness dm_vt b')"
    using dm_scratchpad [OF rep] after by (fastforce simp: dm_vt_def)
  show "\<exists>b'. vt_write_scratchpad dm_vt b bytes = Some b' \<and> dm_ok b' \<and>
      same_buffer dm_spec dm_capacity b b' \<and> dm_lent b' \<and>
      same_ready (vt_pop_readiness dm_vt b) (vt_pop_readiness dm_vt b')"
    if "dm_lent b" "length bytes = dm_capacity b"
  proof -
    have "pad \<noteq> None" using dm_repD [OF rep(1)] that(1) by blast
    from dm_write [OF rep(1) this that(2)] obtain b' where "dm_write_scratchpad b bytes = Some b'"
      "dm_rep (dm_subject b) (dm_priority b) (dm_capacity b) b' A (Some bytes)" by blast
    then show ?thesis using after [OF _ rep(2)] dm_same_ready [OF rep(1)] by (fastforce simp: dm_vt_def)
  qed
  show "\<exists>r b'. vt_try_push dm_vt b meta len crc = Some (r, b') \<and> dm_ok b' \<and>
      same_buffer dm_spec dm_capacity b b' \<and>
      (\<forall>q. ps_contains (vt_pop_readiness dm_vt b) q \<longrightarrow> ps_contains (vt_pop_readiness dm_vt b') q) \<and>
      (\<forall>e. r = Inl e \<longrightarrow> same_ready (vt_pop_readiness dm_vt b) (vt_pop_readiness dm_vt b'))"
    if "len \<le> dm_capacity b" "transfer_id_wf (tm_transfer_id meta)"
    using dm_push [OF rep that, of crc] after by (fastforce simp: dm_vt_def)
  show "q = r" if "ps_contains (vt_pop_readiness dm_vt b) q" "ps_contains (vt_pop_readiness dm_vt b) r"
    using that dm_repD [OF rep(1)] by (auto simp: dm_vt_def)
qed

section \<open>The buffers of responders\<close>

definition rb_vt :: "response_buffer tx_vtable" where
  "rb_vt = \<lparr> vt_pop_readiness = rb_pop_readiness, vt_try_pop = rb_try_pop, vt_is_empty = rb_is_empty,
     vt_poll_is_empty = rb_poll_is_empty, vt_push_readiness = rb_push_readiness,
     vt_poll_push_readiness = rb_poll_push_readiness, vt_get_scratchpad = rb_get_scratchpad,
     vt_write_scratchpad = rb_write_scratchpad, vt_try_push = rb_try_push \<rparr>"

definition rb_spec :: "response_buffer \<Rightarrow> data_specifier" where
  "rb_spec b = Response (rb_service b)"

definition rb_capacity :: "response_buffer \<Rightarrow> nat" where
  "rb_capacity b = length (hd (rb_buffers b))"

definition rb_lent :: "response_buffer \<Rightarrow> bool" where
  "rb_lent b \<longleftrightarrow> rb_scratchpad_buffer_idx b \<noteq> None"

definition rb_ok :: "response_buffer \<Rightarrow> bool" where
  "rb_ok b \<longleftrightarrow> (\<exists>A pad. rb_rep (rb_service b) (rb_capacity b) b A pad \<and> tids_ok A)"

lemma rb_repD:
  assumes "rb_rep s B b A pad"
  shows "rb_service b = s \<and> rb_capacity b = B \<and> (rb_lent b \<longleftrightarrow> pad \<noteq> None)"
proof -
  obtain f where r: "rb_service b = s" "length (rb_buffers b) = 8" "\<forall>x \<in> set (rb_buffers b). length x = B"
    "pad = map_option ((!) (rb_buffers b)) (rb_scratchpad_buffer_idx b)" using assms by (rule rb_repE)
  have "length (hd (rb_buffers b)) = B" using r(2,3) by (cases "rb_buffers b") auto
  then show ?thesis using r(1,4) by (simp add: rb_capacity_def rb_lent_def)
qed

lemma rb_after:
  assumes "rb_rep s B b A pad" "rb_rep s B b' A' pad'" "tids_ok A'"
  shows "rb_ok b'" "same_buffer rb_spec rb_capacity b b'" "rb_lent b' \<longleftrightarrow> pad' \<noteq> None"
    "rb_lent b \<longleftrightarrow> pad \<noteq> None"
  using rb_repD [OF assms(1)] rb_repD [OF assms(2)] assms(2,3)
  by (auto simp: same_buffer_def rb_spec_def rb_ok_def)

interpretation rbh: tx_hosted rb_vt rb_ok rb_spec rb_capacity rb_lent
proof
  fix b pm m b' bytes len meta crc
  assume "rb_ok b"
  then obtain A pad where rep: "rb_rep (rb_service b) (rb_capacity b) b A pad" "tids_ok A"
    unfolding rb_ok_def by blast
  note after = rb_after [OF rep(1)]
  show "\<exists>fr b'. vt_try_pop rb_vt b pm m = Some (fr, b') \<and> rb_ok b' \<and>
      same_buffer rb_spec rb_capacity b b' \<and> (rb_lent b \<longrightarrow> rb_lent b') \<and>
      popped_ok (rb_spec b) (vt_pop_readiness rb_vt b) (vt_pop_readiness rb_vt b') pm m fr"
    using rb.hosted_pop [OF rep, of pm m] after by (fastforce simp: rb_vt_def rb_spec_def)
  show "rb_ok b' \<and> same_buffer rb_spec rb_capacity b b' \<and> (rb_lent b \<longrightarrow> rb_lent b') \<and>
      same_ready (vt_pop_readiness rb_vt b) (vt_pop_readiness rb_vt b')"
    if "snd (vt_poll_is_empty rb_vt b) = b'"
    using that rb.poll_empty_rep [OF rep(1)] after [OF _ rep(2)] rb.same_contents_ready [OF rep(1)]
    by (auto simp: rb_vt_def)
  show "rb_ok b' \<and> same_buffer rb_spec rb_capacity b b' \<and> (rb_lent b \<longrightarrow> rb_lent b') \<and>
      same_ready (vt_pop_readiness rb_vt b) (vt_pop_readiness rb_vt b')"
    if "snd (vt_poll_push_readiness rb_vt b pm) = b'"
    using that rb.poll_push_rep [OF rep(1), of pm] after [OF _ rep(2)] rb.same_contents_ready [OF rep(1)]
    by (auto simp: rb_vt_def)
  show "\<exists>r b'. vt_get_scratchpad rb_vt b = Some (r, b') \<and> rb_ok b' \<and>
      same_buffer rb_spec rb_capacity b b' \<and> (rb_lent b \<longrightarrow> rb_lent b') \<and> (r \<noteq> None \<longrightarrow> rb_lent b') \<and>
      same_ready (vt_pop_readiness rb_vt b) (vt_pop_readiness rb_vt b')"
    using rb.hosted_scratchpad [OF rep] after by (fastforce simp: rb_vt_def)
  show "\<exists>b'. vt_write_scratchpad rb_vt b bytes = Some b' \<and> rb_ok b' \<and>
      same_buffer rb_spec rb_capacity b b' \<and> rb_lent b' \<and>
      same_ready (vt_pop_readiness rb_vt b) (vt_pop_readiness rb_vt b')"
    if "rb_lent b" "length bytes = rb_capacity b"
  proof -
    have "pad \<noteq> None" using rb_repD [OF rep(1)] that(1) by blast
    with rep(1) obtain old where old: "rb_rep (rb_service b) (rb_capacity b) b A (Some old)" by auto
    from rb.write_rep [OF old that(2)] obtain b' where "rb_write_scratchpad b bytes = Some b'"
      "rb_rep (rb_service b) (rb_capacity b) b' A (Some bytes)" by blast
    then show ?thesis using after [OF _ rep(2)] rb.same_contents_ready [OF rep(1)] by (fastforce simp: rb_vt_def)
  qed
  have push: "\<exists>r b' A' pad'. rb_try_push b meta len crc = Some (r, b') \<and>
      rb_rep (rb_service b) (rb_capacity b) b' A' pad' \<and> tids_ok A' \<and>
      (\<forall>q. ps_contains (rb_pop_readiness b) q \<longrightarrow> ps_contains (rb_pop_readiness b') q) \<and>
      (\<forall>e. r = Inl e \<longrightarrow> same_ready (rb_pop_readiness b) (rb_pop_readiness b'))"
    if "len \<le> rb_capacity b" "transfer_id_wf (tm_transfer_id meta)"
    by (rule rb.hosted_push [where A = A and pad = pad]; rule rep that append_item_accepts)
  show "\<exists>r b'. vt_try_push rb_vt b meta len crc = Some (r, b') \<and> rb_ok b' \<and>
      same_buffer rb_spec rb_capacity b b' \<and>
      (\<forall>q. ps_contains (vt_pop_readiness rb_vt b) q \<longrightarrow> ps_contains (vt_pop_readiness rb_vt b') q) \<and>
      (\<forall>e. r = Inl e \<longrightarrow> same_ready (vt_pop_readiness rb_vt b) (vt_pop_readiness rb_vt b'))"
    if "len \<le> rb_capacity b" "transfer_id_wf (tm_transfer_id meta)"
    using push [OF that] after by (fastforce simp: rb_vt_def)
qed

end
