(* ===== verification/Tx_Registry_Run.thy ===== *)
theory Tx_Registry_Run
  imports Tx_Dyn
begin

text \<open>
  The transmit registries at work. The steps of both are steps of the transmit queue; what they
  do to its entries is described once, and the invariants of the queue follow from that.
\<close>

section \<open>The steps of the queue\<close>

fun xq_step :: "'b tx_vtable \<Rightarrow> ('k, 'b) tx_reg_op \<Rightarrow> 'b tx_queue \<Rightarrow> 'b tx_queue exec" where
  "xq_step vt (TrRegister p k b) xq =
     xq_reg_register (vt_pop_readiness vt) (xq_set_entry xq p (Some (qe_new b))) p"
| "xq_step vt (TrUnregister p) xq = do { xq \<leftarrow> xq_reg_unregister xq p; ret (xq_set_entry xq p None) }"
| "xq_step vt (TrPollEmpty p) xq =
     do { (_, xq) \<leftarrow> xq_with_buffer_mut xq p (\<lambda>b. ret (vt_poll_is_empty vt b)); ret xq }"
| "xq_step vt (TrPollPush p pm) xq =
     do { (_, xq) \<leftarrow> xq_with_buffer_mut xq p (\<lambda>b. ret (vt_poll_push_readiness vt b pm)); ret xq }"
| "xq_step vt (TrGetScratchpad p) xq = do { (_, xq) \<leftarrow> xq_with_buffer_mut xq p (vt_get_scratchpad vt); ret xq }"
| "xq_step vt (TrWrite p bytes) xq =
     do { (_, xq) \<leftarrow> xq_with_buffer_mut xq p (writing (\<lambda>b. vt_write_scratchpad vt b bytes)); ret xq }"
| "xq_step vt (TrPush p meta len crc) xq = do {
     (res, xq) \<leftarrow> xq_with_buffer_mut xq p (\<lambda>b. vt_try_push vt b meta len crc);
     (case res of Inr _ \<Rightarrow> xq_reg_update_queue_position (vt_pop_readiness vt) xq p | Inl _ \<Rightarrow> ret xq)
   }"
| "xq_step vt (TrPop pm m) xq =
     (if ps_is_empty pm then ret xq
      else do { (_, xq) \<leftarrow> xq_hub_poll_pop (vt_pop_readiness vt) (vt_try_pop vt) xq pm m; ret xq })"

text \<open>What the endpoints keep: every address is used for one entry, and only while it lives.\<close>

definition at_buffer :: "'b tx_queue \<Rightarrow> ptr \<Rightarrow> ('b \<Rightarrow> bool) \<Rightarrow> bool" where
  "at_buffer xq p P \<longleftrightarrow> (case qs_entries (xq_queues xq) p of None \<Rightarrow> False | Some e \<Rightarrow> P (qe_buffer e))"

fun tr_ok :: "('b \<Rightarrow> bool) \<Rightarrow> ('b \<Rightarrow> nat) \<Rightarrow> ('b \<Rightarrow> bool) \<Rightarrow> ('k, 'b) tx_reg_op \<Rightarrow> 'b tx_queue \<Rightarrow> bool" where
  "tr_ok ok capacity lent (TrRegister p k b) xq = (qs_entries (xq_queues xq) p = None \<and> ok b)"
| "tr_ok ok capacity lent (TrUnregister p) xq = at_buffer xq p (\<lambda>b. True)"
| "tr_ok ok capacity lent (TrPollEmpty p) xq = at_buffer xq p (\<lambda>b. True)"
| "tr_ok ok capacity lent (TrPollPush p pm) xq = at_buffer xq p (\<lambda>b. True)"
| "tr_ok ok capacity lent (TrGetScratchpad p) xq = at_buffer xq p (\<lambda>b. True)"
| "tr_ok ok capacity lent (TrWrite p bytes) xq = at_buffer xq p (\<lambda>b. lent b \<and> length bytes = capacity b)"
| "tr_ok ok capacity lent (TrPush p meta len crc) xq =
     at_buffer xq p (\<lambda>b. len \<le> capacity b \<and> transfer_id_wf (tm_transfer_id meta))"
| "tr_ok ok capacity lent (TrPop pm m) xq = True"

text \<open>The entry a step of an endpoint is about.\<close>

fun tr_ptr :: "('k, 'b) tx_reg_op \<Rightarrow> ptr" where
  "tr_ptr (TrRegister p k b) = p"
| "tr_ptr (TrUnregister p) = p"
| "tr_ptr (TrPollEmpty p) = p"
| "tr_ptr (TrPollPush p pm) = p"
| "tr_ptr (TrGetScratchpad p) = p"
| "tr_ptr (TrWrite p bytes) = p"
| "tr_ptr (TrPush p meta len crc) = p"
| "tr_ptr (TrPop pm m) = 0"

fun tr_gone :: "('k, 'b) tx_reg_op \<Rightarrow> bool" where
  "tr_gone (TrUnregister p) = True"
| "tr_gone _ = False"

section \<open>What a step does to the entries\<close>

lemma same_ready_position:
  assumes "same_ready (r (qe_buffer e)) (r b)"
  shows "position r (e\<lparr> qe_buffer := b \<rparr>) = position r e"
proof -
  have "ps_first (r b) = ps_first (r (qe_buffer e))"
  proof (cases "ps_first (r (qe_buffer e))")
    case None
    then have "ps_first (r b) = None" using assms by (simp add: ps_first_None ps_is_empty_iff same_ready_def)
    then show ?thesis using None by simp
  next
    case (Some q)
    then have "ps_first (r b) = Some q" using assms by (simp add: ps_first_iff same_ready_def)
    then show ?thesis using Some by simp
  qed
  then show ?thesis by (simp add: position_def)
qed

text \<open>The entry stays, and its buffer announces at least what it did.\<close>

definition follows ::
  "('b \<Rightarrow> priority_set) \<Rightarrow> ('b \<Rightarrow> data_specifier) \<Rightarrow> 'b queue_entry \<Rightarrow> 'b queue_entry \<Rightarrow> bool" where
  "follows r spec e e' \<longleftrightarrow> qe_started e' = qe_started e \<and> spec (qe_buffer e') = spec (qe_buffer e) \<and>
     (\<forall>q. ps_contains (r (qe_buffer e)) q \<longrightarrow> ps_contains (r (qe_buffer e')) q)"

context tx_source
begin

lemma with_buffer_inv:
  assumes "xq_inv xq" "qs_entries (xq_queues xq) p = Some e" "f (qe_buffer e) = Some (res, b)" "ok b"
    "same_ready (readiness (qe_buffer e)) (readiness b)"
  shows "\<exists>xq'. xq_with_buffer_mut xq p f = Some (res, xq') \<and> xq_inv xq' \<and>
    qs_entries (xq_queues xq') = (qs_entries (xq_queues xq))(p \<mapsto> e\<lparr> qe_buffer := b \<rparr>)"
proof -
  let ?xq = "xq_set_entry xq p (Some (e\<lparr> qe_buffer := b \<rparr>))"
  have "qs_inv (xq_queues ?xq)"
    using xq_invD(1) [OF assms(1)] assms(2) unfolding qs_inv_iff by (auto simp: xq_set_entry_def)
  moreover have "qe_queue_mark e = position readiness e" using xq_invD(2) [OF assms(1,2)] by simp
  then have "qe_queue_mark (e\<lparr> qe_buffer := b \<rparr>) = position readiness (e\<lparr> qe_buffer := b \<rparr>)"
    using same_ready_position [where r = readiness and e = e, OF assms(5)] by simp
  then have "xq_inv ?xq"
    unfolding xq_inv_def using calculation xq_invD(2) [OF assms(1)] assms(4) by (auto simp: xq_set_entry_def)
  then show ?thesis using assms(2,3) by (simp add: xq_with_buffer_mut_def xq_set_entry_def)
qed

text \<open>An entry takes its position, all others having theirs.\<close>

lemma update_position_inv:
  assumes "qs_inv (xq_queues xq)" "qs_entries (xq_queues xq) p = Some e" "ok (qe_buffer e)"
    and others: "\<forall>r d. r \<noteq> p \<longrightarrow> qs_entries (xq_queues xq) r = Some d \<longrightarrow>
      qe_queue_mark d = position readiness d \<and> ok (qe_buffer d)"
  shows "\<exists>xq'. xq_reg_update_queue_position readiness xq p = Some xq' \<and> xq_inv xq' \<and>
    qs_entries (xq_queues xq') = (qs_entries (xq_queues xq))(p \<mapsto> e\<lparr> qe_queue_mark := position readiness e \<rparr>)"
  by (rule exE [OF xq_update_inv [OF assms(1-3)]]) (use others in auto)

text \<open>A buffer that changed and then takes its position.\<close>

lemma reposition_inv:
  assumes "xq_inv xq" "qs_entries (xq_queues xq) p = Some e" "ok b"
  shows "\<exists>xq'. xq_reg_update_queue_position readiness (xq_set_entry xq p (Some (e\<lparr> qe_buffer := b \<rparr>))) p = Some xq' \<and>
    xq_inv xq' \<and> qs_entries (xq_queues xq') = (qs_entries (xq_queues xq))
      (p \<mapsto> (e\<lparr> qe_buffer := b \<rparr>)\<lparr> qe_queue_mark := position readiness (e\<lparr> qe_buffer := b \<rparr>) \<rparr>)"
proof -
  let ?e = "e\<lparr> qe_buffer := b \<rparr>"
  let ?xq = "xq_set_entry xq p (Some ?e)"
  have inv: "qs_inv (xq_queues ?xq)"
    using xq_invD(1) [OF assms(1)] assms(2) unfolding qs_inv_iff by (auto simp: xq_set_entry_def)
  have e: "qs_entries (xq_queues ?xq) p = Some ?e" "ok (qe_buffer ?e)"
    "qs_entries (xq_queues ?xq) = (qs_entries (xq_queues xq))(p \<mapsto> ?e)"
    using assms(3) by (simp_all add: xq_set_entry_def)
  have others: "\<forall>r d. r \<noteq> p \<longrightarrow> qs_entries (xq_queues ?xq) r = Some d \<longrightarrow>
      qe_queue_mark d = position readiness d \<and> ok (qe_buffer d)"
    using xq_invD(2) [OF assms(1)] e(3) by simp
  obtain xq' where "xq_reg_update_queue_position readiness ?xq p = Some xq'" "xq_inv xq'"
    "qs_entries (xq_queues xq') = (qs_entries (xq_queues ?xq))(p \<mapsto> ?e\<lparr> qe_queue_mark := position readiness ?e \<rparr>)"
    using update_position_inv [OF inv e(1,2) others] by blast
  then show ?thesis unfolding e(3) by auto
qed

lemma register_inv:
  assumes "xq_inv xq" "qs_entries (xq_queues xq) p = None" "ok b"
  shows "\<exists>xq'. xq_reg_register readiness (xq_set_entry xq p (Some (qe_new b))) p = Some xq' \<and> xq_inv xq' \<and>
    qs_entries (xq_queues xq') = (qs_entries (xq_queues xq))
      (p \<mapsto> (qe_new b)\<lparr> qe_queue_mark := position readiness (qe_new b) \<rparr>)"
proof -
  let ?xq = "xq_set_entry xq p (Some (qe_new b))"
  have inv: "qs_inv (xq_queues ?xq)"
    using xq_invD(1) [OF assms(1)] assms(2) unfolding qs_inv_iff
    by (auto simp: xq_set_entry_def qe_new_def)
  have e: "qs_entries (xq_queues ?xq) p = Some (qe_new b)" "ok (qe_buffer (qe_new b))"
    "qs_entries (xq_queues ?xq) = (qs_entries (xq_queues xq))(p \<mapsto> qe_new b)"
    using assms(3) by (simp_all add: xq_set_entry_def qe_new_def)
  have others: "\<forall>r d. r \<noteq> p \<longrightarrow> qs_entries (xq_queues ?xq) r = Some d \<longrightarrow>
      qe_queue_mark d = position readiness d \<and> ok (qe_buffer d)"
    using xq_invD(2) [OF assms(1)] e(3) by simp
  obtain xq' where "xq_reg_update_queue_position readiness ?xq p = Some xq'" "xq_inv xq'"
    "qs_entries (xq_queues xq') = (qs_entries (xq_queues ?xq))
      (p \<mapsto> (qe_new b)\<lparr> qe_queue_mark := position readiness (qe_new b) \<rparr>)"
    using update_position_inv [OF inv e(1,2) others] by blast
  then show ?thesis unfolding e(3) xq_reg_register_def by auto
qed

lemma unregister_inv:
  assumes "xq_inv xq" "qs_entries (xq_queues xq) p = Some e"
  shows "\<exists>xq1. xq_reg_unregister xq p = Some xq1 \<and> xq_inv (xq_set_entry xq1 p None) \<and>
    qs_entries (xq_queues (xq_set_entry xq1 p None)) = (qs_entries (xq_queues xq))(p := None)"
proof -
  obtain qs where d: "qs_dequeue (xq_queues xq) p = Some qs" "qs_inv qs"
    "qs_entries qs = (qs_entries (xq_queues xq))(p \<mapsto> e\<lparr> qe_queue_mark := None \<rparr>)"
    using qs_dequeue_inv [OF xq_invD(1) [OF assms(1)] assms(2)] by blast
  let ?xq = "xq_set_entry (xq\<lparr> xq_queues := qs \<rparr>) p None"
  have entries: "qs_entries (xq_queues ?xq) = (qs_entries (xq_queues xq))(p := None)"
    using d(3) by (simp add: xq_set_entry_def)
  have "qs_inv (xq_queues ?xq)"
    using d(2,3) unfolding qs_inv_iff by (auto simp: xq_set_entry_def split: if_splits)
  then have "xq_inv ?xq" unfolding xq_inv_def entries using xq_invD(2) [OF assms(1)] by auto
  then show ?thesis using d(1) entries by (simp add: xq_reg_unregister_def)
qed

text \<open>The trigger is not part of the invariant.\<close>

lemma xq_inv_trigger [simp]: "xq_inv (xq\<lparr> xq_non_empty_trigger := t \<rparr>) = xq_inv xq"
  by (simp add: xq_inv_def)

end

text \<open>Three kinds of steps: one entry comes or changes, one goes, or the driver takes a frame.\<close>

lemma follows_mark [simp]: "follows r spec e (e'\<lparr> qe_queue_mark := m \<rparr>) = follows r spec e e'"
  by (simp add: follows_def)

context tx_hosted
begin

abbreviation "ready \<equiv> vt_pop_readiness vt"
abbreviation "entries xq \<equiv> qs_entries (xq_queues xq)"

definition local_step :: "bool \<Rightarrow> ptr \<Rightarrow> 'b tx_queue \<Rightarrow> 'b tx_queue \<Rightarrow> bool" where
  "local_step gone p xq xq' \<longleftrightarrow> (\<exists>e'. entries xq' = (entries xq)(p := e') \<and>
     (case (entries xq p, e') of
        (Some e, Some e') \<Rightarrow> \<not> gone \<and> follows ready spec e e'
      | (None, Some e') \<Rightarrow> \<not> gone \<and> qe_started e' = ps_NONE
      | (_, None) \<Rightarrow> gone))"

lemma local_with_buffer:
  assumes inv: "src.xq_inv xq" and e: "entries xq p = Some e"
    and f: "f (qe_buffer e) = Some (res, b)" "ok b" "same_buffer spec capacity (qe_buffer e) b"
      "same_ready (ready (qe_buffer e)) (ready b)"
  shows "\<exists>xq'. xq_with_buffer_mut xq p f = Some (res, xq') \<and> src.xq_inv xq' \<and>
    entries xq' = (entries xq)(p \<mapsto> e\<lparr> qe_buffer := b \<rparr>) \<and> local_step False p xq xq'"
proof -
  obtain xq' where x: "xq_with_buffer_mut xq p f = Some (res, xq')" "src.xq_inv xq'"
    "entries xq' = (entries xq)(p \<mapsto> e\<lparr> qe_buffer := b \<rparr>)"
    using src.with_buffer_inv [where f = f, OF inv e f(1,2,4)] by blast
  have "follows ready spec e (e\<lparr> qe_buffer := b \<rparr>)"
    using f(3,4) by (simp add: follows_def same_buffer_def same_ready_def)
  then have "local_step False p xq xq'"
    unfolding local_step_def using x(3) e by (intro exI [of _ "Some (e\<lparr> qe_buffer := b \<rparr>)"]) simp
  then show ?thesis using x by blast
qed

lemma at_bufferE:
  assumes "src.xq_inv xq" "at_buffer xq p P"
  obtains e where "entries xq p = Some e" "P (qe_buffer e)" "ok (qe_buffer e)"
  using assms src.xq_invD(2) [OF assms(1)] by (auto simp: at_buffer_def split: option.splits)

lemma push_step:
  assumes inv: "src.xq_inv xq" and op: "at_buffer xq p (\<lambda>b. len \<le> capacity b \<and> transfer_id_wf (tm_transfer_id meta))"
  shows "\<exists>xq'. xq_step vt (TrPush p meta len crc) xq = Some xq' \<and> src.xq_inv xq' \<and> local_step False p xq xq'"
proof -
  obtain e where e: "entries xq p = Some e" "len \<le> capacity (qe_buffer e)" "transfer_id_wf (tm_transfer_id meta)"
    "ok (qe_buffer e)" using at_bufferE [OF inv op] by blast
  obtain res b where b: "vt_try_push vt (qe_buffer e) meta len crc = Some (res, b)" "ok b"
    "same_buffer spec capacity (qe_buffer e) b"
    "\<forall>q. ps_contains (ready (qe_buffer e)) q \<longrightarrow> ps_contains (ready b) q"
    "\<forall>x. res = Inl x \<longrightarrow> same_ready (ready (qe_buffer e)) (ready b)"
    using push_hosted [OF e(4,2,3)] by blast
  show ?thesis
  proof (cases res)
    case (Inl x)
    then have "same_ready (ready (qe_buffer e)) (ready b)" using b(5) by blast
    from local_with_buffer [where f = "\<lambda>b. vt_try_push vt b meta len crc", OF inv e(1) b(1-3) this]
    show ?thesis using Inl by auto
  next
    case (Inr u)
    let ?xq = "xq_set_entry xq p (Some (e\<lparr> qe_buffer := b \<rparr>))"
    have w: "xq_with_buffer_mut xq p (\<lambda>b. vt_try_push vt b meta len crc) = Some (res, ?xq)"
      using e(1) b(1) by (simp add: xq_with_buffer_mut_def)
    obtain xq' where x: "xq_reg_update_queue_position ready ?xq p = Some xq'" "src.xq_inv xq'"
      "entries xq' = (entries xq)
        (p \<mapsto> (e\<lparr> qe_buffer := b \<rparr>)\<lparr> qe_queue_mark := position ready (e\<lparr> qe_buffer := b \<rparr>) \<rparr>)"
      using src.reposition_inv [OF inv e(1) b(2)] by blast
    have "follows ready spec e (e\<lparr> qe_buffer := b \<rparr>)"
      using b(3,4) by (simp add: follows_def same_buffer_def)
    then have "local_step False p xq xq'" unfolding local_step_def x(3) using e(1)
      by (intro exI [of _ "Some ((e\<lparr> qe_buffer := b \<rparr>)\<lparr> qe_queue_mark := position ready (e\<lparr> qe_buffer := b \<rparr>) \<rparr>)"]) simp
    then show ?thesis using w x(1,2) Inr by simp
  qed
qed

text \<open>Every step of an endpoint is local to its entry.\<close>

lemma endpoint_step:
  assumes inv: "src.xq_inv xq" and op: "tr_ok ok capacity lent op xq" "\<And>pm m. op \<noteq> TrPop pm m"
  shows "\<exists>xq'. xq_step vt op xq = Some xq' \<and> src.xq_inv xq' \<and> local_step (tr_gone op) (tr_ptr op) xq xq'"
proof (cases op)
  case (TrRegister p k b)
  then have p: "entries xq p = None" "ok b" using op(1) by simp_all
  obtain xq' where x: "xq_reg_register ready (xq_set_entry xq p (Some (qe_new b))) p = Some xq'" "src.xq_inv xq'"
    "entries xq' = (entries xq)(p \<mapsto> (qe_new b)\<lparr> qe_queue_mark := position ready (qe_new b) \<rparr>)"
    using src.register_inv [OF inv p] by blast
  then have "local_step False p xq xq'" unfolding local_step_def using p(1)
    by (intro exI [of _ "Some ((qe_new b)\<lparr> qe_queue_mark := position ready (qe_new b) \<rparr>)"]) (simp add: qe_new_def)
  then show ?thesis using x(1,2) TrRegister by simp
next
  case (TrUnregister p)
  then obtain e where e: "entries xq p = Some e" using at_bufferE [OF inv] op(1) by force
  obtain xq1 where x: "xq_reg_unregister xq p = Some xq1" "src.xq_inv (xq_set_entry xq1 p None)"
    "entries (xq_set_entry xq1 p None) = (entries xq)(p := None)"
    using src.unregister_inv [OF inv e] by blast
  then have "local_step True p xq (xq_set_entry xq1 p None)" unfolding local_step_def
    by (intro exI [of _ None]) (simp split: option.splits)
  then show ?thesis using x(1,2) TrUnregister by simp
next
  case (TrPollEmpty p)
  then obtain e where e: "entries xq p = Some e" "ok (qe_buffer e)" using at_bufferE [OF inv] op(1) by force
  obtain r b where b: "vt_poll_is_empty vt (qe_buffer e) = (r, b)" by (cases "vt_poll_is_empty vt (qe_buffer e)")
  note h = poll_empty_hosted [OF e(2), of b]
  show ?thesis
    using local_with_buffer [where f = "\<lambda>b. ret (vt_poll_is_empty vt b)", OF inv e(1), of r b] h b TrPollEmpty by auto
next
  case (TrPollPush p pm)
  then obtain e where e: "entries xq p = Some e" "ok (qe_buffer e)" using at_bufferE [OF inv] op(1) by force
  obtain r b where b: "vt_poll_push_readiness vt (qe_buffer e) pm = (r, b)"
    by (cases "vt_poll_push_readiness vt (qe_buffer e) pm")
  note h = poll_push_hosted [OF e(2), of pm b]
  show ?thesis
    using local_with_buffer [where f = "\<lambda>b. ret (vt_poll_push_readiness vt b pm)", OF inv e(1), of r b] h b TrPollPush
    by auto
next
  case (TrGetScratchpad p)
  then obtain e where e: "entries xq p = Some e" "ok (qe_buffer e)" using at_bufferE [OF inv] op(1) by force
  then show ?thesis
    using local_with_buffer [where f = "vt_get_scratchpad vt", OF inv e(1)] scratchpad_hosted [OF e(2)] TrGetScratchpad
    by force
next
  case (TrWrite p bytes)
  then obtain e where e: "entries xq p = Some e" "lent (qe_buffer e)" "length bytes = capacity (qe_buffer e)"
    "ok (qe_buffer e)" using at_bufferE [OF inv] op(1) by force
  obtain b where b: "vt_write_scratchpad vt (qe_buffer e) bytes = Some b" "ok b"
    "same_buffer spec capacity (qe_buffer e) b" "same_ready (ready (qe_buffer e)) (ready b)"
    using write_hosted [OF e(4,2,3)] by blast
  then have "writing (\<lambda>b. vt_write_scratchpad vt b bytes) (qe_buffer e) = Some ((), b)" by (simp add: writing_def)
  from local_with_buffer [where f = "writing (\<lambda>b. vt_write_scratchpad vt b bytes)", OF inv e(1) this b(2-4)]
  show ?thesis using TrWrite by auto
next
  case (TrPush p meta len crc)
  then show ?thesis using push_step [OF inv] op(1) by simp
next
  case (TrPop pm m)
  then show ?thesis using op(2) by blast
qed

section \<open>What the driver takes\<close>

text \<open>The frame of an entry in the most urgent position that the mask admits.\<close>

definition taken :: "priority_set \<Rightarrow> 'b tx_queue \<Rightarrow> frame \<Rightarrow> ptr \<Rightarrow> bool \<Rightarrow> 'b tx_queue \<Rightarrow> bool" where
  "taken pm xq f p eot xq' \<longleftrightarrow> (\<exists>e e' t. entries xq p = Some e \<and> entries xq' = (entries xq)(p \<mapsto> e') \<and>
     position ready e = Some (h_priority (f_header f), t) \<and> ps_contains pm (h_priority (f_header f)) \<and>
     (t = Finished \<longrightarrow> (\<forall>r d. entries xq r = Some d \<longrightarrow>
       position ready d \<noteq> Some (h_priority (f_header f), Started))) \<and>
     (\<forall>r d s u. entries xq r = Some d \<longrightarrow> position ready d = Some (s, u) \<longrightarrow> ps_contains pm s \<longrightarrow>
       h_priority (f_header f) \<le> s) \<and>
     h_data_spec (f_header f) = spec (qe_buffer e) \<and> spec (qe_buffer e') = spec (qe_buffer e) \<and>
     is_eot_frame f = Some eot \<and>
     qe_started e' = (if eot then ps_remove (qe_started e) (h_priority (f_header f))
       else ps_insert (qe_started e) (h_priority (f_header f))) \<and>
     (\<not> eot \<longrightarrow> ps_contains (ready (qe_buffer e')) (h_priority (f_header f))))"

lemma pop_step:
  assumes inv: "src.xq_inv xq"
  shows "\<exists>res xq'. xq_hub_poll_pop ready (vt_try_pop vt) xq pm m = Some (res, xq') \<and> src.xq_inv xq' \<and>
    (case res of
       Pending \<Rightarrow> entries xq' = entries xq \<and>
         (\<forall>p e q t. entries xq p = Some e \<longrightarrow> position ready e = Some (q, t) \<longrightarrow> \<not> ps_contains pm q)
     | Ready f \<Rightarrow> \<exists>p eot. taken pm xq f p eot xq')"
  using src.hub_try_pop_inv [OF inv, of pm m]
proof (elim disjE exE conjE)
  assume none: "xq_hub_try_pop ready (vt_try_pop vt) xq pm m = Some (None, xq)"
    "\<forall>p e q t. entries xq p = Some e \<longrightarrow> position ready e = Some (q, t) \<longrightarrow> \<not> ps_contains pm q"
  then show ?thesis using inv by (simp add: xq_hub_poll_pop_def)
next
  fix f p e b q t eot xq'
  assume s: "xq_hub_try_pop ready (vt_try_pop vt) xq pm m = Some (Some f, xq')" "src.xq_inv xq'"
    "entries xq p = Some e" "first_ptr (qs_get_queue (xq_queues xq) (q, t)) = Some p"
    "ps_contains pm q" "t = Finished \<longrightarrow> qs_get_queue (xq_queues xq) (q, Started) = []"
    "\<forall>r d s u. entries xq r = Some d \<longrightarrow> position ready d = Some (s, u) \<longrightarrow> ps_contains pm s \<longrightarrow> q \<le> s"
    "vt_try_pop vt (qe_buffer e) (ps_new_eq q) m = Some (Some f, b)" "h_priority (f_header f) = q"
    "is_eot_frame f = Some eot"
    "entries xq' = (entries xq)
        (p \<mapsto> (src.sent_entry e b q eot)\<lparr> qe_queue_mark := position ready (src.sent_entry e b q eot) \<rparr>)"
  have ok: "ok (qe_buffer e)" using src.xq_invD(2) [OF inv s(3)] by simp
  have "p \<in> set (qs_get_queue (xq_queues xq) (q, t))"
    using s(4) by (cases "qs_get_queue (xq_queues xq) (q, t)") (auto simp: first_ptr_def)
  then have pos: "position ready e = Some (q, t)" using src.xq_inv_queue [OF inv] s(3) by auto
  have fin: "position ready d \<noteq> Some (q, Started)" if "t = Finished" "entries xq r = Some d" for r d
    using s(6) that src.xq_inv_queue [OF inv, of r "(q, Started)"] by auto
  obtain fr b' where "vt_try_pop vt (qe_buffer e) (ps_new_eq q) m = Some (fr, b')"
    "same_buffer spec capacity (qe_buffer e) b'"
    "popped_ok (spec (qe_buffer e)) (ready (qe_buffer e)) (ready b') (ps_new_eq q) m fr"
    using pop_hosted [OF ok] by blast
  then have b: "same_buffer spec capacity (qe_buffer e) b"
    "popped_ok (spec (qe_buffer e)) (ready (qe_buffer e)) (ready b) (ps_new_eq q) m (Some f)" using s(8) by simp_all
  have "taken pm xq f p eot xq'"
    unfolding taken_def using s(3,5,7,9-11) pos fin b
    by (intro exI [of _ e] exI [of _ "(src.sent_entry e b q eot)\<lparr> qe_queue_mark := position ready (src.sent_entry e b q eot) \<rparr>"]
        exI [of _ t]) (auto simp: popped_ok_def src.sent_entry_def same_buffer_def)
  then show ?thesis using s(1,2) by (auto simp: xq_hub_poll_pop_def)
qed

text \<open>No step fails, and the invariant holds after it.\<close>

lemma step_total:
  assumes inv: "src.xq_inv xq" and op: "tr_ok ok capacity lent op xq"
  shows "\<exists>xq'. xq_step vt op xq = Some xq' \<and> src.xq_inv xq' \<and>
    (case op of
       TrPop pm m \<Rightarrow> entries xq' = entries xq \<or> (\<exists>f p eot. taken pm xq f p eot xq')
     | _ \<Rightarrow> local_step (tr_gone op) (tr_ptr op) xq xq')"
proof (cases "\<exists>pm m. op = TrPop pm m")
  case False
  then show ?thesis using endpoint_step [OF inv op] by (auto split: tx_reg_op.splits)
next
  case True
  then obtain pm m where pop: "op = TrPop pm m" by blast
  obtain res xq' where x: "xq_hub_poll_pop ready (vt_try_pop vt) xq pm m = Some (res, xq')" "src.xq_inv xq'"
    "case res of
       Pending \<Rightarrow> entries xq' = entries xq \<and>
         (\<forall>p e q t. entries xq p = Some e \<longrightarrow> position ready e = Some (q, t) \<longrightarrow> \<not> ps_contains pm q)
     | Ready f \<Rightarrow> \<exists>p eot. taken pm xq f p eot xq'" using pop_step [OF inv] by blast
  have "entries xq' = entries xq \<or> (\<exists>f p eot. taken pm xq f p eot xq')" using x(3) by (cases res) auto
  then show ?thesis using x(1,2) pop inv by auto
qed

end

section \<open>Transfers are not interleaved\<close>

context tx_single
begin

definition one_started :: "'b tx_queue \<Rightarrow> bool" where
  "one_started xq \<longleftrightarrow>
     (\<forall>p e q. entries xq p = Some e \<longrightarrow> ps_contains (qe_started e) q \<longrightarrow> ps_contains (ready (qe_buffer e)) q) \<and>
     (\<forall>p r e d q. entries xq p = Some e \<longrightarrow> entries xq r = Some d \<longrightarrow> ps_contains (qe_started e) q \<longrightarrow>
       ps_contains (qe_started d) q \<longrightarrow> p = r)"

lemma one_startedD:
  assumes "one_started xq" "entries xq p = Some e" "ps_contains (qe_started e) q"
  shows "ps_contains (ready (qe_buffer e)) q" "entries xq r = Some d \<Longrightarrow> ps_contains (qe_started d) q \<Longrightarrow> r = p"
  using assms unfolding one_started_def by blast+

lemma started_position:
  assumes "src.xq_inv xq" "one_started xq" "entries xq p = Some e" "ps_contains (qe_started e) q"
  shows "position ready e = Some (q, Started)"
proof -
  have q: "ps_contains (ready (qe_buffer e)) q" by (rule one_startedD(1) [OF assms(2-4)])
  have "ok (qe_buffer e)" using src.xq_invD(2) [OF assms(1,3)] by simp
  then have "ps_first (ready (qe_buffer e)) = Some q" using single q by (auto simp: ps_first_iff)
  then show ?thesis using assms(4) by (simp add: position_def)
qed

lemma position_ready: "position ready e = Some (q, t) \<Longrightarrow> ps_contains (ready (qe_buffer e)) q"
  by (auto simp: position_def ps_first_iff)

lemma position_started: "position ready e = Some (q, Started) \<Longrightarrow> ps_contains (qe_started e) q"
  by (auto simp: position_def split: if_splits)

lemma local_step_started:
  assumes "local_step gone p xq xq'" "entries xq' r = Some e'" "ps_contains (qe_started e') q"
  obtains e where "entries xq r = Some e" "ps_contains (qe_started e) q" "spec (qe_buffer e') = spec (qe_buffer e)"
    "ps_contains (ready (qe_buffer e)) q \<longrightarrow> ps_contains (ready (qe_buffer e')) q"
  using assms by (cases "entries xq p"; cases "r = p")
    (auto simp: local_step_def follows_def split: option.splits)

lemma one_started_local:
  assumes "one_started xq" "local_step gone p xq xq'"
  shows "one_started xq'"
  unfolding one_started_def
proof (intro conjI allI impI)
  fix r e' q
  assume r: "entries xq' r = Some e'" "ps_contains (qe_started e') q"
  obtain e where "entries xq r = Some e" "ps_contains (qe_started e) q"
    "ps_contains (ready (qe_buffer e)) q \<longrightarrow> ps_contains (ready (qe_buffer e')) q"
    by (rule local_step_started [OF assms(2) r])
  then show "ps_contains (ready (qe_buffer e')) q" using one_startedD(1) [OF assms(1)] by blast
next
  fix r s e' d' q
  assume r: "entries xq' r = Some e'" "entries xq' s = Some d'" "ps_contains (qe_started e') q" "ps_contains (qe_started d') q"
  obtain e where "entries xq r = Some e" "ps_contains (qe_started e) q" by (rule local_step_started [OF assms(2) r(1,3)])
  moreover obtain d where "entries xq s = Some d" "ps_contains (qe_started d) q"
    by (rule local_step_started [OF assms(2) r(2,4)])
  ultimately show "r = s" using one_startedD(2) [OF assms(1)] by blast
qed

text \<open>While a transfer is started, its priority serves no other one.\<close>

lemma taken_started:
  assumes inv: "src.xq_inv xq" "one_started xq" and f: "taken pm xq f p eot xq'"
    and d: "entries xq r = Some d" "ps_contains (qe_started d) (h_priority (f_header f))"
  shows "p = r"
proof -
  obtain e t where e: "entries xq p = Some e" "position ready e = Some (h_priority (f_header f), t)"
    "t = Finished \<longrightarrow> (\<forall>r d. entries xq r = Some d \<longrightarrow> position ready d \<noteq> Some (h_priority (f_header f), Started))"
    using f unfolding taken_def by blast
  have "t = Started" using e(3) d(1) started_position [OF inv d] by (cases t) auto
  then have "ps_contains (qe_started e) (h_priority (f_header f))" using e(2) position_started by blast
  then show ?thesis using one_startedD(2) [OF inv(2) d e(1)] by simp
qed

lemma one_started_taken:
  assumes inv: "src.xq_inv xq" "one_started xq" and f: "taken pm xq f p eot xq'"
  shows "one_started xq'"
proof -
  let ?q = "h_priority (f_header f)"
  obtain e e' t where e: "entries xq p = Some e" "entries xq' = (entries xq)(p \<mapsto> e')"
    "position ready e = Some (?q, t)"
    "qe_started e' = (if eot then ps_remove (qe_started e) ?q else ps_insert (qe_started e) ?q)"
    "\<not> eot \<longrightarrow> ps_contains (ready (qe_buffer e')) ?q" using f unfolding taken_def by blast
  have only: "s = ?q" if "ps_contains (qe_started e) s" for s
    using started_position [OF inv e(1) that] e(3) by simp
  have e': "ps_contains (qe_started e') s \<longleftrightarrow> s = ?q \<and> \<not> eot" for s
    using e(4) only by auto
  show ?thesis unfolding one_started_def
  proof (intro conjI allI impI)
    fix r d s
    assume "entries xq' r = Some d" "ps_contains (qe_started d) s"
    then show "ps_contains (ready (qe_buffer d)) s"
      using e(2,5) e' one_startedD(1) [OF inv(2), of r d s] by (auto split: if_splits)
  next
    fix r s d c u
    assume a: "entries xq' r = Some d" "entries xq' s = Some c" "ps_contains (qe_started d) u" "ps_contains (qe_started c) u"
    have to_p: "v = p" if "entries xq v = Some x" "ps_contains (qe_started x) ?q" for v x
      using taken_started [OF inv f that] by simp
    show "r = s"
      using a e(2) e' to_p one_startedD(2) [OF inv(2)] by (auto split: if_splits)
  qed
qed

lemma step_cases:
  assumes inv: "src.xq_inv xq" and op: "tr_ok ok capacity lent op xq" "xq_step vt op xq = Some xq'"
  obtains (endpoint) "\<And>pm m. op \<noteq> TrPop pm m" "local_step (tr_gone op) (tr_ptr op) xq xq'"
    | (nothing) pm m where "op = TrPop pm m" "entries xq' = entries xq"
    | (frame) pm m f p eot where "op = TrPop pm m" "taken pm xq f p eot xq'"
proof -
  have "case op of
       TrPop pm m \<Rightarrow> entries xq' = entries xq \<or> (\<exists>f p eot. taken pm xq f p eot xq')
     | _ \<Rightarrow> local_step (tr_gone op) (tr_ptr op) xq xq'" using step_total [OF inv op(1)] op(2) by auto
  then show ?thesis using that by (cases op) auto
qed

lemma one_started_step:
  assumes inv: "src.xq_inv xq" "one_started xq" and op: "tr_ok ok capacity lent op xq" "xq_step vt op xq = Some xq'"
  shows "one_started xq'"
  using inv(1) op
proof (cases rule: step_cases)
  case endpoint
  then show ?thesis using one_started_local [OF inv(2)] by blast
next
  case (nothing pm m)
  then show ?thesis using inv(2) by (simp add: one_started_def)
next
  case (frame pm m f p eot)
  then show ?thesis using one_started_taken [OF inv] by blast
qed

text \<open>A started transfer stays started until the driver takes from its priority.\<close>

lemma started_step:
  assumes inv: "src.xq_inv xq" "one_started xq" and op: "tr_ok ok capacity lent op xq" "xq_step vt op xq = Some xq'"
    and e: "entries xq p = Some e" "ps_contains (qe_started e) q"
    and keep: "op \<noteq> TrUnregister p" "\<And>pm m. op = TrPop pm m \<Longrightarrow> \<not> ps_contains pm q"
  shows "\<exists>e'. entries xq' p = Some e' \<and> ps_contains (qe_started e') q \<and> spec (qe_buffer e') = spec (qe_buffer e)"
  using inv(1) op
proof (cases rule: step_cases)
  case endpoint
  show ?thesis
  proof (cases "tr_ptr op = p")
    case True
    have "\<not> tr_gone op" using keep(1) True by (cases op) auto
    then show ?thesis using endpoint(2) True e by (auto simp: local_step_def follows_def split: option.splits)
  next
    case False
    then show ?thesis using endpoint(2) e by (auto simp: local_step_def)
  qed
next
  case (nothing pm m)
  then show ?thesis using e by simp
next
  case (frame pm m f r eot)
  obtain d d' t where d: "entries xq r = Some d" "entries xq' = (entries xq)(r \<mapsto> d')"
    "position ready d = Some (h_priority (f_header f), t)" "ps_contains pm (h_priority (f_header f))"
    using frame(2) unfolding taken_def by blast
  have "h_priority (f_header f) \<noteq> q" using keep(2) frame(1) d(4) by blast
  then have "r \<noteq> p" using d(1,3) e started_position [OF inv e] by auto
  then show ?thesis using d(2) e by simp
qed

end

end
