(* ===== verification/Tx_Registry_Specs.thy ===== *)
theory Tx_Registry_Specs
  imports Tx_Registry_Run
begin

text \<open>The properties of the registries of the transmitters.\<close>

section \<open>Reachable states\<close>

text \<open>A publisher registers the buffer that was made for its subject.\<close>

fun mx_ok ::
  "('b \<Rightarrow> bool) \<Rightarrow> ('b \<Rightarrow> data_specifier) \<Rightarrow> ('b \<Rightarrow> nat) \<Rightarrow> ('b \<Rightarrow> bool) \<Rightarrow>
    (subject_id, 'b) tx_reg_op \<Rightarrow> 'b tx_msg_inner \<Rightarrow> bool" where
  "mx_ok ok spec capacity lent (TrRegister p s b) st =
     (tr_ok ok capacity lent (TrRegister p s b) (mx_queue st) \<and> spec b = Message s)"
| "mx_ok ok spec capacity lent op st = tr_ok ok capacity lent op (mx_queue st)"

lemma mx_ok_tr: "mx_ok ok spec capacity lent op st \<Longrightarrow> tr_ok ok capacity lent op (mx_queue st)"
  by (cases "(ok, spec, capacity, lent, op, st)" rule: mx_ok.cases) auto

inductive mx_reach ::
  "'b tx_vtable \<Rightarrow> ('b \<Rightarrow> bool) \<Rightarrow> ('b \<Rightarrow> data_specifier) \<Rightarrow> ('b \<Rightarrow> nat) \<Rightarrow> ('b \<Rightarrow> bool) \<Rightarrow>
    'b tx_msg_inner \<Rightarrow> bool"
  for vt ok spec capacity lent where
  mx_start: "mx_reach vt ok spec capacity lent mx_default"
| mx_next: "mx_reach vt ok spec capacity lent st \<Longrightarrow> mx_ok ok spec capacity lent op st \<Longrightarrow>
    mx_step vt op st = Some st' \<Longrightarrow> mx_reach vt ok spec capacity lent st'"

inductive sx_reach ::
  "'b tx_vtable \<Rightarrow> ('b \<Rightarrow> bool) \<Rightarrow> ('b \<Rightarrow> nat) \<Rightarrow> ('b \<Rightarrow> bool) \<Rightarrow> 'b tx_resp_inner \<Rightarrow> bool"
  for vt ok capacity lent where
  sx_start: "sx_reach vt ok capacity lent sx_default"
| sx_next: "sx_reach vt ok capacity lent st \<Longrightarrow> tr_ok ok capacity lent op (sx_queue st) \<Longrightarrow>
    sx_step vt op st = Some st' \<Longrightarrow> sx_reach vt ok capacity lent st'"

inductive_cases mx_reachE: "mx_reach vt ok spec capacity lent st"

section \<open>The steps of the registries are steps of the queue\<close>

lemma sx_step_queue:
  "sx_step vt op st = map_option (\<lambda>xq. st\<lparr> sx_queue := xq \<rparr>) (xq_step vt op (sx_queue st))"
proof (cases op)
  case (TrPush p meta len crc)
  then show ?thesis
    by (cases "xq_with_buffer_mut (sx_queue st) p (\<lambda>b. vt_try_push vt b meta len crc)")
      (auto simp: sx_try_push_def sx_with_buffer_mut_def sx_reg_update_queue_position_def
        split: sum.splits bind_splits)
qed (auto simp: sx_register_def sx_reg_register_def sx_entry_new_def sx_unregister_def sx_reg_unregister_def
    sx_poll_is_empty_def sx_poll_push_readiness_def sx_get_scratchpad_def sx_with_buffer_mut_def
    sx_poll_pop_def sx_hub_poll_pop_def split: bind_splits)

text \<open>A publisher that comes or goes concerns the tree; all other steps are those of the queue.\<close>

lemma mx_step_queue:
  assumes "\<And>p s b. op \<noteq> TrRegister p s b" "\<And>p. op \<noteq> TrUnregister p"
  shows "mx_step vt op st = map_option (\<lambda>xq. st\<lparr> mx_queue := xq \<rparr>) (xq_step vt op (mx_queue st))"
proof (cases op)
  case (TrPush p meta len crc)
  then show ?thesis
    by (cases "xq_with_buffer_mut (mx_queue st) p (\<lambda>b. vt_try_push vt b meta len crc)")
      (auto simp: mx_try_push_def mx_with_buffer_mut_def mx_reg_update_queue_position_def
        split: sum.splits bind_splits)
qed (use assms in \<open>auto simp: mx_poll_is_empty_def mx_poll_push_readiness_def mx_get_scratchpad_def
    mx_with_buffer_mut_def mx_poll_pop_def mx_hub_poll_pop_def split: bind_splits\<close>)

text \<open>Every publisher is in the tree, once, and no two have the same subject.\<close>

definition mx_inv :: "('b \<Rightarrow> data_specifier) \<Rightarrow> 'b tx_msg_inner \<Rightarrow> bool" where
  "mx_inv spec st \<longleftrightarrow> distinct (mx_entry_tree st) \<and>
     set (mx_entry_tree st) = dom (qs_entries (xq_queues (mx_queue st))) \<and>
     dom (mx_subjects st) = dom (qs_entries (xq_queues (mx_queue st))) \<and>
     (\<forall>p r s. mx_subjects st p = Some s \<longrightarrow> mx_subjects st r = Some s \<longrightarrow> p = r) \<and>
     (\<forall>p e s. qs_entries (xq_queues (mx_queue st)) p = Some e \<longrightarrow> mx_subjects st p = Some s \<longrightarrow>
       spec (qe_buffer e) = Message s)"

lemma mx_invD:
  assumes "mx_inv spec st"
  shows "distinct (mx_entry_tree st)" "set (mx_entry_tree st) = dom (qs_entries (xq_queues (mx_queue st)))"
    "dom (mx_subjects st) = dom (qs_entries (xq_queues (mx_queue st)))"
    "mx_subjects st p = Some s \<Longrightarrow> mx_subjects st r = Some s \<Longrightarrow> p = r"
    "qs_entries (xq_queues (mx_queue st)) p = Some e \<Longrightarrow> mx_subjects st p = Some s \<Longrightarrow>
       spec (qe_buffer e) = Message s"
  using assms unfolding mx_inv_def by blast+

lemma qs_get_default [simp]: "qs_get_queue qs_default qid = []"
  by (cases "(qs_default, qid)" rule: qs_get_queue.cases) (auto simp: qs_default_def)

lemma qs_default_sel [simp]:
  "qs_entries qs_default p = None" "qs_started qs_default q = []" "qs_finished qs_default q = []"
  "qs_started_priorities qs_default = ps_NONE" "qs_finished_priorities qs_default = ps_NONE"
  by (simp_all add: qs_default_def)

lemma qs_default_inv: "qs_inv qs_default"
  by (simp add: qs_inv_def)

context tx_hosted
begin

text \<open>The identity of the buffers survives every step.\<close>

lemma step_keeps_entries:
  assumes inv: "src.xq_inv xq" and op: "tr_ok ok capacity lent op xq" "xq_step vt op xq = Some xq'"
    and other: "\<And>p s b. op \<noteq> TrRegister p s b" "\<And>p. op \<noteq> TrUnregister p"
  shows "dom (entries xq') = dom (entries xq)"
    "entries xq' p = Some e' \<Longrightarrow> \<exists>e. entries xq p = Some e \<and> spec (qe_buffer e') = spec (qe_buffer e)"
proof -
  have "case op of
       TrPop pm m \<Rightarrow> entries xq' = entries xq \<or> (\<exists>f p eot. taken pm xq f p eot xq')
     | _ \<Rightarrow> local_step (tr_gone op) (tr_ptr op) xq xq'" using step_total [OF inv op(1)] op(2) by auto
  moreover have "entries xq (tr_ptr op) \<noteq> None \<and> \<not> tr_gone op" if "\<And>pm m. op \<noteq> TrPop pm m"
    using op(1) other that by (cases op) (auto simp: at_buffer_def split: option.splits)
  ultimately have "\<exists>r d d'. entries xq r = Some d \<and> entries xq' = (entries xq)(r \<mapsto> d') \<and>
      spec (qe_buffer d') = spec (qe_buffer d) \<or> entries xq' = entries xq"
    by (cases "\<exists>pm m. op = TrPop pm m")
      (fastforce simp: taken_def local_step_def follows_def split: tx_reg_op.splits option.splits)+
  then have r: "dom (entries xq') = dom (entries xq) \<and>
    (\<forall>p e'. entries xq' p = Some e' \<longrightarrow> (\<exists>e. entries xq p = Some e \<and> spec (qe_buffer e') = spec (qe_buffer e)))"
    by (elim exE disjE conjE) (auto split: if_splits)
  show "dom (entries xq') = dom (entries xq)" using r by blast
  show "entries xq' p = Some e' \<Longrightarrow> \<exists>e. entries xq p = Some e \<and> spec (qe_buffer e') = spec (qe_buffer e)"
    using r by blast
qed

lemma mx_step_other:
  assumes inv: "mx_inv spec st" "src.xq_inv (mx_queue st)" and op: "mx_ok ok spec capacity lent op st"
    and other: "\<And>p s b. op \<noteq> TrRegister p s b" "\<And>p. op \<noteq> TrUnregister p"
  shows "\<exists>xq'. xq_step vt op (mx_queue st) = Some xq' \<and> mx_step vt op st = Some (st\<lparr> mx_queue := xq' \<rparr>) \<and>
    src.xq_inv xq' \<and> mx_inv spec (st\<lparr> mx_queue := xq' \<rparr>)"
proof -
  obtain xq' where x: "xq_step vt op (mx_queue st) = Some xq'" "src.xq_inv xq'"
    using step_total [OF inv(2) mx_ok_tr [OF op]] by blast
  note keep = step_keeps_entries [OF inv(2) mx_ok_tr [OF op] x(1) other]
  have spec': "spec (qe_buffer e') = Message s" if "entries xq' p = Some e'" "mx_subjects st p = Some s" for p e' s
    using keep(2) [OF that(1)] mx_invD(5) [OF inv(1) _ that(2)] by auto
  have "mx_inv spec (st\<lparr> mx_queue := xq' \<rparr>)"
    unfolding mx_inv_def using mx_invD(1-4) [OF inv(1)] keep(1) spec' by auto
  then show ?thesis using x mx_step_queue [OF other] by auto
qed

lemma mx_step_register:
  assumes inv: "mx_inv spec st" "src.xq_inv (mx_queue st)" and op: "mx_ok ok spec capacity lent (TrRegister p s b) st"
  shows "if s \<in> ran (mx_subjects st)
    then mx_register vt (mx_entry_new st p s b) p = Some (Inl DataSpecifierOccupied, mx_entry_new st p s b) \<and>
      mx_entry_drop (mx_entry_new st p s b) p = st
    else \<exists>st'. mx_register vt (mx_entry_new st p s b) p = Some (Inr p, st') \<and>
      xq_step vt (TrRegister p s b) (mx_queue st) = Some (mx_queue st') \<and>
      mx_subjects st' = (mx_subjects st)(p \<mapsto> s) \<and> src.xq_inv (mx_queue st') \<and> mx_inv spec st'"
proof -
  let ?st = "mx_entry_new st p s b"
  note r = mx_invD [OF inv(1)]
  have p: "entries (mx_queue st) p = None" "ok b" "spec b = Message s" using op by simp_all
  have sub: "mx_subjects st p = None" and tree: "p \<notin> set (mx_entry_tree st)" using p(1) r(2,3) by blast+
  have key: "mx_key ?st q = s \<longleftrightarrow> mx_subjects st q = Some s" if "q \<in> set (mx_entry_tree st)" for q
    using that r(2,3) tree by (auto simp: mx_key_def mx_entry_new_def split: option.splits)
  show ?thesis
  proof (cases "s \<in> ran (mx_subjects st)")
    case True
    then obtain q where "mx_subjects st q = Some s" by (auto simp: ran_def)
    then have "q \<in> set (mx_entry_tree st) \<and> mx_key ?st q = s" using key r(2,3) by blast
    then have "find (\<lambda>q. mx_key ?st q = s) (mx_entry_tree st) \<noteq> None" by (auto simp: find_None_iff)
    then obtain x where "find (\<lambda>q. mx_key ?st q = s) (mx_entry_tree ?st) = Some x" by (auto simp: mx_entry_new_def)
    then have "mx_register vt ?st p = Some (Inl DataSpecifierOccupied, ?st)"
      by (simp add: mx_register_def mx_reg_register_def) (simp add: mx_entry_new_def)
    moreover have "mx_entry_drop ?st p = st" using p(1) sub
      by (simp add: mx_entry_drop_def mx_entry_new_def xq_set_entry_def fun_upd_idem)
    ultimately show ?thesis using True by simp
  next
    case False
    then have "mx_subjects st q \<noteq> Some s" for q by (auto simp: ran_def)
    then have none: "find (\<lambda>q. mx_key ?st q = s) (mx_entry_tree ?st) = None"
      using key by (auto simp: find_None_iff mx_entry_new_def)
    obtain xq' where x: "xq_step vt (TrRegister p s b) (mx_queue st) = Some xq'" "src.xq_inv xq'"
      using step_total [OF inv(2) mx_ok_tr [OF op]] by blast
    have x': "entries xq' = (entries (mx_queue st))(p \<mapsto> (qe_new b)\<lparr> qe_queue_mark := position ready (qe_new b) \<rparr>)"
      using src.register_inv [OF inv(2) p(1,2)] x(1) by auto
    let ?tree = "insert_after (mx_entry_tree st) (upper_bound (mx_key ?st) s (mx_entry_tree st)) p"
    let ?st' = "?st\<lparr> mx_entry_tree := ?tree, mx_queue := xq' \<rparr>"
    have run: "mx_register vt ?st p = Some (Inr p, ?st')"
      using none x(1) tree by (simp add: mx_register_def mx_reg_register_def Let_def) (simp add: mx_entry_new_def)
    have "mx_inv spec ?st'"
      unfolding mx_inv_def using insert_after_perm [OF r(1) tree] r(2-5) x' p(3) False
      by (auto simp: mx_entry_new_def ran_def qe_new_def)
    then show ?thesis using run x False by (auto simp: mx_entry_new_def)
  qed
qed

lemma mx_step_unregister:
  assumes inv: "mx_inv spec st" "src.xq_inv (mx_queue st)" and op: "mx_ok ok spec capacity lent (TrUnregister p) st"
  shows "\<exists>st'. mx_step vt (TrUnregister p) st = Some st' \<and> xq_step vt (TrUnregister p) (mx_queue st) = Some (mx_queue st') \<and>
    src.xq_inv (mx_queue st') \<and> mx_inv spec st' \<and> mx_subjects st' = (mx_subjects st)(p := None)"
proof -
  note r = mx_invD [OF inv(1)]
  obtain e where e: "entries (mx_queue st) p = Some e" using op by (auto simp: at_buffer_def split: option.splits)
  then have p: "p \<in> set (mx_entry_tree st)" using r(2) by auto
  obtain xs ys where t: "mx_entry_tree st = xs @ p # ys" "p \<notin> set xs" "p \<notin> set ys"
    "remove_ptr p (mx_entry_tree st) = Some (first_ptr ys, xs @ ys)" by (rule remove_ptr_in [OF p r(1)])
  obtain xq1 where x: "xq_reg_unregister (mx_queue st) p = Some xq1" "src.xq_inv (xq_set_entry xq1 p None)"
    "entries (xq_set_entry xq1 p None) = (entries (mx_queue st))(p := None)"
    using src.unregister_inv [OF inv(2) e] by blast
  let ?st' = "mx_entry_drop (st\<lparr> mx_entry_tree := xs @ ys, mx_queue := xq1 \<rparr>) p"
  have run: "mx_step vt (TrUnregister p) st = Some ?st'"
    using t(4) x(1) by (simp add: mx_unregister_def mx_reg_unregister_def)
  have "set (xs @ ys) = dom (entries (mx_queue st)) - {p}" using t(1-3) r(2) by auto
  moreover have "distinct (xs @ ys)" using t(1) r(1) by simp
  ultimately have "mx_inv spec ?st'"
    unfolding mx_inv_def using r(3-5) x(3) by (auto simp: mx_entry_drop_def)
  then show ?thesis using run x(1,2) by (auto simp: mx_entry_drop_def)
qed

text \<open>No step of a registry fails.\<close>

lemma mx_step_total:
  assumes inv: "mx_inv spec st" "src.xq_inv (mx_queue st)" and op: "mx_ok ok spec capacity lent op st"
  shows "\<exists>st'. mx_step vt op st = Some st' \<and> mx_inv spec st' \<and> src.xq_inv (mx_queue st') \<and>
    (mx_queue st' = mx_queue st \<or> xq_step vt op (mx_queue st) = Some (mx_queue st'))"
proof -
  consider p s b where "op = TrRegister p s b" | p where "op = TrUnregister p"
    | "\<And>p s b. op \<noteq> TrRegister p s b" "\<And>p. op \<noteq> TrUnregister p" by blast
  then show ?thesis
  proof cases
    case (1 p s b)
    then show ?thesis using mx_step_register [OF inv, of p s b] op inv by (auto split: if_splits)
  next
    case (2 p)
    then show ?thesis using mx_step_unregister [OF inv, of p] op by auto
  next
    case 3
    then show ?thesis using mx_step_other [OF inv op 3] by auto
  qed
qed

lemma mx_default_inv: "mx_inv spec mx_default" "src.xq_inv (mx_queue mx_default)"
  by (auto simp add: mx_inv_def src.xq_inv_def mx_default_def xq_default_def qs_default_inv)

lemma mx_reach_inv:
  assumes "mx_reach vt ok spec capacity lent st"
  shows "mx_inv spec st \<and> src.xq_inv (mx_queue st)"
  using assms
proof induction
  case mx_start
  show ?case using mx_default_inv by blast
next
  case (mx_next st op st')
  then show ?case using mx_step_total [of st op] by auto
qed

lemma sx_reach_inv:
  assumes "sx_reach vt ok capacity lent st"
  shows "src.xq_inv (sx_queue st)"
  using assms
proof induction
  case sx_start
  show ?case using mx_default_inv(2) by (simp add: sx_default_def mx_default_def)
next
  case (sx_next st op st')
  then show ?case using step_total [of "sx_queue st" op] by (auto simp: sx_step_queue)
qed

end

section \<open>A started transfer goes on\<close>

text \<open>What the endpoints and the driver do while nothing is taken from a priority.\<close>

fun tr_spares :: "ptr \<Rightarrow> priority \<Rightarrow> ('k, 'b) tx_reg_op \<Rightarrow> bool" where
  "tr_spares p q (TrUnregister r) = (r \<noteq> p)"
| "tr_spares p q (TrPop pm m) = (\<not> ps_contains pm q)"
| "tr_spares p q _ = True"

fun mx_oks ::
  "'b tx_vtable \<Rightarrow> ('b \<Rightarrow> bool) \<Rightarrow> ('b \<Rightarrow> data_specifier) \<Rightarrow> ('b \<Rightarrow> nat) \<Rightarrow> ('b \<Rightarrow> bool) \<Rightarrow>
    (subject_id, 'b) tx_reg_op list \<Rightarrow> 'b tx_msg_inner \<Rightarrow> bool" where
  "mx_oks vt ok spec capacity lent [] st = True"
| "mx_oks vt ok spec capacity lent (op # ops) st = (mx_ok ok spec capacity lent op st \<and>
     (case mx_step vt op st of None \<Rightarrow> False | Some st' \<Rightarrow> mx_oks vt ok spec capacity lent ops st'))"

context tx_single
begin

lemma mx_reach_started:
  assumes "mx_reach vt ok spec capacity lent st"
  shows "one_started (mx_queue st)"
  using assms
proof induction
  case mx_start
  show ?case by (simp add: one_started_def mx_default_def xq_default_def)
next
  case (mx_next st op st')
  note inv = mx_reach_inv [OF mx_next.hyps(1)]
  have "mx_queue st' = mx_queue st \<or> xq_step vt op (mx_queue st) = Some (mx_queue st')"
    using mx_step_total [OF _ _ mx_next.hyps(2)] inv mx_next.hyps(3) by auto
  then show ?case
    using one_started_step [OF conjunct2 [OF inv] mx_next.IH mx_ok_tr [OF mx_next.hyps(2)]] mx_next.IH by auto
qed

lemma mx_started_step:
  assumes reach: "mx_reach vt ok spec capacity lent st" and op: "mx_ok ok spec capacity lent op st" "mx_step vt op st = Some st'"
    and e: "entries (mx_queue st) p = Some e" "ps_contains (qe_started e) q" and spares: "tr_spares p q op"
  shows "\<exists>e'. entries (mx_queue st') p = Some e' \<and> ps_contains (qe_started e') q \<and>
    spec (qe_buffer e') = spec (qe_buffer e)"
proof -
  note inv = mx_reach_inv [OF reach]
  have keep: "op \<noteq> TrUnregister p" "\<And>pm m. op = TrPop pm m \<Longrightarrow> \<not> ps_contains pm q" using spares by auto
  have "mx_queue st' = mx_queue st \<or> xq_step vt op (mx_queue st) = Some (mx_queue st')"
    using mx_step_total [OF _ _ op(1)] inv op(2) by auto
  then show ?thesis
    using started_step [OF conjunct2 [OF inv] mx_reach_started [OF reach] mx_ok_tr [OF op(1)] _ e keep] e by auto
qed

lemma mx_started_run:
  "mx_reach vt ok spec capacity lent st \<Longrightarrow> mx_oks vt ok spec capacity lent ops st \<Longrightarrow>
    for_each (mx_step vt) ops st = Some st' \<Longrightarrow> list_all (tr_spares p q) ops \<Longrightarrow>
    entries (mx_queue st) p = Some e \<Longrightarrow> ps_contains (qe_started e) q \<Longrightarrow>
    mx_reach vt ok spec capacity lent st' \<and> (\<exists>e'. entries (mx_queue st') p = Some e' \<and>
      ps_contains (qe_started e') q \<and> spec (qe_buffer e') = spec (qe_buffer e))"
proof (induction ops arbitrary: st e)
  case (Cons op ops)
  obtain st1 where s1: "mx_step vt op st = Some st1" "mx_ok ok spec capacity lent op st"
    "mx_oks vt ok spec capacity lent ops st1" "for_each (mx_step vt) ops st1 = Some st'"
    using Cons.prems(2,3) by (auto split: option.splits)
  obtain e1 where e1: "entries (mx_queue st1) p = Some e1" "ps_contains (qe_started e1) q"
    "spec (qe_buffer e1) = spec (qe_buffer e)"
    using mx_started_step [OF Cons.prems(1) s1(2,1) Cons.prems(5,6)] Cons.prems(4) by auto
  have "mx_reach vt ok spec capacity lent st1" by (rule mx_next [OF Cons.prems(1) s1(2,1)])
  from Cons.IH [OF this s1(3,4) _ e1(1,2)] Cons.prems(4) e1(3) show ?case by simp
qed simp

text \<open>What a poll of the registry takes.\<close>

lemma mx_poll_taken:
  assumes reach: "mx_reach vt ok spec capacity lent st" and pop: "mx_poll_pop vt st pm m = Some (Ready f, st')"
  obtains p eot where "taken pm (mx_queue st) f p eot (mx_queue st')" "mx_subjects st' = mx_subjects st"
    "mx_reach vt ok spec capacity lent st'"
proof -
  have ne: "\<not> ps_is_empty pm" using pop by (auto simp: mx_poll_pop_def split: if_splits)
  obtain xq where x: "xq_hub_poll_pop ready (vt_try_pop vt) (mx_queue st) pm m = Some (Ready f, xq)"
    "st' = st\<lparr> mx_queue := xq \<rparr>"
    using pop ne by (auto simp: mx_poll_pop_def mx_hub_poll_pop_def split: bind_splits)
  obtain p eot where "taken pm (mx_queue st) f p eot xq"
    using pop_step [OF conjunct2 [OF mx_reach_inv [OF reach]], of pm m] x(1) by auto
  moreover have "mx_reach vt ok spec capacity lent st'"
    using mx_next [OF reach, of "TrPop pm m" st'] pop by simp
  ultimately show ?thesis using that x(2) by simp
qed

lemma transfer_goes_on:
  assumes reach: "mx_reach vt ok spec capacity lent st"
    and e: "entries (mx_queue st) p = Some e" "ps_contains (qe_started e) q" and pm: "ps_contains pm q"
  shows "\<exists>f st'. mx_poll_pop vt st pm m = Some (Ready f, st') \<and> h_priority (f_header f) \<le> q \<and>
    (h_priority (f_header f) = q \<longrightarrow> h_data_spec (f_header f) = spec (qe_buffer e))"
proof -
  note inv = conjunct2 [OF mx_reach_inv [OF reach]] and one = mx_reach_started [OF reach]
  have pos: "position ready e = Some (q, Started)" by (rule started_position [OF inv one e])
  have ne: "\<not> ps_is_empty pm" using pm by (auto simp: ps_is_empty_iff)
  obtain res xq where x: "xq_hub_poll_pop ready (vt_try_pop vt) (mx_queue st) pm m = Some (res, xq)"
    "case res of
       Pending \<Rightarrow> entries xq = entries (mx_queue st) \<and>
         (\<forall>p e q t. entries (mx_queue st) p = Some e \<longrightarrow> position ready e = Some (q, t) \<longrightarrow> \<not> ps_contains pm q)
     | Ready f \<Rightarrow> \<exists>p eot. taken pm (mx_queue st) f p eot xq" using pop_step [OF inv, of pm m] by blast
  have "res \<noteq> Pending" using x(2) e(1) pos pm by auto
  then obtain f where f: "res = Ready f" by (cases res) auto
  then obtain r eot where t: "taken pm (mx_queue st) f r eot xq" using x(2) by auto
  have "h_priority (f_header f) \<le> q" using t e(1) pos pm unfolding taken_def by blast
  moreover have "h_data_spec (f_header f) = spec (qe_buffer e)" if "h_priority (f_header f) = q"
  proof -
    have "r = p" using taken_started [OF inv one t e(1)] e(2) that by simp
    then show ?thesis using t e(1) unfolding taken_def by auto
  qed
  ultimately show ?thesis using x(1) f ne by (simp add: mx_poll_pop_def mx_hub_poll_pop_def)
qed

end

section \<open>Properties\<close>

abbreviation "msg_reach \<equiv> mx_reach dm_vt dm_ok dm_spec dm_capacity dm_lent"
abbreviation "msg_ok \<equiv> mx_ok dm_ok dm_spec dm_capacity dm_lent"
abbreviation "resp_reach \<equiv> sx_reach rb_vt rb_ok rb_capacity rb_lent"
abbreviation "msg_entries st \<equiv> qs_entries (xq_queues (mx_queue st))"

text \<open>
  No interleaving of publishers, responders and the driver makes a transmit registry panic.
  Endpoints register, serialize, push, poll and unregister, the driver takes frames, in any
  order: no step fails, and every state that is reached keeps the queue in order.
\<close>

theorem tx_registries_never_panic:
  "(msg_reach st \<longrightarrow> msg_ok op st \<longrightarrow> (\<exists>st'. mx_step dm_vt op st = Some st' \<and> msg_reach st')) \<and>
   (resp_reach rst \<longrightarrow> tr_ok rb_ok rb_capacity rb_lent rop (sx_queue rst) \<longrightarrow>
     (\<exists>rst'. sx_step rb_vt rop rst = Some rst' \<and> resp_reach rst'))"
proof (intro conjI impI)
  assume st: "msg_reach st" "msg_ok op st"
  then show "\<exists>st'. mx_step dm_vt op st = Some st' \<and> msg_reach st'"
    using dm.mx_step_total [of st op] dm.mx_reach_inv [of st] mx_next [OF st] by blast
next
  assume st: "resp_reach rst" "tr_ok rb_ok rb_capacity rb_lent rop (sx_queue rst)"
  obtain xq where "xq_step rb_vt rop (sx_queue rst) = Some xq"
    using rbh.step_total [OF rbh.sx_reach_inv [OF st(1)] st(2)] by blast
  then have "sx_step rb_vt rop rst = Some (rst\<lparr> sx_queue := xq \<rparr>)" by (simp add: sx_step_queue)
  then show "\<exists>rst'. sx_step rb_vt rop rst = Some rst' \<and> resp_reach rst'" using sx_next [OF st] by blast
qed

text \<open>A publisher and a responder to try the properties on.\<close>

definition sample_dm :: "nat \<Rightarrow> tx_msg_dyn" where
  "sample_dm n = DynBlocking (mb_new (SubjectId 7) Nominal (replicate n 0))"

lemma sample_dm_ok: "dm_ok (sample_dm n)" "dm_spec (sample_dm n) = Message (SubjectId 7)" "dm_capacity (sample_dm n) = n"
proof -
  have "mb_rep (SubjectId 7) Nominal n (mb_new (SubjectId 7) Nominal (replicate n 0)) (\<lambda>p. []) None"
    by (rule mb_rep_new) simp
  then show "dm_ok (sample_dm n)" unfolding sample_dm_def
    by (intro dm_okI [where s = "SubjectId 7" and q = Nominal and B = n and A = "\<lambda>p. []" and pad = None])
      (simp_all add: tids_ok_def)
  show "dm_spec (sample_dm n) = Message (SubjectId 7)" "dm_capacity (sample_dm n) = n"
    by (simp_all add: sample_dm_def dm_spec_def mb_new_def)
qed

lemma tx_registries_never_panic_witness:
  "(\<exists>st'. mx_step dm_vt (TrRegister 1 (SubjectId 7) (sample_dm 9)) mx_default = Some st' \<and> msg_reach st') \<and>
   (\<exists>rst'. sx_step rb_vt (TrPop ps_ALL Classic) sx_default = Some rst' \<and> resp_reach rst')"
proof -
  have "msg_ok (TrRegister 1 (SubjectId 7) (sample_dm 9)) mx_default"
    by (simp add: sample_dm_ok) (simp add: mx_default_def xq_default_def qs_default_def)
  then show ?thesis
    using tx_registries_never_panic [of mx_default "TrRegister 1 (SubjectId 7) (sample_dm 9)" sx_default
        "TrPop ps_ALL Classic"] mx_start sx_start by (simp only: tr_ok.simps simp_thms) blast
qed

text \<open>
  C17: The driver gets the most urgent frame. A poll of the publishers' registry is pending when no
  publisher that the mask admits has a frame; otherwise it returns a frame of one that does, and
  none that the mask admits has a more urgent one.
\<close>

theorem tx_poll_pop_most_urgent:
  assumes "msg_reach st"
  shows "\<exists>res st'. mx_poll_pop dm_vt st pm m = Some (res, st') \<and> msg_reach st' \<and>
    (case res of
       Pending \<Rightarrow> \<forall>p e q. msg_entries st p = Some e \<longrightarrow> ps_contains (dm_pop_readiness (qe_buffer e)) q \<longrightarrow> \<not> ps_contains pm q
     | Ready f \<Rightarrow> ps_contains pm (h_priority (f_header f)) \<and>
         (\<exists>p e s. msg_entries st p = Some e \<and> mx_subjects st p = Some s \<and> h_data_spec (f_header f) = Message s \<and>
           ps_contains (dm_pop_readiness (qe_buffer e)) (h_priority (f_header f))) \<and>
         (\<forall>r d q. msg_entries st r = Some d \<longrightarrow> ps_contains (dm_pop_readiness (qe_buffer d)) q \<longrightarrow>
           ps_contains pm q \<longrightarrow> h_priority (f_header f) \<le> q))"
proof -
  have ready: "vt_pop_readiness dm_vt = dm_pop_readiness" by (simp add: dm_vt_def)
  have try_pop: "vt_try_pop dm_vt = dm_try_pop" by (simp add: dm_vt_def)
  have inv: "mx_inv dm_spec st" "dm.src.xq_inv (mx_queue st)" using dm.mx_reach_inv [OF assms] by blast+
  have first: "\<exists>t. position dm_pop_readiness e = Some (q, t)"
    if "msg_entries st p = Some e" "ps_contains (dm_pop_readiness (qe_buffer e)) q" for p e q
  proof -
    have "dm_ok (qe_buffer e)" using dm.src.xq_invD(2) [OF inv(2) that(1)] by simp
    then have "ps_first (dm_pop_readiness (qe_buffer e)) = Some q"
      using dm.single that(2) by (auto simp: ps_first_iff ready)
    then show ?thesis by (simp add: position_def)
  qed
  show ?thesis
  proof (cases "ps_is_empty pm")
    case True
    then have "mx_poll_pop dm_vt st pm m = Some (Pending, st)" by (simp add: mx_poll_pop_def)
    then show ?thesis using True assms by (simp add: ps_is_empty_iff)
  next
    case False
    obtain res xq' where x: "xq_hub_poll_pop dm_pop_readiness dm_try_pop (mx_queue st) pm m = Some (res, xq')"
      "case res of
         Pending \<Rightarrow> qs_entries (xq_queues xq') = msg_entries st \<and>
           (\<forall>p e q t. msg_entries st p = Some e \<longrightarrow> position dm_pop_readiness e = Some (q, t) \<longrightarrow> \<not> ps_contains pm q)
       | Ready f \<Rightarrow> \<exists>p eot. dm.taken pm (mx_queue st) f p eot xq'"
      using dm.pop_step [OF inv(2), of pm m] unfolding ready try_pop by blast
    let ?st' = "st\<lparr> mx_queue := xq' \<rparr>"
    have run: "mx_poll_pop dm_vt st pm m = Some (res, ?st')"
      using False x(1) by (simp add: mx_poll_pop_def mx_hub_poll_pop_def dm_vt_def)
    then have "mx_step dm_vt (TrPop pm m) st = Some ?st'" by simp
    then have reach: "msg_reach ?st'" using mx_next [OF assms, of "TrPop pm m"] by simp
    show ?thesis
    proof (cases res)
      case Pending
      then show ?thesis using run reach x(2) first by fastforce
    next
      case (Ready f)
      then obtain p e t where p: "msg_entries st p = Some e" "position dm_pop_readiness e = Some (h_priority (f_header f), t)"
        "ps_contains pm (h_priority (f_header f))" "h_data_spec (f_header f) = dm_spec (qe_buffer e)"
        "\<forall>r d s u. msg_entries st r = Some d \<longrightarrow> position dm_pop_readiness d = Some (s, u) \<longrightarrow> ps_contains pm s \<longrightarrow>
          h_priority (f_header f) \<le> s" using x(2) unfolding dm.taken_def ready by auto
      obtain s where s: "mx_subjects st p = Some s" using mx_invD(3) [OF inv(1)] p(1) by blast
      then have "h_data_spec (f_header f) = Message s" using p(4) mx_invD(5) [OF inv(1) p(1)] by simp
      moreover have "ps_contains (dm_pop_readiness (qe_buffer e)) (h_priority (f_header f))"
        using dm.position_ready p(2) by (simp add: ready)
      ultimately have "\<exists>p e s. msg_entries st p = Some e \<and> mx_subjects st p = Some s \<and> h_data_spec (f_header f) = Message s \<and>
           ps_contains (dm_pop_readiness (qe_buffer e)) (h_priority (f_header f))" using p(1) s by blast
      moreover have "\<forall>r d q. msg_entries st r = Some d \<longrightarrow> ps_contains (dm_pop_readiness (qe_buffer d)) q \<longrightarrow>
           ps_contains pm q \<longrightarrow> h_priority (f_header f) \<le> q" using p(5) first by blast
      ultimately show ?thesis using run reach Ready p(3) by (intro exI [of _ res] exI [of _ ?st']) simp
    qed
  qed
qed

lemma tx_poll_pop_most_urgent_witness:
  "\<exists>res st'. mx_poll_pop dm_vt mx_default ps_ALL Classic = Some (res, st') \<and> msg_reach st'"
  using tx_poll_pop_most_urgent [OF mx_start, of ps_ALL Classic] by blast

text \<open>
  C16: Message transfers of one priority are not interleaved. After a frame of a subject that does
  not end its transfer, whatever publishers and driver do meanwhile - unless that publisher goes,
  or the driver takes from that priority - the next poll that admits the priority returns a
  frame, and if it has that priority it is of the same subject.
\<close>

theorem message_transfers_contiguous:
  assumes "msg_reach st" "mx_poll_pop dm_vt st pm m = Some (Ready f, st1)" "is_eot_frame f = Some False"
    "mx_subjects st1 p = Some s" "h_data_spec (f_header f) = Message s"
    "mx_oks dm_vt dm_ok dm_spec dm_capacity dm_lent ops st1" "for_each (mx_step dm_vt) ops st1 = Some st2"
    "list_all (tr_spares p (h_priority (f_header f))) ops" "ps_contains pm2 (h_priority (f_header f))"
  shows "\<exists>f2 st3. mx_poll_pop dm_vt st2 pm2 m2 = Some (Ready f2, st3) \<and>
    h_priority (f_header f2) \<le> h_priority (f_header f) \<and>
    (h_priority (f_header f2) = h_priority (f_header f) \<longrightarrow> h_data_spec (f_header f2) = Message s)"
proof -
  obtain r eot where r: "dm.taken pm (mx_queue st) f r eot (mx_queue st1)" "msg_reach st1"
    by (rule dm.mx_poll_taken [OF assms(1,2)])
  then obtain e where e: "msg_entries st1 r = Some e" "ps_contains (qe_started e) (h_priority (f_header f))"
    "dm_spec (qe_buffer e) = Message s"
    using assms(3,5) unfolding dm.taken_def by auto
  have inv: "mx_inv dm_spec st1" using dm.mx_reach_inv [OF r(2)] by blast
  obtain s' where "mx_subjects st1 r = Some s'" using mx_invD(3) [OF inv] e(1) by blast
  then have "r = p" using mx_invD(4,5) [OF inv] e(1,3) assms(4) by fastforce
  with dm.mx_started_run [OF r(2) assms(6,7) _ e(1,2)] assms(8) obtain e2 where "msg_reach st2"
    "msg_entries st2 p = Some e2" "ps_contains (qe_started e2) (h_priority (f_header f))"
    "dm_spec (qe_buffer e2) = Message s" using e(3) by auto
  then show ?thesis using dm.transfer_goes_on [OF _ _ _ assms(9)] by metis
qed

text \<open>Runs to try it on; only the buffers that register have to be checked.\<close>

lemma mx_oks_mono:
  assumes "\<And>b. ok b \<Longrightarrow> ok' b"
  shows "mx_oks vt ok spec capacity lent ops st \<Longrightarrow> mx_oks vt ok' spec capacity lent ops st"
proof (induction ops arbitrary: st)
  case (Cons op ops)
  have "mx_ok ok' spec capacity lent op st" using Cons.prems assms by (cases op) auto
  then show ?case using Cons by (auto split: option.splits)
qed simp

lemma mx_run_reach:
  "mx_reach vt ok spec capacity lent st \<Longrightarrow> mx_oks vt ok spec capacity lent ops st \<Longrightarrow>
    for_each (mx_step vt) ops st = Some st' \<Longrightarrow> mx_reach vt ok spec capacity lent st'"
  by (induction ops arbitrary: st) (auto split: option.splits intro: mx_next)

definition sample_dm2 :: tx_msg_dyn where
  "sample_dm2 = DynBlocking (mb_new (SubjectId 8) Nominal (replicate 9 0))"

lemma sample_dm2_ok: "dm_ok sample_dm2"
proof -
  have "mb_rep (SubjectId 8) Nominal 9 (mb_new (SubjectId 8) Nominal (replicate 9 0)) (\<lambda>p. []) None"
    by (rule mb_rep_new) simp
  then show ?thesis unfolding sample_dm2_def
    by (intro dm_okI [where s = "SubjectId 8" and q = Nominal and B = 9 and A = "\<lambda>p. []" and pad = None])
      (simp_all add: tids_ok_def)
qed

definition sample_push :: "ptr \<Rightarrow> (subject_id, tx_msg_dyn) tx_reg_op list" where
  "sample_push p = [TrGetScratchpad p, TrWrite p [1, 2, 3, 4, 5, 6, 7, 8, 9], TrPush p (sample_meta None) 9 (TransferCrc 0)]"

definition sample_start :: "(subject_id, tx_msg_dyn) tx_reg_op list" where
  "sample_start = TrRegister 1 (SubjectId 7) (sample_dm 9) # sample_push 1"

definition sample_more :: "(subject_id, tx_msg_dyn) tx_reg_op list" where
  "sample_more = TrRegister 2 (SubjectId 8) sample_dm2 # sample_push 2"

lemma sample_run:
  "case for_each (mx_step dm_vt) sample_start mx_default of None \<Rightarrow> False | Some st \<Rightarrow>
     mx_oks dm_vt (\<lambda>b. b = sample_dm 9 \<or> b = sample_dm2) dm_spec dm_capacity dm_lent sample_start mx_default \<and>
     (case mx_poll_pop dm_vt st ps_ALL Classic of None \<Rightarrow> False | Some (res, st1) \<Rightarrow>
       (case res of Pending \<Rightarrow> False | Ready f \<Rightarrow> is_eot_frame f = Some False \<and> mx_subjects st1 1 = Some (SubjectId 7) \<and>
         h_priority (f_header f) = Nominal \<and> h_data_spec (f_header f) = Message (SubjectId 7) \<and>
         mx_oks dm_vt (\<lambda>b. b = sample_dm 9 \<or> b = sample_dm2) dm_spec dm_capacity dm_lent sample_more st1 \<and>
         for_each (mx_step dm_vt) sample_more st1 \<noteq> None))"
  by code_simp

lemma message_transfers_contiguous_witness:
  "\<exists>st1 st2 f2 st3. for_each (mx_step dm_vt) sample_more st1 = Some st2 \<and>
    mx_poll_pop dm_vt st2 ps_ALL Classic = Some (Ready f2, st3) \<and> h_priority (f_header f2) \<le> Nominal"
proof -
  have ok: "dm_ok b" if "b = sample_dm 9 \<or> b = sample_dm2" for b using that sample_dm_ok(1) sample_dm2_ok by blast
  obtain st res st1 f st2 where r: "for_each (mx_step dm_vt) sample_start mx_default = Some st"
    "mx_oks dm_vt (\<lambda>b. b = sample_dm 9 \<or> b = sample_dm2) dm_spec dm_capacity dm_lent sample_start mx_default"
    "mx_poll_pop dm_vt st ps_ALL Classic = Some (Ready f, st1)" "is_eot_frame f = Some False"
    "mx_subjects st1 1 = Some (SubjectId 7)" "h_priority (f_header f) = Nominal"
    "h_data_spec (f_header f) = Message (SubjectId 7)"
    "mx_oks dm_vt (\<lambda>b. b = sample_dm 9 \<or> b = sample_dm2) dm_spec dm_capacity dm_lent sample_more st1"
    "for_each (mx_step dm_vt) sample_more st1 = Some st2"
    using sample_run by (auto split: option.splits prod.splits poll.splits)
  have reach: "msg_reach st" by (rule mx_run_reach [OF mx_start mx_oks_mono [OF ok r(2)] r(1)])
  have "list_all (tr_spares 1 (h_priority (f_header f))) sample_more"
    by (simp add: sample_more_def sample_push_def)
  with message_transfers_contiguous [OF reach r(3,4,5,7) mx_oks_mono [OF ok r(8)] r(9), of ps_ALL Classic] r(6,9)
  show ?thesis by auto
qed

text \<open>
  A subject has one publisher. Registering an endpoint for a subject that is taken is refused
  with \<open>DataSpecifierOccupied\<close> and changes nothing; for any other subject it is accepted. No two
  publishers ever have the same subject.
\<close>

theorem publisher_unique:
  assumes "msg_reach st" "msg_ok (TrRegister p s b) st"
  shows "(mx_subjects st q = Some r \<and> mx_subjects st q' = Some r \<longrightarrow> q = q') \<and>
    (if s \<in> ran (mx_subjects st)
      then fst (the (mx_register dm_vt (mx_entry_new st p s b) p)) = Inl DataSpecifierOccupied \<and>
        mx_step dm_vt (TrRegister p s b) st = Some st
      else \<exists>st'. mx_register dm_vt (mx_entry_new st p s b) p = Some (Inr p, st') \<and>
        mx_step dm_vt (TrRegister p s b) st = Some st' \<and> mx_subjects st' = (mx_subjects st)(p \<mapsto> s))"
proof -
  have inv: "mx_inv dm_spec st" "dm.src.xq_inv (mx_queue st)" using dm.mx_reach_inv [OF assms(1)] by blast+
  show ?thesis
    using dm.mx_step_register [OF inv assms(2)] mx_invD(4) [OF inv(1), of q r q'] by (auto split: if_splits)
qed

lemma publisher_unique_witness:
  "mx_step dm_vt (TrRegister 1 (SubjectId 7) (sample_dm 9)) mx_default \<noteq> None"
proof -
  have "msg_ok (TrRegister 1 (SubjectId 7) (sample_dm 9)) mx_default"
    by (simp add: sample_dm_ok) (simp add: mx_default_def xq_default_def)
  then show ?thesis using publisher_unique [OF mx_start, THEN conjunct2] by (metis option.distinct(1))
qed

end
