(* ===== verification/Rx_Registry_Inv.thy ===== *)
theory Rx_Registry_Inv
  imports Rx_Registry
begin

text \<open>
  The invariant of the registry of regular frames. Every element of the active tree is judged
  together with the subject of the element before it: it is the head of its subject or not, it
  is marked for clean up only if the driver may have a subject to forget in the gap before it,
  and every subject the driver filters for that is not active lies in a marked gap. The set
  \<open>F\<close> is the filter the driver has after the updates it was given.
\<close>

section \<open>Neighbours\<close>

fun above :: "subject_id option \<Rightarrow> subject_id \<Rightarrow> bool" where
  "above None s = True"
| "above (Some j) s = (j < s)"

lemma above_less: "above prev j \<Longrightarrow> j < s \<Longrightarrow> above prev s"
  by (cases prev) auto

definition gap :: "subject_id option \<Rightarrow> subject_id \<Rightarrow> bool" where
  "gap prev k \<longleftrightarrow> (\<exists>s. above prev s \<and> s < k)"

fun chain :: "('k option \<Rightarrow> 'p \<Rightarrow> bool) \<Rightarrow> ('p \<Rightarrow> 'k) \<Rightarrow> 'k option \<Rightarrow> 'p list \<Rightarrow> bool" where
  "chain L key prev [] = True"
| "chain L key prev (x # xs) = (L prev x \<and> chain L key (Some (key x)) xs)"

definition last_key :: "('p \<Rightarrow> 'k) \<Rightarrow> 'k option \<Rightarrow> 'p list \<Rightarrow> 'k option" where
  "last_key key prev xs = (if xs = [] then prev else Some (key (last xs)))"

lemma last_key_simps [simp]:
  "last_key key prev [] = prev" "last_key key prev (x # xs) = last_key key (Some (key x)) xs"
  "last_key key prev (xs @ ys) = last_key key (last_key key prev xs) ys"
  by (auto simp: last_key_def)

lemma chain_append [simp]:
  "chain L key prev (xs @ ys) \<longleftrightarrow> chain L key prev xs \<and> chain L key (last_key key prev xs) ys"
  by (induction xs arbitrary: prev) auto

lemma chain_mono:
  "chain L key prev xs \<Longrightarrow> Q prev \<Longrightarrow>
    (\<And>pr x. x \<in> set xs \<Longrightarrow> Q pr \<Longrightarrow> L pr x \<Longrightarrow> L' pr x \<and> Q (Some (key x))) \<Longrightarrow> chain L' key prev xs"
  by (induction xs arbitrary: prev) auto

definition link_ok ::
  "'b rx_entries \<Rightarrow> ptr set \<Rightarrow> subject_id set \<Rightarrow> subject_id option \<Rightarrow> ptr \<Rightarrow> bool" where
  "link_ok entries C F prev p \<longleftrightarrow> (case entries p of
     None \<Rightarrow> False
   | Some e \<Rightarrow> me_is_active e \<and> subject_id_wf (me_subject e) \<and> me_subject e \<in> F \<and>
       (prev = Some (me_subject e) \<or> above prev (me_subject e)) \<and>
       (me_is_head e \<longleftrightarrow> prev \<noteq> Some (me_subject e)) \<and>
       (p \<in> C \<longrightarrow> me_is_head e \<and> gap prev (me_subject e)) \<and>
       (\<forall>s \<in> F. above prev s \<and> s < me_subject e \<longrightarrow> p \<in> C))"

abbreviation links ::
  "'b rx_entries \<Rightarrow> ptr set \<Rightarrow> subject_id set \<Rightarrow> subject_id option \<Rightarrow> ptr list \<Rightarrow> bool" where
  "links entries C F \<equiv> chain (link_ok entries C F) (entry_subject entries)"

definition flags :: "'b rx_msg_entry \<Rightarrow> subject_id \<times> bool \<times> bool" where
  "flags e = (me_subject e, me_is_active e, me_is_head e)"

lemma entry_subject_Some [simp]: "entries p = Some e \<Longrightarrow> entry_subject entries p = me_subject e"
  by (simp add: entry_subject_def)

lemma entry_subject_flags:
  "map_option flags (entries' p) = map_option flags (entries p) \<Longrightarrow>
    entry_subject entries' p = entry_subject entries p"
  by (auto simp: entry_subject_def flags_def split: option.splits)

lemma link_ok_flags:
  "map_option flags (entries' p) = map_option flags (entries p) \<Longrightarrow> (p \<in> C' \<longleftrightarrow> p \<in> C) \<Longrightarrow>
    link_ok entries' C' F prev p = link_ok entries C F prev p"
  by (cases "entries p"; cases "entries' p") (simp_all add: link_ok_def flags_def)

lemma links_flags:
  assumes "\<And>p. p \<in> set xs \<Longrightarrow> map_option flags (entries' p) = map_option flags (entries p)"
    "\<And>p. p \<in> set xs \<Longrightarrow> p \<in> C' \<longleftrightarrow> p \<in> C"
  shows "links entries' C' F prev xs \<longleftrightarrow> links entries C F prev xs"
    "last_key (entry_subject entries') prev xs = last_key (entry_subject entries) prev xs"
proof -
  have "(links entries' C' F prev xs \<longleftrightarrow> links entries C F prev xs) \<and>
    last_key (entry_subject entries') prev xs = last_key (entry_subject entries) prev xs"
    using assms
  proof (induction xs arbitrary: prev)
    case (Cons x xs)
    have "map_option flags (entries' x) = map_option flags (entries x)" "x \<in> C' \<longleftrightarrow> x \<in> C"
      by (rule Cons.prems, simp)+
    then have "link_ok entries' C' F prev x = link_ok entries C F prev x"
      "entry_subject entries' x = entry_subject entries x"
      by (rule link_ok_flags) (rule entry_subject_flags, fact)
    then show ?case using Cons.IH Cons.prems by simp
  qed simp
  then show "links entries' C' F prev xs \<longleftrightarrow> links entries C F prev xs"
    "last_key (entry_subject entries') prev xs = last_key (entry_subject entries) prev xs" by blast+
qed

lemma links_sorted:
  assumes "links entries C F prev xs"
  shows "sorted (map (entry_subject entries) xs)"
    "x \<in> set xs \<Longrightarrow> prev = Some (entry_subject entries x) \<or> above prev (entry_subject entries x)"
    "x \<in> set xs \<Longrightarrow> \<exists>e. entries x = Some e \<and> me_is_active e \<and> subject_id_wf (me_subject e) \<and> me_subject e \<in> F"
proof -
  have *: "sorted (map (entry_subject entries) xs) \<and> (\<forall>x \<in> set xs.
      (prev = Some (entry_subject entries x) \<or> above prev (entry_subject entries x)) \<and>
      (\<exists>e. entries x = Some e \<and> me_is_active e \<and> subject_id_wf (me_subject e) \<and> me_subject e \<in> F))"
    using assms
  proof (induction xs arbitrary: prev)
    case (Cons y ys)
    obtain e where e: "entries y = Some e" "me_is_active e" "subject_id_wf (me_subject e)" "me_subject e \<in> F"
      "prev = Some (me_subject e) \<or> above prev (me_subject e)"
      using Cons.prems by (auto simp: link_ok_def split: option.splits)
    have IH: "sorted (map (entry_subject entries) ys)" "\<forall>x \<in> set ys.
      (Some (me_subject e) = Some (entry_subject entries x) \<or> above (Some (me_subject e)) (entry_subject entries x)) \<and>
      (\<exists>e. entries x = Some e \<and> me_is_active e \<and> subject_id_wf (me_subject e) \<and> me_subject e \<in> F)"
      using Cons.IH [of "Some (me_subject e)"] Cons.prems e(1) by auto
    have "prev = Some (entry_subject entries x) \<or> above prev (entry_subject entries x)" if "x \<in> set ys" for x
      using e(5) IH(2) that by (cases prev) (auto dest: order.strict_trans1)
    with IH e show ?case by (auto intro: less_imp_le)
  qed simp
  then show "sorted (map (entry_subject entries) xs)"
    "x \<in> set xs \<Longrightarrow> prev = Some (entry_subject entries x) \<or> above prev (entry_subject entries x)"
    "x \<in> set xs \<Longrightarrow> \<exists>e. entries x = Some e \<and> me_is_active e \<and> subject_id_wf (me_subject e) \<and> me_subject e \<in> F"
    by blast+
qed

section \<open>Neighbouring subjects\<close>

lemma subject_less_nat: "a < b \<longleftrightarrow> unat (subject_id_into_u16 a) < unat (subject_id_into_u16 b)"
  by (simp add: less_subject_id_def word_less_nat_alt)

lemma subject_wf_le: "a \<le> b \<Longrightarrow> subject_id_wf b \<Longrightarrow> subject_id_wf a"
  by (auto simp: subject_id_wf_def less_eq_subject_id_def)

lemma prev_subject_gap:
  assumes "s < k" "subject_id_wf k"
  obtains d where "prev_subject k = Some d" "\<And>x. x \<le> d \<longleftrightarrow> x < k"
proof -
  obtain v where k: "k = SubjectId v" by (cases k)
  have uv: "0 < unat v" using assms(1) by (simp add: k subject_less_nat)
  then have v: "v \<noteq> 0" "unat (v - 1) = unat v - 1" by (auto simp: unat_sub word_le_nat_alt)
  have le: "v - 1 \<le> v" using v by (simp add: word_le_nat_alt)
  have wf: "v \<le> subject_id_MAX_VALUE" using assms(2) by (simp add: k subject_id_wf_def)
  have "prev_subject k = Some (SubjectId (v - 1))"
    using v le wf truncating_id(2) [of "SubjectId (v - 1)"]
    by (auto simp: k prev_subject_def subject_id_new_def subject_id_wf_def)
  moreover have "x \<le> SubjectId (v - 1) \<longleftrightarrow> x < k" for x
    using v uv by (cases x) (auto simp: k less_eq_subject_id_def less_subject_id_def word_le_nat_alt
        word_less_nat_alt)
  ultimately show ?thesis by (rule that)
qed

lemma next_subject_gap:
  assumes "k < s" "subject_id_wf s"
  obtains d where "next_subject k = Some d" "\<And>x. d \<le> x \<longleftrightarrow> k < x"
proof -
  obtain v where k: "k = SubjectId v" by (cases k)
  obtain w where s: "s = SubjectId w" by (cases s)
  have vw: "v < w" "w \<le> subject_id_MAX_VALUE" using assms by (simp_all add: k s less_subject_id_def subject_id_wf_def)
  have "unat w \<le> 0x1fff" using vw(2) by (simp add: subject_id_MAX_VALUE_def word_le_nat_alt)
  then have v: "unat v < 0x1fff" using vw(1) by (simp add: word_less_nat_alt)
  have v': "v \<noteq> - 1" using vw(1) word_order.extremum [of w] by (auto dest: leD)
  have sv: "unat (v + 1) = unat v + 1" using v by (simp add: unat_word_ariths)
  have "next_subject k = Some (SubjectId (v + 1))"
    using v v' sv truncating_id(2) [of "SubjectId (v + 1)"]
    by (simp add: k next_subject_def subject_id_new_def subject_id_wf_def subject_id_MAX_VALUE_def word_le_nat_alt)
  moreover have "SubjectId (v + 1) \<le> x \<longleftrightarrow> k < x" for x
    using sv by (cases x) (simp add: k less_eq_subject_id_def less_subject_id_def word_le_nat_alt word_less_nat_alt
        Suc_le_eq)
  ultimately show ?thesis by (rule that)
qed

section \<open>Changes of the active tree\<close>

lemma sorted_le_last: "sorted xs \<Longrightarrow> x \<in> set xs \<Longrightarrow> x \<le> last xs"
  by (induction xs) (auto intro: order_trans)

lemma links_insert:
  assumes l: "links entries C F None (ys @ zs)" and ys: "\<forall>q \<in> set ys. entry_subject entries q \<le> k"
    and zs: "\<forall>q \<in> set zs. k < entry_subject entries q" and p: "p \<notin> set (ys @ zs)" "p \<notin> C"
    and e: "me_subject e = k" "me_is_active e" "subject_id_wf k"
      "me_is_head e \<longleftrightarrow> k \<notin> entry_subject entries ` set ys"
    and F: "k \<in> F'" "F \<subseteq> F'" "F' \<subseteq> insert k F"
    and fresh: "k \<notin> entry_subject entries ` set ys \<Longrightarrow>
      C = {} \<and> (\<forall>s \<in> F. \<not> above (last_key (entry_subject entries) None (ys @ zs)) s)"
  shows "links (entries(p \<mapsto> e)) C F' None (ys @ p # zs)"
proof -
  let ?key = "entry_subject entries" and ?E = "entries(p \<mapsto> e)"
  let ?pr = "last_key ?key None ys"
  have pr: "?pr = Some k \<longleftrightarrow> k \<in> ?key ` set ys" "?pr = Some k \<or> above ?pr k"
  proof -
    have sorted: "sorted (map ?key ys)" using links_sorted(1) [of entries C F None ys] l by simp
    show "?pr = Some k \<longleftrightarrow> k \<in> ?key ` set ys"
    proof
      assume "k \<in> ?key ` set ys"
      then obtain q where q: "q \<in> set ys" "?key q = k" by blast
      then have "?key q \<le> ?key (last ys)"
        using sorted_le_last [OF sorted, of "?key q"] by (cases ys rule: rev_cases) auto
      then show "?pr = Some k" using q ys by (auto simp: last_key_def intro: antisym)
    qed (auto simp: last_key_def split: if_splits)
    show "?pr = Some k \<or> above ?pr k" using ys by (auto simp: last_key_def le_less)
  qed
  have grow: "link_ok entries C F' q x" if "link_ok entries C F q x" "\<not> (above q k \<and> k < ?key x)" for q x
    using that F by (auto simp: link_ok_def split: option.splits)
  have "links entries C F' None ys"
    using l ys by (auto intro!: chain_mono [where L = "link_ok entries C F" and Q = "\<lambda>_. True"] grow)
  moreover have "links entries C F' (Some k) zs"
  proof (cases zs)
    case (Cons z zs')
    have z: "link_ok entries C F ?pr z" "k < ?key z" using l zs by (auto simp: Cons)
    have later: "s \<in> F \<and> (above ?pr k \<longrightarrow> above ?pr s)" if "s \<in> F'" "k < s" for s
      using that F by (auto intro: above_less)
    have "link_ok entries C F' (Some k) z"
      using z pr F fresh later by (cases "k \<in> ?key ` set ys") (auto simp: link_ok_def split: option.splits)
    moreover have "links entries C F' (Some (?key z)) zs'"
      using l zs z(2) by (auto simp: Cons intro!: grow
          chain_mono [where L = "link_ok entries C F" and Q = "\<lambda>q. \<exists>j. q = Some j \<and> k < j"])
    ultimately show ?thesis by (simp add: Cons)
  qed simp
  moreover have "links ?E C F' q xs \<longleftrightarrow> links entries C F' q xs"
    "last_key (entry_subject ?E) q xs = last_key ?key q xs" if "p \<notin> set xs" for q xs
    by (rule links_flags; use that in auto)+
  moreover have "link_ok ?E C F' ?pr p"
  proof -
    have "\<not> (above ?pr s \<and> s < k)" if "s \<in> F'" for s
    proof (cases "k \<in> ?key ` set ys")
      case False
      show ?thesis
      proof
        assume s: "above ?pr s \<and> s < k"
        then have "s \<in> F" using that F by auto
        show False
        proof (cases zs)
          case Nil
          then show ?thesis using fresh [OF False] s \<open>s \<in> F\<close> by simp
        next
          case (Cons z zs')
          then have "link_ok entries C F ?pr z" "k < ?key z" using l zs by auto
          then show ?thesis using s \<open>s \<in> F\<close> fresh [OF False] by (auto simp: link_ok_def split: option.splits)
        qed
      qed
    qed (use pr in auto)
    then show ?thesis using pr e F(1) p(2) by (auto simp: link_ok_def)
  qed
  ultimately show ?thesis using p(1) e(1) by simp
qed

text \<open>What is removed from the filter has to miss the active subjects.\<close>

lemma links_shrink:
  assumes "links entries C F prev xs" "F' \<subseteq> F" "\<And>x. x \<in> set xs \<Longrightarrow> entry_subject entries x \<in> F'"
  shows "links entries C F' prev xs"
proof (rule chain_mono [OF assms(1), where Q = "\<lambda>_. True"])
  fix q x assume "x \<in> set xs" "link_ok entries C F q x"
  then show "link_ok entries C F' q x \<and> True" using assms(2) assms(3) [of x]
    by (auto simp: link_ok_def split: option.splits)
qed simp

text \<open>An element that leaves the tree: its subject goes with it when it is the only one.\<close>

lemma links_remove_tail:
  assumes "links entries C F None (xs @ p # ys)" "distinct (xs @ p # ys)" "entries p = Some e"
    "\<not> me_is_head e"
  shows "links (entries(p := None)) C F None (xs @ ys)" "p \<notin> C"
    "last_key (entry_subject (entries(p := None))) None (xs @ ys) =
      last_key (entry_subject entries) None (xs @ p # ys)"
proof -
  let ?pr = "last_key (entry_subject entries) None xs"
  have p: "link_ok entries C F ?pr p" using assms(1) by simp
  then have pr: "?pr = Some (me_subject e)" "p \<notin> C" using assms(3,4) by (auto simp: link_ok_def)
  have same: "links (entries(p := None)) C F None (xs @ ys) \<longleftrightarrow> links entries C F None (xs @ ys)"
    "last_key (entry_subject (entries(p := None))) None (xs @ ys) =
      last_key (entry_subject entries) None (xs @ ys)"
    by (rule links_flags; use assms(2) in auto)+
  have "links entries C F None (xs @ ys)" using assms(1,3) pr(1) by simp
  then show "links (entries(p := None)) C F None (xs @ ys)" "p \<notin> C" using same(1) pr(2) by simp_all
  show "last_key (entry_subject (entries(p := None))) None (xs @ ys) =
      last_key (entry_subject entries) None (xs @ p # ys)"
    unfolding same(2) using assms(3) pr(1) by simp
qed

lemma links_remove_last:
  assumes "links entries C F None (xs @ [p])" "distinct (xs @ [p])" "entries p = Some e" "me_is_head e"
  shows "links (entries(p := None)) (C - {p}) F None xs"
    "above (last_key (entry_subject (entries(p := None))) None xs) (me_subject e)"
proof -
  have p: "link_ok entries C F (last_key (entry_subject entries) None xs) p" using assms(1) by simp
  have same: "links (entries(p := None)) (C - {p}) F None xs \<longleftrightarrow> links entries C F None xs"
    "last_key (entry_subject (entries(p := None))) None xs = last_key (entry_subject entries) None xs"
    by (rule links_flags; use assms(2) in auto)+
  show "links (entries(p := None)) (C - {p}) F None xs" using assms(1) same(1) by simp
  show "above (last_key (entry_subject (entries(p := None))) None xs) (me_subject e)"
    unfolding same(2) using p assms(3,4) by (auto simp: link_ok_def)
qed

lemma links_remove_head:
  assumes "links entries C F None (xs @ p # q # ys)" "distinct (xs @ p # q # ys)" "entries p = Some e"
    "me_is_head e" "entries q = Some d"
    "C' = (if p \<in> C \<or> me_is_head d then insert q (C - {p}) else C - {p})"
  shows "links (entries(q \<mapsto> d\<lparr> me_is_head := True \<rparr>, p := None)) C' F None (xs @ q # ys)"
    "last_key (entry_subject (entries(q \<mapsto> d\<lparr> me_is_head := True \<rparr>, p := None))) None (xs @ q # ys) =
      last_key (entry_subject entries) None (xs @ p # q # ys)"
proof -
  let ?key = "entry_subject entries" and ?E = "entries(q \<mapsto> d\<lparr> me_is_head := True \<rparr>, p := None)"
  let ?pr = "last_key ?key None xs"
  have p: "link_ok entries C F ?pr p" and q: "link_ok entries C F (Some (me_subject e)) q"
    using assms(1,3) by auto
  have pq: "me_subject e \<le> me_subject d" using q assms(5) by (auto simp: link_ok_def)
  have pr: "above ?pr (me_subject e)" "?pr \<noteq> Some (me_subject e)"
    using p assms(3,4) by (auto simp: link_ok_def)
  have above_d: "above ?pr (me_subject d)" "?pr \<noteq> Some (me_subject d)"
    using pr pq by (cases ?pr; auto)+
  have same: "links ?E C' F r zs \<longleftrightarrow> links entries C F r zs"
    "last_key (entry_subject ?E) r zs = last_key ?key r zs" if "set zs \<subseteq> set xs \<union> set ys" for r zs
    by (rule links_flags; use that assms(2,6) in auto)+
  have Eq: "?E q = Some (d\<lparr> me_is_head := True \<rparr>)" using assms(2) by auto
  have "gap ?pr (me_subject d)" if "q \<in> C'"
  proof (cases "p \<in> C")
    case True
    then have "gap ?pr (me_subject e)" using p assms(3) by (simp add: link_ok_def)
    then show ?thesis using pq by (auto simp: gap_def intro: less_le_trans)
  next
    case False
    have "q \<in> C \<longrightarrow> me_is_head d" using q assms(5) by (auto simp: link_ok_def)
    then have "me_is_head d" using that False assms(6) by (auto split: if_splits)
    then have "me_subject e < me_subject d" using q assms(5) by (auto simp: link_ok_def)
    then show ?thesis using pr(1) by (auto simp: gap_def)
  qed
  moreover have "q \<in> C'" if s: "s \<in> F" "above ?pr s" "s < me_subject d" for s
  proof (rule ccontr)
    assume nq: "q \<notin> C'"
    then have n: "p \<notin> C" "\<not> me_is_head d" using assms(6) by (auto split: if_splits)
    then have "me_subject e = me_subject d" using q assms(5) by (simp add: link_ok_def)
    then show False using p assms(3) s n(1) by (auto simp: link_ok_def)
  qed
  ultimately have "link_ok ?E C' F ?pr q"
    using q assms(5) Eq above_d by (auto simp: link_ok_def)
  then show "links ?E C' F None (xs @ q # ys)" using assms(1,5) Eq same [of xs] same [of ys] by simp
  show "last_key (entry_subject ?E) None (xs @ q # ys) = last_key ?key None (xs @ p # q # ys)"
    using assms(5) Eq same(2) [of xs] same(2) [of ys] by simp
qed

end
