(* ===== verification/Rx_Registry_Ops.thy ===== *)
theory Rx_Registry_Ops
  imports Rx_Registry_Inv
begin

text \<open>
  Every operation on the registry of regular frames keeps its invariant and does not panic, in
  any interleaving. \<open>driver_filter\<close> is what the updates make of the filter of the driver.
\<close>

section \<open>The invariant\<close>

definition ri_inv :: "'b regular_inner \<Rightarrow> subject_id set \<Rightarrow> bool" where
  "ri_inv st F \<longleftrightarrow>
     links (ri_entries st) (set (ri_clean_up_queue st)) F None (ri_active_entry_tree st) \<and>
     distinct (ri_active_entry_tree st) \<and> distinct (ri_inactive_entry_tree st) \<and>
     (\<forall>p \<in> set (ri_active_entry_tree st). p \<notin> set (ri_inactive_entry_tree st)) \<and>
     sorted (map (entry_subject (ri_entries st)) (ri_inactive_entry_tree st)) \<and>
     distinct (ri_clean_up_queue st) \<and> set (ri_clean_up_queue st) \<subseteq> set (ri_active_entry_tree st) \<and>
     distinct (ri_activation_queue st) \<and>
     set (ri_activation_queue st) = set (ri_inactive_entry_tree st) \<and>
     dom (ri_entries st) = set (ri_active_entry_tree st) \<union> set (ri_inactive_entry_tree st) \<and>
     (\<forall>p \<in> set (ri_inactive_entry_tree st). \<forall>e. ri_entries st p = Some e \<longrightarrow>
       \<not> me_is_active e \<and> \<not> me_is_head e \<and> subject_id_wf (me_subject e)) \<and>
     (\<forall>p. ri_next_push_ptr st = Some p \<longrightarrow> p \<in> set (ri_active_entry_tree st)) \<and>
     (ri_clean_up_last st \<longrightarrow> (\<exists>s. subject_id_wf s \<and>
       above (last_key (entry_subject (ri_entries st)) None (ri_active_entry_tree st)) s)) \<and>
     (\<forall>s \<in> F. subject_id_wf s \<and>
       (above (last_key (entry_subject (ri_entries st)) None (ri_active_entry_tree st)) s \<longrightarrow>
         ri_clean_up_last st))"

lemma ri_invD:
  assumes "ri_inv st F"
  shows "links (ri_entries st) (set (ri_clean_up_queue st)) F None (ri_active_entry_tree st)"
    "distinct (ri_active_entry_tree st)" "distinct (ri_inactive_entry_tree st)"
    "p \<in> set (ri_active_entry_tree st) \<Longrightarrow> p \<notin> set (ri_inactive_entry_tree st)"
    "sorted (map (entry_subject (ri_entries st)) (ri_inactive_entry_tree st))"
    "distinct (ri_clean_up_queue st)" "set (ri_clean_up_queue st) \<subseteq> set (ri_active_entry_tree st)"
    "distinct (ri_activation_queue st)" "set (ri_activation_queue st) = set (ri_inactive_entry_tree st)"
    "dom (ri_entries st) = set (ri_active_entry_tree st) \<union> set (ri_inactive_entry_tree st)"
    "p \<in> set (ri_inactive_entry_tree st) \<Longrightarrow> ri_entries st p = Some e \<Longrightarrow>
      \<not> me_is_active e \<and> \<not> me_is_head e \<and> subject_id_wf (me_subject e)"
    "ri_next_push_ptr st = Some p \<Longrightarrow> p \<in> set (ri_active_entry_tree st)"
    "ri_clean_up_last st \<Longrightarrow> \<exists>s. subject_id_wf s \<and>
      above (last_key (entry_subject (ri_entries st)) None (ri_active_entry_tree st)) s"
    "s \<in> F \<Longrightarrow> subject_id_wf s"
    "s \<in> F \<Longrightarrow> above (last_key (entry_subject (ri_entries st)) None (ri_active_entry_tree st)) s \<Longrightarrow>
      ri_clean_up_last st"
  by (insert assms, unfold ri_inv_def; elim conjE; blast)+

lemma ri_inv_entry:
  assumes "ri_inv st F"
  shows "p \<in> set (ri_active_entry_tree st) \<Longrightarrow> \<exists>e. ri_entries st p = Some e \<and> me_is_active e \<and>
      subject_id_wf (me_subject e) \<and> me_subject e \<in> F"
    "p \<in> set (ri_inactive_entry_tree st) \<Longrightarrow> \<exists>e. ri_entries st p = Some e \<and> \<not> me_is_active e \<and>
      \<not> me_is_head e \<and> subject_id_wf (me_subject e)"
proof -
  show "p \<in> set (ri_active_entry_tree st) \<Longrightarrow> \<exists>e. ri_entries st p = Some e \<and> me_is_active e \<and>
      subject_id_wf (me_subject e) \<and> me_subject e \<in> F"
    by (rule links_sorted(3) [OF ri_invD(1) [OF assms]])
  show "p \<in> set (ri_inactive_entry_tree st) \<Longrightarrow> \<exists>e. ri_entries st p = Some e \<and> \<not> me_is_active e \<and>
      \<not> me_is_head e \<and> subject_id_wf (me_subject e)"
    using ri_invD(10,11) [OF assms] by blast
qed

lemma ri_inv_new: "ri_inv (ri_new n) {}"
  by (simp add: ri_inv_def ri_new_def)

text \<open>What is looked up in a tree with its own order.\<close>

lemma found_iff:
  assumes "sorted (map key xs)"
  shows "at_key key k (cursor_get xs (upper_bound key k xs)) \<longleftrightarrow> k \<in> key ` set xs"
proof -
  obtain ys zs where s: "xs = ys @ zs" "\<forall>q \<in> set ys. key q \<le> k" "\<forall>q \<in> set zs. k < key q"
    "cursor_get xs (upper_bound key k xs) = last_ptr ys" by (rule upper_bound_split [OF assms])
  have "k \<in> key ` set xs \<longleftrightarrow> k \<in> key ` set ys" using s(1,3) by auto
  moreover have "key (last ys) = k" if q: "q \<in> set ys" "key q = k" for q
  proof -
    have "sorted (map key ys)" using assms by (simp add: s(1) sorted_append)
    from sorted_le_last [OF this, of "key q"] have "key q \<le> key (last ys)"
      using q by (cases ys rule: rev_cases) auto
    moreover have "last ys \<in> set ys" using q by (cases ys) auto
    ultimately show ?thesis using s(2) q by (auto intro: antisym)
  qed
  ultimately show ?thesis unfolding s(4) by (auto simp: last_ptr_def at_key_def)
qed

text \<open>Nothing but the flags of the entries counts; what the buffers hold does not.\<close>

lemma ri_inv_flags:
  assumes "ri_inv st F" "\<And>p. map_option flags (entries p) = map_option flags (ri_entries st p)"
  shows "ri_inv (st\<lparr> ri_entries := entries \<rparr>) F"
proof -
  have key: "entry_subject entries = entry_subject (ri_entries st)"
    by (rule ext) (rule entry_subject_flags, rule assms(2))
  have "entries p = None \<longleftrightarrow> ri_entries st p = None" for p by (metis assms(2) map_option_is_None)
  then have dom: "dom entries = dom (ri_entries st)" by (simp add: dom_def)
  have links: "links entries C F prev xs \<longleftrightarrow> links (ri_entries st) C F prev xs" for C prev xs
    by (rule links_flags; use assms(2) in simp)
  have "\<not> me_is_active e \<and> \<not> me_is_head e \<and> subject_id_wf (me_subject e)"
    if "p \<in> set (ri_inactive_entry_tree st)" "entries p = Some e" for p e
    using ri_inv_entry(2) [OF assms(1) that(1)] assms(2) [of p] that(2) by (auto simp: flags_def)
  then show ?thesis using assms(1) unfolding ri_inv_def by (simp add: key dom links [unfolded key])
qed

section \<open>Registration\<close>

lemma ri_enqueue_inv:
  assumes inv: "ri_inv st F" and p: "ri_entries st p = None" and s: "subject_id_wf s"
    and cursor: "cursor = upper_bound (entry_subject ((ri_entries st)(p \<mapsto> me_new s b))) s (ri_inactive_entry_tree st)"
  shows "\<exists>st'. ri_enqueue (st\<lparr> ri_entries := (ri_entries st)(p \<mapsto> me_new s b) \<rparr>) p cursor = Some st' \<and>
    ri_inv st' F \<and> ri_entries st' = (ri_entries st)(p \<mapsto> me_new s b)"
proof -
  note r = ri_invD [OF inv]
  let ?E = "(ri_entries st)(p \<mapsto> me_new s b)"
  have np: "p \<notin> set (ri_active_entry_tree st)" "p \<notin> set (ri_inactive_entry_tree st)"
    using r(10) p by auto
  have set_flags: "set_flags ?E p False False = Some ?E"
    by (simp add: set_flags_def me_new_def)
  have key: "entry_subject ?E q = entry_subject (ri_entries st) q" if "q \<noteq> p" for q
    using that by (simp add: entry_subject_def)
  have keys: "map (entry_subject ?E) (ri_inactive_entry_tree st) =
      map (entry_subject (ri_entries st)) (ri_inactive_entry_tree st)"
    by (intro map_cong refl key) (use np(2) in blast)
  have sorted: "sorted (map (entry_subject ?E) (ri_inactive_entry_tree st))" unfolding keys by (rule r(5))
  obtain ys zs where t: "ri_inactive_entry_tree st = ys @ zs"
    "\<forall>q \<in> set ys. entry_subject ?E q \<le> s" "\<forall>q \<in> set zs. s < entry_subject ?E q"
    "insert_after (ri_inactive_entry_tree st) cursor p = ys @ p # zs"
    unfolding cursor by (rule upper_bound_split [OF sorted])
  let ?st = "st\<lparr> ri_entries := ?E, ri_inactive_entry_tree := ys @ p # zs,
    ri_activation_queue := ri_activation_queue st @ [p] \<rparr>"
  have run: "ri_enqueue (st\<lparr> ri_entries := ?E \<rparr>) p cursor = Some ?st"
  proof -
    have "p \<notin> set (ri_clean_up_queue st)" "p \<notin> set (ri_activation_queue st)" using np r(7,9) by blast+
    then show ?thesis using np by (simp add: ri_enqueue_def set_flags t(4) tree_linked_def list_linked_def)
  qed
  have links: "links ?E C F prev (ri_active_entry_tree st) \<longleftrightarrow>
      links (ri_entries st) C F prev (ri_active_entry_tree st)"
    "last_key (entry_subject ?E) prev (ri_active_entry_tree st) =
      last_key (entry_subject (ri_entries st)) prev (ri_active_entry_tree st)" for C prev
    by (rule links_flags; use np(1) in auto)+
  have "entry_subject ?E p = s" by (simp add: me_new_def entry_subject_def)
  then have "sorted (map (entry_subject ?E) (ys @ p # zs))"
    using sorted t(1-3) by (auto simp: sorted_append less_imp_le)
  moreover have "\<not> me_is_active e \<and> \<not> me_is_head e \<and> subject_id_wf (me_subject e)"
    if "q \<in> set (ys @ p # zs)" "?E q = Some e" for q e
    using that r(11) [of q e] s by (auto simp: t(1) me_new_def split: if_splits)
  ultimately have "ri_inv ?st F"
    using inv np p unfolding ri_inv_def by (auto simp: links t(1))
  then show ?thesis using run by auto
qed

lemma fresh_key:
  assumes "p \<notin> set xs"
  shows "map (entry_subject (E(p \<mapsto> e))) xs = map (entry_subject E) xs"
    "entry_subject (E(p \<mapsto> e)) ` set xs = entry_subject E ` set xs"
proof -
  have "entry_subject (E(p \<mapsto> e)) q = entry_subject E q" if "q \<in> set xs" for q
    using that assms by (auto simp: entry_subject_def)
  then show "map (entry_subject (E(p \<mapsto> e))) xs = map (entry_subject E) xs"
    "entry_subject (E(p \<mapsto> e)) ` set xs = entry_subject E ` set xs" by simp_all
qed

lemma ri_reg_register_tail_inv:
  assumes inv: "ri_inv st F" and p: "ri_entries st p = None" and s: "subject_id_wf s"
    and found: "s \<in> entry_subject (ri_entries st) ` set (ri_active_entry_tree st)"
    and cursor: "cursor = upper_bound (entry_subject ((ri_entries st)(p \<mapsto> me_new s b))) s (ri_active_entry_tree st)"
  shows "ri_inv (st\<lparr> ri_entries := (ri_entries st)(p \<mapsto> (me_new s b)\<lparr> me_is_active := True \<rparr>),
    ri_active_entry_tree := insert_after (ri_active_entry_tree st) cursor p \<rparr>) F"
proof -
  note r = ri_invD [OF inv]
  let ?D = "(ri_entries st)(p \<mapsto> me_new s b)" and ?E = "(ri_entries st)(p \<mapsto> (me_new s b)\<lparr> me_is_active := True \<rparr>)"
  have np: "p \<notin> set (ri_active_entry_tree st)" "p \<notin> set (ri_inactive_entry_tree st)" "p \<notin> set (ri_clean_up_queue st)"
    using r(7,10) p by auto
  have sorted: "sorted (map (entry_subject ?D) (ri_active_entry_tree st))"
    unfolding fresh_key(1) [OF np(1)] by (rule links_sorted(1) [OF r(1)])
  obtain ys zs where t: "ri_active_entry_tree st = ys @ zs"
    "\<forall>q \<in> set ys. entry_subject ?D q \<le> s" "\<forall>q \<in> set zs. s < entry_subject ?D q"
    "insert_after (ri_active_entry_tree st) cursor p = ys @ p # zs"
    unfolding cursor by (rule upper_bound_split [OF sorted])
  have key: "entry_subject ?D q = entry_subject (ri_entries st) q" if "q \<in> set ys \<union> set zs" for q
    using that np(1) t(1) by (auto simp: entry_subject_def)
  have in_ys: "s \<in> entry_subject (ri_entries st) ` set ys" using found t(3) key by (auto simp: t(1))
  have sF: "s \<in> F" using found ri_inv_entry(1) [OF inv] by force
  have links: "links ?E (set (ri_clean_up_queue st)) F None (ys @ p # zs)"
    by (rule links_insert [where F = F and k = s])
      (use r(1) t(1-3) key np s in_ys sF in \<open>auto simp: me_new_def\<close>)
  have "last_key (entry_subject ?E) None (ys @ p # zs) =
      last_key (entry_subject (ri_entries st)) None (ri_active_entry_tree st)"
  proof -
    have k: "entry_subject ?E p = s" by (simp add: entry_subject_def me_new_def)
    have e: "entry_subject ?E q = entry_subject (ri_entries st) q" if "q \<in> set ys \<union> set zs" for q
      using that np(1) t(1) by (auto simp: entry_subject_def)
    show ?thesis
    proof (cases "zs = []")
      case True
      have "s = entry_subject (ri_entries st) (last ys)"
      proof -
        have "sorted (map (entry_subject (ri_entries st)) ys)"
          using links_sorted(1) [OF r(1)] True by (simp add: t(1))
        from sorted_le_last [OF this, of s] have "s \<le> entry_subject (ri_entries st) (last ys)"
          using in_ys by (cases ys rule: rev_cases) auto
        moreover have "entry_subject (ri_entries st) (last ys) \<le> s"
          using t(2) key in_ys by (cases ys rule: rev_cases) auto
        ultimately show ?thesis by (rule antisym)
      qed
      then show ?thesis using True in_ys k by (auto simp: last_key_def t(1))
    next
      case False
      then show ?thesis using e [of "last zs"] by (simp add: last_key_def t(1))
    qed
  qed
  moreover have "\<not> me_is_active e \<and> \<not> me_is_head e \<and> subject_id_wf (me_subject e)"
    if "q \<in> set (ri_inactive_entry_tree st)" "?E q = Some e" for q e
    using that r(11) [of q e] np(2) by (auto split: if_splits)
  ultimately show ?thesis
    using inv links np unfolding ri_inv_def t(4)
    by (auto simp: fresh_key(1) [OF np(2)] t(1))
qed

lemma ri_reg_register_inv:
  assumes inv: "ri_inv st F" and p: "ri_entries st p = None" and s: "subject_id_wf s"
  shows "\<exists>r st'. ri_reg_register (st\<lparr> ri_entries := (ri_entries st)(p \<mapsto> me_new s b) \<rparr>) p = Some (r, st') \<and>
    (case r of
       Inl e \<Rightarrow> st' = st\<lparr> ri_entries := (ri_entries st)(p \<mapsto> me_new s b) \<rparr> \<and> e = NoSubjectSlotLeft \<and>
         ri_free_slot_count st = 0 \<and> s \<notin> entry_subject (ri_entries st) ` dom (ri_entries st)
     | Inr q \<Rightarrow> q = p \<and> ri_inv st' F)"
proof -
  note r = ri_invD [OF inv]
  let ?E = "(ri_entries st)(p \<mapsto> me_new s b)" and ?key = "entry_subject (ri_entries st)"
  have np: "p \<notin> set (ri_active_entry_tree st)" "p \<notin> set (ri_inactive_entry_tree st)" "p \<notin> set (ri_clean_up_queue st)"
    using r(7,10) p by auto
  have sorted: "sorted (map (entry_subject ?E) (ri_inactive_entry_tree st))"
    "sorted (map (entry_subject ?E) (ri_active_entry_tree st))"
    unfolding fresh_key(1) [OF np(1)] fresh_key(1) [OF np(2)] using links_sorted(1) [OF r(1)] r(5) by simp_all
  note found = found_iff [OF sorted(1), of s, unfolded fresh_key(2) [OF np(2)]]
    found_iff [OF sorted(2), of s, unfolded fresh_key(2) [OF np(1)]]
  have sub: "me_subject (me_new s b) = s" by (simp add: me_new_def)
  note run = ri_reg_register_def Let_def sub found
  consider "s \<in> ?key ` set (ri_inactive_entry_tree st)"
    | "s \<notin> ?key ` set (ri_inactive_entry_tree st)" "s \<in> ?key ` set (ri_active_entry_tree st)"
    | "s \<notin> ?key ` set (ri_inactive_entry_tree st)" "s \<notin> ?key ` set (ri_active_entry_tree st)" by blast
  then show ?thesis
  proof cases
    case 1
    obtain st' where st': "ri_enqueue (st\<lparr> ri_entries := ?E \<rparr>) p
        (upper_bound (entry_subject ?E) s (ri_inactive_entry_tree st)) = Some st'" "ri_inv st' F"
      using ri_enqueue_inv [OF inv p s refl, of b] by blast
    then have "ri_reg_register (st\<lparr> ri_entries := ?E \<rparr>) p = Some (Inr p, st')" using 1 by (simp add: run)
    then show ?thesis using st'(2) by simp
  next
    case 2
    have "set_flags ?E p True False = Some ((ri_entries st)(p \<mapsto> (me_new s b)\<lparr> me_is_active := True \<rparr>))"
      by (simp add: set_flags_def me_new_def)
    then have "ri_reg_register (st\<lparr> ri_entries := ?E \<rparr>) p = Some (Inr p,
        st\<lparr> ri_entries := (ri_entries st)(p \<mapsto> (me_new s b)\<lparr> me_is_active := True \<rparr>),
          ri_active_entry_tree := insert_after (ri_active_entry_tree st)
            (upper_bound (entry_subject ?E) s (ri_active_entry_tree st)) p \<rparr>)"
      using 2 np by (simp add: run tree_linked_def)
    then show ?thesis using ri_reg_register_tail_inv [OF inv p s 2(2) refl, of b] by simp
  next
    case 3
    let ?st = "st\<lparr> ri_free_slot_count := ri_free_slot_count st - 1 \<rparr>"
    show ?thesis
    proof (cases "ri_free_slot_count st = 0")
      case True
      have "s \<notin> ?key ` dom (ri_entries st)" using 3 by (auto simp: r(10))
      moreover have "ri_reg_register (st\<lparr> ri_entries := ?E \<rparr>) p =
          Some (Inl NoSubjectSlotLeft, st\<lparr> ri_entries := ?E \<rparr>)" using 3 True by (simp add: run)
      ultimately show ?thesis using True by simp
    next
      case False
      have "ri_inv ?st F" using inv unfolding ri_inv_def by simp
      then have "\<exists>st'. ri_enqueue (?st\<lparr> ri_entries := ?E \<rparr>) p (upper_bound (entry_subject ?E) s
          (ri_inactive_entry_tree st)) = Some st' \<and> ri_inv st' F"
        using ri_enqueue_inv [of ?st F p s _ b] p s by auto
      moreover have swap: "?st\<lparr> ri_entries := ?E \<rparr> =
          st\<lparr> ri_entries := ?E, ri_free_slot_count := ri_free_slot_count st - 1 \<rparr>" by simp
      ultimately obtain st' where st':
        "ri_enqueue (st\<lparr> ri_entries := ?E, ri_free_slot_count := ri_free_slot_count st - 1 \<rparr>) p
          (upper_bound (entry_subject ?E) s (ri_inactive_entry_tree st)) = Some st'" "ri_inv st' F"
        unfolding swap by blast
      have "ri_inv (ri_wake st') F" using st'(2) unfolding ri_inv_def by (simp add: ri_wake_def)
      moreover have "ri_reg_register (st\<lparr> ri_entries := ?E \<rparr>) p = Some (Inr p, ri_wake st')"
        using 3 False st'(1) by (simp add: run)
      ultimately show ?thesis by simp
    qed
  qed
qed

section \<open>Removal\<close>

lemma ri_push_past_ok:
  assumes "\<And>q. next = Some q \<Longrightarrow> ri_entries st q \<noteq> None"
  obtains n where "ri_push_past st p next = Some n" "n = ri_next_push_ptr st \<and> n \<noteq> Some p \<or> n = None \<or> n = next"
  using assms by (cases "ri_next_push_ptr st = Some p"; cases "next") (auto simp: ri_push_past_def)

lemma ri_list_linked_active:
  assumes "ri_inv st F" "p \<in> set (ri_active_entry_tree st)"
  shows "list_linked st p \<longleftrightarrow> p \<in> set (ri_clean_up_queue st)"
  using ri_invD(4,9) [OF assms(1)] assms(2) by (auto simp: list_linked_def)

text \<open>The removed element leaves the clean up queue.\<close>

lemma ri_unmark:
  assumes "ri_inv st F" "p \<in> set (ri_active_entry_tree st)" "ri_clean_up_queue t = ri_clean_up_queue st"
    "ri_activation_queue t = ri_activation_queue st"
  obtains queue where "ri_unlink_mark t p = Some (t\<lparr> ri_clean_up_queue := queue \<rparr>)"
    "set queue = set (ri_clean_up_queue st) - {p}" "distinct queue"
proof (cases "p \<in> set (ri_clean_up_queue st)")
  case True
  obtain xs ys where "ri_clean_up_queue st = xs @ p # ys" "p \<notin> set xs" "p \<notin> set ys"
    "remove_ptr p (ri_clean_up_queue st) = Some (first_ptr ys, xs @ ys)"
    by (rule remove_ptr_in [OF True ri_invD(6) [OF assms(1)]])
  then show ?thesis using that [of "xs @ ys"] True ri_invD(6) [OF assms(1)] assms(3)
    by (auto simp: ri_unlink_mark_def list_linked_def)
next
  case False
  moreover have "t\<lparr> ri_clean_up_queue := ri_clean_up_queue st \<rparr> = t" using assms(3) by (cases t) simp
  moreover have "\<not> list_linked t p"
    using False ri_list_linked_active [OF assms(1,2)] assms(3,4) by (simp add: list_linked_def)
  ultimately show ?thesis using that [of "ri_clean_up_queue st"] ri_invD(6) [OF assms(1)]
    by (simp add: ri_unlink_mark_def)
qed

lemma ri_active_split:
  assumes "ri_inv st F" "ri_entries st p = Some e" "me_is_active e"
  obtains xs ys where "ri_active_entry_tree st = xs @ p # ys" "distinct (xs @ p # ys)"
    "remove_ptr p (ri_active_entry_tree st) = Some (first_ptr ys, xs @ ys)"
    "p \<notin> set (ri_inactive_entry_tree st)"
proof -
  have "p \<notin> set (ri_inactive_entry_tree st)" using ri_inv_entry(2) [OF assms(1), of p] assms(2,3) by auto
  moreover have "p \<in> dom (ri_entries st)" using assms(2) by auto
  ultimately have p: "p \<in> set (ri_active_entry_tree st)" "p \<notin> set (ri_inactive_entry_tree st)"
    using ri_invD(10) [OF assms(1)] by auto
  obtain xs ys where "ri_active_entry_tree st = xs @ p # ys"
    "remove_ptr p (ri_active_entry_tree st) = Some (first_ptr ys, xs @ ys)"
    by (rule remove_ptr_in [OF p(1) ri_invD(2) [OF assms(1)]])
  then show ?thesis using that p(2) ri_invD(2) [OF assms(1)] by simp
qed

lemma inactive_without:
  assumes "ri_inv st F" "p \<notin> set (ri_inactive_entry_tree st)"
    "\<And>q. q \<in> set (ri_inactive_entry_tree st) \<Longrightarrow> E q = ri_entries st q"
  shows "sorted (map (entry_subject E) (ri_inactive_entry_tree st))"
    "\<forall>q \<in> set (ri_inactive_entry_tree st). \<forall>e. E q = Some e \<longrightarrow>
      \<not> me_is_active e \<and> \<not> me_is_head e \<and> subject_id_wf (me_subject e)"
proof -
  have keys: "map (entry_subject E) (ri_inactive_entry_tree st) =
      map (entry_subject (ri_entries st)) (ri_inactive_entry_tree st)"
    by (intro map_cong refl) (simp add: entry_subject_def assms(3))
  show "sorted (map (entry_subject E) (ri_inactive_entry_tree st))"
    unfolding keys by (rule ri_invD(5) [OF assms(1)])
  show "\<forall>q \<in> set (ri_inactive_entry_tree st). \<forall>e. E q = Some e \<longrightarrow>
      \<not> me_is_active e \<and> \<not> me_is_head e \<and> subject_id_wf (me_subject e)"
    using ri_invD(11) [OF assms(1)] assms(3) by auto
qed

lemma ri_unregister_tail_inv:
  assumes "ri_inv st F" "ri_entries st p = Some e" "me_is_active e" "\<not> me_is_head e"
  shows "\<exists>st'. ri_reg_unregister_active_tail st p = Some st' \<and> ri_inv st' F \<and>
    ri_entries st' = (ri_entries st)(p := None)"
proof -
  note r = ri_invD [OF assms(1)]
  obtain xs ys where t: "ri_active_entry_tree st = xs @ p # ys" "distinct (xs @ p # ys)"
    "remove_ptr p (ri_active_entry_tree st) = Some (first_ptr ys, xs @ ys)"
    "p \<notin> set (ri_inactive_entry_tree st)" by (rule ri_active_split [OF assms(1-3)])
  note l = links_remove_tail [OF r(1) [unfolded t(1)] t(2) assms(2,4)]
  have unlinked: "\<not> list_linked st p" using ri_list_linked_active [OF assms(1), of p] l(2) by (simp add: t(1))
  let ?st = "st\<lparr> ri_active_entry_tree := xs @ ys \<rparr>"
  have ne: "ri_entries ?st q \<noteq> None" if "first_ptr ys = Some q" for q
    using that ri_inv_entry(1) [OF assms(1), of q] by (cases ys) (auto simp: first_ptr_def t(1))
  obtain n where n: "ri_push_past ?st p (first_ptr ys) = Some n"
    "n = ri_next_push_ptr ?st \<and> n \<noteq> Some p \<or> n = None \<or> n = first_ptr ys" by (rule ri_push_past_ok [OF ne])
  let ?E = "(ri_entries st)(p := None)"
  let ?st' = "?st\<lparr> ri_next_push_ptr := n, ri_entries := ?E \<rparr>"
  have run: "ri_reg_unregister_active_tail st p = Some ?st'"
    using n(1) unlinked by (simp add: ri_reg_unregister_active_tail_def t(3) Let_def)
  have "q \<in> set (xs @ ys)" if "n = Some q" for q
    using n(2) that r(12) [of q] by (cases ys) (auto simp: t(1) first_ptr_def)
  moreover have "set (ri_clean_up_queue st) \<subseteq> set (xs @ ys)" using r(7) l(2) by (auto simp: t(1))
  moreover have "dom ?E = set (xs @ ys) \<union> set (ri_inactive_entry_tree st)"
    using r(10) t(2,4) by (auto simp: t(1))
  moreover have "q \<notin> set (ri_inactive_entry_tree st)" if "q \<in> set (xs @ ys)" for q
    using r(4) [of q] that by (auto simp: t(1))
  moreover note inactive_without [OF assms(1) t(4), of ?E]
  moreover have "?E q = ri_entries st q" if "q \<in> set (ri_inactive_entry_tree st)" for q using that t(4) by auto
  ultimately have "ri_inv ?st' F"
    using l(1,3) t(2) r(3,6,8,9,13,14,15) unfolding ri_inv_def by (simp add: t(1))
  then show ?thesis using run by simp
qed

lemma ri_unregister_head_inv:
  assumes inv: "ri_inv st F" and e: "ri_entries st p = Some e" "me_is_active e" "me_is_head e"
  shows "\<exists>st'. ri_reg_unregister_active_head st p = Some st' \<and> ri_inv st' F \<and>
    dom (ri_entries st') = dom (ri_entries st) - {p}"
proof -
  note r = ri_invD [OF inv]
  obtain xs ys where t: "ri_active_entry_tree st = xs @ p # ys" "distinct (xs @ p # ys)"
    "remove_ptr p (ri_active_entry_tree st) = Some (first_ptr ys, xs @ ys)"
    "p \<notin> set (ri_inactive_entry_tree st)" by (rule ri_active_split [OF inv e(1,2)])
  let ?C = "set (ri_clean_up_queue st)"
  have p: "p \<in> set (ri_active_entry_tree st)" by (simp add: t(1))
  have mark: "list_linked st p \<longleftrightarrow> p \<in> ?C" by (rule ri_list_linked_active [OF inv p])
  let ?st1 = "st\<lparr> ri_active_entry_tree := xs @ ys \<rparr>"
  have "ri_clean_up_queue ?st1 = ri_clean_up_queue st" "ri_activation_queue ?st1 = ri_activation_queue st"
    by simp_all
  from ri_unmark [OF inv p this] obtain queue where queue:
    "ri_unlink_mark ?st1 p = Some (?st1\<lparr> ri_clean_up_queue := queue \<rparr>)"
    "set queue = ?C - {p}" "distinct queue" by blast
  let ?st2 = "?st1\<lparr> ri_clean_up_queue := queue \<rparr>"
  have ne: "ri_entries ?st2 q \<noteq> None" if "first_ptr ys = Some q" for q
    using that ri_inv_entry(1) [OF inv, of q] by (cases ys) (auto simp: first_ptr_def t(1))
  obtain n where n: "ri_push_past ?st2 p (first_ptr ys) = Some n"
    "n = ri_next_push_ptr ?st2 \<and> n \<noteq> Some p \<or> n = None \<or> n = first_ptr ys" by (rule ri_push_past_ok [OF ne])
  let ?st3 = "?st2\<lparr> ri_next_push_ptr := n \<rparr>"
  have pushed: "q \<in> set (xs @ ys)" if "n = Some q" for q
    using n(2) that r(12) [of q] by (cases ys) (auto simp: t(1) first_ptr_def)
  have apart: "q \<notin> set (ri_inactive_entry_tree st)" if "q \<in> set (xs @ ys)" for q
    using r(4) [of q] that by (auto simp: t(1))
  show ?thesis
  proof (cases ys)
    case Nil
    let ?E = "(ri_entries st)(p := None)"
    let ?st4 = "ri_wake (?st3\<lparr> ri_clean_up_last := True, ri_free_slot_count := ri_free_slot_count ?st3 + 1 \<rparr>)"
    let ?st' = "?st4\<lparr> ri_entries := ?E \<rparr>"
    have run: "ri_reg_unregister_active_head st p = Some ?st'"
      using n(1) queue(1) t(3)
      by (simp add: ri_reg_unregister_active_head_def Let_def Nil first_ptr_def ri_wake_def)
    note l = links_remove_last [OF r(1) [unfolded t(1) Nil] t(2) [unfolded Nil] e(1,3)]
    have wf: "subject_id_wf (me_subject e)" using ri_inv_entry(1) [OF inv p] e(1) by auto
    note inactive_without [OF inv t(4), of ?E]
    moreover have "?E q = ri_entries st q" if "q \<in> set (ri_inactive_entry_tree st)" for q using that t(4) by auto
    moreover have "dom ?E = set xs \<union> set (ri_inactive_entry_tree st)"
      using r(10) t(2,4) by (auto simp: t(1) Nil)
    moreover have "set queue \<subseteq> set xs" using r(7) queue(2) by (auto simp: t(1) Nil)
    ultimately have "ri_inv ?st' F"
      using l wf t(2) r(3,8,9,14) queue(2,3) pushed apart unfolding ri_inv_def
      by (auto simp: Nil ri_wake_def)
    then show ?thesis using run by auto
  next
    case (Cons q zs)
    obtain d where d: "ri_entries st q = Some d" using ne [of q] by (auto simp: Cons first_ptr_def)
    let ?E = "(ri_entries st)(q \<mapsto> d\<lparr> me_is_head := True \<rparr>, p := None)"
    let ?mark = "p \<in> ?C \<or> me_is_head d"
    define C' where "C' = (if ?mark then insert q (?C - {p}) else ?C - {p})"
    note l = links_remove_head [OF r(1) [unfolded t(1) Cons] t(2) [unfolded Cons] e(1,3) d C'_def]
    have q: "q \<in> set (ri_active_entry_tree st)" "q \<noteq> p" using t(2) by (auto simp: t(1) Cons)
    have "q \<notin> set (ri_activation_queue st)" using r(4) [OF q(1)] r(9) by simp
    then have linked: "list_linked ?st3 q \<longleftrightarrow> q \<in> ?C" using q(2) queue(2) by (auto simp: list_linked_def)
    define queue' where "queue' = (if ?mark \<and> q \<notin> ?C then queue @ [q] else queue)"
    have queue': "set queue' = C'" "distinct queue'" "set queue' \<subseteq> set (xs @ ys)"
    proof -
      have "q \<in> ?C \<longrightarrow> me_is_head d"
      proof -
        have "link_ok (ri_entries st) ?C F (Some (me_subject e)) q"
          using r(1) e(1) by (simp add: t(1) Cons)
        then show ?thesis using d by (auto simp: link_ok_def)
      qed
      then show "set queue' = C'" using queue(2) q(2) by (auto simp: queue'_def C'_def)
      show "distinct queue'" using queue(2,3) by (auto simp: queue'_def)
      show "set queue' \<subseteq> set (xs @ ys)" using queue(2) r(7) by (auto simp: queue'_def t(1) Cons)
    qed
    obtain st4 where run: "ri_reg_unregister_active_head st p = Some (st4\<lparr> ri_entries := ?E \<rparr>)"
      "ri_active_entry_tree st4 = xs @ ys" "ri_inactive_entry_tree st4 = ri_inactive_entry_tree st"
      "ri_clean_up_queue st4 = queue'" "ri_clean_up_last st4 = ri_clean_up_last st"
      "ri_activation_queue st4 = ri_activation_queue st" "ri_next_push_ptr st4 = n"
    proof -
      let ?st4 = "let st = ?st3\<lparr> ri_entries := (ri_entries st)(q \<mapsto> d\<lparr> me_is_head := True \<rparr>) \<rparr> in
        if ?mark \<and> q \<notin> ?C
        then ri_wake (st\<lparr> ri_clean_up_queue := ri_clean_up_queue st @ [q],
          ri_free_slot_count := ri_free_slot_count st + 1 \<rparr>) else st"
      have "list_linked (?st3\<lparr> ri_entries := X \<rparr>) q \<longleftrightarrow> q \<in> ?C" for X
        using linked by (simp add: list_linked_def)
      then have "ri_reg_unregister_active_head st p = Some (?st4\<lparr> ri_entries := ?E \<rparr>)"
        using n(1) queue(1) d q(2) mark t(3)
        by (simp add: ri_reg_unregister_active_head_def Let_def Cons first_ptr_def ri_wake_def)
      then show ?thesis by (rule that) (simp_all add: Let_def ri_wake_def queue'_def)
    qed
    note inactive_without [OF inv t(4), of ?E]
    moreover have "?E u = ri_entries st u" if "u \<in> set (ri_inactive_entry_tree st)" for u
      using that t(4) r(4) [OF q(1)] by auto
    moreover have "dom ?E = set (xs @ ys) \<union> set (ri_inactive_entry_tree st)"
      using r(10) t(2,4) d by (auto simp: t(1))
    ultimately have "ri_inv (st4\<lparr> ri_entries := ?E \<rparr>) F"
      using l t(2) r(3,8,9,13,14,15) queue' pushed apart unfolding ri_inv_def
      by (simp add: run Cons t(1))
    then show ?thesis using run(1) d q(2) by auto
  qed
qed

lemma ri_unregister_inactive_inv:
  assumes inv: "ri_inv st F" and e: "ri_entries st p = Some e" "\<not> me_is_active e"
  shows "\<exists>st'. ri_reg_unregister_inactive st p = Some st' \<and> ri_inv st' F \<and>
    ri_entries st' = (ri_entries st)(p := None)"
proof -
  note r = ri_invD [OF inv]
  have "p \<notin> set (ri_active_entry_tree st)" using ri_inv_entry(1) [OF inv, of p] e by auto
  moreover have "p \<in> dom (ri_entries st)" using e(1) by auto
  ultimately have p: "p \<in> set (ri_inactive_entry_tree st)" "p \<notin> set (ri_active_entry_tree st)"
    using r(10) by auto
  obtain xs ys where t: "ri_inactive_entry_tree st = xs @ p # ys" "p \<notin> set xs" "p \<notin> set ys"
    "remove_ptr p (ri_inactive_entry_tree st) = Some (first_ptr ys, xs @ ys)"
    by (rule remove_ptr_in [OF p(1) r(3)])
  have "p \<in> set (ri_activation_queue st)" using p(1) r(9) by simp
  then obtain us vs where q: "ri_activation_queue st = us @ p # vs" "p \<notin> set us" "p \<notin> set vs"
    "remove_ptr p (ri_activation_queue st) = Some (first_ptr vs, us @ vs)"
    by (rule remove_ptr_in [OF _ r(8)])
  let ?E = "(ri_entries st)(p := None)"
  let ?st = "st\<lparr> ri_entries := ?E, ri_inactive_entry_tree := xs @ ys, ri_activation_queue := us @ vs \<rparr>"
  have run: "ri_reg_unregister_inactive st p = Some ?st"
    using t(4) q(4) by (simp add: ri_reg_unregister_inactive_def)
  have links: "links ?E C F prev (ri_active_entry_tree st) \<longleftrightarrow>
      links (ri_entries st) C F prev (ri_active_entry_tree st)"
    "last_key (entry_subject ?E) prev (ri_active_entry_tree st) =
      last_key (entry_subject (ri_entries st)) prev (ri_active_entry_tree st)" for C prev
    by (rule links_flags; use p(2) in auto)+
  have keys: "map (entry_subject ?E) (xs @ ys) = map (entry_subject (ri_entries st)) (xs @ ys)"
    by (intro map_cong refl) (use t(2,3) in \<open>auto simp: entry_subject_def\<close>)
  have "sorted (map (entry_subject ?E) (xs @ ys))"
    unfolding keys using r(5) by (auto simp: t(1) sorted_append)
  moreover have "set (us @ vs) = set (xs @ ys)"
    using r(9) t(2,3) q(2,3) by (auto simp: t(1) q(1))
  moreover have "dom ?E = set (ri_active_entry_tree st) \<union> set (xs @ ys)"
    using r(10) p(2) t(2,3) by (auto simp: t(1))
  moreover have "\<not> me_is_active x \<and> \<not> me_is_head x \<and> subject_id_wf (me_subject x)"
    if "u \<in> set (xs @ ys)" "?E u = Some x" for u x
    using that r(11) [of u x] by (auto simp: t(1) split: if_splits)
  moreover have "u \<notin> set (xs @ ys)" if "u \<in> set (ri_active_entry_tree st)" for u
    using that r(4) [of u] by (simp add: t(1))
  ultimately have "ri_inv ?st F"
    using r(1,2,6,7,12-15) r(3,8) unfolding ri_inv_def by (simp add: links t(1) q(1))
  then show ?thesis using run by simp
qed

lemma ri_reg_unregister_inv:
  assumes "ri_inv st F" "ri_entries st p = Some e"
  shows "\<exists>st'. ri_reg_unregister st p = Some st' \<and> ri_inv st' F \<and>
    dom (ri_entries st') = dom (ri_entries st) - {p}"
proof -
  have "\<not> me_is_active e \<Longrightarrow> \<not> me_is_head e"
    using ri_inv_entry [OF assms(1), of p] ri_invD(10) [OF assms(1)] assms(2) by fastforce
  then consider "me_is_active e" "me_is_head e" | "me_is_active e" "\<not> me_is_head e"
    | "\<not> me_is_active e" "\<not> me_is_head e" by blast
  then show ?thesis
  proof cases
    case 1
    then show ?thesis using ri_unregister_head_inv [OF assms] assms(2) by (simp add: ri_reg_unregister_def)
  next
    case 2
    then show ?thesis using ri_unregister_tail_inv [OF assms] assms(2)
      by (auto simp: ri_reg_unregister_def)
  next
    case 3
    then show ?thesis using ri_unregister_inactive_inv [OF assms] assms(2)
      by (auto simp: ri_reg_unregister_def)
  qed
qed

section \<open>Frames\<close>

lemma ri_with_buffer_inv:
  assumes "ri_inv st F" "ri_entries st p = Some e" "f (me_buffer e) = Some (res, b)"
  shows "\<exists>st'. ri_with_buffer_mut st p f = Some (res, st') \<and> ri_inv st' F \<and>
    ri_entries st' = (ri_entries st)(p \<mapsto> e\<lparr> me_buffer := b \<rparr>)"
proof -
  have "ri_inv (st\<lparr> ri_entries := (ri_entries st)(p \<mapsto> e\<lparr> me_buffer := b \<rparr>) \<rparr>) F"
    by (rule ri_inv_flags [OF assms(1)]) (use assms(2) in \<open>simp add: flags_def\<close>)
  then show ?thesis using assms(2,3) by (simp add: ri_with_buffer_mut_def with_entry_buffer_def)
qed

text \<open>The head of a subject comes first in the tree.\<close>

lemma ri_group_head:
  assumes "ri_inv st F" "ri_active_entry_tree st = xs @ p # ys"
    "\<forall>q \<in> set xs. entry_subject (ri_entries st) q < entry_subject (ri_entries st) p"
    "ri_entries st p = Some e"
  shows "me_is_head e"
proof -
  have "link_ok (ri_entries st) (set (ri_clean_up_queue st)) F (last_key (entry_subject (ri_entries st)) None xs) p"
    using ri_invD(1) [OF assms(1)] by (simp add: assms(2))
  then show ?thesis using assms(3,4)
    by (cases xs rule: rev_cases) (auto simp: link_ok_def last_key_def)
qed

lemma find_skip: "find P xs = None \<Longrightarrow> find P (xs @ zs) = find P zs"
  by (induction xs) (auto split: if_splits)

lemma ri_hub_push_start_inv:
  assumes inv: "ri_inv st F"
  obtains n where "ri_hub_push_start st s = Some (n \<noteq> None, st\<lparr> ri_next_push_ptr := n \<rparr>)"
    "ri_inv (st\<lparr> ri_next_push_ptr := n \<rparr>) F"
    "n = find (\<lambda>p. entry_subject (ri_entries st) p = s) (ri_active_entry_tree st)"
proof -
  let ?key = "entry_subject (ri_entries st)"
  have set_next: "ri_inv (st\<lparr> ri_next_push_ptr := n \<rparr>) F" if "\<forall>p. n = Some p \<longrightarrow> p \<in> set (ri_active_entry_tree st)" for n
    using inv that unfolding ri_inv_def by simp
  show ?thesis
  proof (cases "lower_bound ?key s (ri_active_entry_tree st)")
    case None
    then have "find (\<lambda>p. ?key p = s) (ri_active_entry_tree st) = None"
      by (auto simp: lower_bound_None find_None_iff)
    then show ?thesis using that [of None] set_next [of None] None by (simp add: ri_hub_push_start_def)
  next
    case (Some p)
    then obtain xs ys where t: "ri_active_entry_tree st = xs @ p # ys" "\<forall>q \<in> set xs. ?key q < s" "s \<le> ?key p"
      using lower_bound_split [OF Some] by blast
    obtain e where e: "ri_entries st p = Some e" using ri_inv_entry(1) [OF inv, of p] t(1) by auto
    let ?n = "if me_subject e = s then Some p else None"
    have head: "me_is_head e" by (rule ri_group_head [OF inv t(1) _ e]) (use t(2,3) in \<open>auto intro: less_le_trans\<close>)
    have found: "?n = find (\<lambda>p. ?key p = s) (ri_active_entry_tree st)"
    proof -
      have "sorted (map ?key (xs @ p # ys))"
        using links_sorted(1) [OF ri_invD(1) [OF inv]] by (simp add: t(1))
      then have "\<forall>q \<in> set ys. me_subject e \<le> ?key q" using e by (auto simp: sorted_append)
      then have "\<forall>q \<in> set ys. me_subject e \<noteq> s \<longrightarrow> ?key q \<noteq> s" using t(3) e by auto
      moreover have "find (\<lambda>p. ?key p = s) xs = None" using t(2) by (auto simp: find_None_iff)
      from find_skip [OF this, of "p # ys"]
      have "find (\<lambda>p. ?key p = s) (ri_active_entry_tree st) = find (\<lambda>p. ?key p = s) (p # ys)"
        by (simp only: t(1))
      moreover have "find (\<lambda>p. ?key p = s) ys = None" if "me_subject e \<noteq> s"
        using that calculation(1) by (auto simp: find_None_iff)
      ultimately show ?thesis using e by simp
    qed
    have "ri_hub_push_start st s = Some (?n \<noteq> None, st\<lparr> ri_next_push_ptr := ?n \<rparr>)"
      using Some e head by (simp add: ri_hub_push_start_def)
    moreover have "ri_inv (st\<lparr> ri_next_push_ptr := ?n \<rparr>) F" by (rule set_next) (simp add: t(1))
    ultimately show ?thesis using found by (rule that)
  qed
qed

lemma ri_hub_push_next_inv:
  assumes inv: "ri_inv st F" and total: "\<And>e. e \<in> ran (ri_entries st) \<Longrightarrow> push_frame (me_buffer e) frame mtu \<noteq> None"
  shows "\<exists>more st'. ri_hub_push_next push_frame st frame mtu = Some (more, st') \<and> ri_inv st' F \<and>
    more = (ri_next_push_ptr st' \<noteq> None) \<and> ri_active_entry_tree st' = ri_active_entry_tree st \<and>
    (\<forall>xs p ys. ri_next_push_ptr st = Some p \<longrightarrow> ri_active_entry_tree st = xs @ p # ys \<longrightarrow>
      (\<exists>e b. ri_entries st p = Some e \<and> push_frame (me_buffer e) frame mtu = Some b \<and>
        ri_entries st' = (ri_entries st)(p \<mapsto> e\<lparr> me_buffer := b \<rparr>) \<and>
        ri_next_push_ptr st' = (case ys of [] \<Rightarrow> None
          | q # _ \<Rightarrow> if entry_subject (ri_entries st) q = me_subject e then Some q else None)))"
proof (cases "ri_next_push_ptr st")
  case None
  then show ?thesis using inv
    by (intro exI [of _ False] exI [of _ st]) (simp add: ri_hub_push_next_def)
next
  case (Some p)
  then have p: "p \<in> set (ri_active_entry_tree st)" by (rule ri_invD(12) [OF inv])
  obtain xs ys where t: "ri_active_entry_tree st = xs @ p # ys" "p \<notin> set xs" "p \<notin> set ys"
    using remove_ptr_in [OF p ri_invD(2) [OF inv]] by metis
  obtain e where e: "ri_entries st p = Some e" using ri_inv_entry(1) [OF inv p] by auto
  then have "e \<in> ran (ri_entries st)" by (auto simp: ran_def)
  then obtain b where b: "push_frame (me_buffer e) frame mtu = Some b" using total by blast
  let ?E = "(ri_entries st)(p \<mapsto> e\<lparr> me_buffer := b \<rparr>)"
  let ?n = "case ys of [] \<Rightarrow> None
          | q # _ \<Rightarrow> if entry_subject (ri_entries st) q = me_subject e then Some q else None"
  let ?st = "st\<lparr> ri_entries := ?E, ri_next_push_ptr := ?n \<rparr>"
  have n: "(case first_ptr ys of None \<Rightarrow> ret None
         | Some q \<Rightarrow> do { e \<leftarrow> ?E q; ret (if me_is_head e then None else Some q) }) = Some ?n"
  proof (cases ys)
    case (Cons q zs)
    have "link_ok (ri_entries st) (set (ri_clean_up_queue st)) F (Some (me_subject e)) q"
      using ri_invD(1) [OF inv] e by (simp add: t(1) Cons)
    then obtain d where "ri_entries st q = Some d" "me_is_head d \<longleftrightarrow> me_subject e \<noteq> me_subject d"
      by (auto simp: link_ok_def split: option.splits)
    then show ?thesis using t(3) by (auto simp: first_ptr_def Cons)
  qed (simp add: first_ptr_def)
  have run: "ri_hub_push_next push_frame st frame mtu = Some (?n \<noteq> None, ?st)"
    using Some t(1,2) e b n by (simp add: ri_hub_push_next_def push_into_def)
  have "ri_inv (st\<lparr> ri_entries := ?E \<rparr>) F"
    by (rule ri_inv_flags [OF inv]) (use e in \<open>simp add: flags_def\<close>)
  moreover have "q \<in> set (ri_active_entry_tree st)" if "?n = Some q" for q
    using that by (auto simp: t(1) split: list.splits if_splits)
  ultimately have "ri_inv ?st F" unfolding ri_inv_def by simp
  moreover have "xs' = xs \<and> ys' = ys" if "ri_active_entry_tree st = xs' @ p # ys'" for xs' ys'
  proof -
    have "p \<notin> set xs'" using that ri_invD(2) [OF inv] by auto
    then have "split_ptr p (ri_active_entry_tree st) = Some (xs', ys')" using that by simp
    then show ?thesis using t(1,2) by simp
  qed
  ultimately show ?thesis using run Some e b by (intro exI conjI) (assumption | auto)+
qed

end
