(* ===== verification/Rx_Registry_Filter.thy ===== *)
theory Rx_Registry_Filter
  imports Rx_Registry_Ops
begin

text \<open>
  The filter of the driver. An update adds a subject or removes a range of subjects; between
  the updates the driver never misses a subject that is active, and when there is nothing more
  to update it filters for exactly the subjects of the registered endpoints.
\<close>

fun apply_update :: "filter_update \<Rightarrow> subject_id set \<Rightarrow> subject_id set" where
  "apply_update (AddSubject s) F = insert s F"
| "apply_update (RemoveSubjectRange a b) F = Set.filter (\<lambda>s. \<not> (a \<le> s \<and> s \<le> b)) F"
| "apply_update _ F = F"

declare apply_update.simps(2) [simp del]

lemma apply_range [simp]: "apply_update (RemoveSubjectRange a b) F = F - {a..b}"
  by (auto simp: apply_update.simps(2))

section \<open>Ranges\<close>

lemma subject_zero_le [simp]: "subject_id_from_u16_truncating 0 \<le> s"
  by (simp add: subject_id_from_u16_truncating_def less_eq_subject_id_def)

lemma subject_MAX_le: "subject_id_wf s \<Longrightarrow> s \<le> subject_id_MAX"
  by (simp add: subject_id_wf_def less_eq_subject_id_def subject_id_MAX_def)

text \<open>The first subject to forget, after the element before the gap.\<close>

lemma first_clean_up:
  assumes "links entries C F None xs" "\<exists>s. subject_id_wf s \<and> above (last_key (entry_subject entries) None xs) s"
  obtains a where "(case last_ptr xs of
      Some q \<Rightarrow> do { d \<leftarrow> entries q; next_subject (me_subject d) }
    | None \<Rightarrow> ret (subject_id_from_u16_truncating 0)) = Some a"
    "\<And>s. a \<le> s \<longleftrightarrow> above (last_key (entry_subject entries) None xs) s"
proof (cases "xs = []")
  case True
  then show ?thesis using that [of "subject_id_from_u16_truncating 0"]
    by (simp add: last_ptr_def)
next
  case False
  then obtain d where d: "entries (last xs) = Some d"
    using links_sorted(3) [OF assms(1) last_in_set [OF False]] by auto
  obtain s where s: "subject_id_wf s" "me_subject d < s"
    using assms(2) False d by (auto simp: last_key_def)
  obtain a where "next_subject (me_subject d) = Some a" "\<And>x. a \<le> x \<longleftrightarrow> me_subject d < x"
    using next_subject_gap [OF s(2,1)] by blast
  then show ?thesis using that [of a] False d by (simp add: last_ptr_def last_key_def)
qed

lemma links_below_last:
  assumes "links entries C F None xs" "x \<in> set xs"
  shows "\<not> above (last_key (entry_subject entries) None xs) (entry_subject entries x)"
proof -
  have "entry_subject entries x \<in> set (map (entry_subject entries) xs)" using assms(2) by simp
  from sorted_le_last [OF links_sorted(1) [OF assms(1)] this]
  have "entry_subject entries x \<le> entry_subject entries (last xs)"
    using assms(2) by (cases xs rule: rev_cases) auto
  then show ?thesis using assms(2) by (auto simp: last_key_def)
qed

section \<open>The three sources of updates\<close>

lemma ri_pop_clean_up_queue_inv:
  assumes inv: "ri_inv st F" and ne: "ri_clean_up_queue st \<noteq> []"
  shows "\<exists>u st'. ri_hub_pop_clean_up_queue st = Some (Some (Inl u), st') \<and> ri_inv st' (apply_update u F) \<and>
    ri_entries st' = ri_entries st"
proof -
  note r = ri_invD [OF inv]
  let ?key = "entry_subject (ri_entries st)"
  obtain p queue where c: "ri_clean_up_queue st = p # queue" using ne by (cases "ri_clean_up_queue st") auto
  have p: "p \<in> set (ri_active_entry_tree st)" using r(7) c by auto
  obtain xs ys where t: "ri_active_entry_tree st = xs @ p # ys" "p \<notin> set xs" "p \<notin> set ys"
    using remove_ptr_in [OF p r(2)] by metis
  let ?pr = "last_key ?key None xs"
  obtain e where e: "ri_entries st p = Some e" "subject_id_wf (me_subject e)" "me_subject e \<in> F"
    using ri_inv_entry(1) [OF inv p] by auto
  have link: "link_ok (ri_entries st) (set (ri_clean_up_queue st)) F ?pr p" using r(1) by (simp add: t(1))
  then have head: "me_is_head e" and "gap ?pr (me_subject e)" using e(1) c by (auto simp: link_ok_def)
  then obtain s where s: "above ?pr s" "s < me_subject e" by (auto simp: gap_def)
  obtain b where b: "prev_subject (me_subject e) = Some b" "\<And>x. x \<le> b \<longleftrightarrow> x < me_subject e"
    using prev_subject_gap [OF s(2) e(2)] by blast
  have xs: "links (ri_entries st) (set (ri_clean_up_queue st)) F None xs" using r(1) by (simp add: t(1))
  have "subject_id_wf s" using subject_wf_le [OF less_imp_le [OF s(2)] e(2)] .
  then have "\<exists>s. subject_id_wf s \<and> above ?pr s" using s(1) by blast
  from first_clean_up [OF xs this] obtain a where a: "(case last_ptr xs of
      Some q \<Rightarrow> do { d \<leftarrow> ri_entries st q; next_subject (me_subject d) }
    | None \<Rightarrow> ret (subject_id_from_u16_truncating 0)) = Some a" "\<And>s. a \<le> s \<longleftrightarrow> above ?pr s" by blast
  have "a \<le> s" "s \<le> b" using a(2) b(2) s by simp_all
  then have ab: "a \<le> b" by (rule order_trans)
  let ?st = "st\<lparr> ri_clean_up_queue := queue \<rparr>" and ?F = "F - {a..b}"
  have run: "ri_hub_pop_clean_up_queue st = Some (Some (Inl (RemoveSubjectRange a b)), ?st)"
    using e(1) head b(1) t(1,2) a(1) ab by (simp add: ri_hub_pop_clean_up_queue_def c)
  have range: "x \<in> {a..b} \<longleftrightarrow> above ?pr x \<and> x < me_subject e" for x using a(2) b(2) by simp
  have ys: "links (ri_entries st) (set (ri_clean_up_queue st)) F (Some (me_subject e)) ys"
    using r(1) e(1) by (simp add: t(1))
  have "links (ri_entries st) (set (ri_clean_up_queue st)) ?F None xs"
  proof (rule links_shrink [OF xs])
    fix x assume x: "x \<in> set xs"
    then obtain d where "ri_entries st x = Some d" "me_subject d \<in> F" using links_sorted(3) [OF xs x] by blast
    then show "?key x \<in> ?F" using links_below_last [OF xs x] range by auto
  qed auto
  moreover have "links (ri_entries st) (set (ri_clean_up_queue st)) ?F (Some (me_subject e)) ys"
  proof (rule links_shrink [OF ys])
    fix x assume x: "x \<in> set ys"
    then obtain d where "ri_entries st x = Some d" "me_subject d \<in> F" using links_sorted(3) [OF ys x] by blast
    moreover have "\<not> ?key x < me_subject e" using links_sorted(2) [OF ys x] by auto
    then have "?key x \<notin> {a..b}" using range by blast
    ultimately show "?key x \<in> ?F" by simp
  qed auto
  moreover have "links (ri_entries st) (set queue) ?F q zs \<longleftrightarrow>
      links (ri_entries st) (set (ri_clean_up_queue st)) ?F q zs" if "p \<notin> set zs" for q zs
    by (rule links_flags; use that c in auto)
  moreover have "link_ok (ri_entries st) (set queue) ?F ?pr p"
    using link e r(6) range c by (auto simp: link_ok_def)
  ultimately have "links (ri_entries st) (set queue) ?F None (ri_active_entry_tree st)"
    using t(2,3) e(1) by (simp add: t(1))
  then have "ri_inv ?st ?F" using inv c unfolding ri_inv_def by auto
  then show ?thesis using run by auto
qed

lemma ri_pop_clean_up_last_inv:
  assumes inv: "ri_inv st F" and last: "ri_clean_up_last st"
  shows "\<exists>u st'. ri_hub_pop_clean_up_last st = Some (Some (Inl u), st') \<and> ri_inv st' (apply_update u F) \<and>
    ri_entries st' = ri_entries st"
proof -
  note r = ri_invD [OF inv]
  let ?key = "entry_subject (ri_entries st)" and ?xs = "ri_active_entry_tree st"
  obtain a where a: "(case last_ptr ?xs of
      Some q \<Rightarrow> do { d \<leftarrow> ri_entries st q; next_subject (me_subject d) }
    | None \<Rightarrow> ret (subject_id_from_u16_truncating 0)) = Some a" "\<And>s. a \<le> s \<longleftrightarrow> above (last_key ?key None ?xs) s"
    using first_clean_up [OF r(1) r(13) [OF last]] by blast
  let ?F = "F - {a..subject_id_MAX}"
  have F: "?F = {s \<in> F. \<not> above (last_key ?key None ?xs) s}"
    using a(2) r(14) subject_MAX_le by auto
  have "links (ri_entries st) (set (ri_clean_up_queue st)) ?F None ?xs"
  proof (rule links_shrink [OF r(1)])
    fix x assume "x \<in> set ?xs"
    then show "?key x \<in> ?F"
      using links_below_last [OF r(1)] links_sorted(3) [OF r(1), of x] unfolding F by auto
  qed auto
  moreover have "\<forall>s \<in> ?F. subject_id_wf s \<and> \<not> above (last_key ?key None ?xs) s"
    using r(14) unfolding F by auto
  ultimately have "ri_inv (st\<lparr> ri_clean_up_last := False \<rparr>) ?F"
    using inv unfolding ri_inv_def by simp
  then show ?thesis using a(1) last by (auto simp: ri_hub_pop_clean_up_last_def)
qed

lemma ri_pop_registration_inv:
  assumes inv: "ri_inv st F" and ne: "ri_activation_queue st = p # queue"
    and clean: "ri_clean_up_queue st = []" "\<not> ri_clean_up_last st"
  shows "\<exists>r st'. ri_hub_pop_registration_queue st = Some (Some r, st') \<and>
    dom (ri_entries st') = dom (ri_entries st) \<and>
    ri_inv st' (case r of Inl u \<Rightarrow> apply_update u F | Inr _ \<Rightarrow> F) \<and> ri_activation_queue st' = queue"
proof -
  note r = ri_invD [OF inv]
  let ?key = "entry_subject (ri_entries st)"
  have p: "p \<in> set (ri_inactive_entry_tree st)" using r(9) ne by auto
  then have np: "p \<notin> set (ri_active_entry_tree st)" using r(4) by blast
  obtain e where e: "ri_entries st p = Some e" "\<not> me_is_head e" "subject_id_wf (me_subject e)"
    using ri_inv_entry(2) [OF inv p] by auto
  obtain us vs where i: "ri_inactive_entry_tree st = us @ p # vs" "p \<notin> set us" "p \<notin> set vs"
    "remove_ptr p (ri_inactive_entry_tree st) = Some (first_ptr vs, us @ vs)"
    by (rule remove_ptr_in [OF p r(3)])
  let ?k = "me_subject e" and ?tree = "ri_active_entry_tree st"
  let ?cursor = "upper_bound ?key ?k ?tree"
  obtain ys zs where t: "?tree = ys @ zs" "\<forall>q \<in> set ys. ?key q \<le> ?k" "\<forall>q \<in> set zs. ?k < ?key q"
    "insert_after ?tree ?cursor p = ys @ p # zs"
    by (rule upper_bound_split [OF links_sorted(1) [OF r(1)]])
  let ?found = "?k \<in> ?key ` set ?tree"
  have found: "at_key ?key ?k (cursor_get ?tree ?cursor) \<longleftrightarrow> ?found"
    by (rule found_iff [OF links_sorted(1) [OF r(1)]])
  have found_ys: "?found \<longleftrightarrow> ?k \<in> ?key ` set ys" using t(3) by (auto simp: t(1))
  let ?e = "e\<lparr> me_is_active := True, me_is_head := \<not> ?found \<rparr>"
  let ?E = "(ri_entries st)(p \<mapsto> ?e)" and ?F = "if ?found then F else insert ?k F"
  let ?st = "st\<lparr> ri_entries := ?E, ri_inactive_entry_tree := us @ vs, ri_active_entry_tree := ys @ p # zs,
    ri_activation_queue := queue \<rparr>"
  let ?res = "if ?found then Inr () else Inl (AddSubject ?k)"
  have run: "ri_hub_pop_registration_queue st = Some (Some ?res, ?st)"
    using e(1) i(4) found t(4) by (simp add: ri_hub_pop_registration_queue_def ne set_flags_def Let_def)
  have active_F: "?key q \<in> F" if "q \<in> set ?tree" for q using ri_inv_entry(1) [OF inv that] by auto
  have links: "links ?E (set (ri_clean_up_queue st)) ?F None (ys @ p # zs)"
    by (rule links_insert [where F = F and k = ?k])
      (use r(1,15) t(1-3) np e(3) found_ys active_F clean in auto)
  have key_p: "entry_subject ?E p = ?k" by (simp add: entry_subject_def)
  have key: "entry_subject ?E q = ?key q" if "q \<noteq> p" for q using that by (simp add: entry_subject_def)
  have last: "\<not> above (last_key (entry_subject ?E) None (ys @ p # zs)) s" if "s \<in> ?F" for s
  proof (cases "zs = []")
    case True
    show ?thesis
    proof (cases "s = ?k")
      case False
      then have "s \<in> F" using that by (auto split: if_splits)
      then have "\<not> above (last_key ?key None ys) s" using r(15) clean(2) by (auto simp: t(1) True)
      then have "ys \<noteq> [] \<and> s \<le> ?key (last ys)" by (cases "ys = []") (simp_all add: last_key_def)
      then have "s \<le> ?k" using t(2) last_in_set by (blast intro: order_trans)
      then show ?thesis using True key_p by (simp add: last_key_def)
    qed (use True key_p in \<open>simp add: last_key_def\<close>)
  next
    case False
    then have l: "last zs \<in> set zs" "last zs \<noteq> p" using np t(1) by auto
    have "\<not> above (Some (?key (last zs))) s"
    proof (cases "s = ?k")
      case True
      then show ?thesis using t(3) l(1) by auto
    next
      case s: False
      then have "s \<in> F" using that by (auto split: if_splits)
      then show ?thesis using r(15) [of s] clean(2) False by (auto simp: t(1) last_key_def)
    qed
    then show ?thesis using False key [OF l(2)] by (simp add: last_key_def)
  qed
  have in_F: "subject_id_wf s" if "s \<in> ?F" for s using that r(14) e(3) by (auto split: if_splits)
  have keys: "map (entry_subject ?E) (us @ vs) = map ?key (us @ vs)"
    by (intro map_cong refl key) (use i(2,3) in auto)
  have "sorted (map (entry_subject ?E) (us @ vs))"
    unfolding keys using r(5) by (auto simp: i(1) sorted_append)
  moreover have "set queue = set (us @ vs)" using r(8,9) i(2,3) by (auto simp: ne i(1))
  moreover have "dom ?E = set (ys @ p # zs) \<union> set (us @ vs)" using r(10) i(1) by (auto simp: t(1))
  moreover have "\<not> me_is_active x \<and> \<not> me_is_head x \<and> subject_id_wf (me_subject x)"
    if "u \<in> set (us @ vs)" "?E u = Some x" for u x
    using that r(11) [of u x] i(2,3) by (auto simp: i(1) split: if_splits)
  moreover have "u \<notin> set (us @ vs)" if "u \<in> set (ys @ p # zs)" for u
    using that r(4) [of u] i(2,3) by (auto simp: i(1) t(1))
  moreover have "distinct (ys @ p # zs)" "distinct (us @ vs)" "distinct queue"
    using r(2,3,8) np by (auto simp: t(1) i(1) ne)
  moreover have "q \<in> set (ys @ p # zs)" if "ri_next_push_ptr st = Some q" for q
    using r(12) [OF that] by (auto simp: t(1))
  ultimately have "ri_inv ?st ?F"
    using links last in_F clean unfolding ri_inv_def by simp
  then show ?thesis using run e(1) by (auto simp: insert_absorb domIff)
qed

end
