(* ===== verification/Rx_Registry_Run.thy ===== *)
theory Rx_Registry_Run
  imports Rx_Registry_Filter Rx_Fifo Rx_Watch
begin

text \<open>
  The registry of regular frames at work: the operations of endpoints, of the driver that
  pushes frames and of the driver that asks for filter updates come in any order, one lock at
  a time.
\<close>

section \<open>Steps\<close>

datatype 'b rg_op = RgRegister ptr subject_id 'b | RgUnregister ptr | RgBuffer ptr "'b \<Rightarrow> 'b exec"
  | RgPushStart subject_id | RgPushNext frame mtu | RgPollFilter

type_synonym 'b rg_state = "'b regular_inner \<times> subject_id set"

fun rg_step :: "('b \<Rightarrow> frame \<Rightarrow> mtu \<Rightarrow> 'b exec) \<Rightarrow> 'b rg_op \<Rightarrow> 'b rg_state \<Rightarrow> 'b rg_state exec" where
  "rg_step push_frame (RgRegister p s b) (st, F) = do {
     (res, st) \<leftarrow> ri_reg_register (st\<lparr> ri_entries := (ri_entries st)(p \<mapsto> me_new s b) \<rparr>) p;
     ret (case res of Inl _ \<Rightarrow> st\<lparr> ri_entries := (ri_entries st)(p := None) \<rparr> | Inr _ \<Rightarrow> st, F)
   }"
| "rg_step push_frame (RgUnregister p) (st, F) = do { st \<leftarrow> ri_reg_unregister st p; ret (st, F) }"
| "rg_step push_frame (RgBuffer p f) (st, F) = do {
     (_, st) \<leftarrow> ri_with_buffer_mut st p (\<lambda>b. do { b \<leftarrow> f b; ret ((), b) });
     ret (st, F)
   }"
| "rg_step push_frame (RgPushStart s) (st, F) = do { (_, st) \<leftarrow> ri_hub_push_start st s; ret (st, F) }"
| "rg_step push_frame (RgPushNext frame mtu) (st, F) = do {
     (_, st) \<leftarrow> ri_hub_push_next push_frame st frame mtu;
     ret (st, F)
   }"
| "rg_step push_frame RgPollFilter (st, F) = do {
     (res, st) \<leftarrow> ri_hub_poll_pop_filter_update st;
     ret (st, case res of Ready (Inl u) \<Rightarrow> apply_update u F | _ \<Rightarrow> F)
   }"

text \<open>
  What the endpoints have to keep: they register an entry of their own with a buffer in order,
  use it and unregister it once; the frames come from the driver.
\<close>

fun rg_ok :: "('b \<Rightarrow> bool) \<Rightarrow> 'b rg_op \<Rightarrow> 'b regular_inner \<Rightarrow> bool" where
  "rg_ok ok (RgRegister p s b) st = (ri_entries st p = None \<and> subject_id_wf s \<and> ok b)"
| "rg_ok ok (RgUnregister p) st = (ri_entries st p \<noteq> None)"
| "rg_ok ok (RgBuffer p f) st = (ri_entries st p \<noteq> None \<and> (\<forall>b. ok b \<longrightarrow> (\<exists>b'. f b = Some b' \<and> ok b')))"
| "rg_ok ok (RgPushStart s) st = True"
| "rg_ok ok (RgPushNext frame mtu) st = frame_wf frame"
| "rg_ok ok RgPollFilter st = True"

inductive rg_reach ::
  "('b \<Rightarrow> frame \<Rightarrow> mtu \<Rightarrow> 'b exec) \<Rightarrow> ('b \<Rightarrow> bool) \<Rightarrow> nat \<Rightarrow> 'b rg_state \<Rightarrow> bool"
  for push_frame ok slots where
  rg_start: "rg_reach push_frame ok slots (ri_new slots, {})"
| rg_next: "rg_reach push_frame ok slots (st, F) \<Longrightarrow> rg_ok ok op st \<Longrightarrow>
    rg_step push_frame op (st, F) = Some s' \<Longrightarrow> rg_reach push_frame ok slots s'"

section \<open>What the registry relies on\<close>

locale rx_hosted =
  fixes push_frame :: "'b \<Rightarrow> frame \<Rightarrow> mtu \<Rightarrow> 'b exec" and ok :: "'b \<Rightarrow> bool"
  assumes push_ok: "ok b \<Longrightarrow> frame_wf f \<Longrightarrow> \<exists>b'. push_frame b f m = Some b' \<and> ok b'"
begin

definition hosts :: "'b rx_entries \<Rightarrow> bool" where
  "hosts entries \<longleftrightarrow> (\<forall>p e. entries p = Some e \<longrightarrow> ok (me_buffer e))"

lemma hosts_sub: "hosts E \<Longrightarrow> (\<And>p e. E' p = Some e \<Longrightarrow> \<exists>d. E p = Some d \<and> me_buffer d = me_buffer e) \<Longrightarrow> hosts E'"
  unfolding hosts_def by metis

end

text \<open>The flags of the entries may change; their buffers change only when a frame is pushed.\<close>

definition same_buffers :: "'b rx_entries \<Rightarrow> 'b rx_entries \<Rightarrow> bool" where
  "same_buffers E E' \<longleftrightarrow> (\<forall>p e. E' p = Some e \<longrightarrow> (\<exists>d. E p = Some d \<and> me_buffer d = me_buffer e))"

lemma same_buffers_refl [simp]: "same_buffers E E"
  by (simp add: same_buffers_def)

lemma ri_unregister_buffers:
  assumes "ri_reg_unregister st p = Some st'"
  shows "same_buffers (ri_entries st) (ri_entries st')"
  using assms
  by (auto simp: ri_reg_unregister_def ri_reg_unregister_active_head_def Let_def
      ri_reg_unregister_active_tail_def ri_reg_unregister_inactive_def ri_unlink_mark_def
      ri_push_past_def ri_wake_def same_buffers_def
      split: bind_splits option.splits if_splits prod.splits bool.splits)

lemma ri_push_start_entries:
  "ri_hub_push_start st s = Some (b, st') \<Longrightarrow> ri_entries st' = ri_entries st"
  by (auto simp: ri_hub_push_start_def split: bind_splits option.splits)

lemma ri_register_buffers:
  assumes "ri_reg_register st p = Some (res, st')"
  shows "same_buffers (ri_entries st) (ri_entries st')"
  using assms
  by (auto simp: ri_reg_register_def Let_def ri_enqueue_def set_flags_def ri_wake_def same_buffers_def
      split: bind_splits option.splits if_splits prod.splits)

lemma ri_poll_buffers:
  assumes "ri_hub_poll_pop_filter_update st = Some (res, st')"
  shows "same_buffers (ri_entries st) (ri_entries st')"
  using assms
  by (auto simp: ri_hub_poll_pop_filter_update_def ri_hub_pop_clean_up_queue_def ri_hub_pop_clean_up_last_def
      ri_hub_pop_registration_queue_def set_flags_def Let_def same_buffers_def
      split: bind_splits option.splits list.splits if_splits prod.splits)

text \<open>How much the driver still has to fetch.\<close>

definition updates_left :: "'b regular_inner \<Rightarrow> nat" where
  "updates_left st = length (ri_clean_up_queue st) + (if ri_clean_up_last st then 1 else 0) +
     length (ri_activation_queue st)"

lemma ri_poll_filter_inv:
  assumes inv: "ri_inv st F"
  shows "\<exists>res st'. ri_hub_poll_pop_filter_update st = Some (res, st') \<and>
    dom (ri_entries st') = dom (ri_entries st) \<and>
    (case res of
       Ready (Inl u) \<Rightarrow> ri_inv st' (apply_update u F) \<and> updates_left st' < updates_left st
     | Ready (Inr _) \<Rightarrow> ri_inv st' F \<and> updates_left st' < updates_left st
     | Pending \<Rightarrow> ri_inv st' F \<and> updates_left st = 0 \<and> ri_entries st' = ri_entries st \<and>
         ri_active_entry_tree st' = ri_active_entry_tree st)"
proof -
  consider "ri_clean_up_queue st \<noteq> []" | "ri_clean_up_queue st = []" "ri_clean_up_last st"
    | "ri_clean_up_queue st = []" "\<not> ri_clean_up_last st" "ri_activation_queue st \<noteq> []"
    | "ri_clean_up_queue st = []" "\<not> ri_clean_up_last st" "ri_activation_queue st = []" by blast
  then show ?thesis
  proof cases
    case 1
    obtain u st' where u: "ri_hub_pop_clean_up_queue st = Some (Some (Inl u), st')"
      "ri_inv st' (apply_update u F)" "ri_entries st' = ri_entries st"
      using ri_pop_clean_up_queue_inv [OF inv 1] by blast
    moreover have "updates_left st' < updates_left st"
      using u(1) 1 by (auto simp: ri_hub_pop_clean_up_queue_def updates_left_def split: bind_splits list.splits)
    ultimately show ?thesis by (simp add: ri_hub_poll_pop_filter_update_def)
  next
    case 2
    have q: "ri_hub_pop_clean_up_queue st = Some (None, st)" using 2 by (simp add: ri_hub_pop_clean_up_queue_def)
    obtain u st' where u: "ri_hub_pop_clean_up_last st = Some (Some (Inl u), st')"
      "ri_inv st' (apply_update u F)" "ri_entries st' = ri_entries st"
      using ri_pop_clean_up_last_inv [OF inv 2(2)] by blast
    moreover have "updates_left st' < updates_left st"
      using u(1) 2 by (auto simp: ri_hub_pop_clean_up_last_def updates_left_def split: bind_splits)
    ultimately show ?thesis using q by (simp add: ri_hub_poll_pop_filter_update_def)
  next
    case 3
    have q: "ri_hub_pop_clean_up_queue st = Some (None, st)" using 3 by (simp add: ri_hub_pop_clean_up_queue_def)
    have l: "ri_hub_pop_clean_up_last st = Some (None, st)" using 3 by (simp add: ri_hub_pop_clean_up_last_def)
    obtain p queue where p: "ri_activation_queue st = p # queue" using 3(3) by (cases "ri_activation_queue st") auto
    obtain r st' where u: "ri_hub_pop_registration_queue st = Some (Some r, st')"
      "dom (ri_entries st') = dom (ri_entries st)"
      "ri_inv st' (case r of Inl u \<Rightarrow> apply_update u F | Inr _ \<Rightarrow> F)" "ri_activation_queue st' = queue"
      using ri_pop_registration_inv [OF inv p 3(1,2)] by blast
    moreover have "updates_left st' < updates_left st"
      using u(1) 3(1,2) p
      by (auto simp: ri_hub_pop_registration_queue_def updates_left_def Let_def split: bind_splits prod.splits)
    ultimately show ?thesis using q l by (cases r) (auto simp: ri_hub_poll_pop_filter_update_def)
  next
    case 4
    then have "ri_hub_poll_pop_filter_update st = Some (Pending,
        st\<lparr> ri_filter_update_waker := RegisterWaker # ri_filter_update_waker st \<rparr>)"
      by (simp add: ri_hub_poll_pop_filter_update_def ri_hub_pop_clean_up_queue_def ri_hub_pop_clean_up_last_def
          ri_hub_pop_registration_queue_def)
    moreover have "ri_inv (st\<lparr> ri_filter_update_waker := w \<rparr>) F" for w using inv unfolding ri_inv_def by simp
    ultimately show ?thesis using 4 by (simp add: updates_left_def)
  qed
qed

text \<open>With nothing left to fetch, the filter is exact.\<close>

lemma ri_inv_exact:
  assumes inv: "ri_inv st F" and "updates_left st = 0"
  shows "F = me_subject ` ran (ri_entries st)"
proof -
  note r = ri_invD [OF inv]
  have q: "ri_clean_up_queue st = []" "\<not> ri_clean_up_last st" "ri_activation_queue st = []"
    using assms(2) by (auto simp: updates_left_def split: if_splits)
  let ?key = "entry_subject (ri_entries st)" and ?xs = "ri_active_entry_tree st"
  have dom: "dom (ri_entries st) = set ?xs" using r(9,10) q(3) by simp
  have sub: "F \<subseteq> ?key ` set ?xs"
  proof
    fix s assume s: "s \<in> F"
    have below: "\<not> above (last_key ?key None ?xs) s" using r(15) [OF s] q(2) by blast
    have *: "links (ri_entries st) {} F prev xs \<Longrightarrow> above prev s \<Longrightarrow> \<not> above (last_key ?key prev xs) s \<Longrightarrow>
        s \<in> ?key ` set xs" for prev xs
    proof (induction xs arbitrary: prev)
      case (Cons x xs)
      obtain e where e: "ri_entries st x = Some e" "\<not> (above prev s \<and> s < me_subject e)"
        using Cons.prems(1) s by (auto simp: link_ok_def split: option.splits)
      then have "me_subject e \<le> s" using Cons.prems(2) by auto
      then show ?case
      proof (cases "me_subject e = s")
        case False
        then have "above (Some (?key x)) s" using \<open>me_subject e \<le> s\<close> e(1) by simp
        then show ?thesis using Cons.IH [of "Some (?key x)"] Cons.prems(1,3) by auto
      qed (use e(1) in auto)
    qed simp
    show "s \<in> ?key ` set ?xs" by (rule * [of None]) (use r(1) q(1) below in auto)
  qed
  have "?key p \<in> F" if "p \<in> set ?xs" for p using ri_inv_entry(1) [OF inv that] by auto
  with sub have "F = ?key ` dom (ri_entries st)" unfolding dom by auto
  also have "\<dots> = me_subject ` ran (ri_entries st)" by (force simp: ran_def dom_def image_iff)
  finally show ?thesis .
qed

context rx_hosted
begin

lemma step_total:
  assumes inv: "ri_inv st F" "hosts (ri_entries st)" and op: "rg_ok ok op st"
  shows "\<exists>st' F'. rg_step push_frame op (st, F) = Some (st', F') \<and> ri_inv st' F' \<and> hosts (ri_entries st')"
proof (cases op)
  case (RgRegister p s b)
  let ?E = "(ri_entries st)(p \<mapsto> me_new s b)"
  have p: "ri_entries st p = None" "subject_id_wf s" "ok b" using op RgRegister by auto
  have E: "hosts ?E" using inv(2) p(3) by (auto simp: hosts_def me_new_def)
  obtain r st' where r: "ri_reg_register (st\<lparr> ri_entries := ?E \<rparr>) p = Some (r, st')"
    "case r of Inl e \<Rightarrow> st' = st\<lparr> ri_entries := ?E \<rparr> \<and> e = NoSubjectSlotLeft \<and>
         ri_free_slot_count st = 0 \<and> s \<notin> entry_subject (ri_entries st) ` dom (ri_entries st)
     | Inr q \<Rightarrow> q = p \<and> ri_inv st' F" using ri_reg_register_inv [OF inv(1) p(1,2)] by blast
  show ?thesis
  proof (cases r)
    case (Inl e)
    have "(ri_entries st)(p := None) = ri_entries st" using p(1) by (simp add: fun_upd_idem)
    then have "st'\<lparr> ri_entries := (ri_entries st')(p := None) \<rparr> = st" using r(2) Inl by (cases st) simp
    then show ?thesis using r(1) Inl RgRegister inv by simp
  next
    case (Inr q)
    have "hosts (ri_entries st')"
      using ri_register_buffers [OF r(1)] hosts_sub [OF E] by (simp add: same_buffers_def)
    then show ?thesis using r Inr RgRegister by simp
  qed
next
  case (RgUnregister p)
  then obtain e where "ri_entries st p = Some e" using op by auto
  then obtain st' where st': "ri_reg_unregister st p = Some st'" "ri_inv st' F"
    using ri_reg_unregister_inv [OF inv(1)] by blast
  have "hosts (ri_entries st')"
    using ri_unregister_buffers [OF st'(1)] hosts_sub [OF inv(2)] by (simp add: same_buffers_def)
  then show ?thesis using st' RgUnregister by simp
next
  case (RgBuffer p f)
  then obtain e where e: "ri_entries st p = Some e" using op by auto
  then have "ok (me_buffer e)" using inv(2) by (simp add: hosts_def)
  then obtain b where b: "f (me_buffer e) = Some b" "ok b" using op RgBuffer by auto
  have f: "(do { x \<leftarrow> f (me_buffer e); ret ((), x) }) = Some ((), b)" using b(1) by simp
  obtain st' where st': "ri_with_buffer_mut st p (\<lambda>b. do { b \<leftarrow> f b; ret ((), b) }) = Some ((), st')" "ri_inv st' F"
    "ri_entries st' = (ri_entries st)(p \<mapsto> e\<lparr> me_buffer := b \<rparr>)"
    using ri_with_buffer_inv [where f = "\<lambda>b. do { b \<leftarrow> f b; ret ((), b) }", OF inv(1) e f] by blast
  have "hosts (ri_entries st')" using inv(2) b(2) by (auto simp: st'(3) hosts_def)
  then show ?thesis using st'(1,2) RgBuffer by simp
next
  case (RgPushStart s)
  obtain n where n: "ri_hub_push_start st s = Some (n \<noteq> None, st\<lparr> ri_next_push_ptr := n \<rparr>)"
    "ri_inv (st\<lparr> ri_next_push_ptr := n \<rparr>) F" by (rule ri_hub_push_start_inv [OF inv(1)])
  then show ?thesis using RgPushStart inv(2) by simp
next
  case (RgPushNext frame mtu)
  have wf: "frame_wf frame" using op RgPushNext by simp
  have total: "push_frame (me_buffer e) frame mtu \<noteq> None" if "e \<in> ran (ri_entries st)" for e
    using push_ok [of "me_buffer e" frame mtu] wf inv(2) that by (auto simp: hosts_def ran_def)
  obtain more st' where st': "ri_hub_push_next push_frame st frame mtu = Some (more, st')" "ri_inv st' F"
    using ri_hub_push_next_inv [where push_frame = push_frame and frame = frame and mtu = mtu,
        OF inv(1) total] by blast
  have "hosts (ri_entries st')"
  proof (cases "ri_next_push_ptr st")
    case None
    then show ?thesis using st'(1) inv(2) by (simp add: ri_hub_push_next_def)
  next
    case (Some p)
    then obtain e b where "ri_entries st p = Some e" "push_frame (me_buffer e) frame mtu = Some b"
      "ri_entries st' = (ri_entries st)(p \<mapsto> e\<lparr> me_buffer := b \<rparr>)"
      using st'(1) by (auto simp: ri_hub_push_next_def push_into_def split: bind_splits option.splits if_splits)
    moreover from this have "ok b" using push_ok [of "me_buffer e" frame mtu] wf inv(2) by (auto simp: hosts_def)
    ultimately show ?thesis using inv(2) by (auto simp: hosts_def)
  qed
  then show ?thesis using st' RgPushNext by simp
next
  case RgPollFilter
  obtain res st' where r: "ri_hub_poll_pop_filter_update st = Some (res, st')"
    "case res of Ready (Inl u) \<Rightarrow> ri_inv st' (apply_update u F) \<and> updates_left st' < updates_left st
     | Ready (Inr _) \<Rightarrow> ri_inv st' F \<and> updates_left st' < updates_left st
     | Pending \<Rightarrow> ri_inv st' F \<and> updates_left st = 0 \<and> ri_entries st' = ri_entries st \<and>
         ri_active_entry_tree st' = ri_active_entry_tree st" using ri_poll_filter_inv [OF inv(1)] by blast
  have "hosts (ri_entries st')"
    using ri_poll_buffers [OF r(1)] hosts_sub [OF inv(2)] by (simp add: same_buffers_def)
  then show ?thesis using r RgPollFilter by (auto split: poll.splits sum.splits)
qed

lemma reach_inv: "rg_reach push_frame ok slots s \<Longrightarrow> ri_inv (fst s) (snd s) \<and> hosts (ri_entries (fst s))"
proof (induction rule: rg_reach.induct)
  case rg_start
  then show ?case using ri_inv_new by (simp add: hosts_def ri_new_def)
next
  case (rg_next st F op s')
  then show ?case using step_total [of st F op] by auto
qed

end

section \<open>A frame for the endpoints of its subject\<close>

text \<open>What a pushed frame does to the entries: the buffers of the subject get it, once each.\<close>

definition pushed_entries ::
  "('b \<Rightarrow> 'b) \<Rightarrow> ptr set \<Rightarrow> subject_id \<Rightarrow> 'b rx_entries \<Rightarrow> 'b rx_entries" where
  "pushed_entries g ps s entries = (\<lambda>p. map_option (\<lambda>e.
     if p \<in> ps \<and> me_subject e = s then e\<lparr> me_buffer := g (me_buffer e) \<rparr> else e) (entries p))"

lemma pushed_entries_empty [simp]: "pushed_entries g {} s E = E"
  by (simp add: pushed_entries_def fun_eq_iff option.map_ident)

lemma pushed_entries_insert:
  assumes "E p = Some e" "me_subject e = s" "p \<notin> ps"
  shows "pushed_entries g ps s (E(p \<mapsto> e\<lparr> me_buffer := g (me_buffer e) \<rparr>)) = pushed_entries g (insert p ps) s E"
  using assms by (auto simp: pushed_entries_def fun_eq_iff)

lemma pushed_entries_none:
  assumes "\<And>p e. p \<in> ps \<Longrightarrow> E p = Some e \<Longrightarrow> me_subject e \<noteq> s"
  shows "pushed_entries g ps s E = E"
proof
  fix p show "pushed_entries g ps s E p = E p"
    using assms by (cases "E p") (auto simp: pushed_entries_def)
qed

text \<open>Buffers that take the frame and stay in order.\<close>

definition takes_frame ::
  "('b \<Rightarrow> bool) \<Rightarrow> ('b \<Rightarrow> frame \<Rightarrow> mtu \<Rightarrow> 'b exec) \<Rightarrow> frame \<Rightarrow> mtu \<Rightarrow> ('b \<Rightarrow> 'b) \<Rightarrow> bool" where
  "takes_frame ok push_frame frame mtu g \<longleftrightarrow> (\<forall>b. ok b \<longrightarrow> push_frame b frame mtu = Some (g b) \<and> ok (g b))"

definition entries_ok :: "('b \<Rightarrow> bool) \<Rightarrow> 'b rx_entries \<Rightarrow> bool" where
  "entries_ok ok entries \<longleftrightarrow> (\<forall>p e. entries p = Some e \<longrightarrow> ok (me_buffer e))"

lemma takes_frameD:
  assumes "takes_frame ok push_frame frame mtu g" "entries_ok ok E" "E p = Some e"
  shows "push_frame (me_buffer e) frame mtu = Some (g (me_buffer e))" "ok (g (me_buffer e))"
  using assms unfolding takes_frame_def entries_ok_def by blast+

lemma entries_ok_upd:
  "entries_ok ok E \<Longrightarrow> ok b \<Longrightarrow> entries_ok ok (E(p \<mapsto> e\<lparr> me_buffer := b \<rparr>))"
  by (auto simp: entries_ok_def)

lemma push_next_at:
  assumes g: "takes_frame ok push_frame frame mtu g" "entries_ok ok (ri_entries st)" and inv: "ri_inv st F"
    and p: "ri_next_push_ptr st = Some p" "ri_active_entry_tree st = xs @ p # ys"
  obtains st' e where "ri_hub_push_next push_frame st frame mtu = Some (ri_next_push_ptr st' \<noteq> None, st')"
    "ri_inv st' F" "ri_active_entry_tree st' = ri_active_entry_tree st" "ri_entries st p = Some e"
    "ri_entries st' = (ri_entries st)(p \<mapsto> e\<lparr> me_buffer := g (me_buffer e) \<rparr>)"
    "ri_next_push_ptr st' = (case ys of [] \<Rightarrow> None
       | q # _ \<Rightarrow> if entry_subject (ri_entries st) q = me_subject e then Some q else None)"
proof -
  have total: "push_frame (me_buffer e) frame mtu \<noteq> None" if "e \<in> ran (ri_entries st)" for e
    using that takes_frameD(1) [OF g] by (auto simp: ran_def)
  obtain more st' where st': "ri_hub_push_next push_frame st frame mtu = Some (more, st')" "ri_inv st' F"
    "more = (ri_next_push_ptr st' \<noteq> None)" "ri_active_entry_tree st' = ri_active_entry_tree st"
    "\<forall>xs p ys. ri_next_push_ptr st = Some p \<longrightarrow> ri_active_entry_tree st = xs @ p # ys \<longrightarrow>
      (\<exists>e b. ri_entries st p = Some e \<and> push_frame (me_buffer e) frame mtu = Some b \<and>
        ri_entries st' = (ri_entries st)(p \<mapsto> e\<lparr> me_buffer := b \<rparr>) \<and>
        ri_next_push_ptr st' = (case ys of [] \<Rightarrow> None
          | q # _ \<Rightarrow> if entry_subject (ri_entries st) q = me_subject e then Some q else None))"
    using ri_hub_push_next_inv [where push_frame = push_frame and frame = frame and mtu = mtu,
        OF inv total] by blast
  obtain e b where "ri_entries st p = Some e" "push_frame (me_buffer e) frame mtu = Some b"
    "ri_entries st' = (ri_entries st)(p \<mapsto> e\<lparr> me_buffer := b \<rparr>)"
    "ri_next_push_ptr st' = (case ys of [] \<Rightarrow> None
       | q # _ \<Rightarrow> if entry_subject (ri_entries st) q = me_subject e then Some q else None)"
    using st'(5) p by blast
  then show ?thesis using that [of st' e] st'(1-4) takes_frameD(1) [OF g] by simp
qed

lemma push_while_group:
  assumes g: "takes_frame ok push_frame frame mtu g"
  shows "ri_inv st F \<Longrightarrow> entries_ok ok (ri_entries st) \<Longrightarrow> ri_next_push_ptr st = Some p \<Longrightarrow> ri_active_entry_tree st = xs @ p # ys \<Longrightarrow>
    entry_subject (ri_entries st) p = s \<Longrightarrow>
    \<exists>st'. push_while (\<lambda>st. ri_hub_push_next push_frame st frame mtu) st = Some st' \<and> ri_inv st' F \<and>
      ri_next_push_ptr st' = None \<and> ri_active_entry_tree st' = ri_active_entry_tree st \<and>
      entries_ok ok (ri_entries st') \<and> ri_entries st' = pushed_entries g (set (p # ys)) s (ri_entries st)"
proof (induction ys arbitrary: st p xs)
  case (Nil st p xs)
  obtain st' e where st': "ri_hub_push_next push_frame st frame mtu = Some (ri_next_push_ptr st' \<noteq> None, st')"
    "ri_inv st' F" "ri_active_entry_tree st' = ri_active_entry_tree st" "ri_entries st p = Some e"
    "ri_entries st' = (ri_entries st)(p \<mapsto> e\<lparr> me_buffer := g (me_buffer e) \<rparr>)" "ri_next_push_ptr st' = None"
    using push_next_at [where push_frame = push_frame and frame = frame and mtu = mtu and g = g,
        OF g Nil.prems(2,1,3,4)] by auto
  have "me_subject e = s" using Nil.prems(5) st'(4) by simp
  then have "ri_entries st' = pushed_entries g (set [p]) s (ri_entries st)"
    using pushed_entries_insert [of "ri_entries st" p e s "{}" g] st'(4,5) by simp
  moreover have "push_while (\<lambda>st. ri_hub_push_next push_frame st frame mtu) st = Some st'"
    using st'(1,6) by (subst push_while.simps) simp
  moreover have "entries_ok ok (ri_entries st')"
    using entries_ok_upd [OF Nil.prems(2) takes_frameD(2) [OF g Nil.prems(2) st'(4)]] st'(5) by simp
  ultimately show ?case using st' by blast
next
  case (Cons q ys st p xs)
  obtain st' e where st': "ri_hub_push_next push_frame st frame mtu = Some (ri_next_push_ptr st' \<noteq> None, st')"
    "ri_inv st' F" "ri_active_entry_tree st' = ri_active_entry_tree st" "ri_entries st p = Some e"
    "ri_entries st' = (ri_entries st)(p \<mapsto> e\<lparr> me_buffer := g (me_buffer e) \<rparr>)"
    "ri_next_push_ptr st' = (if entry_subject (ri_entries st) q = me_subject e then Some q else None)"
    using push_next_at [where push_frame = push_frame and frame = frame and mtu = mtu and g = g,
        OF g Cons.prems(2,1,3,4)] by auto
  have s: "me_subject e = s" using Cons.prems(5) st'(4) by simp
  have ok: "entries_ok ok (ri_entries st')"
    using entries_ok_upd [OF Cons.prems(2) takes_frameD(2) [OF g Cons.prems(2) st'(4)]] st'(5) by simp
  have np: "p \<notin> set (q # ys)" using ri_invD(2) [OF Cons.prems(1)] by (simp add: Cons.prems(4))
  have unfold: "push_while (\<lambda>st. ri_hub_push_next push_frame st frame mtu) st =
      (if ri_next_push_ptr st' \<noteq> None then push_while (\<lambda>st. ri_hub_push_next push_frame st frame mtu) st' else Some st')"
    using st'(1) by (subst push_while.simps) simp
  have step: "pushed_entries g (set (q # ys)) s (ri_entries st') =
      pushed_entries g (set (p # q # ys)) s (ri_entries st)"
    using pushed_entries_insert [where E = "ri_entries st", OF st'(4) s np, of g] by (simp add: st'(5))
  show ?case
  proof (cases "entry_subject (ri_entries st) q = s")
    case True
    have active: "ri_active_entry_tree st' = (xs @ [p]) @ q # ys" using Cons.prems(4) st'(3) by simp
    have "entry_subject (ri_entries st') q = s" using True np by (auto simp: st'(5) entry_subject_def)
    moreover have "ri_next_push_ptr st' = Some q" using True s st'(6) by simp
    ultimately obtain st2 where "push_while (\<lambda>st. ri_hub_push_next push_frame st frame mtu) st' = Some st2"
      "ri_inv st2 F" "ri_next_push_ptr st2 = None" "ri_active_entry_tree st2 = ri_active_entry_tree st'"
      "entries_ok ok (ri_entries st2)" "ri_entries st2 = pushed_entries g (set (q # ys)) s (ri_entries st')"
      using Cons.IH [OF st'(2) ok _ active] by blast
    then show ?thesis using unfold st'(3) \<open>ri_next_push_ptr st' = Some q\<close> step by auto
  next
    case False
    have finished: "ri_next_push_ptr st' = None" using False s st'(6) by simp
    have sorted: "sorted (map (entry_subject (ri_entries st)) (xs @ p # q # ys))"
      using links_sorted(1) [OF ri_invD(1) [OF Cons.prems(1)]] by (simp add: Cons.prems(4))
    have ne: "me_subject d \<noteq> s" if "r \<in> set (q # ys)" "ri_entries st' r = Some d" for r d
    proof -
      have d: "ri_entries st r = Some d" using that np by (auto simp: st'(5) split: if_splits)
      have "s < entry_subject (ri_entries st) q" using sorted False Cons.prems(5) by (auto simp: sorted_append)
      also have "\<dots> \<le> entry_subject (ri_entries st) r" using sorted that(1) by (auto simp: sorted_append)
      finally show ?thesis using d by simp
    qed
    have "pushed_entries g (set (q # ys)) s (ri_entries st') = ri_entries st'"
      by (rule pushed_entries_none) (rule ne)
    then have "ri_entries st' = pushed_entries g (set (p # q # ys)) s (ri_entries st)" using step by simp
    then show ?thesis using unfold st'(2,3) finished ok by auto
  qed
qed

lemma hub_push_regular_entries:
  assumes inv: "ri_inv st F" and g: "takes_frame ok push_frame frame mtu g" "entries_ok ok (ri_entries st)"
  shows "\<exists>st'. mr_hub_push_regular push_frame st s frame mtu = Some st' \<and> ri_inv st' F \<and>
    entries_ok ok (ri_entries st') \<and> ri_entries st' = pushed_entries g (set (ri_active_entry_tree st)) s (ri_entries st)"
proof -
  let ?key = "entry_subject (ri_entries st)"
  obtain n where n: "ri_hub_push_start st s = Some (n \<noteq> None, st\<lparr> ri_next_push_ptr := n \<rparr>)"
    "ri_inv (st\<lparr> ri_next_push_ptr := n \<rparr>) F" "n = find (\<lambda>p. ?key p = s) (ri_active_entry_tree st)"
    by (rule ri_hub_push_start_inv [OF inv])
  show ?thesis
  proof (cases n)
    case None
    then have none: "find (\<lambda>p. ?key p = s) (ri_active_entry_tree st) = None" using n(3) by simp
    have "pushed_entries g (set (ri_active_entry_tree st)) s (ri_entries st) = ri_entries st"
      by (rule pushed_entries_none) (use none in \<open>auto simp: find_None_iff\<close>)
    moreover have "mr_hub_push_regular push_frame st s frame mtu = Some (st\<lparr> ri_next_push_ptr := n \<rparr>)"
      using n(1) None by (simp add: mr_hub_push_regular_def)
    ultimately show ?thesis using n(2) g(2) by simp
  next
    case (Some p)
    then obtain i where i: "i < length (ri_active_entry_tree st)" "?key (ri_active_entry_tree st ! i) = s"
      "p = ri_active_entry_tree st ! i" "\<forall>j < i. ?key (ri_active_entry_tree st ! j) \<noteq> s"
      using n(3) find_Some_iff [of "\<lambda>p. ?key p = s"] by metis
    let ?xs = "take i (ri_active_entry_tree st)" and ?ys = "drop (Suc i) (ri_active_entry_tree st)"
    have t: "ri_active_entry_tree st = ?xs @ p # ?ys" using i(1,3) by (simp add: id_take_nth_drop [symmetric])
    obtain st' where st': "push_while (\<lambda>st. ri_hub_push_next push_frame st frame mtu)
        (st\<lparr> ri_next_push_ptr := n \<rparr>) = Some st'" "ri_inv st' F"
      "entries_ok ok (ri_entries st')" "ri_entries st' = pushed_entries g (set (p # ?ys)) s (ri_entries st)"
      using push_while_group [where push_frame = push_frame and frame = frame and mtu = mtu and g = g, OF g(1) n(2) _ _ _,
        where p = p and xs = ?xs and ys = ?ys and s = s] Some t i(2,3) g(2) by auto
    have "?key q \<noteq> s" if "q \<in> set ?xs" for q using that i(1,4) by (auto simp: in_set_conv_nth)
    then have "me_subject e \<noteq> s" if "q \<in> set ?xs" "ri_entries st q = Some e" for q e
      using that by (metis entry_subject_Some)
    then have "pushed_entries g (set (p # ?ys)) s (ri_entries st) =
        pushed_entries g (set (?xs @ p # ?ys)) s (ri_entries st)"
      by (fastforce simp: pushed_entries_def fun_eq_iff intro!: option.map_cong)
    then show ?thesis using st' n(1) Some t by (simp add: mr_hub_push_regular_def)
  qed
qed

end
