(* ===== verification/Rx_Registry_Specs.thy ===== *)
theory Rx_Registry_Specs
  imports Rx_Registry_Run
begin

text \<open>The properties of the registry of the message receivers.\<close>

section \<open>The buffers of the stack\<close>

text \<open>What stands behind \<open>dyn DynamicRxBuffer\<close>: a priority FIFO or a watch.\<close>

datatype rx_dyn = DynFifo rx_params rx_fifo | DynWatch "instant \<Rightarrow> duration \<Rightarrow> instant" nat watch

fun dyn_push_frame :: "rx_dyn \<Rightarrow> frame \<Rightarrow> mtu \<Rightarrow> rx_dyn exec" where
  "dyn_push_frame (DynFifo P b) f m = do { b \<leftarrow> rf_push_frame P b f; ret (DynFifo P b) }"
| "dyn_push_frame (DynWatch sadd SN b) f m = do { b \<leftarrow> wt_push_frame sadd SN b f; ret (DynWatch sadd SN b) }"

fun dyn_ok :: "rx_dyn \<Rightarrow> bool" where
  "dyn_ok (DynFifo P b) = (\<exists>B A. rf_rep P B b A)"
| "dyn_ok (DynWatch sadd SN b) = (\<exists>B A. wt_rep SN B b A)"

interpretation dyn: rx_hosted dyn_push_frame dyn_ok
proof
  fix b f m
  assume ok: "dyn_ok b" and f: "frame_wf f"
  show "\<exists>b'. dyn_push_frame b f m = Some b' \<and> dyn_ok b'"
  proof (cases b)
    case (DynFifo P st)
    then obtain B A where "rf_rep P B st A" using ok by auto
    then obtain st' A' where "rf_push_frame P st f = Some st'" "rf_rep P B st' A'"
      using rf_push_frame_rep [OF _ f] by blast
    then show ?thesis using DynFifo by auto
  next
    case (DynWatch sadd SN st)
    then obtain B A where "wt_rep SN B st A" using ok by auto
    then obtain st' A' where "wt_push_frame sadd SN st f = Some st'" "wt_rep SN B st' A'"
      using wt.push_rep [OF _ f] by blast
    then show ?thesis using DynWatch by auto
  qed
qed

lemma dyn_takes_frame: "frame_wf f \<Longrightarrow> takes_frame dyn_ok dyn_push_frame f m (\<lambda>b. the (dyn_push_frame b f m))"
  unfolding takes_frame_def using dyn.push_ok [of _ f m] by fastforce

section \<open>Properties\<close>

text \<open>
  No interleaving of the registry's operations panics. Endpoints register and unregister
  entries and use their buffers, the driver pushes frames entry by entry and fetches filter
  updates, in any order and with a push of a frame interrupted anywhere: no pointer is used
  after its entry is gone, no element is linked twice, and every assertion of the code holds.
\<close>

theorem rx_registry_never_panics:
  assumes "rg_reach dyn_push_frame dyn_ok slots (st, F)" "rg_ok dyn_ok op st"
  shows "\<exists>s'. rg_step dyn_push_frame op (st, F) = Some s'"
  using dyn.step_total [of st F op] dyn.reach_inv [OF assms(1)] assms(2) by auto

lemma rx_registry_never_panics_witness:
  "\<exists>s'. rg_step dyn_push_frame (RgPushStart (SubjectId 7)) (ri_new 3, {}) = Some s'"
  by (rule rx_registry_never_panics [OF rg_start]) simp

text \<open>
  The filter of the driver follows the endpoints. At every moment the driver filters for
  the subject of every active endpoint, and after as many polls as there are updates left the
  next poll is pending and the driver filters for exactly the subjects of the registered
  endpoints.
\<close>

theorem rx_filter_exact:
  assumes "rg_reach dyn_push_frame dyn_ok slots (st, F)"
  shows "(\<forall>p e. ri_entries st p = Some e \<longrightarrow> me_is_active e \<longrightarrow> me_subject e \<in> F) \<and>
    (\<exists>st' F' w. for_each (\<lambda>_. rg_step dyn_push_frame RgPollFilter) [0..<updates_left st] (st, F) = Some (st', F') \<and>
      ri_hub_poll_pop_filter_update st' = Some (Pending, st'\<lparr> ri_filter_update_waker := w \<rparr>) \<and>
      F' = me_subject ` ran (ri_entries st') \<and> dom (ri_entries st') = dom (ri_entries st))"
proof -
  have inv: "ri_inv st F" using dyn.reach_inv [OF assms] by simp
  have "me_subject e \<in> F" if "ri_entries st p = Some e" "me_is_active e" for p e
  proof -
    have "p \<in> set (ri_active_entry_tree st)" using that by (auto elim: ri_active_split [OF inv])
    then show ?thesis using ri_inv_entry(1) [OF inv] that(1) by force
  qed
  moreover have "\<exists>st' F' w. for_each (\<lambda>_. rg_step dyn_push_frame RgPollFilter) xs (st, F) = Some (st', F') \<and>
      ri_hub_poll_pop_filter_update st' = Some (Pending, st'\<lparr> ri_filter_update_waker := w \<rparr>) \<and>
      F' = me_subject ` ran (ri_entries st') \<and> dom (ri_entries st') = dom (ri_entries st)"
    if "ri_inv st F" "updates_left st \<le> length xs" for xs :: "nat list" and st F
    using that
  proof (induction xs arbitrary: st F)
    case Nil
    then have left: "updates_left st = 0" by simp
    then have "ri_hub_poll_pop_filter_update st = Some (Pending,
        st\<lparr> ri_filter_update_waker := RegisterWaker # ri_filter_update_waker st \<rparr>)"
      by (auto simp: ri_hub_poll_pop_filter_update_def ri_hub_pop_clean_up_queue_def
          ri_hub_pop_clean_up_last_def ri_hub_pop_registration_queue_def updates_left_def split: if_splits)
    then show ?case using ri_inv_exact [OF Nil.prems(1) left] by auto
  next
    case (Cons x xs)
    obtain res st1 where s1: "ri_hub_poll_pop_filter_update st = Some (res, st1)"
      "dom (ri_entries st1) = dom (ri_entries st)"
      "case res of Ready (Inl u) \<Rightarrow> ri_inv st1 (apply_update u F) \<and> updates_left st1 < updates_left st
       | Ready (Inr _) \<Rightarrow> ri_inv st1 F \<and> updates_left st1 < updates_left st
       | Pending \<Rightarrow> ri_inv st1 F \<and> updates_left st = 0 \<and> ri_entries st1 = ri_entries st \<and>
           ri_active_entry_tree st1 = ri_active_entry_tree st"
      using ri_poll_filter_inv [OF Cons.prems(1)] by blast
    let ?F1 = "case res of Ready (Inl u) \<Rightarrow> apply_update u F | _ \<Rightarrow> F"
    have left: "res = Pending \<Longrightarrow> updates_left st1 = 0"
      using s1(1,3) by (auto simp: ri_hub_poll_pop_filter_update_def ri_hub_pop_clean_up_queue_def
          ri_hub_pop_clean_up_last_def ri_hub_pop_registration_queue_def updates_left_def
          split: if_splits list.splits)
    have "ri_inv st1 ?F1" "updates_left st1 \<le> length xs"
      using s1(3) left Cons.prems(2) by (auto split: poll.splits sum.splits)
    from Cons.IH [OF this] show ?case using s1(1,2) by auto
  qed
  from this [OF inv, of "[0..<updates_left st]"] have "\<exists>st' F' w.
      for_each (\<lambda>_. rg_step dyn_push_frame RgPollFilter) [0..<updates_left st] (st, F) = Some (st', F') \<and>
      ri_hub_poll_pop_filter_update st' = Some (Pending, st'\<lparr> ri_filter_update_waker := w \<rparr>) \<and>
      F' = me_subject ` ran (ri_entries st') \<and> dom (ri_entries st') = dom (ri_entries st)" by simp
  ultimately show ?thesis by blast
qed

lemma rx_filter_exact_witness:
  "\<exists>st' F' w. for_each (\<lambda>_. rg_step dyn_push_frame RgPollFilter) [0..<updates_left (ri_new 3 :: rx_dyn regular_inner)]
      (ri_new 3, {}) = Some (st', F') \<and>
    ri_hub_poll_pop_filter_update st' = Some (Pending, st'\<lparr> ri_filter_update_waker := w \<rparr>) \<and>
    F' = me_subject ` ran (ri_entries st') \<and> dom (ri_entries st') = dom (ri_entries (ri_new 3 :: rx_dyn regular_inner))"
  by (rule rx_filter_exact [OF rg_start, THEN conjunct2])

text \<open>
  C14: Fetching an update terminates. The loop around \<open>CallAgain\<close> returns in every reachable
  state, with an update for the driver or pending.
\<close>

theorem rx_poll_pop_terminates:
  assumes "rg_reach dyn_push_frame dyn_ok slots (st, F)"
  shows "\<exists>res st'. ri_poll_pop st = Some (res, st') \<and> updates_left st' \<le> updates_left st \<and>
    (res = Pending \<longrightarrow> updates_left st' = 0)"
proof -
  have "ri_inv st F" using dyn.reach_inv [OF assms] by simp
  then show ?thesis
  proof (induction "updates_left st" arbitrary: st F rule: less_induct)
    case less
    obtain res st1 where s1: "ri_hub_poll_pop_filter_update st = Some (res, st1)"
      "case res of Ready (Inl u) \<Rightarrow> ri_inv st1 (apply_update u F) \<and> updates_left st1 < updates_left st
       | Ready (Inr _) \<Rightarrow> ri_inv st1 F \<and> updates_left st1 < updates_left st
       | Pending \<Rightarrow> ri_inv st1 F \<and> updates_left st = 0 \<and> ri_entries st1 = ri_entries st \<and>
           ri_active_entry_tree st1 = ri_active_entry_tree st"
      using ri_poll_filter_inv [OF less.prems] by blast
    consider u where "res = Ready (Inl u)" | "res = Ready (Inr ())" | "res = Pending"
      by (metis (full_types) poll.exhaust sum.exhaust unit.exhaust)
    then show ?case
    proof cases
      case 1
      then show ?thesis using s1 by (subst ri_poll_pop.simps) auto
    next
      case 2
      then have "ri_poll_pop st = ri_poll_pop st1" using s1(1) by (subst ri_poll_pop.simps) simp
      moreover obtain res' st' where "ri_poll_pop st1 = Some (res', st')" "updates_left st' \<le> updates_left st1"
        "res' = Pending \<longrightarrow> updates_left st' = 0" using less.hyps [of st1 F] s1(2) 2 by auto
      ultimately show ?thesis using s1(2) 2 by auto
    next
      case 3
      then have "updates_left st1 = 0"
        using s1 by (auto simp: ri_hub_poll_pop_filter_update_def ri_hub_pop_clean_up_queue_def
            ri_hub_pop_clean_up_last_def ri_hub_pop_registration_queue_def updates_left_def
            split: if_splits list.splits)
      then show ?thesis using s1 3 by (subst ri_poll_pop.simps) auto
    qed
  qed
qed

lemma rx_poll_pop_terminates_witness:
  "\<exists>res st'. ri_poll_pop (ri_new 3 :: rx_dyn regular_inner) = Some (res, st') \<and>
    updates_left st' \<le> updates_left (ri_new 3 :: rx_dyn regular_inner)"
  using rx_poll_pop_terminates [OF rg_start, of 3] by blast

text \<open>
  A frame reaches the endpoints of its subject. A regular message frame pushed without
  interruption terminates and goes exactly once into the buffer of every active endpoint of
  its subject, and into no other.
\<close>

theorem rx_push_reaches_subject:
  assumes "rg_reach dyn_push_frame dyn_ok slots (st, F)" "frame_wf frame"
  shows "\<exists>st'. mr_hub_push_regular dyn_push_frame st subject frame mtu = Some st' \<and>
    (\<forall>p. ri_entries st' p = map_option (\<lambda>e. if me_is_active e \<and> me_subject e = subject
       then e\<lparr> me_buffer := the (dyn_push_frame (me_buffer e) frame mtu) \<rparr> else e) (ri_entries st p))"
proof -
  let ?g = "\<lambda>b. the (dyn_push_frame b frame mtu)"
  have inv: "ri_inv st F" "entries_ok dyn_ok (ri_entries st)"
    using dyn.reach_inv [OF assms(1)] by (simp_all add: entries_ok_def dyn.hosts_def)
  obtain st' where st': "mr_hub_push_regular dyn_push_frame st subject frame mtu = Some st'"
    "ri_entries st' = pushed_entries ?g (set (ri_active_entry_tree st)) subject (ri_entries st)"
    using hub_push_regular_entries [OF inv(1) dyn_takes_frame [OF assms(2)] inv(2), of subject mtu] by blast
  have active: "p \<in> set (ri_active_entry_tree st) \<longleftrightarrow> me_is_active e" if "ri_entries st p = Some e" for p e
    using that ri_inv_entry(1) [OF inv(1), of p] by (auto elim: ri_active_split [OF inv(1) that])
  have "ri_entries st' p = map_option (\<lambda>e. if me_is_active e \<and> me_subject e = subject
       then e\<lparr> me_buffer := ?g (me_buffer e) \<rparr> else e) (ri_entries st p)" for p
    unfolding st'(2) pushed_entries_def using active [of p] by (cases "ri_entries st p") auto
  then show ?thesis using st'(1) by blast
qed

lemma rx_push_reaches_subject_witness:
  "\<exists>st'. mr_hub_push_regular dyn_push_frame (ri_new 3) (SubjectId 7) (ex_frame None [5, 0xE1]) Fd = Some st' \<and>
    (\<forall>p. ri_entries st' p = map_option (\<lambda>e. if me_is_active e \<and> me_subject e = SubjectId 7
       then e\<lparr> me_buffer := the (dyn_push_frame (me_buffer e) (ex_frame None [5, 0xE1]) Fd) \<rparr> else e) (ri_entries (ri_new 3) p))"
  by (rule rx_push_reaches_subject [OF rg_start ex_frame_wf(1)])

section \<open>The count of subject slots\<close>

text \<open>
  An endpoint of a new subject that comes and goes before the driver fetches an update: the
  registry is as before, but for a slot and a call of the waker.
\<close>

definition subject_free :: "'b rx_entries \<Rightarrow> subject_id \<Rightarrow> bool" where
  "subject_free entries s \<longleftrightarrow> (\<forall>e \<in> ran entries. me_subject e \<noteq> s)"

definition slot_churn :: "ptr \<Rightarrow> subject_id \<Rightarrow> 'b \<Rightarrow> nat \<Rightarrow> 'b rg_op list" where
  "slot_churn p s b n = concat (replicate n [RgRegister p s b, RgUnregister p])"

lemma remove_inserted:
  assumes "p \<notin> set xs"
  shows "\<exists>q. remove_ptr p (insert_after xs n p) = Some (q, xs)" "\<exists>q. remove_ptr p (xs @ [p]) = Some (q, xs)"
proof -
  have "p \<notin> set (take n xs)" using assms by (auto dest: in_set_takeD)
  then show "\<exists>q. remove_ptr p (insert_after xs n p) = Some (q, xs)"
    by (simp add: insert_after_def remove_ptr_def)
  show "\<exists>q. remove_ptr p (xs @ [p]) = Some (q, xs)" using assms by (simp add: remove_ptr_def)
qed

lemma register_free_subject:
  fixes b :: 'b
  assumes inv: "ri_inv st F" and p: "ri_entries st p = None" and s: "subject_free (ri_entries st) s"
  defines "E \<equiv> (ri_entries st)(p \<mapsto> me_new s b)"
  shows "ri_reg_register (st\<lparr> ri_entries := E \<rparr>) p =
    (if ri_free_slot_count st = 0 then Some (Inl NoSubjectSlotLeft, st\<lparr> ri_entries := E \<rparr>)
     else Some (Inr p, st\<lparr> ri_entries := E, ri_free_slot_count := ri_free_slot_count st - 1,
       ri_inactive_entry_tree := insert_after (ri_inactive_entry_tree st)
         (upper_bound (entry_subject E) s (ri_inactive_entry_tree st)) p,
       ri_activation_queue := ri_activation_queue st @ [p],
       ri_filter_update_waker := WakeWaker # ri_filter_update_waker st \<rparr>))"
proof -
  note r = ri_invD [OF inv]
  have np: "p \<notin> set (ri_active_entry_tree st)" "p \<notin> set (ri_inactive_entry_tree st)"
    "p \<notin> set (ri_clean_up_queue st)" "p \<notin> set (ri_activation_queue st)"
    using r(7,9,10) p by auto
  have sorted: "sorted (map (entry_subject E) (ri_inactive_entry_tree st))"
    "sorted (map (entry_subject E) (ri_active_entry_tree st))"
    unfolding E_def fresh_key(1) [OF np(1)] fresh_key(1) [OF np(2)] using links_sorted(1) [OF r(1)] r(5) by simp_all
  have "s \<noteq> entry_subject (ri_entries st) q"
    if "q \<in> set (ri_active_entry_tree st) \<union> set (ri_inactive_entry_tree st)" for q
  proof -
    have "q \<in> dom (ri_entries st)" unfolding r(10) by (rule that)
    then obtain e where "ri_entries st q = Some e" by (rule domD [THEN exE])
    moreover have "e \<in> ran (ri_entries st)" using calculation by (rule ranI)
    then have "s \<noteq> me_subject e" using s unfolding subject_free_def by blast
    ultimately show ?thesis by (simp add: entry_subject_def)
  qed
  then have absent: "s \<notin> entry_subject E ` set (ri_inactive_entry_tree st)"
    "s \<notin> entry_subject E ` set (ri_active_entry_tree st)"
    unfolding E_def fresh_key(2) [OF np(1)] fresh_key(2) [OF np(2)] by blast+
  have "\<not> at_key (entry_subject E) s (cursor_get (ri_inactive_entry_tree st)
      (upper_bound (entry_subject E) s (ri_inactive_entry_tree st)))"
    "\<not> at_key (entry_subject E) s (cursor_get (ri_active_entry_tree st)
      (upper_bound (entry_subject E) s (ri_active_entry_tree st)))"
    using found_iff [OF sorted(1), of s] found_iff [OF sorted(2), of s] absent by blast+
  moreover have "E p = Some (me_new s b)" "me_subject (me_new s b) = s" "set_flags E p False False = Some E"
    by (simp_all add: E_def me_new_def set_flags_def)
  ultimately show ?thesis using np
    by (simp add: ri_reg_register_def ri_enqueue_def tree_linked_def list_linked_def ri_wake_def Let_def)
qed

lemma slot_churn_once:
  assumes inv: "ri_inv st F" and p: "ri_entries st p = None" and s: "subject_free (ri_entries st) s"
    and slot: "0 < ri_free_slot_count st"
  shows "\<exists>st1 w. rg_step push_frame (RgRegister p s b) (st, F) = Some (st1, F) \<and> ri_entries st1 p \<noteq> None \<and>
    rg_step push_frame (RgUnregister p) (st1, F) = Some (st\<lparr> ri_free_slot_count := ri_free_slot_count st - 1,
      ri_filter_update_waker := w \<rparr>, F)"
proof -
  let ?E = "(ri_entries st)(p \<mapsto> me_new s b)"
  define tree where "tree = insert_after (ri_inactive_entry_tree st)
    (upper_bound (entry_subject ?E) s (ri_inactive_entry_tree st)) p"
  let ?st1 = "st\<lparr> ri_entries := ?E, ri_free_slot_count := ri_free_slot_count st - 1,
    ri_inactive_entry_tree := tree, ri_activation_queue := ri_activation_queue st @ [p],
    ri_filter_update_waker := WakeWaker # ri_filter_update_waker st \<rparr>"
  have reg: "rg_step push_frame (RgRegister p s b) (st, F) = Some (?st1, F)"
    using register_free_subject [OF inv p s, of b] slot by (simp add: tree_def)
  have np: "p \<notin> set (ri_inactive_entry_tree st)" "p \<notin> set (ri_activation_queue st)"
    using ri_invD(9,10) [OF inv] p by auto
  obtain q1 q2 where rem: "remove_ptr p tree = Some (q1, ri_inactive_entry_tree st)"
    "remove_ptr p (ri_activation_queue st @ [p]) = Some (q2, ri_activation_queue st)"
    using remove_inserted(1) [OF np(1)] remove_inserted(2) [OF np(2)] unfolding tree_def by blast
  have "?E(p := None) = ri_entries st" using p by (simp add: fun_upd_idem)
  then have "ri_reg_unregister ?st1 p = Some (st\<lparr> ri_free_slot_count := ri_free_slot_count st - 1,
      ri_filter_update_waker := WakeWaker # ri_filter_update_waker st \<rparr>)"
    using rem by (simp add: ri_reg_unregister_def ri_reg_unregister_inactive_def me_new_def)
  then show ?thesis using reg by (intro exI [of _ ?st1] exI conjI) simp_all
qed

lemma slot_churn_run:
  assumes "rg_reach dyn_push_frame dyn_ok slots (st, F)" "dyn_ok b" "ri_entries st p = None"
    "subject_id_wf s" "subject_free (ri_entries st) s" "n \<le> ri_free_slot_count st"
  shows "\<exists>w. for_each (rg_step dyn_push_frame) (slot_churn p s b n) (st, F) =
      Some (st\<lparr> ri_free_slot_count := ri_free_slot_count st - n, ri_filter_update_waker := w \<rparr>, F) \<and>
    rg_reach dyn_push_frame dyn_ok slots
      (st\<lparr> ri_free_slot_count := ri_free_slot_count st - n, ri_filter_update_waker := w \<rparr>, F)"
  using assms
proof (induction n arbitrary: st)
  case 0
  then show ?case by (intro exI [of _ "ri_filter_update_waker st"]) (simp add: slot_churn_def)
next
  case (Suc n)
  have inv: "ri_inv st F" using dyn.reach_inv [OF Suc.prems(1)] by simp
  obtain st1 w where c: "rg_step dyn_push_frame (RgRegister p s b) (st, F) = Some (st1, F)" "ri_entries st1 p \<noteq> None"
    "rg_step dyn_push_frame (RgUnregister p) (st1, F) = Some (st\<lparr> ri_free_slot_count := ri_free_slot_count st - 1,
      ri_filter_update_waker := w \<rparr>, F)"
    using slot_churn_once [OF inv Suc.prems(3,5)] Suc.prems(6) by fastforce
  let ?st2 = "st\<lparr> ri_free_slot_count := ri_free_slot_count st - 1, ri_filter_update_waker := w \<rparr>"
  have "rg_reach dyn_push_frame dyn_ok slots (st1, F)"
    using rg_next [OF Suc.prems(1) _ c(1)] Suc.prems(2-4) by simp
  then have reach: "rg_reach dyn_push_frame dyn_ok slots (?st2, F)"
    using rg_next [OF _ _ c(3)] c(2) by simp
  have "ri_entries ?st2 p = None" "subject_free (ri_entries ?st2) s" "n \<le> ri_free_slot_count ?st2"
    using Suc.prems(3,5,6) by simp_all
  from Suc.IH [OF reach Suc.prems(2) this(1) Suc.prems(4) this(2,3)] obtain w' where
    "for_each (rg_step dyn_push_frame) (slot_churn p s b n) (?st2, F) =
      Some (?st2\<lparr> ri_free_slot_count := ri_free_slot_count ?st2 - n, ri_filter_update_waker := w' \<rparr>, F)"
    "rg_reach dyn_push_frame dyn_ok slots
      (?st2\<lparr> ri_free_slot_count := ri_free_slot_count ?st2 - n, ri_filter_update_waker := w' \<rparr>, F)" by blast
  moreover have "slot_churn p s b (Suc n) = RgRegister p s b # RgUnregister p # slot_churn p s b n"
    by (simp add: slot_churn_def)
  ultimately show ?case using c(1,3) by (intro exI [of _ w']) simp
qed

text \<open>
  C15: Subject slots leak. In every state the registry reaches, an endpoint of a subject that
  no other endpoint has, registered and dropped again before the driver fetched the update for
  it, takes a slot with it. After as many rounds as there are free slots the registry is what
  it was, with the same endpoints, but it has no free slot any more: every further endpoint of
  a new subject is refused, though no more subjects are registered than before.
\<close>

theorem rx_slots_leak:
  assumes "rg_reach dyn_push_frame dyn_ok slots (st, F)" "dyn_ok b" "ri_entries st p = None"
    "subject_id_wf s" "subject_free (ri_entries st) s"
  shows "\<exists>st'. for_each (rg_step dyn_push_frame) (slot_churn p s b (ri_free_slot_count st)) (st, F) = Some (st', F) \<and>
    rg_reach dyn_push_frame dyn_ok slots (st', F) \<and> ri_entries st' = ri_entries st \<and>
    ri_active_entry_tree st' = ri_active_entry_tree st \<and> ri_activation_queue st' = ri_activation_queue st \<and>
    ri_clean_up_queue st' = ri_clean_up_queue st \<and> ri_free_slot_count st' = 0 \<and>
    (\<forall>p' s' b'. ri_entries st p' = None \<longrightarrow> subject_free (ri_entries st) s' \<longrightarrow>
      map_option fst (ri_reg_register (st'\<lparr> ri_entries := (ri_entries st)(p' \<mapsto> me_new s' b') \<rparr>) p') =
        Some (Inl NoSubjectSlotLeft))"
proof -
  obtain w where w: "for_each (rg_step dyn_push_frame) (slot_churn p s b (ri_free_slot_count st)) (st, F) =
      Some (st\<lparr> ri_free_slot_count := 0, ri_filter_update_waker := w \<rparr>, F)"
    "rg_reach dyn_push_frame dyn_ok slots (st\<lparr> ri_free_slot_count := 0, ri_filter_update_waker := w \<rparr>, F)"
    using slot_churn_run [OF assms, of "ri_free_slot_count st"] by auto
  let ?st' = "st\<lparr> ri_free_slot_count := 0, ri_filter_update_waker := w \<rparr>"
  have inv: "ri_inv ?st' F" using dyn.reach_inv [OF w(2)] by simp
  have "map_option fst (ri_reg_register (?st'\<lparr> ri_entries := (ri_entries st)(p' \<mapsto> me_new s' b') \<rparr>) p') =
      Some (Inl NoSubjectSlotLeft)" if "ri_entries st p' = None" "subject_free (ri_entries st) s'" for p' s' b'
    using register_free_subject [OF inv, of p' s' b'] that by simp
  then show ?thesis using w by (intro exI [of _ ?st']) simp
qed

text \<open>
  The witness: the fresh registry of three slots; three rounds later no endpoint can register,
  though there is none.
\<close>

lemma rx_slots_leak_witness:
  "\<exists>b st'. for_each (rg_step dyn_push_frame) (slot_churn 1 (SubjectId 7) b 3) (ri_new 3, {}) = Some (st', {}) \<and>
    ri_entries st' = (\<lambda>_. None) \<and>
    map_option fst (ri_reg_register (st'\<lparr> ri_entries := [2 \<mapsto> me_new (SubjectId 8) b] \<rparr>) 2) = Some (Inl NoSubjectSlotLeft)"
proof -
  obtain st where "rf_rep ex_params 1 st (\<lambda>p. [])" using ex_fifo by blast
  then have b: "dyn_ok (DynFifo ex_params st)" by auto
  have new: "ri_entries (ri_new 3) p = None" "subject_free (ri_entries (ri_new 3)) s" "subject_id_wf (SubjectId 7)"
    "ri_free_slot_count (ri_new 3 :: rx_dyn regular_inner) = 3" "ri_entries (ri_new 3) = (\<lambda>_. None)" for p s
    by (simp_all add: ri_new_def subject_free_def subject_id_wf_def subject_id_MAX_VALUE_def)
  show ?thesis
    using rx_slots_leak [OF rg_start [of _ _ 3] b new(1) new(3) new(2), of 1] new
    by (intro exI [of _ "DynFifo ex_params st"]) fastforce
qed

definition rg_run :: "unit rg_op list \<Rightarrow> nat \<Rightarrow> unit rg_state exec" where
  "rg_run ops slots = for_each (rg_step (\<lambda>b f m. Some b)) ops (ri_new slots, {})"

text \<open>
  Slots also leak in the clean up: with three subjects of which the middle one and then the
  lowest go before the driver fetched an update, only one of the two slots comes back.
\<close>

lemma rx_slots_leak_gap:
  "map_option (\<lambda>(st, F). (ri_activation_queue st, ri_active_entry_tree st, ri_free_slot_count st))
     (rg_run [RgRegister 1 (SubjectId 1) (), RgRegister 2 (SubjectId 2) (), RgRegister 3 (SubjectId 3) (),
        RgPollFilter, RgPollFilter, RgPollFilter, RgUnregister 2, RgUnregister 1] 3) = Some ([], [3], 1)"
  unfolding rg_run_def by code_simp

text \<open>
  Slots multiply. Of two slots one subject gives one back when its endpoint goes, and it
  is counted again when the next subject, marked for the same clean up, loses its first
  endpoint but keeps another: three subjects are then active with two slots.
\<close>

theorem rx_slots_multiply:
  "map_option (\<lambda>(st, F). (map (entry_subject (ri_entries st)) (ri_active_entry_tree st), F))
     (rg_run [RgRegister 1 (SubjectId 1) (), RgRegister 2 (SubjectId 2) (), RgRegister 3 (SubjectId 2) (),
        RgPollFilter, RgPollFilter, RgPollFilter, RgUnregister 1, RgUnregister 2, RgPollFilter,
        RgRegister 4 (SubjectId 4) (), RgRegister 5 (SubjectId 5) (), RgPollFilter, RgPollFilter] 2) =
   Some ([SubjectId 2, SubjectId 4, SubjectId 5], {SubjectId 5, SubjectId 4, SubjectId 2})"
  unfolding rg_run_def by code_simp

end
