(* ===== verification/Rx_Requests.thy ===== *)
theory Rx_Requests
  imports Rx_Registry_Specs
begin

text \<open>
  The registry of the request receivers, \<open>emcyphal/src/registry/rx_req.rs\<close>: at most one endpoint
  per service, found in a tree by the service of a frame. The operations on a registered buffer
  are those of the trait \<open>DynamicRxBuffer\<close>, which the registry of messages uses as well.
\<close>

section \<open>The buffers behind the registries\<close>

record 'b rx_vtable =
  vr_push_frame :: "'b \<Rightarrow> frame \<Rightarrow> mtu \<Rightarrow> 'b exec"
  vr_pop_readiness :: "'b \<Rightarrow> priority_set"
  vr_poll_pop_readiness :: "'b \<Rightarrow> priority_set \<Rightarrow> priority_set poll \<times> 'b"
  vr_try_pop :: "'b \<Rightarrow> priority_set \<Rightarrow> ((transfer_meta \<times> u8 list) option \<times> 'b) exec"

definition mr_pop_readiness ::
  "'b rx_vtable \<Rightarrow> 'b msg_registry \<Rightarrow> msg_token \<Rightarrow> (priority_set \<times> 'b msg_registry) exec" where
  "mr_pop_readiness vt st token = mr_with_buffer_mut st token (\<lambda>b. ret (vr_pop_readiness vt b, b))"

definition mr_poll_pop_readiness ::
  "'b rx_vtable \<Rightarrow> 'b msg_registry \<Rightarrow> msg_token \<Rightarrow> priority_set \<Rightarrow> (priority_set poll \<times> 'b msg_registry) exec" where
  "mr_poll_pop_readiness vt st token priority_mask =
     mr_with_buffer_mut st token (\<lambda>b. ret (vr_poll_pop_readiness vt b priority_mask))"

definition mr_try_pop ::
  "'b rx_vtable \<Rightarrow> 'b msg_registry \<Rightarrow> msg_token \<Rightarrow> priority_set \<Rightarrow>
    ((transfer_meta \<times> u8 list) option \<times> 'b msg_registry) exec" where
  "mr_try_pop vt st token priority_mask = mr_with_buffer_mut st token (\<lambda>b. vr_try_pop vt b priority_mask)"

section \<open>Requests\<close>

record 'b rx_req_entry =
  rqe_service :: service_id
  rqe_buffer :: 'b

record 'b rx_req_inner =
  rq_entries :: "ptr \<rightharpoonup> 'b rx_req_entry"
  rq_entry_tree :: "ptr list"

definition rq_default :: "'b rx_req_inner" where
  "rq_default = \<lparr> rq_entries = (\<lambda>_. None), rq_entry_tree = [] \<rparr>"

text \<open>\<open>Entry::new\<close>, written to an address.\<close>

definition rq_entry_new :: "'b rx_req_inner \<Rightarrow> ptr \<Rightarrow> service_id \<Rightarrow> 'b \<Rightarrow> 'b rx_req_inner" where
  "rq_entry_new st p service buffer =
     st\<lparr> rq_entries := (rq_entries st)(p \<mapsto> \<lparr> rqe_service = service, rqe_buffer = buffer \<rparr>) \<rparr>"

definition rq_key :: "'b rx_req_inner \<Rightarrow> ptr \<Rightarrow> service_id" where
  "rq_key st p = (case rq_entries st p of None \<Rightarrow> ServiceId 0 | Some e \<Rightarrow> rqe_service e)"

definition rq_reg_register ::
  "'b rx_req_inner \<Rightarrow> ptr \<Rightarrow> ((registration_error + ptr) \<times> 'b rx_req_inner) exec" where
  "rq_reg_register st p = do {
     e \<leftarrow> rq_entries st p;
     (case find (\<lambda>q. rq_key st q = rqe_service e) (rq_entry_tree st) of
        Some _ \<Rightarrow> ret (Inl DataSpecifierOccupied, st)
      | None \<Rightarrow> do {
          assert_that (p \<notin> set (rq_entry_tree st));
          let cursor = upper_bound (rq_key st) (rqe_service e) (rq_entry_tree st);
          ret (Inr p, st\<lparr> rq_entry_tree := insert_after (rq_entry_tree st) cursor p \<rparr>)
        })
   }"

definition rq_reg_unregister :: "'b rx_req_inner \<Rightarrow> ptr \<Rightarrow> 'b rx_req_inner exec" where
  "rq_reg_unregister st p = do {
     (_, tree) \<leftarrow> remove_ptr p (rq_entry_tree st);
     ret (st\<lparr> rq_entries := (rq_entries st)(p := None), rq_entry_tree := tree \<rparr>)
   }"

definition rq_with_buffer_mut ::
  "'b rx_req_inner \<Rightarrow> ptr \<Rightarrow> ('b \<Rightarrow> ('r \<times> 'b) exec) \<Rightarrow> ('r \<times> 'b rx_req_inner) exec" where
  "rq_with_buffer_mut st p f = do {
     e \<leftarrow> rq_entries st p;
     (res, buffer) \<leftarrow> f (rqe_buffer e);
     ret (res, st\<lparr> rq_entries := (rq_entries st)(p \<mapsto> e\<lparr> rqe_buffer := buffer \<rparr>) \<rparr>)
   }"

definition rq_hub_push ::
  "('b \<Rightarrow> frame \<Rightarrow> mtu \<Rightarrow> 'b exec) \<Rightarrow> 'b rx_req_inner \<Rightarrow> frame \<Rightarrow> mtu \<Rightarrow> 'b rx_req_inner exec" where
  "rq_hub_push push_frame st frame mtu = (case h_data_spec (f_header frame) of
     Request service \<Rightarrow> (case find (\<lambda>p. rq_key st p = service) (rq_entry_tree st) of
         Some p \<Rightarrow> do {
           e \<leftarrow> rq_entries st p;
           buffer \<leftarrow> push_frame (rqe_buffer e) frame mtu;
           ret (st\<lparr> rq_entries := (rq_entries st)(p \<mapsto> e\<lparr> rqe_buffer := buffer \<rparr>) \<rparr>)
         }
       | None \<Rightarrow> ret st)
   | _ \<Rightarrow> ret st)"

text \<open>What the mutex guards, as the driver and the endpoints call it.\<close>

definition rq_poll_push ::
  "('b \<Rightarrow> frame \<Rightarrow> mtu \<Rightarrow> 'b exec) \<Rightarrow> 'b rx_req_inner \<Rightarrow> frame \<Rightarrow> mtu \<Rightarrow> (unit poll \<times> 'b rx_req_inner) exec" where
  "rq_poll_push push_frame st frame mtu =
     (if f_loop_back frame then ret (Ready (), st)
      else do { st \<leftarrow> rq_hub_push push_frame st frame mtu; ret (Ready (), st) })"

definition rq_register ::
  "'b rx_req_inner \<Rightarrow> ptr \<Rightarrow> bool \<Rightarrow> ((registration_error + ptr) \<times> 'b rx_req_inner) exec" where
  "rq_register st p loop_back = do { assert_that (\<not> loop_back); rq_reg_register st p }"

definition rq_unregister :: "'b rx_req_inner \<Rightarrow> ptr \<Rightarrow> 'b rx_req_inner exec" where
  "rq_unregister st p = rq_reg_unregister st p"

definition rq_pop_readiness :: "'b rx_vtable \<Rightarrow> 'b rx_req_inner \<Rightarrow> ptr \<Rightarrow> (priority_set \<times> 'b rx_req_inner) exec" where
  "rq_pop_readiness vt st p = rq_with_buffer_mut st p (\<lambda>b. ret (vr_pop_readiness vt b, b))"

definition rq_poll_pop_readiness ::
  "'b rx_vtable \<Rightarrow> 'b rx_req_inner \<Rightarrow> ptr \<Rightarrow> priority_set \<Rightarrow> (priority_set poll \<times> 'b rx_req_inner) exec" where
  "rq_poll_pop_readiness vt st p priority_mask =
     rq_with_buffer_mut st p (\<lambda>b. ret (vr_poll_pop_readiness vt b priority_mask))"

definition rq_try_pop ::
  "'b rx_vtable \<Rightarrow> 'b rx_req_inner \<Rightarrow> ptr \<Rightarrow> priority_set \<Rightarrow>
    ((transfer_meta \<times> u8 list) option \<times> 'b rx_req_inner) exec" where
  "rq_try_pop vt st p priority_mask = rq_with_buffer_mut st p (\<lambda>b. vr_try_pop vt b priority_mask)"

section \<open>Every endpoint is in the tree, once, and no two serve one service\<close>

definition rq_inv :: "('b \<Rightarrow> bool) \<Rightarrow> 'b rx_req_inner \<Rightarrow> bool" where
  "rq_inv ok st \<longleftrightarrow> distinct (rq_entry_tree st) \<and> set (rq_entry_tree st) = dom (rq_entries st) \<and>
     (\<forall>p r e d. rq_entries st p = Some e \<longrightarrow> rq_entries st r = Some d \<longrightarrow> rqe_service e = rqe_service d \<longrightarrow> p = r) \<and>
     (\<forall>p e. rq_entries st p = Some e \<longrightarrow> ok (rqe_buffer e))"

lemma rq_invD:
  assumes "rq_inv ok st"
  shows "distinct (rq_entry_tree st)" "set (rq_entry_tree st) = dom (rq_entries st)"
    "rq_entries st p = Some e \<Longrightarrow> rq_entries st r = Some d \<Longrightarrow> rqe_service e = rqe_service d \<Longrightarrow> p = r"
    "rq_entries st p = Some e \<Longrightarrow> ok (rqe_buffer e)"
  using assms unfolding rq_inv_def by blast+

lemma rq_default_inv: "rq_inv ok rq_default"
  by (simp add: rq_inv_def rq_default_def)

lemma rq_find:
  assumes "rq_inv ok st"
  shows "find (\<lambda>p. rq_key st p = s) (rq_entry_tree st) = None \<longleftrightarrow>
      (\<forall>p e. rq_entries st p = Some e \<longrightarrow> rqe_service e \<noteq> s)"
    "find (\<lambda>p. rq_key st p = s) (rq_entry_tree st) = Some p \<Longrightarrow>
      \<exists>e. rq_entries st p = Some e \<and> rqe_service e = s"
proof -
  note r = rq_invD [OF assms]
  show "find (\<lambda>p. rq_key st p = s) (rq_entry_tree st) = None \<longleftrightarrow>
      (\<forall>p e. rq_entries st p = Some e \<longrightarrow> rqe_service e \<noteq> s)"
    using r(2) by (fastforce simp: find_None_iff rq_key_def split: option.splits)
  show "\<exists>e. rq_entries st p = Some e \<and> rqe_service e = s"
    if "find (\<lambda>p. rq_key st p = s) (rq_entry_tree st) = Some p"
  proof -
    have "p \<in> set (rq_entry_tree st)" "rq_key st p = s"
      using that by (auto simp: find_Some_iff in_set_conv_nth)
    then show ?thesis using r(2) by (auto simp: rq_key_def split: option.splits)
  qed
qed

lemma rq_register_inv:
  assumes inv: "rq_inv ok st" and p: "rq_entries st p = None" "ok b"
  shows "\<exists>res st'. rq_register (rq_entry_new st p s b) p False = Some (res, st') \<and>
    (case res of
       Inl e \<Rightarrow> e = DataSpecifierOccupied \<and> st' = rq_entry_new st p s b \<and>
         (\<exists>q e. rq_entries st q = Some e \<and> rqe_service e = s)
     | Inr q \<Rightarrow> q = p \<and> rq_inv ok st' \<and> rq_entries st' = rq_entries (rq_entry_new st p s b) \<and>
         (\<forall>q e. rq_entries st q = Some e \<longrightarrow> rqe_service e \<noteq> s))"
proof -
  let ?st = "rq_entry_new st p s b"
  note r = rq_invD [OF inv]
  have tree: "p \<notin> set (rq_entry_tree st)" using p(1) r(2) by blast
  have "\<forall>q \<in> set (rq_entry_tree st). (rq_key ?st q = s) = (rq_key st q = s)"
    using tree by (auto simp: rq_key_def rq_entry_new_def)
  then have find: "find (\<lambda>q. rq_key ?st q = s) (rq_entry_tree st) = find (\<lambda>q. rq_key st q = s) (rq_entry_tree st)"
    by (intro find_cong) auto
  show ?thesis
  proof (cases "find (\<lambda>q. rq_key st q = s) (rq_entry_tree st)")
    case (Some q)
    then have "rq_register ?st p False = Some (Inl DataSpecifierOccupied, ?st)"
      using find by (simp add: rq_register_def rq_reg_register_def) (simp add: rq_entry_new_def)
    then show ?thesis using rq_find(2) [OF inv Some] by auto
  next
    case None
    let ?tree = "insert_after (rq_entry_tree st) (upper_bound (rq_key ?st) s (rq_entry_tree st)) p"
    have run: "rq_register ?st p False = Some (Inr p, ?st\<lparr> rq_entry_tree := ?tree \<rparr>)"
      using find None tree by (simp add: rq_register_def rq_reg_register_def Let_def) (simp add: rq_entry_new_def)
    have free: "\<forall>q e. rq_entries st q = Some e \<longrightarrow> rqe_service e \<noteq> s" using rq_find(1) [OF inv] None by blast
    have "rq_inv ok (?st\<lparr> rq_entry_tree := ?tree \<rparr>)"
      unfolding rq_inv_def using insert_after_perm [OF r(1) tree] r(2-4) p(2) free
      by (auto simp: rq_entry_new_def)
    then show ?thesis using run free by simp
  qed
qed

lemma rq_unregister_inv:
  assumes inv: "rq_inv ok st" and p: "rq_entries st p = Some e"
  shows "\<exists>st'. rq_unregister st p = Some st' \<and> rq_inv ok st' \<and> rq_entries st' = (rq_entries st)(p := None)"
proof -
  note r = rq_invD [OF inv]
  have "p \<in> set (rq_entry_tree st)" using p r(2) by blast
  then obtain xs ys where t: "rq_entry_tree st = xs @ p # ys" "p \<notin> set xs" "p \<notin> set ys"
    "remove_ptr p (rq_entry_tree st) = Some (first_ptr ys, xs @ ys)" by (rule remove_ptr_in [OF _ r(1)])
  let ?st = "st\<lparr> rq_entries := (rq_entries st)(p := None), rq_entry_tree := xs @ ys \<rparr>"
  have "set (xs @ ys) = dom (rq_entries st) - {p}" using t(1-3) r(2) by auto
  moreover have "distinct (xs @ ys)" using t(1) r(1) by simp
  ultimately have "rq_inv ok ?st" unfolding rq_inv_def using r(3,4) by auto
  then show ?thesis using t(4) by (simp add: rq_unregister_def rq_reg_unregister_def)
qed

lemma rq_buffer_inv:
  assumes inv: "rq_inv ok st" and p: "rq_entries st p = Some e" "f (rqe_buffer e) = Some (res, b)" "ok b"
  shows "\<exists>st'. rq_with_buffer_mut st p f = Some (res, st') \<and> rq_inv ok st' \<and>
    rq_entries st' = (rq_entries st)(p \<mapsto> e\<lparr> rqe_buffer := b \<rparr>)"
proof -
  let ?st = "st\<lparr> rq_entries := (rq_entries st)(p \<mapsto> e\<lparr> rqe_buffer := b \<rparr>) \<rparr>"
  have "rq_inv ok ?st"
    unfolding rq_inv_def using rq_invD [OF inv] p by (auto simp: insert_absorb domI split: if_splits)
  then show ?thesis using p(1,2) by (simp add: rq_with_buffer_mut_def)
qed

text \<open>A frame goes to the endpoint of its service, and to no other.\<close>

definition rq_pushed :: "('b \<Rightarrow> 'b) \<Rightarrow> frame \<Rightarrow> 'b rx_req_entry \<Rightarrow> 'b rx_req_entry" where
  "rq_pushed g frame e = (if h_data_spec (f_header frame) = Request (rqe_service e)
     then e\<lparr> rqe_buffer := g (rqe_buffer e) \<rparr> else e)"

lemma rq_hub_push_entries:
  assumes inv: "rq_inv ok st" and push: "\<And>b. ok b \<Longrightarrow> push_frame b frame mtu = Some (g b) \<and> ok (g b)"
  shows "\<exists>st'. rq_hub_push push_frame st frame mtu = Some st' \<and> rq_inv ok st' \<and>
    rq_entries st' = map_option (rq_pushed g frame) \<circ> rq_entries st"
proof (cases "\<exists>s. h_data_spec (f_header frame) = Request s")
  case False
  then have "map_option (rq_pushed g frame) (rq_entries st p) = rq_entries st p" for p
    by (cases "rq_entries st p") (auto simp: rq_pushed_def)
  then have "map_option (rq_pushed g frame) \<circ> rq_entries st = rq_entries st" by (simp add: fun_eq_iff)
  then show ?thesis using False inv by (cases "h_data_spec (f_header frame)") (auto simp: rq_hub_push_def)
next
  case True
  then obtain s where s: "h_data_spec (f_header frame) = Request s" by blast
  show ?thesis
  proof (cases "find (\<lambda>p. rq_key st p = s) (rq_entry_tree st)")
    case None
    then have "\<forall>p e. rq_entries st p = Some e \<longrightarrow> rqe_service e \<noteq> s" using rq_find(1) [OF inv] by blast
    then have "map_option (rq_pushed g frame) (rq_entries st p) = rq_entries st p" for p
      using s by (cases "rq_entries st p") (auto simp: rq_pushed_def)
    then have "map_option (rq_pushed g frame) \<circ> rq_entries st = rq_entries st" by (simp add: fun_eq_iff)
    then show ?thesis using s None inv by (simp add: rq_hub_push_def)
  next
    case (Some p)
    then obtain e where e: "rq_entries st p = Some e" "rqe_service e = s" using rq_find(2) [OF inv] by blast
    let ?st = "st\<lparr> rq_entries := (rq_entries st)(p \<mapsto> e\<lparr> rqe_buffer := g (rqe_buffer e) \<rparr>) \<rparr>"
    have b: "push_frame (rqe_buffer e) frame mtu = Some (g (rqe_buffer e))" "ok (g (rqe_buffer e))"
      using push rq_invD(4) [OF inv e(1)] by blast+
    then have "rq_hub_push push_frame st frame mtu = Some ?st" using s Some e(1) by (simp add: rq_hub_push_def)
    moreover have "rq_inv ok ?st"
      unfolding rq_inv_def using rq_invD [OF inv] e b(2) by (auto simp: insert_absorb domI split: if_splits)
    moreover have "map_option (rq_pushed g frame) (rq_entries st q) = rq_entries ?st q" for q
    proof (cases "q = p")
      case True
      then show ?thesis using s e by (simp add: rq_pushed_def)
    next
      case False
      then have "rqe_service d \<noteq> s" if "rq_entries st q = Some d" for d
        using rq_invD(3) [OF inv e(1) that] e(2) by auto
      then show ?thesis using s False by (cases "rq_entries st q") (simp_all add: rq_pushed_def)
    qed
    then have "rq_entries ?st = map_option (rq_pushed g frame) \<circ> rq_entries st" by (simp add: fun_eq_iff)
    ultimately show ?thesis by blast
  qed
qed

end
