(* ===== verification/Rx_Loop_Back.thy ===== *)
theory Rx_Loop_Back
  imports Rx_Registry_Run
begin

text \<open>
  The endpoints that take looped back frames (\<open>LoopBackInner\<close> of
  \<open>emcyphal/src/registry/rx_msg.rs\<close>): their tree is sorted by the subject, and a frame is handed
  to one entry after another.
\<close>

section \<open>The tree\<close>

definition li_inv :: "('b \<Rightarrow> bool) \<Rightarrow> 'b loop_back_inner \<Rightarrow> bool" where
  "li_inv ok st \<longleftrightarrow> distinct (li_entry_tree st) \<and> set (li_entry_tree st) = dom (li_entries st) \<and>
     sorted (map (entry_subject (li_entries st)) (li_entry_tree st)) \<and>
     (\<forall>p. li_next_push_ptr st = Some p \<longrightarrow> p \<in> set (li_entry_tree st)) \<and>
     (\<forall>p e. li_entries st p = Some e \<longrightarrow> \<not> me_is_head e \<and> ok (me_buffer e))"

lemma li_invD:
  assumes "li_inv ok st"
  shows "distinct (li_entry_tree st)" "set (li_entry_tree st) = dom (li_entries st)"
    "sorted (map (entry_subject (li_entries st)) (li_entry_tree st))"
    "li_next_push_ptr st = Some p \<Longrightarrow> p \<in> set (li_entry_tree st)"
    "li_entries st p = Some e \<Longrightarrow> \<not> me_is_head e" "li_entries st p = Some e \<Longrightarrow> ok (me_buffer e)"
  using assms unfolding li_inv_def by blast+

lemma li_default_inv: "li_inv ok li_default"
  by (simp add: li_inv_def li_default_def)

text \<open>The subjects of the entries decide the order; other fields do not matter.\<close>

lemma same_subjects_sorted:
  assumes "\<And>p. p \<in> set xs \<Longrightarrow> entry_subject E' p = entry_subject E p"
  shows "sorted (map (entry_subject E') xs) = sorted (map (entry_subject E) xs)"
  using assms by (metis map_cong)

lemma li_register_inv:
  assumes inv: "li_inv ok st" and p: "li_entries st p = None" "ok b"
  shows "\<exists>st'. li_reg_register (st\<lparr> li_entries := (li_entries st)(p \<mapsto> me_new s b) \<rparr>) p = Some (Inr p, st') \<and>
    li_inv ok st' \<and> li_entries st' = (li_entries st)(p \<mapsto> me_new s b)"
proof -
  let ?E = "(li_entries st)(p \<mapsto> me_new s b)"
  let ?key = "entry_subject ?E"
  note r = li_invD [OF inv]
  have np: "p \<notin> set (li_entry_tree st)" using p(1) r(2) by blast
  have keys: "entry_subject ?E q = entry_subject (li_entries st) q" if "q \<in> set (li_entry_tree st)" for q
    using that np by (auto simp: entry_subject_def)
  have sorted: "sorted (map ?key (li_entry_tree st))" using r(3) same_subjects_sorted [OF keys] by blast
  obtain ys zs where t: "li_entry_tree st = ys @ zs" "\<forall>q \<in> set ys. ?key q \<le> s" "\<forall>q \<in> set zs. s < ?key q"
    "insert_after (li_entry_tree st) (upper_bound ?key s (li_entry_tree st)) p = ys @ p # zs"
    by (rule upper_bound_split [OF sorted, of s p])
  let ?st = "st\<lparr> li_entries := ?E, li_entry_tree := ys @ p # zs \<rparr>"
  have key: "?key p = s" by (simp add: entry_subject_def me_new_def)
  have subj: "me_subject (me_new s b) = s" by (simp add: me_new_def)
  have "li_reg_register (st\<lparr> li_entries := ?E \<rparr>) p = Some (Inr p, ?st)"
    using np t(4) by (simp add: li_reg_register_def Let_def subj)
  moreover have "sorted (map ?key (ys @ p # zs))"
    using sorted t(1-3) key by (auto simp: sorted_append intro: order_trans less_imp_le)
  then have "li_inv ok ?st"
    unfolding li_inv_def using r np p(2) t(1) by (auto simp: me_new_def dest: r(4))
  ultimately show ?thesis by simp
qed

lemma li_unregister_inv:
  assumes inv: "li_inv ok st" and p: "li_entries st p = Some e"
  shows "\<exists>st'. li_reg_unregister st p = Some st' \<and> li_inv ok st' \<and> li_entries st' = (li_entries st)(p := None)"
proof -
  note r = li_invD [OF inv]
  have "p \<in> set (li_entry_tree st)" using p r(2) by blast
  then obtain xs ys where t: "li_entry_tree st = xs @ p # ys" "p \<notin> set xs" "p \<notin> set ys"
    "remove_ptr p (li_entry_tree st) = Some (first_ptr ys, xs @ ys)" by (rule remove_ptr_in [OF _ r(1)])
  let ?E = "(li_entries st)(p := None)"
  let ?next = "if li_next_push_ptr st = Some p then first_ptr ys else li_next_push_ptr st"
  let ?st = "st\<lparr> li_entries := ?E, li_entry_tree := xs @ ys, li_next_push_ptr := ?next \<rparr>"
  have run: "li_reg_unregister st p = Some ?st" using t(4) by (simp add: li_reg_unregister_def)
  have set: "set (xs @ ys) = dom ?E" using t(1-3) r(2) by auto
  have "entry_subject ?E q = entry_subject (li_entries st) q" if "q \<in> set (xs @ ys)" for q
    using that t(2,3) by (auto simp: entry_subject_def)
  then have "sorted (map (entry_subject ?E) (xs @ ys)) = sorted (map (entry_subject (li_entries st)) (xs @ ys))"
    by (rule same_subjects_sorted)
  then have sorted: "sorted (map (entry_subject ?E) (xs @ ys))" using r(3) t(1) by (simp add: sorted_append)
  have ptr: "q \<in> set (xs @ ys)" if "?next = Some q" for q
    using that r(4) t(1) by (cases ys) (auto simp: first_ptr_def split: if_splits)
  have "li_inv ok ?st"
    unfolding li_inv_def using r(1,5,6) t(1) set sorted ptr by (simp split del: if_split) (auto split: if_splits)
  then show ?thesis using run by simp
qed

lemma li_inv_upd:
  assumes inv: "li_inv ok st" and p: "li_entries st p = Some e" "ok b"
  shows "li_inv ok (st\<lparr> li_entries := (li_entries st)(p \<mapsto> e\<lparr> me_buffer := b \<rparr>) \<rparr>)"
proof -
  let ?E = "(li_entries st)(p \<mapsto> e\<lparr> me_buffer := b \<rparr>)"
  have "entry_subject ?E = entry_subject (li_entries st)" using p(1) by (simp add: entry_subject_def fun_eq_iff)
  then show ?thesis
    unfolding li_inv_def using li_invD [OF inv] p by (auto simp: insert_absorb domI)
qed

lemma li_inv_ptr:
  "li_inv ok st \<Longrightarrow> (\<And>q. n = Some q \<Longrightarrow> q \<in> set (li_entry_tree st)) \<Longrightarrow> li_inv ok (st\<lparr> li_next_push_ptr := n \<rparr>)"
  by (simp add: li_inv_def)

lemma li_buffer_inv:
  assumes "li_inv ok st" "li_entries st p = Some e" "f (me_buffer e) = Some (res, b)" "ok b"
  shows "\<exists>st'. li_with_buffer_mut st p f = Some (res, st') \<and> li_inv ok st' \<and>
    li_entries st' = (li_entries st)(p \<mapsto> e\<lparr> me_buffer := b \<rparr>)"
  using assms li_inv_upd [OF assms(1,2,4)] by (simp add: li_with_buffer_mut_def with_entry_buffer_def)

section \<open>A frame looped back\<close>

text \<open>No entry is ever a head here, so that only the end of the tree ends the push.\<close>

lemma li_push_at:
  assumes g: "takes_frame ok push_frame frame mtu g" and inv: "li_inv ok st"
    and p: "li_next_push_ptr st = Some p" "li_entry_tree st = xs @ p # ys"
  obtains e st' where "li_hub_push_next push_frame st frame mtu = Some (ys \<noteq> [], st')" "li_inv ok st'"
    "li_entry_tree st' = li_entry_tree st" "li_next_push_ptr st' = first_ptr ys" "li_entries st p = Some e"
    "li_entries st' = (li_entries st)(p \<mapsto> e\<lparr> me_buffer := g (me_buffer e) \<rparr>)"
proof -
  note r = li_invD [OF inv]
  have "p \<in> dom (li_entries st)" using r(2) p(2) by auto
  then obtain e where e: "li_entries st p = Some e" by blast
  have b: "push_frame (me_buffer e) frame mtu = Some (g (me_buffer e))" "ok (g (me_buffer e))"
    using g r(6) [OF e] unfolding takes_frame_def by blast+
  let ?E = "(li_entries st)(p \<mapsto> e\<lparr> me_buffer := g (me_buffer e) \<rparr>)"
  let ?st = "st\<lparr> li_entries := ?E, li_next_push_ptr := first_ptr ys \<rparr>"
  have np: "p \<notin> set xs" "p \<notin> set ys" using r(1) by (simp_all add: p(2))
  have "li_inv ok (st\<lparr> li_entries := ?E \<rparr>)" by (rule li_inv_upd [OF inv e b(2)])
  moreover have "q \<in> set (li_entry_tree st)" if "first_ptr ys = Some q" for q
    using that by (cases ys) (auto simp: first_ptr_def p(2))
  ultimately have inv': "li_inv ok ?st" using li_inv_ptr [of ok "st\<lparr> li_entries := ?E \<rparr>" "first_ptr ys"] by simp
  have "li_hub_push_next push_frame st frame mtu = Some (ys \<noteq> [], ?st)"
  proof (cases ys)
    case Nil
    then show ?thesis using p e b(1) np by (simp add: li_hub_push_next_def push_into_def first_ptr_def)
  next
    case (Cons q zs)
    have "q \<in> dom (li_entries st)" using r(2) p(2) Cons by auto
    then obtain d where "li_entries st q = Some d" "\<not> me_is_head d" using r(5) by blast
    then show ?thesis using p e b(1) np Cons by (simp add: li_hub_push_next_def push_into_def first_ptr_def)
  qed
  then show ?thesis using that [of ?st e] inv' e by simp
qed

definition pushed_all :: "('b \<Rightarrow> 'b) \<Rightarrow> ptr set \<Rightarrow> 'b rx_entries \<Rightarrow> 'b rx_entries" where
  "pushed_all g ps entries = (\<lambda>q. map_option (\<lambda>e. if q \<in> ps then e\<lparr> me_buffer := g (me_buffer e) \<rparr> else e) (entries q))"

lemma pushed_all_insert:
  assumes "E p = Some e" "p \<notin> ps"
  shows "pushed_all g ps (E(p \<mapsto> e\<lparr> me_buffer := g (me_buffer e) \<rparr>)) = pushed_all g (insert p ps) E"
  using assms by (auto simp: pushed_all_def fun_eq_iff)

lemma pushed_all_empty [simp]: "pushed_all g {} E = E"
  by (simp add: pushed_all_def fun_eq_iff option.map_ident)

lemma li_push_while:
  assumes g: "takes_frame ok push_frame frame mtu g"
  shows "li_inv ok st \<Longrightarrow> li_next_push_ptr st = Some p \<Longrightarrow> li_entry_tree st = xs @ p # ys \<Longrightarrow>
    \<exists>st'. push_while (\<lambda>st. li_hub_push_next push_frame st frame mtu) st = Some st' \<and> li_inv ok st' \<and>
      li_entries st' = pushed_all g (set (p # ys)) (li_entries st)"
proof (induction ys arbitrary: st p xs)
  case (Nil st p xs)
  obtain e st' where st': "li_hub_push_next push_frame st frame mtu = Some ([] \<noteq> ([] :: ptr list), st')" "li_inv ok st'"
    "li_entries st p = Some e" "li_entries st' = (li_entries st)(p \<mapsto> e\<lparr> me_buffer := g (me_buffer e) \<rparr>)"
    by (rule li_push_at [OF g Nil.prems])
  have "push_while (\<lambda>st. li_hub_push_next push_frame st frame mtu) st = Some st'"
    using st'(1) by (subst push_while.simps) simp
  moreover have "li_entries st' = pushed_all g (set [p]) (li_entries st)"
    using pushed_all_insert [where E = "li_entries st" and ps = "{}" and g = g, OF st'(3)] st'(4) by simp
  ultimately show ?case using st'(2) by blast
next
  case (Cons q ys st p xs)
  obtain e st' where st': "li_hub_push_next push_frame st frame mtu = Some (q # ys \<noteq> [], st')" "li_inv ok st'"
    "li_entry_tree st' = li_entry_tree st" "li_next_push_ptr st' = first_ptr (q # ys)"
    "li_entries st p = Some e" "li_entries st' = (li_entries st)(p \<mapsto> e\<lparr> me_buffer := g (me_buffer e) \<rparr>)"
    by (rule li_push_at [OF g Cons.prems])
  have tree: "li_entry_tree st' = (xs @ [p]) @ q # ys" and ptr: "li_next_push_ptr st' = Some q"
    using st'(3,4) Cons.prems(3) by (simp_all add: first_ptr_def)
  have np: "p \<notin> set (q # ys)" using li_invD(1) [OF Cons.prems(1)] by (simp add: Cons.prems(3))
  have "push_while (\<lambda>st. li_hub_push_next push_frame st frame mtu) st =
      push_while (\<lambda>st. li_hub_push_next push_frame st frame mtu) st'"
    using st'(1) by (subst push_while.simps) simp
  moreover obtain st2 where "push_while (\<lambda>st. li_hub_push_next push_frame st frame mtu) st' = Some st2"
    "li_inv ok st2" "li_entries st2 = pushed_all g (set (q # ys)) (li_entries st')"
    using Cons.IH [OF st'(2) ptr tree] by blast
  ultimately show ?case
    using pushed_all_insert [where E = "li_entries st" and g = g, OF st'(5) np] st'(6) by simp
qed

text \<open>
  The push reaches every endpoint from the first one of the subject to the end of the tree, when
  the subject has an endpoint, and none otherwise.
\<close>

definition spread_entries :: "('b \<Rightarrow> 'b) \<Rightarrow> subject_id \<Rightarrow> 'b rx_entries \<Rightarrow> 'b rx_entries" where
  "spread_entries g s entries = (\<lambda>p. map_option (\<lambda>e. if s \<le> me_subject e \<and> s \<in> me_subject ` ran entries
     then e\<lparr> me_buffer := g (me_buffer e) \<rparr> else e) (entries p))"

lemma hub_push_loop_back_entries:
  assumes inv: "li_inv ok st" and g: "takes_frame ok push_frame frame mtu g"
  shows "\<exists>st'. mr_hub_push_loop_back push_frame st s frame mtu = Some st' \<and> li_inv ok st' \<and>
    li_entries st' = spread_entries g s (li_entries st)"
proof -
  let ?key = "entry_subject (li_entries st)"
  note r = li_invD [OF inv]
  have none: "spread_entries g s (li_entries st) = li_entries st" if "s \<notin> me_subject ` ran (li_entries st)"
    using that by (simp add: spread_entries_def fun_eq_iff option.map_ident)
  have inv': "li_inv ok (st\<lparr> li_next_push_ptr := None \<rparr>)" using inv by (simp add: li_inv_def)
  show ?thesis
  proof (cases "lower_bound ?key s (li_entry_tree st)")
    case None
    then have "s \<notin> me_subject ` ran (li_entries st)"
      using r(2) by (fastforce simp: lower_bound_None ran_def entry_subject_def dom_def set_eq_iff)
    moreover have "mr_hub_push_loop_back push_frame st s frame mtu = Some (st\<lparr> li_next_push_ptr := None \<rparr>)"
      using None by (simp add: mr_hub_push_loop_back_def li_hub_push_start_def)
    ultimately show ?thesis using none inv' by simp
  next
    case (Some p)
    obtain ys zs where t: "li_entry_tree st = ys @ p # zs" "\<forall>q \<in> set ys. ?key q < s" "s \<le> ?key p"
      using lower_bound_split [OF Some] by blast
    have "p \<in> dom (li_entries st)" using r(2) t(1) by auto
    then obtain e where e: "li_entries st p = Some e" by blast
    show ?thesis
    proof (cases "me_subject e = s")
      case False
      have above: "s < ?key q" if "q \<in> set (p # zs)" for q
      proof -
        have "?key p \<le> ?key q" using r(3) that by (auto simp: t(1) sorted_append)
        moreover have "s < ?key p" using t(3) e False by (simp add: entry_subject_def)
        ultimately show ?thesis by simp
      qed
      have "s \<notin> me_subject ` ran (li_entries st)"
      proof
        assume "s \<in> me_subject ` ran (li_entries st)"
        then obtain q d where q: "li_entries st q = Some d" "me_subject d = s" by (auto simp: ran_def)
        then have "q \<in> set ys \<or> q \<in> set (p # zs)" using r(2) t(1) by auto
        moreover have "?key q = s" using q by (simp add: entry_subject_def)
        ultimately show False using t(2) above [of q] by auto
      qed
      moreover have "mr_hub_push_loop_back push_frame st s frame mtu = Some (st\<lparr> li_next_push_ptr := None \<rparr>)"
        using Some e False by (simp add: mr_hub_push_loop_back_def li_hub_push_start_def)
      ultimately show ?thesis using none inv' by simp
    next
      case True
      let ?st = "st\<lparr> li_next_push_ptr := Some p \<rparr>"
      have "li_inv ok ?st" using inv t(1) by (simp add: li_inv_def)
      from li_push_while [OF g this _, of p ys zs] t(1) obtain st' where
        st': "push_while (\<lambda>st. li_hub_push_next push_frame st frame mtu) ?st = Some st'" "li_inv ok st'"
        "li_entries st' = pushed_all g (set (p # zs)) (li_entries st)" by auto
      have here: "s \<in> me_subject ` ran (li_entries st)" using e True by (auto simp: ran_def)
      have side: "q \<in> set (p # zs) \<longleftrightarrow> s \<le> me_subject d" if q: "li_entries st q = Some d" for q d
      proof -
        have key: "?key q = me_subject d" using q by (simp add: entry_subject_def)
        have "q \<in> set ys \<or> q \<in> set (p # zs)" using q r(2) t(1) by auto
        moreover have "s \<le> ?key q" if "q \<in> set (p # zs)"
        proof -
          have "?key p \<le> ?key q" using r(3) that by (auto simp: t(1) sorted_append)
          then show ?thesis using t(3) by simp
        qed
        ultimately show ?thesis using t(2) key by (metis not_le)
      qed
      have "li_entries st' q = spread_entries g s (li_entries st) q" for q
        unfolding st'(3) spread_entries_def pushed_all_def using side here by (cases "li_entries st q") auto
      then have "li_entries st' = spread_entries g s (li_entries st)" by blast
      moreover have "mr_hub_push_loop_back push_frame st s frame mtu = Some st'"
        using Some e True st'(1) by (simp add: mr_hub_push_loop_back_def li_hub_push_start_def)
      ultimately show ?thesis using st'(2) by blast
    qed
  qed
qed

end
