(* ===== verification/Sockets.thy ===== *)
theory Sockets
  imports Tx_Hosted Rx_Fifo Rx_Watch
begin

text \<open>
  The handles a program works with: the endpoints of \<open>emcyphal/src/endpoint.rs\<close> and the
  subscriber, publisher and responder of \<open>emcyphal/src/socket.rs\<close>. An \<open>async\<close> method is the
  function that polls it once: it returns \<open>Pending\<close> where the code awaits something that is not
  ready. The buffer behind an endpoint, the serializer and the clock are parameters.
\<close>

section \<open>Endpoints that receive\<close>

record 'p ep_transfer =
  tr_meta :: transfer_meta
  tr_payload :: 'p

definition rx_try_pop ::
  "(u8 list \<Rightarrow> 'e + 'p) \<Rightarrow> ('s \<Rightarrow> priority_set \<Rightarrow> (rx_item option \<times> 's) exec) \<Rightarrow>
    's \<Rightarrow> priority_set \<Rightarrow> (('e + 'p ep_transfer) option \<times> 's) exec" where
  "rx_try_pop deserialize try_pop s priority_mask = do {
     (item, s) \<leftarrow> try_pop s priority_mask;
     (case item of
        None \<Rightarrow> ret (None, s)
      | Some (meta, buffer) \<Rightarrow>
          ret (Some (map_sum id (\<lambda>payload. \<lparr> tr_meta = meta, tr_payload = payload \<rparr>) (deserialize buffer)), s))
   }"

text \<open>\<open>Rx::pop\<close>: wait until a pop may succeed, and try again when it did not.\<close>

partial_function (option) rx_poll_pop ::
  "(u8 list \<Rightarrow> 'e + 'p) \<Rightarrow> ('s \<Rightarrow> priority_set \<Rightarrow> priority_set poll \<times> 's) \<Rightarrow>
    ('s \<Rightarrow> priority_set \<Rightarrow> (rx_item option \<times> 's) exec) \<Rightarrow>
    's \<Rightarrow> priority_set \<Rightarrow> (('e + 'p ep_transfer) poll \<times> 's) exec" where
  "rx_poll_pop deserialize poll try_pop s priority_mask =
     (case poll s priority_mask of
        (Pending, s) \<Rightarrow> ret (Pending, s)
      | (Ready _, s) \<Rightarrow> do {
          (res, s) \<leftarrow> rx_try_pop deserialize try_pop s priority_mask;
          (case res of
             Some res \<Rightarrow> ret (Ready res, s)
           | None \<Rightarrow> rx_poll_pop deserialize poll try_pop s priority_mask)
        })"

section \<open>Subscribers\<close>

partial_function (option) sub_try_pop ::
  "(u8 list \<Rightarrow> 'e + 'p) \<Rightarrow> ('s \<Rightarrow> priority_set \<Rightarrow> (rx_item option \<times> 's) exec) \<Rightarrow> 's \<Rightarrow>
    ('p option \<times> 's) exec" where
  "sub_try_pop deserialize try_pop s = do {
     (res, s) \<leftarrow> rx_try_pop deserialize try_pop s ps_ALL;
     (case res of
        None \<Rightarrow> ret (None, s)
      | Some (Inr transfer) \<Rightarrow> ret (Some (tr_payload transfer), s)
      | Some (Inl _) \<Rightarrow> sub_try_pop deserialize try_pop s)
   }"

partial_function (option) sub_poll_pop ::
  "(u8 list \<Rightarrow> 'e + 'p) \<Rightarrow> ('s \<Rightarrow> priority_set \<Rightarrow> priority_set poll \<times> 's) \<Rightarrow>
    ('s \<Rightarrow> priority_set \<Rightarrow> (rx_item option \<times> 's) exec) \<Rightarrow> 's \<Rightarrow> ('p poll \<times> 's) exec" where
  "sub_poll_pop deserialize poll try_pop s = do {
     (res, s) \<leftarrow> rx_poll_pop deserialize poll try_pop s ps_ALL;
     (case res of
        Pending \<Rightarrow> ret (Pending, s)
      | Ready (Inr transfer) \<Rightarrow> ret (Ready (tr_payload transfer), s)
      | Ready (Inl _) \<Rightarrow> sub_poll_pop deserialize poll try_pop s)
   }"

section \<open>Publishers\<close>

datatype message_error = NotReady

record publisher =
  pb_priority :: priority
  pb_timeout :: duration
  pb_loop_back :: bool
  pb_transfer_id :: transfer_id

definition pb_create :: "priority \<Rightarrow> duration \<Rightarrow> bool \<Rightarrow> publisher" where
  "pb_create priority timeout loop_back =
     \<lparr> pb_priority = priority, pb_timeout = timeout, pb_loop_back = loop_back,
       pb_transfer_id = TransferId 0 \<rparr>"

definition pb_meta :: "publisher \<Rightarrow> instant \<Rightarrow> transfer_meta" where
  "pb_meta pb deadline =
     \<lparr> tm_priority = pb_priority pb, tm_address = None, tm_transfer_id = pb_transfer_id pb,
       tm_timestamp = deadline, tm_loop_back = pb_loop_back pb \<rparr>"

definition pb_try_push ::
  "(instant \<Rightarrow> duration \<Rightarrow> instant) \<Rightarrow> ('s \<Rightarrow> transfer_meta \<Rightarrow> 'p \<Rightarrow> ((buffer_error + unit) \<times> 's) exec) \<Rightarrow>
    publisher \<Rightarrow> 's \<Rightarrow> instant \<Rightarrow> 'p \<Rightarrow> ((message_error + unit) \<times> publisher \<times> 's) exec" where
  "pb_try_push sadd try_push pb s now data = do {
     let deadline = sadd now (pb_timeout pb);
     (res, s) \<leftarrow> try_push s (pb_meta pb deadline) data;
     (case res of
        Inr _ \<Rightarrow> ret (Inr (), pb\<lparr> pb_transfer_id := transfer_id_next (pb_transfer_id pb) \<rparr>, s)
      | Inl PriorityNotReady \<Rightarrow> ret (Inl NotReady, pb, s)
      | Inl _ \<Rightarrow> panic)
   }"

definition pb_poll_push ::
  "(instant \<Rightarrow> duration \<Rightarrow> instant) \<Rightarrow> ('s \<Rightarrow> priority_set \<Rightarrow> priority_set poll \<times> 's) \<Rightarrow>
    ('s \<Rightarrow> transfer_meta \<Rightarrow> 'p \<Rightarrow> ((buffer_error + unit) \<times> 's) exec) \<Rightarrow>
    publisher \<Rightarrow> 's \<Rightarrow> instant \<Rightarrow> 'p \<Rightarrow> (unit poll \<times> publisher \<times> 's) exec" where
  "pb_poll_push sadd poll try_push pb s now data =
     (case poll s (ps_new_eq (pb_priority pb)) of
        (Pending, s) \<Rightarrow> ret (Pending, pb, s)
      | (Ready _, s) \<Rightarrow> do {
          (res, pb, s) \<leftarrow> pb_try_push sadd try_push pb s now data;
          (case res of Inr _ \<Rightarrow> ret (Ready (), pb, s) | Inl _ \<Rightarrow> panic)
        })"

section \<open>Responders\<close>

text \<open>
  \<open>Responder::process_request\<close> up to the point where a request is fetched. \<open>select\<close> is the
  function of \<open>embassy_futures\<close>, a parameter: it polls the first future and may complete with it
  when it is ready (\<open>sl_stop\<close>); otherwise it also polls the second one and completes with one of
  the two that is ready (\<open>sl_pick\<close>).
\<close>

record selector =
  sl_stop :: "priority_set poll \<Rightarrow> bool"
  sl_pick :: "priority_set poll \<Rightarrow> priority_set poll \<Rightarrow> (priority_set + priority_set) poll"

datatype pr_wait = PrReq | PrResp priority_set | PrSelect priority_set priority_set

datatype pr_next = PrGo pr_wait | PrPending | PrFetch priority_set

definition select_law :: "selector \<Rightarrow> bool" where
  "select_law select \<longleftrightarrow> (\<forall>a. sl_stop select a \<longrightarrow> a \<noteq> Pending) \<and> (\<forall>a b. case sl_pick select a b of
     Ready (Inl x) \<Rightarrow> a = Ready x | Ready (Inr y) \<Rightarrow> b = Ready y | Pending \<Rightarrow> a = Pending \<and> b = Pending)"

definition pr_step ::
  "selector \<Rightarrow> ('q \<Rightarrow> priority_set \<Rightarrow> priority_set poll \<times> 'q) \<Rightarrow> ('r \<Rightarrow> priority_set \<Rightarrow> priority_set poll \<times> 'r) \<Rightarrow>
    pr_wait \<Rightarrow> 'q \<Rightarrow> 'r \<Rightarrow> pr_next \<times> 'q \<times> 'r" where
  "pr_step select req_poll resp_poll w req resp = (case w of
     PrReq \<Rightarrow> (case req_poll req ps_ALL of
         (Pending, req) \<Rightarrow> (PrPending, req, resp)
       | (Ready req_priorities, req) \<Rightarrow> (PrGo (PrResp req_priorities), req, resp))
   | PrResp req_priorities \<Rightarrow> (case resp_poll resp ps_ALL of
         (Pending, resp) \<Rightarrow> (PrPending, req, resp)
       | (Ready resp_priorities, resp) \<Rightarrow> (PrGo (PrSelect req_priorities resp_priorities), req, resp))
   | PrSelect req_priorities resp_priorities \<Rightarrow>
       if \<not> ps_is_empty (ps_and req_priorities resp_priorities) then (PrFetch resp_priorities, req, resp)
       else (case req_poll req req_priorities of (a, req) \<Rightarrow>
         if sl_stop select a then (case a of
             Ready priority \<Rightarrow> (PrGo (PrSelect (ps_or req_priorities priority) resp_priorities), req, resp)
           | Pending \<Rightarrow> (PrPending, req, resp))
         else (case resp_poll resp resp_priorities of (b, resp) \<Rightarrow> (case sl_pick select a b of
             Ready (Inl priority) \<Rightarrow> (PrGo (PrSelect (ps_or req_priorities priority) resp_priorities), req, resp)
           | Ready (Inr priority) \<Rightarrow> (PrGo (PrSelect req_priorities (ps_or resp_priorities priority)), req, resp)
           | Pending \<Rightarrow> (PrPending, req, resp)))))"

text \<open>One poll of the task runs until something is not ready.\<close>

partial_function (option) pr_poll ::
  "selector \<Rightarrow> ('q \<Rightarrow> priority_set \<Rightarrow> priority_set poll \<times> 'q) \<Rightarrow> ('r \<Rightarrow> priority_set \<Rightarrow> priority_set poll \<times> 'r) \<Rightarrow>
    pr_wait \<Rightarrow> 'q \<Rightarrow> 'r \<Rightarrow> ((pr_wait + priority_set) \<times> 'q \<times> 'r) option" where
  "pr_poll select req_poll resp_poll w req resp = (case pr_step select req_poll resp_poll w req resp of
     (PrGo w', req, resp) \<Rightarrow> pr_poll select req_poll resp_poll w' req resp
   | (PrPending, req, resp) \<Rightarrow> Some (Inl w, req, resp)
   | (PrFetch resp_priorities, req, resp) \<Rightarrow> Some (Inr resp_priorities, req, resp))"

definition pr_fetch ::
  "(u8 list \<Rightarrow> 'e + 'p) \<Rightarrow> ('q \<Rightarrow> priority_set \<Rightarrow> (rx_item option \<times> 'q) exec) \<Rightarrow> 'q \<Rightarrow> priority_set \<Rightarrow>
    ('p ep_transfer option \<times> 'q) exec" where
  "pr_fetch deserialize try_pop req resp_priorities = do {
     (res, req) \<leftarrow> rx_try_pop deserialize try_pop req resp_priorities;
     ret (case res of Some (Inr transfer) \<Rightarrow> Some transfer | _ \<Rightarrow> None, req)
   }"

text \<open>What follows once the handler returned the payload of the response.\<close>

definition pr_meta :: "(instant \<Rightarrow> duration \<Rightarrow> instant) \<Rightarrow> duration \<Rightarrow> transfer_meta \<Rightarrow> transfer_meta" where
  "pr_meta sadd resp_timeout req_meta =
     \<lparr> tm_priority = tm_priority req_meta, tm_address = tm_address req_meta,
       tm_transfer_id = tm_transfer_id req_meta,
       tm_timestamp = sadd (tm_timestamp req_meta) resp_timeout, tm_loop_back = False \<rparr>"

definition pr_respond ::
  "(instant \<Rightarrow> duration \<Rightarrow> instant) \<Rightarrow> ('r \<Rightarrow> transfer_meta \<Rightarrow> 'p \<Rightarrow> ((buffer_error + unit) \<times> 'r) exec) \<Rightarrow>
    duration \<Rightarrow> 'q ep_transfer \<Rightarrow> 'p \<Rightarrow> 'r \<Rightarrow> 'r exec" where
  "pr_respond sadd try_push resp_timeout req_transfer resp_payload resp = do {
     (res, resp) \<leftarrow> try_push resp (pr_meta sadd resp_timeout (tr_meta req_transfer)) resp_payload;
     (case res of Inr _ \<Rightarrow> ret resp | Inl _ \<Rightarrow> panic)
   }"

section \<open>A subscriber skips what it cannot deserialize\<close>

lemma in_order_popped:
  assumes "rx_popped A ps_ALL item A'"
  shows "case in_order A of
      [] \<Rightarrow> item = None \<and> A' = A
    | i # items \<Rightarrow> item = Some i \<and> in_order A' = items"
proof (cases item)
  case None
  then show ?thesis using in_order_none [of A A'] assms by simp
next
  case (Some i)
  then show ?thesis using in_order_pop [of A i A'] assms by simp
qed

context rx_buffer
begin

lemma sub_try_pop_rep:
  assumes "rep s A"
  shows "\<exists>s' A'. sub_try_pop deserialize pop s =
      Some (map_option (projr \<circ> deserialize \<circ> snd) (find (\<lambda>i. \<not> isl (deserialize (snd i))) (in_order A)), s') \<and>
    rep s' A' \<and> in_order A' = tl (dropWhile (\<lambda>i. isl (deserialize (snd i))) (in_order A))"
  using assms
proof (induction "in_order A" arbitrary: s A)
  case Nil
  obtain item s' A' where p: "pop s ps_ALL = Some (item, s')" "rep s' A'" "rx_popped A ps_ALL item A'"
    using pop_rep [OF Nil.prems] by blast
  then have "item = None" "A' = A" using in_order_popped [OF p(3)] by (simp_all add: Nil.hyps [symmetric])
  then show ?case using p Nil.hyps [symmetric]
    by (subst sub_try_pop.simps) (auto simp: rx_try_pop_def)
next
  case (Cons i items)
  obtain item s' A' where p: "pop s ps_ALL = Some (item, s')" "rep s' A'" "rx_popped A ps_ALL item A'"
    using pop_rep [OF Cons.prems] by blast
  have j: "item = Some i" and A: "in_order A' = items"
    using in_order_popped [OF p(3)] by (simp_all add: Cons.hyps(2) [symmetric])
  obtain meta bytes where i: "i = (meta, bytes)" by (cases i)
  show ?case
  proof (cases "deserialize bytes")
    case (Inl e)
    then have "sub_try_pop deserialize pop s = sub_try_pop deserialize pop s'"
      using p(1) j i by (subst sub_try_pop.simps) (simp add: rx_try_pop_def)
    then show ?thesis using Cons.hyps(1) [OF A [symmetric] p(2)] Inl A i
      by (simp add: Cons.hyps(2) [symmetric])
  next
    case (Inr payload)
    then have "sub_try_pop deserialize pop s = Some (Some payload, s')"
      using p(1) j i by (subst sub_try_pop.simps) (simp add: rx_try_pop_def)
    then show ?thesis using Inr p(2) A i by (auto simp: Cons.hyps(2) [symmetric])
  qed
qed

text \<open>The asynchronous form returns the same message, or waits when there is none.\<close>

lemma rx_poll_pop_rep:
  assumes "rep s A"
  shows "\<exists>item s' A'. rx_poll_pop deserialize poll pop s pm = Some (case item of None \<Rightarrow> Pending
      | Some (meta, bytes) \<Rightarrow> Ready (map_sum id (\<lambda>payload. \<lparr> tr_meta = meta, tr_payload = payload \<rparr>) (deserialize bytes)), s') \<and>
    rep s' A' \<and> rx_popped A pm item A'"
proof -
  have rep: "rep (snd (poll s pm)) A" by (rule poll_rep [OF assms])
  obtain item s' A' where p: "pop (snd (poll s pm)) pm = Some (item, s')" "rep s' A'" "rx_popped A pm item A'"
    using pop_rep [OF rep] by blast
  obtain res s1 where s1: "poll s pm = (res, s1)" by (cases "poll s pm")
  have none: "item = None \<longleftrightarrow> (\<forall>p. \<not> admitted (A p) pm p)" using p(3) by (cases item) (auto simp: rx_popped_def)
  have "res = Pending \<longleftrightarrow> (\<forall>p. \<not> admitted (A p) pm p)"
    using poll_ready [of s pm] s1 ready_rep [OF assms] by (auto simp: Let_def ps_is_empty_iff admitted_def split: if_splits)
  then have res: "res = Pending \<longleftrightarrow> item = None" using none by blast
  show ?thesis
  proof (cases item)
    case None
    then have "rx_poll_pop deserialize poll pop s pm = Some (Pending, s1)"
      using s1 res by (subst rx_poll_pop.simps) simp
    moreover have "rx_popped A pm None A" using None none by (simp add: rx_popped_def)
    ultimately show ?thesis using rep s1 by (intro exI [of _ None] exI [of _ s1] exI [of _ A]) simp
  next
    case (Some i)
    obtain x where "res = Ready x" using Some res by (cases res) auto
    then have "rx_poll_pop deserialize poll pop s pm = Some (Ready (map_sum id
        (\<lambda>payload. \<lparr> tr_meta = fst i, tr_payload = payload \<rparr>) (deserialize (snd i))), s')"
      using p(1) s1 Some by (subst rx_poll_pop.simps) (simp add: rx_try_pop_def split: prod.splits)
    then show ?thesis using p(2,3) Some by (intro exI [of _ item] exI [of _ s'] exI [of _ A']) (cases i, simp)
  qed
qed

lemma sub_poll_pop_rep:
  assumes "rep s A"
  shows "\<exists>s' A'. sub_poll_pop deserialize poll pop s = Some (case find (\<lambda>i. \<not> isl (deserialize (snd i))) (in_order A) of
      None \<Rightarrow> Pending | Some i \<Rightarrow> Ready (projr (deserialize (snd i))), s') \<and>
    rep s' A' \<and> in_order A' = tl (dropWhile (\<lambda>i. isl (deserialize (snd i))) (in_order A))"
  using assms
proof (induction "in_order A" arbitrary: s A)
  case Nil
  obtain item s' A' where p: "rx_poll_pop deserialize poll pop s ps_ALL = Some (case item of None \<Rightarrow> Pending
      | Some (meta, bytes) \<Rightarrow> Ready (map_sum id (\<lambda>payload. \<lparr> tr_meta = meta, tr_payload = payload \<rparr>) (deserialize bytes)), s')"
    "rep s' A'" "rx_popped A ps_ALL item A'" using rx_poll_pop_rep [OF Nil.prems] by blast
  then have "item = None" "A' = A" using in_order_popped [OF p(3)] by (simp_all add: Nil.hyps [symmetric])
  then show ?case using p Nil.hyps [symmetric] by (subst sub_poll_pop.simps) auto
next
  case (Cons i items)
  obtain item s' A' where p: "rx_poll_pop deserialize poll pop s ps_ALL = Some (case item of None \<Rightarrow> Pending
      | Some (meta, bytes) \<Rightarrow> Ready (map_sum id (\<lambda>payload. \<lparr> tr_meta = meta, tr_payload = payload \<rparr>) (deserialize bytes)), s')"
    "rep s' A'" "rx_popped A ps_ALL item A'" using rx_poll_pop_rep [OF Cons.prems] by blast
  have j: "item = Some i" and A: "in_order A' = items"
    using in_order_popped [OF p(3)] by (simp_all add: Cons.hyps(2) [symmetric])
  obtain meta bytes where i: "i = (meta, bytes)" by (cases i)
  show ?case
  proof (cases "deserialize bytes")
    case (Inl e)
    then have "sub_poll_pop deserialize poll pop s = sub_poll_pop deserialize poll pop s'"
      using p(1) j i by (subst sub_poll_pop.simps) simp
    then show ?thesis using Cons.hyps(1) [OF A [symmetric] p(2)] Inl A i
      by (simp add: Cons.hyps(2) [symmetric])
  next
    case (Inr payload)
    then have "sub_poll_pop deserialize poll pop s = Some (Ready payload, s')"
      using p(1) j i by (subst sub_poll_pop.simps) simp
    then show ?thesis using Inr p(2) A i by (auto simp: Cons.hyps(2) [symmetric])
  qed
qed

end

section \<open>A publisher counts what the buffer accepts\<close>

context tx_buffer
begin

lemma endpoint_refused:
  assumes "rep s A pad" "\<not> ps_contains (push_ready s) (tm_priority meta)"
  shows "\<exists>s' A' pad'. ep_try_push scratchpad fill_pad push ser size_bits s meta payload = Some (Inl PriorityNotReady, s') \<and>
    rep s' A' pad' \<and> (A' = A \<or> claims A A')"
proof -
  obtain r s1 where s1: "scratchpad s = Some (r, s1)" "case r of
      None \<Rightarrow> ps_is_empty (push_ready s) \<and> rep s1 A pad
    | Some (ps, b) \<Rightarrow> ps = push_ready s \<and> push_ready s1 = ps \<and> length b = B \<and>
        (\<exists>A'. claims A A' \<and> rep s1 A' (Some b))"
    using scratchpad_rep [OF assms(1)] by blast
  have run: "ep_try_push scratchpad fill_pad push ser size_bits s meta payload = Some (Inl PriorityNotReady, s1)"
    using s1 assms(2) by (cases r) (auto simp: ep_try_push_def)
  have "\<exists>A' pad'. rep s1 A' pad' \<and> (A' = A \<or> claims A A')" using s1(2) by (cases r) auto
  then show ?thesis using run by blast
qed

lemma pb_try_push_accepted:
  assumes "rep s A pad" "serializes ser size_bits B payload bytes"
    "address (pb_meta pb (sadd now (pb_timeout pb))) = Inr None" "ps_contains (push_ready s) (pb_priority pb)"
  shows "\<exists>s' A' b. pb_try_push sadd (ep_try_push scratchpad fill_pad push ser size_bits) pb s now payload =
      Some (Inr (), pb\<lparr> pb_transfer_id := transfer_id_next (pb_transfer_id pb) \<rparr>, s') \<and>
    claims A A' \<and> take (length bytes) b = bytes \<and> length b = B \<and>
    rep s' (accept A' (pb_priority pb) (tx_item_of (pb_meta pb (sadd now (pb_timeout pb))) None b
      (length bytes) (crc_add_bytes crc_default bytes))) None"
proof -
  let ?meta = "pb_meta pb (sadd now (pb_timeout pb))"
  have prio: "tm_priority ?meta = pb_priority pb" by (simp add: pb_meta_def)
  then have "ps_contains (push_ready s) (tm_priority ?meta)" using assms(4) by simp
  then obtain s' A' b where p: "ep_try_push scratchpad fill_pad push ser size_bits s ?meta payload = Some (Inr (), s')"
    "claims A A'" "take (length bytes) b = bytes" "length b = B"
    "rep s' (accept A' (tm_priority ?meta) (tx_item_of ?meta None b (length bytes) (crc_add_bytes crc_default bytes))) None"
    using endpoint_push [OF assms(1-3)] by blast
  have "pb_try_push sadd (ep_try_push scratchpad fill_pad push ser size_bits) pb s now payload =
      Some (Inr (), pb\<lparr> pb_transfer_id := transfer_id_next (pb_transfer_id pb) \<rparr>, s')"
    by (simp add: pb_try_push_def p(1))
  then show ?thesis using p(2-5) unfolding prio by blast
qed

lemma pb_try_push_refused:
  assumes "rep s A pad" "\<not> ps_contains (push_ready s) (pb_priority pb)"
  shows "\<exists>s' A' pad'. pb_try_push sadd (ep_try_push scratchpad fill_pad push ser size_bits) pb s now payload =
      Some (Inl NotReady, pb, s') \<and> rep s' A' pad' \<and> (A' = A \<or> claims A A')"
proof -
  let ?meta = "pb_meta pb (sadd now (pb_timeout pb))"
  have no: "\<not> ps_contains (push_ready s) (tm_priority ?meta)" using assms(2) by (simp add: pb_meta_def)
  obtain s' A' pad' where p: "ep_try_push scratchpad fill_pad push ser size_bits s ?meta payload =
      Some (Inl PriorityNotReady, s')" "rep s' A' pad'" "A' = A \<or> claims A A'"
    using endpoint_refused [OF assms(1) no, of ser size_bits payload] by (elim exE conjE)
  have "pb_try_push sadd (ep_try_push scratchpad fill_pad push ser size_bits) pb s now payload =
      Some (Inl NotReady, pb, s')" by (simp add: pb_try_push_def p(1))
  then show ?thesis using p(2,3) by blast
qed

end

text \<open>The transfer identifiers of the frames that start a transfer.\<close>

definition start_id :: "frame \<Rightarrow> transfer_id option" where
  "start_id f = (case slice_last (data_deref (f_data f)) of
     None \<Rightarrow> None
   | Some byte \<Rightarrow> if tail_sot (TailByte byte) then Some (tail_transfer_id (TailByte byte)) else None)"

lemma start_id_fetched:
  assumes "tx_item_wf i" "transfer_id_wf (sc_transfer_id (ti_scatter i))"
    "sc_fetch_frame_data (ti_scatter i) (ti_bytes i) m = Some (Some d, sc)"
  shows "start_id (tx_frame spec p i d) =
      (if sc_offset (ti_scatter i) = 0 then Some (sc_transfer_id (ti_scatter i)) else None)"
    "sc_transfer_id sc = sc_transfer_id (ti_scatter i)" "sc_offset sc \<noteq> 0"
proof -
  note wf = assms(1) [unfolded tx_item_wf_def]
  note tail = sc_fetch_tail [OF conjunct1 [OF wf] conjunct2 [OF wf] assms(3)]
  then show "start_id (tx_frame spec p i d) =
      (if sc_offset (ti_scatter i) = 0 then Some (sc_transfer_id (ti_scatter i)) else None)"
    using assms(2) by (auto simp: start_id_def tx_frame_def slice_last_def)
  show "sc_transfer_id sc = sc_transfer_id (ti_scatter i)" by (rule tail(2))
  show "sc_offset sc \<noteq> 0" using tx_item_fetch [OF assms(1), of m] assms(3) by auto
qed

text \<open>A publisher and a driver share a blocking buffer.\<close>

datatype 'p pb_op = PbPush instant 'p | PbPop priority_set mtu | PbPollPush priority_set

fun pb_step ::
  "(instant \<Rightarrow> duration \<Rightarrow> instant) \<Rightarrow> ('p \<Rightarrow> u8 list \<Rightarrow> u8 list) \<Rightarrow> ('p \<Rightarrow> nat) \<Rightarrow> 'p pb_op \<Rightarrow>
    publisher \<times> msg_blocking \<times> frame list \<Rightarrow> (publisher \<times> msg_blocking \<times> frame list) exec" where
  "pb_step sadd ser size_bits (PbPush now payload) (pb, st, fs) = do {
     (_, pb, st) \<leftarrow> pb_try_push sadd (ep_try_push mb_get_scratchpad mb_write_scratchpad mb_try_push ser size_bits)
       pb st now payload;
     ret (pb, st, fs)
   }"
| "pb_step sadd ser size_bits (PbPop pm m) (pb, st, fs) = do {
     (fr, st) \<leftarrow> mb_try_pop st pm m;
     ret (pb, st, fs @ (case fr of None \<Rightarrow> [] | Some f \<Rightarrow> [f]))
   }"
| "pb_step sadd ser size_bits (PbPollPush pm) (pb, st, fs) = ret (pb, snd (mb_poll_push_readiness st pm), fs)"

definition ids_from :: "transfer_id \<Rightarrow> nat \<Rightarrow> transfer_id list" where
  "ids_from t n = map (\<lambda>k. (transfer_id_next ^^ k) t) [0..<n]"

lemma ids_from_Suc [simp]: "ids_from t (Suc n) = ids_from t n @ [(transfer_id_next ^^ n) t]"
  by (simp add: ids_from_def)

definition pb_inv ::
  "subject_id \<Rightarrow> priority \<Rightarrow> nat \<Rightarrow> transfer_id \<Rightarrow> nat \<Rightarrow> publisher \<times> msg_blocking \<times> frame list \<Rightarrow> bool" where
  "pb_inv s q B t n = (\<lambda>(pb, st, fs). \<exists>A pad. mb_rep s q B st A pad \<and> pb_priority pb = q \<and>
     transfer_id_wf t \<and> pb_transfer_id pb = (transfer_id_next ^^ n) t \<and>
     (case A q of
        [] \<Rightarrow> List.map_filter start_id fs = ids_from t n
      | i # is \<Rightarrow> is = [] \<and> 0 < n \<and> sc_transfer_id (ti_scatter i) = (transfer_id_next ^^ (n - 1)) t \<and>
          List.map_filter start_id fs = ids_from t (if sc_offset (ti_scatter i) = 0 then n - 1 else n)))"

lemma pb_invI:
  assumes "mb_rep s q B st A pad" "pb_priority pb = q" "transfer_id_wf t"
    "pb_transfer_id pb = (transfer_id_next ^^ n) t"
    "case A q of [] \<Rightarrow> List.map_filter start_id fs = ids_from t n
      | i # is \<Rightarrow> is = [] \<and> 0 < n \<and> sc_transfer_id (ti_scatter i) = (transfer_id_next ^^ (n - 1)) t \<and>
          List.map_filter start_id fs = ids_from t (if sc_offset (ti_scatter i) = 0 then n - 1 else n)"
  shows "pb_inv s q B t n (pb, st, fs)"
  unfolding pb_inv_def using assms by blast

lemma pb_inv_new:
  assumes "length buffer = B" "transfer_id_wf t" "pb_priority pb = q" "pb_transfer_id pb = t"
  shows "pb_inv s q B t 0 (pb, mb_new s q buffer, [])"
  using mb_rep_new [OF assms(1), of s q] assms(2-4)
  by (auto simp: pb_inv_def ids_from_def intro!: exI [of _ "\<lambda>p. []"])

lemma map_filter_append: "List.map_filter g (xs @ ys) = List.map_filter g xs @ List.map_filter g ys"
  by (simp add: List.map_filter_def)

lemma popped_at:
  assumes "tx_popped spec A pm m (Some f) A'" "\<And>p. p \<noteq> q \<Longrightarrow> A p = []"
  obtains d sc where "A q \<noteq> []"
    "sc_fetch_frame_data (ti_scatter (hd (A q))) (ti_bytes (hd (A q))) m = Some (Some d, sc)"
    "f = tx_frame spec q (hd (A q)) d" "A' = A(q := tx_advance (hd (A q)) sc @ tl (A q))"
proof -
  obtain p d sc where p: "admitted (A p) pm p"
    "sc_fetch_frame_data (ti_scatter (hd (A p))) (ti_bytes (hd (A p))) m = Some (Some d, sc)"
    "f = tx_frame spec p (hd (A p)) d" "A' = A(p := tx_advance (hd (A p)) sc @ tl (A p))"
    using assms(1) unfolding tx_popped_def by auto
  have "p = q" using assms(2) p(1) by (auto simp: admitted_def)
  then show ?thesis using that p by (simp add: admitted_def)
qed

lemma pb_step_inv:
  assumes inv: "pb_inv s q B t n x"
    and op: "\<And>now payload. op = PbPush now payload \<Longrightarrow> \<exists>bytes. serializes ser size_bits B payload bytes"
  shows "\<exists>x' n'. pb_step sadd ser size_bits op x = Some x' \<and> pb_inv s q B t n' x'"
proof -
  obtain pb st fs where x: "x = (pb, st, fs)" by (cases x)
  obtain A pad where r: "mb_rep s q B st A pad" "pb_priority pb = q" "transfer_id_wf t"
    "pb_transfer_id pb = (transfer_id_next ^^ n) t"
    "case A q of [] \<Rightarrow> List.map_filter start_id fs = ids_from t n
      | i # is \<Rightarrow> is = [] \<and> 0 < n \<and> sc_transfer_id (ti_scatter i) = (transfer_id_next ^^ (n - 1)) t \<and>
          List.map_filter start_id fs = ids_from t (if sc_offset (ti_scatter i) = 0 then n - 1 else n)"
    using inv unfolding pb_inv_def x by auto
  have tid: "transfer_id_wf ((transfer_id_next ^^ k) t)" for k using r(3) by (cases k) simp_all
  have at: "A p = []" if "p \<noteq> q" for p using r(1) that by (simp add: mb_rep_def only_at_def)
  show ?thesis
  proof (cases op)
    case (PbPush now payload)
    then obtain bytes where ser: "serializes ser size_bits B payload bytes" using op by blast
    have addr: "msg_address (pb_meta pb d) = Inr None" for d by (simp add: msg_address_def pb_meta_def)
    show ?thesis
    proof (cases "ps_contains (mb_push_readiness st) q")
      case True
      then have A: "A q = []"
        using r(1) by (auto simp: mb_push_readiness_def mb_rep_def only_at_def mb_items_def split: if_splits)
      obtain st' b where st': "pb_try_push sadd (ep_try_push mb_get_scratchpad mb_write_scratchpad mb_try_push ser size_bits)
          pb st now payload = Some (Inr (), pb\<lparr> pb_transfer_id := transfer_id_next (pb_transfer_id pb) \<rparr>, st')"
        "mb_rep s q B st' (append_item A q (tx_item_of (pb_meta pb (sadd now (pb_timeout pb))) None b
          (length bytes) (crc_add_bytes crc_default bytes))) None"
        using mb.pb_try_push_accepted [OF r(1) ser addr, of sadd now] True r(2) by blast
      then have "pb_step sadd ser size_bits op x =
          Some (pb\<lparr> pb_transfer_id := transfer_id_next (pb_transfer_id pb) \<rparr>, st', fs)" by (simp add: PbPush x)
      moreover have "pb_inv s q B t (Suc n) (pb\<lparr> pb_transfer_id := transfer_id_next (pb_transfer_id pb) \<rparr>, st', fs)"
      proof (rule pb_invI [OF st'(2)])
        show "case append_item A q (tx_item_of (pb_meta pb (sadd now (pb_timeout pb))) None b
            (length bytes) (crc_add_bytes crc_default bytes)) q of
            [] \<Rightarrow> List.map_filter start_id fs = ids_from t (Suc n)
          | i # is \<Rightarrow> is = [] \<and> 0 < Suc n \<and> sc_transfer_id (ti_scatter i) = (transfer_id_next ^^ (Suc n - 1)) t \<and>
              List.map_filter start_id fs = ids_from t (if sc_offset (ti_scatter i) = 0 then Suc n - 1 else Suc n)"
          using r(4,5) A by (simp add: append_item_def tx_item_of_def sc_new_def pb_meta_def)
      qed (use r(2-4) in simp_all)
      ultimately show ?thesis by blast
    next
      case False
      then obtain st' pad' where st': "pb_try_push sadd (ep_try_push mb_get_scratchpad mb_write_scratchpad mb_try_push ser size_bits)
          pb st now payload = Some (Inl NotReady, pb, st')" "mb_rep s q B st' A pad'"
        using mb.pb_try_push_refused [OF r(1), of pb sadd ser size_bits now payload] r(2) by auto
      then have "pb_step sadd ser size_bits op x = Some (pb, st', fs)" by (simp add: PbPush x)
      moreover have "pb_inv s q B t n (pb, st', fs)" unfolding pb_inv_def using st'(2) r(2-5) by blast
      ultimately show ?thesis by blast
    qed
  next
    case (PbPop pm m)
    obtain fr st' A' where p: "mb_try_pop st pm m = Some (fr, st')" "mb_rep s q B st' A' pad"
      "tx_popped (Message s) A pm m fr A'" using mb.pop_rep [OF r(1)] by blast
    show ?thesis
    proof (cases fr)
      case None
      then have "A' = A" using p(3) by (simp add: tx_popped_def)
      then have "pb_inv s q B t n (pb, st', fs)" unfolding pb_inv_def using p(2) r(2-5) by blast
      then show ?thesis using p(1) None PbPop x by auto
    next
      case (Some f)
      then have "tx_popped (Message s) A pm m (Some f) A'" using p(3) by simp
      then obtain d sc where "A q \<noteq> []"
        "sc_fetch_frame_data (ti_scatter (hd (A q))) (ti_bytes (hd (A q))) m = Some (Some d, sc)"
        "f = tx_frame (Message s) q (hd (A q)) d" "A' = A(q := tx_advance (hd (A q)) sc @ tl (A q))"
        by (rule popped_at [OF _ at])
      moreover from this(1) obtain i where i: "A q = [i]" using r(5) by (cases "A q") auto
      ultimately have f: "sc_fetch_frame_data (ti_scatter i) (ti_bytes i) m = Some (Some d, sc)"
        "f = tx_frame (Message s) q i d" "A' = A(q := tx_advance i sc)" by simp_all
      have n: "0 < n" "sc_transfer_id (ti_scatter i) = (transfer_id_next ^^ (n - 1)) t"
        "List.map_filter start_id fs = ids_from t (if sc_offset (ti_scatter i) = 0 then n - 1 else n)"
        using r(5) i by simp_all
      have wf: "tx_item_wf i" using mb.items_wf [OF r(1), of i q] i by simp
      have "transfer_id_wf (sc_transfer_id (ti_scatter i))" using n(2) tid by simp
      note start = start_id_fetched [OF wf this f(1)]
      have "List.map_filter start_id (fs @ [f]) = ids_from t n"
      proof (cases "sc_offset (ti_scatter i) = 0")
        case True
        then show ?thesis using start(1) n ids_from_Suc [of t "n - 1"] f(2)
          by (simp add: map_filter_append map_filter_simps)
      next
        case False
        then show ?thesis using start(1) n f(2) by (simp add: map_filter_append map_filter_simps)
      qed
      then have "pb_inv s q B t n (pb, st', fs @ [f])"
        using p(2) r(2-4) f(3) start(2,3) n(1,2)
        by (intro pb_invI [where A = A' and pad = pad]) (simp_all add: tx_advance_def)
      then show ?thesis using p(1) Some PbPop x by auto
    qed
  next
    case (PbPollPush pm)
    have "mb_rep s q B (snd (mb_poll_push_readiness st pm)) A pad" using mb.poll_push_rep [OF r(1)] by blast
    then have "pb_inv s q B t n (pb, snd (mb_poll_push_readiness st pm), fs)"
      unfolding pb_inv_def using r(2-5) by blast
    then show ?thesis using PbPollPush x by auto
  qed
qed

end
