(* ===== verification/Socket_Specs.thy ===== *)
theory Socket_Specs
  imports Sockets Tx_Delivery
begin

text \<open>The properties of subscribers, publishers and responders.\<close>

section \<open>Subscribers\<close>

text \<open>
  A subscriber returns the first message it can deserialize. In the order of priority and
  arrival, transfers that cannot be deserialized are taken and skipped, the first other one is
  returned and the rest stay; without any, the buffer is empty and the call returns nothing, or
  waits. The loops of the blocking and of the asynchronous form always end.
\<close>

theorem subscriber_skips_errors:
  assumes "rf_rep P B st A"
  shows "(\<exists>st' A'. sub_try_pop deserialize (rf_try_pop P) st =
        Some (map_option (projr \<circ> deserialize \<circ> snd) (find (\<lambda>i. \<not> isl (deserialize (snd i))) (in_order A)), st') \<and>
      rf_rep P B st' A' \<and> in_order A' = tl (dropWhile (\<lambda>i. isl (deserialize (snd i))) (in_order A))) \<and>
    (\<exists>st' A'. sub_poll_pop deserialize rf_poll_pop_readiness (rf_try_pop P) st =
        Some (case find (\<lambda>i. \<not> isl (deserialize (snd i))) (in_order A) of
          None \<Rightarrow> Pending | Some i \<Rightarrow> Ready (projr (deserialize (snd i))), st') \<and>
      rf_rep P B st' A' \<and> in_order A' = tl (dropWhile (\<lambda>i. isl (deserialize (snd i))) (in_order A)))"
  using rf.sub_try_pop_rep [OF assms] rf.sub_poll_pop_rep [OF assms] by blast

section \<open>Publishers\<close>

definition pb_run ::
  "(instant \<Rightarrow> duration \<Rightarrow> instant) \<Rightarrow> ('p \<Rightarrow> u8 list \<Rightarrow> u8 list) \<Rightarrow> ('p \<Rightarrow> nat) \<Rightarrow> 'p pb_op list \<Rightarrow>
    publisher \<times> msg_blocking \<times> frame list \<Rightarrow> (publisher \<times> msg_blocking \<times> frame list) exec" where
  "pb_run sadd ser size_bits = for_each (pb_step sadd ser size_bits)"

lemma pb_run_inv:
  "pb_inv s q B t n x \<Longrightarrow>
    (\<And>now payload. PbPush now payload \<in> set ops \<Longrightarrow> \<exists>bytes. serializes ser size_bits B payload bytes) \<Longrightarrow>
    \<exists>x' n'. for_each (pb_step sadd ser size_bits) ops x = Some x' \<and> pb_inv s q B t n' x'"
proof (induction ops arbitrary: x n)
  case (Cons op ops)
  obtain x1 n1 where x1: "pb_step sadd ser size_bits op x = Some x1" "pb_inv s q B t n1 x1"
    using pb_step_inv [OF Cons.prems(1), of op ser size_bits sadd] Cons.prems(2) by fastforce
  from Cons.IH [OF x1(2)] Cons.prems(2) x1(1) show ?case by fastforce
qed auto

text \<open>
  C11: The transfers of a publisher are numbered without gaps. However pushes, polls and the driver
  interleave, nothing panics - the \<open>unreachable!\<close> branch is not reached - and the frames that
  start a transfer leave the blocking buffer with consecutive transfer identifiers from the first
  one; a push that is refused uses none.
\<close>

theorem publisher_ids_sequential:
  assumes "length buffer = B"
    "\<And>now payload. PbPush now payload \<in> set ops \<Longrightarrow> \<exists>bytes. serializes ser size_bits B payload bytes"
  shows "\<exists>pb st fs n. pb_run sadd ser size_bits ops (pb_create q timeout loop_back, mb_new s q buffer, []) =
      Some (pb, st, fs) \<and> List.map_filter start_id fs = ids_from (TransferId 0) n \<and>
    (pb_transfer_id pb = (transfer_id_next ^^ n) (TransferId 0) \<or>
     pb_transfer_id pb = (transfer_id_next ^^ Suc n) (TransferId 0))"
proof -
  have t: "transfer_id_wf (TransferId 0)" by (simp add: transfer_id_wf_def)
  have new: "pb_inv s q B (TransferId 0) 0 (pb_create q timeout loop_back, mb_new s q buffer, [])"
    by (rule pb_inv_new [OF assms(1) t]) (simp_all add: pb_create_def)
  obtain pb st fs n where r: "pb_run sadd ser size_bits ops (pb_create q timeout loop_back, mb_new s q buffer, []) =
      Some (pb, st, fs)" "pb_inv s q B (TransferId 0) n (pb, st, fs)"
    using pb_run_inv [OF new assms(2)] unfolding pb_run_def by fastforce
  then obtain A :: tx_contents and pad :: "u8 list option" where i: "pb_transfer_id pb = (transfer_id_next ^^ n) (TransferId 0)"
    "case A q of [] \<Rightarrow> List.map_filter start_id fs = ids_from (TransferId 0) n
      | i # is \<Rightarrow> is = [] \<and> 0 < n \<and> sc_transfer_id (ti_scatter i) = (transfer_id_next ^^ (n - 1)) (TransferId 0) \<and>
          List.map_filter start_id fs = ids_from (TransferId 0) (if sc_offset (ti_scatter i) = 0 then n - 1 else n)"
    unfolding pb_inv_def by blast
  then have "List.map_filter start_id fs = ids_from (TransferId 0) n \<or>
      0 < n \<and> List.map_filter start_id fs = ids_from (TransferId 0) (n - 1)"
    by (auto split: list.splits if_splits)
  then show ?thesis
  proof (elim disjE conjE)
    assume "0 < n" "List.map_filter start_id fs = ids_from (TransferId 0) (n - 1)"
    moreover from this(1) have "pb_transfer_id pb = (transfer_id_next ^^ Suc (n - 1)) (TransferId 0)" using i(1) by simp
    ultimately show ?thesis using r(1) by blast
  qed (use r(1) i(1) in blast)
qed

lemma publisher_ids_sequential_witness:
  "\<exists>pb st fs n. pb_run (+) raw_ser raw_bits [PbPush 0 [1, 2], PbPush 0 [3], PbPop ps_ALL Classic, PbPush 0 [3]]
      (pb_create Nominal 5 False, mb_new (SubjectId 7) Nominal [0, 0], []) = Some (pb, st, fs) \<and>
    List.map_filter start_id fs = ids_from (TransferId 0) n \<and>
    (pb_transfer_id pb = (transfer_id_next ^^ n) (TransferId 0) \<or>
     pb_transfer_id pb = (transfer_id_next ^^ Suc n) (TransferId 0))"
proof (rule publisher_ids_sequential)
  show "length [0 :: u8, 0] = 2" by simp
  fix now :: instant and payload :: "u8 list"
  assume "PbPush now payload \<in> set [PbPush 0 [1, 2], PbPush 0 [3], PbPop ps_ALL Classic, PbPush 0 [3]]"
  then show "\<exists>bytes. serializes raw_ser raw_bits 2 payload bytes" using raw_serializes [of payload 2] by auto
qed

section \<open>Responders\<close>

lemma ps_or_absorb [simp]: "ps_or a (ps_and r a) = a" "ps_or a (ps_and a r) = a"
  by (cases a; simp add: ps_or_def ps_and_def; simp add: bit_eq_iff bit_or_iff bit_and_iff; blast)+

lemma rb_poll_ready:
  "fst (rb_poll_push_readiness st pm) = (let ps = ps_and (rb_push_readiness st) pm in
    if ps_is_empty ps then Pending else Ready ps)"
  by (simp add: rb_poll_push_readiness_def Let_def)

lemma poll_keeps_ready [simp]:
  "rf_pop_readiness (snd (rf_poll_pop_readiness req pm)) = rf_pop_readiness req"
  "rb_push_readiness (snd (rb_poll_push_readiness resp pm)) = rb_push_readiness resp"
  by (simp_all add: rf_poll_pop_readiness_def rf_pop_readiness_def rb_poll_push_readiness_def
      rb_push_readiness_def Let_def)

abbreviation "responder_step select \<equiv> pr_step select rf_poll_pop_readiness rb_poll_push_readiness"
abbreviation "responder_poll select \<equiv> pr_poll select rf_poll_pop_readiness rb_poll_push_readiness"

lemma select_stuck:
  assumes law: "select_law select" and disjoint: "ps_is_empty (ps_and a b)"
  shows "\<exists>req' resp'. responder_step select (PrSelect a b) req resp =
      (if fst (rf_poll_pop_readiness req a) = Pending \<and> fst (rb_poll_push_readiness resp b) = Pending
       then PrPending else PrGo (PrSelect a b), req', resp') \<and>
    rf_pop_readiness req' = rf_pop_readiness req \<and> rb_push_readiness resp' = rb_push_readiness resp"
proof -
  obtain x req' where x: "rf_poll_pop_readiness req a = (x, req')" by (cases "rf_poll_pop_readiness req a")
  obtain y resp' where y: "rb_poll_push_readiness resp b = (y, resp')" by (cases "rb_poll_push_readiness resp b")
  have x': "x = (let ps = ps_and (rf_pop_readiness req) a in if ps_is_empty ps then Pending else Ready ps)"
    using rf.poll_ready [of req a] x by simp
  have y': "y = (let ps = ps_and (rb_push_readiness resp) b in if ps_is_empty ps then Pending else Ready ps)"
    using rb_poll_ready [of resp b] y by simp
  have law': "sl_stop select x \<longrightarrow> x \<noteq> Pending" "case sl_pick select x y of Ready (Inl u) \<Rightarrow> x = Ready u
    | Ready (Inr u) \<Rightarrow> y = Ready u | Pending \<Rightarrow> x = Pending \<and> y = Pending"
    using law unfolding select_law_def by blast+
  define resp'' where "resp'' = (if sl_stop select x then resp else resp')"
  have "responder_step select (PrSelect a b) req resp =
      (if x = Pending \<and> y = Pending then PrPending else PrGo (PrSelect a b), req', resp'')"
    using law' x' y' disjoint unfolding resp''_def
    by (auto simp: pr_step_def x y Let_def split: poll.splits sum.splits if_splits)
  moreover have "rb_push_readiness resp'' = rb_push_readiness resp"
    using y poll_keeps_ready(2) [of resp b] by (simp add: resp''_def)
  ultimately show ?thesis using x y poll_keeps_ready(1) [of req a] by auto
qed


lemma select_never_returns:
  assumes law: "select_law select" and disjoint: "ps_is_empty (ps_and a b)"
    and ready: "\<not> ps_is_empty (ps_and (rf_pop_readiness req) a) \<or> \<not> ps_is_empty (ps_and (rb_push_readiness resp) b)"
  shows "responder_poll select (PrSelect a b) req resp = None"
proof -
  define P where "P = (\<lambda>sel rq rp w req resp (y :: (pr_wait + priority_set) \<times> rx_fifo \<times> response_buffer).
    sel = select \<longrightarrow> rq = rf_poll_pop_readiness \<longrightarrow> rp = rb_poll_push_readiness \<longrightarrow> w = PrSelect a b \<longrightarrow>
    ps_is_empty (ps_and (rf_pop_readiness req) a) \<and> ps_is_empty (ps_and (rb_push_readiness resp) b))"
  have "P select rf_poll_pop_readiness rb_poll_push_readiness (PrSelect a b) req resp y"
    if "responder_poll select (PrSelect a b) req resp = Some y" for y
  proof (rule pr_poll.raw_induct [where P = P, OF _ that])
    fix pr_poll sel rq rp w req resp and y :: "(pr_wait + priority_set) \<times> rx_fifo \<times> response_buffer"
    assume IH: "\<And>sel rq rp w req resp y. pr_poll sel rq rp w req resp = Some y \<Longrightarrow> P sel rq rp w req resp y"
      and step: "(case pr_step sel rq rp w req resp of
         (PrGo w', req, resp) \<Rightarrow> pr_poll sel rq rp w' req resp
       | (PrPending, req, resp) \<Rightarrow> Some (Inl w, req, resp)
       | (PrFetch resp_priorities, req, resp) \<Rightarrow> Some (Inr resp_priorities, req, resp)) = Some y"
    show "P sel rq rp w req resp y"
      unfolding P_def
    proof (intro impI)
      assume eq: "sel = select" "rq = rf_poll_pop_readiness" "rp = rb_poll_push_readiness" "w = PrSelect a b"
      obtain req' resp' where s: "responder_step select (PrSelect a b) req resp =
          (if fst (rf_poll_pop_readiness req a) = Pending \<and> fst (rb_poll_push_readiness resp b) = Pending
           then PrPending else PrGo (PrSelect a b), req', resp')"
        "rf_pop_readiness req' = rf_pop_readiness req" "rb_push_readiness resp' = rb_push_readiness resp"
        using select_stuck [OF law disjoint] by blast
      show "ps_is_empty (ps_and (rf_pop_readiness req) a) \<and> ps_is_empty (ps_and (rb_push_readiness resp) b)"
      proof (cases "fst (rf_poll_pop_readiness req a) = Pending \<and> fst (rb_poll_push_readiness resp b) = Pending")
        case True
        then show ?thesis by (simp add: rf.poll_ready rb_poll_ready Let_def split: if_splits)
      next
        case False
        then have "responder_step select (PrSelect a b) req resp = (PrGo (PrSelect a b), req', resp')"
          using s(1) by (simp only: if_not_P if_False)
        then have "pr_poll sel rq rp w req' resp' = Some y" using step eq by simp
        from IH [OF this] show ?thesis using s(2,3) eq unfolding P_def by simp
      qed
    qed
  qed
  then show ?thesis using ready unfolding P_def by (cases "responder_poll select (PrSelect a b) req resp") auto
qed

text \<open>What happens to a waiting responder while others use its buffers.\<close>

fun pr_while :: "selector \<Rightarrow> (rx_fifo \<times> response_buffer) list \<Rightarrow> pr_wait \<Rightarrow> pr_next" where
  "pr_while select [] w = PrGo w"
| "pr_while select ((req, resp) # states) w = (case fst (responder_step select w req resp) of
     PrGo w' \<Rightarrow> pr_while select states w' | PrPending \<Rightarrow> pr_while select states w | PrFetch b \<Rightarrow> PrFetch b)"

text \<open>
  C13: A responder can get stuck for good. When the priorities of the waiting requests and those at
  which a response fits have none in common, the loop of \<open>process_request\<close> asks only for the
  priorities it knows already: whatever becomes of the two buffers from one iteration to the next,
  it never fetches a request, also not of another priority. And as long as one of them is ready,
  the loop does not even yield: the poll of the task does not return.
\<close>

theorem responder_livelock:
  assumes "select_law select" "ps_is_empty (ps_and a b)"
  shows "pr_while select states (PrSelect a b) = PrGo (PrSelect a b) \<and>
    (\<not> ps_is_empty (ps_and (rf_pop_readiness req) a) \<longrightarrow> responder_poll select (PrSelect a b) req resp = None)"
proof
  show "pr_while select states (PrSelect a b) = PrGo (PrSelect a b)"
  proof (induction states)
    case (Cons x states)
    obtain req resp where x: "x = (req, resp)" by (cases x)
    obtain req' resp' where "responder_step select (PrSelect a b) req resp =
        (if fst (rf_poll_pop_readiness req a) = Pending \<and> fst (rb_poll_push_readiness resp b) = Pending
         then PrPending else PrGo (PrSelect a b), req', resp')"
      using select_stuck [OF assms] by blast
    then show ?case using Cons x by simp
  qed simp
  show "\<not> ps_is_empty (ps_and (rf_pop_readiness req) a) \<longrightarrow> responder_poll select (PrSelect a b) req resp = None"
    using select_never_returns [OF assms] by blast
qed

text \<open>
  A run that gets there: a request waits at the priority of the response that was not sent yet.
\<close>

definition sample_select :: selector where
  "sample_select = \<lparr> sl_stop = (\<lambda>a. a \<noteq> Pending), sl_pick = (\<lambda>a b. case a of Ready x \<Rightarrow> Ready (Inl x)
     | Pending \<Rightarrow> (case b of Ready y \<Rightarrow> Ready (Inr y) | Pending \<Rightarrow> Pending)) \<rparr>"

definition sample_request :: "u8 list \<Rightarrow> frame" where
  "sample_request bytes = \<lparr> f_header = \<lparr> h_priority = Nominal, h_data_spec = Request (ServiceId 7),
      h_source = Some (NodeId 3), h_destination = Some (NodeId 9) \<rparr>,
    f_data = projr (data_new bytes), f_timestamp = 5, f_loop_back = False \<rparr>"

definition sample_req :: "rx_fifo exec" where
  "sample_req = do {
     req \<leftarrow> rf_new ex_params (Request (ServiceId 7)) 2 [[0], [0], [0]];
     rf_push_frame ex_params req (sample_request [5, 0xE0])
   }"

definition sample_responder :: "(rx_fifo \<times> response_buffer) exec" where
  "sample_responder = do {
     req \<leftarrow> sample_req;
     resp \<leftarrow> rb_new (ServiceId 7) (replicate 8 [0]);
     (_, resp) \<leftarrow> rb_get_scratchpad resp;
     (_, resp) \<leftarrow> rb_try_push resp (sample_meta (Some (NodeId 3))) 1 (TransferCrc 0);
     ret (req, resp)
   }"

definition sample_waits :: "(pr_wait \<times> rx_fifo \<times> response_buffer) exec" where
  "sample_waits = do {
     (req, resp) \<leftarrow> sample_responder;
     (case responder_step sample_select PrReq req resp of
        (PrGo w, req, resp) \<Rightarrow> (case responder_step sample_select w req resp of
            (PrGo w, req, resp) \<Rightarrow> ret (w, req, resp)
          | _ \<Rightarrow> panic)
      | _ \<Rightarrow> panic)
   }"

lemma sample_waits_stuck:
  "case sample_waits of None \<Rightarrow> False | Some (w, req, resp) \<Rightarrow> (case w of
     PrSelect a b \<Rightarrow> ps_is_empty (ps_and a b) \<and> \<not> ps_is_empty (ps_and (rf_pop_readiness req) a)
   | _ \<Rightarrow> False)"
  by code_simp

lemma responder_livelock_witness:
  "\<exists>req resp w req' resp'. sample_responder = Some (req, resp) \<and> sample_waits = Some (w, req', resp') \<and>
    responder_poll sample_select w req' resp' = None \<and> pr_while sample_select [(req', resp'), (req, resp)] w = PrGo w"
proof -
  obtain w req' resp' where w: "sample_waits = Some (w, req', resp')" by (cases sample_waits) (use sample_waits_stuck in auto)
  have "case w of PrSelect a b \<Rightarrow> ps_is_empty (ps_and a b) \<and> \<not> ps_is_empty (ps_and (rf_pop_readiness req') a) | _ \<Rightarrow> False"
    using sample_waits_stuck unfolding w by simp
  then obtain a b where ab: "w = PrSelect a b" "ps_is_empty (ps_and a b)" "\<not> ps_is_empty (ps_and (rf_pop_readiness req') a)"
    by (cases w) auto
  obtain req resp where "sample_responder = Some (req, resp)" using w by (auto simp: sample_waits_def split: bind_splits)
  moreover have "select_law sample_select" by (simp add: select_law_def sample_select_def split: poll.split)
  ultimately show ?thesis
    using w responder_livelock [OF _ ab(2), of sample_select "[(req', resp'), (req, resp)]" req' resp'] ab(1,3) by blast
qed

definition driver_op :: "tx_op \<Rightarrow> bool" where
  "driver_op op \<longleftrightarrow> (case op of TxSerialize f \<Rightarrow> False | TxPush meta len crc \<Rightarrow> False | _ \<Rightarrow> True)"

lemma rb_push_ready_iff:
  assumes "rb_rep service B resp A pad"
  shows "ps_contains (rb_push_readiness resp) p \<longleftrightarrow> A p = []"
  by (rule rb_repE [OF assms]) (use rb_ready_rep(2) in auto)

lemma driver_frees:
  "rb_rep service B resp A pad \<Longrightarrow> list_all driver_op ops \<Longrightarrow>
    \<exists>resp' A'. for_each rb.step ops resp = Some resp' \<and> rb_rep service B resp' A' pad \<and> (\<forall>p. A p = [] \<longrightarrow> A' p = [])"
proof (induction ops arbitrary: resp A)
  case (Cons op ops)
  have "\<exists>r1 A1. rb.step op resp = Some r1 \<and> rb_rep service B r1 A1 pad \<and> (\<forall>p. A p = [] \<longrightarrow> A1 p = [])"
  proof (cases op)
    case (TxPop pm m)
    obtain fr r1 A1 where r1: "rb_try_pop resp pm m = Some (fr, r1)" "rb_rep service B r1 A1 pad"
      "tx_popped (Response service) A pm m fr A1" using rb.pop_rep [OF Cons.prems(1)] by blast
    moreover have "A p = [] \<longrightarrow> A1 p = []" for p
      using r1(3) by (auto simp: tx_popped_def admitted_def split: option.splits)
    ultimately show ?thesis using TxPop by auto
  next
    case TxPollEmpty
    then show ?thesis using rb.poll_empty_rep [OF Cons.prems(1)] by auto
  next
    case (TxPollPush pm)
    then show ?thesis using rb.poll_push_rep [OF Cons.prems(1)] by auto
  qed (use Cons.prems(2) in \<open>simp_all add: driver_op_def\<close>)
  then obtain r1 A1 where r1: "rb.step op resp = Some r1" "rb_rep service B r1 A1 pad" "\<forall>p. A p = [] \<longrightarrow> A1 p = []"
    by blast
  have "list_all driver_op ops" using Cons.prems(2) by simp
  from Cons.IH [OF r1(2) this] r1(1,3) show ?case by auto
qed auto

lemma map_sum_Inr: "map_sum id f x = Inr y \<longleftrightarrow> (\<exists>z. x = Inr z \<and> y = f z)"
  by (cases x) auto

text \<open>
  C12: When the priorities do meet, a request is answered without a panic. Whatever the driver
  takes from the response buffer while the handler runs, the response is accepted: it goes to the
  node that asked, with the identifier and priority of the request and the deadline counted from
  its reception, and carries the serialized payload.
\<close>

theorem responder_answers:
  assumes "rf_rep P Bq req Aq" "rb_rep service B resp A pad"
    "\<forall>p. ps_contains b p \<longrightarrow> ps_contains (rb_push_readiness resp) p"
    "pr_fetch deserialize (rf_try_pop P) req b = Some (Some t, req')" "tm_address (tr_meta t) = Some client"
    "list_all driver_op ops" "serializes ser size_bits B payload bytes"
  shows "\<exists>resp1 resp2 A1 buffer. for_each rb.step ops resp = Some resp1 \<and>
    pr_respond sadd (ep_try_push rb_get_scratchpad rb_write_scratchpad rb_try_push ser size_bits) timeout t payload resp1 = Some resp2 \<and>
    take (length bytes) buffer = bytes \<and> A1 (tm_priority (tr_meta t)) = [] \<and>
    rb_rep service B resp2 (A1(tm_priority (tr_meta t) := [tx_item_of
      \<lparr> tm_priority = tm_priority (tr_meta t), tm_address = Some client,
       tm_transfer_id = tm_transfer_id (tr_meta t), tm_timestamp = sadd (tm_timestamp (tr_meta t)) timeout, tm_loop_back = False \<rparr>
      (Some client) buffer (length bytes) (crc_add_bytes crc_default bytes)])) None"
proof -
  let ?meta = "pr_meta sadd timeout (tr_meta t)" and ?p = "tm_priority (tr_meta t)"
  obtain item req1 A1 where pop: "rf_try_pop P req b = Some (item, req1)" "rx_popped Aq b item A1"
    using rf.pop_rep [OF assms(1)] by blast
  then obtain meta bs where item: "item = Some (meta, bs)" "tr_meta t = meta"
    using assms(4) by (cases item) (auto simp: pr_fetch_def rx_try_pop_def map_sum_Inr split: sum.splits)
  then obtain p where p: "ps_contains b p" "(meta, bs) \<in> set (Aq p)"
    using pop(2) by (auto simp: rx_popped_def admitted_def intro: list.set_sel(1))
  have "tm_priority meta = p" using rf_rep_bounds(2) [OF assms(1) p(2)] by simp
  then have "ps_contains (rb_push_readiness resp) ?p" using assms(3) p(1) item(2) by simp
  then have free: "A ?p = []" using rb_push_ready_iff [OF assms(2)] by simp
  obtain resp1 A1 where r1: "for_each rb.step ops resp = Some resp1" "rb_rep service B resp1 A1 pad" "A1 ?p = []"
    using driver_frees [OF assms(2,6)] free by blast
  have "ps_contains (rb_push_readiness resp1) (tm_priority ?meta)"
    using rb_push_ready_iff [OF r1(2)] r1(3) by (simp add: pr_meta_def)
  moreover have "resp_address ?meta = Inr (Some client)" using assms(5) by (simp add: resp_address_def pr_meta_def)
  ultimately obtain resp2 buffer where r2: "ep_try_push rb_get_scratchpad rb_write_scratchpad rb_try_push ser size_bits
      resp1 ?meta payload = Some (Inr (), resp2)" "take (length bytes) buffer = bytes"
    "rb_rep service B resp2 (append_item A1 (tm_priority ?meta) (tx_item_of ?meta (Some client) buffer
      (length bytes) (crc_add_bytes crc_default bytes))) None"
    using rb.endpoint_push [OF r1(2) assms(7)] by blast
  have "?meta = \<lparr> tm_priority = tm_priority (tr_meta t), tm_address = Some client,
       tm_transfer_id = tm_transfer_id (tr_meta t), tm_timestamp = sadd (tm_timestamp (tr_meta t)) timeout, tm_loop_back = False \<rparr>"
    using assms(5) by (simp add: pr_meta_def)
  moreover have "tm_priority ?meta = ?p" by (simp add: pr_meta_def)
  moreover have "pr_respond sadd (ep_try_push rb_get_scratchpad rb_write_scratchpad rb_try_push ser size_bits) timeout t
      payload resp1 = Some resp2" using r2(1) by (simp add: pr_respond_def)
  ultimately show ?thesis using r1(1,3) r2(2,3) by (auto simp: append_item_def)
qed

lemma sample_request_wf: "frame_wf (sample_request [5, 0xE0])"
  by (simp add: frame_wf_def sample_request_def node_id_wf_def node_id_MAX_VALUE_def) code_simp

lemma sample_req_rep: "\<exists>req A. sample_req = Some req \<and> rf_rep ex_params 1 req A"
proof -
  obtain st where st: "rf_new ex_params (Request (ServiceId 7)) 2 [[0], [0], [0]] = Some st" "rf_rep ex_params 1 st (\<lambda>p. [])"
    using rf_new_rep [of "[[0], [0], [0]]" ex_params 1 "Request (ServiceId 7)" 2] by (auto simp: ex_params_def)
  then show ?thesis using rf_push_frame_rep [OF st(2) sample_request_wf] by (auto simp: sample_req_def)
qed

lemma sample_fetch:
  "case sample_req of None \<Rightarrow> False | Some req \<Rightarrow>
     (case pr_fetch (Inr :: u8 list \<Rightarrow> unit + u8 list) (rf_try_pop ex_params) req ps_ALL of None \<Rightarrow> False
      | Some (t, req') \<Rightarrow> (case t of None \<Rightarrow> False | Some t \<Rightarrow> tm_address (tr_meta t) = Some (NodeId 3)))"
  by code_simp

lemma responder_answers_witness:
  "\<exists>req t req' resp resp1 resp2. sample_req = Some req \<and>
    pr_fetch (Inr :: u8 list \<Rightarrow> unit + u8 list) (rf_try_pop ex_params) req ps_ALL = Some (Some t, req') \<and>
    rb_new (ServiceId 7) (replicate 8 [0]) = Some resp \<and>
    for_each rb.step [TxPop ps_ALL Classic, TxPollEmpty] resp = Some resp1 \<and>
    pr_respond (+) (ep_try_push rb_get_scratchpad rb_write_scratchpad rb_try_push raw_ser raw_bits) 5 t [6] resp1 = Some resp2"
proof -
  obtain req A where req: "sample_req = Some req" "rf_rep ex_params 1 req A" using sample_req_rep by blast
  have "case pr_fetch (Inr :: u8 list \<Rightarrow> unit + u8 list) (rf_try_pop ex_params) req ps_ALL of None \<Rightarrow> False
      | Some (t, req') \<Rightarrow> (case t of None \<Rightarrow> False | Some t \<Rightarrow> tm_address (tr_meta t) = Some (NodeId 3))"
    using sample_fetch unfolding req(1) by simp
  then obtain t req' where t: "pr_fetch (Inr :: u8 list \<Rightarrow> unit + u8 list) (rf_try_pop ex_params) req ps_ALL = Some (Some t, req')"
    "tm_address (tr_meta t) = Some (NodeId 3)" by (auto split: option.splits)
  obtain resp where resp: "rb_new (ServiceId 7) (replicate 8 [0]) = Some resp" "rb_rep (ServiceId 7) 1 resp (\<lambda>p. []) None"
    using rb_new_rep [of "replicate 8 [0]" 1 "ServiceId 7"] by (auto simp: rb_BUFFER_COUNT_def)
  have "\<forall>p. ps_contains ps_ALL p \<longrightarrow> ps_contains (rb_push_readiness resp) p"
    using rb_push_ready_iff [OF resp(2)] by simp
  from responder_answers [OF req(2) resp(2) this t, of "[TxPop ps_ALL Classic, TxPollEmpty]" raw_ser raw_bits "[6]" "[6]" "(+)" 5]
  show ?thesis using req(1) t(1) resp(1) raw_serializes [of "[6]" 1] by (auto simp: driver_op_def)
qed

lemma subscriber_skips_errors_witness:
  "\<exists>req st' st'' res. sample_req = Some req \<and>
    sub_try_pop (Inr :: u8 list \<Rightarrow> unit + u8 list) (rf_try_pop ex_params) req = Some (res, st') \<and>
    sub_poll_pop (Inr :: u8 list \<Rightarrow> unit + u8 list) rf_poll_pop_readiness (rf_try_pop ex_params) req =
      Some (case res of None \<Rightarrow> Pending | Some p \<Rightarrow> Ready p, st'')"
proof -
  obtain req A where req: "sample_req = Some req" "rf_rep ex_params 1 req A" using sample_req_rep by blast
  show ?thesis
    using subscriber_skips_errors [OF req(2), of "Inr :: u8 list \<Rightarrow> unit + u8 list"] req(1)
    by (cases "find (\<lambda>i. True) (in_order A)") auto
qed

end
