(* ===== verification/Nodes.thy ===== *)
theory Nodes
  imports Rx_Requests Rx_Loop_Back Tx_Registry_Specs Socket_Specs
begin

text \<open>
  The nodes of \<open>emcyphal/src/node\<close>: four registries between the driver and the endpoints. The
  driver sees a node as a source of filter updates, a sink of received frames and a source of
  frames to send; the endpoints see its registries.
\<close>

section \<open>The core node\<close>

text \<open>The operations on the buffers behind the registries.\<close>

record ('m, 'q, 'p, 'r) node_buffers =
  nb_push_message :: "'m \<Rightarrow> frame \<Rightarrow> mtu \<Rightarrow> 'm exec"
  nb_push_request :: "'q \<Rightarrow> frame \<Rightarrow> mtu \<Rightarrow> 'q exec"
  nb_tx_message :: "'p tx_vtable"
  nb_tx_response :: "'r tx_vtable"

record ('m, 'q, 'p, 'r) hubs =
  hb_rx_msg :: "'m msg_registry"
  hb_rx_req :: "'q rx_req_inner"
  hb_tx_msg :: "'p tx_msg_inner"
  hb_tx_resp :: "'r tx_resp_inner"

definition hb_new :: "nat \<Rightarrow> ('m, 'q, 'p, 'r) hubs" where
  "hb_new subject_slot_count = \<lparr> hb_rx_msg = mr_new subject_slot_count, hb_rx_req = rq_default,
     hb_tx_msg = mx_default, hb_tx_resp = sx_default \<rparr>"

record ('m, 'q, 'p, 'r) core_node =
  cn_address :: node_id
  cn_destination_added :: bool
  cn_hubs :: "('m, 'q, 'p, 'r) hubs"

definition cn_new :: "node_id \<Rightarrow> nat \<Rightarrow> ('m, 'q, 'p, 'r) core_node" where
  "cn_new address subject_slot_count =
     \<lparr> cn_address = address, cn_destination_added = False, cn_hubs = hb_new subject_slot_count \<rparr>"

text \<open>\<open>DynamicRxFilter::poll_pop\<close>, \<open>DynamicRx::poll_push\<close> and \<open>DynamicTx::poll_pop\<close>.\<close>

definition cn_filter_poll_pop ::
  "('m, 'q, 'p, 'r) core_node \<Rightarrow> (filter_update poll \<times> ('m, 'q, 'p, 'r) core_node) exec" where
  "cn_filter_poll_pop cn =
     (if \<not> cn_destination_added cn
      then ret (Ready (AddDestination (cn_address cn)), cn\<lparr> cn_destination_added := True \<rparr>)
      else do {
        (res, rx_msg) \<leftarrow> mr_poll_pop (hb_rx_msg (cn_hubs cn));
        ret (res, cn\<lparr> cn_hubs := (cn_hubs cn)\<lparr> hb_rx_msg := rx_msg \<rparr> \<rparr>)
      })"

definition cn_poll_push ::
  "('m, 'q, 'p, 'r) node_buffers \<Rightarrow> ('m, 'q, 'p, 'r) core_node \<Rightarrow> frame \<Rightarrow> mtu \<Rightarrow>
    (unit poll \<times> ('m, 'q, 'p, 'r) core_node) exec" where
  "cn_poll_push B cn frame mtu = (case (h_data_spec (f_header frame), f_loop_back frame) of
     (Message _, _) \<Rightarrow> do {
       (res, rx_msg) \<leftarrow> mr_poll_push (nb_push_message B) (hb_rx_msg (cn_hubs cn)) frame mtu;
       ret (res, cn\<lparr> cn_hubs := (cn_hubs cn)\<lparr> hb_rx_msg := rx_msg \<rparr> \<rparr>)
     }
   | (Request _, False) \<Rightarrow>
       if h_destination (f_header frame) = Some (cn_address cn) then do {
         (res, rx_req) \<leftarrow> rq_poll_push (nb_push_request B) (hb_rx_req (cn_hubs cn)) frame mtu;
         ret (res, cn\<lparr> cn_hubs := (cn_hubs cn)\<lparr> hb_rx_req := rx_req \<rparr> \<rparr>)
       } else ret (Ready (), cn)
   | _ \<Rightarrow> ret (Ready (), cn))"

definition with_source :: "node_id \<Rightarrow> frame \<Rightarrow> frame" where
  "with_source address frame = frame\<lparr> f_header := (f_header frame)\<lparr> h_source := Some address \<rparr> \<rparr>"

definition cn_tx_poll_pop ::
  "('m, 'q, 'p, 'r) node_buffers \<Rightarrow> ('m, 'q, 'p, 'r) core_node \<Rightarrow> priority_set \<Rightarrow> mtu \<Rightarrow>
    (frame poll \<times> ('m, 'q, 'p, 'r) core_node) exec" where
  "cn_tx_poll_pop B cn priority_mask mtu = do {
     (res, tx_msg) \<leftarrow> mx_poll_pop (nb_tx_message B) (hb_tx_msg (cn_hubs cn)) priority_mask mtu;
     let cn = cn\<lparr> cn_hubs := (cn_hubs cn)\<lparr> hb_tx_msg := tx_msg \<rparr> \<rparr>;
     (case res of
        Ready frame \<Rightarrow> ret (Ready (with_source (cn_address cn) frame), cn)
      | Pending \<Rightarrow> do {
          (res, tx_resp) \<leftarrow> sx_poll_pop (nb_tx_response B) (hb_tx_resp (cn_hubs cn)) priority_mask mtu;
          let cn = cn\<lparr> cn_hubs := (cn_hubs cn)\<lparr> hb_tx_resp := tx_resp \<rparr> \<rparr>;
          (case res of
             Ready frame \<Rightarrow> ret (Ready (with_source (cn_address cn) frame), cn)
           | Pending \<Rightarrow> ret (Pending, cn))
        })
   }"

section \<open>The minimal node\<close>

datatype health = Nominal_health | Advisory | Caution | Warning

datatype mode = Operational | Initialization | Maintenance | SoftwareUpdate

record status =
  st_health :: health
  st_mode :: mode
  st_vendor_specific_code :: u8

definition status_default :: status where
  "status_default = \<lparr> st_health = Nominal_health, st_mode = Operational, st_vendor_specific_code = 0 \<rparr>"

record ('m, 'q, 'p, 'r) node_state =
  ns_address :: node_id
  ns_destination_added :: bool
  ns_status :: status
  ns_hubs :: "('m, 'q, 'p, 'r) hubs"

definition ns_new :: "node_id \<Rightarrow> status \<Rightarrow> nat \<Rightarrow> ('m, 'q, 'p, 'r) node_state" where
  "ns_new address status subject_slot_count = \<lparr> ns_address = address, ns_destination_added = False,
     ns_status = status, ns_hubs = hb_new subject_slot_count \<rparr>"

definition ns_get_status :: "('m, 'q, 'p, 'r) node_state \<Rightarrow> status" where
  "ns_get_status ns = ns_status ns"

definition ns_set_status :: "('m, 'q, 'p, 'r) node_state \<Rightarrow> status \<Rightarrow> ('m, 'q, 'p, 'r) node_state" where
  "ns_set_status ns status = ns\<lparr> ns_status := status \<rparr>"

definition ns_filter_poll_pop ::
  "('m, 'q, 'p, 'r) node_state \<Rightarrow> (filter_update poll \<times> ('m, 'q, 'p, 'r) node_state) exec" where
  "ns_filter_poll_pop ns =
     (if \<not> ns_destination_added ns
      then ret (Ready (AddDestination (ns_address ns)), ns\<lparr> ns_destination_added := True \<rparr>)
      else do {
        (res, rx_msg) \<leftarrow> mr_poll_pop (hb_rx_msg (ns_hubs ns));
        ret (res, ns\<lparr> ns_hubs := (ns_hubs ns)\<lparr> hb_rx_msg := rx_msg \<rparr> \<rparr>)
      })"

definition ns_poll_push ::
  "('m, 'q, 'p, 'r) node_buffers \<Rightarrow> ('m, 'q, 'p, 'r) node_state \<Rightarrow> frame \<Rightarrow> mtu \<Rightarrow>
    (unit poll \<times> ('m, 'q, 'p, 'r) node_state) exec" where
  "ns_poll_push B ns frame mtu = (case (h_data_spec (f_header frame), f_loop_back frame) of
     (Message _, _) \<Rightarrow> do {
       (res, rx_msg) \<leftarrow> mr_poll_push (nb_push_message B) (hb_rx_msg (ns_hubs ns)) frame mtu;
       ret (res, ns\<lparr> ns_hubs := (ns_hubs ns)\<lparr> hb_rx_msg := rx_msg \<rparr> \<rparr>)
     }
   | (Request _, False) \<Rightarrow>
       if h_destination (f_header frame) = Some (ns_address ns) then do {
         (res, rx_req) \<leftarrow> rq_poll_push (nb_push_request B) (hb_rx_req (ns_hubs ns)) frame mtu;
         ret (res, ns\<lparr> ns_hubs := (ns_hubs ns)\<lparr> hb_rx_req := rx_req \<rparr> \<rparr>)
       } else ret (Ready (), ns)
   | _ \<Rightarrow> ret (Ready (), ns))"

definition ns_tx_poll_pop ::
  "('m, 'q, 'p, 'r) node_buffers \<Rightarrow> ('m, 'q, 'p, 'r) node_state \<Rightarrow> priority_set \<Rightarrow> mtu \<Rightarrow>
    (frame poll \<times> ('m, 'q, 'p, 'r) node_state) exec" where
  "ns_tx_poll_pop B ns priority_mask mtu = do {
     (res, tx_msg) \<leftarrow> mx_poll_pop (nb_tx_message B) (hb_tx_msg (ns_hubs ns)) priority_mask mtu;
     let ns = ns\<lparr> ns_hubs := (ns_hubs ns)\<lparr> hb_tx_msg := tx_msg \<rparr> \<rparr>;
     (case res of
        Ready frame \<Rightarrow> ret (Ready (with_source (ns_address ns) frame), ns)
      | Pending \<Rightarrow> do {
          (res, tx_resp) \<leftarrow> sx_poll_pop (nb_tx_response B) (hb_tx_resp (ns_hubs ns)) priority_mask mtu;
          let ns = ns\<lparr> ns_hubs := (ns_hubs ns)\<lparr> hb_tx_resp := tx_resp \<rparr> \<rparr>;
          (case res of
             Ready frame \<Rightarrow> ret (Ready (with_source (ns_address ns) frame), ns)
           | Pending \<Rightarrow> ret (Pending, ns))
        })
   }"

text \<open>
  The background task: once a period it publishes a heartbeat. The uptime saturates at the
  greatest \<open>u32\<close>; a push that is refused would panic. The clock counts in seconds with \<open>as_secs\<close>.
\<close>

record heartbeat =
  hbt_uptime :: u32
  hbt_health :: health
  hbt_mode :: mode
  hbt_vendor_specific_status_code :: u8

definition u32_saturating :: "u64 \<Rightarrow> u32" where
  "u32_saturating n = (if n \<le> 0xFFFFFFFF then ucast n else 0xFFFFFFFF)"

definition rn_message :: "(instant \<Rightarrow> u64) \<Rightarrow> status \<Rightarrow> instant \<Rightarrow> heartbeat" where
  "rn_message as_secs status now =
     \<lparr> hbt_uptime = u32_saturating (as_secs now), hbt_health = st_health status, hbt_mode = st_mode status,
       hbt_vendor_specific_status_code = st_vendor_specific_code status \<rparr>"

definition rn_tick ::
  "(instant \<Rightarrow> u64) \<Rightarrow> (publisher \<Rightarrow> 's \<Rightarrow> instant \<Rightarrow> heartbeat \<Rightarrow> ((message_error + unit) \<times> publisher \<times> 's) exec) \<Rightarrow>
    status \<Rightarrow> instant \<Rightarrow> publisher \<times> 's \<Rightarrow> (publisher \<times> 's) exec" where
  "rn_tick as_secs try_push status now = (\<lambda>(heartbeat_pub, s). do {
     (res, heartbeat_pub, s) \<leftarrow> try_push heartbeat_pub s now (rn_message as_secs status now);
     (case res of Inr _ \<Rightarrow> ret (heartbeat_pub, s) | Inl _ \<Rightarrow> panic)
   })"

definition heartbeat_SUBJECT :: subject_id where
  "heartbeat_SUBJECT = SubjectId 7509"

text \<open>\<open>RunnerState::make_runner\<close> makes the publisher of the heartbeats.\<close>

definition rn_publisher :: "duration \<Rightarrow> publisher" where
  "rn_publisher timeout = pb_create Nominal timeout False"

end
