(* ===== verification/Node_Run.thy ===== *)
theory Node_Run
  imports Nodes
begin

text \<open>
  A node at work: endpoints and driver come in any order, one lock of a registry at a time. Every
  state that is reached keeps the registries in order, and no step fails.
\<close>

section \<open>Steps of the registries\<close>

datatype 'b lb_op = LbRegister ptr subject_id 'b | LbUnregister ptr | LbBuffer ptr "'b \<Rightarrow> 'b exec"
  | LbPushStart subject_id | LbPushNext frame mtu

fun lb_step :: "('b \<Rightarrow> frame \<Rightarrow> mtu \<Rightarrow> 'b exec) \<Rightarrow> 'b lb_op \<Rightarrow> 'b loop_back_inner \<Rightarrow> 'b loop_back_inner exec" where
  "lb_step push_frame (LbRegister p s b) st = do {
     (res, st) \<leftarrow> li_reg_register (st\<lparr> li_entries := (li_entries st)(p \<mapsto> me_new s b) \<rparr>) p;
     ret (case res of Inl _ \<Rightarrow> st\<lparr> li_entries := (li_entries st)(p := None) \<rparr> | Inr _ \<Rightarrow> st)
   }"
| "lb_step push_frame (LbUnregister p) st = li_reg_unregister st p"
| "lb_step push_frame (LbBuffer p f) st = do {
     (_, st) \<leftarrow> li_with_buffer_mut st p (\<lambda>b. do { b \<leftarrow> f b; ret ((), b) });
     ret st
   }"
| "lb_step push_frame (LbPushStart s) st = do { (_, st) \<leftarrow> li_hub_push_start st s; ret st }"
| "lb_step push_frame (LbPushNext frame mtu) st = do { (_, st) \<leftarrow> li_hub_push_next push_frame st frame mtu; ret st }"

fun lb_ok :: "('b \<Rightarrow> bool) \<Rightarrow> 'b lb_op \<Rightarrow> 'b loop_back_inner \<Rightarrow> bool" where
  "lb_ok ok (LbRegister p s b) st = (li_entries st p = None \<and> ok b)"
| "lb_ok ok (LbUnregister p) st = (li_entries st p \<noteq> None)"
| "lb_ok ok (LbBuffer p f) st = (li_entries st p \<noteq> None \<and> (\<forall>b. ok b \<longrightarrow> (\<exists>b'. f b = Some b' \<and> ok b')))"
| "lb_ok ok (LbPushStart s) st = True"
| "lb_ok ok (LbPushNext frame mtu) st = frame_wf frame"

datatype 'b rr_op = RrRegister ptr service_id 'b | RrUnregister ptr | RrBuffer ptr "'b \<Rightarrow> 'b exec"

fun rr_step :: "'b rr_op \<Rightarrow> 'b rx_req_inner \<Rightarrow> 'b rx_req_inner exec" where
  "rr_step (RrRegister p s b) st = do {
     (res, st) \<leftarrow> rq_register (rq_entry_new st p s b) p False;
     ret (case res of Inl _ \<Rightarrow> st\<lparr> rq_entries := (rq_entries st)(p := None) \<rparr> | Inr _ \<Rightarrow> st)
   }"
| "rr_step (RrUnregister p) st = rq_unregister st p"
| "rr_step (RrBuffer p f) st = do {
     (_, st) \<leftarrow> rq_with_buffer_mut st p (\<lambda>b. do { b \<leftarrow> f b; ret ((), b) });
     ret st
   }"

fun rr_ok :: "('b \<Rightarrow> bool) \<Rightarrow> 'b rr_op \<Rightarrow> 'b rx_req_inner \<Rightarrow> bool" where
  "rr_ok ok (RrRegister p s b) st = (rq_entries st p = None \<and> ok b)"
| "rr_ok ok (RrUnregister p) st = (rq_entries st p \<noteq> None)"
| "rr_ok ok (RrBuffer p f) st = (rq_entries st p \<noteq> None \<and> (\<forall>b. ok b \<longrightarrow> (\<exists>b'. f b = Some b' \<and> ok b')))"

lemma li_push_start_inv:
  assumes inv: "li_inv ok st"
  shows "\<exists>b st'. li_hub_push_start st s = Some (b, st') \<and> li_inv ok st'"
proof (cases "lower_bound (entry_subject (li_entries st)) s (li_entry_tree st)")
  case None
  then have "li_hub_push_start st s = Some (False, st\<lparr> li_next_push_ptr := None \<rparr>)"
    by (simp add: li_hub_push_start_def)
  then show ?thesis using li_inv_ptr [OF inv, of None] by blast
next
  case (Some p)
  obtain ys zs where t: "li_entry_tree st = ys @ p # zs" using lower_bound_split [OF Some] by blast
  then have "p \<in> dom (li_entries st)" using li_invD(2) [OF inv] by auto
  then obtain e where e: "li_entries st p = Some e" by blast
  have "li_inv ok (st\<lparr> li_next_push_ptr := n \<rparr>)" if "n = None \<or> n = Some p" for n
    using li_inv_ptr [OF inv, of n] that t by auto
  then show ?thesis using Some e by (simp add: li_hub_push_start_def)
qed

lemma lb_step_total:
  assumes inv: "li_inv ok st" and op: "lb_ok ok op st"
    and push: "\<And>f m. frame_wf f \<Longrightarrow> takes_frame ok push_frame f m (\<lambda>b. the (push_frame b f m))"
  shows "\<exists>st'. lb_step push_frame op st = Some st' \<and> li_inv ok st'"
proof (cases op)
  case (LbRegister p s b)
  then show ?thesis using li_register_inv [OF inv, of p b s] op by auto
next
  case (LbUnregister p)
  then show ?thesis using li_unregister_inv [OF inv] op by auto
next
  case (LbBuffer p f)
  then obtain e where e: "li_entries st p = Some e" using op by auto
  then obtain b where b: "f (me_buffer e) = Some b" "ok b" using op LbBuffer li_invD(6) [OF inv e] by auto
  have "(do { x \<leftarrow> f (me_buffer e); ret ((), x) }) = Some ((), b)" using b(1) by simp
  then show ?thesis
    using li_buffer_inv [where f = "\<lambda>b. do { b \<leftarrow> f b; ret ((), b) }", OF inv e _ b(2)] LbBuffer by auto
next
  case (LbPushStart s)
  then show ?thesis using li_push_start_inv [OF inv, of s] by auto
next
  case (LbPushNext frame mtu)
  then have g: "takes_frame ok push_frame frame mtu (\<lambda>b. the (push_frame b frame mtu))" using op push by simp
  show ?thesis
  proof (cases "li_next_push_ptr st")
    case None
    then show ?thesis using inv LbPushNext by (simp add: li_hub_push_next_def)
  next
    case (Some p)
    obtain xs ys where t: "li_entry_tree st = xs @ p # ys"
      using li_invD(4) [OF inv Some] by (meson split_list)
    obtain st' where "li_hub_push_next push_frame st frame mtu = Some (ys \<noteq> [], st')" "li_inv ok st'"
      by (rule li_push_at [OF g inv Some t])
    then show ?thesis using LbPushNext by simp
  qed
qed

lemma rr_step_total:
  assumes inv: "rq_inv ok st" and op: "rr_ok ok op st"
  shows "\<exists>st'. rr_step op st = Some st' \<and> rq_inv ok st'"
proof (cases op)
  case (RrRegister p s b)
  then have p: "rq_entries st p = None" "ok b" using op by simp_all
  obtain res st' where r: "rq_register (rq_entry_new st p s b) p False = Some (res, st')"
    "case res of
       Inl e \<Rightarrow> e = DataSpecifierOccupied \<and> st' = rq_entry_new st p s b \<and>
         (\<exists>q e. rq_entries st q = Some e \<and> rqe_service e = s)
     | Inr q \<Rightarrow> q = p \<and> rq_inv ok st' \<and> rq_entries st' = rq_entries (rq_entry_new st p s b) \<and>
         (\<forall>q e. rq_entries st q = Some e \<longrightarrow> rqe_service e \<noteq> s)" using rq_register_inv [OF inv p] by blast
  have "(rq_entry_new st p s b)\<lparr> rq_entries := (rq_entries (rq_entry_new st p s b))(p := None) \<rparr> = st"
    using p(1) by (simp add: rq_entry_new_def fun_upd_idem)
  then show ?thesis using r RrRegister inv by (cases res) auto
next
  case (RrUnregister p)
  then show ?thesis using rq_unregister_inv [OF inv] op by auto
next
  case (RrBuffer p f)
  then obtain e where e: "rq_entries st p = Some e" using op by auto
  then obtain b where b: "f (rqe_buffer e) = Some b" "ok b" using op RrBuffer rq_invD(4) [OF inv e] by auto
  have "(do { x \<leftarrow> f (rqe_buffer e); ret ((), x) }) = Some ((), b)" using b(1) by simp
  then show ?thesis
    using rq_buffer_inv [where f = "\<lambda>b. do { b \<leftarrow> f b; ret ((), b) }", OF inv e _ b(2)] RrBuffer by auto
qed

section \<open>Steps of a node\<close>

datatype ('m, 'q, 'p, 'r) node_op = NdRegular "'m rg_op" | NdLoopBack "'m lb_op" | NdRequest "'q rr_op"
  | NdPublisher "(subject_id, 'p) tx_reg_op" | NdResponder "(unit, 'r) tx_reg_op"
  | NdFilter | NdPush frame mtu | NdPop priority_set mtu

text \<open>The subjects and the destinations that the driver filters for.\<close>

type_synonym node_filter = "subject_id set \<times> node_id set"

fun apply_filter :: "filter_update \<Rightarrow> node_filter \<Rightarrow> node_filter" where
  "apply_filter (AddDestination n) (F, D) = (F, insert n D)"
| "apply_filter (RemoveDestinationRange a b) (F, D) = (F, Set.filter (\<lambda>n. \<not> (a \<le> n \<and> n \<le> b)) D)"
| "apply_filter u (F, D) = (apply_update u F, D)"

fun cn_step ::
  "('m, 'q, 'p, 'r) node_buffers \<Rightarrow> ('m, 'q, 'p, 'r) node_op \<Rightarrow> ('m, 'q, 'p, 'r) core_node \<times> node_filter \<Rightarrow>
    (('m, 'q, 'p, 'r) core_node \<times> node_filter) exec" where
  "cn_step B (NdRegular op) (cn, F, D) = do {
     (inner, F) \<leftarrow> rg_step (nb_push_message B) op (mr_regular (hb_rx_msg (cn_hubs cn)), F);
     ret (cn\<lparr> cn_hubs := (cn_hubs cn)\<lparr> hb_rx_msg := (hb_rx_msg (cn_hubs cn))\<lparr> mr_regular := inner \<rparr> \<rparr> \<rparr>, F, D)
   }"
| "cn_step B (NdLoopBack op) (cn, F, D) = do {
     inner \<leftarrow> lb_step (nb_push_message B) op (mr_loop_back (hb_rx_msg (cn_hubs cn)));
     ret (cn\<lparr> cn_hubs := (cn_hubs cn)\<lparr> hb_rx_msg := (hb_rx_msg (cn_hubs cn))\<lparr> mr_loop_back := inner \<rparr> \<rparr> \<rparr>, F, D)
   }"
| "cn_step B (NdRequest op) (cn, F, D) = do {
     inner \<leftarrow> rr_step op (hb_rx_req (cn_hubs cn));
     ret (cn\<lparr> cn_hubs := (cn_hubs cn)\<lparr> hb_rx_req := inner \<rparr> \<rparr>, F, D)
   }"
| "cn_step B (NdPublisher op) (cn, F, D) = do {
     inner \<leftarrow> mx_step (nb_tx_message B) op (hb_tx_msg (cn_hubs cn));
     ret (cn\<lparr> cn_hubs := (cn_hubs cn)\<lparr> hb_tx_msg := inner \<rparr> \<rparr>, F, D)
   }"
| "cn_step B (NdResponder op) (cn, F, D) = do {
     inner \<leftarrow> sx_step (nb_tx_response B) op (hb_tx_resp (cn_hubs cn));
     ret (cn\<lparr> cn_hubs := (cn_hubs cn)\<lparr> hb_tx_resp := inner \<rparr> \<rparr>, F, D)
   }"
| "cn_step B NdFilter (cn, F, D) = do {
     (res, cn) \<leftarrow> cn_filter_poll_pop cn;
     ret (cn, case res of Ready u \<Rightarrow> apply_filter u (F, D) | Pending \<Rightarrow> (F, D))
   }"
| "cn_step B (NdPush frame mtu) (cn, F, D) = do { (_, cn) \<leftarrow> cn_poll_push B cn frame mtu; ret (cn, F, D) }"
| "cn_step B (NdPop pm mtu) (cn, F, D) = do { (_, cn) \<leftarrow> cn_tx_poll_pop B cn pm mtu; ret (cn, F, D) }"

section \<open>The buffers of the stack\<close>

type_synonym dyn_node = "(rx_dyn, rx_dyn, tx_msg_dyn, response_buffer) core_node"
type_synonym dyn_op = "(rx_dyn, rx_dyn, tx_msg_dyn, response_buffer) node_op"

definition dyn_buffers :: "(rx_dyn, rx_dyn, tx_msg_dyn, response_buffer) node_buffers" where
  "dyn_buffers = \<lparr> nb_push_message = dyn_push_frame, nb_push_request = dyn_push_frame,
     nb_tx_message = dm_vt, nb_tx_response = rb_vt \<rparr>"

lemma dyn_buffers_sel [simp]:
  "nb_push_message dyn_buffers = dyn_push_frame" "nb_push_request dyn_buffers = dyn_push_frame"
  "nb_tx_message dyn_buffers = dm_vt" "nb_tx_response dyn_buffers = rb_vt"
  by (simp_all add: dyn_buffers_def)

fun cn_ok :: "dyn_op \<Rightarrow> dyn_node \<Rightarrow> bool" where
  "cn_ok (NdRegular op) cn = (op \<noteq> RgPollFilter \<and> rg_ok dyn_ok op (mr_regular (hb_rx_msg (cn_hubs cn))))"
| "cn_ok (NdLoopBack op) cn = lb_ok dyn_ok op (mr_loop_back (hb_rx_msg (cn_hubs cn)))"
| "cn_ok (NdRequest op) cn = rr_ok dyn_ok op (hb_rx_req (cn_hubs cn))"
| "cn_ok (NdPublisher op) cn = msg_ok op (hb_tx_msg (cn_hubs cn))"
| "cn_ok (NdResponder op) cn = tr_ok rb_ok rb_capacity rb_lent op (sx_queue (hb_tx_resp (cn_hubs cn)))"
| "cn_ok NdFilter cn = True"
| "cn_ok (NdPush frame mtu) cn = frame_wf frame"
| "cn_ok (NdPop pm mtu) cn = True"

inductive cn_reach :: "node_id \<Rightarrow> nat \<Rightarrow> dyn_node \<times> node_filter \<Rightarrow> bool" for address slots where
  cn_start: "cn_reach address slots (cn_new address slots, {}, {})"
| cn_next: "cn_reach address slots (cn, F, D) \<Longrightarrow> cn_ok op cn \<Longrightarrow> cn_step dyn_buffers op (cn, F, D) = Some x \<Longrightarrow>
    cn_reach address slots x"

definition cn_inv :: "node_id \<Rightarrow> dyn_node \<times> node_filter \<Rightarrow> bool" where
  "cn_inv address = (\<lambda>(cn, F, D). cn_address cn = address \<and> D = (if cn_destination_added cn then {address} else {}) \<and>
     ri_inv (mr_regular (hb_rx_msg (cn_hubs cn))) F \<and>
     entries_ok dyn_ok (ri_entries (mr_regular (hb_rx_msg (cn_hubs cn)))) \<and>
     li_inv dyn_ok (mr_loop_back (hb_rx_msg (cn_hubs cn))) \<and> rq_inv dyn_ok (hb_rx_req (cn_hubs cn)) \<and>
     mx_inv dm_spec (hb_tx_msg (cn_hubs cn)) \<and> dm.src.xq_inv (mx_queue (hb_tx_msg (cn_hubs cn))) \<and>
     rbh.src.xq_inv (sx_queue (hb_tx_resp (cn_hubs cn))))"

lemma cn_invD:
  assumes "cn_inv address (cn, F, D)"
  shows "cn_address cn = address" "D = (if cn_destination_added cn then {address} else {})"
    "ri_inv (mr_regular (hb_rx_msg (cn_hubs cn))) F"
    "entries_ok dyn_ok (ri_entries (mr_regular (hb_rx_msg (cn_hubs cn))))"
    "li_inv dyn_ok (mr_loop_back (hb_rx_msg (cn_hubs cn)))" "rq_inv dyn_ok (hb_rx_req (cn_hubs cn))"
    "mx_inv dm_spec (hb_tx_msg (cn_hubs cn))" "dm.src.xq_inv (mx_queue (hb_tx_msg (cn_hubs cn)))"
    "rbh.src.xq_inv (sx_queue (hb_tx_resp (cn_hubs cn)))"
  using assms by (simp_all add: cn_inv_def)

lemma ri_poll_pop_inv:
  assumes "ri_inv st F" "entries_ok ok (ri_entries st)"
  shows "\<exists>res st'. ri_poll_pop st = Some (res, st') \<and> updates_left st' \<le> updates_left st \<and>
    dom (ri_entries st') = dom (ri_entries st) \<and> entries_ok ok (ri_entries st') \<and>
    (case res of
       Ready u \<Rightarrow> ri_inv st' (apply_update u F) \<and> updates_left st' < updates_left st
     | Pending \<Rightarrow> ri_inv st' F \<and> updates_left st' = 0)"
  using assms
proof (induction "updates_left st" arbitrary: st rule: less_induct)
  case less
  obtain res st1 where s1: "ri_hub_poll_pop_filter_update st = Some (res, st1)"
    "dom (ri_entries st1) = dom (ri_entries st)"
    "case res of Ready (Inl u) \<Rightarrow> ri_inv st1 (apply_update u F) \<and> updates_left st1 < updates_left st
     | Ready (Inr _) \<Rightarrow> ri_inv st1 F \<and> updates_left st1 < updates_left st
     | Pending \<Rightarrow> ri_inv st1 F \<and> updates_left st = 0 \<and> ri_entries st1 = ri_entries st \<and>
         ri_active_entry_tree st1 = ri_active_entry_tree st"
    using ri_poll_filter_inv [OF less.prems(1)] by blast
  have ok: "entries_ok ok (ri_entries st1)"
    using ri_poll_buffers [OF s1(1)] less.prems(2) unfolding same_buffers_def entries_ok_def by metis
  consider u where "res = Ready (Inl u)" | "res = Ready (Inr ())" | "res = Pending"
    by (metis (full_types) poll.exhaust sum.exhaust unit.exhaust)
  then show ?case
  proof cases
    case 1
    then show ?thesis using s1 ok by (subst ri_poll_pop.simps) auto
  next
    case 2
    then have "ri_poll_pop st = ri_poll_pop st1" using s1(1) by (subst ri_poll_pop.simps) simp
    moreover have "updates_left st1 < updates_left st" "ri_inv st1 F" using s1(3) 2 by simp_all
    ultimately show ?thesis using less.hyps [of st1] ok s1(2) by (fastforce split: poll.splits)
  next
    case 3
    then have "updates_left st1 = 0"
      using s1 by (auto simp: ri_hub_poll_pop_filter_update_def ri_hub_pop_clean_up_queue_def
          ri_hub_pop_clean_up_last_def ri_hub_pop_registration_queue_def updates_left_def
          split: if_splits list.splits)
    then show ?thesis using s1 3 ok by (subst ri_poll_pop.simps) auto
  qed
qed

text \<open>A frame pushed into a node.\<close>

definition cn_delivered :: "frame \<Rightarrow> mtu \<Rightarrow> dyn_node \<Rightarrow> dyn_node \<Rightarrow> bool" where
  "cn_delivered frame mtu cn cn' \<longleftrightarrow>
     cn_address cn' = cn_address cn \<and> cn_destination_added cn' = cn_destination_added cn \<and>
     hb_tx_msg (cn_hubs cn') = hb_tx_msg (cn_hubs cn) \<and> hb_tx_resp (cn_hubs cn') = hb_tx_resp (cn_hubs cn) \<and>
     (let g = \<lambda>b. the (dyn_push_frame b frame mtu);
          regular = ri_entries (mr_regular (hb_rx_msg (cn_hubs cn)));
          loop_back = li_entries (mr_loop_back (hb_rx_msg (cn_hubs cn)));
          requests = rq_entries (hb_rx_req (cn_hubs cn)) in
      ri_entries (mr_regular (hb_rx_msg (cn_hubs cn'))) =
        (case h_data_spec (f_header frame) of
           Message s \<Rightarrow> if f_loop_back frame then regular
             else pushed_entries g (set (ri_active_entry_tree (mr_regular (hb_rx_msg (cn_hubs cn))))) s regular
         | _ \<Rightarrow> regular) \<and>
      li_entries (mr_loop_back (hb_rx_msg (cn_hubs cn'))) =
        (case h_data_spec (f_header frame) of
           Message s \<Rightarrow> if f_loop_back frame then spread_entries g s loop_back else loop_back
         | _ \<Rightarrow> loop_back) \<and>
      rq_entries (hb_rx_req (cn_hubs cn')) =
        (if \<not> f_loop_back frame \<and> h_destination (f_header frame) = Some (cn_address cn)
         then map_option (rq_pushed g frame) \<circ> requests else requests))"

lemma rq_pushed_other:
  assumes "\<And>s. h_data_spec (f_header frame) \<noteq> Request s"
  shows "map_option (rq_pushed g frame) \<circ> entries = entries"
proof
  fix p
  show "(map_option (rq_pushed g frame) \<circ> entries) p = entries p"
    using assms by (cases "entries p") (simp_all add: rq_pushed_def)
qed

lemma cn_push_inv:
  assumes inv: "cn_inv address (cn, F, D)" and f: "frame_wf frame"
  shows "\<exists>cn'. cn_poll_push dyn_buffers cn frame mtu = Some (Ready (), cn') \<and> cn_inv address (cn', F, D) \<and>
    cn_delivered frame mtu cn cn'"
proof -
  let ?g = "\<lambda>b. the (dyn_push_frame b frame mtu)"
  note r = cn_invD [OF inv]
  note g = dyn_takes_frame [OF f, of mtu]
  show ?thesis
  proof (cases "h_data_spec (f_header frame)")
    case (Message s)
    note other = rq_pushed_other [of frame ?g "rq_entries (hb_rx_req (cn_hubs cn))"]
    show ?thesis
    proof (cases "f_loop_back frame")
      case True
      obtain inner where i: "mr_hub_push_loop_back dyn_push_frame (mr_loop_back (hb_rx_msg (cn_hubs cn))) s frame mtu = Some inner"
        "li_inv dyn_ok inner" "li_entries inner = spread_entries ?g s (li_entries (mr_loop_back (hb_rx_msg (cn_hubs cn))))"
        using hub_push_loop_back_entries [OF r(5) g] by blast
      let ?cn = "cn\<lparr> cn_hubs := (cn_hubs cn)\<lparr> hb_rx_msg := (hb_rx_msg (cn_hubs cn))\<lparr> mr_loop_back := inner \<rparr> \<rparr> \<rparr>"
      have "cn_poll_push dyn_buffers cn frame mtu = Some (Ready (), ?cn)"
        using i(1) Message True by (simp add: cn_poll_push_def mr_poll_push_def mr_hub_push_def)
      moreover have "cn_inv address (?cn, F, D)" using inv i(2) by (simp add: cn_inv_def)
      moreover have "cn_delivered frame mtu cn ?cn"
        using i(3) Message True by (simp add: cn_delivered_def Let_def)
      ultimately show ?thesis by blast
    next
      case False
      obtain inner where i: "mr_hub_push_regular dyn_push_frame (mr_regular (hb_rx_msg (cn_hubs cn))) s frame mtu = Some inner"
        "ri_inv inner F" "entries_ok dyn_ok (ri_entries inner)"
        "ri_entries inner = pushed_entries ?g (set (ri_active_entry_tree (mr_regular (hb_rx_msg (cn_hubs cn))))) s
          (ri_entries (mr_regular (hb_rx_msg (cn_hubs cn))))"
        using hub_push_regular_entries [OF r(3) g r(4)] by blast
      let ?cn = "cn\<lparr> cn_hubs := (cn_hubs cn)\<lparr> hb_rx_msg := (hb_rx_msg (cn_hubs cn))\<lparr> mr_regular := inner \<rparr> \<rparr> \<rparr>"
      have "cn_poll_push dyn_buffers cn frame mtu = Some (Ready (), ?cn)"
        using i(1) Message False by (simp add: cn_poll_push_def mr_poll_push_def mr_hub_push_def)
      moreover have "cn_inv address (?cn, F, D)" using inv i(2,3) by (simp add: cn_inv_def)
      moreover have "cn_delivered frame mtu cn ?cn"
        using i(4) Message False other by (simp add: cn_delivered_def Let_def)
      ultimately show ?thesis by blast
    qed
  next
    case (Request s)
    show ?thesis
    proof (cases "\<not> f_loop_back frame \<and> h_destination (f_header frame) = Some (cn_address cn)")
      case True
      have push: "dyn_push_frame b frame mtu = Some (?g b) \<and> dyn_ok (?g b)" if "dyn_ok b" for b
        using g that unfolding takes_frame_def by blast
      obtain inner where i: "rq_hub_push dyn_push_frame (hb_rx_req (cn_hubs cn)) frame mtu = Some inner"
        "rq_inv dyn_ok inner" "rq_entries inner = map_option (rq_pushed ?g frame) \<circ> rq_entries (hb_rx_req (cn_hubs cn))"
        using rq_hub_push_entries [where push_frame = dyn_push_frame and g = ?g, OF r(6) push] by blast
      let ?cn = "cn\<lparr> cn_hubs := (cn_hubs cn)\<lparr> hb_rx_req := inner \<rparr> \<rparr>"
      have "cn_poll_push dyn_buffers cn frame mtu = Some (Ready (), ?cn)"
        using i(1) Request True by (simp add: cn_poll_push_def rq_poll_push_def)
      moreover have "cn_inv address (?cn, F, D)" using inv i(2) by (simp add: cn_inv_def)
      moreover have "cn_delivered frame mtu cn ?cn"
        using i(3) Request True by (simp add: cn_delivered_def Let_def)
      ultimately show ?thesis by blast
    next
      case False
      then have "cn_poll_push dyn_buffers cn frame mtu = Some (Ready (), cn)"
        using Request by (auto simp: cn_poll_push_def split: bool.split)
      moreover have "cn_delivered frame mtu cn cn" using Request False by (auto simp: cn_delivered_def)
      ultimately show ?thesis using inv by blast
    qed
  next
    case (Response s)
    then have "cn_poll_push dyn_buffers cn frame mtu = Some (Ready (), cn)" by (simp add: cn_poll_push_def)
    moreover have "cn_delivered frame mtu cn cn"
      using Response rq_pushed_other [of frame ?g "rq_entries (hb_rx_req (cn_hubs cn))"]
      by (simp add: cn_delivered_def Let_def)
    ultimately show ?thesis using inv by blast
  qed
qed

text \<open>A poll of the driver for a frame.\<close>

lemma cn_pop_inv:
  assumes inv: "cn_inv address (cn, F, D)"
  shows "\<exists>res cn'. cn_tx_poll_pop dyn_buffers cn pm mtu = Some (res, cn') \<and> cn_inv address (cn', F, D) \<and>
    hb_rx_msg (cn_hubs cn') = hb_rx_msg (cn_hubs cn) \<and> hb_rx_req (cn_hubs cn') = hb_rx_req (cn_hubs cn)"
proof -
  note r = cn_invD [OF inv]
  obtain tx_msg where m: "mx_step dm_vt (TrPop pm mtu) (hb_tx_msg (cn_hubs cn)) = Some tx_msg"
    "mx_inv dm_spec tx_msg" "dm.src.xq_inv (mx_queue tx_msg)"
    using dm.mx_step_total [OF r(7,8), of "TrPop pm mtu"] by auto
  then obtain res where res: "mx_poll_pop dm_vt (hb_tx_msg (cn_hubs cn)) pm mtu = Some (res, tx_msg)"
    by (auto split: bind_splits)
  obtain xq where "xq_step rb_vt (TrPop pm mtu :: (unit, response_buffer) tx_reg_op) (sx_queue (hb_tx_resp (cn_hubs cn))) = Some xq"
    "rbh.src.xq_inv xq" using rbh.step_total [OF r(9), of "TrPop pm mtu :: (unit, response_buffer) tx_reg_op"] by auto
  then obtain tx_resp where s: "sx_step rb_vt (TrPop pm mtu) (hb_tx_resp (cn_hubs cn)) = Some tx_resp"
    "rbh.src.xq_inv (sx_queue tx_resp)" by (simp add: sx_step_queue)
  then obtain res2 where res2: "sx_poll_pop rb_vt (hb_tx_resp (cn_hubs cn)) pm mtu = Some (res2, tx_resp)"
    by (auto split: bind_splits)
  let ?cn1 = "cn\<lparr> cn_hubs := (cn_hubs cn)\<lparr> hb_tx_msg := tx_msg \<rparr> \<rparr>"
  let ?cn2 = "cn\<lparr> cn_hubs := (cn_hubs cn)\<lparr> hb_tx_msg := tx_msg, hb_tx_resp := tx_resp \<rparr> \<rparr>"
  have i1: "cn_inv address (?cn1, F, D)" using inv m(2,3) by (simp add: cn_inv_def)
  have i2: "cn_inv address (?cn2, F, D)" using inv m(2,3) s(2) by (simp add: cn_inv_def)
  show ?thesis
  proof (cases res)
    case (Ready f)
    then have "cn_tx_poll_pop dyn_buffers cn pm mtu = Some (Ready (with_source (cn_address cn) f), ?cn1)"
      using res by (simp add: cn_tx_poll_pop_def)
    then show ?thesis using i1 by (intro exI [of _ "Ready (with_source (cn_address cn) f)"] exI [of _ ?cn1]) simp
  next
    case Pending
    then have "cn_tx_poll_pop dyn_buffers cn pm mtu =
        Some (case res2 of Ready f \<Rightarrow> Ready (with_source (cn_address cn) f) | Pending \<Rightarrow> Pending, ?cn2)"
      using res res2 by (cases res2) (simp_all add: cn_tx_poll_pop_def)
    then show ?thesis using i2
      by (intro exI [of _ "case res2 of Ready f \<Rightarrow> Ready (with_source (cn_address cn) f) | Pending \<Rightarrow> Pending"]
          exI [of _ ?cn2]) simp
  qed
qed

text \<open>A poll of the driver for a filter update.\<close>

abbreviation cn_regular :: "dyn_node \<Rightarrow> rx_dyn regular_inner" where
  "cn_regular cn \<equiv> mr_regular (hb_rx_msg (cn_hubs cn))"

fun subject_update :: "filter_update \<Rightarrow> bool" where
  "subject_update (AddSubject s) = True"
| "subject_update (RemoveSubjectRange a b) = True"
| "subject_update _ = False"

lemma ri_hub_poll_updates:
  "ri_hub_poll_pop_filter_update st = Some (Ready (Inl u), st') \<Longrightarrow> subject_update u"
  by (auto simp: ri_hub_poll_pop_filter_update_def ri_hub_pop_clean_up_queue_def ri_hub_pop_clean_up_last_def
      ri_hub_pop_registration_queue_def Let_def split: bind_splits option.splits list.splits if_splits prod.splits)

lemma ri_poll_pop_updates:
  assumes "ri_poll_pop st = Some (Ready u, st')"
  shows "subject_update u"
proof -
  have "case (Ready u, st') of (Ready u, _) \<Rightarrow> subject_update u | _ \<Rightarrow> True"
  proof (rule ri_poll_pop.raw_induct [where P = "\<lambda>st y. case y of (Ready u, _) \<Rightarrow> subject_update u | _ \<Rightarrow> True", OF _ assms])
    fix poll st y
    assume IH: "\<And>st y. poll st = Some y \<Longrightarrow> case y of (Ready u, _) \<Rightarrow> subject_update u | _ \<Rightarrow> True"
      and step: "do { (res, st) \<leftarrow> ri_hub_poll_pop_filter_update st;
        (case res of Ready (Inl update) \<Rightarrow> ret (Ready update, st) | Ready (Inr _) \<Rightarrow> poll st
         | Pending \<Rightarrow> ret (Pending, st)) } = Some y"
    show "case y of (Ready u, _) \<Rightarrow> subject_update u | _ \<Rightarrow> True"
      using step ri_hub_poll_updates [of st] by (auto split: bind_splits poll.splits sum.splits dest!: IH)
  qed
  then show ?thesis by simp
qed

lemma cn_filter_inv:
  assumes inv: "cn_inv address (cn, F, D)"
  shows "\<exists>res cn'. cn_filter_poll_pop cn = Some (res, cn') \<and> cn_destination_added cn' \<and>
    dom (ri_entries (cn_regular cn')) = dom (ri_entries (cn_regular cn)) \<and>
    (case res of
       Ready u \<Rightarrow> cn_inv address (cn', apply_filter u (F, D)) \<and>
         (if cn_destination_added cn then updates_left (cn_regular cn') < updates_left (cn_regular cn)
          else u = AddDestination address \<and> cn_regular cn' = cn_regular cn)
     | Pending \<Rightarrow> cn_inv address (cn', F, D) \<and> cn_destination_added cn \<and> updates_left (cn_regular cn') = 0)"
proof -
  note r = cn_invD [OF inv]
  show ?thesis
  proof (cases "cn_destination_added cn")
    case False
    let ?cn = "cn\<lparr> cn_destination_added := True \<rparr>"
    have "cn_filter_poll_pop cn = Some (Ready (AddDestination address), ?cn)"
      using False r(1) by (simp add: cn_filter_poll_pop_def)
    moreover have "cn_inv address (?cn, F, {address})" using inv False by (simp add: cn_inv_def)
    ultimately show ?thesis using False r(2) by simp
  next
    case True
    obtain res inner where i: "ri_poll_pop (cn_regular cn) = Some (res, inner)" "dom (ri_entries inner) = dom (ri_entries (cn_regular cn))"
      "entries_ok dyn_ok (ri_entries inner)"
      "case res of
         Ready u \<Rightarrow> ri_inv inner (apply_update u F) \<and> updates_left inner < updates_left (cn_regular cn)
       | Pending \<Rightarrow> ri_inv inner F \<and> updates_left inner = 0" using ri_poll_pop_inv [OF r(3,4)] by blast
    let ?cn = "cn\<lparr> cn_hubs := (cn_hubs cn)\<lparr> hb_rx_msg := (hb_rx_msg (cn_hubs cn))\<lparr> mr_regular := inner \<rparr> \<rparr> \<rparr>"
    have run: "cn_filter_poll_pop cn = Some (res, ?cn)"
      using True i(1) by (simp add: cn_filter_poll_pop_def mr_poll_pop_def)
    have inv': "cn_inv address (?cn, F', D)" if "ri_inv inner F'" for F' using inv i(3) that by (simp add: cn_inv_def)
    show ?thesis
    proof (cases res)
      case (Ready u)
      then have "apply_filter u (F, D) = (apply_update u F, D)" using ri_poll_pop_updates [of "cn_regular cn" u inner] i(1) by (cases u) auto
      then show ?thesis using run i(2,4) Ready True inv' by (intro exI [of _ res] exI [of _ ?cn]) simp
    next
      case Pending
      then show ?thesis using run i(2,4) True inv' by (intro exI [of _ res] exI [of _ ?cn]) simp
    qed
  qed
qed

lemma cn_step_total:
  assumes inv: "cn_inv address (cn, F, D)" and op: "cn_ok op cn"
  shows "\<exists>x. cn_step dyn_buffers op (cn, F, D) = Some x \<and> cn_inv address x"
proof (cases op)
  case (NdRegular rop)
  note r = cn_invD [OF inv]
  have "dyn.hosts (ri_entries (cn_regular cn))" using r(4) by (simp add: dyn.hosts_def entries_ok_def)
  then obtain inner F' where "rg_step dyn_push_frame rop (cn_regular cn, F) = Some (inner, F')" "ri_inv inner F'"
    "entries_ok dyn_ok (ri_entries inner)"
    using dyn.step_total [OF r(3), of rop] op NdRegular by (auto simp: dyn.hosts_def entries_ok_def)
  then show ?thesis using inv NdRegular by (simp add: cn_inv_def)
next
  case (NdLoopBack lop)
  obtain inner where "lb_step dyn_push_frame lop (mr_loop_back (hb_rx_msg (cn_hubs cn))) = Some inner" "li_inv dyn_ok inner"
    using lb_step_total [OF cn_invD(5) [OF inv], of lop dyn_push_frame] op NdLoopBack dyn_takes_frame by auto
  then show ?thesis using inv NdLoopBack by (simp add: cn_inv_def)
next
  case (NdRequest qop)
  obtain inner where "rr_step qop (hb_rx_req (cn_hubs cn)) = Some inner" "rq_inv dyn_ok inner"
    using rr_step_total [OF cn_invD(6) [OF inv], of qop] op NdRequest by auto
  then show ?thesis using inv NdRequest by (simp add: cn_inv_def)
next
  case (NdPublisher pop)
  obtain inner where "mx_step dm_vt pop (hb_tx_msg (cn_hubs cn)) = Some inner" "mx_inv dm_spec inner"
    "dm.src.xq_inv (mx_queue inner)"
    using dm.mx_step_total [OF cn_invD(7,8) [OF inv], of pop] op NdPublisher by auto
  then show ?thesis using inv NdPublisher by (simp add: cn_inv_def)
next
  case (NdResponder rop)
  obtain xq where "xq_step rb_vt rop (sx_queue (hb_tx_resp (cn_hubs cn))) = Some xq" "rbh.src.xq_inv xq"
    using rbh.step_total [OF cn_invD(9) [OF inv], of rop] op NdResponder by auto
  then show ?thesis using inv NdResponder by (simp add: cn_inv_def sx_step_queue)
next
  case NdFilter
  obtain res cn' where c: "cn_filter_poll_pop cn = Some (res, cn')" "(case res of
       Ready u \<Rightarrow> cn_inv address (cn', apply_filter u (F, D)) \<and>
         (if cn_destination_added cn then updates_left (cn_regular cn') < updates_left (cn_regular cn)
          else u = AddDestination address \<and> cn_regular cn' = cn_regular cn)
     | Pending \<Rightarrow> cn_inv address (cn', F, D) \<and> cn_destination_added cn \<and> updates_left (cn_regular cn') = 0)"
    using cn_filter_inv [OF inv] by blast
  then show ?thesis using NdFilter by (cases res) simp_all
next
  case (NdPush frame mtu)
  then show ?thesis using cn_push_inv [OF inv, of frame mtu] op by auto
next
  case (NdPop pm mtu)
  then show ?thesis using cn_pop_inv [OF inv, of pm mtu] by auto
qed

lemma ri_new_hosts: "entries_ok ok (ri_entries (ri_new slots))"
  by (simp add: entries_ok_def ri_new_def)

lemma cn_new_inv: "cn_inv address (cn_new address slots, {}, {})"
  using dm.mx_default_inv rbh.mx_default_inv(2)
  by (simp add: cn_inv_def cn_new_def hb_new_def mr_new_def sx_default_def mx_default_def ri_inv_new
      li_default_inv rq_default_inv ri_new_hosts)

lemma cn_reach_inv: "cn_reach address slots x \<Longrightarrow> cn_inv address x"
proof (induction rule: cn_reach.induct)
  case cn_start
  show ?case by (rule cn_new_inv)
next
  case (cn_next cn F D op x)
  then show ?case using cn_step_total [of address cn F D op] by auto
qed

end
