(* ===== verification/Node_Specs.thy ===== *)
theory Node_Specs
  imports Node_Run
begin

text \<open>The properties of the nodes: what crosses them from the driver to the endpoints and back.\<close>

section \<open>No interleaving makes a node panic\<close>

text \<open>
  C5: A node never panics. Endpoints of all four kinds register, use their buffers and go, the
  driver fetches filter updates, pushes frames and takes frames, in any order, with a push of a
  frame interrupted anywhere: every step is defined, and the node that results is one of those
  the theorem speaks of.
\<close>

theorem node_never_panics:
  assumes "cn_reach address slots (cn, F, D)" "cn_ok op cn"
  shows "\<exists>x. cn_step dyn_buffers op (cn, F, D) = Some x \<and> cn_reach address slots x"
  using cn_step_total [OF cn_reach_inv [OF assms(1)] assms(2)] cn_next [OF assms] by blast

lemma node_never_panics_witness:
  "\<exists>x. cn_step dyn_buffers (NdPush (ex_frame (Some (NodeId 3)) [5, 0xE1]) Fd) (cn_new (NodeId 9) 4, {}, {}) = Some x \<and>
    cn_reach (NodeId 9) 4 x"
  by (rule node_never_panics [OF cn_start]) (simp add: ex_frame_wf)

section \<open>Frames that are received\<close>

fun dyn_spec :: "rx_dyn \<Rightarrow> data_specifier" where
  "dyn_spec (DynFifo P b) = rf_data_specifier b"
| "dyn_spec (DynWatch sadd SN b) = wt_data_specifier b"

text \<open>A buffer ignores the frames of another data specifier.\<close>

lemma dyn_push_foreign: "dyn_spec b \<noteq> h_data_spec (f_header frame) \<Longrightarrow> dyn_push_frame b frame mtu = Some b"
  by (cases b) (auto simp: rf_push_frame_def wt_push_frame_def)

definition dyn_pushed :: "frame \<Rightarrow> mtu \<Rightarrow> rx_dyn \<Rightarrow> rx_dyn" where
  "dyn_pushed frame mtu b = the (dyn_push_frame b frame mtu)"

lemma dyn_pushed_foreign [simp]: "dyn_spec b \<noteq> h_data_spec (f_header frame) \<Longrightarrow> dyn_pushed frame mtu b = b"
  by (simp add: dyn_pushed_def dyn_push_foreign)

text \<open>Where a frame may go.\<close>

definition for_regular :: "frame \<Rightarrow> rx_dyn rx_msg_entry \<Rightarrow> bool" where
  "for_regular frame e \<longleftrightarrow> \<not> f_loop_back frame \<and> me_is_active e \<and> h_data_spec (f_header frame) = Message (me_subject e)"

definition for_loop_back :: "frame \<Rightarrow> rx_dyn rx_msg_entry \<Rightarrow> bool" where
  "for_loop_back frame e \<longleftrightarrow> f_loop_back frame \<and> h_data_spec (f_header frame) = Message (me_subject e)"

definition for_responder :: "node_id \<Rightarrow> frame \<Rightarrow> rx_dyn rx_req_entry \<Rightarrow> bool" where
  "for_responder address frame e \<longleftrightarrow> \<not> f_loop_back frame \<and> h_destination (f_header frame) = Some address \<and>
     h_data_spec (f_header frame) = Request (rqe_service e)"

text \<open>The buffers of the loop-back endpoints are made for their subjects.\<close>

definition loop_backs_own :: "dyn_node \<Rightarrow> bool" where
  "loop_backs_own cn \<longleftrightarrow> (\<forall>p e. li_entries (mr_loop_back (hb_rx_msg (cn_hubs cn))) p = Some e \<longrightarrow>
     dyn_spec (me_buffer e) = Message (me_subject e))"

text \<open>
  C6: A node routes a received frame. The push of a frame always completes. A message reaches every
  active endpoint of its subject, a looped back message every loop-back endpoint of its subject,
  and a request to this node the responder of its service, each once; the buffer of every other
  endpoint - made for its own data specifier - and everything that is to be sent stay as they were.
  Responses, requests to other nodes and looped back requests change nothing.
\<close>

theorem node_routes_frames:
  assumes "cn_reach address slots (cn, F, D)" "frame_wf frame" "loop_backs_own cn"
  shows "\<exists>cn'. cn_poll_push dyn_buffers cn frame mtu = Some (Ready (), cn') \<and> cn_reach address slots (cn', F, D) \<and>
    (\<forall>p. ri_entries (cn_regular cn') p = map_option (\<lambda>e. if for_regular frame e
      then e\<lparr> me_buffer := dyn_pushed frame mtu (me_buffer e) \<rparr> else e) (ri_entries (cn_regular cn) p)) \<and>
    (\<forall>p. li_entries (mr_loop_back (hb_rx_msg (cn_hubs cn'))) p = map_option (\<lambda>e. if for_loop_back frame e
      then e\<lparr> me_buffer := dyn_pushed frame mtu (me_buffer e) \<rparr> else e) (li_entries (mr_loop_back (hb_rx_msg (cn_hubs cn))) p)) \<and>
    (\<forall>p. rq_entries (hb_rx_req (cn_hubs cn')) p = map_option (\<lambda>e. if for_responder address frame e
      then e\<lparr> rqe_buffer := dyn_pushed frame mtu (rqe_buffer e) \<rparr> else e) (rq_entries (hb_rx_req (cn_hubs cn)) p)) \<and>
    hb_tx_msg (cn_hubs cn') = hb_tx_msg (cn_hubs cn) \<and> hb_tx_resp (cn_hubs cn') = hb_tx_resp (cn_hubs cn)"
proof -
  note inv = cn_reach_inv [OF assms(1)]
  note r = cn_invD [OF inv]
  have g: "(\<lambda>b. the (dyn_push_frame b frame mtu)) = dyn_pushed frame mtu" by (simp add: dyn_pushed_def fun_eq_iff)
  obtain cn' where c: "cn_poll_push dyn_buffers cn frame mtu = Some (Ready (), cn')" "cn_delivered frame mtu cn cn'"
    using cn_push_inv [OF inv assms(2)] by blast
  have reach: "cn_reach address slots (cn', F, D)"
    using cn_next [OF assms(1), of "NdPush frame mtu"] assms(2) c(1) by simp
  note d = c(2) [unfolded cn_delivered_def Let_def g]
  have active: "p \<in> set (ri_active_entry_tree (cn_regular cn)) \<longleftrightarrow> me_is_active e" if "ri_entries (cn_regular cn) p = Some e" for p e
    using that ri_inv_entry(1) [OF r(3), of p] by (auto elim: ri_active_split [OF r(3) that])
  have 1: "ri_entries (cn_regular cn') p = map_option (\<lambda>e. if for_regular frame e
      then e\<lparr> me_buffer := dyn_pushed frame mtu (me_buffer e) \<rparr> else e) (ri_entries (cn_regular cn) p)" for p
    using d active [of p] by (cases "ri_entries (cn_regular cn) p")
      (auto simp: pushed_entries_def for_regular_def split: data_specifier.splits)
  have 2: "li_entries (mr_loop_back (hb_rx_msg (cn_hubs cn'))) p = map_option (\<lambda>e. if for_loop_back frame e
      then e\<lparr> me_buffer := dyn_pushed frame mtu (me_buffer e) \<rparr> else e) (li_entries (mr_loop_back (hb_rx_msg (cn_hubs cn))) p)" for p
  proof (cases "li_entries (mr_loop_back (hb_rx_msg (cn_hubs cn))) p")
    case None
    then show ?thesis using d by (auto simp: spread_entries_def split: data_specifier.splits)
  next
    case (Some e)
    have "me_subject e \<in> me_subject ` ran (li_entries (mr_loop_back (hb_rx_msg (cn_hubs cn))))"
      using Some by (auto simp: ran_def)
    then show ?thesis using d Some assms(3) unfolding loop_backs_own_def
      by (auto simp: spread_entries_def for_loop_back_def split: data_specifier.splits)
  qed
  have 3: "rq_entries (hb_rx_req (cn_hubs cn')) p = map_option (\<lambda>e. if for_responder address frame e
      then e\<lparr> rqe_buffer := dyn_pushed frame mtu (rqe_buffer e) \<rparr> else e) (rq_entries (hb_rx_req (cn_hubs cn)) p)" for p
    using d r(1) by (cases "rq_entries (hb_rx_req (cn_hubs cn)) p") (auto simp: rq_pushed_def for_responder_def)
  show ?thesis using c(1) reach 1 2 3 d by blast
qed

lemma node_routes_frames_witness:
  "\<exists>cn'. cn_poll_push dyn_buffers (cn_new (NodeId 9) 4) (ex_frame (Some (NodeId 3)) [5, 0xE1]) Fd = Some (Ready (), cn') \<and>
    cn_reach (NodeId 9) 4 (cn', {}, {})"
proof -
  have "loop_backs_own (cn_new (NodeId 9) 4)"
    by (simp add: loop_backs_own_def cn_new_def hb_new_def mr_new_def li_default_def)
  from node_routes_frames [OF cn_start ex_frame_wf(2) this] show ?thesis by blast
qed

section \<open>Updates of the filter\<close>

fun cn_polls :: "nat \<Rightarrow> dyn_node \<times> node_filter \<Rightarrow> (dyn_node \<times> node_filter) exec" where
  "cn_polls 0 x = ret x"
| "cn_polls (Suc n) x = do { x \<leftarrow> cn_step dyn_buffers NdFilter x; cn_polls n x }"

text \<open>
  C7: The driver learns what a node listens to. The first update it fetches is the destination;
  later ones concern subjects only. At every moment it filters for the subject of every active
  endpoint, and after finitely many polls, with nothing else going on, the next one is pending and
  the driver filters for exactly the subjects of the registered endpoints and the address.
\<close>

theorem node_filter_exact:
  assumes "cn_reach address slots (cn, F, D)"
  shows "(\<not> cn_destination_added cn \<longrightarrow> D = {} \<and>
      cn_filter_poll_pop cn = Some (Ready (AddDestination address), cn\<lparr> cn_destination_added := True \<rparr>)) \<and>
    (\<forall>p e. ri_entries (cn_regular cn) p = Some e \<longrightarrow> me_is_active e \<longrightarrow> me_subject e \<in> F) \<and>
    (\<exists>n cn' cn''. cn_polls n (cn, F, D) = Some (cn', me_subject ` ran (ri_entries (cn_regular cn')), {address}) \<and>
      dom (ri_entries (cn_regular cn')) = dom (ri_entries (cn_regular cn)) \<and>
      cn_filter_poll_pop cn' = Some (Pending, cn''))"
proof -
  note inv = cn_reach_inv [OF assms]
  note r = cn_invD [OF inv]
  have 1: "D = {} \<and> cn_filter_poll_pop cn = Some (Ready (AddDestination address), cn\<lparr> cn_destination_added := True \<rparr>)"
    if "\<not> cn_destination_added cn" using that r(1,2) by (simp add: cn_filter_poll_pop_def)
  have 2: "me_subject e \<in> F" if "ri_entries (cn_regular cn) p = Some e" "me_is_active e" for p e
  proof -
    have "p \<in> set (ri_active_entry_tree (cn_regular cn))" using that by (auto elim: ri_active_split [OF r(3)])
    then show ?thesis using ri_inv_entry(1) [OF r(3)] that(1) by force
  qed
  have 3: "\<exists>n cn' cn''. cn_polls n (cn, F, D) = Some (cn', me_subject ` ran (ri_entries (cn_regular cn')), {address}) \<and>
      dom (ri_entries (cn_regular cn')) = dom (ri_entries (cn_regular cn)) \<and>
      cn_filter_poll_pop cn' = Some (Pending, cn'')"
    if "cn_inv address (cn, F, D)" "k = updates_left (cn_regular cn) + (if cn_destination_added cn then 0 else 1)" for k cn F D
    using that
  proof (induction k arbitrary: cn F D rule: less_induct)
    case (less k)
    obtain res cn1 where c: "cn_filter_poll_pop cn = Some (res, cn1)" "cn_destination_added cn1"
      "dom (ri_entries (cn_regular cn1)) = dom (ri_entries (cn_regular cn))" "case res of
         Ready u \<Rightarrow> cn_inv address (cn1, apply_filter u (F, D)) \<and>
           (if cn_destination_added cn then updates_left (cn_regular cn1) < updates_left (cn_regular cn)
            else u = AddDestination address \<and> cn_regular cn1 = cn_regular cn)
       | Pending \<Rightarrow> cn_inv address (cn1, F, D) \<and> cn_destination_added cn \<and> updates_left (cn_regular cn1) = 0"
      using cn_filter_inv [OF less.prems(1)] by blast
    show ?case
    proof (cases res)
      case (Ready u)
      obtain F1 D1 where f: "apply_filter u (F, D) = (F1, D1)" by (cases "apply_filter u (F, D)")
      have step: "cn_step dyn_buffers NdFilter (cn, F, D) = Some (cn1, F1, D1)" using c(1) Ready f by simp
      have less': "updates_left (cn_regular cn1) + (if cn_destination_added cn1 then 0 else 1) < k"
        using c(2,4) Ready less.prems(2) by (auto split: if_splits)
      have "cn_inv address (cn1, F1, D1)" using c(4) Ready f by simp
      from less.IH [OF less' this refl] obtain n cn' cn'' where
        "cn_polls n (cn1, F1, D1) = Some (cn', me_subject ` ran (ri_entries (cn_regular cn')), {address})"
        "dom (ri_entries (cn_regular cn')) = dom (ri_entries (cn_regular cn1))" "cn_filter_poll_pop cn' = Some (Pending, cn'')"
        by blast
      then show ?thesis using step c(3) by (intro exI [of _ "Suc n"] exI [of _ cn'] exI [of _ cn'']) simp
    next
      case Pending
      then have c1: "cn_inv address (cn1, F, D)" "cn_destination_added cn1" "updates_left (cn_regular cn1) = 0"
        using c(2,4) by simp_all
      note ri = cn_invD [OF c1(1)]
      have "F = me_subject ` ran (ri_entries (cn_regular cn1))" by (rule ri_inv_exact [OF ri(3) c1(3)])
      moreover have "D = {address}" using ri(2) c1(2) by simp
      moreover have "cn_step dyn_buffers NdFilter (cn, F, D) = Some (cn1, F, D)" using c(1) Pending by simp
      moreover obtain res' cn2 where c2: "cn_filter_poll_pop cn1 = Some (res', cn2)"
        "case res' of Ready u \<Rightarrow> updates_left (cn_regular cn2) < updates_left (cn_regular cn1) | Pending \<Rightarrow> True"
        using cn_filter_inv [OF c1(1)] c1(2) by (fastforce split: poll.splits)
      moreover have "res' = Pending" using c2(2) c1(3) by (cases res') simp_all
      ultimately show ?thesis using c(3) by (intro exI [of _ 1] exI [of _ cn1] exI [of _ cn2]) simp
    qed
  qed
  show ?thesis using 1 2 3 [OF inv refl] by blast
qed

lemma node_filter_exact_witness:
  "\<exists>n cn' cn''. cn_polls n (cn_new (NodeId 9) 4, {}, {}) =
      Some (cn', me_subject ` ran (ri_entries (cn_regular cn')), {NodeId 9}) \<and>
    cn_filter_poll_pop cn' = Some (Pending, cn'')"
  using node_filter_exact [OF cn_start, of "NodeId 9" 4] by blast

section \<open>Frames that are sent\<close>

text \<open>The most urgent priority of a buffer, where the mask admits it.\<close>

definition announced :: "('b \<Rightarrow> priority_set) \<Rightarrow> priority_set \<Rightarrow> 'b tx_queue \<Rightarrow> priority \<Rightarrow> bool" where
  "announced readiness pm xq q \<longleftrightarrow> ps_contains pm q \<and>
     (\<exists>p e. qs_entries (xq_queues xq) p = Some e \<and> ps_first (readiness (qe_buffer e)) = Some q)"

context tx_hosted
begin

lemma poll_announced:
  assumes inv: "src.xq_inv xq"
  shows "\<exists>res xq'. xq_hub_poll_pop ready (vt_try_pop vt) xq pm m = Some (res, xq') \<and> (case res of
      Pending \<Rightarrow> \<forall>q. \<not> announced ready pm xq q
    | Ready f \<Rightarrow> announced ready pm xq (h_priority (f_header f)) \<and>
        (\<forall>q. announced ready pm xq q \<longrightarrow> h_priority (f_header f) \<le> q) \<and>
        (\<exists>p e. entries xq p = Some e \<and> h_data_spec (f_header f) = spec (qe_buffer e)))"
proof -
  have pos: "(\<exists>t. position ready e = Some (q, t)) \<longleftrightarrow> ps_first (ready (qe_buffer e)) = Some q" for e q
    by (auto simp: position_def)
  obtain res xq' where x: "xq_hub_poll_pop ready (vt_try_pop vt) xq pm m = Some (res, xq')" "case res of
       Pending \<Rightarrow> entries xq' = entries xq \<and>
         (\<forall>p e q t. entries xq p = Some e \<longrightarrow> position ready e = Some (q, t) \<longrightarrow> \<not> ps_contains pm q)
     | Ready f \<Rightarrow> \<exists>p eot. taken pm xq f p eot xq'" using pop_step [OF inv] by blast
  show ?thesis
  proof (cases res)
    case Pending
    then show ?thesis using x pos unfolding announced_def by (intro exI [of _ res] exI [of _ xq']) fastforce
  next
    case (Ready f)
    then obtain p eot where t: "taken pm xq f p eot xq'" using x(2) by auto
    then have "announced ready pm xq (h_priority (f_header f))" unfolding taken_def announced_def using pos by blast
    moreover have "\<forall>q. announced ready pm xq q \<longrightarrow> h_priority (f_header f) \<le> q"
      using t unfolding taken_def announced_def using pos by blast
    moreover have "\<exists>p e. entries xq p = Some e \<and> h_data_spec (f_header f) = spec (qe_buffer e)"
      using t unfolding taken_def by blast
    ultimately show ?thesis using x(1) Ready by auto
  qed
qed

end

lemma announced_empty: "ps_is_empty pm \<Longrightarrow> \<not> announced readiness pm xq q"
  by (simp add: announced_def ps_is_empty_iff)

lemma mx_poll_announced:
  assumes "dm.src.xq_inv (mx_queue st)"
  shows "\<exists>res st'. mx_poll_pop dm_vt st pm m = Some (res, st') \<and> (case res of
      Pending \<Rightarrow> \<forall>q. \<not> announced dm_pop_readiness pm (mx_queue st) q
    | Ready f \<Rightarrow> announced dm_pop_readiness pm (mx_queue st) (h_priority (f_header f)) \<and>
        (\<forall>q. announced dm_pop_readiness pm (mx_queue st) q \<longrightarrow> h_priority (f_header f) \<le> q) \<and>
        (\<exists>s. h_data_spec (f_header f) = Message s))"
proof (cases "ps_is_empty pm")
  case True
  then have "mx_poll_pop dm_vt st pm m = Some (Pending, st)" by (simp add: mx_poll_pop_def)
  then show ?thesis using announced_empty [OF True] by auto
next
  case False
  have ready: "vt_pop_readiness dm_vt = dm_pop_readiness" by (simp add: dm_vt_def)
  obtain res xq' where x:
    "xq_hub_poll_pop dm_pop_readiness (vt_try_pop dm_vt) (mx_queue st) pm m = Some (res, xq')" "case res of
      Pending \<Rightarrow> \<forall>q. \<not> announced dm_pop_readiness pm (mx_queue st) q
    | Ready f \<Rightarrow> announced dm_pop_readiness pm (mx_queue st) (h_priority (f_header f)) \<and>
        (\<forall>q. announced dm_pop_readiness pm (mx_queue st) q \<longrightarrow> h_priority (f_header f) \<le> q) \<and>
        (\<exists>p e. qs_entries (xq_queues (mx_queue st)) p = Some e \<and> h_data_spec (f_header f) = dm_spec (qe_buffer e))"
    using dm.poll_announced [OF assms, of pm m] unfolding ready by blast
  have "mx_poll_pop dm_vt st pm m = Some (res, st\<lparr> mx_queue := xq' \<rparr>)"
    using x(1) False by (simp add: mx_poll_pop_def mx_hub_poll_pop_def ready)
  then show ?thesis
    using x(2) by (intro exI [of _ res] exI [of _ "st\<lparr> mx_queue := xq' \<rparr>"]) (cases res; auto simp: dm_spec_def)
qed

lemma sx_poll_announced:
  assumes "rbh.src.xq_inv (sx_queue st)"
  shows "\<exists>res st'. sx_poll_pop rb_vt st pm m = Some (res, st') \<and> (case res of
      Pending \<Rightarrow> \<forall>q. \<not> announced rb_pop_readiness pm (sx_queue st) q
    | Ready f \<Rightarrow> announced rb_pop_readiness pm (sx_queue st) (h_priority (f_header f)) \<and>
        (\<forall>q. announced rb_pop_readiness pm (sx_queue st) q \<longrightarrow> h_priority (f_header f) \<le> q) \<and>
        (\<exists>s. h_data_spec (f_header f) = Response s))"
proof (cases "ps_is_empty pm")
  case True
  then have "sx_poll_pop rb_vt st pm m = Some (Pending, st)" by (simp add: sx_poll_pop_def)
  then show ?thesis using announced_empty [OF True] by auto
next
  case False
  have ready: "vt_pop_readiness rb_vt = rb_pop_readiness" by (simp add: rb_vt_def)
  obtain res xq' where x:
    "xq_hub_poll_pop rb_pop_readiness (vt_try_pop rb_vt) (sx_queue st) pm m = Some (res, xq')" "case res of
      Pending \<Rightarrow> \<forall>q. \<not> announced rb_pop_readiness pm (sx_queue st) q
    | Ready f \<Rightarrow> announced rb_pop_readiness pm (sx_queue st) (h_priority (f_header f)) \<and>
        (\<forall>q. announced rb_pop_readiness pm (sx_queue st) q \<longrightarrow> h_priority (f_header f) \<le> q) \<and>
        (\<exists>p e. qs_entries (xq_queues (sx_queue st)) p = Some e \<and> h_data_spec (f_header f) = rb_spec (qe_buffer e))"
    using rbh.poll_announced [OF assms, of pm m] unfolding ready by blast
  have "sx_poll_pop rb_vt st pm m = Some (res, st\<lparr> sx_queue := xq' \<rparr>)"
    using x(1) False by (simp add: sx_poll_pop_def sx_hub_poll_pop_def ready)
  then show ?thesis
    using x(2) by (intro exI [of _ res] exI [of _ "st\<lparr> sx_queue := xq' \<rparr>"]) (cases res; auto simp: rb_spec_def)
qed

lemma with_source_sel [simp]:
  "h_source (f_header (with_source a f)) = Some a" "h_priority (f_header (with_source a f)) = h_priority (f_header f)"
  "h_data_spec (f_header (with_source a f)) = h_data_spec (f_header f)"
  by (simp_all add: with_source_def)

text \<open>
  C8: What a node sends. Every frame carries the address of the node as its source. While a
  publisher announces an admitted priority, the frame is a message of the most urgent one announced;
  otherwise it is one of the responses, of the most urgent priority that the responders announce.
  The poll is pending exactly when none of them announces an admitted priority.
\<close>

theorem node_tx_order:
  assumes "cn_reach address slots (cn, F, D)"
  shows "\<exists>res cn'. cn_tx_poll_pop dyn_buffers cn pm m = Some (res, cn') \<and> cn_reach address slots (cn', F, D) \<and>
    (let messages = announced dm_pop_readiness pm (mx_queue (hb_tx_msg (cn_hubs cn)));
         responses = announced rb_pop_readiness pm (sx_queue (hb_tx_resp (cn_hubs cn))) in
     case res of
       Pending \<Rightarrow> \<forall>q. \<not> messages q \<and> \<not> responses q
     | Ready f \<Rightarrow> h_source (f_header f) = Some address \<and>
         (if \<exists>q. messages q
          then messages (h_priority (f_header f)) \<and> (\<forall>q. messages q \<longrightarrow> h_priority (f_header f) \<le> q) \<and>
            (\<exists>s. h_data_spec (f_header f) = Message s)
          else responses (h_priority (f_header f)) \<and> (\<forall>q. responses q \<longrightarrow> h_priority (f_header f) \<le> q) \<and>
            (\<exists>s. h_data_spec (f_header f) = Response s)))"
proof -
  note inv = cn_reach_inv [OF assms]
  note r = cn_invD [OF inv]
  obtain res1 tx_msg where m: "mx_poll_pop dm_vt (hb_tx_msg (cn_hubs cn)) pm m = Some (res1, tx_msg)" "case res1 of
      Pending \<Rightarrow> \<forall>q. \<not> announced dm_pop_readiness pm (mx_queue (hb_tx_msg (cn_hubs cn))) q
    | Ready f \<Rightarrow> announced dm_pop_readiness pm (mx_queue (hb_tx_msg (cn_hubs cn))) (h_priority (f_header f)) \<and>
        (\<forall>q. announced dm_pop_readiness pm (mx_queue (hb_tx_msg (cn_hubs cn))) q \<longrightarrow> h_priority (f_header f) \<le> q) \<and>
        (\<exists>s. h_data_spec (f_header f) = Message s)" using mx_poll_announced [OF r(8)] by blast
  obtain res2 tx_resp where s: "sx_poll_pop rb_vt (hb_tx_resp (cn_hubs cn)) pm m = Some (res2, tx_resp)" "case res2 of
      Pending \<Rightarrow> \<forall>q. \<not> announced rb_pop_readiness pm (sx_queue (hb_tx_resp (cn_hubs cn))) q
    | Ready f \<Rightarrow> announced rb_pop_readiness pm (sx_queue (hb_tx_resp (cn_hubs cn))) (h_priority (f_header f)) \<and>
        (\<forall>q. announced rb_pop_readiness pm (sx_queue (hb_tx_resp (cn_hubs cn))) q \<longrightarrow> h_priority (f_header f) \<le> q) \<and>
        (\<exists>s. h_data_spec (f_header f) = Response s)" using sx_poll_announced [OF r(9)] by blast
  obtain res cn' where c: "cn_tx_poll_pop dyn_buffers cn pm m = Some (res, cn')"
    using cn_pop_inv [OF inv, of pm m] by blast
  have reach: "cn_reach address slots (cn', F, D)" using cn_next [OF assms, of "NdPop pm m"] c by simp
  have res: "res = (case res1 of Ready f \<Rightarrow> Ready (with_source address f)
      | Pending \<Rightarrow> (case res2 of Ready f \<Rightarrow> Ready (with_source address f) | Pending \<Rightarrow> Pending))"
    using c m(1) s(1) r(1) by (cases res1; cases res2) (auto simp: cn_tx_poll_pop_def)
  show ?thesis
    using c reach m(2) s(2) by (intro exI [of _ res] exI [of _ cn']) (auto simp: res Let_def split: poll.splits)
qed

lemma node_tx_order_witness:
  "\<exists>res cn'. cn_tx_poll_pop dyn_buffers (cn_new (NodeId 9) 4) ps_ALL Fd = Some (res, cn') \<and> cn_reach (NodeId 9) 4 (cn', {}, {})"
  using node_tx_order [OF cn_start, of "NodeId 9" 4 ps_ALL Fd] by blast


section \<open>A message goes first\<close>

text \<open>Operations of one publisher or responder of the node, one after the other.\<close>

fun sx_oks :: "('b \<Rightarrow> bool) \<Rightarrow> 'b tx_vtable \<Rightarrow> ('b \<Rightarrow> nat) \<Rightarrow> ('b \<Rightarrow> bool) \<Rightarrow>
    (unit, 'b) tx_reg_op list \<Rightarrow> 'b tx_resp_inner \<Rightarrow> bool" where
  "sx_oks ok vt capacity lent [] st = True"
| "sx_oks ok vt capacity lent (op # ops) st = (tr_ok ok capacity lent op (sx_queue st) \<and>
     (case sx_step vt op st of None \<Rightarrow> False | Some st' \<Rightarrow> sx_oks ok vt capacity lent ops st'))"

lemma tr_ok_mono: "tr_ok ok capacity lent op xq \<Longrightarrow> (\<And>b. ok b \<Longrightarrow> ok' b) \<Longrightarrow> tr_ok ok' capacity lent op xq"
  by (cases op) auto

lemma sx_oks_mono: "sx_oks ok vt capacity lent ops st \<Longrightarrow> (\<And>b. ok b \<Longrightarrow> ok' b) \<Longrightarrow> sx_oks ok' vt capacity lent ops st"
  by (induction ops arbitrary: st) (auto split: option.splits intro: tr_ok_mono)

lemma cn_run_publisher:
  assumes "cn_reach address slots (cn, F, D)" "mx_oks dm_vt dm_ok dm_spec dm_capacity dm_lent ops (hb_tx_msg (cn_hubs cn))"
    "for_each (mx_step dm_vt) ops (hb_tx_msg (cn_hubs cn)) = Some st"
  shows "cn_reach address slots (cn\<lparr> cn_hubs := (cn_hubs cn)\<lparr> hb_tx_msg := st \<rparr> \<rparr>, F, D)"
  using assms
proof (induction ops arbitrary: cn)
  case (Cons op ops)
  then obtain st1 where s: "mx_step dm_vt op (hb_tx_msg (cn_hubs cn)) = Some st1"
    "mx_oks dm_vt dm_ok dm_spec dm_capacity dm_lent ops st1" "for_each (mx_step dm_vt) ops st1 = Some st"
    by (auto split: option.splits)
  let ?cn = "cn\<lparr> cn_hubs := (cn_hubs cn)\<lparr> hb_tx_msg := st1 \<rparr> \<rparr>"
  have "cn_reach address slots (?cn, F, D)"
    using cn_next [OF Cons.prems(1), of "NdPublisher op"] Cons.prems(2) s(1) by simp
  from Cons.IH [OF this] show ?case using s(2,3) by simp
qed auto

lemma cn_run_responder:
  assumes "cn_reach address slots (cn, F, D)" "sx_oks rb_ok rb_vt rb_capacity rb_lent ops (hb_tx_resp (cn_hubs cn))"
    "for_each (sx_step rb_vt) ops (hb_tx_resp (cn_hubs cn)) = Some st"
  shows "cn_reach address slots (cn\<lparr> cn_hubs := (cn_hubs cn)\<lparr> hb_tx_resp := st \<rparr> \<rparr>, F, D)"
  using assms
proof (induction ops arbitrary: cn)
  case (Cons op ops)
  then obtain st1 where s: "sx_step rb_vt op (hb_tx_resp (cn_hubs cn)) = Some st1"
    "sx_oks rb_ok rb_vt rb_capacity rb_lent ops st1" "for_each (sx_step rb_vt) ops st1 = Some st"
    by (auto split: option.splits)
  let ?cn = "cn\<lparr> cn_hubs := (cn_hubs cn)\<lparr> hb_tx_resp := st1 \<rparr> \<rparr>"
  have "cn_reach address slots (?cn, F, D)"
    using cn_next [OF Cons.prems(1), of "NdResponder op"] Cons.prems(2) s(1) by simp
  from Cons.IH [OF this] show ?case using s(2,3) by simp
qed auto

definition sample_rb :: response_buffer where
  "sample_rb = the (rb_new (ServiceId 5) (replicate 8 [0, 0]))"

lemma sample_rb_ok: "rb_ok sample_rb"
proof -
  obtain st where st: "rb_new (ServiceId 5) (replicate 8 [0, 0]) = Some st" "rb_rep (ServiceId 5) 2 st (\<lambda>p. []) None"
    using rb_new_rep [of "replicate 8 [0, 0]" 2 "ServiceId 5"] by (auto simp: rb_BUFFER_COUNT_def)
  have "rb_ok st" by (rule rb_after(1) [OF st(2) st(2)]) (simp add: tids_ok_def)
  then show ?thesis using st(1) by (simp add: sample_rb_def)
qed

definition sample_slow :: tx_msg_dyn where
  "sample_slow = DynBlocking (mb_new (SubjectId 8) Optional [0, 0])"

lemma sample_slow_ok: "dm_ok sample_slow"
proof -
  have "mb_rep (SubjectId 8) Optional 2 (mb_new (SubjectId 8) Optional [0, 0]) (\<lambda>p. []) None"
    by (rule mb_rep_new) simp
  then show ?thesis unfolding sample_slow_def
    by (intro dm_okI [where s = "SubjectId 8" and q = Optional and B = 2 and A = "\<lambda>p. []" and pad = None])
      (simp_all add: tids_ok_def)
qed

definition sample_slow_ops :: "(subject_id, tx_msg_dyn) tx_reg_op list" where
  "sample_slow_ops = [TrRegister 1 (SubjectId 8) sample_slow, TrGetScratchpad 1, TrWrite 1 [1, 2],
     TrPush 1 ((sample_meta None)\<lparr> tm_priority := Optional \<rparr>) 2 (TransferCrc 0)]"

definition sample_urgent_ops :: "(unit, response_buffer) tx_reg_op list" where
  "sample_urgent_ops = [TrRegister 1 () sample_rb, TrGetScratchpad 1, TrWrite 1 [3, 4],
     TrPush 1 ((sample_meta (Some (NodeId 3)))\<lparr> tm_priority := Exceptional \<rparr>) 2 (TransferCrc 0)]"

lemma sample_urgent_run:
  "mx_oks dm_vt (\<lambda>b. b = sample_slow) dm_spec dm_capacity dm_lent sample_slow_ops mx_default \<and>
   sx_oks (\<lambda>b. b = sample_rb) rb_vt rb_capacity rb_lent sample_urgent_ops sx_default \<and>
   (case (for_each (mx_step dm_vt) sample_slow_ops mx_default, for_each (sx_step rb_vt) sample_urgent_ops sx_default) of
      (Some m, Some r) \<Rightarrow> (case qs_entries (xq_queues (sx_queue r)) 1 of
           Some e \<Rightarrow> ps_first (rb_pop_readiness (qe_buffer e)) = Some Exceptional | None \<Rightarrow> False) \<and>
         (case mx_poll_pop dm_vt m ps_ALL Fd of
            Some (Ready f, _) \<Rightarrow> h_priority (f_header f) = Optional \<and> h_data_spec (f_header f) = Message (SubjectId 8)
          | _ \<Rightarrow> False)
    | _ \<Rightarrow> False)"
  by code_simp

text \<open>
  C9: \<open>link::Tx::pop\<close> promises the most urgent frame that waits. The nodes do not keep that promise:
  there is a node whose responder announces a frame of the most urgent priority, and which, asked for
  a frame of any priority, sends a message of the least urgent one.
\<close>

theorem node_urgent_response_waits:
  "\<exists>cn f cn'. cn_reach (NodeId 9) 4 (cn, {}, {}) \<and>
     announced rb_pop_readiness ps_ALL (sx_queue (hb_tx_resp (cn_hubs cn))) Exceptional \<and>
     cn_tx_poll_pop dyn_buffers cn ps_ALL Fd = Some (Ready f, cn') \<and>
     h_priority (f_header f) = Optional \<and> h_data_spec (f_header f) = Message (SubjectId 8)"
proof -
  obtain m r e f m' where run: "mx_oks dm_vt (\<lambda>b. b = sample_slow) dm_spec dm_capacity dm_lent sample_slow_ops mx_default"
    "sx_oks (\<lambda>b. b = sample_rb) rb_vt rb_capacity rb_lent sample_urgent_ops sx_default"
    "for_each (mx_step dm_vt) sample_slow_ops mx_default = Some m"
    "for_each (sx_step rb_vt) sample_urgent_ops sx_default = Some r"
    "qs_entries (xq_queues (sx_queue r)) 1 = Some e" "ps_first (rb_pop_readiness (qe_buffer e)) = Some Exceptional"
    "mx_poll_pop dm_vt m ps_ALL Fd = Some (Ready f, m')" "h_priority (f_header f) = Optional"
    "h_data_spec (f_header f) = Message (SubjectId 8)"
    using sample_urgent_run by (auto split: option.splits prod.splits poll.splits)
  let ?c0 = "cn_new (NodeId 9) 4 :: dyn_node"
  let ?c1 = "?c0\<lparr> cn_hubs := (cn_hubs ?c0)\<lparr> hb_tx_msg := m \<rparr> \<rparr>"
  let ?c2 = "?c1\<lparr> cn_hubs := (cn_hubs ?c1)\<lparr> hb_tx_resp := r \<rparr> \<rparr>"
  have "mx_oks dm_vt dm_ok dm_spec dm_capacity dm_lent sample_slow_ops mx_default"
    by (rule mx_oks_mono [OF _ run(1)]) (simp add: sample_slow_ok)
  then have c1: "cn_reach (NodeId 9) 4 (?c1, {}, {})"
    using cn_run_publisher [OF cn_start, of sample_slow_ops "NodeId 9" 4 m] run(3) by (simp add: cn_new_def hb_new_def)
  have "sx_oks rb_ok rb_vt rb_capacity rb_lent sample_urgent_ops sx_default"
    by (rule sx_oks_mono [OF run(2)]) (simp add: sample_rb_ok)
  then have "cn_reach (NodeId 9) 4 (?c2, {}, {})"
    using cn_run_responder [OF c1, of sample_urgent_ops r] run(4) by (simp add: cn_new_def hb_new_def)
  moreover have "announced rb_pop_readiness ps_ALL (sx_queue (hb_tx_resp (cn_hubs ?c2))) Exceptional"
    using run(5,6) unfolding announced_def by auto
  moreover have "\<exists>cn'. cn_tx_poll_pop dyn_buffers ?c2 ps_ALL Fd = Some (Ready (with_source (NodeId 9) f), cn')"
    using run(7) by (simp add: cn_tx_poll_pop_def cn_new_def hb_new_def)
  ultimately show ?thesis using run(8,9) by (metis with_source_sel(2,3))
qed

end
