(* ===== verification/Heartbeats.thy ===== *)
theory Heartbeats
  imports Nodes
begin

text \<open>
  The runner of a minimal node and the driver share the buffer of the heartbeats: a signal that
  holds seven bytes. What waits in it is the newest heartbeat, in one frame.
\<close>

section \<open>The runner and the driver\<close>

datatype rn_op = RnTick status instant | RnPop priority_set mtu

fun rn_step ::
  "(instant \<Rightarrow> u64) \<Rightarrow> (instant \<Rightarrow> duration \<Rightarrow> instant) \<Rightarrow> (heartbeat \<Rightarrow> u8 list \<Rightarrow> u8 list) \<Rightarrow> rn_op \<Rightarrow>
    publisher \<times> signal \<Rightarrow> (publisher \<times> signal) exec" where
  "rn_step as_secs sadd ser (RnTick status now) (pb, st) =
     rn_tick as_secs (pb_try_push sadd
       (ep_try_push sg_get_scratchpad sg_write_scratchpad sg_try_push ser (\<lambda>_. 56))) status now (pb, st)"
| "rn_step as_secs sadd ser (RnPop pm m) (pb, st) = do { (_, st) \<leftarrow> sg_try_pop st pm m; ret (pb, st) }"

text \<open>What the encoding of the data type has to do: fill the seven bytes.\<close>

definition rn_writes :: "(heartbeat \<Rightarrow> u8 list \<Rightarrow> u8 list) \<Rightarrow> (heartbeat \<Rightarrow> u8 list) \<Rightarrow> bool" where
  "rn_writes ser enc \<longleftrightarrow> (\<forall>h. serializes ser (\<lambda>_. 56) 7 h (enc h))"

section \<open>What waits\<close>

text \<open>The heartbeat that waits to be sent, with its transfer identifier, and the next identifier.\<close>

fun rn_track :: "(instant \<Rightarrow> u64) \<Rightarrow> rn_op \<Rightarrow> (heartbeat \<times> transfer_id) option \<times> transfer_id \<Rightarrow>
    (heartbeat \<times> transfer_id) option \<times> transfer_id" where
  "rn_track as_secs (RnTick status now) (w, t) = (Some (rn_message as_secs status now, t), transfer_id_next t)"
| "rn_track as_secs (RnPop pm m) (w, t) = (if ps_contains pm Nominal then None else w, t)"

definition rn_item :: "(heartbeat \<Rightarrow> u8 list) \<Rightarrow> heartbeat \<times> transfer_id \<Rightarrow> tx_item \<Rightarrow> bool" where
  "rn_item enc w i \<longleftrightarrow> (\<exists>meta crc. tm_transfer_id meta = snd w \<and> transfer_id_wf (snd w) \<and> length (enc (fst w)) = 7 \<and>
     i = tx_item_of meta None (enc (fst w)) 7 crc)"

definition rn_rel :: "(heartbeat \<Rightarrow> u8 list) \<Rightarrow> publisher \<times> signal \<Rightarrow> (heartbeat \<times> transfer_id) option \<times> transfer_id \<Rightarrow> bool" where
  "rn_rel enc = (\<lambda>(pb, st) (w, t). pb_priority pb = Nominal \<and> pb_transfer_id pb = t \<and> transfer_id_wf t \<and>
     (\<exists>A pad. sg_rep heartbeat_SUBJECT Nominal 7 st A pad \<and> (case w of
        None \<Rightarrow> A Nominal = []
      | Some x \<Rightarrow> \<exists>i. A Nominal = [i] \<and> rn_item enc x i)))"

lemma rn_item_fetch:
  assumes "rn_item enc (h, t) i"
  obtains d sc where "sc_fetch_frame_data (ti_scatter i) (ti_bytes i) m = Some (Some d, sc)"
    "sc_is_exhausted sc" "take 7 (data_deref d) = enc h" "\<not> started i"
    "last (data_deref d) = tail_into_u8 (tail_new True True SOT_TOGGLE_BIT t)"
proof -
  obtain meta crc where i: "i = tx_item_of meta None (enc h) 7 crc" "tm_transfer_id meta = t" "length (enc h) = 7"
    using assms unfolding rn_item_def by auto
  have sc: "sc_inv (ti_scatter i) (ti_bytes i)" "sc_offset (ti_scatter i) = 0" "sc_data_length (ti_scatter i) = 7"
    "sc_transfer_id (ti_scatter i) = t" "ti_bytes i = enc h"
    using i by (simp_all add: tx_item_of_def sc_new_def sc_inv_def)
  have "sc_data_length (ti_scatter i) < mtu_usize m" using mtu_cases [of m] sc(3) by auto
  then obtain d k where "sc_fetch_frame_data (ti_scatter i) (ti_bytes i) m =
      Some (Some d, ti_scatter i\<lparr> sc_offset := sc_data_length (ti_scatter i) + 2 \<rparr>)"
    "data_deref d = take (sc_data_length (ti_scatter i)) (ti_bytes i) @ replicate k PAD_VALUE @
      [tail_into_u8 (tail_new True True SOT_TOGGLE_BIT (sc_transfer_id (ti_scatter i)))]"
    by (rule sc_fetch_single [OF sc(1,2), of m]) blast
  then show ?thesis using that sc i(3) by (simp add: sc_is_exhausted_def started_def)
qed

lemma rn_pop:
  assumes rel: "rn_rel enc (pb, st) (w, t)"
  shows "\<exists>fr st'. sg_try_pop st pm m = Some (fr, st') \<and>
    rn_rel enc (pb, st') (if ps_contains pm Nominal then None else w, t) \<and>
    (case (if ps_contains pm Nominal then w else None) of
       None \<Rightarrow> fr = None
     | Some (h, u) \<Rightarrow> (\<exists>f. fr = Some f \<and> h_priority (f_header f) = Nominal \<and>
         h_data_spec (f_header f) = Message heartbeat_SUBJECT \<and> take 7 (data_deref (f_data f)) = enc h \<and>
         start_id f = Some u \<and> is_eot_frame f = Some True))"
proof -
  obtain A pad where r: "sg_rep heartbeat_SUBJECT Nominal 7 st A pad" "case w of
        None \<Rightarrow> A Nominal = [] | Some x \<Rightarrow> \<exists>i. A Nominal = [i] \<and> rn_item enc x i"
    using rel unfolding rn_rel_def by auto
  obtain fr st' A' where p: "sg_try_pop st pm m = Some (fr, st')" "sg_rep heartbeat_SUBJECT Nominal 7 st' A' pad"
    "tx_popped (Message heartbeat_SUBJECT) A pm m fr A'" using sg.pop_rep [OF r(1), of pm m] by blast
  have only: "A q = []" if "q \<noteq> Nominal" for q using sg_repD(7) [OF r(1)] that by (simp add: only_at_def)
  show ?thesis
  proof (cases "if ps_contains pm Nominal then w else None")
    case None
    then have "\<not> admitted (A q) pm q" for q
      using only [of q] r(2) by (cases "q = Nominal") (auto simp: admitted_def split: if_splits)
    then have "fr = None \<and> A' = A" using p(3) by (cases fr) (auto simp: tx_popped_def)
    then show ?thesis using p(1,2) r rel None by (auto simp: rn_rel_def split: if_splits)
  next
    case (Some x)
    obtain h u where x: "x = (h, u)" by (cases x)
    from Some have w: "w = Some (h, u)" "ps_contains pm Nominal" using x by (auto split: if_splits)
    then obtain i where i: "A Nominal = [i]" "rn_item enc (h, u) i" using r(2) by auto
    obtain d sc where d: "sc_fetch_frame_data (ti_scatter i) (ti_bytes i) m = Some (Some d, sc)"
      "sc_is_exhausted sc" "take 7 (data_deref d) = enc h" "\<not> started i"
      "last (data_deref d) = tail_into_u8 (tail_new True True SOT_TOGGLE_BIT u)"
      by (rule rn_item_fetch [OF i(2)])
    have ne: "data_deref d \<noteq> []" using d(3) i(2) by (auto simp: rn_item_def)
    have here: "admitted (A q) pm q \<longleftrightarrow> q = Nominal" for q
      using only [of q] i(1) w(2) by (cases "q = Nominal") (auto simp: admitted_def)
    then have fr: "fr = Some (tx_frame (Message heartbeat_SUBJECT) Nominal i d)" "A' = A(Nominal := [])"
      using p(3) i(1) d(1,2) by (auto simp: tx_popped_def tx_advance_def split: option.splits)
    have "transfer_id_wf u" using i(2) by (auto simp: rn_item_def)
    then have "start_id (tx_frame (Message heartbeat_SUBJECT) Nominal i d) = Some u"
      "is_eot_frame (tx_frame (Message heartbeat_SUBJECT) Nominal i d) = Some True"
      using d(5) ne by (simp_all add: start_id_def is_eot_frame_def tx_frame_def slice_last_def)
    moreover have "rn_rel enc (pb, st') (None, t)" using p(2) rel unfolding rn_rel_def fr(2) by auto
    ultimately show ?thesis using p(1) w d(3) by (simp add: fr(1) tx_frame_def)
  qed
qed

lemma rn_tick_rel:
  assumes rel: "rn_rel enc (pb, st) (w, t)" and ser: "rn_writes ser enc"
  shows "\<exists>x. rn_step as_secs sadd ser (RnTick status now) (pb, st) = Some x \<and>
    rn_rel enc x (rn_track as_secs (RnTick status now) (w, t))"
proof -
  obtain A pad where r: "sg_rep heartbeat_SUBJECT Nominal 7 st A pad" "case w of
        None \<Rightarrow> A Nominal = [] | Some x \<Rightarrow> \<exists>i. A Nominal = [i] \<and> rn_item enc x i"
    and pb: "pb_priority pb = Nominal" "pb_transfer_id pb = t" "transfer_id_wf t"
    using rel unfolding rn_rel_def by auto
  define h where "h = rn_message as_secs status now"
  let ?meta = "pb_meta pb (sadd now (pb_timeout pb))"
  have ready: "ps_contains (sg_push_readiness st) (pb_priority pb)"
    using sg_push_readiness_rep [OF r(1)] pb(1) by simp
  have addr: "msg_address ?meta = Inr None" by (simp add: pb_meta_def msg_address_def)
  have w: "serializes ser (\<lambda>_. 56) 7 h (enc h)" using ser unfolding rn_writes_def by blast
  then have len: "length (enc h) = 7" by (simp add: serializes_def div_ceil_def)
  obtain st' A' b where p:
    "pb_try_push sadd (ep_try_push sg_get_scratchpad sg_write_scratchpad sg_try_push ser (\<lambda>_. 56)) pb st now h =
      Some (Inr (), pb\<lparr> pb_transfer_id := transfer_id_next (pb_transfer_id pb) \<rparr>, st')"
    "may_drop_unsent A A'" "take (length (enc h)) b = enc h" "length b = 7"
    "sg_rep heartbeat_SUBJECT Nominal 7 st' (replace_item A' Nominal (tx_item_of ?meta None b
       (length (enc h)) (crc_add_bytes crc_default (enc h)))) None"
    using sg.pb_try_push_accepted [where payload = h and pb = pb and now = now and sadd = sadd, OF r(1) w addr ready]
    unfolding pb(1) by blast
  have b: "b = enc h" using p(3,4) len by simp
  have "A' = A" using p(2) r(2) sg_repD(7) [OF r(1)]
    by (auto simp: may_drop_unsent_def only_at_def split: option.splits if_splits)
  moreover have "filter started (A Nominal) = []"
    using r(2) by (auto simp: rn_item_def started_def tx_item_of_def sc_new_def split: option.splits)
  ultimately have "replace_item A' Nominal i Nominal = [i]" for i by (simp add: replace_item_def)
  moreover have "rn_item enc (h, t) (tx_item_of ?meta None b (length (enc h)) (crc_add_bytes crc_default (enc h)))"
    unfolding rn_item_def using len pb(2,3)
    by (intro exI [of _ ?meta] exI [of _ "crc_add_bytes crc_default (enc h)"]) (simp add: b pb_meta_def)
  ultimately have "rn_rel enc (pb\<lparr> pb_transfer_id := transfer_id_next (pb_transfer_id pb) \<rparr>, st')
      (Some (h, t), transfer_id_next t)"
    unfolding rn_rel_def using p(5) pb by auto
  then show ?thesis using p(1) by (simp add: rn_tick_def h_def)
qed

lemma rn_run:
  assumes "rn_rel enc x y" "rn_writes ser enc"
  shows "\<exists>x'. for_each (rn_step as_secs sadd ser) ops x = Some x' \<and> rn_rel enc x' (fold (rn_track as_secs) ops y)"
  using assms(1)
proof (induction ops arbitrary: x y)
  case (Cons op ops)
  obtain pb st w t where xy: "x = (pb, st)" "y = (w, t)" by (cases x; cases y)
  have "\<exists>x1. rn_step as_secs sadd ser op x = Some x1 \<and> rn_rel enc x1 (rn_track as_secs op y)"
  proof (cases op)
    case (RnTick status now)
    then show ?thesis using rn_tick_rel [OF Cons.prems [unfolded xy] assms(2)] by (simp add: xy)
  next
    case (RnPop pm m)
    then show ?thesis using rn_pop [OF Cons.prems [unfolded xy], of pm m] by (auto simp: xy)
  qed
  then obtain x1 where x1: "rn_step as_secs sadd ser op x = Some x1" "rn_rel enc x1 (rn_track as_secs op y)" by blast
  from Cons.IH [OF x1(2)] show ?case using x1(1) by simp
qed simp

text \<open>
  C10: The heartbeats of a minimal node. However the periods of the runner and the fetches of the
  driver follow each other, the runner never panics, and no heartbeat is refused: when the driver
  then asks for a frame, it gets the newest heartbeat, with the uptime and the status it was made of,
  if that was not sent yet, and nothing otherwise. The frame is a whole transfer, and the transfer
  identifiers count the heartbeats, those that were replaced included.
\<close>

theorem heartbeat_newest_sent:
  assumes "rn_writes ser enc"
  shows "\<exists>st0 pb st fr st'. sg_new heartbeat_SUBJECT Nominal [replicate 7 0, replicate 7 0] = Some st0 \<and>
    for_each (rn_step as_secs sadd ser) ops (rn_publisher timeout, st0) = Some (pb, st) \<and>
    sg_try_pop st ps_ALL m = Some (fr, st') \<and>
    (case fst (fold (rn_track as_secs) ops (None, TransferId 0)) of
       None \<Rightarrow> fr = None
     | Some (h, t) \<Rightarrow> (\<exists>f. fr = Some f \<and> h_priority (f_header f) = Nominal \<and>
         h_data_spec (f_header f) = Message heartbeat_SUBJECT \<and> take 7 (data_deref (f_data f)) = enc h \<and>
         start_id f = Some t \<and> is_eot_frame f = Some True))"
proof -
  obtain st0 where st0: "sg_new heartbeat_SUBJECT Nominal [replicate 7 0, replicate 7 0] = Some st0"
    "sg_rep heartbeat_SUBJECT Nominal 7 st0 (\<lambda>p. []) None"
    using sg_new_rep [of "[replicate 7 0, replicate 7 0]" 7] by (auto simp: BUFFER_COUNT_def)
  then have "rn_rel enc (rn_publisher timeout, st0) (None, TransferId 0)"
    by (auto simp: rn_rel_def rn_publisher_def pb_create_def transfer_id_wf_def)
  from rn_run [OF this assms] obtain x' where run:
    "for_each (rn_step as_secs sadd ser) ops (rn_publisher timeout, st0) = Some x'"
    "rn_rel enc x' (fold (rn_track as_secs) ops (None, TransferId 0))" by blast
  obtain pb st w t where xy: "x' = (pb, st)" "fold (rn_track as_secs) ops (None, TransferId 0) = (w, t)"
    by (cases x'; cases "fold (rn_track as_secs) ops (None, TransferId 0)")
  from rn_pop [OF run(2) [unfolded xy], of ps_ALL m] show ?thesis using st0(1) run(1) xy by auto
qed

definition sample_encode :: "heartbeat \<Rightarrow> u8 list" where
  "sample_encode h = [ucast (hbt_uptime h), ucast (drop_bit 8 (hbt_uptime h)), ucast (drop_bit 16 (hbt_uptime h)),
     ucast (drop_bit 24 (hbt_uptime h)), 0, 0, hbt_vendor_specific_status_code h]"

lemma heartbeat_newest_sent_witness:
  "\<exists>st0 pb st fr st'. sg_new heartbeat_SUBJECT Nominal [replicate 7 0, replicate 7 0] = Some st0 \<and>
    for_each (rn_step id (+) (\<lambda>h b. sample_encode h)) [RnTick status_default 5, RnTick status_default 6]
      (rn_publisher 1, st0) = Some (pb, st) \<and>
    sg_try_pop st ps_ALL Fd = Some (fr, st') \<and>
    (\<exists>f. fr = Some f \<and> take 7 (data_deref (f_data f)) = [6, 0, 0, 0, 0, 0, 0] \<and> start_id f = Some (TransferId 1))"
proof -
  have "rn_writes (\<lambda>h b. sample_encode h) sample_encode"
    by (simp add: rn_writes_def serializes_def sample_encode_def div_ceil_def)
  note r = heartbeat_newest_sent [OF this, of id "(+)" "[RnTick status_default 5, RnTick status_default 6]" 1 Fd]
  have w: "fst (fold (rn_track id) [RnTick status_default 5, RnTick status_default 6] (None, TransferId 0)) =
      Some (rn_message id status_default 6, TransferId 1)" by code_simp
  have "sample_encode (rn_message id status_default 6) = [6, 0, 0, 0, 0, 0, 0]" by code_simp
  with r show ?thesis unfolding w by auto
qed

end
