(* ===== verification/Can_Id.thy ===== *)
theory Can_Id
  imports Frames
begin

text \<open>
  The 29-bit identifiers of Cyphal/CAN frames, \<open>emcyphal-stm32-native/src/format.rs\<close>, with the
  functions of \<open>raw.rs\<close> that make an identifier of a header and a header of an identifier.
\<close>

section \<open>Layout\<close>

definition lsb_mask :: "nat \<Rightarrow> u32" where
  "lsb_mask n = (if 0 < n then drop_bit (32 - n) 0xFFFFFFFF else 0)"

definition CAN_ID_MASK :: u32 where "CAN_ID_MASK = lsb_mask 29"
definition NODE_ID_MASK :: u32 where "NODE_ID_MASK = lsb_mask 7"
definition SUBJECT_ID_MASK :: u32 where "SUBJECT_ID_MASK = lsb_mask 13"
definition SERVICE_ID_MASK :: u32 where "SERVICE_ID_MASK = lsb_mask 9"
definition PRIORITY_MASK :: u32 where "PRIORITY_MASK = lsb_mask 3"

definition PRIORITY_OFFSET :: nat where "PRIORITY_OFFSET = 26"
definition SOURCE_OFFSET :: nat where "SOURCE_OFFSET = 0"
definition MSG_SUBJECT_OFFSET :: nat where "MSG_SUBJECT_OFFSET = 8"
definition SRV_DESTINATION_OFFSET :: nat where "SRV_DESTINATION_OFFSET = 7"
definition SRV_SERVICE_OFFSET :: nat where "SRV_SERVICE_OFFSET = 14"

definition SERVICE_FLAG :: u32 where "SERVICE_FLAG = push_bit 25 1"
definition RES_23_FLAG :: u32 where "RES_23_FLAG = push_bit 23 1"
definition MSG_ANONYMOUS_FLAG :: u32 where "MSG_ANONYMOUS_FLAG = push_bit 24 1"
definition MSG_RES_7_FLAG :: u32 where "MSG_RES_7_FLAG = push_bit 7 1"
definition SRV_REQUEST_FLAG :: u32 where "SRV_REQUEST_FLAG = push_bit 24 1"

definition MSG_CHECK_MASK :: u32 where
  "MSG_CHECK_MASK = SERVICE_FLAG OR RES_23_FLAG OR MSG_RES_7_FLAG"

definition MSG_CHECK_VALUE :: u32 where "MSG_CHECK_VALUE = 0"

definition MSG_IGNORE_MASK :: u32 where
  "MSG_IGNORE_MASK = CAN_ID_MASK AND NOT MSG_CHECK_MASK AND NOT (push_bit PRIORITY_OFFSET PRIORITY_MASK)
     AND NOT MSG_ANONYMOUS_FLAG AND NOT (push_bit MSG_SUBJECT_OFFSET SUBJECT_ID_MASK)
     AND NOT (push_bit SOURCE_OFFSET NODE_ID_MASK)"

definition SRV_CHECK_MASK :: u32 where "SRV_CHECK_MASK = SERVICE_FLAG OR RES_23_FLAG"

definition SRV_CHECK_VALUE :: u32 where "SRV_CHECK_VALUE = SERVICE_FLAG"

definition SRV_IGNORE_MASK :: u32 where
  "SRV_IGNORE_MASK = CAN_ID_MASK AND NOT SRV_CHECK_MASK AND NOT (push_bit PRIORITY_OFFSET PRIORITY_MASK)
     AND NOT SRV_REQUEST_FLAG AND NOT (push_bit SRV_SERVICE_OFFSET SERVICE_ID_MASK)
     AND NOT (push_bit SRV_DESTINATION_OFFSET NODE_ID_MASK) AND NOT (push_bit SOURCE_OFFSET NODE_ID_MASK)"

definition MSG_FILTER_MASK :: u32 where
  "MSG_FILTER_MASK = MSG_CHECK_MASK OR push_bit MSG_SUBJECT_OFFSET SUBJECT_ID_MASK"

definition SRV_FILTER_MASK :: u32 where
  "SRV_FILTER_MASK = SRV_CHECK_MASK OR push_bit SRV_DESTINATION_OFFSET NODE_ID_MASK"

section \<open>Patterns of the filters\<close>

definition make_msg_filter_pattern :: "subject_id option \<Rightarrow> u32" where
  "make_msg_filter_pattern val = (case val of
     Some subject \<Rightarrow> MSG_CHECK_VALUE OR push_bit MSG_SUBJECT_OFFSET (ucast (subject_id_into_u16 subject))
   | None \<Rightarrow> NOT MSG_FILTER_MASK AND CAN_ID_MASK)"

definition decode_msg_filter_pattern :: "u32 \<Rightarrow> subject_id option" where
  "decode_msg_filter_pattern pattern =
     (if pattern AND NOT MSG_FILTER_MASK = 0
      then Some (subject_id_from_u16_truncating (ucast (drop_bit MSG_SUBJECT_OFFSET pattern))) else None)"

definition make_srv_filter_pattern :: "node_id option \<Rightarrow> u32" where
  "make_srv_filter_pattern dest = (case dest of
     Some node \<Rightarrow> SRV_CHECK_VALUE OR push_bit SRV_DESTINATION_OFFSET (ucast (node_id_into_u8 node))
   | None \<Rightarrow> NOT SRV_CHECK_MASK AND CAN_ID_MASK)"

definition decode_srv_filter_pattern :: "u32 \<Rightarrow> node_id option" where
  "decode_srv_filter_pattern pattern =
     (if pattern AND NOT SRV_FILTER_MASK = 0
      then Some (node_id_from_u8_truncating (ucast (drop_bit SRV_DESTINATION_OFFSET pattern))) else None)"

section \<open>Identifiers of messages\<close>

datatype message_can_id = MessageCanId (message_can_id_into_u32: u32)

definition mi_new :: message_can_id where
  "mi_new = MessageCanId (MSG_CHECK_VALUE OR MSG_IGNORE_MASK)"

definition mi_from_can_id :: "u32 \<Rightarrow> message_can_id option" where
  "mi_from_can_id can_id =
     (if can_id AND MSG_CHECK_MASK = MSG_CHECK_VALUE
      then Some (MessageCanId (can_id AND CAN_ID_MASK OR MSG_IGNORE_MASK)) else None)"

definition mi_priority :: "message_can_id \<Rightarrow> priority" where
  "mi_priority i = priority_from_u8_truncating (ucast (drop_bit PRIORITY_OFFSET (message_can_id_into_u32 i)))"

definition mi_set_priority :: "priority \<Rightarrow> message_can_id \<Rightarrow> message_can_id" where
  "mi_set_priority value i = MessageCanId
     ((message_can_id_into_u32 i AND NOT (push_bit PRIORITY_OFFSET PRIORITY_MASK))
      OR push_bit PRIORITY_OFFSET (ucast (priority_into_u8 value)))"

definition mi_anonymous :: "message_can_id \<Rightarrow> bool" where
  "mi_anonymous i \<longleftrightarrow> message_can_id_into_u32 i AND MSG_ANONYMOUS_FLAG \<noteq> 0"

definition mi_set_anonymous :: "bool \<Rightarrow> message_can_id \<Rightarrow> message_can_id" where
  "mi_set_anonymous value i = MessageCanId
     (if value then message_can_id_into_u32 i OR MSG_ANONYMOUS_FLAG
      else message_can_id_into_u32 i AND NOT MSG_ANONYMOUS_FLAG)"

definition mi_subject :: "message_can_id \<Rightarrow> subject_id" where
  "mi_subject i = subject_id_from_u16_truncating (ucast (drop_bit MSG_SUBJECT_OFFSET (message_can_id_into_u32 i)))"

definition mi_set_subject :: "subject_id \<Rightarrow> message_can_id \<Rightarrow> message_can_id" where
  "mi_set_subject value i = MessageCanId
     ((message_can_id_into_u32 i AND NOT (push_bit MSG_SUBJECT_OFFSET SUBJECT_ID_MASK))
      OR push_bit MSG_SUBJECT_OFFSET (ucast (subject_id_into_u16 value)))"

definition mi_source :: "message_can_id \<Rightarrow> node_id" where
  "mi_source i = node_id_from_u8_truncating (ucast (drop_bit SOURCE_OFFSET (message_can_id_into_u32 i)))"

definition mi_set_source :: "node_id \<Rightarrow> message_can_id \<Rightarrow> message_can_id" where
  "mi_set_source value i = MessageCanId
     ((message_can_id_into_u32 i AND NOT (push_bit SOURCE_OFFSET NODE_ID_MASK))
      OR push_bit SOURCE_OFFSET (ucast (node_id_into_u8 value)))"

section \<open>Identifiers of services\<close>

datatype service_can_id = ServiceCanId (service_can_id_into_u32: u32)

definition si_new :: service_can_id where
  "si_new = ServiceCanId (SRV_CHECK_VALUE OR SRV_IGNORE_MASK)"

definition si_from_can_id :: "u32 \<Rightarrow> service_can_id option" where
  "si_from_can_id can_id =
     (if can_id AND SRV_CHECK_MASK = SRV_CHECK_VALUE
      then Some (ServiceCanId (can_id AND CAN_ID_MASK OR SRV_IGNORE_MASK)) else None)"

definition si_priority :: "service_can_id \<Rightarrow> priority" where
  "si_priority i = priority_from_u8_truncating (ucast (drop_bit PRIORITY_OFFSET (service_can_id_into_u32 i)))"

definition si_set_priority :: "priority \<Rightarrow> service_can_id \<Rightarrow> service_can_id" where
  "si_set_priority value i = ServiceCanId
     ((service_can_id_into_u32 i AND NOT (push_bit PRIORITY_OFFSET PRIORITY_MASK))
      OR push_bit PRIORITY_OFFSET (ucast (priority_into_u8 value)))"

definition si_request :: "service_can_id \<Rightarrow> bool" where
  "si_request i \<longleftrightarrow> service_can_id_into_u32 i AND SRV_REQUEST_FLAG \<noteq> 0"

definition si_set_request :: "bool \<Rightarrow> service_can_id \<Rightarrow> service_can_id" where
  "si_set_request value i = ServiceCanId
     (if value then service_can_id_into_u32 i OR SRV_REQUEST_FLAG
      else service_can_id_into_u32 i AND NOT SRV_REQUEST_FLAG)"

definition si_service :: "service_can_id \<Rightarrow> service_id" where
  "si_service i = service_id_from_u16_truncating (ucast (drop_bit SRV_SERVICE_OFFSET (service_can_id_into_u32 i)))"

definition si_set_service :: "service_id \<Rightarrow> service_can_id \<Rightarrow> service_can_id" where
  "si_set_service value i = ServiceCanId
     ((service_can_id_into_u32 i AND NOT (push_bit SRV_SERVICE_OFFSET SERVICE_ID_MASK))
      OR push_bit SRV_SERVICE_OFFSET (ucast (service_id_into_u16 value)))"

definition si_destination :: "service_can_id \<Rightarrow> node_id" where
  "si_destination i = node_id_from_u8_truncating (ucast (drop_bit SRV_DESTINATION_OFFSET (service_can_id_into_u32 i)))"

definition si_set_destination :: "node_id \<Rightarrow> service_can_id \<Rightarrow> service_can_id" where
  "si_set_destination value i = ServiceCanId
     ((service_can_id_into_u32 i AND NOT (push_bit SRV_DESTINATION_OFFSET NODE_ID_MASK))
      OR push_bit SRV_DESTINATION_OFFSET (ucast (node_id_into_u8 value)))"

definition si_source :: "service_can_id \<Rightarrow> node_id" where
  "si_source i = node_id_from_u8_truncating (ucast (drop_bit SOURCE_OFFSET (service_can_id_into_u32 i)))"

definition si_set_source :: "node_id \<Rightarrow> service_can_id \<Rightarrow> service_can_id" where
  "si_set_source value i = ServiceCanId
     ((service_can_id_into_u32 i AND NOT (push_bit SOURCE_OFFSET NODE_ID_MASK))
      OR push_bit SOURCE_OFFSET (ucast (node_id_into_u8 value)))"

section \<open>Headers\<close>

datatype invalid_frame_header = InvalidFrameHeader

definition make_can_id :: "header \<Rightarrow> invalid_frame_header + u32" where
  "make_can_id h = (case (h_data_spec h, h_destination h, h_source h) of
     (Message subject, None, Some src) \<Rightarrow>
       Inr (message_can_id_into_u32 (mi_set_source src (mi_set_subject subject
         (mi_set_anonymous False (mi_set_priority (h_priority h) mi_new)))))
   | (Request service, Some dst, Some src) \<Rightarrow>
       Inr (service_can_id_into_u32 (si_set_source src (si_set_destination dst (si_set_service service
         (si_set_request True (si_set_priority (h_priority h) si_new))))))
   | (Response service, Some dst, Some src) \<Rightarrow>
       Inr (service_can_id_into_u32 (si_set_source src (si_set_destination dst (si_set_service service
         (si_set_request False (si_set_priority (h_priority h) si_new))))))
   | _ \<Rightarrow> Inl InvalidFrameHeader)"

definition load_msg_frame_header :: "u32 \<Rightarrow> header option" where
  "load_msg_frame_header can_id = do {
     msg_id \<leftarrow> mi_from_can_id can_id;
     Some \<lparr> h_priority = mi_priority msg_id, h_data_spec = Message (mi_subject msg_id),
       h_source = (if \<not> mi_anonymous msg_id then Some (mi_source msg_id) else None),
       h_destination = None \<rparr>
   }"

definition load_srv_frame_header :: "u32 \<Rightarrow> header option" where
  "load_srv_frame_header can_id = do {
     srv_id \<leftarrow> si_from_can_id can_id;
     Some \<lparr> h_priority = si_priority srv_id,
       h_data_spec = (if si_request srv_id then Request (si_service srv_id) else Response (si_service srv_id)),
       h_source = Some (si_source srv_id), h_destination = Some (si_destination srv_id) \<rparr>
   }"

section \<open>Bit fields\<close>

text \<open>A field of \<open>w\<close> bits at offset \<open>o\<close>, read and written.\<close>

definition field_get :: "nat \<Rightarrow> nat \<Rightarrow> u32 \<Rightarrow> u32" where
  "field_get off w x = drop_bit off x AND mask w"

definition field_set :: "nat \<Rightarrow> nat \<Rightarrow> u32 \<Rightarrow> u32 \<Rightarrow> u32" where
  "field_set off w v x = (x AND NOT (push_bit off (mask w))) OR push_bit off v"

lemma bit_field_get: "bit (field_get off w x) n \<longleftrightarrow> n < w \<and> bit x (off + n)"
  by (auto simp: field_get_def bit_and_iff bit_drop_bit_eq bit_mask_iff dest: bit_imp_le_length)

lemma bit_field_set:
  assumes "v AND mask w = v"
  shows "bit (field_set off w v x) n \<longleftrightarrow>
    n < 32 \<and> (if off \<le> n \<and> n < off + w then bit v (n - off) else bit x n)"
proof -
  have v: "bit v k \<Longrightarrow> k < w" for k
    using assms by (metis bit_and_iff bit_mask_iff)
  show ?thesis
    using v [of "n - off"] by (auto simp: field_set_def bit_or_iff bit_and_iff bit_not_iff bit_push_bit_iff bit_mask_iff
      dest: bit_imp_le_length)
qed

lemma field_get_set:
  assumes "v AND mask w = v" "off + w \<le> 32"
  shows "field_get off w (field_set off w v x) = v"
proof (rule bit_word_eqI)
  fix n assume "n < LENGTH(32)"
  have "bit v n \<Longrightarrow> n < w" using assms(1) by (metis bit_and_iff bit_mask_iff)
  then show "bit (field_get off w (field_set off w v x)) n = bit v n"
    using assms(2) by (auto simp: bit_field_get bit_field_set [OF assms(1)])
qed

lemma field_get_set_other:
  assumes "v AND mask w = v" "off' + w' \<le> off \<or> off + w \<le> off'"
  shows "field_get off' w' (field_set off w v x) = field_get off' w' x"
  by (rule bit_word_eqI) (use assms(2) in \<open>auto simp: bit_field_get bit_field_set [OF assms(1)] dest: bit_imp_le_length\<close>)

lemma field_get_bit: "field_get off w x = field_get off w y \<Longrightarrow> off \<le> n \<Longrightarrow> n < off + w \<Longrightarrow> bit x n = bit y n"
  using bit_field_get [of off w x "n - off"] bit_field_get [of off w y "n - off"] by auto


lemma field_get_and_or:
  assumes "off + w \<le> n" "n \<le> 32" "field_get off w m = 0"
  shows "field_get off w (x AND mask n OR m) = field_get off w x"
proof (rule bit_word_eqI)
  fix k assume "k < LENGTH(32)"
  have "\<not> (k < w \<and> bit m (off + k))" using assms(3) bit_field_get [of off w m k] by simp
  then show "bit (field_get off w (x AND mask n OR m)) k = bit (field_get off w x) k"
    using assms(1,2) by (auto simp: bit_field_get bit_or_iff bit_and_iff bit_mask_iff dest: bit_imp_le_length)
qed

lemma flag_set: "x OR push_bit off 1 = field_set off 1 1 x" "x AND NOT (push_bit off 1) = field_set off 1 0 x"
  by (rule bit_word_eqI, auto simp: field_set_def bit_or_iff bit_and_iff bit_not_iff bit_push_bit_iff bit_mask_iff bit_1_iff)+

lemma flag_get: "x AND push_bit off 1 \<noteq> 0 \<longleftrightarrow> field_get off 1 x \<noteq> 0"
proof -
  have "x AND push_bit off 1 = push_bit off (field_get off 1 x)"
    by (rule bit_word_eqI)
      (auto simp: bit_field_get bit_and_iff bit_push_bit_iff bit_1_iff bit_exp_iff dest: bit_imp_le_length)
  moreover have "push_bit off (field_get off 1 x) = 0 \<longleftrightarrow> field_get off 1 x = 0"
  proof
    assume zero: "push_bit off (field_get off 1 x) = 0"
    show "field_get off 1 x = 0"
    proof (rule bit_word_eqI)
      fix k assume "k < LENGTH(32)"
      have "\<not> bit (push_bit off (field_get off 1 x)) (off + k)" by (subst zero) simp
      then show "bit (field_get off 1 x) k = bit (0 :: u32) k"
        by (auto simp: bit_push_bit_iff bit_field_get dest: bit_imp_le_length)
    qed
  qed simp
  ultimately show ?thesis by simp
qed

lemma and_zero_split: "x AND (a OR b) = (0 :: u32) \<longleftrightarrow> x AND a = 0 \<and> x AND b = 0"
  by (auto simp: bit_eq_iff bit_and_iff bit_or_iff)

named_theorems field_simps \<open>identifiers as fields\<close>

lemma id_layout [field_simps]:
  "CAN_ID_MASK = mask 29" "NODE_ID_MASK = mask 7" "SUBJECT_ID_MASK = mask 13" "SERVICE_ID_MASK = mask 9"
  "PRIORITY_MASK = mask 3" "MSG_IGNORE_MASK = 0x600000" "SRV_IGNORE_MASK = 0" "MSG_CHECK_VALUE = 0"
  "SRV_CHECK_VALUE = push_bit 25 1"
  by (simp_all add: CAN_ID_MASK_def NODE_ID_MASK_def SUBJECT_ID_MASK_def SERVICE_ID_MASK_def PRIORITY_MASK_def
      MSG_IGNORE_MASK_def SRV_IGNORE_MASK_def MSG_CHECK_VALUE_def SRV_CHECK_VALUE_def lsb_mask_def MSG_CHECK_MASK_def
      SRV_CHECK_MASK_def SERVICE_FLAG_def RES_23_FLAG_def MSG_RES_7_FLAG_def MSG_ANONYMOUS_FLAG_def SRV_REQUEST_FLAG_def
      PRIORITY_OFFSET_def MSG_SUBJECT_OFFSET_def SOURCE_OFFSET_def SRV_SERVICE_OFFSET_def SRV_DESTINATION_OFFSET_def
      mask_eq_exp_minus_1)

lemmas offset_defs [field_simps] =
  PRIORITY_OFFSET_def MSG_SUBJECT_OFFSET_def SOURCE_OFFSET_def SRV_SERVICE_OFFSET_def SRV_DESTINATION_OFFSET_def

text \<open>The values that go into the fields fit.\<close>

lemma fits [field_simps]:
  "ucast (priority_into_u8 p) AND mask 3 = (ucast (priority_into_u8 p) :: u32)"
  "(1 :: u32) AND mask 1 = 1" "(0 :: u32) AND mask 1 = 0"
  by (cases p; simp add: mask_eq_exp_minus_1) (simp_all add: mask_eq_exp_minus_1)

lemma ucast_fits:
  assumes "(w :: 'a :: len word) AND mask k = w"
  shows "ucast w AND mask k = (ucast w :: u32)"
proof (rule bit_word_eqI)
  fix n assume "n < LENGTH(32)"
  have "bit w n \<Longrightarrow> n < k" using assms by (metis bit_and_iff bit_mask_iff)
  then show "bit (ucast w AND mask k :: u32) n = bit (ucast w :: u32) n" by (auto simp: bit_simps)
qed

lemma id_fits:
  "node_id_wf n \<Longrightarrow> ucast (node_id_into_u8 n) AND mask 7 = (ucast (node_id_into_u8 n) :: u32)"
  "subject_id_wf s \<Longrightarrow> ucast (subject_id_into_u16 s) AND mask 13 = (ucast (subject_id_into_u16 s) :: u32)"
  "service_id_wf r \<Longrightarrow> ucast (service_id_into_u16 r) AND mask 9 = (ucast (service_id_into_u16 r) :: u32)"
  by (simp_all add: node_id_wf_def subject_id_wf_def service_id_wf_def id_masks ucast_fits word_and_mask_id)

lemma truncated_fields:
  "priority_from_u8_truncating (ucast (drop_bit off x)) = priority_from_u8_truncating (ucast (field_get off 3 x))"
  "node_id_from_u8_truncating (ucast (drop_bit off x)) = NodeId (ucast (field_get off 7 x))"
  "subject_id_from_u16_truncating (ucast (drop_bit off x)) = SubjectId (ucast (field_get off 13 x))"
  "service_id_from_u16_truncating (ucast (drop_bit off x)) = ServiceId (ucast (field_get off 9 x))"
proof -
  have low: "ucast (field_get off w x) = (ucast (drop_bit off x) AND mask w :: 'a :: len word)" for w
    by (rule bit_word_eqI) (auto simp: field_get_def bit_simps dest: bit_imp_le_length)
  have "(mask 3 :: u8) = 7" by (simp add: mask_eq_exp_minus_1)
  then have "(ucast (field_get off 3 x) :: u8) AND 7 = ucast (drop_bit off x) AND 7" by (simp add: low and.assoc)
  then show "priority_from_u8_truncating (ucast (drop_bit off x)) = priority_from_u8_truncating (ucast (field_get off 3 x))"
    by (simp add: priority_from_u8_truncating_def)
  show "node_id_from_u8_truncating (ucast (drop_bit off x)) = NodeId (ucast (field_get off 7 x))"
    "subject_id_from_u16_truncating (ucast (drop_bit off x)) = SubjectId (ucast (field_get off 13 x))"
    "service_id_from_u16_truncating (ucast (drop_bit off x)) = ServiceId (ucast (field_get off 9 x))"
    by (simp_all add: low node_id_from_u8_truncating_def subject_id_from_u16_truncating_def
        service_id_from_u16_truncating_def id_masks)
qed

lemma ucast_back [simp]:
  "ucast (ucast (b :: u8) :: u32) = b" "ucast (ucast (c :: u16) :: u32) = c"
  by (rule bit_word_eqI, auto simp: bit_simps)+


section \<open>Identifiers as fields\<close>

lemma fields_message [field_simps]:
  "mi_new = MessageCanId 0x600000"
  "mi_set_priority p i = MessageCanId (field_set 26 3 (ucast (priority_into_u8 p)) (message_can_id_into_u32 i))"
  "mi_set_anonymous b i = MessageCanId (field_set 24 1 (of_bool b) (message_can_id_into_u32 i))"
  "mi_set_subject s i = MessageCanId (field_set 8 13 (ucast (subject_id_into_u16 s)) (message_can_id_into_u32 i))"
  "mi_set_source n i = MessageCanId (field_set 0 7 (ucast (node_id_into_u8 n)) (message_can_id_into_u32 i))"
  "mi_priority i = priority_from_u8_truncating (ucast (field_get 26 3 (message_can_id_into_u32 i)))"
  "mi_anonymous i \<longleftrightarrow> field_get 24 1 (message_can_id_into_u32 i) \<noteq> 0"
  "mi_subject i = SubjectId (ucast (field_get 8 13 (message_can_id_into_u32 i)))"
  "mi_source i = NodeId (ucast (field_get 0 7 (message_can_id_into_u32 i)))"
  unfolding mi_new_def mi_set_priority_def mi_set_anonymous_def mi_set_subject_def mi_set_source_def mi_priority_def
    mi_anonymous_def mi_subject_def mi_source_def MSG_ANONYMOUS_FLAG_def id_layout offset_defs flag_set flag_get
    truncated_fields(2-4) by (simp_all add: field_set_def truncated_fields(1) [symmetric])

lemma fields_service [field_simps]:
  "si_new = ServiceCanId (push_bit 25 1)"
  "si_set_priority p j = ServiceCanId (field_set 26 3 (ucast (priority_into_u8 p)) (service_can_id_into_u32 j))"
  "si_set_request b j = ServiceCanId (field_set 24 1 (of_bool b) (service_can_id_into_u32 j))"
  "si_set_service r j = ServiceCanId (field_set 14 9 (ucast (service_id_into_u16 r)) (service_can_id_into_u32 j))"
  "si_set_destination n j = ServiceCanId (field_set 7 7 (ucast (node_id_into_u8 n)) (service_can_id_into_u32 j))"
  "si_set_source n j = ServiceCanId (field_set 0 7 (ucast (node_id_into_u8 n)) (service_can_id_into_u32 j))"
  "si_priority j = priority_from_u8_truncating (ucast (field_get 26 3 (service_can_id_into_u32 j)))"
  "si_request j \<longleftrightarrow> field_get 24 1 (service_can_id_into_u32 j) \<noteq> 0"
  "si_service j = ServiceId (ucast (field_get 14 9 (service_can_id_into_u32 j)))"
  "si_destination j = NodeId (ucast (field_get 7 7 (service_can_id_into_u32 j)))"
  "si_source j = NodeId (ucast (field_get 0 7 (service_can_id_into_u32 j)))"
  unfolding si_new_def si_set_priority_def si_set_request_def si_set_service_def si_set_destination_def si_set_source_def
    si_priority_def si_request_def si_service_def si_destination_def si_source_def SRV_REQUEST_FLAG_def id_layout
    offset_defs flag_set flag_get truncated_fields(2-4)
  by (simp_all add: field_set_def truncated_fields(1) [symmetric])

lemma two_flags:
  assumes "a \<noteq> b" "a < 32" "b < 32"
  shows "x AND (push_bit a 1 OR push_bit b 1) = (push_bit a 1 :: u32) \<longleftrightarrow> bit x a \<and> \<not> bit x b"
proof
  assume *: "x AND (push_bit a 1 OR push_bit b 1) = push_bit a 1"
  have "bit (x AND (push_bit a 1 OR push_bit b 1)) a \<and> \<not> bit (x AND (push_bit a 1 OR push_bit b 1)) b"
    unfolding * using assms by (simp add: bit_exp_iff)
  then show "bit x a \<and> \<not> bit x b" using assms by (auto simp: bit_and_iff bit_or_iff bit_exp_iff)
next
  assume "bit x a \<and> \<not> bit x b"
  then show "x AND (push_bit a 1 OR push_bit b 1) = push_bit a 1"
    by (intro bit_word_eqI) (auto simp: bit_and_iff bit_or_iff bit_exp_iff)
qed

lemma field_bit: "field_get n 1 x \<noteq> 0 \<longleftrightarrow> bit x n"
proof -
  have b: "bit (field_get n 1 x) k \<longleftrightarrow> k = 0 \<and> bit x n" for k by (auto simp: bit_field_get)
  have "field_get n 1 x = 0" if "\<not> bit x n" by (rule bit_word_eqI) (simp only: b that bit_0_eq, simp)
  moreover have "\<not> bit x n" if "field_get n 1 x = 0" using b [of 0] unfolding that by simp
  ultimately show ?thesis by blast
qed

lemma fields_checked [field_simps]:
  "mi_from_can_id x = (if field_get 25 1 x = 0 \<and> field_get 23 1 x = 0 \<and> field_get 7 1 x = 0
     then Some (MessageCanId (x AND mask 29 OR 0x600000)) else None)"
  "si_from_can_id x = (if field_get 25 1 x \<noteq> 0 \<and> field_get 23 1 x = 0
     then Some (ServiceCanId (x AND mask 29)) else None)"
proof -
  have clear: "x AND push_bit n 1 = 0 \<longleftrightarrow> field_get n 1 x = 0" for n using flag_get [of x n] by blast
  show "mi_from_can_id x = (if field_get 25 1 x = 0 \<and> field_get 23 1 x = 0 \<and> field_get 7 1 x = 0
     then Some (MessageCanId (x AND mask 29 OR 0x600000)) else None)"
    unfolding mi_from_can_id_def id_layout MSG_CHECK_MASK_def SERVICE_FLAG_def RES_23_FLAG_def MSG_RES_7_FLAG_def
      and_zero_split clear by (rule refl)
  have "x AND (push_bit 25 1 OR push_bit 23 1) = push_bit 25 1 \<longleftrightarrow> bit x 25 \<and> \<not> bit x 23"
    by (rule two_flags) simp_all
  then have "x AND (push_bit 25 1 OR push_bit 23 1) = push_bit 25 1 \<longleftrightarrow> field_get 25 1 x \<noteq> 0 \<and> field_get 23 1 x = 0"
    using field_bit [of 25 x] field_bit [of 23 x] by blast
  then show "si_from_can_id x = (if field_get 25 1 x \<noteq> 0 \<and> field_get 23 1 x = 0
     then Some (ServiceCanId (x AND mask 29)) else None)"
    unfolding si_from_can_id_def id_layout SRV_CHECK_MASK_def SERVICE_FLAG_def RES_23_FLAG_def by simp
qed


section \<open>Round trip\<close>

definition header_wf :: "header \<Rightarrow> bool" where
  "header_wf h \<longleftrightarrow> pred_option node_id_wf (h_source h) \<and> pred_option node_id_wf (h_destination h) \<and>
     (case h_data_spec h of Message s \<Rightarrow> subject_id_wf s | Request r \<Rightarrow> service_id_wf r | Response r \<Rightarrow> service_id_wf r)"

text \<open>Only messages have no destination, and every frame that is sent has a source.\<close>

definition is_message :: "header \<Rightarrow> bool" where
  "is_message h \<longleftrightarrow> (case h_data_spec h of Message _ \<Rightarrow> True | _ \<Rightarrow> False)"

definition sendable :: "header \<Rightarrow> bool" where
  "sendable h \<longleftrightarrow> h_source h \<noteq> None \<and> (h_destination h = None \<longleftrightarrow> is_message h)"

text \<open>The identifiers that are made, as fields.\<close>

definition message_word :: "priority \<Rightarrow> subject_id \<Rightarrow> node_id \<Rightarrow> u32" where
  "message_word p s n = field_set 0 7 (ucast (node_id_into_u8 n)) (field_set 8 13 (ucast (subject_id_into_u16 s))
     (field_set 24 1 0 (field_set 26 3 (ucast (priority_into_u8 p)) 0x600000)))"

definition service_word :: "priority \<Rightarrow> bool \<Rightarrow> service_id \<Rightarrow> node_id \<Rightarrow> node_id \<Rightarrow> u32" where
  "service_word p b r d n = field_set 0 7 (ucast (node_id_into_u8 n)) (field_set 7 7 (ucast (node_id_into_u8 d))
     (field_set 14 9 (ucast (service_id_into_u16 r)) (field_set 24 1 (of_bool b)
       (field_set 26 3 (ucast (priority_into_u8 p)) (push_bit 25 1)))))"

lemma make_can_id_cases:
  "make_can_id h = (case (h_data_spec h, h_destination h, h_source h) of
     (Message s, None, Some n) \<Rightarrow> Inr (message_word (h_priority h) s n)
   | (Request r, Some d, Some n) \<Rightarrow> Inr (service_word (h_priority h) True r d n)
   | (Response r, Some d, Some n) \<Rightarrow> Inr (service_word (h_priority h) False r d n)
   | _ \<Rightarrow> Inl InvalidFrameHeader)"
  by (simp add: make_can_id_def fields_message fields_service message_word_def service_word_def
      split: data_specifier.splits option.splits)

lemma one_bit_fits: "of_bool b AND mask 1 = (of_bool b :: u32)"
  by (simp add: mask_eq_exp_minus_1)

lemma field_get_ignored:
  "field_get 25 1 0x600000 = 0" "field_get 23 1 0x600000 = 0" "field_get 7 1 0x600000 = 0" "field_get 29 3 0x600000 = 0"
  "field_get 25 1 0x2000000 = 1" "field_get 23 1 0x2000000 = 0" "field_get 29 3 0x2000000 = 0"
  "field_get 0 7 0x600000 = 0" "field_get 8 13 0x600000 = 0" "field_get 24 1 0x600000 = 0" "field_get 26 3 0x600000 = 0"
  by (simp_all add: field_get_def mask_eq_exp_minus_1)

lemma message_word_fields:
  assumes "subject_id_wf s" "node_id_wf n"
  shows "field_get 25 1 (message_word p s n) = 0" "field_get 23 1 (message_word p s n) = 0"
    "field_get 7 1 (message_word p s n) = 0" "field_get 29 3 (message_word p s n) = 0"
    "field_get 26 3 (message_word p s n) = ucast (priority_into_u8 p)" "field_get 24 1 (message_word p s n) = 0"
    "field_get 8 13 (message_word p s n) = ucast (subject_id_into_u16 s)"
    "field_get 0 7 (message_word p s n) = ucast (node_id_into_u8 n)"
  unfolding message_word_def
  by (simp_all add: field_get_set_other field_get_set id_fits assms fits field_get_ignored
      del: One_nat_def)

lemma service_word_fields:
  assumes "service_id_wf r" "node_id_wf d" "node_id_wf n"
  shows "field_get 25 1 (service_word p b r d n) = 1" "field_get 23 1 (service_word p b r d n) = 0"
    "field_get 29 3 (service_word p b r d n) = 0"
    "field_get 26 3 (service_word p b r d n) = ucast (priority_into_u8 p)" "field_get 24 1 (service_word p b r d n) = of_bool b"
    "field_get 14 9 (service_word p b r d n) = ucast (service_id_into_u16 r)"
    "field_get 7 7 (service_word p b r d n) = ucast (node_id_into_u8 d)"
    "field_get 0 7 (service_word p b r d n) = ucast (node_id_into_u8 n)"
  unfolding service_word_def
  by (simp_all add: field_get_set_other field_get_set id_fits assms
      fits one_bit_fits field_get_ignored del: One_nat_def)

lemma load_message_word:
  assumes "subject_id_wf s" "node_id_wf n"
  shows "load_msg_frame_header (message_word p s n) =
      Some \<lparr> h_priority = p, h_data_spec = Message s, h_source = Some n, h_destination = None \<rparr>"
    "load_srv_frame_header (message_word p s n) = None"
proof -
  note f = message_word_fields [OF assms]
  have get: "field_get off w (x AND mask 29 OR 0x600000) = field_get off w x"
    if "off + w \<le> 29" "field_get off w 0x600000 = 0" for off w x using field_get_and_or [OF that(1) _ that(2)] by simp
  show "load_msg_frame_header (message_word p s n) =
      Some \<lparr> h_priority = p, h_data_spec = Message s, h_source = Some n, h_destination = None \<rparr>"
    by (simp add: load_msg_frame_header_def fields_checked fields_message f get field_get_ignored del: One_nat_def)
  show "load_srv_frame_header (message_word p s n) = None"
    by (simp add: load_srv_frame_header_def fields_checked f del: One_nat_def)
qed

lemma load_service_word:
  assumes "service_id_wf r" "node_id_wf d" "node_id_wf n"
  shows "load_srv_frame_header (service_word p b r d n) =
      Some \<lparr> h_priority = p, h_data_spec = (if b then Request r else Response r), h_source = Some n, h_destination = Some d \<rparr>"
    "load_msg_frame_header (service_word p b r d n) = None"
proof -
  note f = service_word_fields [OF assms]
  have get: "field_get off w (x AND mask 29) = field_get off w x" if "off + w \<le> 29" for off w x
    using field_get_and_or [OF that, of 0 x] by (simp add: field_get_def)
  show "load_srv_frame_header (service_word p b r d n) =
      Some \<lparr> h_priority = p, h_data_spec = (if b then Request r else Response r), h_source = Some n, h_destination = Some d \<rparr>"
    by (simp add: load_srv_frame_header_def fields_checked fields_service f get del: One_nat_def)
  show "load_msg_frame_header (service_word p b r d n) = None"
    by (simp add: load_msg_frame_header_def fields_checked f del: One_nat_def)
qed

lemma extended_id:
  assumes "field_get 29 3 x = 0"
  shows "x AND NOT CAN_ID_MASK = 0" "drop_bit 26 x = field_get 26 3 x"
proof -
  have high: "\<not> bit x n" if "29 \<le> n" for n
    using field_get_bit [of 29 3 x 0 n] assms that bit_imp_le_length [of x n] by (cases "n < 32") (auto simp: field_get_def)
  then have "bit x n \<Longrightarrow> n < 29" for n by (meson leI)
  then show "x AND NOT CAN_ID_MASK = 0"
    unfolding id_layout by (intro bit_word_eqI) (auto simp: bit_and_iff bit_not_iff bit_mask_iff)
  show "drop_bit 26 x = field_get 26 3 x"
    using high by (intro bit_word_eqI) (auto simp: bit_field_get bit_drop_bit_eq simp flip: not_le)
qed

lemma can_id_header:
  assumes "header_wf h" "sendable h"
  shows "\<exists>x. make_can_id h = Inr x \<and> x AND NOT CAN_ID_MASK = 0 \<and>
    load_msg_frame_header x = (if is_message h then Some h else None) \<and>
    load_srv_frame_header x = (if is_message h then None else Some h)"
proof -
  have True: "sendable h" by (rule assms(2))
  then obtain n where n: "h_source h = Some n" "node_id_wf n" using assms by (auto simp: sendable_def header_wf_def)
  obtain p spec src dst where h: "h = \<lparr> h_priority = p, h_data_spec = spec, h_source = src, h_destination = dst \<rparr>"
    by (cases h)
  show ?thesis
  proof (cases spec)
    case (Message s)
    then have "dst = None" "subject_id_wf s" using True assms by (simp_all add: h sendable_def is_message_def header_wf_def)
    then show ?thesis using True n Message message_word_fields [of s n] load_message_word [of s n] extended_id(1)
      by (simp add: h make_can_id_cases is_message_def)
  next
    case (Request r)
    then obtain d where "dst = Some d" "node_id_wf d" "service_id_wf r"
      using True assms by (auto simp: h sendable_def is_message_def header_wf_def)
    then show ?thesis using True n Request service_word_fields [of r d n] load_service_word [of r d n] extended_id(1)
      by (simp add: h make_can_id_cases is_message_def)
  next
    case (Response r)
    then obtain d where "dst = Some d" "node_id_wf d" "service_id_wf r"
      using True assms by (auto simp: h sendable_def is_message_def header_wf_def)
    then show ?thesis using True n Response service_word_fields [of r d n] load_service_word [of r d n] extended_id(1)
      by (simp add: h make_can_id_cases is_message_def)
  qed
qed

text \<open>
  C28: A header survives the identifier. For a header that may be sent, with identifiers in their
  ranges, an identifier of 29 bits is made, and whoever receives it reads the same header back, as
  a message if and only if it is one. No other header gets an identifier.
\<close>

theorem can_id_roundtrip:
  assumes "header_wf h"
  shows "if sendable h
    then \<exists>x. make_can_id h = Inr x \<and> x AND NOT CAN_ID_MASK = 0 \<and>
      load_msg_frame_header x = (if is_message h then Some h else None) \<and>
      load_srv_frame_header x = (if is_message h then None else Some h)
    else make_can_id h = Inl InvalidFrameHeader"
  using can_id_header [OF assms]
  by (cases "sendable h") (auto simp: make_can_id_cases sendable_def is_message_def split: data_specifier.splits option.splits)

definition sample_header :: header where
  "sample_header = \<lparr> h_priority = High, h_data_spec = Request (ServiceId 430), h_source = Some (NodeId 3),
     h_destination = Some (NodeId 100) \<rparr>"

lemma can_id_roundtrip_witness:
  "\<exists>x. make_can_id sample_header = Inr x \<and> load_srv_frame_header x = Some sample_header"
proof -
  have "header_wf sample_header" "sendable sample_header" "\<not> is_message sample_header"
    by (simp_all add: sample_header_def header_wf_def sendable_def is_message_def node_id_wf_def service_id_wf_def id_mask_defs)
  with can_id_roundtrip show ?thesis by force
qed


section \<open>Arbitration\<close>

lemma can_id_priority:
  assumes "header_wf j" "make_can_id j = Inr z"
  shows "drop_bit 26 z = ucast (priority_into_u8 (h_priority j))"
proof -
  have "(\<exists>s n. subject_id_wf s \<and> node_id_wf n \<and> z = message_word (h_priority j) s n) \<or>
      (\<exists>b r d n. service_id_wf r \<and> node_id_wf d \<and> node_id_wf n \<and> z = service_word (h_priority j) b r d n)"
    using assms by (cases "h_data_spec j") (fastforce simp: make_can_id_cases header_wf_def split: option.splits)+
  then show ?thesis
    using extended_id(2) message_word_fields(4,5) service_word_fields(3,4) by auto
qed

text \<open>
  Arbitration on the bus follows the priorities. The bus lets the frame with the smallest
  identifier pass; of two frames that may be sent, the one of the more urgent priority has the
  smaller identifier, whatever they carry.
\<close>

theorem can_id_arbitration:
  assumes "header_wf h" "header_wf k" "make_can_id h = Inr x" "make_can_id k = Inr y" "h_priority h < h_priority k"
  shows "x < y"
proof -
  have "unat (drop_bit 26 x) < unat (drop_bit 26 y)"
    unfolding can_id_priority [OF assms(1,3)] can_id_priority [OF assms(2,4)]
    using assms(5) by (cases "h_priority h"; cases "h_priority k"; simp add: less_priority_def)
  then have "drop_bit 26 (unat x) < drop_bit 26 (unat y)" by (simp only: unat_drop_bit_eq)
  then have "unat x div 2 ^ 26 < unat y div 2 ^ 26" by (simp only: drop_bit_eq_div)
  then have "unat x < unat y" using div_le_mono not_le by blast
  then show ?thesis by (simp add: word_less_nat_alt)
qed

lemma can_id_arbitration_witness:
  "\<exists>x y. make_can_id sample_header = Inr x \<and> make_can_id (sample_header\<lparr> h_priority := Slow \<rparr>) = Inr y \<and> x < y"
proof -
  have wf: "header_wf sample_header" "header_wf (sample_header\<lparr> h_priority := Slow \<rparr>)"
    by (simp_all add: sample_header_def header_wf_def node_id_wf_def service_id_wf_def id_mask_defs)
  obtain x y where xy: "make_can_id sample_header = Inr x" "make_can_id (sample_header\<lparr> h_priority := Slow \<rparr>) = Inr y"
    by (simp add: make_can_id_cases sample_header_def)
  have "h_priority sample_header < h_priority (sample_header\<lparr> h_priority := Slow \<rparr>)"
    by (simp add: sample_header_def less_priority_def)
  from can_id_arbitration [OF wf xy this] show ?thesis using xy by blast
qed

section \<open>What is received is well formed\<close>

lemma field_get_mask: "field_get off w x AND mask w = field_get off w x"
  by (simp add: field_get_def and.assoc)

lemma ucast_back_fits:
  assumes "(x :: u32) AND mask k = x" "k \<le> LENGTH('a :: len)"
  shows "(ucast x :: 'a word) \<le> mask k"
proof -
  have "ucast x AND mask k = (ucast x :: 'a word)"
  proof (rule bit_word_eqI)
    fix n assume "n < LENGTH('a)"
    have "bit x n \<Longrightarrow> n < k" using assms(1) by (metis bit_and_iff bit_mask_iff)
    then show "bit (ucast x AND mask k :: 'a word) n = bit (ucast x :: 'a word) n" by (auto simp: bit_simps)
  qed
  then show ?thesis by (metis word_and_le1)
qed

lemma fields_wf:
  "node_id_wf (NodeId (ucast (field_get off 7 x)))" "subject_id_wf (SubjectId (ucast (field_get off 13 x)))"
  "service_id_wf (ServiceId (ucast (field_get off 9 x)))"
  by (simp_all add: node_id_wf_def subject_id_wf_def service_id_wf_def id_masks ucast_back_fits field_get_mask)

text \<open>
  C38: Whatever identifier arrives, it is read as a header at most of one kind, and that header is
  well formed: its identifiers are in their ranges, it has a destination exactly if it belongs to a
  service, and a source unless it is an anonymous message.
\<close>

theorem received_header_wf:
  "(load_msg_frame_header x = None \<or> load_srv_frame_header x = None) \<and>
   (case load_msg_frame_header x of None \<Rightarrow> True
    | Some h \<Rightarrow> header_wf h \<and> is_message h \<and> h_destination h = None \<and>
        (h_source h = None \<longleftrightarrow> bit x 24)) \<and>
   (case load_srv_frame_header x of None \<Rightarrow> True
    | Some h \<Rightarrow> header_wf h \<and> \<not> is_message h \<and> sendable h)"
proof -
  have get: "field_get 24 1 (x AND mask 29 OR 0x600000) = field_get 24 1 x"
    using field_get_and_or [of 24 1 29 "0x600000" x] by (simp add: field_get_ignored del: One_nat_def)
  have getbit: "bit (x AND mask 29 OR 0x600000) 24 \<longleftrightarrow> bit x 24" using get field_bit by metis
  have msg: "load_msg_frame_header x = (if mi_from_can_id x = None then None else
      Some \<lparr> h_priority = priority_from_u8_truncating (ucast (field_get 26 3 (x AND mask 29 OR 0x600000))),
        h_data_spec = Message (SubjectId (ucast (field_get 8 13 (x AND mask 29 OR 0x600000)))),
        h_source = (if \<not> bit x 24 then Some (NodeId (ucast (field_get 0 7 (x AND mask 29 OR 0x600000)))) else None),
        h_destination = None \<rparr>)"
    by (simp add: load_msg_frame_header_def fields_checked fields_message field_bit getbit del: One_nat_def)
  have srv: "load_srv_frame_header x = (if si_from_can_id x = None then None else
      Some \<lparr> h_priority = si_priority (ServiceCanId (x AND mask 29)), h_data_spec = (if si_request (ServiceCanId (x AND mask 29))
          then Request (si_service (ServiceCanId (x AND mask 29))) else Response (si_service (ServiceCanId (x AND mask 29)))),
        h_source = Some (si_source (ServiceCanId (x AND mask 29))),
        h_destination = Some (si_destination (ServiceCanId (x AND mask 29))) \<rparr>)"
    by (simp add: load_srv_frame_header_def fields_checked(2))
  have "mi_from_can_id x = None \<or> si_from_can_id x = None" by (simp add: fields_checked del: One_nat_def)
  moreover have "case load_msg_frame_header x of None \<Rightarrow> True
      | Some h \<Rightarrow> header_wf h \<and> is_message h \<and> h_destination h = None \<and> (h_source h = None \<longleftrightarrow> bit x 24)"
    by (simp add: msg header_wf_def is_message_def fields_wf)
  moreover have "case load_srv_frame_header x of None \<Rightarrow> True
      | Some h \<Rightarrow> header_wf h \<and> \<not> is_message h \<and> sendable h"
    by (simp add: srv header_wf_def is_message_def sendable_def fields_service fields_wf)
  ultimately show ?thesis by (auto simp: msg srv)
qed

end
