(* ===== verification/Native_Ram.thy ===== *)
theory Native_Ram
  imports Can_Id
begin

text \<open>
  The message RAM of the FDCAN peripheral, \<open>emcyphal-stm32-native/src/message_ram\<close>: elements of
  32-bit words whose bit fields hold the identifier, the length and the flags of a frame, and the
  functions of \<open>raw.rs\<close> that move frames into and out of it. A register is its two words; the
  bytes of a frame are in sixteen further words.
\<close>

section \<open>Configuration and enumerations\<close>

text \<open>\<open>config::FrameFormat\<close>.\<close>

datatype frame_format = FfClassic | FfFd | FfFdBrs

fun ff_fd :: "frame_format \<Rightarrow> bool" where
  "ff_fd FfClassic = False"
| "ff_fd FfFd = True"
| "ff_fd FfFdBrs = True"

fun ff_bit_rate_switch :: "frame_format \<Rightarrow> bool" where
  "ff_bit_rate_switch FfClassic = False"
| "ff_bit_rate_switch FfFd = False"
| "ff_bit_rate_switch FfFdBrs = True"

definition ff_mtu :: "frame_format \<Rightarrow> mtu" where
  "ff_mtu f = (if ff_fd f then Fd else Classic)"

text \<open>The enumerations whose values are stored as one bit.\<close>

datatype id_type = StandardId | ExtendedId

datatype remote_transmission_request = TransmitDataFrame | TransmitRemoteFrame

datatype error_state_indicator = ErrorActive | ErrorPassive

datatype event_control = DoNotStore | Store

datatype ram_frame_format = StandardFrame | FdcanFrame

datatype filter_type = RangeFilter | DualIdFilter | ClassicFilter | FilterDisabled

fun filter_type_u8 :: "filter_type \<Rightarrow> u8" where
  "filter_type_u8 RangeFilter = 0"
| "filter_type_u8 DualIdFilter = 1"
| "filter_type_u8 ClassicFilter = 2"
| "filter_type_u8 FilterDisabled = 3"

definition to_filter_type :: "u8 \<Rightarrow> filter_type exec" where
  "to_filter_type bits = (if bits = 0 then ret RangeFilter else if bits = 1 then ret DualIdFilter
     else if bits = 2 then ret ClassicFilter else if bits = 3 then ret FilterDisabled else panic)"

datatype filter_element_config = DisableFilterElement | StoreInFifo0 | StoreInFifo1 | Reject | SetPriority
  | SetPriorityAndStoreInFifo0 | SetPriorityAndStoreInFifo1

fun filter_element_config_u8 :: "filter_element_config \<Rightarrow> u8" where
  "filter_element_config_u8 DisableFilterElement = 0"
| "filter_element_config_u8 StoreInFifo0 = 1"
| "filter_element_config_u8 StoreInFifo1 = 2"
| "filter_element_config_u8 Reject = 3"
| "filter_element_config_u8 SetPriority = 4"
| "filter_element_config_u8 SetPriorityAndStoreInFifo0 = 5"
| "filter_element_config_u8 SetPriorityAndStoreInFifo1 = 6"

definition to_filter_element_config :: "u8 \<Rightarrow> filter_element_config exec" where
  "to_filter_element_config bits = (if bits = 0 then ret DisableFilterElement else if bits = 1 then ret StoreInFifo0
     else if bits = 2 then ret StoreInFifo1 else if bits = 3 then ret Reject else if bits = 4 then ret SetPriority
     else if bits = 5 then ret SetPriorityAndStoreInFifo0 else if bits = 6 then ret SetPriorityAndStoreInFifo1
     else panic)"

datatype ram_data_length = Standard u8 | Fdcan u8

definition rdl_new :: "u8 \<Rightarrow> ram_frame_format \<Rightarrow> ram_data_length exec" where
  "rdl_new len ff = (case ff of
     StandardFrame \<Rightarrow> if len \<le> 8 then ret (Standard len) else panic
   | FdcanFrame \<Rightarrow> if len \<le> 64 then ret (Fdcan len) else panic)"

fun rdl_len :: "ram_data_length \<Rightarrow> u8" where
  "rdl_len (Standard l) = l"
| "rdl_len (Fdcan l) = l"

fun rdl_dlc :: "ram_data_length \<Rightarrow> u8 exec" where
  "rdl_dlc (Standard l) = ret l"
| "rdl_dlc (Fdcan l) = (if l \<le> 8 then ret l else if l \<le> 12 then ret 9 else if l \<le> 16 then ret 10
     else if l \<le> 20 then ret 11 else if l \<le> 24 then ret 12 else if l \<le> 32 then ret 13
     else if l \<le> 48 then ret 14 else if l \<le> 64 then ret 15 else panic)"

section \<open>Registers\<close>

type_synonym ram_word = "u32 \<times> u32"

definition ram_reset_value :: ram_word where
  "ram_reset_value = (0, 0)"

text \<open>Filter elements: \<open>extended_filter.rs\<close>.\<close>

definition ef_set_efid1 :: "u32 \<Rightarrow> ram_word \<Rightarrow> ram_word" where
  "ef_set_efid1 value = (\<lambda>(b0, b1). ((b0 AND NOT 0x1FFFFFFF) OR (value AND 0x1FFFFFFF), b1))"

definition ef_set_efid2 :: "u32 \<Rightarrow> ram_word \<Rightarrow> ram_word" where
  "ef_set_efid2 value = (\<lambda>(b0, b1). (b0, (b1 AND NOT 0x1FFFFFFF) OR (value AND 0x1FFFFFFF)))"

definition ef_set_efec :: "filter_element_config \<Rightarrow> ram_word \<Rightarrow> ram_word" where
  "ef_set_efec fec = (\<lambda>(b0, b1). ((b0 AND NOT (push_bit 29 0x07))
     OR push_bit 29 (ucast (filter_element_config_u8 fec) AND 0x07), b1))"

definition ef_set_eft :: "filter_type \<Rightarrow> ram_word \<Rightarrow> ram_word" where
  "ef_set_eft ft = (\<lambda>(b0, b1). (b0, (b1 AND NOT (push_bit 30 0x03))
     OR push_bit 30 (ucast (filter_type_u8 ft) AND 0x03)))"

definition ef_efid1 :: "ram_word \<Rightarrow> u32" where "ef_efid1 r = fst r AND 0x1FFFFFFF"
definition ef_efec :: "ram_word \<Rightarrow> u8" where "ef_efec r = ucast (drop_bit 29 (fst r) AND 0x07)"
definition ef_efid2 :: "ram_word \<Rightarrow> u32" where "ef_efid2 r = snd r AND 0x1FFFFFFF"
definition ef_eft :: "ram_word \<Rightarrow> u8" where "ef_eft r = ucast (drop_bit 30 (snd r) AND 0x03)"

text \<open>Transmit buffer elements: \<open>txbuffer_element.rs\<close>.\<close>

definition tb_set_esi :: "error_state_indicator \<Rightarrow> ram_word \<Rightarrow> ram_word" where
  "tb_set_esi esi = (\<lambda>(b0, b1). ((b0 AND NOT (push_bit 31 0x01))
     OR push_bit 31 (of_bool (esi = ErrorPassive) AND 0x01), b1))"

definition tb_set_xtd :: "id_type \<Rightarrow> ram_word \<Rightarrow> ram_word" where
  "tb_set_xtd idt = (\<lambda>(b0, b1). ((b0 AND NOT (push_bit 30 0x01))
     OR push_bit 30 (of_bool (idt = ExtendedId) AND 0x01), b1))"

definition tb_set_rtr :: "remote_transmission_request \<Rightarrow> ram_word \<Rightarrow> ram_word" where
  "tb_set_rtr rtr = (\<lambda>(b0, b1). ((b0 AND NOT (push_bit 29 0x01))
     OR push_bit 29 (of_bool (rtr = TransmitRemoteFrame) AND 0x01), b1))"

definition tb_set_id :: "u32 \<Rightarrow> ram_word \<Rightarrow> ram_word" where
  "tb_set_id value = (\<lambda>(b0, b1). ((b0 AND NOT 0x1FFFFFFF) OR (value AND 0x1FFFFFFF), b1))"

definition tb_set_dlc :: "u8 \<Rightarrow> ram_word \<Rightarrow> ram_word" where
  "tb_set_dlc value = (\<lambda>(b0, b1). (b0, (b1 AND NOT (push_bit 16 0x0F)) OR push_bit 16 (ucast value AND 0x0F)))"

definition tb_set_brs :: "bool \<Rightarrow> ram_word \<Rightarrow> ram_word" where
  "tb_set_brs value = (\<lambda>(b0, b1). (b0, (b1 AND NOT (push_bit 20 0x01)) OR push_bit 20 (of_bool value AND 0x01)))"

definition tb_set_fdf :: "bool \<Rightarrow> ram_word \<Rightarrow> ram_word" where
  "tb_set_fdf value = (\<lambda>(b0, b1). (b0, (b1 AND NOT (push_bit 21 0x01)) OR push_bit 21 (of_bool value AND 0x01)))"

definition tb_set_efc :: "event_control \<Rightarrow> ram_word \<Rightarrow> ram_word" where
  "tb_set_efc efc = (\<lambda>(b0, b1). (b0, (b1 AND NOT (push_bit 23 0x01))
     OR push_bit 23 (of_bool (case efc of DoNotStore \<Rightarrow> False | Store \<Rightarrow> True) AND 0x01)))"

definition tb_set_mm :: "u8 \<Rightarrow> ram_word \<Rightarrow> ram_word" where
  "tb_set_mm value = (\<lambda>(b0, b1). (b0, (b1 AND NOT (push_bit 24 0x7F)) OR push_bit 24 (ucast value AND 0x7F)))"

definition tb_id :: "ram_word \<Rightarrow> u32" where "tb_id r = fst r AND 0x1FFFFFFF"
definition tb_rtr :: "ram_word \<Rightarrow> bool" where "tb_rtr r \<longleftrightarrow> drop_bit 29 (fst r) AND 0x01 \<noteq> 0"
definition tb_xtd :: "ram_word \<Rightarrow> bool" where "tb_xtd r \<longleftrightarrow> drop_bit 30 (fst r) AND 0x01 \<noteq> 0"
definition tb_esi :: "ram_word \<Rightarrow> bool" where "tb_esi r \<longleftrightarrow> drop_bit 31 (fst r) AND 0x01 \<noteq> 0"
definition tb_dlc :: "ram_word \<Rightarrow> u8" where "tb_dlc r = ucast (drop_bit 16 (snd r) AND 0x0F)"
definition tb_brs :: "ram_word \<Rightarrow> bool" where "tb_brs r \<longleftrightarrow> drop_bit 20 (snd r) AND 0x01 \<noteq> 0"
definition tb_fdf :: "ram_word \<Rightarrow> bool" where "tb_fdf r \<longleftrightarrow> drop_bit 21 (snd r) AND 0x01 \<noteq> 0"
definition tb_efc :: "ram_word \<Rightarrow> bool" where "tb_efc r \<longleftrightarrow> drop_bit 23 (snd r) AND 0x01 \<noteq> 0"
definition tb_mm :: "ram_word \<Rightarrow> u8" where "tb_mm r = ucast (drop_bit 24 (snd r) AND 0xFF)"

text \<open>Receive FIFO elements: \<open>rxfifo_element.rs\<close>.\<close>

definition rx_id :: "ram_word \<Rightarrow> u32" where "rx_id r = fst r AND 0x1FFFFFFF"
definition rx_rtr :: "ram_word \<Rightarrow> bool" where "rx_rtr r \<longleftrightarrow> drop_bit 29 (fst r) AND 0x01 \<noteq> 0"
definition rx_xtd :: "ram_word \<Rightarrow> bool" where "rx_xtd r \<longleftrightarrow> drop_bit 30 (fst r) AND 0x01 \<noteq> 0"
definition rx_esi :: "ram_word \<Rightarrow> bool" where "rx_esi r \<longleftrightarrow> drop_bit 31 (fst r) AND 0x01 \<noteq> 0"
definition rx_rxts :: "ram_word \<Rightarrow> u16" where "rx_rxts r = ucast (snd r AND 0xFFFF)"
definition rx_dlc :: "ram_word \<Rightarrow> u8" where "rx_dlc r = ucast (drop_bit 16 (snd r) AND 0x0F)"
definition rx_brs :: "ram_word \<Rightarrow> bool" where "rx_brs r \<longleftrightarrow> drop_bit 20 (snd r) AND 0x01 \<noteq> 0"
definition rx_fdf :: "ram_word \<Rightarrow> bool" where "rx_fdf r \<longleftrightarrow> drop_bit 21 (snd r) AND 0x01 \<noteq> 0"
definition rx_fidx :: "ram_word \<Rightarrow> u8" where "rx_fidx r = ucast (drop_bit 24 (snd r) AND 0xFF)"
definition rx_anmf :: "ram_word \<Rightarrow> bool" where "rx_anmf r \<longleftrightarrow> drop_bit 31 (snd r) AND 0x01 \<noteq> 0"

definition rx_to_data_length :: "ram_word \<Rightarrow> ram_data_length exec" where
  "rx_to_data_length r = (let dlc = rx_dlc r; ff = (if rx_fdf r then FdcanFrame else StandardFrame) in do {
     len \<leftarrow> (if ff = FdcanFrame
       then (if dlc \<le> 8 then ret dlc else if dlc = 9 then ret 12 else if dlc = 10 then ret 16
         else if dlc = 11 then ret 20 else if dlc = 12 then ret 24 else if dlc = 13 then ret 32
         else if dlc = 14 then ret 48 else if dlc = 15 then ret 64 else panic)
       else (if dlc \<le> 8 then ret dlc else if dlc \<le> 15 then ret 8 else panic));
     rdl_new len ff
   })"

text \<open>Transmit event elements: \<open>txevent_element.rs\<close>.\<close>

definition te_txts :: "ram_word \<Rightarrow> u16" where "te_txts r = ucast (snd r AND 0xFFFF)"
definition te_mm :: "ram_word \<Rightarrow> u8" where "te_mm r = ucast (drop_bit 24 (snd r) AND 0xFF)"

section \<open>Frames in elements\<close>

record ram_element =
  el_header :: ram_word
  el_data :: "u32 list"

definition ram_element_reset :: "ram_element \<Rightarrow> ram_element" where
  "ram_element_reset e = \<lparr> el_header = ram_reset_value, el_data = map (\<lambda>_. 0) (el_data e) \<rparr>"

definition u32_to_le_bytes :: "u32 \<Rightarrow> u8 list" where
  "u32_to_le_bytes w = [ucast w, ucast (drop_bit 8 w), ucast (drop_bit 16 w), ucast (drop_bit 24 w)]"

definition u32_from_le_bytes :: "u8 list \<Rightarrow> u32" where
  "u32_from_le_bytes bs = (case bs of
     [a, b, c, d] \<Rightarrow> ucast a OR push_bit 8 (ucast b) OR push_bit 16 (ucast c) OR push_bit 24 (ucast d)
   | _ \<Rightarrow> 0)"

definition make_dlc :: "data_length \<Rightarrow> u8 exec" where
  "make_dlc value = (let len = dl_as_usize value in
     if len \<le> 8 then ret (of_nat len) else if len = 12 then ret 9 else if len = 16 then ret 10
     else if len = 20 then ret 11 else if len = 24 then ret 12 else if len = 32 then ret 13
     else if len = 48 then ret 14 else if len = 64 then ret 15 else panic)"

text \<open>The loop over \<open>frame.data.chunks(4)\<close>, from word \<open>i\<close> on.\<close>

fun store_chunks :: "nat \<Rightarrow> u8 list \<Rightarrow> u32 list \<Rightarrow> u32 list exec" where
  "store_chunks i bytes words = (if bytes = [] then ret words else do {
     let src = take 4 bytes;
     words \<leftarrow> arr_set words i (u32_from_le_bytes (src @ replicate (4 - length src) 0));
     store_chunks (i + 1) (drop 4 bytes) words
   })"

definition store_tx_buffer :: "ram_element \<Rightarrow> frame \<Rightarrow> frame_format \<Rightarrow> u8 \<Rightarrow> ram_element exec" where
  "store_tx_buffer elem frame format marker = do {
     can_id \<leftarrow> (case make_can_id (f_header frame) of Inr x \<Rightarrow> ret x | Inl _ \<Rightarrow> panic);
     assert_that (ff_fd format \<or> length (data_deref (f_data frame)) \<le> 8);
     dlc \<leftarrow> make_dlc (d_length (f_data frame));
     let header = (tb_set_dlc dlc \<circ> tb_set_brs (ff_bit_rate_switch format) \<circ> tb_set_fdf (ff_fd format) \<circ>
       tb_set_efc Store \<circ> tb_set_mm marker \<circ> tb_set_id can_id \<circ> tb_set_rtr TransmitDataFrame \<circ>
       tb_set_xtd ExtendedId \<circ> tb_set_esi ErrorActive) ram_reset_value;
     words \<leftarrow> store_chunks 0 (data_deref (f_data frame)) (el_data elem);
     ret \<lparr> el_header = header, el_data = words \<rparr>
   }"

record raw_frame =
  rw_header :: header
  rw_data :: data
  rw_timestamp :: u16

text \<open>The loop over \<open>data.chunks_mut(4)\<close>: the bytes that go into a slice of \<open>n\<close> bytes.\<close>

fun load_chunks :: "nat \<Rightarrow> nat \<Rightarrow> u32 list \<Rightarrow> u8 list exec" where
  "load_chunks i n words = (if n = 0 then ret [] else do {
     w \<leftarrow> arr_get words i;
     rest \<leftarrow> load_chunks (i + 1) (n - 4) words;
     ret (take (min 4 n) (u32_to_le_bytes w) @ rest)
   })"

definition EXTENDED_FILTER_MAX :: nat where "EXTENDED_FILTER_MAX = 8"

definition MESSAGE_FILTER_COUNT :: nat where "MESSAGE_FILTER_COUNT = EXTENDED_FILTER_MAX - 1"

definition MESSAGE_FILTER_OFFSET :: nat where "MESSAGE_FILTER_OFFSET = 0"

definition SERVICE_FILTER_OFFSET :: nat where
  "SERVICE_FILTER_OFFSET = MESSAGE_FILTER_OFFSET + MESSAGE_FILTER_COUNT"

definition load_frame :: "ram_element \<Rightarrow> raw_frame option exec" where
  "load_frame elem = do {
     let raw_header = el_header elem;
     assert_that (rx_xtd raw_header);
     assert_that (\<not> rx_rtr raw_header);
     let can_id = rx_id raw_header;
     let header = (if unat (rx_fidx raw_header) \<noteq> SERVICE_FILTER_OFFSET
       then load_msg_frame_header can_id else load_srv_frame_header can_id);
     (case header of
        None \<Rightarrow> ret None
      | Some header \<Rightarrow> do {
          len \<leftarrow> rx_to_data_length raw_header;
          data_length \<leftarrow> unwrap (dl_new (unat (rdl_len len)));
          bytes \<leftarrow> load_chunks 0 (dl_as_usize data_length) (el_data elem);
          ret (Some \<lparr> rw_header = header, rw_data = data_deref_set (data_new_zeros data_length) bytes,
            rw_timestamp = rx_rxts raw_header \<rparr>)
        })
   }"

record tx_event =
  ev_marker :: u8
  ev_timestamp :: u16

definition load_tx_event :: "ram_word \<Rightarrow> tx_event" where
  "load_tx_event r = \<lparr> ev_marker = te_mm r, ev_timestamp = te_txts r \<rparr>"


declare store_chunks.simps [simp del] load_chunks.simps [simp del]

section \<open>Registers as fields\<close>

lemma masks_as_numerals:
  "(mask 29 :: u32) = 0x1FFFFFFF" "(mask 4 :: u32) = 0x0F" "(mask 7 :: u32) = 0x7F" "(mask 8 :: u32) = 0xFF"
  "(mask 3 :: u32) = 0x07" "(mask 2 :: u32) = 0x03" "(mask 1 :: u32) = 0x01" "(mask 16 :: u32) = 0xFFFF"
  by (simp_all add: mask_eq_exp_minus_1)

lemma extended_filter_fields:
  "ef_set_efid1 v (b0, b1) = (field_set 0 29 (v AND mask 29) b0, b1)"
  "ef_set_efid2 v (b0, b1) = (b0, field_set 0 29 (v AND mask 29) b1)"
  "ef_set_efec c (b0, b1) = (field_set 29 3 (ucast (filter_element_config_u8 c) AND mask 3) b0, b1)"
  "ef_set_eft t (b0, b1) = (b0, field_set 30 2 (ucast (filter_type_u8 t) AND mask 2) b1)"
  "ef_efid1 r = field_get 0 29 (fst r)" "ef_efid2 r = field_get 0 29 (snd r)"
  "ef_efec r = ucast (field_get 29 3 (fst r))" "ef_eft r = ucast (field_get 30 2 (snd r))"
  by (simp_all only: ef_set_efid1_def ef_set_efid2_def ef_set_efec_def ef_set_eft_def ef_efid1_def ef_efid2_def
      ef_efec_def ef_eft_def field_set_def field_get_def masks_as_numerals prod.case push_bit_0_id drop_bit_0 id_apply)

lemma tx_buffer_fields:
  "tb_set_esi e (b0, b1) = (field_set 31 1 (of_bool (e = ErrorPassive) AND mask 1) b0, b1)"
  "tb_set_xtd i (b0, b1) = (field_set 30 1 (of_bool (i = ExtendedId) AND mask 1) b0, b1)"
  "tb_set_rtr r (b0, b1) = (field_set 29 1 (of_bool (r = TransmitRemoteFrame) AND mask 1) b0, b1)"
  "tb_set_id v (b0, b1) = (field_set 0 29 (v AND mask 29) b0, b1)"
  "tb_set_dlc d (b0, b1) = (b0, field_set 16 4 (ucast d AND mask 4) b1)"
  "tb_set_brs b (b0, b1) = (b0, field_set 20 1 (of_bool b AND mask 1) b1)"
  "tb_set_fdf b (b0, b1) = (b0, field_set 21 1 (of_bool b AND mask 1) b1)"
  "tb_set_efc c (b0, b1) = (b0, field_set 23 1 (of_bool (case c of DoNotStore \<Rightarrow> False | Store \<Rightarrow> True) AND mask 1) b1)"
  "tb_set_mm m (b0, b1) = (b0, field_set 24 7 (ucast m AND mask 7) b1)"
  by (simp_all only: tb_set_esi_def tb_set_xtd_def tb_set_rtr_def tb_set_id_def tb_set_dlc_def tb_set_brs_def tb_set_fdf_def
      tb_set_efc_def tb_set_mm_def field_set_def masks_as_numerals prod.case push_bit_0_id id_apply)

lemma tx_buffer_read:
  "tb_id r = field_get 0 29 (fst r)" "tb_rtr r \<longleftrightarrow> field_get 29 1 (fst r) \<noteq> 0" "tb_xtd r \<longleftrightarrow> field_get 30 1 (fst r) \<noteq> 0"
  "tb_esi r \<longleftrightarrow> field_get 31 1 (fst r) \<noteq> 0" "tb_dlc r = ucast (field_get 16 4 (snd r))"
  "tb_brs r \<longleftrightarrow> field_get 20 1 (snd r) \<noteq> 0" "tb_fdf r \<longleftrightarrow> field_get 21 1 (snd r) \<noteq> 0"
  "tb_efc r \<longleftrightarrow> field_get 23 1 (snd r) \<noteq> 0" "tb_mm r = ucast (field_get 24 8 (snd r))"
  by (simp_all only: tb_id_def tb_rtr_def tb_xtd_def tb_esi_def tb_dlc_def tb_brs_def tb_fdf_def tb_efc_def tb_mm_def
      field_get_def masks_as_numerals drop_bit_0 id_apply)

lemma masked_fits: "(v AND mask w) AND mask w = v AND (mask w :: u32)"
  by (simp add: and.assoc)

lemmas field_read_write = field_get_set field_get_set_other masked_fits

section \<open>Bytes of words\<close>

definition ram_bytes :: "u32 list \<Rightarrow> u8 list" where
  "ram_bytes words = concat (map u32_to_le_bytes words)"

lemma length_le_bytes [simp]: "length (u32_to_le_bytes w) = 4"
  by (simp add: u32_to_le_bytes_def)

lemma ram_bytes_simps [simp]: "ram_bytes [] = []" "ram_bytes (w # ws) = u32_to_le_bytes w @ ram_bytes ws"
  by (simp_all add: ram_bytes_def)

lemma le_bytes_roundtrip:
  assumes "length bs = 4"
  shows "u32_to_le_bytes (u32_from_le_bytes bs) = bs"
proof -
  obtain a b c d where bs: "bs = [a, b, c, d]" using assms by (auto simp: length_Suc_conv numeral_eq_Suc)
  have "ucast (u32_from_le_bytes bs) = a" "ucast (drop_bit 8 (u32_from_le_bytes bs)) = b"
    "ucast (drop_bit 16 (u32_from_le_bytes bs)) = c" "ucast (drop_bit 24 (u32_from_le_bytes bs)) = d"
    by (rule bit_word_eqI, auto simp: bs u32_from_le_bytes_def bit_simps dest: bit_imp_le_length)+
  then show ?thesis by (simp add: u32_to_le_bytes_def bs)
qed

lemma store_chunks_bytes:
  assumes "4 * i + length bytes \<le> 4 * length words"
  shows "\<exists>words'. store_chunks i bytes words = Some words' \<and> length words' = length words \<and>
    take i words' = take i words \<and> take (length bytes) (ram_bytes (drop i words')) = bytes"
  using assms
proof (induction i bytes words rule: store_chunks.induct)
  case (1 i bytes words)
  show ?case
  proof (cases "bytes = []")
    case True
    then show ?thesis by (subst store_chunks.simps) simp
  next
    case False
    define w where "w = u32_from_le_bytes (take 4 bytes @ replicate (4 - length (take 4 bytes)) 0)"
    have i: "i < length words" using 1(2) False by (cases bytes) auto
    have bound: "4 * (i + 1) + length (drop 4 bytes) \<le> 4 * length (words[i := w])"
      using 1(2) i by simp
    obtain words' where w': "store_chunks (i + 1) (drop 4 bytes) (words[i := w]) = Some words'"
      "length words' = length (words[i := w])" "take (i + 1) words' = take (i + 1) (words[i := w])"
      "take (length (drop 4 bytes)) (ram_bytes (drop (i + 1) words')) = drop 4 bytes"
      using 1(1) [OF False refl _ bound] i by (auto simp: arr_set_def w_def)
    have run: "store_chunks i bytes words = Some words'"
      using w'(1) False i by (subst store_chunks.simps) (simp add: arr_set_def w_def)
    have at: "words' ! i = w" using w'(3) i nth_take [of i "i + 1" words'] nth_take [of i "i + 1" "words[i := w]"] by simp
    then have split: "drop i words' = w # drop (i + 1) words'" using i w'(2) by (simp add: Cons_nth_drop_Suc [symmetric])
    have "u32_to_le_bytes w = take 4 bytes @ replicate (4 - length (take 4 bytes)) 0"
      unfolding w_def by (rule le_bytes_roundtrip) simp
    then have "take (length bytes) (ram_bytes (drop i words')) = bytes"
      unfolding split using w'(4) by (cases "4 \<le> length bytes") (auto simp: min_def)
    moreover have "take i words' = take i words"
      using arg_cong [where f = "take i", OF w'(3)] by (simp add: min_def)
    ultimately show ?thesis using run w'(2) by simp
  qed
qed

lemma load_chunks_bytes:
  assumes "4 * i + n \<le> 4 * length words"
  shows "load_chunks i n words = Some (take n (ram_bytes (drop i words)))"
  using assms
proof (induction i n words rule: load_chunks.induct)
  case (1 i n words)
  show ?case
  proof (cases "n = 0")
    case True
    then show ?thesis by (subst load_chunks.simps) simp
  next
    case False
    then have i: "i < length words" using 1(2) by simp
    have "load_chunks (i + 1) (n - 4) words = Some (take (n - 4) (ram_bytes (drop (i + 1) words)))"
      by (rule 1(1) [OF False]) (use 1(2) i in \<open>auto simp: arr_get_def\<close>)
    then show ?thesis using False i
      by (subst load_chunks.simps) (simp add: Cons_nth_drop_Suc [symmetric] min_def)
  qed
qed


section \<open>A frame through the peripheral\<close>

text \<open>
  What the bus carries of a transmit element with \<open>n\<close> data bytes into a receive element, by the
  layout of the two in the manual of the peripheral: the identifier (bits 0 to 28 of the first
  word), the remote request (29) and the kind of the identifier (30), the length code (bits 16
  to 19 of the second word), the bit rate switch (20) and the format (21), and the bytes.
\<close>

definition carried :: "nat \<Rightarrow> ram_element \<Rightarrow> ram_element \<Rightarrow> bool" where
  "carried n tx rx \<longleftrightarrow>
     (\<forall>(off, w) \<in> {(0, 29), (29, 1), (30, 1)}.
       field_get off w (fst (el_header rx)) = field_get off w (fst (el_header tx))) \<and>
     (\<forall>(off, w) \<in> {(16, 4), (20, 1), (21, 1)}.
       field_get off w (snd (el_header rx)) = field_get off w (snd (el_header tx))) \<and>
     length (el_data rx) = 16 \<and>
     take n (ram_bytes (el_data rx)) = take n (ram_bytes (el_data tx))"

text \<open>
  The event element of a transmission that began at the count \<open>t\<close> of the timer: the peripheral
  copies the marker (bits 24 to 31 of the second word) from the transmit element and puts the
  count into the bits 0 to 15 of the second word.
\<close>

definition event_of :: "ram_word \<Rightarrow> u16 \<Rightarrow> ram_word \<Rightarrow> bool" where
  "event_of tx t ev \<longleftrightarrow> field_get 24 8 (snd ev) = field_get 24 8 (snd tx) \<and> field_get 0 16 (snd ev) = ucast t"

lemma rx_element_read:
  "rx_id r = field_get 0 29 (fst r)" "rx_rtr r \<longleftrightarrow> field_get 29 1 (fst r) \<noteq> 0" "rx_xtd r \<longleftrightarrow> field_get 30 1 (fst r) \<noteq> 0"
  "rx_dlc r = ucast (field_get 16 4 (snd r))" "rx_brs r \<longleftrightarrow> field_get 20 1 (snd r) \<noteq> 0"
  "rx_fdf r \<longleftrightarrow> field_get 21 1 (snd r) \<noteq> 0" "rx_fidx r = ucast (field_get 24 8 (snd r))"
  "rx_rxts r = ucast (field_get 0 16 (snd r))"
  by (simp_all only: rx_id_def rx_rtr_def rx_xtd_def rx_dlc_def rx_brs_def rx_fdf_def rx_fidx_def rx_rxts_def
      field_get_def masks_as_numerals drop_bit_0 id_apply)

lemma carried_read:
  assumes "carried n tx rx"
  shows "rx_id (el_header rx) = tb_id (el_header tx)" "rx_xtd (el_header rx) = tb_xtd (el_header tx)"
    "rx_rtr (el_header rx) = tb_rtr (el_header tx)" "rx_fdf (el_header rx) = tb_fdf (el_header tx)"
    "rx_dlc (el_header rx) = tb_dlc (el_header tx)" "length (el_data rx) = 16"
    "take n (ram_bytes (el_data rx)) = take n (ram_bytes (el_data tx))"
  using assms by (simp_all add: carried_def rx_element_read tx_buffer_read)

lemma event_read: "event_of tx t ev \<Longrightarrow> load_tx_event ev = \<lparr> ev_marker = tb_mm tx, ev_timestamp = t \<rparr>"
proof -
  have "te_mm ev = ucast (field_get 24 8 (snd ev))" "te_txts ev = ucast (field_get 0 16 (snd ev))"
    by (simp_all only: te_mm_def te_txts_def field_get_def masks_as_numerals drop_bit_0 id_apply)
  then show "event_of tx t ev \<Longrightarrow> load_tx_event ev = \<lparr> ev_marker = tb_mm tx, ev_timestamp = t \<rparr>"
    by (simp add: load_tx_event_def event_of_def tx_buffer_read)
qed

definition stored_header :: "u32 \<Rightarrow> frame_format \<Rightarrow> u8 \<Rightarrow> u8 \<Rightarrow> ram_word" where
  "stored_header can_id format marker dlc = (tb_set_dlc dlc \<circ> tb_set_brs (ff_bit_rate_switch format) \<circ>
     tb_set_fdf (ff_fd format) \<circ> tb_set_efc Store \<circ> tb_set_mm marker \<circ> tb_set_id can_id \<circ>
     tb_set_rtr TransmitDataFrame \<circ> tb_set_xtd ExtendedId \<circ> tb_set_esi ErrorActive) ram_reset_value"

lemma field_get_zero [simp]: "field_get off w 0 = 0"
  by (simp add: field_get_def)

lemma stored_header_read:
  assumes "can_id AND NOT CAN_ID_MASK = 0" "dlc \<le> 15" "marker \<le> 127"
  shows "tb_id (stored_header can_id format marker dlc) = can_id" "tb_xtd (stored_header can_id format marker dlc)"
    "\<not> tb_rtr (stored_header can_id format marker dlc)" "tb_fdf (stored_header can_id format marker dlc) = ff_fd format"
    "tb_brs (stored_header can_id format marker dlc) = ff_bit_rate_switch format"
    "tb_dlc (stored_header can_id format marker dlc) = dlc" "tb_mm (stored_header can_id format marker dlc) = marker"
    "tb_efc (stored_header can_id format marker dlc)"
proof -
  have small: "ucast (ucast v AND mask k :: u32) = v" if "v \<le> mask k" for v :: u8 and k
  proof -
    have "v AND mask k = v" using that by (rule word_and_mask_id)
    then have "ucast v AND mask k = (ucast v :: u32)" by (rule ucast_fits)
    then show ?thesis by simp
  qed
  have d: "ucast (ucast dlc AND mask 4 :: u32) = dlc" "ucast (ucast marker AND mask 7 :: u32) = marker"
    using assms(2,3) by (intro small; simp add: mask_eq_exp_minus_1)+
  have can: "can_id AND mask 29 = can_id"
  proof (rule bit_word_eqI)
    fix n assume "n < LENGTH(32)"
    have "\<not> bit (can_id AND NOT (mask 29)) n" using assms(1) by (simp add: id_layout)
    then show "bit (can_id AND mask 29) n = bit can_id n" using \<open>n < LENGTH(32)\<close>
      by (auto simp: bit_and_iff bit_not_iff bit_mask_iff)
  qed
  define b0 where "b0 = field_set 0 29 can_id (field_set 29 1 (0 AND mask 1) (field_set 30 1 (1 AND mask 1) (field_set 31 1 (0 AND mask 1) 0)))"
  define b1 where "b1 = field_set 16 4 (ucast dlc AND mask 4) (field_set 20 1 (of_bool (ff_bit_rate_switch format) AND mask 1)
    (field_set 21 1 (of_bool (ff_fd format) AND mask 1) (field_set 23 1 (1 AND mask 1) (field_set 24 7 (ucast marker AND mask 7) 0))))"
  have h: "stored_header can_id format marker dlc = (b0, b1)"
    by (simp add: stored_header_def ram_reset_value_def tx_buffer_fields can b0_def b1_def del: One_nat_def)
  have 0: "field_get 0 29 b0 = can_id" "field_get 29 1 b0 = 0" "field_get 30 1 b0 = 1"
    unfolding b0_def by (simp_all add: field_read_write can fits del: One_nat_def)
  show "tb_id (stored_header can_id format marker dlc) = can_id" "tb_xtd (stored_header can_id format marker dlc)"
    "\<not> tb_rtr (stored_header can_id format marker dlc)"
    by (simp_all add: h tx_buffer_read 0 del: One_nat_def)
  have one: "field_get 23 1 b1 = 1 AND mask 1" "field_get 21 1 b1 = of_bool (ff_fd format) AND mask 1"
    "field_get 20 1 b1 = of_bool (ff_bit_rate_switch format) AND mask 1"
    "field_get 16 4 b1 = ucast dlc AND mask 4" "field_get 24 7 b1 = ucast marker AND mask 7" "field_get 31 1 b1 = 0"
    unfolding b1_def by (simp_all add: field_read_write del: One_nat_def)
  have "field_get 24 8 b1 = field_get 24 7 b1"
  proof (rule bit_word_eqI)
    fix n assume "n < LENGTH(32)"
    have "\<not> bit b1 31" using one(6) field_bit [of 31 b1] by simp
    then show "bit (field_get 24 8 b1) n = bit (field_get 24 7 b1) n"
      by (cases "n = 7") (auto simp: bit_field_get)
  qed
  then show "tb_fdf (stored_header can_id format marker dlc) = ff_fd format"
    "tb_brs (stored_header can_id format marker dlc) = ff_bit_rate_switch format"
    "tb_dlc (stored_header can_id format marker dlc) = dlc" "tb_mm (stored_header can_id format marker dlc) = marker"
    "tb_efc (stored_header can_id format marker dlc)"
    by (simp_all add: h tx_buffer_read one d one_bit_fits fits del: One_nat_def)
qed

lemma dl_wf_cases: "dl_wf l \<Longrightarrow> dl_as_usize l \<in> {0, 1, 2, 3, 4, 5, 6, 7, 8, 12, 16, 20, 24, 32, 48, 64}"
  by (simp add: dl_wf_def valid_can_length_def)

lemma make_dlc_total: "dl_wf l \<Longrightarrow> \<exists>d. make_dlc l = Some d \<and> d \<le> 15"
  by (drule dl_wf_cases, elim insertE emptyE) (simp_all add: make_dlc_def)

lemma dlc_read:
  assumes "dl_wf l" "make_dlc l = Some d" "rx_dlc r = d" "rx_fdf r \<or> dl_as_usize l \<le> 8"
  shows "\<exists>len. rx_to_data_length r = Some len \<and> unat (rdl_len len) = dl_as_usize l"
  using dl_wf_cases [OF assms(1)] assms(2-)
  by (elim insertE emptyE) (auto simp: make_dlc_def rx_to_data_length_def rdl_new_def Let_def)

text \<open>
  C29: A frame passes through the peripherals unchanged. A frame that may be sent fits into a
  transmit element, marked with the number of its mailbox; when the bus carries that element into
  the receive element of another peripheral, by a filter of its kind, the frame read there has the
  same header, the same length and the same bytes. The event that the peripheral stores for the
  transmission is read as the marker of the mailbox with the time stamp.
\<close>

theorem native_frame_roundtrip:
  assumes "header_wf (f_header f)" "sendable (f_header f)" "data_wf (f_data f)"
    "ff_fd format \<or> dl_as_usize (d_length (f_data f)) \<le> 8" "marker \<le> 127" "length (el_data elem) = 16"
  shows "\<exists>tx. store_tx_buffer elem f format marker = Some tx \<and> tb_mm (el_header tx) = marker \<and> tb_efc (el_header tx) \<and>
    (\<forall>ev t. event_of (el_header tx) t ev \<longrightarrow> load_tx_event ev = \<lparr> ev_marker = marker, ev_timestamp = t \<rparr>) \<and>
    (\<forall>rx. carried (length (data_deref (f_data f))) tx rx \<longrightarrow>
      (unat (rx_fidx (el_header rx)) = SERVICE_FILTER_OFFSET \<longleftrightarrow> \<not> is_message (f_header f)) \<longrightarrow>
      (\<exists>raw. load_frame rx = Some (Some raw) \<and> rw_header raw = f_header f \<and> data_wf (rw_data raw) \<and>
        d_length (rw_data raw) = d_length (f_data f) \<and> data_deref (rw_data raw) = data_deref (f_data f) \<and>
        rw_timestamp raw = rx_rxts (el_header rx)))"
proof -
  obtain x where x: "make_can_id (f_header f) = Inr x" "x AND NOT CAN_ID_MASK = 0"
    "load_msg_frame_header x = (if is_message (f_header f) then Some (f_header f) else None)"
    "load_srv_frame_header x = (if is_message (f_header f) then None else Some (f_header f))"
    using can_id_header [OF assms(1,2)] by blast
  have wf: "dl_wf (d_length (f_data f))" "length (d_bytes (f_data f)) = 64" using assms(3) by (simp_all add: data_wf_def)
  have len: "length (data_deref (f_data f)) = dl_as_usize (d_length (f_data f))" "dl_as_usize (d_length (f_data f)) \<le> 64"
    using dl_wf_le [OF wf(1)] wf(2) by (simp_all add: data_deref_def)
  obtain d where d: "make_dlc (d_length (f_data f)) = Some d" "d \<le> 15" using make_dlc_total [OF wf(1)] by blast
  obtain words where words: "store_chunks 0 (data_deref (f_data f)) (el_data elem) = Some words"
    "take (length (data_deref (f_data f))) (ram_bytes words) = data_deref (f_data f)"
    using store_chunks_bytes [of 0 "data_deref (f_data f)" "el_data elem"] assms(6) len by auto
  let ?tx = "\<lparr> el_header = stored_header x format marker d, el_data = words \<rparr>"
  note h = stored_header_read [OF x(2) d(2) assms(5), of format]
  have store: "store_tx_buffer elem f format marker = Some ?tx"
    using x(1) d(1) words(1) assms(4) len(1) by (simp add: store_tx_buffer_def stored_header_def)
  have load: "\<exists>raw. load_frame rx = Some (Some raw) \<and> rw_header raw = f_header f \<and> data_wf (rw_data raw) \<and>
      d_length (rw_data raw) = d_length (f_data f) \<and> data_deref (rw_data raw) = data_deref (f_data f) \<and>
      rw_timestamp raw = rx_rxts (el_header rx)"
    if rx: "carried (length (data_deref (f_data f))) ?tx rx"
      "unat (rx_fidx (el_header rx)) = SERVICE_FILTER_OFFSET \<longleftrightarrow> \<not> is_message (f_header f)" for rx
  proof -
    have r: "rx_id (el_header rx) = x" "rx_xtd (el_header rx)" "\<not> rx_rtr (el_header rx)" "rx_dlc (el_header rx) = d"
      "rx_fdf (el_header rx) = ff_fd format" "length (el_data rx) = 16"
      "take (length (data_deref (f_data f))) (ram_bytes (el_data rx)) = data_deref (f_data f)"
      using carried_read [OF rx(1)] h words(2) by simp_all
    obtain l where l: "rx_to_data_length (el_header rx) = Some l" "unat (rdl_len l) = dl_as_usize (d_length (f_data f))"
      using dlc_read [OF wf(1) d(1) r(4)] assms(4) r(5) by auto
    have new: "dl_new (unat (rdl_len l)) = Some (d_length (f_data f))"
      using wf(1) by (simp add: l(2) dl_new_Some_iff dl_wf_def)
    have "load_chunks 0 (dl_as_usize (d_length (f_data f))) (el_data rx) = Some (data_deref (f_data f))"
      using load_chunks_bytes [of 0 "dl_as_usize (d_length (f_data f))" "el_data rx"] r(6,7) len by simp
    then have "load_frame rx = Some (Some \<lparr> rw_header = f_header f,
        rw_data = data_deref_set (data_new_zeros (d_length (f_data f))) (data_deref (f_data f)),
        rw_timestamp = rx_rxts (el_header rx) \<rparr>)"
      using r(1-3) rx(2) x(3,4) l(1) new by (simp add: load_frame_def Let_def)
    moreover have "data_wf (data_deref_set (data_new_zeros (d_length (f_data f))) (data_deref (f_data f)))"
      using wf(1) len by (simp add: data_wf_def data_deref_set_def data_new_zeros_def)
    moreover have "data_deref (data_deref_set (data_new_zeros (d_length (f_data f))) (data_deref (f_data f))) = data_deref (f_data f)"
      using len by (simp add: data_deref_set_def data_new_zeros_def data_deref_def)
    ultimately show ?thesis by (simp add: data_deref_set_def data_new_zeros_def)
  qed
  then show ?thesis using store h event_read by auto
qed

definition sample_elem :: ram_element where
  "sample_elem = \<lparr> el_header = (0, 0), el_data = replicate 16 0 \<rparr>"

definition sample_frame :: frame where
  "sample_frame = \<lparr> f_header = sample_header, f_data = projr (data_new [1, 2, 3, 4, 5, 6]), f_timestamp = 5, f_loop_back = False \<rparr>"

text \<open>
  The elements of the peripherals for the sample frame: received by the service filter at the
  count 77, and reported as begun at the count 55.
\<close>

definition sample_rx :: "ram_element \<Rightarrow> ram_element" where
  "sample_rx tx = tx\<lparr> el_header := (fst (el_header tx),
     field_set 0 16 77 (field_set 24 8 (of_nat SERVICE_FILTER_OFFSET) (snd (el_header tx)))) \<rparr>"

definition sample_event :: "ram_element \<Rightarrow> ram_word" where
  "sample_event tx = (fst (el_header tx), field_set 0 16 55 (snd (el_header tx)))"

lemma sample_elements:
  assumes "length (el_data tx) = 16"
  shows "carried n tx (sample_rx tx)" "event_of (el_header tx) 55 (sample_event tx)"
    "unat (rx_fidx (el_header (sample_rx tx))) = SERVICE_FILTER_OFFSET" "rx_rxts (el_header (sample_rx tx)) = 77"
proof -
  have v: "(77 :: u32) AND mask 16 = 77" "(55 :: u32) AND mask 16 = 55" "(7 :: u32) AND mask 8 = 7"
    by (simp_all add: mask_eq_exp_minus_1)
  have 7: "(of_nat SERVICE_FILTER_OFFSET :: u32) = 7" "SERVICE_FILTER_OFFSET = 7" by (simp_all add: SERVICE_FILTER_OFFSET_def
      MESSAGE_FILTER_OFFSET_def MESSAGE_FILTER_COUNT_def EXTENDED_FILTER_MAX_def)
  show "carried n tx (sample_rx tx)" "event_of (el_header tx) 55 (sample_event tx)"
    "unat (rx_fidx (el_header (sample_rx tx))) = SERVICE_FILTER_OFFSET" "rx_rxts (el_header (sample_rx tx)) = 77"
    using assms by (simp_all add: carried_def sample_rx_def event_of_def sample_event_def rx_element_read 7 v
        field_get_set field_get_set_other)
qed

lemma native_frame_roundtrip_witness:
  "\<exists>tx raw. store_tx_buffer sample_elem sample_frame FfClassic 2 = Some tx \<and> carried 6 tx (sample_rx tx) \<and>
    load_frame (sample_rx tx) = Some (Some raw) \<and> rw_header raw = sample_header \<and>
    data_deref (rw_data raw) = [1, 2, 3, 4, 5, 6] \<and> rw_timestamp raw = 77 \<and>
    load_tx_event (sample_event tx) = \<lparr> ev_marker = 2, ev_timestamp = 55 \<rparr>"
proof -
  have "header_wf sample_header" "sendable sample_header" and srv: "\<not> is_message sample_header"
    by (simp_all add: sample_header_def header_wf_def sendable_def is_message_def node_id_wf_def service_id_wf_def id_mask_defs)
  moreover have "data_wf (f_data sample_frame)" "dl_as_usize (d_length (f_data sample_frame)) \<le> 8"
    and bytes: "data_deref (f_data sample_frame) = [1, 2, 3, 4, 5, 6]"
    by code_simp+
  ultimately obtain tx where tx: "store_tx_buffer sample_elem sample_frame FfClassic 2 = Some tx"
    "event_of (el_header tx) t ev \<Longrightarrow> load_tx_event ev = \<lparr> ev_marker = 2, ev_timestamp = t \<rparr>"
    "carried (length (data_deref (f_data sample_frame))) tx rx \<Longrightarrow>
      (unat (rx_fidx (el_header rx)) = SERVICE_FILTER_OFFSET \<longleftrightarrow> \<not> is_message (f_header sample_frame)) \<Longrightarrow>
      (\<exists>raw. load_frame rx = Some (Some raw) \<and> rw_header raw = f_header sample_frame \<and> data_wf (rw_data raw) \<and>
        d_length (rw_data raw) = d_length (f_data sample_frame) \<and>
        data_deref (rw_data raw) = data_deref (f_data sample_frame) \<and>
        rw_timestamp raw = rx_rxts (el_header rx))" for t ev rx
    using native_frame_roundtrip [of sample_frame FfClassic 2 sample_elem]
    by (auto simp: sample_elem_def sample_frame_def)
  have "length (el_data tx) = 16"
  proof -
    have "map_option (\<lambda>tx. length (el_data tx)) (store_tx_buffer sample_elem sample_frame FfClassic 2) = Some 16"
      by code_simp
    then show ?thesis using tx(1) by simp
  qed
  note el = sample_elements [OF this]
  have h: "f_header sample_frame = sample_header" by (simp add: sample_frame_def)
  obtain raw where "load_frame (sample_rx tx) = Some (Some raw)" "rw_header raw = sample_header"
    "data_deref (rw_data raw) = [1, 2, 3, 4, 5, 6]" "rw_timestamp raw = 77"
    using tx(3) [OF el(1)] el(3,4) srv bytes unfolding h by auto
  then show ?thesis using tx(1) tx(2) [OF el(2)] el(1) [of 6] by blast
qed

end
