(* ===== verification/Native_Filters.thy ===== *)
theory Native_Filters
  imports Native_Ram Node_Run
begin

text \<open>
  The receive filters of the native driver: the filter elements of \<open>raw.rs\<close> and the task
  \<open>RxFilterRunner\<close> of \<open>driver.rs\<close>, which keeps them up to date with the updates of a node.
\<close>

section \<open>Filter elements\<close>

definition set_message_filter ::
  "ram_word list \<Rightarrow> nat \<Rightarrow> subject_id option \<times> subject_id option \<Rightarrow> ram_word list exec" where
  "set_message_filter elements n val = do {
     assert_that (n < MESSAGE_FILTER_COUNT);
     arr_set elements (MESSAGE_FILTER_OFFSET + n)
       ((ef_set_efec StoreInFifo0 \<circ> ef_set_efid2 (make_msg_filter_pattern (snd val)) \<circ>
         ef_set_efid1 (make_msg_filter_pattern (fst val)) \<circ> ef_set_eft DualIdFilter) ram_reset_value)
   }"

definition get_message_filter :: "ram_word list \<Rightarrow> nat \<Rightarrow> (subject_id option \<times> subject_id option) exec" where
  "get_message_filter elements n = do {
     assert_that (n < MESSAGE_FILTER_COUNT);
     elem \<leftarrow> arr_get elements (MESSAGE_FILTER_OFFSET + n);
     ft \<leftarrow> to_filter_type (ef_eft elem);
     assert_that (ft = DualIdFilter);
     ret (decode_msg_filter_pattern (ef_efid1 elem), decode_msg_filter_pattern (ef_efid2 elem))
   }"

definition set_service_filter :: "ram_word list \<Rightarrow> node_id option \<Rightarrow> ram_word list exec" where
  "set_service_filter elements dest =
     arr_set elements SERVICE_FILTER_OFFSET
       ((ef_set_efec StoreInFifo1 \<circ> ef_set_efid2 SRV_FILTER_MASK \<circ>
         ef_set_efid1 (make_srv_filter_pattern dest) \<circ> ef_set_eft ClassicFilter) ram_reset_value)"

definition get_service_filter :: "ram_word list \<Rightarrow> node_id option exec" where
  "get_service_filter elements = do {
     elem \<leftarrow> arr_get elements SERVICE_FILTER_OFFSET;
     ft \<leftarrow> to_filter_type (ef_eft elem);
     assert_that (ft = ClassicFilter);
     ret (decode_srv_filter_pattern (ef_efid1 elem))
   }"

definition init_filters :: "ram_word list \<Rightarrow> ram_word list exec" where
  "init_filters elements = do {
     elements \<leftarrow> for_each (\<lambda>i elements. set_message_filter elements i (None, None)) [0..<MESSAGE_FILTER_COUNT] elements;
     set_service_filter elements None
   }"

section \<open>The task\<close>

type_synonym msg_filter = "subject_id option \<times> subject_id option"

definition SUBJECT_SLOT_COUNT :: nat where
  "SUBJECT_SLOT_COUNT = MESSAGE_FILTER_COUNT * 2"

definition load_message_filters :: "ram_word list \<Rightarrow> msg_filter list exec" where
  "load_message_filters elements =
     for_each (\<lambda>i filters. do { f \<leftarrow> get_message_filter elements i; arr_set filters i f })
       [0..<MESSAGE_FILTER_COUNT] (replicate MESSAGE_FILTER_COUNT (None, None))"

definition load_service_filter :: "ram_word list \<Rightarrow> node_id option exec" where
  "load_service_filter elements = get_service_filter elements"

text \<open>\<open>as_flattened_mut\<close>: the slots of the filters in one row, and one of them set.\<close>

definition flattened :: "msg_filter list \<Rightarrow> subject_id option list" where
  "flattened filters = concat (map (\<lambda>(a, b). [a, b]) filters)"

definition set_slot :: "msg_filter list \<Rightarrow> nat \<Rightarrow> subject_id option \<Rightarrow> msg_filter list exec" where
  "set_slot filters idx v = do {
     f \<leftarrow> arr_get filters (idx div 2);
     arr_set filters (idx div 2) (if idx mod 2 = 0 then (v, snd f) else (fst f, v))
   }"

definition position_none :: "'a option list \<Rightarrow> nat option" where
  "position_none xs = find (\<lambda>i. xs ! i = None) [0..<length xs]"

definition fr_add_subject ::
  "subject_id \<Rightarrow> ram_word list \<times> msg_filter list \<Rightarrow> (ram_word list \<times> msg_filter list) exec" where
  "fr_add_subject subject = (\<lambda>(elements, filters). do {
     slot_idx \<leftarrow> unwrap (position_none (flattened filters));
     filters \<leftarrow> set_slot filters slot_idx (Some subject);
     let filter_idx = slot_idx div 2;
     f \<leftarrow> arr_get filters filter_idx;
     elements \<leftarrow> set_message_filter elements filter_idx f;
     ret (elements, filters)
   })"

definition in_range :: "subject_id \<Rightarrow> subject_id \<Rightarrow> subject_id option \<Rightarrow> bool" where
  "in_range a b slot \<longleftrightarrow> (case slot of None \<Rightarrow> False | Some val \<Rightarrow> a \<le> val \<and> val \<le> b)"

definition cleared :: "subject_id \<Rightarrow> subject_id \<Rightarrow> msg_filter \<Rightarrow> msg_filter" where
  "cleared a b f = (if in_range a b (fst f) then None else fst f, if in_range a b (snd f) then None else snd f)"

definition fr_remove_subject_range ::
  "subject_id \<Rightarrow> subject_id \<Rightarrow> ram_word list \<times> msg_filter list \<Rightarrow> (ram_word list \<times> msg_filter list) exec" where
  "fr_remove_subject_range a b = (\<lambda>(elements, filters).
     for_each (\<lambda>i (elements, filters). do {
       f \<leftarrow> arr_get filters i;
       let update_filter = (in_range a b (fst f) \<or> in_range a b (snd f));
       filters \<leftarrow> arr_set filters i (cleared a b f);
       elements \<leftarrow> (if update_filter then set_message_filter elements i (cleared a b f) else ret elements);
       ret (elements, filters)
     }) [0..<length filters] (elements, filters))"

definition fr_add_destination ::
  "node_id \<Rightarrow> ram_word list \<times> node_id option \<Rightarrow> (ram_word list \<times> node_id option) exec" where
  "fr_add_destination node = (\<lambda>(elements, filter). do {
     assert_that (filter = None);
     let filter = Some node;
     elements \<leftarrow> set_service_filter elements filter;
     ret (elements, filter)
   })"

definition fr_remove_destination_range ::
  "node_id \<Rightarrow> node_id \<Rightarrow> ram_word list \<times> node_id option \<Rightarrow> (ram_word list \<times> node_id option) exec" where
  "fr_remove_destination_range a b = (\<lambda>(elements, filter).
     if (case filter of None \<Rightarrow> False | Some val \<Rightarrow> a \<le> val \<and> val \<le> b)
     then do { elements \<leftarrow> set_service_filter elements None; ret (elements, None) }
     else ret (elements, filter))"

text \<open>One round of the loop of \<open>run\<close>, on the elements and the two copies of their contents.\<close>

record filter_runner =
  fr_elements :: "ram_word list"
  fr_msg_filters :: "msg_filter list"
  fr_srv_filter :: "node_id option"

definition fr_load :: "ram_word list \<Rightarrow> filter_runner exec" where
  "fr_load elements = do {
     msg_filters \<leftarrow> load_message_filters elements;
     srv_filter \<leftarrow> load_service_filter elements;
     ret \<lparr> fr_elements = elements, fr_msg_filters = msg_filters, fr_srv_filter = srv_filter \<rparr>
   }"

definition fr_step :: "filter_update \<Rightarrow> filter_runner \<Rightarrow> filter_runner exec" where
  "fr_step request fr = (case request of
     AddSubject subject \<Rightarrow> do {
       (elements, filters) \<leftarrow> fr_add_subject subject (fr_elements fr, fr_msg_filters fr);
       ret (fr\<lparr> fr_elements := elements, fr_msg_filters := filters \<rparr>)
     }
   | RemoveSubjectRange a b \<Rightarrow> do {
       (elements, filters) \<leftarrow> fr_remove_subject_range a b (fr_elements fr, fr_msg_filters fr);
       ret (fr\<lparr> fr_elements := elements, fr_msg_filters := filters \<rparr>)
     }
   | AddDestination node \<Rightarrow> do {
       (elements, filter) \<leftarrow> fr_add_destination node (fr_elements fr, fr_srv_filter fr);
       ret (fr\<lparr> fr_elements := elements, fr_srv_filter := filter \<rparr>)
     }
   | RemoveDestinationRange a b \<Rightarrow> do {
       (elements, filter) \<leftarrow> fr_remove_destination_range a b (fr_elements fr, fr_srv_filter fr);
       ret (fr\<lparr> fr_elements := elements, fr_srv_filter := filter \<rparr>)
     })"

definition fr_run :: "ram_word list \<Rightarrow> filter_update list \<Rightarrow> filter_runner exec" where
  "fr_run elements requests = do {
     elements \<leftarrow> init_filters elements;
     fr \<leftarrow> fr_load elements;
     for_each fr_step requests fr
   }"


section \<open>What a filter lets pass\<close>

text \<open>
  The peripheral as the reference manual describes it: the identifier of a received frame is masked
  with XIDAM; a dual filter compares it with two identifiers, a classic one with an identifier under
  a mask.
\<close>

definition filter_law :: "(u32 \<Rightarrow> ram_word \<Rightarrow> u32 \<Rightarrow> bool) \<Rightarrow> bool" where
  "filter_law accepts \<longleftrightarrow> (\<forall>xidam e x.
     (ef_eft e = filter_type_u8 DualIdFilter \<longrightarrow>
       accepts xidam e x = (x AND xidam = ef_efid1 e \<or> x AND xidam = ef_efid2 e)) \<and>
     (ef_eft e = filter_type_u8 ClassicFilter \<longrightarrow>
       accepts xidam e x = ((x AND xidam) AND ef_efid2 e = ef_efid1 e AND ef_efid2 e)))"

lemma filter_lawD:
  assumes "filter_law accepts"
  shows "ef_eft e = filter_type_u8 DualIdFilter \<Longrightarrow> accepts xidam e x = (x AND xidam = ef_efid1 e \<or> x AND xidam = ef_efid2 e)"
    "ef_eft e = filter_type_u8 ClassicFilter \<Longrightarrow>
      accepts xidam e x = ((x AND xidam) AND ef_efid2 e = ef_efid1 e AND ef_efid2 e)"
  using assms unfolding filter_law_def by blast+

definition msg_element :: "msg_filter \<Rightarrow> ram_word" where
  "msg_element f = (ef_set_efec StoreInFifo0 \<circ> ef_set_efid2 (make_msg_filter_pattern (snd f)) \<circ>
     ef_set_efid1 (make_msg_filter_pattern (fst f)) \<circ> ef_set_eft DualIdFilter) ram_reset_value"

definition srv_element :: "node_id option \<Rightarrow> ram_word" where
  "srv_element d = (ef_set_efec StoreInFifo1 \<circ> ef_set_efid2 SRV_FILTER_MASK \<circ>
     ef_set_efid1 (make_srv_filter_pattern d) \<circ> ef_set_eft ClassicFilter) ram_reset_value"

lemma element_fields:
  assumes "v1 AND mask 29 = v1" "v2 AND mask 29 = v2"
  shows "ef_efid1 ((ef_set_efec c \<circ> ef_set_efid2 v2 \<circ> ef_set_efid1 v1 \<circ> ef_set_eft t) ram_reset_value) = v1"
    "ef_efid2 ((ef_set_efec c \<circ> ef_set_efid2 v2 \<circ> ef_set_efid1 v1 \<circ> ef_set_eft t) ram_reset_value) = v2"
    "ef_eft ((ef_set_efec c \<circ> ef_set_efid2 v2 \<circ> ef_set_efid1 v1 \<circ> ef_set_eft t) ram_reset_value) = filter_type_u8 t"
proof -
  have t: "ucast (filter_type_u8 t) AND mask 2 = (ucast (filter_type_u8 t) :: u32)"
    by (cases t) (simp_all add: mask_eq_exp_minus_1)
  show "ef_efid1 ((ef_set_efec c \<circ> ef_set_efid2 v2 \<circ> ef_set_efid1 v1 \<circ> ef_set_eft t) ram_reset_value) = v1"
    "ef_efid2 ((ef_set_efec c \<circ> ef_set_efid2 v2 \<circ> ef_set_efid1 v1 \<circ> ef_set_eft t) ram_reset_value) = v2"
    "ef_eft ((ef_set_efec c \<circ> ef_set_efid2 v2 \<circ> ef_set_efid1 v1 \<circ> ef_set_eft t) ram_reset_value) = filter_type_u8 t"
    by (simp_all add: ram_reset_value_def extended_filter_fields assms t field_read_write)
qed

lemma bit_flag: "bit (push_bit k 1 :: u32) n \<longleftrightarrow> n = k \<and> k < 32"
  by (auto simp: bit_push_bit_iff bit_1_iff bit_exp_iff)

lemma bit_field_mask: "bit (push_bit k (mask w) :: u32) n \<longleftrightarrow> k \<le> n \<and> n < k + w \<and> n < 32"
  by (auto simp: bit_push_bit_iff bit_mask_iff)

lemma bit_filter_masks:
  "bit MSG_FILTER_MASK n \<longleftrightarrow> n = 25 \<or> n = 23 \<or> n = 7 \<or> 8 \<le> n \<and> n < 21"
  "bit SRV_FILTER_MASK n \<longleftrightarrow> n = 25 \<or> n = 23 \<or> 7 \<le> n \<and> n < 14"
  "bit SRV_CHECK_MASK n \<longleftrightarrow> n = 25 \<or> n = 23"
proof -
  note defs = MSG_FILTER_MASK_def SRV_FILTER_MASK_def SRV_CHECK_MASK_def MSG_CHECK_MASK_def SERVICE_FLAG_def RES_23_FLAG_def
    MSG_RES_7_FLAG_def id_layout offset_defs
  show "bit MSG_FILTER_MASK n \<longleftrightarrow> n = 25 \<or> n = 23 \<or> n = 7 \<or> 8 \<le> n \<and> n < 21"
    "bit SRV_FILTER_MASK n \<longleftrightarrow> n = 25 \<or> n = 23 \<or> 7 \<le> n \<and> n < 14" "bit SRV_CHECK_MASK n \<longleftrightarrow> n = 25 \<or> n = 23"
    unfolding defs bit_or_iff bit_flag bit_field_mask by auto
qed

lemma masked_eq:
  fixes x y m :: u32
  assumes "\<And>n. bit y n \<Longrightarrow> bit m n"
  shows "x AND m = y \<longleftrightarrow> (\<forall>n. bit m n \<longrightarrow> bit x n = bit y n)"
proof
  assume "x AND m = y"
  then show "\<forall>n. bit m n \<longrightarrow> bit x n = bit y n" by (auto simp: bit_and_iff)
next
  assume "\<forall>n. bit m n \<longrightarrow> bit x n = bit y n"
  then show "x AND m = y" using assms by (intro bit_word_eqI) (auto simp: bit_and_iff)
qed

lemma field_get_eq: "field_get off w x = v \<longleftrightarrow> v AND mask w = v \<and> (\<forall>n. off \<le> n \<longrightarrow> n < off + w \<longrightarrow> bit x n = bit v (n - off))"
proof
  assume eq: "field_get off w x = v"
  have "bit x n = bit v (n - off)" if "off \<le> n" "n < off + w" for n
    using bit_field_get [of off w x "n - off"] that by (simp add: eq less_diff_conv2 add.commute)
  moreover have "v AND mask w = v" using field_get_mask [of off w x] by (simp add: eq)
  ultimately show "v AND mask w = v \<and> (\<forall>n. off \<le> n \<longrightarrow> n < off + w \<longrightarrow> bit x n = bit v (n - off))" by blast
next
  assume v: "v AND mask w = v \<and> (\<forall>n. off \<le> n \<longrightarrow> n < off + w \<longrightarrow> bit x n = bit v (n - off))"
  show "field_get off w x = v"
  proof (rule bit_word_eqI)
    fix n assume "n < LENGTH(32)"
    have "bit v n \<Longrightarrow> n < w" using v by (metis bit_and_iff bit_mask_iff)
    then show "bit (field_get off w x) n = bit v n" using v spec [OF conjunct2 [OF v], of "off + n"] by (auto simp: bit_field_get)
  qed
qed

lemma bit_value_field:
  assumes "v AND mask w = v" "off + w \<le> 32"
  shows "bit (push_bit off v :: u32) n \<longleftrightarrow> off \<le> n \<and> n < off + w \<and> bit v (n - off)"
proof -
  have "bit v (n - off) \<Longrightarrow> n - off < w" using assms(1) by (metis bit_and_iff bit_mask_iff)
  then show ?thesis using assms(2) by (auto simp: bit_push_bit_iff)
qed

lemma message_pattern_accepts:
  assumes "subject_id_wf s"
  shows "x AND MSG_FILTER_MASK = make_msg_filter_pattern (Some s) \<longleftrightarrow>
    (case load_msg_frame_header x of None \<Rightarrow> False | Some h \<Rightarrow> h_data_spec h = Message s)"
proof -
  let ?v = "ucast (subject_id_into_u16 s) :: u32"
  have v: "?v AND mask 13 = ?v" by (rule id_fits(2) [OF assms])
  have pat: "make_msg_filter_pattern (Some s) = push_bit 8 ?v"
    by (simp add: make_msg_filter_pattern_def id_layout offset_defs)
  have bits: "bit (push_bit 8 ?v) n \<longleftrightarrow> 8 \<le> n \<and> n < 21 \<and> bit ?v (n - 8)" for n
    using bit_value_field [OF v, of 8 n] by simp
  have "x AND MSG_FILTER_MASK = push_bit 8 ?v \<longleftrightarrow>
      \<not> bit x 25 \<and> \<not> bit x 23 \<and> \<not> bit x 7 \<and> (\<forall>n. 8 \<le> n \<longrightarrow> n < 21 \<longrightarrow> bit x n = bit ?v (n - 8))"
    by (subst masked_eq) (auto simp: bits bit_filter_masks)
  also have "\<dots> \<longleftrightarrow> \<not> bit x 25 \<and> \<not> bit x 23 \<and> \<not> bit x 7 \<and> field_get 8 13 x = ?v"
    using field_get_eq [of 8 13 x ?v] v by auto
  also have "\<dots> \<longleftrightarrow> (case load_msg_frame_header x of None \<Rightarrow> False | Some h \<Rightarrow> h_data_spec h = Message s)"
  proof -
    have clear: "field_get n 1 x = 0 \<longleftrightarrow> \<not> bit x n" for n using field_bit by blast
    have get: "field_get 8 13 (x AND mask 29 OR 0x600000) = field_get 8 13 x"
      using field_get_and_or [of 8 13 29 "0x600000" x] by (simp add: field_get_ignored)
    have "ucast (field_get 8 13 x) = subject_id_into_u16 s \<longleftrightarrow> field_get 8 13 x = ?v"
    proof
      assume "ucast (field_get 8 13 x) = subject_id_into_u16 s"
      then have "ucast (ucast (field_get 8 13 x) :: u16) = ?v" by simp
      moreover have "ucast (ucast (field_get 8 13 x) :: u16) = field_get 8 13 x"
        by (rule bit_word_eqI) (auto simp: bit_simps bit_field_get)
      ultimately show "field_get 8 13 x = ?v" by simp
    qed simp
    then have "SubjectId (ucast (field_get 8 13 x)) = s \<longleftrightarrow> field_get 8 13 x = ?v"
      by (cases s) simp
    then show ?thesis
      by (simp add: load_msg_frame_header_def fields_checked fields_message get clear del: One_nat_def)
  qed
  finally show ?thesis by (simp add: pat)
qed

lemma message_pattern_none: "x AND MSG_FILTER_MASK \<noteq> make_msg_filter_pattern None"
proof
  assume eq: "x AND MSG_FILTER_MASK = make_msg_filter_pattern None"
  have "bit (make_msg_filter_pattern None) 0"
    by (simp add: make_msg_filter_pattern_def id_layout bit_and_iff bit_not_iff bit_mask_iff bit_filter_masks)
  moreover have "\<not> bit (x AND MSG_FILTER_MASK) 0" by (simp add: bit_and_iff bit_filter_masks)
  ultimately show False using eq by simp
qed


lemma service_pattern_accepts:
  assumes "node_id_wf d"
  shows "(x AND MSG_FILTER_MASK) AND SRV_FILTER_MASK = make_srv_filter_pattern (Some d) AND SRV_FILTER_MASK \<longleftrightarrow>
    (case load_srv_frame_header x of None \<Rightarrow> False | Some h \<Rightarrow> h_destination h = Some d)"
proof -
  let ?v = "ucast (node_id_into_u8 d) :: u32"
  have v: "?v AND mask 7 = ?v" by (rule id_fits(1) [OF assms])
  have pat: "make_srv_filter_pattern (Some d) = push_bit 25 1 OR push_bit 7 ?v"
    by (simp add: make_srv_filter_pattern_def id_layout offset_defs)
  have bits: "bit (push_bit 7 ?v) n \<longleftrightarrow> 7 \<le> n \<and> n < 14 \<and> bit ?v (n - 7)" for n
    using bit_value_field [OF v, of 7 n] by simp
  have y: "bit (push_bit 25 1 OR push_bit 7 ?v) n \<longleftrightarrow> n = 25 \<or> 7 \<le> n \<and> n < 14 \<and> bit ?v (n - 7)" for n
    unfolding bit_or_iff bit_flag bits by auto
  have "(x AND MSG_FILTER_MASK) AND SRV_FILTER_MASK = x AND SRV_FILTER_MASK"
    by (rule bit_word_eqI) (auto simp: bit_and_iff bit_filter_masks)
  moreover have "(push_bit 25 1 OR push_bit 7 ?v) AND SRV_FILTER_MASK = push_bit 25 1 OR push_bit 7 ?v"
    by (rule bit_word_eqI) (auto simp only: bit_and_iff bit_or_iff bit_flag bits bit_filter_masks)
  moreover have "x AND SRV_FILTER_MASK = push_bit 25 1 OR push_bit 7 ?v \<longleftrightarrow>
      bit x 25 \<and> \<not> bit x 23 \<and> (\<forall>n. 7 \<le> n \<longrightarrow> n < 14 \<longrightarrow> bit x n = bit ?v (n - 7))"
    by (subst masked_eq) (auto simp: y bit_filter_masks simp del: push_bit_of_1)
  moreover have "\<dots> \<longleftrightarrow> bit x 25 \<and> \<not> bit x 23 \<and> field_get 7 7 x = ?v"
    using field_get_eq [of 7 7 x ?v] v by auto
  moreover have "\<dots> \<longleftrightarrow> (case load_srv_frame_header x of None \<Rightarrow> False | Some h \<Rightarrow> h_destination h = Some d)"
  proof -
    have clear: "field_get n 1 x = 0 \<longleftrightarrow> \<not> bit x n" for n using field_bit by blast
    have get: "field_get 7 7 (x AND mask 29) = field_get 7 7 x"
      using field_get_and_or [of 7 7 29 0 x] by simp
    have "ucast (field_get 7 7 x) = node_id_into_u8 d \<longleftrightarrow> field_get 7 7 x = ?v"
    proof
      assume "ucast (field_get 7 7 x) = node_id_into_u8 d"
      then have "ucast (ucast (field_get 7 7 x) :: u8) = ?v" by simp
      moreover have "ucast (ucast (field_get 7 7 x) :: u8) = field_get 7 7 x"
        by (rule bit_word_eqI) (auto simp: bit_simps bit_field_get)
      ultimately show "field_get 7 7 x = ?v" by simp
    qed simp
    then have "NodeId (ucast (field_get 7 7 x)) = d \<longleftrightarrow> field_get 7 7 x = ?v" by (cases d) simp
    then show ?thesis
      by (simp add: load_srv_frame_header_def fields_checked fields_service get clear del: One_nat_def)
  qed
  ultimately show ?thesis by (simp only: pat)
qed

text \<open>The filter of a node without destination lets pass only what is no service frame.\<close>

lemma service_pattern_none:
  assumes "(x AND MSG_FILTER_MASK) AND SRV_FILTER_MASK = make_srv_filter_pattern None AND SRV_FILTER_MASK"
  shows "load_srv_frame_header x = None"
proof -
  have "bit ((x AND MSG_FILTER_MASK) AND SRV_FILTER_MASK) 25 = bit (make_srv_filter_pattern None AND SRV_FILTER_MASK) 25"
    by (simp only: assms)
  then have "\<not> bit x 25"
    by (simp add: bit_and_iff bit_filter_masks make_srv_filter_pattern_def bit_not_iff)
  then show ?thesis using field_bit [of 25 x] by (simp add: load_srv_frame_header_def fields_checked del: One_nat_def)
qed

lemma pattern_29:
  "pred_option subject_id_wf a \<Longrightarrow> make_msg_filter_pattern a AND mask 29 = make_msg_filter_pattern a"
  "pred_option node_id_wf d \<Longrightarrow> make_srv_filter_pattern d AND mask 29 = make_srv_filter_pattern d"
  "SRV_FILTER_MASK AND mask 29 = SRV_FILTER_MASK"
proof -
  show "make_msg_filter_pattern a AND mask 29 = make_msg_filter_pattern a" if "pred_option subject_id_wf a"
  proof (cases a)
    case None
    then show ?thesis by (simp add: make_msg_filter_pattern_def id_layout and.assoc)
  next
    case (Some s)
    then have "(ucast (subject_id_into_u16 s) :: u32) AND mask 13 = ucast (subject_id_into_u16 s)"
      using that id_fits(2) by simp
    then have bits: "bit (push_bit 8 (ucast (subject_id_into_u16 s)) :: u32) k \<Longrightarrow> k < 21" for k
      using bit_value_field [of "ucast (subject_id_into_u16 s)" 13 8 k] by simp
    have pat: "make_msg_filter_pattern a = push_bit 8 (ucast (subject_id_into_u16 s))"
      using Some by (simp add: make_msg_filter_pattern_def id_layout offset_defs)
    have "bit (push_bit 8 (ucast (subject_id_into_u16 s)) :: u32) k \<Longrightarrow> k < 29" for k
      using bits [of k] by simp
    then show ?thesis unfolding pat by (intro bit_word_eqI) (auto simp only: bit_and_iff bit_mask_iff possible_bit_word)
  qed
  show "make_srv_filter_pattern d AND mask 29 = make_srv_filter_pattern d" if "pred_option node_id_wf d"
  proof (cases d)
    case None
    then show ?thesis by (simp add: make_srv_filter_pattern_def id_layout and.assoc)
  next
    case (Some n)
    then have "(ucast (node_id_into_u8 n) :: u32) AND mask 7 = ucast (node_id_into_u8 n)"
      using that id_fits(1) by simp
    then have bits: "bit (push_bit 7 (ucast (node_id_into_u8 n)) :: u32) k \<Longrightarrow> k < 14" for k
      using bit_value_field [of "ucast (node_id_into_u8 n)" 7 7 k] by simp
    have pat: "make_srv_filter_pattern d = push_bit 25 1 OR push_bit 7 (ucast (node_id_into_u8 n))"
      using Some by (simp add: make_srv_filter_pattern_def id_layout offset_defs)
    have "bit (push_bit 25 1 OR push_bit 7 (ucast (node_id_into_u8 n)) :: u32) k \<Longrightarrow> k < 29" for k
      unfolding bit_or_iff bit_flag using bits [of k] by auto
    then show ?thesis unfolding pat by (intro bit_word_eqI) (auto simp only: bit_and_iff bit_mask_iff possible_bit_word)
  qed
  show "SRV_FILTER_MASK AND mask 29 = SRV_FILTER_MASK"
    by (rule bit_word_eqI) (auto simp: bit_and_iff bit_mask_iff bit_filter_masks)
qed


lemma msg_element_fields:
  assumes "pred_option subject_id_wf a" "pred_option subject_id_wf b"
  shows "ef_eft (msg_element (a, b)) = filter_type_u8 DualIdFilter" "ef_efid1 (msg_element (a, b)) = make_msg_filter_pattern a"
    "ef_efid2 (msg_element (a, b)) = make_msg_filter_pattern b"
  unfolding msg_element_def fst_conv snd_conv
  by (rule element_fields [OF pattern_29(1) [OF assms(1)] pattern_29(1) [OF assms(2)]])+

lemma srv_element_fields:
  assumes "pred_option node_id_wf d"
  shows "ef_eft (srv_element d) = filter_type_u8 ClassicFilter" "ef_efid1 (srv_element d) = make_srv_filter_pattern d"
    "ef_efid2 (srv_element d) = SRV_FILTER_MASK"
  unfolding srv_element_def by (rule element_fields [OF pattern_29(2) [OF assms] pattern_29(3)])+

section \<open>The copies of the elements\<close>

definition fr_inv :: "filter_runner \<Rightarrow> bool" where
  "fr_inv fr \<longleftrightarrow> length (fr_msg_filters fr) = 7 \<and>
     fr_elements fr = map msg_element (fr_msg_filters fr) @ [srv_element (fr_srv_filter fr)] \<and>
     list_all (pred_option subject_id_wf) (flattened (fr_msg_filters fr)) \<and> pred_option node_id_wf (fr_srv_filter fr)"

lemma counts [simp]: "MESSAGE_FILTER_COUNT = 7" "MESSAGE_FILTER_OFFSET = 0" "SERVICE_FILTER_OFFSET = 7"
  "SUBJECT_SLOT_COUNT = 14"
  by (simp_all add: MESSAGE_FILTER_COUNT_def MESSAGE_FILTER_OFFSET_def SERVICE_FILTER_OFFSET_def EXTENDED_FILTER_MAX_def
      SUBJECT_SLOT_COUNT_def)

lemma set_message_filter_at:
  "n < 7 \<Longrightarrow> length elements = 8 \<Longrightarrow> set_message_filter elements n f = Some (elements[n := msg_element f])"
  by (simp add: set_message_filter_def msg_element_def arr_set_def)

lemma set_service_filter_at:
  "length elements = 8 \<Longrightarrow> set_service_filter elements d = Some (elements[7 := srv_element d])"
  by (simp add: set_service_filter_def srv_element_def arr_set_def)

lemma flattened_simps [simp]: "flattened [] = []" "flattened ((a, b) # fs) = a # b # flattened fs"
  by (simp_all add: flattened_def)

lemma length_flattened [simp]: "length (flattened fs) = 2 * length fs"
  by (induction fs) auto

lemma flattened_set_slot:
  assumes "k < 2 * length fs"
  shows "\<exists>fs'. set_slot fs k v = Some fs' \<and> length fs' = length fs \<and> flattened fs' = (flattened fs)[k := v] \<and>
    fs' = fs[k div 2 := fs' ! (k div 2)]"
proof -
  have i: "k div 2 < length fs" using assms by simp
  have "flattened (fs[k div 2 := (if k mod 2 = 0 then (v, snd (fs ! (k div 2))) else (fst (fs ! (k div 2)), v))]) =
      (flattened fs)[k := v]"
    using assms
  proof (induction fs arbitrary: k)
    case (Cons f fs)
    obtain a b where f: "f = (a, b)" by (cases f)
    show ?case
    proof (cases "k < 2")
      case True
      then have "k = 0 \<or> k = 1" by auto
      then show ?thesis by (auto simp: f)
    next
      case False
      then obtain j where j: "k = Suc (Suc j)" by (metis add_2_eq_Suc le_add_diff_inverse not_less)
      then show ?thesis using Cons.IH [of j] Cons.prems by (cases "j mod 2 = 0") (simp_all add: f)
    qed
  qed simp
  then show ?thesis using i by (auto simp: set_slot_def arr_get_def arr_set_def)
qed

lemma fr_add_subject_at:
  assumes inv: "fr_inv fr" and s: "subject_id_wf s" and free: "None \<in> set (flattened (fr_msg_filters fr))"
  shows "\<exists>fr' k. fr_step (AddSubject s) fr = Some fr' \<and> fr_inv fr' \<and> fr_srv_filter fr' = fr_srv_filter fr \<and> k < 14 \<and>
    flattened (fr_msg_filters fr) ! k = None \<and>
    flattened (fr_msg_filters fr') = (flattened (fr_msg_filters fr))[k := Some s]"
proof -
  let ?fs = "fr_msg_filters fr"
  have r: "length ?fs = 7" "fr_elements fr = map msg_element ?fs @ [srv_element (fr_srv_filter fr)]"
    "list_all (pred_option subject_id_wf) (flattened ?fs)" using inv by (simp_all add: fr_inv_def)
  obtain k where k: "position_none (flattened ?fs) = Some k"
    using free by (cases "position_none (flattened ?fs)") (auto simp: position_none_def find_None_iff in_set_conv_nth)
  then have at: "k < 14" "flattened ?fs ! k = None" using r(1) by (auto simp: position_none_def find_Some_iff)
  obtain fs' where fs': "set_slot ?fs k (Some s) = Some fs'" "length fs' = length ?fs"
    "flattened fs' = (flattened ?fs)[k := Some s]" "fs' = ?fs[k div 2 := fs' ! (k div 2)]"
    using flattened_set_slot [of k ?fs "Some s"] at r(1) by auto
  have i: "k div 2 < 7" using at(1) by simp
  have "map msg_element fs' = (map msg_element ?fs)[k div 2 := msg_element (fs' ! (k div 2))]"
    by (subst fs'(4)) (simp add: map_update)
  then have "(fr_elements fr)[k div 2 := msg_element (fs' ! (k div 2))] = map msg_element fs' @ [srv_element (fr_srv_filter fr)]"
    using i r(1) by (simp add: r(2) list_update_append1)
  then have "fr_step (AddSubject s) fr = Some (fr\<lparr> fr_elements := map msg_element fs' @ [srv_element (fr_srv_filter fr)],
      fr_msg_filters := fs' \<rparr>)"
    using k fs'(1,2) i r(1) by (simp add: fr_step_def fr_add_subject_def Let_def arr_get_def set_message_filter_at r(2))
  moreover have "list_all (pred_option subject_id_wf) (flattened fs')"
    unfolding fs'(3) using r(3) s by (auto simp: list_all_iff dest: set_update_subset_insert [THEN subsetD])
  ultimately show ?thesis using inv at fs'(2,3) by (auto simp: fr_inv_def)
qed

lemma flattened_cleared: "flattened (map (cleared a b) fs) = map (\<lambda>x. if in_range a b x then None else x) (flattened fs)"
  by (induction fs) (auto simp: cleared_def)

lemma fr_remove_range_at:
  assumes inv: "fr_inv fr"
  shows "\<exists>fr'. fr_step (RemoveSubjectRange a b) fr = Some fr' \<and> fr_inv fr' \<and> fr_srv_filter fr' = fr_srv_filter fr \<and>
    flattened (fr_msg_filters fr') = map (\<lambda>x. if in_range a b x then None else x) (flattened (fr_msg_filters fr))"
proof -
  let ?fs = "fr_msg_filters fr"
  let ?srv = "[srv_element (fr_srv_filter fr)]"
  let ?f = "\<lambda>i (elements, filters). do {
       f \<leftarrow> arr_get filters i;
       let update_filter = (in_range a b (fst f) \<or> in_range a b (snd f));
       filters \<leftarrow> arr_set filters i (cleared a b f);
       elements \<leftarrow> (if update_filter then set_message_filter elements i (cleared a b f) else ret elements);
       ret (elements, filters)
     }"
  have r: "length ?fs = 7" "fr_elements fr = map msg_element ?fs @ ?srv"
    "list_all (pred_option subject_id_wf) (flattened ?fs)" using inv by (simp_all add: fr_inv_def)
  have step: "?f i (map msg_element fs @ ?srv, fs) =
      Some (map msg_element (fs[i := cleared a b (fs ! i)]) @ ?srv, fs[i := cleared a b (fs ! i)])"
    if "i < length fs" "length fs = 7" for i fs
  proof (cases "in_range a b (fst (fs ! i)) \<or> in_range a b (snd (fs ! i))")
    case True
    then show ?thesis using that
      by (simp add: arr_get_def arr_set_def Let_def set_message_filter_at map_update list_update_append1)
  next
    case False
    then have "cleared a b (fs ! i) = fs ! i" by (simp add: cleared_def)
    then show ?thesis using that False by (simp add: arr_get_def arr_set_def Let_def)
  qed
  have run: "for_each ?f [0..<n] (map msg_element ?fs @ ?srv, ?fs) =
      Some (map msg_element (map (cleared a b) (take n ?fs) @ drop n ?fs) @ ?srv, map (cleared a b) (take n ?fs) @ drop n ?fs)"
    if "n \<le> 7" for n
    using that
  proof (induction n)
    case (Suc n)
    let ?now = "map (cleared a b) (take n ?fs) @ drop n ?fs"
    have n: "n < length ?now" "length ?now = 7" "?now ! n = ?fs ! n" using Suc.prems r(1) by (simp_all add: nth_append)
    have "?now[n := cleared a b (?now ! n)] = map (cleared a b) (take (Suc n) ?fs) @ drop (Suc n) ?fs"
      unfolding n(3) using Suc.prems r(1)
      by (simp add: take_Suc_conv_app_nth list_update_append Cons_nth_drop_Suc [symmetric])
    then show ?case using Suc.IH Suc.prems step [OF n(1,2)] by (simp add: for_each_append)
  qed simp
  have "fr_step (RemoveSubjectRange a b) fr = Some (fr\<lparr> fr_elements := map msg_element (map (cleared a b) ?fs) @ ?srv,
      fr_msg_filters := map (cleared a b) ?fs \<rparr>)"
    using run [of 7] r(1) by (simp add: fr_step_def fr_remove_subject_range_def r(2))
  moreover have "list_all (pred_option subject_id_wf) (flattened (map (cleared a b) ?fs))"
    unfolding flattened_cleared using r(3) by (auto simp: list_all_iff)
  ultimately show ?thesis using inv by (auto simp: fr_inv_def flattened_cleared)
qed


lemma fr_destination_at:
  assumes inv: "fr_inv fr"
  shows "node_id_wf n \<Longrightarrow> fr_srv_filter fr = None \<Longrightarrow> \<exists>fr'. fr_step (AddDestination n) fr = Some fr' \<and> fr_inv fr' \<and>
      fr_srv_filter fr' = Some n \<and> fr_msg_filters fr' = fr_msg_filters fr"
    "\<exists>fr'. fr_step (RemoveDestinationRange c d) fr = Some fr' \<and> fr_inv fr' \<and> fr_msg_filters fr' = fr_msg_filters fr \<and>
      fr_srv_filter fr' = (case fr_srv_filter fr of None \<Rightarrow> None | Some v \<Rightarrow> if c \<le> v \<and> v \<le> d then None else Some v)"
proof -
  have r: "length (fr_elements fr) = 8" "fr_elements fr = map msg_element (fr_msg_filters fr) @ [srv_element (fr_srv_filter fr)]"
    "length (fr_msg_filters fr) = 7" using inv by (simp_all add: fr_inv_def)
  have set: "set_service_filter (fr_elements fr) e = Some (map msg_element (fr_msg_filters fr) @ [srv_element e])" for e
    using set_service_filter_at [OF r(1), of e] r(3) by (simp add: r(2) list_update_append)
  show "\<exists>fr'. fr_step (AddDestination n) fr = Some fr' \<and> fr_inv fr' \<and>
      fr_srv_filter fr' = Some n \<and> fr_msg_filters fr' = fr_msg_filters fr"
    if "node_id_wf n" "fr_srv_filter fr = None"
    using that inv set by (auto simp: fr_step_def fr_add_destination_def fr_inv_def Let_def)
  show "\<exists>fr'. fr_step (RemoveDestinationRange c d) fr = Some fr' \<and> fr_inv fr' \<and> fr_msg_filters fr' = fr_msg_filters fr \<and>
      fr_srv_filter fr' = (case fr_srv_filter fr of None \<Rightarrow> None | Some v \<Rightarrow> if c \<le> v \<and> v \<le> d then None else Some v)"
    using inv set by (auto simp: fr_step_def fr_remove_destination_range_def fr_inv_def split: option.splits)
qed

section \<open>The filter of the driver\<close>

text \<open>What the slots and the service filter stand for; no subject takes two slots.\<close>

definition fr_rep :: "filter_runner \<Rightarrow> node_filter \<Rightarrow> bool" where
  "fr_rep fr = (\<lambda>(F, D). fr_inv fr \<and> D = set_option (fr_srv_filter fr) \<and>
     F = {s. Some s \<in> set (flattened (fr_msg_filters fr))} \<and>
     (\<forall>i j s. i < 14 \<longrightarrow> j < 14 \<longrightarrow> flattened (fr_msg_filters fr) ! i = Some s \<longrightarrow>
       flattened (fr_msg_filters fr) ! j = Some s \<longrightarrow> i = j))"

text \<open>Updates that fit: no subject is added twice, nor more than there are slots; one destination.\<close>

fun fits_filter :: "nat \<Rightarrow> filter_update list \<Rightarrow> node_filter \<Rightarrow> bool" where
  "fits_filter slots [] x = True"
| "fits_filter slots (u # us) (F, D) = ((case u of
      AddSubject s \<Rightarrow> subject_id_wf s \<and> s \<notin> F \<and> card F < slots
    | AddDestination n \<Rightarrow> node_id_wf n \<and> D = {}
    | _ \<Rightarrow> True) \<and> fits_filter slots us (apply_filter u (F, D)))"

lemma free_slot:
  assumes "None \<notin> set xs"
    "\<forall>i j s. i < length xs \<longrightarrow> j < length xs \<longrightarrow> xs ! i = Some s \<longrightarrow> xs ! j = Some s \<longrightarrow> i = j"
  shows "card {s. Some s \<in> set xs} = length xs"
proof -
  have some: "\<exists>s. xs ! i = Some s" if "i < length xs" for i using assms(1) that by (metis nth_mem option.exhaust)
  have "inj_on (\<lambda>i. the (xs ! i)) {..<length xs}" using some assms(2) by (auto simp: inj_on_def) (metis option.sel)
  moreover have "(\<lambda>i. the (xs ! i)) ` {..<length xs} = {s. Some s \<in> set xs}"
    using some by (force simp: in_set_conv_nth image_iff)
  ultimately show ?thesis using card_image by fastforce
qed

lemma fr_step_rep:
  assumes rep: "fr_rep fr (F, D)" and fits: "fits_filter SUBJECT_SLOT_COUNT (u # us) (F, D)"
  shows "\<exists>fr'. fr_step u fr = Some fr' \<and> fr_rep fr' (apply_filter u (F, D))"
proof -
  let ?xs = "flattened (fr_msg_filters fr)"
  have inv: "fr_inv fr" and D: "D = set_option (fr_srv_filter fr)" and F: "F = {s. Some s \<in> set ?xs}"
    and inj: "\<forall>i j s. i < 14 \<longrightarrow> j < 14 \<longrightarrow> ?xs ! i = Some s \<longrightarrow> ?xs ! j = Some s \<longrightarrow> i = j"
    using rep by (simp_all add: fr_rep_def)
  have len: "length ?xs = 14" using inv by (simp add: fr_inv_def)
  show ?thesis
  proof (cases u)
    case (AddSubject s)
    then have s: "subject_id_wf s" "s \<notin> F" "card F < 14" using fits by auto
    have "\<forall>i j t. i < length ?xs \<longrightarrow> j < length ?xs \<longrightarrow> ?xs ! i = Some t \<longrightarrow> ?xs ! j = Some t \<longrightarrow> i = j"
      using inj unfolding len .
    then have "None \<in> set ?xs" using free_slot [of ?xs] s(3) F len by (metis counts(4) less_irrefl)
    then obtain fr' k where fr': "fr_step (AddSubject s) fr = Some fr'" "fr_inv fr'" "fr_srv_filter fr' = fr_srv_filter fr"
      "k < 14" "?xs ! k = None" "flattened (fr_msg_filters fr') = ?xs[k := Some s]"
      using fr_add_subject_at [OF inv s(1)] by blast
    have new: "?xs[k := Some s] ! i = (if i = k then Some s else ?xs ! i)" if "i < 14" for i using that len by simp
    have out: "?xs ! i \<noteq> Some s" if "i < 14" for i using s(2) F len that by (metis mem_Collect_eq nth_mem)
    have "Some t \<in> set (?xs[k := Some s]) \<longleftrightarrow> t = s \<or> Some t \<in> set ?xs" for t
    proof -
      have "Some t \<in> set (?xs[k := Some s]) \<longleftrightarrow> (\<exists>i<14. ?xs[k := Some s] ! i = Some t)"
        using len by (auto simp: in_set_conv_nth)
      also have "\<dots> \<longleftrightarrow> (\<exists>i<14. (if i = k then Some s else ?xs ! i) = Some t)" by (simp only: new cong: conj_cong)
      also have "\<dots> \<longleftrightarrow> t = s \<or> (\<exists>i<14. ?xs ! i = Some t)"
      proof -
        have "i \<noteq> k" if "?xs ! i = Some t" for i using that fr'(5) by auto
        then show ?thesis using fr'(4) by (metis option.inject)
      qed
      finally show ?thesis using len by (auto simp: in_set_conv_nth)
    qed
    then have "{t. Some t \<in> set (?xs[k := Some s])} = insert s F" unfolding F by auto
    moreover have "\<forall>i j t. i < 14 \<longrightarrow> j < 14 \<longrightarrow> ?xs[k := Some s] ! i = Some t \<longrightarrow> ?xs[k := Some s] ! j = Some t \<longrightarrow> i = j"
      using inj out by (auto simp: new)
    ultimately have "fr_rep fr' (apply_filter u (F, D))" using AddSubject fr'(2,3,6) D by (simp add: fr_rep_def)
    then show ?thesis using AddSubject fr'(1) by blast
  next
    case (RemoveSubjectRange a b)
    obtain fr' where fr': "fr_step u fr = Some fr'" "fr_inv fr'" "fr_srv_filter fr' = fr_srv_filter fr"
      "flattened (fr_msg_filters fr') = map (\<lambda>x. if in_range a b x then None else x) ?xs"
      using fr_remove_range_at [OF inv, of a b] RemoveSubjectRange by blast
    have "{s. Some s \<in> set (flattened (fr_msg_filters fr'))} = F - {a..b}"
      unfolding fr'(4) F by (auto simp: in_range_def split: if_splits option.splits)
    moreover have "\<forall>i j s. i < 14 \<longrightarrow> j < 14 \<longrightarrow> flattened (fr_msg_filters fr') ! i = Some s \<longrightarrow>
        flattened (fr_msg_filters fr') ! j = Some s \<longrightarrow> i = j"
      unfolding fr'(4) using inj len by (auto split: if_splits)
    ultimately show ?thesis using fr'(1-3) D RemoveSubjectRange by (auto simp: fr_rep_def)
  next
    case (AddDestination n)
    then have "node_id_wf n" "fr_srv_filter fr = None" using fits D by (auto simp: set_empty_eq)
    then obtain fr' where "fr_step u fr = Some fr'" "fr_inv fr'" "fr_srv_filter fr' = Some n" "fr_msg_filters fr' = fr_msg_filters fr"
      using fr_destination_at(1) [OF inv, of n] AddDestination by blast
    then show ?thesis using rep AddDestination \<open>fr_srv_filter fr = None\<close> by (auto simp: fr_rep_def)
  next
    case (RemoveDestinationRange c d)
    then obtain fr' where "fr_step u fr = Some fr'" "fr_inv fr'" "fr_msg_filters fr' = fr_msg_filters fr"
      "fr_srv_filter fr' = (case fr_srv_filter fr of None \<Rightarrow> None | Some v \<Rightarrow> if c \<le> v \<and> v \<le> d then None else Some v)"
      using fr_destination_at(2) [OF inv, of c d] by blast
    then show ?thesis using rep RemoveDestinationRange by (auto simp: fr_rep_def split: option.splits if_splits)
  qed
qed

lemma fr_run_rep:
  "fr_rep fr x \<Longrightarrow> fits_filter SUBJECT_SLOT_COUNT us x \<Longrightarrow> \<exists>fr'. for_each fr_step us fr = Some fr' \<and> fr_rep fr' (fold apply_filter us x)"
proof (induction us arbitrary: fr x)
  case (Cons u us)
  obtain F D where x: "x = (F, D)" by (cases x)
  obtain fr1 where fr1: "fr_step u fr = Some fr1" "fr_rep fr1 (apply_filter u x)"
    using fr_step_rep Cons.prems x by blast
  have "fits_filter SUBJECT_SLOT_COUNT us (apply_filter u x)" using Cons.prems(2) x by simp
  from Cons.IH [OF fr1(2) this] show ?case using fr1(1) by simp
qed simp

text \<open>The elements after \<open>init_filters\<close>, whatever they held before, and what \<open>run\<close> reads from them.\<close>

lemma unused_patterns:
  "decode_msg_filter_pattern (make_msg_filter_pattern None) = None"
  "decode_srv_filter_pattern (make_srv_filter_pattern None) = None"
proof -
  have "bit (make_msg_filter_pattern None AND NOT MSG_FILTER_MASK) 0" "bit (make_srv_filter_pattern None AND NOT SRV_FILTER_MASK) 0"
    by (simp_all add: make_msg_filter_pattern_def make_srv_filter_pattern_def id_layout bit_and_iff bit_not_iff bit_mask_iff
        bit_filter_masks)
  then have "make_msg_filter_pattern None AND NOT MSG_FILTER_MASK \<noteq> 0" "make_srv_filter_pattern None AND NOT SRV_FILTER_MASK \<noteq> 0"
    by (metis bit_0_eq bot_apply bot_bool_def)+
  then show "decode_msg_filter_pattern (make_msg_filter_pattern None) = None"
    "decode_srv_filter_pattern (make_srv_filter_pattern None) = None"
    by (simp_all add: decode_msg_filter_pattern_def decode_srv_filter_pattern_def)
qed

lemma unused_elements:
  "n < 7 \<Longrightarrow> get_message_filter (replicate 7 (msg_element (None, None)) @ [srv_element None]) n = Some (None, None)"
  "get_service_filter (replicate 7 (msg_element (None, None)) @ [srv_element None]) = Some None"
proof -
  have ft: "to_filter_type (filter_type_u8 t) = Some t" for t by (cases t) (simp_all add: to_filter_type_def)
  show "get_message_filter (replicate 7 (msg_element (None, None)) @ [srv_element None]) n = Some (None, None)" if "n < 7"
    using that ft [of DualIdFilter]
    by (simp add: get_message_filter_def arr_get_def nth_append msg_element_fields unused_patterns del: filter_type_u8.simps)
  show "get_service_filter (replicate 7 (msg_element (None, None)) @ [srv_element None]) = Some None"
    using ft [of ClassicFilter]
    by (simp add: get_service_filter_def arr_get_def nth_append srv_element_fields unused_patterns del: filter_type_u8.simps)
qed

lemma init_filters_at:
  assumes "length elements = 8"
  shows "init_filters elements = Some (replicate 7 (msg_element (None, None)) @ [srv_element None])"
proof -
  have "[0..<7] = [0, 1, 2, 3, 4, 5, 6 :: nat]" by (simp add: upt_rec)
  moreover obtain a b c d e f g h where "elements = [a, b, c, d, e, f, g, h]"
    using assms by (auto simp: length_Suc_conv numeral_eq_Suc)
  ultimately show ?thesis
    by (simp add: init_filters_def set_message_filter_at set_service_filter_at numeral_eq_Suc)
qed

definition fr_start :: filter_runner where
  "fr_start = \<lparr> fr_elements = replicate 7 (msg_element (None, None)) @ [srv_element None],
     fr_msg_filters = replicate 7 (None, None), fr_srv_filter = None \<rparr>"

lemma fr_load_init: "fr_load (replicate 7 (msg_element (None, None)) @ [srv_element None]) = Some fr_start"
proof -
  have "[0..<7] = [0, 1, 2, 3, 4, 5, 6 :: nat]" by (simp add: upt_rec)
  then have "load_message_filters (replicate 7 (msg_element (None, None)) @ [srv_element None]) = Some (replicate 7 (None, None))"
    using unused_elements(1) by (simp add: load_message_filters_def arr_set_def) (simp add: numeral_eq_Suc)
  then show ?thesis by (simp add: fr_load_def load_service_filter_def unused_elements fr_start_def)
qed

lemma fr_start_rep: "fr_rep fr_start ({}, {})"
  by (auto simp: fr_rep_def fr_inv_def fr_start_def numeral_eq_Suc nth_Cons split: nat.splits)

section \<open>Exactness and overflow\<close>

definition message_stored :: "(u32 \<Rightarrow> ram_word \<Rightarrow> u32 \<Rightarrow> bool) \<Rightarrow> ram_word list \<Rightarrow> u32 \<Rightarrow> bool" where
  "message_stored accepts elements x \<longleftrightarrow> (\<exists>n<MESSAGE_FILTER_COUNT. accepts MSG_FILTER_MASK (elements ! (MESSAGE_FILTER_OFFSET + n)) x)"

definition service_stored :: "(u32 \<Rightarrow> ram_word \<Rightarrow> u32 \<Rightarrow> bool) \<Rightarrow> ram_word list \<Rightarrow> u32 \<Rightarrow> bool" where
  "service_stored accepts elements x \<longleftrightarrow> accepts MSG_FILTER_MASK (elements ! SERVICE_FILTER_OFFSET) x"

lemma message_stored_exact:
  assumes law: "filter_law accepts" and rep: "fr_rep fr (F, D)"
  shows "message_stored accepts (fr_elements fr) x \<longleftrightarrow>
    (case load_msg_frame_header x of None \<Rightarrow> False | Some h \<Rightarrow> \<exists>s\<in>F. h_data_spec h = Message s)"
proof -
  let ?fs = "fr_msg_filters fr"
  let ?hit = "\<lambda>s. case load_msg_frame_header x of None \<Rightarrow> False | Some h \<Rightarrow> h_data_spec h = Message s"
  have r: "length ?fs = 7" "fr_elements fr = map msg_element ?fs @ [srv_element (fr_srv_filter fr)]"
    "list_all (pred_option subject_id_wf) (flattened ?fs)" "F = {s. Some s \<in> set (flattened ?fs)}"
    using rep by (simp_all add: fr_rep_def fr_inv_def)
  have wf: "pred_option subject_id_wf a \<and> pred_option subject_id_wf b" if "(a, b) \<in> set ?fs" for a b
    using r(3) that by (auto simp: list_all_iff flattened_def)
  have pat: "x AND MSG_FILTER_MASK = make_msg_filter_pattern a \<longleftrightarrow> (\<exists>s. a = Some s \<and> ?hit s)" if "pred_option subject_id_wf a" for a
    using that message_pattern_accepts [of _ x] message_pattern_none by (cases a) simp_all
  have elem: "accepts MSG_FILTER_MASK (msg_element (a, b)) x \<longleftrightarrow> (\<exists>s. (a = Some s \<or> b = Some s) \<and> ?hit s)"
    if ab: "(a, b) \<in> set ?fs" for a b
  proof -
    note fields = msg_element_fields [OF conjunct1 [OF wf [OF ab]] conjunct2 [OF wf [OF ab]]]
    have "accepts MSG_FILTER_MASK (msg_element (a, b)) x \<longleftrightarrow>
        x AND MSG_FILTER_MASK = make_msg_filter_pattern a \<or> x AND MSG_FILTER_MASK = make_msg_filter_pattern b"
      using filter_lawD(1) [OF law fields(1)] by (simp only: fields)
    then show ?thesis using pat [OF conjunct1 [OF wf [OF ab]]] pat [OF conjunct2 [OF wf [OF ab]]] by blast
  qed
  have "message_stored accepts (fr_elements fr) x \<longleftrightarrow> (\<exists>n<7. accepts MSG_FILTER_MASK (msg_element (?fs ! n)) x)"
    using r(1) by (auto simp: message_stored_def r(2) nth_append)
  also have "\<dots> \<longleftrightarrow> (\<exists>f\<in>set ?fs. accepts MSG_FILTER_MASK (msg_element f) x)"
    using r(1) by (metis in_set_conv_nth)
  also have "\<dots> \<longleftrightarrow> (\<exists>f\<in>set ?fs. \<exists>s. (fst f = Some s \<or> snd f = Some s) \<and> ?hit s)"
    using elem by (intro bex_cong) (auto simp: split_paired_all)
  also have "\<dots> \<longleftrightarrow> (\<exists>s\<in>F. ?hit s)" by (force simp: r(4) flattened_def)
  finally show ?thesis by (auto split: option.splits)
qed

lemma service_stored_exact:
  assumes law: "filter_law accepts" and rep: "fr_rep fr (F, D)"
  shows "service_stored accepts (fr_elements fr) x \<and> load_srv_frame_header x \<noteq> None \<longleftrightarrow>
    (case load_srv_frame_header x of None \<Rightarrow> False | Some h \<Rightarrow> \<exists>d\<in>D. h_destination h = Some d)"
proof -
  let ?d = "fr_srv_filter fr"
  have r: "length (fr_msg_filters fr) = 7" "fr_elements fr = map msg_element (fr_msg_filters fr) @ [srv_element ?d]"
    "pred_option node_id_wf ?d" "D = set_option ?d"
    using rep by (simp_all add: fr_rep_def fr_inv_def)
  note fields = srv_element_fields [OF r(3)]
  have stored: "service_stored accepts (fr_elements fr) x \<longleftrightarrow>
      (x AND MSG_FILTER_MASK) AND SRV_FILTER_MASK = make_srv_filter_pattern ?d AND SRV_FILTER_MASK"
    using filter_lawD(2) [OF law fields(1), of MSG_FILTER_MASK x] fields(2,3) r(1) by (simp add: service_stored_def r(2) nth_append)
  show ?thesis
  proof (cases ?d)
    case None
    then show ?thesis using stored service_pattern_none [of x] r(4) by (auto split: option.splits)
  next
    case (Some d)
    then show ?thesis using stored service_pattern_accepts [of d x] r(3,4) by (auto split: option.splits)
  qed
qed

text \<open>
  C30: The filters of the native driver are exact. From elements with any contents the task of the
  filters runs every sequence of updates that fits its slots, as the node sends them, without a
  panic; and then, on a peripheral that filters as its manual says, a frame passes to the first FIFO
  exactly when it is a message of a subscribed subject, and a service frame passes to the second
  one exactly when it is for the address of the node.
\<close>

theorem native_filters_exact:
  assumes "filter_law accepts" "length elements = 8" "fits_filter SUBJECT_SLOT_COUNT us ({}, {})" "fold apply_filter us ({}, {}) = (F, D)"
  shows "\<exists>fr. fr_run elements us = Some fr \<and>
    (\<forall>x. message_stored accepts (fr_elements fr) x =
        (case load_msg_frame_header x of None \<Rightarrow> False | Some h \<Rightarrow> \<exists>s\<in>F. h_data_spec h = Message s)) \<and>
    (\<forall>x. (service_stored accepts (fr_elements fr) x \<and> load_srv_frame_header x \<noteq> None) =
        (case load_srv_frame_header x of None \<Rightarrow> False | Some h \<Rightarrow> \<exists>d\<in>D. h_destination h = Some d))"
proof -
  obtain fr where "for_each fr_step us fr_start = Some fr" "fr_rep fr (F, D)"
    using fr_run_rep [OF fr_start_rep assms(3)] assms(4) by auto
  then show ?thesis using message_stored_exact [OF assms(1)] service_stored_exact [OF assms(1)]
    by (auto simp: fr_run_def init_filters_at [OF assms(2)] fr_load_init)
qed

text \<open>A peripheral that filters so.\<close>

definition fdcan_accepts :: "u32 \<Rightarrow> ram_word \<Rightarrow> u32 \<Rightarrow> bool" where
  "fdcan_accepts xidam e x =
     (if ef_eft e = filter_type_u8 DualIdFilter then x AND xidam = ef_efid1 e \<or> x AND xidam = ef_efid2 e
      else if ef_eft e = filter_type_u8 ClassicFilter then (x AND xidam) AND ef_efid2 e = ef_efid1 e AND ef_efid2 e else False)"

lemma native_filters_exact_witness:
  "\<exists>fr. fr_run (replicate 8 (3, 5)) [AddDestination (NodeId 9), AddSubject (SubjectId 7), AddSubject (SubjectId 8),
      RemoveSubjectRange (SubjectId 5) (SubjectId 7)] = Some fr \<and>
    (\<forall>x. message_stored fdcan_accepts (fr_elements fr) x =
        (case load_msg_frame_header x of None \<Rightarrow> False | Some h \<Rightarrow> \<exists>s\<in>{SubjectId 8}. h_data_spec h = Message s)) \<and>
    (\<forall>x. (service_stored fdcan_accepts (fr_elements fr) x \<and> load_srv_frame_header x \<noteq> None) =
        (case load_srv_frame_header x of None \<Rightarrow> False | Some h \<Rightarrow> \<exists>d\<in>{NodeId 9}. h_destination h = Some d))"
proof (rule native_filters_exact)
  show "filter_law fdcan_accepts" by (simp add: filter_law_def fdcan_accepts_def)
  show "length (replicate 8 (3, 5)) = 8" by simp
  show "fits_filter SUBJECT_SLOT_COUNT [AddDestination (NodeId 9), AddSubject (SubjectId 7), AddSubject (SubjectId 8),
      RemoveSubjectRange (SubjectId 5) (SubjectId 7)] ({}, {})"
    by code_simp
  show "fold apply_filter [AddDestination (NodeId 9), AddSubject (SubjectId 7), AddSubject (SubjectId 8),
      RemoveSubjectRange (SubjectId 5) (SubjectId 7)] ({}, {}) = ({SubjectId 8}, {NodeId 9})"
    by code_simp
qed

text \<open>The registry of the subscribers together with the task: each update that is polled is applied.\<close>

definition driven_step :: "unit rg_op \<Rightarrow> unit regular_inner \<times> filter_runner \<Rightarrow> (unit regular_inner \<times> filter_runner) exec" where
  "driven_step op = (\<lambda>(st, fr). case op of
     RgPollFilter \<Rightarrow> do {
       (res, st) \<leftarrow> ri_hub_poll_pop_filter_update st;
       fr \<leftarrow> (case res of Ready (Inl u) \<Rightarrow> fr_step u fr | _ \<Rightarrow> ret fr);
       ret (st, fr)
     }
   | _ \<Rightarrow> do { (st, _) \<leftarrow> rg_step (\<lambda>b f m. ret b) op (st, {}); ret (st, fr) })"

definition driven_run :: "nat \<Rightarrow> unit rg_op list \<Rightarrow> (unit regular_inner \<times> filter_runner) exec" where
  "driven_run slots ops = do {
     fr \<leftarrow> fr_run (replicate 8 ram_reset_value) [];
     for_each driven_step ops (ri_new slots, fr)
   }"

definition overflow_ops :: "unit rg_op list" where
  "overflow_ops =
     concat (map (\<lambda>n. [RgRegister n (SubjectId (word_of_nat n)) (), RgPollFilter]) [101..<113]) @
     [RgRegister 1 (SubjectId 1) (), RgRegister 2 (SubjectId 2) (), RgRegister 3 (SubjectId 2) (),
      RgPollFilter, RgPollFilter, RgPollFilter, RgUnregister 1, RgUnregister 2, RgPollFilter,
      RgRegister 4 (SubjectId 4) (), RgRegister 5 (SubjectId 5) (), RgPollFilter]"

lemma overflow_registry:
  "map_option (\<lambda>_. ()) (for_each (rg_step (\<lambda>b f m. ret b)) (overflow_ops @ [RgPollFilter]) (ri_new SUBJECT_SLOT_COUNT, {})) = Some ()"
  by code_simp

lemma overflow_driven:
  "map_option (\<lambda>s. map_option (\<lambda>_. ()) (driven_step RgPollFilter s)) (driven_run SUBJECT_SLOT_COUNT overflow_ops) = Some None"
  by code_simp

text \<open>
  C31: The filter slots of the driver run out. A node with as many subject slots as the driver
  offers can reach more active subjects than there are slots, since its registry counts a slot
  twice; the registry itself goes on, but the task of the filters panics at the update for the last
  of them.
\<close>

theorem native_filter_overflow:
  "map_option (\<lambda>_. ()) (for_each (rg_step (\<lambda>b f m. ret b)) (overflow_ops @ [RgPollFilter]) (ri_new SUBJECT_SLOT_COUNT, {})) = Some () \<and>
   map_option (\<lambda>_. ()) (driven_run SUBJECT_SLOT_COUNT overflow_ops) = Some () \<and>
   driven_run SUBJECT_SLOT_COUNT (overflow_ops @ [RgPollFilter]) = None"
proof (intro conjI)
  obtain s where s: "driven_run SUBJECT_SLOT_COUNT overflow_ops = Some s" "driven_step RgPollFilter s = None"
    using overflow_driven by (cases "driven_run SUBJECT_SLOT_COUNT overflow_ops") auto
  then show "map_option (\<lambda>_. ()) (driven_run SUBJECT_SLOT_COUNT overflow_ops) = Some ()" by simp
  obtain fr where "fr_run (replicate 8 ram_reset_value) [] = Some fr" "for_each driven_step overflow_ops (ri_new SUBJECT_SLOT_COUNT, fr) = Some s"
    using s(1) by (auto simp: driven_run_def split: bind_splits)
  then show "driven_run SUBJECT_SLOT_COUNT (overflow_ops @ [RgPollFilter]) = None"
    using s(2) by (simp add: driven_run_def for_each_append)
qed (rule overflow_registry)

end
