(* ===== verification/Native_Utils.thy ===== *)
theory Native_Utils
  imports Native_Ram
begin

text \<open>
  The containers of the native driver, \<open>emcyphal-stm32-native/src/utils.rs\<close>: a map from
  priorities to frames, sets of transmit mailboxes as bit masks, and the pairing of mailboxes with
  the priorities of the frames in them.
\<close>

section \<open>Priority maps\<close>

definition NATIVE_LEVEL_COUNT :: nat where
  "NATIVE_LEVEL_COUNT = unat (priority_into_u8 priority_MAX) + 1"

record 'v native_map =
  nm_key_set :: priority_set
  nm_values :: "'v option list"

definition nm_new :: "'v native_map" where
  "nm_new = \<lparr> nm_key_set = ps_NONE, nm_values = replicate NATIVE_LEVEL_COUNT None \<rparr>"

definition nm_keys :: "'v native_map \<Rightarrow> priority_set" where
  "nm_keys m = nm_key_set m"

definition nm_insert :: "priority \<Rightarrow> 'v \<Rightarrow> 'v native_map \<Rightarrow> (('v + unit) \<times> 'v native_map) exec" where
  "nm_insert key value m = do {
     slot \<leftarrow> arr_get (nm_values m) (level key);
     values \<leftarrow> arr_set (nm_values m) (level key) (Some value);
     ret (case slot of None \<Rightarrow> Inr () | Some v \<Rightarrow> Inl v,
       \<lparr> nm_key_set = ps_insert (nm_key_set m) key, nm_values = values \<rparr>)
   }"

definition nm_remove :: "priority \<Rightarrow> 'v native_map \<Rightarrow> ('v option \<times> 'v native_map) exec" where
  "nm_remove key m = do {
     slot \<leftarrow> arr_get (nm_values m) (level key);
     values \<leftarrow> arr_set (nm_values m) (level key) None;
     ret (slot, \<lparr> nm_key_set = ps_remove (nm_key_set m) key, nm_values = values \<rparr>)
   }"

definition nm_index :: "'v native_map \<Rightarrow> priority \<Rightarrow> 'v exec" where
  "nm_index m p = do { slot \<leftarrow> arr_get (nm_values m) (level p); unwrap slot }"

text \<open>An assignment through \<open>index_mut\<close>.\<close>

definition nm_index_set :: "'v native_map \<Rightarrow> priority \<Rightarrow> 'v \<Rightarrow> 'v native_map exec" where
  "nm_index_set m p v = do {
     slot \<leftarrow> arr_get (nm_values m) (level p);
     _ \<leftarrow> unwrap slot;
     values \<leftarrow> arr_set (nm_values m) (level p) (Some v);
     ret (m\<lparr> nm_values := values \<rparr>)
   }"

section \<open>Mailboxes\<close>

definition TX_FIFO_MAX :: u8 where
  "TX_FIFO_MAX = 3"

datatype tx_mailbox_idx = TxMailboxIdx (mailbox_into_u8: u8)

definition mailbox_MAX_VALUE :: u8 where
  "mailbox_MAX_VALUE = TX_FIFO_MAX - 1"

definition mailbox_new :: "u8 \<Rightarrow> tx_mailbox_idx option" where
  "mailbox_new value = (if value \<le> mailbox_MAX_VALUE then Some (TxMailboxIdx value) else None)"

definition mailbox_into_usize :: "tx_mailbox_idx \<Rightarrow> nat" where
  "mailbox_into_usize idx = unat (mailbox_into_u8 idx)"

datatype tx_mailbox_set = TxMailboxSet (ms_into_bits: u8)

definition ms_MASK :: u8 where
  "ms_MASK = drop_bit (8 - unat (mailbox_MAX_VALUE + 1)) 0xFF"

definition ms_NONE :: tx_mailbox_set where
  "ms_NONE = TxMailboxSet 0"

definition ms_ALL :: tx_mailbox_set where
  "ms_ALL = TxMailboxSet ms_MASK"

definition ms_insert :: "tx_mailbox_set \<Rightarrow> tx_mailbox_idx \<Rightarrow> tx_mailbox_set" where
  "ms_insert s key = TxMailboxSet (ms_into_bits s OR push_bit (mailbox_into_usize key) 1)"

definition ms_remove :: "tx_mailbox_set \<Rightarrow> tx_mailbox_idx \<Rightarrow> tx_mailbox_set" where
  "ms_remove s key = TxMailboxSet (ms_into_bits s AND NOT (push_bit (mailbox_into_usize key) 1))"

definition ms_new_eq :: "tx_mailbox_idx \<Rightarrow> tx_mailbox_set" where
  "ms_new_eq key = ms_insert ms_NONE key"

definition ms_from_bits_truncating :: "u8 \<Rightarrow> tx_mailbox_set" where
  "ms_from_bits_truncating bits = TxMailboxSet (bits AND ms_MASK)"

definition ms_is_empty :: "tx_mailbox_set \<Rightarrow> bool" where
  "ms_is_empty s \<longleftrightarrow> ms_into_bits s = ms_into_bits ms_NONE"

definition ms_contains :: "tx_mailbox_set \<Rightarrow> tx_mailbox_idx \<Rightarrow> bool" where
  "ms_contains s key \<longleftrightarrow> drop_bit (mailbox_into_usize key) (ms_into_bits s) AND 0x1 \<noteq> 0"

definition ms_first :: "tx_mailbox_set \<Rightarrow> tx_mailbox_idx option" where
  "ms_first s = mailbox_new (of_nat (trailing_zeros (ms_into_bits s)))"

definition ms_not :: "tx_mailbox_set \<Rightarrow> tx_mailbox_set" where
  "ms_not s = ms_from_bits_truncating (NOT (ms_into_bits s))"

definition ms_and :: "tx_mailbox_set \<Rightarrow> tx_mailbox_set \<Rightarrow> tx_mailbox_set" where
  "ms_and s t = TxMailboxSet (ms_into_bits s AND ms_into_bits t)"

definition ms_or :: "tx_mailbox_set \<Rightarrow> tx_mailbox_set \<Rightarrow> tx_mailbox_set" where
  "ms_or s t = TxMailboxSet (ms_into_bits s OR ms_into_bits t)"

definition ms_iter_next :: "tx_mailbox_set \<Rightarrow> tx_mailbox_idx option \<times> tx_mailbox_set" where
  "ms_iter_next s = (case ms_first s of None \<Rightarrow> (None, s) | Some key \<Rightarrow> (Some key, ms_remove s key))"

lemma ms_contains_bit: "ms_contains s i \<longleftrightarrow> bit (ms_into_bits s) (mailbox_into_usize i)"
  by (simp add: ms_contains_def bit_iff_odd_drop_bit and_one_eq odd_iff_mod_2_eq_one)

text \<open>The valid mailboxes, and the sets without bits beyond them.\<close>

definition mailbox_wf :: "tx_mailbox_idx \<Rightarrow> bool" where
  "mailbox_wf i \<longleftrightarrow> mailbox_into_u8 i \<le> mailbox_MAX_VALUE"

definition ms_wf :: "tx_mailbox_set \<Rightarrow> bool" where
  "ms_wf s \<longleftrightarrow> (\<forall>i. ms_contains s i \<longrightarrow> mailbox_wf i)"

definition ms_members :: "tx_mailbox_set \<Rightarrow> tx_mailbox_idx set" where
  "ms_members s = {i. ms_contains s i}"

lemma mailbox_wf_less: "mailbox_wf i \<longleftrightarrow> mailbox_into_usize i < 3"
  by (auto simp: mailbox_wf_def mailbox_MAX_VALUE_def TX_FIFO_MAX_def mailbox_into_usize_def word_le_nat_alt)

lemma mailbox_eq_iff: "mailbox_into_usize i = mailbox_into_usize j \<longleftrightarrow> i = j"
  by (cases i; cases j) (simp add: mailbox_into_usize_def word_unat_eq_iff)

lemma mailbox_new_iff: "mailbox_new v = Some i \<longleftrightarrow> mailbox_wf i \<and> mailbox_into_u8 i = v"
  by (cases i) (auto simp: mailbox_new_def mailbox_wf_def)

lemma mailbox_wf_cases: "mailbox_wf i \<Longrightarrow> i \<in> {TxMailboxIdx 0, TxMailboxIdx 1, TxMailboxIdx 2}"
  by (cases i) (auto simp: mailbox_wf_less mailbox_into_usize_def word_unat_eq_iff)

lemma ms_MASK_7: "ms_MASK = mask 3"
  by (simp add: ms_MASK_def mailbox_MAX_VALUE_def TX_FIFO_MAX_def mask_eq_exp_minus_1)

lemma ms_contains_simps [simp]:
  "\<not> ms_contains ms_NONE i"
  "ms_contains ms_ALL i \<longleftrightarrow> mailbox_wf i"
  "ms_contains (ms_insert s j) i \<longleftrightarrow> ms_contains s i \<or> i = j \<and> mailbox_into_usize i < 8"
  "ms_contains (ms_remove s j) i \<longleftrightarrow> ms_contains s i \<and> i \<noteq> j"
  "ms_contains (ms_from_bits_truncating b) i \<longleftrightarrow> bit b (mailbox_into_usize i) \<and> mailbox_wf i"
  "ms_contains (ms_and s t) i \<longleftrightarrow> ms_contains s i \<and> ms_contains t i"
  "ms_contains (ms_or s t) i \<longleftrightarrow> ms_contains s i \<or> ms_contains t i"
  "ms_contains (ms_new_eq j) i \<longleftrightarrow> i = j \<and> mailbox_into_usize i < 8"
  "ms_contains (ms_not s) i \<longleftrightarrow> mailbox_wf i \<and> \<not> ms_contains s i"
proof -
  have flag: "bit (push_bit k 1 :: u8) n \<longleftrightarrow> n = k \<and> k < 8" for k n
    by (auto simp: bit_push_bit_iff bit_1_iff bit_exp_iff)
  show "ms_contains (ms_insert s j) i \<longleftrightarrow> ms_contains s i \<or> i = j \<and> mailbox_into_usize i < 8"
    unfolding ms_contains_bit ms_insert_def tx_mailbox_set.sel bit_or_iff flag by (auto simp: mailbox_eq_iff)
  show "ms_contains (ms_remove s j) i \<longleftrightarrow> ms_contains s i \<and> i \<noteq> j"
    unfolding ms_contains_bit ms_remove_def tx_mailbox_set.sel bit_and_iff bit_not_iff flag
    by (auto simp: mailbox_eq_iff dest: bit_imp_le_length)
  show "\<not> ms_contains ms_NONE i" by (simp add: ms_contains_bit ms_NONE_def)
  show "ms_contains ms_ALL i \<longleftrightarrow> mailbox_wf i"
    by (auto simp: ms_contains_bit ms_ALL_def ms_MASK_7 bit_mask_iff mailbox_wf_less)
  show "ms_contains (ms_from_bits_truncating b) i \<longleftrightarrow> bit b (mailbox_into_usize i) \<and> mailbox_wf i"
    by (auto simp: ms_contains_bit ms_from_bits_truncating_def ms_MASK_7 bit_and_iff bit_mask_iff mailbox_wf_less)
  show "ms_contains (ms_and s t) i \<longleftrightarrow> ms_contains s i \<and> ms_contains t i"
    "ms_contains (ms_or s t) i \<longleftrightarrow> ms_contains s i \<or> ms_contains t i"
    by (simp_all add: ms_contains_bit ms_and_def ms_or_def bit_and_iff bit_or_iff)
  show "ms_contains (ms_new_eq j) i \<longleftrightarrow> i = j \<and> mailbox_into_usize i < 8"
    unfolding ms_contains_bit ms_new_eq_def ms_insert_def tx_mailbox_set.sel bit_or_iff flag
    by (auto simp: mailbox_eq_iff ms_NONE_def)
  show "ms_contains (ms_not s) i \<longleftrightarrow> mailbox_wf i \<and> \<not> ms_contains s i"
    by (auto simp: ms_contains_bit ms_not_def ms_from_bits_truncating_def ms_MASK_7 bit_and_iff bit_not_iff bit_mask_iff
        mailbox_wf_less)
qed

lemma ms_first_spec:
  assumes "ms_wf s"
  shows "ms_first s = None \<longleftrightarrow> ms_members s = {}" "ms_first s = Some i \<Longrightarrow> ms_contains s i \<and> mailbox_wf i"
proof -
  let ?n = "trailing_zeros (ms_into_bits s)"
  have bits: "bit (ms_into_bits s) n \<longleftrightarrow> n < 3 \<and> ms_contains s (TxMailboxIdx (of_nat n))" if "n < 8" for n
  proof -
    have "mailbox_into_usize (TxMailboxIdx (of_nat n)) = n" using that by (simp add: mailbox_into_usize_def unat_of_nat)
    then show ?thesis using assms [unfolded ms_wf_def, rule_format, of "TxMailboxIdx (of_nat n)"]
      by (auto simp: ms_contains_bit mailbox_wf_less)
  qed
  have scan: "?n \<le> 8" "?n < 8 \<Longrightarrow> bit (ms_into_bits s) ?n" "k < ?n \<Longrightarrow> \<not> bit (ms_into_bits s) k" for k
  proof -
    let ?p = "\<lambda>i. \<not> bit (ms_into_bits s) i"
    have n: "?n = length (takeWhile ?p [0..<8])" by (simp add: trailing_zeros_def)
    show "?n \<le> 8" using length_takeWhile_le [of ?p "[0..<8]"] by (simp add: n)
    show "bit (ms_into_bits s) ?n" if "?n < 8"
      using nth_length_takeWhile [of ?p "[0..<8]"] that by (simp add: n)
    show "\<not> bit (ms_into_bits s) k" if "k < ?n"
      using takeWhile_nth [of k ?p "[0..<8]"] set_takeWhileD [OF nth_mem, of k ?p "[0..<8]"] that length_takeWhile_le [of ?p "[0..<8]"]
      by (simp add: n)
  qed
  have new: "mailbox_new (of_nat ?n) = (if ?n < 3 then Some (TxMailboxIdx (of_nat ?n)) else None)"
    using scan(1) by (auto simp: mailbox_new_def mailbox_MAX_VALUE_def TX_FIFO_MAX_def word_le_nat_alt unat_of_nat)
  show "ms_first s = Some i \<Longrightarrow> ms_contains s i \<and> mailbox_wf i"
    using scan bits [of ?n] assms by (auto simp: ms_first_def new ms_wf_def split: if_splits)
  show "ms_first s = None \<longleftrightarrow> ms_members s = {}"
  proof
    assume none: "ms_first s = None"
    show "ms_members s = {}"
    proof (rule ccontr)
      assume "ms_members s \<noteq> {}"
      then obtain j where j: "ms_contains s j" by (auto simp: ms_members_def)
      then have "mailbox_into_usize j < 3" "bit (ms_into_bits s) (mailbox_into_usize j)"
        using assms by (auto simp: ms_wf_def mailbox_wf_less ms_contains_bit)
      moreover have "\<not> ?n < 3" using none by (auto simp: ms_first_def new)
      ultimately show False using scan(3) [of "mailbox_into_usize j"] by simp
    qed
  next
    assume "ms_members s = {}"
    then show "ms_first s = None" using scan bits [of ?n] by (auto simp: ms_first_def new ms_members_def)
  qed
qed

lemma finite_ms_members: "finite (ms_members s)"
proof (rule finite_imageD)
  show "finite (mailbox_into_usize ` ms_members s)"
    by (rule finite_subset [of _ "{..<8}"]) (auto simp: ms_members_def ms_contains_bit dest: bit_imp_le_length)
  show "inj_on mailbox_into_usize (ms_members s)" by (simp add: inj_on_def mailbox_eq_iff)
qed

lemma ms_first_contains: "ms_first s = Some i \<Longrightarrow> ms_contains s i"
proof -
  let ?p = "\<lambda>i. \<not> bit (ms_into_bits s) i"
  let ?n = "length (takeWhile ?p [0..<8])"
  assume "ms_first s = Some i"
  then have "i = TxMailboxIdx (of_nat ?n)" "(of_nat ?n :: u8) \<le> 2" "?n \<le> 8"
    using length_takeWhile_le [of ?p "[0..<8]"]
    by (auto simp: ms_first_def mailbox_new_def mailbox_MAX_VALUE_def TX_FIFO_MAX_def trailing_zeros_def split: if_splits)
  then have "?n < 8" "mailbox_into_usize i = ?n"
    by (auto simp: mailbox_into_usize_def word_le_nat_alt unat_of_nat)
  then show ?thesis using nth_length_takeWhile [of ?p "[0..<8]"] by (simp add: ms_contains_bit)
qed

function ms_into_iter :: "tx_mailbox_set \<Rightarrow> tx_mailbox_idx list" where
  "ms_into_iter s = (case ms_iter_next s of
     (None, _) \<Rightarrow> []
   | (Some i, residual) \<Rightarrow> i # ms_into_iter residual)"
  by pat_completeness auto
termination
proof (relation "measure (\<lambda>s. card (ms_members s))")
  fix s i_opt residual i
  assume "(i_opt, residual) = ms_iter_next s" "i_opt = Some i"
  then have first: "ms_first s = Some i" and residual: "residual = ms_remove s i"
    by (cases "ms_first s"; simp add: ms_iter_next_def)+
  have "ms_members residual \<subset> ms_members s"
    using ms_first_contains [OF first] by (auto simp: residual ms_members_def)
  then show "(residual, s) \<in> measure (\<lambda>s. card (ms_members s))"
    by (simp add: psubset_card_mono finite_ms_members)
qed simp

declare ms_into_iter.simps [simp del]

lemma ms_into_iter_set: "ms_wf s \<Longrightarrow> set (ms_into_iter s) = ms_members s"
proof (induction "card (ms_members s)" arbitrary: s rule: less_induct)
  case less
  show ?case
  proof (cases "ms_first s")
    case None
    then show ?thesis using ms_first_spec(1) [OF less.prems]
      by (simp add: ms_into_iter.simps [of s] ms_iter_next_def)
  next
    case (Some i)
    have "ms_members (ms_remove s i) \<subset> ms_members s" "ms_wf (ms_remove s i)"
      using ms_first_contains [OF Some] less.prems by (auto simp: ms_members_def ms_wf_def)
    then have "set (ms_into_iter (ms_remove s i)) = ms_members (ms_remove s i)"
      using less.hyps by (simp add: psubset_card_mono finite_ms_members)
    then show ?thesis using ms_first_contains [OF Some] Some
      by (subst ms_into_iter.simps) (auto simp: ms_iter_next_def ms_members_def)
  qed
qed

section \<open>Pairs of mailboxes and priorities\<close>

record mailbox_priority_map =
  mm_forward :: "priority option list"
  mm_backward :: "tx_mailbox_idx option list"

definition mm_default :: mailbox_priority_map where
  "mm_default = \<lparr> mm_forward = replicate (unat (mailbox_MAX_VALUE + 1)) None,
     mm_backward = replicate (unat (priority_into_u8 priority_MAX + 1)) None \<rparr>"

definition mm_insert ::
  "mailbox_priority_map \<Rightarrow> tx_mailbox_idx \<Rightarrow> priority \<Rightarrow> ((unit + unit) \<times> mailbox_priority_map) exec" where
  "mm_insert m mailbox priority = do {
     f \<leftarrow> arr_get (mm_forward m) (mailbox_into_usize mailbox);
     b \<leftarrow> arr_get (mm_backward m) (level priority);
     if f \<noteq> None \<or> b \<noteq> None then ret (Inl (), m)
     else do {
       forward \<leftarrow> arr_set (mm_forward m) (mailbox_into_usize mailbox) (Some priority);
       backward \<leftarrow> arr_set (mm_backward m) (level priority) (Some mailbox);
       ret (Inr (), \<lparr> mm_forward = forward, mm_backward = backward \<rparr>)
     }
   }"

definition mm_remove_by_mailbox ::
  "mailbox_priority_map \<Rightarrow> tx_mailbox_idx \<Rightarrow> (priority option \<times> mailbox_priority_map) exec" where
  "mm_remove_by_mailbox m mailbox = do {
     slot \<leftarrow> arr_get (mm_forward m) (mailbox_into_usize mailbox);
     forward \<leftarrow> arr_set (mm_forward m) (mailbox_into_usize mailbox) None;
     (case slot of
        None \<Rightarrow> ret (None, m\<lparr> mm_forward := forward \<rparr>)
      | Some priority \<Rightarrow> do {
          backward \<leftarrow> arr_set (mm_backward m) (level priority) None;
          ret (Some priority, \<lparr> mm_forward = forward, mm_backward = backward \<rparr>)
        })
   }"

definition mm_remove_by_priority ::
  "mailbox_priority_map \<Rightarrow> priority \<Rightarrow> (tx_mailbox_idx option \<times> mailbox_priority_map) exec" where
  "mm_remove_by_priority m priority = do {
     slot \<leftarrow> arr_get (mm_backward m) (level priority);
     backward \<leftarrow> arr_set (mm_backward m) (level priority) None;
     (case slot of
        None \<Rightarrow> ret (None, m\<lparr> mm_backward := backward \<rparr>)
      | Some mailbox \<Rightarrow> do {
          forward \<leftarrow> arr_set (mm_forward m) (mailbox_into_usize mailbox) None;
          ret (Some mailbox, \<lparr> mm_forward = forward, mm_backward = backward \<rparr>)
        })
   }"

definition mm_get_by_mailbox :: "mailbox_priority_map \<Rightarrow> tx_mailbox_idx \<Rightarrow> priority option exec" where
  "mm_get_by_mailbox m mailbox = arr_get (mm_forward m) (mailbox_into_usize mailbox)"

definition mm_get_by_priority :: "mailbox_priority_map \<Rightarrow> priority \<Rightarrow> tx_mailbox_idx option exec" where
  "mm_get_by_priority m priority = arr_get (mm_backward m) (level priority)"

definition mm_contains_priority :: "mailbox_priority_map \<Rightarrow> priority \<Rightarrow> bool exec" where
  "mm_contains_priority m priority = do { i \<leftarrow> mm_get_by_priority m priority; ret (i \<noteq> None) }"

definition mm_contains_mailbox :: "mailbox_priority_map \<Rightarrow> tx_mailbox_idx \<Rightarrow> bool exec" where
  "mm_contains_mailbox m mailbox = do { p \<leftarrow> mm_get_by_mailbox m mailbox; ret (p \<noteq> None) }"

section \<open>The maps as maps\<close>

definition nm_rep :: "'v native_map \<Rightarrow> (priority \<rightharpoonup> 'v) \<Rightarrow> bool" where
  "nm_rep m g \<longleftrightarrow> length (nm_values m) = 8 \<and> (\<forall>p. nm_values m ! level p = g p) \<and>
     (\<forall>p. ps_contains (nm_key_set m) p \<longleftrightarrow> p \<in> dom g)"

lemma nm_new_rep: "nm_rep nm_new Map.empty"
  by (simp add: nm_rep_def nm_new_def NATIVE_LEVEL_COUNT_def priority_MAX_def)

lemma nm_rep_ops:
  assumes "nm_rep m g"
  shows "\<exists>m'. nm_insert p v m = Some (case g p of None \<Rightarrow> Inr () | Some w \<Rightarrow> Inl w, m') \<and> nm_rep m' (g(p \<mapsto> v))"
    "\<exists>m'. nm_remove p m = Some (g p, m') \<and> nm_rep m' (g(p := None))"
    "nm_index m p = g p"
    "g p \<noteq> None \<Longrightarrow> \<exists>m'. nm_index_set m p v = Some m' \<and> nm_rep m' (g(p \<mapsto> v))"
    "ps_contains (nm_keys m) p \<longleftrightarrow> p \<in> dom g"
  using assms
  by (auto simp: nm_rep_def nm_insert_def nm_remove_def nm_index_def nm_index_set_def nm_keys_def nth_list_update)

definition mm_rep :: "mailbox_priority_map \<Rightarrow> (tx_mailbox_idx \<rightharpoonup> priority) \<Rightarrow> bool" where
  "mm_rep m f \<longleftrightarrow> length (mm_forward m) = 3 \<and> length (mm_backward m) = 8 \<and>
     (\<forall>i. mailbox_wf i \<longrightarrow> mm_forward m ! mailbox_into_usize i = f i) \<and> (\<forall>i\<in>dom f. mailbox_wf i) \<and>
     (\<forall>p i. mm_backward m ! level p = Some i \<longleftrightarrow> f i = Some p)"

lemma mm_default_rep: "mm_rep mm_default Map.empty"
  by (simp add: mm_rep_def mm_default_def mailbox_MAX_VALUE_def TX_FIFO_MAX_def priority_MAX_def mailbox_wf_less)

lemma mm_rep_inj: "mm_rep m f \<Longrightarrow> f i = Some p \<Longrightarrow> f j = Some p \<Longrightarrow> i = j"
  unfolding mm_rep_def by (metis option.inject)

lemma mm_backward_rep: "mm_rep m f \<Longrightarrow> mm_backward m ! level p = None \<longleftrightarrow> p \<notin> ran f"
  by (cases "mm_backward m ! level p") (fastforce simp: mm_rep_def ran_def)+

lemma mm_get_rep:
  assumes "mm_rep m f"
  shows "f i = Some p \<Longrightarrow> mm_get_by_priority m p = Some (Some i)" "p \<notin> ran f \<Longrightarrow> mm_get_by_priority m p = Some None"
    "mm_contains_priority m p = Some (p \<in> ran f)"
proof -
  have len: "length (mm_backward m) = 8" using assms by (simp add: mm_rep_def)
  show "f i = Some p \<Longrightarrow> mm_get_by_priority m p = Some (Some i)"
    using assms len by (simp add: mm_rep_def mm_get_by_priority_def)
  show "p \<notin> ran f \<Longrightarrow> mm_get_by_priority m p = Some None"
    using mm_backward_rep [OF assms, of p] len by (simp add: mm_get_by_priority_def)
  show "mm_contains_priority m p = Some (p \<in> ran f)"
    using mm_backward_rep [OF assms, of p] len by (auto simp: mm_contains_priority_def mm_get_by_priority_def)
qed

lemma mm_insert_rep:
  assumes rep: "mm_rep m f" and new: "mailbox_wf i" "f i = None" "p \<notin> ran f"
  shows "\<exists>m'. mm_insert m i p = Some (Inr (), m') \<and> mm_rep m' (f(i \<mapsto> p))"
proof -
  have r: "length (mm_forward m) = 3" "length (mm_backward m) = 8" "mm_forward m ! mailbox_into_usize i = None"
    "mm_backward m ! level p = None"
    using rep new mm_backward_rep [OF rep] by (simp_all add: mm_rep_def)
  let ?m = "\<lparr> mm_forward = (mm_forward m)[mailbox_into_usize i := Some p], mm_backward = (mm_backward m)[level p := Some i] \<rparr>"
  have "mm_insert m i p = Some (Inr (), ?m)"
    using r new(1) by (simp add: mm_insert_def mailbox_wf_less)
  moreover have "mm_rep ?m (f(i \<mapsto> p))"
    using rep new r by (auto simp: mm_rep_def nth_list_update mailbox_eq_iff mailbox_wf_less ran_def)
  ultimately show ?thesis by blast
qed

lemma mm_rep_without:
  assumes rep: "mm_rep m f" and fi: "f i = Some p"
  shows "mm_rep \<lparr> mm_forward = (mm_forward m)[mailbox_into_usize i := None], mm_backward = (mm_backward m)[level p := None] \<rparr>
    (f(i := None))"
proof -
  have r: "length (mm_forward m) = 3" "length (mm_backward m) = 8" "\<forall>j. mailbox_wf j \<longrightarrow> mm_forward m ! mailbox_into_usize j = f j"
    "\<forall>j\<in>dom f. mailbox_wf j" and bwd: "\<And>q j. mm_backward m ! level q = Some j \<longleftrightarrow> f j = Some q"
    using rep by (simp_all add: mm_rep_def)
  have "(mm_forward m)[mailbox_into_usize i := None] ! mailbox_into_usize j = (f(i := None)) j" if "mailbox_wf j" for j
    using that r(1,3) by (cases "j = i") (simp_all add: mailbox_eq_iff mailbox_wf_less)
  moreover have "(mm_backward m)[level p := None] ! level q = Some j \<longleftrightarrow> (f(i := None)) j = Some q" for q j
  proof (cases "q = p")
    case True
    have "f j = Some p \<Longrightarrow> j = i" using mm_rep_inj [OF rep fi] by blast
    then show ?thesis using True r(2) by auto
  next
    case False
    then show ?thesis using r(2) bwd [of q j] fi by auto
  qed
  ultimately show ?thesis using r by (simp add: mm_rep_def)
qed

lemma mm_remove_mailbox_rep:
  assumes rep: "mm_rep m f" and i: "mailbox_wf i"
  shows "\<exists>m'. mm_remove_by_mailbox m i = Some (f i, m') \<and> mm_rep m' (f(i := None))"
proof -
  have r: "length (mm_forward m) = 3" "length (mm_backward m) = 8" "mm_forward m ! mailbox_into_usize i = f i"
    "mailbox_into_usize i < 3"
    using rep i by (simp_all add: mm_rep_def mailbox_wf_less)
  show ?thesis
  proof (cases "f i")
    case None
    then have "(mm_forward m)[mailbox_into_usize i := None] = mm_forward m" using r(3) by (metis list_update_id)
    moreover have "f(i := None) = f" using None by auto
    ultimately show ?thesis using rep r None by (simp add: mm_remove_by_mailbox_def)
  next
    case (Some p)
    then show ?thesis using mm_rep_without [OF rep Some] r by (simp add: mm_remove_by_mailbox_def)
  qed
qed

lemma mm_remove_priority_rep:
  assumes rep: "mm_rep m f"
  shows "f i = Some p \<Longrightarrow> \<exists>m'. mm_remove_by_priority m p = Some (Some i, m') \<and> mm_rep m' (f(i := None))"
    "p \<notin> ran f \<Longrightarrow> \<exists>m'. mm_remove_by_priority m p = Some (None, m') \<and> mm_rep m' f"
proof -
  have r: "length (mm_forward m) = 3" "length (mm_backward m) = 8" using rep by (simp_all add: mm_rep_def)
  show "\<exists>m'. mm_remove_by_priority m p = Some (Some i, m') \<and> mm_rep m' (f(i := None))" if fi: "f i = Some p"
  proof -
    have "mailbox_into_usize i < 3" "mm_backward m ! level p = Some i"
      using rep fi by (auto simp: mm_rep_def mailbox_wf_less)
    then show ?thesis using mm_rep_without [OF rep fi] r by (simp add: mm_remove_by_priority_def)
  qed
  show "\<exists>m'. mm_remove_by_priority m p = Some (None, m') \<and> mm_rep m' f" if "p \<notin> ran f"
  proof -
    have none: "mm_backward m ! level p = None" using that mm_backward_rep [OF rep] by simp
    then have "(mm_backward m)[level p := None] = mm_backward m" by (metis list_update_id)
    then show ?thesis using rep r none by (simp add: mm_remove_by_priority_def)
  qed
qed

end
