(* ===== verification/Native_Driver.thy ===== *)
theory Native_Driver
  imports Native_Utils
begin

text \<open>
  The transmit and receive tasks of the native driver, \<open>emcyphal-stm32-native/src/driver.rs\<close>.
  The registers of the peripheral are the environment: what a task reads from them in one round of
  its loop is an argument of the round, what it writes to them is a list of commands.
\<close>

section \<open>Timestamps\<close>

definition instant_saturating_sub :: "instant \<Rightarrow> u64 \<Rightarrow> instant" where
  "instant_saturating_sub a b = (if b \<le> a then a - b else 0)"

definition make_timestamp :: "instant \<Rightarrow> u16 \<Rightarrow> instant" where
  "make_timestamp epoch counter = (let offset = ucast epoch - counter in instant_saturating_sub epoch (ucast (offset :: u16)))"

text \<open>The timestamp of a register whose counter was \<open>timestamp\<close>, as both tasks compute it.\<close>

definition register_time :: "u16 option \<Rightarrow> instant \<Rightarrow> u16 \<Rightarrow> instant" where
  "register_time timestamp_offset now timestamp = (case timestamp_offset of
     Some offset \<Rightarrow> make_timestamp now (timestamp - offset)
   | None \<Rightarrow> now)"

section \<open>The receive task\<close>

text \<open>
  A receive FIFO is the list of its filled elements: \<open>get_index\<close> gives the first one and
  \<open>acknowledge\<close> removes it. \<open>RxFifo::pop\<close> skips the elements that hold no frame of the stack.
\<close>

fun rx_fifo_pop :: "ram_element list \<Rightarrow> (raw_frame option \<times> ram_element list) exec" where
  "rx_fifo_pop [] = ret (None, [])"
| "rx_fifo_pop (elem # elements) = do {
     frame \<leftarrow> load_frame elem;
     if frame \<noteq> None then ret (frame, elements) else rx_fifo_pop elements
   }"

definition RX_FIFOS_MAX :: nat where
  "RX_FIFOS_MAX = 2"

text \<open>\<open>pop_rx\<close> asks the FIFOs in order; a call that finds none registers its waker.\<close>

fun rr_pop_rx_from :: "nat list \<Rightarrow> ram_element list list \<Rightarrow> (raw_frame option \<times> ram_element list list) exec" where
  "rr_pop_rx_from [] fifos = ret (None, fifos)"
| "rr_pop_rx_from (i # is) fifos = do {
     fifo \<leftarrow> arr_get fifos i;
     (frame, fifo) \<leftarrow> rx_fifo_pop fifo;
     fifos \<leftarrow> arr_set fifos i fifo;
     if frame \<noteq> None then ret (frame, fifos) else rr_pop_rx_from is fifos
   }"

definition rr_pop_rx :: "ram_element list list \<Rightarrow> (raw_frame option \<times> ram_element list list) exec" where
  "rr_pop_rx fifos = rr_pop_rx_from [0..<RX_FIFOS_MAX] fifos"

text \<open>One round of \<open>RxRunner::run\<close> with a frame in the channel of looped back frames or without.\<close>

definition rr_round ::
  "u16 option \<Rightarrow> frame option \<Rightarrow> instant \<Rightarrow> ram_element list list \<Rightarrow> (frame option \<times> ram_element list list) exec" where
  "rr_round timestamp_offset loop_back now fifos = (case loop_back of
     Some frame \<Rightarrow> ret (Some frame, fifos)
   | None \<Rightarrow> do {
       (raw, fifos) \<leftarrow> rr_pop_rx fifos;
       ret (map_option (\<lambda>raw_frame. \<lparr> f_header = rw_header raw_frame, f_data = rw_data raw_frame,
         f_timestamp = register_time timestamp_offset now (rw_timestamp raw_frame), f_loop_back = False \<rparr>) raw, fifos)
     })"

section \<open>The transmit task\<close>

text \<open>The queue of the peripheral, with what is read of its register TXBRP: \<open>add\<close> refuses a mailbox that is still pending.\<close>

definition txq_pending :: "u32 \<Rightarrow> tx_mailbox_set" where
  "txq_pending txbrp = ms_from_bits_truncating (ucast txbrp)"

definition txq_add ::
  "tx_mailbox_set \<Rightarrow> ram_element list \<Rightarrow> tx_mailbox_idx \<Rightarrow> frame \<Rightarrow> frame_format \<Rightarrow> u8 \<Rightarrow>
    ((unit + unit) \<times> ram_element list) exec" where
  "txq_add pending elements mailbox_idx frame format marker =
     (if ms_contains pending mailbox_idx then ret (Inl (), elements)
      else do {
        elem \<leftarrow> arr_get elements (mailbox_into_usize mailbox_idx);
        elem \<leftarrow> store_tx_buffer elem frame format marker;
        elements \<leftarrow> arr_set elements (mailbox_into_usize mailbox_idx) elem;
        ret (Inr (), elements)
      })"

text \<open>What the task writes: the registers TXBAR, TXBCR and TXBTIE, and the loop-back channel.\<close>

datatype tx_command = TxAdd tx_mailbox_idx | TxCancel tx_mailbox_set | TxInterrupt tx_mailbox_set | TxLoopBack frame

record tx_runner =
  tr_elements :: "ram_element list"
  tr_frames :: "frame native_map"
  tr_pending :: mailbox_priority_map
  tr_loop_back :: priority_set

definition tr_new :: "ram_element list \<Rightarrow> tx_runner" where
  "tr_new elements = \<lparr> tr_elements = elements, tr_frames = nm_new, tr_pending = mm_default, tr_loop_back = ps_NONE \<rparr>"

text \<open>The loop over the transmit events, with the instant each of them is read at.\<close>

definition tr_event ::
  "u16 option \<Rightarrow> tx_event \<times> instant \<Rightarrow> tx_runner \<times> tx_mailbox_set \<Rightarrow> (tx_runner \<times> tx_mailbox_set) exec" where
  "tr_event timestamp_offset = (\<lambda>(event, now) (tr, completed_mailboxes). do {
     idx \<leftarrow> unwrap (mailbox_new (ev_marker event));
     let completed_mailboxes = ms_insert completed_mailboxes idx;
     (removed, pending_frames) \<leftarrow> mm_remove_by_mailbox (tr_pending tr) idx;
     priority \<leftarrow> unwrap removed;
     let tr = tr\<lparr> tr_pending := pending_frames \<rparr>;
     frame \<leftarrow> nm_index (tr_frames tr) priority;
     if f_loop_back frame then do {
       frames \<leftarrow> nm_index_set (tr_frames tr) priority
         (frame\<lparr> f_timestamp := register_time timestamp_offset now (ev_timestamp event) \<rparr>);
       ret (tr\<lparr> tr_frames := frames, tr_loop_back := ps_insert (tr_loop_back tr) priority \<rparr>, completed_mailboxes)
     } else do {
       (_, frames) \<leftarrow> nm_remove priority (tr_frames tr);
       ret (tr\<lparr> tr_frames := frames \<rparr>, completed_mailboxes)
     }
   })"

definition tr_forget :: "tx_mailbox_idx \<Rightarrow> tx_runner \<Rightarrow> tx_runner exec" where
  "tr_forget idx tr = do {
     (_, pending_frames) \<leftarrow> mm_remove_by_mailbox (tr_pending tr) idx;
     ret (tr\<lparr> tr_pending := pending_frames \<rparr>)
   }"

definition tr_collect ::
  "u16 option \<Rightarrow> tx_mailbox_set \<Rightarrow> (tx_event \<times> instant) list \<Rightarrow> tx_runner \<Rightarrow> (tx_mailbox_set \<times> tx_runner) exec" where
  "tr_collect timestamp_offset pending_mailboxes events tr = do {
     (tr, completed_mailboxes) \<leftarrow> for_each (tr_event timestamp_offset) events (tr, ms_NONE);
     let free_mailboxes = ms_or (ms_not pending_mailboxes) completed_mailboxes;
     tr \<leftarrow> for_each tr_forget (ms_into_iter (ms_and free_mailboxes (ms_not completed_mailboxes))) tr;
     ret (free_mailboxes, tr)
   }"

definition tr_queued :: "tx_runner \<Rightarrow> priority_set" where
  "tr_queued tr = ps_and (nm_keys (tr_frames tr)) (ps_not (tr_loop_back tr))"

text \<open>The deadline of the timer: the least timestamp of the queued frames.\<close>

definition tr_deadline :: "tx_runner \<Rightarrow> instant option exec" where
  "tr_deadline tr = for_each (\<lambda>p least. do {
     frame \<leftarrow> nm_index (tr_frames tr) p;
     ret (Some (case least of None \<Rightarrow> f_timestamp frame | Some t \<Rightarrow> min t (f_timestamp frame)))
   }) (ps_into_iter (tr_queued tr)) None"

text \<open>The first poll of the future that transmits; the set TXBRP is read before and after.\<close>

definition tr_enqueue ::
  "frame_format \<Rightarrow> tx_mailbox_set \<Rightarrow> tx_mailbox_set \<Rightarrow> tx_mailbox_set \<Rightarrow> tx_runner \<Rightarrow> (tx_command list \<times> tx_runner) exec" where
  "tr_enqueue format free_mailboxes pending_add pending_cancel tr = (case ps_first (tr_queued tr) of
     None \<Rightarrow> ret ([], tr)
   | Some priority \<Rightarrow> do {
       known \<leftarrow> mm_contains_priority (tr_pending tr) priority;
       (commands, tr) \<leftarrow> (if \<not> known then do {
           idx \<leftarrow> unwrap (ms_first free_mailboxes);
           frame \<leftarrow> nm_index (tr_frames tr) priority;
           (res, elements) \<leftarrow> txq_add pending_add (tr_elements tr) idx frame format (mailbox_into_u8 idx);
           assert_that (res = Inr ());
           assert_that (pending_cancel \<noteq> ms_ALL);
           (res, pending_frames) \<leftarrow> mm_insert (tr_pending tr) idx priority;
           assert_that (res = Inr ());
           ret ([TxAdd idx, TxCancel (ms_not (ms_new_eq idx))],
             tr\<lparr> tr_elements := elements, tr_pending := pending_frames \<rparr>)
         } else ret ([], tr));
       found \<leftarrow> mm_get_by_priority (tr_pending tr) priority;
       idx \<leftarrow> unwrap found;
       ret (commands @ [TxInterrupt (ms_new_eq idx)], tr)
     })"

text \<open>How the four futures can end; a future that never becomes ready ends nothing.\<close>

datatype tx_outcome = TimerExpired instant | LoopedBack | LinkFrame frame | Unpended

definition tr_expire :: "instant \<Rightarrow> priority \<Rightarrow> tx_command list \<times> tx_runner \<Rightarrow> (tx_command list \<times> tx_runner) exec" where
  "tr_expire now priority = (\<lambda>(commands, tr). do {
     frame \<leftarrow> nm_index (tr_frames tr) priority;
     if f_timestamp frame \<le> now then do {
       (removed, frames) \<leftarrow> nm_remove priority (tr_frames tr);
       _ \<leftarrow> unwrap removed;
       (mailbox, pending_frames) \<leftarrow> mm_remove_by_priority (tr_pending tr) priority;
       let tr = tr\<lparr> tr_frames := frames, tr_pending := pending_frames \<rparr>;
       ret (case mailbox of Some idx \<Rightarrow> commands @ [TxCancel (ms_new_eq idx)] | None \<Rightarrow> commands, tr)
     } else ret (commands, tr)
   })"

definition tr_finish :: "tx_outcome \<Rightarrow> tx_runner \<Rightarrow> (tx_command list \<times> tx_runner) exec" where
  "tr_finish outcome tr = (case outcome of
     TimerExpired now \<Rightarrow> for_each (tr_expire now) (ps_into_iter (tr_queued tr)) ([], tr)
   | LoopedBack \<Rightarrow> (case ps_first (tr_loop_back tr) of
       None \<Rightarrow> ret ([], tr)
     | Some priority \<Rightarrow> do {
         frame \<leftarrow> nm_index (tr_frames tr) priority;
         (removed, frames) \<leftarrow> nm_remove priority (tr_frames tr);
         _ \<leftarrow> unwrap removed;
         ret ([TxLoopBack frame], tr\<lparr> tr_loop_back := ps_remove (tr_loop_back tr) priority, tr_frames := frames \<rparr>)
       })
   | LinkFrame frame \<Rightarrow>
       if h_source (f_header frame) \<noteq> None then do {
         (res, frames) \<leftarrow> nm_insert (h_priority (f_header frame)) frame (tr_frames tr);
         assert_that (res = Inr ());
         ret ([], tr\<lparr> tr_frames := frames \<rparr>)
       } else ret ([], tr)
   | Unpended \<Rightarrow> ret ([], tr))"

text \<open>
  One round of \<open>TxRunner::run\<close>: what it reads, whether the first three futures were pending when
  they were polled first, so that the fourth one was polled too, and how it ended.
\<close>

record tx_round =
  rd_txbrp :: u32
  rd_events :: "(tx_event \<times> instant) list"
  rd_polled :: bool
  rd_txbrp_add :: u32
  rd_txbrp_cancel :: u32
  rd_outcome :: tx_outcome

definition tr_round ::
  "frame_format \<Rightarrow> u16 option \<Rightarrow> tx_round \<Rightarrow> tx_runner \<Rightarrow> ((tx_command list \<times> tx_command list) \<times> tx_runner) exec" where
  "tr_round format timestamp_offset rd tr = do {
     (free_mailboxes, tr) \<leftarrow> tr_collect timestamp_offset (txq_pending (rd_txbrp rd)) (rd_events rd) tr;
     (enqueued, tr) \<leftarrow> (if rd_polled rd
       then tr_enqueue format free_mailboxes (txq_pending (rd_txbrp_add rd)) (txq_pending (rd_txbrp_cancel rd)) tr else ret ([], tr));
     (finished, tr) \<leftarrow> tr_finish (rd_outcome rd) tr;
     ret ((enqueued, finished), tr)
   }"

fun tr_run :: "frame_format \<Rightarrow> u16 option \<Rightarrow> tx_round list \<Rightarrow> tx_runner \<Rightarrow> tx_runner exec" where
  "tr_run format timestamp_offset [] tr = ret tr"
| "tr_run format timestamp_offset (rd # rds) tr = do {
     (_, tr) \<leftarrow> tr_round format timestamp_offset rd tr;
     tr_run format timestamp_offset rds tr
   }"

end
