(* ===== verification/Native_Tx_Specs.thy ===== *)
theory Native_Tx_Specs
  imports Native_Driver
begin

text \<open>
  The transmit task of the native driver does not panic as long as no frame that was given up at
  its deadline is reported as sent; a late report of that kind makes it panic. And the timestamps of
  both tasks are exact within the range of the counter.
\<close>

section \<open>Timestamps\<close>

lemma make_timestamp_exact:
  assumes "t \<le> now" "now - t < 2 ^ 16"
  shows "make_timestamp now (ucast t) = t"
proof -
  let ?d = "unat now - unat t"
  have le: "unat t \<le> unat now" using assms(1) by (simp add: word_le_nat_alt)
  have d: "?d < 65536" using assms(2) unat_sub [OF assms(1)] by (simp add: word_less_nat_alt)
  have "(ucast now :: u16) = of_nat (unat now)" "(ucast t :: u16) = of_nat (unat t)" by simp_all
  then have "ucast now - (ucast t :: u16) = of_nat ?d" using le by simp
  moreover have "(ucast (of_nat ?d :: u16) :: u64) = now - t"
    using d by (simp add: word_unat_eq_iff unat_sub [OF assms(1)] unat_of_nat unsigned_ucast_eq take_bit_nat_eq_self)
  moreover have "now - t \<le> now" using assms(1) by (simp add: word_le_nat_alt unat_sub)
  ultimately show ?thesis by (simp add: make_timestamp_def Let_def instant_saturating_sub_def)
qed

lemma make_timestamp_le: "make_timestamp now counter \<le> now"
  by (auto simp: make_timestamp_def Let_def instant_saturating_sub_def word_le_nat_alt unat_sub)

text \<open>
  C36: Timestamps are reconstructed exactly. A counter that runs with the clock, at any offset, and
  was sampled less than 65536 ticks ago gives the instant of the sample; whatever the counter, the
  result is never in the future.
\<close>

theorem native_timestamp_exact:
  assumes "t \<le> now" "now - t < 2 ^ 16"
  shows "register_time (Some offset) now (ucast t + offset) = t \<and> (\<forall>c. register_time (Some offset) now c \<le> now)"
  using make_timestamp_exact [OF assms] by (simp add: register_time_def make_timestamp_le)

lemma native_timestamp_exact_witness:
  "register_time (Some 9) 70000 (ucast (65000 :: instant) + 9) = 65000 \<and> (\<forall>c. register_time (Some 9) 70000 c \<le> 70000)"
  by (rule native_timestamp_exact) simp_all

section \<open>What the task keeps\<close>

text \<open>The frames the link may hand out: those that the frame format can carry.\<close>

definition link_frame :: "frame_format \<Rightarrow> frame \<Rightarrow> bool" where
  "link_frame format f \<longleftrightarrow> header_wf (f_header f) \<and> sendable (f_header f) \<and> data_wf (f_data f) \<and>
     (ff_fd format \<or> dl_as_usize (d_length (f_data f)) \<le> 8)"

text \<open>
  The task holds the frames \<open>frames\<close>, one of each priority at most; \<open>f\<close> says which of them are in
  a mailbox. A frame that waits to be looped back is in none.
\<close>

definition tr_rep ::
  "frame_format \<Rightarrow> tx_runner \<Rightarrow> (priority \<rightharpoonup> frame) \<Rightarrow> (tx_mailbox_idx \<rightharpoonup> priority) \<Rightarrow> bool" where
  "tr_rep format tr frames f \<longleftrightarrow> nm_rep (tr_frames tr) frames \<and> mm_rep (tr_pending tr) f \<and> ran f \<subseteq> dom frames \<and>
     (\<forall>p. ps_contains (tr_loop_back tr) p \<longrightarrow> p \<in> dom frames \<and> p \<notin> ran f) \<and>
     (\<forall>p fr. frames p = Some fr \<longrightarrow> link_frame format fr) \<and>
     length (tr_elements tr) = 3 \<and> (\<forall>e\<in>set (tr_elements tr). length (el_data e) = 16)"

lemma tr_repD:
  assumes "tr_rep format tr frames f"
  shows "nm_rep (tr_frames tr) frames" "mm_rep (tr_pending tr) f" "ran f \<subseteq> dom frames"
    "ps_contains (tr_loop_back tr) p \<Longrightarrow> p \<in> dom frames \<and> p \<notin> ran f" "frames p = Some fr \<Longrightarrow> link_frame format fr"
    "length (tr_elements tr) = 3" "e \<in> set (tr_elements tr) \<Longrightarrow> length (el_data e) = 16"
  using assms unfolding tr_rep_def by blast+

lemma tr_queued_iff:
  "tr_rep format tr frames f \<Longrightarrow> ps_contains (tr_queued tr) p \<longleftrightarrow> p \<in> dom frames \<and> \<not> ps_contains (tr_loop_back tr) p"
  using nm_rep_ops(5) [OF tr_repD(1)] by (simp add: tr_queued_def)

lemma ran_without:
  assumes "mm_rep m f" "f i = Some p"
  shows "ran (f(i := None)) = ran f - {p}"
proof -
  have only: "f j = Some p \<Longrightarrow> j = i" for j by (rule mm_rep_inj [OF assms(1) _ assms(2)])
  show ?thesis
  proof (rule set_eqI)
    fix q
    have "q \<in> ran (f(i := None)) \<longleftrightarrow> (\<exists>j. j \<noteq> i \<and> f j = Some q)" by (auto simp: ran_def)
    also have "\<dots> \<longleftrightarrow> (\<exists>j. f j = Some q) \<and> q \<noteq> p"
    proof (cases "q = p")
      case False
      then have "f j = Some q \<Longrightarrow> j \<noteq> i" for j using assms(2) by auto
      then show ?thesis using False by blast
    qed (use only in blast)
    also have "\<dots> \<longleftrightarrow> q \<in> ran f - {p}" by (simp add: ran_def)
    finally show "q \<in> ran (f(i := None)) \<longleftrightarrow> q \<in> ran f - {p}" .
  qed
qed

lemma tr_new_rep: "length elements = 3 \<Longrightarrow> \<forall>e\<in>set elements. length (el_data e) = 16 \<Longrightarrow> tr_rep format (tr_new elements) Map.empty Map.empty"
  by (simp add: tr_rep_def tr_new_def nm_new_rep mm_default_rep)

section \<open>Collecting the events\<close>

lemma tr_event_rep:
  assumes rep: "tr_rep format tr frames f" and i: "f i = Some p" "ev_marker ev = mailbox_into_u8 i"
  shows "\<exists>tr' frames'. tr_event offset (ev, now) (tr, c) = Some (tr', ms_insert c i) \<and> tr_rep format tr' frames' (f(i := None)) \<and>
    (\<forall>q. q \<noteq> p \<longrightarrow> frames' q = frames q)"
proof -
  have wf: "mailbox_wf i" using tr_repD(2) [OF rep] i(1) by (auto simp: mm_rep_def)
  then have idx: "mailbox_new (ev_marker ev) = Some i" by (simp add: i(2) mailbox_new_iff)
  obtain m' where m': "mm_remove_by_mailbox (tr_pending tr) i = Some (Some p, m')" "mm_rep m' (f(i := None))"
    using mm_remove_mailbox_rep [OF tr_repD(2) [OF rep] wf] i(1) by auto
  have p: "p \<in> ran f" using i(1) by (simp add: ranI)
  then obtain fr where fr: "frames p = Some fr" using tr_repD(3) [OF rep] by auto
  have ran: "ran (f(i := None)) = ran f - {p}" by (rule ran_without [OF tr_repD(2) [OF rep] i(1)])
  have index: "nm_index (tr_frames tr) p = Some fr" using nm_rep_ops(3) [OF tr_repD(1) [OF rep]] fr by simp
  have lb: "\<not> ps_contains (tr_loop_back tr) p" using tr_repD(4) [OF rep] p by blast
  show ?thesis
  proof (cases "f_loop_back fr")
    case True
    let ?fr = "fr\<lparr> f_timestamp := register_time offset now (ev_timestamp ev) \<rparr>"
    obtain g where g: "nm_index_set (tr_frames tr) p ?fr = Some g" "nm_rep g (frames(p \<mapsto> ?fr))"
      using nm_rep_ops(4) [OF tr_repD(1) [OF rep]] fr by (metis option.distinct(1))
    let ?tr = "tr\<lparr> tr_pending := m', tr_frames := g, tr_loop_back := ps_insert (tr_loop_back tr) p \<rparr>"
    have "tr_event offset (ev, now) (tr, c) = Some (?tr, ms_insert c i)"
      using idx m'(1) index True g(1) by (simp add: tr_event_def Let_def)
    moreover have "link_frame format ?fr" using tr_repD(5) [OF rep fr] by (simp add: link_frame_def)
    then have "tr_rep format ?tr (frames(p \<mapsto> ?fr)) (f(i := None))"
      using rep m'(2) g(2) by (auto simp: tr_rep_def ran)
    moreover have "\<forall>q. q \<noteq> p \<longrightarrow> (frames(p \<mapsto> ?fr)) q = frames q" by simp
    ultimately show ?thesis by blast
  next
    case False
    obtain g where g: "nm_remove p (tr_frames tr) = Some (Some fr, g)" "nm_rep g (frames(p := None))"
      using nm_rep_ops(2) [OF tr_repD(1) [OF rep], of p] fr by auto
    let ?tr = "tr\<lparr> tr_pending := m', tr_frames := g \<rparr>"
    have "tr_event offset (ev, now) (tr, c) = Some (?tr, ms_insert c i)"
      using idx m'(1) index False g(1) by (simp add: tr_event_def Let_def)
    moreover have "tr_rep format ?tr (frames(p := None)) (f(i := None))"
      using rep m'(2) g(2) lb by (auto simp: tr_rep_def ran)
    moreover have "\<forall>q. q \<noteq> p \<longrightarrow> (frames(p := None)) q = frames q" by simp
    ultimately show ?thesis by blast
  qed
qed

text \<open>The mailboxes that a list of events reports.\<close>

definition reported :: "(tx_event \<times> instant) list \<Rightarrow> tx_mailbox_idx set" where
  "reported events = (\<lambda>(e, _). TxMailboxIdx (ev_marker e)) ` set events"

lemma tr_events_rep:
  assumes "tr_rep format tr frames f" "distinct (map (ev_marker \<circ> fst) events)" "reported events \<subseteq> dom f"
  shows "\<exists>tr' frames' c'. for_each (tr_event offset) events (tr, c) = Some (tr', c') \<and>
    tr_rep format tr' frames' (f |` (- reported events)) \<and> ms_members c' = ms_members c \<union> reported events \<and>
    (\<forall>i q. i \<notin> reported events \<longrightarrow> f i = Some q \<longrightarrow> frames' q = frames q)"
  using assms
proof (induction events arbitrary: tr frames f c)
  case Nil
  then show ?case by (auto simp: reported_def)
next
  case (Cons x events)
  obtain ev now where x: "x = (ev, now)" by (cases x)
  let ?i = "TxMailboxIdx (ev_marker ev)"
  have rest: "reported (x # events) = insert ?i (reported events)" by (simp add: reported_def x)
  obtain p where p: "f ?i = Some p" using Cons.prems(3) rest by auto
  obtain tr1 frames1 where one: "tr_event offset (ev, now) (tr, c) = Some (tr1, ms_insert c ?i)"
    "tr_rep format tr1 frames1 (f(?i := None))" "\<forall>q. q \<noteq> p \<longrightarrow> frames1 q = frames q"
    using tr_event_rep [OF Cons.prems(1) p, of ev offset now c] by auto
  have new: "?i \<notin> reported events" using Cons.prems(2) by (force simp: reported_def x)
  have "reported events \<subseteq> dom (f(?i := None))" using Cons.prems(3) new rest by auto
  note step = Cons.IH [OF one(2) _ this, of "ms_insert c ?i"]
  have "distinct (map (ev_marker \<circ> fst) events)" using Cons.prems(2) by (simp add: comp_def)
  from step [OF this] obtain tr' frames' c' where two: "for_each (tr_event offset) events (tr1, ms_insert c ?i) = Some (tr', c')"
    "tr_rep format tr' frames' (f(?i := None) |` (- reported events))"
    "ms_members c' = ms_members (ms_insert c ?i) \<union> reported events"
    "\<forall>i q. i \<notin> reported events \<longrightarrow> (f(?i := None)) i = Some q \<longrightarrow> frames' q = frames1 q" by blast
  have "frames' q = frames q" if "j \<notin> reported (x # events)" "f j = Some q" for j q
  proof -
    have j: "j \<noteq> ?i" "j \<notin> reported events" using that(1) rest by simp_all
    then have "q \<noteq> p" using mm_rep_inj [OF tr_repD(2) [OF Cons.prems(1)] that(2), of ?i] p by auto
    then show ?thesis using two(4) j that(2) one(3) by simp
  qed
  moreover
  have "f(?i := None) |` (- reported events) = f |` (- reported (x # events))"
    by (auto simp: rest restrict_map_def fun_eq_iff)
  moreover have "mailbox_wf ?i" using tr_repD(2) [OF Cons.prems(1)] p by (auto simp: mm_rep_def)
  then have "ms_members (ms_insert c ?i) = insert ?i (ms_members c)"
    by (auto simp: ms_members_def mailbox_wf_less)
  then have "ms_members c' = ms_members c \<union> reported (x # events)" using two(3) rest by blast
  moreover have "for_each (tr_event offset) (x # events) (tr, c) = Some (tr', c')" using one(1) two(1) by (simp add: x)
  ultimately show ?case using two(2) by (intro exI [of _ tr'] exI [of _ frames'] exI [of _ c']) simp
qed

lemma tr_forget_rep:
  assumes "tr_rep format tr frames f" "\<forall>i\<in>set is. mailbox_wf i"
  shows "\<exists>tr'. for_each tr_forget is tr = Some tr' \<and> tr_rep format tr' frames (f |` (- set is)) \<and>
    tr_frames tr' = tr_frames tr \<and> tr_loop_back tr' = tr_loop_back tr"
  using assms
proof (induction "is" arbitrary: tr f)
  case (Cons i "is")
  obtain m' where m': "mm_remove_by_mailbox (tr_pending tr) i = Some (f i, m')" "mm_rep m' (f(i := None))"
    using mm_remove_mailbox_rep [OF tr_repD(2) [OF Cons.prems(1)], of i] Cons.prems(2) by auto
  have "ran (f(i := None)) \<subseteq> ran f" by (auto simp: ran_def)
  then have "tr_rep format (tr\<lparr> tr_pending := m' \<rparr>) frames (f(i := None))"
    using Cons.prems(1) m'(2) unfolding tr_rep_def by auto
  note step = Cons.IH [OF this]
  have "\<forall>j\<in>set is. mailbox_wf j" using Cons.prems(2) by simp
  from step [OF this] obtain tr' where
    "for_each tr_forget is (tr\<lparr> tr_pending := m' \<rparr>) = Some tr'" "tr_rep format tr' frames (f(i := None) |` (- set is))"
    "tr_frames tr' = tr_frames (tr\<lparr> tr_pending := m' \<rparr>)" "tr_loop_back tr' = tr_loop_back (tr\<lparr> tr_pending := m' \<rparr>)" by blast
  moreover have "f(i := None) |` (- set is) = f |` (- set (i # is))" by (auto simp: restrict_map_def fun_eq_iff)
  moreover have "tr_forget i tr = Some (tr\<lparr> tr_pending := m' \<rparr>)" using m'(1) by (simp add: tr_forget_def)
  ultimately show ?case by simp
qed (simp add: restrict_map_def)

text \<open>What stays pending: what TXBRP held and no event reported.\<close>

definition still_pending :: "tx_mailbox_set \<Rightarrow> (tx_event \<times> instant) list \<Rightarrow> tx_mailbox_idx set" where
  "still_pending pending events = ms_members pending - reported events"

lemma tr_collect_rep:
  assumes rep: "tr_rep format tr frames f" and ev: "distinct (map (ev_marker \<circ> fst) events)" "reported events \<subseteq> dom f"
    and wf: "ms_wf pending"
  shows "\<exists>free tr' frames'. tr_collect offset pending events tr = Some (free, tr') \<and>
    tr_rep format tr' frames' (f |` still_pending pending events) \<and>
    ms_wf free \<and> ms_members free = {i. mailbox_wf i} - still_pending pending events \<and>
    (\<forall>i q. i \<in> still_pending pending events \<longrightarrow> f i = Some q \<longrightarrow> frames' q = frames q)"
proof -
  obtain tr1 frames1 c where one: "for_each (tr_event offset) events (tr, ms_NONE) = Some (tr1, c)"
    "tr_rep format tr1 frames1 (f |` (- reported events))" "ms_members c = reported events"
    "\<forall>i q. i \<notin> reported events \<longrightarrow> f i = Some q \<longrightarrow> frames1 q = frames q"
    using tr_events_rep [OF rep ev, of offset ms_NONE] by (auto simp: ms_members_def)
  let ?free = "ms_or (ms_not pending) c"
  let ?gone = "ms_and ?free (ms_not c)"
  have dom: "i \<in> dom f \<Longrightarrow> mailbox_wf i" for i using tr_repD(2) [OF rep] by (auto simp: mm_rep_def)
  have c: "ms_contains c i \<longleftrightarrow> i \<in> reported events" for i using one(3) by (auto simp: ms_members_def)
  have gone: "set (ms_into_iter ?gone) = {i. mailbox_wf i} - ms_members pending - reported events"
    by (subst ms_into_iter_set) (auto simp: ms_wf_def ms_members_def c)
  obtain tr2 where two: "for_each tr_forget (ms_into_iter ?gone) tr1 = Some tr2"
    "tr_rep format tr2 frames1 (f |` (- reported events) |` (- set (ms_into_iter ?gone)))"
    using tr_forget_rep [OF one(2), of "ms_into_iter ?gone"] gone by auto
  have "f |` (- reported events) |` (- set (ms_into_iter ?gone)) = f |` still_pending pending events"
    using dom unfolding gone by (auto simp: restrict_map_def fun_eq_iff still_pending_def)
  moreover have "tr_collect offset pending events tr = Some (?free, tr2)"
    using one(1) two(1) by (simp add: tr_collect_def Let_def)
  moreover have "ms_wf ?free" "ms_members ?free = {i. mailbox_wf i} - still_pending pending events"
    using ev(2) dom by (auto simp: ms_wf_def ms_members_def c still_pending_def)
  moreover have "\<forall>i q. i \<in> still_pending pending events \<longrightarrow> f i = Some q \<longrightarrow> frames1 q = frames q"
    using one(4) unfolding still_pending_def by blast
  ultimately show ?thesis using two(2) by auto
qed

section \<open>Transmitting\<close>

lemma store_tx_buffer_total:
  assumes f: "link_frame format f" and e: "length (el_data e) = 16"
  shows "\<exists>e'. store_tx_buffer e f format marker = Some e' \<and> length (el_data e') = 16"
proof -
  have w: "header_wf (f_header f)" "sendable (f_header f)" "data_wf (f_data f)" "ff_fd format \<or> dl_as_usize (d_length (f_data f)) \<le> 8"
    using f by (simp_all add: link_frame_def)
  obtain x where x: "make_can_id (f_header f) = Inr x" using can_id_header [OF w(1,2)] by blast
  have dl: "dl_wf (d_length (f_data f))" using w(3) by (simp add: data_wf_def)
  obtain d where d: "make_dlc (d_length (f_data f)) = Some d" using make_dlc_total [OF dl] by blast
  have len: "length (data_deref (f_data f)) = dl_as_usize (d_length (f_data f))" by (rule length_data_deref [OF w(3)])
  obtain words where "store_chunks 0 (data_deref (f_data f)) (el_data e) = Some words" "length words = 16"
    using store_chunks_bytes [of 0 "data_deref (f_data f)" "el_data e"] e len dl_wf_le [OF dl] by auto
  then show ?thesis using x d w(4) len by (simp add: store_tx_buffer_def)
qed

definition added :: "tx_command list \<Rightarrow> tx_mailbox_idx set" where
  "added commands = {i. TxAdd i \<in> set commands}"

lemma three_mailboxes: "{i. mailbox_wf i} = {TxMailboxIdx 0, TxMailboxIdx 1, TxMailboxIdx 2}"
proof
  show "{i. mailbox_wf i} \<subseteq> {TxMailboxIdx 0, TxMailboxIdx 1, TxMailboxIdx 2}" using mailbox_wf_cases by blast
qed (simp add: mailbox_wf_def mailbox_MAX_VALUE_def TX_FIFO_MAX_def)

lemma card_mailboxes: "card {i. mailbox_wf i} = 3" "finite {i. mailbox_wf i}"
  by (simp_all add: three_mailboxes)

lemma tr_enqueue_rep:
  assumes rep: "tr_rep format tr frames f" and left: "dom f \<subseteq> left" "card left \<le> 2" "finite left"
    and free: "ms_wf free" "ms_members free = {i. mailbox_wf i} - left"
    and reads: "ms_members padd \<subseteq> left" "card (ms_members pcancel) \<le> 2"
  shows "\<exists>commands tr' f'. tr_enqueue format free padd pcancel tr = Some (commands, tr') \<and> tr_rep format tr' frames f' \<and>
    nm_keys (tr_frames tr') = nm_keys (tr_frames tr) \<and>
    (f' = f \<and> added commands = {} \<or> (\<exists>i p. f' = f(i \<mapsto> p) \<and> added commands = {i} \<and> i \<notin> left \<and> mailbox_wf i))"
proof (cases "ps_first (tr_queued tr)")
  case None
  then show ?thesis using rep by (auto simp: tr_enqueue_def added_def)
next
  case (Some p)
  then have p: "p \<in> dom frames" "\<not> ps_contains (tr_loop_back tr) p"
    using tr_queued_iff [OF rep] by (auto simp: ps_first_iff)
  then obtain fr where fr: "frames p = Some fr" by blast
  have known: "mm_contains_priority (tr_pending tr) p = Some (p \<in> ran f)" by (rule mm_get_rep(3) [OF tr_repD(2) [OF rep]])
  show ?thesis
  proof (cases "p \<in> ran f")
    case True
    then obtain i where "f i = Some p" by (auto simp: ran_def)
    then have "mm_get_by_priority (tr_pending tr) p = Some (Some i)" using mm_get_rep(1) [OF tr_repD(2) [OF rep]] by blast
    then show ?thesis using rep Some known True by (auto simp: tr_enqueue_def added_def)
  next
    case False
    have "\<not> {i. mailbox_wf i} \<subseteq> left"
      using card_mono [OF left(3), of "{i. mailbox_wf i}"] left(2) card_mailboxes(1) by linarith
    then have "ms_members free \<noteq> {}" unfolding free(2) by blast
    then have "ms_first free \<noteq> None" using ms_first_spec(1) [OF free(1)] by blast
    then obtain i where i: "ms_first free = Some i" by blast
    then have wf: "mailbox_wf i" "i \<notin> left" using ms_first_spec(2) [OF free(1) i] free(2) by (auto simp: ms_members_def)
    have index: "nm_index (tr_frames tr) p = Some fr" using nm_rep_ops(3) [OF tr_repD(1) [OF rep]] fr by simp
    have n: "mailbox_into_usize i < length (tr_elements tr)" using wf(1) tr_repD(6) [OF rep] by (simp add: mailbox_wf_less)
    then have "length (el_data (tr_elements tr ! mailbox_into_usize i)) = 16" using tr_repD(7) [OF rep] by simp
    then obtain e where e: "store_tx_buffer (tr_elements tr ! mailbox_into_usize i) fr format (mailbox_into_u8 i) = Some e"
      "length (el_data e) = 16"
      using store_tx_buffer_total [OF tr_repD(5) [OF rep fr]] by blast
    let ?elements = "(tr_elements tr)[mailbox_into_usize i := e]"
    have "txq_add padd (tr_elements tr) i fr format (mailbox_into_u8 i) = Some (Inr (), ?elements)"
      using e(1) n reads(1) wf(2) by (auto simp: txq_add_def ms_members_def)
    moreover have "pcancel \<noteq> ms_ALL"
    proof
      assume "pcancel = ms_ALL"
      then have "ms_members pcancel = {i. mailbox_wf i}" by (simp add: ms_members_def)
      then show False using reads(2) card_mailboxes(1) by simp
    qed
    moreover obtain m' where m': "mm_insert (tr_pending tr) i p = Some (Inr (), m')" "mm_rep m' (f(i \<mapsto> p))"
      using mm_insert_rep [OF tr_repD(2) [OF rep] wf(1) _ False] left(1) wf(2) by blast
    moreover have "mm_get_by_priority m' p = Some (Some i)" using mm_get_rep(1) [OF m'(2)] by simp
    ultimately have "tr_enqueue format free padd pcancel tr = Some ([TxAdd i, TxCancel (ms_not (ms_new_eq i)), TxInterrupt (ms_new_eq i)],
        tr\<lparr> tr_elements := ?elements, tr_pending := m' \<rparr>)"
      using Some known False i index by (simp add: tr_enqueue_def)
    moreover have "f i = None" using left(1) wf(2) by blast
    then have "ran (f(i \<mapsto> p)) = insert p (ran f)" by (rule ran_map_upd)
    then have "tr_rep format (tr\<lparr> tr_elements := ?elements, tr_pending := m' \<rparr>) frames (f(i \<mapsto> p))"
      using rep m'(2) p e(2) n by (auto simp: tr_rep_def dest: set_update_subset_insert [THEN subsetD])
    ultimately show ?thesis using wf by (auto simp: added_def)
  qed
qed

section \<open>The end of a round\<close>

definition dropped :: "tx_command list \<Rightarrow> tx_mailbox_idx set" where
  "dropped commands = {i. \<exists>s. TxCancel s \<in> set commands \<and> ms_contains s i}"

lemma dropped_simps [simp]:
  "dropped [] = {}" "dropped (xs @ ys) = dropped xs \<union> dropped ys" "dropped [TxLoopBack fr] = {}"
  "mailbox_wf i \<Longrightarrow> dropped [TxCancel (ms_new_eq i)] = {i}"
  by (auto simp: dropped_def mailbox_wf_less)

lemma restrict_rest [simp]: "f |` UNIV = f" "f |` (- A) |` (- B) = f |` (- (A \<union> B))"
  by (auto simp: restrict_map_def fun_eq_iff)

text \<open>The frames of \<open>ps\<close> whose deadline has passed are given up, with their mailboxes.\<close>

definition given_up :: "instant \<Rightarrow> (priority \<rightharpoonup> frame) \<Rightarrow> (tx_mailbox_idx \<rightharpoonup> priority) \<Rightarrow> priority set \<Rightarrow> tx_mailbox_idx set \<Rightarrow> bool" where
  "given_up now frames f ps gone \<longleftrightarrow>
     (\<forall>p\<in>ps. \<forall>fr i. frames p = Some fr \<longrightarrow> f_timestamp fr \<le> now \<longrightarrow> f i = Some p \<longrightarrow> i \<in> gone)"

lemma given_up_insert:
  assumes "given_up now frames f {p} gone" "given_up now frames' (f |` (- gone)) ps gone'" "\<forall>q\<in>ps. frames' q = frames q"
  shows "given_up now frames f (insert p ps) (gone \<union> gone')"
  unfolding given_up_def
proof (intro ballI allI impI)
  fix q fr i
  assume q: "q \<in> insert p ps" "frames q = Some fr" "f_timestamp fr \<le> now" "f i = Some q"
  show "i \<in> gone \<union> gone'"
  proof (cases "q = p \<or> i \<in> gone")
    case True
    then show ?thesis using assms(1) q(2-4) unfolding given_up_def by blast
  next
    case False
    then have "q \<in> ps" "frames' q = Some fr" "(f |` (- gone)) i = Some q" using q assms(3) by auto
    then show ?thesis using assms(2) q(3) unfolding given_up_def by blast
  qed
qed

lemma tr_expire_rep:
  assumes rep: "tr_rep format tr frames f" and p: "p \<in> dom frames" "\<not> ps_contains (tr_loop_back tr) p"
  shows "\<exists>new tr' frames'. tr_expire now p (commands, tr) = Some (commands @ new, tr') \<and>
    tr_rep format tr' frames' (f |` (- dropped new)) \<and> (\<forall>q. q \<noteq> p \<longrightarrow> frames' q = frames q) \<and>
    tr_loop_back tr' = tr_loop_back tr \<and> given_up now frames f {p} (dropped new)"
proof -
  obtain fr where fr: "frames p = Some fr" using p(1) by blast
  have index: "nm_index (tr_frames tr) p = Some fr" using nm_rep_ops(3) [OF tr_repD(1) [OF rep]] fr by simp
  show ?thesis
  proof (cases "f_timestamp fr \<le> now")
    case False
    then show ?thesis using index rep fr by (auto simp: tr_expire_def given_up_def intro!: exI [of _ "[]"])
  next
    case True
    obtain g where g: "nm_remove p (tr_frames tr) = Some (Some fr, g)" "nm_rep g (frames(p := None))"
      using nm_rep_ops(2) [OF tr_repD(1) [OF rep], of p] fr by auto
    show ?thesis
    proof (cases "p \<in> ran f")
      case True
      then obtain i where i: "f i = Some p" by (auto simp: ran_def)
      obtain m where m: "mm_remove_by_priority (tr_pending tr) p = Some (Some i, m)" "mm_rep m (f(i := None))"
        using mm_remove_priority_rep(1) [OF tr_repD(2) [OF rep] i] by blast
      have wf: "mailbox_wf i" using tr_repD(2) [OF rep] i by (auto simp: mm_rep_def)
      let ?tr = "tr\<lparr> tr_frames := g, tr_pending := m \<rparr>"
      have "tr_rep format ?tr (frames(p := None)) (f(i := None))"
        using rep g(2) m(2) p(2) ran_without [OF tr_repD(2) [OF rep] i] by (auto simp: tr_rep_def)
      moreover have "f(i := None) = f |` (- dropped [TxCancel (ms_new_eq i)])"
        by (auto simp: wf restrict_map_def fun_eq_iff)
      moreover have "tr_expire now p (commands, tr) = Some (commands @ [TxCancel (ms_new_eq i)], ?tr)"
        using index \<open>f_timestamp fr \<le> now\<close> g(1) m(1) by (simp add: tr_expire_def Let_def)
      moreover have "given_up now frames f {p} (dropped [TxCancel (ms_new_eq i)])"
        using mm_rep_inj [OF tr_repD(2) [OF rep] _ i] wf by (simp add: given_up_def)
      ultimately show ?thesis by (intro exI [of _ "[TxCancel (ms_new_eq i)]"] exI [of _ ?tr] exI [of _ "frames(p := None)"]) simp
    next
      case False
      obtain m where m: "mm_remove_by_priority (tr_pending tr) p = Some (None, m)" "mm_rep m f"
        using mm_remove_priority_rep(2) [OF tr_repD(2) [OF rep] False] by blast
      let ?tr = "tr\<lparr> tr_frames := g, tr_pending := m \<rparr>"
      have "tr_rep format ?tr (frames(p := None)) f" using rep g(2) m(2) p(2) False by (auto simp: tr_rep_def)
      moreover have "tr_expire now p (commands, tr) = Some (commands @ [], ?tr)"
        using index \<open>f_timestamp fr \<le> now\<close> g(1) m(1) by (simp add: tr_expire_def Let_def)
      moreover have "given_up now frames f {p} (dropped [])" using False by (auto simp: given_up_def ran_def)
      ultimately show ?thesis by (intro exI [of _ "[]"] exI [of _ ?tr] exI [of _ "frames(p := None)"]) simp
    qed
  qed
qed

lemma tr_expire_all_rep:
  assumes "tr_rep format tr frames f" "distinct ps" "set ps \<subseteq> dom frames" "\<forall>p\<in>set ps. \<not> ps_contains (tr_loop_back tr) p"
  shows "\<exists>new tr' frames'. for_each (tr_expire now) ps (commands, tr) = Some (commands @ new, tr') \<and>
    tr_rep format tr' frames' (f |` (- dropped new)) \<and> given_up now frames f (set ps) (dropped new)"
  using assms
proof (induction ps arbitrary: tr frames f commands)
  case Nil
  then show ?case by (auto simp: given_up_def intro!: exI [of _ "[]"])
next
  case (Cons p ps)
  obtain new tr1 frames1 where one: "tr_expire now p (commands, tr) = Some (commands @ new, tr1)"
    "tr_rep format tr1 frames1 (f |` (- dropped new))" "\<forall>q. q \<noteq> p \<longrightarrow> frames1 q = frames q" "tr_loop_back tr1 = tr_loop_back tr"
    "given_up now frames f {p} (dropped new)"
    using tr_expire_rep [OF Cons.prems(1), of p now commands] Cons.prems(3,4) by auto
  have "p \<notin> set ps" "set ps \<subseteq> dom frames" using Cons.prems(2,3) by simp_all
  then have same: "\<forall>q\<in>set ps. frames1 q = frames q" "set ps \<subseteq> dom frames1" using one(3) by (metis (no_types, lifting) domIff subset_iff)+
  have "\<forall>p\<in>set ps. \<not> ps_contains (tr_loop_back tr1) p" using one(4) Cons.prems(4) by simp
  with same(2) obtain new' tr' frames' where two: "for_each (tr_expire now) ps (commands @ new, tr1) = Some ((commands @ new) @ new', tr')"
    "tr_rep format tr' frames' (f |` (- dropped new) |` (- dropped new'))" "given_up now frames1 (f |` (- dropped new)) (set ps) (dropped new')"
    using Cons.IH [OF one(2), of "commands @ new"] Cons.prems(2) by auto
  have "given_up now frames f (set (p # ps)) (dropped (new @ new'))"
    using given_up_insert [OF one(5) two(3) same(1)] by simp
  moreover have "for_each (tr_expire now) (p # ps) (commands, tr) = Some (commands @ (new @ new'), tr')"
    "tr_rep format tr' frames' (f |` (- dropped (new @ new')))"
    using one(1) two(1,2) by simp_all
  ultimately show ?case by blast
qed

text \<open>What the link may answer: a frame without a source, or one that was asked for.\<close>

definition link_answers :: "frame_format \<Rightarrow> tx_runner \<Rightarrow> tx_outcome \<Rightarrow> bool" where
  "link_answers format tr outcome \<longleftrightarrow> (case outcome of
     LinkFrame fr \<Rightarrow> h_source (f_header fr) = None \<or>
       link_frame format fr \<and> \<not> ps_contains (nm_keys (tr_frames tr)) (h_priority (f_header fr))
   | _ \<Rightarrow> True)"

lemma tr_finish_rep:
  assumes rep: "tr_rep format tr frames f" and link: "link_answers format tr outcome"
  shows "\<exists>commands tr' frames'. tr_finish outcome tr = Some (commands, tr') \<and> tr_rep format tr' frames' (f |` (- dropped commands)) \<and>
    (\<forall>now. outcome = TimerExpired now \<longrightarrow> given_up now frames f (ran f) (dropped commands))"
proof (cases outcome)
  case (TimerExpired now)
  have "distinct (ps_into_iter (tr_queued tr))" "set (ps_into_iter (tr_queued tr)) = ps_members (tr_queued tr)"
    using ps_into_iter_spec [of "tr_queued tr"] strict_sorted_iff by blast+
  moreover have "ps_members (tr_queued tr) \<subseteq> dom frames" "\<forall>p\<in>ps_members (tr_queued tr). \<not> ps_contains (tr_loop_back tr) p"
    using tr_queued_iff [OF rep] unfolding ps_members_def by blast+
  ultimately obtain new tr' frames' where "for_each (tr_expire now) (ps_into_iter (tr_queued tr)) ([], tr) = Some ([] @ new, tr')"
    "tr_rep format tr' frames' (f |` (- dropped new))" "given_up now frames f (ps_members (tr_queued tr)) (dropped new)"
    using tr_expire_all_rep [OF rep, of "ps_into_iter (tr_queued tr)" now "[]"] by metis
  moreover have "ran f \<subseteq> ps_members (tr_queued tr)"
    using tr_queued_iff [OF rep] tr_repD(3,4) [OF rep] unfolding ps_members_def by blast
  then have "given_up now frames f (ps_members (tr_queued tr)) (dropped new) \<Longrightarrow> given_up now frames f (ran f) (dropped new)"
    unfolding given_up_def by blast
  ultimately show ?thesis using TimerExpired by (auto simp: tr_finish_def)
next
  case LoopedBack
  show ?thesis
  proof (cases "ps_first (tr_loop_back tr)")
    case None
    then show ?thesis using rep LoopedBack by (auto simp: tr_finish_def intro!: exI [of _ "[]"])
  next
    case (Some p)
    then have p: "p \<in> dom frames" "p \<notin> ran f" using tr_repD(4) [OF rep] by (auto simp: ps_first_iff)
    then obtain fr where fr: "frames p = Some fr" by blast
    obtain g where g: "nm_remove p (tr_frames tr) = Some (Some fr, g)" "nm_rep g (frames(p := None))"
      using nm_rep_ops(2) [OF tr_repD(1) [OF rep], of p] fr by auto
    have "nm_index (tr_frames tr) p = Some fr" using nm_rep_ops(3) [OF tr_repD(1) [OF rep]] fr by simp
    then have "tr_finish outcome tr = Some ([TxLoopBack fr], tr\<lparr> tr_loop_back := ps_remove (tr_loop_back tr) p, tr_frames := g \<rparr>)"
      using LoopedBack Some g(1) by (simp add: tr_finish_def)
    moreover have "tr_rep format (tr\<lparr> tr_loop_back := ps_remove (tr_loop_back tr) p, tr_frames := g \<rparr>) (frames(p := None)) f"
      using rep g(2) p(2) by (auto simp: tr_rep_def)
    ultimately show ?thesis using LoopedBack by (metis dropped_simps(3) Compl_empty_eq restrict_rest(1) tx_outcome.distinct(1))
  qed
next
  case (LinkFrame fr)
  show ?thesis
  proof (cases "h_source (f_header fr) = None")
    case True
    then show ?thesis using rep LinkFrame by (auto simp: tr_finish_def intro!: exI [of _ "[]"])
  next
    case False
    let ?p = "h_priority (f_header fr)"
    have l: "link_frame format fr" "\<not> ps_contains (nm_keys (tr_frames tr)) ?p"
      using link False LinkFrame by (simp_all add: link_answers_def)
    then have none: "frames ?p = None" using nm_rep_ops(5) [OF tr_repD(1) [OF rep]] by blast
    obtain g where g: "nm_insert ?p fr (tr_frames tr) = Some (Inr (), g)" "nm_rep g (frames(?p \<mapsto> fr))"
      using nm_rep_ops(1) [OF tr_repD(1) [OF rep], of ?p fr] none by auto
    have "tr_finish outcome tr = Some ([], tr\<lparr> tr_frames := g \<rparr>)" using LinkFrame False g(1) by (simp add: tr_finish_def)
    moreover have "tr_rep format (tr\<lparr> tr_frames := g \<rparr>) (frames(?p \<mapsto> fr)) f" using rep g(2) l(1) by (auto simp: tr_rep_def)
    ultimately show ?thesis using LinkFrame by (metis dropped_simps(1) Compl_empty_eq restrict_rest(1) tx_outcome.distinct(3))
  qed
next
  case Unpended
  then show ?thesis using rep by (auto simp: tr_finish_def intro!: exI [of _ "[]"])
qed

section \<open>The peripheral\<close>

text \<open>
  What the manual of the peripheral says of its registers, over the requests the task has made: a
  mailbox is pending only from a request on until it was sent or cancelled; each request is reported
  at most once, before its bit in TXBRP goes; and since one frame is transmitted at a time, a
  cancellation of two mailboxes takes effect for one of them at once. The expired mailboxes are
  those that were cancelled at a deadline; \<open>late\<close> says whether they may still be reported.
\<close>

record tx_ghost =
  gh_pending :: "tx_mailbox_idx set"
  gh_armed :: "tx_mailbox_idx set"
  gh_expired :: "tx_mailbox_idx set"

definition ghost_start :: tx_ghost where
  "ghost_start = \<lparr> gh_pending = {}, gh_armed = {}, gh_expired = {} \<rparr>"

definition round_left :: "tx_round \<Rightarrow> tx_mailbox_idx set" where
  "round_left rd = still_pending (txq_pending (rd_txbrp rd)) (rd_events rd)"

definition round_reads :: "bool \<Rightarrow> tx_round \<Rightarrow> tx_ghost \<Rightarrow> bool" where
  "round_reads late rd g \<longleftrightarrow> ms_members (txq_pending (rd_txbrp rd)) \<subseteq> gh_pending g \<and>
     distinct (map (ev_marker \<circ> fst) (rd_events rd)) \<and>
     reported (rd_events rd) \<subseteq> gh_armed g - (if late then {} else gh_expired g) \<and>
     ms_members (txq_pending (rd_txbrp_add rd)) \<subseteq> round_left rd \<and> card (ms_members (txq_pending (rd_txbrp_cancel rd))) \<le> 2"

definition ghost_after :: "tx_round \<Rightarrow> tx_command list \<times> tx_command list \<Rightarrow> tx_ghost \<Rightarrow> tx_ghost" where
  "ghost_after rd = (\<lambda>(enqueued, finished) g.
     \<lparr> gh_pending = if added enqueued = {} then round_left rd else ms_members (txq_pending (rd_txbrp_cancel rd)),
       gh_armed = gh_armed g \<inter> round_left rd \<union> added enqueued,
       gh_expired = (gh_expired g - added enqueued) \<union> dropped finished \<rparr>)"

fun tx_env :: "bool \<Rightarrow> frame_format \<Rightarrow> u16 option \<Rightarrow> tx_round list \<Rightarrow> tx_runner \<Rightarrow> tx_ghost \<Rightarrow> bool" where
  "tx_env late format offset [] tr g = True"
| "tx_env late format offset (rd # rds) tr g = (round_reads late rd g \<and>
     (case tr_collect offset (txq_pending (rd_txbrp rd)) (rd_events rd) tr of
        None \<Rightarrow> True
      | Some (_, tr) \<Rightarrow> link_answers format tr (rd_outcome rd)) \<and>
     (case tr_round format offset rd tr of
        None \<Rightarrow> True
      | Some (commands, tr) \<Rightarrow> tx_env late format offset rds tr (ghost_after rd commands g)))"

definition tr_inv :: "frame_format \<Rightarrow> tx_runner \<Rightarrow> tx_ghost \<Rightarrow> bool" where
  "tr_inv format tr g \<longleftrightarrow> (\<exists>frames f. tr_rep format tr frames f \<and> dom f = gh_armed g - gh_expired g) \<and>
     finite (gh_pending g) \<and> card (gh_pending g) \<le> 2"

lemma txq_pending_wf: "ms_wf (txq_pending r)"
  by (simp add: ms_wf_def txq_pending_def)

lemma link_answers_keys: "nm_keys (tr_frames tr') = nm_keys (tr_frames tr) \<Longrightarrow> link_answers format tr' oc = link_answers format tr oc"
  by (simp add: link_answers_def split: tx_outcome.split)

lemma mm_get_repD:
  assumes "mm_rep m f" "mm_get_by_priority m p = Some (Some i)"
  shows "f i = Some p"
proof (cases "p \<in> ran f")
  case True
  then obtain j where j: "f j = Some p" by (auto simp: ran_def)
  then show ?thesis using mm_get_rep(1) [OF assms(1) j] assms(2) by simp
qed (use mm_get_rep(2) [OF assms(1)] assms(2) in simp)

lemma tr_round_inv:
  assumes inv: "tr_inv format tr g" and reads: "round_reads False rd g"
    and link: "case tr_collect offset (txq_pending (rd_txbrp rd)) (rd_events rd) tr of
        None \<Rightarrow> True | Some (_, tr) \<Rightarrow> link_answers format tr (rd_outcome rd)"
  shows "\<exists>commands tr'. tr_round format offset rd tr = Some (commands, tr') \<and> tr_inv format tr' (ghost_after rd commands g) \<and>
    (\<forall>now p fr i. rd_outcome rd = TimerExpired now \<longrightarrow> mm_get_by_priority (tr_pending tr) p = Some (Some i) \<longrightarrow>
       nm_index (tr_frames tr) p = Some fr \<longrightarrow> f_timestamp fr \<le> now \<longrightarrow> i \<in> round_left rd \<longrightarrow> i \<in> dropped (snd commands))"
proof -
  let ?left = "round_left rd"
  obtain frames f where rep: "tr_rep format tr frames f" and dom: "dom f = gh_armed g - gh_expired g"
    and fin: "finite (gh_pending g)" "card (gh_pending g) \<le> 2"
    using inv unfolding tr_inv_def by blast
  have r: "ms_members (txq_pending (rd_txbrp rd)) \<subseteq> gh_pending g" "distinct (map (ev_marker \<circ> fst) (rd_events rd))"
    "reported (rd_events rd) \<subseteq> dom f" "ms_members (txq_pending (rd_txbrp_add rd)) \<subseteq> ?left"
    "card (ms_members (txq_pending (rd_txbrp_cancel rd))) \<le> 2"
    using reads dom by (simp_all add: round_reads_def)
  have sub: "?left \<subseteq> gh_pending g" using r(1) by (auto simp: round_left_def still_pending_def)
  have left: "finite ?left" "card ?left \<le> 2" using finite_subset [OF sub fin(1)] card_mono [OF fin(1) sub] fin(2) by simp_all
  obtain free tr1 frames1 where one: "tr_collect offset (txq_pending (rd_txbrp rd)) (rd_events rd) tr = Some (free, tr1)"
    "tr_rep format tr1 frames1 (f |` ?left)" "ms_wf free" "ms_members free = {i. mailbox_wf i} - ?left"
    "\<forall>i q. i \<in> ?left \<longrightarrow> f i = Some q \<longrightarrow> frames1 q = frames q"
    using tr_collect_rep [OF rep r(2,3) txq_pending_wf, of offset] unfolding round_left_def by blast
  define enqueued where "enqueued = (if rd_polled rd
    then tr_enqueue format free (txq_pending (rd_txbrp_add rd)) (txq_pending (rd_txbrp_cancel rd)) tr1 else Some ([], tr1))"
  have "\<exists>commands tr2 f2. enqueued = Some (commands, tr2) \<and> tr_rep format tr2 frames1 f2 \<and>
      nm_keys (tr_frames tr2) = nm_keys (tr_frames tr1) \<and> dom f2 = dom f \<inter> ?left \<union> added commands \<and>
      (\<forall>i\<in>?left. f2 i = f i)"
  proof (cases "rd_polled rd")
    case True
    then have enq: "enqueued = tr_enqueue format free (txq_pending (rd_txbrp_add rd)) (txq_pending (rd_txbrp_cancel rd)) tr1"
      by (simp add: enqueued_def)
    have "dom (f |` ?left) \<subseteq> ?left" by simp
    from tr_enqueue_rep [OF one(2) this left(2,1) one(3,4) r(4,5)] obtain commands tr' f' where
      "enqueued = Some (commands, tr')" "tr_rep format tr' frames1 f'" "nm_keys (tr_frames tr') = nm_keys (tr_frames tr1)" and
      f': "f' = f |` ?left \<and> added commands = {} \<or>
        (\<exists>i p. f' = (f |` ?left)(i \<mapsto> p) \<and> added commands = {i} \<and> i \<notin> ?left \<and> mailbox_wf i)"
      unfolding enq by blast
    moreover have "dom f' = dom f \<inter> ?left \<union> added commands" using f' by (elim disjE exE conjE) auto
    moreover have "\<forall>i\<in>?left. f' i = f i" using f' by (elim disjE exE conjE) auto
    ultimately show ?thesis by blast
  next
    case False
    then have "enqueued = Some ([], tr1)" "dom (f |` ?left) = dom f \<inter> ?left \<union> added []"
      by (simp_all add: enqueued_def added_def)
    moreover have "\<forall>i\<in>?left. (f |` ?left) i = f i" by simp
    ultimately show ?thesis using one(2) by blast
  qed
  then obtain cs tr2 f2 where two: "enqueued = Some (cs, tr2)" "tr_rep format tr2 frames1 f2"
    "nm_keys (tr_frames tr2) = nm_keys (tr_frames tr1)" "dom f2 = dom f \<inter> ?left \<union> added cs" "\<forall>i\<in>?left. f2 i = f i" by blast
  have "link_answers format tr2 (rd_outcome rd)" using link one(1) link_answers_keys [OF two(3)] by simp
  then obtain cs' tr3 frames3 where three: "tr_finish (rd_outcome rd) tr2 = Some (cs', tr3)"
    "tr_rep format tr3 frames3 (f2 |` (- dropped cs'))"
    "\<forall>now. rd_outcome rd = TimerExpired now \<longrightarrow> given_up now frames1 f2 (ran f2) (dropped cs')"
    using tr_finish_rep [OF two(2)] by blast
  have "i \<in> dropped cs'" if hyp: "rd_outcome rd = TimerExpired now" "mm_get_by_priority (tr_pending tr) p = Some (Some i)"
    "nm_index (tr_frames tr) p = Some fr" "f_timestamp fr \<le> now" "i \<in> ?left" for now p fr i
  proof -
    have f: "f i = Some p" by (rule mm_get_repD [OF tr_repD(2) [OF rep] hyp(2)])
    moreover have "frames p = Some fr" using nm_rep_ops(3) [OF tr_repD(1) [OF rep]] hyp(3) by simp
    ultimately have "frames1 p = Some fr" "f2 i = Some p" using one(5) two(5) hyp(5) by simp_all
    moreover have "given_up now frames1 f2 (ran f2) (dropped cs')" using three(3) hyp(1) by blast
    ultimately show ?thesis using hyp(4) unfolding given_up_def by (blast intro: ranI)
  qed
  then have "\<forall>now p fr i. rd_outcome rd = TimerExpired now \<longrightarrow> mm_get_by_priority (tr_pending tr) p = Some (Some i) \<longrightarrow>
      nm_index (tr_frames tr) p = Some fr \<longrightarrow> f_timestamp fr \<le> now \<longrightarrow> i \<in> ?left \<longrightarrow> i \<in> dropped (snd (cs, cs'))"
    by simp
  moreover
  have "tr_round format offset rd tr = Some ((cs, cs'), tr3)"
    using one(1) two(1) three(1) by (simp add: tr_round_def enqueued_def)
  moreover have "dom (f2 |` (- dropped cs')) = gh_armed (ghost_after rd (cs, cs') g) - gh_expired (ghost_after rd (cs, cs') g)"
    unfolding ghost_after_def by (auto simp: two(4) dom)
  moreover have "finite (gh_pending (ghost_after rd (cs, cs') g)) \<and> card (gh_pending (ghost_after rd (cs, cs') g)) \<le> 2"
    using left r(5) by (simp add: ghost_after_def finite_ms_members)
  ultimately show ?thesis using three(2) unfolding tr_inv_def by blast
qed

lemma tr_run_inv:
  "tr_inv format tr g \<Longrightarrow> tx_env False format offset rds tr g \<Longrightarrow> \<exists>tr' g'. tr_run format offset rds tr = Some tr' \<and> tr_inv format tr' g'"
proof (induction rds arbitrary: tr g)
  case (Cons rd rds)
  have e: "round_reads False rd g" "case tr_collect offset (txq_pending (rd_txbrp rd)) (rd_events rd) tr of
        None \<Rightarrow> True | Some (_, tr) \<Rightarrow> link_answers format tr (rd_outcome rd)"
    using Cons.prems(2) by simp_all
  obtain commands tr1 where one: "tr_round format offset rd tr = Some (commands, tr1)" "tr_inv format tr1 (ghost_after rd commands g)"
    using tr_round_inv [OF Cons.prems(1) e] by blast
  then have "tx_env False format offset rds tr1 (ghost_after rd commands g)" using Cons.prems(2) by simp
  from Cons.IH [OF one(2) this] show ?case using one(1) by simp
qed auto

lemma tr_start_inv:
  "length elements = 3 \<Longrightarrow> \<forall>e\<in>set elements. length (el_data e) = 16 \<Longrightarrow> tr_inv format (tr_new elements) ghost_start"
  using tr_new_rep [of elements format] unfolding tr_inv_def ghost_start_def by fastforce

text \<open>
  C32: The transmit task of the native driver never panics, as long as no frame that it gave up at
  its deadline is reported as sent: on every peripheral that keeps to its manual and with every link
  that answers what it was asked for, it runs all its rounds, with at most one frame of each
  priority, every one of which can be sent, and a frame that waits to be looped back in no mailbox.
\<close>

theorem native_tx_never_panics:
  assumes "length elements = 3" "\<forall>e\<in>set elements. length (el_data e) = 16"
    "tx_env False format offset rds (tr_new elements) ghost_start"
  shows "\<exists>tr frames f. tr_run format offset rds (tr_new elements) = Some tr \<and> tr_rep format tr frames f"
  using tr_run_inv [OF tr_start_inv [OF assms(1,2)] assms(3)] unfolding tr_inv_def by blast

text \<open>A frame that is fetched, transmitted and reported.\<close>

lemma pred_option_code [code]: "pred_option P None = True" "pred_option P (Some x) = P x"
  by simp_all

lemma ms_members_code [code]: "ms_members s = set (filter (ms_contains s) (map (\<lambda>n. TxMailboxIdx (of_nat n)) [0..<8]))"
proof -
  have "ms_contains s i \<Longrightarrow> i \<in> (\<lambda>n. TxMailboxIdx (of_nat n)) ` {0..<8}" for i
  proof -
    assume "ms_contains s i"
    then have "mailbox_into_usize i < 8" by (auto simp: ms_contains_bit dest: bit_imp_le_length)
    then show ?thesis by (intro image_eqI [of _ _ "mailbox_into_usize i"]) (auto simp: mailbox_into_usize_def)
  qed
  then show ?thesis by (auto simp: ms_members_def)
qed

lemma added_code [code]: "added commands = (\<Union>c\<in>set commands. case c of TxAdd i \<Rightarrow> {i} | _ \<Rightarrow> {})"
  by (auto simp: added_def split: tx_command.splits)

lemma dropped_code [code]: "dropped commands = (\<Union>c\<in>set commands. case c of TxCancel s \<Rightarrow> ms_members s | _ \<Rightarrow> {})"
  by (auto simp: dropped_def ms_members_def split: tx_command.splits)

definition sample_round :: "tx_outcome \<Rightarrow> tx_round" where
  "sample_round outcome = \<lparr> rd_txbrp = 0, rd_events = [], rd_polled = True, rd_txbrp_add = 0, rd_txbrp_cancel = 1, rd_outcome = outcome \<rparr>"

definition report_round :: tx_round where
  "report_round = (sample_round (TimerExpired 3))\<lparr> rd_events := [(\<lparr> ev_marker = 0, ev_timestamp = 7 \<rparr>, 4)] \<rparr>"

lemma native_tx_never_panics_witness:
  "\<exists>tr frames f. tr_run FfClassic None [sample_round (LinkFrame sample_frame), sample_round Unpended, report_round]
    (tr_new (replicate 3 sample_elem)) = Some tr \<and> tr_rep FfClassic tr frames f"
proof (rule native_tx_never_panics)
  show "length (replicate 3 sample_elem) = 3" by simp
  show "\<forall>e\<in>set (replicate 3 sample_elem). length (el_data e) = 16" by (simp add: sample_elem_def)
  show "tx_env False FfClassic None [sample_round (LinkFrame sample_frame), sample_round Unpended, report_round]
      (tr_new (replicate 3 sample_elem)) ghost_start"
    by code_simp
qed

section \<open>Late reports\<close>

text \<open>A report of a mailbox that the task does not know makes it panic, wherever it is among the events.\<close>

lemma tr_event_unknown:
  assumes rep: "tr_rep format tr frames f" and i: "f (TxMailboxIdx (ev_marker ev)) = None"
  shows "tr_event offset (ev, now) (tr, c) = None"
proof (cases "mailbox_new (ev_marker ev)")
  case None
  then show ?thesis by (simp add: tr_event_def)
next
  case (Some j)
  then have j: "mailbox_wf j" "mailbox_into_u8 j = ev_marker ev" by (simp_all add: mailbox_new_iff)
  have "f j = None" using i j(2) by (cases j) simp
  obtain m' where "mm_remove_by_mailbox (tr_pending tr) j = Some (None, m')"
    using mm_remove_mailbox_rep [OF tr_repD(2) [OF rep] j(1)] \<open>f j = None\<close> by auto
  then show ?thesis using Some by (simp add: tr_event_def Let_def)
qed

lemma tr_events_unknown:
  assumes "tr_rep format tr frames f" "f (TxMailboxIdx (ev_marker ev)) = None" "(ev, t) \<in> set events"
  shows "for_each (tr_event offset) events (tr, c) = None"
  using assms
proof (induction events arbitrary: tr frames f c)
  case (Cons x events)
  obtain e now where x: "x = (e, now)" by (cases x)
  show ?case
  proof (cases "f (TxMailboxIdx (ev_marker e))")
    case None
    then show ?thesis using tr_event_unknown [OF Cons.prems(1) None] by (simp add: x)
  next
    case (Some p)
    let ?i = "TxMailboxIdx (ev_marker e)"
    obtain tr1 frames1 where one: "tr_event offset (e, now) (tr, c) = Some (tr1, ms_insert c ?i)"
      "tr_rep format tr1 frames1 (f(?i := None))"
      using tr_event_rep [OF Cons.prems(1) Some, of e offset now c] by auto
    have "e \<noteq> ev" using Some Cons.prems(2) by auto
    then have "(ev, t) \<in> set events" using Cons.prems(3) by (simp add: x)
    moreover have "(f(?i := None)) (TxMailboxIdx (ev_marker ev)) = None" using Cons.prems(2) by simp
    ultimately show ?thesis using Cons.IH [OF one(2)] one(1) by (simp add: x)
  qed
qed simp

lemma tr_round_unknown:
  assumes "tr_inv format tr g" "TxMailboxIdx (ev_marker ev) \<in> gh_expired g" "(ev, t) \<in> set (rd_events rd)"
  shows "tr_round format offset rd tr = None"
proof -
  obtain frames f where rep: "tr_rep format tr frames f" and dom: "dom f = gh_armed g - gh_expired g"
    using assms(1) unfolding tr_inv_def by blast
  have "f (TxMailboxIdx (ev_marker ev)) = None" using assms(2) dom by blast
  then have "for_each (tr_event offset) (rd_events rd) (tr, ms_NONE) = None" by (rule tr_events_unknown [OF rep _ assms(3)])
  then show ?thesis by (simp add: tr_round_def tr_collect_def)
qed

text \<open>The mailboxes that a run requests to be sent.\<close>

fun tr_requested :: "frame_format \<Rightarrow> u16 option \<Rightarrow> tx_round list \<Rightarrow> tx_runner \<Rightarrow> tx_mailbox_idx set" where
  "tr_requested format offset [] tr = {}"
| "tr_requested format offset (rd # rds) tr = (case tr_round format offset rd tr of
     None \<Rightarrow> {}
   | Some ((enqueued, _), tr) \<Rightarrow> added enqueued \<union> tr_requested format offset rds tr)"

lemma tr_run_append:
  "tr_run format offset (rds @ later) tr = do { tr \<leftarrow> tr_run format offset rds tr; tr_run format offset later tr }"
proof (induction rds arbitrary: tr)
  case (Cons rd rds)
  then show ?case by (cases "tr_round format offset rd tr") auto
qed simp

lemma tx_env_append:
  assumes "tr_inv format tr g" "tx_env False format offset (rds @ later) tr g" "tr_run format offset rds tr = Some tr'"
  shows "\<exists>g'. tr_inv format tr' g' \<and> tx_env False format offset later tr' g' \<and>
    gh_expired g - tr_requested format offset rds tr \<subseteq> gh_expired g'"
  using assms
proof (induction rds arbitrary: tr g)
  case (Cons rd rds)
  have e: "round_reads False rd g" "case tr_collect offset (txq_pending (rd_txbrp rd)) (rd_events rd) tr of
        None \<Rightarrow> True | Some (_, tr) \<Rightarrow> link_answers format tr (rd_outcome rd)"
    using Cons.prems(2) by simp_all
  obtain en fin tr1 where one: "tr_round format offset rd tr = Some ((en, fin), tr1)" "tr_inv format tr1 (ghost_after rd (en, fin) g)"
    using tr_round_inv [OF Cons.prems(1) e] by fast
  have "tx_env False format offset (rds @ later) tr1 (ghost_after rd (en, fin) g)" "tr_run format offset rds tr1 = Some tr'"
    using Cons.prems(2,3) one(1) by simp_all
  from Cons.IH [OF one(2) this] obtain g' where g': "tr_inv format tr' g'" "tx_env False format offset later tr' g'"
    "gh_expired (ghost_after rd (en, fin) g) - tr_requested format offset rds tr1 \<subseteq> gh_expired g'" by blast
  have "gh_expired g - tr_requested format offset (rd # rds) tr \<subseteq> gh_expired g'"
    using g'(3) one(1) by (auto simp: ghost_after_def)
  then show ?case using g'(1,2) by blast
qed auto

text \<open>
  C33: A late report makes the task panic. Whenever a deadline passes (\<open>TimerExpired now\<close>) for a frame
  that is in a mailbox which is still pending, the task forgets the frame together with its mailbox
  and runs on; and in whatever later round the peripheral, which finishes a transmission it has begun,
  reports that mailbox nevertheless, before the task has used it again, the round panics: it unwraps
  the priority that the task no longer knows.
\<close>

theorem native_tx_late_report:
  assumes "length elements = 3" "\<forall>e\<in>set elements. length (el_data e) = 16"
    and "tx_env False format offset (before @ rd # later) (tr_new elements) ghost_start"
    and "tr_run format offset before (tr_new elements) = Some tr"
    and "mm_get_by_priority (tr_pending tr) p = Some (Some i)" "nm_index (tr_frames tr) p = Some fr"
    and "i \<in> round_left rd" "rd_outcome rd = TimerExpired now" "f_timestamp fr \<le> now"
    and "i \<notin> tr_requested format offset (rd # later) tr"
    and "(ev, t) \<in> set (rd_events late)" "ev_marker ev = mailbox_into_u8 i"
  shows "\<exists>tr'. tr_run format offset (before @ rd # later) (tr_new elements) = Some tr' \<and> tr_round format offset late tr' = None"
proof -
  obtain g where g: "tr_inv format tr g" "tx_env False format offset (rd # later) tr g"
    using tx_env_append [OF tr_start_inv [OF assms(1,2)] assms(3,4)] by blast
  have e: "round_reads False rd g" "case tr_collect offset (txq_pending (rd_txbrp rd)) (rd_events rd) tr of
        None \<Rightarrow> True | Some (_, tr) \<Rightarrow> link_answers format tr (rd_outcome rd)"
    using g(2) by simp_all
  obtain en fin tr1 where one: "tr_round format offset rd tr = Some ((en, fin), tr1)" "tr_inv format tr1 (ghost_after rd (en, fin) g)"
    "i \<in> dropped fin"
    using tr_round_inv [OF g(1) e] assms(5-9) by fastforce
  have later: "tx_env False format offset later tr1 (ghost_after rd (en, fin) g)" using g(2) one(1) by simp
  obtain tr' where run: "tr_run format offset later tr1 = Some tr'" using tr_run_inv [OF one(2) later] by blast
  obtain g' where g': "tr_inv format tr' g'"
    "gh_expired (ghost_after rd (en, fin) g) - tr_requested format offset later tr1 \<subseteq> gh_expired g'"
    using tx_env_append [OF one(2) _ run, of "[]"] later by auto
  have "i \<in> gh_expired (ghost_after rd (en, fin) g)" using one(3) by (simp add: ghost_after_def)
  moreover have "i \<notin> tr_requested format offset later tr1" using assms(10) one(1) by simp
  ultimately have "i \<in> gh_expired g'" using g'(2) by blast
  moreover have "TxMailboxIdx (ev_marker ev) = i" using assms(12) by (cases i) simp
  ultimately have "tr_round format offset late tr' = None" using tr_round_unknown [OF g'(1)] assms(11) by blast
  moreover have "tr_run format offset (before @ rd # later) (tr_new elements) = Some tr'"
    using assms(4) one(1) run by (simp add: tr_run_append)
  ultimately show ?thesis by blast
qed

text \<open>
  The witness: a frame is put into the first mailbox, its deadline passes while the mailbox is
  pending, the next round finds nothing new, and the one after it the event. But for being late,
  all of this keeps to the manual (\<open>tx_env True\<close>).
\<close>

definition pending_round :: "tx_outcome \<Rightarrow> tx_round" where
  "pending_round outcome = \<lparr> rd_txbrp = 1, rd_events = [], rd_polled = False, rd_txbrp_add = 0, rd_txbrp_cancel = 0, rd_outcome = outcome \<rparr>"

lemma native_tx_late_report_witness:
  "(\<exists>tr'. tr_run FfClassic None ([sample_round (LinkFrame sample_frame), sample_round Unpended] @
        pending_round (TimerExpired 100) # [pending_round Unpended]) (tr_new (replicate 3 sample_elem)) = Some tr' \<and>
      tr_round FfClassic None report_round tr' = None) \<and>
   tx_env True FfClassic None [sample_round (LinkFrame sample_frame), sample_round Unpended,
       pending_round (TimerExpired 100), pending_round Unpended, report_round] (tr_new (replicate 3 sample_elem)) ghost_start"
proof
  let ?start = "tr_new (replicate 3 sample_elem)" and ?rd = "pending_round (TimerExpired 100)"
  let ?before = "[sample_round (LinkFrame sample_frame), sample_round Unpended]" and ?later = "[pending_round Unpended]"
  define tr where "tr = the (tr_run FfClassic None ?before ?start)"
  have "map_option (\<lambda>_. ()) (tr_run FfClassic None ?before ?start) = Some ()" by code_simp
  then have run: "tr_run FfClassic None ?before ?start = Some tr" unfolding tr_def by auto
  have elements: "length (replicate 3 sample_elem) = 3" "\<forall>e\<in>set (replicate 3 sample_elem). length (el_data e) = 16"
    by (simp_all add: sample_elem_def)
  have env: "tx_env False FfClassic None (?before @ ?rd # ?later) ?start ghost_start" by code_simp
  have "mm_get_by_priority (tr_pending tr) (h_priority (f_header sample_frame)) = Some (Some (TxMailboxIdx 0))"
    unfolding tr_def by code_simp
  moreover have "nm_index (tr_frames tr) (h_priority (f_header sample_frame)) = Some sample_frame"
    unfolding tr_def by code_simp
  moreover have "TxMailboxIdx 0 \<in> round_left ?rd" by code_simp
  moreover have "rd_outcome ?rd = TimerExpired 100" by (simp add: pending_round_def)
  moreover have "f_timestamp sample_frame \<le> 100" by code_simp
  moreover have "TxMailboxIdx 0 \<notin> tr_requested FfClassic None (?rd # ?later) tr"
    unfolding tr_def by code_simp
  moreover have "(\<lparr> ev_marker = 0, ev_timestamp = 7 \<rparr>, 4) \<in> set (rd_events report_round)" by (simp add: report_round_def)
  ultimately show "\<exists>tr'. tr_run FfClassic None (?before @ ?rd # ?later) ?start = Some tr' \<and>
      tr_round FfClassic None report_round tr' = None"
    by (rule native_tx_late_report [OF elements env run]) simp
  show "tx_env True FfClassic None [sample_round (LinkFrame sample_frame), sample_round Unpended,
       ?rd, pending_round Unpended, report_round] ?start ghost_start"
    by code_simp
qed

end
