(* ===== verification/Em_Driver.thy ===== *)
theory Em_Driver
  imports Native_Filters Native_Driver
begin

text \<open>
  The driver over \<open>embassy-stm32\<close>, \<open>emcyphal-stm32-embassy/src/driver.rs\<close> and \<open>utils.rs\<close>. Its
  identifiers are those of the native driver: \<open>format.rs\<close> and \<open>make_can_id\<close> are the same text, but
  for \<open>decode_can_id_priority\<close>. Of the crate \<open>embassy_stm32::can\<close> the model has a parameter: its
  constructor of frames and their identifier; what its calls answer is an argument of the rounds.
  The queues of \<open>heapless\<close> are lists of a bounded length.
\<close>

section \<open>Containers\<close>

definition dq_push_front :: "nat \<Rightarrow> 'a list \<Rightarrow> 'a \<Rightarrow> ('a + unit) \<times> 'a list" where
  "dq_push_front n q item = (if length q < n then (Inr (), item # q) else (Inl item, q))"

definition dq_push_back :: "nat \<Rightarrow> 'a list \<Rightarrow> 'a \<Rightarrow> ('a + unit) \<times> 'a list" where
  "dq_push_back n q item = (if length q < n then (Inr (), q @ [item]) else (Inl item, q))"

definition dq_pop_front :: "'a list \<Rightarrow> 'a option \<times> 'a list" where
  "dq_pop_front q = (case q of [] \<Rightarrow> (None, []) | x # q \<Rightarrow> (Some x, q))"

definition dq_pop_back :: "'a list \<Rightarrow> 'a option \<times> 'a list" where
  "dq_pop_back q = (if q = [] then (None, []) else (Some (last q), butlast q))"

text \<open>\<open>PriorityDeque<T, N>\<close>.\<close>

record 'a priority_deque =
  pd_queues :: "'a list list"
  pd_set :: priority_set

definition pd_default :: "'a priority_deque" where
  "pd_default = \<lparr> pd_queues = replicate NATIVE_LEVEL_COUNT [], pd_set = ps_NONE \<rparr>"

definition pd_priorities :: "'a priority_deque \<Rightarrow> priority_set" where
  "pd_priorities d = pd_set d"

definition pd_front :: "'a priority_deque \<Rightarrow> priority \<Rightarrow> 'a option exec" where
  "pd_front d priority = do { q \<leftarrow> arr_get (pd_queues d) (level priority); ret (fst (dq_pop_front q)) }"

definition pd_pop_front :: "'a priority_deque \<Rightarrow> priority \<Rightarrow> ('a option \<times> 'a priority_deque) exec" where
  "pd_pop_front d priority = do {
     q \<leftarrow> arr_get (pd_queues d) (level priority);
     let (v, q) = dq_pop_front q;
     queues \<leftarrow> arr_set (pd_queues d) (level priority) q;
     ret (v, \<lparr> pd_queues = queues, pd_set = if q = [] then ps_remove (pd_set d) priority else pd_set d \<rparr>)
   }"

definition pd_pop_back :: "'a priority_deque \<Rightarrow> priority \<Rightarrow> ('a option \<times> 'a priority_deque) exec" where
  "pd_pop_back d priority = do {
     q \<leftarrow> arr_get (pd_queues d) (level priority);
     let (v, q) = dq_pop_back q;
     queues \<leftarrow> arr_set (pd_queues d) (level priority) q;
     ret (v, \<lparr> pd_queues = queues, pd_set = if q = [] then ps_remove (pd_set d) priority else pd_set d \<rparr>)
   }"

definition pd_push_front :: "nat \<Rightarrow> 'a priority_deque \<Rightarrow> priority \<Rightarrow> 'a \<Rightarrow> (('a + unit) \<times> 'a priority_deque) exec" where
  "pd_push_front n d priority item = do {
     q \<leftarrow> arr_get (pd_queues d) (level priority);
     let (res, q) = dq_push_front n q item;
     queues \<leftarrow> arr_set (pd_queues d) (level priority) q;
     ret (res, \<lparr> pd_queues = queues, pd_set = ps_insert (pd_set d) priority \<rparr>)
   }"

definition pd_push_back :: "nat \<Rightarrow> 'a priority_deque \<Rightarrow> priority \<Rightarrow> 'a \<Rightarrow> (('a + unit) \<times> 'a priority_deque) exec" where
  "pd_push_back n d priority item = do {
     q \<leftarrow> arr_get (pd_queues d) (level priority);
     let (res, q) = dq_push_back n q item;
     queues \<leftarrow> arr_set (pd_queues d) (level priority) q;
     ret (res, \<lparr> pd_queues = queues, pd_set = ps_insert (pd_set d) priority \<rparr>)
   }"

text \<open>\<open>PriorityArray<T>\<close>: one value of each priority.\<close>

definition pv_repeat :: "'a \<Rightarrow> 'a list" where
  "pv_repeat val = replicate NATIVE_LEVEL_COUNT val"

definition pv_index :: "'a list \<Rightarrow> priority \<Rightarrow> 'a exec" where
  "pv_index a p = arr_get a (level p)"

definition pv_index_set :: "'a list \<Rightarrow> priority \<Rightarrow> 'a \<Rightarrow> 'a list exec" where
  "pv_index_set a p v = arr_set a (level p) v"

section \<open>Filters\<close>

text \<open>
  The extended filters that the task has set, by their slots: the pattern and the mask of a
  \<open>BitMask\<close> filter; \<open>slots\<close> is the constant \<open>SUBJECT_SLOT_COUNT\<close> of the peripheral.
\<close>

record em_filters =
  er_can :: "nat \<rightharpoonup> u32 \<times> u32"
  er_subjects :: "subject_id option list"
  er_destination :: "node_id option"

datatype no_free_slots = NoFreeSlots

definition er_new :: "nat \<Rightarrow> em_filters" where
  "er_new slots = \<lparr> er_can = Map.empty, er_subjects = replicate slots None, er_destination = None \<rparr>"

definition er_set_subject_filter :: "nat \<Rightarrow> subject_id option \<Rightarrow> em_filters \<Rightarrow> em_filters" where
  "er_set_subject_filter slot val er = er\<lparr> er_can := (er_can er)(slot \<mapsto> (make_msg_filter_pattern val, MSG_FILTER_MASK)) \<rparr>"

definition er_set_service_filter :: "nat \<Rightarrow> node_id option \<Rightarrow> em_filters \<Rightarrow> em_filters" where
  "er_set_service_filter slots val er = er\<lparr> er_can := (er_can er)(slots \<mapsto> (make_srv_filter_pattern val, SRV_FILTER_MASK)) \<rparr>"

definition er_add_subject :: "subject_id \<Rightarrow> em_filters \<Rightarrow> ((no_free_slots + unit) \<times> em_filters) exec" where
  "er_add_subject subject er = (case position_none (er_subjects er) of
     None \<Rightarrow> ret (Inl NoFreeSlots, er)
   | Some idx \<Rightarrow> do {
       subjects \<leftarrow> arr_set (er_subjects er) idx (Some subject);
       slot \<leftarrow> u8_of idx;
       ret (Inr (), er_set_subject_filter slot (Some subject) (er\<lparr> er_subjects := subjects \<rparr>))
     })"

text \<open>The derived order of \<open>Option\<close>: \<open>None\<close> is below every value.\<close>

fun option_le :: "'a :: linorder option \<Rightarrow> 'a option \<Rightarrow> bool" where
  "option_le None _ = True"
| "option_le (Some a) None = False"
| "option_le (Some a) (Some b) = (a \<le> b)"

definition er_remove_subject_range :: "nat \<Rightarrow> subject_id \<Rightarrow> subject_id \<Rightarrow> em_filters \<Rightarrow> em_filters exec" where
  "er_remove_subject_range slots a b = for_each (\<lambda>i er. do {
     val \<leftarrow> arr_get (er_subjects er) i;
     if option_le (Some a) val \<and> option_le val (Some b) then do {
       subjects \<leftarrow> arr_set (er_subjects er) i None;
       slot \<leftarrow> u8_of i;
       ret (er_set_subject_filter slot None (er\<lparr> er_subjects := subjects \<rparr>))
     } else ret er
   }) [0..<slots]"

definition er_add_destination :: "nat \<Rightarrow> node_id \<Rightarrow> em_filters \<Rightarrow> (no_free_slots + unit) \<times> em_filters" where
  "er_add_destination slots node er =
     (if er_destination er \<noteq> None then (Inl NoFreeSlots, er)
      else (Inr (), er_set_service_filter slots (Some node) (er\<lparr> er_destination := Some node \<rparr>)))"

definition er_remove_destination_range :: "nat \<Rightarrow> node_id \<Rightarrow> node_id \<Rightarrow> em_filters \<Rightarrow> em_filters" where
  "er_remove_destination_range slots a b er =
     (if (case er_destination er of None \<Rightarrow> False | Some val \<Rightarrow> a \<le> val \<and> val \<le> b)
      then er_set_service_filter slots None (er\<lparr> er_destination := None \<rparr>) else er)"

definition er_step :: "nat \<Rightarrow> filter_update \<Rightarrow> em_filters \<Rightarrow> em_filters exec" where
  "er_step slots u er = (case u of
     AddSubject subject \<Rightarrow> do { (res, er) \<leftarrow> er_add_subject subject er; assert_that (res = Inr ()); ret er }
   | RemoveSubjectRange a b \<Rightarrow> er_remove_subject_range slots a b er
   | AddDestination node \<Rightarrow> do { let (res, er) = er_add_destination slots node er; assert_that (res = Inr ()); ret er }
   | RemoveDestinationRange a b \<Rightarrow> ret (er_remove_destination_range slots a b er))"

section \<open>Frames of the peripheral\<close>

definition em_convert_raw_header :: "u32 \<Rightarrow> header option" where
  "em_convert_raw_header can_id = (case mi_from_can_id can_id of
     Some msg_id \<Rightarrow> Some \<lparr> h_priority = mi_priority msg_id, h_data_spec = Message (mi_subject msg_id),
       h_source = if mi_anonymous msg_id then None else Some (mi_source msg_id), h_destination = None \<rparr>
   | None \<Rightarrow> (case si_from_can_id can_id of
       Some srv_id \<Rightarrow> Some \<lparr> h_priority = si_priority srv_id,
         h_data_spec = if si_request srv_id then Request (si_service srv_id) else Response (si_service srv_id),
         h_source = Some (si_source srv_id), h_destination = Some (si_destination srv_id) \<rparr>
     | None \<Rightarrow> None))"

text \<open>What a received envelope holds: the extended identifier, if it is one, and the bytes.\<close>

record em_envelope =
  ee_extended_id :: "u32 option"
  ee_fdcan :: bool
  ee_len :: u8
  ee_data :: "u8 list"
  ee_ts :: instant

definition em_convert_raw_envelope :: "em_envelope \<Rightarrow> frame option exec" where
  "em_convert_raw_envelope envelope = (case ee_extended_id envelope of
     None \<Rightarrow> ret None
   | Some extended_id \<Rightarrow> (case em_convert_raw_header extended_id of
       None \<Rightarrow> ret None
     | Some header \<Rightarrow> do {
         bytes \<leftarrow> slice (ee_data envelope) 0 (unat (ee_len envelope));
         data \<leftarrow> (case data_new bytes of Inr data \<Rightarrow> ret data | Inl _ \<Rightarrow> panic);
         ret (Some \<lparr> f_header = header, f_data = data, f_timestamp = ee_ts envelope, f_loop_back = False \<rparr>)
       }))"

definition em_fetch_frame :: "frame_format \<Rightarrow> em_envelope option \<Rightarrow> frame option exec" where
  "em_fetch_frame format read = (case read of
     None \<Rightarrow> ret None
   | Some raw_envelope \<Rightarrow> if ee_fdcan raw_envelope \<and> \<not> ff_fd format then ret None
       else em_convert_raw_envelope raw_envelope)"

text \<open>
  The frames of \<open>embassy_stm32::can\<close>: \<open>cf_new\<close> makes one of an extended identifier, a length, the
  flags FD and BRS and its bytes; \<open>cf_extended_id\<close> is the extended identifier of a frame.
\<close>

record 'f can_frames =
  cf_new :: "u32 \<Rightarrow> u8 \<Rightarrow> bool \<Rightarrow> bool \<Rightarrow> u8 list \<Rightarrow> 'f option"
  cf_extended_id :: "'f \<Rightarrow> u32 option"

definition decode_can_id_priority :: "u32 \<Rightarrow> priority" where
  "decode_can_id_priority can_id = priority_from_u8_truncating (ucast (drop_bit PRIORITY_OFFSET can_id))"

definition em_raw_frame_priority :: "'f can_frames \<Rightarrow> 'f \<Rightarrow> priority option" where
  "em_raw_frame_priority C f = map_option decode_can_id_priority (cf_extended_id C f)"

text \<open>\<open>ExtendedId::new\<close> accepts 29 bits.\<close>

definition extended_id_new :: "u32 \<Rightarrow> u32 option" where
  "extended_id_new raw = (if raw \<le> 0x1FFFFFFF then Some raw else None)"

definition em_make_raw_frame :: "'f can_frames \<Rightarrow> frame \<Rightarrow> frame_format \<Rightarrow> (invalid_frame_header + 'f) exec" where
  "em_make_raw_frame C frame format = (case make_can_id (f_header frame) of
     Inl e \<Rightarrow> ret (Inl e)
   | Inr can_id \<Rightarrow> do {
       extended_id \<leftarrow> unwrap (extended_id_new can_id);
       len \<leftarrow> u8_of (length (data_deref (f_data frame)));
       raw \<leftarrow> unwrap (if ff_fd format
         then cf_new C extended_id (of_nat len) True (ff_bit_rate_switch format) (data_deref (f_data frame))
         else cf_new C extended_id (of_nat len) False False (data_deref (f_data frame)));
       ret (Inr raw)
     })"

section \<open>The transmit task\<close>

definition TX_FIFO_DEPTH :: nat where
  "TX_FIFO_DEPTH = 3"

definition PREEMPTION_DEPTH :: nat where
  "PREEMPTION_DEPTH = TX_FIFO_DEPTH + 1"

definition INSTANT_MAX :: instant where
  "INSTANT_MAX = 0xFFFFFFFFFFFFFFFF"

record 'f em_tx =
  et_frames :: "'f priority_deque"
  et_deadlines :: "instant list"

definition et_new :: "'f em_tx" where
  "et_new = \<lparr> et_frames = pd_default, et_deadlines = pv_repeat INSTANT_MAX \<rparr>"

definition et_next_deadline :: "'f em_tx \<Rightarrow> instant exec" where
  "et_next_deadline et = unwrap (if et_deadlines et = [] then None else Some (Min (set (et_deadlines et))))"

text \<open>
  How a round ends: the timer at an instant, a frame of the link, or a frame that the peripheral
  took, with the one that had to make room for it.
\<close>

datatype 'f em_outcome = EmExpired instant | EmFetched frame | EmWritten "'f option"

definition et_expire :: "instant \<Rightarrow> priority \<Rightarrow> 'f em_tx \<Rightarrow> 'f em_tx exec" where
  "et_expire now p et = do {
     deadline \<leftarrow> pv_index (et_deadlines et) p;
     if now > deadline then do {
       deadlines \<leftarrow> pv_index_set (et_deadlines et) p INSTANT_MAX;
       (removed, frames) \<leftarrow> pd_pop_back (et_frames et) p;
       _ \<leftarrow> unwrap removed;
       ret \<lparr> et_frames = frames, et_deadlines = deadlines \<rparr>
     } else ret et
   }"

definition et_round :: "'f can_frames \<Rightarrow> frame_format \<Rightarrow> 'f em_outcome \<Rightarrow> 'f em_tx \<Rightarrow> ('f option \<times> 'f em_tx) exec" where
  "et_round C format outcome et = do {
     let priorities = pd_priorities (et_frames et);
     _ \<leftarrow> et_next_deadline et;
     (case outcome of
        EmExpired now \<Rightarrow> do { et \<leftarrow> for_each (et_expire now) (ps_into_iter ps_ALL) et; ret (None, et) }
      | EmFetched frame \<Rightarrow>
          if h_source (f_header frame) \<noteq> None then do {
            let priority = h_priority (f_header frame);
            made \<leftarrow> em_make_raw_frame C frame format;
            raw_frame \<leftarrow> (case made of Inr raw_frame \<Rightarrow> ret raw_frame | Inl _ \<Rightarrow> panic);
            (res, frames) \<leftarrow> pd_push_back PREEMPTION_DEPTH (et_frames et) priority raw_frame;
            assert_that (isl res = False);
            deadlines \<leftarrow> pv_index_set (et_deadlines et) priority (f_timestamp frame);
            ret (None, \<lparr> et_frames = frames, et_deadlines = deadlines \<rparr>)
          } else ret (None, et)
      | EmWritten preempted_frame \<Rightarrow> (case ps_first priorities of
          None \<Rightarrow> ret (None, et)
        | Some delivered_priority \<Rightarrow> do {
            front \<leftarrow> pd_front (et_frames et) delivered_priority;
            written \<leftarrow> unwrap front;
            (popped, frames) \<leftarrow> pd_pop_front (et_frames et) delivered_priority;
            _ \<leftarrow> unwrap popped;
            deadlines \<leftarrow> (if \<not> ps_contains (pd_priorities frames) delivered_priority
              then pv_index_set (et_deadlines et) delivered_priority INSTANT_MAX else ret (et_deadlines et));
            frames \<leftarrow> (case preempted_frame of
                None \<Rightarrow> ret frames
              | Some frame \<Rightarrow> do {
                  p \<leftarrow> unwrap (em_raw_frame_priority C frame);
                  (res, frames) \<leftarrow> pd_push_front PREEMPTION_DEPTH frames p frame;
                  assert_that (isl res = False);
                  ret frames
                });
            ret (Some written, \<lparr> et_frames = frames, et_deadlines = deadlines \<rparr>)
          }))
   }"

end
