(* ===== verification/Em_Specs.thy ===== *)
theory Em_Specs
  imports Em_Driver
begin

text \<open>
  The driver over \<open>embassy-stm32\<close>: what the filters that its task sets let pass.
\<close>

section \<open>Filters\<close>

text \<open>
  A \<open>BitMask\<close> filter, as the crate documents it, compares an identifier with its pattern under its
  mask. A slot that the task has not set is disabled, as the peripheral starts.
\<close>

type_synonym bit_mask = "u32 \<times> u32"

definition bit_mask_law :: "(bit_mask \<Rightarrow> u32 \<Rightarrow> bool) \<Rightarrow> bool" where
  "bit_mask_law passes \<longleftrightarrow> (\<forall>pattern m x. passes (pattern, m) x = (x AND m = pattern AND m))"

definition em_slot_passes :: "(bit_mask \<Rightarrow> u32 \<Rightarrow> bool) \<Rightarrow> em_filters \<Rightarrow> u32 \<Rightarrow> nat \<Rightarrow> bool" where
  "em_slot_passes passes er x i = (case er_can er i of None \<Rightarrow> False | Some entry \<Rightarrow> passes entry x)"

definition em_message_passes :: "(bit_mask \<Rightarrow> u32 \<Rightarrow> bool) \<Rightarrow> nat \<Rightarrow> em_filters \<Rightarrow> u32 \<Rightarrow> bool" where
  "em_message_passes passes slots er x \<longleftrightarrow> (\<exists>i < slots. em_slot_passes passes er x i)"

text \<open>The subject a received identifier is a message of.\<close>

definition message_subject :: "u32 \<Rightarrow> subject_id option" where
  "message_subject x = (case load_msg_frame_header x of
     Some h \<Rightarrow> (case h_data_spec h of Message s \<Rightarrow> Some s | _ \<Rightarrow> None) | None \<Rightarrow> None)"

lemma message_subject_iff:
  "(case load_msg_frame_header x of None \<Rightarrow> False | Some h \<Rightarrow> h_data_spec h = Message s) \<longleftrightarrow> message_subject x = Some s"
  by (auto simp: message_subject_def split: option.splits data_specifier.splits)

lemma msg_pattern_masked:
  "subject_id_wf s \<Longrightarrow> make_msg_filter_pattern (Some s) AND MSG_FILTER_MASK = make_msg_filter_pattern (Some s)"
  "make_msg_filter_pattern None AND MSG_FILTER_MASK = make_msg_filter_pattern (Some (SubjectId 0))"
proof -
  show "make_msg_filter_pattern (Some s) AND MSG_FILTER_MASK = make_msg_filter_pattern (Some s)" if "subject_id_wf s"
  proof -
    let ?v = "ucast (subject_id_into_u16 s) :: u32"
    have "?v AND mask 13 = ?v" by (rule id_fits(2) [OF that])
    then have bits: "bit (push_bit 8 ?v) n \<Longrightarrow> 8 \<le> n \<and> n < 21" for n using bit_value_field [of ?v 13 8 n] by simp
    have "make_msg_filter_pattern (Some s) = push_bit 8 ?v"
      by (simp add: make_msg_filter_pattern_def id_layout offset_defs)
    then show ?thesis using bits by (intro bit_word_eqI) (auto simp: bit_and_iff bit_filter_masks)
  qed
  have "make_msg_filter_pattern (Some (SubjectId 0)) = 0"
    by (simp add: make_msg_filter_pattern_def id_layout)
  moreover have "make_msg_filter_pattern None AND MSG_FILTER_MASK = 0"
    by (rule bit_word_eqI) (auto simp: make_msg_filter_pattern_def bit_and_iff bit_not_iff)
  ultimately show "make_msg_filter_pattern None AND MSG_FILTER_MASK = make_msg_filter_pattern (Some (SubjectId 0))" by simp
qed

lemma subject_0_wf: "subject_id_wf (SubjectId 0)"
  by (simp add: subject_id_wf_def)

lemma slot_passes:
  assumes "bit_mask_law passes"
  shows "subject_id_wf s \<Longrightarrow> passes (make_msg_filter_pattern (Some s), MSG_FILTER_MASK) x \<longleftrightarrow> message_subject x = Some s"
    "passes (make_msg_filter_pattern None, MSG_FILTER_MASK) x \<longleftrightarrow> message_subject x = Some (SubjectId 0)"
  using assms message_pattern_accepts [of s x] message_pattern_accepts [OF subject_0_wf, of x]
  by (simp_all add: bit_mask_law_def msg_pattern_masked message_subject_iff)

text \<open>The node a received identifier is a service frame for.\<close>

definition service_destination :: "u32 \<Rightarrow> node_id option" where
  "service_destination x = (case load_srv_frame_header x of Some h \<Rightarrow> h_destination h | None \<Rightarrow> None)"

lemma service_slot_passes:
  assumes "bit_mask_law passes"
  shows "node_id_wf d \<Longrightarrow> passes (make_srv_filter_pattern (Some d), SRV_FILTER_MASK) x \<longleftrightarrow> service_destination x = Some d"
    "passes (make_srv_filter_pattern None, SRV_FILTER_MASK) x \<Longrightarrow> service_destination x = None"
proof -
  have both: "(x AND MSG_FILTER_MASK) AND SRV_FILTER_MASK = x AND SRV_FILTER_MASK"
    by (rule bit_word_eqI) (auto simp: bit_and_iff bit_filter_masks)
  show "node_id_wf d \<Longrightarrow> passes (make_srv_filter_pattern (Some d), SRV_FILTER_MASK) x \<longleftrightarrow> service_destination x = Some d"
    using assms service_pattern_accepts [of d x]
    by (simp add: bit_mask_law_def both service_destination_def split: option.splits)
  show "passes (make_srv_filter_pattern None, SRV_FILTER_MASK) x \<Longrightarrow> service_destination x = None"
    using assms service_pattern_none [of x] by (simp add: bit_mask_law_def both service_destination_def)
qed

text \<open>The filters are those of the subjects; a slot that was freed has the pattern of no subject.\<close>

definition er_slot_ok :: "(nat \<rightharpoonup> u32 \<times> u32) \<Rightarrow> nat \<Rightarrow> subject_id option \<Rightarrow> bool" where
  "er_slot_ok can i v \<longleftrightarrow> (case v of
     Some s \<Rightarrow> subject_id_wf s \<and> can i = Some (make_msg_filter_pattern (Some s), MSG_FILTER_MASK)
   | None \<Rightarrow> can i \<in> {None, Some (make_msg_filter_pattern None, MSG_FILTER_MASK)})"

lemma er_slot_other [simp]: "i \<noteq> k \<Longrightarrow> er_slot_ok (can(k := e)) i v = er_slot_ok can i v"
  by (simp add: er_slot_ok_def split: option.splits)

lemma er_slot_set:
  "subject_id_wf s \<Longrightarrow> er_slot_ok (can(k \<mapsto> (make_msg_filter_pattern (Some s), MSG_FILTER_MASK))) k (Some s)"
  "er_slot_ok (can(k \<mapsto> (make_msg_filter_pattern None, MSG_FILTER_MASK))) k None"
  by (simp_all add: er_slot_ok_def)

definition er_destination_ok :: "bit_mask option \<Rightarrow> node_id option \<Rightarrow> bool" where
  "er_destination_ok entry v \<longleftrightarrow> (case v of
     Some d \<Rightarrow> node_id_wf d \<and> entry = Some (make_srv_filter_pattern (Some d), SRV_FILTER_MASK)
   | None \<Rightarrow> entry \<in> {None, Some (make_srv_filter_pattern None, SRV_FILTER_MASK)})"

definition er_rep :: "nat \<Rightarrow> em_filters \<Rightarrow> node_filter \<Rightarrow> bool" where
  "er_rep slots er = (\<lambda>(F, D). length (er_subjects er) = slots \<and> slots < 256 \<and>
     (\<forall>i < slots. er_slot_ok (er_can er) i (er_subjects er ! i)) \<and> er_destination_ok (er_can er slots) (er_destination er) \<and>
     F = {s. Some s \<in> set (er_subjects er)} \<and> D = set_option (er_destination er) \<and>
     (\<forall>i j s. i < slots \<longrightarrow> j < slots \<longrightarrow> er_subjects er ! i = Some s \<longrightarrow> er_subjects er ! j = Some s \<longrightarrow> i = j))"

lemma er_repI:
  assumes "length (er_subjects er) = slots" "slots < 256" "\<And>i. i < slots \<Longrightarrow> er_slot_ok (er_can er) i (er_subjects er ! i)"
    "er_destination_ok (er_can er slots) (er_destination er)"
    "F = {s. Some s \<in> set (er_subjects er)}" "D = set_option (er_destination er)"
    "\<And>i j s. i < slots \<Longrightarrow> j < slots \<Longrightarrow> er_subjects er ! i = Some s \<Longrightarrow> er_subjects er ! j = Some s \<Longrightarrow> i = j"
  shows "er_rep slots er (F, D)"
  using assms unfolding er_rep_def by blast

lemma er_repD:
  assumes "er_rep slots er (F, D)"
  shows "length (er_subjects er) = slots" "slots < 256" "i < slots \<Longrightarrow> er_slot_ok (er_can er) i (er_subjects er ! i)"
    "F = {s. Some s \<in> set (er_subjects er)}" "D = set_option (er_destination er)"
    "i < slots \<Longrightarrow> j < slots \<Longrightarrow> er_subjects er ! i = Some s \<Longrightarrow> er_subjects er ! j = Some s \<Longrightarrow> i = j"
    "er_destination_ok (er_can er slots) (er_destination er)"
  using assms unfolding er_rep_def by blast+

definition freed_slot :: "nat \<Rightarrow> em_filters \<Rightarrow> bool" where
  "freed_slot slots er \<longleftrightarrow> (\<exists>i < slots. er_subjects er ! i = None \<and> er_can er i \<noteq> None)"

lemma er_passes:
  assumes law: "bit_mask_law passes" and rep: "er_rep slots er (F, D)"
  shows "em_message_passes passes slots er x \<longleftrightarrow>
    (\<exists>s. message_subject x = Some s \<and> (s \<in> F \<or> s = SubjectId 0 \<and> freed_slot slots er))"
proof -
  note r = er_repD(1,4) [OF rep]
  have mem: "(\<exists>i < slots. er_subjects er ! i = Some s) \<longleftrightarrow> s \<in> F" for s
    using r by (auto simp: in_set_conv_nth)
  have one: "em_slot_passes passes er x i \<longleftrightarrow>
      (case er_subjects er ! i of Some s \<Rightarrow> message_subject x = Some s
       | None \<Rightarrow> er_can er i \<noteq> None \<and> message_subject x = Some (SubjectId 0))" if "i < slots" for i
    using er_repD(3) [OF rep that] slot_passes(1) [OF law, of _ x] slot_passes(2) [OF law, of x]
    by (cases "er_subjects er ! i") (auto simp: er_slot_ok_def em_slot_passes_def)
  have "em_message_passes passes slots er x \<longleftrightarrow> (\<exists>i < slots. case er_subjects er ! i of Some s \<Rightarrow> message_subject x = Some s
      | None \<Rightarrow> er_can er i \<noteq> None \<and> message_subject x = Some (SubjectId 0))"
    using one by (auto simp: em_message_passes_def)
  also have "\<dots> \<longleftrightarrow> (\<exists>s. message_subject x = Some s \<and> ((\<exists>i < slots. er_subjects er ! i = Some s) \<or> s = SubjectId 0 \<and> freed_slot slots er))"
    by (auto simp: freed_slot_def split: option.splits) (metis option.exhaust)+
  finally show ?thesis using mem by simp
qed

lemma er_service_passes:
  assumes law: "bit_mask_law passes" and rep: "er_rep slots er (F, D)"
  shows "em_slot_passes passes er x slots \<and> service_destination x \<noteq> None \<longleftrightarrow> (\<exists>d \<in> D. service_destination x = Some d)"
  using er_repD(5,7) [OF rep] service_slot_passes(1) [OF law, of _ x] service_slot_passes(2) [OF law, of x]
  by (cases "er_destination er") (auto simp: er_destination_ok_def em_slot_passes_def)

lemma er_new_rep: "slots < 256 \<Longrightarrow> er_rep slots (er_new slots) ({}, {})"
  by (rule er_repI) (auto simp: er_slot_ok_def er_destination_ok_def er_new_def)

lemma er_add_subject_rep:
  assumes rep: "er_rep slots er (F, D)" and s: "subject_id_wf s" "s \<notin> F" "card F < slots"
  shows "\<exists>er'. er_add_subject s er = Some (Inr (), er') \<and> er_rep slots er' (insert s F, D)"
proof -
  let ?xs = "er_subjects er"
  note r = er_repD(1,2,4) [OF rep]
  have "None \<in> set ?xs"
  proof (rule ccontr)
    assume "None \<notin> set ?xs"
    from free_slot [OF this] er_repD(6) [OF rep] have "card F = slots" unfolding r(3) r(1) by blast
    then show False using s(3) by simp
  qed
  then obtain k where k: "position_none ?xs = Some k"
    by (cases "position_none ?xs") (auto simp: position_none_def find_None_iff in_set_conv_nth)
  then have at: "k < slots" "?xs ! k = None" using r(1) by (auto simp: position_none_def find_Some_iff)
  have out: "i < slots \<Longrightarrow> ?xs ! i \<noteq> Some s" for i using s(2) r(1,3) nth_mem by fastforce
  let ?er = "er_set_subject_filter k (Some s) (er\<lparr> er_subjects := ?xs[k := Some s] \<rparr>)"
  have run: "er_add_subject s er = Some (Inr (), ?er)" using k at(1) r(1,2) by (simp add: er_add_subject_def)
  have "Some t \<in> set (?xs[k := Some s]) \<longleftrightarrow> t = s \<or> Some t \<in> set ?xs" for t
    using at r(1) by (auto simp: in_set_conv_nth nth_list_update) (metis option.distinct(1))+
  then have F: "insert s F = {t. Some t \<in> set (?xs[k := Some s])}" unfolding r(3) by blast
  have "er_rep slots ?er (insert s F, D)"
  proof (rule er_repI)
    show "er_slot_ok (er_can ?er) i (er_subjects ?er ! i)" if "i < slots" for i
      using er_repD(3) [OF rep that] er_slot_set(1) [OF s(1)] that at(1) r(1)
      by (cases "i = k") (simp_all add: er_set_subject_filter_def)
    show "i = j" if "i < slots" "j < slots" "er_subjects ?er ! i = Some t" "er_subjects ?er ! j = Some t" for i j t
      using that er_repD(6) [OF rep] out at r(1) by (auto simp: er_set_subject_filter_def nth_list_update split: if_splits)
    show "insert s F = {t. Some t \<in> set (er_subjects ?er)}" using F by (simp add: er_set_subject_filter_def)
  qed (use r(1,2) at(1) er_repD(5,7) [OF rep] in \<open>simp_all add: er_set_subject_filter_def\<close>)
  then show ?thesis using run by blast
qed

lemma for_each_upt_Suc: "for_each f [0..<n] s = Some s1 \<Longrightarrow> f n s1 = Some s2 \<Longrightarrow> for_each f [0..<Suc n] s = Some s2"
  by (simp add: for_each_append)

lemma option_le_range: "option_le (Some a) v \<and> option_le v (Some b) \<longleftrightarrow> (\<exists>s. v = Some s \<and> a \<le> s \<and> s \<le> b)"
  by (cases v) auto

lemma er_remove_range_rep:
  assumes rep: "er_rep slots er (F, D)" and n: "n \<le> slots"
  shows "\<exists>er'. for_each (\<lambda>i er. do {
     val \<leftarrow> arr_get (er_subjects er) i;
     if option_le (Some a) val \<and> option_le val (Some b) then do {
       subjects \<leftarrow> arr_set (er_subjects er) i None;
       slot \<leftarrow> u8_of i;
       ret (er_set_subject_filter slot None (er\<lparr> er_subjects := subjects \<rparr>))
     } else ret er
   }) [0..<n] er = Some er' \<and>
   er_rep slots er' ({s. \<exists>i < slots. er_subjects er ! i = Some s \<and> \<not> (i < n \<and> a \<le> s \<and> s \<le> b)}, D) \<and>
   (\<forall>i < slots. er_subjects er' ! i = (if i < n \<and> (\<exists>s. er_subjects er ! i = Some s \<and> a \<le> s \<and> s \<le> b) then None else er_subjects er ! i))"
  (is "\<exists>er'. for_each ?f _ _ = _ \<and> _")
  using n
proof (induction n)
  case 0
  have "F = {s. \<exists>i < slots. er_subjects er ! i = Some s}" using rep by (auto simp: er_rep_def in_set_conv_nth)
  then show ?case using rep by simp
next
  case (Suc n)
  then obtain er1 where one: "for_each ?f [0..<n] er = Some er1"
    "er_rep slots er1 ({s. \<exists>i < slots. er_subjects er ! i = Some s \<and> \<not> (i < n \<and> a \<le> s \<and> s \<le> b)}, D)"
    "\<forall>i < slots. er_subjects er1 ! i = (if i < n \<and> (\<exists>s. er_subjects er ! i = Some s \<and> a \<le> s \<and> s \<le> b) then None else er_subjects er ! i)"
    by auto
  note len = er_repD(1,2) [OF one(2)]
  have here: "er_subjects er1 ! n = er_subjects er ! n" using one(3) Suc.prems by simp
  show ?case
  proof (cases "\<exists>s. er_subjects er ! n = Some s \<and> a \<le> s \<and> s \<le> b")
    case True
    let ?er = "er_set_subject_filter n None (er1\<lparr> er_subjects := (er_subjects er1)[n := None] \<rparr>)"
    have "?f n er1 = Some ?er" using True here len Suc.prems by (auto simp: option_le_range arr_get_def arr_set_def)
    then have run: "for_each ?f [0..<Suc n] er = Some ?er" by (rule for_each_upt_Suc [OF one(1)])
    have now: "er_subjects ?er ! i = (if i < Suc n \<and> (\<exists>s. er_subjects er ! i = Some s \<and> a \<le> s \<and> s \<le> b) then None else er_subjects er ! i)"
      if "i < slots" for i
      using one(3) that True len by (cases "i = n") (auto simp: er_set_subject_filter_def less_Suc_eq)
    have "er_rep slots ?er ({s. \<exists>i < slots. er_subjects er ! i = Some s \<and> \<not> (i < Suc n \<and> a \<le> s \<and> s \<le> b)}, D)"
    proof (rule er_repI)
      show size: "length (er_subjects ?er) = slots" using len by (simp add: er_set_subject_filter_def)
      have "Some s \<in> set (er_subjects ?er) \<longleftrightarrow> (\<exists>i < slots. er_subjects ?er ! i = Some s)" for s
        using size by (auto simp: in_set_conv_nth)
      moreover have "i < slots \<Longrightarrow> er_subjects ?er ! i = Some s \<longleftrightarrow> er_subjects er ! i = Some s \<and> \<not> (i < Suc n \<and> a \<le> s \<and> s \<le> b)" for i s
        using now [of i] by auto
      ultimately show "{s. \<exists>i < slots. er_subjects er ! i = Some s \<and> \<not> (i < Suc n \<and> a \<le> s \<and> s \<le> b)} = {s. Some s \<in> set (er_subjects ?er)}"
        by blast
      show "er_slot_ok (er_can ?er) i (er_subjects ?er ! i)" if "i < slots" for i
        using er_repD(3) [OF one(2) that] er_slot_set(2) len that by (cases "i = n") (simp_all add: er_set_subject_filter_def)
      show "i = j" if "i < slots" "j < slots" "er_subjects ?er ! i = Some t" "er_subjects ?er ! j = Some t" for i j t
        using er_repD(6) [OF rep that(1,2)] that now [of i] now [of j] by (auto split: if_splits)
    qed (use len Suc.prems er_repD(5,7) [OF one(2)] in \<open>simp_all add: er_set_subject_filter_def\<close>)
    then show ?thesis using run now by blast
  next
    case False
    then have "?f n er1 = Some er1" using here len Suc.prems by (auto simp: option_le_range arr_get_def)
    then have "for_each ?f [0..<Suc n] er = Some er1" by (rule for_each_upt_Suc [OF one(1)])
    moreover have "(\<exists>i < slots. er_subjects er ! i = Some s \<and> \<not> (i < n \<and> a \<le> s \<and> s \<le> b)) \<longleftrightarrow>
        (\<exists>i < slots. er_subjects er ! i = Some s \<and> \<not> (i < Suc n \<and> a \<le> s \<and> s \<le> b))" for s
      using False by (auto simp: less_Suc_eq)
    moreover have "i < slots \<Longrightarrow> er_subjects er1 ! i =
        (if i < Suc n \<and> (\<exists>s. er_subjects er ! i = Some s \<and> a \<le> s \<and> s \<le> b) then None else er_subjects er ! i)" for i
      using one(3) False by (auto simp: less_Suc_eq)
    ultimately show ?thesis using one(2) by auto
  qed
qed

lemma er_step_rep:
  assumes rep: "er_rep slots er (F, D)" and fits: "fits_filter slots (u # us) (F, D)"
  shows "\<exists>er'. er_step slots u er = Some er' \<and> er_rep slots er' (apply_filter u (F, D))"
proof (cases u)
  case (AddSubject s)
  then show ?thesis using er_add_subject_rep [OF rep, of s] fits by (auto simp: er_step_def)
next
  case (RemoveSubjectRange a b)
  have "{s. \<exists>i < slots. er_subjects er ! i = Some s \<and> \<not> (i < slots \<and> a \<le> s \<and> s \<le> b)} = F - {a..b}"
    using er_repD(1,4) [OF rep] by (auto simp: in_set_conv_nth)
  then show ?thesis using er_remove_range_rep [OF rep order.refl, of a b] RemoveSubjectRange
    by (auto simp: er_step_def er_remove_subject_range_def)
next
  case (AddDestination n)
  then have "er_destination er = None" "node_id_wf n" using fits er_repD(5) [OF rep] by (auto simp: set_empty_eq)
  then show ?thesis using AddDestination rep
    by (auto simp: er_step_def er_add_destination_def er_set_service_filter_def er_rep_def er_destination_ok_def)
next
  case (RemoveDestinationRange a b)
  then show ?thesis using rep
    by (cases "er_destination er")
      (auto simp: er_step_def er_remove_destination_range_def er_set_service_filter_def er_rep_def er_destination_ok_def)
qed

lemma er_run_rep:
  "er_rep slots er x \<Longrightarrow> fits_filter slots us x \<Longrightarrow> \<exists>er'. for_each (er_step slots) us er = Some er' \<and> er_rep slots er' (fold apply_filter us x)"
proof (induction us arbitrary: er x)
  case (Cons u us)
  obtain F D where x: "x = (F, D)" by (cases x)
  obtain er1 where er1: "er_step slots u er = Some er1" "er_rep slots er1 (apply_filter u x)"
    using er_step_rep Cons.prems x by blast
  have "fits_filter slots us (apply_filter u x)" using Cons.prems(2) x by simp
  from Cons.IH [OF er1(2) this] show ?case using er1(1) by simp
qed simp

text \<open>
  C34: The filters of the driver over \<open>embassy-stm32\<close>. Every sequence of updates that fits the slots
  runs without a panic. Then a message passes to the first FIFO exactly when its subject is a
  subscribed one, or when it has subject 0 and some slot was freed: the pattern that is to match
  nothing is that of subject 0 under the mask of the filter. A service frame passes to the second
  FIFO exactly when it is for the address of the node.
\<close>

theorem em_filters_pass:
  assumes "bit_mask_law passes" "slots < 256" "fits_filter slots us ({}, {})" "fold apply_filter us ({}, {}) = (F, D)"
  shows "\<exists>er. for_each (er_step slots) us (er_new slots) = Some er \<and>
    (\<forall>x. em_message_passes passes slots er x \<longleftrightarrow>
       (\<exists>s. message_subject x = Some s \<and> (s \<in> F \<or> s = SubjectId 0 \<and> freed_slot slots er))) \<and>
    (\<forall>x. em_slot_passes passes er x slots \<and> service_destination x \<noteq> None \<longleftrightarrow> (\<exists>d \<in> D. service_destination x = Some d))"
proof -
  obtain er where er: "for_each (er_step slots) us (er_new slots) = Some er" "er_rep slots er (F, D)"
    using er_run_rep [OF er_new_rep [OF assms(2)] assms(3)] assms(4) by auto
  from er(1) er_passes [OF assms(1) er(2)] er_service_passes [OF assms(1) er(2)] show ?thesis
    by (intro exI [of _ er] conjI allI)
qed

text \<open>A peripheral that filters so; subject 7 is subscribed and let go, and subject 0 passes.\<close>

definition em_bit_mask_passes :: "bit_mask \<Rightarrow> u32 \<Rightarrow> bool" where
  "em_bit_mask_passes entry x \<longleftrightarrow> x AND snd entry = fst entry AND snd entry"

lemma em_filters_pass_witness:
  "(\<exists>er. for_each (er_step 15) [AddSubject (SubjectId 7), RemoveSubjectRange (SubjectId 7) (SubjectId 7)] (er_new 15) = Some er \<and>
    (\<forall>x. em_message_passes em_bit_mask_passes 15 er x \<longleftrightarrow>
       (\<exists>s. message_subject x = Some s \<and> (s \<in> {} \<or> s = SubjectId 0 \<and> freed_slot 15 er))) \<and>
    (\<forall>x. em_slot_passes em_bit_mask_passes er x 15 \<and> service_destination x \<noteq> None \<longleftrightarrow> (\<exists>d \<in> {}. service_destination x = Some d))) \<and>
   map_option (\<lambda>er. er_subjects er ! 0 = None \<and> er_can er 0 \<noteq> None)
     (for_each (er_step 15) [AddSubject (SubjectId 7), RemoveSubjectRange (SubjectId 7) (SubjectId 7)] (er_new 15)) = Some True"
proof
  show "\<exists>er. for_each (er_step 15) [AddSubject (SubjectId 7), RemoveSubjectRange (SubjectId 7) (SubjectId 7)] (er_new 15) = Some er \<and>
    (\<forall>x. em_message_passes em_bit_mask_passes 15 er x \<longleftrightarrow>
       (\<exists>s. message_subject x = Some s \<and> (s \<in> {} \<or> s = SubjectId 0 \<and> freed_slot 15 er))) \<and>
    (\<forall>x. em_slot_passes em_bit_mask_passes er x 15 \<and> service_destination x \<noteq> None \<longleftrightarrow> (\<exists>d \<in> {}. service_destination x = Some d))"
  proof (rule em_filters_pass)
    show "bit_mask_law em_bit_mask_passes" by (simp add: bit_mask_law_def em_bit_mask_passes_def)
    show "fits_filter 15 [AddSubject (SubjectId 7), RemoveSubjectRange (SubjectId 7) (SubjectId 7)] ({}, {})" by code_simp
    show "fold apply_filter [AddSubject (SubjectId 7), RemoveSubjectRange (SubjectId 7) (SubjectId 7)] ({}, {}) = ({}, {})" by code_simp
  qed simp
  show "map_option (\<lambda>er. er_subjects er ! 0 = None \<and> er_can er 0 \<noteq> None)
     (for_each (er_step 15) [AddSubject (SubjectId 7), RemoveSubjectRange (SubjectId 7) (SubjectId 7)] (er_new 15)) = Some True"
    by code_simp
qed

end
