(* ===== verification/Em_Tx_Specs.thy ===== *)
theory Em_Tx_Specs
  imports Em_Driver Native_Tx_Specs
begin

text \<open>
  The transmit task of the driver over \<open>embassy-stm32\<close> does not panic on a peripheral that gives
  back only frames it was given: the room of its queues is enough.
\<close>

section \<open>The crate and the peripheral\<close>

text \<open>
  What the crate documents of its frames: one of an extended identifier is made of every number of
  bytes that a frame can have, at most 8 without FD, and its identifier is the one it was made with.
\<close>

definition can_law :: "'f can_frames \<Rightarrow> bool" where
  "can_law C \<longleftrightarrow> (\<forall>i len fd brs bytes. i \<le> 0x1FFFFFFF \<longrightarrow> length bytes \<in> set valid_can_length \<longrightarrow> len = of_nat (length bytes) \<longrightarrow>
     fd \<or> length bytes \<le> 8 \<longrightarrow> (\<exists>f. cf_new C i len fd brs bytes = Some f \<and> cf_extended_id C f = Some i))"

text \<open>A step of the whole: a frame leaves the peripheral for the bus, or a round of the task.\<close>

datatype 'f em_event = EmSent 'f | EmRound "'f em_outcome"

definition et_run :: "'f can_frames \<Rightarrow> frame_format \<Rightarrow> 'f em_event list \<Rightarrow> 'f em_tx \<Rightarrow> 'f em_tx exec" where
  "et_run C format = for_each (\<lambda>e et. case e of
     EmSent _ \<Rightarrow> ret et
   | EmRound outcome \<Rightarrow> do { (_, et) \<leftarrow> et_round C format outcome et; ret et })"

text \<open>
  The frames in the peripheral, after a step; and the answers it may give: the frame that has to make
  room is one it holds, and only a full peripheral asks for it. The link hands out a frame of a
  priority that it was asked for, and one that the format can carry, unless it has no source.
\<close>

fun em_held :: "'f em_event \<Rightarrow> 'f option \<Rightarrow> 'f list \<Rightarrow> 'f list" where
  "em_held (EmSent f) written held = remove1 f held"
| "em_held (EmRound (EmWritten preempted)) (Some f) held = f # (case preempted of None \<Rightarrow> held | Some g \<Rightarrow> remove1 g held)"
| "em_held (EmRound _) written held = held"

fun em_answers :: "frame_format \<Rightarrow> 'f em_tx \<Rightarrow> 'f list \<Rightarrow> 'f em_outcome \<Rightarrow> bool" where
  "em_answers format et held (EmExpired now) = True"
| "em_answers format et held (EmFetched frame) =
     (\<not> ps_contains (pd_priorities (et_frames et)) (h_priority (f_header frame)) \<and>
      (h_source (f_header frame) \<noteq> None \<longrightarrow> link_frame format frame))"
| "em_answers format et held (EmWritten preempted) =
     (case preempted of None \<Rightarrow> length held < TX_FIFO_DEPTH | Some g \<Rightarrow> g \<in> set held)"

fun em_env :: "'f can_frames \<Rightarrow> frame_format \<Rightarrow> 'f em_event list \<Rightarrow> 'f em_tx \<Rightarrow> 'f list \<Rightarrow> bool" where
  "em_env C format [] et held = True"
| "em_env C format (EmSent f # es) et held = em_env C format es et (em_held (EmSent f) None held)"
| "em_env C format (EmRound outcome # es) et held = (em_answers format et held outcome \<and>
     (case et_round C format outcome et of None \<Rightarrow> True
      | Some (written, et) \<Rightarrow> em_env C format es et (em_held (EmRound outcome) written held)))"

section \<open>What the task keeps\<close>

abbreviation pd_queue :: "'a priority_deque \<Rightarrow> priority \<Rightarrow> 'a list" where
  "pd_queue d p \<equiv> pd_queues d ! level p"

definition pd_wf :: "'a priority_deque \<Rightarrow> bool" where
  "pd_wf d \<longleftrightarrow> length (pd_queues d) = 8 \<and> (\<forall>p. ps_contains (pd_set d) p \<longleftrightarrow> pd_queue d p \<noteq> [])"

definition held_of :: "'f can_frames \<Rightarrow> priority \<Rightarrow> 'f list \<Rightarrow> nat" where
  "held_of C p held = length (filter (\<lambda>f. em_raw_frame_priority C f = Some p) held)"

text \<open>
  The frames of a priority in its queue and in the peripheral are at most four; a priority without a
  frame in its queue has no deadline.
\<close>

definition em_frames_ok :: "'f can_frames \<Rightarrow> 'f priority_deque \<Rightarrow> 'f list \<Rightarrow> bool" where
  "em_frames_ok C d held \<longleftrightarrow> pd_wf d \<and> length held \<le> TX_FIFO_DEPTH \<and>
     (\<forall>f\<in>set held. em_raw_frame_priority C f \<noteq> None) \<and>
     (\<forall>p. (\<forall>f\<in>set (pd_queue d p). em_raw_frame_priority C f = Some p) \<and>
        length (pd_queue d p) + held_of C p held \<le> PREEMPTION_DEPTH)"

definition em_inv :: "'f can_frames \<Rightarrow> 'f em_tx \<Rightarrow> 'f list \<Rightarrow> bool" where
  "em_inv C et held \<longleftrightarrow> em_frames_ok C (et_frames et) held \<and> length (et_deadlines et) = 8 \<and>
     (\<forall>p. et_deadlines et ! level p \<noteq> INSTANT_MAX \<longrightarrow> pd_queue (et_frames et) p \<noteq> [])"

lemmas em_depths = PREEMPTION_DEPTH_def TX_FIFO_DEPTH_def

subsection \<open>The queues\<close>

lemma pd_wfD: "pd_wf d \<Longrightarrow> length (pd_queues d) = 8" "pd_wf d \<Longrightarrow> ps_contains (pd_set d) p \<longleftrightarrow> pd_queue d p \<noteq> []"
  unfolding pd_wf_def by blast+

lemma pd_default_wf: "pd_wf pd_default"
  by (simp add: pd_wf_def pd_default_def NATIVE_LEVEL_COUNT_def priority_MAX_def)

lemma nth_level_update: "length xs = 8 \<Longrightarrow> xs[level p := v] ! level q = (if q = p then v else xs ! level q)"
  by (simp add: nth_list_update)

definition pd_set_queue :: "'a priority_deque \<Rightarrow> priority \<Rightarrow> 'a list \<Rightarrow> 'a priority_deque" where
  "pd_set_queue d p q = \<lparr> pd_queues = (pd_queues d)[level p := q],
     pd_set = if q = [] then ps_remove (pd_set d) p else ps_insert (pd_set d) p \<rparr>"

lemma pd_set_queue_wf: "pd_wf d \<Longrightarrow> pd_wf (pd_set_queue d p q)"
  by (auto simp: pd_wf_def pd_set_queue_def nth_level_update)

lemma pd_queue_set: "pd_wf d \<Longrightarrow> pd_queue (pd_set_queue d p q) r = (if r = p then q else pd_queue d r)"
  by (simp add: pd_set_queue_def nth_level_update pd_wfD)

lemma ps_insert_idem: "ps_contains s p \<Longrightarrow> ps_insert s p = s"
  by (rule ps_eqI) auto

lemma pd_ops:
  assumes "pd_wf d"
  shows "length (pd_queue d p) < n \<Longrightarrow> pd_push_front n d p x = Some (Inr (), pd_set_queue d p (x # pd_queue d p))"
    "length (pd_queue d p) < n \<Longrightarrow> pd_push_back n d p x = Some (Inr (), pd_set_queue d p (pd_queue d p @ [x]))"
    "pd_front d p = Some (case pd_queue d p of [] \<Rightarrow> None | x # q \<Rightarrow> Some x)"
    "pd_queue d p = x # q \<Longrightarrow> pd_pop_front d p = Some (Some x, pd_set_queue d p q)"
    "pd_queue d p \<noteq> [] \<Longrightarrow> pd_pop_back d p = Some (Some (last (pd_queue d p)), pd_set_queue d p (butlast (pd_queue d p)))"
  using pd_wfD(1) [OF assms] pd_wfD(2) [OF assms, of p]
  by (auto simp: pd_push_front_def pd_push_back_def pd_front_def pd_pop_front_def pd_pop_back_def dq_push_front_def
      dq_push_back_def dq_pop_front_def dq_pop_back_def pd_set_queue_def ps_insert_idem split: list.splits)

subsection \<open>Rounds\<close>

lemma em_frames_okD:
  assumes "em_frames_ok C d held"
  shows "pd_wf d" "length held \<le> 3" "f \<in> set held \<Longrightarrow> em_raw_frame_priority C f \<noteq> None"
    "f \<in> set (pd_queue d p) \<Longrightarrow> em_raw_frame_priority C f = Some p" "length (pd_queue d p) + held_of C p held \<le> 4"
  using assms unfolding em_frames_ok_def em_depths by auto

lemma em_frames_ok_set:
  assumes ok: "em_frames_ok C d held" and q: "\<forall>f\<in>set q. em_raw_frame_priority C f = Some p"
    and held: "length held' \<le> 3" "\<forall>f\<in>set held'. em_raw_frame_priority C f \<noteq> None"
    and room: "length q + held_of C p held' \<le> 4" "\<And>r. r \<noteq> p \<Longrightarrow> length (pd_queue d r) + held_of C r held' \<le> 4"
  shows "em_frames_ok C (pd_set_queue d p q) held'"
proof -
  note d = em_frames_okD [OF ok]
  have "pd_queue (pd_set_queue d p q) r = (if r = p then q else pd_queue d r)" for r by (rule pd_queue_set [OF d(1)])
  then show ?thesis using q held room d(4) pd_set_queue_wf [OF d(1)] by (auto simp: em_frames_ok_def em_depths)
qed

lemma held_of_le: "held_of C p held \<le> length held"
  by (simp add: held_of_def)

lemma held_of_Cons: "held_of C p (f # held) = (if em_raw_frame_priority C f = Some p then 1 else 0) + held_of C p held"
  by (simp add: held_of_def)

lemma held_of_remove1:
  "g \<in> set held \<Longrightarrow> held_of C p held = (if em_raw_frame_priority C g = Some p then 1 else 0) + held_of C p (remove1 g held)"
  by (induction held) (auto simp: held_of_def)

lemma held_of_remove1_le: "held_of C p (remove1 g held) \<le> held_of C p held"
  using held_of_remove1 [of g held C p] by (cases "g \<in> set held") (auto simp: remove1_idem)

lemma em_sent_inv: "em_inv C et held \<Longrightarrow> em_inv C et (em_held (EmSent f) None held)"
proof -
  assume inv: "em_inv C et held"
  have "length (remove1 f held) \<le> length held" by (simp add: length_remove1)
  moreover have "length (pd_queue (et_frames et) p) + held_of C p (remove1 f held) \<le> PREEMPTION_DEPTH" for p
    using held_of_remove1_le [of C p f held] inv by (simp add: em_inv_def em_frames_ok_def) (meson add_left_mono order_trans)
  ultimately show ?thesis using inv unfolding em_inv_def em_frames_ok_def
    by (auto dest: notin_set_remove1)
qed

lemma instant_le_max: "now \<le> INSTANT_MAX"
proof -
  have "INSTANT_MAX = - 1" by (simp add: INSTANT_MAX_def)
  then show ?thesis using word_n1_ge [of now] by simp
qed

text \<open>The deadline of a priority passes.\<close>

lemma et_expire_inv:
  assumes inv: "em_inv C et held"
  shows "\<exists>et'. et_expire now p et = Some et' \<and> em_inv C et' held"
proof -
  let ?d = "et_frames et"
  have ok: "em_frames_ok C ?d held" and len: "length (et_deadlines et) = 8"
    and busy: "et_deadlines et ! level r \<noteq> INSTANT_MAX \<Longrightarrow> pd_queue ?d r \<noteq> []" for r
    using inv by (simp_all add: em_inv_def)
  note d = em_frames_okD [OF ok]
  show ?thesis
  proof (cases "now > et_deadlines et ! level p")
    case True
    then have "et_deadlines et ! level p \<noteq> INSTANT_MAX" using instant_le_max [of now] by auto
    then have q: "pd_queue ?d p \<noteq> []" by (rule busy)
    let ?et = "\<lparr> et_frames = pd_set_queue ?d p (butlast (pd_queue ?d p)), et_deadlines = (et_deadlines et)[level p := INSTANT_MAX] \<rparr>"
    have "et_expire now p et = Some ?et"
      using True pd_ops(5) [OF d(1) q] by (simp add: et_expire_def pv_index_def pv_index_set_def len)
    moreover have "em_frames_ok C (et_frames ?et) held"
    proof -
      have "length (butlast (pd_queue ?d p)) + held_of C p held \<le> 4" using d(5) [of p] by simp
      then show ?thesis using em_frames_ok_set [OF ok, of "butlast (pd_queue ?d p)" p held] d in_set_butlastD by fastforce
    qed
    moreover have "et_deadlines ?et ! level r \<noteq> INSTANT_MAX \<Longrightarrow> pd_queue (et_frames ?et) r \<noteq> []" for r
      using busy [of r] len by (auto simp: nth_level_update pd_queue_set [OF d(1)] split: if_splits)
    ultimately show ?thesis using len by (auto simp: em_inv_def)
  qed (use inv len in \<open>auto simp: et_expire_def pv_index_def\<close>)
qed

lemma et_expire_all: "em_inv C et held \<Longrightarrow> \<exists>et'. for_each (et_expire now) ps et = Some et' \<and> em_inv C et' held"
proof (induction ps arbitrary: et)
  case (Cons p ps)
  obtain et1 where "et_expire now p et = Some et1" "em_inv C et1 held" using et_expire_inv [OF Cons.prems] by blast
  then show ?case using Cons.IH by simp
qed simp

text \<open>The frame of the link is made: its identifier has the priority of its header.\<close>

lemma em_made:
  assumes law: "can_law C" and f: "link_frame format frame"
  shows "\<exists>raw. em_make_raw_frame C frame format = Some (Inr raw) \<and> em_raw_frame_priority C raw = Some (h_priority (f_header frame))"
proof -
  let ?data = "data_deref (f_data frame)"
  have wf: "header_wf (f_header frame)" "sendable (f_header frame)" "data_wf (f_data frame)"
    "ff_fd format \<or> length ?data \<le> 8" using f by (simp_all add: link_frame_def length_data_deref)
  obtain x where x: "make_can_id (f_header frame) = Inr x" "x AND NOT CAN_ID_MASK = 0"
    using can_id_header [OF wf(1,2)] by blast
  have prio: "decode_can_id_priority x = h_priority (f_header frame)"
    by (simp add: decode_can_id_priority_def PRIORITY_OFFSET_def can_id_priority [OF wf(1) x(1)])
  have "bit x n \<Longrightarrow> \<not> bit (NOT (mask 29) :: u32) n" for n
    using arg_cong [OF x(2), of "\<lambda>w. bit w n"] by (simp add: id_layout bit_and_iff)
  then have "x AND mask 29 = x" by (intro bit_word_eqI) (auto simp: bit_and_iff bit_not_iff)
  then have "x \<le> mask 29" using word_and_le1 [of x "mask 29"] by simp
  then have le: "x \<le> 0x1FFFFFFF" by (simp add: mask_eq_exp_minus_1)
  have len: "length ?data \<in> set valid_can_length" "length ?data < 256"
    using wf(3) dl_wf_le by (force simp: length_data_deref data_wf_def dl_wf_def)+
  obtain raw where "cf_new C x (of_nat (length ?data)) (ff_fd format) (ff_fd format \<and> ff_bit_rate_switch format) ?data = Some raw"
    "cf_extended_id C raw = Some x" using law le len(1) wf(4) unfolding can_law_def by blast
  then show ?thesis using x(1) le len(2) prio
    by (cases "ff_fd format") (simp_all add: em_make_raw_frame_def extended_id_new_def em_raw_frame_priority_def)
qed

text \<open>What the other end reads from such a frame is what was sent.\<close>

lemma em_convert_raw_header_eq:
  "em_convert_raw_header x = (case load_msg_frame_header x of Some h \<Rightarrow> Some h | None \<Rightarrow> load_srv_frame_header x)"
  by (simp add: em_convert_raw_header_def load_msg_frame_header_def load_srv_frame_header_def split: option.split)

lemma em_made_received:
  assumes law: "can_law C" and f: "link_frame format frame"
    and raw: "em_make_raw_frame C frame format = Some (Inr raw)"
    and e: "ee_extended_id e = cf_extended_id C raw" "ee_fdcan e \<longrightarrow> ff_fd format" "ee_data e = data_deref (f_data frame) @ padding"
      "ee_len e = of_nat (length (data_deref (f_data frame)))"
  shows "\<exists>d. em_fetch_frame format (Some e) =
    Some (Some \<lparr> f_header = f_header frame, f_data = d, f_timestamp = ee_ts e, f_loop_back = False \<rparr>) \<and>
    data_deref d = data_deref (f_data frame)"
proof -
  let ?data = "data_deref (f_data frame)"
  have wf: "header_wf (f_header frame)" "sendable (f_header frame)" "data_wf (f_data frame)"
    "ff_fd format \<or> length ?data \<le> 8" using f by (simp_all add: link_frame_def length_data_deref)
  obtain x where x: "make_can_id (f_header frame) = Inr x"
    "load_msg_frame_header x = (if is_message (f_header frame) then Some (f_header frame) else None)"
    "load_srv_frame_header x = (if is_message (f_header frame) then None else Some (f_header frame))"
    using can_id_header [OF wf(1,2)] by blast
  have len: "length ?data \<in> set valid_can_length" "length ?data < 256"
    using wf(3) dl_wf_le by (force simp: length_data_deref data_wf_def dl_wf_def)+
  have le: "x \<le> 0x1FFFFFFF" using raw x(1) by (auto simp: em_make_raw_frame_def extended_id_new_def split: if_splits)
  have "cf_new C x (of_nat (length ?data)) (ff_fd format) (ff_fd format \<and> ff_bit_rate_switch format) ?data = Some raw"
    using raw x(1) le len(2) by (cases "ff_fd format") (auto simp: em_make_raw_frame_def extended_id_new_def split: bind_splits)
  moreover obtain raw' where "cf_new C x (of_nat (length ?data)) (ff_fd format) (ff_fd format \<and> ff_bit_rate_switch format) ?data = Some raw'"
    "cf_extended_id C raw' = Some x" using law le len(1) wf(4) unfolding can_law_def by blast
  ultimately have id: "ee_extended_id e = Some x" using e(1) by simp
  have header: "em_convert_raw_header x = Some (f_header frame)" using x(2,3) by (simp add: em_convert_raw_header_eq)
  have "unat (ee_len e) = length ?data" using e(4) len(2) by (simp add: unat_of_nat)
  then have bytes: "slice (ee_data e) 0 (unat (ee_len e)) = Some ?data" using e(3) by simp
  obtain d where d: "data_new ?data = Inr d" using data_new_ok [OF len(1)] by blast
  then have "em_fetch_frame format (Some e) =
      Some (Some \<lparr> f_header = f_header frame, f_data = d, f_timestamp = ee_ts e, f_loop_back = False \<rparr>)"
    using e(2) id header bytes by (auto simp: em_fetch_frame_def em_convert_raw_envelope_def)
  then show ?thesis using data_new_Inr [OF d] by blast
qed

lemma em_answers_free:
  assumes "em_inv C et held" "\<not> ps_contains (pd_priorities (et_frames et)) p"
  shows "pd_queue (et_frames et) p = []"
  using assms pd_wfD(2) [OF em_frames_okD(1)] unfolding em_inv_def pd_priorities_def by blast

lemma et_round_fetched:
  assumes law: "can_law C" and inv: "em_inv C et held" and ans: "em_answers format et held (EmFetched frame)"
  shows "\<exists>w et'. et_round C format (EmFetched frame) et = Some (w, et') \<and> w = None \<and> em_inv C et' held"
proof -
  let ?d = "et_frames et" and ?p = "h_priority (f_header frame)"
  have ok: "em_frames_ok C ?d held" and len: "length (et_deadlines et) = 8" using inv by (simp_all add: em_inv_def)
  note d = em_frames_okD [OF ok]
  have soonest: "et_next_deadline et = Some (Min (set (et_deadlines et)))" using len by (auto simp: et_next_deadline_def)
  show ?thesis
  proof (cases "h_source (f_header frame)")
    case None
    then show ?thesis using inv by (simp add: et_round_def soonest)
  next
    case (Some n)
    then obtain raw where raw: "em_make_raw_frame C frame format = Some (Inr raw)" "em_raw_frame_priority C raw = Some ?p"
      using em_made [OF law, of format frame] ans by auto
    have q: "pd_queue ?d ?p = []" using em_answers_free [OF inv] ans by simp
    have push: "pd_push_back PREEMPTION_DEPTH ?d ?p raw = Some (Inr (), pd_set_queue ?d ?p [raw])"
      using pd_ops(2) [OF d(1), of ?p PREEMPTION_DEPTH raw] q by (simp add: em_depths)
    let ?et = "\<lparr> et_frames = pd_set_queue ?d ?p [raw], et_deadlines = (et_deadlines et)[level ?p := f_timestamp frame] \<rparr>"
    have "et_round C format (EmFetched frame) et = Some (None, ?et)"
      using Some raw push len by (simp add: et_round_def soonest pv_index_set_def Let_def)
    moreover have "em_frames_ok C (et_frames ?et) held"
      using em_frames_ok_set [OF ok, of "[raw]" ?p held] raw(2) d held_of_le [of C ?p held] by fastforce
    moreover have "et_deadlines ?et ! level r \<noteq> INSTANT_MAX \<Longrightarrow> pd_queue (et_frames ?et) r \<noteq> []" for r
      using inv len by (auto simp: em_inv_def nth_level_update pd_queue_set [OF d(1)] split: if_splits)
    ultimately show ?thesis using len by (auto simp: em_inv_def)
  qed
qed

text \<open>The peripheral takes the first frame, and may give back another one.\<close>

lemma em_take_ok:
  assumes ok: "em_frames_ok C d held" and q: "pd_queue d p = f # q"
    and rest: "length rest < 3" "set rest \<subseteq> set held" "\<And>r. held_of C r rest \<le> held_of C r held"
  shows "em_frames_ok C (pd_set_queue d p q) (f # rest)"
proof (rule em_frames_ok_set [OF ok])
  note d = em_frames_okD [OF ok]
  have f: "em_raw_frame_priority C f = Some p" and "\<forall>g\<in>set q. em_raw_frame_priority C g = Some p" using d(4) [of _ p] q by auto
  then show "\<forall>g\<in>set q. em_raw_frame_priority C g = Some p" by simp
  show "length (f # rest) \<le> 3" using rest(1) by simp
  show "\<forall>g\<in>set (f # rest). em_raw_frame_priority C g \<noteq> None" using f d(3) rest(2) by auto
  show "length q + held_of C p (f # rest) \<le> 4" using d(5) [of p] q f rest(3) [of p] by (simp add: held_of_Cons)
  show "length (pd_queue d r) + held_of C r (f # rest) \<le> 4" if "r \<noteq> p" for r
    using d(5) [of r] f that rest(3) [of r] by (simp add: held_of_Cons)
qed

lemma em_give_back_ok:
  assumes ok: "em_frames_ok C d held" and q: "pd_queue d p = f # q" and g: "g \<in> set held" "em_raw_frame_priority C g = Some r"
  defines "d1 \<equiv> pd_set_queue d p q"
  shows "pd_push_front PREEMPTION_DEPTH d1 r g = Some (Inr (), pd_set_queue d1 r (g # pd_queue d1 r)) \<and>
    em_frames_ok C (pd_set_queue d1 r (g # pd_queue d1 r)) (f # remove1 g held)"
proof -
  note d = em_frames_okD [OF ok]
  have "length (remove1 g held) < 3" using d(2) g(1) length_pos_if_in_set [OF g(1)] by (simp add: length_remove1)
  then have one: "em_frames_ok C d1 (f # remove1 g held)"
    unfolding d1_def by (rule em_take_ok [OF ok q _ set_remove1_subset held_of_remove1_le])
  note d1 = em_frames_okD [OF one]
  have f: "em_raw_frame_priority C f = Some p" using d(4) [of f p] q by simp
  have room: "length (pd_queue d1 r) + held_of C r (f # remove1 g held) \<le> 3"
    using d(5) [of r] q f g(2) held_of_remove1 [OF g(1), of C r] unfolding d1_def pd_queue_set [OF d(1)]
    by (auto simp: held_of_Cons)
  have "em_frames_ok C (pd_set_queue d1 r (g # pd_queue d1 r)) (f # remove1 g held)"
  proof (rule em_frames_ok_set [OF one])
    show "\<forall>x\<in>set (g # pd_queue d1 r). em_raw_frame_priority C x = Some r" using g(2) d1(4) by simp
    show "\<forall>x\<in>set (f # remove1 g held). em_raw_frame_priority C x \<noteq> None" using d1(3) by blast
  qed (use d1(2,5) room in auto)
  moreover have "length (pd_queue d1 r) < PREEMPTION_DEPTH" using room by (simp add: em_depths)
  ultimately show ?thesis using pd_ops(1) [OF d1(1)] by blast
qed

lemma et_round_written:
  assumes inv: "em_inv C et held" and ans: "em_answers format et held (EmWritten preempted)"
  shows "\<exists>w et'. et_round C format (EmWritten preempted) et = Some (w, et') \<and> em_inv C et' (em_held (EmRound (EmWritten preempted)) w held)"
proof -
  let ?d = "et_frames et"
  have ok: "em_frames_ok C ?d held" and len: "length (et_deadlines et) = 8"
    and busy: "et_deadlines et ! level r \<noteq> INSTANT_MAX \<Longrightarrow> pd_queue ?d r \<noteq> []" for r
    using inv by (simp_all add: em_inv_def)
  note d = em_frames_okD [OF ok]
  have soonest: "et_next_deadline et = Some (Min (set (et_deadlines et)))" using len by (auto simp: et_next_deadline_def)
  show ?thesis
  proof (cases "ps_first (pd_priorities ?d)")
    case None
    then show ?thesis using inv by (simp add: et_round_def soonest)
  next
    case (Some p)
    then have "pd_queue ?d p \<noteq> []" using pd_wfD(2) [OF d(1)] by (simp add: ps_first_iff pd_priorities_def)
    then obtain f q where q: "pd_queue ?d p = f # q" by (cases "pd_queue ?d p") auto
    let ?d1 = "pd_set_queue ?d p q"
    let ?dl = "if q = [] then (et_deadlines et)[level p := INSTANT_MAX] else et_deadlines et"
    have front: "pd_front ?d p = Some (Some f)" "pd_pop_front ?d p = Some (Some f, ?d1)" using pd_ops(3,4) [OF d(1)] q by auto
    have there: "ps_contains (pd_priorities ?d1) p \<longleftrightarrow> q \<noteq> []" by (simp add: pd_priorities_def pd_set_queue_def)
    have dl: "?dl ! level r \<noteq> INSTANT_MAX \<Longrightarrow> pd_queue ?d1 r \<noteq> []" for r
      using busy [of r] len by (auto simp: nth_level_update pd_queue_set [OF d(1)] split: if_splits)
    show ?thesis
    proof (cases preempted)
      case None
      have "em_frames_ok C ?d1 (f # held)" using em_take_ok [OF ok q, of held] ans None by (simp add: em_depths)
      then have "em_inv C \<lparr> et_frames = ?d1, et_deadlines = ?dl \<rparr> (f # held)" using dl len by (simp add: em_inv_def)
      moreover have "et_round C format (EmWritten preempted) et = Some (Some f, \<lparr> et_frames = ?d1, et_deadlines = ?dl \<rparr>)"
        using front there Some None len by (simp add: et_round_def soonest pv_index_set_def Let_def)
      ultimately show ?thesis using None by auto
    next
      case pre: (Some g)
      then have g: "g \<in> set held" using ans by simp
      then obtain r where r: "em_raw_frame_priority C g = Some r" using d(3) by blast
      let ?d2 = "pd_set_queue ?d1 r (g # pd_queue ?d1 r)"
      note given = em_give_back_ok [OF ok q g r]
      have "?dl ! level s \<noteq> INSTANT_MAX \<Longrightarrow> pd_queue ?d2 s \<noteq> []" for s
        using dl [of s] by (simp add: pd_queue_set pd_set_queue_wf d(1))
      then have "em_inv C \<lparr> et_frames = ?d2, et_deadlines = ?dl \<rparr> (f # remove1 g held)" using given len by (simp add: em_inv_def)
      moreover have "et_round C format (EmWritten preempted) et = Some (Some f, \<lparr> et_frames = ?d2, et_deadlines = ?dl \<rparr>)"
        using front there Some pre r given len by (simp add: et_round_def soonest pv_index_set_def Let_def)
      ultimately show ?thesis using pre by auto
    qed
  qed
qed

lemma et_round_inv:
  assumes "can_law C" "em_inv C et held" "em_answers format et held outcome"
  shows "\<exists>w et'. et_round C format outcome et = Some (w, et') \<and> em_inv C et' (em_held (EmRound outcome) w held)"
proof (cases outcome)
  case (EmExpired now)
  have "et_next_deadline et = Some (Min (set (et_deadlines et)))" using assms(2) by (auto simp: em_inv_def et_next_deadline_def)
  then show ?thesis using EmExpired et_expire_all [OF assms(2), of now "ps_into_iter ps_ALL"] by (auto simp: et_round_def)
next
  case (EmFetched frame)
  then show ?thesis using et_round_fetched [OF assms(1,2)] assms(3) by fastforce
next
  case (EmWritten preempted)
  then show ?thesis using et_round_written [OF assms(2)] assms(3) by blast
qed

lemma et_run_inv:
  "can_law C \<Longrightarrow> em_inv C et held \<Longrightarrow> em_env C format es et held \<Longrightarrow> \<exists>et' held'. et_run C format es et = Some et' \<and> em_inv C et' held'"
proof (induction es arbitrary: et held)
  case (Cons e es)
  show ?case
  proof (cases e)
    case (EmSent f)
    then show ?thesis using Cons.IH [OF Cons.prems(1) em_sent_inv [OF Cons.prems(2)], of f] Cons.prems(3)
      by (simp add: et_run_def)
  next
    case (EmRound outcome)
    have "em_answers format et held outcome" using Cons.prems(3) EmRound by simp
    from et_round_inv [OF Cons.prems(1,2) this]
    obtain w et1 where one: "et_round C format outcome et = Some (w, et1)" "em_inv C et1 (em_held (EmRound outcome) w held)" by blast
    then have "em_env C format es et1 (em_held (EmRound outcome) w held)" using Cons.prems(3) EmRound by simp
    from Cons.IH [OF Cons.prems(1) one(2) this] show ?thesis using one(1) EmRound by (simp add: et_run_def)
  qed
qed (auto simp: et_run_def)

lemma em_start_inv: "em_inv C et_new []"
  using pd_default_wf
  by (auto simp: em_inv_def em_frames_ok_def et_new_def pv_repeat_def pd_default_def NATIVE_LEVEL_COUNT_def priority_MAX_def held_of_def
      nth_Cons' simp del: replicate.simps)

text \<open>
  C35: The transmit task of the driver over \<open>embassy-stm32\<close> never panics. With every link that
  answers what it was asked for and every peripheral of three buffers that gives back only frames it
  holds, all its rounds run: the queues of four frames never overflow, no matter how often frames
  are given back, and a deadline always belongs to a frame that waits.
\<close>

theorem em_tx_never_panics:
  assumes "can_law C" "em_env C format es et_new []"
  shows "\<exists>et held. et_run C format es et_new = Some et \<and> em_inv C et held"
  using et_run_inv [OF assms(1) em_start_inv assms(2)] by blast

text \<open>A frame is written, given back for a more urgent one, and written again.\<close>

definition plain_frames :: "(u32 \<times> u8 list) can_frames" where
  "plain_frames = \<lparr> cf_new = \<lambda>i len fd brs bytes. Some (i, bytes), cf_extended_id = \<lambda>f. Some (fst f) \<rparr>"

definition raw_of :: "frame \<Rightarrow> u32 \<times> u8 list" where
  "raw_of f = (case make_can_id (f_header f) of Inr i \<Rightarrow> (i, data_deref (f_data f)) | Inl _ \<Rightarrow> (0, []))"

definition urgent_frame :: frame where
  "urgent_frame = sample_frame\<lparr> f_header := (f_header sample_frame)\<lparr> h_priority := Exceptional \<rparr>, f_timestamp := 90 \<rparr>"

definition sample_events :: "(u32 \<times> u8 list) em_event list" where
  "sample_events = [EmRound (EmFetched sample_frame), EmRound (EmWritten None), EmRound (EmFetched urgent_frame),
     EmRound (EmWritten (Some (raw_of sample_frame))), EmRound (EmExpired 100), EmRound (EmWritten None), EmSent (raw_of urgent_frame)]"

lemma em_tx_never_panics_witness:
  "\<exists>et held. et_run plain_frames FfClassic sample_events et_new = Some et \<and> em_inv plain_frames et held"
proof (rule em_tx_never_panics)
  show "can_law plain_frames" by (simp add: can_law_def plain_frames_def)
  show "em_env plain_frames FfClassic sample_events et_new []" by code_simp
qed

end
