(* ===== verification/Data_Types.thy ===== *)
theory Data_Types
  imports Nodes Tx_Buffer
begin

text \<open>
  The data types of the stack itself, \<open>emcyphal/src/data_types\<close>: their encoding is written to and
  read from the cursors of \<open>canadensis_encoding\<close>, which are parameters. A type that is generic in the
  code, such as the composite a cursor reads, is a parameter for every type it is used at.
\<close>

section \<open>Cursors\<close>

datatype deserialize_error = ArrayLength | UnionTag

record 'w write_cursor =
  wc_new :: "u8 list \<Rightarrow> 'w"
  wc_buffer :: "'w \<Rightarrow> u8 list"
  wc_write_u2 :: "u8 \<Rightarrow> 'w \<Rightarrow> 'w"
  wc_write_u3 :: "u8 \<Rightarrow> 'w \<Rightarrow> 'w"
  wc_write_aligned_u8 :: "u8 \<Rightarrow> 'w \<Rightarrow> 'w"
  wc_write_aligned_u16 :: "u16 \<Rightarrow> 'w \<Rightarrow> 'w"
  wc_write_aligned_u32 :: "u32 \<Rightarrow> 'w \<Rightarrow> 'w"
  wc_write_aligned_bytes :: "u8 list \<Rightarrow> 'w \<Rightarrow> 'w"
  wc_write_composite :: "('w \<Rightarrow> 'w) \<Rightarrow> 'w \<Rightarrow> 'w"

type_synonym ('r, 'a) read_result = "(deserialize_error + 'a) \<times> 'r"

record 'r read_cursor =
  rc_new :: "u8 list \<Rightarrow> 'r"
  rc_read_u2 :: "'r \<Rightarrow> u8 \<times> 'r"
  rc_read_u3 :: "'r \<Rightarrow> u8 \<times> 'r"
  rc_read_u8 :: "'r \<Rightarrow> u8 \<times> 'r"
  rc_read_u32 :: "'r \<Rightarrow> u32 \<times> 'r"
  rc_read_aligned_u16 :: "'r \<Rightarrow> u16 \<times> 'r"
  rc_read_bytes :: "nat \<Rightarrow> 'r \<Rightarrow> u8 list \<times> 'r"
  rc_read_health :: "('r \<Rightarrow> ('r, health) read_result) \<Rightarrow> 'r \<Rightarrow> ('r, health) read_result"
  rc_read_mode :: "('r \<Rightarrow> ('r, mode) read_result) \<Rightarrow> 'r \<Rightarrow> ('r, mode) read_result"

text \<open>\<open>Serialize::serialize_to_bytes\<close> and \<open>Deserialize::deserialize_from_bytes\<close>.\<close>

definition to_bytes :: "'w write_cursor \<Rightarrow> ('w \<Rightarrow> 'w) \<Rightarrow> u8 list \<Rightarrow> u8 list" where
  "to_bytes W serialize buffer = wc_buffer W (serialize (wc_new W buffer))"

definition from_bytes :: "'r read_cursor \<Rightarrow> ('r \<Rightarrow> ('r, 'a) read_result) \<Rightarrow> u8 list \<Rightarrow> deserialize_error + 'a" where
  "from_bytes R deserialize bytes = fst (deserialize (rc_new R bytes))"

section \<open>The types\<close>

fun health_serialize :: "'w write_cursor \<Rightarrow> health \<Rightarrow> 'w \<Rightarrow> 'w" where
  "health_serialize W Nominal_health = wc_write_u2 W 0"
| "health_serialize W Advisory = wc_write_u2 W 1"
| "health_serialize W Caution = wc_write_u2 W 2"
| "health_serialize W Warning = wc_write_u2 W 3"

definition health_deserialize :: "'r read_cursor \<Rightarrow> 'r \<Rightarrow> ('r, health) read_result" where
  "health_deserialize R cursor = (let (v, cursor) = rc_read_u2 R cursor in
     (if v = 0 then Inr Nominal_health else if v = 1 then Inr Advisory else if v = 2 then Inr Caution
      else if v = 3 then Inr Warning else Inl UnionTag, cursor))"

definition health_size_bits :: "health \<Rightarrow> nat" where
  "health_size_bits h = 8"

fun mode_serialize :: "'w write_cursor \<Rightarrow> mode \<Rightarrow> 'w \<Rightarrow> 'w" where
  "mode_serialize W Operational = wc_write_u3 W 0"
| "mode_serialize W Initialization = wc_write_u3 W 1"
| "mode_serialize W Maintenance = wc_write_u3 W 2"
| "mode_serialize W SoftwareUpdate = wc_write_u3 W 3"

definition mode_deserialize :: "'r read_cursor \<Rightarrow> 'r \<Rightarrow> ('r, mode) read_result" where
  "mode_deserialize R cursor = (let (v, cursor) = rc_read_u3 R cursor in
     (if v = 0 then Inr Operational else if v = 1 then Inr Initialization else if v = 2 then Inr Maintenance
      else if v = 3 then Inr SoftwareUpdate else Inl UnionTag, cursor))"

definition mode_size_bits :: "mode \<Rightarrow> nat" where
  "mode_size_bits m = 8"

definition heartbeat_serialize :: "'w write_cursor \<Rightarrow> heartbeat \<Rightarrow> 'w \<Rightarrow> 'w" where
  "heartbeat_serialize W h cursor = (let
     cursor = wc_write_aligned_u32 W (hbt_uptime h) cursor;
     cursor = wc_write_composite W (health_serialize W (hbt_health h)) cursor;
     cursor = wc_write_composite W (mode_serialize W (hbt_mode h)) cursor
   in wc_write_aligned_u8 W (hbt_vendor_specific_status_code h) cursor)"

definition heartbeat_deserialize :: "'r read_cursor \<Rightarrow> 'r \<Rightarrow> ('r, heartbeat) read_result" where
  "heartbeat_deserialize R cursor = (let
     (uptime, cursor) = rc_read_u32 R cursor;
     (health, cursor) = rc_read_health R (health_deserialize R) cursor
   in case health of Inl e \<Rightarrow> (Inl e, cursor) | Inr health \<Rightarrow> (let
     (mode, cursor) = rc_read_mode R (mode_deserialize R) cursor
   in case mode of Inl e \<Rightarrow> (Inl e, cursor) | Inr mode \<Rightarrow> (let
     (code, cursor) = rc_read_u8 R cursor
   in (Inr \<lparr> hbt_uptime = uptime, hbt_health = health, hbt_mode = mode, hbt_vendor_specific_status_code = code \<rparr>, cursor))))"

definition heartbeat_size_bits :: "heartbeat \<Rightarrow> nat" where
  "heartbeat_size_bits h = 56"

text \<open>\<open>ByteArray\<close>: at most 256 bytes. The conversion of the length into a \<open>u16\<close> always succeeds.\<close>

datatype byte_array = ByteArray (ba_bytes: "u8 list")

definition byte_array_serialize :: "'w write_cursor \<Rightarrow> byte_array \<Rightarrow> 'w \<Rightarrow> 'w exec" where
  "byte_array_serialize W b cursor = do {
     len \<leftarrow> (if length (ba_bytes b) < 2 ^ 16 then ret (of_nat (length (ba_bytes b))) else panic);
     ret (wc_write_aligned_bytes W (ba_bytes b) (wc_write_aligned_u16 W len cursor))
   }"

definition byte_array_deserialize :: "'r read_cursor \<Rightarrow> 'r \<Rightarrow> ('r, byte_array) read_result" where
  "byte_array_deserialize R cursor = (let (length, cursor) = rc_read_aligned_u16 R cursor; length = unat length in
     if length \<le> 256 then (let (bytes, cursor) = rc_read_bytes R length cursor in (Inr (ByteArray bytes), cursor))
     else (Inl ArrayLength, cursor))"

definition byte_array_size_bits :: "byte_array \<Rightarrow> nat" where
  "byte_array_size_bits b = 16 + length (ba_bytes b) * 8"

datatype empty_type = EmptyType

definition empty_deserialize :: "'r \<Rightarrow> ('r, empty_type) read_result" where
  "empty_deserialize cursor = (Inr EmptyType, cursor)"

definition empty_serialize :: "empty_type \<Rightarrow> 'w \<Rightarrow> 'w" where
  "empty_serialize e cursor = cursor"

definition empty_size_bits :: "empty_type \<Rightarrow> nat" where
  "empty_size_bits e = 0"

section \<open>What the cursors do\<close>

text \<open>The bits of a value from the least significant one, and back; missing bits are zeros.\<close>

definition bits_of :: "nat \<Rightarrow> 'a :: len word \<Rightarrow> bool list" where
  "bits_of n v = map (bit v) [0..<n]"

definition of_bits :: "bool list \<Rightarrow> 'a :: len word" where
  "of_bits bits = horner_sum of_bool 2 bits"

definition bits_of_bytes :: "u8 list \<Rightarrow> bool list" where
  "bits_of_bytes bytes = concat (map (bits_of 8) bytes)"

definition round_up :: "nat \<Rightarrow> nat" where
  "round_up n = (n + 7) div 8 * 8"

lemma length_bits_of [simp]: "length (bits_of n v) = n"
  by (simp add: bits_of_def)

lemma bit_of_bits: "bit (of_bits bits :: 'a :: len word) n \<longleftrightarrow> n < LENGTH('a) \<and> n < length bits \<and> bits ! n"
  by (auto simp: of_bits_def bit_horner_sum_bit_iff)

lemma of_bits_of: "(\<And>i. bit v i \<Longrightarrow> i < n) \<Longrightarrow> of_bits (bits_of n v) = v"
  by (rule bit_word_eqI) (auto simp: bit_of_bits bits_of_def)

lemma of_bits_full [simp]: "n = LENGTH('a) \<Longrightarrow> of_bits (bits_of n (v :: 'a :: len word)) = v"
  by (rule of_bits_of) (auto dest: bit_imp_le_length)

lemma of_bits_small:
  "of_bits (bits_of 2 (0 :: u8)) = (0 :: u8)" "of_bits (bits_of 2 (1 :: u8)) = (1 :: u8)"
  "of_bits (bits_of 2 (2 :: u8)) = (2 :: u8)" "of_bits (bits_of 2 (3 :: u8)) = (3 :: u8)"
  "of_bits (bits_of 3 (0 :: u8)) = (0 :: u8)" "of_bits (bits_of 3 (1 :: u8)) = (1 :: u8)"
  "of_bits (bits_of 3 (2 :: u8)) = (2 :: u8)" "of_bits (bits_of 3 (3 :: u8)) = (3 :: u8)"
  by code_simp+

lemma length_bits_of_bytes [simp]: "length (bits_of_bytes bs) = 8 * length bs"
  by (induction bs) (simp_all add: bits_of_bytes_def)

lemma bits_of_bytes_append [simp]: "bits_of_bytes (as @ bs) = bits_of_bytes as @ bits_of_bytes bs"
  by (simp add: bits_of_bytes_def)

text \<open>
  What the crate documents of its cursors: a cursor over a buffer of \<open>B\<close> bytes appends the bits of
  what it writes as long as they fit; a composite starts and ends at a byte, and nothing is
  relied on in the bits that fill its last byte. A cursor that reads goes on from its position, and
  reads zeros behind the end.
\<close>

definition composites_written :: "'w write_cursor \<Rightarrow> ('w \<Rightarrow> bool list \<Rightarrow> nat \<Rightarrow> bool) \<Rightarrow> bool" where
  "composites_written W at \<longleftrightarrow> (\<forall>w bits B serialize added. at w bits B \<longrightarrow> 8 dvd length bits \<longrightarrow> at (serialize w) (bits @ added) B \<longrightarrow>
        (\<exists>pad. length (bits @ added @ pad) = round_up (length (bits @ added)) \<and>
           at (wc_write_composite W serialize w) (bits @ added @ pad) B))"

definition written_at :: "'w write_cursor \<Rightarrow> ('w \<Rightarrow> bool list \<Rightarrow> nat \<Rightarrow> bool) \<Rightarrow> bool" where
  "written_at W at \<longleftrightarrow>
     (\<forall>buffer. at (wc_new W buffer) [] (length buffer)) \<and>
     (\<forall>w bits B v. at w bits B \<longrightarrow> length bits + 2 \<le> 8 * B \<longrightarrow> at (wc_write_u2 W v w) (bits @ bits_of 2 v) B) \<and>
     (\<forall>w bits B v. at w bits B \<longrightarrow> length bits + 3 \<le> 8 * B \<longrightarrow> at (wc_write_u3 W v w) (bits @ bits_of 3 v) B) \<and>
     (\<forall>w bits B v. at w bits B \<longrightarrow> 8 dvd length bits \<longrightarrow> length bits + 8 \<le> 8 * B \<longrightarrow>
        at (wc_write_aligned_u8 W v w) (bits @ bits_of 8 v) B) \<and>
     (\<forall>w bits B v. at w bits B \<longrightarrow> 8 dvd length bits \<longrightarrow> length bits + 16 \<le> 8 * B \<longrightarrow>
        at (wc_write_aligned_u16 W v w) (bits @ bits_of 16 v) B) \<and>
     (\<forall>w bits B v. at w bits B \<longrightarrow> 8 dvd length bits \<longrightarrow> length bits + 32 \<le> 8 * B \<longrightarrow>
        at (wc_write_aligned_u32 W v w) (bits @ bits_of 32 v) B) \<and>
     (\<forall>w bits B bytes. at w bits B \<longrightarrow> 8 dvd length bits \<longrightarrow> length bits + 8 * length bytes \<le> 8 * B \<longrightarrow>
        at (wc_write_aligned_bytes W bytes w) (bits @ bits_of_bytes bytes) B) \<and>
     composites_written W at \<and>
     (\<forall>w bits B. at w bits B \<longrightarrow> 8 dvd length bits \<longrightarrow> length (wc_buffer W w) = B \<and>
        bits_of_bytes (take (length bits div 8) (wc_buffer W w)) = bits)"

definition write_law :: "'w write_cursor \<Rightarrow> bool" where
  "write_law W \<longleftrightarrow> (\<exists>at. written_at W at)"

lemmas written_new = written_at_def [THEN iffD1, THEN conjunct1, rule_format]
lemmas written_u2 = written_at_def [THEN iffD1, THEN conjunct2, THEN conjunct1, rule_format]
lemmas written_u3 = written_at_def [THEN iffD1, THEN conjunct2, THEN conjunct2, THEN conjunct1, rule_format]
lemmas written_u8 = written_at_def [THEN iffD1, THEN conjunct2, THEN conjunct2, THEN conjunct2, THEN conjunct1, rule_format]
lemmas written_u16 = written_at_def [THEN iffD1, THEN conjunct2, THEN conjunct2, THEN conjunct2, THEN conjunct2, THEN conjunct1, rule_format]
lemmas written_u32 = written_at_def [THEN iffD1, THEN conjunct2, THEN conjunct2, THEN conjunct2, THEN conjunct2, THEN conjunct2, THEN conjunct1, rule_format]
lemmas written_bytes = written_at_def [THEN iffD1, THEN conjunct2, THEN conjunct2, THEN conjunct2, THEN conjunct2, THEN conjunct2, THEN conjunct2, THEN conjunct1, rule_format]
lemmas written_composites = written_at_def [THEN iffD1, THEN conjunct2, THEN conjunct2, THEN conjunct2, THEN conjunct2, THEN conjunct2, THEN conjunct2, THEN conjunct2, THEN conjunct1, rule_format]
lemmas written_buffer = written_at_def [THEN iffD1, THEN conjunct2, THEN conjunct2, THEN conjunct2, THEN conjunct2, THEN conjunct2, THEN conjunct2, THEN conjunct2, THEN conjunct2, rule_format]

lemmas composite_written = composites_written_def [THEN iffD1, rule_format]

definition composites_read :: "(('r \<Rightarrow> 'a \<times> 'r) \<Rightarrow> 'r \<Rightarrow> 'a \<times> 'r) \<Rightarrow> ('r \<Rightarrow> bool list \<Rightarrow> nat \<Rightarrow> bool) \<Rightarrow> bool" where
  "composites_read read at \<longleftrightarrow> (\<forall>r bits p q f. at r bits p \<longrightarrow> 8 dvd p \<longrightarrow> at (snd (f r)) bits q \<longrightarrow>
     fst (read f r) = fst (f r) \<and> at (snd (read f r)) bits (round_up q))"

definition read_at :: "'r read_cursor \<Rightarrow> ('r \<Rightarrow> bool list \<Rightarrow> nat \<Rightarrow> bool) \<Rightarrow> bool" where
  "read_at R at \<longleftrightarrow>
     (\<forall>bytes. at (rc_new R bytes) (bits_of_bytes bytes) 0) \<and>
     (\<forall>r bits p. at r bits p \<longrightarrow> fst (rc_read_u2 R r) = of_bits (take 2 (drop p bits)) \<and> at (snd (rc_read_u2 R r)) bits (p + 2)) \<and>
     (\<forall>r bits p. at r bits p \<longrightarrow> fst (rc_read_u3 R r) = of_bits (take 3 (drop p bits)) \<and> at (snd (rc_read_u3 R r)) bits (p + 3)) \<and>
     (\<forall>r bits p. at r bits p \<longrightarrow> fst (rc_read_u8 R r) = of_bits (take 8 (drop p bits)) \<and> at (snd (rc_read_u8 R r)) bits (p + 8)) \<and>
     (\<forall>r bits p. at r bits p \<longrightarrow> fst (rc_read_u32 R r) = of_bits (take 32 (drop p bits)) \<and> at (snd (rc_read_u32 R r)) bits (p + 32)) \<and>
     (\<forall>r bits p. at r bits p \<longrightarrow> 8 dvd p \<longrightarrow>
        fst (rc_read_aligned_u16 R r) = of_bits (take 16 (drop p bits)) \<and> at (snd (rc_read_aligned_u16 R r)) bits (p + 16)) \<and>
     (\<forall>r bits p n. at r bits p \<longrightarrow>
        fst (rc_read_bytes R n r) = map (\<lambda>i. of_bits (take 8 (drop (p + 8 * i) bits))) [0..<n] \<and> at (snd (rc_read_bytes R n r)) bits (p + 8 * n)) \<and>
     composites_read (rc_read_health R) at \<and> composites_read (rc_read_mode R) at"

definition read_law :: "'r read_cursor \<Rightarrow> bool" where
  "read_law R \<longleftrightarrow> (\<exists>at. read_at R at)"

lemmas read_new = read_at_def [THEN iffD1, THEN conjunct1, rule_format]
lemmas read_u2 = read_at_def [THEN iffD1, THEN conjunct2, THEN conjunct1, rule_format]
lemmas read_u3 = read_at_def [THEN iffD1, THEN conjunct2, THEN conjunct2, THEN conjunct1, rule_format]
lemmas read_u8 = read_at_def [THEN iffD1, THEN conjunct2, THEN conjunct2, THEN conjunct2, THEN conjunct1, rule_format]
lemmas read_u32 = read_at_def [THEN iffD1, THEN conjunct2, THEN conjunct2, THEN conjunct2, THEN conjunct2, THEN conjunct1, rule_format]
lemmas read_u16 = read_at_def [THEN iffD1, THEN conjunct2, THEN conjunct2, THEN conjunct2, THEN conjunct2, THEN conjunct2, THEN conjunct1, rule_format]
lemmas read_bytes = read_at_def [THEN iffD1, THEN conjunct2, THEN conjunct2, THEN conjunct2, THEN conjunct2, THEN conjunct2, THEN conjunct2, THEN conjunct1, rule_format]
lemmas read_health = read_at_def [THEN iffD1, THEN conjunct2, THEN conjunct2, THEN conjunct2, THEN conjunct2, THEN conjunct2, THEN conjunct2, THEN conjunct2, THEN conjunct1, rule_format]
lemmas read_mode = read_at_def [THEN iffD1, THEN conjunct2, THEN conjunct2, THEN conjunct2, THEN conjunct2, THEN conjunct2, THEN conjunct2, THEN conjunct2, THEN conjunct2, rule_format]

lemmas composite_read = composites_read_def [THEN iffD1, rule_format]

fun health_code :: "health \<Rightarrow> u8" where
  "health_code Nominal_health = 0" | "health_code Advisory = 1" | "health_code Caution = 2" | "health_code Warning = 3"

fun mode_code :: "mode \<Rightarrow> u8" where
  "mode_code Operational = 0" | "mode_code Initialization = 1" | "mode_code Maintenance = 2" | "mode_code SoftwareUpdate = 3"

lemma health_write: "health_serialize W h = wc_write_u2 W (health_code h)"
  by (cases h) simp_all

lemma mode_write: "mode_serialize W m = wc_write_u3 W (mode_code m)"
  by (cases m) simp_all

text \<open>The bits of a heartbeat: each of health and mode fills a byte with some bits.\<close>

lemma heartbeat_written:
  assumes law: "write_law W" and B: "length buffer = 7"
  shows "\<exists>a b. length a = 6 \<and> length b = 5 \<and> length (to_bytes W (heartbeat_serialize W h) buffer) = 7 \<and>
    bits_of_bytes (to_bytes W (heartbeat_serialize W h) buffer) =
      bits_of 32 (hbt_uptime h) @ bits_of 2 (health_code (hbt_health h)) @ a @ bits_of 3 (mode_code (hbt_mode h)) @ b @
      bits_of 8 (hbt_vendor_specific_status_code h)"
proof -
  obtain at where at: "written_at W at" using law unfolding write_law_def by blast
  let ?up = "bits_of 32 (hbt_uptime h)" and ?he = "bits_of 2 (health_code (hbt_health h))" and ?mo = "bits_of 3 (mode_code (hbt_mode h))"
  define w1 where "w1 = wc_write_aligned_u32 W (hbt_uptime h) (wc_new W buffer)"
  define w2 where "w2 = wc_write_composite W (health_serialize W (hbt_health h)) w1"
  define w3 where "w3 = wc_write_composite W (mode_serialize W (hbt_mode h)) w2"
  have at1: "at w1 ?up 7" using written_u32 [OF at written_new [OF at, of buffer]] B by (simp add: w1_def)
  have "at (health_serialize W (hbt_health h) w1) (?up @ ?he) 7" using written_u2 [OF at at1] by (simp add: health_write)
  from composite_written [OF written_composites [OF at] at1, of "health_serialize W (hbt_health h)", OF _ this]
  obtain a where a: "length a = 6" and at2: "at w2 (?up @ ?he @ a) 7"
    by (auto simp: w2_def round_up_def)
  have "at (mode_serialize W (hbt_mode h) w2) ((?up @ ?he @ a) @ ?mo) 7" using written_u3 [OF at at2] a by (simp add: mode_write)
  from composite_written [OF written_composites [OF at] at2, of "mode_serialize W (hbt_mode h)", OF _ this] a
  obtain b where b: "length b = 5" and at3: "at w3 (?up @ ?he @ a @ ?mo @ b) 7"
    by (auto simp: w3_def round_up_def)
  let ?w4 = "wc_write_aligned_u8 W (hbt_vendor_specific_status_code h) w3"
  have at4: "at ?w4 (?up @ ?he @ a @ ?mo @ b @ bits_of 8 (hbt_vendor_specific_status_code h)) 7"
    using written_u8 [OF at at3] a b by simp
  have "to_bytes W (heartbeat_serialize W h) buffer = wc_buffer W ?w4"
    by (simp add: to_bytes_def heartbeat_serialize_def w1_def w2_def w3_def Let_def)
  then show ?thesis using written_buffer [OF at at4] a b by auto
qed

text \<open>Reading: a known composite, and the heartbeat that was written.\<close>

lemma heartbeat_read:
  assumes law: "read_law R" and ab: "length a = 6" "length b = 5"
    and bytes: "bits_of_bytes bytes = bits_of 32 (hbt_uptime h) @ bits_of 2 (health_code (hbt_health h)) @ a @
      bits_of 3 (mode_code (hbt_mode h)) @ b @ bits_of 8 (hbt_vendor_specific_status_code h) @ rest"
  shows "from_bytes R (heartbeat_deserialize R) bytes = Inr h"
proof -
  obtain at where at: "read_at R at" using law unfolding read_law_def by blast
  let ?bits = "bits_of_bytes bytes" and ?r0 = "rc_new R bytes"
  define r1 where "r1 = snd (rc_read_u32 R ?r0)"
  define r2 where "r2 = snd (rc_read_health R (health_deserialize R) r1)"
  define r3 where "r3 = snd (rc_read_mode R (mode_deserialize R) r2)"
  have one: "fst (rc_read_u32 R ?r0) = hbt_uptime h" "at r1 ?bits 32"
    using read_u32 [OF at read_new [OF at, of bytes]] by (simp_all add: r1_def bytes)
  have he: "fst (rc_read_u2 R r1) = health_code (hbt_health h)"
    using read_u2 [OF at one(2)] by (cases "hbt_health h") (simp_all add: bytes of_bits_small)
  have he2: "at (snd (rc_read_u2 R r1)) ?bits 34" using read_u2 [OF at one(2)] by simp
  have "fst (health_deserialize R r1) = Inr (hbt_health h)" "at (snd (health_deserialize R r1)) ?bits 34"
    using he he2 by (cases "hbt_health h"; simp add: health_deserialize_def split_beta Let_def)+
  then have two: "fst (rc_read_health R (health_deserialize R) r1) = Inr (hbt_health h)" "at r2 ?bits 40"
    using composite_read [OF read_health [OF at] one(2), of "health_deserialize R" 34] by (simp_all add: r2_def round_up_def)
  have mo: "fst (rc_read_u3 R r2) = mode_code (hbt_mode h)"
    using read_u3 [OF at two(2)] ab by (cases "hbt_mode h") (simp_all add: bytes of_bits_small)
  have mo2: "at (snd (rc_read_u3 R r2)) ?bits 43" using read_u3 [OF at two(2)] by simp
  have "fst (mode_deserialize R r2) = Inr (hbt_mode h)" "at (snd (mode_deserialize R r2)) ?bits 43"
    using mo mo2 by (cases "hbt_mode h"; simp add: mode_deserialize_def split_beta Let_def)+
  then have three: "fst (rc_read_mode R (mode_deserialize R) r2) = Inr (hbt_mode h)" "at r3 ?bits 48"
    using composite_read [OF read_mode [OF at] two(2), of "mode_deserialize R" 43] by (simp_all add: r3_def round_up_def)
  have "fst (rc_read_u8 R r3) = hbt_vendor_specific_status_code h"
    using read_u8 [OF at three(2)] ab by (simp add: bytes)
  then show ?thesis using one(1) two(1) three(1)
    by (simp add: from_bytes_def heartbeat_deserialize_def split_beta Let_def r1_def r2_def r3_def)
qed

text \<open>A byte array.\<close>

lemma byte_array_written:
  assumes law: "write_law W" and len: "length (ba_bytes b) \<le> 256" and B: "length buffer = 258"
  shows "\<exists>w. byte_array_serialize W b (wc_new W buffer) = Some w \<and> length (wc_buffer W w) = 258 \<and>
    bits_of_bytes (take (2 + length (ba_bytes b)) (wc_buffer W w)) =
      bits_of 16 (of_nat (length (ba_bytes b)) :: u16) @ bits_of_bytes (ba_bytes b)"
proof -
  obtain at where at: "written_at W at" using law unfolding write_law_def by blast
  let ?len = "of_nat (length (ba_bytes b)) :: u16"
  let ?w1 = "wc_write_aligned_u16 W ?len (wc_new W buffer)"
  let ?w2 = "wc_write_aligned_bytes W (ba_bytes b) ?w1"
  have "at ?w1 (bits_of 16 ?len) 258" using written_u16 [OF at written_new [OF at, of buffer]] B by simp
  then have "at ?w2 (bits_of 16 ?len @ bits_of_bytes (ba_bytes b)) 258"
    using written_bytes [OF at, of ?w1 "bits_of 16 ?len" 258 "ba_bytes b"] len by simp
  from written_buffer [OF at this] show ?thesis using len by (simp add: byte_array_serialize_def)
qed

lemma take_drop_bytes: "i < length bs \<Longrightarrow> take 8 (drop (8 * i) (bits_of_bytes bs @ rest)) = bits_of 8 (bs ! i)"
proof (induction bs arbitrary: i)
  case (Cons b bs)
  then show ?case by (cases i) (simp_all add: bits_of_bytes_def)
qed simp

lemma byte_array_read:
  assumes law: "read_law R" and len: "length (ba_bytes b) \<le> 256"
    and bytes: "bits_of_bytes bytes = bits_of 16 (of_nat (length (ba_bytes b)) :: u16) @ bits_of_bytes (ba_bytes b) @ rest"
  shows "from_bytes R (byte_array_deserialize R) bytes = Inr b"
proof -
  obtain at where at: "read_at R at" using law unfolding read_law_def by blast
  let ?r0 = "rc_new R bytes"
  have one: "fst (rc_read_aligned_u16 R ?r0) = of_nat (length (ba_bytes b))" "at (snd (rc_read_aligned_u16 R ?r0)) (bits_of_bytes bytes) 16"
    using read_u16 [OF at read_new [OF at, of bytes]] by (simp_all add: bytes)
  have n: "unat (of_nat (length (ba_bytes b)) :: u16) = length (ba_bytes b)" using len by (simp add: unat_of_nat)
  have "of_bits (take 8 (drop (16 + 8 * i) (bits_of_bytes bytes))) = ba_bytes b ! i" if "i < length (ba_bytes b)" for i
    using take_drop_bytes [OF that, of rest] by (simp add: bytes)
  then have "map (\<lambda>i. of_bits (take 8 (drop (16 + 8 * i) (bits_of_bytes bytes)))) [0..<length (ba_bytes b)] = ba_bytes b"
    by (intro nth_equalityI) auto
  then have "fst (rc_read_bytes R (length (ba_bytes b)) (snd (rc_read_aligned_u16 R ?r0))) = ba_bytes b"
    using read_bytes [OF at one(2), of "length (ba_bytes b)"] by simp
  then show ?thesis using len one(1) n
    by (cases b) (simp add: from_bytes_def byte_array_deserialize_def split_beta Let_def)
qed

text \<open>What is refused: the other values of the three bits of a mode, and the length of a longer array.\<close>

lemma refused:
  "fst (rc_read_u3 R r) > 3 \<Longrightarrow> fst (mode_deserialize R r) = Inl UnionTag"
  "fst (rc_read_aligned_u16 R r) > 256 \<Longrightarrow> fst (byte_array_deserialize R r) = Inl ArrayLength"
  by (auto simp: mode_deserialize_def byte_array_deserialize_def split_beta Let_def word_less_nat_alt)

text \<open>
  C37: The data types of the stack survive their encoding. A heartbeat takes its seven bytes, and
  a byte array of at most 256 bytes its length and its bytes; whoever reads them, with
  whatever follows in a padded frame, gets the same value, for every content of the buffer before.
\<close>

theorem data_types_roundtrip:
  assumes "write_law W" "read_law R" "length buffer = 7" "length buffer' = 258" "length (ba_bytes b) \<le> 256"
  shows "from_bytes R (heartbeat_deserialize R)
      (take (div_ceil (heartbeat_size_bits h) 8) (to_bytes W (heartbeat_serialize W h) buffer) @ padding) = Inr h \<and>
    (\<exists>w. byte_array_serialize W b (wc_new W buffer') = Some w \<and>
      from_bytes R (byte_array_deserialize R) (take (div_ceil (byte_array_size_bits b) 8) (wc_buffer W w) @ padding) = Inr b)"
proof
  let ?h = "to_bytes W (heartbeat_serialize W h) buffer"
  obtain c d where w: "length c = 6" "length d = 5" "length ?h = 7" "bits_of_bytes ?h =
      bits_of 32 (hbt_uptime h) @ bits_of 2 (health_code (hbt_health h)) @ c @ bits_of 3 (mode_code (hbt_mode h)) @ d @
      bits_of 8 (hbt_vendor_specific_status_code h)" using heartbeat_written [OF assms(1,3)] by blast
  have "take (div_ceil (heartbeat_size_bits h) 8) ?h = ?h" using w(3) by (simp add: heartbeat_size_bits_def div_ceil_def)
  then show "from_bytes R (heartbeat_deserialize R) (take (div_ceil (heartbeat_size_bits h) 8) ?h @ padding) = Inr h"
    using heartbeat_read [OF assms(2) w(1,2), of "?h @ padding"] w(4) by simp
  obtain w where w: "byte_array_serialize W b (wc_new W buffer') = Some w" "length (wc_buffer W w) = 258"
    "bits_of_bytes (take (2 + length (ba_bytes b)) (wc_buffer W w)) =
      bits_of 16 (of_nat (length (ba_bytes b)) :: u16) @ bits_of_bytes (ba_bytes b)"
    using byte_array_written [OF assms(1,5,4)] by blast
  have "div_ceil (byte_array_size_bits b) 8 = 2 + length (ba_bytes b)" by (simp add: byte_array_size_bits_def div_ceil_def)
  then show "\<exists>w. byte_array_serialize W b (wc_new W buffer') = Some w \<and>
      from_bytes R (byte_array_deserialize R) (take (div_ceil (byte_array_size_bits b) 8) (wc_buffer W w) @ padding) = Inr b"
    using w byte_array_read [OF assms(2,5), of "take (2 + length (ba_bytes b)) (wc_buffer W w) @ padding"] by auto
qed

subsection \<open>Cursors that do so\<close>

definition bytes_of_bits :: "bool list \<Rightarrow> u8 list" where
  "bytes_of_bits bits = map (\<lambda>i. of_bits (take 8 (drop (8 * i) bits))) [0..<length bits div 8]"

definition append_bits :: "nat \<Rightarrow> 'v :: len word \<Rightarrow> bool list \<times> u8 list \<Rightarrow> bool list \<times> u8 list" where
  "append_bits n v = (\<lambda>(bits, buffer). (bits @ bits_of n v, buffer))"

definition fetch_bits :: "nat \<Rightarrow> bool list \<times> nat \<Rightarrow> 'v :: len word \<times> bool list \<times> nat" where
  "fetch_bits n = (\<lambda>(bits, p). (of_bits (take n (drop p bits)), bits, p + n))"

definition fetch_composite :: "(bool list \<times> nat \<Rightarrow> 'a \<times> bool list \<times> nat) \<Rightarrow> bool list \<times> nat \<Rightarrow> 'a \<times> bool list \<times> nat" where
  "fetch_composite f r = (let (v, bits, p) = f r in (v, bits, round_up p))"

definition plain_write :: "(bool list \<times> u8 list) write_cursor" where
  "plain_write = \<lparr> wc_new = \<lambda>buffer. ([], buffer),
     wc_buffer = \<lambda>(bits, buffer). bytes_of_bits bits @ drop (length bits div 8) buffer,
     wc_write_u2 = append_bits 2, wc_write_u3 = append_bits 3, wc_write_aligned_u8 = append_bits 8,
     wc_write_aligned_u16 = append_bits 16, wc_write_aligned_u32 = append_bits 32,
     wc_write_aligned_bytes = \<lambda>bytes (bits, buffer). (bits @ bits_of_bytes bytes, buffer),
     wc_write_composite = \<lambda>f w. let (bits, buffer) = f w in
       (bits @ replicate (round_up (length bits) - length bits) True, buffer) \<rparr>"

definition plain_read :: "(bool list \<times> nat) read_cursor" where
  "plain_read = \<lparr> rc_new = \<lambda>bytes. (bits_of_bytes bytes, 0), rc_read_u2 = fetch_bits 2, rc_read_u3 = fetch_bits 3,
     rc_read_u8 = fetch_bits 8, rc_read_u32 = fetch_bits 32, rc_read_aligned_u16 = fetch_bits 16,
     rc_read_bytes = \<lambda>n (bits, p). (map (\<lambda>i. of_bits (take 8 (drop (p + 8 * i) bits))) [0..<n], bits, p + 8 * n),
     rc_read_health = fetch_composite, rc_read_mode = fetch_composite \<rparr>"

lemma bits_of_of_bits: "length xs = n \<Longrightarrow> n \<le> LENGTH('a) \<Longrightarrow> bits_of n (of_bits xs :: 'a :: len word) = xs"
  by (rule nth_equalityI) (auto simp: bits_of_def bit_of_bits)

lemma bits_of_bytes_of_bits:
  assumes "8 dvd length bits"
  shows "bits_of_bytes (bytes_of_bits bits) = bits"
proof -
  have "bits_of_bytes (map (\<lambda>i. of_bits (take 8 (drop (8 * i) bits))) [0..<n]) = take (8 * n) bits" if "8 * n \<le> length bits" for n
    using that
  proof (induction n)
    case (Suc n)
    then have "bits_of 8 (of_bits (take 8 (drop (8 * n) bits)) :: u8) = take 8 (drop (8 * n) bits)" by (simp add: bits_of_of_bits)
    then show ?case using Suc take_add [of "8 * n" 8 bits] by (simp add: bits_of_bytes_def add.commute)
  qed (simp add: bits_of_bytes_def)
  from this [of "length bits div 8"] assms show ?thesis by (simp add: bytes_of_bits_def)
qed

lemma length_bytes_of_bits: "length (bytes_of_bits bits) = length bits div 8"
  by (simp add: bytes_of_bits_def)

lemma plain_laws: "write_law plain_write" "read_law plain_read"
proof -
  have up: "n \<le> round_up n" "n \<le> 8 * B \<Longrightarrow> round_up n \<le> 8 * B" for n B by (auto simp: round_up_def)
  let ?at = "\<lambda>w bits' B. bits' = fst w \<and> length (snd w) = B \<and> length (fst w) \<le> 8 * B"
  have "composites_written plain_write ?at"
    unfolding composites_written_def
  proof (intro allI impI)
    fix w :: "bool list \<times> u8 list" and bits B and f :: "bool list \<times> u8 list \<Rightarrow> bool list \<times> u8 list" and added
    assume "?at (f w) (bits @ added) B"
    then show "\<exists>pad. length (bits @ added @ pad) = round_up (length (bits @ added)) \<and> ?at (wc_write_composite plain_write f w) (bits @ added @ pad) B"
      by (intro exI [of _ "replicate (round_up (length (bits @ added)) - length (bits @ added)) True"])
        (auto simp: plain_write_def split_beta Let_def up simp flip: append_assoc)
  qed
  then have "written_at plain_write ?at"
    unfolding written_at_def
    by (auto simp: plain_write_def append_bits_def bits_of_bytes_of_bits split_beta length_bytes_of_bits)
  then show "write_law plain_write" unfolding write_law_def by blast
  have "read_at plain_read (\<lambda>r bits p. r = (bits, p))"
    unfolding read_at_def composites_read_def
    by (auto simp: plain_read_def fetch_bits_def fetch_composite_def split_beta Let_def)
  then show "read_law plain_read" unfolding read_law_def by blast
qed

lemma data_types_roundtrip_witness:
  "from_bytes plain_read (heartbeat_deserialize plain_read)
      (take (div_ceil (heartbeat_size_bits \<lparr> hbt_uptime = 70000, hbt_health = Caution, hbt_mode = Maintenance,
         hbt_vendor_specific_status_code = 9 \<rparr>) 8)
       (to_bytes plain_write (heartbeat_serialize plain_write \<lparr> hbt_uptime = 70000, hbt_health = Caution, hbt_mode = Maintenance,
         hbt_vendor_specific_status_code = 9 \<rparr>) (replicate 7 0xAA)) @ [0, 0]) =
      Inr \<lparr> hbt_uptime = 70000, hbt_health = Caution, hbt_mode = Maintenance, hbt_vendor_specific_status_code = 9 \<rparr> \<and>
    (\<exists>w. byte_array_serialize plain_write (ByteArray [1, 2, 3]) (wc_new plain_write (replicate 258 0)) = Some w \<and>
      from_bytes plain_read (byte_array_deserialize plain_read)
        (take (div_ceil (byte_array_size_bits (ByteArray [1, 2, 3])) 8) (wc_buffer plain_write w) @ [0, 0]) = Inr (ByteArray [1, 2, 3]))"
  by (rule data_types_roundtrip [OF plain_laws]) simp_all

end
