(* ===== verification/Spec2Isabelle.thy ===== *)
theory Spec2Isabelle
  imports Transport Gather_Spec Container_Specs Rx_Fifo Rx_Watch Tx_Registry_Specs Rx_Registry_Specs
    Rx_Requests Rx_Loop_Back Node_Specs Heartbeats Native_Filters Native_Tx_Specs Em_Specs Em_Tx_Specs Data_Types
begin

text \<open>
  A model of \<open>emcyphal\<close>, a Cyphal/CAN stack for microcontrollers, with the theorems that make it
  correct. The paths below are those of the repository, and start at \<open>emcyphal/src\<close> where they name
  no crate.

  \<^bold>\<open>The program.\<close> A program publishes and subscribes to messages and answers requests through the
  sockets of \<open>emcyphal/src/socket.rs\<close>. A socket works on an endpoint, an endpoint on a buffer of a
  fixed size: the buffers of senders cut a transfer into frames (\<open>Scatter\<close>), those of receivers
  assemble transfers from frames (\<open>Gather\<close>). The registries of a node link the buffers of all
  endpoints: they give a received frame to the buffers it concerns, choose the frame to send next,
  and tell the driver which subjects and which address to filter for. A driver moves frames between
  the node and the FDCAN peripheral of an STM32; there are two of them. Driver and sockets are
  asynchronous tasks that share a node, and take turns at its registries, one lock at a time.

  \<^bold>\<open>How it is modelled.\<close> An operation is a function on the record of its state; a chain of operations
  is a list of them in any order, so that a theorem about all lists is about all interleavings of
  the tasks, a lock of a registry being held for one operation. Code that can panic (\<open>unwrap!\<close>,
  \<open>assert!\<close>, indices out of range, overflow of \<open>usize\<close> and \<open>u8\<close> counters) returns \<open>'a exec\<close>, an
  option, with \<open>panic\<close> for \<open>None\<close>; the \<open>Result\<close> and \<open>Poll\<close> values of the code are data beside it. Integers whose
  width matters are words: identifiers, priority sets, checksums, tail bytes, CAN identifiers,
  instants, registers. Arrays are lists of a fixed length that are indexed with a check; the
  containers of the crates \<open>heapless\<close> and \<open>intrusive_collections\<close> are lists and maps from addresses
  to entries, with the panics their documentation has. A waker that is registered or called is an
  item of a list of calls. \<open>PriorityTrigger\<close> and the \<open>poll\<close> functions are modelled, \<open>async\<close>
  functions are the loops over their polls.

  \<^bold>\<open>Loops.\<close> A \<open>for\<close> loop is \<open>for_each\<close>, a recursion over the list it runs through; iterators over bit
  sets are functions with a termination proof by the number of members. The loops that may not end
  (fetching an update until there is one, skipping transfers that cannot be read) are
  \<open>partial_function (option)\<close>, where not to return is \<open>None\<close>, as a panic is: each theorem about
  them says that the result is \<open>Some\<close>, so that they end and do not panic. There is no fuel. The loop
  of the responder, which may spin forever, is a step function with its own theorem about that.

  \<^bold>\<open>The theories\<close>, from the bottom to the top:

  \<^item> \<open>Prelude\<close>: words, \<open>exec\<close>, arrays, slices and loops. \<open>Simulation\<close>: a locale for containers that
    refine an abstract machine.
  \<^item> \<open>Core_Types\<close> (\<open>emcyphal-core/src/lib.rs\<close>), \<open>Frames\<close> (\<open>emcyphal-driver/src/frame.rs\<close>, \<open>link.rs\<close>),
    \<open>Transfer_Format\<close> (\<open>emcyphal/src/format.rs\<close>): priorities and their sets, identifiers, data lengths,
    headers, frames, the transfer checksum and the tail byte.
  \<^item> \<open>Scatter\<close>, \<open>Gather\<close> (\<open>buffer/scatter.rs\<close>, \<open>buffer/gather.rs\<close>): segmentation and reassembly;
    \<open>Gather_Spec\<close> has the documented rules R1 to R12 as an abstract machine that \<open>Gather\<close> refines,
    but for the frames of which rule 4 and the code disagree, \<open>Transport\<close> the theorems on both together.
  \<^item> \<open>Multi_Queue\<close>, \<open>Priority_Queue\<close>, \<open>Index_Queue\<close> (\<open>emcyphal/src/utils.rs\<close> and \<open>utils/\<close>), \<open>Intrusive\<close>:
    the containers; \<open>Container_Specs\<close> refines the first three by lists and maps.
  \<^item> \<open>Rx_Sessions\<close>, \<open>Rx_Buffer\<close>, \<open>Rx_Fifo\<close>, \<open>Rx_Watch\<close> (\<open>buffer/rx_priority_fifo.rs\<close>, \<open>buffer/rx_msg/watch.rs\<close>):
    the contract of a receive buffer as a locale, and the two buffers that interpret it.
  \<^item> \<open>Tx_Buffer\<close>, \<open>Tx_Message\<close>, \<open>Tx_Signal\<close>, \<open>Tx_Response\<close> (\<open>buffer/tx_msg/\<close>, \<open>buffer/tx_resp/\<close>), \<open>Tx_Delivery\<close>:
    the contract of a transmit buffer, the three buffers that interpret it, and what a receiver
    gets from them.
  \<^item> \<open>Rx_Registry\<close> with \<open>_Filter\<close>, \<open>_Inv\<close>, \<open>_Ops\<close>, \<open>_Run\<close>, \<open>_Specs\<close>, \<open>Rx_Loop_Back\<close>, \<open>Rx_Requests\<close>
    (\<open>registry/rx_msg.rs\<close>, \<open>rx_req.rs\<close>): the registries of the receivers with the updates of the
    filter, their invariants and every operation under any interleaving.
  \<^item> \<open>Tx_Queue\<close>, \<open>Tx_Hub\<close>, \<open>Tx_Dyn\<close>, \<open>Tx_Hosted\<close>, \<open>Tx_Registry\<close> with \<open>_Run\<close>, \<open>_Specs\<close>
    (\<open>registry/tx_queue.rs\<close>, \<open>tx_msg.rs\<close>, \<open>tx_resp.rs\<close>): the registries of the senders, over any
    buffer behind \<open>dyn DynamicTxBuffer\<close> that keeps the contract.
  \<^item> \<open>Nodes\<close>, \<open>Node_Run\<close>, \<open>Node_Specs\<close> (\<open>node.rs\<close>, \<open>node/\<close>), \<open>Sockets\<close>, \<open>Socket_Specs\<close> (\<open>endpoint.rs\<close>,
    \<open>socket.rs\<close>), \<open>Heartbeats\<close> (\<open>node/minimal_node.rs\<close>), \<open>Data_Types\<close> (\<open>data_types/\<close>): what crosses a node, the
    handles of a program, the task of a minimal node, and the encoding of the stack's own types.
  \<^item> \<open>Can_Id\<close>, \<open>Native_Ram\<close>, \<open>Native_Filters\<close>, \<open>Native_Utils\<close>, \<open>Native_Driver\<close>, \<open>Native_Tx_Specs\<close>
    (\<open>emcyphal-stm32-native/src\<close>): the CAN identifiers, the message RAM and the transfer of frames
    into and out of it, the filters, and the tasks of the native driver.
  \<^item> \<open>Em_Driver\<close>, \<open>Em_Specs\<close>, \<open>Em_Tx_Specs\<close> (\<open>emcyphal-stm32-embassy/src\<close>): the driver over \<open>embassy-stm32\<close>.
\<close>

text \<open>
  \<^bold>\<open>What is proved.\<close> Transport: what \<open>Scatter\<close> cuts, with any MTUs, \<open>Gather\<close> assembles; replicas of
  redundant interfaces change nothing; a corrupted byte is detected; the table of \<open>Gather\<close> implements the
  documented rules, but for the repeated frames of a bad length, which it skips. Buffers: no
  interleaving of driver and task makes a buffer with at least one session slot panic; which
  transfer a frame completes, and whether it is taken, displaced or kept; what is accepted for
  sending reaches a receiver whole. Registries and nodes: every operation succeeds in every state that is
  reached; frames go to the buffers they concern and to no other; the filter of the driver becomes
  the subjects of the endpoints; the frame sent is the one of the documented order, transfers of a
  priority are not interleaved; fetching an update ends. Containers: the linked arrays are lists and maps. Sockets: transfer identifiers, the
  answers of a responder, the heartbeat; the types are read back as they were written. Drivers:
  identifiers and elements carry a frame unchanged, arbitration follows the priorities, the filters let pass what was asked for, the transmit
  tasks do not panic, timestamps are exact. Where the code does not do what it means to, a theorem
  shows it on a state that is reached: a responder that starves the executor, subject slots that are lost in
  every state, or counted twice until the native driver panics, a signal that drops a message, the
  late report of any frame that was given up, which stops the transmit task, an urgent response
  that waits for a message, a FIFO without sessions, a queue of 256 classes, a freed filter that
  accepts subject 0.

  \<^bold>\<open>Locales.\<close> \<open>simulation\<close>, \<open>class_queue\<close>, \<open>rx_buffer\<close>, \<open>rx_hosted\<close>, \<open>tx_buffer\<close>, \<open>tx_source\<close>, \<open>tx_hosted\<close>
  and \<open>tx_single\<close> are the contracts between the components. Each is interpreted on the model of the
  code that provides it; the laws are discharged there, and the properties use the facts of the
  interpretations. The clients get \<open>dyn\<close> buffers as a sum of the buffers of the crate.

  \<^bold>\<open>Bounds.\<close> The payload of a transfer, the capacities and the numbers of slots are parameters, limited
  where the code limits them: indices are \<open>u8\<close>, so that a container holds at most 255 elements. The
  native driver has the sizes of the G4 family: 7 message filters of two subjects each, one service
  filter, 3 transmit buffers. The number of filters of the other driver is a parameter, as its
  constant stands in \<open>embassy-stm32\<close>.

  \<^bold>\<open>Parameters.\<close> The serialization of a payload is a function that the sockets take; that of
  the stack's own types is modelled over the cursors of \<open>canadensis_encoding\<close>, a crate outside.
  \<open>select\<close> is a parameter too: it may poll one future only or both, as the first one ends, and its
  choice between two that are ready is arbitrary (\<open>selector\<close>). The peripherals are the environment of the tasks: what they read is an argument of a round,
  and what a theorem demands of it is a named hypothesis that states what the manual or the crate
  documents (\<open>write_law\<close>, \<open>read_law\<close>, \<open>carried\<close>, \<open>event_of\<close>, \<open>filter_law\<close>, \<open>tx_env\<close>, \<open>bit_mask_law\<close>, \<open>can_law\<close>, \<open>em_env\<close>,
  \<open>select_law\<close>), with a witness at a crate or a peripheral that satisfies it.

  \<^bold>\<open>Not modelled.\<close> The structs around the receive buffers (\<open>buffer/rx_msg/priority_fifo.rs\<close>,
  \<open>buffer/rx_req/\<close>), which own storage and erase types; the registration handles and the trait objects of
  \<open>emcyphal-driver\<close>, which only forward. In the native driver: volatile access, clocks, pins, bit
  timing, interrupts and the wakers they call, the initialization of the peripheral, standard
  filters and the accessors of the message RAM that nothing uses. In the other driver: \<open>bind\<close> and
  the endless loop around \<open>fetch_frame\<close>. Logging macros, examples, build files and the unit tests
  are left out, as is the memory safety of the \<open>unsafe\<close> blocks, for which the model has no addresses
  beyond those of linked entries.
\<close>

end
